(* ===== verification/C_Prelude.thy ===== *)
theory C_Prelude
  imports Main "HOL-Library.Word" "HOL-Library.Monad_Syntax"
begin

text \<open>
  The fragment of C that the models of this development share: an execution is a value of type
  \<open>'a option\<close>, where \<open>None\<close> is an execution with no defined result (an access outside an array, a
  failed \<open>assert\<close>, a loop that never ends), arrays are lists read and written through a bounds
  check, \<open>for\<close> and \<open>while\<close> loops are the two combinators below.  \<open>returns\<close> is total correctness:
  the execution has a result and the result satisfies the postcondition.
\<close>

unbundle bit_operations_syntax

named_theorems c_simps \<open>symbolic execution of the C fragment\<close>

section \<open>Total correctness of executions\<close>

definition returns :: "'a option \<Rightarrow> ('a \<Rightarrow> bool) \<Rightarrow> bool" where
  "returns m Q = (case m of None \<Rightarrow> False | Some x \<Rightarrow> Q x)"

lemma returns_Some [simp, c_simps]: "returns (Some x) Q = Q x"
  by (simp add: returns_def)

lemma returns_None [simp, c_simps]: "returns None Q = False"
  by (simp add: returns_def)

lemma returns_bind [simp, c_simps]:
  "returns (m \<bind> f) Q = returns m (\<lambda>x. returns (f x) Q)"
  by (cases m) auto

lemma returns_if [c_simps]:
  "returns (if b then m else n) Q = (if b then returns m Q else returns n Q)"
  by simp

lemma returns_iff: "returns m Q \<longleftrightarrow> (\<exists>x. m = Some x \<and> Q x)"
  by (cases m) auto

lemma returns_mono: "returns m P \<Longrightarrow> (\<And>x. P x \<Longrightarrow> Q x) \<Longrightarrow> returns m Q"
  by (cases m) auto

lemma returns_bindI:
  "returns m P \<Longrightarrow> (\<And>x. P x \<Longrightarrow> returns (f x) Q) \<Longrightarrow> returns (m \<bind> f) Q"
  by (cases m) auto

lemma returns_conj: "returns m P \<Longrightarrow> returns m Q \<Longrightarrow> returns m (\<lambda>x. P x \<and> Q x)"
  by (cases m) auto

lemma returnsE: "returns m Q \<Longrightarrow> (\<And>x. m = Some x \<Longrightarrow> Q x \<Longrightarrow> R) \<Longrightarrow> R"
  by (cases m) auto

section \<open>Assertions\<close>

definition c_assert :: "bool \<Rightarrow> unit option" where
  "c_assert b = (if b then Some () else None)"

lemma c_assert_True [simp, c_simps]: "b \<Longrightarrow> c_assert b = Some ()"
  by (simp add: c_assert_def)

lemma c_assert_False [simp]: "\<not> b \<Longrightarrow> c_assert b = None"
  by (simp add: c_assert_def)

lemma returns_assert [simp, c_simps]: "returns (c_assert b) Q = (b \<and> Q ())"
  by (simp add: c_assert_def)

lemma c_assert_bind_eq_Some [simp]:
  "(c_assert b \<bind> f) = Some x \<longleftrightarrow> b \<and> f () = Some x"
  by (cases b) auto

section \<open>Arrays\<close>

definition aget :: "'a list \<Rightarrow> int \<Rightarrow> 'a option" where
  "aget xs i = (if 0 \<le> i \<and> i < int (length xs) then Some (xs ! nat i) else None)"

definition aset :: "'a list \<Rightarrow> int \<Rightarrow> 'a \<Rightarrow> 'a list option" where
  "aset xs i v = (if 0 \<le> i \<and> i < int (length xs) then Some (xs[nat i := v]) else None)"

lemma aget_in [simp]: "0 \<le> i \<Longrightarrow> i < int (length xs) \<Longrightarrow> aget xs i = Some (xs ! nat i)"
  by (simp add: aget_def)

lemma aset_in [simp]: "0 \<le> i \<Longrightarrow> i < int (length xs) \<Longrightarrow> aset xs i v = Some (xs[nat i := v])"
  by (simp add: aset_def)

lemma returns_aget [simp, c_simps]:
  "returns (aget xs i) Q = (0 \<le> i \<and> i < int (length xs) \<and> Q (xs ! nat i))"
  by (auto simp: aget_def)

lemma returns_aset [simp, c_simps]:
  "returns (aset xs i v) Q = (0 \<le> i \<and> i < int (length xs) \<and> Q (xs[nat i := v]))"
  by (auto simp: aset_def)

lemma aget_eq_Some [simp]:
  "aget xs i = Some v \<longleftrightarrow> 0 \<le> i \<and> i < int (length xs) \<and> v = xs ! nat i"
  by (auto simp: aget_def)

lemma aset_eq_Some [simp]:
  "aset xs i v = Some ys \<longleftrightarrow> 0 \<le> i \<and> i < int (length xs) \<and> ys = xs[nat i := v]"
  by (auto simp: aset_def)

lemma aset_aget_same: "aset xs i v = Some ys \<Longrightarrow> aget ys i = Some v"
  by auto

lemma aset_aget_other: "aset xs i v = Some ys \<Longrightarrow> i \<noteq> j \<Longrightarrow> aget ys j = aget xs j"
  by (auto simp: aget_def)

lemma nth_update_int:
  "0 \<le> i \<Longrightarrow> 0 \<le> j \<Longrightarrow> xs[nat i := x] ! nat j = (if i = j \<and> j < int (length xs) then x else xs ! nat j)"
  by (cases "i = j") (simp_all add: list_update_beyond nat_less_iff not_less)

section \<open>Integer division\<close>

text \<open>C division rounds towards zero.\<close>

definition c_quot :: "int \<Rightarrow> int \<Rightarrow> int" where
  "c_quot a b = sgn a * sgn b * (\<bar>a\<bar> div \<bar>b\<bar>)"

definition c_rem :: "int \<Rightarrow> int \<Rightarrow> int" where
  "c_rem a b = a - b * c_quot a b"

lemma c_quot_nonneg [simp]: "0 \<le> a \<Longrightarrow> 0 < b \<Longrightarrow> c_quot a b = a div b"
  by (auto simp: c_quot_def sgn_if)

lemma c_rem_nonneg [simp]: "0 \<le> a \<Longrightarrow> 0 < b \<Longrightarrow> c_rem a b = a mod b"
  by (simp add: c_rem_def minus_mult_div_eq_mod)

lemma sint_small:
  fixes w :: "'a::len word"
  assumes "unat w < 2 ^ (LENGTH('a) - 1)"
  shows "sint w = int (unat w)"
proof -
  have "uint w < 2 ^ (LENGTH('a) - 1)" using assms by (metis of_nat_less_numeral_power_cancel_iff uint_nat)
  moreover have "- (2 ^ (LENGTH('a) - 1)) \<le> uint w"
    using uint_ge_0 [of w] by (rule order_trans [rotated]) simp
  ultimately show ?thesis
    by (simp add: sint_uint signed_take_bit_int_eq_self)
qed

section \<open>Loops\<close>

text \<open>\<open>for_range lo hi body\<close> is \<open>for (i = lo; i < hi; ++i) body\<close> where the body writes neither
  \<open>i\<close> nor \<open>hi\<close>.\<close>

primrec for_each :: "('i \<Rightarrow> 's \<Rightarrow> 's option) \<Rightarrow> 'i list \<Rightarrow> 's \<Rightarrow> 's option" where
  "for_each body [] s = Some s"
| "for_each body (i # is) s = body i s \<bind> for_each body is"

definition for_range :: "int \<Rightarrow> int \<Rightarrow> (int \<Rightarrow> 's \<Rightarrow> 's option) \<Rightarrow> 's \<Rightarrow> 's option" where
  "for_range lo hi body = for_each body [lo..hi - 1]"

lemma for_each_append:
  "for_each body (is @ js) s = for_each body is s \<bind> for_each body js"
  by (induction "is" arbitrary: s) (auto simp: bind_assoc split: Option.bind_splits)

lemma for_range_empty [simp]: "hi \<le> lo \<Longrightarrow> for_range lo hi body s = Some s"
  by (simp add: for_range_def)

lemma for_range_step:
  "lo < hi \<Longrightarrow> for_range lo hi body s = body lo s \<bind> for_range (lo + 1) hi body"
  by (simp add: for_range_def upto_rec1)

lemma for_range_last:
  "lo \<le> hi \<Longrightarrow> for_range lo (hi + 1) body s = for_range lo hi body s \<bind> body hi"
  by (cases "for_each body [lo..hi - 1] s")
    (auto simp: for_range_def upto_rec2 for_each_append split: Option.bind_splits)

lemma returns_for_each:
  assumes "I [] s"
    and "\<And>done i rest t. is = done @ i # rest \<Longrightarrow> I done t \<Longrightarrow>
           returns (body i t) (I (done @ [i]))"
  shows "returns (for_each body is s) (I is)"
proof -
  have "returns (for_each body js s) (I js)" if "is = js @ ks" for js ks
    using that
  proof (induction js arbitrary: ks rule: rev_induct)
    case Nil
    show ?case using assms(1) by simp
  next
    case (snoc j js)
    then have "returns (for_each body js s) (I js)" by auto
    then show ?case
      using assms(2) [of js j ks] snoc.prems
      by (auto simp: for_each_append elim!: returns_mono)
  qed
  then show ?thesis by simp
qed

theorem returns_for_range:
  assumes "I lo s" and "lo \<le> hi"
    and step: "\<And>i t. lo \<le> i \<Longrightarrow> i < hi \<Longrightarrow> I i t \<Longrightarrow> returns (body i t) (I (i + 1))"
  shows "returns (for_range lo hi body s) (I hi)"
proof -
  have "returns (for_range lo (lo + int n) body s) (I (lo + int n))" if "lo + int n \<le> hi" for n
    using that
  proof (induction n)
    case 0
    then show ?case using assms(1) by simp
  next
    case (Suc n)
    then have "returns (for_range lo (lo + int n) body s) (I (lo + int n))" by simp
    then show ?case
      using for_range_last [of lo "lo + int n" body s] step [of "lo + int n"] Suc.prems
      by (auto simp: add.assoc [symmetric] elim!: returns_mono)
        (simp add: add.commute add.left_commute returns_mono)
  qed
  from this [of "nat (hi - lo)"] show ?thesis using assms(2) by simp
qed

text \<open>The same rule with the postcondition weakened at the end.\<close>

lemma returns_rangeI:
  assumes "I lo s" and "lo \<le> hi"
    and "\<And>i t. lo \<le> i \<Longrightarrow> i < hi \<Longrightarrow> I i t \<Longrightarrow> returns (body i t) (I (i + 1))"
    and "\<And>t. I hi t \<Longrightarrow> Q t"
  shows "returns (for_range lo hi body s) Q"
  using returns_mono [OF returns_for_range [of I, OF assms(1-3)] assms(4)] .

partial_function (option) c_while :: "('s \<Rightarrow> bool option) \<Rightarrow> ('s \<Rightarrow> 's option) \<Rightarrow> 's \<Rightarrow> 's option" where
  "c_while b c s = b s \<bind> (\<lambda>t. if t then c s \<bind> (\<lambda>s'. c_while b c s') else Some s)"

declare c_while.simps [code]

lemma c_while_False: "b s = Some False \<Longrightarrow> c_while b c s = Some s"
  by (simp add: c_while.simps)

lemma c_while_True: "b s = Some True \<Longrightarrow> c_while b c s = c s \<bind> c_while b c"
  by (subst c_while.simps) simp

theorem returns_while:
  fixes f :: "'s \<Rightarrow> nat"
  assumes "I s"
    and guard: "\<And>t. I t \<Longrightarrow> \<exists>g. b t = Some g"
    and step: "\<And>t. I t \<Longrightarrow> b t = Some True \<Longrightarrow> returns (c t) (\<lambda>t'. I t' \<and> f t' < f t)"
  shows "returns (c_while b c s) (\<lambda>t. I t \<and> b t = Some False)"
  using assms(1)
proof (induction "f s" arbitrary: s rule: less_induct)
  case less
  from guard [OF less.prems] obtain g where g: "b s = Some g" by blast
  show ?case
  proof (cases g)
    case True
    with g less.prems step have "returns (c s) (\<lambda>t'. I t' \<and> f t' < f s)" by simp
    then obtain t where "c s = Some t" "I t" "f t < f s" by (auto simp: returns_iff)
    with less.hyps True g show ?thesis by (simp add: c_while_True)
  next
    case False
    with g less.prems show ?thesis by (simp add: c_while_False)
  qed
qed

text \<open>Partial correctness: what holds of the result of a loop, if it has one.\<close>

lemma while_result:
  fixes s t :: 's
  assumes "c_while b c s = Some t" "I s" "\<And>s s'. I s \<Longrightarrow> b s = Some True \<Longrightarrow> c s = Some s' \<Longrightarrow> I s'"
  shows "I t \<and> b t = Some False"
proof -
  have "b = b \<longrightarrow> c = c \<longrightarrow> I s \<longrightarrow> I t \<and> b t = Some False"
  proof (rule c_while.raw_induct [where P = "\<lambda>b' c' s t. b' = b \<longrightarrow> c' = c \<longrightarrow> I s \<longrightarrow> I t \<and> b t = Some False", OF _ assms(1)])
    fix w :: "('s \<Rightarrow> bool option) \<Rightarrow> ('s \<Rightarrow> 's option) \<Rightarrow> 's \<Rightarrow> 's option" and b' c' s t
    assume IH: "\<And>b' c' s t. w b' c' s = Some t \<Longrightarrow> b' = b \<longrightarrow> c' = c \<longrightarrow> I s \<longrightarrow> I t \<and> b t = Some False"
      and eq: "b' s \<bind> (\<lambda>t. if t then c' s \<bind> (\<lambda>s'. w b' c' s') else Some s) = Some t"
    have "I t \<and> b t = Some False" if bc: "b' = b" "c' = c" and s: "I s"
    proof -
      obtain g where g: "b s = Some g" using eq bc(1) by (cases "b s") simp_all
      show ?thesis
      proof (cases g)
        case True
        then obtain s' where s': "c s = Some s'" "w b c s' = Some t" using eq bc g by (cases "c s") simp_all
        moreover have "I s'" using assms(3) [OF s] g True s'(1) by simp
        ultimately show ?thesis using IH [of b c s' t] by simp
      qed (use eq bc g s in simp)
    qed
    then show "b' = b \<longrightarrow> c' = c \<longrightarrow> I s \<longrightarrow> I t \<and> b t = Some False" by blast
  qed
  then show ?thesis using assms(2) by simp
qed

lemma for_each_result:
  "for_each body xs s = Some t \<Longrightarrow> I s \<Longrightarrow> (\<And>x s s'. x \<in> set xs \<Longrightarrow> I s \<Longrightarrow> body x s = Some s' \<Longrightarrow> I s') \<Longrightarrow> I t"
proof (induction xs arbitrary: s)
  case (Cons x xs)
  from Cons.prems(1) obtain s' where s': "body x s = Some s'" "for_each body xs s' = Some t"
    by (auto simp: Option.bind_eq_Some_conv)
  from Cons.prems(3) [OF _ Cons.prems(2) s'(1)] have "I s'" by simp
  show ?case by (rule Cons.IH [OF s'(2) \<open>I s'\<close> Cons.prems(3)]) simp_all
qed simp

lemma for_range_result:
  assumes "for_range lo hi body s = Some t" "I lo s" "lo \<le> hi"
    "\<And>i s s'. lo \<le> i \<Longrightarrow> i < hi \<Longrightarrow> I i s \<Longrightarrow> body i s = Some s' \<Longrightarrow> I (i + 1) s'"
  shows "I hi t"
proof -
  have "for_range lo (lo + int n) body s = Some t \<Longrightarrow> lo + int n \<le> hi \<Longrightarrow> I (lo + int n) t" for n t
  proof (induction n arbitrary: t)
    case (Suc n)
    then have "for_range lo (lo + int n) body s \<bind> body (lo + int n) = Some t"
      using for_range_last [of lo "lo + int n" body s] by (simp add: ac_simps)
    then obtain u where "for_range lo (lo + int n) body s = Some u" "body (lo + int n) u = Some t"
      by (auto simp: Option.bind_eq_Some_conv)
    then show ?case using Suc assms(4) [of "lo + int n" u t] by (simp add: ac_simps)
  qed (use assms(2) in simp)
  from this [of "nat (hi - lo)" t] show ?thesis using assms(1,3) by simp
qed

text \<open>A loop over the indices of an array that only reads it is a loop over its elements.\<close>

lemma for_each_map: "for_each body (List.map f xs) s = for_each (\<lambda>x. body (f x)) xs s"
  by (induction xs arbitrary: s) (auto intro!: Option.bind_cong)

lemma for_each_cong:
  "(\<And>x s. x \<in> set xs \<Longrightarrow> f x s = g x s) \<Longrightarrow> for_each f xs s = for_each g xs s"
  by (induction xs arbitrary: s) (auto intro!: Option.bind_cong)

lemma for_each_pure [simp]: "for_each (\<lambda>x s. Some (f x s)) xs s = Some (fold f xs s)"
  by (induction xs arbitrary: s) auto

lemma for_range_list:
  "for_range 0 (int (length xs)) (\<lambda>k s. aget xs k \<bind> (\<lambda>x. f x s)) s = for_each f xs s"
proof -
  have "[0..int (length xs) - 1] = List.map int [0..<length xs]"
    by (rule nth_equalityI) auto
  then have "for_range 0 (int (length xs)) (\<lambda>k s. aget xs k \<bind> (\<lambda>x. f x s)) s =
      for_each (\<lambda>i s. aget xs (int i) \<bind> (\<lambda>x. f x s)) [0..<length xs] s"
    by (simp add: for_range_def for_each_map)
  also have "\<dots> = for_each (\<lambda>i. f (xs ! i)) [0..<length xs] s"
    by (intro for_each_cong) (simp add: aget_def)
  also have "\<dots> = for_each f (List.map ((!) xs) [0..<length xs]) s"
    by (simp only: for_each_map)
  finally show ?thesis by (simp add: map_nth)
qed

text \<open>Filling an array.\<close>

lemma fill_fun_returns:
  assumes "0 \<le> n" "n \<le> int (length xs)"
  shows "returns (for_range 0 n (\<lambda>k x. aset x k (f k)) xs) (\<lambda>ys. ys = List.map f [0..n - 1] @ drop (nat n) xs)"
proof (rule returns_for_range [where I = "\<lambda>k ys. ys = List.map f [0..k - 1] @ drop (nat k) xs"])
  fix i t
  assume i: "0 \<le> i" "i < n" and t: "t = List.map f [0..i - 1] @ drop (nat i) xs"
  then have "drop (nat i) xs = xs ! nat i # drop (Suc (nat i)) xs"
    using assms by (intro Cons_nth_drop_Suc [symmetric]) linarith
  moreover have "[0..i] = [0..i - 1] @ [i]" using i by (intro upto_rec2) simp
  ultimately show "returns (aset t i (f i)) (\<lambda>ys. ys = List.map f [0..i + 1 - 1] @ drop (nat (i + 1)) xs)"
    using i assms unfolding t by (simp add: list_update_append nat_add_distrib)
qed (use assms in auto)

lemma fill_returns:
  assumes "0 \<le> n" "n \<le> int (length xs)"
  shows "returns (for_range 0 n (\<lambda>k x. aset x k c) xs) (\<lambda>ys. ys = replicate (nat n) c @ drop (nat n) xs)"
  using fill_fun_returns [OF assms, of "\<lambda>_. c"] by (simp add: map_replicate_const)

section \<open>Signed 64-bit integers\<close>

text \<open>Signed arithmetic that overflows is undefined; a conversion from an unsigned value wraps.\<close>

definition i64 :: "int \<Rightarrow> int option" where
  "i64 x = (if - (2 ^ 63) \<le> x \<and> x < 2 ^ 63 then Some x else None)"

definition i32 :: "int \<Rightarrow> int option" where
  "i32 x = (if - (2 ^ 31) \<le> x \<and> x < 2 ^ 31 then Some x else None)"

definition to_i64 :: "int \<Rightarrow> int" where
  "to_i64 x = (x + 2 ^ 63) mod 2 ^ 64 - 2 ^ 63"

definition to_i32 :: "int \<Rightarrow> int" where
  "to_i32 x = (x + 2 ^ 31) mod 2 ^ 32 - 2 ^ 31"

lemma i64_in [simp]: "- (2 ^ 63) \<le> x \<Longrightarrow> x < 2 ^ 63 \<Longrightarrow> i64 x = Some x"
  by (simp add: i64_def)

lemma i32_in [simp]: "- (2 ^ 31) \<le> x \<Longrightarrow> x < 2 ^ 31 \<Longrightarrow> i32 x = Some x"
  by (simp add: i32_def)

lemma to_i32_in [simp]: "- (2 ^ 31) \<le> x \<Longrightarrow> x < 2 ^ 31 \<Longrightarrow> to_i32 x = x"
  by (simp add: to_i32_def)

lemma to_i64_in [simp]: "- (2 ^ 63) \<le> x \<Longrightarrow> x < 2 ^ 63 \<Longrightarrow> to_i64 x = x"
  by (simp add: to_i64_def)

section \<open>Segments of arrays\<close>

definition seg :: "'a list \<Rightarrow> nat \<Rightarrow> nat \<Rightarrow> 'a list" where
  "seg xs a n = take n (drop a xs)"

lemma seg_length [simp]: "a + n \<le> length xs \<Longrightarrow> length (seg xs a n) = n"
  by (simp add: seg_def)

lemma seg_0 [simp]: "seg xs a 0 = []"
  by (simp add: seg_def)

lemma seg_nth [simp]: "a + n \<le> length xs \<Longrightarrow> i < n \<Longrightarrow> seg xs a n ! i = xs ! (a + i)"
  by (simp add: seg_def)

lemma seg_eqI:
  "a + n \<le> length xs \<Longrightarrow> length ys = n \<Longrightarrow> (\<And>i. i < n \<Longrightarrow> xs ! (a + i) = ys ! i) \<Longrightarrow> seg xs a n = ys"
  by (rule nth_equalityI) auto

lemma seg_cong:
  "length xs = length ys \<Longrightarrow> (\<And>i. a \<le> i \<Longrightarrow> i < a + n \<Longrightarrow> xs ! i = ys ! i) \<Longrightarrow> a + n \<le> length xs \<Longrightarrow>
   seg xs a n = seg ys a n"
  by (rule nth_equalityI) auto

lemma seg_update_out: "i < a \<or> a + n \<le> i \<Longrightarrow> seg (xs[i := x]) a n = seg xs a n"
  by (auto simp: seg_def drop_update_swap)

lemma seg_update_in: "a \<le> i \<Longrightarrow> i < a + n \<Longrightarrow> seg (xs[i := x]) a n = (seg xs a n)[i - a := x]"
  by (simp add: seg_def drop_update_swap take_update_swap)

lemma seg_snoc: "a + n < length xs \<Longrightarrow> seg xs a (Suc n) = seg xs a n @ [xs ! (a + n)]"
  by (simp add: seg_def take_Suc_conv_app_nth)

lemma seg_append_one: "a + n < length xs \<Longrightarrow> seg (xs[a + n := x]) a (Suc n) = seg xs a n @ [x]"
  by (simp add: seg_snoc seg_update_out)

end
