(* ===== verification/Bfs_Spec.thy ===== *)
theory Bfs_Spec
  imports C_Prelude
begin

text \<open>
  What a breadth-first search promises: the abstract specification that the searches of the Graph500
  kernels refine and that the verifier checks.  A graph is a symmetric edge relation on the vertices
  below \<open>nv\<close>, a search result is the array of parents, with -1 for a vertex that was not reached.
  The locale \<open>graph\<close> is the interface between the graph constructions and the searches: whatever keeps
  its vertices in range and its edges in both directions can be searched with the queue invariant below.
\<close>

section \<open>The specification\<close>

definition bfs_dist :: "(int \<times> int) set \<Rightarrow> int \<Rightarrow> int \<Rightarrow> nat" where
  "bfs_dist E r v = (LEAST n. (r, v) \<in> E ^^ n)"

definition is_bfs_tree :: "(int \<times> int) set \<Rightarrow> int \<Rightarrow> int \<Rightarrow> int list \<Rightarrow> bool" where
  "is_bfs_tree E nv r tree \<longleftrightarrow> nat nv \<le> length tree \<and> tree ! nat r = r \<and>
     (\<forall>v. 0 \<le> v \<and> v < nv \<longrightarrow>
        (0 \<le> tree ! nat v \<longleftrightarrow> (r, v) \<in> E\<^sup>*) \<and>
        ((r, v) \<in> E\<^sup>* \<and> v \<noteq> r \<longrightarrow> (tree ! nat v, v) \<in> E \<and> (r, tree ! nat v) \<in> E\<^sup>* \<and>
           bfs_dist E r v = Suc (bfs_dist E r (tree ! nat v))))"

lemma bfs_dist_self [simp]: "bfs_dist E r r = 0"
  unfolding bfs_dist_def by (rule Least_eq_0) simp

lemma bfs_dist_path: "(r, v) \<in> E\<^sup>* \<Longrightarrow> (r, v) \<in> E ^^ bfs_dist E r v"
  unfolding bfs_dist_def by (metis LeastI_ex rtrancl_imp_relpow)

lemma bfs_dist_le: "(r, v) \<in> E ^^ n \<Longrightarrow> bfs_dist E r v \<le> n"
  unfolding bfs_dist_def by (rule Least_le)

lemma bfs_dist_edge:
  assumes "(r, u) \<in> E\<^sup>*" "(u, w) \<in> E"
  shows "bfs_dist E r w \<le> Suc (bfs_dist E r u)"
  using bfs_dist_path [OF assms(1)] assms(2) by (intro bfs_dist_le) auto

text \<open>A labelling of a set of vertices that starts at the root with 0, in which every other vertex is
  one more than some predecessor and no edge leaves the set or climbs by more than one, labels exactly
  the reachable vertices, with their distances.\<close>

lemma levels_are_distances:
  assumes root: "r \<in> V" "d r = 0"
    and parent: "\<And>v. v \<in> V \<Longrightarrow> v \<noteq> r \<Longrightarrow> \<exists>p \<in> V. (p, v) \<in> E \<and> d v = Suc (d p)"
    and closed: "\<And>u w. u \<in> V \<Longrightarrow> (u, w) \<in> E \<Longrightarrow> w \<in> V \<and> d w \<le> Suc (d u)"
  shows "V = {v. (r, v) \<in> E\<^sup>*}" and "v \<in> V \<Longrightarrow> d v = bfs_dist E r v"
proof -
  have path: "(r, v) \<in> E ^^ d v" if "v \<in> V" for v
    using that
  proof (induction "d v" arbitrary: v)
    case 0
    then show ?case using parent [of v] by (cases "v = r") auto
  next
    case (Suc n)
    then have "v \<noteq> r" using root by auto
    then obtain p where p: "p \<in> V" "(p, v) \<in> E" "d v = Suc (d p)" using parent Suc.prems by blast
    then have "(r, p) \<in> E ^^ d p" using Suc.hyps(1) Suc.hyps(2) by auto
    with p show ?case by auto
  qed
  have far: "w \<in> V \<and> d w \<le> n" if "(r, w) \<in> E ^^ n" for n w
    using that
  proof (induction n arbitrary: w)
    case 0
    then show ?case using root by simp
  next
    case (Suc n)
    then obtain u where "(r, u) \<in> E ^^ n" "(u, w) \<in> E" by auto
    then show ?case using Suc.IH closed by fastforce
  qed
  show "V = {v. (r, v) \<in> E\<^sup>*}"
    using path far by (auto simp: rtrancl_is_UN_relpow)
  show "d v = bfs_dist E r v" if "v \<in> V" for v
    using that path far by (metis bfs_dist_def bfs_dist_le bfs_dist_path le_antisym relpow_imp_rtrancl)
qed

text \<open>So parents with such a labelling are a breadth-first tree.\<close>

lemma is_bfs_treeI:
  assumes "nat nv \<le> length tree" "tree ! nat r = r" "0 \<le> r" "r < nv" "d r = 0"
    and parent: "\<And>v. 0 \<le> v \<Longrightarrow> v < nv \<Longrightarrow> v \<noteq> r \<Longrightarrow> 0 \<le> tree ! nat v \<Longrightarrow>
      tree ! nat v < nv \<and> 0 \<le> tree ! nat (tree ! nat v) \<and> (tree ! nat v, v) \<in> E \<and> d v = Suc (d (tree ! nat v))"
    and closed: "\<And>u w. 0 \<le> u \<Longrightarrow> u < nv \<Longrightarrow> 0 \<le> tree ! nat u \<Longrightarrow> (u, w) \<in> E \<Longrightarrow>
      0 \<le> w \<and> w < nv \<and> 0 \<le> tree ! nat w \<and> d w \<le> Suc (d u)"
  shows "is_bfs_tree E nv r tree"
proof -
  define V where "V = {v. 0 \<le> v \<and> v < nv \<and> 0 \<le> tree ! nat v}"
  have r: "r \<in> V" using assms(2-4) by (simp add: V_def)
  have p: "\<exists>p \<in> V. (p, v) \<in> E \<and> d v = Suc (d p)" if "v \<in> V" "v \<noteq> r" for v
    using parent [of v] assms(4) that unfolding V_def mem_Collect_eq by blast
  have c: "w \<in> V \<and> d w \<le> Suc (d u)" if "u \<in> V" "(u, w) \<in> E" for u w
    using closed [of u w] that unfolding V_def by blast
  note V = levels_are_distances [OF r assms(5) p c]
  have "0 \<le> tree ! nat v \<longleftrightarrow> (r, v) \<in> E\<^sup>*" if "0 \<le> v" "v < nv" for v
    using V(1) that by (auto simp: V_def)
  moreover have "(tree ! nat v, v) \<in> E \<and> (r, tree ! nat v) \<in> E\<^sup>* \<and>
      bfs_dist E r v = Suc (bfs_dist E r (tree ! nat v))"
    if "0 \<le> v" "v < nv" "(r, v) \<in> E\<^sup>*" "v \<noteq> r" for v
  proof -
    have v: "v \<in> V" using V(1) that by auto
    then have "tree ! nat v \<in> V \<and> (tree ! nat v, v) \<in> E \<and> d v = Suc (d (tree ! nat v))"
      using parent [of v] that by (auto simp: V_def)
    then show ?thesis using V v by auto
  qed
  ultimately show ?thesis using assms(1,2) by (simp add: is_bfs_tree_def)
qed

section \<open>The queue invariant\<close>

text \<open>\<open>q\<close> holds the vertices found so far, in the order they were found, \<open>k\<close> of them are finished,
  \<open>N\<close> are the neighbours of the next one that have been looked at.\<close>

definition bfs_inv ::
    "(int \<times> int) set \<Rightarrow> int \<Rightarrow> int \<Rightarrow> (int \<Rightarrow> nat) \<Rightarrow> int list \<Rightarrow> nat \<Rightarrow> int set \<Rightarrow> int list \<Rightarrow> bool" where
  "bfs_inv E nv r d q k N tree \<longleftrightarrow>
     (nat nv \<le> length tree \<and> distinct q \<and> k \<le> length q \<and> r \<in> set q \<and> tree ! nat r = r \<and> d r = 0) \<and>
     (\<forall>v \<in> set q. 0 \<le> v \<and> v < nv \<and> 0 \<le> tree ! nat v) \<and>
     (\<forall>v. 0 \<le> v \<longrightarrow> v < nv \<longrightarrow> v \<notin> set q \<longrightarrow> tree ! nat v = -1) \<and>
     (\<forall>v \<in> set q. v \<noteq> r \<longrightarrow> tree ! nat v \<in> set q \<and> (tree ! nat v, v) \<in> E \<and> d v = Suc (d (tree ! nat v))) \<and>
     sorted (List.map d q) \<and>
     (k < length q \<longrightarrow> (\<forall>v \<in> set q. d v \<le> Suc (d (q ! k)))) \<and>
     (\<forall>u \<in> set (take k q). \<forall>w. (u, w) \<in> E \<longrightarrow> w \<in> set q \<and> d w \<le> Suc (d u)) \<and>
     N \<subseteq> set q"

lemma bfs_invD:
  assumes "bfs_inv E nv r d q k N tree"
  shows "nat nv \<le> length tree" "distinct q" "k \<le> length q" "r \<in> set q" "tree ! nat r = r" "d r = 0"
    and "v \<in> set q \<Longrightarrow> 0 \<le> v \<and> v < nv \<and> 0 \<le> tree ! nat v"
    and "0 \<le> v \<Longrightarrow> v < nv \<Longrightarrow> v \<notin> set q \<Longrightarrow> tree ! nat v = -1"
    and "v \<in> set q \<Longrightarrow> v \<noteq> r \<Longrightarrow> tree ! nat v \<in> set q \<and> (tree ! nat v, v) \<in> E \<and> d v = Suc (d (tree ! nat v))"
    and "sorted (List.map d q)"
    and "k < length q \<Longrightarrow> v \<in> set q \<Longrightarrow> d v \<le> Suc (d (q ! k))"
    and "u \<in> set (take k q) \<Longrightarrow> (u, w) \<in> E \<Longrightarrow> w \<in> set q \<and> d w \<le> Suc (d u)"
    and "N \<subseteq> set q"
  using assms unfolding bfs_inv_def by blast+

lemma bfs_invI:
  assumes "nat nv \<le> length tree" "distinct q" "k \<le> length q" "r \<in> set q" "tree ! nat r = r" "d r = 0"
    and "\<And>v. v \<in> set q \<Longrightarrow> 0 \<le> v \<and> v < nv \<and> 0 \<le> tree ! nat v"
    and "\<And>v. 0 \<le> v \<Longrightarrow> v < nv \<Longrightarrow> v \<notin> set q \<Longrightarrow> tree ! nat v = -1"
    and "\<And>v. v \<in> set q \<Longrightarrow> v \<noteq> r \<Longrightarrow> tree ! nat v \<in> set q \<and> (tree ! nat v, v) \<in> E \<and> d v = Suc (d (tree ! nat v))"
    and "sorted (List.map d q)"
    and "\<And>v. k < length q \<Longrightarrow> v \<in> set q \<Longrightarrow> d v \<le> Suc (d (q ! k))"
    and "\<And>u w. u \<in> set (take k q) \<Longrightarrow> (u, w) \<in> E \<Longrightarrow> w \<in> set q \<and> d w \<le> Suc (d u)"
    and "N \<subseteq> set q"
  shows "bfs_inv E nv r d q k N tree"
  using assms unfolding bfs_inv_def by blast

locale graph =
  fixes E :: "(int \<times> int) set" and nv :: int
  assumes in_range: "(u, w) \<in> E \<Longrightarrow> 0 \<le> u \<and> u < nv \<and> 0 \<le> w \<and> w < nv"
    and both_ways: "(u, w) \<in> E \<Longrightarrow> (w, u) \<in> E"
begin

lemma bfs_start:
  assumes "0 \<le> r" "r < nv" "nat nv \<le> length tree" "tree ! nat r = r"
    "\<And>v. 0 \<le> v \<Longrightarrow> v < nv \<Longrightarrow> v \<noteq> r \<Longrightarrow> tree ! nat v = -1"
  shows "bfs_inv E nv r (\<lambda>_. 0) [r] 0 {} tree"
  by (rule bfs_invI) (use assms in simp_all)

text \<open>A vertex is marked exactly when it is in the queue.\<close>

lemma bfs_marked:
  assumes "bfs_inv E nv r d q k N tree" "0 \<le> v" "v < nv"
  shows "v \<in> set q \<longleftrightarrow> tree ! nat v \<noteq> -1" and "v \<in> set q \<longleftrightarrow> 0 \<le> tree ! nat v"
  using bfs_invD(7) [OF assms(1), of v] bfs_invD(8) [OF assms(1), of v] assms(2,3) by (cases "v \<in> set q"; simp)+

lemma bfs_seen:
  assumes inv: "bfs_inv E nv r d q k N tree" and j: "(q ! k, j) \<in> E" "tree ! nat j \<noteq> -1"
  shows "bfs_inv E nv r d q k (insert j N) tree"
proof -
  have "j \<in> set q" using bfs_marked(1) [OF inv] in_range [OF j(1)] j(2) by blast
  then show ?thesis using inv by (simp add: bfs_inv_def)
qed

lemma bfs_new:
  assumes inv: "bfs_inv E nv r d q k N tree" and k: "k < length q" and j: "(q ! k, j) \<in> E" "tree ! nat j = -1"
  shows "bfs_inv E nv r (d(j := Suc (d (q ! k)))) (q @ [j]) k (insert j N) (tree[nat j := q ! k])"
proof -
  let ?d = "d(j := Suc (d (q ! k)))" and ?t = "tree[nat j := q ! k]"
  note I = bfs_invD [OF inv]
  have jr: "0 \<le> j" "j < nv" using in_range [OF j(1)] by auto
  have jq: "j \<notin> set q" using bfs_marked(1) [OF inv jr] j(2) by simp
  have d: "?d v = d v" if "v \<in> set q" for v using that jq by auto
  have len: "nat j < length tree" using I(1) jr by linarith
  have t: "?t ! nat v = tree ! nat v" if "0 \<le> v" "v \<noteq> j" for v
    using that jr by (simp add: nth_list_update)
  have tj: "?t ! nat j = q ! k" using len by simp
  have qk: "q ! k \<in> set q" using k by simp
  have qt: "?t ! nat v = tree ! nat v" if "v \<in> set q" for v
    using that t [of v] I(7) [of v] jq by blast
  show ?thesis
  proof (rule bfs_invI)
    show "nat nv \<le> length ?t" "distinct (q @ [j])" "k \<le> length (q @ [j])" "r \<in> set (q @ [j])"
      using I(1-4) jq by simp_all
    show "?t ! nat r = r" "?d r = 0" using qt [OF I(4)] d [OF I(4)] I(5,6) by simp_all
    show "0 \<le> v \<and> v < nv \<and> 0 \<le> ?t ! nat v" if "v \<in> set (q @ [j])" for v
      using that jr tj qt [of v] I(7) [of v] I(7) [OF qk] by auto
    show "?t ! nat v = -1" if "0 \<le> v" "v < nv" "v \<notin> set (q @ [j])" for v
      using that t [of v] I(8) [of v] by simp
    show "?t ! nat v \<in> set (q @ [j]) \<and> (?t ! nat v, v) \<in> E \<and> ?d v = Suc (?d (?t ! nat v))"
      if "v \<in> set (q @ [j])" "v \<noteq> r" for v
    proof (cases "v = j")
      case True
      then show ?thesis using tj j(1) qk d [OF qk] by simp
    next
      case False
      then have v: "v \<in> set q" using that by simp
      then show ?thesis using I(9) [OF v that(2)] qt [OF v] d [OF v] d [of "tree ! nat v"] by simp
    qed
    have m: "List.map ?d q = List.map d q" using d by (intro map_cong) auto
    show "sorted (List.map ?d (q @ [j]))" using I(10) I(11) [OF k] by (simp only: map_append m sorted_append) simp
    show "?d v \<le> Suc (?d ((q @ [j]) ! k))" if "v \<in> set (q @ [j])" for v
      using that k d [OF qk] d [of v] I(11) [OF k, of v] by (auto simp: nth_append)
    show "w \<in> set (q @ [j]) \<and> ?d w \<le> Suc (?d u)" if "u \<in> set (take k (q @ [j]))" "(u, w) \<in> E" for u w
    proof -
      have u: "u \<in> set (take k q)" using that(1) k by simp
      then have "u \<in> set q" by (rule in_set_takeD)
      then show ?thesis using I(12) [OF u that(2)] d [of u] d [of w] by simp
    qed
    show "insert j N \<subseteq> set (q @ [j])" using I(13) by auto
  qed
qed

lemma bfs_finish_vertex:
  assumes inv: "bfs_inv E nv r d q k N tree" and k: "k < length q"
    and all: "\<And>w. (q ! k, w) \<in> E \<Longrightarrow> w \<in> N"
  shows "bfs_inv E nv r d q (Suc k) {} tree"
proof -
  note I = bfs_invD [OF inv]
  show ?thesis
  proof (rule bfs_invI)
    show "d v \<le> Suc (d (q ! Suc k))" if "Suc k < length q" "v \<in> set q" for v
    proof -
      have "d (q ! k) \<le> d (q ! Suc k)"
        using I(10) that(1) sorted_nth_mono [of "List.map d q" k "Suc k"] by simp
      then show ?thesis using I(11) [OF k that(2)] by simp
    qed
    show "w \<in> set q \<and> d w \<le> Suc (d u)" if "u \<in> set (take (Suc k) q)" "(u, w) \<in> E" for u w
    proof (cases "u \<in> set (take k q)")
      case True
      then show ?thesis using I(12) that(2) by blast
    next
      case False
      then have "u = q ! k" using that(1) k by (simp add: take_Suc_conv_app_nth)
      then have "w \<in> set q" using all that(2) I(13) by blast
      then show ?thesis using I(11) [OF k] \<open>u = q ! k\<close> by simp
    qed
    show "nat nv \<le> length tree" "distinct q" "Suc k \<le> length q" "r \<in> set q" "tree ! nat r = r" "d r = 0"
      "sorted (List.map d q)" "{} \<subseteq> set q"
      using I(1,2,4,5,6,10) k by simp_all
  qed (fact I(7) I(8) I(9))+
qed

lemma bfs_finished:
  assumes inv: "bfs_inv E nv r d q (length q) N tree"
  shows "is_bfs_tree E nv r tree"
proof (rule is_bfs_treeI [where d = d])
  note I = bfs_invD [OF inv]
  show "nat nv \<le> length tree" "tree ! nat r = r" "0 \<le> r" "r < nv" "d r = 0"
    using I(1,5,6) I(7) [OF I(4)] by simp_all
  show "tree ! nat u < nv \<and> 0 \<le> tree ! nat (tree ! nat u) \<and> (tree ! nat u, u) \<in> E \<and> d u = Suc (d (tree ! nat u))"
    if "0 \<le> u" "u < nv" "u \<noteq> r" "0 \<le> tree ! nat u" for u
    using I(7,9) bfs_marked(2) [OF inv] that by blast
  show "0 \<le> w \<and> w < nv \<and> 0 \<le> tree ! nat w \<and> d w \<le> Suc (d u)"
    if "0 \<le> u" "u < nv" "0 \<le> tree ! nat u" "(u, w) \<in> E" for u w
  proof -
    have "u \<in> set (take (length q) q)" using bfs_marked(2) [OF inv] that by simp
    then show ?thesis using I(7) I(12) that(4) by blast
  qed
qed

text \<open>The queue never holds more vertices than there are.\<close>

lemma bfs_queue_bound:
  assumes "bfs_inv E nv r d q k N tree"
  shows "int (length q) \<le> nv"
proof -
  note I = bfs_invD [OF assms]
  have "card (set q) \<le> card {0..<nv}" using I(7) by (intro card_mono) auto
  moreover have "0 < nv" using I(7) [OF I(4)] by linarith
  ultimately show ?thesis using I(2) by (simp add: distinct_card)
qed

lemma bfs_room:
  assumes "bfs_inv E nv r d q k N tree" "k < length q" "(q ! k, j) \<in> E" "tree ! nat j = -1"
  shows "int (length q) < nv"
  using bfs_queue_bound [OF bfs_new [OF assms]] by simp

end

end
