(* ===== verification/Mod_Arith.thy ===== *)
theory Mod_Arith
  imports C_Prelude "HOL-Library.Numeral_Type"
begin

text \<open>
  Arithmetic modulo the Mersenne prime 2^31 - 1 (\<open>generator/mod_arith_32bit.h\<close> and
  \<open>generator/mod_arith_64bit.h\<close>).  \<open>uint_fast32_t\<close> and \<open>uint_fast64_t\<close> are 64 bits wide in the
  x86-64 Linux ABI, \<open>int_fast32_t\<close> is read as an integer and its range is a lemma.  Every
  \<open>assert\<close> of the code is an assertion of the model.  The locale \<open>mod_arith\<close> is the contract the
  random number generator relies on; both headers are interpretations of it.
\<close>

type_synonym uint_fast32 = "64 word"

abbreviation P31 :: nat where
  "P31 \<equiv> 2147483647"

definition residue :: "nat \<Rightarrow> uint_fast32" where
  "residue n = word_of_nat (n mod P31)"

definition valid_elt :: "uint_fast32 \<Rightarrow> bool" where
  "valid_elt a \<longleftrightarrow> a \<le> 0x7FFFFFFE"

lemma valid_elt_iff: "valid_elt a \<longleftrightarrow> unat a < P31"
  by (auto simp: valid_elt_def word_le_nat_alt)

lemma valid_elt_0: "valid_elt 0"
  by (simp add: valid_elt_def)

lemma unat_residue [simp]: "unat (residue n) = n mod P31"
  by (simp add: residue_def unat_of_nat)

lemma valid_residue [simp]: "valid_elt (residue n)"
  by (simp add: valid_elt_iff)

lemma residue_unat: "valid_elt a \<Longrightarrow> residue (unat a) = a"
  by (simp add: residue_def valid_elt_iff)

lemma residue_cong: "m mod P31 = n mod P31 \<Longrightarrow> residue m = residue n"
  by (simp add: residue_def)

lemma residue_mod [simp]: "residue (n mod P31) = residue n"
  by (simp add: residue_def)

lemma residue_add_mod [simp]: "residue (m + n mod P31) = residue (m + n)"
  by (rule residue_cong) presburger

lemma residue_mod_add [simp]: "residue (m mod P31 + n) = residue (m + n)"
  by (rule residue_cong) presburger

lemma word_mod_residue:
  fixes w :: uint_fast32
  shows "w mod 0x7FFFFFFF = residue (unat w)"
  by (simp add: word_unat_eq_iff unat_mod_distrib)

section \<open>mod_arith_64bit.h\<close>

definition mod_add64 :: "uint_fast32 \<Rightarrow> uint_fast32 \<Rightarrow> uint_fast32 option" where
  "mod_add64 a b = do {
     c_assert (a \<le> 0x7FFFFFFE);
     c_assert (b \<le> 0x7FFFFFFE);
     Some ((a + b) mod 0x7FFFFFFF) }"

definition mod_mul64 :: "uint_fast32 \<Rightarrow> uint_fast32 \<Rightarrow> uint_fast32 option" where
  "mod_mul64 a b = do {
     c_assert (a \<le> 0x7FFFFFFE);
     c_assert (b \<le> 0x7FFFFFFE);
     Some ((a * b) mod 0x7FFFFFFF) }"

definition mod_mac64 :: "uint_fast32 \<Rightarrow> uint_fast32 \<Rightarrow> uint_fast32 \<Rightarrow> uint_fast32 option" where
  "mod_mac64 sm a b = do {
     c_assert (sm \<le> 0x7FFFFFFE);
     c_assert (a \<le> 0x7FFFFFFE);
     c_assert (b \<le> 0x7FFFFFFE);
     Some ((a * b + sm) mod 0x7FFFFFFF) }"

definition mod_mac2_64 :: "uint_fast32 \<Rightarrow> uint_fast32 \<Rightarrow> uint_fast32 \<Rightarrow> uint_fast32 \<Rightarrow> uint_fast32
    \<Rightarrow> uint_fast32 option" where
  "mod_mac2_64 sm a b c d = do {
     c_assert (sm \<le> 0x7FFFFFFE);
     c_assert (a \<le> 0x7FFFFFFE);
     c_assert (b \<le> 0x7FFFFFFE);
     c_assert (c \<le> 0x7FFFFFFE);
     c_assert (d \<le> 0x7FFFFFFE);
     Some ((a * b + c * d + sm) mod 0x7FFFFFFF) }"

definition mod_mac3_64 :: "uint_fast32 \<Rightarrow> uint_fast32 \<Rightarrow> uint_fast32 \<Rightarrow> uint_fast32 \<Rightarrow> uint_fast32
    \<Rightarrow> uint_fast32 \<Rightarrow> uint_fast32 \<Rightarrow> uint_fast32 option" where
  "mod_mac3_64 sm a b c d e f = do {
     c_assert (sm \<le> 0x7FFFFFFE);
     c_assert (a \<le> 0x7FFFFFFE);
     c_assert (b \<le> 0x7FFFFFFE);
     c_assert (c \<le> 0x7FFFFFFE);
     c_assert (d \<le> 0x7FFFFFFE);
     c_assert (e \<le> 0x7FFFFFFE);
     c_assert (f \<le> 0x7FFFFFFE);
     Some ((a * b + c * d + e * f + sm) mod 0x7FFFFFFF) }"

definition mod_mac4_64 :: "uint_fast32 \<Rightarrow> uint_fast32 \<Rightarrow> uint_fast32 \<Rightarrow> uint_fast32 \<Rightarrow> uint_fast32
    \<Rightarrow> uint_fast32 \<Rightarrow> uint_fast32 \<Rightarrow> uint_fast32 \<Rightarrow> uint_fast32 \<Rightarrow> uint_fast32 option" where
  "mod_mac4_64 sm a b c d e f g h = do {
     c_assert (sm \<le> 0x7FFFFFFE);
     c_assert (a \<le> 0x7FFFFFFE);
     c_assert (b \<le> 0x7FFFFFFE);
     c_assert (c \<le> 0x7FFFFFFE);
     c_assert (d \<le> 0x7FFFFFFE);
     c_assert (e \<le> 0x7FFFFFFE);
     c_assert (f \<le> 0x7FFFFFFE);
     c_assert (g \<le> 0x7FFFFFFE);
     c_assert (h \<le> 0x7FFFFFFE);
     Some ((a * b + c * d + e * f + g * h + sm) mod 0x7FFFFFFF) }"

definition mod_mul_x64 :: "uint_fast32 \<Rightarrow> uint_fast32 option" where
  "mod_mul_x64 a = mod_mul64 a 107374182"

definition mod_mul_y64 :: "uint_fast32 \<Rightarrow> uint_fast32 option" where
  "mod_mul_y64 a = mod_mul64 a 104480"

definition mod_mac_y64 :: "uint_fast32 \<Rightarrow> uint_fast32 \<Rightarrow> uint_fast32 option" where
  "mod_mac_y64 sm a = mod_mac64 sm a 104480"

section \<open>mod_arith_32bit.h\<close>

definition mod_add32 :: "uint_fast32 \<Rightarrow> uint_fast32 \<Rightarrow> uint_fast32 option" where
  "mod_add32 a b = do {
     c_assert (a \<le> 0x7FFFFFFE);
     c_assert (b \<le> 0x7FFFFFFE);
     let x = a + b;
     Some (if 0x7FFFFFFF \<le> x then x - 0x7FFFFFFF else x) }"

text \<open>The reduction shared by the bodies of \<open>mod_mul\<close> and \<open>mod_mac\<close>.\<close>

definition fold31 :: "64 word \<Rightarrow> uint_fast32" where
  "fold31 temp =
     (let temp2 = (temp AND 0x7FFFFFFF) + drop_bit 31 temp
      in if 0x7FFFFFFF \<le> temp2 then temp2 - 0x7FFFFFFF else temp2)"

definition mod_mul32 :: "uint_fast32 \<Rightarrow> uint_fast32 \<Rightarrow> uint_fast32 option" where
  "mod_mul32 a b = do {
     c_assert (a \<le> 0x7FFFFFFE);
     c_assert (b \<le> 0x7FFFFFFE);
     Some (fold31 (a * b)) }"

definition mod_mac32 :: "uint_fast32 \<Rightarrow> uint_fast32 \<Rightarrow> uint_fast32 \<Rightarrow> uint_fast32 option" where
  "mod_mac32 sm a b = do {
     c_assert (sm \<le> 0x7FFFFFFE);
     c_assert (a \<le> 0x7FFFFFFE);
     c_assert (b \<le> 0x7FFFFFFE);
     Some (fold31 (a * b + sm)) }"

definition mod_mac2_32 :: "uint_fast32 \<Rightarrow> uint_fast32 \<Rightarrow> uint_fast32 \<Rightarrow> uint_fast32 \<Rightarrow> uint_fast32
    \<Rightarrow> uint_fast32 option" where
  "mod_mac2_32 sm a b c d = do {
     c_assert (sm \<le> 0x7FFFFFFE);
     c_assert (a \<le> 0x7FFFFFFE);
     c_assert (b \<le> 0x7FFFFFFE);
     c_assert (c \<le> 0x7FFFFFFE);
     c_assert (d \<le> 0x7FFFFFFE);
     m \<leftarrow> mod_mac32 sm a b;
     mod_mac32 m c d }"

definition mod_mac3_32 :: "uint_fast32 \<Rightarrow> uint_fast32 \<Rightarrow> uint_fast32 \<Rightarrow> uint_fast32 \<Rightarrow> uint_fast32
    \<Rightarrow> uint_fast32 \<Rightarrow> uint_fast32 \<Rightarrow> uint_fast32 option" where
  "mod_mac3_32 sm a b c d e f = do {
     c_assert (sm \<le> 0x7FFFFFFE);
     c_assert (a \<le> 0x7FFFFFFE);
     c_assert (b \<le> 0x7FFFFFFE);
     c_assert (c \<le> 0x7FFFFFFE);
     c_assert (d \<le> 0x7FFFFFFE);
     c_assert (e \<le> 0x7FFFFFFE);
     c_assert (f \<le> 0x7FFFFFFE);
     m \<leftarrow> mod_mac32 sm a b;
     mod_mac2_32 m c d e f }"

definition mod_mac4_32 :: "uint_fast32 \<Rightarrow> uint_fast32 \<Rightarrow> uint_fast32 \<Rightarrow> uint_fast32 \<Rightarrow> uint_fast32
    \<Rightarrow> uint_fast32 \<Rightarrow> uint_fast32 \<Rightarrow> uint_fast32 \<Rightarrow> uint_fast32 \<Rightarrow> uint_fast32 option" where
  "mod_mac4_32 sm a b c d e f g h = do {
     c_assert (sm \<le> 0x7FFFFFFE);
     c_assert (a \<le> 0x7FFFFFFE);
     c_assert (b \<le> 0x7FFFFFFE);
     c_assert (c \<le> 0x7FFFFFFE);
     c_assert (d \<le> 0x7FFFFFFE);
     c_assert (e \<le> 0x7FFFFFFE);
     c_assert (f \<le> 0x7FFFFFFE);
     c_assert (g \<le> 0x7FFFFFFE);
     c_assert (h \<le> 0x7FFFFFFE);
     m \<leftarrow> mod_mac2_32 sm a b c d;
     mod_mac2_32 m e f g h }"

text \<open>Schrage's method: the quotient and remainder of the modulus by the multiplier replace the
  double-width product.  The signed intermediate is an \<open>int\<close>.\<close>

definition schrage :: "int \<Rightarrow> int \<Rightarrow> int \<Rightarrow> uint_fast32 \<Rightarrow> int" where
  "schrage m q r a =
     (let result = c_quot (sint a) q;
          result = m * (sint a - result * q) - result * r
      in result + (if result < 0 then 0x7FFFFFFF else 0))"

definition mod_mul_x32 :: "uint_fast32 \<Rightarrow> uint_fast32 option" where
  "mod_mul_x32 a = do {
     let result = word_of_int (schrage 107374182 20 7 a);
     m \<leftarrow> mod_mul32 a 107374182;
     c_assert (result = m);
     Some result }"

definition mod_mul_y32 :: "uint_fast32 \<Rightarrow> uint_fast32 option" where
  "mod_mul_y32 a = do {
     let result = word_of_int (schrage 104480 20554 1727 a);
     m \<leftarrow> mod_mul32 a 104480;
     c_assert (result = m);
     Some result }"

definition mod_mac_y32 :: "uint_fast32 \<Rightarrow> uint_fast32 \<Rightarrow> uint_fast32 option" where
  "mod_mac_y32 sm a = do {
     y \<leftarrow> mod_mul_y32 a;
     result \<leftarrow> mod_add32 sm y;
     m \<leftarrow> mod_mac32 sm a 104480;
     c_assert (result = m);
     Some result }"

section \<open>The contract\<close>

locale mod_arith =
  fixes add mul :: "uint_fast32 \<Rightarrow> uint_fast32 \<Rightarrow> uint_fast32 option"
    and mac :: "uint_fast32 \<Rightarrow> uint_fast32 \<Rightarrow> uint_fast32 \<Rightarrow> uint_fast32 option"
    and mac2 :: "uint_fast32 \<Rightarrow> uint_fast32 \<Rightarrow> uint_fast32 \<Rightarrow> uint_fast32 \<Rightarrow> uint_fast32 \<Rightarrow> uint_fast32 option"
    and mac3 :: "uint_fast32 \<Rightarrow> uint_fast32 \<Rightarrow> uint_fast32 \<Rightarrow> uint_fast32 \<Rightarrow> uint_fast32 \<Rightarrow> uint_fast32 \<Rightarrow>
      uint_fast32 \<Rightarrow> uint_fast32 option"
    and mac4 :: "uint_fast32 \<Rightarrow> uint_fast32 \<Rightarrow> uint_fast32 \<Rightarrow> uint_fast32 \<Rightarrow> uint_fast32 \<Rightarrow> uint_fast32 \<Rightarrow>
      uint_fast32 \<Rightarrow> uint_fast32 \<Rightarrow> uint_fast32 \<Rightarrow> uint_fast32 option"
    and mul_x mul_y :: "uint_fast32 \<Rightarrow> uint_fast32 option"
    and mac_y :: "uint_fast32 \<Rightarrow> uint_fast32 \<Rightarrow> uint_fast32 option"
  assumes add_spec: "add a b = (if valid_elt a \<and> valid_elt b
      then Some (residue (unat a + unat b)) else None)"
    and mul_spec: "mul a b = (if valid_elt a \<and> valid_elt b
      then Some (residue (unat a * unat b)) else None)"
    and mac_spec: "mac s a b = (if valid_elt s \<and> valid_elt a \<and> valid_elt b
      then Some (residue (unat a * unat b + unat s)) else None)"
    and mac2_spec: "mac2 s a b c d =
      (if valid_elt s \<and> valid_elt a \<and> valid_elt b \<and> valid_elt c \<and> valid_elt d
       then Some (residue (unat a * unat b + unat c * unat d + unat s)) else None)"
    and mac3_spec: "mac3 s a b c d e f =
      (if valid_elt s \<and> valid_elt a \<and> valid_elt b \<and> valid_elt c \<and> valid_elt d \<and> valid_elt e \<and> valid_elt f
       then Some (residue (unat a * unat b + unat c * unat d + unat e * unat f + unat s)) else None)"
    and mac4_spec: "mac4 s a b c d e f g h =
      (if valid_elt s \<and> valid_elt a \<and> valid_elt b \<and> valid_elt c \<and> valid_elt d \<and> valid_elt e \<and> valid_elt f \<and>
          valid_elt g \<and> valid_elt h
       then Some (residue (unat a * unat b + unat c * unat d + unat e * unat f + unat g * unat h + unat s))
       else None)"
    and mul_x_spec: "mul_x a = (if valid_elt a then Some (residue (107374182 * unat a)) else None)"
    and mul_y_spec: "mul_y a = (if valid_elt a then Some (residue (104480 * unat a)) else None)"
    and mac_y_spec: "mac_y s a = (if valid_elt s \<and> valid_elt a
      then Some (residue (104480 * unat a + unat s)) else None)"
begin

lemmas arith_specs = add_spec mul_spec mac_spec mac2_spec mac3_spec mac4_spec mul_x_spec mul_y_spec mac_y_spec

text \<open>What every provider promises the generator: no assertion fires on residues, and the results are
  residues again.\<close>

lemma arith_valid:
  "add a b = Some r \<Longrightarrow> valid_elt r"
  "mul a b = Some r \<Longrightarrow> valid_elt r"
  "mac s a b = Some r \<Longrightarrow> valid_elt r"
  "mac2 s a b c d = Some r \<Longrightarrow> valid_elt r"
  "mac3 s a b c d e f = Some r \<Longrightarrow> valid_elt r"
  "mac4 s a b c d e f g h = Some r \<Longrightarrow> valid_elt r"
  "mul_x a = Some r \<Longrightarrow> valid_elt r"
  "mul_y a = Some r \<Longrightarrow> valid_elt r"
  "mac_y s a = Some r \<Longrightarrow> valid_elt r"
  by (auto simp: arith_specs split: if_splits)

text \<open>The multi-operand forms are chains of the three-operand one.\<close>

lemma mac4_chain:
  "valid_elt s \<Longrightarrow> mac4 s a b c d e f g h =
     mac s a b \<bind> (\<lambda>m. mac m c d) \<bind> (\<lambda>m. mac m e f) \<bind> (\<lambda>m. mac m g h)"
  by (simp add: arith_specs) (simp add: ac_simps)

end

section \<open>Both headers meet the contract\<close>

text \<open>No product or sum of residues wraps in 64 bits.\<close>

lemma mult_bound:
  assumes "valid_elt a" "valid_elt b"
  shows "unat a * unat b \<le> 4611686009837453316"
proof -
  have "unat a \<le> 2147483646" "unat b \<le> 2147483646"
    using assms by (auto simp: valid_elt_iff)
  then have "unat a * unat b \<le> 2147483646 * 2147483646" by (rule mult_le_mono)
  then show ?thesis by simp
qed

lemma unat_mult_valid: "valid_elt a \<Longrightarrow> valid_elt b \<Longrightarrow> unat (a * b) = unat a * unat b"
  using mult_bound [of a b] by (simp add: unat_word_ariths)

lemma unat_add_small: "unat a + unat b < 2 ^ 64 \<Longrightarrow> unat (a + b) = unat a + unat (b :: 64 word)"
  by (simp add: unat_word_ariths)

lemma unat_mac_valid:
  assumes "valid_elt s" "valid_elt a" "valid_elt b"
  shows "unat (a * b + s) = unat a * unat b + unat s"
  using assms mult_bound [of a b]
  by (simp add: unat_add_small unat_mult_valid valid_elt_iff)

lemma fold31_residue:
  assumes "unat w \<le> 4611686011984936962"
  shows "fold31 w = residue (unat w)"
proof -
  let ?hi = "unat w div 2147483648" and ?lo = "unat w mod 2147483648"
  have "take_bit 31 w = w AND mask 31" by (rule take_bit_eq_mask)
  then have "w AND 0x7FFFFFFF = take_bit 31 w" by (simp add: mask_eq_exp_minus_1)
  then have lo: "unat (w AND 0x7FFFFFFF) = ?lo" by (simp add: unsigned_take_bit_eq take_bit_nat_def)
  have hi: "unat (drop_bit 31 w) = ?hi"
    by (simp add: unat_drop_bit_eq drop_bit_nat_def)
  have eq: "unat w = 2147483648 * ?hi + ?lo" by presburger
  have b: "?hi \<le> 2147483646" "?lo < 2147483648"
    using assms by (auto simp: less_eq_div_iff_mult_less_eq intro: div_le_mono [THEN order_trans, of _ 4611686011984936962])
  let ?t = "(w AND 0x7FFFFFFF) + drop_bit 31 w"
  have t: "unat ?t = ?lo + ?hi"
    by (subst unat_add_small) (use lo hi b in simp_all)
  have "unat w mod P31 = (?lo + ?hi) mod P31"
  proof -
    have "unat w = (?lo + ?hi) + P31 * ?hi" using eq by linarith
    then show ?thesis by (metis mod_mult_self2)
  qed
  moreover have "(?lo + ?hi) mod P31 = (if P31 \<le> ?lo + ?hi then ?lo + ?hi - P31 else ?lo + ?hi)"
    using b by (auto simp: le_mod_geq)
  moreover have "unat (?t - 0x7FFFFFFF) = unat ?t - P31" if "0x7FFFFFFF \<le> ?t"
    using that by (simp add: unat_sub)
  moreover have "0x7FFFFFFF \<le> ?t \<longleftrightarrow> P31 \<le> unat ?t" by (simp add: word_le_nat_alt)
  ultimately have "unat (fold31 w) = unat (residue (unat w))"
    using t by (simp only: fold31_def Let_def unat_residue if_split) auto
  then show ?thesis by (simp only: word_unat_eq_iff)
qed

lemma c_assert_valid: "(c_assert (a \<le> 0x7FFFFFFE) \<bind> f) = (if valid_elt a then f () else None)"
  by (simp add: valid_elt_def c_assert_def)

lemma sum2_bound:
  "m \<le> 4611686009837453316 \<Longrightarrow> n \<le> 4611686009837453316 \<Longrightarrow> m + n \<le> (9223372019674906632::nat)"
  by simp

lemma sum4_valid:
  assumes "valid_elt s" "valid_elt a" "valid_elt b" "valid_elt c" "valid_elt d"
    "valid_elt e" "valid_elt f" "valid_elt g" "valid_elt h"
  shows "unat (a * b + c * d + e * f + g * h + s) =
    unat a * unat b + unat c * unat d + unat e * unat f + unat g * unat h + unat s"
  using assms mult_bound [of a b] mult_bound [of c d] mult_bound [of e f] mult_bound [of g h]
  by (simp add: unat_add_small unat_mult_valid valid_elt_iff)

lemma sum3_valid:
  assumes "valid_elt s" "valid_elt a" "valid_elt b" "valid_elt c" "valid_elt d" "valid_elt e" "valid_elt f"
  shows "unat (a * b + c * d + e * f + s) = unat a * unat b + unat c * unat d + unat e * unat f + unat s"
  using assms mult_bound [of a b] mult_bound [of c d] mult_bound [of e f]
  by (simp add: unat_add_small unat_mult_valid valid_elt_iff)

lemma sum2_valid:
  assumes "valid_elt s" "valid_elt a" "valid_elt b" "valid_elt c" "valid_elt d"
  shows "unat (a * b + c * d + s) = unat a * unat b + unat c * unat d + unat s"
  using assms mult_bound [of a b] mult_bound [of c d]
  by (simp add: unat_add_small unat_mult_valid valid_elt_iff)

lemma valid_const [simp]: "valid_elt 107374182" "valid_elt 104480"
  by (simp_all add: valid_elt_def)

interpretation ma64: mod_arith mod_add64 mod_mul64 mod_mac64 mod_mac2_64 mod_mac3_64 mod_mac4_64
  mod_mul_x64 mod_mul_y64 mod_mac_y64
proof (unfold_locales, goal_cases)
  case (1 a b)
  show ?case
    by (simp add: mod_add64_def c_assert_valid word_mod_residue valid_elt_iff unat_add_small)
next
  case (2 a b)
  show ?case
    by (simp add: mod_mul64_def c_assert_valid word_mod_residue unat_mult_valid)
next
  case (3 s a b)
  show ?case
    by (simp add: mod_mac64_def c_assert_valid word_mod_residue unat_mac_valid)
next
  case (4 s a b c d)
  show ?case
    by (simp add: mod_mac2_64_def c_assert_valid word_mod_residue sum2_valid)
next
  case (5 s a b c d e f)
  show ?case
    by (simp add: mod_mac3_64_def c_assert_valid word_mod_residue sum3_valid)
next
  case (6 s a b c d e f g h)
  show ?case
    by (simp add: mod_mac4_64_def c_assert_valid word_mod_residue sum4_valid)
next
  case (7 a)
  show ?case
    by (simp add: mod_mul_x64_def mod_mul64_def c_assert_valid word_mod_residue unat_mult_valid mult.commute)
next
  case (8 a)
  show ?case
    by (simp add: mod_mul_y64_def mod_mul64_def c_assert_valid word_mod_residue unat_mult_valid mult.commute)
next
  case (9 s a)
  show ?case
    by (simp add: mod_mac_y64_def mod_mac64_def c_assert_valid word_mod_residue unat_mac_valid mult.commute)
qed

lemma mod_mul32_spec:
  "mod_mul32 a b = (if valid_elt a \<and> valid_elt b then Some (residue (unat a * unat b)) else None)"
  using mult_bound [of a b]
  by (auto simp: mod_mul32_def c_assert_valid fold31_residue unat_mult_valid)

lemma mod_mac32_spec:
  "mod_mac32 s a b =
     (if valid_elt s \<and> valid_elt a \<and> valid_elt b then Some (residue (unat a * unat b + unat s)) else None)"
  using mult_bound [of a b]
  by (auto simp: mod_mac32_def c_assert_valid fold31_residue unat_mac_valid valid_elt_iff)

lemma mod_mac2_32_spec:
  "mod_mac2_32 s a b c d =
     (if valid_elt s \<and> valid_elt a \<and> valid_elt b \<and> valid_elt c \<and> valid_elt d
      then Some (residue (unat a * unat b + unat c * unat d + unat s)) else None)"
  by (simp add: mod_mac2_32_def c_assert_valid mod_mac32_spec) (simp add: ac_simps)

lemma mod_mac3_32_spec:
  "mod_mac3_32 s a b c d e f =
     (if valid_elt s \<and> valid_elt a \<and> valid_elt b \<and> valid_elt c \<and> valid_elt d \<and> valid_elt e \<and> valid_elt f
      then Some (residue (unat a * unat b + unat c * unat d + unat e * unat f + unat s)) else None)"
  by (simp add: mod_mac3_32_def c_assert_valid mod_mac32_spec mod_mac2_32_spec) (simp add: ac_simps)

lemma mod_mac4_32_spec:
  "mod_mac4_32 s a b c d e f g h =
     (if valid_elt s \<and> valid_elt a \<and> valid_elt b \<and> valid_elt c \<and> valid_elt d \<and> valid_elt e \<and> valid_elt f \<and>
         valid_elt g \<and> valid_elt h
      then Some (residue (unat a * unat b + unat c * unat d + unat e * unat f + unat g * unat h + unat s))
      else None)"
  by (simp add: mod_mac4_32_def c_assert_valid mod_mac2_32_spec) (simp add: ac_simps)

lemma mod_add32_spec:
  "mod_add32 a b = (if valid_elt a \<and> valid_elt b then Some (residue (unat a + unat b)) else None)"
proof (cases "valid_elt a \<and> valid_elt b")
  case True
  then have s: "unat (a + b) = unat a + unat b" "unat a + unat b < 2 * P31"
    by (simp_all add: unat_add_small valid_elt_iff)
  have "unat (a + b - 0x7FFFFFFF) = unat (a + b) - P31" if "0x7FFFFFFF \<le> a + b"
    using that by (simp add: unat_sub)
  moreover have "0x7FFFFFFF \<le> a + b \<longleftrightarrow> P31 \<le> unat (a + b)" by (simp add: word_le_nat_alt)
  ultimately show ?thesis
    using True s
    by (simp add: mod_add32_def c_assert_valid word_unat_eq_iff le_mod_geq Let_def)
qed (auto simp: mod_add32_def c_assert_valid)

text \<open>Schrage's decomposition is exact and stays inside a signed 32-bit integer.\<close>

lemma schrage_correct:
  assumes a: "valid_elt a" and m: "0 < m" "0 < q" "0 \<le> r" "m * q + r = 2147483647"
    and b: "r * (2147483646 div q) < 2147483647"
  shows "schrage m q r a = (m * int (unat a)) mod 2147483647"
    and "\<bar>m * (int (unat a) - (int (unat a) div q) * q) - (int (unat a) div q) * r\<bar> < 2147483647"
proof -
  define A where "A = int (unat a)"
  have A: "0 \<le> A" "A \<le> 2147483646" using a unfolding A_def valid_elt_iff by linarith+
  have sa: "sint a = A"
    using a sint_small [of a] by (simp add: A_def valid_elt_iff)
  define R where "R = m * (A - (A div q) * q) - (A div q) * r"
  have q: "A - (A div q) * q = A mod q" by (simp add: minus_div_mult_eq_mod)
  have lt: "R < 2147483647"
  proof -
    have "m * (A mod q) \<le> m * (q - 1)" using m by (intro mult_left_mono) auto
    moreover have "m * (q - 1) = m * q - m" by (simp add: algebra_simps)
    moreover have "0 \<le> (A div q) * r" using A m by (simp add: pos_imp_zdiv_nonneg_iff)
    ultimately show ?thesis using m q unfolding R_def by simp
  qed
  have gt: "- 2147483647 < R"
  proof -
    have "(A div q) * r \<le> (2147483646 div q) * r"
      using A m by (intro mult_right_mono zdiv_mono1) auto
    moreover have "0 \<le> m * (A mod q)" using m by simp
    ultimately show ?thesis using b q unfolding R_def by (simp add: mult.commute)
  qed
  have "R = m * A - (A div q) * 2147483647"
    unfolding R_def using m(4) by (simp add: algebra_simps flip: m(4))
  then have cong: "R mod 2147483647 = (m * A) mod 2147483647"
    by (metis mod_mult_self4 diff_add_cancel add.commute mult.commute mod_mult_self2)
  have "schrage m q r a = R + (if R < 0 then 2147483647 else 0)"
    using A m by (simp add: schrage_def Let_def sa R_def)
  also have "\<dots> = R mod 2147483647"
  proof (cases "R < 0")
    case True
    have "(R + 2147483647) mod 2147483647 = R + 2147483647"
      using True gt by (intro mod_pos_pos_trivial) auto
    then show ?thesis using True by simp
  next
    case False
    then show ?thesis using lt by (simp add: mod_pos_pos_trivial)
  qed
  finally show "schrage m q r a = (m * int (unat a)) mod 2147483647" using cong by (simp add: A_def)
  show "\<bar>m * (int (unat a) - (int (unat a) div q) * q) - (int (unat a) div q) * r\<bar> < 2147483647"
    using lt gt unfolding R_def A_def by simp
qed

lemma schrage_residue:
  assumes "valid_elt a" "0 < m" "0 < q" "0 \<le> r" "m * q + r = 2147483647"
    "r * (2147483646 div q) < 2147483647"
  shows "word_of_int (schrage m q r a) = residue (nat m * unat a)"
proof -
  have "word_of_int (schrage m q r a) = (word_of_int ((m * int (unat a)) mod 2147483647) :: uint_fast32)"
    using schrage_correct(1) [OF assms] by simp
  also have "(m * int (unat a)) mod 2147483647 = int ((nat m * unat a) mod P31)"
    using assms(2) by (simp add: zmod_int)
  also have "(word_of_int (int ((nat m * unat a) mod P31)) :: uint_fast32) = residue (nat m * unat a)"
    by (simp add: residue_def)
  finally show ?thesis .
qed

lemma mod_mul_x32_spec:
  "mod_mul_x32 a = (if valid_elt a then Some (residue (107374182 * unat a)) else None)"
  using schrage_residue [of a 107374182 20 7]
  by (simp add: mod_mul_x32_def mod_mul32_spec mult.commute Let_def)

lemma mod_mul_y32_spec:
  "mod_mul_y32 a = (if valid_elt a then Some (residue (104480 * unat a)) else None)"
  using schrage_residue [of a 104480 20554 1727]
  by (simp add: mod_mul_y32_def mod_mul32_spec mult.commute Let_def)

lemma mod_mac_y32_spec:
  "mod_mac_y32 s a = (if valid_elt s \<and> valid_elt a then Some (residue (104480 * unat a + unat s)) else None)"
proof -
  have "residue (unat s + unat (residue (104480 * unat a))) = residue (unat a * 104480 + unat s)"
    by (simp add: ac_simps)
  then show ?thesis
    by (simp add: mod_mac_y32_def mod_mul_y32_spec mod_add32_spec mod_mac32_spec mult.commute)
qed

interpretation ma32: mod_arith mod_add32 mod_mul32 mod_mac32 mod_mac2_32 mod_mac3_32 mod_mac4_32
  mod_mul_x32 mod_mul_y32 mod_mac_y32
  by unfold_locales (rule mod_add32_spec mod_mul32_spec mod_mac32_spec mod_mac2_32_spec mod_mac3_32_spec
    mod_mac4_32_spec mod_mul_x32_spec mod_mul_y32_spec mod_mac_y32_spec)+

section \<open>Residues as elements of a ring\<close>

text \<open>The numeral type with 2^31 - 1 elements is a commutative ring; \<open>val\<close> reads a residue in it, so
  that identities between the generator's matrices are ring identities.\<close>

type_synonym f31 = "2147483647"

definition val :: "uint_fast32 \<Rightarrow> f31" where
  "val w = of_nat (unat w)"

definition X31 :: f31 where "X31 = of_nat 107374182"

definition Y31 :: f31 where "Y31 = of_nat 104480"

lemma of_nat_f31_eq_iff: "(of_nat m :: f31) = of_nat n \<longleftrightarrow> m mod P31 = n mod P31"
proof -
  have i: "int k mod 2147483647 = int (k mod P31)" for k by (simp add: zmod_int)
  have "(of_nat m :: f31) = of_nat n \<longleftrightarrow> int m mod int CARD(f31) = int n mod int CARD(f31)"
    unfolding bit1.of_nat_eq by (rule Abs_bit1_inject) auto
  also have "\<dots> \<longleftrightarrow> m mod P31 = n mod P31" by (simp add: i)
  finally show ?thesis .
qed

lemma of_nat_mod_f31: "(of_nat (m mod P31) :: f31) = of_nat m"
  by (simp only: of_nat_f31_eq_iff mod_mod_trivial)

lemma val_residue: "val (residue n) = of_nat n"
  by (simp only: val_def unat_residue of_nat_mod_f31)

lemma val_inject: "valid_elt a \<Longrightarrow> valid_elt b \<Longrightarrow> val a = val b \<longleftrightarrow> a = b"
  by (simp only: val_def of_nat_f31_eq_iff valid_elt_iff mod_less word_unat_eq_iff)

lemma val_0: "val 0 = 0"
  by (simp only: val_def unat_0 semiring_1_class.of_nat_0)

lemma val_1: "val 1 = 1"
  by (simp only: val_def unat_1 semiring_1_class.of_nat_1)

lemma val_eq_0_iff: "valid_elt a \<Longrightarrow> val a = 0 \<longleftrightarrow> a = 0"
  using val_inject [of a 0] by (simp add: val_0 valid_elt_def)

lemmas val_ring = val_residue of_nat_add of_nat_mult val_def [symmetric] X31_def [symmetric] Y31_def [symmetric]

text \<open>The operations in ring terms, as the generator uses them.\<close>

context mod_arith
begin

lemma add_ring: "valid_elt a \<Longrightarrow> valid_elt b \<Longrightarrow> returns (add a b) (\<lambda>r. valid_elt r \<and> val r = val a + val b)"
  by (simp only: add_spec simp_thms if_True returns_Some valid_residue val_ring)

lemma mul_ring: "valid_elt a \<Longrightarrow> valid_elt b \<Longrightarrow> returns (mul a b) (\<lambda>r. valid_elt r \<and> val r = val a * val b)"
  by (simp only: mul_spec simp_thms if_True returns_Some valid_residue val_ring)

lemma mac_ring: "valid_elt s \<Longrightarrow> valid_elt a \<Longrightarrow> valid_elt b \<Longrightarrow>
    returns (mac s a b) (\<lambda>r. valid_elt r \<and> val r = val a * val b + val s)"
  by (simp only: mac_spec simp_thms if_True returns_Some valid_residue val_ring)

lemma mac2_ring: "valid_elt s \<Longrightarrow> valid_elt a \<Longrightarrow> valid_elt b \<Longrightarrow> valid_elt c \<Longrightarrow> valid_elt d \<Longrightarrow>
    returns (mac2 s a b c d) (\<lambda>r. valid_elt r \<and> val r = val a * val b + val c * val d + val s)"
  by (simp only: mac2_spec simp_thms if_True returns_Some valid_residue val_ring)

lemma mac3_ring: "valid_elt s \<Longrightarrow> valid_elt a \<Longrightarrow> valid_elt b \<Longrightarrow> valid_elt c \<Longrightarrow> valid_elt d \<Longrightarrow> valid_elt e \<Longrightarrow>
    valid_elt f \<Longrightarrow> returns (mac3 s a b c d e f)
      (\<lambda>r. valid_elt r \<and> val r = val a * val b + val c * val d + val e * val f + val s)"
  by (simp only: mac3_spec simp_thms if_True returns_Some valid_residue val_ring)

lemma mac4_ring: "valid_elt s \<Longrightarrow> valid_elt a \<Longrightarrow> valid_elt b \<Longrightarrow> valid_elt c \<Longrightarrow> valid_elt d \<Longrightarrow> valid_elt e \<Longrightarrow>
    valid_elt f \<Longrightarrow> valid_elt g \<Longrightarrow> valid_elt h \<Longrightarrow> returns (mac4 s a b c d e f g h)
      (\<lambda>r. valid_elt r \<and> val r = val a * val b + val c * val d + val e * val f + val g * val h + val s)"
  by (simp only: mac4_spec simp_thms if_True returns_Some valid_residue val_ring)

lemma mul_x_ring: "valid_elt a \<Longrightarrow> returns (mul_x a) (\<lambda>r. valid_elt r \<and> val r = X31 * val a)"
  by (simp only: mul_x_spec simp_thms if_True returns_Some valid_residue val_ring)

lemma mul_y_ring: "valid_elt a \<Longrightarrow> returns (mul_y a) (\<lambda>r. valid_elt r \<and> val r = Y31 * val a)"
  by (simp only: mul_y_spec simp_thms if_True returns_Some valid_residue val_ring)

lemma mac_y_ring: "valid_elt s \<Longrightarrow> valid_elt a \<Longrightarrow>
    returns (mac_y s a) (\<lambda>r. valid_elt r \<and> val r = Y31 * val a + val s)"
  by (simp only: mac_y_spec simp_thms if_True returns_Some valid_residue val_ring)

lemmas ring_specs = add_ring mul_ring mac_ring mac2_ring mac3_ring mac4_ring mul_x_ring mul_y_ring mac_y_ring

end

text \<open>C32: the two interchangeable headers compute the same function, assertion failures included: the
  32-bit code (carry folding and Schrage's method, with its internal consistency assertions) returns
  for all inputs exactly what the 64-bit code returns.\<close>

theorem mod_arith_variants_agree:
  "mod_add32 = mod_add64 \<and> mod_mul32 = mod_mul64 \<and> mod_mac32 = mod_mac64 \<and>
   mod_mac2_32 = mod_mac2_64 \<and> mod_mac3_32 = mod_mac3_64 \<and> mod_mac4_32 = mod_mac4_64 \<and>
   mod_mul_x32 = mod_mul_x64 \<and> mod_mul_y32 = mod_mul_y64 \<and> mod_mac_y32 = mod_mac_y64"
  by (intro conjI ext) (simp_all only: ma32.arith_specs ma64.arith_specs)

end
