(* ===== verification/Splittable_Mrg.thy ===== *)
theory Splittable_Mrg
  imports Mod_Arith
begin

text \<open>
  The multiple recursive random number generator of \<open>generator/splittable_mrg.c\<close>, built on the
  64-bit arithmetic that \<open>user_settings.h\<close> selects: a state of five residues, one step of the
  recurrence, the compressed transition matrices, the table generator \<open>dump_mrg_powers\<close> and the
  skip-ahead \<open>mrg_skip\<close> that splits the stream between edges and threads.  The specification is the
  recurrence itself: \<open>mrg_skip\<close> equals that many single steps.
\<close>

record mrg_state =
  z1 :: uint_fast32
  z2 :: uint_fast32
  z3 :: uint_fast32
  z4 :: uint_fast32
  z5 :: uint_fast32

record mrg_transition_matrix =
  ms :: uint_fast32
  mt :: uint_fast32
  mu :: uint_fast32
  mv :: uint_fast32
  mw :: uint_fast32
  ma :: uint_fast32
  mb :: uint_fast32
  mc :: uint_fast32
  md :: uint_fast32

section \<open>Transition matrices\<close>

definition mrg_update_cache :: "mrg_transition_matrix \<Rightarrow> mrg_transition_matrix option" where
  "mrg_update_cache p = do {
     xs \<leftarrow> mod_mul_x64 (ms p);
     a \<leftarrow> mod_add64 xs (mt p);
     xa \<leftarrow> mod_mul_x64 a;
     b \<leftarrow> mod_add64 xa (mu p);
     xb \<leftarrow> mod_mul_x64 b;
     c \<leftarrow> mod_add64 xb (mv p);
     xc \<leftarrow> mod_mul_x64 c;
     d \<leftarrow> mod_add64 xc (mw p);
     Some (p\<lparr>ma := a, mb := b, mc := c, md := d\<rparr>) }"

text \<open>The C functions fill a structure the caller owns; the fields they write first do not depend on
  what it held, so the models take no argument.\<close>

definition mrg_make_identity :: "mrg_transition_matrix option" where
  "mrg_make_identity = mrg_update_cache
     \<lparr>ms = 0, mt = 0, mu = 0, mv = 0, mw = 1, ma = 0, mb = 0, mc = 0, md = 0\<rparr>"

definition mrg_make_A :: "mrg_transition_matrix option" where
  "mrg_make_A = mrg_update_cache
     \<lparr>ms = 0, mt = 0, mu = 0, mv = 1, mw = 0, ma = 0, mb = 0, mc = 0, md = 0\<rparr>"

definition mrg_multiply ::
    "mrg_transition_matrix \<Rightarrow> mrg_transition_matrix \<Rightarrow> mrg_transition_matrix option" where
  "mrg_multiply m n = do {
     t1 \<leftarrow> mod_mul64 (ms m) (md n);
     t2 \<leftarrow> mod_mac64 t1 (mt m) (mc n);
     t3 \<leftarrow> mod_mac64 t2 (mu m) (mb n);
     t4 \<leftarrow> mod_mac64 t3 (mv m) (ma n);
     rs \<leftarrow> mod_mac64 t4 (mw m) (ms n);
     t1 \<leftarrow> mod_mul64 (ms m) (ms n);
     t2 \<leftarrow> mod_mul_y64 t1;
     t3 \<leftarrow> mod_mac64 t2 (mt m) (mw n);
     t4 \<leftarrow> mod_mac64 t3 (mu m) (mv n);
     t5 \<leftarrow> mod_mac64 t4 (mv m) (mu n);
     rt \<leftarrow> mod_mac64 t5 (mw m) (mt n);
     t1 \<leftarrow> mod_mul64 (ms m) (ma n);
     t2 \<leftarrow> mod_mac64 t1 (mt m) (ms n);
     t3 \<leftarrow> mod_mul_y64 t2;
     t4 \<leftarrow> mod_mac64 t3 (mu m) (mw n);
     t5 \<leftarrow> mod_mac64 t4 (mv m) (mv n);
     ru \<leftarrow> mod_mac64 t5 (mw m) (mu n);
     t1 \<leftarrow> mod_mul64 (ms m) (mb n);
     t2 \<leftarrow> mod_mac64 t1 (mt m) (ma n);
     t3 \<leftarrow> mod_mac64 t2 (mu m) (ms n);
     t4 \<leftarrow> mod_mul_y64 t3;
     t5 \<leftarrow> mod_mac64 t4 (mv m) (mw n);
     rv \<leftarrow> mod_mac64 t5 (mw m) (mv n);
     t1 \<leftarrow> mod_mul64 (ms m) (mc n);
     t2 \<leftarrow> mod_mac64 t1 (mt m) (mb n);
     t3 \<leftarrow> mod_mac64 t2 (mu m) (ma n);
     t4 \<leftarrow> mod_mac64 t3 (mv m) (ms n);
     t5 \<leftarrow> mod_mul_y64 t4;
     rw \<leftarrow> mod_mac64 t5 (mw m) (mw n);
     mrg_update_cache \<lparr>ms = rs, mt = rt, mu = ru, mv = rv, mw = rw, ma = 0, mb = 0, mc = 0, md = 0\<rparr> }"

text \<open>\<open>mrg_power\<close>: the loop halves its 32-bit \<open>exponent\<close> and squares.\<close>

function mrg_power_loop ::
    "32 word \<Rightarrow> mrg_transition_matrix \<Rightarrow> mrg_transition_matrix \<Rightarrow> mrg_transition_matrix option" where
  "mrg_power_loop expo cur result =
     (if 0 < expo then do {
        result' \<leftarrow> (if expo mod 2 = 1 then mrg_multiply result cur else Some result);
        cur' \<leftarrow> mrg_multiply cur cur;
        mrg_power_loop (expo div 2) cur' result' }
      else Some result)"
  by pat_completeness auto

termination
proof (relation "measure (\<lambda>(e, _, _). unat e)")
  fix expo :: "32 word"
  assume "0 < expo"
  then have "unat expo div 2 < unat expo" by (simp add: word_less_nat_alt)
  then show "((expo div 2, c, r), (expo, c', r')) \<in> measure (\<lambda>(e, _, _). unat e)"
    for c r c' r' :: mrg_transition_matrix
    by (simp add: unat_div)
qed simp

declare mrg_power_loop.simps [simp del]

definition mrg_power :: "mrg_transition_matrix \<Rightarrow> 32 word \<Rightarrow> mrg_transition_matrix option" where
  "mrg_power m expo = do {
     result \<leftarrow> mrg_make_identity;
     mrg_power_loop expo m result }"

section \<open>Steps\<close>

definition mrg_apply_transition :: "mrg_transition_matrix \<Rightarrow> mrg_state \<Rightarrow> mrg_state option" where
  "mrg_apply_transition m st = do {
     p1 \<leftarrow> mod_mul64 (md m) (z1 st);
     q1 \<leftarrow> mod_mac4_64 0 (ms m) (z2 st) (ma m) (z3 st) (mb m) (z4 st) (mc m) (z5 st);
     o1 \<leftarrow> mod_mac_y64 p1 q1;
     p2 \<leftarrow> mod_mac2_64 0 (mc m) (z1 st) (mw m) (z2 st);
     q2 \<leftarrow> mod_mac3_64 0 (ms m) (z3 st) (ma m) (z4 st) (mb m) (z5 st);
     o2 \<leftarrow> mod_mac_y64 p2 q2;
     p3 \<leftarrow> mod_mac3_64 0 (mb m) (z1 st) (mv m) (z2 st) (mw m) (z3 st);
     q3 \<leftarrow> mod_mac2_64 0 (ms m) (z4 st) (ma m) (z5 st);
     o3 \<leftarrow> mod_mac_y64 p3 q3;
     p4 \<leftarrow> mod_mac4_64 0 (ma m) (z1 st) (mu m) (z2 st) (mv m) (z3 st) (mw m) (z4 st);
     q4 \<leftarrow> mod_mul64 (ms m) (z5 st);
     o4 \<leftarrow> mod_mac_y64 p4 q4;
     p5 \<leftarrow> mod_mac3_64 0 (ms m) (z1 st) (mt m) (z2 st) (mu m) (z3 st);
     o5 \<leftarrow> mod_mac2_64 p5 (mv m) (z4 st) (mw m) (z5 st);
     Some \<lparr>z1 = o1, z2 = o2, z3 = o3, z4 = o4, z5 = o5\<rparr> }"

definition mrg_step :: "mrg_transition_matrix \<Rightarrow> mrg_state \<Rightarrow> mrg_state option" where
  "mrg_step m st = mrg_apply_transition m st"

definition mrg_orig_step :: "mrg_state \<Rightarrow> mrg_state option" where
  "mrg_orig_step st = do {
     x \<leftarrow> mod_mul_x64 (z1 st);
     new_elt \<leftarrow> mod_mac_y64 x (z5 st);
     Some \<lparr>z1 = new_elt, z2 = z1 st, z3 = z2 st, z4 = z3 st, z5 = z4 st\<rparr> }"

definition mrg_get_uint_orig :: "mrg_state \<Rightarrow> (uint_fast32 \<times> mrg_state) option" where
  "mrg_get_uint_orig st = do { st' \<leftarrow> mrg_orig_step st; Some (z1 st', st') }"

definition mrg_seed :: "uint_fast32 list \<Rightarrow> mrg_state option" where
  "mrg_seed seed = do {
     s0 \<leftarrow> aget seed 0; s1 \<leftarrow> aget seed 1; s2 \<leftarrow> aget seed 2; s3 \<leftarrow> aget seed 3; s4 \<leftarrow> aget seed 4;
     Some \<lparr>z1 = s0, z2 = s1, z3 = s2, z4 = s3, z5 = s4\<rparr> }"

section \<open>The table of powers and the skip\<close>

text \<open>\<open>dump_mrg_powers\<close> prints, for each byte, the matrices of the exponents 0 to 255; its output is
  the initialiser of \<open>mrg_skip_matrices\<close>.\<close>

definition dump_powers_row :: "mrg_transition_matrix \<Rightarrow> mrg_transition_matrix list option" where
  "dump_powers_row t = do {
     i \<leftarrow> mrg_make_identity;
     for_range 2 256 (\<lambda>j out. do { m \<leftarrow> mrg_power t (word_of_int j); Some (out @ [m]) }) [i, t] }"

definition dump_mrg_powers :: "mrg_transition_matrix list list option" where
  "dump_mrg_powers = do {
     r \<leftarrow> for_range 0 24
       (\<lambda>i (transitions, out). do {
          t \<leftarrow> (if i = 0 then mrg_make_A
               else do { prev \<leftarrow> aget transitions (i - 1); mrg_power prev 256 });
          row \<leftarrow> dump_powers_row t;
          Some (transitions @ [t], out @ [row]) })
       ([], []);
     Some (snd r) }"

text \<open>One of the three loops of \<open>mrg_skip\<close>: consume the exponent byte by byte.\<close>

function mrg_skip_loop ::
    "mrg_transition_matrix list list \<Rightarrow> int \<Rightarrow> 64 word \<Rightarrow> mrg_state \<Rightarrow> mrg_state option" where
  "mrg_skip_loop tbl byte_index expo st =
     (if expo = 0 then Some st
      else let v = expo AND 0xFF in do {
        st' \<leftarrow> (if v \<noteq> 0 then do {
                 row \<leftarrow> aget tbl byte_index;
                 m \<leftarrow> aget row (uint v);
                 mrg_step m st }
               else Some st);
        mrg_skip_loop tbl (byte_index + 1) (drop_bit 8 expo) st' })"
  by pat_completeness auto

termination
proof (relation "measure (\<lambda>(_, _, e, _). unat e)")
  fix expo :: "64 word"
  assume "expo \<noteq> 0"
  then have "unat expo div 256 < unat expo" by (simp add: word_neq_0_conv word_less_nat_alt)
  then show "((tbl, b, drop_bit 8 expo, st'), (tbl', b', expo, st)) \<in> measure (\<lambda>(_, _, e, _). unat e)"
    for tbl tbl' :: "mrg_transition_matrix list list" and b b' st st'
    by (simp add: unat_drop_bit_eq drop_bit_nat_def)
qed simp

declare mrg_skip_loop.simps [simp del]

definition mrg_skip ::
    "mrg_transition_matrix list list \<Rightarrow> mrg_state \<Rightarrow> 64 word \<Rightarrow> 64 word \<Rightarrow> 64 word \<Rightarrow> mrg_state option" where
  "mrg_skip tbl st exponent_high exponent_middle exponent_low = do {
     st1 \<leftarrow> mrg_skip_loop tbl 0 exponent_low st;
     st2 \<leftarrow> mrg_skip_loop tbl 8 exponent_middle st1;
     mrg_skip_loop tbl 16 exponent_high st2 }"

text \<open>The specification: that many single steps of the recurrence.\<close>

primrec orig_steps :: "nat \<Rightarrow> mrg_state \<Rightarrow> mrg_state option" where
  "orig_steps 0 st = Some st"
| "orig_steps (Suc n) st = mrg_orig_step st \<bind> orig_steps n"

definition valid_state :: "mrg_state \<Rightarrow> bool" where
  "valid_state st \<longleftrightarrow> valid_elt (z1 st) \<and> valid_elt (z2 st) \<and> valid_elt (z3 st) \<and> valid_elt (z4 st) \<and>
     valid_elt (z5 st)"

section \<open>The recurrence over the ring of residues\<close>

type_synonym fvec = "f31 \<times> f31 \<times> f31 \<times> f31 \<times> f31"

definition fstep :: "fvec \<Rightarrow> fvec" where
  "fstep = (\<lambda>(p1, p2, p3, p4, p5). (X31 * p1 + Y31 * p5, p1, p2, p3, p4))"

definition last5 :: "fvec \<Rightarrow> f31" where
  "last5 = (\<lambda>(p1, p2, p3, p4, p5). p5)"

definition vst :: "mrg_state \<Rightarrow> fvec" where
  "vst st = (val (z1 st), val (z2 st), val (z3 st), val (z4 st), val (z5 st))"

definition row5 :: "mrg_transition_matrix \<Rightarrow> fvec \<Rightarrow> f31" where
  "row5 m = (\<lambda>(p1, p2, p3, p4, p5).
     val (ms m) * p1 + val (mt m) * p2 + val (mu m) * p3 + val (mv m) * p4 + val (mw m) * p5)"

definition mat_act :: "mrg_transition_matrix \<Rightarrow> fvec \<Rightarrow> fvec" where
  "mat_act m = (\<lambda>(p1, p2, p3, p4, p5).
     (val (md m) * p1 + Y31 * (val (ms m) * p2 + val (ma m) * p3 + val (mb m) * p4 + val (mc m) * p5),
      val (mc m) * p1 + val (mw m) * p2 + Y31 * (val (ms m) * p3 + val (ma m) * p4 + val (mb m) * p5),
      val (mb m) * p1 + val (mv m) * p2 + val (mw m) * p3 + Y31 * (val (ms m) * p4 + val (ma m) * p5),
      val (ma m) * p1 + val (mu m) * p2 + val (mv m) * p3 + val (mw m) * p4 + Y31 * (val (ms m) * p5),
      row5 m (p1, p2, p3, p4, p5)))"

definition valid_row :: "mrg_transition_matrix \<Rightarrow> bool" where
  "valid_row m \<longleftrightarrow> valid_elt (ms m) \<and> valid_elt (mt m) \<and> valid_elt (mu m) \<and> valid_elt (mv m) \<and> valid_elt (mw m)"

definition cache_ok :: "mrg_transition_matrix \<Rightarrow> bool" where
  "cache_ok m \<longleftrightarrow> valid_elt (ma m) \<and> valid_elt (mb m) \<and> valid_elt (mc m) \<and> valid_elt (md m) \<and>
     val (ma m) = X31 * val (ms m) + val (mt m) \<and>
     val (mb m) = X31 * val (ma m) + val (mu m) \<and>
     val (mc m) = X31 * val (mb m) + val (mv m) \<and>
     val (md m) = X31 * val (mc m) + val (mw m)"

text \<open>\<open>represents m n\<close>: the matrix is A^n, stated of its bottom row and its cache.\<close>

definition represents :: "mrg_transition_matrix \<Rightarrow> nat \<Rightarrow> bool" where
  "represents m n \<longleftrightarrow> valid_row m \<and> cache_ok m \<and> (\<forall>z. last5 ((fstep ^^ n) z) = row5 m z)"

lemma fstep_simp [simp]: "fstep (p1, p2, p3, p4, p5) = (X31 * p1 + Y31 * p5, p1, p2, p3, p4)"
  by (simp add: fstep_def)

lemma row5_simp [simp]: "row5 m (p1, p2, p3, p4, p5) =
    val (ms m) * p1 + val (mt m) * p2 + val (mu m) * p3 + val (mv m) * p4 + val (mw m) * p5"
  by (simp add: row5_def)

lemma last5_simp [simp]: "last5 (p1, p2, p3, p4, p5) = p5"
  by (simp add: last5_def)

text \<open>The bottom row and the cache determine the whole matrix: the other rows of A^n are its bottom row
  after further steps.\<close>

lemma represents_act:
  assumes "represents m n"
  shows "(fstep ^^ n) z = mat_act m z"
proof -
  define g where "g = fstep ^^ n"
  have comm: "fstep (g y) = g (fstep y)" for y by (simp add: g_def funpow_swap1)
  have row: "last5 (g y) = row5 m y" for y using assms unfolding represents_def g_def by blast
  obtain p1 p2 p3 p4 p5 where z: "z = (p1, p2, p3, p4, p5)" by (cases z) auto
  obtain y1 y2 y3 y4 y5 where y: "g z = (y1, y2, y3, y4, y5)" by (cases "g z") auto
  have "y5 = row5 m z" using row [of z] y by simp
  moreover have "y4 = row5 m (fstep z)"
    using row [of "fstep z"] comm [of z] y by (metis fstep_simp last5_simp)
  moreover have "y3 = row5 m (fstep (fstep z))"
    using row [of "fstep (fstep z)"] comm y by (metis fstep_simp last5_simp)
  moreover have "y2 = row5 m (fstep (fstep (fstep z)))"
    using row [of "fstep (fstep (fstep z))"] comm y by (metis fstep_simp last5_simp)
  moreover have "y1 = row5 m (fstep (fstep (fstep (fstep z))))"
    using row [of "fstep (fstep (fstep (fstep z)))"] comm y by (metis fstep_simp last5_simp)
  ultimately show ?thesis
    using assms y unfolding g_def represents_def cache_ok_def z mat_act_def
    by (simp add: algebra_simps)
qed

lemma update_cache_returns:
  "valid_row p \<Longrightarrow> returns (mrg_update_cache p)
     (\<lambda>r. valid_row r \<and> cache_ok r \<and> ms r = ms p \<and> mt r = mt p \<and> mu r = mu p \<and> mv r = mv p \<and> mw r = mw p)"
  unfolding mrg_update_cache_def valid_row_def
  by (elim conjE, (rule returns_bindI, rule ma64.ring_specs, (assumption | rule valid_elt_0)+, elim conjE)+)
    (simp add: cache_ok_def)

lemma represents_identity: "returns mrg_make_identity (\<lambda>m. represents m 0)"
proof -
  have "returns mrg_make_identity (\<lambda>r. valid_row r \<and> cache_ok r \<and> ms r = 0 \<and> mt r = 0 \<and> mu r = 0 \<and> mv r = 0 \<and> mw r = 1)"
    unfolding mrg_make_identity_def
    by (rule returns_mono, rule update_cache_returns) (auto simp: valid_row_def valid_elt_def)
  then show ?thesis
    by (rule returns_mono) (auto simp: represents_def val_0 val_1)
qed

lemma represents_A: "returns mrg_make_A (\<lambda>m. represents m 1)"
proof -
  have "returns mrg_make_A (\<lambda>r. valid_row r \<and> cache_ok r \<and> ms r = 0 \<and> mt r = 0 \<and> mu r = 0 \<and> mv r = 1 \<and> mw r = 0)"
    unfolding mrg_make_A_def
    by (rule returns_mono, rule update_cache_returns) (auto simp: valid_row_def valid_elt_def)
  then show ?thesis
    by (rule returns_mono) (auto simp: represents_def val_0 val_1)
qed

lemma cache_okD:
  "cache_ok m \<Longrightarrow> valid_elt (ma m) \<and> valid_elt (mb m) \<and> valid_elt (mc m) \<and> valid_elt (md m)"
  by (simp add: cache_ok_def)

lemma multiply_returns:
  assumes "valid_row m" "cache_ok m" "valid_row n" "cache_ok n"
  shows "returns (mrg_multiply m n) (\<lambda>r. valid_row r \<and> cache_ok r \<and>
    val (ms r) = val (ms m) * val (md n) + val (mt m) * val (mc n) + val (mu m) * val (mb n) + val (mv m) * val (ma n)
      + val (mw m) * val (ms n) \<and>
    val (mt r) = Y31 * (val (ms m) * val (ms n)) + val (mt m) * val (mw n) + val (mu m) * val (mv n)
      + val (mv m) * val (mu n) + val (mw m) * val (mt n) \<and>
    val (mu r) = Y31 * (val (ms m) * val (ma n) + val (mt m) * val (ms n)) + val (mu m) * val (mw n)
      + val (mv m) * val (mv n) + val (mw m) * val (mu n) \<and>
    val (mv r) = Y31 * (val (ms m) * val (mb n) + val (mt m) * val (ma n) + val (mu m) * val (ms n))
      + val (mv m) * val (mw n) + val (mw m) * val (mv n) \<and>
    val (mw r) = Y31 * (val (ms m) * val (mc n) + val (mt m) * val (mb n) + val (mu m) * val (ma n) + val (mv m) * val (ms n))
      + val (mw m) * val (mw n))"
proof -
  note v = assms(1,3) [unfolded valid_row_def] cache_okD [OF assms(2)] cache_okD [OF assms(4)]
  show ?thesis
    unfolding mrg_multiply_def
    by (insert v, elim conjE, (rule returns_bindI, rule ma64.ring_specs, (assumption | rule valid_elt_0)+, elim conjE)+,
      rule returns_mono, rule update_cache_returns,
        simp only: valid_row_def mrg_transition_matrix.simps simp_thms,
        elim conjE, simp only: mrg_transition_matrix.simps simp_thms add_ac)
qed

lemma represents_multiply:
  assumes "represents m i" "represents n j"
  shows "returns (mrg_multiply m n) (\<lambda>r. represents r (i + j))"
proof -
  have v: "valid_row m" "cache_ok m" "valid_row n" "cache_ok n"
    using assms by (auto simp: represents_def)
  have eq: "last5 ((fstep ^^ (i + j)) z) = row5 m (mat_act n z)" for z
    using assms(1) represents_act [OF assms(2), of z] unfolding represents_def
    by (simp only: funpow_add comp_apply)
  show ?thesis
    using multiply_returns [OF v]
    by (rule returns_mono) (auto simp: represents_def eq mat_act_def algebra_simps)
qed

lemma represents_power_loop:
  "represents cur i \<Longrightarrow> represents result j \<Longrightarrow>
   returns (mrg_power_loop expo cur result) (\<lambda>r. represents r (j + unat expo * i))"
proof (induction expo cur result arbitrary: i j rule: mrg_power_loop.induct)
  case (1 expo cur result)
  show ?case
  proof (cases "0 < expo")
    case False
    then have "expo = 0" by (simp add: word_greater_zero_iff)
    with 1 show ?thesis by (simp add: mrg_power_loop.simps [of 0])
  next
    case True
    define j' where "j' = (if expo mod 2 = 1 then j + i else j)"
    have res: "returns (if expo mod 2 = 1 then mrg_multiply result cur else Some result)
        (\<lambda>r. represents r j')"
      using 1(3) represents_multiply [OF 1(3,2)] by (simp add: j'_def)
    have bit: "unat expo mod 2 = (if expo mod 2 = 1 then 1 else 0)"
    proof -
      have "unat (expo mod 2) = unat expo mod 2" by (simp add: unat_mod)
      moreover have "expo mod 2 = 1 \<longleftrightarrow> unat (expo mod 2) = 1" by (simp add: word_unat_eq_iff)
      ultimately show ?thesis by (auto simp: not_mod_2_eq_1_eq_0)
    qed
    have ex: "unat expo = 2 * unat (expo div 2) + unat expo mod 2" by (simp add: unat_div)
    have total: "j' + unat (expo div 2) * (i + i) = j + unat expo * i"
    proof -
      have "unat expo * i = (2 * unat (expo div 2) + (if expo mod 2 = 1 then 1 else 0)) * i"
        using ex bit by simp
      then show ?thesis by (simp add: j'_def algebra_simps)
    qed
    from res obtain r where r: "(if expo mod 2 = 1 then mrg_multiply result cur else Some result) = Some r"
        "represents r j'" by (rule returnsE)
    from represents_multiply [OF 1(2,2)] obtain c where c: "mrg_multiply cur cur = Some c"
        "represents c (i + i)" by (rule returnsE)
    have "mrg_power_loop expo cur result = mrg_power_loop (expo div 2) c r"
      by (simp only: mrg_power_loop.simps [of expo] if_P [OF True] r(1) c(1) bind.bind_lunit)
    then show ?thesis
      using "1.IH" [OF True r(1) c(1) c(2) r(2)] total by simp
  qed
qed

lemma represents_power:
  assumes "represents m n"
  shows "returns (mrg_power m expo) (\<lambda>r. represents r (unat expo * n))"
  unfolding mrg_power_def
proof (rule returns_bindI [OF represents_identity])
  fix r assume "represents r 0"
  then show "returns (mrg_power_loop expo m r) (\<lambda>r. represents r (unat expo * n))"
    using represents_power_loop [OF assms, of r 0 expo] by simp
qed

section \<open>Correctness of the table\<close>

definition row_ok :: "nat \<Rightarrow> mrg_transition_matrix list \<Rightarrow> bool" where
  "row_ok n row \<longleftrightarrow> length row = 256 \<and> (\<forall>j < 256. represents (row ! j) (j * n))"

definition table_ok :: "mrg_transition_matrix list list \<Rightarrow> bool" where
  "table_ok tbl \<longleftrightarrow> length tbl = 24 \<and> (\<forall>i < 24. row_ok (256 ^ i) (tbl ! i))"

lemma dump_powers_row_returns:
  assumes t: "represents t n"
  shows "returns (dump_powers_row t) (row_ok n)"
  unfolding dump_powers_row_def
proof (rule returns_bindI [OF represents_identity])
  fix m assume m: "represents m 0"
  let ?I = "\<lambda>j out. int (length out) = j \<and> (\<forall>k < length out. represents (out ! k) (k * n))"
  have "returns (for_range 2 256 (\<lambda>j out. do { m \<leftarrow> mrg_power t (word_of_int j); Some (out @ [m]) }) [m, t])
      (?I 256)"
  proof (rule returns_for_range)
    show "?I 2 [m, t]"
      using m t by (auto simp: less_Suc_eq numeral_2_eq_2)
  next
    fix j out
    assume j: "2 \<le> j" "j < 256" and I: "?I j out"
    have u: "unat (word_of_int j :: 32 word) = length out"
    proof -
      have "j = int (length out)" "length out < 2 ^ 32" using j I by auto
      then show ?thesis by (simp add: unat_of_nat)
    qed
    show "returns (mrg_power t (word_of_int j) \<bind> (\<lambda>m. Some (out @ [m]))) (?I (j + 1))"
    proof (rule returns_bindI [OF represents_power [OF t]])
      fix m assume "represents m (unat (word_of_int j :: 32 word) * n)"
      then show "returns (Some (out @ [m])) (?I (j + 1))"
        using I by (auto simp: u nth_append less_Suc_eq)
    qed
  qed simp
  then show "returns (for_range 2 256 (\<lambda>j out. do { m \<leftarrow> mrg_power t (word_of_int j); Some (out @ [m]) }) [m, t])
      (row_ok n)"
    by (rule returns_mono) (auto simp: row_ok_def)
qed

theorem dump_mrg_powers_returns: "returns dump_mrg_powers table_ok"
proof -
  let ?body = "\<lambda>i (transitions, out). do {
          t \<leftarrow> (if i = 0 then mrg_make_A
               else do { prev \<leftarrow> aget transitions (i - 1); mrg_power prev 256 });
          row \<leftarrow> dump_powers_row t;
          Some (transitions @ [t], out @ [row]) }"
  let ?I = "\<lambda>i (ts, out). int (length ts) = i \<and> length out = length ts \<and>
      (\<forall>k < length ts. represents (ts ! k) (256 ^ k) \<and> row_ok (256 ^ k) (out ! k))"
  have "returns (for_range 0 24 ?body ([], [])) (?I 24)"
  proof (rule returns_for_range)
    show "?I 0 ([], [])" by simp
  next
    fix i and s :: "mrg_transition_matrix list \<times> mrg_transition_matrix list list"
    assume i: "0 \<le> i" "i < 24" and I: "?I i s"
    obtain ts out where s: "s = (ts, out)" by (cases s)
    have t: "returns (if i = 0 then mrg_make_A else do { prev \<leftarrow> aget ts (i - 1); mrg_power prev 256 })
        (\<lambda>t. represents t (256 ^ length ts))"
    proof (cases "i = 0")
      case True
      then show ?thesis using I s represents_A by simp
    next
      case False
      define k where "k = length ts - 1"
      have k: "length ts = Suc k" "nat (i - 1) = k" using False i I s by (auto simp: k_def)
      then have "represents (ts ! k) (256 ^ k)" using I s by simp
      from represents_power [OF this, of 256] show ?thesis using False i I s k by simp
    qed
    show "returns (?body i s) (?I (i + 1))"
      unfolding s prod.case
    proof (rule returns_bindI [OF t])
      fix t assume t: "represents t (256 ^ length ts)"
      show "returns (dump_powers_row t \<bind> (\<lambda>row. Some (ts @ [t], out @ [row]))) (?I (i + 1))"
      proof (rule returns_bindI [OF dump_powers_row_returns [OF t]])
        fix row assume "row_ok (256 ^ length ts) row"
        then show "returns (Some (ts @ [t], out @ [row])) (?I (i + 1))"
          using I s t by (auto simp: nth_append less_Suc_eq)
      qed
    qed
  qed simp
  then have "returns (for_range 0 24 ?body ([], [])) (\<lambda>r. table_ok (snd r))"
    by (rule returns_mono) (auto simp: table_ok_def)
  then show ?thesis unfolding dump_mrg_powers_def by simp
qed

section \<open>Steps and skips\<close>

lemma valid_state_eqI: "valid_state s \<Longrightarrow> valid_state t \<Longrightarrow> vst s = vst t \<Longrightarrow> s = t"
  by (cases s; cases t) (simp add: valid_state_def vst_def val_inject)

lemma apply_transition_returns:
  assumes "represents m n" "valid_state st"
  shows "returns (mrg_apply_transition m st) (\<lambda>st'. valid_state st' \<and> vst st' = (fstep ^^ n) (vst st))"
proof -
  have m: "valid_row m" "cache_ok m" using assms by (auto simp: represents_def)
  note v = m(1) [unfolded valid_row_def] cache_okD [OF m(2)] assms(2) [unfolded valid_state_def]
  show ?thesis
    unfolding mrg_apply_transition_def represents_act [OF assms(1)]
    by (insert v, elim conjE, (rule returns_bindI, rule ma64.ring_specs, (assumption | rule valid_elt_0)+, elim conjE)+,
      simp add: valid_state_def vst_def mat_act_def val_0 add_ac)
qed

lemma orig_step_returns:
  assumes "valid_state st"
  shows "returns (mrg_orig_step st) (\<lambda>st'. valid_state st' \<and> vst st' = fstep (vst st))"
  unfolding mrg_orig_step_def
  by (insert assms [unfolded valid_state_def], elim conjE,
    (rule returns_bindI, rule ma64.ring_specs, (assumption | rule valid_elt_0)+, elim conjE)+,
    simp add: valid_state_def vst_def add_ac)

lemma orig_steps_returns:
  "valid_state st \<Longrightarrow>
   returns (orig_steps n st) (\<lambda>st'. valid_state st' \<and> vst st' = (fstep ^^ n) (vst st))"
proof (induction n arbitrary: st)
  case 0
  then show ?case by simp
next
  case (Suc n)
  show ?case
    unfolding orig_steps.simps
  proof (rule returns_bindI [OF orig_step_returns [OF Suc.prems]])
    fix s assume s: "valid_state s \<and> vst s = fstep (vst st)"
    then show "returns (orig_steps n s) (\<lambda>st'. valid_state st' \<and> vst st' = (fstep ^^ Suc n) (vst st))"
      using Suc.IH [of s] by (simp only: funpow_Suc_right comp_apply)
  qed
qed

text \<open>Executions with the same ring result are the same execution.\<close>

lemma returns_state_unique:
  assumes "returns x (\<lambda>s. valid_state s \<and> vst s = v)" "returns y (\<lambda>s. valid_state s \<and> vst s = v)"
  shows "x = y"
  using assms by (auto simp: returns_iff intro: valid_state_eqI)

lemma mrg_skip_loop_returns:
  assumes tbl: "table_ok tbl"
  shows "unat e < 256 ^ b \<Longrightarrow> k + b \<le> 24 \<Longrightarrow> valid_state st \<Longrightarrow>
    returns (mrg_skip_loop tbl (int k) e st)
      (\<lambda>st'. valid_state st' \<and> vst st' = (fstep ^^ (unat e * 256 ^ k)) (vst st))"
proof (induction b arbitrary: e k st)
  case 0
  then have "e = 0" by (simp add: word_unat_eq_iff)
  with 0 show ?case by (simp add: mrg_skip_loop.simps [of tbl "int k" 0])
next
  case (Suc b)
  show ?case
  proof (cases "e = 0")
    case True
    then show ?thesis using Suc.prems by (simp add: mrg_skip_loop.simps [of tbl "int k" 0])
  next
    case False
    let ?v = "e AND 0xFF"
    have "?v = take_bit 8 e" by (simp add: take_bit_eq_mask mask_eq_exp_minus_1)
    then have v: "unat ?v = unat e mod 256" by (simp add: unsigned_take_bit_eq take_bit_nat_def)
    have d: "unat (drop_bit 8 e) = unat e div 256" by (simp add: unat_drop_bit_eq drop_bit_nat_def)
    have k: "k < 24" using Suc.prems by simp
    let ?n = "unat ?v * 256 ^ k"
    have first: "returns (if ?v \<noteq> 0 then do {
                 row \<leftarrow> aget tbl (int k);
                 m \<leftarrow> aget row (uint ?v);
                 mrg_step m st }
               else Some st)
        (\<lambda>st'. valid_state st' \<and> vst st' = (fstep ^^ ?n) (vst st))"
    proof (cases "?v = 0")
      case True
      then show ?thesis using Suc.prems by simp
    next
      case nz: False
      have lt: "unat ?v < 256" unfolding v by simp
      then have rep: "represents (tbl ! k ! unat ?v) ?n" and len: "length (tbl ! k) = 256" "length tbl = 24"
        using tbl k by (auto simp: table_ok_def row_ok_def)
      have row: "aget tbl (int k) = Some (tbl ! k)" using k len by simp
      have m: "aget (tbl ! k) (uint ?v) = Some (tbl ! k ! unat ?v)"
        unfolding uint_nat aget_def using lt len by (simp only: nat_int of_nat_less_iff of_nat_0_le_iff simp_thms if_True)
      show ?thesis
        unfolding if_P [OF nz] row m bind.bind_lunit mrg_step_def
        by (rule apply_transition_returns [OF rep Suc.prems(3)])
    qed
    show ?thesis
      unfolding mrg_skip_loop.simps [of tbl "int k" e] if_not_P [OF False] Let_def
    proof (rule returns_bindI [OF first])
      fix st'
      assume st': "valid_state st' \<and> vst st' = (fstep ^^ ?n) (vst st)"
      have "returns (mrg_skip_loop tbl (int (Suc k)) (drop_bit 8 e) st')
          (\<lambda>s. valid_state s \<and> vst s = (fstep ^^ (unat (drop_bit 8 e) * 256 ^ Suc k)) (vst st'))"
        using Suc.prems st' d by (intro Suc.IH) (auto simp: less_mult_imp_div_less mult.commute)
      moreover have "unat (drop_bit 8 e) * 256 ^ Suc k + ?n = unat e * 256 ^ k"
      proof -
        have "q * 256 ^ Suc k + r * 256 ^ k = (256 * q + r) * 256 ^ k" for q r :: nat
          by (simp add: algebra_simps)
        then show ?thesis unfolding d v by (simp only: mult_div_mod_eq)
      qed
      ultimately show "returns (mrg_skip_loop tbl (int k + 1) (drop_bit 8 e) st')
          (\<lambda>st'. valid_state st' \<and> vst st' = (fstep ^^ (unat e * 256 ^ k)) (vst st))"
        using st' by (simp only: of_nat_Suc add.commute [of 1] simp_thms flip: funpow_add [THEN fun_cong, unfolded comp_apply])
    qed
  qed
qed

lemma mrg_skip_returns:
  assumes tbl: "table_ok tbl" and st: "valid_state st"
  shows "returns (mrg_skip tbl st hi mid lo)
    (\<lambda>st'. valid_state st' \<and> vst st' = (fstep ^^ (unat lo + 2 ^ 64 * unat mid + 2 ^ 128 * unat hi)) (vst st))"
proof -
  have b: "unat e < 256 ^ 8" for e :: "64 word"
    using unsigned_less [of e] by simp
  note loop = mrg_skip_loop_returns [OF tbl b]
  show ?thesis
    unfolding mrg_skip_def
  proof (rule returns_bindI [OF loop [of 0, simplified, OF st]])
    fix s1 assume s1: "valid_state s1 \<and> vst s1 = (fstep ^^ unat lo) (vst st)"
    show "returns (do { st2 \<leftarrow> mrg_skip_loop tbl 8 mid s1; mrg_skip_loop tbl 16 hi st2 })
      (\<lambda>st'. valid_state st' \<and> vst st' = (fstep ^^ (unat lo + 2 ^ 64 * unat mid + 2 ^ 128 * unat hi)) (vst st))"
    proof (rule returns_bindI [OF loop [of 8 s1 mid, simplified]])
      show "valid_state s1" using s1 by simp
      fix s2 assume s2: "valid_state s2 \<and> vst s2 = (fstep ^^ (unat mid * 18446744073709551616)) (vst s1)"
      show "returns (mrg_skip_loop tbl 16 hi s2)
        (\<lambda>st'. valid_state st' \<and> vst st' = (fstep ^^ (unat lo + 2 ^ 64 * unat mid + 2 ^ 128 * unat hi)) (vst st))"
      proof (rule returns_mono [OF loop [of 16 s2 hi, simplified]])
        show "valid_state s2" using s2 by simp
        fix s3 assume "valid_state s3 \<and>
          vst s3 = (fstep ^^ (unat hi * 340282366920938463463374607431768211456)) (vst s2)"
        moreover have "unat lo + 2 ^ 64 * unat mid + 2 ^ 128 * unat hi =
          unat hi * 340282366920938463463374607431768211456 + (unat mid * 18446744073709551616 + unat lo)"
          by simp
        ultimately show "valid_state s3 \<and>
          vst s3 = (fstep ^^ (unat lo + 2 ^ 64 * unat mid + 2 ^ 128 * unat hi)) (vst st)"
          using s1 s2 by (simp only: funpow_add comp_apply simp_thms)
      qed
    qed
  qed
qed

section \<open>The zero state is never reached\<close>

definition nonzero_state :: "mrg_state \<Rightarrow> bool" where
  "nonzero_state st \<longleftrightarrow> z1 st \<noteq> 0 \<or> z2 st \<noteq> 0 \<or> z3 st \<noteq> 0 \<or> z4 st \<noteq> 0 \<or> z5 st \<noteq> 0"

lemma Y31_unit: "of_nat 1840344978 * Y31 = 1"
proof -
  have "(of_nat (1840344978 * 104480) :: f31) = of_nat 1"
    by (simp only: of_nat_f31_eq_iff) simp
  then show ?thesis by (simp only: Y31_def of_nat_mult semiring_1_class.of_nat_1)
qed

lemma Y31_mult_0: "Y31 * y = 0 \<Longrightarrow> y = 0"
proof -
  assume y: "Y31 * y = 0"
  have "y = (of_nat 1840344978 * Y31) * y" by (simp only: Y31_unit mult_1)
  also have "\<dots> = of_nat 1840344978 * (Y31 * y)" by (rule mult.assoc)
  finally show "y = 0" by (simp only: y mult_zero_right)
qed

lemma vst_0_iff: "valid_state st \<Longrightarrow> vst st = (0, 0, 0, 0, 0) \<longleftrightarrow> \<not> nonzero_state st"
  by (auto simp: vst_def valid_state_def nonzero_state_def val_eq_0_iff)

lemma fstep_nonzero: "fstep z = (0, 0, 0, 0, 0) \<Longrightarrow> z = (0, 0, 0, 0, 0)"
  by (cases z) (auto dest: Y31_mult_0)

lemma fsteps_nonzero: "(fstep ^^ n) z = (0, 0, 0, 0, 0) \<Longrightarrow> z = (0, 0, 0, 0, 0)"
proof (induction n arbitrary: z)
  case 0
  then show ?case by simp
next
  case (Suc n)
  then have "(fstep ^^ n) (fstep z) = (0, 0, 0, 0, 0)" by (simp only: funpow_Suc_right comp_apply)
  from Suc.IH [OF this] show ?case by (rule fstep_nonzero)
qed

lemma fsteps_keep_nonzero:
  assumes "valid_state st" "nonzero_state st" "valid_state s \<and> vst s = (fstep ^^ n) (vst st)"
  shows "valid_state s \<and> nonzero_state s"
proof -
  have "vst s \<noteq> (0, 0, 0, 0, 0)"
  proof
    assume "vst s = (0, 0, 0, 0, 0)"
    then have "vst st = (0, 0, 0, 0, 0)" using assms(3) fsteps_nonzero [of n "vst st"] by simp
    with assms(1,2) show False by (simp add: vst_0_iff)
  qed
  with assms(3) show ?thesis using vst_0_iff [of s] by blast
qed

lemma orig_step_nonzero:
  assumes "valid_state st" "nonzero_state st"
  shows "returns (mrg_orig_step st) (\<lambda>st'. valid_state st' \<and> nonzero_state st')"
  using orig_step_returns [OF assms(1)]
  by (rule returns_mono) (rule fsteps_keep_nonzero [OF assms, where n = 1], simp)

lemma mrg_skip_nonzero:
  assumes "table_ok tbl" "valid_state st" "nonzero_state st"
  shows "returns (mrg_skip tbl st hi mid lo) (\<lambda>st'. valid_state st' \<and> nonzero_state st')"
  using mrg_skip_returns [OF assms(1,2)]
  by (rule returns_mono) (rule fsteps_keep_nonzero [OF assms(2,3)])

text \<open>C7: skipping ahead by a 192-bit exponent with the table that \<open>dump_mrg_powers\<close> prints is exactly
  that many single steps of the generator, and no assertion or table access fails on the way.\<close>

theorem mrg_skip_is_orig_steps:
  assumes "dump_mrg_powers = Some tbl" and "valid_state st"
  shows "\<exists>st'. mrg_skip tbl st hi mid lo = Some st' \<and>
           orig_steps (unat lo + 2 ^ 64 * unat mid + 2 ^ 128 * unat hi) st = Some st' \<and> valid_state st'"
proof -
  let ?n = "unat lo + 2 ^ 64 * unat mid + 2 ^ 128 * unat hi"
  have tbl: "table_ok tbl" using dump_mrg_powers_returns unfolding assms(1) by simp
  have skip: "returns (mrg_skip tbl st hi mid lo) (\<lambda>st'. valid_state st' \<and> vst st' = (fstep ^^ ?n) (vst st))"
    by (rule mrg_skip_returns [OF tbl assms(2)])
  have "mrg_skip tbl st hi mid lo = orig_steps ?n st"
    by (rule returns_state_unique [OF skip orig_steps_returns [OF assms(2)]])
  moreover obtain st' where "mrg_skip tbl st hi mid lo = Some st'" "valid_state st'"
    using skip by (rule returnsE) blast
  ultimately show ?thesis by (intro exI [of _ st']) simp
qed

theorem mrg_skip_is_orig_steps_witness:
  "\<exists>tbl st'. dump_mrg_powers = Some tbl \<and>
     mrg_skip tbl \<lparr>z1 = 1, z2 = 2, z3 = 3, z4 = 4, z5 = 5\<rparr> 0 1 7 = Some st' \<and>
     orig_steps (unat (7 :: 64 word) + 2 ^ 64 * unat (1 :: 64 word) + 2 ^ 128 * unat (0 :: 64 word))
       \<lparr>z1 = 1, z2 = 2, z3 = 3, z4 = 4, z5 = 5\<rparr> = Some st'"
proof -
  obtain tbl where tbl: "dump_mrg_powers = Some tbl" using dump_mrg_powers_returns by (rule returnsE)
  have "valid_state \<lparr>z1 = 1, z2 = 2, z3 = 3, z4 = 4, z5 = 5\<rparr>" by (simp add: valid_state_def valid_elt_def)
  from mrg_skip_is_orig_steps [OF tbl this] tbl show ?thesis by blast
qed

end
