(* ===== verification/Bit_Reverse.thy ===== *)
theory Bit_Reverse
  imports C_Prelude
begin

text \<open>
  The bit reversal and the vertex scrambling of \<open>generator/graph_generator.c\<close>.  \<open>bitreverse\<close> has
  four compile-time variants (64-bit or 32-bit code, with or without the compiler's byte swap); all
  are modelled and all reverse the 64 bits.  \<open>scramble\<close> multiplies by odd constants and reverses the
  low bits twice: it permutes the vertex numbers.
\<close>

section \<open>Shifts\<close>

text \<open>A C shift by a count outside the width of the type is undefined.\<close>

definition c_shr :: "64 word \<Rightarrow> int \<Rightarrow> 64 word option" where
  "c_shr x n = (if 0 \<le> n \<and> n < 64 then Some (drop_bit (nat n) x) else None)"

lemma c_shr_in [simp]: "0 \<le> n \<Longrightarrow> n < 64 \<Longrightarrow> c_shr x n = Some (drop_bit (nat n) x)"
  by (simp add: c_shr_def)

section \<open>bitreverse\<close>

text \<open>The compiler's byte swap: byte \<open>i\<close> of the result is byte \<open>7 - i\<close> of the argument.\<close>

definition bswap64 :: "64 word \<Rightarrow> 64 word" where
  "bswap64 x =
     (push_bit 56 x) OR (push_bit 40 (x AND 0xFF00)) OR (push_bit 24 (x AND 0xFF0000)) OR
     (push_bit 8 (x AND 0xFF000000)) OR (drop_bit 8 x AND 0xFF000000) OR
     (drop_bit 24 x AND 0xFF0000) OR (drop_bit 40 x AND 0xFF00) OR (drop_bit 56 x)"

definition bswap32 :: "32 word \<Rightarrow> 32 word" where
  "bswap32 x =
     (push_bit 24 x) OR (push_bit 8 (x AND 0xFF00)) OR (drop_bit 8 x AND 0xFF00) OR (drop_bit 24 x)"

text \<open>The line \<open>x = ((x >> k) & m) | ((x & m) << k)\<close>.\<close>

definition swap_bits :: "nat \<Rightarrow> 'a::len word \<Rightarrow> 'a word \<Rightarrow> 'a word" where
  "swap_bits k m x = (drop_bit k x AND m) OR push_bit k (x AND m)"

text \<open>The line \<open>x = (x >> k) | (x << k)\<close>.\<close>

definition swap_halves :: "nat \<Rightarrow> 'a::len word \<Rightarrow> 'a word" where
  "swap_halves k x = drop_bit k x OR push_bit k x"

definition bitreverse_nibbles64 :: "64 word \<Rightarrow> 64 word" where
  "bitreverse_nibbles64 x =
     (let x = swap_bits 4 0x0F0F0F0F0F0F0F0F x;
          x = swap_bits 2 0x3333333333333333 x
      in swap_bits 1 0x5555555555555555 x)"

definition bitreverse :: "64 word \<Rightarrow> 64 word" where
  "bitreverse x = bitreverse_nibbles64 (bswap64 x)"

definition bitreverse_noswap :: "64 word \<Rightarrow> 64 word" where
  "bitreverse_noswap x =
     (let x = swap_halves 32 x;
          x = swap_bits 16 0x0000FFFF0000FFFF x;
          x = swap_bits 8 0x00FF00FF00FF00FF x
      in bitreverse_nibbles64 x)"

definition bitreverse_nibbles32 :: "32 word \<Rightarrow> 32 word" where
  "bitreverse_nibbles32 x =
     (let x = swap_bits 4 0x0F0F0F0F x;
          x = swap_bits 2 0x33333333 x
      in swap_bits 1 0x55555555 x)"

definition bitreverse_32 :: "64 word \<Rightarrow> 64 word" where
  "bitreverse_32 x =
     (let h = bitreverse_nibbles32 (bswap32 (ucast (drop_bit 32 x)));
          l = bitreverse_nibbles32 (bswap32 (ucast x))
      in push_bit 32 (ucast l) OR ucast h)"

definition bitreverse_32_noswap :: "64 word \<Rightarrow> 64 word" where
  "bitreverse_32_noswap x =
     (let h = bitreverse_nibbles32 (swap_bits 8 0x00FF00FF (swap_halves 16 (ucast (drop_bit 32 x))));
          l = bitreverse_nibbles32 (swap_bits 8 0x00FF00FF (swap_halves 16 (ucast x)))
      in push_bit 32 (ucast l) OR ucast h)"

section \<open>scramble\<close>

definition scramble :: "64 word \<Rightarrow> int \<Rightarrow> 64 word \<Rightarrow> 64 word \<Rightarrow> 64 word option" where
  "scramble v0 lgN val0 val1 = do {
     let v = v0 + (val0 + val1);
     let v = v * (val0 OR 0x4519840211493211);
     v \<leftarrow> c_shr (bitreverse v) (64 - lgN);
     hi \<leftarrow> c_shr v lgN;
     c_assert (hi = 0);
     let v = v * (val1 OR 0x3050852102C843A5);
     v \<leftarrow> c_shr (bitreverse v) (64 - lgN);
     hi \<leftarrow> c_shr v lgN;
     c_assert (hi = 0);
     Some v }"

section \<open>All variants reverse the bits\<close>

text \<open>A swap moves bit \<open>n\<close> to the other half of its block of size \<open>2 k\<close>.\<close>

definition swap_index :: "nat \<Rightarrow> nat \<Rightarrow> nat" where
  "swap_index k n = (if (n div k) mod 2 = 0 then n + k else n - k)"

definition swap_mask :: "nat \<Rightarrow> 'a::len word \<Rightarrow> bool" where
  "swap_mask k m \<longleftrightarrow> 0 < k \<and> (\<forall>n < LENGTH('a). bit m n \<longleftrightarrow> (n div k) mod 2 = 0) \<and>
     LENGTH('a) mod (2 * k) = 0"

lemma bit_swap_bits:
  fixes x :: "'a::len word"
  assumes m: "swap_mask k m" and n: "n < LENGTH('a)"
  shows "bit (swap_bits k m x) n = bit x (swap_index k n)"
proof -
  have k: "0 < k" and bm: "\<And>i. i < LENGTH('a) \<Longrightarrow> bit m i \<longleftrightarrow> (i div k) mod 2 = 0"
    using m by (auto simp: swap_mask_def)
  show ?thesis
  proof (cases "(n div k) mod 2 = 0")
    case True
    have "(n - k) div k mod 2 \<noteq> 0" if "k \<le> n"
      using True le_div_geq [OF k that] by (simp add: mod_Suc split: if_splits)
    then show ?thesis
      using True n bm
      by (auto simp: swap_bits_def swap_index_def bit_simps add.commute)
  next
    case False
    then have "k \<le> n" using k by (cases "k \<le> n") auto
    then have "(n - k) div k mod 2 = 0"
      using False le_div_geq [OF k \<open>k \<le> n\<close>] by (simp add: mod_Suc split: if_splits)
    then show ?thesis
      using False n bm \<open>k \<le> n\<close>
      by (auto simp: swap_bits_def swap_index_def bit_simps)
  qed
qed

lemma bit_beyond: "LENGTH('a) \<le> n \<Longrightarrow> \<not> bit (w :: 'a::len word) n"
  using bit_imp_le_length by force

lemma all_less_64: "(\<forall>n < 64. P n) \<longleftrightarrow> list_all P [0..<64]"
  by (auto simp: list_all_iff)

lemma all_less_32: "(\<forall>n < 32. P n) \<longleftrightarrow> list_all P [0..<32]"
  by (auto simp: list_all_iff)

lemma swap_mask_64 [simp]:
  "swap_mask 4 (0x0F0F0F0F0F0F0F0F :: 64 word)"
  "swap_mask 2 (0x3333333333333333 :: 64 word)"
  "swap_mask 1 (0x5555555555555555 :: 64 word)"
  "swap_mask 16 (0x0000FFFF0000FFFF :: 64 word)"
  "swap_mask 8 (0x00FF00FF00FF00FF :: 64 word)"
  unfolding swap_mask_def len_num0 len_bit0 len_num1 mult_1_right
  by (simp_all add: all_less_64 upt_rec)

lemma swap_mask_32 [simp]:
  "swap_mask 4 (0x0F0F0F0F :: 32 word)"
  "swap_mask 2 (0x33333333 :: 32 word)"
  "swap_mask 1 (0x55555555 :: 32 word)"
  "swap_mask 8 (0x00FF00FF :: 32 word)"
  unfolding swap_mask_def len_num0 len_bit0 len_num1 mult_1_right
  by (simp_all add: all_less_32 upt_rec)

lemma bit_swap_halves:
  fixes x :: "'a::len word"
  assumes "LENGTH('a) = 2 * k" "n < LENGTH('a)"
  shows "bit (swap_halves k x) n = bit x (swap_index k n)"
proof -
  have "n div k = 0 \<longleftrightarrow> n < k" using assms by (auto simp: div_eq_0_iff)
  moreover have "n div k = 1" if "k \<le> n" using assms that by (intro div_nat_eqI) auto
  ultimately show ?thesis
    using assms bit_beyond [of "n + k" x]
    by (cases "n < k") (auto simp: swap_halves_def swap_index_def bit_simps add.commute)
qed

text \<open>The index computations of the six stages are checked bit by bit.\<close>

lemma swap_index_64:
  "n < 64 \<Longrightarrow> k \<in> {1, 2, 4, 8, 16, 32} \<Longrightarrow> swap_index k n < 64"
proof -
  have "\<forall>n < 64. \<forall>k \<in> {1, 2, 4, 8, 16, 32}. swap_index k n < 64"
    unfolding all_less_64 by (simp add: swap_index_def upt_rec)
  then show "n < 64 \<Longrightarrow> k \<in> {1, 2, 4, 8, 16, 32} \<Longrightarrow> swap_index k n < 64" by blast
qed

lemma swap_index_32:
  "n < 32 \<Longrightarrow> k \<in> {1, 2, 4, 8, 16} \<Longrightarrow> swap_index k n < 32"
proof -
  have "\<forall>n < 32. \<forall>k \<in> {1, 2, 4, 8, 16}. swap_index k n < 32"
    unfolding all_less_32 by (simp add: swap_index_def upt_rec)
  then show "n < 32 \<Longrightarrow> k \<in> {1, 2, 4, 8, 16} \<Longrightarrow> swap_index k n < 32" by blast
qed

lemma bit_bswap64: "n < 64 \<Longrightarrow> bit (bswap64 x) n = bit x (8 * (7 - n div 8) + n mod 8)"
proof -
  have "\<forall>n < 64. bit (bswap64 x) n = bit x (8 * (7 - n div 8) + n mod 8)"
    unfolding all_less_64 by (simp add: bswap64_def upt_rec bit_simps bit_beyond) (simp add: eval_nat_numeral)
  then show "n < 64 \<Longrightarrow> bit (bswap64 x) n = bit x (8 * (7 - n div 8) + n mod 8)" by blast
qed

lemma bit_bswap32: "n < 32 \<Longrightarrow> bit (bswap32 x) n = bit x (8 * (3 - n div 8) + n mod 8)"
proof -
  have "\<forall>n < 32. bit (bswap32 x) n = bit x (8 * (3 - n div 8) + n mod 8)"
    unfolding all_less_32 by (simp add: bswap32_def upt_rec bit_simps bit_beyond) (simp add: eval_nat_numeral)
  then show "n < 32 \<Longrightarrow> bit (bswap32 x) n = bit x (8 * (3 - n div 8) + n mod 8)" by blast
qed

lemma bit_nibbles64:
  assumes "n < 64"
  shows "bit (bitreverse_nibbles64 x) n = bit x (swap_index 4 (swap_index 2 (swap_index 1 n)))"
  using assms
  by (simp add: bitreverse_nibbles64_def Let_def bit_swap_bits swap_index_64 del: One_nat_def)

lemma bit_nibbles32:
  assumes "n < 32"
  shows "bit (bitreverse_nibbles32 x) n = bit x (swap_index 4 (swap_index 2 (swap_index 1 n)))"
  using assms
  by (simp add: bitreverse_nibbles32_def Let_def bit_swap_bits swap_index_32 del: One_nat_def)

text \<open>The whole index permutations: the bits of a byte and the bytes of the word are reversed by the
  same three swaps.\<close>

lemma swap_index_low:
  assumes "0 < k"
  shows "swap_index k (2 * k * c + r) = 2 * k * c + swap_index k r"
proof -
  have d: "(2 * k * c + r) div k = 2 * c + r div k"
    using assms div_mult_self3 [of k "2 * c" r] by (simp add: ac_simps)
  have "k \<le> r" if "r div k mod 2 \<noteq> 0"
  proof (rule ccontr)
    assume "\<not> k \<le> r"
    with that show False by simp
  qed
  then show ?thesis unfolding swap_index_def d by auto
qed

lemma swap_index_high:
  assumes "0 < m" "r < 8"
  shows "swap_index (8 * m) (8 * q + r) = 8 * swap_index m q + r"
proof -
  have "(8 * q + r) div (8 * m) = q div m"
    using assms by (simp add: div_mult2_eq)
  moreover have "m \<le> q" if "q div m mod 2 \<noteq> 0"
  proof (rule ccontr)
    assume "\<not> m \<le> q"
    with that show False by simp
  qed
  ultimately show ?thesis by (auto simp: swap_index_def algebra_simps)
qed

lemma swap_index_3: "r < 8 \<Longrightarrow> swap_index 4 (swap_index 2 (swap_index 1 r)) = 7 - r"
proof -
  assume "r < 8"
  then have "r = 0 \<or> r = 1 \<or> r = 2 \<or> r = 3 \<or> r = 4 \<or> r = 5 \<or> r = 6 \<or> r = 7" by arith
  then show ?thesis by (elim disjE) (simp_all add: swap_index_def)
qed

lemma swap_index_3_at: "r < 8 \<Longrightarrow> swap_index 4 (swap_index 2 (swap_index 1 (8 * q + r))) = 8 * q + (7 - r)"
  using swap_index_low [of 1 "4 * q"] swap_index_low [of 2 "2 * q"] swap_index_low [of 4 q]
  by (simp add: swap_index_3 del: One_nat_def)

lemma swap_index_comm: "q < 8 \<Longrightarrow> swap_index 4 (swap_index 2 (swap_index 1 q)) < 8 \<and>
    swap_index 1 q < 8 \<and> swap_index 2 (swap_index 1 q) < 8"
proof -
  assume "q < 8"
  then have "q = 0 \<or> q = 1 \<or> q = 2 \<or> q = 3 \<or> q = 4 \<or> q = 5 \<or> q = 6 \<or> q = 7" by arith
  then show ?thesis by (elim disjE) (simp_all add: swap_index_def)
qed

lemma reverse_index_64:
  assumes "n < 64"
  defines "i \<equiv> swap_index 4 (swap_index 2 (swap_index 1 n))"
  shows "8 * (7 - i div 8) + i mod 8 = 63 - n"
    and "swap_index 32 (swap_index 16 (swap_index 8 i)) = 63 - n"
    and "i < 64" "swap_index 8 i < 64" "swap_index 16 (swap_index 8 i) < 64"
proof -
  define q r where "q = n div 8" and "r = n mod 8"
  have n: "n = 8 * q + r" "q < 8" "r < 8" using assms(1) by (simp_all add: q_def r_def)
  have i: "i = 8 * q + (7 - r)" unfolding i_def n(1) by (rule swap_index_3_at [OF n(3)])
  then have "i div 8 = q" "i mod 8 = 7 - r" by simp_all
  with i show "8 * (7 - i div 8) + i mod 8 = 63 - n" "i < 64" using n by simp_all
  have s: "swap_index 8 i = 8 * swap_index 1 q + (7 - r)"
    "swap_index 16 (swap_index 8 i) = 8 * swap_index 2 (swap_index 1 q) + (7 - r)"
    "swap_index 32 (swap_index 16 (swap_index 8 i)) = 8 * swap_index 4 (swap_index 2 (swap_index 1 q)) + (7 - r)"
    using swap_index_high [of 1 "7 - r"] swap_index_high [of 2 "7 - r"] swap_index_high [of 4 "7 - r"]
    by (simp_all add: i del: One_nat_def)
  show "swap_index 32 (swap_index 16 (swap_index 8 i)) = 63 - n"
    unfolding s(3) swap_index_3 [OF n(2)] using n by simp
  show "swap_index 8 i < 64" unfolding s(1) using swap_index_comm [OF n(2)] by arith
  show "swap_index 16 (swap_index 8 i) < 64" unfolding s(2) using swap_index_comm [OF n(2)] by arith
qed

lemma reverse_index_32:
  assumes "n < 32"
  defines "i \<equiv> swap_index 4 (swap_index 2 (swap_index 1 n))"
  shows "8 * (3 - i div 8) + i mod 8 = 31 - n"
    and "swap_index 16 (swap_index 8 i) = 31 - n"
    and "i < 32" "swap_index 8 i < 32"
proof -
  define q r where "q = n div 8" and "r = n mod 8"
  have n: "n = 8 * q + r" "q < 4" "r < 8" using assms(1) by (simp_all add: q_def r_def)
  have i: "i = 8 * q + (7 - r)" unfolding i_def n(1) by (rule swap_index_3_at [OF n(3)])
  then have "i div 8 = q" "i mod 8 = 7 - r" by simp_all
  with i show "8 * (3 - i div 8) + i mod 8 = 31 - n" "i < 32" using n by simp_all
  have s: "swap_index 8 i = 8 * swap_index 1 q + (7 - r)"
    "swap_index 16 (swap_index 8 i) = 8 * swap_index 2 (swap_index 1 q) + (7 - r)"
    using swap_index_high [of 1 "7 - r"] swap_index_high [of 2 "7 - r"]
    by (simp_all add: i del: One_nat_def)
  have "q = 0 \<or> q = 1 \<or> q = 2 \<or> q = 3" using n by arith
  then have "swap_index 2 (swap_index 1 q) = 3 - q" "swap_index 1 q < 4"
    by (elim disjE; simp add: swap_index_def)+
  then show "swap_index 16 (swap_index 8 i) = 31 - n" "swap_index 8 i < 32"
    unfolding s(2) using n s(1) by simp_all
qed

lemma bit_bitreverse: "n < 64 \<Longrightarrow> bit (bitreverse x) n = bit x (63 - n)"
  by (simp only: bitreverse_def bit_nibbles64 bit_bswap64 reverse_index_64)

lemma bit_bitreverse_noswap: "n < 64 \<Longrightarrow> bit (bitreverse_noswap x) n = bit x (63 - n)"
  using reverse_index_64 [of n]
  by (simp add: bitreverse_noswap_def bit_nibbles64 bit_swap_bits bit_swap_halves Let_def del: One_nat_def)

lemma bit_nibbles_bswap32: "n < 32 \<Longrightarrow> bit (bitreverse_nibbles32 (bswap32 x)) n = bit x (31 - n)"
  by (simp only: bit_nibbles32 bit_bswap32 reverse_index_32)

lemma bit_nibbles_noswap32:
  "n < 32 \<Longrightarrow> bit (bitreverse_nibbles32 (swap_bits 8 0x00FF00FF (swap_halves 16 x))) n = bit x (31 - n)"
  using reverse_index_32 [of n]
  by (simp add: bit_nibbles32 bit_swap_bits bit_swap_halves del: One_nat_def)

lemma join_reversed:
  fixes x :: "64 word" and h l :: "32 word"
  assumes "\<And>n. n < 32 \<Longrightarrow> bit h n = bit (ucast (drop_bit 32 x) :: 32 word) (31 - n)"
    and "\<And>n. n < 32 \<Longrightarrow> bit l n = bit (ucast x :: 32 word) (31 - n)" and n: "n < 64"
  shows "bit (push_bit 32 (ucast l) OR ucast h :: 64 word) n = bit x (63 - n)"
proof (cases "n < 32")
  case True
  then show ?thesis using assms(1) [OF True] n by (auto simp: bit_simps)
next
  case False
  then have "n - 32 < 32" "31 - (n - 32) = 63 - n" using n by auto
  then show ?thesis using False assms(2) [of "n - 32"] n by (auto simp: bit_simps bit_beyond)
qed

text \<open>C33: every compile-time variant of \<open>bitreverse\<close> puts bit \<open>63 - n\<close> at position \<open>n\<close>; so the four
  are one function, and it is its own inverse.\<close>

theorem bitreverse_correct:
  "bitreverse x = word_of_int (horner_sum of_bool 2 (rev (map (bit x) [0..<64]))) \<and>
   bitreverse_noswap x = bitreverse x \<and> bitreverse_32 x = bitreverse x \<and>
   bitreverse_32_noswap x = bitreverse x \<and> bitreverse (bitreverse x) = x"
proof (intro conjI bit_word_eqI, unfold len_num0 len_bit0 len_num1 mult_1_right)
  fix n :: nat
  assume n: "n < 2 * (2 * (2 * (2 * (2 * 2))))"
  then have n: "n < 64" by simp
  note br = bit_bitreverse [OF n]
  show "bit (bitreverse x) n =
      bit (word_of_int (horner_sum of_bool 2 (rev (map (bit x) [0..<64]))) :: 64 word) n"
    using n br by (simp add: bit_simps bit_horner_sum_bit_iff rev_nth)
  show "bit (bitreverse_noswap x) n = bit (bitreverse x) n"
    using n br by (simp add: bit_bitreverse_noswap)
  show "bit (bitreverse_32 x) n = bit (bitreverse x) n"
    unfolding br bitreverse_32_def Let_def by (rule join_reversed [OF bit_nibbles_bswap32 bit_nibbles_bswap32 n])
  show "bit (bitreverse_32_noswap x) n = bit (bitreverse x) n"
    unfolding br bitreverse_32_noswap_def Let_def
    by (rule join_reversed [OF bit_nibbles_noswap32 bit_nibbles_noswap32 n])
  show "bit (bitreverse (bitreverse x)) n = bit x n"
    using n by (simp add: bit_bitreverse)
qed

section \<open>scramble is a permutation of the vertex numbers\<close>

text \<open>Reversing and shifting right keeps the low \<open>l\<close> bits, in reverse order.\<close>

lemma bit_low_reversed:
  assumes "l \<le> 64"
  shows "bit (drop_bit (64 - l) (bitreverse w)) n \<longleftrightarrow> n < l \<and> bit w (l - 1 - n)"
proof (cases "n < l")
  case True
  then have "64 - l + n < 64" "63 - (64 - l + n) = l - 1 - n" using assms by auto
  then show ?thesis using True by (simp add: bit_drop_bit_eq bit_bitreverse)
next
  case False
  then show ?thesis using assms by (simp add: bit_drop_bit_eq bit_beyond)
qed

lemma low_reversed_inj:
  assumes "l \<le> 64"
  shows "drop_bit (64 - l) (bitreverse v) = drop_bit (64 - l) (bitreverse w) \<longleftrightarrow> take_bit l v = take_bit l w"
proof
  assume eq: "drop_bit (64 - l) (bitreverse v) = drop_bit (64 - l) (bitreverse w)"
  have "bit v n = bit w n" if "n < l" for n
  proof -
    have "l - 1 - n < l" "l - 1 - (l - 1 - n) = n" using that by auto
    then show ?thesis
      using bit_low_reversed [OF assms, of v "l - 1 - n"] bit_low_reversed [OF assms, of w "l - 1 - n"] eq
      by simp
  qed
  then show "take_bit l v = take_bit l w" by (auto intro!: bit_word_eqI simp: bit_take_bit_iff)
next
  assume eq: "take_bit l v = take_bit l w"
  have "bit v n = bit w n" if "n < l" for n
    using arg_cong [OF eq, of "\<lambda>x. bit x n"] that by (simp add: bit_take_bit_iff)
  then show "drop_bit (64 - l) (bitreverse v) = drop_bit (64 - l) (bitreverse w)"
    by (intro bit_word_eqI) (auto simp: bit_low_reversed [OF assms])
qed

lemma low_reversed_lt:
  assumes "l < 64"
  shows "drop_bit l (drop_bit (64 - l) (bitreverse w)) = 0"
  by (intro bit_word_eqI) (use assms in \<open>simp add: bit_drop_bit_eq [of l] bit_low_reversed [unfolded bit_drop_bit_eq]
     bit_low_reversed\<close>)

text \<open>Multiplication by an odd constant is injective on the low bits.\<close>

lemma odd_mult_inj:
  fixes c v w :: "64 word"
  assumes c: "bit c 0" and l: "l \<le> 64"
    and eq: "take_bit l ((v + d) * c) = take_bit l ((w + d) * c)"
  shows "take_bit l v = take_bit l w"
proof -
  have low: "take_bit l x = take_bit l y \<longleftrightarrow> uint x mod 2 ^ l = uint y mod 2 ^ l" for x y :: "64 word"
    by (simp only: word_uint_eq_iff unsigned_take_bit_eq take_bit_eq_mod [where 'a = int])
  have dvd64: "(2::int) ^ l dvd 2 ^ 64" using l by (rule le_imp_power_dvd)
  have m: "uint ((x + d) * c) mod 2 ^ l = ((uint x + uint d) * uint c) mod 2 ^ l" for x
    by (simp add: uint_word_ariths mod_mod_cancel [OF dvd64 [simplified]] mod_simps)
  have "odd (uint c)" using c unfolding bit_0 [symmetric] by (simp only: bit_unsigned_iff possible_bit_int simp_thms)
  then have cop: "coprime (2 ^ l) (uint c)" by simp
  have "2 ^ l dvd ((uint v + uint d) * uint c - (uint w + uint d) * uint c)"
    using eq unfolding low m by (rule mod_eq_dvd_iff [THEN iffD1])
  then have "2 ^ l dvd (uint v - uint w) * uint c" by (simp add: algebra_simps)
  then have "2 ^ l dvd uint v - uint w" using cop by (simp add: coprime_dvd_mult_left_iff)
  then show ?thesis unfolding low by (rule mod_eq_dvd_iff [THEN iffD2])
qed

definition scramble_value :: "64 word \<Rightarrow> nat \<Rightarrow> 64 word \<Rightarrow> 64 word \<Rightarrow> 64 word" where
  "scramble_value v0 l val0 val1 =
     (let v = drop_bit (64 - l) (bitreverse ((v0 + (val0 + val1)) * (val0 OR 0x4519840211493211)))
      in drop_bit (64 - l) (bitreverse (v * (val1 OR 0x3050852102C843A5))))"

lemma scramble_eq:
  assumes "1 \<le> l" "l \<le> 63"
  shows "scramble v0 (int l) val0 val1 = Some (scramble_value v0 l val0 val1)"
proof -
  have n: "nat (64 - int l) = 64 - l" using assms by simp
  show ?thesis
    using assms low_reversed_lt [of l]
    by (simp add: scramble_def scramble_value_def n Let_def)
qed

lemma scramble_value_lt: "l \<le> 63 \<Longrightarrow> unat (scramble_value v0 l val0 val1) < 2 ^ l"
proof -
  assume l: "l \<le> 63"
  have "drop_bit l (scramble_value v0 l val0 val1) = 0"
    using l by (simp add: scramble_value_def Let_def low_reversed_lt)
  then have "unat (scramble_value v0 l val0 val1) div 2 ^ l = 0"
    by (metis unat_drop_bit_eq drop_bit_eq_div unat_0)
  then show ?thesis by (simp add: div_eq_0_iff)
qed

lemma scramble_value_inj:
  assumes l: "l \<le> 63" and eq: "scramble_value v l val0 val1 = scramble_value w l val0 val1"
  shows "take_bit l v = take_bit l w"
proof -
  let ?c0 = "val0 OR 0x4519840211493211" and ?c1 = "val1 OR 0x3050852102C843A5"
  let ?f = "\<lambda>x. drop_bit (64 - l) (bitreverse ((x + (val0 + val1)) * ?c0))"
  have l': "l \<le> 64" using l by simp
  have c: "bit ?c0 0" "bit ?c1 0" by (simp_all add: bit_or_iff)
  have "take_bit l (?f v * ?c1) = take_bit l (?f w * ?c1)"
    using eq unfolding scramble_value_def Let_def low_reversed_inj [OF l'] .
  then have "take_bit l (?f v) = take_bit l (?f w)"
    using odd_mult_inj [OF c(2) l', of "?f v" 0 "?f w"] by simp
  moreover have "take_bit l (?f x) = ?f x" for x
    by (intro bit_word_eqI) (auto simp: bit_take_bit_iff bit_low_reversed [OF l'])
  ultimately have "?f v = ?f w" by simp
  then have "take_bit l ((v + (val0 + val1)) * ?c0) = take_bit l ((w + (val0 + val1)) * ?c0)"
    unfolding low_reversed_inj [OF l'] .
  then show ?thesis by (rule odd_mult_inj [OF c(1) l'])
qed

text \<open>C31: for every graph size \<open>2 ^ lgN\<close> with \<open>1 \<le> lgN \<le> 63\<close> and every pair of scrambling values,
  \<open>scramble\<close> returns (no shift is undefined, no assertion fails) and permutes the vertex numbers
  \<open>0 .. 2 ^ lgN - 1\<close>.\<close>

theorem scramble_permutes:
  assumes "1 \<le> lgN" and "lgN \<le> 63"
  shows "bij_betw (\<lambda>v. map_option unat (scramble (word_of_nat v) (int lgN) val0 val1))
           {0..<2 ^ lgN} (Some ` {0..<2 ^ lgN})"
proof -
  let ?f = "\<lambda>v. unat (scramble_value (word_of_nat v) lgN val0 val1)"
  have small: "unat (word_of_nat v :: 64 word) = v" if "v < 2 ^ lgN" for v
  proof -
    have "v < 2 ^ 64" using that assms(2) power_increasing [of lgN 64 "2::nat"] by simp
    then show ?thesis by (simp add: unat_of_nat)
  qed
  have inj: "inj_on ?f {0..<2 ^ lgN}"
  proof (rule inj_onI)
    fix v w
    assume vw: "v \<in> {0..<2 ^ lgN}" "w \<in> {0..<2 ^ lgN}" and "?f v = ?f w"
    then have "take_bit lgN (word_of_nat v :: 64 word) = take_bit lgN (word_of_nat w)"
      using assms(2) by (intro scramble_value_inj) (simp_all add: word_unat_eq_iff)
    then have "v mod 2 ^ lgN = w mod 2 ^ lgN"
      using vw small by (metis atLeastLessThan_iff take_bit_eq_mod unsigned_take_bit_eq)
    then show "v = w" using vw by simp
  qed
  have "?f ` {0..<2 ^ lgN} \<subseteq> {0..<2 ^ lgN}" using scramble_value_lt [OF assms(2)] by auto
  then have "bij_betw ?f {0..<2 ^ lgN} {0..<2 ^ lgN}"
    using inj by (intro endo_inj_surj bij_betw_imageI) auto
  then have "bij_betw (Some \<circ> ?f) {0..<2 ^ lgN} (Some ` {0..<2 ^ lgN})"
    by (rule bij_betw_trans) (simp add: bij_betw_def)
  moreover have "(\<lambda>v. map_option unat (scramble (word_of_nat v) (int lgN) val0 val1)) = Some \<circ> ?f"
    by (rule ext) (simp add: scramble_eq [OF assms])
  ultimately show ?thesis by simp
qed

theorem scramble_permutes_witness:
  "bij_betw (\<lambda>v. map_option unat (scramble (word_of_nat v) (int 3) 12345 67890))
           {0..<2 ^ 3} (Some ` {0..<2 ^ 3})"
  by (rule scramble_permutes) simp_all

end
