(* ===== verification/Graph_Generator.thy ===== *)
theory Graph_Generator
  imports Splittable_Mrg Bit_Reverse
begin

text \<open>
  The Kronecker edge generator of \<open>generator/graph_generator.c\<close>, the edge representations of
  \<open>generator/graph_generator.h\<close> and the seeding of \<open>generator/utils.c\<close>.  The rejection loop of
  \<open>generate_4way_bernoulli\<close> is a partial function; it is proved to end for every state of the
  generator that is not zero.  \<open>level\<close> is only read under a compile-time noise option that is off.
\<close>

section \<open>Edges\<close>

record packed_edge =
  v0 :: int
  v1 :: int

definition get_v0_from_edge :: "packed_edge \<Rightarrow> int" where
  "get_v0_from_edge p = v0 p"

definition get_v1_from_edge :: "packed_edge \<Rightarrow> int" where
  "get_v1_from_edge p = v1 p"

definition write_edge :: "int \<Rightarrow> int \<Rightarrow> packed_edge" where
  "write_edge a b = \<lparr>v0 = a, v1 = b\<rparr>"

lemma edge_simps [simp]:
  "get_v0_from_edge (write_edge a b) = a"
  "get_v1_from_edge (write_edge a b) = b"
  by (simp_all add: get_v0_from_edge_def get_v1_from_edge_def write_edge_def)

text \<open>The 48-bit representation (\<open>GENERATOR_USE_PACKED_EDGE_TYPE\<close>).  The endpoints are 64-bit words, read as \<open>int64_t\<close>.  \<open>get_v0\<close> and \<open>get_v1\<close> shift the sign-extended high half to the left:
  for a negative endpoint this is a shift of a negative integer, which ISO C leaves undefined, and GCC documents that it
  shifts the bits, as \<open>push_bit\<close> does.\<close>

record packed_edge48 =
  v0_low :: "32 word"
  v1_low :: "32 word"
  high :: "32 word"

definition get_v0_48 :: "packed_edge48 \<Rightarrow> 64 word" where
  "get_v0_48 p = ucast (v0_low p) OR push_bit 32 (scast (ucast (high p AND 0xFFFF) :: 16 word))"

definition get_v1_48 :: "packed_edge48 \<Rightarrow> 64 word" where
  "get_v1_48 p = ucast (v1_low p) OR push_bit 32 (scast (ucast (drop_bit 16 (high p)) :: 16 word))"

definition write_edge48 :: "64 word \<Rightarrow> 64 word \<Rightarrow> packed_edge48" where
  "write_edge48 a b =
     \<lparr>v0_low = ucast a, v1_low = ucast b,
      high = ucast ((signed_drop_bit 32 a AND 0xFFFF) OR push_bit 16 (signed_drop_bit 32 b AND 0xFFFF))\<rparr>"

section \<open>Seeding\<close>

definition make_mrg_seed :: "64 word \<Rightarrow> 64 word \<Rightarrow> uint_fast32 list" where
  "make_mrg_seed userseed1 userseed2 =
     [(userseed1 AND 0x3FFFFFFF) + 1,
      (drop_bit 30 userseed1 AND 0x3FFFFFFF) + 1,
      (userseed2 AND 0x3FFFFFFF) + 1,
      (drop_bit 30 userseed2 AND 0x3FFFFFFF) + 1,
      push_bit 4 (drop_bit 60 userseed2) + drop_bit 60 userseed1 + 1]"

section \<open>One edge\<close>

definition bern_limit :: "32 word" where
  "bern_limit = 0xFFFFFFFF mod 10000"

partial_function (option) bernoulli_draw :: "mrg_state \<Rightarrow> (32 word \<times> mrg_state) option" where
  "bernoulli_draw st = mrg_get_uint_orig st \<bind>
     (\<lambda>(u, st'). let draw = ucast u in
        if draw < bern_limit then bernoulli_draw st' else Some (draw, st'))"

text \<open>The quadrant of a draw, by the initiator numerators 1900 (twice) and 5700 of 10000.\<close>

definition quadrant :: "32 word \<Rightarrow> int" where
  "quadrant draw =
     (let draw = draw mod 10000 in
      if draw < 1900 then 1
      else let draw = draw - 1900 in
      if draw < 1900 then 2
      else let draw = draw - 1900 in
      if draw < 5700 then 0 else 3)"

definition generate_4way_bernoulli :: "mrg_state \<Rightarrow> int \<Rightarrow> int \<Rightarrow> (int \<times> mrg_state) option" where
  "generate_4way_bernoulli st level nlevels =
     bernoulli_draw st \<bind> (\<lambda>(draw, st'). Some (quadrant draw, st'))"

function edge_loop :: "int \<Rightarrow> int \<Rightarrow> int \<Rightarrow> mrg_state \<Rightarrow> int \<Rightarrow> int \<Rightarrow> (int \<times> int \<times> mrg_state) option" where
  "edge_loop nverts level lgN st base_src base_tgt =
     (if 1 < nverts then do {
        (square, st') \<leftarrow> generate_4way_bernoulli st level lgN;
        let src_offset = c_quot square 2;
        let tgt_offset = c_rem square 2;
        c_assert (base_src \<le> base_tgt);
        let (src_offset, tgt_offset) =
          (if base_src = base_tgt \<and> tgt_offset < src_offset then (tgt_offset, src_offset)
           else (src_offset, tgt_offset));
        let nverts' = c_quot nverts 2;
        edge_loop nverts' (level + 1) lgN st'
          (base_src + nverts' * src_offset) (base_tgt + nverts' * tgt_offset) }
      else Some (base_src, base_tgt, st))"
  by pat_completeness auto

termination
  by (relation "measure (\<lambda>(n, _). nat n)") (auto simp: c_quot_def sgn_if)

declare edge_loop.simps [simp del]

definition make_one_edge ::
    "int \<Rightarrow> int \<Rightarrow> int \<Rightarrow> mrg_state \<Rightarrow> 64 word \<Rightarrow> 64 word \<Rightarrow> (packed_edge \<times> mrg_state) option" where
  "make_one_edge nverts level lgN st val0 val1 = do {
     (base_src, base_tgt, st') \<leftarrow> edge_loop nverts level lgN st 0 0;
     s \<leftarrow> scramble (word_of_int base_src) lgN val0 val1;
     t \<leftarrow> scramble (word_of_int base_tgt) lgN val0 val1;
     Some (write_edge (sint s) (sint t), st') }"

section \<open>A range of edges\<close>

text \<open>The scrambling values come from a far-away part of the stream.\<close>

definition kron_setup ::
    "mrg_transition_matrix list list \<Rightarrow> uint_fast32 list \<Rightarrow> (mrg_state \<times> 64 word \<times> 64 word) option" where
  "kron_setup tbl seed = do {
     state \<leftarrow> mrg_seed seed;
     new_state \<leftarrow> mrg_skip tbl state 50 7 0;
     (a, new_state) \<leftarrow> mrg_get_uint_orig new_state;
     (b, new_state) \<leftarrow> mrg_get_uint_orig new_state;
     (c, new_state) \<leftarrow> mrg_get_uint_orig new_state;
     (d, new_state) \<leftarrow> mrg_get_uint_orig new_state;
     Some (state, a * 0xFFFFFFFF + b, c * 0xFFFFFFFF + d) }"

definition kron_edge ::
    "mrg_transition_matrix list list \<Rightarrow> mrg_state \<Rightarrow> int \<Rightarrow> 64 word \<Rightarrow> 64 word \<Rightarrow> int \<Rightarrow> packed_edge option" where
  "kron_edge tbl state logN val0 val1 ei = do {
     new_state \<leftarrow> mrg_skip tbl state 0 (word_of_int ei) 0;
     (e, _) \<leftarrow> make_one_edge (2 ^ nat logN) 0 logN new_state val0 val1;
     Some e }"

definition generate_kronecker_range ::
    "mrg_transition_matrix list list \<Rightarrow> uint_fast32 list \<Rightarrow> int \<Rightarrow> int \<Rightarrow> int \<Rightarrow> packed_edge list \<Rightarrow>
     packed_edge list option" where
  "generate_kronecker_range tbl seed logN start_edge end_edge edges = do {
     c_assert (0 \<le> logN \<and> logN < 63);
     (state, val0, val1) \<leftarrow> kron_setup tbl seed;
     for_range start_edge end_edge
       (\<lambda>ei edges. do {
          e \<leftarrow> kron_edge tbl state logN val0 val1 ei;
          aset edges (ei - start_edge) e })
       edges }"

section \<open>The rejection loop ends\<close>

definition mrg_next :: "nat \<Rightarrow> nat \<Rightarrow> nat" where
  "mrg_next a b = (107374182 * a + 104480 * b) mod P31"

lemma mrg_next_small:
  assumes "a < 7295" "b < 7295" "mrg_next a b < 7295"
  shows "a = 0 \<and> b = 0 \<and> mrg_next a b = 0 \<or> a = 7293 \<and> mrg_next a b = 7291"
proof -
  define q r where "q = a div 20" and "r = a mod 20"
  have a: "a = 20 * q + r" "q \<le> 364" "r < 20" using assms(1) by (simp_all add: q_def r_def)
  define v where "v = int (107374182 * r + 104480 * b) - 7 * int q"
  have "int (107374182 * a + 104480 * b) = v + 2147483647 * int q"
    unfolding v_def a(1) by simp
  then have "int (mrg_next a b) = v mod 2147483647"
    unfolding mrg_next_def zmod_int by (metis mod_mult_self2 of_nat_numeral)
  moreover have v: "- 2548 \<le> v" "v < 2 * 2147483647" using a assms(2) unfolding v_def by linarith+
  ultimately have c: "v < 0 \<and> int (mrg_next a b) = v + 2147483647 \<or>
      0 \<le> v \<and> v < 2147483647 \<and> int (mrg_next a b) = v \<or>
      2147483647 \<le> v \<and> int (mrg_next a b) = v - 2147483647"
  proof (cases "v < 0")
    case True
    then have "(v + 2147483647) mod 2147483647 = v + 2147483647" using v by (intro mod_pos_pos_trivial) auto
    then show ?thesis using True \<open>int (mrg_next a b) = v mod 2147483647\<close> by simp
  next
    case False
    then show ?thesis
      using v \<open>int (mrg_next a b) = v mod 2147483647\<close> mod_pos_pos_trivial [of v 2147483647]
        mod_pos_pos_trivial [of "v - 2147483647" 2147483647] minus_mod_self2 [of v 2147483647]
      by (cases "v < 2147483647") auto
  qed
  then consider "0 \<le> v" "v < 7295" "int (mrg_next a b) = v"
    | "2147483647 \<le> v" "v < 2147490942" "int (mrg_next a b) = v - 2147483647"
    using v assms(3) by linarith
  then show ?thesis
  proof cases
    case 1
    have "r = 0" using 1 a unfolding v_def by linarith
    moreover from this have "b = 0" using 1 a unfolding v_def by linarith
    ultimately have "q = 0" using 1 a unfolding v_def by linarith
    with \<open>r = 0\<close> \<open>b = 0\<close> show ?thesis using a by (simp add: mrg_next_def)
  next
    case 2
    have "13 \<le> r" using 2 a assms(2) unfolding v_def by linarith
    then have "r = 13 \<or> r = 14 \<or> r = 15 \<or> r = 16 \<or> r = 17 \<or> r = 18 \<or> r = 19" using a by linarith
    moreover have "r \<noteq> 14" using 2 a unfolding v_def by (cases "b \<le> 6166") linarith+
    moreover have "r \<noteq> 15" using 2 a unfolding v_def by (cases "b \<le> 5138") linarith+
    moreover have "r \<noteq> 16" using 2 a unfolding v_def by (cases "b \<le> 4110") linarith+
    moreover have "r \<noteq> 17" using 2 a unfolding v_def by (cases "b \<le> 3083") linarith+
    moreover have "r \<noteq> 18" using 2 a unfolding v_def by (cases "b \<le> 2055") linarith+
    moreover have "r \<noteq> 19" using 2 a unfolding v_def by (cases "b \<le> 1027") linarith+
    ultimately have r: "r = 13" by blast
    have "b = 7194" using 2 a r unfolding v_def by linarith
    moreover from this have "q = 364" using 2 a r unfolding v_def by linarith
    ultimately have "mrg_next a b = 7291" using 2(3) r unfolding v_def by simp
    with \<open>q = 364\<close> show ?thesis using a r by simp
  qed
qed

text \<open>In the terms of the state: the first word of the next state.\<close>

lemma orig_step_next:
  assumes "valid_state st"
  shows "\<exists>st'. mrg_orig_step st = Some st' \<and> valid_state st' \<and> unat (z1 st') = mrg_next (unat (z1 st)) (unat (z5 st)) \<and>
     z2 st' = z1 st \<and> z3 st' = z2 st \<and> z4 st' = z3 st \<and> z5 st' = z4 st"
proof -
  have v: "valid_elt (z1 st)" "valid_elt (z5 st)" using assms by (auto simp: valid_state_def)
  then show ?thesis
    using assms
    by (auto simp: mrg_orig_step_def ma64.mul_x_spec ma64.mac_y_spec valid_state_def mrg_next_def add.commute)
qed

lemma bern_limit_eq: "bern_limit = 7295"
  by (simp add: bern_limit_def)

lemma draw_small_iff:
  assumes "valid_state st"
  shows "(ucast (z1 st) :: 32 word) < bern_limit \<longleftrightarrow> unat (z1 st) < 7295"
proof -
  have "unat (z1 st) < 2 ^ 32" using assms by (simp add: valid_state_def valid_elt_iff)
  then have "unat (ucast (z1 st) :: 32 word) = unat (z1 st)"
    by (simp add: unsigned_ucast_eq take_bit_nat_eq_self)
  then show ?thesis by (simp add: bern_limit_eq word_less_nat_alt)
qed

text \<open>A draw returns as soon as one of the following states is accepted.\<close>

lemma bernoulli_draw_unfold:
  assumes "mrg_orig_step st = Some s" "valid_state s"
  shows "bernoulli_draw st =
    (if unat (z1 s) < 7295 then bernoulli_draw s else Some (ucast (z1 s), s))"
  using assms draw_small_iff [of s]
  by (subst bernoulli_draw.simps) (simp add: mrg_get_uint_orig_def Let_def)

lemma bernoulli_draw_ends:
  "valid_state st \<Longrightarrow> orig_steps (Suc k) st = Some s \<Longrightarrow> 7295 \<le> unat (z1 s) \<Longrightarrow>
   \<exists>r. bernoulli_draw st = Some r"
proof (induction k arbitrary: st)
  case 0
  then obtain s' where "mrg_orig_step st = Some s'" "valid_state s'" using orig_step_next by blast
  with 0 show ?case using bernoulli_draw_unfold by simp
next
  case (Suc k)
  obtain s' where s': "mrg_orig_step st = Some s'" "valid_state s'" using orig_step_next Suc.prems by blast
  with Suc have "\<exists>r. bernoulli_draw s' = Some r" by simp
  then show ?case using bernoulli_draw_unfold [OF s'] by auto
qed

lemma orig_steps_snoc: "orig_steps (Suc n) st = orig_steps n st \<bind> mrg_orig_step"
proof (induction n arbitrary: st)
  case 0
  show ?case by (cases "mrg_orig_step st") auto
next
  case (Suc n)
  show ?case
  proof (cases "mrg_orig_step st")
    case None
    then show ?thesis by simp
  next
    case (Some s)
    then show ?thesis using Suc.IH [of s] by simp
  qed
qed

lemma accepted_within_nine:
  assumes v: "valid_state st" and nz: "nonzero_state st"
  shows "\<exists>k s. orig_steps (Suc k) st = Some s \<and> 7295 \<le> unat (z1 s)"
proof (rule ccontr)
  assume no: "\<not> (\<exists>k s. orig_steps (Suc k) st = Some s \<and> 7295 \<le> unat (z1 s))"
  define s where "s i = the (orig_steps i st)" for i
  have s: "orig_steps i st = Some (s i)" "valid_state (s i)" "nonzero_state (s i)" for i
  proof -
    obtain t where "orig_steps i st = Some t" "valid_state t \<and> vst t = (fstep ^^ i) (vst st)"
      using orig_steps_returns [OF v] by (rule returnsE)
    moreover from this have "valid_state t \<and> nonzero_state t" using fsteps_keep_nonzero [OF v nz] by blast
    ultimately show "orig_steps i st = Some (s i)" "valid_state (s i)" "nonzero_state (s i)"
      by (simp_all add: s_def)
  qed
  define c where "c i = unat (z1 (s i))" for i
  have step: "c (Suc i) = mrg_next (c i) (unat (z5 (s i)))" "z2 (s (Suc i)) = z1 (s i)"
      "z3 (s (Suc i)) = z2 (s i)" "z4 (s (Suc i)) = z3 (s i)" "z5 (s (Suc i)) = z4 (s i)" for i
  proof -
    have "mrg_orig_step (s i) = Some (s (Suc i))"
      using orig_steps_snoc [of i st] by (simp only: s(1) bind.bind_lunit)
    then show "c (Suc i) = mrg_next (c i) (unat (z5 (s i)))" "z2 (s (Suc i)) = z1 (s i)"
      "z3 (s (Suc i)) = z2 (s i)" "z4 (s (Suc i)) = z3 (s i)" "z5 (s (Suc i)) = z4 (s i)"
      using orig_step_next [OF s(2) [of i]] by (auto simp: c_def)
  qed
  have small: "c (Suc i) < 7295" for i using no s(1) [of "Suc i"] unfolding c_def by (meson not_le)
  have next5: "c (i + 5) = mrg_next (c (i + 4)) (c i)" for i
    using step [of "i + 4"] step [of "i + 3"] step [of "i + 2"] step [of "i + 1"] step [of i]
    by (simp add: c_def numeral_eq_Suc)
  have zero: "c (i + 4) = 0 \<and> c i = 0" if "0 < i" for i
  proof -
    have sm: "c j < 7295" if "0 < j" for j using small [of "j - 1"] that by simp
    have a: "c (i + 4) = 0 \<and> c i = 0 \<and> c (i + 5) = 0 \<or> c (i + 4) = 7293 \<and> c (i + 5) = 7291"
      using mrg_next_small [of "c (i + 4)" "c i"] sm [of "i + 4"] sm [of i] sm [of "i + 5"] that
      unfolding next5 [symmetric] by simp
    have b: "c (i + 5) = 0 \<and> c (i + 1) = 0 \<and> c (i + 6) = 0 \<or> c (i + 5) = 7293 \<and> c (i + 6) = 7291"
    proof -
      have "c (i + 6) = mrg_next (c (i + 5)) (c (i + 1))"
        using next5 [of "i + 1"] by (simp add: numeral_eq_Suc)
      then show ?thesis
        using mrg_next_small [of "c (i + 5)" "c (i + 1)"] sm [of "i + 5"] sm [of "i + 1"] sm [of "i + 6"] by simp
    qed
    from a b show ?thesis by auto
  qed
  have "z1 (s 5) = 0 \<and> z2 (s 5) = 0 \<and> z3 (s 5) = 0 \<and> z4 (s 5) = 0 \<and> z5 (s 5) = 0"
    using step(2-5) [of 4] step(2-5) [of 3] step(2-5) [of 2] step(2-5) [of 1]
      zero [of 1] zero [of 2] zero [of 3] zero [of 4]
    by (simp add: c_def numeral_eq_Suc unsigned_eq_0_iff)
  then show False using s(3) [of 5] by (simp add: nonzero_state_def)
qed

lemma bernoulli_draw_returns:
  assumes "valid_state st" "nonzero_state st"
  shows "returns (bernoulli_draw st)
    (\<lambda>(draw, s). bern_limit \<le> draw \<and> unat draw < P31 \<and> valid_state s \<and> nonzero_state s)"
proof -
  have "returns (bernoulli_draw st)
      (\<lambda>(draw, s). bern_limit \<le> draw \<and> unat draw < P31 \<and> valid_state s \<and> nonzero_state s)"
    if "orig_steps (Suc k) st = Some t" "7295 \<le> unat (z1 t)" "valid_state st" "nonzero_state st" for k t st
    using that
  proof (induction k arbitrary: st)
    case (0 st)
    then obtain s where s: "mrg_orig_step st = Some s" "valid_state s \<and> nonzero_state s"
      using orig_step_nonzero by (blast elim: returnsE)
    have u: "unat (ucast (z1 s) :: 32 word) = unat (z1 s)"
      using s by (simp add: valid_state_def valid_elt_iff unsigned_ucast_eq take_bit_nat_eq_self)
    then show ?case
      using 0 s bernoulli_draw_unfold [of st s] draw_small_iff [of s]
      by (simp add: not_less [symmetric] valid_state_def valid_elt_iff)
  next
    case (Suc k st)
    then obtain s where s: "mrg_orig_step st = Some s" "valid_state s \<and> nonzero_state s"
      using orig_step_nonzero by (blast elim: returnsE)
    have u: "unat (ucast (z1 s) :: 32 word) = unat (z1 s)"
      using s by (simp add: valid_state_def valid_elt_iff unsigned_ucast_eq take_bit_nat_eq_self)
    show ?case
    proof (cases "unat (z1 s) < 7295")
      case True
      then show ?thesis using Suc s bernoulli_draw_unfold [of st s] by simp
    next
      case False
      then show ?thesis
        using u s bernoulli_draw_unfold [of st s] draw_small_iff [of s]
        by (simp add: not_less [symmetric] valid_state_def valid_elt_iff)
    qed
  qed
  with accepted_within_nine [OF assms] assms show ?thesis by blast
qed

section \<open>Properties of the generator\<close>

lemma quadrant_cases: "quadrant draw \<in> {0, 1, 2, 3}"
  by (simp add: quadrant_def Let_def)

lemma quadrant_offsets:
  assumes "square \<in> {0, 1, 2, 3 :: int}"
  shows "c_quot square 2 \<in> {0, 1}" "c_rem square 2 \<in> {0, 1}"
  using assms by auto

text \<open>C30: \<open>generate_4way_bernoulli\<close> always returns: on every state the seeding can reach (residues, not
  all zero) the rejection loop ends, the quadrant is one of 0 to 3, and the state stays usable.\<close>

theorem generate_4way_bernoulli_returns:
  assumes "valid_state st" and "nonzero_state st"
  shows "\<exists>square st'. generate_4way_bernoulli st level nlevels = Some (square, st') \<and>
           square \<in> {0, 1, 2, 3} \<and> valid_state st' \<and> nonzero_state st'"
proof -
  obtain draw s where "bernoulli_draw st = Some (draw, s)" "valid_state s" "nonzero_state s"
    using bernoulli_draw_returns [OF assms] by (auto elim: returnsE)
  then show ?thesis
    using quadrant_cases [of draw] by (simp add: generate_4way_bernoulli_def)
qed

theorem generate_4way_bernoulli_returns_witness:
  "\<exists>square st'. generate_4way_bernoulli \<lparr>z1 = 0, z2 = 0, z3 = 0, z4 = 0, z5 = 1\<rparr> 0 20 = Some (square, st') \<and>
     square \<in> {0, 1, 2, 3} \<and> valid_state st' \<and> nonzero_state st'"
  by (rule generate_4way_bernoulli_returns) (simp_all add: valid_state_def nonzero_state_def valid_elt_def)

lemma bernoulli_returns:
  assumes "valid_state st" "nonzero_state st"
  shows "returns (generate_4way_bernoulli st level nlevels)
    (\<lambda>(square, s). square \<in> {0, 1, 2, 3} \<and> valid_state s \<and> nonzero_state s)"
proof -
  obtain draw s where "bernoulli_draw st = Some (draw, s)" "valid_state s" "nonzero_state s"
    using bernoulli_draw_returns [OF assms] by (auto elim: returnsE)
  then show ?thesis
    using quadrant_cases [of draw] by (simp add: generate_4way_bernoulli_def)
qed

lemma edge_loop_step:
  assumes "1 < nverts" "generate_4way_bernoulli st level lgN = Some (square, st')" "s \<le> t"
  shows "edge_loop nverts level lgN st s t =
    (let flip = (s = t \<and> c_rem square 2 < c_quot square 2);
         so = (if flip then c_rem square 2 else c_quot square 2);
         tgo = (if flip then c_quot square 2 else c_rem square 2)
     in edge_loop (c_quot nverts 2) (level + 1) lgN st' (s + c_quot nverts 2 * so) (t + c_quot nverts 2 * tgo))"
  using assms by (subst edge_loop.simps) (simp add: Let_def)

lemma offset_le:
  "(0::int) \<le> p \<Longrightarrow> 2 * p \<le> t - s \<Longrightarrow> a \<in> {0, 1} \<Longrightarrow> b \<in> {0, 1} \<Longrightarrow> s + p * a \<le> t + p * b"
  by auto

lemma offset_fits:
  "(0::int) \<le> p \<Longrightarrow> t + 2 * p \<le> N \<Longrightarrow> b \<in> {0, 1} \<Longrightarrow> t + p * b + p \<le> N"
  by auto

text \<open>The base indices are multiples of the current grid size, so the source never passes the target.\<close>

lemma edge_loop_returns:
  assumes "0 \<le> s" "s \<le> t" "2 ^ k dvd s" "2 ^ k dvd t" "t + 2 ^ k \<le> N" "valid_state st" "nonzero_state st"
  shows "returns (edge_loop (2 ^ k) level lgN st s t)
    (\<lambda>(s', t', st'). 0 \<le> s' \<and> s' \<le> t' \<and> t' < N \<and> valid_state st' \<and> nonzero_state st')"
  using assms
proof (induction k arbitrary: s t st level)
  case 0
  then show ?case by (simp add: edge_loop.simps [of 1])
next
  case (Suc k)
  have "(1::int) \<le> 2 ^ k" by (rule one_le_power) simp
  then have gt: "(1::int) < 2 ^ Suc k" unfolding power_Suc by linarith
  have half: "c_quot (2 ^ Suc k) 2 = (2::int) ^ k" by simp
  obtain square st' where b: "generate_4way_bernoulli st level lgN = Some (square, st')"
    and sq: "square \<in> {0, 1, 2, 3}" and st': "valid_state st'" "nonzero_state st'"
    using bernoulli_returns [OF Suc.prems(6,7), of level lgN] by (auto elim: returnsE)
  define flip where "flip = (s = t \<and> c_rem square 2 < c_quot square 2)"
  define so tgo where "so = (if flip then c_rem square 2 else c_quot square 2)"
    and "tgo = (if flip then c_quot square 2 else c_rem square 2)"
  have o: "so \<in> {0, 1}" "tgo \<in> {0, 1}" "s = t \<Longrightarrow> so \<le> tgo"
    using quadrant_offsets [OF sq] unfolding so_def tgo_def flip_def by auto
  have d: "2 ^ k dvd s" "2 ^ k dvd t" using Suc.prems(3,4) by (auto dest: dvd_mult_right)
  have le: "s + 2 ^ k * so \<le> t + 2 ^ k * tgo"
  proof (cases "s = t")
    case True
    then show ?thesis using o by auto
  next
    case False
    have "2 ^ Suc k dvd t - s" using Suc.prems(3,4) by simp
    then have "(2::int) ^ Suc k \<le> t - s" using False Suc.prems(2) by (intro zdvd_imp_le) auto
    then show ?thesis using o unfolding power_Suc by (intro offset_le) auto
  qed
  have fits: "t + 2 ^ k * tgo + 2 ^ k \<le> N"
    using Suc.prems(5) o(2) unfolding power_Suc by (intro offset_fits) auto
  have "returns (edge_loop (2 ^ k) (level + 1) lgN st' (s + 2 ^ k * so) (t + 2 ^ k * tgo))
      (\<lambda>(s', t', st'). 0 \<le> s' \<and> s' \<le> t' \<and> t' < N \<and> valid_state st' \<and> nonzero_state st')"
    using Suc.prems(1) o d st' le fits by (intro Suc.IH) auto
  moreover have "edge_loop (2 ^ Suc k) level lgN st s t =
      edge_loop (2 ^ k) (level + 1) lgN st' (s + 2 ^ k * so) (t + 2 ^ k * tgo)"
    using edge_loop_step [OF gt b Suc.prems(2)]
    unfolding half Let_def flip_def [symmetric] so_def [symmetric] tgo_def [symmetric] .
  ultimately show ?case by simp
qed

lemma scramble_sint:
  assumes "1 \<le> logN" "logN \<le> 62"
  shows "\<exists>r. scramble w logN val0 val1 = Some r \<and> 0 \<le> sint r \<and> sint r < 2 ^ nat logN"
proof -
  define l where "l = nat logN"
  have l: "logN = int l" "1 \<le> l" "l \<le> 62" using assms by (simp_all add: l_def)
  let ?r = "scramble_value w l val0 val1"
  have lt: "unat ?r < 2 ^ l" using l by (intro scramble_value_lt) simp
  also have "\<dots> \<le> 2 ^ 62" using l(3) by (intro power_increasing) simp_all
  finally have "sint ?r = int (unat ?r)" by (intro sint_small) simp
  moreover have "int (unat ?r) < 2 ^ l" using lt by (metis of_nat_less_iff of_nat_numeral of_nat_power)
  ultimately show ?thesis using scramble_eq [of l w val0 val1] l by auto
qed

lemma make_one_edge_returns:
  assumes "1 \<le> logN" "logN \<le> 62" "valid_state st" "nonzero_state st"
  shows "returns (make_one_edge (2 ^ nat logN) level logN st val0 val1)
    (\<lambda>(e, st'). 0 \<le> get_v0_from_edge e \<and> get_v0_from_edge e < 2 ^ nat logN \<and>
       0 \<le> get_v1_from_edge e \<and> get_v1_from_edge e < 2 ^ nat logN)"
proof -
  obtain a b st' where "edge_loop (2 ^ nat logN) level logN st 0 0 = Some (a, b, st')"
    using edge_loop_returns [of 0 0 "nat logN" "2 ^ nat logN" st level logN] assms
    by (auto elim: returnsE)
  moreover obtain r where "scramble (word_of_int a) logN val0 val1 = Some r" "0 \<le> sint r" "sint r < 2 ^ nat logN"
    using scramble_sint [OF assms(1,2)] by blast
  moreover obtain q where "scramble (word_of_int b) logN val0 val1 = Some q" "0 \<le> sint q" "sint q < 2 ^ nat logN"
    using scramble_sint [OF assms(1,2)] by blast
  ultimately show ?thesis by (simp add: make_one_edge_def)
qed

section \<open>Seeding\<close>

lemma mask30: "unat ((x :: 64 word) AND 0x3FFFFFFF) = unat x mod 2 ^ 30"
proof -
  have "(0x3FFFFFFF :: 64 word) = mask 30" by (simp add: mask_eq_exp_minus_1)
  then show ?thesis by (simp only: take_bit_eq_mask [symmetric] unsigned_take_bit_eq take_bit_nat_def)
qed

lemma top_nibble: "unat (drop_bit 60 (x :: 64 word)) = unat x div 2 ^ 60" "unat (x :: 64 word) div 2 ^ 60 < 16"
  using unsigned_less [of x, where 'a = nat] by (simp_all add: unat_drop_bit_eq drop_bit_nat_def less_mult_imp_div_less)

text \<open>The five seed words, as numbers.\<close>

lemma make_mrg_seed_unat:
  "List.map unat (make_mrg_seed u1 u2) =
    [unat u1 mod 2 ^ 30 + 1, unat u1 div 2 ^ 30 mod 2 ^ 30 + 1,
     unat u2 mod 2 ^ 30 + 1, unat u2 div 2 ^ 30 mod 2 ^ 30 + 1,
     16 * (unat u2 div 2 ^ 60) + unat u1 div 2 ^ 60 + 1]"
proof -
  have a: "unat ((x AND 0x3FFFFFFF) + 1) = unat x mod 2 ^ 30 + 1" for x :: "64 word"
  proof -
    have "unat x mod 2 ^ 30 < 2 ^ 30" by simp
    then show ?thesis by (subst unat_add_small) (simp_all add: mask30)
  qed
  have b: "unat (drop_bit 30 x) = unat x div 2 ^ 30" for x :: "64 word"
    by (simp add: unat_drop_bit_eq drop_bit_nat_def)
  have c: "unat (push_bit 4 (drop_bit 60 u2)) = 16 * (unat u2 div 2 ^ 60)"
    using top_nibble(2) [of u2]
    by (simp add: unsigned_push_bit_eq top_nibble push_bit_nat_def take_bit_nat_eq_self mult.commute)
  have d: "unat (push_bit 4 (drop_bit 60 u2) + drop_bit 60 u1) = 16 * (unat u2 div 2 ^ 60) + unat u1 div 2 ^ 60"
    using top_nibble(2) [of u2] top_nibble(2) [of u1]
    by (subst unat_add_small) (simp_all only: c top_nibble(1), simp)
  have "unat (push_bit 4 (drop_bit 60 u2) + drop_bit 60 u1 + 1) = 16 * (unat u2 div 2 ^ 60) + unat u1 div 2 ^ 60 + 1"
    using top_nibble(2) [of u2] top_nibble(2) [of u1]
    by (subst unat_add_small) (simp_all only: d unsigned_1, simp)
  then show ?thesis by (simp only: make_mrg_seed_def list.map a b)
qed

lemma make_mrg_seed_bounds:
  "x \<in> set (make_mrg_seed u1 u2) \<Longrightarrow> 0 < unat x \<and> unat x < P31"
proof -
  assume "x \<in> set (make_mrg_seed u1 u2)"
  then have "unat x \<in> set (List.map unat (make_mrg_seed u1 u2))" by simp
  moreover have "n mod 2 ^ 30 + 1 \<le> 2 ^ 30" for n :: nat using mod_less_divisor [of "2 ^ 30" n] by simp
  ultimately show ?thesis
    using top_nibble(2) [of u1] top_nibble(2) [of u2] unfolding make_mrg_seed_unat by auto
qed

lemma nibbles_eq: "16 * a + b = 16 * c + (d::nat) \<Longrightarrow> b < 16 \<Longrightarrow> d < 16 \<Longrightarrow> b = d \<and> a = c"
proof -
  assume e: "16 * a + b = 16 * c + d" and l: "b < 16" "d < 16"
  have "(16 * a + b) mod 16 = b" "(16 * c + d) mod 16 = d" using l by simp_all
  then have "b = d" unfolding e by simp
  with e show ?thesis by simp
qed

lemma two_digits:
  fixes n :: nat
  assumes "n = c * q + r" "q = c * d + m"
  shows "n = r + c * m + c * c * d"
  by (simp add: assms algebra_simps)

lemma seed_digits: "(n::nat) = n mod 2 ^ 30 + 2 ^ 30 * (n div 2 ^ 30 mod 2 ^ 30) + 2 ^ 60 * (n div 2 ^ 60)"
proof -
  have "n = n mod 2 ^ 30 + 2 ^ 30 * (n div 2 ^ 30 mod 2 ^ 30) + 2 ^ 30 * 2 ^ 30 * (n div 2 ^ 30 div 2 ^ 30)"
    by (rule two_digits [where q = "n div 2 ^ 30"]) (simp_all only: mult_div_mod_eq)
  also have "n div 2 ^ 30 div 2 ^ 30 = n div 2 ^ 60" by (simp add: div_mult2_eq [symmetric])
  finally show ?thesis by (simp only: power_add [symmetric]) simp
qed

lemma make_mrg_seed_inj:
  assumes "make_mrg_seed u1 u2 = make_mrg_seed w1 w2"
  shows "u1 = w1 \<and> u2 = w2"
proof -
  have "List.map unat (make_mrg_seed u1 u2) = List.map unat (make_mrg_seed w1 w2)" using assms by simp
  then have e: "unat u1 mod 2 ^ 30 = unat w1 mod 2 ^ 30"
      "unat u1 div 2 ^ 30 mod 2 ^ 30 = unat w1 div 2 ^ 30 mod 2 ^ 30"
      "unat u2 mod 2 ^ 30 = unat w2 mod 2 ^ 30"
      "unat u2 div 2 ^ 30 mod 2 ^ 30 = unat w2 div 2 ^ 30 mod 2 ^ 30"
      "16 * (unat u2 div 2 ^ 60) + unat u1 div 2 ^ 60 = 16 * (unat w2 div 2 ^ 60) + unat w1 div 2 ^ 60"
    unfolding make_mrg_seed_unat by (simp_all only: list.inject add_right_cancel)
  have "unat u1 div 2 ^ 60 = unat w1 div 2 ^ 60 \<and> unat u2 div 2 ^ 60 = unat w2 div 2 ^ 60"
    using nibbles_eq [OF e(5)] top_nibble(2) [of u1] top_nibble(2) [of w1] by simp
  then have "unat u1 = unat w1" "unat u2 = unat w2"
    using seed_digits [of "unat u1"] seed_digits [of "unat w1"] seed_digits [of "unat u2"] seed_digits [of "unat w2"]
    by (simp_all only: e)
  then show ?thesis by (simp add: word_unat_eq_iff)
qed

lemma seed_state_returns:
  "returns (mrg_seed (make_mrg_seed u1 u2)) (\<lambda>s. valid_state s \<and> nonzero_state s)"
proof -
  obtain a b c d e where m: "make_mrg_seed u1 u2 = [a, b, c, d, e]" by (simp add: make_mrg_seed_def)
  have "valid_elt x \<and> x \<noteq> 0" if "x \<in> {a, b, c, d, e}" for x
    using make_mrg_seed_bounds [of x u1 u2] that unfolding m by (auto simp: valid_elt_iff)
  then show ?thesis unfolding m by (simp add: mrg_seed_def valid_state_def nonzero_state_def)
qed

section \<open>A range of edges\<close>

definition edge_in :: "int \<Rightarrow> packed_edge \<Rightarrow> bool" where
  "edge_in N e \<longleftrightarrow> 0 \<le> get_v0_from_edge e \<and> get_v0_from_edge e < N \<and> 0 \<le> get_v1_from_edge e \<and> get_v1_from_edge e < N"

lemma get_uint_returns:
  assumes "valid_state st \<and> nonzero_state st"
  shows "returns (mrg_get_uint_orig st) (\<lambda>(_, s). valid_state s \<and> nonzero_state s)"
proof -
  have "returns (mrg_orig_step st) (\<lambda>st'. valid_state st' \<and> nonzero_state st')"
    using assms by (intro orig_step_nonzero) auto
  then show ?thesis unfolding mrg_get_uint_orig_def by (rule returns_bindI) simp
qed

lemma kron_setup_returns:
  assumes "table_ok tbl"
  shows "returns (kron_setup tbl (make_mrg_seed u1 u2)) (\<lambda>(s, _, _). valid_state s \<and> nonzero_state s)"
proof -
  have sk: "returns (mrg_skip tbl s a b c) (\<lambda>s. valid_state s \<and> nonzero_state s)"
    if "valid_state s \<and> nonzero_state s" for s a b c
    using mrg_skip_nonzero [OF assms] that by blast
  show ?thesis
    unfolding kron_setup_def
    apply (rule returns_bindI [OF seed_state_returns])
    apply (rule returns_bindI [OF sk], assumption)
    apply (rule returns_bindI, rule get_uint_returns, assumption, split prod.split, intro allI impI, simp only: prod.case)+
    apply simp
    done
qed

lemma kron_edge_returns:
  assumes "table_ok tbl" "valid_state s" "nonzero_state s" "1 \<le> logN" "logN \<le> 62"
  shows "returns (kron_edge tbl s logN val0 val1 ei) (edge_in (2 ^ nat logN))"
  unfolding kron_edge_def
proof (rule returns_bindI [OF mrg_skip_nonzero [OF assms(1-3)]])
  fix t assume "valid_state t \<and> nonzero_state t"
  then show "returns (make_one_edge (2 ^ nat logN) 0 logN t val0 val1 \<bind> (\<lambda>(e, _). Some e)) (edge_in (2 ^ nat logN))"
    using assms(4,5) by (intro returns_bindI [OF make_one_edge_returns]) (auto simp: edge_in_def)
qed

text \<open>The body of the loop writes edge \<open>ei\<close> at its place, whatever the range.\<close>

lemma kron_loop_returns:
  assumes "start_edge \<le> end_edge" "end_edge - start_edge \<le> int (length edges)"
    and e: "\<And>ei. returns (kron ei) P"
  shows "returns (for_range start_edge end_edge
       (\<lambda>ei edges. do { e \<leftarrow> kron ei; aset edges (ei - start_edge) e }) edges)
    (\<lambda>es. es = List.map (the \<circ> kron) [start_edge..end_edge - 1] @ drop (nat (end_edge - start_edge)) edges)"
  using assms(1)
proof (rule returns_for_range [rotated])
  fix i t
  assume i: "start_edge \<le> i" "i < end_edge"
    and t: "t = List.map (the \<circ> kron) [start_edge..i - 1] @ drop (nat (i - start_edge)) edges"
  obtain x where x: "kron i = Some x" using e by (blast elim: returnsE)
  have "t[nat (i - start_edge) := x] =
      List.map (the \<circ> kron) [start_edge..i] @ drop (nat (i + 1 - start_edge)) edges"
  proof -
    have "drop (nat (i - start_edge)) edges = edges ! nat (i - start_edge) # drop (nat (i + 1 - start_edge)) edges"
      using i assms(2) by (subst Cons_nth_drop_Suc [symmetric]) (auto simp: Suc_nat_eq_nat_zadd1 add_diff_eq add.commute)
    moreover have "[start_edge..i] = [start_edge..i - 1] @ [i]" using i by (intro upto_rec2) simp
    ultimately show ?thesis unfolding t by (simp add: list_update_append x)
  qed
  then show "returns (kron i \<bind> aset t (i - start_edge))
      (\<lambda>es. es = List.map (the \<circ> kron) [start_edge..i + 1 - 1] @ drop (nat (i + 1 - start_edge)) edges)"
    using i assms(2) by (simp add: x t)
qed simp

lemma generate_kronecker_range_eq:
  assumes tbl: "table_ok tbl" and logN: "1 \<le> logN" "logN \<le> 62"
  obtains edge where "\<And>start_edge end_edge edges. start_edge \<le> end_edge \<Longrightarrow>
      end_edge - start_edge \<le> int (length edges) \<Longrightarrow>
      generate_kronecker_range tbl (make_mrg_seed u1 u2) logN start_edge end_edge edges =
        Some (List.map edge [start_edge..end_edge - 1] @ drop (nat (end_edge - start_edge)) edges)"
    and "\<And>ei. edge_in (2 ^ nat logN) (edge ei)"
proof -
  obtain s val0 val1 where s: "kron_setup tbl (make_mrg_seed u1 u2) = Some (s, val0, val1)"
      "valid_state s" "nonzero_state s"
    using kron_setup_returns [OF tbl, of u1 u2] by (auto simp: returns_iff)
  let ?kron = "kron_edge tbl s logN val0 val1"
  have k: "returns (?kron ei) (edge_in (2 ^ nat logN))" for ei
    using kron_edge_returns [OF tbl s(2,3) logN] .
  have "edge_in (2 ^ nat logN) ((the \<circ> ?kron) ei)" for ei
    by (rule returnsE [OF k [of ei]]) simp
  moreover have "generate_kronecker_range tbl (make_mrg_seed u1 u2) logN start_edge end_edge edges =
      Some (List.map (the \<circ> ?kron) [start_edge..end_edge - 1] @ drop (nat (end_edge - start_edge)) edges)"
    if "start_edge \<le> end_edge" "end_edge - start_edge \<le> int (length edges)" for start_edge end_edge edges
    using kron_loop_returns [OF that k] logN
    by (simp add: generate_kronecker_range_def s(1) returns_iff)
  ultimately show thesis by (intro that [of "the \<circ> ?kron"]) blast+
qed

text \<open>C29: \<open>generate_kronecker_range\<close> fills exactly the requested part of the buffer, with edges between
  vertices below 2^logN, and cutting a range in two gives the same edges, for every pair of user seeds: the
  graph does not depend on how the range is shared between threads or processes.\<close>

theorem generate_kronecker_range_splits:
  assumes "1 \<le> logN" "logN \<le> 62" "a \<le> b" "b \<le> c"
    and "int (length xs) = b - a" "int (length ys) = c - b"
  shows "\<exists>tbl es fs. dump_mrg_powers = Some tbl \<and>
    generate_kronecker_range tbl (make_mrg_seed u1 u2) logN a b xs = Some es \<and>
    generate_kronecker_range tbl (make_mrg_seed u1 u2) logN b c ys = Some fs \<and>
    generate_kronecker_range tbl (make_mrg_seed u1 u2) logN a c (xs @ ys) = Some (es @ fs) \<and>
    length es = length xs \<and> length fs = length ys \<and> (\<forall>e \<in> set (es @ fs). edge_in (2 ^ nat logN) e)"
proof -
  obtain tbl where tbl: "dump_mrg_powers = Some tbl" "table_ok tbl" using dump_mrg_powers_returns by (rule returnsE)
  obtain edge where e: "\<And>start_edge end_edge edges. start_edge \<le> end_edge \<Longrightarrow>
      end_edge - start_edge \<le> int (length edges) \<Longrightarrow>
      generate_kronecker_range tbl (make_mrg_seed u1 u2) logN start_edge end_edge edges =
        Some (List.map edge [start_edge..end_edge - 1] @ drop (nat (end_edge - start_edge)) edges)"
    and i: "\<And>ei. edge_in (2 ^ nat logN) (edge ei)"
    by (rule generate_kronecker_range_eq [OF tbl(2) assms(1,2), of u1 u2]) blast
  have "[a..c - 1] = [a..b - 1] @ [b..c - 1]"
    using assms(3,4) upto_split1 [of a b "c - 1"] by (cases "b = c") simp_all
  moreover have "nat (b - a) = length xs" "nat (c - b) = length ys" using assms(5,6) by simp_all
  ultimately show ?thesis
    using tbl(1) e [of a b xs] e [of b c ys] e [of a c "xs @ ys"] i assms
    by - (rule exI [of _ tbl], rule exI [of _ "List.map edge [a..b - 1]"], rule exI [of _ "List.map edge [b..c - 1]"], auto)
qed

theorem generate_kronecker_range_splits_witness:
  "\<exists>tbl es fs. dump_mrg_powers = Some tbl \<and>
    generate_kronecker_range tbl (make_mrg_seed 2 3) 4 0 2 [write_edge 0 0, write_edge 0 0] = Some es \<and>
    generate_kronecker_range tbl (make_mrg_seed 2 3) 4 2 3 [write_edge 0 0] = Some fs \<and>
    generate_kronecker_range tbl (make_mrg_seed 2 3) 4 0 3 ([write_edge 0 0, write_edge 0 0] @ [write_edge 0 0]) =
      Some (es @ fs) \<and>
    length es = length [write_edge 0 0, write_edge 0 0] \<and> length fs = length [write_edge 0 0] \<and>
    (\<forall>e \<in> set (es @ fs). edge_in (2 ^ nat 4) e)"
  by (rule generate_kronecker_range_splits) simp_all

section \<open>The 48-bit edges\<close>

lemma mask16: "(0xFFFF :: 'a::len word) = mask 16"
  by (simp add: mask_eq_exp_minus_1)


lemma edge48_roundtrip:
  "get_v0_48 (write_edge48 a b) = signed_take_bit 47 a"
  "get_v1_48 (write_edge48 a b) = signed_take_bit 47 b"
  unfolding get_v0_48_def get_v1_48_def write_edge48_def mask16
  subgoal by (rule bit_word_eqI) (auto simp: bit_simps min_def, metis le_add_diff_inverse not_less)
  subgoal by (rule bit_word_eqI) (auto simp: bit_simps min_def, metis le_add_diff_inverse not_less)
  done

lemma signed_take_bit_47:
  assumes "- (2 ^ 47) \<le> sint (a :: 64 word)" "sint a < 2 ^ 47"
  shows "signed_take_bit 47 a = a"
proof -
  have "sint (signed_take_bit 47 a) = signed_take_bit 47 (sint a)"
    by (rule bit_eqI) (auto simp: bit_simps min_def)
  also have "\<dots> = sint a" using assms by (intro signed_take_bit_int_eq_self) simp_all
  finally show ?thesis by (rule signed_word_eqI)
qed

text \<open>C34: the packed edge type loses nothing for endpoints of 48 signed bits (negative ones with the shift of negative
  integers that GCC documents).\<close>

theorem write_edge48_roundtrip:
  assumes "- (2 ^ 47) \<le> sint a" "sint a < 2 ^ 47" "- (2 ^ 47) \<le> sint b" "sint b < 2 ^ 47"
  shows "get_v0_48 (write_edge48 a b) = a \<and> get_v1_48 (write_edge48 a b) = b"
  using assms by (simp add: edge48_roundtrip signed_take_bit_47)

theorem write_edge48_roundtrip_witness:
  "get_v0_48 (write_edge48 (2 ^ 40) (-3)) = 2 ^ 40 \<and> get_v1_48 (write_edge48 (2 ^ 40) (-3)) = -3"
  by (rule write_edge48_roundtrip) simp_all

section \<open>The bias of the draws\<close>

text \<open>The values that the rejection loop lets through, by their remainder modulo the denominator.\<close>

definition accepted :: "nat \<Rightarrow> 32 word set" where
  "accepted r = {d. bern_limit \<le> d \<and> unat d < P31 \<and> unat (d mod 10000) = r}"

lemma accepted_eq:
  assumes "r < 10000" "\<And>k. (7295 \<le> r + 10000 * k \<and> r + 10000 * k < P31) \<longleftrightarrow> (lo \<le> k \<and> k < hi)"
  shows "card (accepted r) = hi - lo"
proof -
  define f where "f k = (word_of_nat (r + 10000 * k) :: 32 word)" for k
  have u: "unat (f k) = r + 10000 * k" if "lo \<le> k" "k < hi" for k
    using that assms(2) [of k] unfolding f_def by (subst unat_of_nat) simp
  have "inj_on f {lo..<hi}" by (rule inj_onI) (metis add_left_cancel atLeastLessThan_iff mult_cancel1 u zero_neq_numeral)
  moreover have "accepted r = f ` {lo..<hi}"
  proof (intro set_eqI iffI)
    fix d assume "d \<in> accepted r"
    then have d: "7295 \<le> unat d" "unat d < P31" "unat d mod 10000 = r"
      by (simp_all add: accepted_def bern_limit_def word_le_nat_alt unat_mod)
    have e: "r + 10000 * (unat d div 10000) = unat d" using d(3) by (metis mod_mult_div_eq)
    have "unat d div 10000 \<in> {lo..<hi}" using assms(2) [of "unat d div 10000"] d unfolding e by simp
    moreover have "d = f (unat d div 10000)" unfolding f_def e by simp
    ultimately have "unat d div 10000 \<in> {lo..<hi}" "d = f (unat d div 10000)" .
    then show "d \<in> f ` {lo..<hi}" by blast
  next
    fix d assume "d \<in> f ` {lo..<hi}"
    then show "d \<in> accepted r"
      using u assms(1) assms(2) [THEN iffD2] by (auto simp: accepted_def bern_limit_def word_le_nat_alt unat_mod)
  qed
  ultimately show ?thesis by (simp add: card_image)
qed

text \<open>The accepted draws are not uniform modulo 10000: some remainders have one more draw than
  others, because the limit is taken from the range of 32-bit integers and the draws are below 2^31 - 1.\<close>

theorem bernoulli_draw_biased:
  "card (accepted 7295) = 214748 \<and> card (accepted 3647) = 214747"
  using accepted_eq [of 7295 0 214748] accepted_eq [of 3647 1 214748] by fastforce

end
