(* ===== verification/Seq_Csr.thy ===== *)
theory Seq_Csr
  imports Bfs_Spec Graph_Generator
begin

text \<open>
  The sequential compressed-sparse-row kernel, \<open>seq-csr/seq-csr.c\<close>: the static variables of the file are
  the record \<open>csr\<close>, the adjacency of vertex \<open>v\<close> is \<open>xadj[XOFF(v) .. XENDOFF(v))\<close>.  \<open>xmalloc_large\<close> and
  \<open>xmalloc_large_ext\<close> are the parameter \<open>alloc\<close>: it takes a number of bytes and returns the 64-bit words
  of the new block, or \<open>None\<close> for a null pointer.  A function that returns an error code returns the pair
  of the code and the new state.
\<close>

section \<open>The state\<close>

record csr =
  maxvtx :: int
  nv :: int
  sz :: int
  xoff :: "int list"
  xadjstore :: "int list"

definition MINVECT_SIZE :: int where
  "MINVECT_SIZE = 2"

declare MINVECT_SIZE_def [simp]

section \<open>Building the graph\<close>

definition find_nv :: "packed_edge list \<Rightarrow> int \<Rightarrow> csr \<Rightarrow> csr option" where
  "find_nv IJ nedge g = do {
     m \<leftarrow> for_range 0 nedge (\<lambda>k m. do {
       e \<leftarrow> aget IJ k;
       let m = (if m < get_v0_from_edge e then get_v0_from_edge e else m);
       let m = (if m < get_v1_from_edge e then get_v1_from_edge e else m);
       Some m }) (-1);
     n \<leftarrow> i64 (1 + m);
     Some (g\<lparr>maxvtx := m, nv := n\<rparr>) }"

definition alloc_graph :: "(int \<Rightarrow> int list option) \<Rightarrow> csr \<Rightarrow> (int \<times> csr) option" where
  "alloc_graph alloc g = do {
     n \<leftarrow> i64 (2 * nv g + 2);
     let s = to_i64 (n * 8);
     Some (case alloc s of
         None \<Rightarrow> (-1, g\<lparr>sz := s, xoff := []\<rparr>)
       | Some block \<Rightarrow> (0, g\<lparr>sz := s, xoff := block\<rparr>)) }"

definition XOFF :: "int list \<Rightarrow> int \<Rightarrow> int option" where
  "XOFF x k = aget x (2 * k)"

definition XENDOFF :: "int list \<Rightarrow> int \<Rightarrow> int option" where
  "XENDOFF x k = aget x (1 + 2 * k)"

definition XOFF_put :: "int list \<Rightarrow> int \<Rightarrow> int \<Rightarrow> int list option" where
  "XOFF_put x k a = aset x (2 * k) a"

definition XENDOFF_put :: "int list \<Rightarrow> int \<Rightarrow> int \<Rightarrow> int list option" where
  "XENDOFF_put x k a = aset x (1 + 2 * k) a"

lemmas xoff_defs = XOFF_def XENDOFF_def XOFF_put_def XENDOFF_put_def

definition count_degree :: "packed_edge \<Rightarrow> int list \<Rightarrow> int list option" where
  "count_degree e x =
     (let i = get_v0_from_edge e; j = get_v1_from_edge e in
      if i \<noteq> j then do {
        x \<leftarrow> (if 0 \<le> i then do { c \<leftarrow> XOFF x i; XOFF_put x i (c + 1) } else Some x);
        (if 0 \<le> j then do { c \<leftarrow> XOFF x j; XOFF_put x j (c + 1) } else Some x) }
      else Some x)"

definition setup_deg_off ::
    "(int \<Rightarrow> int list option) \<Rightarrow> packed_edge list \<Rightarrow> int \<Rightarrow> csr \<Rightarrow> (int \<times> csr) option" where
  "setup_deg_off alloc IJ nedge g = do {
     x \<leftarrow> for_range 0 (2 * nv g + 2) (\<lambda>k x. aset x k 0) (xoff g);
     x \<leftarrow> for_range 0 nedge (\<lambda>k x. aget IJ k \<bind> (\<lambda>e. count_degree e x)) x;
     (x, accum) \<leftarrow> for_range 0 (nv g) (\<lambda>k (x, accum). do {
       tmp \<leftarrow> XOFF x k;
       let tmp = (if tmp < MINVECT_SIZE then MINVECT_SIZE else tmp);
       x \<leftarrow> XOFF_put x k accum;
       Some (x, accum + tmp) }) (x, 0);
     x \<leftarrow> XOFF_put x (nv g) accum;
     x \<leftarrow> for_range 0 (nv g) (\<lambda>k x. do { o1 \<leftarrow> XOFF x k; XENDOFF_put x k o1 }) x;
     case alloc ((accum + MINVECT_SIZE) * 8) of
       None \<Rightarrow> Some (-1, g\<lparr>xoff := x, xadjstore := []\<rparr>)
     | Some block \<Rightarrow> do {
         block \<leftarrow> for_range 0 (accum + MINVECT_SIZE) (\<lambda>k b. aset b k (-1)) block;
         Some (0, g\<lparr>xoff := x, xadjstore := block\<rparr>) } }"

text \<open>\<open>xadj\<close> points \<open>MINVECT_SIZE\<close> words into \<open>xadjstore\<close>.\<close>

definition xadj_get :: "csr \<Rightarrow> int \<Rightarrow> int option" where
  "xadj_get g k = aget (xadjstore g) (MINVECT_SIZE + k)"

definition xadj_put :: "csr \<Rightarrow> int \<Rightarrow> int \<Rightarrow> csr option" where
  "xadj_put g k a = do { s \<leftarrow> aset (xadjstore g) (MINVECT_SIZE + k) a; Some (g\<lparr>xadjstore := s\<rparr>) }"

definition scatter_edge :: "int \<Rightarrow> int \<Rightarrow> csr \<Rightarrow> csr option" where
  "scatter_edge i j g = do {
     pos \<leftarrow> XENDOFF (xoff g) i;
     x \<leftarrow> XENDOFF_put (xoff g) i (pos + 1);
     xadj_put (g\<lparr>xoff := x\<rparr>) pos j }"

definition i64cmp :: "int \<Rightarrow> int \<Rightarrow> int" where
  "i64cmp ia ib = (if ia < ib then -1 else if ib < ia then 1 else 0)"

text \<open>\<open>qsort\<close> of the C library: it permutes the block so that the comparison says the elements ascend.\<close>

primrec c_insort :: "('a \<Rightarrow> 'a \<Rightarrow> int) \<Rightarrow> 'a \<Rightarrow> 'a list \<Rightarrow> 'a list" where
  "c_insort cmp x [] = [x]"
| "c_insort cmp x (y # ys) = (if cmp x y \<le> 0 then x # y # ys else y # c_insort cmp x ys)"

definition c_qsort :: "('a \<Rightarrow> 'a \<Rightarrow> int) \<Rightarrow> 'a list \<Rightarrow> 'a list" where
  "c_qsort cmp xs = foldr (c_insort cmp) xs []"

definition qsort_range :: "('a \<Rightarrow> 'a \<Rightarrow> int) \<Rightarrow> 'a list \<Rightarrow> int \<Rightarrow> int \<Rightarrow> 'a list option" where
  "qsort_range cmp xs a n = do {
     c_assert (0 \<le> a \<and> 0 \<le> n \<and> a + n \<le> int (length xs));
     Some (take (nat a) xs @ c_qsort cmp (seg xs (nat a) (nat n)) @ drop (nat a + nat n) xs) }"

definition pack_vtx_edges :: "int \<Rightarrow> csr \<Rightarrow> csr option" where
  "pack_vtx_edges i g = do {
     o1 \<leftarrow> XOFF (xoff g) i;
     o2 \<leftarrow> XENDOFF (xoff g) i;
     if o1 + 1 \<ge> o2 then Some g
     else do {
       s \<leftarrow> qsort_range i64cmp (xadjstore g) (MINVECT_SIZE + o1) (o2 - o1);
       let g = g\<lparr>xadjstore := s\<rparr>;
       (g, kcur) \<leftarrow> for_range (o1 + 1) o2 (\<lambda>k (g, kcur). do {
         a \<leftarrow> xadj_get g k;
         b \<leftarrow> xadj_get g kcur;
         if a \<noteq> b then do { g \<leftarrow> xadj_put g (kcur + 1) a; Some (g, kcur + 1) }
         else Some (g, kcur) }) (g, o1);
       let kcur = kcur + 1;
       g \<leftarrow> for_range kcur o2 (\<lambda>k g. xadj_put g k (-1)) g;
       x \<leftarrow> XENDOFF_put (xoff g) i kcur;
       Some (g\<lparr>xoff := x\<rparr>) } }"

definition pack_edges :: "csr \<Rightarrow> csr option" where
  "pack_edges g = for_range 0 (nv g) pack_vtx_edges g"

definition gather_edges :: "packed_edge list \<Rightarrow> int \<Rightarrow> csr \<Rightarrow> csr option" where
  "gather_edges IJ nedge g = do {
     g \<leftarrow> for_range 0 nedge (\<lambda>k g. aget IJ k \<bind> (\<lambda>e.
       let i = get_v0_from_edge e; j = get_v1_from_edge e in
       if 0 \<le> i \<and> 0 \<le> j \<and> i \<noteq> j then do { g \<leftarrow> scatter_edge i j g; scatter_edge j i g }
       else Some g)) g;
     pack_edges g }"

definition create_graph_from_edgelist ::
    "(int \<Rightarrow> int list option) \<Rightarrow> packed_edge list \<Rightarrow> int \<Rightarrow> csr \<Rightarrow> (int \<times> csr) option" where
  "create_graph_from_edgelist alloc IJ nedge g = do {
     g \<leftarrow> find_nv IJ nedge g;
     (err, g) \<leftarrow> alloc_graph alloc g;
     if err \<noteq> 0 then Some (-1, g)
     else do {
       (err, g) \<leftarrow> setup_deg_off alloc IJ nedge g;
       if err \<noteq> 0 then Some (-1, g\<lparr>xoff := []\<rparr>)
       else do { g \<leftarrow> gather_edges IJ nedge g; Some (0, g) } } }"

section \<open>The search\<close>

text \<open>The state of the search is the tree, the queue \<open>vlist\<close> and its fill \<open>k2\<close>.\<close>

definition visit_neighbours ::
    "csr \<Rightarrow> int \<Rightarrow> int list \<times> int list \<times> int \<Rightarrow> (int list \<times> int list \<times> int) option" where
  "visit_neighbours g k = (\<lambda>(tree, vlist, k2). do {
     v \<leftarrow> aget vlist k;
     veo \<leftarrow> XENDOFF (xoff g) v;
     o1 \<leftarrow> XOFF (xoff g) v;
     for_range o1 veo (\<lambda>vo (tree, vlist, k2). do {
       j \<leftarrow> xadj_get g vo;
       t \<leftarrow> aget tree j;
       if t = -1 then do {
         tree \<leftarrow> aset tree j v;
         vlist \<leftarrow> aset vlist k2 j;
         Some (tree, vlist, k2 + 1) }
       else Some (tree, vlist, k2) }) (tree, vlist, k2) })"

definition make_bfs_tree ::
    "(int \<Rightarrow> int list option) \<Rightarrow> csr \<Rightarrow> int list \<Rightarrow> int \<Rightarrow> (int \<times> int list \<times> int) option" where
  "make_bfs_tree alloc g tree srcvtx =
     (case alloc (nv g * 8) of
        None \<Rightarrow> Some (-1, tree, maxvtx g)
      | Some vlist \<Rightarrow> do {
          tree \<leftarrow> for_range 0 (nv g) (\<lambda>k t. aset t k (-1)) tree;
          vlist \<leftarrow> aset vlist 0 srcvtx;
          tree \<leftarrow> aset tree srcvtx srcvtx;
          (_, tree, _, _) \<leftarrow> c_while
            (\<lambda>(k1, tree, vlist, k2). Some (k1 \<noteq> k2))
            (\<lambda>(k1, tree, vlist, k2). do {
               let oldk2 = k2;
               s \<leftarrow> for_range k1 oldk2 (visit_neighbours g) (tree, vlist, k2);
               Some (oldk2, s) })
            (0, tree, vlist, 1);
          Some (0, tree, maxvtx g) })"

section \<open>The layout of the offsets\<close>

text \<open>The even words of \<open>xoff\<close> are the starts, the odd ones the ends.\<close>

definition xo :: "int list \<Rightarrow> int \<Rightarrow> int" where
  "xo x v = x ! nat (2 * v)"

definition xe :: "int list \<Rightarrow> int \<Rightarrow> int" where
  "xe x v = x ! nat (1 + 2 * v)"

definition xo_put :: "int list \<Rightarrow> int \<Rightarrow> int \<Rightarrow> int list" where
  "xo_put x v a = x[nat (2 * v) := a]"

definition xe_put :: "int list \<Rightarrow> int \<Rightarrow> int \<Rightarrow> int list" where
  "xe_put x v a = x[nat (1 + 2 * v) := a]"

definition has_slots :: "int \<Rightarrow> int list \<Rightarrow> bool" where
  "has_slots n x \<longleftrightarrow> int (length x) = 2 * n + 2"

lemma slots_in [simp]:
  assumes "has_slots n x" "0 \<le> v" "v \<le> n"
  shows "XOFF x v = Some (xo x v)" "XENDOFF x v = Some (xe x v)"
    "XOFF_put x v a = Some (xo_put x v a)" "XENDOFF_put x v a = Some (xe_put x v a)"
  using assms by (simp_all add: xoff_defs xo_def xe_def xo_put_def xe_put_def has_slots_def)

lemma slots_put [simp]: "has_slots n (xo_put x v a) = has_slots n x" "has_slots n (xe_put x v a) = has_slots n x"
  by (simp_all add: xo_put_def xe_put_def has_slots_def)

lemma slots_get [simp]:
  assumes "has_slots n x" "0 \<le> v" "v \<le> n" "0 \<le> w"
  shows "xo (xo_put x v a) w = (if w = v then a else xo x w)" "xo (xe_put x v a) w = xo x w"
    "xe (xe_put x v a) w = (if w = v then a else xe x w)" "xe (xo_put x v a) w = xe x w"
proof -
  have "nat (2 * v) < length x" "nat (1 + 2 * v) < length x"
    using assms unfolding has_slots_def by linarith+
  moreover have "nat (2 * v) = nat (2 * w) \<longleftrightarrow> v = w" "nat (1 + 2 * v) = nat (1 + 2 * w) \<longleftrightarrow> v = w"
    "nat (2 * v) \<noteq> nat (1 + 2 * w)" "nat (1 + 2 * v) \<noteq> nat (2 * w)"
    using assms by (simp_all add: nat_eq_iff; presburger)+
  ultimately show "xo (xo_put x v a) w = (if w = v then a else xo x w)" "xo (xe_put x v a) w = xo x w"
    "xe (xe_put x v a) w = (if w = v then a else xe x w)" "xe (xo_put x v a) w = xe x w"
    by (auto simp: xo_def xe_def xo_put_def xe_put_def nth_list_update)
qed

section \<open>Degrees, capacities and offsets\<close>

definition incid1 :: "packed_edge \<Rightarrow> int \<Rightarrow> nat" where
  "incid1 e v = (if get_v0_from_edge e = get_v1_from_edge e then 0
     else of_bool (get_v0_from_edge e = v) + of_bool (get_v1_from_edge e = v))"

definition incid :: "packed_edge list \<Rightarrow> int \<Rightarrow> nat" where
  "incid es v = (\<Sum>e\<leftarrow>es. incid1 e v)"

definition nbr1 :: "packed_edge \<Rightarrow> int \<Rightarrow> int list" where
  "nbr1 e v =
     (let i = get_v0_from_edge e; j = get_v1_from_edge e in
      if 0 \<le> i \<and> 0 \<le> j \<and> i \<noteq> j then (if i = v then [j] else []) @ (if j = v then [i] else []) else [])"

definition nbrs :: "packed_edge list \<Rightarrow> int \<Rightarrow> int list" where
  "nbrs es v = concat (List.map (\<lambda>e. nbr1 e v) es)"

definition cap :: "packed_edge list \<Rightarrow> int \<Rightarrow> nat" where
  "cap es v = max 2 (incid es v)"

definition off :: "packed_edge list \<Rightarrow> int \<Rightarrow> nat" where
  "off es v = (\<Sum>u \<in> {0..<v}. cap es u)"

lemma incid_simps [simp]: "incid [] v = 0" "incid (es @ [e]) v = incid es v + incid1 e v"
  by (simp_all add: incid_def)

lemma nbrs_simps [simp]: "nbrs [] v = []" "nbrs (es @ fs) v = nbrs es v @ nbrs fs v" "nbrs [e] v = nbr1 e v"
  by (simp_all add: nbrs_def)

lemma nbr1_le: "length (nbr1 e v) \<le> incid1 e v"
  by (simp add: nbr1_def incid1_def Let_def)

lemma nbrs_le: "length (nbrs es v) \<le> incid es v"
proof (induction es rule: rev_induct)
  case (snoc e es)
  then show ?case using nbr1_le [of e v] by simp
qed simp

lemma nbrs_cap: "length (nbrs es v) \<le> cap es v"
  using nbrs_le [of es v] by (simp add: cap_def)

lemma off_0 [simp]: "off es 0 = 0"
  by (simp add: off_def)

lemma off_step: "0 \<le> v \<Longrightarrow> off es (v + 1) = off es v + cap es v"
proof -
  assume "0 \<le> v"
  then have "{0..<v + 1} = insert v {0..<v}" by auto
  then show ?thesis by (simp add: off_def)
qed

lemma off_mono: "u \<le> v \<Longrightarrow> off es u \<le> off es v"
  unfolding off_def by (intro sum_mono2) auto

lemma off_room: "0 \<le> u \<Longrightarrow> u < v \<Longrightarrow> off es u + cap es u \<le> off es v"
  using off_mono [of "u + 1" v es] off_step [of u es] by simp

section \<open>The offsets are computed\<close>

definition edges_below :: "int \<Rightarrow> packed_edge list \<Rightarrow> bool" where
  "edges_below n es \<longleftrightarrow> (\<forall>e \<in> set es. get_v0_from_edge e < n \<and> get_v1_from_edge e < n)"

lemma count_degree_returns:
  assumes "has_slots n x" "get_v0_from_edge e < n" "get_v1_from_edge e < n"
  shows "returns (count_degree e x) (\<lambda>y. has_slots n y \<and> (\<forall>v. 0 \<le> v \<longrightarrow> xo y v = xo x v + int (incid1 e v)))"
  using assms by (simp add: count_degree_def Let_def incid1_def)

lemma count_degrees_returns:
  assumes "has_slots n x" "edges_below n es" "\<And>v. 0 \<le> v \<Longrightarrow> v < n \<Longrightarrow> xo x v = 0"
  shows "returns (for_each count_degree es x)
    (\<lambda>y. has_slots n y \<and> (\<forall>v. 0 \<le> v \<and> v < n \<longrightarrow> xo y v = int (incid es v)))"
proof (rule returns_for_each)
  fix done1 e rest t
  assume "es = done1 @ e # rest"
    and t: "has_slots n t \<and> (\<forall>v. 0 \<le> v \<and> v < n \<longrightarrow> xo t v = int (incid done1 v))"
  then have "get_v0_from_edge e < n" "get_v1_from_edge e < n" using assms(2) by (auto simp: edges_below_def)
  then have "returns (count_degree e t) (\<lambda>y. has_slots n y \<and> (\<forall>v. 0 \<le> v \<longrightarrow> xo y v = xo t v + int (incid1 e v)))"
    using t by (intro count_degree_returns) auto
  then show "returns (count_degree e t)
      (\<lambda>y. has_slots n y \<and> (\<forall>v. 0 \<le> v \<and> v < n \<longrightarrow> xo y v = int (incid (done1 @ [e]) v)))"
    by (rule returns_mono) (use t in simp)
qed (use assms in simp)

lemma accumulate_returns:
  assumes "has_slots n x" "0 \<le> n" "\<forall>v. 0 \<le> v \<and> v < n \<longrightarrow> xo x v = int (incid es v)"
  shows "returns (for_range 0 n (\<lambda>k (x, accum). do {
       tmp \<leftarrow> XOFF x k;
       let tmp = (if tmp < MINVECT_SIZE then MINVECT_SIZE else tmp);
       x \<leftarrow> XOFF_put x k accum;
       Some (x, accum + tmp) }) (x, 0))
    (\<lambda>(y, accum). has_slots n y \<and> accum = int (off es n) \<and> (\<forall>v. 0 \<le> v \<and> v < n \<longrightarrow> xo y v = int (off es v)))"
proof (rule returns_rangeI [where I = "\<lambda>k (y, accum). has_slots n y \<and> accum = int (off es k) \<and>
      (\<forall>v. 0 \<le> v \<and> v < n \<longrightarrow> xo y v = (if v < k then int (off es v) else int (incid es v)))"])
  fix i t
  assume "0 \<le> i" "i < n" "case t of (y, accum) \<Rightarrow> has_slots n y \<and> accum = int (off es i) \<and>
      (\<forall>v. 0 \<le> v \<and> v < n \<longrightarrow> xo y v = (if v < i then int (off es v) else int (incid es v)))"
  then show "returns (case t of (x, accum) \<Rightarrow> do {
       tmp \<leftarrow> XOFF x i;
       let tmp = (if tmp < MINVECT_SIZE then MINVECT_SIZE else tmp);
       x \<leftarrow> XOFF_put x i accum;
       Some (x, accum + tmp) }) (\<lambda>(y, accum). has_slots n y \<and> accum = int (off es (i + 1)) \<and>
      (\<forall>v. 0 \<le> v \<and> v < n \<longrightarrow> xo y v = (if v < i + 1 then int (off es v) else int (incid es v))))"
    by (auto simp: Let_def off_step cap_def max_def)
qed (use assms in auto)

lemma end_offsets_returns:
  assumes "has_slots n x" "0 \<le> n"
  shows "returns (for_range 0 n (\<lambda>k x. do { o1 \<leftarrow> XOFF x k; XENDOFF_put x k o1 }) x)
    (\<lambda>y. has_slots n y \<and> (\<forall>v. 0 \<le> v \<longrightarrow> xo y v = xo x v) \<and> (\<forall>v. 0 \<le> v \<and> v < n \<longrightarrow> xe y v = xo x v))"
proof (rule returns_for_range [where I = "\<lambda>k y. has_slots n y \<and> (\<forall>v. 0 \<le> v \<longrightarrow> xo y v = xo x v) \<and>
    (\<forall>v. 0 \<le> v \<and> v < k \<longrightarrow> xe y v = xo x v)"])
qed (use assms in auto)

section \<open>The rows\<close>

text \<open>\<open>rows es n ns g\<close>: vertex \<open>v\<close> has the start and the room that the edges \<open>es\<close> give it, and its row
  currently holds \<open>ns v\<close>.\<close>

definition rows :: "packed_edge list \<Rightarrow> int \<Rightarrow> (int \<Rightarrow> int list) \<Rightarrow> csr \<Rightarrow> bool" where
  "rows es n ns g \<longleftrightarrow> nv g = n \<and> has_slots n (xoff g) \<and> length (xadjstore g) = off es n + 2 \<and>
     (\<forall>v. 0 \<le> v \<and> v < n \<longrightarrow> xo (xoff g) v = int (off es v) \<and> xe (xoff g) v = int (off es v + length (ns v)) \<and>
        length (ns v) \<le> cap es v \<and> seg (xadjstore g) (2 + off es v) (length (ns v)) = ns v)"

lemma rowsD:
  assumes "rows es n ns g"
  shows "nv g = n" "has_slots n (xoff g)" "length (xadjstore g) = off es n + 2"
    and "0 \<le> v \<Longrightarrow> v < n \<Longrightarrow> xo (xoff g) v = int (off es v)"
    and "0 \<le> v \<Longrightarrow> v < n \<Longrightarrow> xe (xoff g) v = int (off es v + length (ns v))"
    and "0 \<le> v \<Longrightarrow> v < n \<Longrightarrow> length (ns v) \<le> cap es v"
    and "0 \<le> v \<Longrightarrow> v < n \<Longrightarrow> seg (xadjstore g) (2 + off es v) (length (ns v)) = ns v"
  using assms by (simp_all add: rows_def)

text \<open>Rewriting the row of \<open>i\<close> inside its room leaves the other rows alone.\<close>

lemma rows_update:
  assumes r: "rows es n ns g" and i: "0 \<le> i" "i < n" and l: "length new \<le> cap es i"
    and st: "length st = length (xadjstore g)" "seg st (2 + off es i) (length new) = new"
      "\<And>p. p < 2 + off es i \<or> 2 + off es i + cap es i \<le> p \<Longrightarrow> st ! p = xadjstore g ! p"
    and x: "x = xe_put (xoff g) i (int (off es i + length new))"
  shows "rows es n (ns(i := new)) (g\<lparr>xoff := x, xadjstore := st\<rparr>)"
proof -
  note R = rowsD [OF r]
  have "seg st (2 + off es v) (length (ns v)) = ns v" if v: "0 \<le> v" "v < n" "v \<noteq> i" for v
  proof -
    have "seg st (2 + off es v) (length (ns v)) = seg (xadjstore g) (2 + off es v) (length (ns v))"
    proof (rule seg_cong)
      have "off es v + cap es v \<le> off es n" using off_room v by blast
      then show "2 + off es v + length (ns v) \<le> length st" using R(3) R(6) [OF v(1,2)] st(1) by simp
      show "st ! p = xadjstore g ! p" if p: "2 + off es v \<le> p" "p < 2 + off es v + length (ns v)" for p
      proof (rule st(3))
        show "p < 2 + off es i \<or> 2 + off es i + cap es i \<le> p"
          using p R(6) [OF v(1,2)] off_room [OF v(1), of i es] off_room [OF i(1), of v es] v(3) by linarith
      qed
    qed (rule st(1))
    then show ?thesis using R(7) [OF v(1,2)] by simp
  qed
  then show ?thesis
    using R i l st(1,2) unfolding rows_def x by simp
qed

lemma room_at:
  assumes "rows es n ns g" "0 \<le> i" "i < n"
  shows "2 + off es i + cap es i \<le> length (xadjstore g)"
  using rowsD(3) [OF assms(1)] off_room [OF assms(2,3), of es] by simp

lemma scatter_edge_returns:
  assumes r: "rows es n ns g" and i: "0 \<le> i" "i < n" and l: "length (ns i) < cap es i"
  shows "returns (scatter_edge i j g) (\<lambda>g'. rows es n (ns(i := ns i @ [j])) g' \<and> maxvtx g' = maxvtx g)"
proof -
  note R = rowsD [OF r]
  define a where "a = 2 + off es i"
  have at: "a + length (ns i) < length (xadjstore g)" using room_at [OF r i] l by (simp add: a_def)
  have idx: "nat (MINVECT_SIZE + int (off es i + length (ns i))) = a + length (ns i)" by (simp add: a_def nat_add_distrib)
  have "rows es n (ns(i := ns i @ [j]))
    (g\<lparr>xoff := xe_put (xoff g) i (int (off es i + length (ns i @ [j]))),
       xadjstore := (xadjstore g)[a + length (ns i) := j]\<rparr>)"
  proof (rule rows_update [OF r i])
    show "seg ((xadjstore g)[a + length (ns i) := j]) (2 + off es i) (length (ns i @ [j])) = ns i @ [j]"
      using seg_append_one [OF at, of j] R(7) [OF i] by (simp add: a_def)
    show "(xadjstore g)[a + length (ns i) := j] ! p = xadjstore g ! p"
      if "p < 2 + off es i \<or> 2 + off es i + cap es i \<le> p" for p
      using that l by (auto simp: a_def nth_list_update)
  qed (use l in simp_all)
  then show ?thesis
    using at idx R(2) R(5) [OF i] i
    by (simp add: scatter_edge_def xadj_put_def add.commute add.left_commute)
qed

lemma scatter_all_returns:
  assumes r: "rows es n (nbrs []) g" and b: "edges_below n es"
  shows "returns (for_each (\<lambda>e g. let i = get_v0_from_edge e; j = get_v1_from_edge e in
       if 0 \<le> i \<and> 0 \<le> j \<and> i \<noteq> j then do { g \<leftarrow> scatter_edge i j g; scatter_edge j i g }
       else Some g) es g)
    (\<lambda>g'. rows es n (nbrs es) g' \<and> maxvtx g' = maxvtx g)"
proof (rule returns_for_each [where I = "\<lambda>ds g'. rows es n (nbrs ds) g' \<and> maxvtx g' = maxvtx g"])
  fix done1 e rest t
  assume es: "es = done1 @ e # rest" and t: "rows es n (nbrs done1) t \<and> maxvtx t = maxvtx g"
  define i j where "i = get_v0_from_edge e" and "j = get_v1_from_edge e"
  have lt: "i < n" "j < n" using b es by (auto simp: edges_below_def i_def j_def)
  have room: "length (nbrs done1 v) + length (nbr1 e v) \<le> cap es v" for v
    using nbrs_cap [of es v] by (simp add: es nbrs_def)
  show "returns (let i = get_v0_from_edge e; j = get_v1_from_edge e in
       if 0 \<le> i \<and> 0 \<le> j \<and> i \<noteq> j then do { g \<leftarrow> scatter_edge i j t; scatter_edge j i g }
       else Some t) (\<lambda>g'. rows es n (nbrs (done1 @ [e])) g' \<and> maxvtx g' = maxvtx g)"
  proof (cases "0 \<le> i \<and> 0 \<le> j \<and> i \<noteq> j")
    case False
    then have "nbr1 e v = []" for v by (auto simp: nbr1_def i_def j_def Let_def)
    then have "nbrs (done1 @ [e]) = nbrs done1" by auto
    then show ?thesis using t False by (auto simp: Let_def i_def j_def)
  next
    case True
    have l: "length (nbrs done1 i) < cap es i" "length (nbrs done1 j) < cap es j"
      using room [of i] room [of j] True by (simp_all add: nbr1_def i_def j_def Let_def)
    have eq: "(nbrs done1)(i := nbrs done1 i @ [j], j := nbrs done1 j @ [i]) = nbrs (done1 @ [e])"
      using True by (auto simp: nbr1_def i_def j_def Let_def)
    have "returns (scatter_edge i j t \<bind> scatter_edge j i)
        (\<lambda>g'. rows es n ((nbrs done1)(i := nbrs done1 i @ [j], j := nbrs done1 j @ [i])) g' \<and> maxvtx g' = maxvtx g)"
    proof (rule returns_bindI [OF scatter_edge_returns])
      fix u assume u: "rows es n ((nbrs done1)(i := nbrs done1 i @ [j])) u \<and> maxvtx u = maxvtx t"
      then have "returns (scatter_edge j i u) (\<lambda>g'. rows es n (((nbrs done1)(i := nbrs done1 i @ [j]))
          (j := ((nbrs done1)(i := nbrs done1 i @ [j])) j @ [i])) g' \<and> maxvtx g' = maxvtx u)"
        using True lt l by (intro scatter_edge_returns) auto
      then show "returns (scatter_edge j i u)
        (\<lambda>g'. rows es n ((nbrs done1)(i := nbrs done1 i @ [j], j := nbrs done1 j @ [i])) g' \<and> maxvtx g' = maxvtx g)"
        using True t u by (auto elim: returns_mono)
    qed (use t True lt l in auto)
    then show ?thesis using True unfolding eq by (simp add: i_def [symmetric] j_def [symmetric])
  qed
qed (use r in simp)

section \<open>Packing a row\<close>

lemma c_insort_i64cmp: "c_insort i64cmp = insort"
proof (rule ext)+
  fix x ys
  show "c_insort i64cmp x ys = insort x ys" by (induction ys) (auto simp: i64cmp_def)
qed

lemma c_qsort_i64cmp [simp]: "c_qsort i64cmp xs = sort xs"
  by (simp add: c_qsort_def c_insort_i64cmp sort_key_def) 

lemma remdups_adj_snoc:
  "xs \<noteq> [] \<Longrightarrow> remdups_adj (xs @ [x]) = (if last xs = x then remdups_adj xs else remdups_adj xs @ [x])"
  by (induction xs rule: rev_induct) (auto simp: remdups_adj_append_two)

lemma distinct_remdups_adj_sorted: "sorted xs \<Longrightarrow> distinct (remdups_adj xs)"
  by (induction xs rule: remdups_adj.induct) (auto simp: order_le_less)

lemma remdups_adj_sort: "remdups_adj (sort xs) = sorted_list_of_set (set xs)"
  by (rule sorted_distinct_set_unique) (auto simp: sorted_remdups_adj distinct_remdups_adj_sorted)

text \<open>The rows outside the block of \<open>i\<close> are not touched, the block starts with \<open>front\<close>.\<close>

definition in_block :: "csr \<Rightarrow> nat \<Rightarrow> nat \<Rightarrow> int list \<Rightarrow> csr \<Rightarrow> bool" where
  "in_block g a n front h \<longleftrightarrow> (\<exists>st. h = g\<lparr>xadjstore := st\<rparr> \<and> length st = length (xadjstore g) \<and>
     (\<forall>p. p < a \<or> a + n \<le> p \<longrightarrow> st ! p = xadjstore g ! p) \<and> seg st a (length front) = front)"

lemma in_block_put_front:
  assumes "in_block g a n front h" "length front < n" "a + n \<le> length (xadjstore g)" "a = nat (MINVECT_SIZE + o1)" "0 \<le> o1"
  shows "returns (xadj_put h (o1 + int (length front)) x) (\<lambda>h'. in_block g a n (front @ [x]) h' \<and>
    (\<forall>p. p \<noteq> a + length front \<longrightarrow> xadjstore h' ! p = xadjstore h ! p))"
proof -
  obtain st where h: "h = g\<lparr>xadjstore := st\<rparr>" and l: "length st = length (xadjstore g)"
    and o: "\<And>p. p < a \<or> a + n \<le> p \<Longrightarrow> st ! p = xadjstore g ! p" and s: "seg st a (length front) = front"
    using assms(1) unfolding in_block_def by blast
  have i: "nat (MINVECT_SIZE + (o1 + int (length front))) = a + length front" using assms(4,5) by simp
  have "in_block g a n (front @ [x]) (g\<lparr>xadjstore := st[a + length front := x]\<rparr>)"
    unfolding in_block_def
  proof (intro exI conjI allI impI)
    show "seg (st[a + length front := x]) a (length (front @ [x])) = front @ [x]"
      using assms(2,3) l s by (simp add: seg_append_one)
    show "st[a + length front := x] ! p = xadjstore g ! p" if "p < a \<or> a + n \<le> p" for p
      using that o [of p] assms(2) by (auto simp: nth_list_update)
  qed (use l in simp_all)
  moreover have "nat (MINVECT_SIZE + (o1 + int (length front))) < length st" using i l assms(2,3) by simp
  ultimately show ?thesis using assms(4,5) by (simp add: xadj_put_def h i [simplified] add.assoc)
qed

lemma in_block_put_after:
  assumes "in_block g a n front h" "length front \<le> m" "m < n" "a + n \<le> length (xadjstore g)"
    "a = nat (MINVECT_SIZE + o1)" "0 \<le> o1"
  shows "returns (xadj_put h (o1 + int m) x) (in_block g a n front)"
proof -
  obtain st where h: "h = g\<lparr>xadjstore := st\<rparr>" and l: "length st = length (xadjstore g)"
    and o: "\<And>p. p < a \<or> a + n \<le> p \<Longrightarrow> st ! p = xadjstore g ! p" and s: "seg st a (length front) = front"
    using assms(1) unfolding in_block_def by blast
  have i: "nat (MINVECT_SIZE + (o1 + int m)) = a + m" using assms(5,6) by simp
  have "in_block g a n front (g\<lparr>xadjstore := st[a + m := x]\<rparr>)"
    unfolding in_block_def
  proof (intro exI conjI allI impI)
    show "seg (st[a + m := x]) a (length front) = front"
      using assms(2) s by (simp add: seg_update_out)
    show "st[a + m := x] ! p = xadjstore g ! p" if "p < a \<or> a + n \<le> p" for p
      using that o [of p] assms(3) by (auto simp: nth_list_update)
  qed (use l in simp_all)
  moreover have "nat (MINVECT_SIZE + (o1 + int m)) < length st" using i l assms(3,4) by simp
  ultimately show ?thesis using assms(5,6) by (simp add: xadj_put_def h i [simplified] add.assoc)
qed

lemma in_block_get:
  assumes "in_block g a n front h" "a + n \<le> length (xadjstore g)" "m < n" "a = nat (MINVECT_SIZE + o1)" "0 \<le> o1"
  shows "xadj_get h (o1 + int m) = Some (xadjstore h ! (a + m))"
proof -
  have "length (xadjstore h) = length (xadjstore g)" using assms(1) by (auto simp: in_block_def)
  moreover have "nat (MINVECT_SIZE + (o1 + int m)) = a + m" using assms(4,5) by simp
  ultimately show ?thesis using assms(2,3,5) assms(4) by (simp add: xadj_get_def)
qed

lemma in_block_front:
  assumes "in_block g a n front h" "a + n \<le> length (xadjstore g)" "length front \<le> n" "m < length front"
  shows "xadjstore h ! (a + m) = front ! m"
proof -
  have "seg (xadjstore h) a (length front) = front" "length (xadjstore h) = length (xadjstore g)"
    using assms(1) by (auto simp: in_block_def)
  then show ?thesis using seg_nth [of a "length front" "xadjstore h" m] assms(2-4) by simp
qed

lemma in_block_prefix:
  assumes "in_block g a n (xs @ ys) h"
  shows "in_block g a n xs h"
proof -
  have "seg st a (length xs) = xs" if "seg st a (length (xs @ ys)) = xs @ ys" for st
    using arg_cong [OF that, of "take (length xs)"] by (simp add: seg_def min_def)
  then show ?thesis using assms unfolding in_block_def by blast
qed

text \<open>The loop that drops repeated entries of the sorted block \<open>S\<close>.\<close>

lemma dedup_returns:
  assumes h: "in_block g a n S h" and n: "n = length S" "2 \<le> n" "a + n \<le> length (xadjstore g)"
    and a: "a = nat (MINVECT_SIZE + o1)" "0 \<le> o1"
  shows "returns (for_range (o1 + 1) (o1 + int n) (\<lambda>k (g, kcur). do {
         a \<leftarrow> xadj_get g k;
         b \<leftarrow> xadj_get g kcur;
         if a \<noteq> b then do { g \<leftarrow> xadj_put g (kcur + 1) a; Some (g, kcur + 1) }
         else Some (g, kcur) }) (h, o1))
    (\<lambda>(h', kcur). in_block g a n (remdups_adj S) h' \<and> kcur + 1 = o1 + int (length (remdups_adj S)))"
proof (rule returns_rangeI [where I = "\<lambda>k (h', kcur). let F = remdups_adj (take (nat (k - o1)) S) in
    in_block g a n F h' \<and> kcur + 1 = o1 + int (length F) \<and>
    (\<forall>p. nat (k - o1) \<le> p \<and> p < n \<longrightarrow> xadjstore h' ! (a + p) = S ! p)"])
  have "take (nat (o1 + 1 - o1)) S = [S ! 0]" using n by (cases S) auto
  moreover have "xadjstore h ! (a + p) = S ! p" if "p < n" for p
    using in_block_front [OF h n(3)] that n(1) by simp
  moreover have "in_block g a n [S ! 0] h"
    using h n in_block_prefix [of g a n "[S ! 0]" "tl S" h] by (cases S) auto
  ultimately show "case (h, o1) of (h', kcur) \<Rightarrow> let F = remdups_adj (take (nat (o1 + 1 - o1)) S) in
    in_block g a n F h' \<and> kcur + 1 = o1 + int (length F) \<and>
    (\<forall>p. nat (o1 + 1 - o1) \<le> p \<and> p < n \<longrightarrow> xadjstore h' ! (a + p) = S ! p)"
    by simp
next
  fix k t
  assume k: "o1 + 1 \<le> k" "k < o1 + int n" and "case t of (h', kcur) \<Rightarrow> let F = remdups_adj (take (nat (k - o1)) S) in
    in_block g a n F h' \<and> kcur + 1 = o1 + int (length F) \<and>
    (\<forall>p. nat (k - o1) \<le> p \<and> p < n \<longrightarrow> xadjstore h' ! (a + p) = S ! p)"
  moreover define m where "m = nat (k - o1)"
  moreover define F where "F = remdups_adj (take m S)"
  moreover obtain u kcur where tu: "t = (u, kcur)" by (cases t)
  ultimately have u: "in_block g a n F u" "kcur + 1 = o1 + int (length F)"
      "\<And>p. m \<le> p \<Longrightarrow> p < n \<Longrightarrow> xadjstore u ! (a + p) = S ! p"
    by (auto simp: Let_def)
  have m: "k = o1 + int m" "1 \<le> m" "m < n" "nat (k + 1 - o1) = Suc m" using k by (auto simp: m_def)
  have ne: "take m S \<noteq> []" using m n by auto
  have Fl: "1 \<le> length F" "length F \<le> m"
    using ne remdups_adj_length_ge1 [OF ne] remdups_adj_length [of "take m S"] m by (simp_all add: F_def)
  have snoc: "remdups_adj (take (Suc m) S) = (if last F = S ! m then F else F @ [S ! m])"
    using remdups_adj_snoc [OF ne, of "S ! m"] m n by (simp add: take_Suc_conv_app_nth F_def)
  have ga: "xadj_get u k = Some (S ! m)"
    using in_block_get [OF u(1) n(3) m(3) a] u(3) [of m] m by simp
  have "kcur = o1 + int (length F - 1)" using u(2) Fl by linarith
  then have "xadj_get u kcur = Some (xadjstore u ! (a + (length F - 1)))"
    using in_block_get [OF u(1) n(3) _ a, of "length F - 1"] Fl m by simp
  also have "xadjstore u ! (a + (length F - 1)) = last F"
    using in_block_front [OF u(1) n(3), of "length F - 1"] Fl m by (cases "F = []") (simp_all add: last_conv_nth)
  finally have gb: "xadj_get u kcur = Some (last F)" .
  show "returns (case t of (g, kcur) \<Rightarrow> do {
         a \<leftarrow> xadj_get g k;
         b \<leftarrow> xadj_get g kcur;
         if a \<noteq> b then do { g \<leftarrow> xadj_put g (kcur + 1) a; Some (g, kcur + 1) }
         else Some (g, kcur) })
    (\<lambda>(h', kcur). let F = remdups_adj (take (nat (k + 1 - o1)) S) in
    in_block g a n F h' \<and> kcur + 1 = o1 + int (length F) \<and>
    (\<forall>p. nat (k + 1 - o1) \<le> p \<and> p < n \<longrightarrow> xadjstore h' ! (a + p) = S ! p))"
  proof (cases "last F = S ! m")
    case True
    then show ?thesis using u m snoc by (simp add: tu ga [unfolded m(1)] gb Let_def)
  next
    case False
    have "length F < n" using Fl m by simp
    from in_block_put_front [OF u(1) this n(3) a, of "S ! m"] show ?thesis
      using False u(2,3) Fl m by (simp add: tu ga [unfolded m(1)] gb snoc Let_def) (erule returns_mono, auto)
  qed
qed (use n a in \<open>auto simp: Let_def\<close>)

text \<open>The loop that clears the rest of the block.\<close>

lemma clear_returns:
  assumes "in_block g a n F h" "length F \<le> n" "a + n \<le> length (xadjstore g)"
    and a: "a = nat (MINVECT_SIZE + o1)" "0 \<le> o1"
  shows "returns (for_range (o1 + int (length F)) (o1 + int n) (\<lambda>k g. xadj_put g k (-1)) h) (in_block g a n F)"
proof (rule returns_rangeI [where I = "\<lambda>_. in_block g a n F"])
  fix k t
  assume k: "o1 + int (length F) \<le> k" "k < o1 + int n" and t: "in_block g a n F t"
  then obtain m where m: "k = o1 + int m" by (metis add.commute diff_add_cancel le_add_same_cancel1 of_nat_0_le_iff order_trans zle_iff_zadd)
  show "returns (xadj_put t k (-1)) (in_block g a n F)"
    unfolding m by (rule in_block_put_after [OF t _ _ assms(3) a]) (use k m in simp_all)
qed (use assms in simp_all)

lemma rows_of_block:
  assumes r: "rows es n ns g" and i: "0 \<le> i" "i < n" and b: "in_block g (2 + off es i) (length (ns i)) new h"
    and l: "length new \<le> length (ns i)"
  shows "rows es n (ns(i := new)) (h\<lparr>xoff := xe_put (xoff g) i (int (off es i + length new))\<rparr>)"
proof -
  obtain st where h: "h = g\<lparr>xadjstore := st\<rparr>" and st: "length st = length (xadjstore g)"
    "\<And>p. p < 2 + off es i \<or> 2 + off es i + length (ns i) \<le> p \<Longrightarrow> st ! p = xadjstore g ! p"
    "seg st (2 + off es i) (length new) = new"
    using b unfolding in_block_def by blast
  have c: "length (ns i) \<le> cap es i" using rowsD(6) [OF r i] .
  have "rows es n (ns(i := new))
      (g\<lparr>xoff := xe_put (xoff g) i (int (off es i + length new)), xadjstore := st\<rparr>)"
    by (rule rows_update [OF r i _ st(1,3) st(2) refl]) (use l c in auto)
  also have "g\<lparr>xoff := xe_put (xoff g) i (int (off es i + length new)), xadjstore := st\<rparr> =
      h\<lparr>xoff := xe_put (xoff g) i (int (off es i + length new))\<rparr>"
    unfolding h by simp
  finally show ?thesis .
qed

lemma qsort_block:
  assumes "seg (xadjstore g) a n = xs" "a + n \<le> length (xadjstore g)"
  shows "qsort_range i64cmp (xadjstore g) (int a) (int n) =
      Some (take a (xadjstore g) @ sort xs @ drop (a + n) (xadjstore g))"
    and "in_block g a n (sort xs) (g\<lparr>xadjstore := take a (xadjstore g) @ sort xs @ drop (a + n) (xadjstore g)\<rparr>)"
proof -
  have l: "length xs = n" and mn: "min (length (xadjstore g)) a = a" using assms by auto
  show "qsort_range i64cmp (xadjstore g) (int a) (int n) =
      Some (take a (xadjstore g) @ sort xs @ drop (a + n) (xadjstore g))"
    using assms by (simp add: qsort_range_def)
  show "in_block g a n (sort xs) (g\<lparr>xadjstore := take a (xadjstore g) @ sort xs @ drop (a + n) (xadjstore g)\<rparr>)"
    unfolding in_block_def
  proof (intro exI conjI allI impI)
    show "(take a (xadjstore g) @ sort xs @ drop (a + n) (xadjstore g)) ! p = xadjstore g ! p"
      if "p < a \<or> a + n \<le> p" for p
      using that assms(2) l by (auto simp: nth_append mn)
    show "seg (take a (xadjstore g) @ sort xs @ drop (a + n) (xadjstore g)) a (length (sort xs)) = sort xs"
      using assms(2) l by (simp add: seg_def mn)
  qed (use assms(2) l mn in simp_all)
qed

lemma pack_vtx_returns:
  assumes r: "rows es n ns g" and i: "0 \<le> i" "i < n"
  shows "returns (pack_vtx_edges i g)
    (\<lambda>g'. rows es n (ns(i := sorted_list_of_set (set (ns i)))) g' \<and> maxvtx g' = maxvtx g)"
proof (cases "length (ns i) \<le> 1")
  case True
  then have "sorted_list_of_set (set (ns i)) = ns i" by (cases "ns i") auto
  then have "ns(i := sorted_list_of_set (set (ns i))) = ns" by simp
  then show ?thesis using rowsD [OF r] i r True by (simp add: pack_vtx_edges_def)
next
  case False
  note R = rowsD [OF r]
  define a o1 N S where "a = 2 + off es i" and "o1 = int (off es i)" and "N = length (ns i)" and "S = sort (ns i)"
  have a: "a = nat (MINVECT_SIZE + o1)" "0 \<le> o1" by (simp_all add: a_def o1_def nat_add_distrib)
  have ai: "MINVECT_SIZE + o1 = int a" by (simp add: a_def o1_def)
  have room: "a + N \<le> length (xadjstore g)"
    using room_at [OF r i] R(6) [OF i] by (simp add: a_def N_def)
  have N: "N = length S" "2 \<le> N" using False by (simp_all add: N_def S_def)
  have sN: "seg (xadjstore g) a N = ns i" using R(7) [OF i] by (simp add: a_def N_def)
  note q = qsort_block [OF sN room, folded S_def]
  let ?g1 = "g\<lparr>xadjstore := take a (xadjstore g) @ S @ drop (a + N) (xadjstore g)\<rparr>"
  obtain h kcur where d: "for_range (o1 + 1) (o1 + int N) (\<lambda>k (g, kcur). do {
         a \<leftarrow> xadj_get g k;
         b \<leftarrow> xadj_get g kcur;
         if a \<noteq> b then do { g \<leftarrow> xadj_put g (kcur + 1) a; Some (g, kcur + 1) }
         else Some (g, kcur) }) (?g1, o1) = Some (h, kcur)"
    and h: "in_block g a N (remdups_adj S) h" "kcur + 1 = o1 + int (length (remdups_adj S))"
    using dedup_returns [OF q(2) N room a] by (auto simp: returns_iff)
  have le: "length (remdups_adj S) \<le> N" using N by simp
  obtain h' where c: "for_range (kcur + 1) (o1 + int N) (\<lambda>k g. xadj_put g k (-1)) h = Some h'"
    and h': "in_block g a N (remdups_adj S) h'"
    using clear_returns [OF h(1) le room a] unfolding h(2) by (rule returnsE)
  have x: "xoff h' = xoff g" "maxvtx h' = maxvtx g" using h' by (auto simp: in_block_def)
  have "rows es n (ns(i := remdups_adj S)) (h'\<lparr>xoff := xe_put (xoff g) i (int (off es i + length (remdups_adj S)))\<rparr>)"
    using rows_of_block [OF r i] h' le by (simp add: a_def N_def)
  moreover have "XOFF (xoff g) i = Some o1" "XENDOFF (xoff g) i = Some (o1 + int N)"
    using R(2) R(4,5) [OF i] i by (simp_all add: o1_def N_def)
  moreover have "int (off es i + length (remdups_adj S)) = kcur + 1" using h(2) by (simp add: o1_def)
  ultimately show ?thesis
    using d c N q(1) R(2) i x by (simp add: pack_vtx_edges_def ai [simplified] remdups_adj_sort [symmetric] S_def [symmetric])
qed

lemma pack_edges_returns:
  assumes r: "rows es n ns g" and n: "0 \<le> n"
  shows "returns (pack_edges g)
    (\<lambda>g'. rows es n (\<lambda>v. if 0 \<le> v \<and> v < n then sorted_list_of_set (set (ns v)) else ns v) g' \<and> maxvtx g' = maxvtx g)"
proof -
  let ?done = "\<lambda>k v. if 0 \<le> v \<and> v < k then sorted_list_of_set (set (ns v)) else ns v"
  have "returns (for_range 0 n pack_vtx_edges g) (\<lambda>g'. rows es n (?done n) g' \<and> maxvtx g' = maxvtx g)"
  proof (rule returns_for_range [where I = "\<lambda>k g'. rows es n (?done k) g' \<and> maxvtx g' = maxvtx g"])
    fix i t
    assume i: "0 \<le> i" "i < n" and t: "rows es n (?done i) t \<and> maxvtx t = maxvtx g"
    have "(?done i)(i := sorted_list_of_set (set (?done i i))) = ?done (i + 1)" using i by (intro ext) auto
    then show "returns (pack_vtx_edges i t) (\<lambda>g'. rows es n (?done (i + 1)) g' \<and> maxvtx g' = maxvtx g)"
      using pack_vtx_returns [of es n "?done i" t i] i t by (auto elim: returns_mono)
  next
    have "?done 0 = ns" by (intro ext) auto
    then show "rows es n (?done 0) g \<and> maxvtx g = maxvtx g" using r by simp
  qed (rule n)
  then show ?thesis using rowsD(1) [OF r] by (simp add: pack_edges_def)
qed

section \<open>The number of vertices\<close>

definition max_endpoint :: "packed_edge list \<Rightarrow> int" where
  "max_endpoint es = fold (\<lambda>e m. max (max m (get_v0_from_edge e)) (get_v1_from_edge e)) es (-1)"

lemma max_endpoint_snoc:
  "max_endpoint (es @ [e]) = max (max (max_endpoint es) (get_v0_from_edge e)) (get_v1_from_edge e)"
  by (simp add: max_endpoint_def)

lemma max_endpoint_ge:
  "-1 \<le> max_endpoint es" "e \<in> set es \<Longrightarrow> get_v0_from_edge e \<le> max_endpoint es \<and> get_v1_from_edge e \<le> max_endpoint es"
proof -
  show "-1 \<le> max_endpoint es"
    by (induction es rule: rev_induct) (auto simp: max_endpoint_snoc, simp add: max_endpoint_def)
  show "e \<in> set es \<Longrightarrow> get_v0_from_edge e \<le> max_endpoint es \<and> get_v1_from_edge e \<le> max_endpoint es"
    by (induction es rule: rev_induct) (auto simp: max_endpoint_snoc)
qed

lemma edges_below_max: "edges_below (1 + max_endpoint es) es"
  using max_endpoint_ge(2) by (fastforce simp: edges_below_def)

lemma max_loop_eq:
  "for_range 0 (int (length es)) (\<lambda>k m. do {
       e \<leftarrow> aget es k;
       let m = (if m < get_v0_from_edge e then get_v0_from_edge e else m);
       let m = (if m < get_v1_from_edge e then get_v1_from_edge e else m);
       Some m }) (-1) = Some (max_endpoint es)"
  unfolding for_range_list Let_def for_each_pure max_endpoint_def
  by (intro arg_cong [where f = Some] fold_cong) (auto simp: max_def)

lemma find_nv_eq:
  "find_nv es (int (length es)) g =
     i64 (1 + max_endpoint es) \<bind> (\<lambda>n. Some (g\<lparr>maxvtx := max_endpoint es, nv := n\<rparr>))"
  by (simp only: find_nv_def max_loop_eq bind.bind_lunit)

section \<open>The graph is built\<close>

definition alloc_ok :: "(int \<Rightarrow> int list option) \<Rightarrow> bool" where
  "alloc_ok alloc \<longleftrightarrow> (\<forall>bytes block. 0 \<le> bytes \<longrightarrow> alloc bytes = Some block \<longrightarrow> int (length block) = bytes div 8)"

lemma setup_deg_off_returns:
  assumes alloc: "alloc_ok alloc" and x: "has_slots n (xoff g)" and n: "nv g = n" "0 \<le> n" and b: "edges_below n es"
  shows "returns (setup_deg_off alloc es (int (length es)) g) (\<lambda>(err, g').
    maxvtx g' = maxvtx g \<and> (err = 0 \<and> rows es n (nbrs []) g' \<or> err = -1 \<and> (\<exists>bytes. alloc bytes = None)))"
proof -
  have "returns (for_range 0 (2 * n + 2) (\<lambda>k x. aset x k 0) (xoff g)) (\<lambda>x. has_slots n x \<and> (\<forall>v. 0 \<le> v \<and> v < n \<longrightarrow> xo x v = 0))"
    by (rule returns_mono [OF fill_returns]) (use x n in \<open>auto simp: has_slots_def xo_def\<close>)
  then obtain x1 where x1: "for_range 0 (2 * n + 2) (\<lambda>k x. aset x k 0) (xoff g) = Some x1"
    "has_slots n x1" "\<And>v. 0 \<le> v \<Longrightarrow> v < n \<Longrightarrow> xo x1 v = 0" by (auto elim: returnsE)
  obtain x2 where x2: "for_each count_degree es x1 = Some x2"
    "has_slots n x2" "\<forall>v. 0 \<le> v \<and> v < n \<longrightarrow> xo x2 v = int (incid es v)"
    using count_degrees_returns [OF x1(2) b x1(3)] by (auto elim: returnsE)
  obtain x3 where x3: "for_range 0 n (\<lambda>k (x, accum). do {
       tmp \<leftarrow> XOFF x k;
       let tmp = (if tmp < MINVECT_SIZE then MINVECT_SIZE else tmp);
       x \<leftarrow> XOFF_put x k accum;
       Some (x, accum + tmp) }) (x2, 0) = Some (x3, int (off es n))"
    "has_slots n x3" "\<And>v. 0 \<le> v \<Longrightarrow> v < n \<Longrightarrow> xo x3 v = int (off es v)"
    using accumulate_returns [OF x2(2) n(2) x2(3)] by (rule returnsE) (auto split: prod.splits)
  have p: "XOFF_put x3 n (int (off es n)) = Some (xo_put x3 n (int (off es n)))"
    "has_slots n (xo_put x3 n (int (off es n)))" using x3(2) n by simp_all
  obtain x4 where x4: "for_range 0 n (\<lambda>k x. do { o1 \<leftarrow> XOFF x k; XENDOFF_put x k o1 }) (xo_put x3 n (int (off es n))) = Some x4"
    "has_slots n x4" "\<And>v. 0 \<le> v \<Longrightarrow> v < n \<Longrightarrow> xo x4 v = int (off es v) \<and> xe x4 v = int (off es v)"
    using end_offsets_returns [OF p(2) n(2)] x3(2,3) n by (auto elim!: returnsE)
  have "returns (case alloc ((int (off es n) + MINVECT_SIZE) * 8) of
       None \<Rightarrow> Some (-1, g\<lparr>xoff := x4, xadjstore := []\<rparr>)
     | Some block \<Rightarrow> do {
         block \<leftarrow> for_range 0 (int (off es n) + MINVECT_SIZE) (\<lambda>k b. aset b k (-1)) block;
         Some (0, g\<lparr>xoff := x4, xadjstore := block\<rparr>) }) (\<lambda>(err, g').
    maxvtx g' = maxvtx g \<and> (err = 0 \<and> rows es n (nbrs []) g' \<or> err = -1 \<and> (\<exists>bytes. alloc bytes = None)))"
  proof (cases "alloc ((int (off es n) + MINVECT_SIZE) * 8)")
    case None
    then show ?thesis by auto
  next
    case (Some block)
    moreover have "0 \<le> (int (off es n) + MINVECT_SIZE) * 8" by simp
    ultimately have "int (length block) = (int (off es n) + MINVECT_SIZE) * 8 div 8"
      using alloc unfolding alloc_ok_def by blast
    then have l: "length block = off es n + 2" by simp
    then obtain st where "for_range 0 (int (off es n) + MINVECT_SIZE) (\<lambda>k b. aset b k (-1)) block = Some st"
      "length st = off es n + 2"
      using fill_returns [of "int (off es n) + MINVECT_SIZE" block "-1"] by (auto elim!: returnsE simp: nat_add_distrib)
    then show ?thesis
      using x4 n Some by (simp add: rows_def)
  qed
  then show ?thesis
    using x1 x2 x3 p x4 by (simp add: setup_deg_off_def n for_range_list)
qed

section \<open>Construction\<close>

definition edge_rel :: "packed_edge list \<Rightarrow> (int \<times> int) set" where
  "edge_rel es = {(i, j). 0 \<le> i \<and> 0 \<le> j \<and> i \<noteq> j \<and>
     (\<exists>e \<in> set es. get_v0_from_edge e = i \<and> get_v1_from_edge e = j \<or> get_v0_from_edge e = j \<and> get_v1_from_edge e = i)}"

definition neighbours :: "csr \<Rightarrow> int \<Rightarrow> int list" where
  "neighbours g v = seg (xadjstore g) (nat (MINVECT_SIZE + xo (xoff g) v)) (nat (xe (xoff g) v - xo (xoff g) v))"

definition csr_of :: "packed_edge list \<Rightarrow> csr \<Rightarrow> bool" where
  "csr_of es g \<longleftrightarrow> maxvtx g = max_endpoint es \<and> nv g = 1 + max_endpoint es \<and>
     rows es (nv g) (\<lambda>v. sorted_list_of_set {w. (v, w) \<in> edge_rel es}) g"

interpretation edges: graph "edge_rel es" "1 + max_endpoint es" for es
proof
  fix u w assume "(u, w) \<in> edge_rel es"
  then show "0 \<le> u \<and> u < 1 + max_endpoint es \<and> 0 \<le> w \<and> w < 1 + max_endpoint es"
    using edges_below_max [of es] by (auto simp: edge_rel_def edges_below_def)
next
  fix u w assume "(u, w) \<in> edge_rel es"
  then show "(w, u) \<in> edge_rel es" by (auto simp: edge_rel_def)
qed

lemma set_nbrs: "0 \<le> v \<Longrightarrow> set (nbrs es v) = {w. (v, w) \<in> edge_rel es}"
  by (auto simp: nbrs_def nbr1_def edge_rel_def Let_def split: if_splits)

lemma finite_succ [simp]: "finite {w. (v, w) \<in> edge_rel es}"
proof -
  have "{w. (v, w) \<in> edge_rel es} \<subseteq> {0..<1 + max_endpoint es}" using edges.in_range by force
  then show ?thesis by (rule finite_subset) simp
qed

lemma neighbours_eq:
  assumes "csr_of es g" "0 \<le> v" "v < nv g"
  shows "neighbours g v = sorted_list_of_set {w. (v, w) \<in> edge_rel es}"
proof -
  have r: "rows es (nv g) (\<lambda>v. sorted_list_of_set {w. (v, w) \<in> edge_rel es}) g" using assms(1) unfolding csr_of_def by blast
  show ?thesis
    using rowsD(4,5,7) [OF r assms(2,3)] by (simp add: neighbours_def nat_add_distrib)
qed

lemma rows_cong: "(\<And>v. 0 \<le> v \<Longrightarrow> v < n \<Longrightarrow> ns v = ws v) \<Longrightarrow> rows es n ns g = rows es n ws g"
  unfolding rows_def by auto

lemma create_graph_returns:
  assumes alloc: "alloc_ok alloc" and m: "max_endpoint es < 2 ^ 58"
  shows "returns (create_graph_from_edgelist alloc es (int (length es)) g) (\<lambda>(err, g').
    err = 0 \<and> csr_of es g' \<or> err = -1 \<and> (\<exists>bytes. alloc bytes = None))"
proof -
  define n where "n = 1 + max_endpoint es"
  have n: "0 \<le> n" "n \<le> 2 ^ 58" "max_endpoint es = n - 1" using max_endpoint_ge(1) [of es] m by (simp_all add: n_def)
  let ?g1 = "g\<lparr>maxvtx := n - 1, nv := n\<rparr>"
  have f: "find_nv es (int (length es)) g = Some ?g1" using n by (simp add: find_nv_eq)
  have s: "to_i64 ((2 * n + 2) * 8) = (2 * n + 2) * 8" "i64 (2 * n + 2) = Some (2 * n + 2)" using n by simp_all
  show ?thesis
  proof (cases "alloc ((2 * n + 2) * 8)")
    case None
    then show ?thesis using f s by (auto simp: create_graph_from_edgelist_def alloc_graph_def)
  next
    case (Some block)
    moreover have "0 \<le> (2 * n + 2) * 8" using n by simp
    ultimately have "int (length block) = (2 * n + 2) * 8 div 8" using alloc unfolding alloc_ok_def by blast
    then have l: "has_slots n block" by (simp add: has_slots_def)
    let ?g2 = "?g1\<lparr>sz := (2 * n + 2) * 8, xoff := block\<rparr>"
    have g2: "has_slots n (xoff ?g2)" "nv ?g2 = n" using l by simp_all
    have a: "alloc_graph alloc ?g1 = Some (0, ?g2)" using Some s by (simp add: alloc_graph_def)
    have b: "edges_below n es" using edges_below_max [of es] n by simp
    obtain err g3 where g3: "setup_deg_off alloc es (int (length es)) ?g2 = Some (err, g3)"
        "maxvtx g3 = n - 1" "err = 0 \<and> rows es n (nbrs []) g3 \<or> err = -1 \<and> (\<exists>bytes. alloc bytes = None)"
      by (rule returnsE [OF setup_deg_off_returns [OF alloc g2 n(1) b]]) auto
    show ?thesis
    proof (cases "err = 0")
      case False
      then show ?thesis using f a g3 by (auto simp: create_graph_from_edgelist_def)
    next
      case True
      then have r: "rows es n (nbrs []) g3" using g3(3) by simp
      have "returns (gather_edges es (int (length es)) g3) (csr_of es)"
        unfolding gather_edges_def for_range_list
      proof (rule returns_bindI [OF scatter_all_returns [OF r b]])
        fix h assume h: "rows es n (nbrs es) h \<and> maxvtx h = maxvtx g3"
        show "returns (pack_edges h) (csr_of es)"
        proof (rule returns_mono [OF pack_edges_returns [OF _ n(1)]])
          show "rows es n (nbrs es) h" using h by simp
          fix u assume u: "rows es n (\<lambda>v. if 0 \<le> v \<and> v < n then sorted_list_of_set (set (nbrs es v)) else nbrs es v) u \<and>
            maxvtx u = maxvtx h"
          have "rows es n (\<lambda>v. sorted_list_of_set {w. (v, w) \<in> edge_rel es}) u"
            using u by (simp add: set_nbrs cong: rows_cong)
          moreover from this have "nv u = n" by (rule rowsD(1))
          ultimately show "csr_of es u" using u h g3(2) n by (simp add: csr_of_def)
        qed
      qed
      then obtain h where h: "gather_edges es (int (length es)) g3 = Some h" "csr_of es h" by (rule returnsE)
      then show ?thesis using f a g3 True by (simp add: create_graph_from_edgelist_def)
    qed
  qed
qed

section \<open>Search\<close>

text \<open>The state of the search: the filled part of \<open>vlist\<close> is the queue.\<close>

definition searching :: "packed_edge list \<Rightarrow> int \<Rightarrow> nat \<Rightarrow> nat \<Rightarrow> int set \<Rightarrow> int list \<times> int list \<times> int \<Rightarrow> bool" where
  "searching es r L k N = (\<lambda>(tree, vlist, k2). 0 \<le> k2 \<and> int (length vlist) = 1 + max_endpoint es \<and>
     k2 \<le> int (length vlist) \<and> length tree = L \<and>
     (\<exists>d. bfs_inv (edge_rel es) (1 + max_endpoint es) r d (take (nat k2) vlist) k N tree))"

lemma visit_one:
  assumes s: "searching es r L k N (tree, vlist, k2)" and k: "int k < k2" and j: "(vlist ! k, j) \<in> edge_rel es"
  shows "returns (do {
       t \<leftarrow> aget tree j;
       if t = -1 then do {
         tree \<leftarrow> aset tree j (vlist ! k);
         vlist \<leftarrow> aset vlist k2 j;
         Some (tree, vlist, k2 + 1) }
       else Some (tree, vlist, k2) })
    (\<lambda>(tree', vlist', k2'). searching es r L k (insert j N) (tree', vlist', k2') \<and> k2 \<le> k2' \<and> vlist' ! k = vlist ! k)"
proof -
  let ?n = "1 + max_endpoint es" and ?q = "take (nat k2) vlist"
  obtain d where inv: "bfs_inv (edge_rel es) ?n r d ?q k N tree"
    and l: "0 \<le> k2" "int (length vlist) = ?n" "k2 \<le> int (length vlist)" "length tree = L"
    using s by (auto simp: searching_def)
  have q: "?q ! k = vlist ! k" "k < length ?q" "int (length ?q) = k2" using k l by auto
  have j': "(?q ! k, j) \<in> edge_rel es" using j q by simp
  have jr: "0 \<le> j" "j < int (length tree)"
    using edges.in_range [OF j] bfs_invD(1) [OF inv] by linarith+
  show ?thesis
  proof (cases "tree ! nat j = -1")
    case False
    then have "searching es r L k (insert j N) (tree, vlist, k2)"
      using edges.bfs_seen [OF inv j'] l by (auto simp: searching_def)
    then show ?thesis using jr False by simp
  next
    case True
    have room: "k2 < int (length vlist)" using edges.bfs_room [OF inv q(2) j' True] q(3) l(2) by simp
    have "take (nat (k2 + 1)) (vlist[nat k2 := j]) = ?q @ [j]"
    proof -
      have "nat (k2 + 1) = Suc (nat k2)" "nat k2 < length vlist" using l(1) room by auto
      then show ?thesis by (simp add: take_Suc_conv_app_nth)
    qed
    then have "searching es r L k (insert j N) (tree[nat j := vlist ! k], vlist[nat k2 := j], k2 + 1)"
      using edges.bfs_new [OF inv q(2) j' True] l room unfolding q(1) by (auto simp: searching_def)
    moreover have "vlist[nat k2 := j] ! k = vlist ! k" using k by (simp add: nth_list_update)
    ultimately show ?thesis using jr True room l(1) by simp
  qed
qed

lemma visit_neighbours_returns:
  assumes g: "csr_of es g" and s: "searching es r L k {} (tree, vlist, k2)" and k: "int k < k2"
  shows "returns (visit_neighbours g (int k) (tree, vlist, k2))
    (\<lambda>(tree', vlist', k2'). searching es r L (Suc k) {} (tree', vlist', k2') \<and> k2 \<le> k2')"
proof -
  define v where "v = vlist ! k"
  define ws where "ws = sorted_list_of_set {w. (v, w) \<in> edge_rel es}"
  have l: "int (length vlist) = nv g" "k2 \<le> nv g" "nv g = 1 + max_endpoint es"
    using s g by (auto simp: searching_def csr_of_def)
  have v: "0 \<le> v" "v < nv g"
  proof -
    obtain d where inv: "bfs_inv (edge_rel es) (nv g) r d (take (nat k2) vlist) k {} tree"
      using s l(3) by (auto simp: searching_def)
    have "v \<in> set (take (nat k2) vlist)"
      unfolding v_def using k l by (metis in_set_conv_nth length_take min_less_iff_conj nth_take of_nat_less_iff
        zless_nat_eq_int_zless order_less_le_trans)
    then show "0 \<le> v" "v < nv g" using bfs_invD(7) [OF inv] by auto
  qed
  have r: "rows es (nv g) (\<lambda>v. sorted_list_of_set {w. (v, w) \<in> edge_rel es}) g" using g unfolding csr_of_def by blast
  note R = rowsD(2,3) [OF r] rowsD(4,5,7) [OF r v, folded ws_def] 
  have x: "XENDOFF (xoff g) v = Some (int (off es v + length ws))" "XOFF (xoff g) v = Some (int (off es v))"
    using R v by simp_all
  have get: "xadj_get g (int (off es v) + int m) = Some (ws ! m)" if "m < length ws" for m
  proof -
    have c: "2 + off es v + length ws \<le> length (xadjstore g)"
      using room_at [OF r v] rowsD(6) [OF r v] by (simp add: ws_def)
    then have "xadjstore g ! (2 + off es v + m) = ws ! m" using R(5) that seg_nth by metis
    moreover have "nat (MINVECT_SIZE + (int (off es v) + int m)) = 2 + off es v + m" by simp
    ultimately show ?thesis using that c by (simp add: xadj_get_def)
  qed
  have "returns (for_range (int (off es v)) (int (off es v + length ws)) (\<lambda>vo (tree, vlist, k2). do {
       j \<leftarrow> xadj_get g vo;
       t \<leftarrow> aget tree j;
       if t = -1 then do {
         tree \<leftarrow> aset tree j v;
         vlist \<leftarrow> aset vlist k2 j;
         Some (tree, vlist, k2 + 1) }
       else Some (tree, vlist, k2) }) (tree, vlist, k2))
    (\<lambda>(tree', vlist', k2'). searching es r L (Suc k) {} (tree', vlist', k2') \<and> k2 \<le> k2')"
  proof (rule returns_rangeI [where I = "\<lambda>vo (tree', vlist', k2').
      searching es r L k (set (take (nat (vo - int (off es v))) ws)) (tree', vlist', k2') \<and> k2 \<le> k2' \<and> vlist' ! k = v"])
    show "case (tree, vlist, k2) of (tree', vlist', k2') \<Rightarrow>
      searching es r L k (set (take (nat (int (off es v) - int (off es v))) ws)) (tree', vlist', k2') \<and> k2 \<le> k2' \<and> vlist' ! k = v"
      using s by (simp add: v_def)
  next
    fix vo t
    assume vo: "int (off es v) \<le> vo" "vo < int (off es v + length ws)" and "case t of (tree', vlist', k2') \<Rightarrow>
      searching es r L k (set (take (nat (vo - int (off es v))) ws)) (tree', vlist', k2') \<and> k2 \<le> k2' \<and> vlist' ! k = v"
    moreover define m where "m = nat (vo - int (off es v))"
    moreover obtain tr vl kk where t: "t = (tr, vl, kk)" by (cases t)
    ultimately have st: "searching es r L k (set (take m ws)) (tr, vl, kk)" "k2 \<le> kk" "vl ! k = v"
      and m: "vo = int (off es v) + int m" "m < length ws" by auto
    have "ws ! m \<in> set ws" using m by simp
    then have "(v, ws ! m) \<in> edge_rel es" by (simp add: ws_def)
    then have e: "(vl ! k, ws ! m) \<in> edge_rel es" using st by simp
    have i: "insert (ws ! m) (set (take m ws)) = set (take (nat (vo + 1 - int (off es v))) ws)"
      using m by (simp add: take_Suc_conv_app_nth nat_add_distrib)
    show "returns (case t of (tree, vlist, k2) \<Rightarrow> do {
       j \<leftarrow> xadj_get g vo;
       t \<leftarrow> aget tree j;
       if t = -1 then do {
         tree \<leftarrow> aset tree j v;
         vlist \<leftarrow> aset vlist k2 j;
         Some (tree, vlist, k2 + 1) }
       else Some (tree, vlist, k2) })
     (\<lambda>(tree', vlist', k2'). searching es r L k (set (take (nat (vo + 1 - int (off es v))) ws)) (tree', vlist', k2') \<and>
       k2 \<le> k2' \<and> vlist' ! k = v)"
      unfolding t m(1) prod.case get [OF m(2)] bind.bind_lunit
      by (rule returns_mono [OF visit_one [OF st(1) _ e, unfolded st(3) i]]) (use k st(2) m(1) in auto)
  next
    fix t assume "case t of (tree', vlist', k2') \<Rightarrow>
      searching es r L k (set (take (nat (int (off es v + length ws) - int (off es v))) ws)) (tree', vlist', k2') \<and>
      k2 \<le> k2' \<and> vlist' ! k = v"
    then obtain tr vl kk d where t: "t = (tr, vl, kk)" "k2 \<le> kk" "vl ! k = v" "length tr = L" "0 \<le> kk"
        "int (length vl) = 1 + max_endpoint es" "kk \<le> int (length vl)"
      and inv: "bfs_inv (edge_rel es) (1 + max_endpoint es) r d (take (nat kk) vl) k (set ws) tr"
      by (auto simp: searching_def)
    have q: "take (nat kk) vl ! k = v" "k < length (take (nat kk) vl)" using t k by auto
    have "w \<in> set ws" if "(take (nat kk) vl ! k, w) \<in> edge_rel es" for w
      using that by (simp add: q(1) ws_def)
    from edges.bfs_finish_vertex [OF inv q(2) this]
    show "case t of (tree', vlist', k2') \<Rightarrow> searching es r L (Suc k) {} (tree', vlist', k2') \<and> k2 \<le> k2'"
      using t by (auto simp: searching_def)
  qed simp
  then show ?thesis
    using k l x by (simp add: visit_neighbours_def v_def [symmetric])
qed

lemma bfs_loop_returns:
  assumes g: "csr_of es g" and s: "searching es r L 0 {} (tree, vlist, 1)"
  shows "returns (c_while
            (\<lambda>(k1, tree, vlist, k2). Some (k1 \<noteq> k2))
            (\<lambda>(k1, tree, vlist, k2). do {
               let oldk2 = k2;
               s \<leftarrow> for_range k1 oldk2 (visit_neighbours g) (tree, vlist, k2);
               Some (oldk2, s) })
            (0, tree, vlist, 1))
    (\<lambda>(_, tree', _, _). length tree' = L \<and> is_bfs_tree (edge_rel es) (nv g) r tree')"
proof -
  let ?n = "1 + max_endpoint es"
  let ?I = "\<lambda>(k1, tree, vlist, k2). 0 \<le> k1 \<and> k1 \<le> k2 \<and> searching es r L (nat k1) {} (tree, vlist, k2)"
  have n: "nv g = ?n" using g by (simp add: csr_of_def)
  have "returns (c_while
            (\<lambda>(k1, tree, vlist, k2). Some (k1 \<noteq> k2))
            (\<lambda>(k1, tree, vlist, k2). do {
               let oldk2 = k2;
               s \<leftarrow> for_range k1 oldk2 (visit_neighbours g) (tree, vlist, k2);
               Some (oldk2, s) })
            (0, tree, vlist, 1))
    (\<lambda>t. ?I t \<and> (case t of (k1, tree, vlist, k2) \<Rightarrow> Some (k1 \<noteq> k2)) = Some False)"
  proof (rule returns_while [where I = ?I and f = "\<lambda>(k1, _). nat (?n - k1)"])
    show "?I (0, tree, vlist, 1)" using s by simp
    fix t assume t: "?I t"
    then show "\<exists>b. (case t of (k1, tree, vlist, k2) \<Rightarrow> Some (k1 \<noteq> k2)) = Some b" by (cases t) simp
    assume "(case t of (k1, tree, vlist, k2) \<Rightarrow> Some (k1 \<noteq> k2)) = Some True"
    then obtain k1 tr vl k2 where tt: "t = (k1, tr, vl, k2)" "k1 < k2" "0 \<le> k1" "searching es r L (nat k1) {} (tr, vl, k2)"
      using t by (cases t) auto
    have k2: "k2 \<le> ?n" using tt(4) by (auto simp: searching_def)
    have "returns (for_range k1 k2 (visit_neighbours g) (tr, vl, k2))
      (\<lambda>(tree', vlist', k2'). searching es r L (nat k2) {} (tree', vlist', k2') \<and> k2 \<le> k2')"
    proof (rule returns_rangeI [where I = "\<lambda>k (tree', vlist', k2'). searching es r L (nat k) {} (tree', vlist', k2') \<and> k2 \<le> k2'"])
      fix i u
      assume i: "k1 \<le> i" "i < k2" and u: "case u of (tree', vlist', k2') \<Rightarrow> searching es r L (nat i) {} (tree', vlist', k2') \<and> k2 \<le> k2'"
      obtain a b c where abc: "u = (a, b, c)" by (cases u)
      have ii: "int (nat i) = i" "nat (i + 1) = Suc (nat i)" using i tt(3) by auto
      show "returns (visit_neighbours g i u)
          (\<lambda>(tree', vlist', k2'). searching es r L (nat (i + 1)) {} (tree', vlist', k2') \<and> k2 \<le> k2')"
        unfolding abc ii(2)
        by (rule returns_mono [OF visit_neighbours_returns [OF g, of r L "nat i" a b c, unfolded ii(1)]])
          (use u i abc in auto)
    qed (use tt in auto)
    then show "returns ((\<lambda>(k1, tree, vlist, k2). do {
               let oldk2 = k2;
               s \<leftarrow> for_range k1 oldk2 (visit_neighbours g) (tree, vlist, k2);
               Some (oldk2, s) }) t)
        (\<lambda>t'. ?I t' \<and> (case t' of (k1, _) \<Rightarrow> nat (?n - k1)) < (case t of (k1, _) \<Rightarrow> nat (?n - k1)))"
      using tt k2 by (auto simp: Let_def elim!: returns_mono)
  qed
  then show ?thesis
  proof (rule returns_mono)
    fix t assume "?I t \<and> (case t of (k1, tree, vlist, k2) \<Rightarrow> Some (k1 \<noteq> k2)) = Some False"
    then obtain k1 tr vl where t: "t = (k1, tr, vl, k1)" "searching es r L (nat k1) {} (tr, vl, k1)" by (cases t) auto
    then obtain d where "bfs_inv (edge_rel es) ?n r d (take (nat k1) vl) (nat k1) {} tr"
      and l: "length tr = L" "nat k1 \<le> length vl" by (auto simp: searching_def)
    then have "is_bfs_tree (edge_rel es) ?n r tr"
      using edges.bfs_finished [of es r d "take (nat k1) vl" "{}" tr] by simp
    then show "case t of (_, tree', _, _) \<Rightarrow> length tree' = L \<and> is_bfs_tree (edge_rel es) (nv g) r tree'"
      using t l n by simp
  qed
qed

lemma bfs_tree_returns:
  assumes g: "csr_of es g" and alloc: "alloc_ok alloc" and r: "0 \<le> r" "r < nv g" and l: "nv g \<le> int (length tree)"
  shows "returns (make_bfs_tree alloc g tree r) (\<lambda>(err, tree', m). m = max_endpoint es \<and> length tree' = length tree \<and>
    (err = 0 \<and> is_bfs_tree (edge_rel es) (nv g) r tree' \<or> err = -1 \<and> (\<exists>bytes. alloc bytes = None)))"
proof (cases "alloc (nv g * 8)")
  case None
  then show ?thesis using g by (auto simp: make_bfs_tree_def csr_of_def)
next
  case (Some vlist)
  moreover have "0 \<le> nv g * 8" using r by simp
  ultimately have "int (length vlist) = nv g * 8 div 8" using alloc unfolding alloc_ok_def by blast
  then have lv: "int (length vlist) = nv g" by simp
  have n: "nv g = 1 + max_endpoint es" "maxvtx g = max_endpoint es" using g by (simp_all add: csr_of_def)
  define t0 where "t0 = replicate (nat (nv g)) (-1) @ drop (nat (nv g)) tree"
  have f: "for_range 0 (nv g) (\<lambda>k t. aset t k (-1)) tree = Some t0"
    by (rule returnsE [OF fill_returns [of "nv g" tree "-1"]]) (use r l in \<open>auto simp: t0_def\<close>)
  have lt: "length t0 = length tree" using l r by (simp add: t0_def)
  have "bfs_inv (edge_rel es) (1 + max_endpoint es) r (\<lambda>_. 0) [r] 0 {} (t0[nat r := r])"
  proof (rule edges.bfs_start)
    show "t0[nat r := r] ! nat r = r" using r l lt by simp
    show "t0[nat r := r] ! nat v = -1" if "0 \<le> v" "v < 1 + max_endpoint es" "v \<noteq> r" for v
      using that r n by (simp add: t0_def nth_append nth_list_update nat_less_iff)
  qed (use r n l lt in auto)
  moreover have "take 1 (vlist[0 := r]) = [r]" using lv r by (cases vlist) auto
  ultimately have "searching es r (length tree) 0 {} (t0[nat r := r], vlist[0 := r], 1)"
    using lv r n lt by (auto simp: searching_def)
  from bfs_loop_returns [OF g this] show ?thesis
    using f Some lv r l lt n by (simp add: make_bfs_tree_def) (erule returns_mono, auto)
qed

text \<open>C8: building the graph either reports that memory ran out or gives every vertex the sorted list, without
  repetitions, of the other endpoints of its edges; self-edges and negative endpoints are left out.\<close>

theorem create_graph_correct:
  assumes "alloc_ok alloc" "max_endpoint es < 2 ^ 58"
  shows "\<exists>err g'. create_graph_from_edgelist alloc es (int (length es)) g = Some (err, g') \<and>
    (err = 0 \<and> maxvtx g' = max_endpoint es \<and> nv g' = 1 + max_endpoint es \<and>
       (\<forall>v. 0 \<le> v \<and> v < nv g' \<longrightarrow> neighbours g' v = sorted_list_of_set {w. (v, w) \<in> edge_rel es}) \<or>
     err = -1 \<and> (\<exists>bytes. alloc bytes = None))"
proof -
  obtain err g' where "create_graph_from_edgelist alloc es (int (length es)) g = Some (err, g')"
    "err = 0 \<and> csr_of es g' \<or> err = -1 \<and> (\<exists>bytes. alloc bytes = None)"
    using create_graph_returns [OF assms, of g] by (auto elim!: returnsE)
  then show ?thesis using neighbours_eq [of es g'] by (auto simp: csr_of_def)
qed

text \<open>An allocator that never fails.\<close>

definition zeroed :: "int \<Rightarrow> int list option" where
  "zeroed bytes = Some (replicate (nat (bytes div 8)) 0)"

lemma zeroed_ok: "alloc_ok zeroed"
  by (simp add: alloc_ok_def zeroed_def)

lemma max_endpoint_Cons_small:
  "max_endpoint [write_edge 0 1, write_edge 1 2] = 2"
  by (simp add: max_endpoint_def)

theorem create_graph_correct_witness:
  "\<exists>err g'. create_graph_from_edgelist zeroed [write_edge 0 1, write_edge 1 2] (int (length [write_edge 0 1, write_edge 1 2]))
      \<lparr>maxvtx = 0, nv = 0, sz = 0, xoff = [], xadjstore = []\<rparr> = Some (err, g') \<and>
    (err = 0 \<and> maxvtx g' = max_endpoint [write_edge 0 1, write_edge 1 2] \<and>
       nv g' = 1 + max_endpoint [write_edge 0 1, write_edge 1 2] \<and>
       (\<forall>v. 0 \<le> v \<and> v < nv g' \<longrightarrow>
          neighbours g' v = sorted_list_of_set {w. (v, w) \<in> edge_rel [write_edge 0 1, write_edge 1 2]}) \<or>
     err = -1 \<and> (\<exists>bytes. zeroed bytes = None))"
  by (rule create_graph_correct) (simp_all add: zeroed_ok max_endpoint_Cons_small)

text \<open>C5: on a graph the construction returned, \<open>make_bfs_tree\<close> ends for every source vertex, without an
  access outside an array, and its result is a breadth-first tree: exactly the reachable vertices have a
  parent, the parent is a neighbour, and it is one step nearer to the source.\<close>

theorem make_bfs_tree_correct:
  assumes "alloc_ok alloc" "max_endpoint es < 2 ^ 58"
    and "create_graph_from_edgelist alloc es (int (length es)) g0 = Some (0, g)"
    and "0 \<le> src" "src < nv g" "nv g \<le> int (length tree)"
  shows "\<exists>err tree'. make_bfs_tree alloc g tree src = Some (err, tree', max_endpoint es) \<and>
    (err = 0 \<and> is_bfs_tree (edge_rel es) (nv g) src tree' \<or> err = -1 \<and> (\<exists>bytes. alloc bytes = None))"
proof -
  have "csr_of es g" using create_graph_returns [OF assms(1,2), of g0] assms(3) by simp
  from bfs_tree_returns [OF this assms(1,4-6)] show ?thesis by (auto elim!: returnsE)
qed

lemma small_graph_built:
  "\<exists>g. create_graph_from_edgelist zeroed [write_edge 0 1, write_edge 1 2] 2
      \<lparr>maxvtx = 0, nv = 0, sz = 0, xoff = [], xadjstore = []\<rparr> = Some (0, g) \<and> nv g = 3"
  by (rule returnsE [OF create_graph_returns [of zeroed "[write_edge 0 1, write_edge 1 2]"]])
    (auto simp: zeroed_ok max_endpoint_Cons_small zeroed_def csr_of_def)

theorem make_bfs_tree_correct_witness:
  "\<exists>g err tree'. create_graph_from_edgelist zeroed [write_edge 0 1, write_edge 1 2] 2
      \<lparr>maxvtx = 0, nv = 0, sz = 0, xoff = [], xadjstore = []\<rparr> = Some (0, g) \<and>
    make_bfs_tree zeroed g [0, 0, 0] 1 = Some (err, tree', max_endpoint [write_edge 0 1, write_edge 1 2]) \<and>
    (err = 0 \<and> is_bfs_tree (edge_rel [write_edge 0 1, write_edge 1 2]) (nv g) 1 tree' \<or>
     err = -1 \<and> (\<exists>bytes. zeroed bytes = None))"
proof -
  obtain g where g: "create_graph_from_edgelist zeroed [write_edge 0 1, write_edge 1 2] 2
      \<lparr>maxvtx = 0, nv = 0, sz = 0, xoff = [], xadjstore = []\<rparr> = Some (0, g)" "nv g = 3"
    using small_graph_built by blast
  have "create_graph_from_edgelist zeroed [write_edge 0 1, write_edge 1 2] (int (length [write_edge 0 1, write_edge 1 2]))
      \<lparr>maxvtx = 0, nv = 0, sz = 0, xoff = [], xadjstore = []\<rparr> = Some (0, g)" using g(1) by simp
  from make_bfs_tree_correct [OF zeroed_ok _ this, of 1 "[0, 0, 0]"] g show ?thesis
    by (auto simp: max_endpoint_Cons_small)
qed

end
