(* ===== verification/Verify_Bfs.thy ===== *)
theory Verify_Bfs
  imports Bfs_Spec
begin

text \<open>
  The result checker \<open>verify.c\<close>, run by one thread (the OpenMP regions are sequential loops) with the
  assertions compiled in.  The input edges are the flat array \<open>IJ\<close> of \<open>2 * nedge\<close> endpoints.  The
  checkpoint files are parameters: \<open>ckpt\<close> is what \<open>load_nedge\<close> returns, a number of 64 bits of which an \<open>int\<close> is kept,
  and \<open>save_ok\<close> whether \<open>save_nedge\<close> can
  open its file (it ends the process otherwise).
\<close>

section \<open>The code\<close>

text \<open>Run up the tree until an already-leveled vertex.\<close>

definition climb :: "int list \<Rightarrow> int list \<Rightarrow> int \<Rightarrow> int \<times> int \<Rightarrow> (int \<times> int) option" where
  "climb level tree n = c_while
     (\<lambda>(parent, nhop).
        if parent < 0 then Some False
        else do { l \<leftarrow> aget level parent; Some (l < 0 \<and> nhop < n) })
     (\<lambda>(parent, nhop). do {
        p \<leftarrow> aget tree parent;
        c_assert (parent \<noteq> p);
        Some (p, nhop + 1) })"

text \<open>Assign levels until an already-leveled vertex.\<close>

definition assign_levels :: "int list \<Rightarrow> int list \<times> int \<times> int \<Rightarrow> (int list \<times> int \<times> int) option" where
  "assign_levels tree = c_while
     (\<lambda>(level, parent, nhop). do { l \<leftarrow> aget level parent; Some (l < 0) })
     (\<lambda>(level, parent, nhop). do {
        c_assert (0 < nhop);
        level \<leftarrow> aset level parent nhop;
        p \<leftarrow> aget tree parent;
        Some (level, p, nhop - 1) })"

text \<open>The internal check of the debug build.\<close>

definition check_levels :: "int list \<Rightarrow> int list \<Rightarrow> int \<times> int \<times> int \<Rightarrow> (int \<times> int \<times> int) option" where
  "check_levels level tree = c_while
     (\<lambda>(parent, lastlvl, nhop). do { l \<leftarrow> aget level parent; Some (0 < l) })
     (\<lambda>(parent, lastlvl, nhop). do {
        l \<leftarrow> aget level parent;
        c_assert (lastlvl = 1 + l);
        p \<leftarrow> aget tree parent;
        Some (p, l, nhop + 1) })"

definition level_vertex :: "int \<Rightarrow> int list \<Rightarrow> int \<Rightarrow> int \<Rightarrow> int list \<times> int \<Rightarrow> (int list \<times> int) option" where
  "level_vertex n tree root k = (\<lambda>(level, err). do {
     lk \<leftarrow> aget level k;
     if 0 \<le> lk then Some (level, err)
     else do {
       let terr = err;
       go \<leftarrow> (if terr = 0 then do { t \<leftarrow> aget tree k; Some (0 \<le> t \<and> k \<noteq> root) } else Some False);
       if go then do {
         (parent, nhop) \<leftarrow> climb level tree n (k, 0);
         let terr = (if n \<le> nhop then -1 else terr);
         let terr = (if parent < 0 then -2 else terr);
         if terr = 0 then do {
           l \<leftarrow> aget level parent;
           (level, parent, nhop) \<leftarrow> assign_levels tree (level, k, nhop + l);
           l \<leftarrow> aget level parent;
           c_assert (nhop = l);
           l \<leftarrow> aget level k;
           _ \<leftarrow> check_levels level tree (k, l + 1, 0);
           Some (level, err) }
         else Some (level, terr) }
       else Some (level, err) } })"

definition compute_levels :: "int list \<Rightarrow> int \<Rightarrow> int list \<Rightarrow> int \<Rightarrow> (int list \<times> int) option" where
  "compute_levels level n tree root = do {
     level \<leftarrow> for_range 0 n (\<lambda>k l. aset l k (if k = root then 0 else -1)) level;
     for_range 0 n (level_vertex n tree root) (level, 0) }"

text \<open>One edge: the state is the error of the run, the local error, the marks and the count.\<close>

definition check_edge ::
    "int \<Rightarrow> int list \<Rightarrow> int list \<Rightarrow> int \<Rightarrow> int \<Rightarrow> int \<times> int \<times> int list \<times> int \<Rightarrow> (int \<times> int \<times> int list \<times> int) option" where
  "check_edge maxv tree level i j = (\<lambda>(err, terr, seen, cnt).
     let terr = err in
     if i < 0 \<or> j < 0 then Some (err, terr, seen, cnt)
     else
       let terr = (if i > maxv \<and> j \<le> maxv then -10 else terr);
           terr = (if j > maxv \<and> i \<le> maxv then -11 else terr);
           err = (if terr \<noteq> 0 then terr else err) in
       if terr \<noteq> 0 \<or> i > maxv then Some (err, terr, seen, cnt)
       else do {
         bi \<leftarrow> aget tree i;
         bj \<leftarrow> aget tree j;
         let terr = (if 0 \<le> bi \<and> bj < 0 then -12 else terr);
         let terr = (if 0 \<le> bj \<and> bi < 0 then -13 else terr);
         let err = (if terr \<noteq> 0 then terr else err);
         if terr \<noteq> 0 \<or> bi < 0 then Some (err, terr, seen, cnt)
         else do {
           cnt \<leftarrow> i32 (cnt + 1);
           seen \<leftarrow> (if i \<noteq> j then do {
                      seen \<leftarrow> (if bi = j then aset seen i 1 else Some seen);
                      (if bj = i then aset seen j 1 else Some seen) }
                    else Some seen);
           li \<leftarrow> aget level i;
           lj \<leftarrow> aget level j;
           let lvldiff = li - lj;
           let terr = (if lvldiff > 1 \<or> lvldiff < -1 then -14 else terr);
           let err = (if terr \<noteq> 0 then terr else err);
           Some (err, terr, seen, cnt) } })"

definition check_vertex :: "int list \<Rightarrow> int list \<Rightarrow> int \<Rightarrow> int \<Rightarrow> int \<Rightarrow> int option" where
  "check_vertex tree seen root k err =
     (if err = 0 \<and> k \<noteq> root then do {
        t \<leftarrow> aget tree k;
        s \<leftarrow> (if 0 \<le> t then aget seen k else Some 1);
        let terr = (if 0 \<le> t \<and> s = 0 then -15 else 0);
        let terr = (if t = k then -16 else terr);
        Some (if terr \<noteq> 0 then terr else err) }
      else Some err)"

text \<open>The second parallel region: the error and the number of traversed edges.\<close>

definition check_edges :: "int list \<Rightarrow> int \<Rightarrow> int list \<Rightarrow> int list \<Rightarrow> int \<Rightarrow> int list \<Rightarrow> int \<Rightarrow> (int \<times> int) option" where
  "check_edges seen maxv tree level root IJ nedge = do {
     seen \<leftarrow> for_range 0 (maxv + 1) (\<lambda>k s. aset s k 0) seen;
     (err, terr, seen, cnt) \<leftarrow> for_range 0 nedge (\<lambda>e st. do {
       i \<leftarrow> aget IJ (2 * e);
       j \<leftarrow> aget IJ (2 * e + 1);
       check_edge maxv tree level i j st }) (0, 0, seen, 0);
     err \<leftarrow> (if terr = 0 then for_range 0 (maxv + 1) (check_vertex tree seen root) err else Some err);
     Some (err, cnt) }"

definition verify_bfs_tree ::
    "(int \<Rightarrow> int list option) \<Rightarrow> bool \<Rightarrow> int \<Rightarrow> bool \<Rightarrow> int list \<Rightarrow> int \<Rightarrow> int \<Rightarrow> int list \<Rightarrow> int \<Rightarrow> int option" where
  "verify_bfs_tree alloc verify ckpt save_ok tree max_bfsvtx root IJ nedge = do {
     n \<leftarrow> i64 (max_bfsvtx + 1);
     let nedge_traversed = to_i32 ckpt;
     if \<not> verify \<and> nedge_traversed \<noteq> -1 then Some nedge_traversed
     else do {
       bad \<leftarrow> (if root > max_bfsvtx then Some True else do { t \<leftarrow> aget tree root; Some (t \<noteq> root) });
       if bad then Some (-999)
       else do {
         m \<leftarrow> i64 (2 * n);
         block \<leftarrow> alloc (m * 8 mod 2 ^ 64);
         (level, err) \<leftarrow> compute_levels (drop (nat n) block) n tree root;
         (err, cnt) \<leftarrow> (if err \<noteq> 0 then Some (err, 0)
           else check_edges (take (nat n) block) max_bfsvtx tree level root IJ nedge);
         if err \<noteq> 0 then Some err
         else do { c_assert save_ok; Some cnt } } } }"

section \<open>Chains of parents\<close>

text \<open>\<open>climbs tree root m v\<close>: \<open>m\<close> steps up the tree lead from \<open>v\<close> to the root, for the first time.\<close>

primrec climbs :: "int list \<Rightarrow> int \<Rightarrow> nat \<Rightarrow> int \<Rightarrow> bool" where
  "climbs tree root 0 v \<longleftrightarrow> v = root"
| "climbs tree root (Suc m) v \<longleftrightarrow> v \<noteq> root \<and> 0 \<le> tree ! nat v \<and> climbs tree root m (tree ! nat v)"

lemma climbs_unique: "climbs tree root m v \<Longrightarrow> climbs tree root m' v \<Longrightarrow> m = m'"
proof (induction m arbitrary: m' v)
  case 0
  then show ?case by (cases m') auto
next
  case (Suc m)
  then show ?case by (cases m') auto
qed

text \<open>A tree the checker may be asked about: parents stay below \<open>n\<close>, only the root is its own parent.\<close>

definition parents_ok :: "int \<Rightarrow> int list \<Rightarrow> int \<Rightarrow> bool" where
  "parents_ok n tree root \<longleftrightarrow> 0 \<le> root \<and> root < n \<and> nat n \<le> length tree \<and> tree ! nat root = root \<and>
     (\<forall>v. 0 \<le> v \<and> v < n \<longrightarrow> tree ! nat v < n \<and> (v \<noteq> root \<longrightarrow> tree ! nat v \<noteq> v))"

text \<open>The vertices of a chain are different, so it is shorter than the number of vertices.\<close>

lemma climbs_path:
  assumes p: "parents_ok n tree root" and "climbs tree root m v" "0 \<le> v" "v < n"
  shows "\<exists>S \<subseteq> {0..<n}. card S = Suc m \<and> (\<forall>u \<in> S. \<exists>k \<le> m. climbs tree root k u)"
  using assms(2-4)
proof (induction m arbitrary: v)
  case 0
  then show ?case by (intro exI [of _ "{root}"]) auto
next
  case (Suc m)
  let ?u = "tree ! nat v"
  have "0 \<le> ?u" "?u < n" using Suc.prems p by (auto simp: parents_ok_def)
  then obtain S where S: "S \<subseteq> {0..<n}" "card S = Suc m" "\<forall>u \<in> S. \<exists>k \<le> m. climbs tree root k u"
    using Suc.IH [of ?u] Suc.prems(1) by auto
  have "v \<notin> S"
  proof
    assume "v \<in> S"
    then obtain k where "k \<le> m" "climbs tree root k v" using S by blast
    then show False using climbs_unique [OF Suc.prems(1), of k] by (metis Suc_n_not_le_n)
  qed
  moreover have "\<forall>u \<in> S. \<exists>k \<le> Suc m. climbs tree root k u" using S(3) le_SucI by blast
  moreover have "finite S" using S(1) finite_subset by blast
  ultimately show ?case
    using S(1,2) Suc.prems
    by (intro exI [of _ "insert v S"]) (auto simp del: climbs.simps)
qed

lemma climbs_bound:
  assumes "parents_ok n tree root" "climbs tree root m v" "0 \<le> v" "v < n"
  shows "int m < n"
proof -
  obtain S where "S \<subseteq> {0..<n}" "card S = Suc m" using climbs_path [OF assms] by blast
  then have "Suc m \<le> card {0..<n}" by (metis card_mono finite_atLeastLessThan_int)
  then show ?thesis by simp
qed

section \<open>The levels are the lengths of the chains\<close>

definition levels_ok :: "int \<Rightarrow> int list \<Rightarrow> int \<Rightarrow> int list \<Rightarrow> bool" where
  "levels_ok n tree root level \<longleftrightarrow> int (length level) = n \<and> level ! nat root = 0 \<and>
     (\<forall>v. 0 \<le> v \<and> v < n \<longrightarrow> level ! nat v < 0 \<or> climbs tree root (nat (level ! nat v)) v)"

lemma levels_okD:
  assumes "levels_ok n tree root level"
  shows "int (length level) = n" "level ! nat root = 0"
    and "0 \<le> v \<Longrightarrow> v < n \<Longrightarrow> 0 \<le> level ! nat v \<Longrightarrow> climbs tree root (nat (level ! nat v)) v"
  using assms by (auto simp: levels_ok_def)

lemma climbs_parent:
  assumes "parents_ok n tree root" "climbs tree root (Suc m) v" "0 \<le> v" "v < n"
  shows "0 \<le> tree ! nat v" "tree ! nat v < n" "climbs tree root m (tree ! nat v)" "v \<noteq> root"
    "tree ! nat v \<noteq> v" "aget tree v = Some (tree ! nat v)"
  using assms by (auto simp: parents_ok_def)

text \<open>The climb: \<open>done1\<close> of the chain of \<open>k\<close>, no level on the way.\<close>

lemma climb_returns:
  assumes p: "parents_ok n tree root" and l: "levels_ok n tree root level"
    and k: "0 \<le> k" "k < n" "0 \<le> tree ! nat k"
  shows "returns (climb level tree n (k, 0)) (\<lambda>(q, h). 0 \<le> h \<and> q < n \<and>
    (0 \<le> q \<and> h < n \<longrightarrow> 0 \<le> level ! nat q) \<and>
    (\<forall>m. climbs tree root m k \<longleftrightarrow> int m \<ge> h \<and> 0 \<le> q \<and> climbs tree root (m - nat h) q))"
proof -
  let ?P = "\<lambda>(q, h). 0 \<le> h \<and> q < n \<and> (\<forall>m. climbs tree root m k \<longleftrightarrow> int m \<ge> h \<and> 0 \<le> q \<and> climbs tree root (m - nat h) q)"
  have len: "int (length level) = n" using levels_okD [OF l] by simp
  have "returns (climb level tree n (k, 0)) (\<lambda>t. ?P t \<and> (case t of (parent, nhop) \<Rightarrow>
        if parent < 0 then Some False
        else do { l \<leftarrow> aget level parent; Some (l < 0 \<and> nhop < n) }) = Some False)"
    unfolding climb_def
  proof (rule returns_while [where f = "\<lambda>(q, h). nat (n - h)" and I = ?P])
    show "?P (k, 0)" using k by auto
    fix t assume t: "?P t"
    obtain q h where qh: "t = (q, h)" by (cases t)
    show "\<exists>g. (case t of (parent, nhop) \<Rightarrow>
        if parent < 0 then Some False
        else do { l \<leftarrow> aget level parent; Some (l < 0 \<and> nhop < n) }) = Some g"
      using t qh len by auto
    assume "(case t of (parent, nhop) \<Rightarrow>
        if parent < 0 then Some False
        else do { l \<leftarrow> aget level parent; Some (l < 0 \<and> nhop < n) }) = Some True"
    then have g: "0 \<le> q" "q < n" "level ! nat q < 0" "h < n" "0 \<le> h"
      and c: "\<And>m. climbs tree root m k \<longleftrightarrow> int m \<ge> h \<and> climbs tree root (m - nat h) q"
      using t qh len by (auto split: if_splits)
    have nr: "q \<noteq> root" using g(3) levels_okD(2) [OF l] by auto
    have tq: "tree ! nat q \<noteq> q" "tree ! nat q < n" "q < int (length tree)"
      using p g nr by (auto simp: parents_ok_def)
    have "climbs tree root m k \<longleftrightarrow> int m \<ge> h + 1 \<and> 0 \<le> tree ! nat q \<and> climbs tree root (m - nat (h + 1)) (tree ! nat q)" for m
    proof (cases "m - nat h")
      case 0
      then have "int m \<le> h" using g by linarith
      then show ?thesis using c [of m] 0 nr by auto
    next
      case (Suc i)
      then have "m - nat (h + 1) = i" "int m \<ge> h + 1" using g by linarith+
      then show ?thesis using c [of m] Suc nr by auto
    qed
    then show "returns ((\<lambda>(parent, nhop). do {
        p \<leftarrow> aget tree parent;
        c_assert (parent \<noteq> p);
        Some (p, nhop + 1) }) t) (\<lambda>t'. ?P t' \<and> (case t' of (q, h) \<Rightarrow> nat (n - h)) < (case t of (q, h) \<Rightarrow> nat (n - h)))"
      using g tq qh by auto
  qed
  then show ?thesis
    by (rule returns_mono) (use len in \<open>auto split: if_splits\<close>)
qed

text \<open>Setting the level of a vertex on a chain.\<close>

lemma levels_ok_put:
  assumes "levels_ok n tree root level" "climbs tree root m q" "0 \<le> q" "q < n" "q \<noteq> root" "0 \<le> root"
  shows "levels_ok n tree root (level[nat q := int m])"
proof -
  note L = levels_okD [OF assms(1)]
  have "level[nat q := int m] ! nat root = 0" using assms(3,5,6) L(2) by (simp add: nth_update_int)
  moreover have "level[nat q := int m] ! nat v < 0 \<or> climbs tree root (nat (level[nat q := int m] ! nat v)) v"
    if "0 \<le> v" "v < n" for v
  proof (cases "q = v")
    case False
    have "level ! nat v < 0 \<or> climbs tree root (nat (level ! nat v)) v"
      using assms(1) that by (auto simp: levels_ok_def)
    then show ?thesis using that assms(3) False by (simp add: nth_update_int)
  qed (use that L(1) assms(2) in \<open>simp add: nth_update_int\<close>)
  ultimately show ?thesis using L(1) by (simp add: levels_ok_def)
qed

text \<open>The parents of levelled vertices are levelled, but for \<open>X\<close>.\<close>

definition levels_closed :: "int \<Rightarrow> int list \<Rightarrow> int list \<Rightarrow> int set \<Rightarrow> bool" where
  "levels_closed n tree level X \<longleftrightarrow>
     (\<forall>v. 0 \<le> v \<and> v < n \<and> 0 < level ! nat v \<longrightarrow> 0 \<le> level ! nat (tree ! nat v) \<or> tree ! nat v \<in> X)"

definition levelled :: "int \<Rightarrow> int list \<Rightarrow> int set" where
  "levelled n level = {v. 0 \<le> v \<and> v < n \<and> 0 \<le> level ! nat v}"

lemma assign_levels_returns:
  assumes p: "parents_ok n tree root" and l: "levels_ok n tree root level" "levels_closed n tree level {}"
    and k: "0 \<le> k" "k < n" "climbs tree root m k"
  shows "returns (assign_levels tree (level, k, int m)) (\<lambda>(level', q, h).
    levels_ok n tree root level' \<and> levels_closed n tree level' {} \<and> 0 \<le> q \<and> q < n \<and> level' ! nat q = h \<and>
    0 \<le> level' ! nat k \<and> levelled n level \<subseteq> levelled n level')"
proof -
  let ?I = "\<lambda>(level', q, h). levels_ok n tree root level' \<and> levels_closed n tree level' {q} \<and> 0 \<le> q \<and> q < n \<and> 0 \<le> h \<and>
    climbs tree root (nat h) q \<and> (q = k \<or> 0 \<le> level' ! nat k) \<and> levelled n level \<subseteq> levelled n level'"
  have "returns (assign_levels tree (level, k, int m))
    (\<lambda>t. ?I t \<and> (case t of (level, parent, nhop) \<Rightarrow> do { l \<leftarrow> aget level parent; Some (l < 0) }) = Some False)"
    unfolding assign_levels_def
  proof (rule returns_while [where f = "\<lambda>(level, q, h). nat h" and I = ?I])
    show "?I (level, k, int m)" using l k by (auto simp: levels_closed_def)
    fix t assume t: "?I t"
    obtain lv q h where t3: "t = (lv, q, h)" by (cases t)
    then have I: "levels_ok n tree root lv" "levels_closed n tree lv {q}" "0 \<le> q" "q < n" "0 \<le> h"
      "climbs tree root (nat h) q" "q = k \<or> 0 \<le> lv ! nat k" "levelled n level \<subseteq> levelled n lv" using t by auto
    have len: "int (length lv) = n" using levels_okD(1) [OF I(1)] .
    show "\<exists>g. (case t of (level, parent, nhop) \<Rightarrow> do { l \<leftarrow> aget level parent; Some (l < 0) }) = Some g"
      using I len t3 by simp
    assume "(case t of (level, parent, nhop) \<Rightarrow> do { l \<leftarrow> aget level parent; Some (l < 0) }) = Some True"
    then have neg: "lv ! nat q < 0" using t3 I len by simp
    have nr: "q \<noteq> root" using neg levels_okD(2) [OF I(1)] by auto
    then obtain i where i: "nat h = Suc i" using I(6) by (cases "nat h") auto
    have h: "h = int (Suc i)" "0 < h" "nat (h - 1) = i" using i I(5) by linarith+
    note P = climbs_parent [OF p I(6) [unfolded i] I(3,4)]
    have "levels_ok n tree root (lv[nat q := h])"
      using levels_ok_put [OF I(1) I(6,3,4) nr] p I(5) by (simp add: parents_ok_def)
    moreover have "levels_closed n tree (lv[nat q := h]) {tree ! nat q}"
      unfolding levels_closed_def
    proof (intro allI impI)
      fix v assume v: "0 \<le> v \<and> v < n \<and> 0 < lv[nat q := h] ! nat v"
      show "0 \<le> lv[nat q := h] ! nat (tree ! nat v) \<or> tree ! nat v \<in> {tree ! nat q}"
      proof (cases "q = v")
        case False
        then have "0 < lv ! nat v" using v I(3) by (auto simp: nth_update_int)
        then have "0 \<le> lv ! nat (tree ! nat v) \<or> tree ! nat v = q" using I(2) v by (auto simp: levels_closed_def)
        moreover have "0 \<le> tree ! nat v"
        proof -
          obtain j where j: "nat (lv ! nat v) = Suc j" using \<open>0 < lv ! nat v\<close> by (cases "nat (lv ! nat v)") auto
          then show ?thesis using levels_okD(3) [OF I(1), of v] \<open>0 < lv ! nat v\<close> v by simp
        qed
        ultimately show ?thesis using h(2) I(3,4) len by (auto simp: nth_update_int)
      qed simp
    qed
    moreover have "0 \<le> lv[nat q := h] ! nat k"
      using I(3,4,7) k(1) h(2) len by (auto simp: nth_update_int)
    moreover have "levelled n lv \<subseteq> levelled n (lv[nat q := h])"
      using h(2) I(3) len by (auto simp: levelled_def nth_update_int)
    ultimately show "returns ((\<lambda>(level, parent, nhop). do {
        c_assert (0 < nhop);
        level \<leftarrow> aset level parent nhop;
        p \<leftarrow> aget tree parent;
        Some (level, p, nhop - 1) }) t) (\<lambda>t'. ?I t' \<and> (case t' of (level, q, h) \<Rightarrow> nat h) < (case t of (level, q, h) \<Rightarrow> nat h))"
      using P I len h t3 by auto
  qed
  then show ?thesis
  proof (rule returns_mono)
    fix t assume t: "?I t \<and> (case t of (level, parent, nhop) \<Rightarrow> do { l \<leftarrow> aget level parent; Some (l < 0) }) = Some False"
    obtain lv q h where t3: "t = (lv, q, h)" by (cases t)
    have I: "levels_ok n tree root lv" "levels_closed n tree lv {q}" "0 \<le> q" "q < n" "0 \<le> h"
      "climbs tree root (nat h) q" "q = k \<or> 0 \<le> lv ! nat k" "levelled n level \<subseteq> levelled n lv" "0 \<le> lv ! nat q"
      using t t3 by (auto simp: levels_okD(1))
    have "nat (lv ! nat q) = nat h" using climbs_unique [OF levels_okD(3) [OF I(1,3,4,9)] I(6)] .
    then have "lv ! nat q = h" using I(5,9) by simp
    moreover have "levels_closed n tree lv {}" using I(2,9) by (auto simp: levels_closed_def)
    ultimately show "case t of (level', q, h) \<Rightarrow>
      levels_ok n tree root level' \<and> levels_closed n tree level' {} \<and> 0 \<le> q \<and> q < n \<and> level' ! nat q = h \<and>
      0 \<le> level' ! nat k \<and> levelled n level \<subseteq> levelled n level'"
      using I t3 by auto
  qed
qed

lemma pred_nat: "nat x = i \<Longrightarrow> 0 \<le> x \<Longrightarrow> x = int i"
  by simp

lemma check_levels_returns:
  assumes p: "parents_ok n tree root" and l: "levels_ok n tree root level" "levels_closed n tree level {}"
    and k: "0 \<le> k" "k < n" "0 \<le> level ! nat k"
  shows "returns (check_levels level tree (k, level ! nat k + 1, 0)) (\<lambda>_. True)"
proof -
  have len: "int (length level) = n" using levels_okD(1) [OF l(1)] .
  let ?I = "\<lambda>(q, last1, h :: int). 0 \<le> q \<and> q < n \<and> 0 \<le> level ! nat q \<and> last1 = 1 + level ! nat q"
  have "returns (check_levels level tree (k, level ! nat k + 1, 0))
    (\<lambda>t. ?I t \<and> (case t of (parent, lastlvl, nhop) \<Rightarrow> do { l \<leftarrow> aget level parent; Some (0 < l) }) = Some False)"
    unfolding check_levels_def
  proof (rule returns_while [where f = "\<lambda>(q, last1, h). nat last1" and I = ?I])
    show "?I (k, level ! nat k + 1, 0)" using k by simp
    fix t assume t: "?I t"
    obtain q b h where t3: "t = (q, b, h)" by (cases t)
    then have I: "0 \<le> q" "q < n" "0 \<le> level ! nat q" "b = 1 + level ! nat q" using t by auto
    show "\<exists>g. (case t of (parent, lastlvl, nhop) \<Rightarrow> do { l \<leftarrow> aget level parent; Some (0 < l) }) = Some g"
      using I t3 len by simp
    assume "(case t of (parent, lastlvl, nhop) \<Rightarrow> do { l \<leftarrow> aget level parent; Some (0 < l) }) = Some True"
    then have pos: "0 < level ! nat q" using I t3 len by simp
    then obtain i where i: "nat (level ! nat q) = Suc i" by (cases "nat (level ! nat q)") auto
    note P = climbs_parent [OF p levels_okD(3) [OF l(1) I(1-3), unfolded i] I(1,2)]
    have up: "0 \<le> level ! nat (tree ! nat q)" using l(2) I pos by (auto simp: levels_closed_def)
    have "nat (level ! nat (tree ! nat q)) = i"
      by (rule climbs_unique [OF levels_okD(3) [OF l(1) P(1,2) up] P(3)])
    then have "level ! nat (tree ! nat q) = int i" using up by (rule pred_nat)
    moreover have "level ! nat q = int (Suc i)" using i I(3) by (rule pred_nat)
    ultimately have "level ! nat (tree ! nat q) = level ! nat q - 1" by simp
    then show "returns ((\<lambda>(parent, lastlvl, nhop). do {
        l \<leftarrow> aget level parent;
        c_assert (lastlvl = 1 + l);
        p \<leftarrow> aget tree parent;
        Some (p, l, nhop + 1) }) t)
      (\<lambda>t'. ?I t' \<and> (case t' of (q, last1, h) \<Rightarrow> nat last1) < (case t of (q, last1, h) \<Rightarrow> nat last1))"
      using P(1,2,6) I t3 len up by simp
  qed
  then show ?thesis by (rule returns_mono) simp
qed

definition no_chain :: "int \<Rightarrow> int list \<Rightarrow> int \<Rightarrow> bool" where
  "no_chain n tree root \<longleftrightarrow> (\<exists>v. 0 \<le> v \<and> v < n \<and> 0 \<le> tree ! nat v \<and> (\<forall>m. \<not> climbs tree root m v))"

definition levels_upto :: "int \<Rightarrow> int list \<Rightarrow> int \<Rightarrow> int \<Rightarrow> int list \<times> int \<Rightarrow> bool" where
  "levels_upto n tree root k = (\<lambda>(level, err). int (length level) = n \<and> err \<le> 0 \<and>
     (if err = 0 then levels_ok n tree root level \<and> levels_closed n tree level {} \<and>
        (\<forall>v. 0 \<le> v \<and> v < k \<and> 0 \<le> tree ! nat v \<longrightarrow> v \<in> levelled n level)
      else no_chain n tree root))"

lemma level_vertex_returns:
  assumes p: "parents_ok n tree root" and k: "0 \<le> k" "k < n" and u: "levels_upto n tree root k (level, err)"
  shows "returns (level_vertex n tree root k (level, err)) (levels_upto n tree root (k + 1))"
proof (cases "err = 0 \<and> level ! nat k < 0 \<and> 0 \<le> tree ! nat k \<and> k \<noteq> root")
  case False
  have len: "int (length level) = n" "k < int (length tree)"
    using u p k by (auto simp: levels_upto_def parents_ok_def)
  have "levels_upto n tree root (k + 1) (level, err)"
  proof (cases "err = 0")
    case True
    have "k \<in> levelled n level" if "0 \<le> tree ! nat k"
      using that False True u k by (cases "k = root") (auto simp: levels_upto_def levels_ok_def levelled_def)
    moreover have "v < k \<or> v = k" if "v < k + 1" for v using that by linarith
    ultimately show ?thesis using u True unfolding levels_upto_def by fastforce
  qed (use u in \<open>simp add: levels_upto_def\<close>)
  then show ?thesis using False k len by (auto simp: level_vertex_def)
next
  case True
  have l: "levels_ok n tree root level" "levels_closed n tree level {}"
    "\<And>v. 0 \<le> v \<Longrightarrow> v < k \<Longrightarrow> 0 \<le> tree ! nat v \<Longrightarrow> v \<in> levelled n level"
    using u True by (auto simp: levels_upto_def)
  have len: "int (length level) = n" "k < int (length tree)" using levels_okD(1) [OF l(1)] p k by (auto simp: parents_ok_def)
  obtain q h where c: "climb level tree n (k, 0) = Some (q, h)" "0 \<le> h" "q < n"
    "0 \<le> q \<Longrightarrow> h < n \<Longrightarrow> 0 \<le> level ! nat q"
    and chain: "\<And>m. climbs tree root m k \<longleftrightarrow> int m \<ge> h \<and> 0 \<le> q \<and> climbs tree root (m - nat h) q"
    by (rule returnsE [OF climb_returns [OF p l(1) k]]) (use True in auto)
  show ?thesis
  proof (cases "n \<le> h \<or> q < 0")
    case bad: True
    have "\<not> climbs tree root m k" for m
      using chain [of m] climbs_bound [OF p _ k, of m] bad by auto
    then have "no_chain n tree root" using True k by (auto simp: no_chain_def)
    then show ?thesis using True bad c(1) len k by (auto simp: level_vertex_def levels_upto_def Let_def)
  next
    case False
    then have q: "0 \<le> q" "h < n" "0 \<le> level ! nat q" using c by auto
    define m where "m = nat h + nat (level ! nat q)"
    have m: "h + level ! nat q = int m" using c(2) q by (simp add: m_def)
    have cl: "climbs tree root m k"
      using chain [of m] levels_okD(3) [OF l(1) q(1) c(3) q(3)] q by (simp add: m_def)
    obtain lv q' where a: "assign_levels tree (level, k, int m) = Some (lv, q', lv ! nat q')"
      and lv: "levels_ok n tree root lv" "levels_closed n tree lv {}" "0 \<le> q'" "q' < n" "0 \<le> lv ! nat k"
        "levelled n level \<subseteq> levelled n lv"
      by (rule returnsE [OF assign_levels_returns [OF p l(1,2) k cl]]) auto
    have len': "int (length lv) = n" using levels_okD(1) [OF lv(1)] .
    obtain r where r: "check_levels lv tree (k, lv ! nat k + 1, 0) = Some r"
      using check_levels_returns [OF p lv(1,2) k lv(5)] by (rule returnsE)
    have "v \<in> levelled n lv" if v: "0 \<le> v" "v < k + 1" "0 \<le> tree ! nat v" for v
    proof (cases "v = k")
      case False
      then show ?thesis using l(3) [of v] lv(6) v by auto
    qed (use lv(5) k in \<open>simp add: levelled_def\<close>)
    then have "levels_upto n tree root (k + 1) (lv, 0)"
      using lv(1,2) len' by (simp add: levels_upto_def)
    then show ?thesis
      using True False k q len len' c(1,3) a r m lv(3,4)
      by (simp add: level_vertex_def)
  qed
qed

lemma compute_levels_returns:
  assumes p: "parents_ok n tree root" and b: "int (length block) = n"
  shows "returns (compute_levels block n tree root) (levels_upto n tree root n)"
proof -
  have n: "0 \<le> n" "0 \<le> root" "root < n" using p by (auto simp: parents_ok_def)
  define lv where "lv = List.map (\<lambda>k. if k = root then 0 else - 1 :: int) [0..n - 1]"
  have "returns (for_range 0 n (\<lambda>k l. aset l k (if k = root then 0 else -1)) block)
     (\<lambda>l. l = List.map (\<lambda>k. if k = root then 0 else -1) [0..n - 1] @ drop (nat n) block)"
    using n b by (intro fill_fun_returns) simp_all
  then have z: "for_range 0 n (\<lambda>k l. aset l k (if k = root then 0 else -1)) block = Some lv"
    using b n by (auto elim!: returnsE simp: lv_def)
  have lvn: "lv ! nat v = (if v = root then 0 else -1)" if "0 \<le> v" "v < n" for v
    using that by (simp add: lv_def)
  have "levels_ok n tree root lv" using lvn n by (auto simp: levels_ok_def lv_def)
  moreover have "levels_closed n tree lv {}" using lvn by (auto simp: levels_closed_def split: if_splits)
  ultimately have "levels_upto n tree root 0 (lv, 0)" using n by (auto simp: levels_upto_def lv_def)
  then have "returns (for_range 0 n (level_vertex n tree root) (lv, 0)) (levels_upto n tree root n)"
  proof (rule returns_for_range)
    fix i t assume "0 \<le> i" "i < n" "levels_upto n tree root i t"
    then show "returns (level_vertex n tree root i t) (levels_upto n tree root (i + 1))"
      using level_vertex_returns [OF p] by (cases t) auto
  qed (rule n)
  then show ?thesis using z by (simp add: compute_levels_def)
qed

section \<open>The edges\<close>

definition edge_pairs :: "int list \<Rightarrow> int \<Rightarrow> (int \<times> int) list" where
  "edge_pairs IJ nedge = List.map (\<lambda>e. (IJ ! nat (2 * e), IJ ! nat (2 * e + 1))) [0..nedge - 1]"

definition in_tree :: "int \<Rightarrow> int list \<Rightarrow> int \<times> int \<Rightarrow> bool" where
  "in_tree maxv tree = (\<lambda>(i, j). 0 \<le> i \<and> i \<le> maxv \<and> 0 \<le> j \<and> j \<le> maxv \<and> 0 \<le> tree ! nat i \<and> 0 \<le> tree ! nat j)"

definition edge_fine :: "int \<Rightarrow> int list \<Rightarrow> int list \<Rightarrow> int \<times> int \<Rightarrow> bool" where
  "edge_fine maxv tree level = (\<lambda>(i, j). 0 \<le> i \<and> 0 \<le> j \<longrightarrow>
     (i \<le> maxv \<longleftrightarrow> j \<le> maxv) \<and>
     (i \<le> maxv \<longrightarrow> (0 \<le> tree ! nat i \<longleftrightarrow> 0 \<le> tree ! nat j) \<and>
        (0 \<le> tree ! nat i \<longrightarrow> \<bar>level ! nat i - level ! nat j\<bar> \<le> 1)))"

definition marked :: "int \<Rightarrow> int list \<Rightarrow> (int \<times> int) list \<Rightarrow> int \<Rightarrow> bool" where
  "marked maxv tree es v \<longleftrightarrow> (\<exists>(i, j) \<in> set es. i \<noteq> j \<and> in_tree maxv tree (i, j) \<and>
     (i = v \<and> tree ! nat i = j \<or> j = v \<and> tree ! nat j = i))"

lemma marked_simps [simp]:
  "marked maxv tree [] v = False"
  "marked maxv tree (es @ [(i, j)]) v \<longleftrightarrow> marked maxv tree es v \<or> i \<noteq> j \<and> in_tree maxv tree (i, j) \<and>
     (i = v \<and> tree ! nat i = j \<or> j = v \<and> tree ! nat j = i)"
  by (auto simp: marked_def)

definition edges_upto :: "int \<Rightarrow> int list \<Rightarrow> int list \<Rightarrow> (int \<times> int) list \<Rightarrow> int \<times> int \<times> int list \<times> int \<Rightarrow> bool" where
  "edges_upto maxv tree level es = (\<lambda>(err, terr, seen, cnt). terr = err \<and> err \<le> 0 \<and> int (length seen) = maxv + 1 \<and>
     0 \<le> cnt \<and> cnt \<le> int (length es) \<and>
     (if err = 0 then (\<forall>e \<in> set es. edge_fine maxv tree level e) \<and>
        cnt = int (length (filter (in_tree maxv tree) es)) \<and>
        (\<forall>v. 0 \<le> v \<and> v \<le> maxv \<longrightarrow> (seen ! nat v \<noteq> 0 \<longleftrightarrow> marked maxv tree es v))
      else \<exists>e \<in> set es. \<not> edge_fine maxv tree level e))"

lemma mark_returns:
  assumes "int (length seen) = maxv + 1" "0 \<le> i" "i \<le> maxv" "0 \<le> j" "j \<le> maxv"
  shows "returns (if i \<noteq> j then do {
                      seen \<leftarrow> (if a = j then aset seen i 1 else Some seen);
                      (if b = i then aset seen j 1 else Some seen) }
                    else Some seen)
    (\<lambda>seen'. length seen' = length seen \<and> (\<forall>v. 0 \<le> v \<and> v \<le> maxv \<longrightarrow>
       (seen' ! nat v \<noteq> (0::int) \<longleftrightarrow> seen ! nat v \<noteq> 0 \<or> i \<noteq> j \<and> (i = v \<and> a = j \<or> j = v \<and> b = i))))"
  using assms by (auto simp: nth_update_int)

text \<open>An edge that is not in the tree, or one after an error, changes nothing but the error.\<close>

lemma check_edge_outside:
  assumes t: "maxv + 1 \<le> int (length tree)" and "terr = err" "err \<le> 0"
    and out: "\<not> (err = 0 \<and> in_tree maxv tree (i, j))"
  shows "\<exists>e \<le> 0. check_edge maxv tree level i j (err, terr, seen, cnt) = Some (e, e, seen, cnt) \<and>
    (e = 0 \<longleftrightarrow> err = 0 \<and> edge_fine maxv tree level (i, j))"
proof -
  consider "err \<noteq> 0" | "err = 0" "i < 0 \<or> j < 0"
    | "err = 0" "0 \<le> i" "0 \<le> j" "maxv < i \<or> maxv < j"
    | "err = 0" "0 \<le> i" "0 \<le> j" "i \<le> maxv" "j \<le> maxv" "\<not> (0 \<le> tree ! nat i \<and> 0 \<le> tree ! nat j)"
    using out by (simp only: in_tree_def prod.case not_le [symmetric]) blast
  then show ?thesis
  proof cases
    case 1
    then show ?thesis using assms(2,3) by (simp add: check_edge_def Let_def)
  next
    case 2
    then show ?thesis using assms(2) by (auto simp: check_edge_def edge_fine_def)
  next
    case 3
    then show ?thesis using assms(2) by (auto simp: check_edge_def edge_fine_def Let_def)
  next
    case 4
    then show ?thesis using assms(2) t by (auto simp: check_edge_def edge_fine_def Let_def)
  qed
qed

lemma check_edge_returns:
  assumes t: "int (length level) = maxv + 1" "maxv + 1 \<le> int (length tree)"
    and u: "edges_upto maxv tree level es (err, terr, seen, cnt)" and b: "int (length es) + 1 < 2 ^ 31"
  shows "returns (check_edge maxv tree level i j (err, terr, seen, cnt)) (edges_upto maxv tree level (es @ [(i, j)]))"
proof (cases "err = 0 \<and> in_tree maxv tree (i, j)")
  case False
  have "terr = err" "err \<le> 0" using u by (auto simp: edges_upto_def)
  from check_edge_outside [OF t(2) this False] obtain e where "e \<le> 0"
    "check_edge maxv tree level i j (err, terr, seen, cnt) = Some (e, e, seen, cnt)"
    "e = 0 \<longleftrightarrow> err = 0 \<and> edge_fine maxv tree level (i, j)" by blast
  then show ?thesis using u False by (auto simp: edges_upto_def split: if_splits)
next
  case in_t: True
  then have True: "err = 0 \<and> 0 \<le> i \<and> 0 \<le> j \<and> i \<le> maxv \<and> j \<le> maxv \<and> 0 \<le> tree ! nat i \<and> 0 \<le> tree ! nat j"
    by (auto simp: in_tree_def)
  have s: "int (length seen) = maxv + 1" "terr = 0" "0 \<le> cnt" "cnt \<le> int (length es)"
    using u True by (auto simp: edges_upto_def)
  obtain seen' where seen': "(if i \<noteq> j then do {
                      seen \<leftarrow> (if tree ! nat i = j then aset seen i 1 else Some seen);
                      (if tree ! nat j = i then aset seen j 1 else Some seen) }
                    else Some seen) = Some seen'" "length seen' = length seen"
    "\<And>v. 0 \<le> v \<Longrightarrow> v \<le> maxv \<Longrightarrow>
       (seen' ! nat v \<noteq> 0 \<longleftrightarrow> seen ! nat v \<noteq> 0 \<or> i \<noteq> j \<and> (i = v \<and> tree ! nat i = j \<or> j = v \<and> tree ! nat j = i))"
    using mark_returns [OF s(1), of i j "tree ! nat i" "tree ! nat j"] True by (auto elim!: returnsE)
  have i: "i32 (cnt + 1) = Some (cnt + 1)" using s b by simp
  have "check_edge maxv tree level i j (err, terr, seen, cnt) =
      Some (let e = (if 1 < \<bar>level ! nat i - level ! nat j\<bar> then -14 else 0) in (e, e, seen', cnt + 1))"
    using True t s seen'(1) i by (auto simp: check_edge_def Let_def)
  moreover have "edges_upto maxv tree level (es @ [(i, j)])
      (let e = (if 1 < \<bar>level ! nat i - level ! nat j\<bar> then -14 else 0) in (e, e, seen', cnt + 1))"
    using True in_t u s seen'(2,3) by (auto simp: edges_upto_def Let_def edge_fine_def)
  ultimately show ?thesis by simp
qed

lemma edge_loop_eq:
  assumes "2 * nedge \<le> int (length IJ)"
  shows "for_range 0 nedge (\<lambda>e st. do {
               i \<leftarrow> aget IJ (2 * e);
               j \<leftarrow> aget IJ (2 * e + 1);
               f i j st }) s = for_each (\<lambda>(i, j). f i j) (edge_pairs IJ nedge) s"
  unfolding for_range_def edge_pairs_def for_each_map
  by (rule for_each_cong) (use assms in simp)

definition vertex_fine :: "int list \<Rightarrow> int list \<Rightarrow> int \<Rightarrow> bool" where
  "vertex_fine tree seen v \<longleftrightarrow> (0 \<le> tree ! nat v \<longrightarrow> seen ! nat v \<noteq> 0) \<and> tree ! nat v \<noteq> v"

lemma check_vertex_eq:
  assumes "0 \<le> i" "i < int (length tree)" "i < int (length seen)"
  shows "check_vertex tree seen root i err = Some (if err = 0 \<and> i \<noteq> root \<and> \<not> vertex_fine tree seen i
    then (if tree ! nat i = i then -16 else -15) else err)"
proof (cases "err = 0 \<and> i \<noteq> root")
  case True
  then show ?thesis using assms by (auto simp: check_vertex_def vertex_fine_def Let_def)
qed (auto simp: check_vertex_def)

lemma less_add1_all:
  "(\<forall>v::int. 0 \<le> v \<and> v < i + 1 \<longrightarrow> P v) \<longleftrightarrow> (\<forall>v. 0 \<le> v \<and> v < i \<longrightarrow> P v) \<and> (0 \<le> i \<longrightarrow> P i)"
proof -
  have "v < i + 1 \<longleftrightarrow> v < i \<or> v = i" for v by linarith
  then show ?thesis by blast
qed

lemma check_vertices_returns:
  assumes "0 \<le> n" "n \<le> int (length tree)" "n \<le> int (length seen)"
  shows "returns (for_range 0 n (check_vertex tree seen root) 0) (\<lambda>err. err \<le> 0 \<and> (err = 0 \<longleftrightarrow>
    (\<forall>v. 0 \<le> v \<and> v < n \<longrightarrow> v \<noteq> root \<longrightarrow> vertex_fine tree seen v)))"
proof (rule returns_for_range [where I = "\<lambda>k err. err \<le> 0 \<and> (err = 0 \<longleftrightarrow>
    (\<forall>v. 0 \<le> v \<and> v < k \<longrightarrow> v \<noteq> root \<longrightarrow> vertex_fine tree seen v))"])
  fix i err :: int
  assume i: "0 \<le> i" "i < n"
    and e: "err \<le> 0 \<and> (err = 0 \<longleftrightarrow> (\<forall>v. 0 \<le> v \<and> v < i \<longrightarrow> v \<noteq> root \<longrightarrow> vertex_fine tree seen v))"
  have "check_vertex tree seen root i err = Some (if err = 0 \<and> i \<noteq> root \<and> \<not> vertex_fine tree seen i
    then (if tree ! nat i = i then -16 else -15) else err)"
    using i assms by (intro check_vertex_eq) simp_all
  then show "returns (check_vertex tree seen root i err) (\<lambda>err. err \<le> 0 \<and> (err = 0 \<longleftrightarrow>
    (\<forall>v. 0 \<le> v \<and> v < i + 1 \<longrightarrow> v \<noteq> root \<longrightarrow> vertex_fine tree seen v)))"
    unfolding less_add1_all using i(1) e by (cases "err = 0") auto
qed (use assms in auto)

section \<open>The verdict\<close>

definition verify_rel :: "int \<Rightarrow> (int \<times> int) list \<Rightarrow> (int \<times> int) set" where
  "verify_rel maxv es = {(i, j). i \<noteq> j \<and> 0 \<le> i \<and> i \<le> maxv \<and> 0 \<le> j \<and> j \<le> maxv \<and>
     ((i, j) \<in> set es \<or> (j, i) \<in> set es)}"

definition edges_inside :: "int \<Rightarrow> (int \<times> int) list \<Rightarrow> bool" where
  "edges_inside maxv es \<longleftrightarrow> (\<forall>(i, j) \<in> set es. 0 \<le> i \<and> 0 \<le> j \<longrightarrow> (i \<le> maxv \<longleftrightarrow> j \<le> maxv))"

interpretation verified: graph "verify_rel maxv es" "maxv + 1" for maxv es
  by unfold_locales (auto simp: verify_rel_def)

text \<open>In a breadth-first tree every chain of parents ends at the root, after as many steps as the distance.\<close>

lemma bfs_tree_climbs:
  assumes t: "is_bfs_tree (verify_rel maxv es) (maxv + 1) root tree" and "0 \<le> v" "v \<le> maxv" "0 \<le> tree ! nat v"
  shows "climbs tree root (bfs_dist (verify_rel maxv es) root v) v"
proof -
  let ?E = "verify_rel maxv es"
  have "climbs tree root m v" if "bfs_dist ?E root v = m" "0 \<le> v" "v \<le> maxv" "0 \<le> tree ! nat v" for m v
    using that
  proof (induction m arbitrary: v)
    case 0
    then have "(root, v) \<in> ?E\<^sup>*" using t by (auto simp: is_bfs_tree_def)
    then have "v = root" using bfs_dist_path 0 by fastforce
    then show ?case by simp
  next
    case (Suc m)
    have r: "(root, v) \<in> ?E\<^sup>*" using t Suc.prems by (auto simp: is_bfs_tree_def)
    have nr: "v \<noteq> root" using Suc.prems by auto
    have u: "(tree ! nat v, v) \<in> ?E" "(root, tree ! nat v) \<in> ?E\<^sup>*" "bfs_dist ?E root (tree ! nat v) = m"
      using t Suc.prems r nr by (auto simp: is_bfs_tree_def)
    then have "0 \<le> tree ! nat v" "tree ! nat v \<le> maxv" using verified.in_range [OF u(1)] by auto
    moreover from this have "0 \<le> tree ! nat (tree ! nat v)" using t u(2) by (auto simp: is_bfs_tree_def)
    ultimately show ?case using Suc.IH u(3) nr by simp
  qed
  then show ?thesis using assms(2-4) by blast
qed

text \<open>The condition that the checks establish, and what it says.\<close>

definition passes :: "int \<Rightarrow> int list \<Rightarrow> int list \<Rightarrow> int \<Rightarrow> (int \<times> int) list \<Rightarrow> bool" where
  "passes maxv tree level root es \<longleftrightarrow> (\<forall>e \<in> set es. edge_fine maxv tree level e) \<and>
     (\<forall>v. 0 \<le> v \<and> v \<le> maxv \<longrightarrow> v \<noteq> root \<longrightarrow> 0 \<le> tree ! nat v \<longrightarrow> marked maxv tree es v)"

lemma levels_climb:
  assumes "levels_upto (maxv + 1) tree root (maxv + 1) (level, 0)" "0 \<le> v" "v \<le> maxv"
  shows "0 \<le> tree ! nat v \<Longrightarrow> 0 \<le> level ! nat v \<and> climbs tree root (nat (level ! nat v)) v"
proof -
  assume "0 \<le> tree ! nat v"
  then have "0 \<le> level ! nat v" "levels_ok (maxv + 1) tree root level"
    using assms by (auto simp: levels_upto_def levelled_def)
  then show ?thesis using levels_okD(3) assms(2,3) by fastforce
qed

lemma nat_le_Suc: "\<bar>a - b\<bar> \<le> 1 \<Longrightarrow> nat b \<le> Suc (nat a)"
  by linarith

lemma passes_sound:
  assumes p: "parents_ok (maxv + 1) tree root" and l: "levels_upto (maxv + 1) tree root (maxv + 1) (level, 0)"
    and a: "passes maxv tree level root es"
  shows "is_bfs_tree (verify_rel maxv es) (maxv + 1) root tree"
proof (rule is_bfs_treeI [where d = "\<lambda>v. nat (level ! nat v)"])
  show "nat (maxv + 1) \<le> length tree" "tree ! nat root = root" "0 \<le> root" "root < maxv + 1"
    using p by (auto simp: parents_ok_def)
  show "nat (level ! nat root) = 0" using l by (simp add: levels_upto_def levels_ok_def)
next
  fix v assume v: "0 \<le> v" "v < maxv + 1" "v \<noteq> root" "0 \<le> tree ! nat v"
  have c: "0 \<le> level ! nat v" "climbs tree root (nat (level ! nat v)) v" using levels_climb [OF l] v by auto
  then obtain m where m: "nat (level ! nat v) = Suc m" using v(3) by (cases "nat (level ! nat v)") auto
  note P = climbs_parent [OF p c(2) [unfolded m] v(1,2)]
  have "marked maxv tree es v" using a v by (auto simp: passes_def)
  then have e: "(tree ! nat v, v) \<in> verify_rel maxv es" "0 \<le> tree ! nat (tree ! nat v)"
    by (auto simp: marked_def verify_rel_def in_tree_def)
  have c': "climbs tree root (nat (level ! nat (tree ! nat v))) (tree ! nat v)"
    using levels_climb [OF l, of "tree ! nat v"] P e(2) by auto
  have "nat (level ! nat (tree ! nat v)) = m" using climbs_unique [OF c' P(3)] .
  then show "tree ! nat v < maxv + 1 \<and> 0 \<le> tree ! nat (tree ! nat v) \<and> (tree ! nat v, v) \<in> verify_rel maxv es \<and>
      nat (level ! nat v) = Suc (nat (level ! nat (tree ! nat v)))"
    using P e m by simp
next
  fix u w assume u: "0 \<le> u" "u < maxv + 1" "0 \<le> tree ! nat u" and e: "(u, w) \<in> verify_rel maxv es"
  have w: "0 \<le> w" "w \<le> maxv" using e by (auto simp: verify_rel_def)
  have "edge_fine maxv tree level (u, w) \<or> edge_fine maxv tree level (w, u)"
    using e a by (auto simp: verify_rel_def passes_def)
  then have "0 \<le> tree ! nat w" "\<bar>level ! nat u - level ! nat w\<bar> \<le> 1" using u w by (auto simp: edge_fine_def)
  then show "0 \<le> w \<and> w < maxv + 1 \<and> 0 \<le> tree ! nat w \<and> nat (level ! nat w) \<le> Suc (nat (level ! nat u))"
    using w nat_le_Suc by auto
qed

lemma passes_complete:
  assumes t: "is_bfs_tree (verify_rel maxv es) (maxv + 1) root tree" and i: "edges_inside maxv es"
    and l: "levels_upto (maxv + 1) tree root (maxv + 1) (level, 0)"
  shows "passes maxv tree level root es"
proof -
  let ?E = "verify_rel maxv es"
  have lev: "level ! nat v = int (bfs_dist ?E root v)" if "0 \<le> v" "v \<le> maxv" "0 \<le> tree ! nat v" for v
    using climbs_unique [OF bfs_tree_climbs [OF t that]] levels_climb [OF l that(1,2) that(3)] by fastforce
  have reach: "0 \<le> tree ! nat v \<longleftrightarrow> (root, v) \<in> ?E\<^sup>*" if "0 \<le> v" "v \<le> maxv" for v
    using t that by (auto simp: is_bfs_tree_def)
  have "edge_fine maxv tree level (i, j)" if ij: "(i, j) \<in> set es" for i j
  proof (cases "0 \<le> i \<and> 0 \<le> j \<and> i \<le> maxv \<and> i \<noteq> j")
    case False
    then show ?thesis using i ij by (auto simp: edge_fine_def edges_inside_def)
  next
    case True
    then have j: "j \<le> maxv" using i ij by (auto simp: edges_inside_def)
    have E: "(i, j) \<in> ?E" "(j, i) \<in> ?E" using True j ij by (auto simp: verify_rel_def)
    have r: "(root, i) \<in> ?E\<^sup>* \<longleftrightarrow> (root, j) \<in> ?E\<^sup>*" using E by (meson rtrancl.rtrancl_into_rtrancl)
    have "\<bar>level ! nat i - level ! nat j\<bar> \<le> 1" if "0 \<le> tree ! nat i"
      using bfs_dist_edge [OF _ E(1)] bfs_dist_edge [OF _ E(2)] lev [of i] lev [of j] reach [of i] reach [of j] r True j that
      by fastforce
    then show ?thesis using r reach [of i] reach [of j] True j by (simp add: edge_fine_def)
  qed
  moreover have "marked maxv tree es v" if v: "0 \<le> v" "v \<le> maxv" "v \<noteq> root" "0 \<le> tree ! nat v" for v
  proof -
    have "(root, v) \<in> ?E\<^sup>*" using reach v by simp
    then have e: "(tree ! nat v, v) \<in> ?E" "(root, tree ! nat v) \<in> ?E\<^sup>*" using t v by (auto simp: is_bfs_tree_def)
    then have "0 \<le> tree ! nat (tree ! nat v)" using reach verified.in_range [OF e(1)] by auto
    then show ?thesis using e v by (auto simp: marked_def verify_rel_def in_tree_def)
  qed
  ultimately show ?thesis by (auto simp: passes_def)
qed

lemma passes_inside: "passes maxv tree level root es \<Longrightarrow> edges_inside maxv es"
  by (auto simp: passes_def edge_fine_def edges_inside_def)

lemma no_chain_no_tree:
  "no_chain (maxv + 1) tree root \<Longrightarrow> \<not> is_bfs_tree (verify_rel maxv es) (maxv + 1) root tree"
  unfolding no_chain_def using bfs_tree_climbs by fastforce

lemma check_loop_returns:
  assumes t: "int (length level) = maxv + 1" "maxv + 1 \<le> int (length tree)"
    and s: "int (length seen) = maxv + 1" "\<And>v. 0 \<le> v \<Longrightarrow> v \<le> maxv \<Longrightarrow> seen ! nat v = 0"
    and b: "int (length es) < 2 ^ 31"
  shows "returns (for_each (\<lambda>(i, j). check_edge maxv tree level i j) es (0, 0, seen, 0)) (edges_upto maxv tree level es)"
proof (rule returns_for_each [where I = "edges_upto maxv tree level"])
  show "edges_upto maxv tree level [] (0, 0, seen, 0)" using s by (simp add: edges_upto_def)
  fix ds e rest st
  assume es: "es = ds @ e # rest" and st: "edges_upto maxv tree level ds st"
  obtain i j where e: "e = (i, j)" by (cases e)
  obtain err terr sn cnt where st4: "st = (err, terr, sn, cnt)" by (cases st)
  have "int (length ds) + 1 < 2 ^ 31" using b es by simp
  then show "returns ((case e of (i, j) \<Rightarrow> check_edge maxv tree level i j) st) (edges_upto maxv tree level (ds @ [e]))"
    using check_edge_returns [OF t] st unfolding e st4 by simp
qed

lemma verdict_returns:
  assumes p: "parents_ok (maxv + 1) tree root" and l: "levels_upto (maxv + 1) tree root (maxv + 1) (level, 0)"
    and IJ: "2 * nedge \<le> int (length IJ)" "0 \<le> nedge" "nedge < 2 ^ 31" and b: "int (length block) = maxv + 1"
  shows "returns (check_edges block maxv tree level root IJ nedge)
     (\<lambda>(err, cnt). err \<le> 0 \<and> (err = 0 \<longleftrightarrow> passes maxv tree level root (edge_pairs IJ nedge)) \<and>
        (err = 0 \<longrightarrow> cnt = int (length (filter (in_tree maxv tree) (edge_pairs IJ nedge)))))"
proof -
  let ?es = "edge_pairs IJ nedge"
  have n: "0 \<le> maxv + 1" "maxv + 1 \<le> int (length tree)" using p by (auto simp: parents_ok_def)
  have len: "int (length level) = maxv + 1" using l by (simp add: levels_upto_def)
  obtain seen0 where s0: "for_range 0 (maxv + 1) (\<lambda>k s. aset s k 0) block = Some seen0" "seen0 = replicate (nat (maxv + 1)) 0"
    by (rule returnsE [OF fill_returns [of "maxv + 1" block 0]]) (use n b in auto)
  have small: "int (length ?es) < 2 ^ 31" using IJ by (simp add: edge_pairs_def)
  obtain err terr seen cnt where e:
    "for_each (\<lambda>(i, j). check_edge maxv tree level i j) ?es (0, 0, seen0, 0) = Some (err, terr, seen, cnt)"
    "edges_upto maxv tree level ?es (err, terr, seen, cnt)"
    by (rule returnsE [OF check_loop_returns [OF len n(2), of seen0 ?es]]) (use n s0(2) small in auto)
  show ?thesis
  proof (cases "err = 0")
    case False
    then show ?thesis
      using e s0(1) IJ(1) by (auto simp: check_edges_def edge_loop_eq edges_upto_def passes_def)
  next
    case True
    have u: "terr = 0" "int (length seen) = maxv + 1" "\<forall>e \<in> set ?es. edge_fine maxv tree level e"
      "cnt = int (length (filter (in_tree maxv tree) ?es))"
      "\<And>v. 0 \<le> v \<Longrightarrow> v \<le> maxv \<Longrightarrow> (seen ! nat v \<noteq> 0 \<longleftrightarrow> marked maxv tree ?es v)"
      using e(2) True by (auto simp: edges_upto_def)
    obtain err' where c: "for_range 0 (maxv + 1) (check_vertex tree seen root) 0 = Some err'" "err' \<le> 0"
      "err' = 0 \<longleftrightarrow> (\<forall>v. 0 \<le> v \<and> v < maxv + 1 \<longrightarrow> v \<noteq> root \<longrightarrow> vertex_fine tree seen v)"
      by (rule returnsE [OF check_vertices_returns [OF n, of seen root]]) (use u in auto)
    have "vertex_fine tree seen v \<longleftrightarrow> (0 \<le> tree ! nat v \<longrightarrow> marked maxv tree ?es v)"
      if "0 \<le> v" "v \<le> maxv" "v \<noteq> root" for v
      using that u(5) [of v] p by (auto simp: vertex_fine_def parents_ok_def)
    then have "err' = 0 \<longleftrightarrow> passes maxv tree level root ?es"
      unfolding c(3) passes_def using u(3) by auto
    then show ?thesis using e(1) s0(1) IJ(1) c u True by (simp add: check_edges_def edge_loop_eq)
  qed
qed

lemma verify_returns:
  assumes p: "parents_ok (maxv + 1) tree root" and big: "maxv + 1 < 2 ^ 60"
    and IJ: "2 * nedge \<le> int (length IJ)" "0 \<le> nedge" "nedge < 2 ^ 31"
    and alloc: "alloc (2 * (maxv + 1) * 8) = Some block" "int (length block) = 2 * (maxv + 1)"
  shows "returns (verify_bfs_tree alloc True ckpt True tree maxv root IJ nedge) (\<lambda>r.
    (0 \<le> r \<longleftrightarrow> is_bfs_tree (verify_rel maxv (edge_pairs IJ nedge)) (maxv + 1) root tree \<and>
       edges_inside maxv (edge_pairs IJ nedge)) \<and>
    (0 \<le> r \<longrightarrow> r = int (length (filter (in_tree maxv tree) (edge_pairs IJ nedge)))))"
proof -
  let ?n = "maxv + 1" and ?es = "edge_pairs IJ nedge"
  have r: "0 \<le> root" "root \<le> maxv" "root < int (length tree)" "tree ! nat root = root"
    using p by (auto simp: parents_ok_def)
  have n: "i64 ?n = Some ?n" "i64 (2 * ?n) = Some (2 * ?n)" "2 * ?n * 8 mod 2 ^ 64 = 2 * ?n * 8" using r big by simp_all
  have bl: "int (length (drop (nat ?n) block)) = ?n" "int (length (take (nat ?n) block)) = ?n" using alloc(2) r by auto
  obtain level err where cl: "compute_levels (drop (nat ?n) block) ?n tree root = Some (level, err)"
    "levels_upto ?n tree root ?n (level, err)"
    using compute_levels_returns [OF p bl(1)] by (auto elim!: returnsE)
  show ?thesis
  proof (cases "err = 0")
    case False
    then have "no_chain ?n tree root" "err < 0" using cl(2) by (auto simp: levels_upto_def)
    then show ?thesis
      using no_chain_no_tree [of maxv tree root ?es] False r n alloc(1) cl(1) by (simp add: verify_bfs_tree_def)
  next
    case True
    have l: "levels_upto ?n tree root ?n (level, 0)" using cl(2) True by simp
    have iff: "passes maxv tree level root ?es \<longleftrightarrow> is_bfs_tree (verify_rel maxv ?es) ?n root tree \<and> edges_inside maxv ?es"
      using passes_sound [OF p l] passes_complete [OF _ _ l] passes_inside by blast
    obtain err' cnt where v: "check_edges (take (nat ?n) block) maxv tree level root IJ nedge = Some (err', cnt)"
      "err' \<le> 0" "err' = 0 \<longleftrightarrow> passes maxv tree level root ?es"
      "err' = 0 \<longrightarrow> cnt = int (length (filter (in_tree maxv tree) ?es))"
      by (rule returnsE [OF verdict_returns [OF p l IJ bl(2)]]) auto
    then show ?thesis
      using r n alloc(1) cl(1) True iff by (auto simp: verify_bfs_tree_def)
  qed
qed

text \<open>C4: \<open>verify_bfs_tree\<close> decides: for any array of parents below the number of vertices in which only the
  root is its own parent, it returns a non-negative number exactly when the array is a breadth-first tree of
  the input edges and no edge leaves the range of the tree, and the number is the count of the input
  edges inside the tree.\<close>

theorem verify_bfs_tree_decides:
  assumes "parents_ok (maxv + 1) tree root" and "maxv + 1 < 2 ^ 60"
    and "2 * nedge \<le> int (length IJ)" "0 \<le> nedge" "nedge < 2 ^ 31"
    and "alloc (2 * (maxv + 1) * 8) = Some block" "int (length block) = 2 * (maxv + 1)"
  shows "\<exists>r. verify_bfs_tree alloc True ckpt True tree maxv root IJ nedge = Some r \<and>
    (0 \<le> r \<longleftrightarrow> is_bfs_tree (verify_rel maxv (edge_pairs IJ nedge)) (maxv + 1) root tree \<and>
       edges_inside maxv (edge_pairs IJ nedge)) \<and>
    (0 \<le> r \<longrightarrow> r = int (length (filter (in_tree maxv tree) (edge_pairs IJ nedge))))"
  using verify_returns [of maxv tree root nedge IJ alloc block ckpt, OF assms] by (simp add: returns_iff)

theorem verify_bfs_tree_decides_witness:
  "\<exists>r. verify_bfs_tree (\<lambda>_. Some [0, 0, 0, 0, 0, 0]) True (-1) True [0, 0, 1] 2 0 [0, 1, 1, 2] 2 = Some r \<and>
    (0 \<le> r \<longleftrightarrow> is_bfs_tree (verify_rel 2 (edge_pairs [0, 1, 1, 2] 2)) (2 + 1) 0 [0, 0, 1] \<and>
       edges_inside 2 (edge_pairs [0, 1, 1, 2] 2)) \<and>
    (0 \<le> r \<longrightarrow> r = int (length (filter (in_tree 2 [0, 0, 1]) (edge_pairs [0, 1, 1, 2] 2))))"
proof (rule verify_bfs_tree_decides [where block = "[0, 0, 0, 0, 0, 0]"])
  have "v = 0 \<or> v = 1 \<or> v = 2" if "0 \<le> v" "v < 3" for v :: int using that by linarith
  then show "parents_ok (2 + 1) [0, 0, 1] 0" by (fastforce simp: parents_ok_def)
qed simp_all

section \<open>A second root\<close>

text \<open>A path of parents, none of which is its own parent.\<close>

primrec path :: "int list \<Rightarrow> nat \<Rightarrow> int \<Rightarrow> int \<Rightarrow> bool" where
  "path tree 0 p q \<longleftrightarrow> p = q"
| "path tree (Suc m) p q \<longleftrightarrow> tree ! nat p \<noteq> p \<and> path tree m (tree ! nat p) q"

lemma path_snoc: "path tree m p q \<Longrightarrow> tree ! nat q \<noteq> q \<Longrightarrow> path tree (Suc m) p (tree ! nat q)"
  by (induction m arbitrary: p) auto

lemma climb_result:
  assumes "climb level tree n (k, 0) = Some (q, h)" "0 \<le> q" "h < n"
  shows "\<exists>m. path tree m k q" "0 \<le> level ! nat q"
proof -
  have "(\<lambda>(q, h). \<exists>m. path tree m k q) (q, h) \<and> (case (q, h) of (parent, nhop) \<Rightarrow>
        if parent < 0 then Some False else do { l \<leftarrow> aget level parent; Some (l < 0 \<and> nhop < n) }) = Some False"
  proof (rule while_result [OF assms(1) [unfolded climb_def]])
    show "(\<lambda>(q, h). \<exists>m. path tree m k q) (k, 0)" by (simp add: exI [of _ 0])
    fix s s' :: "int \<times> int" assume I: "(\<lambda>(q, h). \<exists>m. path tree m k q) s"
      and c: "(case s of (parent, nhop) \<Rightarrow> do { p \<leftarrow> aget tree parent; c_assert (parent \<noteq> p); Some (p, nhop + 1) }) = Some s'"
    obtain q h m where s: "s = (q, h)" "path tree m k q" using I by (cases s) auto
    have "s' = (tree ! nat q, h + 1)" "tree ! nat q \<noteq> q" using c by (auto simp: s Option.bind_eq_Some_conv)
    then show "(\<lambda>(q, h). \<exists>m. path tree m k q) s'" using path_snoc [OF s(2)] by blast
  qed
  then show "\<exists>m. path tree m k q" "0 \<le> level ! nat q" using assms(2,3) by (auto simp: Option.bind_eq_Some_conv)
qed

text \<open>The levels are assigned on the path only, so a vertex that is its own parent keeps its level.\<close>

lemma assign_levels_result:
  assumes "assign_levels tree (level, k, h) = Some (level', p', h')" "path tree m k q" "0 \<le> level ! nat q"
    and v: "0 \<le> v" "tree ! nat v = v" "level ! nat v < 0"
  shows "level' ! nat v < 0"
proof -
  have "(\<lambda>(l, p, h). (\<exists>m. path tree m p q) \<and> 0 \<le> l ! nat q \<and> l ! nat v < 0) (level', p', h') \<and>
      (case (level', p', h') of (level, parent, nhop) \<Rightarrow> do { l \<leftarrow> aget level parent; Some (l < 0) }) = Some False"
  proof (rule while_result [OF assms(1) [unfolded assign_levels_def]])
    show "(\<lambda>(l, p, h). (\<exists>m. path tree m p q) \<and> 0 \<le> l ! nat q \<and> l ! nat v < 0) (level, k, h)" using assms by auto
    fix s s' :: "int list \<times> int \<times> int" assume I: "(\<lambda>(l, p, h). (\<exists>m. path tree m p q) \<and> 0 \<le> l ! nat q \<and> l ! nat v < 0) s"
      and b: "(case s of (level, parent, nhop) \<Rightarrow> do { l \<leftarrow> aget level parent; Some (l < 0) }) = Some True"
      and c: "(case s of (level, parent, nhop) \<Rightarrow> do {
        c_assert (0 < nhop);
        level \<leftarrow> aset level parent nhop;
        p \<leftarrow> aget tree parent;
        Some (level, p, nhop - 1) }) = Some s'"
    obtain l p h where s: "s = (l, p, h)" by (cases s)
    obtain m where m: "path tree m p q" "0 \<le> l ! nat q" "l ! nat v < 0" using I by (auto simp: s)
    have p: "0 \<le> p" "l ! nat p < 0" "s' = (l[nat p := h], tree ! nat p, h - 1)"
      using b c by (auto simp: s Option.bind_eq_Some_conv split: if_splits)
    have "nat p \<noteq> nat q"
    proof
      assume "nat p = nat q"
      then have "l ! nat p = l ! nat q" by (rule arg_cong)
      then show False using m(2) p(2) by linarith
    qed
    then obtain m' where "tree ! nat p \<noteq> p" "path tree m' (tree ! nat p) q" using m(1) by (cases m) auto
    moreover from this have "nat p \<noteq> nat v" using v(1,2) p(1) by auto
    ultimately show "(\<lambda>(l, p, h). (\<exists>m. path tree m p q) \<and> 0 \<le> l ! nat q \<and> l ! nat v < 0) s'"
      using m(2,3) \<open>nat p \<noteq> nat q\<close> by (auto simp: p(3))
  qed
  then show ?thesis by simp
qed

text \<open>What the levels of a run say: the error is -1 or -2, and without an error a vertex that is its own parent but not the
  root has no level, which the loop does not get past.\<close>

definition lone_roots :: "int \<Rightarrow> int list \<Rightarrow> int \<Rightarrow> int \<Rightarrow> int list \<times> int \<Rightarrow> bool" where
  "lone_roots n tree root k = (\<lambda>(level, err). err \<in> {0, -1, -2} \<and>
     (err = 0 \<longrightarrow> (\<forall>v. 0 \<le> v \<and> v < n \<and> v \<noteq> root \<and> tree ! nat v = v \<longrightarrow> k \<le> v \<and> level ! nat v < 0)))"

lemma level_vertex_result:
  assumes r: "level_vertex n tree root k (level, err) = Some s" and k: "0 \<le> k" "k < n"
    and I: "lone_roots n tree root k (level, err)"
  shows "lone_roots n tree root (k + 1) s"
proof (cases "err = 0 \<and> level ! nat k < 0 \<and> 0 \<le> tree ! nat k \<and> k \<noteq> root")
  case False
  have same: "s = (level, err)" using r False by (auto simp: level_vertex_def Option.bind_eq_Some_conv split: if_splits)
  have "k + 1 \<le> v" if "err = 0" "0 \<le> v" "v < n" "v \<noteq> root" "tree ! nat v = v" for v
  proof -
    have "k \<le> v" "level ! nat v < 0" using I that by (auto simp: lone_roots_def)
    moreover have "k \<noteq> v" using False that calculation by auto
    ultimately show ?thesis by simp
  qed
  then show ?thesis using I by (auto simp: same lone_roots_def)
next
  case True
  obtain q h where c: "climb level tree n (k, 0) = Some (q, h)"
    using r True by (auto simp: level_vertex_def Option.bind_eq_Some_conv split: if_splits)
  have own: "tree ! nat k \<noteq> k"
  proof
    assume e: "tree ! nat k = k"
    have "climb level tree n (k, 0) = None"
      unfolding climb_def using e k True by (subst c_while.simps) (auto simp: Option.bind_eq_None_conv aget_def)
    then show False using c by simp
  qed
  show ?thesis
  proof (cases "n \<le> h \<or> q < 0")
    case True
    then have "s = (level, -1) \<or> s = (level, -2)"
      using r c \<open>err = 0 \<and> level ! nat k < 0 \<and> 0 \<le> tree ! nat k \<and> k \<noteq> root\<close>
      by (auto simp: level_vertex_def Let_def Option.bind_eq_Some_conv split: if_splits)
    then show ?thesis by (auto simp: lone_roots_def)
  next
    case False
    obtain level' p' h' where a: "assign_levels tree (level, k, h + level ! nat q) = Some (level', p', h')" "s = (level', 0)"
      using r c True False by (auto simp: level_vertex_def Let_def Option.bind_eq_Some_conv split: if_splits prod.splits)
    obtain m where m: "path tree m k q" "0 \<le> level ! nat q" using climb_result [OF c] False by auto
    have "k + 1 \<le> v \<and> level' ! nat v < 0" if v: "0 \<le> v" "v < n" "v \<noteq> root" "tree ! nat v = v" for v
    proof -
      have "k \<le> v" "level ! nat v < 0" using I v True by (auto simp: lone_roots_def)
      moreover have "k \<noteq> v" using own v by auto
      ultimately show ?thesis using assign_levels_result [OF a(1) m v(1,4)] by simp
    qed
    then show ?thesis by (auto simp: a(2) lone_roots_def)
  qed
qed

lemma compute_levels_result:
  assumes "compute_levels block n tree root = Some (level, err)" "0 \<le> n"
  shows "err \<in> {0, -1, -2}" "err = 0 \<Longrightarrow> 0 \<le> v \<Longrightarrow> v < n \<Longrightarrow> v \<noteq> root \<Longrightarrow> tree ! nat v \<noteq> v"
proof -
  obtain lv where lv: "for_range 0 n (\<lambda>k l. aset l k (if k = root then 0 else -1)) block = Some lv"
    "for_range 0 n (level_vertex n tree root) (lv, 0) = Some (level, err)"
    using assms(1) by (auto simp: compute_levels_def Option.bind_eq_Some_conv)
  have "\<forall>v. 0 \<le> v \<and> v < n \<and> v \<noteq> root \<longrightarrow> lv ! nat v = -1"
    by (rule for_range_result [OF lv(1), where I = "\<lambda>k l. \<forall>v. 0 \<le> v \<and> v < k \<and> v \<noteq> root \<longrightarrow> l ! nat v = -1"])
      (use assms(2) in \<open>auto simp: nth_list_update\<close>)
  then have "lone_roots n tree root 0 (lv, 0)" by (auto simp: lone_roots_def)
  then have "lone_roots n tree root n (level, err)"
    by (rule for_range_result [OF lv(2), where I = "lone_roots n tree root"]) (use assms(2) level_vertex_result in \<open>auto simp del: lone_roots_def\<close>)
  then show "err \<in> {0, -1, -2}" "err = 0 \<Longrightarrow> 0 \<le> v \<Longrightarrow> v < n \<Longrightarrow> v \<noteq> root \<Longrightarrow> tree ! nat v \<noteq> v"
    by (auto simp: lone_roots_def)
qed

lemma check_edge_result:
  assumes "check_edge maxv tree level i j (err, terr, seen, cnt) = Some (err', terr', seen', cnt')" "-14 \<le> err" "0 \<le> cnt"
  shows "-14 \<le> err' \<and> 0 \<le> cnt'"
  using assms by (auto simp: check_edge_def Let_def Option.bind_eq_Some_conv i32_def split: if_splits)

lemma check_edges_result:
  assumes "check_edges seen maxv tree level root IJ nedge = Some (err, cnt)" "0 \<le> maxv + 1" "0 \<le> nedge"
    and one: "\<And>v. 0 \<le> v \<Longrightarrow> v \<le> maxv \<Longrightarrow> v \<noteq> root \<Longrightarrow> tree ! nat v \<noteq> v"
  shows "-15 \<le> err" "0 \<le> cnt"
proof -
  obtain seen1 err1 terr1 seen2 where e: "for_range 0 nedge (\<lambda>e st. do {
       i \<leftarrow> aget IJ (2 * e);
       j \<leftarrow> aget IJ (2 * e + 1);
       check_edge maxv tree level i j st }) (0, 0, seen1, 0) = Some (err1, terr1, seen2, cnt)"
    and v: "(if terr1 = 0 then for_range 0 (maxv + 1) (check_vertex tree seen2 root) err1 else Some err1) = Some err"
    using assms(1) by (auto simp: check_edges_def Option.bind_eq_Some_conv)
  have "(\<lambda>(err, terr, seen, cnt). -14 \<le> err \<and> 0 \<le> cnt) (err1, terr1, seen2, cnt)"
    by (rule for_range_result [OF e, where I = "\<lambda>_ (err, terr, seen, cnt). -14 \<le> err \<and> 0 \<le> cnt"])
      (use assms(3) check_edge_result in \<open>auto simp: Option.bind_eq_Some_conv simp del: of_int_add\<close>)
  then have b: "-15 \<le> err1" "0 \<le> cnt" by simp_all
  show "0 \<le> cnt" by (rule b(2))
  show "-15 \<le> err"
  proof (cases "terr1 = 0")
    case True
    then have "for_range 0 (maxv + 1) (check_vertex tree seen2 root) err1 = Some err" using v by simp
    then show ?thesis
    proof (rule for_range_result [where I = "\<lambda>_ err. -15 \<le> err"])
      fix k s s' assume "0 \<le> k" "k < maxv + 1" "-15 \<le> s" "check_vertex tree seen2 root k s = Some s'"
      then show "-15 \<le> s'" using one [of k] by (auto simp: check_vertex_def Let_def Option.bind_eq_Some_conv split: if_splits)
    qed (use b assms(2) in auto)
  qed (use v b in simp)
qed



end
