(* ===== verification/Bfs_Verified.thy ===== *)
theory Bfs_Verified
  imports Seq_Csr Verify_Bfs
begin

text \<open>
  The searches and the checker together, as \<open>graph500.c\<close> runs them: the checker reads the same array of
  edges, as pairs of 64-bit integers, and accepts every tree that meets the specification of \<open>Bfs_Spec\<close>.
\<close>

text \<open>The array of edge records, read as an array of integers.\<close>

definition as_int64 :: "packed_edge list \<Rightarrow> int list" where
  "as_int64 es = concat (List.map (\<lambda>e. [v0 e, v1 e]) es)"

lemma as_int64_simps [simp]:
  "as_int64 [] = []" "as_int64 (e # es) = v0 e # v1 e # as_int64 es"
  by (simp_all add: as_int64_def)

lemma length_as_int64 [simp]: "length (as_int64 es) = 2 * length es"
  by (induction es) auto

lemma as_int64_nth:
  "i < length es \<Longrightarrow> as_int64 es ! (2 * i) = v0 (es ! i) \<and> as_int64 es ! (2 * i + 1) = v1 (es ! i)"
proof (induction es arbitrary: i)
  case (Cons e es)
  then show ?case by (cases i) auto
qed simp

lemma edge_pairs_as_int64: "edge_pairs (as_int64 es) (int (length es)) = List.map (\<lambda>e. (v0 e, v1 e)) es"
proof (rule nth_equalityI)
  fix i assume "i < length (edge_pairs (as_int64 es) (int (length es)))"
  then have i: "i < length es" by (simp add: edge_pairs_def)
  have "nat (2 * int i) = 2 * i" "nat (2 * int i + 1) = 2 * i + 1" by simp_all
  then show "edge_pairs (as_int64 es) (int (length es)) ! i = List.map (\<lambda>e. (v0 e, v1 e)) es ! i"
    using i as_int64_nth [OF i] by (simp add: edge_pairs_def)
qed (simp add: edge_pairs_def)

lemma verify_rel_as_int64:
  "verify_rel (max_endpoint es) (List.map (\<lambda>e. (v0 e, v1 e)) es) = edge_rel es"
proof -
  have "v0 e \<le> max_endpoint es \<and> v1 e \<le> max_endpoint es" if "e \<in> set es" for e
    using max_endpoint_ge(2) [OF that] by (simp add: get_v0_from_edge_def get_v1_from_edge_def)
  then show ?thesis
    by (auto simp: verify_rel_def edge_rel_def get_v0_from_edge_def get_v1_from_edge_def image_iff)
qed

lemma edges_inside_as_int64: "edges_inside (max_endpoint es) (List.map (\<lambda>e. (v0 e, v1 e)) es)"
  using max_endpoint_ge(2) [of _ es]
  by (fastforce simp: edges_inside_def get_v0_from_edge_def get_v1_from_edge_def)

text \<open>The number of input edges that the search traversed.\<close>

definition traversed :: "packed_edge list \<Rightarrow> int \<Rightarrow> nat" where
  "traversed es r = length (filter (\<lambda>e. 0 \<le> v0 e \<and> 0 \<le> v1 e \<and> (r, v0 e) \<in> (edge_rel es)\<^sup>* \<and> (r, v1 e) \<in> (edge_rel es)\<^sup>*) es)"

lemma bfs_tree_parents_ok:
  assumes t: "is_bfs_tree (edge_rel es) (1 + max_endpoint es) r tree" and r: "0 \<le> r" "r \<le> max_endpoint es"
  shows "parents_ok (max_endpoint es + 1) tree r"
proof -
  have "tree ! nat v < max_endpoint es + 1 \<and> (v \<noteq> r \<longrightarrow> tree ! nat v \<noteq> v)"
    if v: "0 \<le> v" "v \<le> max_endpoint es" for v
  proof (cases "0 \<le> tree ! nat v \<and> v \<noteq> r")
    case True
    then have "(tree ! nat v, v) \<in> edge_rel es" using t v by (auto simp: is_bfs_tree_def)
    moreover from this have "tree ! nat v \<noteq> v" by (simp add: edge_rel_def)
    ultimately show ?thesis using edges.in_range [of "tree ! nat v" v es] by simp
  next
    case False
    then show ?thesis using t v r by (auto simp: is_bfs_tree_def)
  qed
  moreover have "nat (1 + max_endpoint es) \<le> length tree" "tree ! nat r = r" using t by (auto simp: is_bfs_tree_def)
  ultimately show ?thesis using r by (auto simp: parents_ok_def add.commute)
qed

lemma bfs_tree_verifies:
  assumes t: "is_bfs_tree (edge_rel es) (1 + max_endpoint es) r tree" and r: "0 \<le> r" "r \<le> max_endpoint es"
    and big: "max_endpoint es < 2 ^ 58" "int (length es) < 2 ^ 31"
    and alloc: "alloc (2 * (max_endpoint es + 1) * 8) = Some block" "alloc_ok alloc"
  shows "verify_bfs_tree alloc True ckpt True tree (max_endpoint es) r (as_int64 es) (int (length es)) =
    Some (int (traversed es r))"
proof -
  let ?m = "max_endpoint es" and ?P = "List.map (\<lambda>e. (v0 e, v1 e)) es"
  have p: "parents_ok (?m + 1) tree r" using bfs_tree_parents_ok [OF t r] .
  have "0 \<le> 2 * (?m + 1) * 8" using r by simp
  then have "int (length block) = 2 * (?m + 1) * 8 div 8" using alloc unfolding alloc_ok_def by blast
  then have b: "int (length block) = 2 * (?m + 1)" by simp
  obtain c where c: "verify_bfs_tree alloc True ckpt True tree ?m r (as_int64 es) (int (length es)) = Some c"
    "0 \<le> c \<longleftrightarrow> is_bfs_tree (verify_rel ?m ?P) (?m + 1) r tree \<and> edges_inside ?m ?P"
    "0 \<le> c \<longrightarrow> c = int (length (filter (in_tree ?m tree) ?P))"
    by (rule returnsE [OF verify_returns [where maxv = ?m and nedge = "int (length es)" and IJ = "as_int64 es"
        and ckpt = ckpt and alloc = alloc and block = block, OF p _ _ _ _ alloc(1) b]])
      (use big in \<open>simp_all add: edge_pairs_as_int64\<close>)
  have "c = int (length (filter (in_tree ?m tree) ?P))"
    using c(2,3) t verify_rel_as_int64 edges_inside_as_int64 by (simp add: add.commute)
  also have "length (filter (in_tree ?m tree) ?P) = traversed es r"
  proof -
    have "in_tree ?m tree (v0 e, v1 e) \<longleftrightarrow>
        0 \<le> v0 e \<and> 0 \<le> v1 e \<and> (r, v0 e) \<in> (edge_rel es)\<^sup>* \<and> (r, v1 e) \<in> (edge_rel es)\<^sup>*" if "e \<in> set es" for e
    proof -
      have "v0 e \<le> ?m" "v1 e \<le> ?m"
        using max_endpoint_ge(2) [OF that] by (simp_all add: get_v0_from_edge_def get_v1_from_edge_def)
      moreover have "0 \<le> tree ! nat v \<longleftrightarrow> (r, v) \<in> (edge_rel es)\<^sup>*" if "0 \<le> v" "v \<le> ?m" for v
        using t that by (auto simp: is_bfs_tree_def)
      ultimately show ?thesis by (auto simp: in_tree_def)
    qed
    then show ?thesis by (simp add: traversed_def filter_map o_def cong: filter_cong)
  qed
  finally show ?thesis using c(1) by simp
qed

text \<open>C1: build, search and check, end to end: whatever edges go in and whatever vertex the search starts from,
  the checker accepts the tree of the sequential CSR kernel and counts the traversed edges.\<close>

theorem seq_csr_verifies:
  assumes "alloc_ok alloc" "\<And>bytes. alloc bytes \<noteq> None"
    and "max_endpoint es < 2 ^ 58" "int (length es) < 2 ^ 31"
    and "0 \<le> src" "src \<le> max_endpoint es" "1 + max_endpoint es \<le> int (length tree)"
  shows "\<exists>g tree'. create_graph_from_edgelist alloc es (int (length es)) g0 = Some (0, g) \<and>
    make_bfs_tree alloc g tree src = Some (0, tree', max_endpoint es) \<and>
    verify_bfs_tree alloc True ckpt True tree' (max_endpoint es) src (as_int64 es) (int (length es)) =
      Some (int (traversed es src))"
proof -
  obtain g where g: "create_graph_from_edgelist alloc es (int (length es)) g0 = Some (0, g)" "csr_of es g"
    by (rule returnsE [OF create_graph_returns [OF assms(1,3), of g0]]) (use assms(2) in auto)
  have n: "nv g = 1 + max_endpoint es" using g(2) by (simp add: csr_of_def)
  obtain tree' where t: "make_bfs_tree alloc g tree src = Some (0, tree', max_endpoint es)"
    "is_bfs_tree (edge_rel es) (nv g) src tree'"
    by (rule returnsE [OF bfs_tree_returns [OF g(2) assms(1), of src tree]]) (use assms n in auto)
  obtain block where "alloc (2 * (max_endpoint es + 1) * 8) = Some block" using assms(2) by blast
  from bfs_tree_verifies [OF t(2) [unfolded n] assms(5,6,3,4) this assms(1)] g(1) t(1) show ?thesis by blast
qed

theorem seq_csr_verifies_witness:
  "\<exists>g tree'. create_graph_from_edgelist zeroed [write_edge 0 1, write_edge 1 2] (int (length [write_edge 0 1, write_edge 1 2]))
      \<lparr>maxvtx = 0, nv = 0, sz = 0, xoff = [], xadjstore = []\<rparr> = Some (0, g) \<and>
    make_bfs_tree zeroed g [0, 0, 0] 1 = Some (0, tree', max_endpoint [write_edge 0 1, write_edge 1 2]) \<and>
    verify_bfs_tree zeroed True 0 True tree' (max_endpoint [write_edge 0 1, write_edge 1 2]) 1
        (as_int64 [write_edge 0 1, write_edge 1 2]) (int (length [write_edge 0 1, write_edge 1 2])) =
      Some (int (traversed [write_edge 0 1, write_edge 1 2] 1))"
  by (rule seq_csr_verifies) (simp_all add: zeroed_ok zeroed_def max_endpoint_Cons_small)

end
