(* ===== verification/Seq_List.thy ===== *)
theory Seq_List
  imports Bfs_Verified
begin

text \<open>
  The sequential linked-list kernel, \<open>seq-list/seq-list.c\<close>: \<open>head[v]\<close> is the first of a chain of positions
  through \<open>next\<close>, position \<open>2k\<close> stands for the first endpoint of edge \<open>k\<close> and \<open>2k + 1\<close> for the second.
  The three arrays are parts of one block.  \<open>alloc\<close> is \<open>malloc\<close>, as in \<open>Seq_Csr\<close>.
\<close>

section \<open>The code\<close>

record edge_list =
  el_IJ :: "packed_edge list"
  el_nIJ :: int
  el_maxvtx :: int
  el_maxdeg :: int
  el_head :: "int list"
  el_deg :: "int list"
  el_next :: "int list"

definition list_maxvtx :: "packed_edge list \<Rightarrow> int \<Rightarrow> int option" where
  "list_maxvtx IJ nedge = for_range 0 nedge (\<lambda>k m. do {
     e \<leftarrow> aget IJ k;
     let m = (if m < get_v0_from_edge e then get_v0_from_edge e else m);
     let m = (if m < get_v1_from_edge e then get_v1_from_edge e else m);
     Some m }) (-1)"

text \<open>One end of an edge: position \<open>t\<close> is pushed on the chain of \<open>i\<close>.\<close>

definition push_end :: "int \<Rightarrow> int \<Rightarrow> int \<Rightarrow> int list \<times> int list \<times> int list \<Rightarrow> (int list \<times> int list \<times> int list) option" where
  "push_end nIJ t i = (\<lambda>(hd1, dg, nx). do {
     t_head \<leftarrow> aget hd1 i;
     hd1 \<leftarrow> aset hd1 i t;
     c_assert (t_head < 2 * nIJ);
     nx \<leftarrow> aset nx t t_head;
     d \<leftarrow> aget dg i;
     dg \<leftarrow> aset dg i (d + 1);
     Some (hd1, dg, nx) })"

definition link_edge :: "int \<Rightarrow> int \<Rightarrow> packed_edge \<Rightarrow> int list \<times> int list \<times> int list \<Rightarrow> (int list \<times> int list \<times> int list) option" where
  "link_edge nIJ k e = (\<lambda>(hd1, dg, nx).
     let i = get_v0_from_edge e; j = get_v1_from_edge e in
     if 0 \<le> i \<and> 0 \<le> j \<and> i \<noteq> j then do {
       nx \<leftarrow> aset nx (2 * k) (-1);
       nx \<leftarrow> aset nx (1 + 2 * k) (-1);
       let t = 2 * k + 1;
       s \<leftarrow> push_end nIJ t i (hd1, dg, nx);
       let t = t - 1;
       push_end nIJ t j s }
     else Some (hd1, dg, nx))"

definition list_create_graph ::
    "(int \<Rightarrow> int list option) \<Rightarrow> packed_edge list \<Rightarrow> int \<Rightarrow> (int \<times> edge_list) option" where
  "list_create_graph alloc IJ nedge = do {
     m \<leftarrow> list_maxvtx IJ nedge;
     n \<leftarrow> i64 (m + 1);
     words \<leftarrow> i64 (2 * n + 2 * nedge);
     case alloc ((words * 8) mod 2 ^ 64) of
       None \<Rightarrow> Some (-1, \<lparr>el_IJ = IJ, el_nIJ = nedge, el_maxvtx = m, el_maxdeg = -1, el_head = [], el_deg = [], el_next = []\<rparr>)
     | Some block \<Rightarrow> do {
         hd1 \<leftarrow> for_range 0 (m + 1) (\<lambda>k h. aset h k (-1)) (take (nat n) block);
         dg \<leftarrow> for_range 0 (m + 1) (\<lambda>k d. aset d k 0) (take (nat n) (drop (nat n) block));
         (hd1, dg, nx) \<leftarrow> for_range 0 nedge (\<lambda>k s. do { e \<leftarrow> aget IJ k; link_edge nedge k e s })
           (hd1, dg, drop (2 * nat n) block);
         md \<leftarrow> for_range 0 (m + 1) (\<lambda>kg md. do { d \<leftarrow> aget dg kg; Some (if md < d then d else md) }) (-1);
         Some (0, \<lparr>el_IJ = IJ, el_nIJ = nedge, el_maxvtx = m, el_maxdeg = md, el_head = hd1, el_deg = dg, el_next = nx\<rparr>) } }"

text \<open>The neighbour a position stands for.\<close>

definition end_at :: "packed_edge list \<Rightarrow> int \<Rightarrow> int option" where
  "end_at IJ p = do {
     e \<leftarrow> aget IJ (c_quot p 2);
     Some (if c_rem p 2 \<noteq> 0 then get_v1_from_edge e else get_v0_from_edge e) }"

definition walk_chain ::
    "edge_list \<Rightarrow> int \<Rightarrow> int \<times> int list \<times> int list \<times> int \<Rightarrow> (int \<times> int list \<times> int list \<times> int) option" where
  "walk_chain g parent = c_while
     (\<lambda>(p, tree, vlist, newk2). Some (0 \<le> p))
     (\<lambda>(p, tree, vlist, newk2). do {
        newv \<leftarrow> end_at (el_IJ g) p;
        t \<leftarrow> aget tree newv;
        (tree, vlist, newk2) \<leftarrow> (if t < 0 then do {
            tree \<leftarrow> aset tree newv parent;
            vlist \<leftarrow> aset vlist newk2 newv;
            Some (tree, vlist, newk2 + 1) }
          else Some (tree, vlist, newk2));
        p \<leftarrow> aget (el_next g) p;
        Some (p, tree, vlist, newk2) })"

text \<open>The inner loop raises its own bound \<open>k2\<close>.\<close>

definition list_level ::
    "edge_list \<Rightarrow> int \<times> int \<times> int list \<times> int list \<Rightarrow> (int \<times> int \<times> int list \<times> int list) option" where
  "list_level g = (\<lambda>(k1, k2, tree, vlist). do {
     (k, k1, k2, newk2, tree, vlist) \<leftarrow> c_while
       (\<lambda>(k, k1, k2, newk2, tree, vlist). Some (k < k2))
       (\<lambda>(k, k1, k2, newk2, tree, vlist). do {
          parent \<leftarrow> aget vlist k;
          p \<leftarrow> aget (el_head g) parent;
          (_, tree, vlist, newk2) \<leftarrow> walk_chain g parent (p, tree, vlist, newk2);
          Some (k + 1, k2, newk2, newk2, tree, vlist) })
       (k1, k1, k2, k2, tree, vlist);
     Some (k1, k2, tree, vlist) })"

definition list_make_bfs_tree ::
    "(int \<Rightarrow> int list option) \<Rightarrow> edge_list \<Rightarrow> int list \<Rightarrow> int \<Rightarrow> (int \<times> int list \<times> int) option" where
  "list_make_bfs_tree alloc g tree srcvtx = do {
     n \<leftarrow> i64 (el_maxvtx g + 1);
     tree \<leftarrow> aset tree srcvtx srcvtx;
     case alloc ((n * 8) mod 2 ^ 64) of
       None \<Rightarrow> Some (-1, tree, el_maxvtx g)
     | Some vlist \<Rightarrow> do {
         tree \<leftarrow> aset tree srcvtx srcvtx;
         vlist \<leftarrow> aset vlist 0 srcvtx;
         tree \<leftarrow> for_range 0 srcvtx (\<lambda>k t. aset t k (-1)) tree;
         tree \<leftarrow> for_range (srcvtx + 1) n (\<lambda>k t. aset t k (-1)) tree;
         (_, _, tree, _) \<leftarrow> c_while (\<lambda>(k1, k2, tree, vlist). Some (k1 \<noteq> k2)) (list_level g) (0, 1, tree, vlist);
         Some (0, tree, el_maxvtx g) } }"

section \<open>Chains\<close>

fun chain :: "int list \<Rightarrow> int \<Rightarrow> int list \<Rightarrow> bool" where
  "chain nx p [] \<longleftrightarrow> p = -1"
| "chain nx p (q # qs) \<longleftrightarrow> p = q \<and> 0 \<le> p \<and> p < int (length nx) \<and> chain nx (nx ! nat p) qs"

lemma chain_put: "chain nx p qs \<Longrightarrow> t \<notin> set qs \<Longrightarrow> 0 \<le> t \<Longrightarrow> chain (nx[nat t := a]) p qs"
  by (induction qs arbitrary: p) (auto simp: nth_update_int)

lemma chain_in_range: "chain nx p qs \<Longrightarrow> q \<in> set qs \<Longrightarrow> 0 \<le> q \<and> q < int (length nx)"
  by (induction qs arbitrary: p) auto

text \<open>The positions of the ends of the edges at \<open>v\<close>, the latest first.\<close>

definition end1 :: "int \<Rightarrow> packed_edge \<Rightarrow> int \<Rightarrow> int list" where
  "end1 k e v = (let i = get_v0_from_edge e; j = get_v1_from_edge e in
     if 0 \<le> i \<and> 0 \<le> j \<and> i \<noteq> j then (if i = v then [2 * k + 1] else if j = v then [2 * k] else []) else [])"

primrec ends_rev :: "packed_edge list \<Rightarrow> int \<Rightarrow> int list" where
  "ends_rev [] v = []"
| "ends_rev (e # es) v = end1 (int (length es)) e v @ ends_rev es v"

definition ends :: "packed_edge list \<Rightarrow> int \<Rightarrow> int list" where
  "ends es v = ends_rev (rev es) v"

lemma ends_simps [simp]: "ends [] v = []" "ends (es @ [e]) v = end1 (int (length es)) e v @ ends es v"
  by (simp_all add: ends_def)

lemma ends_bound: "p \<in> set (ends es v) \<Longrightarrow> 0 \<le> p \<and> p < 2 * int (length es)"
  by (induction es rule: rev_induct) (auto simp: end1_def Let_def split: if_splits)

text \<open>A position of the chain of \<open>v\<close> names a neighbour of \<open>v\<close>, and every neighbour is named.\<close>

lemma end_at_append:
  assumes "0 \<le> p" "p < 2 * int (length es)"
  shows "end_at (es @ fs) p = end_at es p"
  using assms by (simp add: end_at_def nth_append aget_def nat_less_iff)

lemma ends_neighbours:
  assumes "0 \<le> v"
  shows "{w. \<exists>p \<in> set (ends es v). end_at es p = Some w} = {w. (v, w) \<in> edge_rel es}"
  using assms
proof (induction es rule: rev_induct)
  case (snoc e es)
  have old: "end_at (es @ [e]) p = end_at es p" if "p \<in> set (ends es v)" for p
    using ends_bound [OF that] by (intro end_at_append) auto
  have new: "end_at (es @ [e]) (2 * int (length es) + 1) = Some (get_v1_from_edge e)"
    "end_at (es @ [e]) (2 * int (length es)) = Some (get_v0_from_edge e)"
    by (simp_all add: end_at_def)
  have "edge_rel (es @ [e]) = edge_rel es \<union> edge_rel [e]" by (auto simp: edge_rel_def)
  moreover have "{w. \<exists>p \<in> set (end1 (int (length es)) e v). end_at (es @ [e]) p = Some w} = {w. (v, w) \<in> edge_rel [e]}"
    using new snoc.prems by (auto simp: end1_def edge_rel_def Let_def split: if_splits)
  moreover have "{w. \<exists>p \<in> set (ends (es @ [e]) v). end_at (es @ [e]) p = Some w} =
      {w. \<exists>p \<in> set (end1 (int (length es)) e v). end_at (es @ [e]) p = Some w} \<union>
      {w. \<exists>p \<in> set (ends es v). end_at es p = Some w}"
    using old by (auto simp: bex_Un)
  ultimately show ?case using snoc by auto
qed (simp add: edge_rel_def)

lemma ends_some:
  assumes "p \<in> set (ends es v)"
  shows "\<exists>w. end_at es p = Some w"
proof -
  have "0 \<le> p" "p < 2 * int (length es)" using ends_bound [OF assms] by auto
  then show ?thesis by (auto simp: end_at_def)
qed

section \<open>Construction\<close>

definition linked :: "packed_edge list \<Rightarrow> int \<Rightarrow> int list \<times> int list \<times> int list \<Rightarrow> bool" where
  "linked es N = (\<lambda>(hd1, dg, nx). int (length hd1) = 1 + max_endpoint es \<and> length dg = length hd1 \<and> int (length nx) = N)"

definition chains :: "packed_edge list \<Rightarrow> int list \<times> int list \<times> int list \<Rightarrow> bool" where
  "chains ds = (\<lambda>(hd1, dg, nx). \<forall>v. 0 \<le> v \<and> v < int (length hd1) \<longrightarrow>
     chain nx (hd1 ! nat v) (ends ds v) \<and> dg ! nat v = int (length (ends ds v)))"

lemma chain_head: "chain nx p qs \<Longrightarrow> p = (case qs of [] \<Rightarrow> -1 | q # _ \<Rightarrow> q)"
  by (cases qs) auto

text \<open>Pushing position \<open>t\<close>, not yet in use, on the chain of \<open>i\<close>.\<close>

lemma push_end_returns:
  assumes i: "0 \<le> i" "i < int (length hs)" and l: "length dg = length hs" "int (length nx) = 2 * nIJ"
    and t: "0 \<le> t" "t < 2 * nIJ"
    and c: "\<And>v. 0 \<le> v \<Longrightarrow> v < int (length hs) \<Longrightarrow> chain nx (hs ! nat v) (qs v) \<and> dg ! nat v = int (length (qs v)) \<and> t \<notin> set (qs v)"
  shows "returns (push_end nIJ t i (hs, dg, nx)) (\<lambda>(hd2, dg2, nx2). length hd2 = length hs \<and> length dg2 = length hs \<and>
    length nx2 = length nx \<and> (\<forall>v. 0 \<le> v \<and> v < int (length hs) \<longrightarrow>
       chain nx2 (hd2 ! nat v) (if v = i then t # qs v else qs v) \<and>
       dg2 ! nat v = int (length (if v = i then t # qs v else qs v))))"
proof -
  let ?h = "hs ! nat i"
  have ci: "chain nx ?h (qs i)" "t \<notin> set (qs i)" using c i by auto
  have "?h < 2 * nIJ" using chain_head [OF ci(1)] chain_in_range [OF ci(1)] l(2) t by (cases "qs i") auto
  moreover have "chain (nx[nat t := ?h]) t (t # qs i)"
    using chain_put [OF ci t(1)] t l(2) by (simp add: nth_update_int)
  moreover have "chain (nx[nat t := ?h]) (hs ! nat v) (qs v)" if "0 \<le> v" "v < int (length hs)" for v
    using c [OF that] t(1) by (intro chain_put) auto
  ultimately show ?thesis
    using i l t c by (auto simp: push_end_def nth_update_int)
qed

lemma link_edge_returns:
  assumes es: "es = ds @ e # rest" and s: "linked es (2 * int (length es)) s" "chains ds s"
  shows "returns (link_edge (int (length es)) (int (length ds)) e s)
    (\<lambda>s'. linked es (2 * int (length es)) s' \<and> chains (ds @ [e]) s')"
proof -
  obtain hd1 dg nx where s3: "s = (hd1, dg, nx)" by (cases s)
  define i j k where "i = get_v0_from_edge e" and "j = get_v1_from_edge e" and "k = int (length ds)"
  have l: "int (length hd1) = 1 + max_endpoint es" "length dg = length hd1" "int (length nx) = 2 * int (length es)"
    using s(1) by (auto simp: linked_def s3)
  have c: "chain nx (hd1 ! nat v) (ends ds v) \<and> dg ! nat v = int (length (ends ds v))"
    if "0 \<le> v" "v < int (length hd1)" for v
    using s(2) that by (auto simp: chains_def s3)
  have k: "0 \<le> k" "k < int (length es)" by (simp_all add: k_def es)
  have ij: "i \<le> max_endpoint es" "j \<le> max_endpoint es"
    using max_endpoint_ge(2) [of e es] es by (auto simp: i_def j_def)
  show ?thesis
  proof (cases "0 \<le> i \<and> 0 \<le> j \<and> i \<noteq> j")
    case False
    then have "end1 k e v = []" for v by (auto simp: end1_def i_def j_def Let_def)
    then have "chains (ds @ [e]) s" using s(2) by (auto simp: chains_def k_def)
    then show ?thesis using False s(1) by (auto simp: link_edge_def s3 i_def j_def Let_def)
  next
    case True
    let ?nx = "nx[nat (2 * k) := -1, nat (1 + 2 * k) := -1]"
    have fresh: "2 * k \<notin> set (ends ds v)" "2 * k + 1 \<notin> set (ends ds v)" for v
      using ends_bound [of _ ds v] by (force simp: k_def)+
    have c0: "chain ?nx (hd1 ! nat v) (ends ds v) \<and> dg ! nat v = int (length (ends ds v)) \<and> 2 * k + 1 \<notin> set (ends ds v)"
      if "0 \<le> v" "v < int (length hd1)" for v
      using c [OF that] fresh [of v] k by (auto intro!: chain_put simp: add.commute)
    obtain hd2 dg2 nx2 where p1: "push_end (int (length es)) (2 * k + 1) i (hd1, dg, ?nx) = Some (hd2, dg2, nx2)"
      "length hd2 = length hd1" "length dg2 = length hd1" "length nx2 = length nx"
      and c1: "\<And>v. 0 \<le> v \<Longrightarrow> v < int (length hd1) \<Longrightarrow>
         chain nx2 (hd2 ! nat v) (if v = i then (2 * k + 1) # ends ds v else ends ds v) \<and>
         dg2 ! nat v = int (length (if v = i then (2 * k + 1) # ends ds v else ends ds v))"
      by (rule returnsE [OF push_end_returns [where hs = hd1 and dg = dg and nx = ?nx and nIJ = "int (length es)"
          and t = "2 * k + 1" and i = i and qs = "ends ds"]])
        (use True ij l k c0 in auto)
    have c1': "chain nx2 (hd2 ! nat v) (if v = i then (2 * k + 1) # ends ds v else ends ds v) \<and>
         dg2 ! nat v = int (length (if v = i then (2 * k + 1) # ends ds v else ends ds v)) \<and>
         2 * k \<notin> set (if v = i then (2 * k + 1) # ends ds v else ends ds v)"
      if "0 \<le> v" "v < int (length hd2)" for v
      using c1 [of v] that p1(2) fresh(1) [of v] by auto
    obtain hd3 dg3 nx3 where p2: "push_end (int (length es)) (2 * k) j (hd2, dg2, nx2) = Some (hd3, dg3, nx3)"
      "length hd3 = length hd1" "length dg3 = length hd1" "length nx3 = length nx"
      and c2: "\<And>v. 0 \<le> v \<Longrightarrow> v < int (length hd1) \<Longrightarrow>
         chain nx3 (hd3 ! nat v) (if v = j then (2 * k) # (if v = i then (2 * k + 1) # ends ds v else ends ds v)
           else if v = i then (2 * k + 1) # ends ds v else ends ds v) \<and>
         dg3 ! nat v = int (length (if v = j then (2 * k) # (if v = i then (2 * k + 1) # ends ds v else ends ds v)
           else if v = i then (2 * k + 1) # ends ds v else ends ds v))"
      by (rule returnsE [OF push_end_returns [where hs = hd2 and dg = dg2 and nx = nx2 and nIJ = "int (length es)"
          and t = "2 * k" and i = j and qs = "\<lambda>v. if v = i then (2 * k + 1) # ends ds v else ends ds v"]])
        (use True ij l k p1 c1' in auto)
    have e1: "(if v = j then (2 * k) # (if v = i then (2 * k + 1) # ends ds v else ends ds v)
           else if v = i then (2 * k + 1) # ends ds v else ends ds v) = ends (ds @ [e]) v" for v
      using True by (auto simp: end1_def i_def j_def k_def Let_def)
    have "chains (ds @ [e]) (hd3, dg3, nx3)" using c2 p2(2) unfolding e1 by (simp add: chains_def)
    moreover have "linked es (2 * int (length es)) (hd3, dg3, nx3)" using l p2 by (simp add: linked_def)
    ultimately show ?thesis
      using True k l p1(1) p2(1)
      by (simp add: link_edge_def s3 i_def [symmetric] j_def [symmetric] k_def [symmetric] Let_def)
  qed
qed

definition list_of :: "packed_edge list \<Rightarrow> edge_list \<Rightarrow> bool" where
  "list_of es g \<longleftrightarrow> el_IJ g = es \<and> el_maxvtx g = max_endpoint es \<and>
     linked es (2 * int (length es)) (el_head g, el_deg g, el_next g) \<and>
     chains es (el_head g, el_deg g, el_next g)"

lemma list_create_returns:
  assumes alloc: "alloc_ok alloc" and m: "max_endpoint es < 2 ^ 58" and e: "int (length es) < 2 ^ 58"
  shows "returns (list_create_graph alloc es (int (length es))) (\<lambda>(err, g).
    err = 0 \<and> list_of es g \<and> (\<forall>v. 0 \<le> v \<and> v \<le> max_endpoint es \<longrightarrow> int (length (ends es v)) \<le> el_maxdeg g) \<or>
    err = -1 \<and> (\<exists>bytes. alloc bytes = None))"
proof -
  define n where "n = max_endpoint es + 1"
  have n: "0 \<le> n" "n \<le> 2 ^ 58" "max_endpoint es = n - 1" using max_endpoint_ge(1) [of es] m by (simp_all add: n_def)
  let ?E = "int (length es)"
  have mx: "list_maxvtx es ?E = Some (n - 1)" unfolding list_maxvtx_def max_loop_eq n(3) ..
  have w: "i64 n = Some n" "i64 (2 * n + 2 * ?E) = Some (2 * n + 2 * ?E)"
    "((2 * n + 2 * ?E) * 8) mod 2 ^ 64 = (2 * n + 2 * ?E) * 8" using n e by simp_all
  show ?thesis
  proof (cases "alloc ((2 * n + 2 * ?E) * 8)")
    case None
    then show ?thesis using mx w by (auto simp: list_create_graph_def)
  next
    case (Some block)
    moreover have "0 \<le> (2 * n + 2 * ?E) * 8" using n by simp
    ultimately have "int (length block) = (2 * n + 2 * ?E) * 8 div 8" using alloc unfolding alloc_ok_def by blast
    then have bl: "int (length block) = 2 * n + 2 * ?E" by simp
    obtain hs where hs: "for_range 0 n (\<lambda>k h. aset h k (-1)) (take (nat n) block) = Some hs" "hs = replicate (nat n) (-1)"
      by (rule returnsE [OF fill_returns [of n "take (nat n) block" "-1"]]) (use n bl in auto)
    obtain ds where ds: "for_range 0 n (\<lambda>k h. aset h k 0) (take (nat n) (drop (nat n) block)) = Some ds" "ds = replicate (nat n) 0"
      by (rule returnsE [OF fill_returns [of n "take (nat n) (drop (nat n) block)" 0]]) (use n bl in auto)
    let ?s0 = "(hs, ds, drop (2 * nat n) block)"
    have "linked es (2 * ?E) ?s0" using bl n hs ds by (auto simp: linked_def)
    moreover have "chains [] ?s0" using hs ds by (auto simp: chains_def)
    ultimately have "returns (for_range 0 ?E (\<lambda>k s. do { e \<leftarrow> aget es k; link_edge ?E k e s }) ?s0)
       (\<lambda>s. linked es (2 * ?E) s \<and> chains (take (nat ?E) es) s)"
    proof (intro returns_rangeI [where I = "\<lambda>k s. linked es (2 * ?E) s \<and> chains (take (nat k) es) s"])
      fix i t
      assume i: "0 \<le> i" "i < ?E" and t: "linked es (2 * ?E) t \<and> chains (take (nat i) es) t"
      have sp: "es = take (nat i) es @ es ! nat i # drop (Suc (nat i)) es"
        using i by (simp add: id_take_nth_drop)
      have tk: "take (nat (i + 1)) es = take (nat i) es @ [es ! nat i]"
        using i by (simp add: nat_add_distrib take_Suc_conv_app_nth)
      have "int (length (take (nat i) es)) = i" using i by simp
      then show "returns (aget es i \<bind> (\<lambda>e. link_edge ?E i e t))
          (\<lambda>s. linked es (2 * ?E) s \<and> chains (take (nat (i + 1)) es) s)"
        using link_edge_returns [OF sp, of t] t i unfolding tk by simp
    qed auto
    then obtain hd1 dg nx where l: "for_range 0 ?E (\<lambda>k s. do { e \<leftarrow> aget es k; link_edge ?E k e s }) ?s0 = Some (hd1, dg, nx)"
      "linked es (2 * ?E) (hd1, dg, nx)" "chains es (hd1, dg, nx)"
      by (auto elim!: returnsE)
    have dl: "int (length dg) = n" using l(2) n by (auto simp: linked_def)
    have "returns (for_range 0 n (\<lambda>kg md. do { d \<leftarrow> aget dg kg; Some (if md < d then d else md) }) (-1))
      (\<lambda>md. \<forall>v. 0 \<le> v \<and> v < n \<longrightarrow> dg ! nat v \<le> md)"
    proof (rule returns_for_range [where I = "\<lambda>k md. \<forall>v. 0 \<le> v \<and> v < k \<longrightarrow> dg ! nat v \<le> md"])
      fix i md assume i: "0 \<le> i" "i < n" and v: "\<forall>v. 0 \<le> v \<and> v < i \<longrightarrow> dg ! nat v \<le> md"
      have "dg ! nat v \<le> max md (dg ! nat i)" if "0 \<le> v" "v \<le> i" for v
        using v that by (cases "v = i") (auto simp: le_max_iff_disj)
      then show "returns (aget dg i \<bind> (\<lambda>d. Some (if md < d then d else md)))
          (\<lambda>md. \<forall>v. 0 \<le> v \<and> v < i + 1 \<longrightarrow> dg ! nat v \<le> md)"
        using dl i by (auto simp: max_def split: if_splits)
    qed (use n in auto)
    then obtain md where md: "for_range 0 n (\<lambda>kg md. do { d \<leftarrow> aget dg kg; Some (if md < d then d else md) }) (-1) = Some md"
      "\<And>v. 0 \<le> v \<Longrightarrow> v < n \<Longrightarrow> dg ! nat v \<le> md" by (auto elim!: returnsE)
    have "dg ! nat v = int (length (ends es v))" if "0 \<le> v" "v < n" for v
      using l(2,3) that n by (auto simp: chains_def linked_def)
    then show ?thesis
      using mx w Some hs(1) ds(1) l md n by (simp add: list_create_graph_def list_of_def)
  qed
qed

section \<open>Search\<close>

text \<open>Testing for a negative parent or for -1 is the same during the search.\<close>

lemma visit_end:
  assumes s: "searching es r L k N (tree, vlist, k2)" and k: "int k < k2" and j: "(vlist ! k, j) \<in> edge_rel es"
  shows "returns (do {
       t \<leftarrow> aget tree j;
       if t < 0 then do {
         tree \<leftarrow> aset tree j (vlist ! k);
         vlist \<leftarrow> aset vlist k2 j;
         Some (tree, vlist, k2 + 1) }
       else Some (tree, vlist, k2) })
    (\<lambda>(tree', vlist', k2'). searching es r L k (insert j N) (tree', vlist', k2') \<and> k2 \<le> k2' \<and> vlist' ! k = vlist ! k)"
proof -
  obtain d where inv: "bfs_inv (edge_rel es) (1 + max_endpoint es) r d (take (nat k2) vlist) k N tree"
    using s by (auto simp: searching_def)
  have "tree ! nat j < 0 \<longleftrightarrow> tree ! nat j = -1"
    using edges.bfs_marked [OF inv] edges.in_range [OF j] by fastforce
  then show ?thesis using visit_one [OF s k j] by simp
qed

definition nb :: "packed_edge list \<Rightarrow> int \<Rightarrow> int" where
  "nb es p = the (end_at es p)"

lemma nb_edge:
  assumes "0 \<le> u" "q \<in> set (ends es u)"
  shows "end_at es q = Some (nb es q)" "(u, nb es q) \<in> edge_rel es"
proof -
  obtain w where w: "end_at es q = Some w" using ends_some [OF assms(2)] by blast
  then show "end_at es q = Some (nb es q)" by (simp add: nb_def)
  have "w \<in> {w. (u, w) \<in> edge_rel es}" using ends_neighbours [of u es] assms w by blast
  then show "(u, nb es q) \<in> edge_rel es" using w by (simp add: nb_def)
qed

text \<open>The walk, by induction over the rest of the chain.\<close>

lemma walk_chain_rest:
  assumes g: "list_of es g" and u: "0 \<le> u"
  shows "chain (el_next g) p qs \<Longrightarrow> set qs \<subseteq> set (ends es u) \<Longrightarrow> searching es r L k N (tree, vlist, k2) \<Longrightarrow>
    int k < k2 \<Longrightarrow> vlist ! k = u \<Longrightarrow>
    returns (walk_chain g u (p, tree, vlist, k2))
      (\<lambda>(_, tree', vlist', k2'). searching es r L k (N \<union> nb es ` set qs) (tree', vlist', k2') \<and> k2 \<le> k2' \<and> vlist' ! k = u)"
proof (induction qs arbitrary: p N tree vlist k2)
  case Nil
  then show ?case by (simp add: walk_chain_def c_while_False)
next
  case (Cons q qs)
  have q: "q = p" "0 \<le> p" "p < int (length (el_next g))" "chain (el_next g) (el_next g ! nat p) qs"
    using Cons.prems(1) by auto
  have e: "end_at es p = Some (nb es p)" "(u, nb es p) \<in> edge_rel es"
    using nb_edge [OF u, of p es] Cons.prems(2) q(1) by auto
  have IJ: "el_IJ g = es" using g by (simp add: list_of_def)
  let ?visit = "do {
       t \<leftarrow> aget tree (nb es p);
       if t < 0 then do {
         tree \<leftarrow> aset tree (nb es p) u;
         vlist \<leftarrow> aset vlist k2 (nb es p);
         Some (tree, vlist, k2 + 1) }
       else Some (tree, vlist, k2) }"
  obtain tree1 vlist1 k21 where v: "?visit = Some (tree1, vlist1, k21)"
    "searching es r L k (insert (nb es p) N) (tree1, vlist1, k21)" "k2 \<le> k21" "vlist1 ! k = u"
    using visit_end [OF Cons.prems(3,4), of "nb es p"] e(2) Cons.prems(5) by (auto elim!: returnsE)
  have "returns (walk_chain g u (el_next g ! nat p, tree1, vlist1, k21))
      (\<lambda>(_, tree', vlist', k2'). searching es r L k (insert (nb es p) N \<union> nb es ` set qs) (tree', vlist', k2') \<and>
        k21 \<le> k2' \<and> vlist' ! k = u)"
    using Cons.IH [OF q(4) _ v(2) _ v(4)] Cons.prems(2,4) v(3) by auto
  moreover have "walk_chain g u (p, tree, vlist, k2) = walk_chain g u (el_next g ! nat p, tree1, vlist1, k21)"
  proof -
    have "(do {
        newv \<leftarrow> end_at (el_IJ g) p;
        t \<leftarrow> aget tree newv;
        (tree, vlist, newk2) \<leftarrow> (if t < 0 then do {
            tree \<leftarrow> aset tree newv u;
            vlist \<leftarrow> aset vlist k2 newv;
            Some (tree, vlist, k2 + 1) }
          else Some (tree, vlist, k2));
        p \<leftarrow> aget (el_next g) p;
        Some (p, tree, vlist, newk2) }) = ?visit \<bind> (\<lambda>(tree, vlist, newk2). do {
        p \<leftarrow> aget (el_next g) p;
        Some (p, tree, vlist, newk2) })"
      by (simp add: IJ e(1) bind_assoc)
    also have "\<dots> = Some (el_next g ! nat p, tree1, vlist1, k21)" unfolding v(1) using q by simp
    finally show ?thesis using q(2) unfolding walk_chain_def by (subst c_while_True) simp_all
  qed
  ultimately show ?case using v(3) q(1) by (auto elim!: returns_mono)
qed

lemma walk_chain_returns:
  assumes g: "list_of es g" and s: "searching es r L k {} (tree, vlist, k2)" and k: "int k < k2"
  shows "returns (do { parent \<leftarrow> aget vlist (int k); p \<leftarrow> aget (el_head g) parent; walk_chain g parent (p, tree, vlist, k2) })
    (\<lambda>(_, tree', vlist', k2'). searching es r L (Suc k) {} (tree', vlist', k2') \<and> k2 \<le> k2')"
proof -
  define u where "u = vlist ! k"
  let ?n = "1 + max_endpoint es"
  have l: "int (length vlist) = ?n" "k2 \<le> ?n" using s by (auto simp: searching_def)
  have u: "0 \<le> u" "u < ?n"
  proof -
    obtain d where inv: "bfs_inv (edge_rel es) ?n r d (take (nat k2) vlist) k {} tree" using s by (auto simp: searching_def)
    have "take (nat k2) vlist ! k \<in> set (take (nat k2) vlist)" using k l by (intro nth_mem) auto
    moreover have "take (nat k2) vlist ! k = u" using k by (simp add: u_def)
    ultimately show "0 \<le> u" "u < ?n" using bfs_invD(7) [OF inv] by auto
  qed
  have c: "chain (el_next g) (el_head g ! nat u) (ends es u)" "u < int (length (el_head g))"
    using g u by (auto simp: list_of_def chains_def linked_def)
  have "returns (walk_chain g u (el_head g ! nat u, tree, vlist, k2))
    (\<lambda>(_, tree', vlist', k2'). searching es r L (Suc k) {} (tree', vlist', k2') \<and> k2 \<le> k2')"
  proof (rule returns_mono [OF walk_chain_rest [OF g u(1) c(1) subset_refl s k]])
    fix t
    assume "case t of (_, tree', vlist', k2') \<Rightarrow>
      searching es r L k ({} \<union> nb es ` set (ends es u)) (tree', vlist', k2') \<and> k2 \<le> k2' \<and> vlist' ! k = u"
    then obtain p tr vl kk d where t: "t = (p, tr, vl, kk)" "k2 \<le> kk" "vl ! k = u" "length tr = L" "0 \<le> kk"
        "int (length vl) = ?n" "kk \<le> int (length vl)"
      and inv: "bfs_inv (edge_rel es) ?n r d (take (nat kk) vl) k (nb es ` set (ends es u)) tr"
      by (auto simp: searching_def)
    have q: "take (nat kk) vl ! k = u" "k < length (take (nat kk) vl)" using t k by auto
    have "w \<in> nb es ` set (ends es u)" if "(take (nat kk) vl ! k, w) \<in> edge_rel es" for w
    proof -
      have "w \<in> {w. \<exists>p \<in> set (ends es u). end_at es p = Some w}"
        unfolding ends_neighbours [OF u(1)] using that by (simp add: q(1))
      then show ?thesis using nb_edge(1) [OF u(1)] by (force simp: nb_def)
    qed
    from edges.bfs_finish_vertex [OF inv q(2) this]
    show "case t of (_, tree', vlist', k2') \<Rightarrow> searching es r L (Suc k) {} (tree', vlist', k2') \<and> k2 \<le> k2'"
      using t by (auto simp: searching_def)
  qed (simp add: u_def)
  then show ?thesis using k l u c(2) by (simp add: u_def [symmetric])
qed

text \<open>One pass of the outer loop already empties the queue.\<close>

lemma list_level_returns:
  assumes g: "list_of es g" and s: "searching es r L 0 {} (tree, vlist, 1)"
  shows "returns (list_level g (0, 1, tree, vlist))
    (\<lambda>(k1, k2, tree', vlist'). k1 = k2 \<and> 0 \<le> k2 \<and> searching es r L (nat k2) {} (tree', vlist', k2))"
proof -
  let ?n = "1 + max_endpoint es"
  let ?I = "\<lambda>(k, k1, k2, newk2, tree', vlist'). newk2 = k2 \<and> 0 \<le> k \<and> k \<le> k2 \<and> 0 < k2 \<and>
    (0 < k \<longrightarrow> k \<le> k1 \<and> k1 \<le> k2) \<and> searching es r L (nat k) {} (tree', vlist', k2)"
  have "returns (c_while
       (\<lambda>(k, k1, k2, newk2, tree, vlist). Some (k < k2))
       (\<lambda>(k, k1, k2, newk2, tree, vlist). do {
          parent \<leftarrow> aget vlist k;
          p \<leftarrow> aget (el_head g) parent;
          (_, tree, vlist, newk2) \<leftarrow> walk_chain g parent (p, tree, vlist, newk2);
          Some (k + 1, k2, newk2, newk2, tree, vlist) })
       (0, 0, 1, 1, tree, vlist))
     (\<lambda>t. ?I t \<and> (case t of (k, k1, k2, newk2, tree, vlist) \<Rightarrow> Some (k < k2)) = Some False)"
  proof (rule returns_while [where I = ?I and f = "\<lambda>(k, _). nat (?n - k)"])
    show "?I (0, 0, 1, 1, tree, vlist)" using s by simp
    fix t assume t: "?I t"
    show "\<exists>b. (case t of (k, k1, k2, newk2, tree, vlist) \<Rightarrow> Some (k < k2)) = Some b" by (cases t) simp
    assume b: "(case t of (k, k1, k2, newk2, tree, vlist) \<Rightarrow> Some (k < k2)) = Some True"
    obtain k k1 k2 nk tr vl where t6: "t = (k, k1, k2, nk, tr, vl)" by (cases t)
    have I: "nk = k2" "0 \<le> k" "k < k2" "searching es r L (nat k) {} (tr, vl, k2)" using t b t6 by auto
    have kk: "int (nat k) = k" "nat (k + 1) = Suc (nat k)" using I by auto
    have n: "k2 \<le> ?n" using I(4) by (auto simp: searching_def)
    define a where "a = vl ! nat k"
    define vo where "vo = el_head g ! nat a"
    have w: "aget vl k = Some a" "aget (el_head g) a = Some vo"
      and nx: "returns (walk_chain g a (vo, tr, vl, k2))
        (\<lambda>(_, tree', vlist', k2'). searching es r L (Suc (nat k)) {} (tree', vlist', k2') \<and> k2 \<le> k2')"
      using walk_chain_returns [OF g I(4), unfolded kk(1), OF I(3)] by (simp_all add: a_def vo_def)
    from nx show "returns ((\<lambda>(k, k1, k2, newk2, tree, vlist). do {
          parent \<leftarrow> aget vlist k;
          p \<leftarrow> aget (el_head g) parent;
          (_, tree, vlist, newk2) \<leftarrow> walk_chain g parent (p, tree, vlist, newk2);
          Some (k + 1, k2, newk2, newk2, tree, vlist) }) t)
       (\<lambda>t'. ?I t' \<and> (case t' of (k, _) \<Rightarrow> nat (?n - k)) < (case t of (k, _) \<Rightarrow> nat (?n - k)))"
      using I n kk unfolding t6 prod.case w bind.bind_lunit by (auto elim!: returns_mono)
  qed
  then show ?thesis
    unfolding list_level_def
    apply (auto elim!: returns_mono)
    subgoal for a aa ab ad b by (cases "a = ab") auto
    done
qed

lemma list_bfs_returns:
  assumes g: "list_of es g" and alloc: "alloc_ok alloc" and m: "max_endpoint es < 2 ^ 58"
    and r: "0 \<le> r" "r \<le> max_endpoint es" and l: "1 + max_endpoint es \<le> int (length tree)"
  shows "returns (list_make_bfs_tree alloc g tree r) (\<lambda>(err, tree', mx). mx = max_endpoint es \<and> length tree' = length tree \<and>
    (err = 0 \<and> is_bfs_tree (edge_rel es) (1 + max_endpoint es) r tree' \<or> err = -1 \<and> (\<exists>bytes. alloc bytes = None)))"
proof -
  define n where "n = 1 + max_endpoint es"
  have n: "max_endpoint es = n - 1" "el_maxvtx g = n - 1" "r < n" "n \<le> 2 ^ 58" using g r m by (auto simp: list_of_def n_def)
  have w: "i64 n = Some n" "n * 8 mod 2 ^ 64 = n * 8" using n r by simp_all
  have rl: "r < int (length tree)" using l r by simp
  show ?thesis
  proof (cases "alloc (n * 8)")
    case None
    then show ?thesis using w n(3) r(1) rl by (auto simp: list_make_bfs_tree_def n(1,2))
  next
    case (Some vlist)
    moreover have "0 \<le> n * 8" using n r by simp
    ultimately have "int (length vlist) = n * 8 div 8" using alloc unfolding alloc_ok_def by blast
    then have lv: "int (length vlist) = n" by simp
    let ?t0 = "tree[nat r := r, nat r := r]"
    obtain t1 where t1: "for_range 0 r (\<lambda>k t. aset t k (-1)) ?t0 = Some t1" "t1 = replicate (nat r) (-1) @ drop (nat r) ?t0"
      by (rule returnsE [OF fill_returns [of r ?t0 "-1"]]) (use r rl in auto)
    have l1: "length t1 = length tree" "t1 ! nat r = r" using t1(2) r rl by (simp_all add: nth_append)
    have "returns (for_range (r + 1) n (\<lambda>k t. aset t k (-1)) t1) (\<lambda>t. length t = length tree \<and>
        (\<forall>v. 0 \<le> v \<and> v < n \<longrightarrow> t ! nat v = (if v = r then r else -1)))"
    proof (rule returns_rangeI [where I = "\<lambda>k t. length t = length tree \<and>
        (\<forall>v. 0 \<le> v \<and> v < k \<longrightarrow> t ! nat v = (if v = r then r else -1))"])
      have "v < r \<or> v = r" if "v < r + 1" for v using that by linarith
      then show "length t1 = length tree \<and> (\<forall>v. 0 \<le> v \<and> v < r + 1 \<longrightarrow> t1 ! nat v = (if v = r then r else -1))"
        using l1 t1(2) r by (fastforce simp: nth_append)
      fix i t assume "r + 1 \<le> i" "i < n" "length t = length tree \<and>
        (\<forall>v. 0 \<le> v \<and> v < i \<longrightarrow> t ! nat v = (if v = r then r else -1))"
      then show "returns (aset t i (-1)) (\<lambda>t. length t = length tree \<and>
        (\<forall>v. 0 \<le> v \<and> v < i + 1 \<longrightarrow> t ! nat v = (if v = r then r else -1)))"
        using r l unfolding less_add1_all by (auto simp: nth_update_int n_def)
    qed (use n in auto)
    then obtain t2 where t2: "for_range (r + 1) n (\<lambda>k t. aset t k (-1)) t1 = Some t2" "length t2 = length tree"
      "\<And>v. 0 \<le> v \<Longrightarrow> v < n \<Longrightarrow> t2 ! nat v = (if v = r then r else -1)" by (auto elim!: returnsE)
    have "bfs_inv (edge_rel es) (1 + max_endpoint es) r (\<lambda>_. 0) [r] 0 {} t2"
      by (rule edges.bfs_start) (use r l t2(2,3) [unfolded n_def] in simp_all)
    moreover have "take 1 (vlist[0 := r]) = [r]" using lv r n by (cases vlist) auto
    ultimately have start: "searching es r (length tree) 0 {} (t2, vlist[0 := r], 1)"
      using lv r t2(2) unfolding searching_def n_def by auto
    obtain k2 tr vl where lev: "list_level g (0, 1, t2, vlist[0 := r]) = Some (k2, k2, tr, vl)"
      "0 \<le> k2" "searching es r (length tree) (nat k2) {} (tr, vl, k2)"
      by (rule returnsE [OF list_level_returns [OF g start]]) auto
    have "c_while (\<lambda>(k1, k2, tree, vlist). Some (k1 \<noteq> k2)) (list_level g) (0, 1, t2, vlist[0 := r]) = Some (k2, k2, tr, vl)"
      by (simp add: c_while_True c_while_False lev(1))
    moreover obtain d where "bfs_inv (edge_rel es) n r d (take (nat k2) vl) (nat k2) {} tr"
      "length tr = length tree" "nat k2 \<le> length vl" using lev(2,3) unfolding searching_def n_def by auto
    moreover from this have "is_bfs_tree (edge_rel es) n r tr"
      using edges.bfs_finished [of es r d "take (nat k2) vl" "{}" tr] by (simp add: n_def)
    ultimately show ?thesis
      using w Some lv r(1) n(3) rl t1(1) t2(1) by (simp add: list_make_bfs_tree_def n(1,2))
  qed
qed

text \<open>C6: the linked-list kernel meets the same specification as the CSR kernel, end to end: its graph is
  built, its search returns a breadth-first tree of the edges, and the checker accepts it with the same count.\<close>

theorem seq_list_verifies:
  assumes "alloc_ok alloc" "\<And>bytes. alloc bytes \<noteq> None"
    and "max_endpoint es < 2 ^ 58" "int (length es) < 2 ^ 31"
    and "0 \<le> src" "src \<le> max_endpoint es" "1 + max_endpoint es \<le> int (length tree)"
  shows "\<exists>g tree'. list_create_graph alloc es (int (length es)) = Some (0, g) \<and>
    list_make_bfs_tree alloc g tree src = Some (0, tree', max_endpoint es) \<and>
    verify_bfs_tree alloc True ckpt True tree' (max_endpoint es) src (as_int64 es) (int (length es)) =
      Some (int (traversed es src))"
proof -
  obtain g where g: "list_create_graph alloc es (int (length es)) = Some (0, g)" "list_of es g"
    by (rule returnsE [OF list_create_returns [OF assms(1,3)]]) (use assms(2,4) in auto)
  obtain tree' where t: "list_make_bfs_tree alloc g tree src = Some (0, tree', max_endpoint es)"
    "is_bfs_tree (edge_rel es) (1 + max_endpoint es) src tree'"
    by (rule returnsE [OF list_bfs_returns [OF g(2) assms(1,3), of src tree]]) (use assms in auto)
  obtain block where "alloc (2 * (max_endpoint es + 1) * 8) = Some block" using assms(2) by blast
  from bfs_tree_verifies [OF t(2) assms(5,6,3,4) this assms(1)] g(1) t(1) show ?thesis by blast
qed

theorem seq_list_verifies_witness:
  "\<exists>g tree'. list_create_graph zeroed [write_edge 0 1, write_edge 1 2] (int (length [write_edge 0 1, write_edge 1 2])) = Some (0, g) \<and>
    list_make_bfs_tree zeroed g [0, 0, 0] 1 = Some (0, tree', max_endpoint [write_edge 0 1, write_edge 1 2]) \<and>
    verify_bfs_tree zeroed True 0 True tree' (max_endpoint [write_edge 0 1, write_edge 1 2]) 1
        (as_int64 [write_edge 0 1, write_edge 1 2]) (int (length [write_edge 0 1, write_edge 1 2])) =
      Some (int (traversed [write_edge 0 1, write_edge 1 2] 1))"
  by (rule seq_list_verifies) (simp_all add: zeroed_ok zeroed_def max_endpoint_Cons_small)

end
