(* ===== verification/Dequeue.thy ===== *)
theory Dequeue
  imports C_Prelude
begin

text \<open>
  The double-ended queues of the tree search: the doubly linked cells of \<open>uts/dlist.c\<close> and the queue of
  \<open>uts/dequeue.c\<close>, and their copies for shared memory, \<open>uts/shared_dlist.c\<close> and \<open>uts/shared_dequeue.c\<close>.
  The heap maps addresses to cells, address 0 is the null pointer, and the parameter \<open>malloc\<close> is the
  allocator of the C library (\<open>upc_alloc\<close> for the shared copies): it returns an address, 0 when memory has run
  out.  An access through a null pointer or to a freed cell has no result.  What a client may rely on is the
  locale \<open>deque\<close>; both queues are interpretations of it.
\<close>

section \<open>The cells\<close>

record dcell =
  element :: nat
  next_cell :: nat
  prev_cell :: nat

type_synonym heap = "nat \<Rightarrow> dcell option"

definition deref :: "heap \<Rightarrow> nat \<Rightarrow> dcell option" where
  "deref h a = (if a = 0 then None else h a)"

definition put_cell :: "nat \<Rightarrow> dcell \<Rightarrow> heap \<Rightarrow> heap option" where
  "put_cell a c h = (if a = 0 \<or> h a = None then None else Some (h(a \<mapsto> c)))"

definition set_next :: "nat \<Rightarrow> nat \<Rightarrow> heap \<Rightarrow> heap option" where
  "set_next a x h = do { c \<leftarrow> deref h a; put_cell a (c\<lparr>next_cell := x\<rparr>) h }"

definition set_prev :: "nat \<Rightarrow> nat \<Rightarrow> heap \<Rightarrow> heap option" where
  "set_prev a x h = do { c \<leftarrow> deref h a; put_cell a (c\<lparr>prev_cell := x\<rparr>) h }"

definition dcons :: "(heap \<Rightarrow> nat) \<Rightarrow> nat \<Rightarrow> nat \<Rightarrow> nat \<Rightarrow> heap \<Rightarrow> (nat \<times> heap) option" where
  "dcons malloc x prev n h =
     (let temp = malloc h in
      if temp = 0 then None else Some (temp, h(temp \<mapsto> \<lparr>element = x, next_cell = n, prev_cell = prev\<rparr>)))"

definition create_and_link :: "(heap \<Rightarrow> nat) \<Rightarrow> nat \<Rightarrow> nat \<Rightarrow> nat \<Rightarrow> heap \<Rightarrow> (nat \<times> heap) option" where
  "create_and_link malloc x prev n h = do {
     (temp, h) \<leftarrow> dcons malloc x prev n h;
     h \<leftarrow> set_next prev temp h;
     h \<leftarrow> set_prev n temp h;
     Some (temp, h) }"

definition unlink_and_free :: "nat \<Rightarrow> heap \<Rightarrow> (nat \<times> heap) option" where
  "unlink_and_free l h = do {
     c \<leftarrow> deref h l;
     let temp = element c;
     h \<leftarrow> set_prev (next_cell c) (prev_cell c) h;
     c \<leftarrow> deref h l;
     h \<leftarrow> set_next (prev_cell c) (next_cell c) h;
     Some (temp, h(l := None)) }"

text \<open>The copy for shared memory checks for a null pointer first.\<close>

definition shr_dcons :: "(heap \<Rightarrow> nat) \<Rightarrow> nat \<Rightarrow> nat \<Rightarrow> nat \<Rightarrow> heap \<Rightarrow> (nat \<times> heap) option" where
  "shr_dcons upc_alloc x prev n h =
     (let temp = upc_alloc h in
      if temp = 0 then None else Some (temp, h(temp \<mapsto> \<lparr>element = x, next_cell = n, prev_cell = prev\<rparr>)))"

definition shr_create_and_link :: "(heap \<Rightarrow> nat) \<Rightarrow> nat \<Rightarrow> nat \<Rightarrow> nat \<Rightarrow> heap \<Rightarrow> (nat \<times> heap) option" where
  "shr_create_and_link upc_alloc x prev n h = do {
     (temp, h) \<leftarrow> shr_dcons upc_alloc x prev n h;
     h \<leftarrow> set_next prev temp h;
     h \<leftarrow> set_prev n temp h;
     Some (temp, h) }"

definition shr_unlink_and_free :: "nat \<Rightarrow> heap \<Rightarrow> (nat \<times> heap) option" where
  "shr_unlink_and_free l h =
     (if l = 0 then Some (0, h)
      else do {
        c \<leftarrow> deref h l;
        let temp = element c;
        h \<leftarrow> set_prev (next_cell c) (prev_cell c) h;
        c \<leftarrow> deref h l;
        h \<leftarrow> set_next (prev_cell c) (next_cell c) h;
        Some (temp, h(l := None)) })"

section \<open>The queues\<close>

text \<open>The structure holds the addresses of the two sentinels; no operation changes it, so it is a value outside the heap of
  cells.  Its memory comes from the same allocator, and the code stores into it without looking at the pointer.\<close>

record dequeue =
  head :: nat
  tail :: nat

definition deq_create :: "(heap \<Rightarrow> nat) \<Rightarrow> heap \<Rightarrow> (dequeue \<times> heap) option" where
  "deq_create malloc h = do {
     c_assert (malloc h \<noteq> 0);
     (hd, h) \<leftarrow> dcons malloc 0 0 0 h;
     (tl, h) \<leftarrow> dcons malloc 0 0 0 h;
     h \<leftarrow> set_next hd tl h;
     h \<leftarrow> set_prev tl hd h;
     Some (\<lparr>head = hd, tail = tl\<rparr>, h) }"

definition deq_isEmpty :: "dequeue \<Rightarrow> heap \<Rightarrow> bool option" where
  "deq_isEmpty q h = do { c \<leftarrow> deref h (head q); Some (next_cell c = tail q) }"

definition deq_pushFront :: "(heap \<Rightarrow> nat) \<Rightarrow> dequeue \<Rightarrow> nat \<Rightarrow> heap \<Rightarrow> heap option" where
  "deq_pushFront malloc q x h = do {
     c \<leftarrow> deref h (head q);
     (_, h) \<leftarrow> create_and_link malloc x (head q) (next_cell c) h;
     Some h }"

definition deq_pushBack :: "(heap \<Rightarrow> nat) \<Rightarrow> dequeue \<Rightarrow> nat \<Rightarrow> heap \<Rightarrow> heap option" where
  "deq_pushBack malloc q x h = do {
     c \<leftarrow> deref h (tail q);
     (_, h) \<leftarrow> create_and_link malloc x (prev_cell c) (tail q) h;
     Some h }"

definition deq_popFront :: "dequeue \<Rightarrow> heap \<Rightarrow> (nat \<times> heap) option" where
  "deq_popFront q h = do { c \<leftarrow> deref h (head q); unlink_and_free (next_cell c) h }"

definition deq_popBack :: "dequeue \<Rightarrow> heap \<Rightarrow> (nat \<times> heap) option" where
  "deq_popBack q h = do { c \<leftarrow> deref h (tail q); unlink_and_free (prev_cell c) h }"

definition deq_peekFront :: "dequeue \<Rightarrow> heap \<Rightarrow> nat option" where
  "deq_peekFront q h = do { c \<leftarrow> deref h (head q); d \<leftarrow> deref h (next_cell c); Some (element d) }"

definition deq_peekBack :: "dequeue \<Rightarrow> heap \<Rightarrow> nat option" where
  "deq_peekBack q h = do { c \<leftarrow> deref h (tail q); d \<leftarrow> deref h (prev_cell c); Some (element d) }"

definition deq_mkEmpty :: "dequeue \<Rightarrow> heap \<Rightarrow> heap option" where
  "deq_mkEmpty q = c_while
     (\<lambda>h. do { e \<leftarrow> deq_isEmpty q h; Some (\<not> e) })
     (\<lambda>h. do { (_, h) \<leftarrow> deq_popFront q h; Some h })"

definition deq_length :: "dequeue \<Rightarrow> heap \<Rightarrow> int option" where
  "deq_length q h = do {
     c \<leftarrow> deref h (head q);
     (count, _) \<leftarrow> c_while (\<lambda>(count, e). Some (e \<noteq> tail q))
       (\<lambda>(count, e). do { c \<leftarrow> deref h e; count \<leftarrow> i32 (count + 1); Some (count, next_cell c) })
       (0, next_cell c);
     Some count }"

definition shr_deq_create :: "(heap \<Rightarrow> nat) \<Rightarrow> heap \<Rightarrow> (dequeue \<times> heap) option" where
  "shr_deq_create upc_alloc h = do {
     c_assert (upc_alloc h \<noteq> 0);
     (hd, h) \<leftarrow> shr_dcons upc_alloc 0 0 0 h;
     (tl, h) \<leftarrow> shr_dcons upc_alloc 0 0 0 h;
     h \<leftarrow> set_next hd tl h;
     h \<leftarrow> set_prev tl hd h;
     Some (\<lparr>head = hd, tail = tl\<rparr>, h) }"

definition shr_deq_isEmpty :: "dequeue \<Rightarrow> heap \<Rightarrow> bool option" where
  "shr_deq_isEmpty q h = do { c \<leftarrow> deref h (head q); Some (next_cell c = tail q) }"

definition shr_deq_pushFront :: "(heap \<Rightarrow> nat) \<Rightarrow> dequeue \<Rightarrow> nat \<Rightarrow> heap \<Rightarrow> heap option" where
  "shr_deq_pushFront upc_alloc q x h = do {
     c \<leftarrow> deref h (head q);
     (_, h) \<leftarrow> shr_create_and_link upc_alloc x (head q) (next_cell c) h;
     Some h }"

definition shr_deq_pushBack :: "(heap \<Rightarrow> nat) \<Rightarrow> dequeue \<Rightarrow> nat \<Rightarrow> heap \<Rightarrow> heap option" where
  "shr_deq_pushBack upc_alloc q x h = do {
     c \<leftarrow> deref h (tail q);
     (_, h) \<leftarrow> shr_create_and_link upc_alloc x (prev_cell c) (tail q) h;
     Some h }"

definition shr_deq_popFront :: "dequeue \<Rightarrow> heap \<Rightarrow> (nat \<times> heap) option" where
  "shr_deq_popFront q h = do {
     e \<leftarrow> shr_deq_isEmpty q h;
     if e then Some (0, h)
     else do { c \<leftarrow> deref h (head q); shr_unlink_and_free (next_cell c) h } }"

definition shr_deq_popBack :: "dequeue \<Rightarrow> heap \<Rightarrow> (nat \<times> heap) option" where
  "shr_deq_popBack q h = do {
     e \<leftarrow> shr_deq_isEmpty q h;
     if e then Some (0, h)
     else do { c \<leftarrow> deref h (tail q); shr_unlink_and_free (prev_cell c) h } }"

definition shr_deq_peekFront :: "dequeue \<Rightarrow> heap \<Rightarrow> nat option" where
  "shr_deq_peekFront q h = do { c \<leftarrow> deref h (head q); d \<leftarrow> deref h (next_cell c); Some (element d) }"

definition shr_deq_peekBack :: "dequeue \<Rightarrow> heap \<Rightarrow> nat option" where
  "shr_deq_peekBack q h = do { c \<leftarrow> deref h (tail q); d \<leftarrow> deref h (prev_cell c); Some (element d) }"

definition shr_deq_mkEmpty :: "dequeue \<Rightarrow> heap \<Rightarrow> heap option" where
  "shr_deq_mkEmpty q = c_while
     (\<lambda>h. do { e \<leftarrow> shr_deq_isEmpty q h; Some (\<not> e) })
     (\<lambda>h. do { (_, h) \<leftarrow> shr_deq_popFront q h; Some h })"

definition shr_deq_length :: "dequeue \<Rightarrow> heap \<Rightarrow> int option" where
  "shr_deq_length q h = do {
     c \<leftarrow> deref h (head q);
     (count, _) \<leftarrow> c_while (\<lambda>(count, e). Some (e \<noteq> tail q))
       (\<lambda>(count, e). do { c \<leftarrow> deref h e; count \<leftarrow> i32 (count + 1); Some (count, next_cell c) })
       (0, next_cell c);
     Some count }"

section \<open>Chains of cells\<close>

definition adj :: "heap \<Rightarrow> nat \<Rightarrow> nat \<Rightarrow> bool" where
  "adj h x y \<longleftrightarrow> next_cell (the (h x)) = y \<and> prev_cell (the (h y)) = x"

text \<open>\<open>path\<close> holds of the addresses of a chain in order, all allocated, different and not null.\<close>

definition path :: "heap \<Rightarrow> nat list \<Rightarrow> bool" where
  "path h p \<longleftrightarrow> distinct p \<and> (\<forall>a \<in> set p. a \<noteq> 0 \<and> h a \<noteq> None) \<and> successively (adj h) p"

lemma succ_cong: "(\<And>y. y \<in> set p \<Longrightarrow> h' y = h y) \<Longrightarrow> successively (adj h') p = successively (adj h) p"
  by (rule successively_cong) (auto simp: adj_def)

lemma path_two: "path h (xs @ [p, n] @ ys) \<longleftrightarrow> distinct (xs @ [p, n] @ ys) \<and> (\<forall>a \<in> set (xs @ [p, n] @ ys). a \<noteq> 0 \<and> h a \<noteq> None) \<and>
    successively (adj h) xs \<and> (xs = [] \<or> adj h (last xs) p) \<and> adj h p n \<and> (ys = [] \<or> adj h n (hd ys)) \<and> successively (adj h) ys"
  unfolding path_def by (auto simp: successively_append_iff successively_Cons)

lemma path_three: "path h (xs @ [p, t, n] @ ys) \<longleftrightarrow> distinct (xs @ [p, t, n] @ ys) \<and> (\<forall>a \<in> set (xs @ [p, t, n] @ ys). a \<noteq> 0 \<and> h a \<noteq> None) \<and>
    successively (adj h) xs \<and> (xs = [] \<or> adj h (last xs) p) \<and> adj h p t \<and> adj h t n \<and> (ys = [] \<or> adj h n (hd ys)) \<and> successively (adj h) ys"
  unfolding path_def by (auto simp: successively_append_iff successively_Cons)

lemma in_path: "path h p \<Longrightarrow> a \<in> set p \<Longrightarrow> deref h a = h a \<and> a \<noteq> 0 \<and> h a \<noteq> None"
  by (auto simp: path_def deref_def)

lemma insert_cell:
  assumes "path h (xs @ [p, n] @ ys)" "t \<noteq> 0" "h t = None"
    and h': "h' = h(t \<mapsto> \<lparr>element = e, next_cell = n, prev_cell = p\<rparr>, p \<mapsto> (the (h p))\<lparr>next_cell := t\<rparr>,
      n \<mapsto> (the (h n))\<lparr>prev_cell := t\<rparr>)"
  shows "path h' (xs @ [p, t, n] @ ys)"
proof -
  have t: "t \<notin> set (xs @ [p, n] @ ys)" using assms(1,3) unfolding path_two by blast
  have d: "distinct (xs @ [p, n] @ ys)" using assms(1) unfolding path_two by blast
  have same: "h' y = h y" if "y \<in> set xs \<or> y \<in> set ys" for y using that t d unfolding h' by auto
  have "successively (adj h') xs = successively (adj h) xs" "successively (adj h') ys = successively (adj h) ys"
    using same by (auto intro!: succ_cong)
  moreover have "adj h' (last xs) p = adj h (last xs) p" if "xs \<noteq> []"
    using that d t unfolding adj_def h' by auto
  moreover have "adj h' n (hd ys) = adj h n (hd ys)" if "ys \<noteq> []"
    using that d t unfolding adj_def h' by auto
  moreover have "adj h' p t" "adj h' t n" using d t unfolding adj_def h' by auto
  moreover have "\<forall>a \<in> set (xs @ [p, t, n] @ ys). a \<noteq> 0 \<and> h' a \<noteq> None"
    using assms(1,2) unfolding path_two h' by auto
  ultimately show ?thesis using assms(1) t unfolding path_two path_three by auto
qed

lemma remove_cell:
  assumes "path h (xs @ [p, l, n] @ ys)"
    and h': "h' = h(n \<mapsto> (the (h n))\<lparr>prev_cell := p\<rparr>, p \<mapsto> (the (h p))\<lparr>next_cell := n\<rparr>, l := None)"
  shows "path h' (xs @ [p, n] @ ys)"
proof -
  have d: "distinct (xs @ [p, l, n] @ ys)" using assms(1) unfolding path_three by blast
  have same: "h' y = h y" if "y \<in> set xs \<or> y \<in> set ys" for y using that d unfolding h' by auto
  have "successively (adj h') xs = successively (adj h) xs" "successively (adj h') ys = successively (adj h) ys"
    using same by (auto intro!: succ_cong)
  moreover have "adj h' (last xs) p = adj h (last xs) p" if "xs \<noteq> []"
    using that d unfolding adj_def h' by auto
  moreover have "adj h' n (hd ys) = adj h n (hd ys)" if "ys \<noteq> []"
    using that d unfolding adj_def h' by auto
  moreover have "adj h' p n" using d unfolding adj_def h' by auto
  moreover have "\<forall>a \<in> set (xs @ [p, n] @ ys). a \<noteq> 0 \<and> h' a \<noteq> None"
    using assms(1) unfolding path_three h' by auto
  ultimately show ?thesis using assms(1) unfolding path_two path_three by auto
qed

text \<open>The heap part of the two operations on chains.\<close>

definition fresh_ok :: "(heap \<Rightarrow> nat) \<Rightarrow> bool" where
  "fresh_ok malloc \<longleftrightarrow> (\<forall>h. finite (dom h) \<longrightarrow> malloc h \<noteq> 0 \<and> h (malloc h) = None)"

lemma create_and_link_eq:
  assumes "path h (xs @ [p, n] @ ys)" "fresh_ok malloc" "finite (dom h)"
  shows "create_and_link malloc e p n h = Some (malloc h, h(malloc h \<mapsto> \<lparr>element = e, next_cell = n, prev_cell = p\<rparr>,
      p \<mapsto> (the (h p))\<lparr>next_cell := malloc h\<rparr>, n \<mapsto> (the (h n))\<lparr>prev_cell := malloc h\<rparr>))"
proof -
  have t: "malloc h \<noteq> 0" "h (malloc h) = None" using assms(2,3) by (auto simp: fresh_ok_def)
  have "p \<noteq> n" "p \<noteq> malloc h" "n \<noteq> malloc h" "p \<noteq> 0" "n \<noteq> 0" using assms(1) t unfolding path_two by auto
  moreover obtain c d where "h p = Some c" "h n = Some d" using assms(1) unfolding path_two by auto
  ultimately show ?thesis
    using t by (simp add: create_and_link_def dcons_def Let_def set_next_def set_prev_def deref_def put_cell_def)
qed

lemma unlink_and_free_eq:
  assumes "path h (xs @ [p, l, n] @ ys)"
  shows "unlink_and_free l h = Some (element (the (h l)), h(n \<mapsto> (the (h n))\<lparr>prev_cell := p\<rparr>,
      p \<mapsto> (the (h p))\<lparr>next_cell := n\<rparr>, l := None))"
proof -
  have d: "p \<noteq> l" "l \<noteq> n" "p \<noteq> n" "p \<noteq> 0" "l \<noteq> 0" "n \<noteq> 0" using assms unfolding path_three by auto
  obtain c where c: "h l = Some c" using assms unfolding path_three by auto
  moreover have "next_cell c = n" "prev_cell c = p" using assms c unfolding path_three adj_def by auto
  moreover obtain pc nc where "h p = Some pc" "h n = Some nc" using assms unfolding path_three by auto
  ultimately show ?thesis
    using d by (simp add: unlink_and_free_def Let_def set_next_def set_prev_def deref_def put_cell_def)
qed

section \<open>A queue on the heap holds a list\<close>

definition holds :: "heap \<Rightarrow> dequeue \<Rightarrow> nat list \<Rightarrow> bool" where
  "holds h q xs \<longleftrightarrow> finite (dom h) \<and>
     (\<exists>as. path h (head q # as @ [tail q]) \<and> xs = List.map (\<lambda>a. element (the (h a))) as)"

lemma holdsE:
  assumes "holds h q xs"
  obtains as where "path h (head q # as @ [tail q])" "xs = List.map (\<lambda>a. element (the (h a))) as" "finite (dom h)"
  using assms unfolding holds_def by blast

lemma holds_ends:
  assumes "holds h q xs"
  shows "\<exists>c. deref h (head q) = Some c \<and> (next_cell c = tail q \<longleftrightarrow> xs = [])" "\<exists>c. deref h (tail q) = Some c"
proof -
  obtain as where p: "path h (head q # as @ [tail q])" "xs = List.map (\<lambda>a. element (the (h a))) as"
    using assms unfolding holds_def by blast
  from p(1) obtain c d where "h (head q) = Some c" "head q \<noteq> 0" "h (tail q) = Some d" "tail q \<noteq> 0" by (auto simp: path_def)
  moreover have "next_cell (the (h (head q))) = hd (as @ [tail q])"
    using p(1) by (cases as) (auto simp: path_def adj_def)
  moreover have "hd (as @ [tail q]) = tail q \<longleftrightarrow> as = []" using p(1) by (cases as) (auto simp: path_def)
  ultimately show "\<exists>c. deref h (head q) = Some c \<and> (next_cell c = tail q \<longleftrightarrow> xs = [])" "\<exists>c. deref h (tail q) = Some c"
    using p(2) by (auto simp: deref_def)
qed

lemma isEmpty_holds: "holds h q xs \<Longrightarrow> deq_isEmpty q h = Some (xs = [])"
  using holds_ends(1) [of h q xs] by (auto simp: deq_isEmpty_def)

lemma create_shape:
  assumes "finite (dom h)" "fresh_ok malloc"
  shows "\<exists>a b. a \<noteq> 0 \<and> b \<noteq> 0 \<and> a \<noteq> b \<and> deq_create malloc h = Some (\<lparr>head = a, tail = b\<rparr>,
      h(a \<mapsto> \<lparr>element = 0, next_cell = b, prev_cell = 0\<rparr>, b \<mapsto> \<lparr>element = 0, next_cell = 0, prev_cell = a\<rparr>))"
proof -
  define a where "a = malloc h"
  define h1 where "h1 = h(a \<mapsto> \<lparr>element = 0, next_cell = 0, prev_cell = 0\<rparr>)"
  define b where "b = malloc h1"
  have a: "a \<noteq> 0" "h a = None" using assms by (auto simp: fresh_ok_def a_def)
  have "finite (dom h1)" using assms(1) by (simp add: h1_def)
  then have b: "b \<noteq> 0" "h1 b = None" using assms(2) by (auto simp: fresh_ok_def b_def)
  then have "a \<noteq> b" by (auto simp: h1_def)
  moreover have "deq_create malloc h = Some (\<lparr>head = a, tail = b\<rparr>, h(a \<mapsto> \<lparr>element = 0, next_cell = b, prev_cell = 0\<rparr>,
      b \<mapsto> \<lparr>element = 0, next_cell = 0, prev_cell = a\<rparr>))"
    using a b calculation
    by (simp add: deq_create_def dcons_def Let_def a_def [symmetric] h1_def [symmetric] b_def [symmetric]
      set_next_def set_prev_def deref_def put_cell_def) (simp add: h1_def fun_upd_twist)
  ultimately show ?thesis using a b by blast
qed

lemma create_holds:
  assumes "finite (dom h)" "fresh_ok malloc"
  shows "returns (deq_create malloc h) (\<lambda>(q, h'). holds h' q [])"
proof -
  obtain a b where ab: "a \<noteq> 0" "b \<noteq> 0" "a \<noteq> b" "deq_create malloc h = Some (\<lparr>head = a, tail = b\<rparr>,
      h(a \<mapsto> \<lparr>element = 0, next_cell = b, prev_cell = 0\<rparr>, b \<mapsto> \<lparr>element = 0, next_cell = 0, prev_cell = a\<rparr>))"
    using create_shape [OF assms] by blast
  moreover have "holds (h(a \<mapsto> \<lparr>element = 0, next_cell = b, prev_cell = 0\<rparr>, b \<mapsto> \<lparr>element = 0, next_cell = 0, prev_cell = a\<rparr>))
      \<lparr>head = a, tail = b\<rparr> []"
    using ab(1-3) assms(1) unfolding holds_def
    by (intro conjI exI [of _ "[]"]) (simp_all add: path_def adj_def)
  ultimately show ?thesis by simp
qed

lemma path_first: "path h (hd1 # as @ [tl1]) \<Longrightarrow> next_cell (the (h hd1)) = hd (as @ [tl1])"
  by (cases as) (auto simp: path_def adj_def)

lemma path_last: "path h (hd1 # as @ [tl1]) \<Longrightarrow> prev_cell (the (h tl1)) = last (hd1 # as)"
  by (cases as rule: rev_cases) (auto simp: path_def adj_def successively_append_iff successively_Cons)

lemma pushFront_holds:
  assumes "holds h q xs" "fresh_ok malloc"
  shows "returns (deq_pushFront malloc q x h) (\<lambda>h'. holds h' q (x # xs))"
proof -
  obtain as where p: "path h (head q # as @ [tail q])" "xs = List.map (\<lambda>a. element (the (h a))) as" and f: "finite (dom h)"
    using assms unfolding holds_def by blast
  obtain c where c: "deref h (head q) = Some c" using holds_ends(1) [OF assms(1)] by auto
  define n where "n = hd (as @ [tail q])"
  define ys where "ys = tl (as @ [tail q])"
  have asn: "as @ [tail q] = n # ys" by (simp add: n_def ys_def)
  have n: "next_cell c = n" using path_first [OF p(1)] c by (auto simp: n_def deref_def split: if_splits)
  have p': "path h ([] @ [head q, n] @ ys)" using p(1) asn by simp
  note e = create_and_link_eq [OF p' assms(2) f, of x]
  have t: "malloc h \<noteq> 0" "h (malloc h) = None" using assms(2) f by (auto simp: fresh_ok_def)
  define h' where "h' = h(malloc h \<mapsto> \<lparr>element = x, next_cell = n, prev_cell = head q\<rparr>,
      head q \<mapsto> (the (h (head q)))\<lparr>next_cell := malloc h\<rparr>, n \<mapsto> (the (h n))\<lparr>prev_cell := malloc h\<rparr>)"
  have "path h' ([] @ [head q, malloc h, n] @ ys)" by (rule insert_cell [OF p' t h'_def])
  then have "path h' (head q # (malloc h # as) @ [tail q])" using asn by simp
  moreover have "element (the (h' a)) = element (the (h a))" if "a \<in> set as" for a
    using p(1) t that by (auto simp: h'_def path_def)
  moreover have "element (the (h' (malloc h))) = x"
    using p' t by (auto simp: h'_def path_def)
  moreover have "finite (dom h')" using f by (simp add: h'_def)
  moreover have "deq_pushFront malloc q x h = Some h'" using c n e by (simp add: deq_pushFront_def h'_def)
  ultimately show ?thesis using p(2) by (auto simp: holds_def intro!: exI [of _ "malloc h # as"])
qed

lemma pushBack_holds:
  assumes "holds h q xs" "fresh_ok malloc"
  shows "returns (deq_pushBack malloc q x h) (\<lambda>h'. holds h' q (xs @ [x]))"
proof -
  obtain as where p: "path h (head q # as @ [tail q])" "xs = List.map (\<lambda>a. element (the (h a))) as" and f: "finite (dom h)"
    using assms unfolding holds_def by blast
  obtain c where c: "deref h (tail q) = Some c" using holds_ends(2) [OF assms(1)] by auto
  define m where "m = last (head q # as)"
  define ys where "ys = butlast (head q # as)"
  have asn: "head q # as = ys @ [m]" by (simp add: m_def ys_def)
  have n: "prev_cell c = m" using path_last [OF p(1)] c by (auto simp: m_def deref_def split: if_splits)
  have p': "path h (ys @ [m, tail q] @ [])" using p(1) asn by (metis append_Cons append_Nil append_assoc append_Nil2)
  note e = create_and_link_eq [OF p' assms(2) f, of x]
  have t: "malloc h \<noteq> 0" "h (malloc h) = None" using assms(2) f by (auto simp: fresh_ok_def)
  define h' where "h' = h(malloc h \<mapsto> \<lparr>element = x, next_cell = tail q, prev_cell = m\<rparr>,
      m \<mapsto> (the (h m))\<lparr>next_cell := malloc h\<rparr>, tail q \<mapsto> (the (h (tail q)))\<lparr>prev_cell := malloc h\<rparr>)"
  have "path h' (ys @ [m, malloc h, tail q] @ [])" by (rule insert_cell [OF p' t h'_def])
  then have "path h' (head q # (as @ [malloc h]) @ [tail q])" using asn by (metis append_Cons append_Nil append_assoc append_Nil2)
  moreover have "element (the (h' a)) = element (the (h a))" if "a \<in> set as" for a
    using p(1) t that by (auto simp: h'_def path_def)
  moreover have "element (the (h' (malloc h))) = x"
    using p' t by (auto simp: h'_def path_def)
  moreover have "finite (dom h')" using f by (simp add: h'_def)
  moreover have "deq_pushBack malloc q x h = Some h'" using c n e by (simp add: deq_pushBack_def h'_def)
  ultimately show ?thesis using p(2) by (auto simp: holds_def intro!: exI [of _ "as @ [malloc h]"])
qed

lemma popFront_holds:
  assumes "holds h q (x # xs)"
  shows "returns (deq_popFront q h) (\<lambda>(y, h'). y = x \<and> holds h' q xs)"
proof -
  obtain as' where p0: "path h (head q # as' @ [tail q])" "x # xs = List.map (\<lambda>a. element (the (h a))) as'" and f: "finite (dom h)"
    by (rule holdsE [OF assms])
  obtain l as where l1: "as' = l # as" using p0(2) by (cases as') simp_all
  then have l: "as' = l # as" "x = element (the (h l))" "xs = List.map (\<lambda>a. element (the (h a))) as"
    using p0(2) by simp_all
  obtain c where c: "deref h (head q) = Some c" using holds_ends(1) [OF assms] by auto
  obtain n ys where asn: "as @ [tail q] = n # ys" by (cases as) auto
  have n: "next_cell c = l" using path_first [OF p0(1)] c l(1) by (auto simp: deref_def split: if_splits)
  have p': "path h ([] @ [head q, l, n] @ ys)" using p0(1) asn l(1) by simp
  define h' where "h' = h(n \<mapsto> (the (h n))\<lparr>prev_cell := head q\<rparr>, head q \<mapsto> (the (h (head q)))\<lparr>next_cell := n\<rparr>, l := None)"
  have "path h' ([] @ [head q, n] @ ys)" by (rule remove_cell [OF p' h'_def])
  then have "path h' (head q # as @ [tail q])" using asn by simp
  moreover have "element (the (h' a)) = element (the (h a))" if "a \<in> set as" for a
    using p0(1) that l(1) by (auto simp: h'_def path_def)
  moreover have "finite (dom h')" using f by (simp add: h'_def)
  moreover have "deq_popFront q h = Some (x, h')"
    using c n unlink_and_free_eq [OF p'] l(2) by (simp add: deq_popFront_def h'_def)
  ultimately show ?thesis using l(3) by (auto simp: holds_def intro!: exI [of _ as])
qed

lemma popBack_holds:
  assumes "holds h q (xs @ [x])"
  shows "returns (deq_popBack q h) (\<lambda>(y, h'). y = x \<and> holds h' q xs)"
proof -
  obtain as' where p0: "path h (head q # as' @ [tail q])" "xs @ [x] = List.map (\<lambda>a. element (the (h a))) as'" and f: "finite (dom h)"
    by (rule holdsE [OF assms])
  obtain l as where l1: "as' = as @ [l]" using p0(2) by (cases as' rule: rev_cases) simp_all
  then have l: "as' = as @ [l]" "x = element (the (h l))" "xs = List.map (\<lambda>a. element (the (h a))) as"
    using p0(2) by simp_all
  obtain c where c: "deref h (tail q) = Some c" using holds_ends(2) [OF assms] by auto
  obtain m ys where asn: "head q # as = ys @ [m]" by (cases as rule: rev_cases) auto
  have n: "prev_cell c = l" using path_last [OF p0(1)] c l(1) by (auto simp: deref_def split: if_splits)
  have "head q # as' @ [tail q] = (head q # as) @ [l, tail q]" using l(1) by simp
  also have "\<dots> = ys @ [m, l, tail q] @ []" unfolding asn by simp
  finally have p': "path h (ys @ [m, l, tail q] @ [])" using p0(1) by (rule subst)
  define h' where "h' = h(tail q \<mapsto> (the (h (tail q)))\<lparr>prev_cell := m\<rparr>, m \<mapsto> (the (h m))\<lparr>next_cell := tail q\<rparr>, l := None)"
  have "path h' (ys @ [m, tail q] @ [])" by (rule remove_cell [OF p' h'_def])
  then have "path h' (head q # as @ [tail q])" using asn by (metis append_Cons append_Nil append_assoc append_Nil2)
  moreover have "element (the (h' a)) = element (the (h a))" if "a \<in> set as" for a
    using p0(1) that l(1) by (auto simp: h'_def path_def)
  moreover have "finite (dom h')" using f by (simp add: h'_def)
  moreover have "deq_popBack q h = Some (x, h')"
    using c n unlink_and_free_eq [OF p'] l(2) by (simp add: deq_popBack_def h'_def)
  ultimately show ?thesis using l(3) by (auto simp: holds_def intro!: exI [of _ as])
qed

lemma peek_holds:
  assumes "holds h q (x # xs)"
  shows "deq_peekFront q h = Some x" "deq_peekBack q h = Some (last (x # xs))"
proof -
  obtain as where p: "path h (head q # as @ [tail q])" "x # xs = List.map (\<lambda>a. element (the (h a))) as"
    by (rule holdsE [OF assms])
  obtain c d where cd: "deref h (head q) = Some c" "deref h (tail q) = Some d" using holds_ends [OF assms] by auto
  have as: "as \<noteq> []" using p(2) by auto
  have "next_cell c = hd as" "prev_cell d = last as"
    using path_first [OF p(1)] path_last [OF p(1)] cd as by (auto simp: deref_def split: if_splits)
  moreover have "deref h (hd as) = Some (the (h (hd as)))" "deref h (last as) = Some (the (h (last as)))"
    using in_path [OF p(1), of "hd as"] in_path [OF p(1), of "last as"] as by auto
  moreover have "x = element (the (h (hd as)))" "last (x # xs) = element (the (h (last as)))"
  proof -
    obtain b bs where b: "as = b # bs" using as by (cases as) simp_all
    then have "x = element (the (h b))" "xs = List.map (\<lambda>a. element (the (h a))) bs" using p(2) by simp_all
    then show "x = element (the (h (hd as)))" "last (x # xs) = element (the (h (last as)))"
      using last_map [of as "\<lambda>a. element (the (h a))"] b by simp_all
  qed
  ultimately show "deq_peekFront q h = Some x" "deq_peekBack q h = Some (last (x # xs))"
    using cd by (simp_all add: deq_peekFront_def deq_peekBack_def)
qed

lemma mkEmpty_holds:
  assumes "holds h q xs"
  shows "returns (deq_mkEmpty q h) (\<lambda>h'. holds h' q [])"
  using assms
proof (induction xs arbitrary: h)
  case Nil
  then show ?case using isEmpty_holds [OF Nil] by (simp add: deq_mkEmpty_def c_while_False)
next
  case (Cons x xs)
  obtain h' where h': "deq_popFront q h = Some (x, h')" "holds h' q xs"
    by (rule returnsE [OF popFront_holds [OF Cons.prems]]) auto
  then have "deq_mkEmpty q h = deq_mkEmpty q h'"
    using isEmpty_holds [OF Cons.prems] by (simp add: deq_mkEmpty_def c_while_True)
  then show ?case using Cons.IH [OF h'(2)] by simp
qed

lemma length_holds:
  assumes "holds h q xs" "length xs < 2 ^ 31"
  shows "deq_length q h = Some (int (length xs))"
proof -
  obtain as where p: "path h (head q # as @ [tail q])" "xs = List.map (\<lambda>a. element (the (h a))) as"
    using assms unfolding holds_def by blast
  let ?loop = "c_while (\<lambda>(count, e). Some (e \<noteq> tail q))
       (\<lambda>(count, e). do { c \<leftarrow> deref h e; count \<leftarrow> i32 (count + 1); Some (count, next_cell c) })"
  have "?loop (n, hd (bs @ [tail q])) = Some (n + int (length bs), tail q)"
    if "path h (bs @ [tail q])" "0 \<le> n" "n + int (length bs) < 2 ^ 31" for n bs
    using that
  proof (induction bs arbitrary: n)
    case Nil
    then show ?case by (simp add: c_while_False)
  next
    case (Cons b bs)
    then have "path h (bs @ [tail q])" "b \<noteq> tail q" "next_cell (the (h b)) = hd (bs @ [tail q])" "deref h b = Some (the (h b))"
      using in_path [OF Cons.prems(1), of b] by (cases bs; auto simp: path_def adj_def)+
    then show ?case
      using Cons.IH [of "n + 1"] Cons.prems(2,3) by (simp add: c_while_True)
  qed
  moreover have "path h (as @ [tail q])" using p(1) by (cases as) (auto simp: path_def)
  moreover obtain c where "deref h (head q) = Some c" using holds_ends(1) [OF assms(1)] by auto
  moreover from this have "next_cell c = hd (as @ [tail q])"
    using path_first [OF p(1)] by (auto simp: deref_def split: if_splits)
  ultimately show ?thesis using assms(2) p(2) by (simp add: deq_length_def)
qed

text \<open>The copy for shared memory does the same while a queue holds a list; popping an empty queue returns null.\<close>

lemma shr_cells: "shr_dcons = dcons" "shr_create_and_link = create_and_link" "l \<noteq> 0 \<Longrightarrow> shr_unlink_and_free l h = unlink_and_free l h"
  by (simp_all add: fun_eq_iff shr_dcons_def dcons_def shr_create_and_link_def create_and_link_def shr_unlink_and_free_def unlink_and_free_def)

lemma shr_same:
  "shr_deq_create = deq_create" "shr_deq_isEmpty = deq_isEmpty" "shr_deq_pushFront = deq_pushFront" "shr_deq_pushBack = deq_pushBack"
  "shr_deq_peekFront = deq_peekFront" "shr_deq_peekBack = deq_peekBack" "shr_deq_length = deq_length"
  by (simp_all add: fun_eq_iff shr_cells shr_deq_create_def deq_create_def shr_deq_isEmpty_def deq_isEmpty_def
    shr_deq_pushFront_def deq_pushFront_def shr_deq_pushBack_def deq_pushBack_def shr_deq_peekFront_def deq_peekFront_def
    shr_deq_peekBack_def deq_peekBack_def shr_deq_length_def deq_length_def)

lemma shr_pop:
  assumes "holds h q xs"
  shows "shr_deq_popFront q h = (if xs = [] then Some (0, h) else deq_popFront q h)"
    "shr_deq_popBack q h = (if xs = [] then Some (0, h) else deq_popBack q h)"
proof -
  obtain as where p: "path h (head q # as @ [tail q])" by (rule holdsE [OF assms])
  obtain c d where cd: "deref h (head q) = Some c" "deref h (tail q) = Some d" using holds_ends [OF assms] by auto
  have "next_cell c = hd (as @ [tail q])" "prev_cell d = last (head q # as)"
    using path_first [OF p] path_last [OF p] cd by (auto simp: deref_def split: if_splits)
  moreover have "hd (as @ [tail q]) \<in> set (head q # as @ [tail q])" "last (head q # as) \<in> set (head q # as @ [tail q])"
    by (auto simp: hd_append)
  ultimately have "next_cell c \<noteq> 0" "prev_cell d \<noteq> 0" using in_path [OF p] by (metis, metis)
  then show "shr_deq_popFront q h = (if xs = [] then Some (0, h) else deq_popFront q h)"
    "shr_deq_popBack q h = (if xs = [] then Some (0, h) else deq_popBack q h)"
    using isEmpty_holds [OF assms] cd
    by (simp_all add: shr_deq_popFront_def shr_deq_popBack_def deq_popFront_def deq_popBack_def shr_same shr_cells)
qed

section \<open>The interface\<close>

locale deque =
  fixes create :: "heap \<Rightarrow> (dequeue \<times> heap) option"
    and push_front :: "dequeue \<Rightarrow> nat \<Rightarrow> heap \<Rightarrow> heap option"
    and push_back :: "dequeue \<Rightarrow> nat \<Rightarrow> heap \<Rightarrow> heap option"
    and pop_front :: "dequeue \<Rightarrow> heap \<Rightarrow> (nat \<times> heap) option"
    and pop_back :: "dequeue \<Rightarrow> heap \<Rightarrow> (nat \<times> heap) option"
    and peek_front :: "dequeue \<Rightarrow> heap \<Rightarrow> nat option"
    and peek_back :: "dequeue \<Rightarrow> heap \<Rightarrow> nat option"
    and is_empty :: "dequeue \<Rightarrow> heap \<Rightarrow> bool option"
    and ready :: "heap \<Rightarrow> bool"
    and contains :: "heap \<Rightarrow> dequeue \<Rightarrow> nat list \<Rightarrow> bool"
  assumes created: "ready h \<Longrightarrow> returns (create h) (\<lambda>(q, h'). contains h' q [])"
    and pushed_front: "contains h q xs \<Longrightarrow> returns (push_front q x h) (\<lambda>h'. contains h' q (x # xs))"
    and pushed_back: "contains h q xs \<Longrightarrow> returns (push_back q x h) (\<lambda>h'. contains h' q (xs @ [x]))"
    and popped_front: "contains h q (x # xs) \<Longrightarrow> returns (pop_front q h) (\<lambda>(y, h'). y = x \<and> contains h' q xs)"
    and popped_back: "contains h q (xs @ [x]) \<Longrightarrow> returns (pop_back q h) (\<lambda>(y, h'). y = x \<and> contains h' q xs)"
    and peeked_front: "contains h q (x # xs) \<Longrightarrow> peek_front q h = Some x"
    and peeked_back: "contains h q (xs @ [x]) \<Longrightarrow> peek_back q h = Some x"
    and empty_iff: "contains h q xs \<Longrightarrow> is_empty q h = Some (xs = [])"

datatype deq_op = Push_front nat | Push_back nat | Pop_front | Pop_back | Peek_front | Peek_back | Is_empty

text \<open>What an operation does to the list, and what it does on the heap.  A result is \<open>None\<close> where the
  function returns \<open>void\<close>.\<close>

fun list_op :: "deq_op \<Rightarrow> nat list \<Rightarrow> (nat option \<times> nat list) option" where
  "list_op (Push_front x) xs = Some (None, x # xs)"
| "list_op (Push_back x) xs = Some (None, xs @ [x])"
| "list_op Pop_front xs = (if xs = [] then None else Some (Some (hd xs), tl xs))"
| "list_op Pop_back xs = (if xs = [] then None else Some (Some (last xs), butlast xs))"
| "list_op Peek_front xs = (if xs = [] then None else Some (Some (hd xs), xs))"
| "list_op Peek_back xs = (if xs = [] then None else Some (Some (last xs), xs))"
| "list_op Is_empty xs = Some (Some (if xs = [] then 1 else 0), xs)"

fun list_ops :: "deq_op list \<Rightarrow> nat list \<Rightarrow> (nat option list \<times> nat list) option" where
  "list_ops [] xs = Some ([], xs)"
| "list_ops (p # ps) xs = do { (r, xs) \<leftarrow> list_op p xs; (rs, xs) \<leftarrow> list_ops ps xs; Some (r # rs, xs) }"

fun deq_do :: "(heap \<Rightarrow> nat) \<Rightarrow> deq_op \<Rightarrow> dequeue \<Rightarrow> heap \<Rightarrow> (nat option \<times> heap) option" where
  "deq_do m (Push_front x) q h = do { h \<leftarrow> deq_pushFront m q x h; Some (None, h) }"
| "deq_do m (Push_back x) q h = do { h \<leftarrow> deq_pushBack m q x h; Some (None, h) }"
| "deq_do m Pop_front q h = do { (x, h) \<leftarrow> deq_popFront q h; Some (Some x, h) }"
| "deq_do m Pop_back q h = do { (x, h) \<leftarrow> deq_popBack q h; Some (Some x, h) }"
| "deq_do m Peek_front q h = do { x \<leftarrow> deq_peekFront q h; Some (Some x, h) }"
| "deq_do m Peek_back q h = do { x \<leftarrow> deq_peekBack q h; Some (Some x, h) }"
| "deq_do m Is_empty q h = do { e \<leftarrow> deq_isEmpty q h; Some (Some (if e then 1 else 0), h) }"

fun shr_deq_do :: "(heap \<Rightarrow> nat) \<Rightarrow> deq_op \<Rightarrow> dequeue \<Rightarrow> heap \<Rightarrow> (nat option \<times> heap) option" where
  "shr_deq_do m (Push_front x) q h = do { h \<leftarrow> shr_deq_pushFront m q x h; Some (None, h) }"
| "shr_deq_do m (Push_back x) q h = do { h \<leftarrow> shr_deq_pushBack m q x h; Some (None, h) }"
| "shr_deq_do m Pop_front q h = do { (x, h) \<leftarrow> shr_deq_popFront q h; Some (Some x, h) }"
| "shr_deq_do m Pop_back q h = do { (x, h) \<leftarrow> shr_deq_popBack q h; Some (Some x, h) }"
| "shr_deq_do m Peek_front q h = do { x \<leftarrow> shr_deq_peekFront q h; Some (Some x, h) }"
| "shr_deq_do m Peek_back q h = do { x \<leftarrow> shr_deq_peekBack q h; Some (Some x, h) }"
| "shr_deq_do m Is_empty q h = do { e \<leftarrow> shr_deq_isEmpty q h; Some (Some (if e then 1 else 0), h) }"

primrec run_ops :: "(deq_op \<Rightarrow> heap \<Rightarrow> (nat option \<times> heap) option) \<Rightarrow> deq_op list \<Rightarrow> heap \<Rightarrow> (nat option list \<times> heap) option" where
  "run_ops f [] h = Some ([], h)"
| "run_ops f (p # ps) h = do { (r, h) \<leftarrow> f p h; (rs, h) \<leftarrow> run_ops f ps h; Some (r # rs, h) }"

context deque
begin

lemma op_simulates:
  assumes c: "contains h q xs" and l: "list_op p xs = Some (r, xs')"
    and f: "\<And>x h. f (Push_front x) h = do { h \<leftarrow> push_front q x h; Some (None, h) }"
      "\<And>x h. f (Push_back x) h = do { h \<leftarrow> push_back q x h; Some (None, h) }"
      "\<And>h. f Pop_front h = do { (x, h) \<leftarrow> pop_front q h; Some (Some x, h) }"
      "\<And>h. f Pop_back h = do { (x, h) \<leftarrow> pop_back q h; Some (Some x, h) }"
      "\<And>h. f Peek_front h = do { x \<leftarrow> peek_front q h; Some (Some x, h) }"
      "\<And>h. f Peek_back h = do { x \<leftarrow> peek_back q h; Some (Some x, h) }"
      "\<And>h. f Is_empty h = do { e \<leftarrow> is_empty q h; Some (Some (if e then 1 else 0), h) }"
  shows "returns (f p h) (\<lambda>(r', h'). r' = r \<and> contains h' q xs')"
proof (cases p)
  case (Push_front x)
  then show ?thesis using pushed_front [OF c, of x] l f(1) by (auto elim!: returns_mono)
next
  case (Push_back x)
  then show ?thesis using pushed_back [OF c, of x] l f(2) by (auto elim!: returns_mono)
next
  case Pop_front
  then obtain x ys where "xs = x # ys" "r = Some x" "xs' = ys" using l by (cases xs) auto
  then show ?thesis using popped_front [of h q x ys] c Pop_front f(3) by (auto elim!: returns_mono)
next
  case Pop_back
  then obtain x ys where "xs = ys @ [x]" "r = Some x" "xs' = ys" using l by (cases xs rule: rev_cases) auto
  then show ?thesis using popped_back [of h q ys x] c Pop_back f(4) by (auto elim!: returns_mono)
next
  case Peek_front
  then obtain x ys where "xs = x # ys" "r = Some x" "xs' = xs" using l by (cases xs) auto
  then show ?thesis using peeked_front [of h q x ys] c Peek_front f(5) by simp
next
  case Peek_back
  then obtain x ys where "xs = ys @ [x]" "r = Some x" "xs' = xs" using l by (cases xs rule: rev_cases) auto
  then show ?thesis using peeked_back [of h q ys x] c Peek_back f(6) by simp
next
  case Is_empty
  then show ?thesis using empty_iff [OF c] l f(7) c by auto
qed

lemma run_simulates:
  assumes "contains h q xs" "list_ops ps xs = Some (rs, xs')"
    and step: "\<And>p h xs r xs'. contains h q xs \<Longrightarrow> list_op p xs = Some (r, xs') \<Longrightarrow>
      returns (f p h) (\<lambda>(r', h'). r' = r \<and> contains h' q xs')"
  shows "returns (run_ops f ps h) (\<lambda>(rs', h'). rs' = rs \<and> contains h' q xs')"
  using assms(1,2)
proof (induction ps arbitrary: h xs rs)
  case (Cons p ps)
  then obtain r ys rs1 where 1: "list_op p xs = Some (r, ys)" "list_ops ps ys = Some (rs1, xs')" "rs = r # rs1"
    by (auto split: Option.bind_splits)
  obtain h1 where 2: "f p h = Some (r, h1)" "contains h1 q ys"
    by (rule returnsE [OF step [OF Cons.prems(1) 1(1)]]) auto
  obtain h2 where "run_ops f ps h1 = Some (rs1, h2)" "contains h2 q xs'"
    by (rule returnsE [OF Cons.IH [OF 2(2) 1(2)]]) auto
  then show ?case using 1(3) 2(1) by simp
qed simp

end

lemma peekBack_holds: "holds h q (xs @ [x]) \<Longrightarrow> deq_peekBack q h = Some x"
  using peek_holds(2) [of h q "hd (xs @ [x])" "tl (xs @ [x])"] by (cases xs) simp_all

interpretation dq: deque "deq_create m" "deq_pushFront m" "deq_pushBack m" deq_popFront deq_popBack deq_peekFront deq_peekBack
    deq_isEmpty "\<lambda>h. finite (dom h) \<and> fresh_ok m" "\<lambda>h q xs. holds h q xs \<and> fresh_ok m" for m
proof (unfold_locales, goal_cases)
  case (1 h)
  then show ?case using create_holds [of h m] by (auto elim!: returns_mono)
next
  case (2 h q xs x)
  then show ?case using pushFront_holds [of h q xs m x] by (auto elim!: returns_mono)
next
  case (3 h q xs x)
  then show ?case using pushBack_holds [of h q xs m x] by (auto elim!: returns_mono)
next
  case (4 h q x xs)
  then show ?case using popFront_holds [of h q x xs] by (auto elim!: returns_mono)
next
  case (5 h q xs x)
  then show ?case using popBack_holds [of h q xs x] by (auto elim!: returns_mono)
qed (auto simp: peek_holds peekBack_holds isEmpty_holds)

lemma shr_popped: "holds h q (x # xs) \<Longrightarrow> shr_deq_popFront q h = deq_popFront q h"
  "holds h q (xs @ [x]) \<Longrightarrow> shr_deq_popBack q h = deq_popBack q h"
  by (simp_all add: shr_pop)

interpretation shr: deque "shr_deq_create m" "shr_deq_pushFront m" "shr_deq_pushBack m" shr_deq_popFront shr_deq_popBack
    shr_deq_peekFront shr_deq_peekBack shr_deq_isEmpty "\<lambda>h. finite (dom h) \<and> fresh_ok m" "\<lambda>h q xs. holds h q xs \<and> fresh_ok m" for m
  by unfold_locales
    (auto simp: shr_same shr_popped create_holds pushFront_holds pushBack_holds popFront_holds popBack_holds
      peek_holds peekBack_holds isEmpty_holds)

lemma shr_mkEmpty_holds: "holds h q xs \<Longrightarrow> shr_deq_mkEmpty q h = deq_mkEmpty q h"
proof (induction xs arbitrary: h)
  case Nil
  then show ?case using isEmpty_holds [OF Nil] by (simp add: deq_mkEmpty_def shr_deq_mkEmpty_def c_while_False shr_same)
next
  case (Cons x xs)
  obtain h' where h': "deq_popFront q h = Some (x, h')" "holds h' q xs"
    by (rule returnsE [OF popFront_holds [OF Cons.prems]]) auto
  have "deq_mkEmpty q h = deq_mkEmpty q h'" "shr_deq_mkEmpty q h = shr_deq_mkEmpty q h'"
    using h'(1) isEmpty_holds [OF Cons.prems] shr_popped(1) [OF Cons.prems]
    by (simp_all add: deq_mkEmpty_def shr_deq_mkEmpty_def c_while_True shr_same)
  then show ?case using Cons.IH [OF h'(2)] by simp
qed

text \<open>C22: after any sequence of operations that never takes from an empty queue, both queues have returned what
  the same operations return on a list, hold that list, give its length, and can be emptied; no null or freed
  cell was used.\<close>

theorem dequeue_refines_list:
  assumes "fresh_ok m" "finite (dom h)" "list_ops ps [] = Some (rs, xs)" "length xs < 2 ^ 31"
  shows "(\<exists>q h1 h2 h3. deq_create m h = Some (q, h1) \<and> run_ops (\<lambda>p. deq_do m p q) ps h1 = Some (rs, h2) \<and>
      deq_length q h2 = Some (int (length xs)) \<and> deq_mkEmpty q h2 = Some h3 \<and> deq_isEmpty q h3 = Some True) \<and>
    (\<exists>q h1 h2 h3. shr_deq_create m h = Some (q, h1) \<and> run_ops (\<lambda>p. shr_deq_do m p q) ps h1 = Some (rs, h2) \<and>
      shr_deq_length q h2 = Some (int (length xs)) \<and> shr_deq_mkEmpty q h2 = Some h3 \<and> shr_deq_isEmpty q h3 = Some True)"
proof -
  obtain q h1 where c: "deq_create m h = Some (q, h1)" "holds h1 q [] \<and> fresh_ok m"
    by (rule returnsE [OF create_holds [OF assms(2,1)]]) (use assms(1) in auto)
  have finish: "\<exists>h3. deq_length q h2 = Some (int (length xs)) \<and> deq_mkEmpty q h2 = Some h3 \<and> deq_isEmpty q h3 = Some True"
    if "holds h2 q xs \<and> fresh_ok m" for h2
    using returnsE [OF mkEmpty_holds [of h2 q xs]] length_holds [of h2 q xs] isEmpty_holds [of _ q "[]"] that assms(4) by metis
  obtain h2 where 2: "run_ops (\<lambda>p. deq_do m p q) ps h1 = Some (rs, h2)" "holds h2 q xs \<and> fresh_ok m"
    by (rule returnsE [OF dq.run_simulates [OF c(2) assms(3), where f = "\<lambda>p. deq_do m p q"]])
      (use dq.op_simulates [where m = m and q = q and f = "\<lambda>p. deq_do m p q"] in auto)
  obtain h2' where 3: "run_ops (\<lambda>p. shr_deq_do m p q) ps h1 = Some (rs, h2')" "holds h2' q xs \<and> fresh_ok m"
    by (rule returnsE [OF shr.run_simulates [OF c(2) assms(3), where f = "\<lambda>p. shr_deq_do m p q"]])
      (use shr.op_simulates [where m = m and q = q and f = "\<lambda>p. shr_deq_do m p q"] in auto)
  show ?thesis
    using c(1) 2 3 finish [OF 2(2)] finish [OF 3(2)] shr_mkEmpty_holds by (auto simp: shr_same)
qed

text \<open>An allocator that never runs out: it takes the address behind the largest one in use.\<close>

definition bump :: "heap \<Rightarrow> nat" where
  "bump h = Suc (Max (insert 0 (dom h)))"

lemma bump_fresh: "fresh_ok bump"
proof -
  have "h (bump h) = None" if "finite (dom h)" for h
  proof (rule ccontr)
    assume "h (bump h) \<noteq> None"
    then have "bump h \<le> Max (insert 0 (dom h))" using that by (intro Max_ge) auto
    then show False by (simp add: bump_def)
  qed
  then show ?thesis by (simp add: fresh_ok_def bump_def)
qed

theorem dequeue_refines_list_witness:
  "(\<exists>q h1 h2 h3. deq_create bump Map.empty = Some (q, h1) \<and>
      run_ops (\<lambda>p. deq_do bump p q) [Push_front 5, Push_back 7, Pop_front] h1 = Some ([None, None, Some 5], h2) \<and>
      deq_length q h2 = Some (int (length [7 :: nat])) \<and> deq_mkEmpty q h2 = Some h3 \<and> deq_isEmpty q h3 = Some True) \<and>
    (\<exists>q h1 h2 h3. shr_deq_create bump Map.empty = Some (q, h1) \<and>
      run_ops (\<lambda>p. shr_deq_do bump p q) [Push_front 5, Push_back 7, Pop_front] h1 = Some ([None, None, Some 5], h2) \<and>
      shr_deq_length q h2 = Some (int (length [7 :: nat])) \<and> shr_deq_mkEmpty q h2 = Some h3 \<and> shr_deq_isEmpty q h3 = Some True)"
  by (rule dequeue_refines_list) (simp_all add: bump_fresh)

text \<open>C36: taking from a new queue follows the null pointer of a sentinel, so it has no result; the copy for shared
  memory returns null and leaves the queue as it is.\<close>

theorem pop_of_empty_queue:
  assumes "fresh_ok m" "finite (dom h)" "deq_create m h = Some (q, h1)"
  shows "deq_popFront q h1 = None \<and> deq_popBack q h1 = None \<and>
    shr_deq_popFront q h1 = Some (0, h1) \<and> shr_deq_popBack q h1 = Some (0, h1)"
proof -
  obtain a b where ab: "a \<noteq> 0" "b \<noteq> 0" "a \<noteq> b" "q = \<lparr>head = a, tail = b\<rparr>"
    "h1 = h(a \<mapsto> \<lparr>element = 0, next_cell = b, prev_cell = 0\<rparr>, b \<mapsto> \<lparr>element = 0, next_cell = 0, prev_cell = a\<rparr>)"
    using create_shape [OF assms(2,1)] assms(3) by auto
  have "holds h1 q []" using create_holds [OF assms(2,1)] assms(3) by simp
  then have "shr_deq_popFront q h1 = Some (0, h1)" "shr_deq_popBack q h1 = Some (0, h1)" by (simp_all add: shr_pop)
  moreover have "deq_popFront q h1 = None" "deq_popBack q h1 = None"
    using ab by (auto simp: deq_popFront_def deq_popBack_def unlink_and_free_def set_prev_def set_next_def deref_def put_cell_def Let_def)
  ultimately show ?thesis by simp
qed

theorem pop_of_empty_queue_witness:
  "\<exists>q h1. deq_create bump Map.empty = Some (q, h1) \<and> deq_popFront q h1 = None \<and> deq_popBack q h1 = None \<and>
    shr_deq_popFront q h1 = Some (0, h1) \<and> shr_deq_popBack q h1 = Some (0, h1)"
proof -
  obtain q h1 where c: "deq_create bump Map.empty = Some (q, h1)"
    using create_shape [OF _ bump_fresh, of Map.empty] by auto
  from pop_of_empty_queue [OF bump_fresh _ c] c show ?thesis by simp
qed

end
