(* ===== verification/Sha1.thy ===== *)
theory Sha1
  imports C_Prelude
begin

text \<open>
  The random streams of the unbalanced tree search, \<open>uts/rng/brg_sha1.c\<close>: the incremental SHA-1 of the file
  and the operations \<open>rng_init\<close>, \<open>rng_spawn\<close>, \<open>rng_rand\<close> and \<open>rng_nextrand\<close> built on it.  The buffer \<open>wbuf\<close>
  is an array of sixteen 32-bit words which \<open>memcpy\<close> writes byte by byte, so the order of the bytes in a word
  is the parameter \<open>le\<close> (little endian: \<open>SWAP_BYTES\<close> is defined); the results hold for both orders.
  The reference is the hash function of FIPS 180-1: padding, the message schedule of 80 words, 80 rounds.
\<close>

section \<open>Bytes and words\<close>

definition bytes_of_word :: "bool \<Rightarrow> 32 word \<Rightarrow> 8 word list" where
  "bytes_of_word le x =
     (let bs = [ucast x, ucast (drop_bit 8 x), ucast (drop_bit 16 x), ucast (drop_bit 24 x)]
      in if le then bs else rev bs)"

definition word_of_bytes :: "bool \<Rightarrow> 8 word list \<Rightarrow> 32 word" where
  "word_of_bytes le bs =
     (let cs = (if le then bs else rev bs)
      in ucast (cs ! 0) OR push_bit 8 (ucast (cs ! 1)) OR push_bit 16 (ucast (cs ! 2)) OR push_bit 24 (ucast (cs ! 3)))"

definition mem_of :: "bool \<Rightarrow> 32 word list \<Rightarrow> 8 word list" where
  "mem_of le ws = concat (List.map (bytes_of_word le) ws)"

fun words_of :: "bool \<Rightarrow> 8 word list \<Rightarrow> 32 word list" where
  "words_of le (a # b # c # d # bs) = word_of_bytes le [a, b, c, d] # words_of le bs"
| "words_of le _ = []"

text \<open>\<open>memcpy\<close> of \<open>n\<close> bytes of \<open>src\<close>, from \<open>sp\<close> on, to the byte \<open>pos\<close> of an array of words.\<close>

definition memcpy_words :: "bool \<Rightarrow> 32 word list \<Rightarrow> nat \<Rightarrow> 8 word list \<Rightarrow> nat \<Rightarrow> nat \<Rightarrow> 32 word list option" where
  "memcpy_words le ws pos src sp n = do {
     c_assert (pos + n \<le> 4 * length ws \<and> sp + n \<le> length src);
     let m = mem_of le ws;
     Some (words_of le (take pos m @ seg src sp n @ drop (pos + n) m)) }"

section \<open>The compression\<close>

record sha1_ctx =
  count0 :: "32 word"
  count1 :: "32 word"
  hash :: "32 word list"
  wbuf :: "32 word list"

definition SHA1_BLOCK_SIZE :: "32 word" where
  "SHA1_BLOCK_SIZE = 64"

definition SHA1_MASK :: "32 word" where
  "SHA1_MASK = SHA1_BLOCK_SIZE - 1"

definition rotl32 :: "32 word \<Rightarrow> nat \<Rightarrow> 32 word" where
  "rotl32 x n = (push_bit n x OR drop_bit (32 - n) x)"

definition rotr32 :: "32 word \<Rightarrow> nat \<Rightarrow> 32 word" where
  "rotr32 x n = (drop_bit n x OR push_bit (32 - n) x)"

definition bswap_32 :: "32 word \<Rightarrow> 32 word" where
  "bswap_32 x = ((rotr32 x 24 AND 0x00ff00ff) OR (rotr32 x 8 AND 0xff00ff00))"

definition bsw_32 :: "bool \<Rightarrow> 32 word list \<Rightarrow> nat \<Rightarrow> 32 word list option" where
  "bsw_32 le p n = (if le then do {
     c_assert (n \<le> length p);
     Some (List.map bswap_32 (take n p) @ drop n p) } else Some p)"

definition ch :: "32 word \<Rightarrow> 32 word \<Rightarrow> 32 word \<Rightarrow> 32 word" where
  "ch x y z = (z XOR (x AND (y XOR z)))"

definition parity :: "32 word \<Rightarrow> 32 word \<Rightarrow> 32 word \<Rightarrow> 32 word" where
  "parity x y z = (x XOR y XOR z)"

definition maj :: "32 word \<Rightarrow> 32 word \<Rightarrow> 32 word \<Rightarrow> 32 word" where
  "maj x y z = ((x AND y) OR (z AND (x XOR y)))"

text \<open>The two definitions of the macro \<open>hf\<close>: the word \<open>i\<close> of the buffer, then the next word of the schedule,
  which replaces the oldest of the buffer.  \<open>i & 15\<close> is \<open>i mod 16\<close>.\<close>

definition hf_load :: "nat \<Rightarrow> 32 word list \<Rightarrow> 32 word \<times> 32 word list" where
  "hf_load i w = (w ! i, w)"

definition hf_next :: "nat \<Rightarrow> 32 word list \<Rightarrow> 32 word \<times> 32 word list" where
  "hf_next i w =
     (let x = rotl32 (w ! ((i + 13) mod 16) XOR w ! ((i + 8) mod 16) XOR w ! ((i + 2) mod 16) XOR w ! (i mod 16)) 1
      in (x, w[i mod 16 := x]))"

definition one_cycle ::
    "(nat \<Rightarrow> 32 word list \<Rightarrow> 32 word \<times> 32 word list) \<Rightarrow> nat \<Rightarrow> nat \<Rightarrow> nat \<Rightarrow> nat \<Rightarrow> nat \<Rightarrow>
     (32 word \<Rightarrow> 32 word \<Rightarrow> 32 word \<Rightarrow> 32 word) \<Rightarrow> 32 word \<Rightarrow> nat \<Rightarrow>
     32 word list \<times> 32 word list \<Rightarrow> 32 word list \<times> 32 word list" where
  "one_cycle hf a b c d e f k i = (\<lambda>(v, w).
     let (h, w) = hf i w;
         v = v[e := v ! e + (rotr32 (v ! a) 27 + f (v ! b) (v ! c) (v ! d) + k + h)];
         v = v[b := rotr32 (v ! b) 2]
     in (v, w))"

definition five_cycle ::
    "(nat \<Rightarrow> 32 word list \<Rightarrow> 32 word \<times> 32 word list) \<Rightarrow>
     (32 word \<Rightarrow> 32 word \<Rightarrow> 32 word \<Rightarrow> 32 word) \<Rightarrow> 32 word \<Rightarrow> nat \<Rightarrow>
     32 word list \<times> 32 word list \<Rightarrow> 32 word list \<times> 32 word list" where
  "five_cycle hf f k i s =
     (let s = one_cycle hf 0 1 2 3 4 f k i s;
          s = one_cycle hf 4 0 1 2 3 f k (i + 1) s;
          s = one_cycle hf 3 4 0 1 2 f k (i + 2) s;
          s = one_cycle hf 2 3 4 0 1 f k (i + 3) s
      in one_cycle hf 1 2 3 4 0 f k (i + 4) s)"

definition sha1_compile :: "sha1_ctx \<Rightarrow> sha1_ctx" where
  "sha1_compile ctx =
     (let s = (hash ctx, wbuf ctx);
          s = five_cycle hf_load ch 0x5a827999 0 s;
          s = five_cycle hf_load ch 0x5a827999 5 s;
          s = five_cycle hf_load ch 0x5a827999 10 s;
          s = one_cycle hf_load 0 1 2 3 4 ch 0x5a827999 15 s;
          s = one_cycle hf_next 4 0 1 2 3 ch 0x5a827999 16 s;
          s = one_cycle hf_next 3 4 0 1 2 ch 0x5a827999 17 s;
          s = one_cycle hf_next 2 3 4 0 1 ch 0x5a827999 18 s;
          s = one_cycle hf_next 1 2 3 4 0 ch 0x5a827999 19 s;
          s = five_cycle hf_next parity 0x6ed9eba1 20 s;
          s = five_cycle hf_next parity 0x6ed9eba1 25 s;
          s = five_cycle hf_next parity 0x6ed9eba1 30 s;
          s = five_cycle hf_next parity 0x6ed9eba1 35 s;
          s = five_cycle hf_next maj 0x8f1bbcdc 40 s;
          s = five_cycle hf_next maj 0x8f1bbcdc 45 s;
          s = five_cycle hf_next maj 0x8f1bbcdc 50 s;
          s = five_cycle hf_next maj 0x8f1bbcdc 55 s;
          s = five_cycle hf_next parity 0xca62c1d6 60 s;
          s = five_cycle hf_next parity 0xca62c1d6 65 s;
          s = five_cycle hf_next parity 0xca62c1d6 70 s;
          (v, w) = five_cycle hf_next parity 0xca62c1d6 75 s
      in ctx\<lparr>hash := List.map (\<lambda>i. hash ctx ! i + v ! i) [0, 1, 2, 3, 4], wbuf := w\<rparr>)"

section \<open>The incremental hash\<close>

definition sha1_begin :: "sha1_ctx \<Rightarrow> sha1_ctx" where
  "sha1_begin ctx = ctx\<lparr>count0 := 0, count1 := 0,
     hash := [0x67452301, 0xefcdab89, 0x98badcfe, 0x10325476, 0xc3d2e1f0]\<rparr>"

definition sha1_hash :: "bool \<Rightarrow> 8 word list \<Rightarrow> 64 word \<Rightarrow> sha1_ctx \<Rightarrow> sha1_ctx option" where
  "sha1_hash le data len ctx = do {
     let pos = count0 ctx AND SHA1_MASK;
     let space = SHA1_BLOCK_SIZE - pos;
     let ctx = ctx\<lparr>count0 := count0 ctx + ucast len\<rparr>;
     let ctx = (if ucast (count0 ctx) < len then ctx\<lparr>count1 := count1 ctx + 1\<rparr> else ctx);
     (ctx, sp, len, space, pos) \<leftarrow> c_while
       (\<lambda>(ctx, sp, len, space, pos). Some (ucast space \<le> len))
       (\<lambda>(ctx, sp, len, space, pos). do {
          w \<leftarrow> memcpy_words le (wbuf ctx) (unat pos) data sp (unat space);
          let sp = sp + unat space;
          let len = len - ucast space;
          w \<leftarrow> bsw_32 le w (unat (drop_bit 2 SHA1_BLOCK_SIZE));
          Some (sha1_compile (ctx\<lparr>wbuf := w\<rparr>), sp, len, SHA1_BLOCK_SIZE, 0) })
       (ctx, 0, len, space, pos);
     w \<leftarrow> memcpy_words le (wbuf ctx) (unat pos) data sp (unat len);
     Some (ctx\<lparr>wbuf := w\<rparr>) }"

text \<open>\<open>~i & 3\<close> counts the bytes of a word behind the byte \<open>i\<close>.\<close>

definition first_pad :: "bool \<Rightarrow> 32 word list \<Rightarrow> 32 word \<Rightarrow> 32 word list option" where
  "first_pad le w i = do {
     w \<leftarrow> bsw_32 le w (unat (drop_bit 2 (i + 3)));
     x \<leftarrow> aget w (uint (drop_bit 2 i));
     w \<leftarrow> aset w (uint (drop_bit 2 i)) (x AND push_bit (8 * unat (NOT i AND 3)) 0xffffff80);
     x \<leftarrow> aget w (uint (drop_bit 2 i));
     aset w (uint (drop_bit 2 i)) (x OR push_bit (8 * unat (NOT i AND 3)) 0x00000080) }"

definition sha1_end :: "bool \<Rightarrow> sha1_ctx \<Rightarrow> (8 word list \<times> sha1_ctx) option" where
  "sha1_end le ctx = do {
     let i = count0 ctx AND SHA1_MASK;
     w \<leftarrow> first_pad le (wbuf ctx) i;
     (ctx, i) \<leftarrow> (if SHA1_BLOCK_SIZE - 9 < i then do {
         w \<leftarrow> (if i < 60 then aset w 15 0 else Some w);
         Some (sha1_compile (ctx\<lparr>wbuf := w\<rparr>), 0) }
       else Some (ctx\<lparr>wbuf := w\<rparr>, drop_bit 2 i + 1));
     w \<leftarrow> for_range (uint i) 14 (\<lambda>i w. aset w i 0) (wbuf ctx);
     w \<leftarrow> aset w 14 (push_bit 3 (count1 ctx) OR drop_bit 29 (count0 ctx));
     w \<leftarrow> aset w 15 (push_bit 3 (count0 ctx));
     let ctx = sha1_compile (ctx\<lparr>wbuf := w\<rparr>);
     Some (List.map (\<lambda>i. ucast (drop_bit (8 * (3 - i mod 4)) (hash ctx ! (i div 4)))) [0..<20], ctx) }"

definition sha1 :: "bool \<Rightarrow> 8 word list \<Rightarrow> 64 word \<Rightarrow> sha1_ctx \<Rightarrow> 8 word list option" where
  "sha1 le data len cx = do {
     cx \<leftarrow> sha1_hash le data len (sha1_begin cx);
     (hval, _) \<leftarrow> sha1_end le cx;
     Some hval }"

section \<open>The random streams\<close>

text \<open>The state is an array of 20 bytes; \<open>ctx\<close> is the uninitialised local of each function.  A \<open>seed\<close> and a
  \<open>spawnnumber\<close> are signed, so the right shifts of the C code keep the sign.\<close>

definition int_bytes :: "32 word \<Rightarrow> 8 word list" where
  "int_bytes s = [ucast (0xFF AND signed_drop_bit 24 s), ucast (0xFF AND signed_drop_bit 16 s),
     ucast (0xFF AND signed_drop_bit 8 s), ucast (0xFF AND s)]"

definition rng_init :: "bool \<Rightarrow> 32 word \<Rightarrow> sha1_ctx \<Rightarrow> 8 word list option" where
  "rng_init le seed ctx = do {
     let gen = replicate 16 0 @ int_bytes seed;
     ctx \<leftarrow> sha1_hash le gen 20 (sha1_begin ctx);
     (newstate, _) \<leftarrow> sha1_end le ctx;
     Some newstate }"

definition rng_spawn :: "bool \<Rightarrow> 8 word list \<Rightarrow> 32 word \<Rightarrow> sha1_ctx \<Rightarrow> 8 word list option" where
  "rng_spawn le mystate spawnnumber ctx = do {
     let bytes = int_bytes spawnnumber;
     ctx \<leftarrow> sha1_hash le mystate 20 (sha1_begin ctx);
     ctx \<leftarrow> sha1_hash le bytes 4 ctx;
     (newstate, _) \<leftarrow> sha1_end le ctx;
     Some newstate }"

definition POS_MASK :: "32 word" where
  "POS_MASK = 0x7fffffff"

text \<open>A byte is promoted to a signed \<open>int\<close> before it is shifted.  In ISO C the left shift of an \<open>int\<close> is defined only
  while the product fits; what a shift that does not fit returns, if anything, is the parameter \<open>ovf\<close>: \<open>no_shift\<close> is ISO C and
  \<open>wrapped_shift\<close> is what GCC documents for this extension.\<close>

definition shl_int :: "(int \<Rightarrow> int option) \<Rightarrow> int \<Rightarrow> nat \<Rightarrow> int option" where
  "shl_int ovf x k = (if 0 \<le> x \<and> x * 2 ^ k < 2 ^ 31 then Some (x * 2 ^ k) else ovf (x * 2 ^ k))"

definition no_shift :: "int \<Rightarrow> int option" where
  "no_shift x = None"

definition wrapped_shift :: "int \<Rightarrow> int option" where
  "wrapped_shift x = Some (sint (word_of_int x :: 32 word))"

definition rng_rand :: "(int \<Rightarrow> int option) \<Rightarrow> 8 word list \<Rightarrow> int option" where
  "rng_rand ovf mystate = do {
     a \<leftarrow> aget mystate 16; a \<leftarrow> shl_int ovf (uint a) 24;
     b \<leftarrow> aget mystate 17; b \<leftarrow> shl_int ovf (uint b) 16;
     c \<leftarrow> aget mystate 18; c \<leftarrow> shl_int ovf (uint c) 8;
     d \<leftarrow> aget mystate 19; d \<leftarrow> shl_int ovf (uint d) 0;
     let r = word_of_int (a OR b OR c OR d);
     Some (sint (r AND POS_MASK)) }"

definition rng_nextrand :: "(int \<Rightarrow> int option) \<Rightarrow> bool \<Rightarrow> 8 word list \<Rightarrow> sha1_ctx \<Rightarrow> (8 word list \<times> int) option" where
  "rng_nextrand ovf le mystate ctx = do {
     ctx \<leftarrow> sha1_hash le mystate 20 (sha1_begin ctx);
     (mystate, _) \<leftarrow> sha1_end le ctx;
     r \<leftarrow> rng_rand ovf mystate;
     Some (mystate, r) }"

section \<open>The reference: FIPS 180-1\<close>

definition sha_f :: "nat \<Rightarrow> 32 word \<Rightarrow> 32 word \<Rightarrow> 32 word \<Rightarrow> 32 word" where
  "sha_f t b c d =
     (if t < 20 then (b AND c) OR (NOT b AND d)
      else if t < 40 then b XOR c XOR d
      else if t < 60 then (b AND c) OR (b AND d) OR (c AND d)
      else b XOR c XOR d)"

definition sha_k :: "nat \<Rightarrow> 32 word" where
  "sha_k t = (if t < 20 then 0x5a827999 else if t < 40 then 0x6ed9eba1 else if t < 60 then 0x8f1bbcdc else 0xca62c1d6)"

text \<open>The message schedule: word \<open>t\<close> is the word \<open>t\<close> of the block, or is computed from four earlier ones.\<close>

fun schedule :: "32 word list \<Rightarrow> nat \<Rightarrow> 32 word list" where
  "schedule m 0 = m"
| "schedule m (Suc n) =
     (let w = schedule m n
      in w @ [word_rotl 1 (w ! (n + 13) XOR w ! (n + 8) XOR w ! (n + 2) XOR w ! n)])"

type_synonym registers = "32 word \<times> 32 word \<times> 32 word \<times> 32 word \<times> 32 word"

definition sha_round :: "nat \<Rightarrow> 32 word \<Rightarrow> registers \<Rightarrow> registers" where
  "sha_round t w = (\<lambda>(a, b, c, d, e).
     (word_rotl 5 a + sha_f t b c d + e + w + sha_k t, a, word_rotl 30 b, c, d))"

definition sha_rounds :: "32 word list \<Rightarrow> nat \<Rightarrow> registers \<Rightarrow> registers" where
  "sha_rounds m n r = fold (\<lambda>t. sha_round t (schedule m 64 ! t)) [0..<n] r"

definition compress :: "32 word list \<Rightarrow> registers \<Rightarrow> registers" where
  "compress m = (\<lambda>(a, b, c, d, e).
     case sha_rounds m 80 (a, b, c, d, e) of (a', b', c', d', e') \<Rightarrow> (a + a', b + b', c + c', d + d', e + e'))"

function hash_blocks :: "8 word list \<Rightarrow> registers \<Rightarrow> registers" where
  "hash_blocks bs r = (if length bs < 64 then r
     else hash_blocks (drop 64 bs) (compress (words_of False (take 64 bs)) r))"
  by auto
termination by (relation "measure (\<lambda>(bs, r). length bs)") auto

declare hash_blocks.simps [simp del]

definition sha_start :: registers where
  "sha_start = (0x67452301, 0xefcdab89, 0x98badcfe, 0x10325476, 0xc3d2e1f0)"

definition sha_length :: "nat \<Rightarrow> 8 word list" where
  "sha_length n = List.map (\<lambda>i. ucast (drop_bit (8 * (7 - i)) (of_nat (8 * n) :: 64 word))) [0..<8]"

definition sha_pad :: "8 word list \<Rightarrow> 8 word list" where
  "sha_pad m = m @ [0x80] @ replicate (if length m mod 64 < 56 then 55 - length m mod 64 else 119 - length m mod 64) 0
     @ sha_length (length m)"

definition reg_list :: "registers \<Rightarrow> 32 word list" where
  "reg_list = (\<lambda>(a, b, c, d, e). [a, b, c, d, e])"

definition sha1_spec :: "8 word list \<Rightarrow> 8 word list" where
  "sha1_spec m = mem_of False (reg_list (hash_blocks (sha_pad m) sha_start))"

section \<open>The unrolled compression\<close>

lemma rotl32_eq: "0 < k \<Longrightarrow> k < 32 \<Longrightarrow> rotl32 x k = word_rotl k x"
proof (rule bit_word_eqI)
  fix n assume n: "0 < k" "k < 32" "n < LENGTH(32)"
  then have m: "(n + (32 - k)) mod 32 = (if k \<le> n then n - k else n + (32 - k))" by (auto simp: mod_if)
  show "bit (rotl32 x k) n = bit (word_rotl k x) n"
  proof (cases "k \<le> n")
    case True
    then have "\<not> bit x (n + (32 - k))" using n by (intro impossible_bit) simp
    then show ?thesis
      using n True m by (simp add: rotl32_def bit_or_iff bit_push_bit_iff bit_drop_bit_eq bit_word_rotl_iff add.commute [of "32 - k" n])
  next
    case False
    then show ?thesis
      using n m by (simp add: rotl32_def bit_or_iff bit_push_bit_iff bit_drop_bit_eq bit_word_rotl_iff add.commute [of "32 - k" n])
  qed
qed

lemma rotr32_eq: "0 < k \<Longrightarrow> k < 32 \<Longrightarrow> rotr32 x k = word_rotl (32 - k) x"
  using rotl32_eq [of "32 - k" x] by (simp add: rotl32_def rotr32_def or.commute)

lemma rot_eqs: "rotl32 x 1 = word_rotl 1 x" "rotr32 x 27 = word_rotl 5 x" "rotr32 x 2 = word_rotl 30 x"
  by (simp_all add: rotl32_eq rotr32_eq)

lemma ch_eq: "ch x y z = (x AND y) OR (NOT x AND z)"
  by (rule bit_word_eqI) (auto simp: ch_def bit_simps)

lemma maj_eq: "maj x y z = (x AND y) OR (x AND z) OR (y AND z)"
  by (rule bit_word_eqI) (auto simp: maj_def bit_simps)

lemma schedule_length [simp]: "length (schedule m n) = length m + n"
  by (induction n) (simp_all add: Let_def)

lemma schedule_nth: "t < length m + k \<Longrightarrow> k \<le> n \<Longrightarrow> schedule m n ! t = schedule m k ! t"
proof (induction n)
  case (Suc n)
  then show ?case by (cases "k = Suc n") (simp_all add: Let_def nth_append)
qed simp

text \<open>The buffer holds the last sixteen words of the schedule.\<close>

definition window :: "32 word list \<Rightarrow> nat \<Rightarrow> 32 word list \<Rightarrow> bool" where
  "window m t w \<longleftrightarrow> length w = 16 \<and>
     (\<forall>s. s < max t 16 \<and> max t 16 \<le> s + 16 \<longrightarrow> w ! (s mod 16) = schedule m 64 ! s)"

lemma hf_load_window:
  assumes "window m t w" "t < 16"
  shows "hf_load t w = (schedule m 64 ! t, w)" "window m (Suc t) w"
proof -
  have "max t 16 = 16" "max (Suc t) 16 = 16" using assms(2) by auto
  then show "hf_load t w = (schedule m 64 ! t, w)" "window m (Suc t) w"
    using assms unfolding window_def hf_load_def by (auto dest: spec [of _ t])
qed

lemma hf_next_window:
  assumes "window m t w" "16 \<le> t" "t < 80" "length m = 16"
  shows "fst (hf_next t w) = schedule m 64 ! t" "window m (Suc t) (snd (hf_next t w))"
proof -
  have mx: "max t 16 = t" "max (Suc t) 16 = Suc t" using assms(2) by auto
  have old: "w ! (s mod 16) = schedule m 64 ! s" if "s < t" "t \<le> s + 16" for s
    using assms(1) that unfolding window_def mx by auto
  have shift: "(t + 13) mod 16 = (t - 3) mod 16" "(t + 8) mod 16 = (t - 8) mod 16"
    "(t + 2) mod 16 = (t - 14) mod 16" "t mod 16 = (t - 16) mod 16"
    using mod_add_self2 [of "t - 3" 16] mod_add_self2 [of "t - 8" 16] mod_add_self2 [of "t - 14" 16]
      mod_add_self2 [of "t - 16" 16] assms(2) by (simp_all add: add.commute [of _ t])
  have two: "Suc (Suc (t - 16)) = t - 14" using assms by simp
  have "schedule m 64 ! t = schedule m (t - 15) ! t"
    using assms by (intro schedule_nth) auto
  also have "t - 15 = Suc (t - 16)" using assms by simp
  also have "schedule m (Suc (t - 16)) ! t = word_rotl 1 (schedule m (t - 16) ! (t - 16 + 13) XOR
      schedule m (t - 16) ! (t - 16 + 8) XOR schedule m (t - 16) ! (t - 16 + 2) XOR schedule m (t - 16) ! (t - 16))"
    using assms by (simp add: Let_def nth_append)
  also have "\<dots> = word_rotl 1 (schedule m 64 ! (t - 3) XOR schedule m 64 ! (t - 8) XOR schedule m 64 ! (t - 14) XOR
      schedule m 64 ! (t - 16))"
    using assms two by (simp add: schedule_nth [of _ m "t - 16" 64])
  finally have "schedule m 64 ! t = fst (hf_next t w)"
    using assms(2) unfolding hf_next_def Let_def shift by (simp add: old rotl32_eq)
  then show f: "fst (hf_next t w) = schedule m 64 ! t" by simp
  show "window m (Suc t) (snd (hf_next t w))"
    unfolding window_def mx
  proof (intro conjI allI impI)
    show "length (snd (hf_next t w)) = 16" using assms(1) by (simp add: hf_next_def Let_def window_def)
    fix s assume s: "s < Suc t \<and> Suc t \<le> s + 16"
    show "snd (hf_next t w) ! (s mod 16) = schedule m 64 ! s"
    proof (cases "s = t")
      case True
      then show ?thesis using f assms(1) by (simp add: hf_next_def Let_def window_def)
    next
      case False
      then have "s mod 16 \<noteq> t mod 16" using s mod_eq_dvd_iff_nat [of s t 16] by (auto dest: dvd_imp_le)
      then show ?thesis using old [of s] s False by (simp add: hf_next_def Let_def)
    qed
  qed
qed

text \<open>One cycle is one round; instead of moving the registers the code rotates their names.\<close>

lemma five_words:
  "[a, b, c, d, e] ! 0 = a" "[a, b, c, d, e] ! 1 = b" "[a, b, c, d, e] ! 2 = c" "[a, b, c, d, e] ! 3 = d" "[a, b, c, d, e] ! 4 = e"
  "[a, b, c, d, e][0 := x] = [x, b, c, d, e]" "[a, b, c, d, e][1 := x] = [a, x, c, d, e]" "[a, b, c, d, e][2 := x] = [a, b, x, d, e]"
  "[a, b, c, d, e][3 := x] = [a, b, c, x, e]" "[a, b, c, d, e][4 := x] = [a, b, c, d, x]"
  by (simp_all add: eval_nat_numeral)

definition place :: "nat \<Rightarrow> registers \<Rightarrow> 32 word list" where
  "place k = (\<lambda>(a, b, c, d, e). if k = 0 then [a, b, c, d, e] else if k = 1 then [b, c, d, e, a]
     else if k = 2 then [c, d, e, a, b] else if k = 3 then [d, e, a, b, c] else [e, a, b, c, d])"

lemma one_cycle_round:
  assumes "hf t w = (x, w')" "sha_f t = f" "sha_k t = k"
  shows "one_cycle hf 0 1 2 3 4 f k t (place 0 r, w) = (place 1 (sha_round t x r), w')"
    "one_cycle hf 4 0 1 2 3 f k t (place 1 r, w) = (place 2 (sha_round t x r), w')"
    "one_cycle hf 3 4 0 1 2 f k t (place 2 r, w) = (place 3 (sha_round t x r), w')"
    "one_cycle hf 2 3 4 0 1 f k t (place 3 r, w) = (place 4 (sha_round t x r), w')"
    "one_cycle hf 1 2 3 4 0 f k t (place 4 r, w) = (place 0 (sha_round t x r), w')"
proof -
  obtain a b c d e where r: "r = (a, b, c, d, e)" by (cases r)
  have i: "(0::nat) \<noteq> 1" "(2::nat) \<noteq> 0" "(2::nat) \<noteq> 1" "(3::nat) \<noteq> 0" "(3::nat) \<noteq> 1" "(3::nat) \<noteq> 2"
    "(4::nat) \<noteq> 0" "(4::nat) \<noteq> 1" "(4::nat) \<noteq> 2" "(4::nat) \<noteq> 3" "(1::nat) \<noteq> 0" by simp_all
  have add: "e + (word_rotl 5 a + f b c d + k + x) = word_rotl 5 a + f b c d + e + x + k"
    by (simp only: add_ac)
  show "one_cycle hf 0 1 2 3 4 f k t (place 0 r, w) = (place 1 (sha_round t x r), w')"
    "one_cycle hf 4 0 1 2 3 f k t (place 1 r, w) = (place 2 (sha_round t x r), w')"
    "one_cycle hf 3 4 0 1 2 f k t (place 2 r, w) = (place 3 (sha_round t x r), w')"
    "one_cycle hf 2 3 4 0 1 f k t (place 3 r, w) = (place 4 (sha_round t x r), w')"
    "one_cycle hf 1 2 3 4 0 f k t (place 4 r, w) = (place 0 (sha_round t x r), w')"
    by (simp_all only: r one_cycle_def place_def sha_round_def split Let_def assms rot_eqs five_words i if_True if_False add simp_thms)
qed

text \<open>The state after \<open>t\<close> rounds of the compression of the block \<open>m\<close>.\<close>

definition after :: "32 word list \<Rightarrow> registers \<Rightarrow> nat \<Rightarrow> 32 word list \<times> 32 word list \<Rightarrow> bool" where
  "after m r t = (\<lambda>(v, w). v = place (t mod 5) (sha_rounds m t r) \<and> window m t w)"

lemma one_cycle_after:
  assumes "after m r t s" "sha_f t = f" "sha_k t = k" "fst (hf t (snd s)) = schedule m 64 ! t" "window m (Suc t) (snd (hf t (snd s)))"
  shows "t mod 5 = 0 \<Longrightarrow> after m r (Suc t) (one_cycle hf 0 1 2 3 4 f k t s)"
    "t mod 5 = 1 \<Longrightarrow> after m r (Suc t) (one_cycle hf 4 0 1 2 3 f k t s)"
    "t mod 5 = 2 \<Longrightarrow> after m r (Suc t) (one_cycle hf 3 4 0 1 2 f k t s)"
    "t mod 5 = 3 \<Longrightarrow> after m r (Suc t) (one_cycle hf 2 3 4 0 1 f k t s)"
    "t mod 5 = 4 \<Longrightarrow> after m r (Suc t) (one_cycle hf 1 2 3 4 0 f k t s)"
proof -
  obtain v w where s: "s = (v, w)" by (cases s)
  have v: "v = place (t mod 5) (sha_rounds m t r)" using assms(1) s by (simp add: after_def)
  have h: "hf t w = (schedule m 64 ! t, snd (hf t w))" using assms(4) s by (simp add: prod_eq_iff)
  have w: "window m (Suc t) (snd (hf t w))" using assms(5) s by simp
  have n: "sha_rounds m (Suc t) r = sha_round t (schedule m 64 ! t) (sha_rounds m t r)" by (simp add: sha_rounds_def)
  note c = one_cycle_round [where hf = hf and f = f and k = k and t = t and w = w, OF h assms(2,3), of "sha_rounds m t r"]
  show "t mod 5 = 0 \<Longrightarrow> after m r (Suc t) (one_cycle hf 0 1 2 3 4 f k t s)"
    "t mod 5 = 1 \<Longrightarrow> after m r (Suc t) (one_cycle hf 4 0 1 2 3 f k t s)"
    "t mod 5 = 2 \<Longrightarrow> after m r (Suc t) (one_cycle hf 3 4 0 1 2 f k t s)"
    "t mod 5 = 3 \<Longrightarrow> after m r (Suc t) (one_cycle hf 2 3 4 0 1 f k t s)"
    "t mod 5 = 4 \<Longrightarrow> after m r (Suc t) (one_cycle hf 1 2 3 4 0 f k t s)"
    using v w c s n by (simp_all add: after_def mod_Suc numeral_2_eq_2 [symmetric])
qed

lemma after_load: "after m r t s \<Longrightarrow> t < 16 \<Longrightarrow>
    fst (hf_load t (snd s)) = schedule m 64 ! t \<and> window m (Suc t) (snd (hf_load t (snd s)))"
  using hf_load_window [of m t "snd s"] by (auto simp: after_def)

lemma after_next: "after m r t s \<Longrightarrow> 16 \<le> t \<Longrightarrow> t < 80 \<Longrightarrow> length m = 16 \<Longrightarrow>
    fst (hf_next t (snd s)) = schedule m 64 ! t \<and> window m (Suc t) (snd (hf_next t (snd s)))"
  using hf_next_window [of m t "snd s"] by (auto simp: after_def)

lemma five_cycle_after:
  assumes s: "after m r t s" and t: "t mod 5 = 0"
    and f: "\<And>i. i < 5 \<Longrightarrow> sha_f (t + i) = f" and k: "\<And>i. i < 5 \<Longrightarrow> sha_k (t + i) = k"
    and hf: "\<And>i s. i < 5 \<Longrightarrow> after m r (t + i) s \<Longrightarrow>
      fst (hf (t + i) (snd s)) = schedule m 64 ! (t + i) \<and> window m (Suc (t + i)) (snd (hf (t + i) (snd s)))"
  shows "after m r (t + 5) (five_cycle hf f k t s)"
proof -
  have i: "(t + 1) mod 5 = 1" "(t + 2) mod 5 = 2" "(t + 3) mod 5 = 3" "(t + 4) mod 5 = 4"
    "Suc (t + 0) = t + 1" "Suc (t + 1) = t + 2" "Suc (t + 2) = t + 3" "Suc (t + 3) = t + 4" "Suc (t + 4) = t + 5"
    using t by (simp_all add: mod_add_left_eq [of t 5, symmetric] mod_Suc del: mod_add_left_eq)
  define s1 where "s1 = one_cycle hf 0 1 2 3 4 f k t s"
  define s2 where "s2 = one_cycle hf 4 0 1 2 3 f k (t + 1) s1"
  define s3 where "s3 = one_cycle hf 3 4 0 1 2 f k (t + 2) s2"
  define s4 where "s4 = one_cycle hf 2 3 4 0 1 f k (t + 3) s3"
  have "after m r (t + 1) s1"
    unfolding s1_def i(5) [symmetric, unfolded add_0_right]
    by (rule one_cycle_after(1)) (use s t f [of 0] k [of 0] hf [of 0 s] in simp_all)
  then have "after m r (t + 2) s2"
    unfolding s2_def i(6) [symmetric]
    by (rule one_cycle_after(2)) (use i f [of 1] k [of 1] hf [of 1 s1] \<open>after m r (t + 1) s1\<close> in simp_all)
  then have 3: "after m r (t + 3) s3"
    unfolding s3_def i(7) [symmetric]
    by (rule one_cycle_after(3)) (use i f [of 2] k [of 2] hf [of 2 s2] \<open>after m r (t + 2) s2\<close> in simp_all)
  then have 4: "after m r (t + 4) s4"
    unfolding s4_def i(8) [symmetric]
    by (rule one_cycle_after(4)) (use i f [of 3] k [of 3] hf [of 3 s3] 3 in simp_all)
  then have "after m r (t + 5) (one_cycle hf 1 2 3 4 0 f k (t + 4) s4)"
    unfolding i(9) [symmetric]
    by (rule one_cycle_after(5)) (use i f [of 4] k [of 4] hf [of 4 s4] 4 in simp_all)
  then show ?thesis by (simp add: five_cycle_def Let_def s1_def s2_def s3_def s4_def)
qed

definition regs_of :: "32 word list \<Rightarrow> registers" where
  "regs_of h = (h ! 0, h ! 1, h ! 2, h ! 3, h ! 4)"

lemma regs_of_list [simp]: "regs_of (reg_list r) = r"
  by (simp add: regs_of_def reg_list_def split_beta five_words)

lemma reg_list_regs: "length h = 5 \<Longrightarrow> reg_list (regs_of h) = h"
  by (rule nth_equalityI) (auto simp: reg_list_def regs_of_def less_Suc_eq nth_Cons' eval_nat_numeral)

lemma window_start: "length m = 16 \<Longrightarrow> window m 0 m"
  by (simp add: window_def schedule_nth [of _ m 0])

lemmas sha_fk = sha_f_def sha_k_def fun_eq_iff ch_eq maj_eq parity_def

lemma five_load:
  "after m r t s \<Longrightarrow> t mod 5 = 0 \<Longrightarrow> t \<le> 10 \<Longrightarrow> after m r (t + 5) (five_cycle hf_load ch 0x5a827999 t s)"
  by (rule five_cycle_after) (use after_load in \<open>simp_all add: sha_fk\<close>)

lemma five_next:
  assumes "after m r t s" "t mod 5 = 0" "16 \<le> t" "t \<le> 75" "length m = 16"
    "\<And>i. i < 5 \<Longrightarrow> sha_f (t + i) = f" "\<And>i. i < 5 \<Longrightarrow> sha_k (t + i) = k" "u = t + 5"
  shows "after m r u (five_cycle hf_next f k t s)"
  unfolding assms(8) by (rule five_cycle_after) (use after_next assms in simp_all)

text \<open>The unrolled compression is the compression of the reference.\<close>

lemma sha1_compile_compress:
  assumes "length (hash ctx) = 5" "length (wbuf ctx) = 16"
  shows "\<exists>w. length w = 16 \<and> sha1_compile ctx =
    ctx\<lparr>hash := reg_list (compress (wbuf ctx) (regs_of (hash ctx))), wbuf := w\<rparr>"
proof -
  define m where "m = wbuf ctx"
  define r where "r = regs_of (hash ctx)"
  have m: "length m = 16" using assms by (simp add: m_def)
  have h: "reg_list r = hash ctx" using reg_list_regs [OF assms(1)] by (simp add: r_def)
  then have s0: "after m r 0 (hash ctx, m)"
    using window_start [OF m] by (simp add: after_def sha_rounds_def place_def reg_list_def)
  define s1 where "s1 = five_cycle hf_load ch 0x5a827999 0 (hash ctx, m)"
  have s1: "after m r 5 s1" using five_load [OF s0] by (simp add: s1_def)
  define s2 where "s2 = five_cycle hf_load ch 0x5a827999 5 s1"
  have s2: "after m r 10 s2" using five_load [OF s1] by (simp add: s2_def)
  define s3 where "s3 = five_cycle hf_load ch 0x5a827999 10 s2"
  have s3: "after m r 15 s3" using five_load [OF s2] by (simp add: s3_def)
  define t0 where "t0 = one_cycle hf_load 0 1 2 3 4 ch 0x5a827999 15 s3"
  have t0: "after m r 16 t0"
    using one_cycle_after(1) [OF s3, where f = ch and k = "0x5a827999" and hf = hf_load] after_load [OF s3] by (simp add: sha_fk t0_def)
  define t1 where "t1 = one_cycle hf_next 4 0 1 2 3 ch 0x5a827999 16 t0"
  have t1: "after m r 17 t1"
    using one_cycle_after(2) [OF t0, where f = ch and k = "0x5a827999" and hf = hf_next] after_next [OF t0] m by (simp add: sha_fk t1_def)
  define t2 where "t2 = one_cycle hf_next 3 4 0 1 2 ch 0x5a827999 17 t1"
  have t2: "after m r 18 t2"
    using one_cycle_after(3) [OF t1, where f = ch and k = "0x5a827999" and hf = hf_next] after_next [OF t1] m by (simp add: sha_fk t2_def)
  define t3 where "t3 = one_cycle hf_next 2 3 4 0 1 ch 0x5a827999 18 t2"
  have t3: "after m r 19 t3"
    using one_cycle_after(4) [OF t2, where f = ch and k = "0x5a827999" and hf = hf_next] after_next [OF t2] m by (simp add: sha_fk t3_def)
  define s4 where "s4 = one_cycle hf_next 1 2 3 4 0 ch 0x5a827999 19 t3"
  have s4: "after m r 20 s4"
    using one_cycle_after(5) [OF t3, where f = ch and k = "0x5a827999" and hf = hf_next] after_next [OF t3] m by (simp add: sha_fk s4_def)
  define s5 where "s5 = five_cycle hf_next parity 0x6ed9eba1 35 (five_cycle hf_next parity 0x6ed9eba1 30
      (five_cycle hf_next parity 0x6ed9eba1 25 (five_cycle hf_next parity 0x6ed9eba1 20 s4)))"
  define s6 where "s6 = five_cycle hf_next maj 0x8f1bbcdc 55 (five_cycle hf_next maj 0x8f1bbcdc 50
      (five_cycle hf_next maj 0x8f1bbcdc 45 (five_cycle hf_next maj 0x8f1bbcdc 40 s5)))"
  define s7 where "s7 = five_cycle hf_next parity 0xca62c1d6 75 (five_cycle hf_next parity 0xca62c1d6 70
      (five_cycle hf_next parity 0xca62c1d6 65 (five_cycle hf_next parity 0xca62c1d6 60 s6)))"
  have "after m r 40 s5" using s4 m unfolding s5_def by (intro five_next) (simp_all add: sha_fk)
  then have "after m r 60 s6" using m unfolding s6_def by (intro five_next) (simp_all add: sha_fk)
  then have "after m r 80 s7" using m unfolding s7_def by (intro five_next) (simp_all add: sha_fk)
  then obtain w where w: "s7 = (reg_list (sha_rounds m 80 r), w)" "length w = 16"
    by (auto simp: after_def place_def reg_list_def window_def)
  obtain a b c d e where r: "r = (a, b, c, d, e)" by (cases r)
  obtain a' b' c' d' e' where r': "sha_rounds m 80 r = (a', b', c', d', e')" by (cases "sha_rounds m 80 r")
  have "sha1_compile ctx = (case s7 of (v, w) \<Rightarrow>
      ctx\<lparr>hash := List.map (\<lambda>i. hash ctx ! i + v ! i) [0, 1, 2, 3, 4], wbuf := w\<rparr>)"
    by (simp only: sha1_compile_def Let_def m_def s1_def s2_def s3_def t0_def t1_def t2_def t3_def s4_def s5_def s6_def s7_def)
  then have "sha1_compile ctx = ctx\<lparr>hash := List.map (\<lambda>i. reg_list r ! i + reg_list (sha_rounds m 80 r) ! i) [0, 1, 2, 3, 4], wbuf := w\<rparr>"
    by (simp add: w h)
  also have "List.map (\<lambda>i. reg_list r ! i + reg_list (sha_rounds m 80 r) ! i) [0, 1, 2, 3, 4] = reg_list (compress m r)"
    using r r' by (simp add: compress_def reg_list_def five_words)
  finally show ?thesis using w(2) by (auto simp: m_def r_def)
qed

section \<open>The buffer as bytes\<close>

lemma byte_cases: "n < LENGTH(32) \<Longrightarrow> n < 8 \<or> 8 \<le> n \<and> n < 16 \<or> 16 \<le> n \<and> n < 24 \<or> 24 \<le> n \<and> n < 32"
  by auto

lemma bit_byte: "8 \<le> n \<Longrightarrow> \<not> bit (b :: 8 word) n"
  by (rule impossible_bit) simp

lemma word_LE: "word_of_bytes True [a, b, c, d] = ucast a OR push_bit 8 (ucast b) OR push_bit 16 (ucast c) OR push_bit 24 (ucast d)"
  by (simp add: word_of_bytes_def Let_def)

lemma bit_push_byte: "n < 32 \<Longrightarrow> bit (push_bit k (ucast (b :: 8 word)) :: 32 word) n = (k \<le> n \<and> n < k + 8 \<and> bit b (n - k))"
  using bit_byte [of "n - k" b] by (cases "n < k + 8") (auto simp: bit_push_bit_iff bit_ucast_iff)

lemma bit_beyond_32: "32 \<le> n \<Longrightarrow> \<not> bit (x :: 32 word) n"
  by (rule impossible_bit) simp

lemma bit_word_LE:
  "n < 8 \<Longrightarrow> bit (word_of_bytes True [a, b, c, d]) n = bit a n"
  "8 \<le> n \<Longrightarrow> n < 16 \<Longrightarrow> bit (word_of_bytes True [a, b, c, d]) n = bit b (n - 8)"
  "16 \<le> n \<Longrightarrow> n < 24 \<Longrightarrow> bit (word_of_bytes True [a, b, c, d]) n = bit c (n - 16)"
  "24 \<le> n \<Longrightarrow> n < 32 \<Longrightarrow> bit (word_of_bytes True [a, b, c, d]) n = bit d (n - 24)"
  using bit_push_byte [of n 0 a] by (simp_all add: word_LE bit_or_iff bit_push_byte)

lemma word_BE: "word_of_bytes False [a, b, c, d] = word_of_bytes True [d, c, b, a]"
  by (simp add: word_of_bytes_def)

lemma bytes_BE: "bytes_of_word False x = rev (bytes_of_word True x)"
  by (simp add: bytes_of_word_def Let_def)

lemma bytes_LE: "bytes_of_word True x = [ucast x, ucast (drop_bit 8 x), ucast (drop_bit 16 x), ucast (drop_bit 24 x)]"
  by (simp add: bytes_of_word_def)

lemma word_roundtrip_LE: "word_of_bytes True (bytes_of_word True x) = x"
proof (rule bit_word_eqI)
  fix n assume "n < LENGTH(32)"
  then consider "n < 8" | "8 \<le> n" "n < 16" | "16 \<le> n" "n < 24" | "24 \<le> n" "n < 32" using byte_cases by blast
  then show "bit (word_of_bytes True (bytes_of_word True x)) n = bit x n"
    unfolding bytes_LE by cases (simp_all add: bit_word_LE bit_ucast_iff bit_drop_bit_eq less_diff_conv2)
qed

lemma bytes_roundtrip_LE: "bytes_of_word True (word_of_bytes True [a, b, c, d]) = [a, b, c, d]"
  unfolding bytes_LE
  by (intro list.inject [THEN iffD2] conjI refl; rule bit_word_eqI; simp add: bit_ucast_iff bit_drop_bit_eq bit_word_LE)

lemma length_4E: "length bs = 4 \<Longrightarrow> (\<And>a b c d. bs = [a, b, c, d] \<Longrightarrow> P) \<Longrightarrow> P"
  by (auto simp: eval_nat_numeral length_Suc_conv)

lemma bytes_len [simp]: "length (bytes_of_word le x) = 4"
  by (simp add: bytes_of_word_def Let_def)

lemma word_roundtrip [simp]: "word_of_bytes le (bytes_of_word le x) = x"
proof (cases le)
  case False
  then show ?thesis using word_roundtrip_LE [of x] by (simp add: word_of_bytes_def bytes_of_word_def Let_def)
qed (simp add: word_roundtrip_LE)

lemma bytes_roundtrip [simp]: "bytes_of_word le (word_of_bytes le [a, b, c, d]) = [a, b, c, d]"
  by (cases le) (simp_all add: bytes_roundtrip_LE word_BE bytes_BE)

lemma byte_mask: "(0x00ff00ff :: 32 word) = mask 8 OR push_bit 16 (mask 8)" "(0xff00ff00 :: 32 word) = push_bit 8 (mask 8) OR push_bit 24 (mask 8)"
  by (simp_all add: mask_eq_exp_minus_1)

lemma bswap_bytes: "bswap_32 (word_of_bytes True [a, b, c, d]) = word_of_bytes True [d, c, b, a]"
proof (rule bit_word_eqI)
  fix n assume n: "n < LENGTH(32)"
  then consider "n < 8" | "8 \<le> n" "n < 16" | "16 \<le> n" "n < 24" | "24 \<le> n" "n < 32" using byte_cases by blast
  then show "bit (bswap_32 (word_of_bytes True [a, b, c, d])) n = bit (word_of_bytes True [d, c, b, a]) n"
    unfolding bswap_32_def byte_mask rotr32_def
    by cases (simp_all add: bit_word_LE bit_and_iff bit_or_iff bit_push_bit_iff bit_drop_bit_eq bit_mask_iff
      less_diff_conv2 bit_beyond_32)
qed

lemma mem_simps [simp]: "mem_of le [] = []" "mem_of le (w # ws) = bytes_of_word le w @ mem_of le ws"
  "mem_of le (ws @ vs) = mem_of le ws @ mem_of le vs"
  by (simp_all add: mem_of_def)

lemma mem_length [simp]: "length (mem_of le ws) = 4 * length ws"
  by (induction ws) simp_all

text \<open>Lists of bytes whose length is a multiple of four, taken apart word by word.\<close>

lemma bytes_induct [consumes 1, case_names Nil Word]:
  assumes "length bs = 4 * k" "P []" "\<And>a b c d bs. P bs \<Longrightarrow> P (a # b # c # d # bs)"
  shows "P bs"
  using assms(1)
proof (induction k arbitrary: bs)
  case 0
  then show ?case using assms(2) by simp
next
  case (Suc k)
  then have "length (take 4 bs) = 4" by simp
  then obtain a b c d where t: "take 4 bs = [a, b, c, d]" by (rule length_4E)
  have "bs = a # b # c # d # drop 4 bs" using append_take_drop_id [of 4 bs] unfolding t by simp
  moreover have "P (drop 4 bs)" using Suc by simp
  ultimately show ?case using assms(3) by metis
qed

lemma words_append: "length bs = 4 * k \<Longrightarrow> words_of le (bs @ cs) = words_of le bs @ words_of le cs"
  by (induction rule: bytes_induct) simp_all

lemma mem_words: "length bs = 4 * k \<Longrightarrow> mem_of le (words_of le bs) = bs"
  by (induction rule: bytes_induct) simp_all

lemma words_len: "length bs = 4 * k \<Longrightarrow> length (words_of le bs) = k"
  using mem_words [of bs k le] mem_length [of le "words_of le bs"] by simp

lemma words_mem [simp]: "words_of le (mem_of le ws) = ws"
proof (induction ws)
  case (Cons w ws)
  have "words_of le (bytes_of_word le w @ mem_of le ws) = words_of le (bytes_of_word le w) @ ws"
    using words_append [of "bytes_of_word le w" 1] Cons by simp
  moreover obtain a b c d where "bytes_of_word le w = [a, b, c, d]" by (rule length_4E [OF bytes_len])
  ultimately show ?case using word_roundtrip [of le w] by simp
qed simp

lemma bswap_words: "length bs = 4 * k \<Longrightarrow> List.map bswap_32 (words_of True bs) = words_of False bs"
  by (induction rule: bytes_induct) (simp_all add: bswap_bytes word_BE)

text \<open>Swapping the bytes of a prefix of the buffer gives its words in big-endian order, on both platforms.\<close>

lemma bsw_32_words:
  assumes "length bs = 4 * k" "n \<le> k"
  shows "\<exists>rest. bsw_32 le (words_of le bs) n = Some (words_of False (take (4 * n) bs) @ rest) \<and> length rest = k - n"
proof -
  have l: "length (take (4 * n) bs) = 4 * n" "length (drop (4 * n) bs) = 4 * (k - n)" using assms by simp_all
  have "words_of le bs = words_of le (take (4 * n) bs) @ words_of le (drop (4 * n) bs)"
    using words_append [OF l(1), of le "drop (4 * n) bs"] by simp
  moreover note words_len [OF l(1), of True] words_len [OF l(1), of False] words_len [OF l(2)] bswap_words [OF l(1)]
  ultimately show ?thesis using assms by (auto simp: bsw_32_def)
qed

section \<open>Absorbing a message\<close>

lemma hash_blocks_short: "length bs < 64 \<Longrightarrow> hash_blocks bs r = r"
  by (subst hash_blocks.simps) simp

lemma hash_blocks_step:
  "length bs = 64 \<Longrightarrow> hash_blocks (bs @ cs) r = hash_blocks cs (compress (words_of False bs) r)"
  by (subst hash_blocks.simps) simp

lemma hash_blocks_append: "length bs = 64 * k \<Longrightarrow> hash_blocks (bs @ cs) r = hash_blocks cs (hash_blocks bs r)"
proof (induction k arbitrary: bs r)
  case 0
  then show ?case by (simp add: hash_blocks_short)
next
  case (Suc k)
  then have l: "length (take 64 bs) = 64" "length (drop 64 bs) = 64 * k" by simp_all
  then show ?case
    using Suc.IH [OF l(2)] hash_blocks_step [OF l(1), of "drop 64 bs @ cs"] hash_blocks_step [OF l(1), of "drop 64 bs"]
    by (simp flip: append_assoc)
qed

text \<open>The context after the message \<open>m\<close>: the complete blocks are compressed, the rest is in the buffer.\<close>

definition absorbed :: "bool \<Rightarrow> 8 word list \<Rightarrow> nat \<Rightarrow> sha1_ctx \<Rightarrow> bool" where
  "absorbed le m n ctx \<longleftrightarrow> length (wbuf ctx) = 16 \<and> (\<exists>full rest k. m = full @ rest \<and> length full = 64 * k \<and>
     length rest = n \<and> n < 64 \<and> hash ctx = reg_list (hash_blocks full sha_start) \<and> take n (mem_of le (wbuf ctx)) = rest)"

definition counted :: "nat \<Rightarrow> sha1_ctx \<Rightarrow> bool" where
  "counted n ctx \<longleftrightarrow> unat (count0 ctx) = n mod 2 ^ 32 \<and> unat (count1 ctx) = n div 2 ^ 32 mod 2 ^ 32"

lemma absorbed_simps [simp]: "absorbed le m n (ctx\<lparr>count0 := x\<rparr>) = absorbed le m n ctx"
  "absorbed le m n (ctx\<lparr>count1 := x\<rparr>) = absorbed le m n ctx"
  by (simp_all add: absorbed_def)

lemma counted_simps [simp]: "counted n (ctx\<lparr>wbuf := w\<rparr>) = counted n ctx" "counted n (ctx\<lparr>hash := h\<rparr>) = counted n ctx"
  by (simp_all add: counted_def)

lemma absorbed_len: "absorbed le m n ctx \<Longrightarrow> n = length m mod 64"
  by (auto simp: absorbed_def)

lemma reg_list_length [simp]: "length (reg_list r) = 5"
  by (simp add: reg_list_def split_beta)

lemma absorb_block:
  assumes "absorbed le m n ctx" "sp + (64 - n) \<le> length data"
  shows "returns (do {
      w \<leftarrow> memcpy_words le (wbuf ctx) n data sp (64 - n);
      w \<leftarrow> bsw_32 le w 16;
      Some (sha1_compile (ctx\<lparr>wbuf := w\<rparr>)) })
    (\<lambda>ctx'. absorbed le (m @ seg data sp (64 - n)) 0 ctx' \<and> count0 ctx' = count0 ctx \<and> count1 ctx' = count1 ctx)"
proof -
  obtain full rest k where m: "m = full @ rest" "length full = 64 * k" "length rest = n" "n < 64"
    "hash ctx = reg_list (hash_blocks full sha_start)" "take n (mem_of le (wbuf ctx)) = rest" "length (wbuf ctx) = 16"
    using assms(1) unfolding absorbed_def by blast
  define block where "block = rest @ seg data sp (64 - n)"
  have l: "length block = 4 * 16" using m assms(2) by (simp add: block_def)
  have "memcpy_words le (wbuf ctx) n data sp (64 - n) = Some (words_of le block)"
    using m assms(2) by (simp add: memcpy_words_def block_def)
  moreover have "bsw_32 le (words_of le block) 16 = Some (words_of False block)"
    using bsw_32_words [OF l, of 16 le] l by auto
  moreover obtain w where "length w = 16" "sha1_compile (ctx\<lparr>wbuf := words_of False block\<rparr>) =
      ctx\<lparr>hash := reg_list (compress (words_of False block) (hash_blocks full sha_start)), wbuf := w\<rparr>"
    using sha1_compile_compress [of "ctx\<lparr>wbuf := words_of False block\<rparr>"] m(5) words_len [OF l] by auto
  moreover have "hash_blocks (full @ block) sha_start = compress (words_of False block) (hash_blocks full sha_start)"
    using hash_blocks_append [OF m(2)] hash_blocks_step [of block "[]"] l by (simp add: hash_blocks_short)
  moreover have "m @ seg data sp (64 - n) = full @ block" by (simp add: m(1) block_def)
  ultimately show ?thesis
    using m(2) l by (auto simp: absorbed_def intro!: exI [of _ "full @ block"] exI [of _ "Suc k"])
qed

lemma add_carry:
  fixes n d p :: nat
  assumes "d < p"
  shows "(n mod p + d) mod p < d \<longleftrightarrow> p \<le> n mod p + d"
    "(n + d) div p = n div p + (if (n mod p + d) mod p < d then 1 else 0)"
proof -
  have l: "n mod p < p" using assms by simp
  show c: "(n mod p + d) mod p < d \<longleftrightarrow> p \<le> n mod p + d"
  proof (cases "p \<le> n mod p + d")
    case True
    moreover have "n mod p + d - p < p" using assms l by linarith
    ultimately have "(n mod p + d) mod p = n mod p + d - p" by (simp add: le_mod_geq)
    then show ?thesis using True l by simp
  qed simp
  have "(n + d) div p = n div p + (n mod p + d) div p"
    using div_mult_self3 [of p "n div p" "n mod p + d"] assms by (simp add: add.assoc [symmetric] add.commute)
  moreover have "(n mod p + d) div p = (if p \<le> n mod p + d then 1 else 0)"
    using div_nat_eqI [of p 1 "n mod p + d"] assms l by auto
  ultimately show "(n + d) div p = n div p + (if (n mod p + d) mod p < d then 1 else 0)" using c by simp
qed

lemma unat_plus: "unat (x + y :: 32 word) = (unat x + unat y) mod 2 ^ 32"
  by (simp add: unat_word_ariths)

lemma unat_of_nat_64: "d < 2 ^ 32 \<Longrightarrow> unat (of_nat d :: 64 word) = d"
  by (simp add: unat_of_nat take_bit_nat_eq_self)

lemma counted_step:
  assumes "counted n ctx" "d < 2 ^ 32" "x = count0 ctx + ucast (of_nat d :: 64 word)"
  shows "counted (n + d) (if ucast x < (of_nat d :: 64 word) then ctx\<lparr>count0 := x, count1 := count1 ctx + 1\<rparr> else ctx\<lparr>count0 := x\<rparr>)"
proof -
  have "unat (ucast (of_nat d :: 64 word) :: 32 word) = d"
    using assms(2) by (simp add: unsigned_ucast_eq unat_of_nat_64 take_bit_nat_eq_self)
  then have x: "unat x = (n mod 2 ^ 32 + d) mod 2 ^ 32"
    using assms(1) unfolding assms(3) unat_plus counted_def by simp
  then have "(ucast x < (of_nat d :: 64 word)) = ((n mod 2 ^ 32 + d) mod 2 ^ 32 < d)"
    using assms(2) by (simp add: word_less_nat_alt unsigned_ucast_eq unat_of_nat_64 take_bit_nat_eq_self)
  then show ?thesis
    using assms(1,2) x add_carry [OF assms(2), of n] unfolding counted_def
    by (auto simp: unat_plus mod_Suc_eq mod_add_left_eq)
qed


lemma sizes: "SHA1_BLOCK_SIZE = 64" "SHA1_MASK = mask 6" "unat (64 :: 32 word) = 64" "unat (drop_bit 2 SHA1_BLOCK_SIZE) = 16"
  by (simp_all add: SHA1_BLOCK_SIZE_def SHA1_MASK_def mask_eq_exp_minus_1)

lemma unat_pos: "unat (x AND SHA1_MASK) = unat x mod 64"
  by (simp add: sizes(2) flip: take_bit_eq_mask) (simp add: unsigned_take_bit_eq take_bit_eq_mod unat_mod)

lemma unat_space: "unat x < 64 \<Longrightarrow> unat (SHA1_BLOCK_SIZE - x) = 64 - unat x"
  by (simp add: sizes unat_sub word_le_nat_alt)

lemma unat_widen: "unat (ucast (x :: 32 word) :: 64 word) = unat x"
proof -
  have "unat x < 2 ^ LENGTH(32)" by (rule unsigned_less)
  then show ?thesis by (simp add: unsigned_ucast_eq take_bit_nat_eq_self)
qed

theorem sha1_hash_absorbs:
  assumes a: "absorbed le m (length m mod 64) ctx" and c: "counted (length m) ctx" and d: "length data < 2 ^ 32"
  shows "returns (sha1_hash le data (of_nat (length data)) ctx)
    (\<lambda>ctx'. absorbed le (m @ data) (length (m @ data) mod 64) ctx' \<and> counted (length (m @ data)) ctx')"
proof -
  define x where "x = count0 ctx + ucast (of_nat (length data) :: 64 word)"
  define ctx1 where "ctx1 = (if ucast x < (of_nat (length data) :: 64 word) then ctx\<lparr>count0 := x, count1 := count1 ctx + 1\<rparr>
    else ctx\<lparr>count0 := x\<rparr>)"
  have c1: "counted (length m + length data) ctx1" unfolding ctx1_def by (rule counted_step [OF c d x_def])
  have a1: "absorbed le m (length m mod 64) ctx1" using a by (simp add: ctx1_def)
  have len: "unat (of_nat (length data) :: 64 word) = length data" by (rule unat_of_nat_64 [OF d])
  have pos: "unat (count0 ctx AND SHA1_MASK) = length m mod 64"
    using c by (simp add: unat_pos counted_def mod_mod_cancel)
  let ?I = "\<lambda>(ct, sp, l, space, ps). absorbed le (m @ take sp data) (unat ps) ct \<and> sp \<le> length data \<and>
      unat (l :: 64 word) = length data - sp \<and> unat (space :: 32 word) = 64 - unat (ps :: 32 word) \<and> unat ps < 64 \<and>
      counted (length m + length data) ct"
  have loop: "returns (c_while (\<lambda>(ctx, sp, l, space, pos). Some (ucast space \<le> l))
       (\<lambda>(ctx, sp, l, space, pos). do {
          w \<leftarrow> memcpy_words le (wbuf ctx) (unat pos) data sp (unat space);
          let sp = sp + unat space;
          let l = l - ucast space;
          w \<leftarrow> bsw_32 le w (unat (drop_bit 2 SHA1_BLOCK_SIZE));
          Some (sha1_compile (ctx\<lparr>wbuf := w\<rparr>), sp, l, SHA1_BLOCK_SIZE, 0) })
       (ctx1, 0, of_nat (length data), SHA1_BLOCK_SIZE - (count0 ctx AND SHA1_MASK), count0 ctx AND SHA1_MASK))
     (\<lambda>t. ?I t \<and> (case t of (ctx, sp, l, space, pos) \<Rightarrow> Some (ucast space \<le> l)) = Some False)"
    (is "returns ?W _")
  proof (rule returns_while [where f = "\<lambda>(ctx, sp, l, space, pos). unat l"], goal_cases)
    case 1
    then show ?case using a1 c1 len pos unat_space [of "count0 ctx AND SHA1_MASK"] by simp
  next
    case (2 t)
    then show ?case by (simp split: prod.splits)
  next
    case (3 t)
    obtain ct sp l space ps where t: "t = (ct, sp, l, space, ps)" by (cases t) auto
    from 3(1) have I: "absorbed le (m @ take sp data) (unat ps) ct" "sp \<le> length data" "unat l = length data - sp"
      "unat space = 64 - unat ps" "unat ps < 64" "counted (length m + length data) ct"
      unfolding t by simp_all
    from 3(2) have le: "ucast space \<le> l" unfolding t by simp
    then have room: "64 - unat ps \<le> length data - sp" using I(3,4) by (simp add: word_le_nat_alt unat_widen)
    have sub: "unat (l - ucast space) = length data - (sp + (64 - unat ps))"
      using le I(3,4) by (simp add: unat_sub unat_widen)
    have "sp + (64 - unat ps) \<le> length data" using room I(2,5) by simp
    note b = absorb_block [OF I(1) this]
    have "m @ take (sp + (64 - unat ps)) data = (m @ take sp data) @ seg data sp (64 - unat ps)"
      by (simp add: seg_def take_add)
    then show ?case
      using b I sub room unfolding t prod.case sizes I(4)
      by (auto simp: Let_def sizes counted_def elim!: returns_mono)
  qed
  obtain s where s: "?W = Some s" "?I s \<and> (case s of (ctx, sp, l, space, pos) \<Rightarrow> Some (ucast space \<le> l)) = Some False"
    by (rule returnsE [OF loop]) blast
  obtain ct sp l space ps where s': "s = (ct, sp, l, space, ps)" by (cases s) auto
  have I: "absorbed le (m @ take sp data) (unat ps) ct" "sp \<le> length data" "unat l = length data - sp"
      "unat space = 64 - unat ps" "unat ps < 64" "counted (length m + length data) ct" "\<not> ucast space \<le> l"
    using s(2) unfolding s' by simp_all
  have small: "length data - sp < 64 - unat ps" using I(3,4,7) by (simp add: word_le_nat_alt unat_widen)
  obtain full rest k where m: "m @ take sp data = full @ rest" "length full = 64 * k" "length rest = unat ps"
    "hash ct = reg_list (hash_blocks full sha_start)" "take (unat ps) (mem_of le (wbuf ct)) = rest" "length (wbuf ct) = 16"
    using I(1) unfolding absorbed_def by blast
  define tail where "tail = rest @ drop sp data"
  have t: "length tail = unat ps + (length data - sp)" "length tail < 64" "m @ data = full @ tail"
    using m small by (simp_all add: tail_def) (metis append.assoc append_take_drop_id)
  define buf where "buf = tail @ drop (length tail) (mem_of le (wbuf ct))"
  have "memcpy_words le (wbuf ct) (unat ps) data sp (unat l) = Some (words_of le buf)"
    using m t(1,2) I(2,3) by (simp add: memcpy_words_def buf_def tail_def seg_def)
  moreover have "length buf = 4 * 16" using t(2) m(6) by (simp add: buf_def)
  ultimately have e: "memcpy_words le (wbuf ct) (unat ps) data sp (unat l) = Some (words_of le buf)"
    "length (words_of le buf) = 16" "take (length tail) (mem_of le (words_of le buf)) = tail"
    by (simp_all add: words_len mem_words buf_def)
  have "sha1_hash le data (of_nat (length data)) ctx = Some (ct\<lparr>wbuf := words_of le buf\<rparr>)"
    using s(1) e(1) unfolding s'
    by (cases "ucast x < (of_nat (length data) :: 64 word)") (simp_all add: sha1_hash_def Let_def ctx1_def x_def)
  moreover have n: "length m + length data = 64 * k + length tail" using arg_cong [OF t(3), of length] m(2) by simp
  ultimately show ?thesis
    using e t(2,3) m(2,4) I(6) by (auto simp: absorbed_def)
qed

section \<open>The padding\<close>

text \<open>The padding of the word that holds the end of the message.\<close>

lemma pad_masks:
  "push_bit 24 (0xffffff80 :: 32 word) = NOT (mask 31)" "push_bit 16 (0xffffff80 :: 32 word) = NOT (mask 23)"
  "push_bit 8 (0xffffff80 :: 32 word) = NOT (mask 15)" "push_bit 0 (0xffffff80 :: 32 word) = NOT (mask 7)"
  by (simp_all add: mask_eq_exp_minus_1)

lemma bit_power: "k < 32 \<Longrightarrow> bit (2 ^ k :: 32 word) n \<longleftrightarrow> n = k"
  by (auto simp: bit_exp_iff possible_bit_def)

lemma bit_power_8: "k < 8 \<Longrightarrow> bit (2 ^ k :: 8 word) n \<longleftrightarrow> n = k"
  by (auto simp: bit_exp_iff possible_bit_def)

lemma pad_bits:
  "bit (push_bit 24 (0x80 :: 32 word)) n \<longleftrightarrow> n = 31" "bit (push_bit 16 (0x80 :: 32 word)) n \<longleftrightarrow> n = 23"
  "bit (push_bit 8 (0x80 :: 32 word)) n \<longleftrightarrow> n = 15" "bit (push_bit 0 (0x80 :: 32 word)) n \<longleftrightarrow> n = 7"
  "bit (0x80 :: 8 word) n \<longleftrightarrow> n = 7"
proof -
  have e: "push_bit 24 (0x80 :: 32 word) = 2 ^ 31" "push_bit 16 (0x80 :: 32 word) = 2 ^ 23"
    "push_bit 8 (0x80 :: 32 word) = 2 ^ 15" "push_bit 0 (0x80 :: 32 word) = 2 ^ 7" "(0x80 :: 8 word) = 2 ^ 7" by simp_all
  show "bit (push_bit 24 (0x80 :: 32 word)) n \<longleftrightarrow> n = 31" "bit (push_bit 16 (0x80 :: 32 word)) n \<longleftrightarrow> n = 23"
    "bit (push_bit 8 (0x80 :: 32 word)) n \<longleftrightarrow> n = 15" "bit (push_bit 0 (0x80 :: 32 word)) n \<longleftrightarrow> n = 7"
    "bit (0x80 :: 8 word) n \<longleftrightarrow> n = 7"
    unfolding e by (rule bit_power bit_power_8; simp)+
qed

lemma pad_word:
  "(x AND push_bit 24 0xffffff80) OR push_bit 24 0x80 = word_of_bytes False [0x80, 0, 0, 0]"
  "(word_of_bytes False [a, b, c, d] AND push_bit 16 0xffffff80) OR push_bit 16 0x80 = word_of_bytes False [a, 0x80, 0, 0]"
  "(word_of_bytes False [a, b, c, d] AND push_bit 8 0xffffff80) OR push_bit 8 0x80 = word_of_bytes False [a, b, 0x80, 0]"
  "(word_of_bytes False [a, b, c, d] AND push_bit 0 0xffffff80) OR push_bit 0 0x80 = word_of_bytes False [a, b, c, 0x80]"
proof -
  have *: "P n" if "n < LENGTH(32)" "n < 8 \<Longrightarrow> P n" "8 \<le> n \<Longrightarrow> n < 16 \<Longrightarrow> P n" "16 \<le> n \<Longrightarrow> n < 24 \<Longrightarrow> P n" "24 \<le> n \<Longrightarrow> n < 32 \<Longrightarrow> P n"
    for P :: "nat \<Rightarrow> bool" and n using that byte_cases [of n] by blast
  show "(x AND push_bit 24 0xffffff80) OR push_bit 24 0x80 = word_of_bytes False [0x80, 0, 0, 0]"
    unfolding word_BE pad_masks
    by (rule bit_word_eqI, erule *)
      (simp_all only: pad_bits bit_word_LE bit_and_iff bit_or_iff bit_not_iff bit_mask_iff bit_0_eq bot_apply, auto)
  show "(word_of_bytes False [a, b, c, d] AND push_bit 16 0xffffff80) OR push_bit 16 0x80 = word_of_bytes False [a, 0x80, 0, 0]"
    unfolding word_BE pad_masks
    by (rule bit_word_eqI, erule *)
      (simp_all only: pad_bits bit_word_LE bit_and_iff bit_or_iff bit_not_iff bit_mask_iff bit_0_eq bot_apply, auto)
  show "(word_of_bytes False [a, b, c, d] AND push_bit 8 0xffffff80) OR push_bit 8 0x80 = word_of_bytes False [a, b, 0x80, 0]"
    unfolding word_BE pad_masks
    by (rule bit_word_eqI, erule *)
      (simp_all only: pad_bits bit_word_LE bit_and_iff bit_or_iff bit_not_iff bit_mask_iff bit_0_eq bot_apply, auto)
  show "(word_of_bytes False [a, b, c, d] AND push_bit 0 0xffffff80) OR push_bit 0 0x80 = word_of_bytes False [a, b, c, 0x80]"
    unfolding word_BE pad_masks
    by (rule bit_word_eqI, erule *)
      (simp_all only: pad_bits bit_word_LE bit_and_iff bit_or_iff bit_not_iff bit_mask_iff bit_0_eq bot_apply, auto)
qed

lemma words_zero: "words_of le (replicate (4 * k) 0) = replicate k 0"
proof (induction k)
  case (Suc k)
  have "replicate (4 * Suc k) 0 = 0 # 0 # 0 # 0 # replicate (4 * k) (0 :: 8 word)"
    by (simp add: numeral_eq_Suc)
  moreover have "word_of_bytes le [0, 0, 0, 0] = 0" by (simp add: word_of_bytes_def)
  ultimately show ?case using Suc by simp
qed simp

lemma words_take: "length bs = 4 * k \<Longrightarrow> q \<le> k \<Longrightarrow> take q (words_of le bs) = words_of le (take (4 * q) bs)"
  using words_append [of "take (4 * q) bs" q le "drop (4 * q) bs"] words_len [of "take (4 * q) bs" q le] by simp

lemma word_BE_bytes: "word_of_bytes False [ucast (drop_bit 24 x), ucast (drop_bit 16 x), ucast (drop_bit 8 x), ucast x] = x"
  using word_roundtrip_LE [of x] by (simp add: bytes_LE word_BE)

lemma bit_unat: "bit x k = bit (unat x) k"
  by (simp add: bit_unsigned_iff)

lemma sha_length_words:
  assumes "counted n ctx"
  shows "words_of False (sha_length n) =
    [push_bit 3 (count1 ctx) OR drop_bit 29 (count0 ctx), push_bit 3 (count0 ctx)]"
proof -
  define L where "L = (of_nat (8 * n) :: 64 word)"
  have p: "8 * n = push_bit 3 n" by (simp add: push_bit_eq_mult)
  have L: "bit L k \<longleftrightarrow> k < 64 \<and> 3 \<le> k \<and> bit n (k - 3)" for k
    unfolding L_def p bit_unat unsigned_of_nat by (auto simp: bit_take_bit_iff bit_push_bit_iff)
  have "unat (count0 ctx) = take_bit 32 n" "unat (count1 ctx) = take_bit 32 (drop_bit 32 n)"
    using assms by (simp_all add: counted_def take_bit_eq_mod drop_bit_eq_div)
  then have c0: "bit (count0 ctx) k \<longleftrightarrow> k < 32 \<and> bit n k" and c1: "bit (count1 ctx) k \<longleftrightarrow> k < 32 \<and> bit n (32 + k)" for k
    by (simp_all only: bit_unat [of "count0 ctx"] bit_unat [of "count1 ctx"] bit_take_bit_iff bit_drop_bit_eq o_def)
  have "[0..<8] = [0, 1, 2, 3, 4, 5, 6, 7]" by code_simp
  then have len: "sha_length n = [ucast (drop_bit 56 L), ucast (drop_bit 48 L), ucast (drop_bit 40 L), ucast (drop_bit 32 L),
      ucast (drop_bit 24 L), ucast (drop_bit 16 L), ucast (drop_bit 8 L), ucast L]"
    unfolding sha_length_def L_def [symmetric] by simp
  moreover have "word_of_bytes False [ucast (drop_bit 24 L), ucast (drop_bit 16 L), ucast (drop_bit 8 L), ucast L] = push_bit 3 (count0 ctx)"
    unfolding word_BE
    by (rule bit_word_eqI, drule byte_cases, elim disjE conjE)
      (auto simp: bit_word_LE bit_ucast_iff bit_drop_bit_eq bit_push_bit_iff L c0 less_diff_conv2)
  moreover have "word_of_bytes False [ucast (drop_bit 56 L), ucast (drop_bit 48 L), ucast (drop_bit 40 L), ucast (drop_bit 32 L)] =
      push_bit 3 (count1 ctx) OR drop_bit 29 (count0 ctx)"
    unfolding word_BE
    by (rule bit_word_eqI, drule byte_cases, elim disjE conjE)
      (auto simp: bit_word_LE bit_ucast_iff bit_drop_bit_eq bit_push_bit_iff bit_or_iff L c0 c1 less_diff_conv2)
  ultimately show ?thesis unfolding len by simp
qed

lemma digest_bytes:
  assumes "length h = 5"
  shows "List.map (\<lambda>i. ucast (drop_bit (8 * (3 - i mod 4)) (h ! (i div 4)))) [0..<20] = mem_of False h"
proof -
  obtain a b c d e where h: "h = [a, b, c, d, e]" using assms by (auto simp: length_Suc_conv numeral_eq_Suc)
  have "[0..<20] = [0, 1, 2, 3, 4, 5, 6, 7, 8, 9, 10, 11, 12, 13, 14, 15, 16, 17, 18, 19]" by code_simp
  then show ?thesis unfolding h by (simp add: bytes_of_word_def)
qed

lemma pad_at:
  assumes "r < 64" "length bs = 64"
  defines "q \<equiv> r div 4"
  defines "p \<equiv> take r bs @ [0x80] @ replicate (3 - r mod 4) 0"
  shows "length p = 4 * (q + 1) \<and> (\<exists>rest. length rest = 15 - q \<and> (do {
      w \<leftarrow> bsw_32 le (words_of le bs) ((r + 3) div 4);
      x \<leftarrow> aget w (int q);
      w \<leftarrow> aset w (int q) (x AND push_bit (8 * (3 - r mod 4)) 0xffffff80);
      x \<leftarrow> aget w (int q);
      aset w (int q) (x OR push_bit (8 * (3 - r mod 4)) 0x00000080) }) = Some (words_of False p @ rest))"
proof -
  define n where "n = (r + 3) div 4"
  have q: "q < 16" "q \<le> n" "n \<le> 16" "r = 4 * q + r mod 4" using assms(1) by (auto simp: q_def n_def)
  have lp: "length p = 4 * (q + 1)" using assms(1,2) q by (simp add: p_def)
  have l: "length bs = 4 * 16" using assms by simp
  obtain rest where w: "bsw_32 le (words_of le bs) n = Some (words_of False (take (4 * n) bs) @ rest)" "length rest = 16 - n"
    using bsw_32_words [OF l q(3), of le] by auto
  define w1 where "w1 = words_of False (take (4 * n) bs) @ rest"
  have lt: "length (take (4 * n) bs) = 4 * n" using l q by simp
  have w1: "length w1 = 16" using w(2) words_len [OF lt] q by (simp add: w1_def)
  have tk: "take q w1 = words_of False (take (4 * q) bs)"
    using words_take [OF lt q(2), of False] q words_len [OF lt, of False] by (simp add: w1_def min_def)
  define y where "y = ((w1 ! q AND push_bit (8 * (3 - r mod 4)) 0xffffff80) OR push_bit (8 * (3 - r mod 4)) 0x80)"
  have "p = take (4 * q) bs @ (seg bs (4 * q) (r mod 4) @ [0x80] @ replicate (3 - r mod 4) 0)"
    unfolding p_def by (subst (1) q(4)) (simp add: seg_def take_add)
  moreover have "length (take (4 * q) bs) = 4 * q" using l q by simp
  ultimately have wp: "words_of False p = words_of False (take (4 * q) bs) @ words_of False (seg bs (4 * q) (r mod 4) @ [0x80] @ replicate (3 - r mod 4) 0)"
    using words_append by simp
  have y: "words_of False (seg bs (4 * q) (r mod 4) @ [0x80] @ replicate (3 - r mod 4) 0) = [y]"
  proof -
    have "length (seg bs (4 * q) 4) = 4" using l q by simp
    then obtain a b c d where abcd: "seg bs (4 * q) 4 = [a, b, c, d]" by (rule length_4E)
    have sg: "seg bs (4 * q) (r mod 4) = take (r mod 4) [a, b, c, d]"
      unfolding abcd [symmetric] by (simp add: seg_def min_def)
    have wq: "w1 ! q = word_of_bytes False [a, b, c, d]" if "r mod 4 \<noteq> 0"
    proof -
      have n: "n = q + 1" using that q(4) unfolding n_def q_def by presburger
      have "take (4 * n) bs = take (4 * q) bs @ [a, b, c, d]"
        using take_add [of "4 * q" 4 bs] by (simp add: n seg_def add.commute flip: abcd)
      then have "words_of False (take (4 * n) bs) = words_of False (take (4 * q) bs) @ [word_of_bytes False [a, b, c, d]]"
        using words_append [of "take (4 * q) bs" q] l q by simp
      moreover have "length (words_of False (take (4 * q) bs)) = q" using words_len [of "take (4 * q) bs" q] l q by simp
      ultimately show ?thesis by (simp add: w1_def nth_append)
    qed
    consider "r mod 4 = 0" | "r mod 4 = 1" | "r mod 4 = 2" | "r mod 4 = 3" by linarith
    then show ?thesis
    proof cases
      case 1
      then show ?thesis using pad_word(1) [of "w1 ! q"] unfolding sg y_def by (simp add: numeral_3_eq_3)
    next
      case 2
      then show ?thesis using pad_word(2) wq unfolding sg y_def by (simp add: numeral_2_eq_2)
    next
      case 3
      then show ?thesis using pad_word(3) wq unfolding sg y_def by simp
    next
      case 4
      then show ?thesis using pad_word(4) wq unfolding sg y_def by simp
    qed
  qed
  have "w1[q := w1 ! q AND push_bit (8 * (3 - r mod 4)) 0xffffff80, q := y] = take q w1 @ y # drop (Suc q) w1"
    using w1 q by (simp add: upd_conv_take_nth_drop)
  then have "w1[q := w1 ! q AND push_bit (8 * (3 - r mod 4)) 0xffffff80, q := y] = words_of False p @ drop (Suc q) w1"
    using tk wp y by simp
  then show ?thesis
    using lp w1 q unfolding n_def [symmetric] w(1) w1_def [symmetric]
    by (intro conjI exI [of _ "drop (Suc q) w1"]) (simp_all add: y_def)
qed

lemma sha1_compile_words:
  assumes "hash ctx = reg_list r" "length bs = 64" "wbuf ctx = words_of False bs"
  shows "\<exists>w. length w = 16 \<and> sha1_compile ctx = ctx\<lparr>hash := reg_list (compress (words_of False bs) r), wbuf := w\<rparr>"
  using sha1_compile_compress [of ctx] assms words_len [of bs 16] by simp

lemma zero_fill:
  assumes "i \<le> 14" "length w = 16"
  shows "returns (for_range (int i) 14 (\<lambda>i w. aset w i 0) w) (\<lambda>w'. w' = take i w @ replicate (14 - i) 0 @ drop 14 w)"
proof (rule returns_rangeI [where I = "\<lambda>k w'. w' = take i w @ replicate (nat k - i) 0 @ drop (nat k) w"])
  fix k t assume k: "int i \<le> k" "k < 14" and t: "t = take i w @ replicate (nat k - i) 0 @ drop (nat k) w"
  have l: "length t = 16" using k assms unfolding t by (simp add: nat_less_iff)
  have ik: "\<not> nat k < i" using k(1) by linarith
  have d: "drop (nat k) w = w ! nat k # drop (Suc (nat k)) w" using k assms by (intro Cons_nth_drop_Suc [symmetric]) simp
  have "t[nat k := 0] = take i w @ replicate (nat k - i) 0 @ 0 # drop (Suc (nat k)) w"
    using k assms ik unfolding t by (simp add: list_update_append d)
  moreover have "Suc (nat k) = nat (k + 1)" "nat (k + 1) - i = Suc (nat k - i)" using k by simp_all
  ultimately show "returns (aset t k 0) (\<lambda>w'. w' = take i w @ replicate (nat (k + 1) - i) 0 @ drop (nat (k + 1)) w)"
    using k l by (simp add: replicate_append_same)
qed (use assms in auto)

lemma length_2E: "length xs = 2 \<Longrightarrow> (\<And>a b. xs = [a, b] \<Longrightarrow> P) \<Longrightarrow> P"
  by (auto simp: length_Suc_conv numeral_2_eq_2)

lemma final_words:
  assumes "length w = 16" "take 14 w = words_of False z" "length z = 56" "counted n ctx"
  shows "w[14 := push_bit 3 (count1 ctx) OR drop_bit 29 (count0 ctx), 15 := push_bit 3 (count0 ctx)] =
    words_of False (z @ sha_length n)"
proof -
  have "length (drop 14 w) = 2" using assms(1) by simp
  then obtain a b where ab: "drop 14 w = [a, b]" by (rule length_2E)
  have z: "length (words_of False z) = 14" using words_len [of z 14] assms(3) by simp
  have "w = words_of False z @ [a, b]" using append_take_drop_id [of 14 w] assms(2) ab by simp
  then have "w[14 := x, 15 := y] = words_of False z @ [x, y]" for x y using z by (simp add: list_update_append)
  moreover have "words_of False (z @ sha_length n) = words_of False z @ words_of False (sha_length n)"
    using words_append [of z 14] assms(3) by simp
  ultimately show ?thesis using sha_length_words [OF assms(4)] by simp
qed

lemma unat_not3: "unat (NOT i AND (3 :: 32 word)) = 3 - unat i mod 4"
proof -
  have e: "NOT i AND 3 = NOT (i AND 3) AND (3 :: 32 word)"
    by (rule bit_word_eqI) (auto simp: bit_simps)
  have j: "unat (i AND 3) = unat i mod 4"
  proof -
    have "i AND 3 = take_bit 2 i" by (simp add: take_bit_eq_mask mask_eq_exp_minus_1)
    then have "unat (i AND 3) = take_bit 2 (unat i)" by (simp only: unsigned_take_bit_eq)
    then show ?thesis by (simp add: take_bit_eq_mod)
  qed
  have "unat i mod 4 < 4" by simp
  then consider "unat (i AND 3) = 0" | "unat (i AND 3) = 1" | "unat (i AND 3) = 2" | "unat (i AND 3) = 3" unfolding j by linarith
  then have "i AND 3 = 0 \<and> unat i mod 4 = 0 \<or> i AND 3 = 1 \<and> unat i mod 4 = 1 \<or> i AND 3 = 2 \<and> unat i mod 4 = 2 \<or> i AND 3 = 3 \<and> unat i mod 4 = 3"
    unfolding j [symmetric] by cases (simp_all add: word_unat_eq_iff)
  then show ?thesis unfolding e
    by (elim disjE conjE; simp only:) simp_all
qed

lemma end_indices:
  assumes "unat i = r" "r < 64"
  shows "unat (drop_bit 2 (i + 3)) = (r + 3) div 4" "uint (drop_bit 2 i) = int (r div 4)" "unat (NOT i AND 3) = 3 - r mod 4"
    "SHA1_BLOCK_SIZE - 9 < i \<longleftrightarrow> 55 < r" "i < 60 \<longleftrightarrow> r < 60" "uint (drop_bit 2 i + 1) = int (r div 4 + 1)"
proof -
  have "unat (i + 3) = r + 3" using assms by (simp add: unat_word_ariths)
  then show "unat (drop_bit 2 (i + 3)) = (r + 3) div 4" by (simp add: unsigned_drop_bit_eq drop_bit_eq_div unat_div)
  have q: "unat (drop_bit 2 i) = r div 4" using assms by (simp add: unsigned_drop_bit_eq drop_bit_eq_div unat_div)
  then show "uint (drop_bit 2 i) = int (r div 4)" by (simp add: uint_nat)
  have "unat (drop_bit 2 i + 1) = r div 4 + 1" using q assms(2) by (simp add: unat_word_ariths)
  then show "uint (drop_bit 2 i + 1) = int (r div 4 + 1)" by (simp add: uint_nat)
  show "unat (NOT i AND 3) = 3 - r mod 4" using unat_not3 [of i] assms(1) by simp
  show "SHA1_BLOCK_SIZE - 9 < i \<longleftrightarrow> 55 < r" "i < 60 \<longleftrightarrow> r < 60" using assms(1) by (simp_all add: sizes word_less_nat_alt)
qed

section \<open>The digest\<close>

lemma finish:
  assumes w: "length w = 16" "take 14 w = words_of False z" "length z = 56" and c: "counted n ctx" and h: "hash ctx = reg_list r"
  shows "returns (do {
      w \<leftarrow> aset w 14 (push_bit 3 (count1 ctx) OR drop_bit 29 (count0 ctx));
      w \<leftarrow> aset w 15 (push_bit 3 (count0 ctx));
      let ctx = sha1_compile (ctx\<lparr>wbuf := w\<rparr>);
      Some (List.map (\<lambda>i. ucast (drop_bit (8 * (3 - i mod 4)) (hash ctx ! (i div 4)))) [0..<20] :: 8 word list, ctx) })
    (\<lambda>(hval, _). hval = mem_of False (reg_list (hash_blocks (z @ sha_length n) r)))"
proof -
  have l: "length (z @ sha_length n) = 64" using w(3) by (simp add: sha_length_def)
  let ?c = "ctx\<lparr>wbuf := words_of False (z @ sha_length n)\<rparr>"
  obtain w' where "sha1_compile ?c = ?c\<lparr>hash := reg_list (compress (words_of False (z @ sha_length n)) r), wbuf := w'\<rparr>"
    using sha1_compile_words [of ?c r, OF _ l] h by auto
  moreover have "hash_blocks (z @ sha_length n) r = compress (words_of False (z @ sha_length n)) r"
    using hash_blocks_step [OF l, of "[]"] by (simp add: hash_blocks_short)
  ultimately have "List.map (\<lambda>i. ucast (drop_bit (8 * (3 - i mod 4)) (hash (sha1_compile ?c) ! (i div 4)))) [0..<20] =
      mem_of False (reg_list (hash_blocks (z @ sha_length n) r))"
    using digest_bytes [OF reg_list_length] by simp
  moreover have "do {
      w \<leftarrow> aset w 14 (push_bit 3 (count1 ctx) OR drop_bit 29 (count0 ctx));
      w \<leftarrow> aset w 15 (push_bit 3 (count0 ctx));
      let ctx = sha1_compile (ctx\<lparr>wbuf := w\<rparr>);
      Some (List.map (\<lambda>i. ucast (drop_bit (8 * (3 - i mod 4)) (hash ctx ! (i div 4)))) [0..<20] :: 8 word list, ctx) } =
    Some (List.map (\<lambda>i. ucast (drop_bit (8 * (3 - i mod 4)) (hash (sha1_compile ?c) ! (i div 4)))) [0..<20], sha1_compile ?c)"
    using w(1) final_words [OF w c] by (simp add: Let_def)
  ultimately show ?thesis by simp
qed

theorem sha1_end_digest:
  assumes a: "absorbed le m (length m mod 64) ctx" and c: "counted (length m) ctx"
  shows "returns (sha1_end le ctx) (\<lambda>(hval, _). hval = sha1_spec m)"
proof -
  define r where "r = length m mod 64"
  define q where "q = r div 4"
  define i where "i = count0 ctx AND SHA1_MASK"
  define bs where "bs = mem_of le (wbuf ctx)"
  obtain full tail k where m: "m = full @ tail" "length full = 64 * k" "length tail = r" "r < 64"
    "hash ctx = reg_list (hash_blocks full sha_start)" "take r bs = tail" "length (wbuf ctx) = 16"
    using a unfolding absorbed_def r_def bs_def by blast
  have bs: "length bs = 64" "words_of le bs = wbuf ctx" using m(7) by (simp_all add: bs_def)
  have i: "unat i = r" using c by (simp add: i_def unat_pos counted_def mod_mod_cancel r_def)
  note idx = end_indices [OF i m(4), folded q_def]
  define p where "p = tail @ [0x80] @ replicate (3 - r mod 4) (0 :: 8 word)"
  obtain rest where rest: "length rest = 15 - q" "first_pad le (wbuf ctx) i = Some (words_of False p @ rest)"
    and lp: "length p = 4 * (q + 1)"
    using pad_at [OF m(4) bs(1), of le] unfolding first_pad_def idx m(6) bs(2) q_def [symmetric] p_def by blast
  define w0 where "w0 = words_of False p @ rest"
  have q: "q < 16" using m(4) by (simp add: q_def)
  have lw: "length (words_of False p) = q + 1" using words_len [OF lp] by simp
  have w0: "length w0 = 16" using lw rest(1) q by (simp add: w0_def)
  have pad: "sha_pad m = full @ tail @ [0x80] @ replicate (if r < 56 then 55 - r else 119 - r) 0 @ sha_length (length m)"
    by (simp add: sha_pad_def m(1) flip: r_def) (simp add: r_def m(1))
  show ?thesis
  proof (cases "55 < r")
    case False
    define z where "z = p @ replicate (4 * (13 - q)) 0"
    have e: "55 - r = (3 - r mod 4) + 4 * (13 - q)" using False unfolding q_def by presburger
    have "replicate (55 - r) 0 = replicate (3 - r mod 4) 0 @ replicate (4 * (13 - q)) (0 :: 8 word)"
      unfolding e by (rule replicate_add)
    then have "sha_pad m = full @ z @ sha_length (length m)"
      using False unfolding pad z_def p_def by simp
    then have spec: "sha1_spec m = mem_of False (reg_list (hash_blocks (z @ sha_length (length m)) (hash_blocks full sha_start)))"
      using hash_blocks_append [OF m(2)] by (simp add: sha1_spec_def)
    have q14: "q + 1 \<le> 14" using False unfolding q_def by presburger
    have lz: "length z = 56" using lp q14 by (simp add: z_def)
    have tk: "take (q + 1) w0 = words_of False p" using lw by (simp add: w0_def)
    obtain w where w: "for_range (int (q + 1)) 14 (\<lambda>i w. aset w i 0) w0 = Some w"
      "w = take (q + 1) w0 @ replicate (14 - (q + 1)) 0 @ drop 14 w0"
      by (rule returnsE [OF zero_fill [OF q14 w0]]) auto
    have wz: "words_of False z = words_of False p @ replicate (13 - q) 0"
      unfolding z_def words_append [OF lp] words_zero ..
    have "length w = 16" "take 14 w = words_of False z"
      using lw w0 q14 unfolding w(2) tk wz by simp_all
    note fin = finish [OF this lz, of "length m" "ctx\<lparr>wbuf := w0\<rparr>" "hash_blocks full sha_start"]
    show ?thesis
      using fin c m(5) w(1) rest(2) False
      unfolding sha1_end_def Let_def i_def [symmetric] spec
      by (simp add: idx(4,6) w0_def [symmetric])
  next
    case True
    define B where "B = tail @ 0x80 # replicate (63 - r) (0 :: 8 word)"
    define z where "z = replicate (4 * 14) (0 :: 8 word)"
    have lB: "length B = 64" using m(3,4) by (simp add: B_def)
    have e: "119 - r = (63 - r) + 4 * 14" using m(4) by simp
    have "replicate (119 - r) 0 = replicate (63 - r) 0 @ z"
      unfolding e z_def by (rule replicate_add)
    then have "sha_pad m = full @ B @ z @ sha_length (length m)"
      using True unfolding pad B_def by simp
    then have spec: "sha1_spec m = mem_of False (reg_list (hash_blocks (z @ sha_length (length m))
        (compress (words_of False B) (hash_blocks full sha_start))))"
      using hash_blocks_append [OF m(2)] hash_blocks_step [OF lB] by (simp add: sha1_spec_def)
    have w1: "(if i < 60 then aset w0 15 0 else Some w0) = Some (words_of False B)"
    proof (cases "r < 60")
      case True
      then have q14: "q = 14" using \<open>55 < r\<close> unfolding q_def by presburger
      have "63 - r = (3 - r mod 4) + 4 * 1" using True \<open>55 < r\<close> q14 unfolding q_def by presburger
      then have "B = p @ replicate (4 * 1) 0" unfolding B_def p_def by (simp only: replicate_add append_assoc append_Cons append_Nil)
      then have "words_of False B = words_of False p @ [0]"
        using words_append [OF lp] words_zero [of False 1] by simp
      moreover obtain x where "rest = [x]" using rest(1) q14 by (auto simp: length_Suc_conv)
      ultimately show ?thesis using True idx(5) lw q14 by (simp add: w0_def list_update_append)
    next
      case False
      then have "63 - r = 3 - r mod 4" "q = 15" using m(4) unfolding q_def by presburger+
      then show ?thesis using False idx(5) rest(1) by (simp add: w0_def B_def p_def)
    qed
    obtain w2 where w2: "length w2 = 16" "sha1_compile (ctx\<lparr>wbuf := words_of False B\<rparr>) =
        ctx\<lparr>hash := reg_list (compress (words_of False B) (hash_blocks full sha_start)), wbuf := w2\<rparr>"
      using sha1_compile_words [of "ctx\<lparr>wbuf := words_of False B\<rparr>" "hash_blocks full sha_start", OF _ lB] m(5) by auto
    obtain w where w: "for_range 0 14 (\<lambda>i w. aset w i 0) w2 = Some w" "w = replicate 14 0 @ drop 14 w2"
      by (rule returnsE [OF zero_fill [of 0, OF _ w2(1)]]) auto
    have lz: "length z = 56" by (simp add: z_def)
    have "length w = 16" "take 14 w = words_of False z"
      using w2(1) words_zero [of False 14] unfolding w(2) z_def by simp_all
    note fin = finish [OF this lz, of "length m" "ctx\<lparr>hash := reg_list (compress (words_of False B) (hash_blocks full sha_start)), wbuf := w2\<rparr>"
        "compress (words_of False B) (hash_blocks full sha_start)"]
    show ?thesis
      using fin c w(1) w1 rest(2) True w2(2)
      unfolding sha1_end_def Let_def i_def [symmetric] spec
      by (simp add: idx(4) w0_def [symmetric])
  qed
qed

lemma begin_absorbed: "length (wbuf cx) = 16 \<Longrightarrow> absorbed le [] (length [] mod 64) (sha1_begin cx) \<and> counted (length []) (sha1_begin cx)"
  by (simp add: absorbed_def counted_def sha1_begin_def hash_blocks_short sha_start_def reg_list_def)

definition hash_chunk :: "bool \<Rightarrow> 8 word list \<Rightarrow> sha1_ctx \<Rightarrow> sha1_ctx option" where
  "hash_chunk le data = sha1_hash le data (of_nat (length data))"

lemma hash_chunks_absorb:
  assumes "length (wbuf cx) = 16" "\<And>d. d \<in> set ds \<Longrightarrow> length d < 2 ^ 32"
  shows "returns (for_each (hash_chunk le) ds (sha1_begin cx))
    (\<lambda>ctx. absorbed le (concat ds) (length (concat ds) mod 64) ctx \<and> counted (length (concat ds)) ctx)"
proof (rule returns_for_each [where I = "\<lambda>ds ctx. absorbed le (concat ds) (length (concat ds) mod 64) ctx \<and> counted (length (concat ds)) ctx"])
  fix done1 d rest ctx
  assume ds: "ds = done1 @ d # rest"
    and I: "absorbed le (concat done1) (length (concat done1) mod 64) ctx \<and> counted (length (concat done1)) ctx"
  then have "length d < 2 ^ 32" using assms(2) by simp
  then show "returns (hash_chunk le d ctx) (\<lambda>ctx. absorbed le (concat (done1 @ [d])) (length (concat (done1 @ [d])) mod 64) ctx \<and>
      counted (length (concat (done1 @ [d]))) ctx)"
    using sha1_hash_absorbs [of le "concat done1" ctx d] I by (simp add: hash_chunk_def)
qed (use begin_absorbed [OF assms(1)] in simp)

lemma sha1_chunks:
  assumes "length (wbuf cx) = 16" "\<And>d. d \<in> set ds \<Longrightarrow> length d < 2 ^ 32"
  shows "\<exists>ctx'. for_each (hash_chunk le) ds (sha1_begin cx) \<bind> sha1_end le = Some (sha1_spec (concat ds), ctx')"
proof -
  obtain ctx where c: "for_each (hash_chunk le) ds (sha1_begin cx) = Some ctx"
    "absorbed le (concat ds) (length (concat ds) mod 64) ctx" "counted (length (concat ds)) ctx"
    by (rule returnsE [OF hash_chunks_absorb [OF assms]]) auto
  show ?thesis
    by (rule returnsE [OF sha1_end_digest [OF c(2,3)]]) (use c(1) in auto)
qed

text \<open>C13: however a message is cut into chunks, the incremental hash of the file returns its SHA-1 digest as
  FIPS 180-1 defines it, on little-endian and on big-endian machines, without an access outside a buffer.\<close>

theorem sha1_incremental:
  assumes "length (wbuf cx) = 16" "\<And>d. d \<in> set ds \<Longrightarrow> length d < 2 ^ 32"
  shows "\<exists>ctx'. for_each (\<lambda>d. sha1_hash le d (of_nat (length d))) ds (sha1_begin cx) \<bind> sha1_end le =
    Some (sha1_spec (concat ds), ctx')"
  using sha1_chunks [where le = le, OF assms] unfolding hash_chunk_def by simp

definition blank :: sha1_ctx where
  "blank = \<lparr>count0 = 0, count1 = 0, hash = replicate 5 0, wbuf = replicate 16 0\<rparr>"

theorem sha1_incremental_witness:
  "\<exists>ctx'. for_each (\<lambda>d. sha1_hash True d (of_nat (length d))) [[97, 98], [99]] (sha1_begin blank) \<bind> sha1_end True =
    Some (sha1_spec (concat [[97, 98], [99]]), ctx')"
  by (rule sha1_incremental) (auto simp: blank_def)

lemma int_bytes_BE: "int_bytes s = bytes_of_word False s"
proof -
  have m: "(0xFF :: 32 word) = mask 8" by (simp add: mask_eq_exp_minus_1)
  show ?thesis
    unfolding int_bytes_def bytes_of_word_def Let_def m
    by (simp, intro conjI; rule bit_word_eqI;
      simp add: bit_ucast_iff bit_and_iff bit_mask_iff bit_drop_bit_eq bit_signed_drop_bit_iff min_def)
qed

lemma sha1_one:
  assumes "length (wbuf cx) = 16" "length d < 2 ^ 32"
  shows "\<exists>ctx'. sha1_hash le d (of_nat (length d)) (sha1_begin cx) \<bind> sha1_end le = Some (sha1_spec d, ctx')"
  using sha1_chunks [of cx "[d]" le] assms by (simp add: hash_chunk_def)

lemma sha1_spec_length [simp]: "length (sha1_spec m) = 20"
  by (simp add: sha1_spec_def)

lemma int_bytes_length [simp]: "length (int_bytes n) = 4"
  by (simp add: int_bytes_def)

lemma rng_spawn_digest:
  assumes "length mystate = 20" "length (wbuf ctx) = 16"
  shows "rng_spawn le mystate n ctx = Some (sha1_spec (mystate @ bytes_of_word False n))"
proof -
  have small: "length d < 4294967296" if "d = mystate \<or> d = int_bytes n" for d using that assms(1) by auto
  obtain ctx' where "sha1_hash le mystate 20 (sha1_begin ctx) \<bind> sha1_hash le (int_bytes n) 4 \<bind> sha1_end le =
      Some (sha1_spec (mystate @ int_bytes n), ctx')"
    using sha1_chunks [OF assms(2), of "[mystate, int_bytes n]" le] small assms(1) by (auto simp: hash_chunk_def bind_assoc)
  then show ?thesis by (auto simp: rng_spawn_def Let_def int_bytes_BE split: Option.bind_splits)
qed

lemma rng_init_digest:
  assumes "length (wbuf ctx) = 16"
  shows "rng_init le seed ctx = Some (sha1_spec (replicate 16 0 @ bytes_of_word False seed))"
proof -
  obtain ctx' where "sha1_hash le (replicate 16 0 @ int_bytes seed) 20 (sha1_begin ctx) \<bind> sha1_end le =
      Some (sha1_spec (replicate 16 0 @ int_bytes seed), ctx')"
    using sha1_one [OF assms, of "replicate 16 0 @ int_bytes seed" le] by auto
  then show ?thesis by (auto simp: rng_init_def Let_def int_bytes_BE split: Option.bind_splits)
qed

text \<open>C20: the state of a child stream is the SHA-1 digest of the parent's state followed by the number of the
  child, the state of the root is that of the seed; both have the 20 bytes the next call reads.\<close>

theorem rng_streams:
  assumes "length mystate = 20" "length (wbuf ctx) = 16"
  shows "rng_spawn le mystate n ctx = Some (sha1_spec (mystate @ bytes_of_word False n)) \<and>
    rng_init le seed ctx = Some (sha1_spec (replicate 16 0 @ bytes_of_word False seed)) \<and>
    length (sha1_spec (mystate @ bytes_of_word False n)) = length mystate"
  using rng_spawn_digest [OF assms] rng_init_digest [OF assms(2)] assms(1) by simp

theorem rng_streams_witness:
  "rng_spawn True (replicate 20 0) 7 blank = Some (sha1_spec (replicate 20 0 @ bytes_of_word False 7)) \<and>
    rng_init True 42 blank = Some (sha1_spec (replicate 16 0 @ bytes_of_word False 42)) \<and>
    length (sha1_spec (replicate 20 0 @ bytes_of_word False 7)) = length (replicate 20 (0 :: 8 word))"
  by (rule rng_streams) (simp_all add: blank_def)

lemma push_byte: "push_bit k (ucast (a :: 8 word)) = (word_of_int (uint a * 2 ^ k) :: 32 word)"
  by (simp only: push_bit_eq_mult of_int_mult of_int_power of_int_numeral ucast_eq)

lemma shl_byte:
  fixes a :: "8 word"
  shows "k \<le> 16 \<Longrightarrow> shl_int ovf (uint a) k = Some (uint a * 2 ^ k)" "shl_int wrapped_shift (uint a) 24 = Some (sint (push_bit 24 (ucast a) :: 32 word))"
    "shl_int no_shift (uint a) 24 = (if a < 0x80 then Some (sint (push_bit 24 (ucast a) :: 32 word)) else None)"
proof -
  have u: "uint a < 256" "0 \<le> uint a" using uint_bounded [of a] by simp_all
  show "shl_int ovf (uint a) k = Some (uint a * 2 ^ k)" if "k \<le> 16"
  proof -
    have "uint a * 2 ^ k \<le> 255 * 2 ^ 16" using u power_increasing [OF that, of "2 :: int"] by (intro mult_mono) simp_all
    then show ?thesis using u by (simp add: shl_int_def)
  qed
  note p = push_byte [of 24 a]
  have lt: "uint a * 2 ^ 24 < 2 ^ 31 \<longleftrightarrow> a < 0x80" by (simp add: word_less_def)
  have s: "sint (word_of_int (uint a * 2 ^ 24) :: 32 word) = uint a * 2 ^ 24" if "a < 0x80"
    using that u lt by (subst int_word_sint) simp
  show "shl_int wrapped_shift (uint a) 24 = Some (sint (push_bit 24 (ucast a) :: 32 word))"
    using s u lt unfolding p by (auto simp: shl_int_def wrapped_shift_def)
  show "shl_int no_shift (uint a) 24 = (if a < 0x80 then Some (sint (push_bit 24 (ucast a) :: 32 word)) else None)"
    using s u lt unfolding p by (auto simp: shl_int_def no_shift_def)
qed

lemma rng_rand_value:
  assumes "length st = 20"
  shows "rng_rand wrapped_shift st = Some (int (unat (word_of_bytes False (drop 16 st)) mod 2 ^ 31))"
    "rng_rand no_shift st = (if st ! 16 < 0x80 then rng_rand wrapped_shift st else None)"
proof -
  have "length (drop 16 st) = 4" using assms by simp
  then obtain a b c d where d: "drop 16 st = [a, b, c, d]" by (rule length_4E)
  have n: "st ! 16 = a" "st ! 17 = b" "st ! 18 = c" "st ! 19 = d"
    using assms nth_drop [of 16 st 0] nth_drop [of 16 st 1] nth_drop [of 16 st 2] nth_drop [of 16 st 3] unfolding d by simp_all
  define x where "x = word_of_bytes False [a, b, c, d]"
  have o: "word_of_int (sint (push_bit 24 (ucast a) :: 32 word) OR uint b * 2 ^ 16 OR uint c * 2 ^ 8 OR uint d * 2 ^ 0) = x"
  proof -
    have "word_of_int (uint b * 2 ^ 16) = (push_bit 16 (ucast b) :: 32 word)" "word_of_int (uint c * 2 ^ 8) = (push_bit 8 (ucast c) :: 32 word)"
      "word_of_int (uint d * 2 ^ 0) = (push_bit 0 (ucast d) :: 32 word)"
      by (simp_all only: push_byte)
    then show ?thesis unfolding x_def of_int_or_eq by (simp add: word_BE word_LE or.commute or.left_commute)
  qed
  have "POS_MASK = mask 31" by (simp add: POS_MASK_def mask_eq_exp_minus_1)
  moreover have u: "unat (x AND mask 31) = unat x mod 2 ^ 31"
    by (metis take_bit_eq_mask take_bit_eq_mod unsigned_take_bit_eq)
  moreover have "sint (x AND mask 31) = int (unat x mod 2 ^ 31)"
    using u by (subst sint_small) simp_all
  ultimately have r: "sint (x AND POS_MASK) = int (unat x mod 2 ^ 31)" by simp
  show "rng_rand wrapped_shift st = Some (int (unat (word_of_bytes False (drop 16 st)) mod 2 ^ 31))"
    unfolding d x_def [symmetric] r [symmetric] using assms n o by (simp add: rng_rand_def Let_def shl_byte)
  show "rng_rand no_shift st = (if st ! 16 < 0x80 then rng_rand wrapped_shift st else None)"
    using assms n by (simp add: rng_rand_def Let_def shl_byte)
qed

text \<open>C21: drawing a value replaces the state by its digest and returns the last 31 bits of the new state, a value
  between 0 and \<open>2^31 - 1\<close>.  This is with the shift that GCC documents: \<open>mystate[16] << 24\<close> shifts a promoted byte, and in ISO C
  the drawing is undefined exactly when this byte is 0x80 or more.\<close>

theorem rng_nextrand_value:
  assumes "length mystate = 20" "length (wbuf ctx) = 16"
  shows "\<exists>r. rng_nextrand wrapped_shift le mystate ctx = Some (sha1_spec mystate, r) \<and> 0 \<le> r \<and> r < 2 ^ 31 \<and>
    r = int (unat (word_of_bytes False (drop 16 (sha1_spec mystate))) mod 2 ^ 31) \<and> rng_rand wrapped_shift (sha1_spec mystate) = Some r \<and>
    rng_nextrand no_shift le mystate ctx = (if sha1_spec mystate ! 16 < 0x80 then Some (sha1_spec mystate, r) else None)"
proof -
  obtain ctx' where "sha1_hash le mystate 20 (sha1_begin ctx) \<bind> sha1_end le = Some (sha1_spec mystate, ctx')"
    using sha1_one [OF assms(2), of mystate le] assms(1) by auto
  moreover note rng_rand_value [OF sha1_spec_length [of mystate]]
  ultimately show ?thesis
    by (auto simp: rng_nextrand_def split: Option.bind_splits if_splits)
qed

theorem rng_nextrand_value_witness:
  "\<exists>r. rng_nextrand wrapped_shift True (replicate 20 0) blank = Some (sha1_spec (replicate 20 0), r) \<and> 0 \<le> r \<and> r < 2 ^ 31 \<and>
    r = int (unat (word_of_bytes False (drop 16 (sha1_spec (replicate 20 0)))) mod 2 ^ 31) \<and>
    rng_rand wrapped_shift (sha1_spec (replicate 20 0)) = Some r \<and>
    rng_nextrand no_shift True (replicate 20 0) blank = (if sha1_spec (replicate 20 0) ! 16 < 0x80 then Some (sha1_spec (replicate 20 0), r) else None)"
  by (rule rng_nextrand_value) (simp_all add: blank_def)

end
