(* ===== verification/C_Floats.thy ===== *)
theory C_Floats
  imports C_Prelude
begin

text \<open>
  Doubles as a parameter: the operations of a machine on doubles are the fields of a record, so what is proved of a
  program that computes with them does not depend on how a machine rounds.  A conversion of a double to \<open>int\<close> or
  \<open>long long int\<close> that is out of range is \<open>None\<close>.  \<open>int_ovf\<close> is what the machine gives for a product of type \<open>int\<close>
  that is out of range, for the code that relies on it: \<open>\<lambda>_. None\<close> is ISO C, \<open>Some \<circ> to_i32\<close> a machine that wraps around.
\<close>

record 'd floats =
  d_int :: "int \<Rightarrow> 'd"
  d_add :: "'d \<Rightarrow> 'd \<Rightarrow> 'd"
  d_sub :: "'d \<Rightarrow> 'd \<Rightarrow> 'd"
  d_mul :: "'d \<Rightarrow> 'd \<Rightarrow> 'd"
  d_div :: "'d \<Rightarrow> 'd \<Rightarrow> 'd"
  d_less :: "'d \<Rightarrow> 'd \<Rightarrow> bool"
  d_neg :: "'d \<Rightarrow> 'd"
  d_pow :: "'d \<Rightarrow> 'd \<Rightarrow> 'd"
  d_log :: "'d \<Rightarrow> 'd"
  d_sin :: "'d \<Rightarrow> 'd"
  d_floor :: "'d \<Rightarrow> 'd"
  d_ceil :: "'d \<Rightarrow> 'd"
  d_pi :: "'d"
  d_to_int :: "'d \<Rightarrow> int option"
  d_to_ll :: "'d \<Rightarrow> int option"
  d_atof :: "string \<Rightarrow> 'd"
  int_ovf :: "int \<Rightarrow> int option"

end
