(* ===== verification/Uts_Tree.thy ===== *)
theory Uts_Tree
  imports Sha1 C_Floats
begin

text \<open>
  The trees of the unbalanced tree search, \<open>uts/uts.c\<close> and \<open>uts/uts.h\<close>, and the sequential search,
  \<open>uts/uts_dfs.c\<close>.  The global parameters are the record \<open>params\<close>; the generator of random streams that
  \<open>rng.h\<close> selects at compile time is the record \<open>rng\<close>, and the operations on doubles and \<open>atof\<close> are the record
  \<open>floats\<close> of \<open>C_Floats\<close>, so the results do not depend on how a machine rounds.  A conversion of a double to \<open>int\<close> that is
  out of range is \<open>None\<close>.  \<open>exit\<close> is an outcome of its own.
\<close>

section \<open>Parameters\<close>

datatype tree_t = BIN | GEO | HYBRID | BALANCED | Bad_tree int

datatype geoshape_t = LINEAR | EXPDEC | CYCLIC | FIXED | Bad_shape int

record ('s) rng =
  r_init :: "32 word \<Rightarrow> 's option"
  r_spawn :: "'s \<Rightarrow> 32 word \<Rightarrow> 's option"
  r_rand :: "'s \<Rightarrow> int option"

record 'd params =
  tree_type :: tree_t
  b_0 :: 'd
  rootId :: int
  nonLeafBF :: int
  nonLeafProb :: 'd
  gen_mx :: int
  shape_fn :: geoshape_t
  shiftDepth :: 'd
  computeGranularity :: int
  payloadSize :: int
  debug :: int
  verbose :: int
  max_streams :: int

definition MAXNUMCHILDREN :: int where
  "MAXNUMCHILDREN = 100"

record 's node =
  node_type :: tree_t
  node_height :: int
  numChildren :: int
  node_state :: 's

section \<open>The shape of the tree\<close>

definition rng_toProb :: "'d floats \<Rightarrow> int \<Rightarrow> 'd" where
  "rng_toProb F n = (if n < 0 then d_int F 0 else d_div F (d_int F n) (d_int F 2147483648))"

definition uts_initRoot :: "'s rng \<Rightarrow> 'd params \<Rightarrow> tree_t \<Rightarrow> 's node option" where
  "uts_initRoot R P ty = do {
     st \<leftarrow> r_init R (word_of_int (rootId P));
     Some \<lparr>node_type = ty, node_height = 0, numChildren = -1, node_state = st\<rparr> }"

definition uts_numChildren_bin :: "'d floats \<Rightarrow> 's rng \<Rightarrow> 'd params \<Rightarrow> 's node \<Rightarrow> int option" where
  "uts_numChildren_bin F R P parent = do {
     v \<leftarrow> r_rand R (node_state parent);
     let d = rng_toProb F v;
     Some (if d_less F d (nonLeafProb P) then nonLeafBF P else 0) }"

definition geo_target :: "'d floats \<Rightarrow> 'd params \<Rightarrow> int \<Rightarrow> 'd" where
  "geo_target F P depth =
     (if depth > 0 then
        (case shape_fn P of
           EXPDEC \<Rightarrow> d_mul F (b_0 P) (d_pow F (d_int F depth)
             (d_div F (d_neg F (d_log F (b_0 P))) (d_log F (d_int F (gen_mx P)))))
         | CYCLIC \<Rightarrow> (if depth > 5 * gen_mx P then d_int F 0
             else d_pow F (b_0 P) (d_sin F (d_div F (d_mul F (d_mul F (d_int F 2) (d_pi F)) (d_int F depth)) (d_int F (gen_mx P)))))
         | FIXED \<Rightarrow> (if depth < gen_mx P then b_0 P else d_int F 0)
         | _ \<Rightarrow> d_mul F (b_0 P) (d_sub F (d_int F 1) (d_div F (d_int F depth) (d_int F (gen_mx P)))))
      else b_0 P)"

definition uts_numChildren_geo :: "'d floats \<Rightarrow> 's rng \<Rightarrow> 'd params \<Rightarrow> 's node \<Rightarrow> int option" where
  "uts_numChildren_geo F R P parent = do {
     let b_i = geo_target F P (node_height parent);
     let p = d_div F (d_int F 1) (d_add F (d_int F 1) b_i);
     h \<leftarrow> r_rand R (node_state parent);
     let u = rng_toProb F h;
     d_to_int F (d_floor F (d_div F (d_log F (d_sub F (d_int F 1) u)) (d_log F (d_sub F (d_int F 1) p)))) }"

text \<open>\<open>None\<close> also where the code calls \<open>uts_error\<close>, which ends the program.\<close>

definition raw_children :: "'d floats \<Rightarrow> 's rng \<Rightarrow> 'd params \<Rightarrow> 's node \<Rightarrow> int option" where
  "raw_children F R P parent =
     (case tree_type P of
        BIN \<Rightarrow> if node_height parent = 0 then d_to_int F (d_floor F (b_0 P)) else uts_numChildren_bin F R P parent
      | GEO \<Rightarrow> uts_numChildren_geo F R P parent
      | HYBRID \<Rightarrow> if d_less F (d_int F (node_height parent)) (d_mul F (shiftDepth P) (d_int F (gen_mx P)))
          then uts_numChildren_geo F R P parent else uts_numChildren_bin F R P parent
      | BALANCED \<Rightarrow> if node_height parent < gen_mx P then d_to_int F (b_0 P) else Some 0
      | Bad_tree _ \<Rightarrow> None)"

definition uts_numChildren :: "'d floats \<Rightarrow> 's rng \<Rightarrow> 'd params \<Rightarrow> 's node \<Rightarrow> int option" where
  "uts_numChildren F R P parent = do {
     n \<leftarrow> raw_children F R P parent;
     if node_height parent = 0 \<and> node_type parent = BIN then do {
       rootBF \<leftarrow> d_to_int F (d_ceil F (b_0 P));
       Some (if n > rootBF then rootBF else n) }
     else if tree_type P \<noteq> BALANCED then Some (if n > MAXNUMCHILDREN then MAXNUMCHILDREN else n)
     else Some n }"

definition uts_childType :: "'d floats \<Rightarrow> 'd params \<Rightarrow> 's node \<Rightarrow> tree_t option" where
  "uts_childType F P parent =
     (case tree_type P of
        BIN \<Rightarrow> Some BIN
      | GEO \<Rightarrow> Some GEO
      | HYBRID \<Rightarrow> Some (if d_less F (d_int F (node_height parent)) (d_mul F (shiftDepth P) (d_int F (gen_mx P)))
          then GEO else BIN)
      | BALANCED \<Rightarrow> Some BALANCED
      | Bad_tree _ \<Rightarrow> None)"

section \<open>The command line\<close>

text \<open>A \<open>char\<close> past the end of a string is the terminating zero.\<close>

definition char_at :: "string \<Rightarrow> nat \<Rightarrow> char" where
  "char_at s i = (if i < length s then s ! i else CHR 0x00)"

fun atoi_digits :: "int \<Rightarrow> string \<Rightarrow> int" where
  "atoi_digits acc [] = acc"
| "atoi_digits acc (c # cs) =
     (if 48 \<le> (of_char c :: int) \<and> (of_char c :: int) \<le> 57 then atoi_digits (10 * acc + (of_char c - 48)) cs else acc)"

fun atoi :: "string \<Rightarrow> int" where
  "atoi (c # cs) =
     (if of_char c \<in> {32 :: int, 9, 10, 11, 12, 13} then atoi cs
      else if c = CHR ''-'' then - atoi_digits 0 cs
      else if c = CHR ''+'' then atoi_digits 0 cs
      else atoi_digits 0 (c # cs))"
| "atoi [] = 0"

fun tree_of_int :: "int \<Rightarrow> tree_t" where
  "tree_of_int i = (if i = 0 then BIN else if i = 1 then GEO else if i = 2 then HYBRID else if i = 3 then BALANCED else Bad_tree i)"

fun shape_of_int :: "int \<Rightarrow> geoshape_t" where
  "shape_of_int i = (if i = 0 then LINEAR else if i = 1 then EXPDEC else if i = 2 then CYCLIC else if i = 3 then FIXED else Bad_shape i)"

definition is_bad_tree :: "tree_t \<Rightarrow> bool" where
  "is_bad_tree t = (t \<noteq> BIN \<and> t \<noteq> GEO \<and> t \<noteq> HYBRID \<and> t \<noteq> BALANCED)"

definition is_bad_shape :: "geoshape_t \<Rightarrow> bool" where
  "is_bad_shape t = (t \<noteq> LINEAR \<and> t \<noteq> EXPDEC \<and> t \<noteq> CYCLIC \<and> t \<noteq> FIXED)"

text \<open>One option: the new parameters and whether it was accepted.\<close>

definition set_param :: "'d floats \<Rightarrow> char \<Rightarrow> string \<Rightarrow> 'd params \<Rightarrow> 'd params \<times> bool" where
  "set_param F c v P =
     (if c = CHR ''q'' then (P\<lparr>nonLeafProb := d_atof F v\<rparr>, True)
      else if c = CHR ''m'' then (P\<lparr>nonLeafBF := atoi v\<rparr>, True)
      else if c = CHR ''r'' then (P\<lparr>rootId := atoi v\<rparr>, True)
      else if c = CHR ''x'' then (P\<lparr>debug := atoi v\<rparr>, True)
      else if c = CHR ''v'' then (P\<lparr>verbose := atoi v\<rparr>, True)
      else if c = CHR ''t'' then (P\<lparr>tree_type := tree_of_int (atoi v)\<rparr>, \<not> is_bad_tree (tree_of_int (atoi v)))
      else if c = CHR ''a'' then (P\<lparr>shape_fn := shape_of_int (atoi v)\<rparr>, \<not> is_bad_shape (shape_of_int (atoi v)))
      else if c = CHR ''b'' then (P\<lparr>b_0 := d_atof F v\<rparr>, True)
      else if c = CHR ''d'' then (P\<lparr>gen_mx := atoi v\<rparr>, True)
      else if c = CHR ''f'' then (P\<lparr>shiftDepth := d_atof F v\<rparr>, True)
      else if c = CHR ''g'' then (P\<lparr>computeGranularity := max 1 (atoi v)\<rparr>, True)
      else if c = CHR ''p'' then (P\<lparr>payloadSize := max 0 (atoi v)\<rparr>, True)
      else if c = CHR ''s'' then (P\<lparr>max_streams := max 0 (min (max_streams P) (atoi v))\<rparr>, True)
      else (P, False))"

text \<open>\<open>impl\<close> is \<open>impl_parseParam\<close> of the implementation that is linked in: it changes parameters of its own,
  the state \<open>I\<close>, and returns zero when it knows the option.  The result is \<open>Inl\<close> of the exit code or the
  parameters.\<close>

fun uts_parseParams :: "'d floats \<Rightarrow> (string \<Rightarrow> string \<Rightarrow> 'i \<Rightarrow> int \<times> 'i) \<Rightarrow> string list \<Rightarrow> 'd params \<times> 'i \<Rightarrow> int + ('d params \<times> 'i)" where
  "uts_parseParams F impl [] s = Inr s"
| "uts_parseParams F impl [a] s = (if char_at a 0 = CHR ''-'' \<and> char_at a 1 = CHR ''h'' then Inl 0 else Inl 4)"
| "uts_parseParams F impl (a # v # args) (P, I) =
     (if char_at a 0 = CHR ''-'' \<and> char_at a 1 = CHR ''h'' then Inl 0
      else if char_at a 0 \<noteq> CHR ''-'' \<or> length a \<noteq> 2 then Inl 4
      else let (r, I) = impl a v I in
        if r = 0 then uts_parseParams F impl args (P, I)
        else let (P, ok) = set_param F (char_at a 1) v P in
          if ok then uts_parseParams F impl args (P, I) else Inl 4)"

section \<open>The sequential search\<close>

record result =
  maxdepth :: "64 word"
  size_r :: "64 word"
  leaves :: "64 word"

text \<open>The child \<open>i\<close> of a node: its state is spawned \<open>computeGranularity\<close> times, and is undefined when that is
  never.\<close>

definition make_child :: "'s rng \<Rightarrow> 'd params \<Rightarrow> 's node \<Rightarrow> tree_t \<Rightarrow> int \<Rightarrow> 's node option" where
  "make_child R P parent ty i = do {
     st \<leftarrow> for_range 0 (computeGranularity P) (\<lambda>j _. do {
       st \<leftarrow> r_spawn R (node_state parent) (word_of_int i); Some (Some st) }) None;
     st \<leftarrow> st;
     Some \<lparr>node_type = ty, node_height = to_i32 (node_height parent + 1), numChildren = -1, node_state = st\<rparr> }"

definition add_result :: "result \<Rightarrow> result \<Rightarrow> result" where
  "add_result c r = \<lparr>maxdepth = (if maxdepth c > maxdepth r then maxdepth c else maxdepth r),
     size_r = size_r r + size_r c, leaves = leaves r + leaves c\<rparr>"

lemma for_each_mono [partial_function_mono]:
  assumes "\<And>i s. mono_option (\<lambda>f. B f i s)"
  shows "mono_option (\<lambda>f. for_each (B f) is s)"
  by (induction "is" arbitrary: s) (auto intro!: partial_function_mono assms)

lemma for_range_mono [partial_function_mono]:
  assumes "\<And>i s. mono_option (\<lambda>f. B f i s)"
  shows "mono_option (\<lambda>f. for_range lo hi (B f) s)"
  unfolding for_range_def by (rule for_each_mono [OF assms])

partial_function (option) parTreeSearch ::
    "'d floats \<Rightarrow> 's rng \<Rightarrow> 'd params \<Rightarrow> int \<Rightarrow> 's node \<Rightarrow> result option" where
  "parTreeSearch F R P depth parent = do {
     n \<leftarrow> uts_numChildren F R P parent;
     ty \<leftarrow> uts_childType F P parent;
     let r = \<lparr>maxdepth = word_of_int depth, size_r = 1, leaves = 0\<rparr>;
     if n > 0 then
       for_range 0 n (\<lambda>i r. do {
         child \<leftarrow> make_child R P parent ty i;
         d \<leftarrow> i32 (depth + 1);
         c \<leftarrow> parTreeSearch F R P d child;
         Some (add_result c r) }) r
     else Some (r\<lparr>leaves := 1\<rparr>) }"

section \<open>The tree a node generates\<close>

datatype rose = Rose "rose list"

fun rsize :: "rose \<Rightarrow> nat" where
  "rsize (Rose ts) = Suc (\<Sum>t\<leftarrow>ts. rsize t)"

fun rleaves :: "rose \<Rightarrow> nat" where
  "rleaves (Rose ts) = (if ts = [] then 1 else (\<Sum>t\<leftarrow>ts. rleaves t))"

fun rheight :: "rose \<Rightarrow> nat" where
  "rheight (Rose ts) = Max (insert 0 ((\<lambda>t. Suc (rheight t)) ` set ts))"

inductive generates :: "'d floats \<Rightarrow> 's rng \<Rightarrow> 'd params \<Rightarrow> 's node \<Rightarrow> rose \<Rightarrow> bool" for F R P where
  "uts_numChildren F R P x = Some n \<Longrightarrow> uts_childType F P x = Some ty \<Longrightarrow> length ts = nat n \<Longrightarrow>
   (\<forall>i<length ts. \<exists>c. make_child R P x ty (int i) = Some c \<and> generates F R P c (ts ! i)) \<Longrightarrow>
   generates F R P x (Rose ts)"

definition counts :: "int \<Rightarrow> rose \<Rightarrow> result" where
  "counts depth t = \<lparr>maxdepth = word_of_int (depth + int (rheight t)), size_r = of_nat (rsize t), leaves = of_nat (rleaves t)\<rparr>"

lemma word_of_int_less_64: "0 \<le> x \<Longrightarrow> x < 2 ^ 32 \<Longrightarrow> 0 \<le> y \<Longrightarrow> y < 2 ^ 32 \<Longrightarrow> (word_of_int x :: 64 word) < word_of_int y \<longleftrightarrow> x < y"
  by (simp add: word_less_def uint_word_of_int)

text \<open>The counts of a node some of whose children have been searched.\<close>

definition partial_counts :: "int \<Rightarrow> rose list \<Rightarrow> result" where
  "partial_counts depth ts = \<lparr>maxdepth = word_of_int (depth + int (rheight (Rose ts))), size_r = of_nat (rsize (Rose ts)),
     leaves = of_nat (\<Sum>t\<leftarrow>ts. rleaves t)\<rparr>"

lemma rheight_snoc: "rheight (Rose (ts @ [t])) = max (rheight (Rose ts)) (Suc (rheight t))"
  using Max_insert [of "insert 0 ((\<lambda>t. Suc (rheight t)) ` set ts)" "Suc (rheight t)"]
  by (simp add: insert_commute max.commute)

lemma add_counts:
  assumes "0 \<le> depth" "depth + int (rheight (Rose (ts @ [t]))) < 2 ^ 31"
  shows "add_result (counts (depth + 1) t) (partial_counts depth ts) = partial_counts depth (ts @ [t])"
proof -
  define a where "a = rheight (Rose ts)"
  define b where "b = rheight t"
  have m: "rheight (Rose (ts @ [t])) = max a (Suc b)" by (simp add: rheight_snoc a_def b_def del: rheight.simps)
  have w: "((word_of_int (depth + int a) :: 64 word) < word_of_int (depth + 1 + int b)) = (a < Suc b)"
    using assms unfolding m by (subst word_of_int_less_64) auto
  have d: "(if (word_of_int (depth + int a) :: 64 word) < word_of_int (depth + 1 + int b) then word_of_int (depth + 1 + int b)
      else word_of_int (depth + int a)) = (word_of_int (depth + int (max a (Suc b))) :: 64 word)"
    unfolding w by (cases "a < Suc b") (simp_all add: max_def algebra_simps)
  show ?thesis
    unfolding add_result_def counts_def partial_counts_def m a_def [symmetric] b_def [symmetric] result.simps d
    by (simp add: algebra_simps)
qed

lemma rheight_take: "rheight (Rose (take i ts)) \<le> rheight (Rose ts)"
  unfolding rheight.simps by (rule Max_mono) (auto dest: in_set_takeD)

lemma rheight_child: "i < length ts \<Longrightarrow> Suc (rheight (ts ! i)) \<le> rheight (Rose ts)"
  by (auto intro!: Max_ge)

lemma search_generates:
  assumes "generates F R P x t" "0 \<le> depth" "depth + int (rheight t) < 2 ^ 31"
  shows "parTreeSearch F R P depth x = Some (counts depth t)"
  using assms
proof (induction arbitrary: depth rule: generates.induct)
  case (1 x n ty ts)
  show ?case
  proof (cases "n > 0")
    case False
    then have "ts = []" using 1(3) by simp
    then show ?thesis
      using False 1(1,2) by (subst parTreeSearch.simps) (simp add: counts_def)
  next
    case True
    have "returns (for_range 0 n (\<lambda>i r. do {
         child \<leftarrow> make_child R P x ty i;
         d \<leftarrow> i32 (depth + 1);
         c \<leftarrow> parTreeSearch F R P d child;
         Some (add_result c r) }) \<lparr>maxdepth = word_of_int depth, size_r = 1, leaves = 0\<rparr>)
       (\<lambda>r. r = partial_counts depth ts)"
    proof (rule returns_rangeI [where I = "\<lambda>i r. r = partial_counts depth (take (nat i) ts)"])
      fix i r assume i: "0 \<le> i" "i < n" and r: "r = partial_counts depth (take (nat i) ts)"
      have l: "nat i < length ts" using i 1(3) by simp
      then obtain c where c: "make_child R P x ty i = Some c"
        "\<And>depth. 0 \<le> depth \<Longrightarrow> depth + int (rheight (ts ! nat i)) < 2 ^ 31 \<Longrightarrow> parTreeSearch F R P depth c = Some (counts depth (ts ! nat i))"
        using 1(4) i(1) by (metis int_nat_eq)
      have h: "depth + 1 + int (rheight (ts ! nat i)) < 2 ^ 31" "depth + 1 < 2 ^ 31"
        using rheight_child [OF l] 1(6) by linarith+
      have tk: "take (nat (i + 1)) ts = take (nat i) ts @ [ts ! nat i]"
        using i l by (simp add: nat_add_distrib take_Suc_conv_app_nth)
      have "depth + int (rheight (Rose (take (nat i) ts @ [ts ! nat i]))) < 2 ^ 31"
        using rheight_take [of "nat (i + 1)" ts] 1(6) unfolding tk by linarith
      then have "add_result (counts (depth + 1) (ts ! nat i)) r = partial_counts depth (take (nat (i + 1)) ts)"
        unfolding r tk by (intro add_counts 1(5))
      then show "returns (do {
         child \<leftarrow> make_child R P x ty i;
         d \<leftarrow> i32 (depth + 1);
         c \<leftarrow> parTreeSearch F R P d child;
         Some (add_result c r) }) (\<lambda>r. r = partial_counts depth (take (nat (i + 1)) ts))"
        using c h 1(5) by simp
    qed (use True 1(3) in \<open>simp_all add: partial_counts_def\<close>)
    then show ?thesis
      using True 1(1-3) by (subst parTreeSearch.simps) (auto simp: partial_counts_def counts_def elim!: returnsE)
  qed
qed

lemma for_each_steps: "for_each B is s = Some s' \<Longrightarrow> i \<in> set is \<Longrightarrow> \<exists>u v. B i u = Some v"
  by (induction "is" arbitrary: s) (auto split: Option.bind_splits)

lemma for_range_steps: "for_range lo hi B s = Some s' \<Longrightarrow> lo \<le> i \<Longrightarrow> i < hi \<Longrightarrow> \<exists>u v. B i u = Some v"
  unfolding for_range_def by (erule for_each_steps) simp

lemma search_finite:
  assumes "parTreeSearch F R P depth x = Some r" "0 \<le> depth" "depth < 2 ^ 31"
  shows "\<exists>t. generates F R P x t \<and> depth + int (rheight t) < 2 ^ 31"
proof -
  have "0 \<le> depth \<longrightarrow> depth < 2 ^ 31 \<longrightarrow> (\<exists>t. generates F R P x t \<and> depth + int (rheight t) < 2 ^ 31)"
    using assms(1)
  proof (rule parTreeSearch.raw_induct [rotated, where Pa = "\<lambda>((((F, R), P), depth), x) r.
        0 \<le> depth \<longrightarrow> depth < 2 ^ 31 \<longrightarrow> (\<exists>t. generates F R P x t \<and> depth + int (rheight t) < 2 ^ 31)", unfolded split_conv],
      intro impI)
    fix f :: "'a floats \<Rightarrow> 'b rng \<Rightarrow> 'a params \<Rightarrow> int \<Rightarrow> 'b node \<Rightarrow> result option" and F R P depth x r
    assume IH: "\<And>F R P depth x r. f F R P depth x = Some r \<Longrightarrow>
        0 \<le> depth \<longrightarrow> depth < 2 ^ 31 \<longrightarrow> (\<exists>t. generates F R P x t \<and> depth + int (rheight t) < 2 ^ 31)"
      and run: "do {
         n \<leftarrow> uts_numChildren F R P x;
         ty \<leftarrow> uts_childType F P x;
         let r = \<lparr>maxdepth = word_of_int depth, size_r = 1, leaves = 0\<rparr>;
         if n > 0 then
           for_range 0 n (\<lambda>i r. do {
             child \<leftarrow> make_child R P x ty i;
             d \<leftarrow> i32 (depth + 1);
             c \<leftarrow> f F R P d child;
             Some (add_result c r) }) r
         else Some (r\<lparr>leaves := 1\<rparr>) } = Some r"
      and d: "0 \<le> depth" "depth < 2 ^ 31"
    obtain n ty where n: "uts_numChildren F R P x = Some n" "uts_childType F P x = Some ty"
      using run by (auto split: Option.bind_splits)
    have child: "\<exists>t c. make_child R P x ty (int i) = Some c \<and> generates F R P c t \<and> depth + 1 + int (rheight t) < 2 ^ 31"
      if "i < nat n" for i
    proof -
      have "int i < n" "n > 0" using that by simp_all
      then have loop: "for_range 0 n (\<lambda>i r. do {
             child \<leftarrow> make_child R P x ty i;
             d \<leftarrow> i32 (depth + 1);
             c \<leftarrow> f F R P d child;
             Some (add_result c r) }) \<lparr>maxdepth = word_of_int depth, size_r = 1, leaves = 0\<rparr> = Some r"
        using run n by (simp add: Let_def)
      obtain u v where "(do { child \<leftarrow> make_child R P x ty (int i);
             d \<leftarrow> i32 (depth + 1);
             c \<leftarrow> f F R P d child;
             Some (add_result c u) }) = Some v"
        using for_range_steps [OF loop, of "int i"] \<open>int i < n\<close> by auto
      then obtain c d' e where c: "make_child R P x ty (int i) = Some c" "i32 (depth + 1) = Some d'" "f F R P d' c = Some e"
        by (auto split: Option.bind_splits)
      have "d' = depth + 1" "depth + 1 < 2 ^ 31" using c(2) by (auto simp: i32_def split: if_splits)
      then show ?thesis using IH [OF c(3)] c(1) d(1) by auto
    qed
    then obtain g where g: "\<And>i. i < nat n \<Longrightarrow> \<exists>c. make_child R P x ty (int i) = Some c \<and> generates F R P c (g i) \<and>
        depth + 1 + int (rheight (g i)) < 2 ^ 31" by metis
    define ts where "ts = List.map g [0..<nat n]"
    have "generates F R P x (Rose ts)"
      using g by (intro generates.intros [OF n]) (auto simp: ts_def)
    moreover have "depth + int (rheight (Rose ts)) < 2 ^ 31"
    proof -
      have "rheight (Rose ts) = 0 \<or> (\<exists>t \<in> set ts. rheight (Rose ts) = Suc (rheight t))"
        using Max_in [of "insert 0 ((\<lambda>t. Suc (rheight t)) ` set ts)"] by auto
      then show ?thesis using g d(2) by (fastforce simp: ts_def)
    qed
    ultimately show "\<exists>t. generates F R P x t \<and> depth + int (rheight t) < 2 ^ 31" by blast
  qed
  then show ?thesis using assms(2,3) by simp
qed

text \<open>C24: the search returns exactly when the tree of the root is finite and its depth fits an \<open>int\<close>, and it
  returns the depth, the number of nodes and the number of leaves of that tree.\<close>

theorem search_counts_tree:
  "parTreeSearch F R P 0 root = Some r \<longleftrightarrow> (\<exists>t. generates F R P root t \<and> rheight t < 2 ^ 31 \<and>
     r = \<lparr>maxdepth = of_nat (rheight t), size_r = of_nat (rsize t), leaves = of_nat (rleaves t)\<rparr>)"
proof
  assume s: "parTreeSearch F R P 0 root = Some r"
  then obtain t where t: "generates F R P root t" "rheight t < 2 ^ 31"
    using search_finite [of F R P 0 root r] by auto
  moreover have "r = counts 0 t" using search_generates [OF t(1), of 0] t(2) s by simp
  ultimately show "\<exists>t. generates F R P root t \<and> rheight t < 2 ^ 31 \<and>
     r = \<lparr>maxdepth = of_nat (rheight t), size_r = of_nat (rsize t), leaves = of_nat (rleaves t)\<rparr>"
    by (auto simp: counts_def)
qed (auto simp: search_generates counts_def)

section \<open>The interface of the random streams\<close>

locale splittable =
  fixes R :: "'s rng" and valid :: "'s \<Rightarrow> bool"
  assumes init_valid: "\<exists>s. r_init R x = Some s \<and> valid s"
    and spawn_valid: "valid s \<Longrightarrow> \<exists>t. r_spawn R s i = Some t \<and> valid t"
    and rand_range: "valid s \<Longrightarrow> \<exists>n. r_rand R s = Some n \<and> 0 \<le> n \<and> n < 2 ^ 31"
begin

lemma child_made:
  assumes "valid (node_state x)" "1 \<le> computeGranularity P"
  shows "\<exists>st. make_child R P x ty i = Some \<lparr>node_type = ty, node_height = to_i32 (node_height x + 1), numChildren = -1, node_state = st\<rparr> \<and> valid st"
proof -
  obtain t where t: "r_spawn R (node_state x) (word_of_int i) = Some t" "valid t" using spawn_valid [OF assms(1)] by blast
  have "returns (for_range 0 (computeGranularity P) (\<lambda>j _. do {
       st \<leftarrow> r_spawn R (node_state x) (word_of_int i); Some (Some st) }) None)
     (\<lambda>st. st = Some t)"
    by (rule returns_rangeI [where I = "\<lambda>j st. 0 < j \<longrightarrow> st = Some t"]) (use t assms(2) in auto)
  then show ?thesis using t(2) by (auto simp: make_child_def elim!: returnsE)
qed

lemma root_made: "\<exists>st. uts_initRoot R P ty = Some \<lparr>node_type = ty, node_height = 0, numChildren = -1, node_state = st\<rparr> \<and> valid st"
  using init_valid [of "word_of_int (rootId P)"] by (auto simp: uts_initRoot_def)

end

fun complete :: "nat \<Rightarrow> nat \<Rightarrow> rose" where
  "complete b 0 = Rose []"
| "complete b (Suc d) = Rose (replicate b (complete b d))"

lemma complete_size: "rsize (complete b d) = (\<Sum>i\<le>d. b ^ i)"
proof (induction d)
  case (Suc d)
  have "rsize (complete b (Suc d)) = Suc (b * (\<Sum>i\<le>d. b ^ i))" using Suc by (simp add: sum_list_replicate)
  also have "b * (\<Sum>i\<le>d. b ^ i) = (\<Sum>i\<le>d. b ^ Suc i)" by (simp add: sum_distrib_left)
  finally show ?case by (simp only: sum.atMost_Suc_shift) simp
qed simp

lemma complete_leaves: "0 < b \<Longrightarrow> rleaves (complete b d) = b ^ d"
  by (induction d) (simp_all add: sum_list_replicate)

lemma complete_height: "0 < b \<Longrightarrow> rheight (complete b d) = d"
  by (induction d) (simp_all add: image_constant_conv)

context splittable
begin

lemma balanced_generates:
  assumes "tree_type P = BALANCED" "d_to_int F (b_0 P) = Some (int b)" "1 \<le> computeGranularity P"
    "gen_mx P = int (k + d)" "int (k + d) < 2 ^ 31" "node_height x = int k" "node_type x = BALANCED" "valid (node_state x)"
  shows "generates F R P x (complete b d)"
  using assms(4-8)
proof (induction d arbitrary: k x)
  case 0
  have "generates F R P x (Rose [])"
    by (rule generates.intros [where n = 0 and ty = BALANCED])
      (use 0 assms(1) in \<open>auto simp: uts_numChildren_def raw_children_def uts_childType_def\<close>)
  then show ?case by simp
next
  case (Suc d)
  have n: "uts_numChildren F R P x = Some (int b)" "uts_childType F P x = Some BALANCED"
    using Suc.prems assms(1,2) by (auto simp: uts_numChildren_def raw_children_def uts_childType_def)
  have "\<exists>c. make_child R P x BALANCED (int i) = Some c \<and> generates F R P c (complete b d)" for i
  proof -
    obtain st where c: "make_child R P x BALANCED (int i) = Some \<lparr>node_type = BALANCED, node_height = to_i32 (node_height x + 1), numChildren = -1, node_state = st\<rparr>" "valid st"
      using child_made [OF Suc.prems(5) assms(3)] by blast
    have "to_i32 (node_height x + 1) = int (Suc k)" using Suc.prems(2,3) by (simp add: to_i32_def)
    then have "generates F R P \<lparr>node_type = BALANCED, node_height = to_i32 (node_height x + 1), numChildren = -1, node_state = st\<rparr> (complete b d)"
      using Suc.prems c(2) by (intro Suc.IH [of "Suc k"]) simp_all
    then show ?thesis using c(1) by blast
  qed
  then have "generates F R P x (Rose (replicate b (complete b d)))"
    by (intro generates.intros [OF n]) auto
  then show ?case by simp
qed

end

text \<open>SHA-1, compiled with the shift that GCC documents, is such a generator; \<open>blank\<close> stands for the uninitialised context of its functions.\<close>

definition sha_rng :: "bool \<Rightarrow> 8 word list rng" where
  "sha_rng le = \<lparr>r_init = (\<lambda>s. Sha1.rng_init le s blank), r_spawn = (\<lambda>st i. Sha1.rng_spawn le st i blank), r_rand = Sha1.rng_rand wrapped_shift\<rparr>"

lemma blank_buffer [simp]: "length (wbuf blank) = 16"
  by (simp add: blank_def)

interpretation sha: splittable "sha_rng le" "\<lambda>st. length st = 20" for le
  by unfold_locales (simp_all add: sha_rng_def rng_init_digest rng_spawn_digest rng_rand_value)

text \<open>C23: the search of a balanced tree with branching factor \<open>b\<close> and depth \<open>d\<close> ends and counts the nodes and
  leaves of the complete tree: the geometric series and \<open>b^d\<close> (modulo \<open>2^64\<close>).  The branching factor is \<open>b_0\<close> cut to an
  integer; for an integer above 1 these are the numbers that the banner of the benchmark announces (its closed form divides by
  \<open>b_0 - 1\<close> and does not cut).\<close>

theorem balanced_search_counts:
  assumes "tree_type P = BALANCED" "d_to_int F (b_0 P) = Some (int b)" "0 < b" "gen_mx P = int d" "d < 2 ^ 31"
    and "1 \<le> computeGranularity P"
  shows "\<exists>root. uts_initRoot (sha_rng le) P BALANCED = Some root \<and>
    parTreeSearch F (sha_rng le) P 0 root =
      Some \<lparr>maxdepth = of_nat d, size_r = of_nat (\<Sum>i\<le>d. b ^ i), leaves = of_nat (b ^ d)\<rparr>"
proof -
  obtain st where root: "uts_initRoot (sha_rng le) P BALANCED = Some \<lparr>node_type = BALANCED, node_height = 0, numChildren = -1, node_state = st\<rparr>"
    "length st = 20" using sha.root_made by blast
  have "generates F (sha_rng le) P \<lparr>node_type = BALANCED, node_height = 0, numChildren = -1, node_state = st\<rparr> (complete b d)"
    by (rule sha.balanced_generates [where k = 0]) (use assms root(2) in simp_all)
  from search_generates [OF this, of 0] assms(3,5) root(1) show ?thesis
    by (simp add: counts_def complete_size complete_leaves complete_height)
qed

definition int_floats :: "int floats" where
  "int_floats = \<lparr>d_int = id, d_add = (+), d_sub = (-), d_mul = (*), d_div = (div), d_less = (<), d_neg = uminus,
     d_pow = (\<lambda>a b. a ^ nat b), d_log = id, d_sin = id, d_floor = id, d_ceil = id, d_pi = 3, d_to_int = Some, d_to_ll = Some, d_atof = atoi,
     int_ovf = (\<lambda>_. None)\<rparr>"

definition default_params :: "int params" where
  "default_params = \<lparr>tree_type = GEO, b_0 = 4, rootId = 0, nonLeafBF = 4, nonLeafProb = 0, gen_mx = 6, shape_fn = LINEAR,
     shiftDepth = 0, computeGranularity = 1, payloadSize = 0, debug = 0, verbose = 1, max_streams = 127\<rparr>"

theorem balanced_search_counts_witness:
  "\<exists>root. uts_initRoot (sha_rng True) (default_params\<lparr>tree_type := BALANCED, b_0 := 3, gen_mx := 2\<rparr>) BALANCED = Some root \<and>
    parTreeSearch int_floats (sha_rng True) (default_params\<lparr>tree_type := BALANCED, b_0 := 3, gen_mx := 2\<rparr>) 0 root =
      Some \<lparr>maxdepth = of_nat 2, size_r = of_nat (\<Sum>i\<le>2. 3 ^ i), leaves = of_nat (3 ^ 2)\<rparr>"
  by (rule balanced_search_counts) (simp_all add: default_params_def int_floats_def)

section \<open>Bounds and the command line\<close>

definition params_ok :: "'d params \<Rightarrow> bool" where
  "params_ok P \<longleftrightarrow> \<not> is_bad_tree (tree_type P) \<and> \<not> is_bad_shape (shape_fn P) \<and> 1 \<le> computeGranularity P \<and> 0 \<le> payloadSize P \<and>
     0 \<le> max_streams P \<and> max_streams P \<le> 127"

lemma set_param_ok: "params_ok P \<Longrightarrow> set_param F c v P = (Q, True) \<Longrightarrow> params_ok Q"
  by (auto simp: set_param_def params_ok_def split: if_splits)

lemma parse_ok: "params_ok P \<Longrightarrow> uts_parseParams F impl args (P, I) = Inr (Q, J) \<Longrightarrow> params_ok Q"
proof (induction F impl args "(P, I)" arbitrary: P I rule: uts_parseParams.induct)
  case (3 F impl a v args P I)
  from 3(3) show ?case
    using 3(1,2,4) by (auto simp: Let_def split: if_splits prod.splits dest: set_param_ok)
qed (auto split: if_splits)

lemma parse_exit: "uts_parseParams F impl args s = Inl e \<Longrightarrow> e = 0 \<or> e = 4"
proof (induction F impl args s rule: uts_parseParams.induct)
  case (3 F impl a v args P I)
  from 3(3) show ?case
    using 3(1,2) by (auto simp: Let_def split: if_splits prod.splits)
qed (auto split: if_splits)

lemma childType_ok: "params_ok P \<Longrightarrow> \<exists>ty. uts_childType F P x = Some ty \<and> \<not> is_bad_tree ty"
  by (cases "tree_type P") (auto simp: params_ok_def uts_childType_def is_bad_tree_def)

text \<open>C37: whatever the arguments are, the command line either ends the program with code 0 or 4, or leaves
  parameters the search can run with: a known tree type and shape, at least one spawn per child, streams in
  range; so the error branch of \<open>uts_childType\<close> cannot be reached.\<close>

theorem parsed_params_usable:
  assumes "params_ok P"
  shows "case uts_parseParams F impl args (P, I) of
      Inl e \<Rightarrow> e = 0 \<or> e = 4
    | Inr (Q, J) \<Rightarrow> params_ok Q \<and> (\<forall>x :: 's node. \<exists>ty. uts_childType F Q x = Some ty \<and> \<not> is_bad_tree ty)"
proof (cases "uts_parseParams F impl args (P, I)")
  case (Inl e)
  then show ?thesis using parse_exit by simp
next
  case (Inr QJ)
  obtain Q J where QJ: "QJ = (Q, J)" by (cases QJ)
  then have "params_ok Q" using parse_ok [OF assms] Inr by simp
  then have "\<exists>ty. uts_childType F Q x = Some ty \<and> \<not> is_bad_tree ty" for x :: "'s node"
    by (rule childType_ok)
  then show ?thesis using Inr QJ \<open>params_ok Q\<close> by simp
qed

theorem parsed_params_usable_witness:
  "case uts_parseParams int_floats (\<lambda>p v i. (1, i)) [''-t'', ''3'', ''-b'', ''2'', ''-g'', ''0''] (default_params, ()) of
      Inl e \<Rightarrow> e = 0 \<or> e = 4
    | Inr (Q, J) \<Rightarrow> params_ok Q \<and> (\<forall>x :: unit node. \<exists>ty. uts_childType int_floats Q x = Some ty \<and> \<not> is_bad_tree ty)"
  by (rule parsed_params_usable) (simp add: params_ok_def default_params_def is_bad_tree_def is_bad_shape_def)

lemma parse_example: "uts_parseParams int_floats (\<lambda>p v i. (1, i)) [''-t'', ''3'', ''-b'', ''2'', ''-g'', ''0''] (default_params, ()) =
  Inr (default_params\<lparr>tree_type := BALANCED, b_0 := 2\<rparr>, ())"
  by code_simp

end
