(* ===== verification/Uts_Shm.thy ===== *)
theory Uts_Shm
  imports Uts_Tree
begin

text \<open>
  The parallel search with work stealing, \<open>uts/uts_shm.c\<close>, in its build with POSIX threads (no tracing, no tree
  metric): the steal stack of every thread, the cancellable barrier and the search.  A thread is a program
  counter; one step of a thread runs up to and including its next access to shared data.  What the code does
  between \<open>SET_LOCK\<close> and \<open>UNSET_LOCK\<close> is one step; a read or write outside a lock is a step of its own, in
  particular the copy of stolen nodes, one node at a time.  A run is any interleaving of the steps.
  \<open>ss_error\<close> ends the program: the step is \<open>Inl\<close> of its message.  A statistic or an index of type \<open>int\<close> that would leave its
  range is undefined behaviour, the step is \<open>Inl int_overflow\<close>; where the condition before an addition keeps the sum in
  range it is not checked again.  Clocks, debug output and the state of the tracer are left out.
\<close>

section \<open>The steal stack\<close>

record 's sstack =
  stackSize :: int
  workAvail :: int
  sharedStart :: int
  localStart :: int
  stackTop :: int
  maxStackDepth :: int
  nNodes :: int
  maxTreeDepth :: int
  nLeaves :: int
  nAcquire :: int
  nRelease :: int
  nSteal :: int
  nFail :: int
  wakeups :: int
  falseWakeups :: int
  nNodes_last :: int
  stack :: "'s node list"

definition ss_mkEmpty :: "'s sstack \<Rightarrow> 's sstack" where
  "ss_mkEmpty s = s\<lparr>sharedStart := 0, localStart := 0, stackTop := 0, workAvail := 0\<rparr>"

text \<open>\<open>block\<close> is the memory \<open>ALLOC\<close> returned, \<open>None\<close> for a null pointer.\<close>

definition ss_init :: "'s node list option \<Rightarrow> int \<Rightarrow> 's sstack \<Rightarrow> string + 's sstack" where
  "ss_init block nelts s =
     (case block of
        None \<Rightarrow> Inl ''ss_init: unable to allocate space for stealstack''
      | Some b \<Rightarrow> Inr (ss_mkEmpty (s\<lparr>stack := b, stackSize := nelts, nNodes := 0, maxStackDepth := 0, maxTreeDepth := 0,
          nLeaves := 0, nAcquire := 0, nRelease := 0, nSteal := 0, nFail := 0, wakeups := 0, falseWakeups := 0,
          nNodes_last := 0\<rparr>)))"

definition bad_access :: string where
  "bad_access = ''access outside the stack''"

definition int_overflow :: string where
  "int_overflow = ''int overflow''"

definition plus32 :: "int \<Rightarrow> int \<Rightarrow> string + int" where
  "plus32 x y = (case i32 (x + y) of None \<Rightarrow> Inl int_overflow | Some z \<Rightarrow> Inr z)"

definition ss_push :: "'s sstack \<Rightarrow> 's node \<Rightarrow> string + 's sstack" where
  "ss_push s c =
     (if stackTop s \<ge> stackSize s then Inl ''ss_push: overflow''
      else case aset (stack s) (stackTop s) c of
          None \<Rightarrow> Inl bad_access
        | Some m \<Rightarrow> (case plus32 (nNodes s) 1 of
              Inl e \<Rightarrow> Inl e
            | Inr n \<Rightarrow> Inr (s\<lparr>stack := m, stackTop := stackTop s + 1, nNodes := n,
                maxStackDepth := max (stackTop s + 1) (maxStackDepth s), maxTreeDepth := max (maxTreeDepth s) (node_height c)\<rparr>)))"

definition ss_top :: "'s sstack \<Rightarrow> string + int" where
  "ss_top s = (if stackTop s \<le> localStart s then Inl ''ss_top: empty local stack'' else Inr (stackTop s - 1))"

definition ss_pop :: "'s sstack \<Rightarrow> string + 's sstack" where
  "ss_pop s = (if stackTop s \<le> localStart s then Inl ''ss_pop: empty local stack'' else Inr (s\<lparr>stackTop := stackTop s - 1\<rparr>))"

definition ss_topPosn :: "'s sstack \<Rightarrow> string + int" where
  "ss_topPosn s = (if stackTop s \<le> localStart s then Inl ''ss_topPosn: empty local stack'' else Inr (stackTop s - 1))"

definition ss_localDepth :: "'s sstack \<Rightarrow> int" where
  "ss_localDepth s = stackTop s - localStart s"

definition ss_release :: "'s sstack \<Rightarrow> int \<Rightarrow> string + 's sstack" where
  "ss_release s k =
     (if stackTop s - localStart s \<ge> k
      then (case (plus32 (workAvail s) k, plus32 (nRelease s) 1) of
          (Inr w, Inr n) \<Rightarrow> Inr (s\<lparr>localStart := localStart s + k, workAvail := w, nRelease := n\<rparr>)
        | _ \<Rightarrow> Inl int_overflow)
      else Inl ''ss_release:  do not have k vals to release'')"

definition ss_acquire :: "'s sstack \<Rightarrow> int \<Rightarrow> string + (bool \<times> 's sstack)" where
  "ss_acquire s k =
     (let avail = localStart s - sharedStart s in
      if avail \<ge> k
      then (case plus32 (nAcquire s) 1 of
          Inl e \<Rightarrow> Inl e
        | Inr n \<Rightarrow> Inr (True, s\<lparr>localStart := localStart s - k, workAvail := workAvail s - k, nAcquire := n\<rparr>))
      else Inr (False, s))"

text \<open>\<open>ss_steal\<close> up to the release of the victim's lock: the thief's and the victim's stack afterwards, and the
  first of the \<open>k\<close> reserved nodes, if any.  The thief is another thread than the victim.\<close>

definition steal_reserve :: "'s sstack \<Rightarrow> 's sstack \<Rightarrow> int \<Rightarrow> string + ('s sstack \<times> 's sstack \<times> int option)" where
  "steal_reserve s v k =
     (if sharedStart s \<noteq> stackTop s then Inl ''ss_steal: thief attempts to steal onto non-empty stack''
      else if i32 (stackTop s + k) = None then Inl int_overflow
      else if stackTop s + k \<ge> stackSize s then Inl ''ss_steal: steal will overflow thief stack''
      else let victimLocal = localStart v; victimShared = sharedStart v; victimWorkAvail = workAvail v in
        if victimLocal - victimShared \<noteq> victimWorkAvail then Inl ''ss_steal: stealStack invariant violated''
        else if victimWorkAvail \<ge> k
          then Inr (s, v\<lparr>sharedStart := victimShared + k, workAvail := victimWorkAvail - k\<rparr>, Some victimShared)
        else (case plus32 (nFail s) 1 of Inl e \<Rightarrow> Inl e | Inr n \<Rightarrow> Inr (s\<lparr>nFail := n\<rparr>, v, None)))"

text \<open>The copy of the node \<open>j\<close> of the reserved ones, and what follows the copy.\<close>

definition steal_copy :: "'s sstack \<Rightarrow> 's sstack \<Rightarrow> int \<Rightarrow> int \<Rightarrow> string + 's sstack" where
  "steal_copy s v src j =
     (case aget (stack v) (src + j) of
        None \<Rightarrow> Inl bad_access
      | Some x \<Rightarrow> (case aset (stack s) (stackTop s + j) x of
            None \<Rightarrow> Inl bad_access
          | Some m \<Rightarrow> Inr (s\<lparr>stack := m\<rparr>)))"

definition steal_done :: "'s sstack \<Rightarrow> int \<Rightarrow> string + 's sstack" where
  "steal_done s k =
     (case (plus32 (nSteal s) 1, plus32 (stackTop s) k) of
        (Inr n, Inr d) \<Rightarrow> Inr (s\<lparr>nSteal := n, stackTop := d\<rparr>)
      | _ \<Rightarrow> Inl int_overflow)"

section \<open>The threads\<close>

text \<open>Where a thread is: at the head of the search loops; before the child \<open>i\<close> of the \<open>n\<close> children of the node
  in slot \<open>p\<close> and behind its push; before \<open>releaseNodes\<close> at the end of the loop; before \<open>cbarrier_cancel\<close>;
  in \<open>findwork\<close> at its \<open>i\<close>-th thread; before \<open>ss_steal\<close> and in its copy; before \<open>cbarrier_wait\<close>, in its
  spin loop, before and behind its second critical section; or at the end.\<close>

datatype pc =
    Loop
  | Gen int tree_t int int
  | Pushed int tree_t int int
  | Release
  | Cancel pc
  | Find int
  | Steal nat
  | Copy nat int int
  | Barrier
  | Spin
  | Leave
  | Left_barrier
  | Finished

record 's system =
  stealStack :: "nat \<Rightarrow> 's sstack"
  pcs :: "nat \<Rightarrow> pc"
  cb_count :: int
  cb_cancel :: int
  cb_done :: int

record setting =
  num_threads :: nat
  chunkSize :: int
  doSteal :: int
  cbint :: int

definition cb_init :: "'s system \<Rightarrow> 's system" where
  "cb_init S = S\<lparr>cb_count := 0, cb_cancel := 0, cb_done := 0\<rparr>"

definition put_thread :: "nat \<Rightarrow> 's sstack \<Rightarrow> pc \<Rightarrow> 's system \<Rightarrow> 's system" where
  "put_thread t s c S = S\<lparr>stealStack := (stealStack S)(t := s), pcs := (pcs S)(t := c)\<rparr>"

definition goto :: "nat \<Rightarrow> pc \<Rightarrow> 's system \<Rightarrow> 's system" where
  "goto t c S = S\<lparr>pcs := (pcs S)(t := c)\<rparr>"

text \<open>\<open>releaseNodes\<close>, then the continuation \<open>c\<close>.\<close>

definition releaseNodes :: "setting \<Rightarrow> nat \<Rightarrow> pc \<Rightarrow> 's system \<Rightarrow> string + 's system" where
  "releaseNodes C t c S =
     (let s = stealStack S t in
      if doSteal C \<noteq> 0 then
        (case i32 (2 * chunkSize C) of
           None \<Rightarrow> Inl int_overflow
         | Some d \<Rightarrow>
             if ss_localDepth s > d then
               (case ss_release s (chunkSize C) of
                  Inl e \<Rightarrow> Inl e
                | Inr s \<Rightarrow> if cbint C = 0 then Inl ''undefined''
                    else Inr (put_thread t s (if c_rem (nNodes s) (cbint C) = 0 then Cancel c else c) S))
             else Inr (goto t c S))
      else Inr (goto t c S))"

definition cbarrier_cancel :: "nat \<Rightarrow> pc \<Rightarrow> 's system \<Rightarrow> 's system" where
  "cbarrier_cancel t c S = goto t c (S\<lparr>cb_cancel := 1\<rparr>)"

text \<open>\<open>genChildren\<close>: its beginning, and the round of its loop that pushes the child \<open>i\<close>.\<close>

definition gen_start :: "'d floats \<Rightarrow> 's rng \<Rightarrow> 'd params \<Rightarrow> nat \<Rightarrow> int \<Rightarrow> 's node \<Rightarrow> 's system \<Rightarrow> string + 's system" where
  "gen_start F R P t p parent S =
     (let s = stealStack S t in
      case (uts_numChildren F R P parent, uts_childType F P parent, aset (stack s) p parent) of
        (Some n, Some ty, Some _) \<Rightarrow>
          (let s = s\<lparr>stack := (stack s)[nat p := parent\<lparr>numChildren := n\<rparr>]\<rparr> in
           if n > 0 then Inr (put_thread t s (Gen p ty n 0) S)
           else (case plus32 (nLeaves s) 1 of
               Inl e \<Rightarrow> Inl e
             | Inr l \<Rightarrow> Inr (put_thread t (s\<lparr>nLeaves := l\<rparr>) Release S)))
      | _ \<Rightarrow> Inl ''undefined'')"

definition gen_child :: "'s rng \<Rightarrow> 'd params \<Rightarrow> nat \<Rightarrow> int \<Rightarrow> tree_t \<Rightarrow> int \<Rightarrow> int \<Rightarrow> 's system \<Rightarrow> string + 's system" where
  "gen_child R P t p ty n i S =
     (let s = stealStack S t in
      case aget (stack s) p of
        None \<Rightarrow> Inl bad_access
      | Some parent \<Rightarrow>
          (case (i32 (node_height parent + 1), make_child R P parent ty i) of
             (Some h, Some child) \<Rightarrow>
               (case ss_push s (child\<lparr>node_height := h\<rparr>) of
                  Inl e \<Rightarrow> Inl e
                | Inr s \<Rightarrow> Inr (put_thread t s (Pushed p ty n i) S))
           | _ \<Rightarrow> Inl ''undefined''))"

text \<open>The head of the loops of \<open>parTreeSearch\<close>.\<close>

definition search_loop :: "'d floats \<Rightarrow> 's rng \<Rightarrow> 'd params \<Rightarrow> setting \<Rightarrow> nat \<Rightarrow> 's system \<Rightarrow> string + 's system" where
  "search_loop F R P C t S =
     (let s = stealStack S t in
      if ss_localDepth s > 0 then
        (case ss_top s of
           Inl e \<Rightarrow> Inl e
         | Inr p \<Rightarrow> (case aget (stack s) p of
               None \<Rightarrow> Inl bad_access
             | Some parent \<Rightarrow>
                 if numChildren parent < 0 then gen_start F R P t p parent S
                 else (case ss_pop s of Inl e \<Rightarrow> Inl e | Inr s \<Rightarrow> Inr (put_thread t s Release S))))
      else
        (case ss_acquire s (chunkSize C) of
           Inl e \<Rightarrow> Inl e
         | Inr (ok, s) \<Rightarrow> Inr (put_thread t s (if ok then Loop else if doSteal C \<noteq> 0 then Find 1 else Barrier) S)))"

definition findwork :: "setting \<Rightarrow> nat \<Rightarrow> int \<Rightarrow> 's system \<Rightarrow> 's system" where
  "findwork C t i S =
     (if i < int (num_threads C) then
        (let v = (t + nat i) mod num_threads C in
         goto t (if workAvail (stealStack S v) \<ge> chunkSize C then Steal v else Find (i + 1)) S)
      else goto t Barrier S)"

definition ss_steal :: "setting \<Rightarrow> nat \<Rightarrow> nat \<Rightarrow> 's system \<Rightarrow> string + 's system" where
  "ss_steal C t v S =
     (case steal_reserve (stealStack S t) (stealStack S v) (chunkSize C) of
        Inl e \<Rightarrow> Inl e
      | Inr (s, vs, r) \<Rightarrow>
          (let S = S\<lparr>stealStack := (stealStack S)(v := vs)\<rparr> in
           Inr (put_thread t s (case r of Some src \<Rightarrow> Copy v src 0 | None \<Rightarrow> Find 1) S)))"

definition ss_steal_copy :: "setting \<Rightarrow> nat \<Rightarrow> nat \<Rightarrow> int \<Rightarrow> int \<Rightarrow> 's system \<Rightarrow> string + 's system" where
  "ss_steal_copy C t v src j S =
     (if j < chunkSize C then
        (case steal_copy (stealStack S t) (stealStack S v) src j of
           Inl e \<Rightarrow> Inl e
         | Inr s \<Rightarrow> Inr (put_thread t s (Copy v src (j + 1)) S))
      else (case steal_done (stealStack S t) (chunkSize C) of
          Inl e \<Rightarrow> Inl e
        | Inr s \<Rightarrow> Inr (put_thread t s Loop S)))"

text \<open>\<open>cbarrier_wait\<close>: its first critical section, the spin loop, the second critical section, the result.\<close>

definition cb_enter :: "setting \<Rightarrow> nat \<Rightarrow> 's system \<Rightarrow> string + 's system" where
  "cb_enter C t S =
     (let S = S\<lparr>cb_count := cb_count S + 1\<rparr>;
          S = (if cb_count S = int (num_threads C) then S\<lparr>cb_done := 1\<rparr> else S);
          s = stealStack S t
      in case (if nNodes_last s = nNodes s then plus32 (falseWakeups s) 1 else Inr (falseWakeups s)) of
           Inl e \<Rightarrow> Inl e
         | Inr n \<Rightarrow> Inr (put_thread t (s\<lparr>falseWakeups := n, nNodes_last := nNodes s\<rparr>) Spin S))"

definition cb_spin :: "nat \<Rightarrow> 's system \<Rightarrow> 's system" where
  "cb_spin t S = (if cb_cancel S = 0 \<and> cb_done S = 0 then S else goto t Leave S)"

definition cb_leave :: "nat \<Rightarrow> 's system \<Rightarrow> string + 's system" where
  "cb_leave t S =
     (let S = S\<lparr>cb_count := cb_count S - 1, cb_cancel := 0\<rparr>;
          s = stealStack S t
      in case plus32 (wakeups s) 1 of
           Inl e \<Rightarrow> Inl e
         | Inr n \<Rightarrow> Inr (put_thread t (s\<lparr>wakeups := n\<rparr>) Left_barrier S))"

definition cb_return :: "nat \<Rightarrow> 's system \<Rightarrow> 's system" where
  "cb_return t S = goto t (if cb_done S = 0 then Loop else Finished) S"

text \<open>The options of this implementation: zero when the option is known and its value allowed.\<close>

definition MAX_THREADS :: int where
  "MAX_THREADS = 128"

definition impl_parseParam :: "string \<Rightarrow> string \<Rightarrow> setting \<Rightarrow> int \<times> setting" where
  "impl_parseParam param v C =
     (let c = char_at param 1 in
      if c = CHR ''c'' then (0, C\<lparr>chunkSize := atoi v\<rparr>)
      else if c = CHR ''s'' then (if atoi v \<noteq> 1 \<and> atoi v \<noteq> 0 then 1 else 0, C\<lparr>doSteal := atoi v\<rparr>)
      else if c = CHR ''i'' then (0, C\<lparr>cbint := atoi v\<rparr>)
      else if c = CHR ''T'' then (0, C\<lparr>num_threads := nat (if atoi v > MAX_THREADS then MAX_THREADS else atoi v)\<rparr>)
      else (1, C))"

text \<open>One step of the thread \<open>t\<close>; \<open>None\<close> when it has finished.\<close>

definition thread_step :: "'d floats \<Rightarrow> 's rng \<Rightarrow> 'd params \<Rightarrow> setting \<Rightarrow> nat \<Rightarrow> 's system \<Rightarrow> (string + 's system) option" where
  "thread_step F R P C t S =
     (case pcs S t of
        Loop \<Rightarrow> Some (search_loop F R P C t S)
      | Gen p ty n i \<Rightarrow> Some (gen_child R P t p ty n i S)
      | Pushed p ty n i \<Rightarrow> Some (releaseNodes C t (if i + 1 < n then Gen p ty n (i + 1) else Release) S)
      | Release \<Rightarrow> Some (releaseNodes C t Loop S)
      | Cancel c \<Rightarrow> Some (Inr (cbarrier_cancel t c S))
      | Find i \<Rightarrow> Some (Inr (findwork C t i S))
      | Steal v \<Rightarrow> Some (ss_steal C t v S)
      | Copy v src j \<Rightarrow> Some (ss_steal_copy C t v src j S)
      | Barrier \<Rightarrow> Some (cb_enter C t S)
      | Spin \<Rightarrow> Some (Inr (cb_spin t S))
      | Leave \<Rightarrow> Some (cb_leave t S)
      | Left_barrier \<Rightarrow> Some (Inr (cb_return t S))
      | Finished \<Rightarrow> None)"

section \<open>The program\<close>

definition MAXSTACKDEPTH :: int where
  "MAXSTACKDEPTH = 500000"

text \<open>The start of \<open>pthread_main\<close>: \<open>mem t\<close> is the memory the stack of thread \<open>t\<close> gets; every thread then runs
  \<open>parTreeSearch\<close>.\<close>

primrec init_stacks :: "int \<Rightarrow> (nat \<Rightarrow> 's node list option) \<Rightarrow> nat \<Rightarrow> (nat \<Rightarrow> 's sstack) \<Rightarrow> string + (nat \<Rightarrow> 's sstack)" where
  "init_stacks nelts mem 0 st = Inr st"
| "init_stacks nelts mem (Suc t) st =
     (case init_stacks nelts mem t st of
        Inl e \<Rightarrow> Inl e
      | Inr st \<Rightarrow> (case ss_init (mem t) nelts (st t) of Inl e \<Rightarrow> Inl e | Inr s \<Rightarrow> Inr (st(t := s))))"

definition pthread_main :: "setting \<Rightarrow> int \<Rightarrow> (nat \<Rightarrow> 's node list option) \<Rightarrow> 's node \<Rightarrow> 's system \<Rightarrow> string + 's system" where
  "pthread_main C nelts mem root S =
     (let S = cb_init S in
      case init_stacks nelts mem (num_threads C) (stealStack S) of
        Inl e \<Rightarrow> Inl e
      | Inr st \<Rightarrow> (case ss_push (st 0) root of
            Inl e \<Rightarrow> Inl e
          | Inr s \<Rightarrow> Inr (S\<lparr>stealStack := st(0 := s), pcs := (\<lambda>_. Loop)\<rparr>)))"

text \<open>\<open>showStats\<close>: the totals over all threads, and whether it finds an error in them; \<open>None\<close> when a total leaves the
  range of \<open>int\<close>.\<close>

record totals =
  tnodes :: int
  tleaves :: int
  trel :: int
  tacq :: int
  tsteal :: int
  tfail :: int
  mdepth :: int
  mheight :: int

definition add_stats :: "'s sstack \<Rightarrow> totals \<Rightarrow> totals option" where
  "add_stats s a = do {
     n \<leftarrow> i32 (tnodes a + nNodes s);
     l \<leftarrow> i32 (tleaves a + nLeaves s);
     rel \<leftarrow> i32 (trel a + nRelease s);
     acq \<leftarrow> i32 (tacq a + nAcquire s);
     st \<leftarrow> i32 (tsteal a + nSteal s);
     fl \<leftarrow> i32 (tfail a + nFail s);
     Some (a\<lparr>tnodes := n, tleaves := l, trel := rel, tacq := acq, tsteal := st, tfail := fl,
       mdepth := max (mdepth a) (maxStackDepth s), mheight := max (mheight a) (maxTreeDepth s)\<rparr>) }"

definition showStats :: "setting \<Rightarrow> 's system \<Rightarrow> (totals \<times> bool) option" where
  "showStats C S = do {
     a \<leftarrow> for_each (\<lambda>i. add_stats (stealStack S i)) [0..<num_threads C]
        \<lparr>tnodes = 0, tleaves = 0, trel = 0, tacq = 0, tsteal = 0, tfail = 0, mdepth = 0, mheight = 0\<rparr>;
     t \<leftarrow> i32 (tacq a + tsteal a);
     Some (a, trel a \<noteq> t) }"

inductive reachable :: "'d floats \<Rightarrow> 's rng \<Rightarrow> 'd params \<Rightarrow> setting \<Rightarrow> 's system \<Rightarrow> 's system \<Rightarrow> bool" for F R P C S0 where
  start: "reachable F R P C S0 S0"
| step: "reachable F R P C S0 S \<Longrightarrow> t < num_threads C \<Longrightarrow> thread_step F R P C t S = Some (Inr S') \<Longrightarrow> reachable F R P C S0 S'"

text \<open>The run of a schedule, the list of the threads that make the next steps; a finished thread makes none.\<close>

primrec run :: "'d floats \<Rightarrow> 's rng \<Rightarrow> 'd params \<Rightarrow> setting \<Rightarrow> nat list \<Rightarrow> 's system \<Rightarrow> string + 's system" where
  "run F R P C [] S = Inr S"
| "run F R P C (t # ts) S =
     (case thread_step F R P C t S of
        None \<Rightarrow> run F R P C ts S
      | Some (Inl e) \<Rightarrow> Inl e
      | Some (Inr S') \<Rightarrow> run F R P C ts S')"

end
