(* ===== verification/Uts_Shm_Safe.thy ===== *)
theory Uts_Shm_Safe
  imports Uts_Shm
begin

text \<open>
  Invariants of the parallel search, for every interleaving of the threads' steps.  The locale \<open>accounting\<close>
  follows one measure of the work through the machine: what a node contributes when it is pushed and when it
  turns out to be a leaf, what a node that has not been expanded still owes, and the balance of the chunks
  that move between the two halves of a stack.  Its interpretations count nodes, leaves and chunks.
\<close>

section \<open>The work below a node\<close>

definition kid :: "'s rng \<Rightarrow> 'd params \<Rightarrow> 's node \<Rightarrow> tree_t \<Rightarrow> int \<Rightarrow> 's node" where
  "kid R P x ty j = (the (make_child R P x ty j))\<lparr>node_height := node_height x + 1\<rparr>"

text \<open>The tree below a node, with the conditions under which the machine expands it: the number of children is
  not negative and the heights fit an \<open>int\<close>.\<close>

inductive grows :: "'d floats \<Rightarrow> 's rng \<Rightarrow> 'd params \<Rightarrow> 's node \<Rightarrow> rose \<Rightarrow> bool" for F R P where
  "uts_numChildren F R P x = Some (int (length ts)) \<Longrightarrow> uts_childType F P x = Some ty \<Longrightarrow>
   0 \<le> node_height x \<Longrightarrow> node_height x + 1 < 2 ^ 31 \<Longrightarrow>
   (\<forall>i<length ts. make_child R P x ty (int i) \<noteq> None \<and> grows F R P (kid R P x ty (int i)) (ts ! i)) \<Longrightarrow>
   grows F R P x (Rose ts)"

lemma kid_unvisited: "make_child R P x ty j \<noteq> None \<Longrightarrow> numChildren (kid R P x ty j) = -1"
  by (auto simp: kid_def make_child_def bind_eq_Some_conv)

lemma make_child_marked [simp]: "make_child R P (x\<lparr>numChildren := n\<rparr>) ty j = make_child R P x ty j"
  by (simp add: make_child_def)

lemma kid_marked [simp]: "kid R P (x\<lparr>numChildren := n\<rparr>) ty j = kid R P x ty j"
  by (simp add: kid_def)

lemma kid_made:
  "make_child R P x ty j \<noteq> None \<Longrightarrow> node_height x + 1 < 2 ^ 31 \<Longrightarrow> 0 \<le> node_height x \<Longrightarrow> make_child R P x ty j = Some (kid R P x ty j)"
  by (auto simp: kid_def make_child_def bind_eq_Some_conv to_i32_def)

lemma grows_generates: "grows F R P x t \<Longrightarrow> generates F R P x t"
proof (induction rule: grows.induct)
  case (1 x ts ty)
  then show ?case by (intro generates.intros [OF 1(1,2)]) (auto simp: kid_made)
qed

lemma grows_height: "grows F R P x t \<Longrightarrow> 0 \<le> node_height x \<and> node_height x + int (rheight t) < 2 ^ 31"
proof (induction rule: grows.induct)
  case (1 x ts ty)
  have "node_height x + int n < 2 ^ 31" if "n \<in> insert 0 ((\<lambda>t. Suc (rheight t)) ` set ts)" for n
    using that 1(4,5) by (auto simp: in_set_conv_nth kid_def)
  moreover have "rheight (Rose ts) \<in> insert 0 ((\<lambda>t. Suc (rheight t)) ` set ts)"
    unfolding rheight.simps by (rule Max_in) auto
  ultimately show ?case using 1(3) by blast
qed

lemma grows_unique: "grows F R P x t \<Longrightarrow> grows F R P x u \<Longrightarrow> t = u"
proof (induction arbitrary: u rule: grows.induct)
  case (1 x ts ty)
  from 1(6) obtain us where us: "u = Rose us" "length us = length ts"
      "\<forall>i<length us. grows F R P (kid R P x ty (int i)) (us ! i)"
    using 1(1,2) by cases auto
  then show ?case using 1(5) by (auto intro!: nth_equalityI)
qed

definition tree_of :: "'d floats \<Rightarrow> 's rng \<Rightarrow> 'd params \<Rightarrow> 's node \<Rightarrow> rose" where
  "tree_of F R P x = (THE t. grows F R P x t)"

lemma tree_of_grows: "grows F R P x t \<Longrightarrow> tree_of F R P x = t"
  unfolding tree_of_def by (blast intro: the_equality grows_unique)

lemma sum_last: "(lo::int) \<le> hi \<Longrightarrow> (\<Sum>i\<in>{lo..<hi + 1}. f i) = (\<Sum>i\<in>{lo..<hi}. f i) + (f hi :: int)"
proof -
  assume "lo \<le> hi"
  then have "{lo..<hi + 1} = insert hi {lo..<hi}" by auto
  then show ?thesis by simp
qed

lemma sum_first: "(lo::int) < hi \<Longrightarrow> (\<Sum>i\<in>{lo..<hi}. f i) = (f lo :: int) + (\<Sum>i\<in>{lo + 1..<hi}. f i)"
proof -
  assume "lo < hi"
  then have "{lo..<hi} = insert lo {lo + 1..<hi}" by auto
  then show ?thesis by simp
qed

lemma sum_slot_update:
  assumes "0 \<le> lo" "lo \<le> p" "p < hi" "p < int (length xs)"
  shows "(\<Sum>i\<in>{lo..<hi}. f (xs[nat p := y] ! nat i)) = (\<Sum>i\<in>{lo..<hi}. f (xs ! nat i)) - f (xs ! nat p) + (f y :: int)"
proof -
  have "(\<Sum>i\<in>{lo..<hi}. g i) = g p + (\<Sum>i\<in>{lo..<hi} - {p}. g i)" for g :: "int \<Rightarrow> int"
    by (rule sum.remove) (use assms in auto)
  note R = this
  have "(\<Sum>i\<in>{lo..<hi} - {p}. f (xs[nat p := y] ! nat i)) = (\<Sum>i\<in>{lo..<hi} - {p}. f (xs ! nat i))"
    by (rule sum.cong) (use assms in auto)
  then show ?thesis
    using assms by (simp add: R [of "\<lambda>i. f (xs[nat p := y] ! nat i)"] R [of "\<lambda>i. f (xs ! nat i)"])
qed

lemma sum_shift: "(\<Sum>i\<in>{lo..<lo + k}. f i) = (\<Sum>i\<in>{0..<k}. f (lo + i) :: int)" for lo :: int
  by (rule sum.reindex_bij_witness [where i = "\<lambda>i. lo + i" and j = "\<lambda>i. i - lo"]) auto

lemma goto_put: "goto t c S = put_thread t (stealStack S t) c S"
  by (simp add: goto_def put_thread_def)

text \<open>A thread outside the barrier.\<close>

definition busy :: "pc \<Rightarrow> bool" where
  "busy c \<longleftrightarrow> c \<noteq> Spin \<and> c \<noteq> Leave \<and> c \<noteq> Left_barrier \<and> c \<noteq> Finished"

text \<open>The counters of a thread; \<open>full\<close> when one of them has reached the largest \<open>int\<close>.\<close>

definition counters :: "'s sstack \<Rightarrow> int list" where
  "counters s = [nNodes s, nLeaves s, nAcquire s, nRelease s, nSteal s, nFail s, wakeups s, falseWakeups s]"

definition full :: "'s sstack \<Rightarrow> bool" where
  "full s \<longleftrightarrow> (\<exists>c\<in>set (counters s). i32 (c + 1) = None)"

definition counts_ok :: "'s sstack \<Rightarrow> bool" where
  "counts_ok s \<longleftrightarrow> 0 \<le> nNodes s \<and> 0 \<le> nLeaves s \<and> 0 \<le> nAcquire s \<and> 0 \<le> nRelease s \<and> 0 \<le> nSteal s \<and> 0 \<le> nFail s \<and>
     0 \<le> wakeups s"

declare counts_ok_def [simp]

lemma full_simps:
  "i32 (nNodes s + 1) = None \<Longrightarrow> full s" "i32 (nLeaves s + 1) = None \<Longrightarrow> full s" "i32 (nAcquire s + 1) = None \<Longrightarrow> full s"
  "i32 (nRelease s + 1) = None \<Longrightarrow> full s" "i32 (nSteal s + 1) = None \<Longrightarrow> full s" "i32 (nFail s + 1) = None \<Longrightarrow> full s"
  "i32 (wakeups s + 1) = None \<Longrightarrow> full s" "i32 (falseWakeups s + 1) = None \<Longrightarrow> full s"
  by (simp_all add: full_def counters_def)

lemma plus32_one: "plus32 c 1 = (if i32 (c + 1) = None then Inl int_overflow else Inr (c + 1))"
  by (simp add: plus32_def i32_def)

lemma plus32_in: "- (2 ^ 31) \<le> x + y \<Longrightarrow> x + y < 2 ^ 31 \<Longrightarrow> plus32 x y = Inr (x + y)"
  by (simp add: plus32_def)

section \<open>Accounting\<close>

definition chunk_ok :: "setting \<Rightarrow> bool" where
  "chunk_ok C \<longleftrightarrow> 0 < chunkSize C \<and> chunkSize C < 2 ^ 30"

locale accounting =
  fixes F :: "'d floats" and R :: "'s rng" and P :: "'d params"
    and good :: "'s node \<Rightarrow> bool" and v :: "'s node \<Rightarrow> int" and a b r :: int
  assumes expands: "good x \<Longrightarrow> \<exists>n ty. uts_numChildren F R P x = Some n \<and> uts_childType F P x = Some ty \<and> 0 \<le> n \<and>
      v x = (if n > 0 then (\<Sum>j\<in>{0..<n}. a + v (kid R P x ty j)) else b) \<and> i32 (node_height x + 1) = Some (node_height x + 1) \<and>
      (\<forall>j. 0 \<le> j \<longrightarrow> j < n \<longrightarrow> make_child R P x ty j \<noteq> None \<and> good (kid R P x ty j))"
begin

definition wgt :: "'s node \<Rightarrow> int" where
  "wgt x = (if numChildren x < 0 then v x else 0)"

definition node_ok :: "'s node \<Rightarrow> bool" where
  "node_ok x \<longleftrightarrow> (numChildren x < 0 \<longrightarrow> good x)"

text \<open>A stack between two steps.\<close>

definition stack_ok :: "setting \<Rightarrow> 's sstack \<Rightarrow> bool" where
  "stack_ok C s \<longleftrightarrow> 0 \<le> sharedStart s \<and> sharedStart s \<le> localStart s \<and> localStart s \<le> stackTop s \<and> stackTop s \<le> stackSize s \<and>
     stackSize s = int (length (stack s)) \<and> stackSize s \<le> 2 ^ 30 \<and> workAvail s = localStart s - sharedStart s \<and>
     chunkSize C dvd workAvail s \<and> counts_ok s \<and>
     (\<forall>i. sharedStart s \<le> i \<longrightarrow> i < stackTop s \<longrightarrow> node_ok (stack s ! nat i))"

text \<open>A node whose children are being pushed.\<close>

definition gen_ok :: "'s node \<Rightarrow> tree_t \<Rightarrow> int \<Rightarrow> bool" where
  "gen_ok x ty n \<longleftrightarrow> 0 \<le> numChildren x \<and> i32 (node_height x + 1) = Some (node_height x + 1) \<and>
     (\<forall>j. 0 \<le> j \<longrightarrow> j < n \<longrightarrow> make_child R P x ty j \<noteq> None \<and> good (kid R P x ty j))"

fun pc_ok :: "'s sstack \<Rightarrow> pc \<Rightarrow> bool" where
  "pc_ok s Loop = True"
| "pc_ok s (Gen p ty n i) = (0 \<le> p \<and> p < stackTop s \<and> 0 \<le> i \<and> i < n \<and> gen_ok (stack s ! nat p) ty n)"
| "pc_ok s (Pushed p ty n i) = (0 \<le> p \<and> p < stackTop s \<and> 0 \<le> i \<and> i < n \<and> gen_ok (stack s ! nat p) ty n)"
| "pc_ok s Release = True"
| "pc_ok s (Cancel c) = ((c = Loop \<or> c = Release \<or> (\<exists>p ty n i. c = Gen p ty n i)) \<and> pc_ok s c)"
| "pc_ok s (Find i) = (sharedStart s = stackTop s \<and> 1 \<le> i)"
| "pc_ok s _ = (sharedStart s = stackTop s)"

text \<open>A thread that steals: its copy holds the first nodes it reserved.\<close>

fun copy_ok :: "setting \<Rightarrow> (nat \<Rightarrow> 's sstack) \<Rightarrow> nat \<Rightarrow> pc \<Rightarrow> bool" where
  "copy_ok C st t (Steal u) = (u < num_threads C \<and> u \<noteq> t)"
| "copy_ok C st t (Copy u src j) = (u < num_threads C \<and> u \<noteq> t \<and> 0 \<le> src \<and> src + chunkSize C \<le> sharedStart (st u) \<and>
     0 \<le> j \<and> j \<le> chunkSize C \<and> stackTop (st t) + chunkSize C < stackSize (st t) \<and>
     (\<forall>i. 0 \<le> i \<longrightarrow> i < j \<longrightarrow> stack (st t) ! nat (stackTop (st t) + i) = stack (st u) ! nat (src + i)) \<and>
     (\<forall>i. 0 \<le> i \<longrightarrow> i < chunkSize C \<longrightarrow> node_ok (stack (st u) ! nat (src + i))))"
| "copy_ok C st t _ = True"

definition thread_ok :: "setting \<Rightarrow> (nat \<Rightarrow> 's sstack) \<Rightarrow> nat \<Rightarrow> pc \<Rightarrow> bool" where
  "thread_ok C st t c \<longleftrightarrow> stack_ok C (st t) \<and> pc_ok (st t) c \<and> copy_ok C st t c"

text \<open>What a thread has counted, and what its stack, its loop and the chunk it copies still owe.\<close>

definition base :: "setting \<Rightarrow> 's sstack \<Rightarrow> int" where
  "base C s = a * nNodes s + b * nLeaves s + (\<Sum>i\<in>{sharedStart s..<stackTop s}. wgt (stack s ! nat i)) +
     r * (chunkSize C * (nRelease s - nAcquire s - nSteal s) - workAvail s)"

fun pend :: "'s sstack \<Rightarrow> pc \<Rightarrow> int" where
  "pend s (Gen p ty n i) = (\<Sum>j\<in>{i..<n}. a + v (kid R P (stack s ! nat p) ty j))"
| "pend s (Pushed p ty n i) = (\<Sum>j\<in>{i + 1..<n}. a + v (kid R P (stack s ! nat p) ty j))"
| "pend s (Cancel c) = pend s c"
| "pend s _ = 0"

fun flight :: "setting \<Rightarrow> (nat \<Rightarrow> 's sstack) \<Rightarrow> pc \<Rightarrow> int" where
  "flight C st (Copy u src j) = (\<Sum>i\<in>{0..<chunkSize C}. wgt (stack (st u) ! nat (src + i))) - r * chunkSize C"
| "flight C st _ = 0"

definition contrib :: "setting \<Rightarrow> (nat \<Rightarrow> 's sstack) \<Rightarrow> nat \<Rightarrow> pc \<Rightarrow> int" where
  "contrib C st t c = base C (st t) + pend (st t) c + flight C st c"

lemmas local_defs = stack_ok_def base_def gen_ok_def node_ok_def

subsection \<open>Steps that change one stack\<close>

text \<open>The part of a stack below \<open>sharedStart\<close> is read by other threads and does not change.\<close>

definition keeps :: "'s sstack \<Rightarrow> 's sstack \<Rightarrow> bool" where
  "keeps s s' \<longleftrightarrow> sharedStart s \<le> sharedStart s' \<and> (\<forall>i. 0 \<le> i \<longrightarrow> i < sharedStart s \<longrightarrow> stack s' ! nat i = stack s ! nat i)"

lemma keeps_refl [simp]: "keeps s s"
  by (simp add: keeps_def)

definition moves :: "setting \<Rightarrow> 's sstack \<Rightarrow> pc \<Rightarrow> 's sstack \<Rightarrow> pc \<Rightarrow> bool" where
  "moves C s c s' c' \<longleftrightarrow> stack_ok C s' \<and> pc_ok s' c' \<and> base C s' + pend s' c' = base C s + pend s c \<and> keeps s s'"

lemma moves_refl: "stack_ok C s \<Longrightarrow> pc_ok s c \<Longrightarrow> pc_ok s c' \<Longrightarrow> pend s c' = pend s c \<Longrightarrow> moves C s c s c'"
  by (simp add: moves_def)

lemma release_moves:
  assumes "stack_ok C s" "pc_ok s c" "chunk_ok C" "c = Loop \<or> c = Release \<or> (\<exists>p ty n i. c = Gen p ty n i)" "cbint C \<noteq> 0"
  shows "releaseNodes C t c (S\<lparr>stealStack := (stealStack S)(t := s)\<rparr>) = Inl int_overflow \<and> full s \<or>
    (\<exists>s' c'. releaseNodes C t c (S\<lparr>stealStack := (stealStack S)(t := s)\<rparr>) = Inr (put_thread t s' c' S) \<and> moves C s c s' c' \<and> (c' = c \<or> c' = Cancel c))"
proof (cases "doSteal C \<noteq> 0 \<and> ss_localDepth s > 2 * chunkSize C")
  case True
  have d: "i32 (2 * chunkSize C) = Some (2 * chunkSize C)" using assms(3) by (simp add: chunk_ok_def)
  have k: "chunkSize C \<le> stackTop s - localStart s" using True assms(3) by (simp add: ss_localDepth_def chunk_ok_def)
  have w: "plus32 (workAvail s) (chunkSize C) = Inr (workAvail s + chunkSize C)"
    using k assms(1,3) by (intro plus32_in) (auto simp: stack_ok_def chunk_ok_def)
  show ?thesis
  proof (cases "i32 (nRelease s + 1) = None")
    case True
    then show ?thesis using \<open>doSteal C \<noteq> 0 \<and> _\<close> d k by (auto simp: releaseNodes_def ss_release_def plus32_one w full_simps)
  next
    case small: False
  define s' where "s' = s\<lparr>localStart := localStart s + chunkSize C, workAvail := workAvail s + chunkSize C, nRelease := nRelease s + 1\<rparr>"
  define c' where "c' = (if c_rem (nNodes s') (cbint C) = 0 then Cancel c else c)"
  have "releaseNodes C t c (S\<lparr>stealStack := (stealStack S)(t := s)\<rparr>) = Inr (put_thread t s' c' S)"
    using True assms(5) k d small by (auto simp: releaseNodes_def ss_release_def s'_def c'_def put_thread_def plus32_one w)
  moreover have "stack_ok C s'" using assms(1,3) k by (auto simp: s'_def stack_ok_def chunk_ok_def)
  moreover have "base C s' = base C s" by (simp add: base_def s'_def algebra_simps)
  moreover have "pend s' c = pend s c" "pc_ok s' c" using assms(2,4) by (auto simp: s'_def)
  ultimately show ?thesis using assms(4) by (intro disjI2 exI [of _ s'] exI [of _ c']) (auto simp: moves_def c'_def keeps_def s'_def)
  qed
next
  case False
  moreover have "i32 (2 * chunkSize C) = Some (2 * chunkSize C)" using assms(3) by (simp add: chunk_ok_def)
  ultimately have "releaseNodes C t c (S\<lparr>stealStack := (stealStack S)(t := s)\<rparr>) = Inr (put_thread t s c S)"
    by (auto simp: releaseNodes_def goto_def put_thread_def)
  then show ?thesis using assms by (blast intro: moves_refl)
qed

lemma gen_start_moves:
  assumes "stack_ok C s" "localStart s < stackTop s" "numChildren (stack s ! nat (stackTop s - 1)) < 0" "s = stealStack S t"
  shows "gen_start F R P t (stackTop s - 1) (stack s ! nat (stackTop s - 1)) S = Inl int_overflow \<and> full s \<or>
    (\<exists>s' c'. gen_start F R P t (stackTop s - 1) (stack s ! nat (stackTop s - 1)) S = Inr (put_thread t s' c' S) \<and>
    moves C s Loop s' c' \<and> (c' = Release \<or> (\<exists>p ty n i. c' = Gen p ty n i)))"
proof -
  define p where "p = stackTop s - 1"
  define x where "x = stack s ! nat p"
  have p: "sharedStart s \<le> p" "0 \<le> p" "p < stackTop s" "p < int (length (stack s))" "0 \<le> sharedStart s"
    using assms(1,2) by (auto simp: p_def stack_ok_def)
  have neg: "numChildren x < 0" using assms(3) by (simp add: x_def p_def)
  have "good x" using assms(1) p neg by (auto simp: stack_ok_def node_ok_def x_def)
  then obtain n ty where n: "uts_numChildren F R P x = Some n" "uts_childType F P x = Some ty" "0 \<le> n"
    "v x = (if n > 0 then (\<Sum>j\<in>{0..<n}. a + v (kid R P x ty j)) else b)" "i32 (node_height x + 1) = Some (node_height x + 1)"
    "\<And>j. 0 \<le> j \<Longrightarrow> j < n \<Longrightarrow> make_child R P x ty j \<noteq> None \<and> good (kid R P x ty j)"
    using expands by metis
  define y where "y = x\<lparr>numChildren := n\<rparr>"
  define s1 where "s1 = s\<lparr>stack := (stack s)[nat p := y]\<rparr>"
  have ok1: "stack_ok C s1"
    using assms(1) p n(3) by (auto simp: stack_ok_def s1_def nth_update_int node_ok_def y_def)
  have b1: "base C s1 = base C s - v x"
    using p neg n(3) by (simp add: base_def s1_def sum_slot_update x_def [symmetric] wgt_def [of x] wgt_def [of y]) (simp add: y_def)
  have k1: "keeps s s1" using p by (auto simp: keeps_def s1_def nth_update_int)
  have g: "gen_start F R P t p x S = (if n > 0 then Inr (put_thread t s1 (Gen p ty n 0) S)
      else if i32 (nLeaves s + 1) = None then Inl int_overflow else Inr (put_thread t (s1\<lparr>nLeaves := nLeaves s1 + 1\<rparr>) Release S))"
    using n p assms(4) by (simp add: gen_start_def Let_def s1_def y_def plus32_one)
  show ?thesis
  proof (cases "n > 0")
    case True
    have "moves C s Loop s1 (Gen p ty n 0)"
      using ok1 b1 k1 True n p by (simp add: moves_def) (simp add: s1_def y_def gen_ok_def)
    then show ?thesis using g True by (intro disjI2 exI [of _ s1] exI [of _ "Gen p ty n 0"]) (simp add: p_def x_def)
  next
    case False
    have "moves C s Loop (s1\<lparr>nLeaves := nLeaves s1 + 1\<rparr>) Release"
      using ok1 b1 k1 False n p by (simp add: moves_def local_defs keeps_def algebra_simps)
    then show ?thesis using g False by (auto simp: p_def x_def full_simps split: if_splits)
  qed
qed

lemma gen_child_moves:
  assumes "stack_ok C s" "pc_ok s (Gen p ty n i)" "s = stealStack S t"
  shows "gen_child R P t p ty n i S = Inl ''ss_push: overflow'' \<or> gen_child R P t p ty n i S = Inl int_overflow \<and> full s \<or>
    (\<exists>s'. gen_child R P t p ty n i S = Inr (put_thread t s' (Pushed p ty n i) S) \<and> moves C s (Gen p ty n i) s' (Pushed p ty n i))"
proof (cases "stackTop s < stackSize s")
  case False
  then show ?thesis
    using assms by (auto simp: gen_child_def ss_push_def gen_ok_def stack_ok_def Let_def)
next
  case True
  define x where "x = stack s ! nat p"
  define y where "y = kid R P x ty i"
  define s' where "s' = s\<lparr>stack := (stack s)[nat (stackTop s) := y], stackTop := stackTop s + 1, nNodes := nNodes s + 1,
    maxStackDepth := max (stackTop s + 1) (maxStackDepth s), maxTreeDepth := max (maxTreeDepth s) (node_height y)\<rparr>"
  have pc: "0 \<le> p" "p < stackTop s" "0 \<le> i" "i < n" "gen_ok x ty n" using assms(2) by (auto simp: x_def)
  have st: "0 \<le> sharedStart s" "sharedStart s \<le> stackTop s" "stackTop s < int (length (stack s))" "0 \<le> stackTop s"
    using assms(1) True by (auto simp: stack_ok_def)
  have y: "make_child R P x ty i \<noteq> None" "good y" using pc by (auto simp: gen_ok_def y_def)
  have neg: "numChildren y = -1" using y(1) by (simp add: y_def kid_unvisited)
  have g: "gen_child R P t p ty n i S = (if i32 (nNodes s + 1) = None then Inl int_overflow else Inr (put_thread t s' (Pushed p ty n i) S))"
    using y(1) pc st True assms(3)
    by (auto simp: gen_child_def ss_push_def Let_def s'_def gen_ok_def y_def kid_def x_def plus32_one)
  moreover have "stack_ok C s'"
    using assms(1) st True y(2) neg by (auto simp: stack_ok_def s'_def nth_update_int node_ok_def)
  moreover have "stack s' ! nat p = x" using pc by (simp add: s'_def x_def nth_update_int)
  moreover have "base C s' = base C s + a + v y"
  proof -
    have "(\<Sum>j\<in>{sharedStart s..<stackTop s + 1}. wgt (stack s' ! nat j)) =
        (\<Sum>j\<in>{sharedStart s..<stackTop s}. wgt (stack s ! nat j)) + v y"
      using st neg by (simp add: sum_last s'_def nth_update_int wgt_def) (rule sum.cong; simp add: nth_update_int)
    then show ?thesis by (simp add: base_def s'_def algebra_simps)
  qed
  moreover have "keeps s s'" using st by (auto simp: keeps_def s'_def nth_update_int)
  ultimately have "moves C s (Gen p ty n i) s' (Pushed p ty n i)"
    using pc y by (simp add: moves_def sum_first [of i n] x_def [symmetric] y_def) (simp add: s'_def)
  with g show ?thesis by (auto simp: full_simps)
qed

lemma pop_moves:
  assumes "stack_ok C s" "localStart s < stackTop s" "0 \<le> numChildren (stack s ! nat (stackTop s - 1))"
  shows "ss_pop s = Inr (s\<lparr>stackTop := stackTop s - 1\<rparr>)" "moves C s Loop (s\<lparr>stackTop := stackTop s - 1\<rparr>) Release"
proof -
  show "ss_pop s = Inr (s\<lparr>stackTop := stackTop s - 1\<rparr>)" using assms(2) by (simp add: ss_pop_def)
  have "sharedStart s \<le> stackTop s - 1" using assms(1,2) by (simp add: stack_ok_def)
  then have "base C (s\<lparr>stackTop := stackTop s - 1\<rparr>) = base C s"
    using sum_last [of "sharedStart s" "stackTop s - 1" "\<lambda>i. wgt (stack s ! nat i)"] assms(3)
    by (simp add: base_def wgt_def)
  moreover have "stack_ok C (s\<lparr>stackTop := stackTop s - 1\<rparr>)"
    using assms(1,2) by (auto simp: stack_ok_def)
  ultimately show "moves C s Loop (s\<lparr>stackTop := stackTop s - 1\<rparr>) Release"
    by (simp add: moves_def keeps_def)
qed

lemma acquire_moves:
  assumes "stack_ok C s" "localStart s = stackTop s" "0 < chunkSize C" "ss_acquire s (chunkSize C) = res"
  shows "res = Inl int_overflow \<and> full s \<or> (\<exists>ok s'. res = Inr (ok, s') \<and> moves C s Loop s' (if ok then Loop else if doSteal C \<noteq> 0 then Find 1 else Barrier))"
proof (cases "localStart s - sharedStart s \<ge> chunkSize C")
  case True
  define s' where "s' = s\<lparr>localStart := localStart s - chunkSize C, workAvail := workAvail s - chunkSize C, nAcquire := nAcquire s + 1\<rparr>"
  have "res = (if i32 (nAcquire s + 1) = None then Inl int_overflow else Inr (True, s'))"
    using assms(4) True by (auto simp: ss_acquire_def Let_def plus32_one s'_def)
  moreover have "moves C s Loop s' Loop" using assms(1,3) True by (simp add: s'_def moves_def keeps_def local_defs algebra_simps)
  ultimately show ?thesis by (auto simp: full_simps)
next
  case False
  then have s': "res = Inr (False, s)" using assms(4) by (auto simp: ss_acquire_def Let_def)
  have "workAvail s = 0"
    using assms(1,3) False zdvd_not_zless [of "workAvail s" "chunkSize C"] by (force simp: stack_ok_def)
  then have "moves C s Loop s (if False then Loop else if doSteal C \<noteq> 0 then Find 1 else Barrier)"
    using assms(1,2) by (simp add: moves_def stack_ok_def)
  then show ?thesis using s' by blast
qed

subsection \<open>Steps that read another stack\<close>

lemma frame:
  assumes "thread_ok C st u c" "st' u = st u" "\<And>w. w < num_threads C \<Longrightarrow> keeps (st w) (st' w)"
  shows "thread_ok C st' u c" "contrib C st' u c = contrib C st u c"
proof -
  have "copy_ok C st' u c \<and> flight C st' c = flight C st c"
  proof (cases c)
    case (Copy w src j)
    have K: "keeps (st w) (st' w)" and I: "0 \<le> src" "src + chunkSize C \<le> sharedStart (st w)"
      using assms(1,3) Copy by (auto simp: thread_ok_def)
    have E: "stack (st' w) ! nat (src + i) = stack (st w) ! nat (src + i)" if "0 \<le> i" "i < chunkSize C" for i
      using K I that by (auto simp: keeps_def)
    moreover have "sharedStart (st w) \<le> sharedStart (st' w)" using K by (simp add: keeps_def)
    ultimately show ?thesis using assms(1,2) Copy by (auto simp: thread_ok_def intro!: sum.cong)
  qed (use assms(1) in \<open>auto simp: thread_ok_def\<close>)
  then show "thread_ok C st' u c" "contrib C st' u c = contrib C st u c"
    using assms(1,2) by (auto simp: thread_ok_def contrib_def)
qed

definition inv :: "setting \<Rightarrow> 's system \<Rightarrow> bool" where
  "inv C S \<longleftrightarrow> (\<forall>t<num_threads C. thread_ok C (stealStack S) t (pcs S t))"

definition total :: "setting \<Rightarrow> 's system \<Rightarrow> int" where
  "total C S = (\<Sum>t<num_threads C. contrib C (stealStack S) t (pcs S t))"

lemma inv_step:
  assumes "inv C S" "t < num_threads C" "pcs S' = (pcs S)(t := c')" "stealStack S' = (stealStack S)(t := s')"
    and "thread_ok C (stealStack S') t c'" "keeps (stealStack S t) s'"
    and "contrib C (stealStack S') t c' = contrib C (stealStack S) t (pcs S t)"
  shows "inv C S' \<and> total C S' = total C S"
proof -
  have K: "keeps (stealStack S w) (stealStack S' w)" if "w < num_threads C" for w
    using assms(4,6) by simp
  have fr: "thread_ok C (stealStack S') u (pcs S' u) \<and> contrib C (stealStack S') u (pcs S' u) = contrib C (stealStack S) u (pcs S u)"
    if "u < num_threads C" for u
  proof (cases "u = t")
    case True
    then show ?thesis using assms(3,5,7) by simp
  next
    case False
    have "thread_ok C (stealStack S) u (pcs S u)" using assms(1) that by (simp add: inv_def)
    from frame [OF this, of "stealStack S'"] K show ?thesis using False assms(3,4) by simp
  qed
  then show ?thesis by (simp add: inv_def total_def)
qed

text \<open>A step of one thread on its own stack.\<close>

lemma moves_step:
  assumes "inv C S" "t < num_threads C" "pcs S' = (pcs S)(t := c')" "stealStack S' = (stealStack S)(t := s')"
    and "moves C (stealStack S t) (pcs S t) s' c'" "copy_ok C (stealStack S') t c'"
    and "\<And>st. flight C st c' = 0" "\<And>st. flight C st (pcs S t) = 0"
  shows "inv C S' \<and> total C S' = total C S"
  by (rule inv_step [OF assms(1-4)]) (use assms(4-8) in \<open>auto simp: thread_ok_def moves_def contrib_def\<close>)

lemma pc_ok_shared:
  "pc_ok s c \<Longrightarrow> sharedStart s \<noteq> stackTop s \<Longrightarrow> pc_ok (s\<lparr>sharedStart := x, workAvail := y\<rparr>) c \<and>
    pend (s\<lparr>sharedStart := x, workAvail := y\<rparr>) c = pend s c \<and> (\<forall>st. flight C st c = 0) \<and> (\<forall>st. copy_ok C st t c)"
  by (cases c) auto

lemma steal_step:
  assumes I: "inv C S" "t < num_threads C" and u: "pcs S t = Steal u" and K: "chunk_ok C"
  shows "ss_steal C t u S = Inl ''ss_steal: steal will overflow thief stack'' \<or>
    ss_steal C t u S = Inl int_overflow \<and> full (stealStack S t) \<or>
    (\<exists>S' c'. ss_steal C t u S = Inr S' \<and> pcs S' = (pcs S)(t := c') \<and> busy c' \<and> cb_count S' = cb_count S \<and> cb_done S' = cb_done S \<and>
       inv C S' \<and> total C S' = total C S)"
proof -
  define st where "st = stealStack S"
  have k: "0 < chunkSize C" "chunkSize C < 2 ^ 30" using K by (simp_all add: chunk_ok_def)
  have T: "stack_ok C (st t)" "sharedStart (st t) = stackTop (st t)" "u < num_threads C" "u \<noteq> t"
    using I u by (auto simp: inv_def thread_ok_def st_def)
  then have sum: "i32 (stackTop (st t) + chunkSize C) = Some (stackTop (st t) + chunkSize C)"
    using k by (intro i32_in) (auto simp: stack_ok_def)
  have U: "thread_ok C st u (pcs S u)" using I T by (simp add: inv_def st_def)
  then have Us: "stack_ok C (st u)" by (simp add: thread_ok_def)
  consider "stackTop (st t) + chunkSize C \<ge> stackSize (st t)"
    | "stackTop (st t) + chunkSize C < stackSize (st t)" "workAvail (st u) < chunkSize C"
    | "stackTop (st t) + chunkSize C < stackSize (st t)" "chunkSize C \<le> workAvail (st u)"
    by linarith
  then show ?thesis
  proof cases
    case 1
    then show ?thesis using T sum by (simp add: ss_steal_def steal_reserve_def st_def)
  next
    case 2
    define S' where "S' = put_thread t ((st t)\<lparr>nFail := nFail (st t) + 1\<rparr>) (Find 1) S"
    have "ss_steal C t u S = (if i32 (nFail (st t) + 1) = None then Inl int_overflow else Inr S')"
      using 2 T Us sum by (simp add: ss_steal_def steal_reserve_def st_def S'_def stack_ok_def put_thread_def Let_def fun_upd_twist plus32_one)
    moreover have "inv C S' \<and> total C S' = total C S"
      by (rule moves_step [OF I, where c' = "Find 1" and s' = "(st t)\<lparr>nFail := nFail (st t) + 1\<rparr>"])
        (use T u in \<open>auto simp: S'_def put_thread_def st_def moves_def local_defs keeps_def\<close>)
    ultimately show ?thesis by (auto simp: S'_def put_thread_def busy_def st_def full_simps)
  next
    case 3
    define src where "src = sharedStart (st u)"
    define vs where "vs = (st u)\<lparr>sharedStart := src + chunkSize C, workAvail := workAvail (st u) - chunkSize C\<rparr>"
    define S' where "S' = S\<lparr>stealStack := st(u := vs), pcs := (pcs S)(t := Copy u src 0)\<rparr>"
    have E: "ss_steal C t u S = Inr S'"
      using 3 T Us sum by (simp add: ss_steal_def steal_reserve_def st_def S'_def stack_ok_def put_thread_def Let_def vs_def src_def fun_upd_twist)
    have room: "src + chunkSize C \<le> localStart (st u)" "localStart (st u) \<le> stackTop (st u)" "0 \<le> src"
      using 3 Us by (auto simp: stack_ok_def src_def)
    have ne: "sharedStart (st u) \<noteq> stackTop (st u)" using room k by (simp add: src_def)
    note P = pc_ok_shared [OF _ ne, where c = "pcs S u" and x = "src + chunkSize C" and y = "workAvail (st u) - chunkSize C", folded vs_def]
    have pu: "pc_ok vs (pcs S u)" "pend vs (pcs S u) = pend (st u) (pcs S u)" "\<And>st. flight C st (pcs S u) = 0" "\<And>st. copy_ok C st u (pcs S u)"
      using P U by (auto simp: thread_ok_def)
    have vs_ok: "stack_ok C vs" using Us room k by (auto simp: stack_ok_def vs_def src_def)
    have K: "keeps (st w) ((st(u := vs)) w)" for w
      using k by (auto simp: keeps_def vs_def src_def)
    define X where "X = (\<Sum>i\<in>{0..<chunkSize C}. wgt (stack (st u) ! nat (src + i))) - r * chunkSize C"
    have split: "(\<Sum>i\<in>{src..<stackTop (st u)}. wgt (stack (st u) ! nat i)) =
        (\<Sum>i\<in>{0..<chunkSize C}. wgt (stack (st u) ! nat (src + i))) + (\<Sum>i\<in>{src + chunkSize C..<stackTop (st u)}. wgt (stack (st u) ! nat i))"
    proof -
      have "{src..<stackTop (st u)} = {src..<src + chunkSize C} \<union> {src + chunkSize C..<stackTop (st u)}" using room k by auto
      then show ?thesis by (simp add: sum.union_disjoint sum_shift)
    qed
    have bu: "base C vs = base C (st u) - X"
      using split by (simp add: base_def vs_def X_def src_def algebra_simps)
    have tok: "thread_ok C (st(u := vs)) t (Copy u src 0)"
      using T 3 room k Us by (auto simp: thread_ok_def vs_def stack_ok_def src_def)
    have C: "thread_ok C (st(u := vs)) w (pcs S' w) \<and> contrib C (st(u := vs)) w (pcs S' w) =
        contrib C st w (pcs S w) + ((if w = u then - X else 0) + (if w = t then X else 0))" if w: "w < num_threads C" for w
    proof -
      consider "w = t" | "w = u" "w \<noteq> t" | "w \<noteq> u" "w \<noteq> t" by blast
      then show ?thesis
      proof cases
        case 1
        then show ?thesis using tok T u by (simp add: S'_def contrib_def X_def vs_def)
      next
        case 2
        then show ?thesis using pu vs_ok bu by (simp add: S'_def contrib_def thread_ok_def)
      next
        case 3
        have "thread_ok C st w (pcs S w)" using I w by (simp add: inv_def st_def)
        from frame [OF this, of "st(u := vs)"] K 3 show ?thesis by (simp add: S'_def)
      qed
    qed
    have "total C S' = (\<Sum>w<num_threads C. contrib C st w (pcs S w) + ((if w = u then - X else 0) + (if w = t then X else 0)))"
      unfolding total_def by (rule sum.cong) (use C in \<open>auto simp: S'_def\<close>)
    also have "\<dots> = total C S" using T I by (simp add: sum.distrib total_def st_def)
    finally have "total C S' = total C S" .
    moreover have "inv C S'" using C by (simp add: inv_def S'_def)
    ultimately show ?thesis using E by (auto simp: S'_def busy_def)
  qed
qed

lemma copy_step:
  assumes I: "inv C S" "t < num_threads C" and u: "pcs S t = Copy u src j" and k: "0 < chunkSize C"
  shows "ss_steal_copy C t u src j S = Inl int_overflow \<and> full (stealStack S t) \<or>
    (\<exists>S' c'. ss_steal_copy C t u src j S = Inr S' \<and> pcs S' = (pcs S)(t := c') \<and> busy c' \<and> cb_count S' = cb_count S \<and>
    cb_done S' = cb_done S \<and> inv C S' \<and> total C S' = total C S)"
proof -
  define s where "s = stealStack S t"
  define vs where "vs = stealStack S u"
  have T: "stack_ok C s" "sharedStart s = stackTop s" "u < num_threads C" "u \<noteq> t" "0 \<le> src" "src + chunkSize C \<le> sharedStart vs"
      "0 \<le> j" "j \<le> chunkSize C" "stackTop s + chunkSize C < stackSize s"
      "\<And>i. 0 \<le> i \<Longrightarrow> i < j \<Longrightarrow> stack s ! nat (stackTop s + i) = stack vs ! nat (src + i)"
      "\<And>i. 0 \<le> i \<Longrightarrow> i < chunkSize C \<Longrightarrow> node_ok (stack vs ! nat (src + i))"
    using I u by (auto simp: inv_def thread_ok_def s_def vs_def)
  have V: "stack_ok C vs" using I T by (simp add: inv_def thread_ok_def vs_def)
  have top: "0 \<le> stackTop s" "stackSize s = int (length (stack s))" "localStart s = stackTop s" "workAvail s = 0"
    using T(1,2) by (auto simp: stack_ok_def)
  show ?thesis
  proof (cases "j < chunkSize C")
    case True
    define s' where "s' = s\<lparr>stack := (stack s)[nat (stackTop s + j) := stack vs ! nat (src + j)]\<rparr>"
    define S' where "S' = put_thread t s' (Copy u src (j + 1)) S"
    have "ss_steal_copy C t u src j S = Inr S'"
      using True T V top by (simp add: ss_steal_copy_def steal_copy_def s_def [symmetric] vs_def [symmetric] S'_def s'_def stack_ok_def)
    moreover have "inv C S' \<and> total C S' = total C S"
    proof (rule inv_step [OF I, where c' = "Copy u src (j + 1)" and s' = s'])
      show "thread_ok C (stealStack S') t (Copy u src (j + 1))"
        using True T V top by (auto simp: thread_ok_def S'_def put_thread_def s'_def vs_def [symmetric] nth_update_int stack_ok_def)
      show "keeps (stealStack S t) s'"
        using T top by (auto simp: s_def [symmetric] keeps_def s'_def nth_update_int)
      show "contrib C (stealStack S') t (Copy u src (j + 1)) = contrib C (stealStack S) t (pcs S t)"
        using T u by (simp add: contrib_def S'_def put_thread_def base_def s'_def s_def [symmetric])
    qed (simp_all add: S'_def put_thread_def)
    ultimately show ?thesis by (auto simp: S'_def put_thread_def busy_def)
  next
    case False
    then have j: "j = chunkSize C" using T(8) by simp
    define s' where "s' = s\<lparr>nSteal := nSteal s + 1, stackTop := stackTop s + chunkSize C\<rparr>"
    define S' where "S' = put_thread t s' Loop S"
    have "plus32 (stackTop s) (chunkSize C) = Inr (stackTop s + chunkSize C)"
      using T(1,9) top k by (intro plus32_in) (auto simp: stack_ok_def)
    then have "ss_steal_copy C t u src j S = (if i32 (nSteal s + 1) = None then Inl int_overflow else Inr S')"
      using False by (simp add: ss_steal_copy_def S'_def s'_def s_def steal_done_def plus32_one)
    moreover have "inv C S' \<and> total C S' = total C S"
    proof (rule inv_step [OF I, where c' = Loop and s' = s'])
      have "node_ok (stack s ! nat i)" if "stackTop s \<le> i" "i < stackTop s + chunkSize C" for i
        using T(10) [of "i - stackTop s"] T(11) [of "i - stackTop s"] that j by simp
      then show "thread_ok C (stealStack S') t Loop"
        using T top k by (auto simp: thread_ok_def S'_def put_thread_def s'_def stack_ok_def)
      show "keeps (stealStack S t) s'"
        by (simp add: keeps_def s'_def s_def)
      have "(\<Sum>i\<in>{stackTop s..<stackTop s + chunkSize C}. wgt (stack s ! nat i)) = (\<Sum>i\<in>{0..<chunkSize C}. wgt (stack vs ! nat (src + i)))"
        unfolding sum_shift by (rule sum.cong) (use T(10) j in auto)
      then show "contrib C (stealStack S') t Loop = contrib C (stealStack S) t (pcs S t)"
        using T u top by (simp add: contrib_def S'_def put_thread_def base_def s'_def s_def [symmetric] vs_def [symmetric] algebra_simps)
    qed (simp_all add: S'_def put_thread_def)
    ultimately show ?thesis by (auto simp: S'_def put_thread_def busy_def s_def full_simps)
  qed
qed

end

section \<open>The barrier\<close>

definition waiting :: "setting \<Rightarrow> (nat \<Rightarrow> pc) \<Rightarrow> nat set" where
  "waiting C f = Set.filter (\<lambda>t. f t = Spin \<or> f t = Leave) {..<num_threads C}"

definition barrier_ok :: "setting \<Rightarrow> 's system \<Rightarrow> bool" where
  "barrier_ok C S \<longleftrightarrow> cb_count S = int (card (waiting C (pcs S))) \<and>
     (cb_done S \<noteq> 0 \<longrightarrow> (\<forall>t<num_threads C. \<not> busy (pcs S t))) \<and>
     (\<forall>t<num_threads C. pcs S t = Finished \<longrightarrow> cb_done S \<noteq> 0) \<and>
     (cb_count S = int (num_threads C) \<longrightarrow> cb_done S \<noteq> 0)"

lemma waiting_finite [simp]: "finite (waiting C f)"
  by (simp add: waiting_def)

lemma waiting_upd:
  "t < num_threads C \<Longrightarrow> waiting C (f(t := c)) = (if c = Spin \<or> c = Leave then insert t (waiting C f) else waiting C f - {t})"
  by (auto simp: waiting_def)

lemma waiting_iff [simp]: "t < num_threads C \<Longrightarrow> t \<in> waiting C f \<longleftrightarrow> f t = Spin \<or> f t = Leave"
  by (simp add: waiting_def)

lemma waiting_full: "card (waiting C f) = num_threads C \<Longrightarrow> t < num_threads C \<Longrightarrow> f t = Spin \<or> f t = Leave"
proof -
  assume A: "card (waiting C f) = num_threads C" "t < num_threads C"
  have "waiting C f = {..<num_threads C}"
    by (rule card_subset_eq) (use A in \<open>auto simp: waiting_def\<close>)
  then show ?thesis using A(2) by (auto simp: waiting_def)
qed

lemma barrier_busy:
  assumes "barrier_ok C S" "t < num_threads C" "busy (pcs S t)" "busy c'"
    and "pcs S' = (pcs S)(t := c')" "cb_count S' = cb_count S" "cb_done S' = cb_done S"
  shows "barrier_ok C S'"
proof -
  have "t \<notin> waiting C (pcs S)" using assms(2,3) by (auto simp: busy_def)
  then have "waiting C (pcs S') = waiting C (pcs S)"
    using assms(2,4,5) by (auto simp: waiting_upd busy_def)
  then show ?thesis using assms unfolding barrier_ok_def by (auto simp: busy_def)
qed

text \<open>The states behind the two critical sections.\<close>

definition entered :: "setting \<Rightarrow> nat \<Rightarrow> 's system \<Rightarrow> 's system" where
  "entered C t S =
     (let s = stealStack S t; n = (if nNodes_last s = nNodes s then falseWakeups s + 1 else falseWakeups s)
      in put_thread t (s\<lparr>falseWakeups := n, nNodes_last := nNodes s\<rparr>) Spin
        (S\<lparr>cb_count := cb_count S + 1, cb_done := (if cb_count S + 1 = int (num_threads C) then 1 else cb_done S)\<rparr>))"

lemma cb_enter_eq:
  "cb_enter C t S = (if nNodes_last (stealStack S t) = nNodes (stealStack S t) \<and> i32 (falseWakeups (stealStack S t) + 1) = None
     then Inl int_overflow else Inr (entered C t S))"
  by (auto simp: cb_enter_def entered_def Let_def plus32_one put_thread_def)

definition left :: "nat \<Rightarrow> 's system \<Rightarrow> 's system" where
  "left t S = put_thread t ((stealStack S t)\<lparr>wakeups := wakeups (stealStack S t) + 1\<rparr>) Left_barrier
     (S\<lparr>cb_count := cb_count S - 1, cb_cancel := 0\<rparr>)"

lemma cb_leave_eq:
  "cb_leave t S = (if i32 (wakeups (stealStack S t) + 1) = None then Inl int_overflow else Inr (left t S))"
  by (simp add: cb_leave_def left_def Let_def plus32_one)

lemma barrier_moves:
  assumes B: "barrier_ok C S" and t: "t < num_threads C"
  shows "pcs S t = Barrier \<Longrightarrow> barrier_ok C (entered C t S)"
    and "pcs S t = Spin \<Longrightarrow> barrier_ok C (cb_spin t S)"
    and "pcs S t = Leave \<Longrightarrow> barrier_ok C (left t S)"
    and "pcs S t = Left_barrier \<Longrightarrow> barrier_ok C (cb_return t S)"
proof -
  assume p: "pcs S t = Barrier"
  have n: "t \<notin> waiting C (pcs S)" using p t by simp
  have d: "cb_done S = 0" using B p t by (auto simp: barrier_ok_def busy_def)
  have "\<not> busy (pcs S u) \<or> u = t" if "cb_count S + 1 = int (num_threads C)" "u < num_threads C" for u
  proof -
    have "card (waiting C ((pcs S)(t := Spin))) = num_threads C"
      using B n that(1) t by (simp add: barrier_ok_def waiting_upd)
    from waiting_full [OF this that(2)] show ?thesis by (auto simp: busy_def split: if_splits)
  qed
  then show "barrier_ok C (entered C t S)"
    using B p t n d unfolding barrier_ok_def by (auto simp: entered_def Let_def put_thread_def waiting_upd busy_def)
next
  assume p: "pcs S t = Spin"
  then have "t \<in> waiting C (pcs S)" using t by simp
  then have "insert t (waiting C (pcs S)) = waiting C (pcs S)" by (rule insert_absorb)
  then show "barrier_ok C (cb_spin t S)"
    using B p t unfolding barrier_ok_def by (auto simp: cb_spin_def goto_def waiting_upd busy_def)
next
  assume p: "pcs S t = Leave"
  then have m: "t \<in> waiting C (pcs S)" using t by simp
  then have c: "int (card (waiting C (pcs S) - {t})) = int (card (waiting C (pcs S))) - 1"
    by (simp add: card_Diff_singleton Suc_leI card_gt_0_iff of_nat_diff) (metis One_nat_def card_gt_0_iff empty_iff of_nat_1 of_nat_diff Suc_leI waiting_finite)
  have "card (waiting C (pcs S)) \<le> card {..<num_threads C}" by (rule card_mono) (auto simp: waiting_def)
  then have "cb_count S - 1 \<noteq> int (num_threads C)" using B by (simp add: barrier_ok_def)
  then show "barrier_ok C (left t S)"
    using B p t c unfolding barrier_ok_def by (auto simp: left_def Let_def put_thread_def waiting_upd busy_def)
next
  assume p: "pcs S t = Left_barrier"
  then have "t \<notin> waiting C (pcs S)" using t by simp
  then have "waiting C (pcs S) - {t} = waiting C (pcs S)" by blast
  then show "barrier_ok C (cb_return t S)"
    using B p t unfolding barrier_ok_def by (auto simp: cb_return_def goto_def waiting_upd busy_def)
qed

section \<open>Every step\<close>

definition ok_setting :: "setting \<Rightarrow> bool" where
  "ok_setting C \<longleftrightarrow> 0 < chunkSize C \<and> chunkSize C < 2 ^ 30 \<and> cbint C \<noteq> 0 \<and> 0 < num_threads C"

definition overflow :: "string \<Rightarrow> bool" where
  "overflow e \<longleftrightarrow> e = ''ss_push: overflow'' \<or> e = ''ss_steal: steal will overflow thief stack''"

text \<open>The errors a step of a thread can end with: an overflow of a stack, or of a counter that has reached the largest \<open>int\<close>.\<close>

definition stops :: "'s sstack \<Rightarrow> string \<Rightarrow> bool" where
  "stops s e \<longleftrightarrow> overflow e \<or> e = int_overflow \<and> full s"

text \<open>The start of a search in memory blocks of the size that was asked for.\<close>

definition started :: "setting \<Rightarrow> int \<Rightarrow> (nat \<Rightarrow> 's node list option) \<Rightarrow> 's node \<Rightarrow> 's system \<Rightarrow> bool" where
  "started C nelts mem root S \<longleftrightarrow> ok_setting C \<and> nelts \<le> 2 ^ 30 \<and> numChildren root = -1 \<and>
     (\<forall>t<num_threads C. \<forall>b. mem t = Some b \<longrightarrow> int (length b) = nelts) \<and> (\<exists>S0. pthread_main C nelts mem root S0 = Inr S)"

definition stack_shape :: "'s sstack \<Rightarrow> bool" where
  "stack_shape s \<longleftrightarrow> 0 \<le> sharedStart s \<and> sharedStart s \<le> localStart s \<and> localStart s \<le> stackTop s \<and> stackTop s \<le> stackSize s \<and>
     workAvail s = localStart s - sharedStart s"

context accounting begin

definition follows :: "setting \<Rightarrow> nat \<Rightarrow> 's system \<Rightarrow> 's system \<Rightarrow> bool" where
  "follows C t S S' \<longleftrightarrow> inv C S' \<and> total C S' = total C S \<and> barrier_ok C S'"

lemma follows_moves:
  assumes "inv C S" "barrier_ok C S" "t < num_threads C" "moves C (stealStack S t) (pcs S t) s' c'"
    and "busy (pcs S t)" "busy c'" "\<And>u. pcs S t \<noteq> Steal u" "\<And>u src j. pcs S t \<noteq> Copy u src j" "\<And>u src j. c' \<noteq> Copy u src j"
    and "\<And>u. c' = Steal u \<Longrightarrow> u < num_threads C \<and> u \<noteq> t"
    and "S' = put_thread t s' c' S \<or> S' = put_thread t s' c' (S\<lparr>cb_cancel := 1\<rparr>)"
  shows "follows C t S S'"
proof -
  have "pcs S' = (pcs S)(t := c')" "stealStack S' = (stealStack S)(t := s')" "cb_count S' = cb_count S" "cb_done S' = cb_done S"
    using assms(11) by (auto simp: put_thread_def)
  moreover have "copy_ok C st t c'" "flight C st c' = 0" for st
    using assms(9,10) by (cases c'; simp)+
  moreover have "flight C st (pcs S t) = 0" for st
    using assms(8) by (cases "pcs S t"; simp)
  moreover from calculation have "inv C S' \<and> total C S' = total C S"
    using assms(4) by (intro moves_step [OF assms(1,3), where c' = c' and s' = s'])
  moreover from calculation have "barrier_ok C S'"
    using barrier_busy [OF assms(2,3,5,6)] by blast
  ultimately show ?thesis by (simp add: follows_def)
qed

lemma idle_moves:
  assumes "stack_ok C s" "pc_ok s c" "c \<in> {Barrier, Spin, Leave, Left_barrier}" "pc_ok s c'" "pend s c' = 0" "wakeups s \<le> z"
    and "s' = s\<lparr>falseWakeups := x, nNodes_last := y, wakeups := z\<rparr>"
  shows "moves C s c s' c'"
proof -
  have "pc_ok s' c' \<and> pend s' c' = 0" using assms(4,5,7) by (induction c') auto
  then show ?thesis using assms by (auto simp: moves_def local_defs keeps_def)
qed

lemma follows_idle:
  assumes "inv C S" "t < num_threads C" "pcs S t \<in> {Barrier, Spin, Leave, Left_barrier}"
    and "pcs S' = (pcs S)(t := c')" "stealStack S' = (stealStack S)(t := (stealStack S t)\<lparr>falseWakeups := x, nNodes_last := y, wakeups := z\<rparr>)"
    and "c' \<in> {Spin, Leave, Left_barrier, Finished, Loop}" "barrier_ok C S'" "wakeups (stealStack S t) \<le> z"
  shows "follows C t S S'"
proof -
  have ok: "stack_ok C (stealStack S t)" "pc_ok (stealStack S t) (pcs S t)" using assms(1,2) by (auto simp: inv_def thread_ok_def)
  have "inv C S' \<and> total C S' = total C S"
    by (rule moves_step [OF assms(1,2,4,5)], rule idle_moves [OF ok assms(3) _ _ assms(8) refl]) (use assms(3,6) ok in auto)
  then show ?thesis using assms(7) by (simp add: follows_def)
qed

lemma same_wake: "s\<lparr>falseWakeups := falseWakeups s, nNodes_last := nNodes_last s, wakeups := wakeups s\<rparr> = s" for s :: "'s sstack"
  by simp

theorem step_ok:
  assumes I: "inv C S" "barrier_ok C S" and C: "ok_setting C" and t: "t < num_threads C"
    and step: "thread_step F R P C t S = Some res"
  shows "(\<exists>e. res = Inl e \<and> stops (stealStack S t) e) \<or> (\<exists>S'. res = Inr S' \<and> follows C t S S')"
proof -
  have K: "chunk_ok C" "0 < chunkSize C" "cbint C \<noteq> 0" using C by (simp_all add: ok_setting_def chunk_ok_def)
  define s where "s = stealStack S t"
  have ok: "stack_ok C s" "pc_ok s (pcs S t)" using I t by (auto simp: inv_def thread_ok_def s_def)
  have self: "S\<lparr>stealStack := (stealStack S)(t := s)\<rparr> = S" by (simp add: s_def)
  note go = follows_moves [OF I t, folded s_def]
  have rel: "releaseNodes C t c S = Inl int_overflow \<and> full s \<or> (\<exists>S'. releaseNodes C t c S = Inr S' \<and> follows C t S S')"
    if c: "c = Loop \<or> c = Release \<or> (\<exists>p ty n i. c = Gen p ty n i)" "pc_ok s c" "pend s c = pend s (pcs S t)"
      and b: "busy (pcs S t)" "\<And>u. pcs S t \<noteq> Steal u" "\<And>u src j. pcs S t \<noteq> Copy u src j" for c
  proof (cases "releaseNodes C t c S = Inl int_overflow \<and> full s")
    case False
    then obtain s' c' where r: "releaseNodes C t c S = Inr (put_thread t s' c' S)" "moves C s c s' c'" "c' = c \<or> c' = Cancel c"
      using release_moves [OF ok(1) c(2) K(1) c(1) K(3), of t S] self by auto
    have "moves C s (pcs S t) s' c'" using r(2) c(3) by (simp add: moves_def)
    then have "follows C t S (put_thread t s' c' S)"
      using r(3) c(1) by (intro go b) (auto simp: busy_def)
    then show ?thesis using r(1) by blast
  qed simp
  show ?thesis
  proof (cases "pcs S t")
    case Loop
    show ?thesis
    proof (cases "localStart s < stackTop s")
      case False
      then have e: "localStart s = stackTop s" using ok(1) by (simp add: stack_ok_def)
      show ?thesis
      proof (cases "ss_acquire s (chunkSize C) = Inl int_overflow \<and> full s")
        case True
        then show ?thesis
          using step Loop False by (auto simp: thread_step_def search_loop_def s_def [symmetric] ss_localDepth_def Let_def stops_def)
      next
        case no: False
      obtain ok' s' where a: "ss_acquire s (chunkSize C) = Inr (ok', s')"
          "moves C s Loop s' (if ok' then Loop else if doSteal C \<noteq> 0 then Find 1 else Barrier)"
        using acquire_moves [OF ok(1) e K(2) refl] no by blast
      define c' where "c' = (if ok' then Loop else if doSteal C \<noteq> 0 then Find 1 else Barrier)"
      have "follows C t S (put_thread t s' c' S)"
        by (rule go [where s' = s' and c' = c']) (use a(2) Loop in \<open>auto simp: c'_def busy_def split: if_splits\<close>)
      then show ?thesis
        using step Loop False a(1) by (auto simp: thread_step_def search_loop_def s_def [symmetric] ss_localDepth_def c'_def Let_def)
      qed
    next
      case True
      have top: "0 \<le> stackTop s - 1" "stackTop s - 1 < int (length (stack s))" using ok(1) True by (auto simp: stack_ok_def)
      show ?thesis
      proof (cases "numChildren (stack s ! nat (stackTop s - 1)) < 0")
        case neg: True
        show ?thesis
        proof (cases "gen_start F R P t (stackTop s - 1) (stack s ! nat (stackTop s - 1)) S = Inl int_overflow \<and> full s")
          case over: True
          then show ?thesis
            using step Loop True neg top
            by (auto simp: thread_step_def search_loop_def s_def [symmetric] ss_localDepth_def ss_top_def Let_def stops_def)
        next
          case no: False
        obtain s' c' where g: "gen_start F R P t (stackTop s - 1) (stack s ! nat (stackTop s - 1)) S = Inr (put_thread t s' c' S)"
            "moves C s Loop s' c'" "c' = Release \<or> (\<exists>p ty n i. c' = Gen p ty n i)"
          using gen_start_moves [OF ok(1) True neg s_def] no by blast
        have "follows C t S (put_thread t s' c' S)"
          by (rule go [where s' = s' and c' = c']) (use g(2,3) Loop in \<open>auto simp: busy_def\<close>)
        then show ?thesis
          using step Loop True neg top g(1)
          by (auto simp: thread_step_def search_loop_def s_def [symmetric] ss_localDepth_def ss_top_def Let_def)
        qed
      next
        case nn: False
        have "follows C t S (put_thread t (s\<lparr>stackTop := stackTop s - 1\<rparr>) Release S)"
          by (rule go [where s' = "s\<lparr>stackTop := stackTop s - 1\<rparr>" and c' = Release])
            (use pop_moves(2) [OF ok(1) True] nn Loop in \<open>auto simp: busy_def\<close>)
        then show ?thesis
          using step Loop True nn top pop_moves(1) [OF ok(1) True]
          by (auto simp: thread_step_def search_loop_def s_def [symmetric] ss_localDepth_def ss_top_def Let_def)
      qed
    qed
  next
    case (Gen p ty n i)
    show ?thesis
    proof (cases "gen_child R P t p ty n i S = Inl ''ss_push: overflow'' \<or> gen_child R P t p ty n i S = Inl int_overflow \<and> full s")
      case True
      then show ?thesis using step Gen by (auto simp: thread_step_def stops_def overflow_def s_def)
    next
      case False
      then obtain s' where g: "gen_child R P t p ty n i S = Inr (put_thread t s' (Pushed p ty n i) S)"
          "moves C s (Gen p ty n i) s' (Pushed p ty n i)"
        using gen_child_moves [OF ok(1) ok(2) [unfolded Gen] s_def] False by blast
      have "follows C t S (put_thread t s' (Pushed p ty n i) S)"
        by (rule go [where s' = s' and c' = "Pushed p ty n i"]) (use g(2) Gen in \<open>auto simp: busy_def\<close>)
      then show ?thesis using step Gen g(1) by (auto simp: thread_step_def)
    qed
  next
    case (Pushed p ty n i)
    define c where "c = (if i + 1 < n then Gen p ty n (i + 1) else Release)"
    have "releaseNodes C t c S = Inl int_overflow \<and> full s \<or> (\<exists>S'. releaseNodes C t c S = Inr S' \<and> follows C t S S')"
      by (rule rel) (use ok(2) Pushed in \<open>auto simp: c_def busy_def\<close>)
    then show ?thesis using step Pushed by (auto simp: thread_step_def c_def stops_def s_def)
  next
    case Release
    have "releaseNodes C t Loop S = Inl int_overflow \<and> full s \<or> (\<exists>S'. releaseNodes C t Loop S = Inr S' \<and> follows C t S S')"
      by (rule rel) (use Release in \<open>auto simp: busy_def\<close>)
    then show ?thesis using step Release by (auto simp: thread_step_def stops_def s_def)
  next
    case (Cancel c)
    have "follows C t S (put_thread t s c (S\<lparr>cb_cancel := 1\<rparr>))"
      by (rule go [where s' = s and c' = c]) (use ok Cancel in \<open>auto simp: busy_def intro!: moves_refl\<close>)
    then show ?thesis using step Cancel
      by (auto simp: thread_step_def cbarrier_cancel_def goto_put s_def)
  next
    case (Find i)
    define u where "u = (t + nat i) mod num_threads C"
    define c' where "c' = (if i < int (num_threads C) then if workAvail (stealStack S u) \<ge> chunkSize C then Steal u else Find (i + 1) else Barrier)"
    have i: "1 \<le> i" using ok(2) Find by simp
    have u: "u < num_threads C \<and> u \<noteq> t" if "i < int (num_threads C)"
    proof -
      have "u \<noteq> t"
      proof
        assume "u = t"
        then have "(t + nat i) mod num_threads C = (t + 0) mod num_threads C" using t by (simp add: u_def)
        then have "num_threads C dvd nat i" by (simp add: mod_eq_dvd_iff_nat)
        then show False using i that by (auto dest!: dvd_imp_le)
      qed
      then show ?thesis using t by (simp add: u_def)
    qed
    have "follows C t S (put_thread t s c' S)"
      by (rule go [where s' = s and c' = c']) (use ok Find u i in \<open>auto simp: c'_def busy_def intro!: moves_refl split: if_splits\<close>)
    moreover have "findwork C t i S = put_thread t s c' S"
      by (simp add: findwork_def goto_put s_def c'_def u_def Let_def)
    ultimately show ?thesis using step Find by (auto simp: thread_step_def)
  next
    case (Steal u)
    show ?thesis
      using steal_step [OF I(1) t Steal K(1)] step Steal barrier_busy [OF I(2) t]
      by (auto simp: thread_step_def stops_def overflow_def follows_def busy_def)
  next
    case (Copy u src j)
    show ?thesis
      using copy_step [OF I(1) t Copy K(2)] step Copy barrier_busy [OF I(2) t]
      by (auto simp: thread_step_def stops_def follows_def busy_def)
  next
    case Barrier
    have "follows C t S (entered C t S)"
      by (rule follows_idle [OF I(1) t, where c' = Spin and z = "wakeups (stealStack S t)" and
            y = "nNodes (stealStack S t)" and x = "if nNodes_last (stealStack S t) = nNodes (stealStack S t) then falseWakeups (stealStack S t) + 1 else falseWakeups (stealStack S t)"])
        (use Barrier barrier_moves(1) [OF I(2) t] in \<open>auto simp: entered_def Let_def put_thread_def\<close>)
    then show ?thesis using step Barrier by (auto simp: thread_step_def cb_enter_eq stops_def full_simps split: if_splits)
  next
    case Spin
    have "follows C t S (cb_spin t S)"
    proof (cases "cb_cancel S = 0 \<and> cb_done S = 0")
      case True
      then show ?thesis using I by (simp add: cb_spin_def follows_def)
    next
      case False
      show ?thesis
        by (rule follows_idle [OF I(1) t, where c' = Leave and z = "wakeups (stealStack S t)" and y = "nNodes_last (stealStack S t)" and
            x = "falseWakeups (stealStack S t)"])
          (use Spin False barrier_moves(2) [OF I(2) t] in \<open>auto simp: cb_spin_def goto_def\<close>)
    qed
    then show ?thesis using step Spin by (auto simp: thread_step_def)
  next
    case Leave
    have "follows C t S (left t S)"
      by (rule follows_idle [OF I(1) t, where c' = Left_barrier and z = "wakeups (stealStack S t) + 1" and y = "nNodes_last (stealStack S t)" and
            x = "falseWakeups (stealStack S t)"])
        (use Leave barrier_moves(3) [OF I(2) t] in \<open>auto simp: left_def Let_def put_thread_def\<close>)
    then show ?thesis using step Leave by (auto simp: thread_step_def cb_leave_eq stops_def full_simps split: if_splits)
  next
    case Left_barrier
    have "follows C t S (cb_return t S)"
      by (rule follows_idle [OF I(1) t, where c' = "if cb_done S = 0 then Loop else Finished" and z = "wakeups (stealStack S t)" and
            y = "nNodes_last (stealStack S t)" and x = "falseWakeups (stealStack S t)"])
        (use Left_barrier barrier_moves(4) [OF I(2) t] in \<open>auto simp: cb_return_def goto_def\<close>)
    then show ?thesis using step Left_barrier by (auto simp: thread_step_def)
  next
    case Finished
    then show ?thesis using step by (simp add: thread_step_def)
  qed
qed

text \<open>Runs.\<close>

lemma reachable_ok:
  assumes "reachable F R P C S0 S" "inv C S0" "barrier_ok C S0" "ok_setting C"
  shows "inv C S \<and> barrier_ok C S \<and> total C S = total C S0"
  using assms
proof (induction rule: reachable.induct)
  case (step S t S')
  then have "inv C S" "barrier_ok C S" "total C S = total C S0" by blast+
  from step_ok [OF this(1,2) step.prems(3) step.hyps(2,3)] this(3) show ?case by (auto simp: follows_def)
qed blast

lemma init_stacks_ok:
  "init_stacks nelts mem n st0 = Inr st \<Longrightarrow> t < n \<Longrightarrow> \<exists>b. mem t = Some b \<and> stack (st t) = b \<and> stackSize (st t) = nelts \<and>
     sharedStart (st t) = 0 \<and> localStart (st t) = 0 \<and> stackTop (st t) = 0 \<and> workAvail (st t) = 0 \<and> nNodes (st t) = 0 \<and>
     nLeaves (st t) = 0 \<and> nAcquire (st t) = 0 \<and> nRelease (st t) = 0 \<and> nSteal (st t) = 0 \<and> nFail (st t) = 0 \<and>
     wakeups (st t) = 0"
proof (induction n arbitrary: st)
  case (Suc n)
  from Suc.prems(1) obtain st1 s where 1: "init_stacks nelts mem n st0 = Inr st1" "ss_init (mem n) nelts (st1 n) = Inr s" "st = st1(n := s)"
    by (auto split: sum.splits)
  show ?case
  proof (cases "t = n")
    case True
    then show ?thesis using 1(2,3) by (auto simp: ss_init_def ss_mkEmpty_def split: option.splits)
  next
    case False
    then show ?thesis using Suc.IH [OF 1(1)] Suc.prems(2) 1(3) by simp
  qed
qed simp

lemma start_ok:
  assumes S: "pthread_main C nelts mem root S0 = Inr S" and mem: "\<And>t b. t < num_threads C \<Longrightarrow> mem t = Some b \<Longrightarrow> int (length b) = nelts"
    and root: "good root" "numChildren root < 0" and C: "ok_setting C" "nelts \<le> 2 ^ 30"
  shows "inv C S \<and> barrier_ok C S \<and> total C S = a + v root"
proof -
  from S obtain st s where st: "init_stacks nelts mem (num_threads C) (stealStack S0) = Inr st" "ss_push (st 0) root = Inr s"
      "S = (cb_init S0)\<lparr>stealStack := st(0 := s), pcs := (\<lambda>_. Loop)\<rparr>"
    by (auto simp: pthread_main_def Let_def cb_init_def split: sum.splits)
  have N: "0 < num_threads C" using C by (simp add: ok_setting_def)
  note E = init_stacks_ok [OF st(1)]
  have s: "stack_ok C s \<and> base C s = a + v root"
    using E [OF N] mem [OF N] st(2) root C(2)
    by (auto simp: ss_push_def stack_ok_def base_def node_ok_def wgt_def Suc_le_eq plus32_def split: if_splits option.splits)
  have e: "stack_ok C (st t) \<and> base C (st t) = 0" if "t < num_threads C" for t
    using E [OF that] mem [OF that] C(2) by (auto simp: stack_ok_def base_def)
  have "inv C S" using s e by (auto simp: inv_def thread_ok_def st(3))
  moreover have "barrier_ok C S"
    using N by (auto simp: barrier_ok_def st(3) cb_init_def waiting_def)
  moreover have "total C S = (\<Sum>t<num_threads C. if t = 0 then a + v root else 0)"
    unfolding total_def by (rule sum.cong) (use s e in \<open>auto simp: contrib_def st(3)\<close>)
  ultimately show ?thesis using N by simp
qed

lemma finished_ok:
  assumes "inv C S" "barrier_ok C S" "t < num_threads C" "pcs S t = Finished" and u: "u < num_threads C"
  shows "sharedStart (stealStack S u) = stackTop (stealStack S u)" "localStart (stealStack S u) = stackTop (stealStack S u)"
    "contrib C (stealStack S) u (pcs S u) = a * nNodes (stealStack S u) + b * nLeaves (stealStack S u) +
       r * (chunkSize C * (nRelease (stealStack S u) - nAcquire (stealStack S u) - nSteal (stealStack S u)))"
proof -
  have "\<not> busy (pcs S u)" using assms by (auto simp: barrier_ok_def)
  moreover have "stack_ok C (stealStack S u)" "pc_ok (stealStack S u) (pcs S u)" using assms(1) u by (auto simp: inv_def thread_ok_def)
  ultimately show "sharedStart (stealStack S u) = stackTop (stealStack S u)" "localStart (stealStack S u) = stackTop (stealStack S u)"
    "contrib C (stealStack S) u (pcs S u) = a * nNodes (stealStack S u) + b * nLeaves (stealStack S u) +
       r * (chunkSize C * (nRelease (stealStack S u) - nAcquire (stealStack S u) - nSteal (stealStack S u)))"
    by (auto simp: busy_def stack_ok_def contrib_def base_def)
qed

lemma started_ok:
  assumes "started C nelts mem root S0" "good root" "reachable F R P C S0 S"
  shows "inv C S" "barrier_ok C S" "ok_setting C" "total C S = a + v root"
proof -
  have C: "ok_setting C" "nelts \<le> 2 ^ 30" and n: "numChildren root < 0"
    and m: "\<And>t b. t < num_threads C \<Longrightarrow> mem t = Some b \<Longrightarrow> int (length b) = nelts"
    using assms(1) by (auto simp: started_def)
  from assms(1) obtain S00 where S0: "pthread_main C nelts mem root S00 = Inr S0" by (auto simp: started_def)
  note st = start_ok [OF S0 m assms(2) n C]
  show "ok_setting C" by fact
  show "inv C S" "barrier_ok C S" "total C S = a + v root"
    using reachable_ok [OF assms(3) _ _ C(1)] st by auto
qed

lemma safe:
  assumes "started C nelts mem root S0" "good root" "reachable F R P C S0 S" "t < num_threads C"
  shows "stack_shape (stealStack S t)"
    "thread_step F R P C t S = Some res \<Longrightarrow> (\<exists>e. res = Inl e \<and> stops (stealStack S t) e) \<or> (\<exists>S'. res = Inr S')"
proof -
  note st = started_ok [OF assms(1-3)]
  have "stack_ok C (stealStack S t)" using st(1) assms(4) by (simp add: inv_def thread_ok_def)
  then show "stack_shape (stealStack S t)" by (auto simp: stack_ok_def stack_shape_def)
  show "thread_step F R P C t S = Some res \<Longrightarrow> (\<exists>e. res = Inl e \<and> stops (stealStack S t) e) \<or> (\<exists>S'. res = Inr S')"
    using step_ok [OF st(1-3) assms(4)] by blast
qed

lemma wakeups_nonneg:
  assumes "started C nelts mem root S0" "good root" "reachable F R P C S0 S" "t < num_threads C"
  shows "0 \<le> wakeups (stealStack S t)"
  using started_ok(1) [OF assms(1-3)] assms(4) by (simp add: inv_def thread_ok_def stack_ok_def)

lemma result:
  assumes "started C nelts mem root S0" "good root" "reachable F R P C S0 S" "t < num_threads C" "pcs S t = Finished"
  shows "(\<Sum>u<num_threads C. a * nNodes (stealStack S u) + b * nLeaves (stealStack S u) +
       r * (chunkSize C * (nRelease (stealStack S u) - nAcquire (stealStack S u) - nSteal (stealStack S u)))) = a + v root"
    and "u < num_threads C \<Longrightarrow> sharedStart (stealStack S u) = stackTop (stealStack S u)"
    and "u < num_threads C \<Longrightarrow> counts_ok (stealStack S u)"
proof -
  note st = started_ok [OF assms(1-3)]
  note fin = finished_ok [OF st(1,2) assms(4,5)]
  show "u < num_threads C \<Longrightarrow> sharedStart (stealStack S u) = stackTop (stealStack S u)" by (rule fin)
  show "u < num_threads C \<Longrightarrow> counts_ok (stealStack S u)" using st(1) by (simp add: inv_def thread_ok_def stack_ok_def)
  have "total C S = (\<Sum>u<num_threads C. a * nNodes (stealStack S u) + b * nLeaves (stealStack S u) +
       r * (chunkSize C * (nRelease (stealStack S u) - nAcquire (stealStack S u) - nSteal (stealStack S u))))"
    unfolding total_def by (rule sum.cong) (use fin in auto)
  then show "(\<Sum>u<num_threads C. a * nNodes (stealStack S u) + b * nLeaves (stealStack S u) +
       r * (chunkSize C * (nRelease (stealStack S u) - nAcquire (stealStack S u) - nSteal (stealStack S u)))) = a + v root"
    using st(4) by simp
qed

end

section \<open>Nodes, leaves and chunks\<close>

lemma sum_list_of_nat: "(\<Sum>t\<leftarrow>ts. int (f t)) = int (\<Sum>t\<leftarrow>ts. f t)"
  by (induction ts) auto

lemma sum_int_list: "(\<Sum>j\<in>{0..<int (length ts)}. f (ts ! nat j)) = (\<Sum>t\<leftarrow>ts. f t :: int)"
proof -
  have "(\<Sum>j\<in>{0..<int (length ts)}. f (ts ! nat j)) = (\<Sum>i\<in>{0..<length ts}. f (ts ! i))"
    by (rule sum.reindex_bij_witness [where i = int and j = nat]) auto
  then show ?thesis by (simp add: sum_list_sum_nth)
qed

definition growing :: "'d floats \<Rightarrow> 's rng \<Rightarrow> 'd params \<Rightarrow> 's node \<Rightarrow> bool" where
  "growing F R P x \<longleftrightarrow> (\<exists>t. grows F R P x t)"

lemma growing_cases:
  assumes "growing F R P x"
  obtains ts ty where "tree_of F R P x = Rose ts" "uts_numChildren F R P x = Some (int (length ts))" "uts_childType F P x = Some ty"
    "i32 (node_height x + 1) = Some (node_height x + 1)"
    "\<And>j. 0 \<le> j \<Longrightarrow> j < int (length ts) \<Longrightarrow> make_child R P x ty j \<noteq> None \<and> growing F R P (kid R P x ty j) \<and>
       tree_of F R P (kid R P x ty j) = ts ! nat j"
proof -
  from assms obtain t where t: "grows F R P x t" by (auto simp: growing_def)
  then show thesis
  proof cases
    case (1 ts ty)
    have "make_child R P x ty j \<noteq> None \<and> growing F R P (kid R P x ty j) \<and> tree_of F R P (kid R P x ty j) = ts ! nat j"
      if "0 \<le> j" "j < int (length ts)" for j
    proof -
      have "nat j < length ts" "int (nat j) = j" using that by simp_all
      then have "make_child R P x ty j \<noteq> None \<and> grows F R P (kid R P x ty j) (ts ! nat j)" using 1(6) by metis
      then show ?thesis by (auto simp: growing_def tree_of_grows)
    qed
    then show thesis using 1(1-5) tree_of_grows [OF t] by (intro that [of ts ty]) (auto simp: i32_def)
  qed
qed

interpretation nodes: accounting F R P "growing F R P" "\<lambda>x. int (rsize (tree_of F R P x)) - 1" 1 0 0 for F R P
proof
  fix x assume "growing F R P x"
  then show "\<exists>n ty. uts_numChildren F R P x = Some n \<and> uts_childType F P x = Some ty \<and> 0 \<le> n \<and>
      int (rsize (tree_of F R P x)) - 1 = (if n > 0 then (\<Sum>j\<in>{0..<n}. 1 + (int (rsize (tree_of F R P (kid R P x ty j))) - 1)) else 0) \<and>
      i32 (node_height x + 1) = Some (node_height x + 1) \<and>
      (\<forall>j. 0 \<le> j \<longrightarrow> j < n \<longrightarrow> make_child R P x ty j \<noteq> None \<and> growing F R P (kid R P x ty j))"
  proof (rule growing_cases)
    fix ts ty assume A: "tree_of F R P x = Rose ts" "uts_numChildren F R P x = Some (int (length ts))" "uts_childType F P x = Some ty"
      "i32 (node_height x + 1) = Some (node_height x + 1)"
      "\<And>j. 0 \<le> j \<Longrightarrow> j < int (length ts) \<Longrightarrow> make_child R P x ty j \<noteq> None \<and> growing F R P (kid R P x ty j) \<and>
         tree_of F R P (kid R P x ty j) = ts ! nat j"
    have "(\<Sum>j\<in>{0..<int (length ts)}. 1 + (int (rsize (tree_of F R P (kid R P x ty j))) - 1)) = (\<Sum>j\<in>{0..<int (length ts)}. int (rsize (ts ! nat j)))"
      by (rule sum.cong) (use A(5) in auto)
    then show ?thesis using A by (intro exI [of _ "int (length ts)"] exI [of _ ty]) (simp add: sum_int_list [of "\<lambda>t. int (rsize t)" ts] sum_list_of_nat)
  qed
qed

interpretation leaves: accounting F R P "growing F R P" "\<lambda>x. int (rleaves (tree_of F R P x))" 0 1 0 for F R P
proof
  fix x assume "growing F R P x"
  then show "\<exists>n ty. uts_numChildren F R P x = Some n \<and> uts_childType F P x = Some ty \<and> 0 \<le> n \<and>
      int (rleaves (tree_of F R P x)) = (if n > 0 then (\<Sum>j\<in>{0..<n}. 0 + int (rleaves (tree_of F R P (kid R P x ty j)))) else 1) \<and>
      i32 (node_height x + 1) = Some (node_height x + 1) \<and>
      (\<forall>j. 0 \<le> j \<longrightarrow> j < n \<longrightarrow> make_child R P x ty j \<noteq> None \<and> growing F R P (kid R P x ty j))"
  proof (rule growing_cases)
    fix ts ty assume A: "tree_of F R P x = Rose ts" "uts_numChildren F R P x = Some (int (length ts))" "uts_childType F P x = Some ty"
      "i32 (node_height x + 1) = Some (node_height x + 1)"
      "\<And>j. 0 \<le> j \<Longrightarrow> j < int (length ts) \<Longrightarrow> make_child R P x ty j \<noteq> None \<and> growing F R P (kid R P x ty j) \<and>
         tree_of F R P (kid R P x ty j) = ts ! nat j"
    have "(\<Sum>j\<in>{0..<int (length ts)}. 0 + int (rleaves (tree_of F R P (kid R P x ty j)))) = (\<Sum>j\<in>{0..<int (length ts)}. int (rleaves (ts ! nat j)))"
      by (rule sum.cong) (use A(5) in auto)
    then show ?thesis using A by (intro exI [of _ "int (length ts)"] exI [of _ ty]) (simp add: sum_int_list [of "\<lambda>t. int (rleaves t)" ts] sum_list_of_nat)
  qed
qed

interpretation chunks: accounting F R P "growing F R P" "\<lambda>_. 0" 0 0 1 for F R P
proof
  fix x assume "growing F R P x"
  then show "\<exists>n ty. uts_numChildren F R P x = Some n \<and> uts_childType F P x = Some ty \<and> 0 \<le> n \<and>
      0 = (if n > 0 then (\<Sum>j\<in>{0..<n}. 0 + (0::int)) else 0) \<and> i32 (node_height x + 1) = Some (node_height x + 1) \<and>
      (\<forall>j. 0 \<le> j \<longrightarrow> j < n \<longrightarrow> make_child R P x ty j \<noteq> None \<and> growing F R P (kid R P x ty j))"
    by (rule growing_cases) auto
qed

section \<open>Safety, the result, and the end of the search\<close>

definition zero_totals :: totals where
  "zero_totals = \<lparr>tnodes = 0, tleaves = 0, trel = 0, tacq = 0, tsteal = 0, tfail = 0, mdepth = 0, mheight = 0\<rparr>"

lemma i32_total: "0 \<le> a \<Longrightarrow> 0 \<le> b \<Longrightarrow> a + b < 2 ^ 31 \<Longrightarrow> i32 (a + b) = Some (a + b)"
  by (rule i32_in) simp_all

lemma totals_add:
  assumes "\<And>i. i < n \<Longrightarrow> counts_ok (st i)" "(\<Sum>i<n. nNodes (st i)) < 2 ^ 31" "(\<Sum>i<n. nLeaves (st i)) < 2 ^ 31"
    "(\<Sum>i<n. nRelease (st i)) < 2 ^ 31" "(\<Sum>i<n. nAcquire (st i)) < 2 ^ 31" "(\<Sum>i<n. nSteal (st i)) < 2 ^ 31" "(\<Sum>i<n. nFail (st i)) < 2 ^ 31"
  shows "\<exists>a. for_each (\<lambda>i. add_stats (st i)) [0..<n] zero_totals = Some a \<and> tnodes a = (\<Sum>i<n. nNodes (st i)) \<and>
    tleaves a = (\<Sum>i<n. nLeaves (st i)) \<and> trel a = (\<Sum>i<n. nRelease (st i)) \<and> tacq a = (\<Sum>i<n. nAcquire (st i)) \<and>
    tsteal a = (\<Sum>i<n. nSteal (st i)) \<and> tfail a = (\<Sum>i<n. nFail (st i))"
  using assms
proof (induction n)
  case (Suc n)
  have c: "counts_ok (st n)" "\<And>i. i < n \<Longrightarrow> counts_ok (st i)" using Suc.prems(1) by simp_all
  have z: "0 \<le> (\<Sum>i<n. nNodes (st i))" "0 \<le> (\<Sum>i<n. nLeaves (st i))" "0 \<le> (\<Sum>i<n. nRelease (st i))" "0 \<le> (\<Sum>i<n. nAcquire (st i))"
    "0 \<le> (\<Sum>i<n. nSteal (st i))" "0 \<le> (\<Sum>i<n. nFail (st i))"
    using c(2) by (auto intro!: sum_nonneg)
  obtain a where a: "for_each (\<lambda>i. add_stats (st i)) [0..<n] zero_totals = Some a" "tnodes a = (\<Sum>i<n. nNodes (st i))"
    "tleaves a = (\<Sum>i<n. nLeaves (st i))" "trel a = (\<Sum>i<n. nRelease (st i))" "tacq a = (\<Sum>i<n. nAcquire (st i))"
    "tsteal a = (\<Sum>i<n. nSteal (st i))" "tfail a = (\<Sum>i<n. nFail (st i))"
    using Suc.IH [OF c(2)] Suc.prems(2-) c(1) by fastforce
  have "\<exists>b. add_stats (st n) a = Some b \<and> tnodes b = tnodes a + nNodes (st n) \<and> tleaves b = tleaves a + nLeaves (st n) \<and>
    trel b = trel a + nRelease (st n) \<and> tacq b = tacq a + nAcquire (st n) \<and> tsteal b = tsteal a + nSteal (st n) \<and> tfail b = tfail a + nFail (st n)"
    using c(1) z Suc.prems(2-) by (simp add: add_stats_def a(2-) i32_total)
  then show ?case using a by (auto simp: for_each_append)
qed (simp add: zero_totals_def)

text \<open>C10: whatever the interleaving of the threads is, the only errors a step can end the program with are the two
  overflows of a stack, and the overflow of a counter of the thread that has reached the largest \<open>int\<close> (after \<open>2^31 - 1\<close> nodes, say):
  with chunks of less than \<open>2^30\<close> nodes and stacks of at most \<open>2^30\<close> no other sum overflows, no access is outside a stack, no node is taken from an empty one, the thief never finds
  the victim's counters inconsistent, and \<open>0 \<le> sharedStart \<le> local \<le> top \<le> stackSize\<close> with \<open>workAvail\<close> the
  size of the shared part.  The barrier counts the threads that wait in it, and when all of them do it is
  open.\<close>

theorem parallel_search_safe:
  assumes "started C nelts mem root S0" "growing F R P root" "reachable F R P C S0 S" "t < num_threads C"
  shows "stack_shape (stealStack S t) \<and>
    (\<forall>res. thread_step F R P C t S = Some res \<longrightarrow> (\<exists>e. res = Inl e \<and> stops (stealStack S t) e) \<or> (\<exists>S'. res = Inr S')) \<and>
    cb_count S = int (card (waiting C (pcs S))) \<and>
    ((\<forall>u<num_threads C. pcs S u = Spin) \<longrightarrow> cb_done S \<noteq> 0)"
proof (intro conjI allI impI)
  show "stack_shape (stealStack S t)" by (rule nodes.safe(1) [OF assms])
  show "(\<exists>e. res = Inl e \<and> stops (stealStack S t) e) \<or> (\<exists>S'. res = Inr S')" if "thread_step F R P C t S = Some res" for res
    by (rule nodes.safe(2) [OF assms that])
  have B: "barrier_ok C S" by (rule nodes.started_ok [OF assms(1-3)])
  then show "cb_count S = int (card (waiting C (pcs S)))" by (simp add: barrier_ok_def)
  assume "\<forall>u<num_threads C. pcs S u = Spin"
  then have "waiting C (pcs S) = {..<num_threads C}" by (auto simp: waiting_def)
  then show "cb_done S \<noteq> 0" using B by (simp add: barrier_ok_def)
qed

lemma rleaves_le: "rleaves T \<le> rsize T"
proof (induction T)
  case (Rose ts)
  then have "sum_list (List.map rleaves ts) \<le> sum_list (List.map rsize ts)" by (intro sum_list_mono) simp
  then show ?case by simp
qed

text \<open>C9: when the barrier lets a thread finish, no thread has work left, and the statistics add up to the tree, in
  every interleaving, for a tree of less than \<open>2^31\<close> nodes and as long as less than \<open>2^31\<close> chunks were released and less than
  \<open>2^31\<close> steals failed, the range of the \<open>int\<close> totals: the nodes and leaves that \<open>showStats\<close> totals are those of the tree, hence those that the
  sequential search of \<open>uts_dfs.c\<close> counts, and its check of released against acquired and stolen chunks finds no
  error.\<close>

theorem parallel_search_counts_tree:
  assumes "started C nelts mem root S0" "grows F R P root T" "reachable F R P C S0 S" "t < num_threads C" "pcs S t = Finished"
    and "int (rsize T) < 2 ^ 31" "(\<Sum>u<num_threads C. nRelease (stealStack S u)) < 2 ^ 31" "(\<Sum>u<num_threads C. nFail (stealStack S u)) < 2 ^ 31"
  shows "(\<exists>tot q. showStats C S = Some (tot, False) \<and> tnodes tot = int (rsize T) \<and> tleaves tot = int (rleaves T) \<and>
      parTreeSearch F R P (node_height root) root = Some q \<and> size_r q = word_of_int (tnodes tot) \<and> leaves q = word_of_int (tleaves tot)) \<and>
    (\<forall>u<num_threads C. sharedStart (stealStack S u) = stackTop (stealStack S u))"
proof -
  have g: "growing F R P root" "tree_of F R P root = T" using assms(2) by (auto simp: growing_def tree_of_grows)
  note A = assms(1) g(1) assms(3-5)
  have n: "(\<Sum>u<num_threads C. nNodes (stealStack S u)) = int (rsize T)" using nodes.result(1) [OF A] g(2) by simp
  have l: "(\<Sum>u<num_threads C. nLeaves (stealStack S u)) = int (rleaves T)" using leaves.result(1) [OF A] g(2) by simp
  have "chunkSize C * (\<Sum>u<num_threads C. nRelease (stealStack S u) - nAcquire (stealStack S u) - nSteal (stealStack S u)) = 0"
    using chunks.result(1) [OF A] by (simp add: sum_distrib_left)
  moreover have "0 < chunkSize C" using assms(1) by (simp add: started_def ok_setting_def)
  ultimately have c: "(\<Sum>u<num_threads C. nRelease (stealStack S u)) =
      (\<Sum>u<num_threads C. nAcquire (stealStack S u)) + (\<Sum>u<num_threads C. nSteal (stealStack S u))"
    by (simp add: sum_subtractf)
  have search: "parTreeSearch F R P (node_height root) root = Some (counts (node_height root) T)"
    using grows_height [OF assms(2)] by (intro search_generates grows_generates [OF assms(2)]) auto
  have ok: "counts_ok (stealStack S u)" if "u < num_threads C" for u by (rule nodes.result(3) [OF A that])
  have p: "0 \<le> (\<Sum>u<num_threads C. nAcquire (stealStack S u))" "0 \<le> (\<Sum>u<num_threads C. nSteal (stealStack S u))"
    using ok by (auto intro!: sum_nonneg)
  have "rleaves T \<le> rsize T" by (rule rleaves_le)
  then obtain tot where tot: "for_each (\<lambda>i. add_stats (stealStack S i)) [0..<num_threads C] zero_totals = Some tot" "tnodes tot = int (rsize T)"
    "tleaves tot = int (rleaves T)" "trel tot = tacq tot + tsteal tot" "i32 (tacq tot + tsteal tot) = Some (tacq tot + tsteal tot)"
    using totals_add [of "num_threads C" "stealStack S", OF ok] n l c p assms(6-8) i32_total [OF p] by auto
  then show ?thesis
    using search nodes.result(2) [OF A] by (simp add: showStats_def counts_def zero_totals_def)
qed

section \<open>The barrier opens for everyone\<close>

text \<open>The steps a thread still needs.\<close>

fun exit_steps :: "pc \<Rightarrow> nat" where
  "exit_steps Spin = 3"
| "exit_steps Leave = 2"
| "exit_steps Left_barrier = 1"
| "exit_steps _ = 0"

text \<open>A thread that has the second critical section before it can count the wakeup.\<close>

definition can_wake :: "'s system \<Rightarrow> nat \<Rightarrow> bool" where
  "can_wake S t \<longleftrightarrow> (2 \<le> exit_steps (pcs S t) \<longrightarrow> i32 (wakeups (stealStack S t) + 1) \<noteq> None)"

lemma exit_step:
  assumes "cb_done S \<noteq> 0" "\<not> busy (pcs S t)" "can_wake S t"
  shows "thread_step F R P C t S = None \<and> pcs S t = Finished \<or>
    (\<exists>S'. thread_step F R P C t S = Some (Inr S') \<and> cb_done S' \<noteq> 0 \<and> (\<forall>u. u \<noteq> t \<longrightarrow> pcs S' u = pcs S u \<and> stealStack S' u = stealStack S u) \<and>
       can_wake S' t \<and> \<not> busy (pcs S' t) \<and> exit_steps (pcs S t) = Suc (exit_steps (pcs S' t)))"
  using assms
  by (cases "pcs S t")
    (auto simp: busy_def thread_step_def cb_spin_def cb_leave_eq left_def cb_return_def goto_def put_thread_def Let_def can_wake_def)

lemma exit_run:
  assumes "cb_done S \<noteq> 0" "\<forall>u<num_threads C. \<not> busy (pcs S u) \<and> can_wake S u" "set sched \<subseteq> {..<num_threads C}"
  shows "\<exists>S'. run F R P C sched S = Inr S' \<and> (\<forall>u<num_threads C. \<not> busy (pcs S' u) \<and>
    exit_steps (pcs S' u) = exit_steps (pcs S u) - count_list sched u)"
  using assms
proof (induction sched arbitrary: S)
  case (Cons t sched)
  have t: "t < num_threads C" using Cons.prems(3) by simp
  then have nb: "\<not> busy (pcs S t)" "can_wake S t" using Cons.prems(2) by simp_all
  from exit_step [OF Cons.prems(1) nb, of F R P C] show ?case
  proof (elim disjE exE conjE)
    assume "thread_step F R P C t S = None" "pcs S t = Finished"
    moreover obtain S' where "run F R P C sched S = Inr S'" "\<forall>u<num_threads C. \<not> busy (pcs S' u) \<and>
        exit_steps (pcs S' u) = exit_steps (pcs S u) - count_list sched u"
      using Cons.IH [of S] Cons.prems by auto
    ultimately show ?thesis by (intro exI [of _ S']) auto
  next
    fix S1 assume 1: "thread_step F R P C t S = Some (Inr S1)" "cb_done S1 \<noteq> 0" "\<forall>u. u \<noteq> t \<longrightarrow> pcs S1 u = pcs S u \<and> stealStack S1 u = stealStack S u"
      "can_wake S1 t" "\<not> busy (pcs S1 t)" "exit_steps (pcs S t) = Suc (exit_steps (pcs S1 t))"
    have "\<not> busy (pcs S1 u) \<and> can_wake S1 u" if "u < num_threads C" for u
      using 1(3-5) Cons.prems(2) that by (cases "u = t") (auto simp: can_wake_def)
    then obtain S' where "run F R P C sched S1 = Inr S'" "\<forall>u<num_threads C. \<not> busy (pcs S' u) \<and>
        exit_steps (pcs S' u) = exit_steps (pcs S1 u) - count_list sched u"
      using Cons.IH [of S1] 1(2) Cons.prems(3) by auto
    then show ?thesis using 1(1,3,6) by (intro exI [of _ S']) auto
  qed
qed simp

text \<open>C11: termination detection ends the program.  Once \<open>cb_done\<close> is set, no schedule can run into an error, and a
  thread that has made three more steps has finished, whatever the other threads do, as long as every thread can count
  one more wakeup.\<close>

theorem barrier_opens:
  assumes "started C nelts mem root S0" "growing F R P root" "reachable F R P C S0 S" "cb_done S \<noteq> 0"
    and "set sched \<subseteq> {..<num_threads C}" "\<forall>t<num_threads C. wakeups (stealStack S t) < 2 ^ 31 - 1"
  shows "\<exists>S'. run F R P C sched S = Inr S' \<and> (\<forall>t. t < num_threads C \<and> 3 \<le> count_list sched t \<longrightarrow> pcs S' t = Finished)"
proof -
  have "barrier_ok C S" by (rule nodes.started_ok [OF assms(1-3)])
  then have "\<not> busy (pcs S u)" if "u < num_threads C" for u using assms(4) that by (simp add: barrier_ok_def)
  moreover have "can_wake S u" if "u < num_threads C" for u
    using assms(6) nodes.wakeups_nonneg [OF assms(1-3) that] that by (simp add: can_wake_def i32_def)
  ultimately have "\<forall>u<num_threads C. \<not> busy (pcs S u) \<and> can_wake S u" by blast
  from exit_run [OF assms(4) this assms(5)] obtain S' where
    S': "run F R P C sched S = Inr S'" "\<forall>u<num_threads C. \<not> busy (pcs S' u) \<and> exit_steps (pcs S' u) = exit_steps (pcs S u) - count_list sched u"
    by blast
  have "exit_steps c \<le> 3" for c by (cases c) auto
  then have "pcs S' t = Finished" if "t < num_threads C" "3 \<le> count_list sched t" for t
  proof -
    have "exit_steps (pcs S' t) = 0"
      using S'(2) that \<open>exit_steps (pcs S t) \<le> 3\<close> by (metis diff_is_0_eq order_trans)
    then show ?thesis using S'(2) that(1) by (cases "pcs S' t") (auto simp: busy_def)
  qed
  then show ?thesis using S'(1) by blast
qed

section \<open>A run of two threads\<close>

text \<open>A root with two children; the second thread steals the root's slot while the first searches the children.\<close>

definition unit_rng :: "unit rng" where
  "unit_rng = \<lparr>r_init = (\<lambda>_. Some ()), r_spawn = (\<lambda>_ _. Some ()), r_rand = (\<lambda>_. Some 0)\<rparr>"

definition two_params :: "int params" where
  "two_params = default_params\<lparr>tree_type := BALANCED, b_0 := 2, gen_mx := 1\<rparr>"

definition two_root :: "unit node" where
  "two_root = \<lparr>node_type = BALANCED, node_height = 0, numChildren = -1, node_state = ()\<rparr>"

definition two_threads :: setting where
  "two_threads = \<lparr>num_threads = 2, chunkSize = 1, doSteal = 1, cbint = 1\<rparr>"

definition blank_stack :: "unit sstack" where
  "blank_stack = \<lparr>stackSize = 0, workAvail = 0, sharedStart = 0, localStart = 0, stackTop = 0, maxStackDepth = 0, nNodes = 0,
     maxTreeDepth = 0, nLeaves = 0, nAcquire = 0, nRelease = 0, nSteal = 0, nFail = 0, wakeups = 0, falseWakeups = 0,
     nNodes_last = 0, stack = []\<rparr>"

definition blank_system :: "unit system" where
  "blank_system = \<lparr>stealStack = (\<lambda>_. blank_stack), pcs = (\<lambda>_. Loop), cb_count = 0, cb_cancel = 0, cb_done = 0\<rparr>"

definition two_start :: "unit system" where
  "two_start = (case pthread_main two_threads 4 (\<lambda>_. Some (replicate 4 two_root)) two_root blank_system of Inr S \<Rightarrow> S | Inl _ \<Rightarrow> blank_system)"

definition schedule :: "nat list" where
  "schedule = replicate 7 0 @ replicate 7 1 @ concat (replicate 14 [0, 1])"

definition two_after :: "nat \<Rightarrow> unit system" where
  "two_after n = projr (run int_floats unit_rng two_params two_threads (take n schedule) two_start)"

lemma run_reachable:
  "reachable F R P C S0 S \<Longrightarrow> set sched \<subseteq> {..<num_threads C} \<Longrightarrow> \<not> isl (run F R P C sched S) \<Longrightarrow>
   reachable F R P C S0 (projr (run F R P C sched S))"
proof (induction sched arbitrary: S)
  case (Cons t sched)
  show ?case
  proof (cases "thread_step F R P C t S")
    case None
    then show ?thesis using Cons by simp
  next
    case (Some res)
    then obtain S' where S': "res = Inr S'" using Cons.prems(3) by (cases res) auto
    have "reachable F R P C S0 S'"
      using reachable.step [OF Cons.prems(1), of t S'] Cons.prems(2) Some S' by simp
    then show ?thesis using Cons Some S' by simp
  qed
qed simp

lemma two_reachable:
  assumes "\<not> isl (run int_floats unit_rng two_params two_threads (take n schedule) two_start)"
  shows "reachable int_floats unit_rng two_params two_threads two_start (two_after n)"
proof -
  have "set schedule \<subseteq> {..<num_threads two_threads}" by code_simp
  then have "set (take n schedule) \<subseteq> {..<num_threads two_threads}" using set_take_subset by fast
  from run_reachable [OF reachable.start this assms] show ?thesis by (simp add: two_after_def)
qed

lemma two_started: "started two_threads 4 (\<lambda>_. Some (replicate 4 two_root)) two_root two_start"
proof -
  have "\<not> isl (pthread_main two_threads 4 (\<lambda>_. Some (replicate 4 two_root)) two_root blank_system)" by code_simp
  then have "pthread_main two_threads 4 (\<lambda>_. Some (replicate 4 two_root)) two_root blank_system = Inr two_start"
    by (auto simp: two_start_def split: sum.splits)
  then show ?thesis by (auto simp: started_def ok_setting_def two_threads_def two_root_def)
qed

lemma two_grows: "grows int_floats unit_rng two_params two_root (Rose [Rose [], Rose []])"
proof -
  have leaf: "grows int_floats unit_rng two_params (kid unit_rng two_params two_root BALANCED (int i)) (Rose [])" for i
    by (rule grows.intros [where ty = BALANCED])
      (simp_all add: kid_def two_root_def uts_numChildren_def raw_children_def two_params_def default_params_def uts_childType_def
        make_child_def unit_rng_def int_floats_def to_i32_def for_range_step)
  show ?thesis
  proof (rule grows.intros [where ty = BALANCED])
    show "uts_numChildren int_floats unit_rng two_params two_root = Some (int (length [Rose [], Rose []]))"
      "uts_childType int_floats two_params two_root = Some BALANCED" "0 \<le> node_height two_root" "node_height two_root + 1 < 2 ^ 31"
      by code_simp+
    have "make_child unit_rng two_params two_root BALANCED 0 \<noteq> None" "make_child unit_rng two_params two_root BALANCED 1 \<noteq> None"
      by code_simp+
    then show "\<forall>i<length [Rose [], Rose []]. make_child unit_rng two_params two_root BALANCED (int i) \<noteq> None \<and>
        grows int_floats unit_rng two_params (kid unit_rng two_params two_root BALANCED (int i)) ([Rose [], Rose []] ! i)"
      using leaf [of 0] leaf [of 1] by (auto simp: less_Suc_eq)
  qed
qed

lemma two_growing: "growing int_floats unit_rng two_params two_root"
  using two_grows by (auto simp: growing_def)

lemma two_runs:
  assumes "n \<in> set [0..<length schedule + 1]"
  shows "\<not> isl (run int_floats unit_rng two_params two_threads (take n schedule) two_start)"
proof -
  have "list_all (\<lambda>n. \<not> isl (run int_floats unit_rng two_params two_threads (take n schedule) two_start)) [0..<length schedule + 1]"
    by code_simp
  then show ?thesis unfolding list_all_iff by (rule bspec) (rule assms)
qed

theorem parallel_search_safe_witness:
  "stack_shape (stealStack (two_after 11) 1) \<and>
   (\<exists>S'. thread_step int_floats unit_rng two_params two_threads 1 (two_after 11) = Some (Inr S')) \<and>
   cb_count (two_after 11) = int (card (waiting two_threads (pcs (two_after 11)))) \<and> cb_done (two_after 37) \<noteq> 0"
proof -
  have "11 \<in> set [0..<length schedule + 1]" "37 \<in> set [0..<length schedule + 1]" by code_simp+
  note r = this [THEN two_runs, THEN two_reachable]
  have t: "1 < num_threads two_threads" by code_simp
  note A = two_started two_growing r(1) t
  have "(case thread_step int_floats unit_rng two_params two_threads 1 (two_after 11) of Some (Inr _) \<Rightarrow> True | _ \<Rightarrow> False)" by code_simp
  then obtain S' where step: "thread_step int_floats unit_rng two_params two_threads 1 (two_after 11) = Some (Inr S')"
    by (auto split: option.splits sum.splits)
  have spin: "pcs (two_after 37) u = Spin" if "u < num_threads two_threads" for u
  proof -
    have "list_all (\<lambda>u. pcs (two_after 37) u = Spin) [0..<num_threads two_threads]" by code_simp
    then show ?thesis using that by (simp add: list_all_iff)
  qed
  show ?thesis
    using parallel_search_safe [OF A] step parallel_search_safe [OF two_started two_growing r(2) t] spin by auto
qed

theorem parallel_search_counts_tree_witness:
  "\<exists>tot q. showStats two_threads (two_after 42) = Some (tot, False) \<and> tnodes tot = 3 \<and> tleaves tot = 2 \<and>
    parTreeSearch int_floats unit_rng two_params 0 two_root = Some q \<and> size_r q = word_of_int (tnodes tot)"
proof -
  have "42 \<in> set [0..<length schedule + 1]" by code_simp
  note r = this [THEN two_runs, THEN two_reachable]
  have t: "1 < num_threads two_threads" "pcs (two_after 42) 1 = Finished" by code_simp+
  have b: "int (rsize (Rose [Rose [], Rose []])) < 2 ^ 31" by simp
  have "(\<Sum>u\<leftarrow>[0..<num_threads two_threads]. nRelease (stealStack (two_after 42) u)) < 2 ^ 31"
    "(\<Sum>u\<leftarrow>[0..<num_threads two_threads]. nFail (stealStack (two_after 42) u)) < 2 ^ 31" by code_simp+
  then have f: "(\<Sum>u<num_threads two_threads. nRelease (stealStack (two_after 42) u)) < 2 ^ 31"
    "(\<Sum>u<num_threads two_threads. nFail (stealStack (two_after 42) u)) < 2 ^ 31"
    by (simp_all only: interv_sum_list_conv_sum_set_nat atLeast0LessThan set_upt)
  show ?thesis
    using parallel_search_counts_tree [OF two_started two_grows r t b f] by (auto simp: two_root_def)
qed

theorem barrier_opens_witness:
  "\<exists>S'. run int_floats unit_rng two_params two_threads [0, 1, 0, 1, 1, 0] (two_after 37) = Inr S' \<and> pcs S' 0 = Finished \<and> pcs S' 1 = Finished"
proof -
  have "37 \<in> set [0..<length schedule + 1]" by code_simp
  note r = this [THEN two_runs, THEN two_reachable]
  have d: "cb_done (two_after 37) \<noteq> 0" "set [0, 1, 0, 1, 1, 0] \<subseteq> {..<num_threads two_threads}" by code_simp+
  have c: "0 < num_threads two_threads" "1 < num_threads two_threads" by code_simp+
  have "list_all (\<lambda>t. wakeups (stealStack (two_after 37) t) < 2 ^ 31 - 1) [0..<num_threads two_threads]" by code_simp
  then have w: "\<forall>t<num_threads two_threads. wakeups (stealStack (two_after 37) t) < 2 ^ 31 - 1" by (simp add: list_all_iff)
  show ?thesis using barrier_opens [OF two_started two_growing r d w] c by auto
qed

end
