(* ===== verification/Dgraph.thy ===== *)
theory Dgraph
  imports C_Prelude
begin

text \<open>
  The data-flow graphs of the NPB benchmark DT, \<open>DT/DGraph.c\<close> and \<open>DT/DGraph.h\<close>: nodes and arcs live in a heap,
  the graph and every node hold growing arrays of pointers.  What \<open>malloc\<close> finds in a fresh block is a parameter
  of the heap, since \<open>newArc\<close> leaves most of its block uninitialised and \<open>AttachArc\<close> reads one of these fields.
  A pointer is \<open>Some\<close> of an address.  \<open>None\<close> as a result is an execution with undefined behaviour.
  A counter of type \<open>int\<close> that would leave the range of \<open>int\<close> is undefined behaviour too.  Released memory is not reused.
\<close>

section \<open>The data\<close>

definition BLOCK_SIZE :: int where
  "BLOCK_SIZE = 128"

definition SMALL_BLOCK_SIZE :: int where
  "SMALL_BLOCK_SIZE = 32"

record DGArc =
  arc_id :: int
  tail :: "nat option"
  head :: "nat option"
  arc_length :: int
  arc_width :: int
  arc_attribute :: int
  maxWidth :: int

record 'f DGNode =
  maxInDegree :: int
  maxOutDegree :: int
  inDegree :: int
  outDegree :: int
  node_id :: int
  name :: string
  inArc :: "nat option list"
  outArc :: "nat option list"
  depth :: int
  height :: int
  node_width :: int
  color :: int
  attribute :: int
  address :: int
  verified :: int
  feat :: "'f option"

record DGraph =
  maxNodes :: int
  maxArcs :: int
  graph_id :: int
  graph_name :: string
  numNodes :: int
  numArcs :: int
  node :: "nat option list"
  arc :: "nat option list"

record 'f dg_heap =
  nodes :: "nat \<Rightarrow> 'f DGNode option"
  arcs :: "nat \<Rightarrow> DGArc option"
  fresh :: nat
  raw_node :: "nat \<Rightarrow> 'f DGNode"
  raw_arc :: "nat \<Rightarrow> DGArc"

text \<open>Reading and writing through a pointer.\<close>

definition get_node :: "'f dg_heap \<Rightarrow> nat option \<Rightarrow> 'f DGNode option" where
  "get_node h p = (case p of None \<Rightarrow> None | Some a \<Rightarrow> nodes h a)"

definition get_arc :: "'f dg_heap \<Rightarrow> nat option \<Rightarrow> DGArc option" where
  "get_arc h p = (case p of None \<Rightarrow> None | Some a \<Rightarrow> arcs h a)"

definition put_node :: "nat option \<Rightarrow> 'f DGNode \<Rightarrow> 'f dg_heap \<Rightarrow> 'f dg_heap option" where
  "put_node p nd h = (case get_node h p of None \<Rightarrow> None | Some _ \<Rightarrow> Some (h\<lparr>nodes := (nodes h)(the p \<mapsto> nd)\<rparr>))"

definition put_arc :: "nat option \<Rightarrow> DGArc \<Rightarrow> 'f dg_heap \<Rightarrow> 'f dg_heap option" where
  "put_arc p ar h = (case get_arc h p of None \<Rightarrow> None | Some _ \<Rightarrow> Some (h\<lparr>arcs := (arcs h)(the p \<mapsto> ar)\<rparr>))"

definition free_node :: "nat option \<Rightarrow> 'f dg_heap \<Rightarrow> 'f dg_heap" where
  "free_node p h = (case p of None \<Rightarrow> h | Some a \<Rightarrow> h\<lparr>nodes := (nodes h)(a := None)\<rparr>)"

definition free_arc :: "nat option \<Rightarrow> 'f dg_heap \<Rightarrow> 'f dg_heap" where
  "free_arc p h = (case p of None \<Rightarrow> h | Some a \<Rightarrow> h\<lparr>arcs := (arcs h)(a := None)\<rparr>)"

text \<open>A fresh array of \<open>n\<close> pointers, none of them set, and a larger copy of the first \<open>k\<close> pointers of one.\<close>

definition new_array :: "int \<Rightarrow> nat option list" where
  "new_array n = replicate (nat n) None"

definition memcpy_array :: "nat option list \<Rightarrow> int \<Rightarrow> nat option list \<Rightarrow> int \<Rightarrow> nat option list option" where
  "memcpy_array dst at src k =
     (if 0 \<le> k \<and> 0 \<le> at \<and> k \<le> int (length src) \<and> at + k \<le> int (length dst)
      then Some (take (nat at) dst @ take (nat k) src @ drop (nat (at + k)) dst) else None)"

section \<open>The operations\<close>

definition newArc :: "nat option \<Rightarrow> nat option \<Rightarrow> 'f dg_heap \<Rightarrow> nat option \<times> 'f dg_heap" where
  "newArc tlp hdp h =
     (let a = fresh h in (Some a, h\<lparr>arcs := (arcs h)(a \<mapsto> (raw_arc h a)\<lparr>tail := tlp, head := hdp\<rparr>), fresh := Suc a\<rparr>))"

definition newNode :: "string \<Rightarrow> 'f dg_heap \<Rightarrow> nat option \<times> 'f dg_heap" where
  "newNode nm h =
     (let p = fresh h; nd = (raw_node h p)\<lparr>attribute := 0, color := 0, inDegree := 0, outDegree := 0,
          maxInDegree := SMALL_BLOCK_SIZE, maxOutDegree := SMALL_BLOCK_SIZE, inArc := new_array SMALL_BLOCK_SIZE,
          outArc := new_array SMALL_BLOCK_SIZE, name := nm, feat := None\<rparr>
      in (Some p, h\<lparr>nodes := (nodes h)(p \<mapsto> nd), fresh := Suc p\<rparr>))"

text \<open>\<open>raw\<close> is the block \<open>malloc\<close> returned.\<close>

definition newDGraph :: "DGraph \<Rightarrow> string \<Rightarrow> DGraph" where
  "newDGraph raw nm = raw\<lparr>numNodes := 0, numArcs := 0, maxNodes := BLOCK_SIZE, maxArcs := BLOCK_SIZE,
     node := new_array BLOCK_SIZE, arc := new_array BLOCK_SIZE, graph_name := nm\<rparr>"

text \<open>The arcs of \<open>nd\<close> into it become arcs into the node \<open>tmp\<close> of the same name, and those out of it likewise.\<close>

definition merge_in :: "'f DGNode \<Rightarrow> nat option \<Rightarrow> 'f dg_heap \<Rightarrow> 'f dg_heap option" where
  "merge_in nd tmp h =
     (if inDegree nd > 0 then do {
        t \<leftarrow> get_node h tmp;
        cap \<leftarrow> i32 (maxInDegree t + maxInDegree nd);
        ar \<leftarrow> memcpy_array (new_array cap) 0 (inArc t) (inDegree t);
        h \<leftarrow> for_range 0 (inDegree nd) (\<lambda>j h. do {
          a \<leftarrow> aget (inArc nd) j;
          x \<leftarrow> get_arc h a;
          put_arc a (x\<lparr>head := tmp\<rparr>) h }) h;
        ar \<leftarrow> memcpy_array ar (inDegree t) (inArc nd) (inDegree nd);
        deg \<leftarrow> i32 (inDegree t + inDegree nd);
        put_node tmp (t\<lparr>maxInDegree := cap, inArc := ar, inDegree := deg\<rparr>) h }
      else Some h)"

definition merge_out :: "'f DGNode \<Rightarrow> nat option \<Rightarrow> 'f dg_heap \<Rightarrow> 'f dg_heap option" where
  "merge_out nd tmp h =
     (if outDegree nd > 0 then do {
        t \<leftarrow> get_node h tmp;
        cap \<leftarrow> i32 (maxOutDegree t + maxOutDegree nd);
        ar \<leftarrow> memcpy_array (new_array cap) 0 (outArc t) (outDegree t);
        h \<leftarrow> for_range 0 (outDegree nd) (\<lambda>j h. do {
          a \<leftarrow> aget (outArc nd) j;
          x \<leftarrow> get_arc h a;
          put_arc a (x\<lparr>tail := tmp\<rparr>) h }) h;
        ar \<leftarrow> memcpy_array ar (outDegree t) (outArc nd) (outDegree nd);
        deg \<leftarrow> i32 (outDegree t + outDegree nd);
        put_node tmp (t\<lparr>maxOutDegree := cap, outArc := ar, outDegree := deg\<rparr>) h }
      else Some h)"

text \<open>The search for a node with the name \<open>nm\<close> from the index \<open>i\<close> on.\<close>

fun same_name :: "string \<Rightarrow> nat option list \<Rightarrow> int \<Rightarrow> 'f dg_heap \<Rightarrow> int option option" where
  "same_name nm [] i h = Some None"
| "same_name nm (p # ps) i h = do {
     t \<leftarrow> get_node h p;
     if name t = nm then Some (Some i) else same_name nm ps (i + 1) h }"

definition AttachNode :: "DGraph \<Rightarrow> nat option \<Rightarrow> 'f dg_heap \<Rightarrow> (int \<times> DGraph \<times> 'f dg_heap) option" where
  "AttachNode dg p h = do {
     dg \<leftarrow> (if numNodes dg = maxNodes dg - 1 then do {
         cap \<leftarrow> i32 (maxNodes dg + BLOCK_SIZE);
         nds \<leftarrow> memcpy_array (new_array cap) 0 (node dg) (cap - BLOCK_SIZE);
         Some (dg\<lparr>maxNodes := cap, node := nds\<rparr>) }
       else Some dg);
     nd \<leftarrow> get_node h p;
     found \<leftarrow> same_name (name nd) (take (nat (numNodes dg)) (node dg)) 0 h;
     case found of
       Some i \<Rightarrow> do {
         tmp \<leftarrow> aget (node dg) i;
         h \<leftarrow> merge_in nd tmp h;
         h \<leftarrow> merge_out nd tmp h;
         Some (i, dg, free_node p h) }
     | None \<Rightarrow> do {
         h \<leftarrow> put_node p (nd\<lparr>node_id := numNodes dg\<rparr>) h;
         nds \<leftarrow> aset (node dg) (numNodes dg) p;
         k \<leftarrow> i32 (numNodes dg + 1);
         Some (numNodes dg, dg\<lparr>node := nds, numNodes := k\<rparr>, h) } }"

text \<open>The search for an arc to the same head and of the same length among the first \<open>k\<close> arcs of the tail.\<close>

fun parallel_arc :: "nat option \<Rightarrow> int \<Rightarrow> nat option list \<Rightarrow> 'f dg_heap \<Rightarrow> int option option" where
  "parallel_arc hdp len [] h = Some None"
| "parallel_arc hdp len (a # as) h = do {
     probe \<leftarrow> get_arc h a;
     if head probe = hdp \<and> arc_length probe = len then Some (Some (arc_id probe)) else parallel_arc hdp len as h }"

definition grow_array :: "nat option list \<Rightarrow> int \<Rightarrow> int \<Rightarrow> (nat option list \<times> int) option" where
  "grow_array ar deg cap =
     (if deg \<ge> cap then do {
        cap \<leftarrow> i32 (cap + SMALL_BLOCK_SIZE);
        ars \<leftarrow> memcpy_array (new_array cap) 0 ar deg;
        Some (ars, cap) }
      else Some (ar, cap))"

definition add_in :: "nat option \<Rightarrow> nat option \<Rightarrow> 'f dg_heap \<Rightarrow> 'f dg_heap option" where
  "add_in hdp nar h = do {
     x \<leftarrow> get_node h hdp;
     ar \<leftarrow> aset (inArc x) (inDegree x) nar;
     deg \<leftarrow> i32 (inDegree x + 1);
     (ar, cap) \<leftarrow> grow_array ar deg (maxInDegree x);
     put_node hdp (x\<lparr>inArc := ar, inDegree := deg, maxInDegree := cap\<rparr>) h }"

definition add_out :: "nat option \<Rightarrow> nat option \<Rightarrow> 'f dg_heap \<Rightarrow> 'f dg_heap option" where
  "add_out tlp nar h = do {
     x \<leftarrow> get_node h tlp;
     ar \<leftarrow> aset (outArc x) (outDegree x) nar;
     deg \<leftarrow> i32 (outDegree x + 1);
     (ar, cap) \<leftarrow> grow_array ar deg (maxOutDegree x);
     put_node tlp (x\<lparr>outArc := ar, outDegree := deg, maxOutDegree := cap\<rparr>) h }"

definition AttachArc :: "DGraph \<Rightarrow> nat option \<Rightarrow> 'f dg_heap \<Rightarrow> (int \<times> DGraph \<times> 'f dg_heap) option" where
  "AttachArc dg nar h = do {
     n \<leftarrow> get_arc h nar;
     if tail n = None \<or> head n = None then Some (-1, dg, h)
     else do {
       dg \<leftarrow> (if numArcs dg = maxArcs dg - 1 then do {
           cap \<leftarrow> i32 (maxArcs dg + BLOCK_SIZE);
           ars \<leftarrow> memcpy_array (new_array cap) 0 (arc dg) (cap - BLOCK_SIZE);
           Some (dg\<lparr>maxArcs := cap, arc := ars\<rparr>) }
         else Some dg);
       t \<leftarrow> get_node h (tail n);
       found \<leftarrow> parallel_arc (head n) (arc_length n) (take (nat (outDegree t)) (outArc t)) h;
       case found of
         Some i \<Rightarrow> Some (i, dg, free_arc nar h)
       | None \<Rightarrow> do {
           h \<leftarrow> put_arc nar (n\<lparr>arc_id := numArcs dg\<rparr>) h;
           ars \<leftarrow> aset (arc dg) (numArcs dg) nar;
           k \<leftarrow> i32 (numArcs dg + 1);
           h \<leftarrow> add_in (head n) nar h;
           h \<leftarrow> add_out (tail n) nar h;
           Some (numArcs dg, dg\<lparr>arc := ars, numArcs := k\<rparr>, h) } } }"

section \<open>The graph a heap represents\<close>

text \<open>\<open>ps\<close> are the nodes in the order of their numbers, \<open>ns\<close> their names, and \<open>es\<close> the arcs: the pointer, the
  number of the tail and the number of the head.\<close>

type_synonym edges = "(nat \<times> nat \<times> nat) list"

definition ins :: "edges \<Rightarrow> nat \<Rightarrow> nat list" where
  "ins es i = List.map fst (filter (\<lambda>(a, t, d). d = i) es)"

definition outs :: "edges \<Rightarrow> nat \<Rightarrow> nat list" where
  "outs es i = List.map fst (filter (\<lambda>(a, t, d). t = i) es)"

text \<open>An array of capacity \<open>cap\<close> that holds the pointers \<open>xs\<close> and has room for one more.\<close>

definition holds :: "nat option list \<Rightarrow> int \<Rightarrow> int \<Rightarrow> nat list \<Rightarrow> bool" where
  "holds ar deg cap xs \<longleftrightarrow> cap = int (length ar) \<and> deg = int (length xs) \<and> length xs < length ar \<and>
     take (length xs) ar = List.map Some xs"

definition node_rep :: "'f DGNode \<Rightarrow> nat \<Rightarrow> string \<Rightarrow> edges \<Rightarrow> bool" where
  "node_rep nd i nm es \<longleftrightarrow> node_id nd = int i \<and> name nd = nm \<and> holds (inArc nd) (inDegree nd) (maxInDegree nd) (ins es i) \<and>
     holds (outArc nd) (outDegree nd) (maxOutDegree nd) (outs es i)"

definition arc_rep :: "DGArc \<Rightarrow> nat \<Rightarrow> nat list \<Rightarrow> nat \<Rightarrow> nat \<Rightarrow> bool" where
  "arc_rep ar k ps t d \<longleftrightarrow> arc_id ar = int k \<and> tail ar = Some (ps ! t) \<and> head ar = Some (ps ! d) \<and> t < length ps \<and> d < length ps"

definition rep :: "'f dg_heap \<Rightarrow> DGraph \<Rightarrow> nat list \<Rightarrow> string list \<Rightarrow> edges \<Rightarrow> bool" where
  "rep h dg ps ns es \<longleftrightarrow>
     holds (node dg) (numNodes dg) (maxNodes dg) ps \<and> holds (arc dg) (numArcs dg) (maxArcs dg) (List.map fst es) \<and>
     distinct ps \<and> distinct (List.map fst es) \<and> length ns = length ps \<and>
     (\<forall>p\<in>set ps. p < fresh h) \<and> (\<forall>a\<in>fst ` set es. a < fresh h) \<and>
     (\<forall>i<length ps. \<exists>nd. nodes h (ps ! i) = Some nd \<and> node_rep nd i (ns ! i) es) \<and>
     (\<forall>k<length es. \<exists>ar. arcs h (fst (es ! k)) = Some ar \<and> arc_rep ar k ps (fst (snd (es ! k))) (snd (snd (es ! k))))"

subsection \<open>Growing arrays\<close>

lemma memcpy_prefix:
  assumes "0 \<le> k" "k \<le> int (length src)" "k \<le> n"
  shows "memcpy_array (new_array n) 0 src k = Some (take (nat k) src @ replicate (nat (n - k)) None)"
  using assms by (simp add: memcpy_array_def new_array_def nat_diff_distrib)

lemma holds_copy:
  assumes "holds ar deg cap xs" "deg \<le> k" "k \<le> cap" "k < n"
  shows "\<exists>ar'. memcpy_array (new_array n) 0 ar k = Some ar' \<and> holds ar' deg n xs"
proof -
  have k: "0 \<le> k" "k \<le> int (length ar)" "k \<le> n" using assms by (auto simp: holds_def)
  have "take (length xs) (take (nat k) ar) = List.map Some xs" using assms by (simp add: holds_def min_def) linarith
  then have "take (length xs) (take (nat k) ar @ replicate (nat (n - k)) None) = List.map Some xs"
    using assms by (auto simp: holds_def)
  then show ?thesis using assms k by (auto simp: memcpy_prefix holds_def)
qed

lemma holds_aset:
  assumes "holds ar deg cap xs"
  shows "\<exists>ar'. aset ar deg (Some a) = Some ar' \<and> length ar' = length ar \<and> take (length xs + 1) ar' = List.map Some (xs @ [a])"
  using assms by (auto simp: holds_def take_Suc_conv_app_nth)

lemma holds_snoc:
  assumes "holds ar deg cap xs" "deg + 1 < cap"
  shows "\<exists>ar'. aset ar deg (Some a) = Some ar' \<and> holds ar' (deg + 1) cap (xs @ [a])"
  using holds_aset [OF assms(1), of a] assms by (auto simp: holds_def)

lemma holds_add:
  assumes "holds ar deg cap xs" "length xs < 2 ^ 30"
  shows "\<exists>ar' ar'' cap'. aset ar deg (Some a) = Some ar' \<and> grow_array ar' (deg + 1) cap = Some (ar'', cap') \<and>
    holds ar'' (deg + 1) cap' (xs @ [a])"
proof -
  obtain ar' where ar': "aset ar deg (Some a) = Some ar'" "length ar' = length ar" "take (length xs + 1) ar' = List.map Some (xs @ [a])"
    using holds_aset [OF assms(1)] by blast
  show ?thesis
  proof (cases "deg + 1 < cap")
    case True
    then show ?thesis using ar' assms by (auto simp: grow_array_def holds_def)
  next
    case False
    then have len: "cap = deg + 1" "int (length ar') = deg + 1" using assms ar'(2) by (auto simp: holds_def)
    have "memcpy_array (new_array (cap + SMALL_BLOCK_SIZE)) 0 ar' (deg + 1) =
        Some (ar' @ replicate (nat SMALL_BLOCK_SIZE) None)"
      using len assms by (subst memcpy_prefix) (auto simp: holds_def SMALL_BLOCK_SIZE_def)
    moreover have "i32 (cap + SMALL_BLOCK_SIZE) = Some (cap + SMALL_BLOCK_SIZE)"
      using len assms by (intro i32_in) (auto simp: holds_def SMALL_BLOCK_SIZE_def)
    ultimately show ?thesis
      using ar' len assms by (auto simp: grow_array_def holds_def SMALL_BLOCK_SIZE_def)
  qed
qed

subsection \<open>Attaching\<close>

lemma get_node_Some [simp]: "get_node h (Some p) = nodes h p"
  by (simp add: get_node_def)

lemma get_arc_Some [simp]: "get_arc h (Some p) = arcs h p"
  by (simp add: get_arc_def)

lemma put_node_Some [simp]: "nodes h p = Some x \<Longrightarrow> put_node (Some p) nd h = Some (h\<lparr>nodes := (nodes h)(p \<mapsto> nd)\<rparr>)"
  by (simp add: put_node_def)

lemma put_arc_Some [simp]: "arcs h p = Some x \<Longrightarrow> put_arc (Some p) nd h = Some (h\<lparr>arcs := (arcs h)(p \<mapsto> nd)\<rparr>)"
  by (simp add: put_arc_def)

lemma newDGraph_rep: "rep h (newDGraph raw nm) [] [] []"
  by (simp add: rep_def newDGraph_def holds_def new_array_def BLOCK_SIZE_def)

lemma same_name_new:
  "(\<And>p. p \<in> set ps \<Longrightarrow> \<exists>nd. nodes h p = Some nd \<and> name nd \<noteq> nm) \<Longrightarrow> same_name nm (List.map Some ps) i h = Some None"
  by (induction ps arbitrary: i) force+

lemma parallel_arc_new:
  "(\<And>a. a \<in> set as \<Longrightarrow> \<exists>ar. arcs h a = Some ar \<and> (head ar \<noteq> p \<or> arc_length ar \<noteq> l)) \<Longrightarrow> parallel_arc p l (List.map Some as) h = Some None"
  by (induction as) force+

text \<open>A new node with a new name gets the next number.\<close>

theorem AttachNode_new:
  assumes R: "rep h dg ps ns es" and new: "nm \<notin> set ns" and small: "length ps < 2 ^ 30"
  shows "\<exists>dg' h' p. newNode nm h = (Some p, h') \<and> (\<exists>h''. AttachNode dg (Some p) h' = Some (int (length ps), dg', h'') \<and>
    rep h'' dg' (ps @ [p]) (ns @ [nm]) es \<and> graph_name dg' = graph_name dg)"
proof -
  define p where "p = fresh h"
  define nd where "nd = (raw_node h p)\<lparr>attribute := 0, color := 0, inDegree := 0, outDegree := 0,
          maxInDegree := SMALL_BLOCK_SIZE, maxOutDegree := SMALL_BLOCK_SIZE, inArc := new_array SMALL_BLOCK_SIZE,
          outArc := new_array SMALL_BLOCK_SIZE, name := nm, feat := None\<rparr>"
  define h1 where "h1 = h\<lparr>nodes := (nodes h)(p \<mapsto> nd), fresh := Suc p\<rparr>"
  define nd' where "nd' = nd\<lparr>node_id := int (length ps)\<rparr>"
  define h2 where "h2 = h1\<lparr>nodes := (nodes h1)(p \<mapsto> nd')\<rparr>"
  have H: "holds (node dg) (numNodes dg) (maxNodes dg) ps" and p: "p \<notin> set ps"
    using R by (auto simp: rep_def p_def)
  obtain dg1 where dg1: "(if numNodes dg = maxNodes dg - 1 then do {
         cap \<leftarrow> i32 (maxNodes dg + BLOCK_SIZE);
         nds \<leftarrow> memcpy_array (new_array cap) 0 (node dg) (cap - BLOCK_SIZE);
         Some (dg\<lparr>maxNodes := cap, node := nds\<rparr>) } else Some dg) = Some dg1"
      "holds (node dg1) (numNodes dg1) (maxNodes dg1) ps" "numNodes dg1 + 1 < maxNodes dg1" "arc dg1 = arc dg" "numArcs dg1 = numArcs dg"
      "maxArcs dg1 = maxArcs dg" "graph_name dg1 = graph_name dg"
  proof (cases "numNodes dg = maxNodes dg - 1")
    case True
    have "i32 (maxNodes dg + BLOCK_SIZE) = Some (maxNodes dg + BLOCK_SIZE)"
      using True H small by (intro i32_in) (auto simp: holds_def BLOCK_SIZE_def)
    moreover obtain ar' where "memcpy_array (new_array (maxNodes dg + BLOCK_SIZE)) 0 (node dg) (maxNodes dg) = Some ar'"
        "holds ar' (numNodes dg) (maxNodes dg + BLOCK_SIZE) ps"
      using holds_copy [OF H, of "maxNodes dg" "maxNodes dg + BLOCK_SIZE"] True by (auto simp: BLOCK_SIZE_def)
    ultimately show thesis using True
      by (intro that [of "dg\<lparr>maxNodes := maxNodes dg + BLOCK_SIZE, node := ar'\<rparr>"]) (auto simp: BLOCK_SIZE_def)
  next
    case False
    then show thesis using H by (intro that [of dg]) (auto simp: holds_def)
  qed
  have n1: "numNodes dg1 = int (length ps)" "take (length ps) (node dg1) = List.map Some ps" using dg1(2) by (auto simp: holds_def)
  have old: "\<exists>x. nodes h1 q = Some x \<and> name x \<noteq> nm" if "q \<in> set ps" for q
  proof -
    from that obtain i where i: "i < length ps" "q = ps ! i" by (auto simp: in_set_conv_nth)
    then obtain x where "nodes h q = Some x" "name x = ns ! i" using R by (auto simp: rep_def node_rep_def)
    then show ?thesis using new i R p that by (auto simp: h1_def rep_def)
  qed
  obtain ar where ar: "aset (node dg1) (numNodes dg1) (Some p) = Some ar" "holds ar (numNodes dg1 + 1) (maxNodes dg1) (ps @ [p])"
    using holds_snoc [OF dg1(2,3)] by blast
  have nm: "newNode nm h = (Some p, h1)" by (simp add: newNode_def p_def nd_def h1_def Let_def)
  have "AttachNode dg (Some p) h1 = Some (int (length ps), dg1\<lparr>node := ar, numNodes := numNodes dg1 + 1\<rparr>, h2)"
    unfolding AttachNode_def dg1(1)
    using same_name_new [OF old] n1 ar(1) small by (simp add: h1_def h2_def nd'_def nd_def)
  moreover have "rep h2 (dg1\<lparr>node := ar, numNodes := numNodes dg1 + 1\<rparr>) (ps @ [p]) (ns @ [nm]) es"
  proof -
    have ls: "t < length ps \<and> d < length ps" if "(a, t, d) \<in> set es" for a t d
    proof -
      from that obtain k where "k < length es" "es ! k = (a, t, d)" by (auto simp: in_set_conv_nth)
      then show ?thesis using R unfolding rep_def arc_rep_def by fastforce
    qed
    have new_rep: "node_rep nd' (length ps) nm es"
    proof -
      have "filter (\<lambda>(a, t, d). d = length ps) es = []" "filter (\<lambda>(a, t, d). t = length ps) es = []"
        using ls by (fastforce simp: filter_empty_conv)+
      then show ?thesis by (simp add: node_rep_def nd'_def nd_def holds_def ins_def outs_def new_array_def SMALL_BLOCK_SIZE_def)
    qed
    have nodes: "\<exists>x. nodes h2 ((ps @ [p]) ! i) = Some x \<and> node_rep x i ((ns @ [nm]) ! i) es" if "i < length (ps @ [p])" for i
    proof (cases "i < length ps")
      case True
      then obtain x where "nodes h (ps ! i) = Some x" "node_rep x i (ns ! i) es" using R by (auto simp: rep_def)
      moreover have "ps ! i \<noteq> p" using p True by auto
      ultimately show ?thesis using True R by (auto simp: h2_def h1_def nth_append rep_def)
    next
      case False
      then have "i = length ps" using that by simp
      then show ?thesis using new_rep R by (auto simp: h2_def nth_append rep_def)
    qed
    have arcs: "\<exists>ar. arcs h2 (fst (es ! k)) = Some ar \<and> arc_rep ar k (ps @ [p]) (fst (snd (es ! k))) (snd (snd (es ! k)))" if "k < length es" for k
      using R that by (fastforce simp: rep_def arc_rep_def h2_def h1_def nth_append)
    show ?thesis
      using R nodes arcs p ar(2) dg1 unfolding rep_def by (auto simp: h2_def h1_def p_def less_Suc_eq)
  qed
  ultimately show ?thesis using nm dg1(7) by (intro exI [of _ "dg1\<lparr>node := ar, numNodes := numNodes dg1 + 1\<rparr>"] exI [of _ h1] exI [of _ p]) auto
qed

text \<open>An arc between two nodes that no arc joins yet gets the next number.\<close>

lemma rep_edge:
  assumes "rep h dg ps ns es" "(a, t, d) \<in> set es"
  shows "t < length ps" "d < length ps" "\<exists>ar. arcs h a = Some ar \<and> tail ar = Some (ps ! t) \<and> head ar = Some (ps ! d)"
proof -
  from assms(2) obtain k where "k < length es" "es ! k = (a, t, d)" by (auto simp: in_set_conv_nth)
  then show "t < length ps" "d < length ps" "\<exists>ar. arcs h a = Some ar \<and> tail ar = Some (ps ! t) \<and> head ar = Some (ps ! d)"
    using assms(1) unfolding rep_def arc_rep_def by fastforce+
qed

lemma rep_node:
  assumes "rep h dg ps ns es" "i < length ps"
  shows "\<exists>nd. nodes h (ps ! i) = Some nd \<and> node_rep nd i (ns ! i) es" "take (length ps) (node dg) = List.map Some ps"
    "numNodes dg = int (length ps)" "node dg ! i = Some (ps ! i)" "i < length (node dg)"
proof -
  show "\<exists>nd. nodes h (ps ! i) = Some nd \<and> node_rep nd i (ns ! i) es" "numNodes dg = int (length ps)" "i < length (node dg)"
    and tk: "take (length ps) (node dg) = List.map Some ps"
    using assms by (auto simp: rep_def holds_def)
  show "node dg ! i = Some (ps ! i)" using arg_cong [OF tk, of "\<lambda>xs. xs ! i"] assms(2) by simp
qed

lemma length_ins: "length (ins es i) \<le> length es" and length_outs: "length (outs es i) \<le> length es"
  by (simp_all add: ins_def outs_def)

lemma ins_snoc: "ins (es @ [(a, t, d)]) i = (if i = d then ins es i @ [a] else ins es i)"
  by (simp add: ins_def)

lemma outs_snoc: "outs (es @ [(a, t, d)]) i = (if i = t then outs es i @ [a] else outs es i)"
  by (simp add: outs_def)

theorem AttachArc_new:
  assumes R: "rep h dg ps ns es" and i: "t < length ps" "d < length ps" "t \<noteq> d" and new: "\<And>a. (a, t, d) \<notin> set es"
    and small: "length es < 2 ^ 30"
  shows "\<exists>a h' dg' h''. newArc (Some (ps ! t)) (Some (ps ! d)) h = (Some a, h') \<and> AttachArc dg (Some a) h' = Some (int (length es), dg', h'') \<and>
    rep h'' dg' ps ns (es @ [(a, t, d)]) \<and> graph_name dg' = graph_name dg \<and> node dg' = node dg"
proof -
  define a where "a = fresh h"
  define n where "n = (raw_arc h a)\<lparr>tail := Some (ps ! t), head := Some (ps ! d)\<rparr>"
  define h1 where "h1 = h\<lparr>arcs := (arcs h)(a \<mapsto> n), fresh := Suc a\<rparr>"
  have new1: "newArc (Some (ps ! t)) (Some (ps ! d)) h = (Some a, h1)" by (simp add: newArc_def a_def n_def h1_def Let_def)
  have H: "holds (arc dg) (numArcs dg) (maxArcs dg) (List.map fst es)" and a: "a \<notin> fst ` set es"
    using R by (auto simp: rep_def a_def)
  obtain dg1 where dg1: "(if numArcs dg = maxArcs dg - 1 then do {
           cap \<leftarrow> i32 (maxArcs dg + BLOCK_SIZE);
           ars \<leftarrow> memcpy_array (new_array cap) 0 (arc dg) (cap - BLOCK_SIZE);
           Some (dg\<lparr>maxArcs := cap, arc := ars\<rparr>) } else Some dg) = Some dg1"
      "holds (arc dg1) (numArcs dg1) (maxArcs dg1) (List.map fst es)" "numArcs dg1 + 1 < maxArcs dg1" "node dg1 = node dg" "numNodes dg1 = numNodes dg"
      "maxNodes dg1 = maxNodes dg" "graph_name dg1 = graph_name dg"
  proof (cases "numArcs dg = maxArcs dg - 1")
    case True
    have "i32 (maxArcs dg + BLOCK_SIZE) = Some (maxArcs dg + BLOCK_SIZE)"
      using True H small by (intro i32_in) (auto simp: holds_def BLOCK_SIZE_def)
    moreover obtain ar' where "memcpy_array (new_array (maxArcs dg + BLOCK_SIZE)) 0 (arc dg) (maxArcs dg) = Some ar'"
        "holds ar' (numArcs dg) (maxArcs dg + BLOCK_SIZE) (List.map fst es)"
      using holds_copy [OF H, of "maxArcs dg" "maxArcs dg + BLOCK_SIZE"] True by (auto simp: BLOCK_SIZE_def)
    ultimately show thesis using True
      by (intro that [of "dg\<lparr>maxArcs := maxArcs dg + BLOCK_SIZE, arc := ar'\<rparr>"]) (auto simp: BLOCK_SIZE_def)
  next
    case False
    then show thesis using H by (intro that [of dg]) (auto simp: holds_def)
  qed
  obtain ars where ars: "aset (arc dg1) (numArcs dg1) (Some a) = Some ars" "holds ars (numArcs dg1 + 1) (maxArcs dg1) (List.map fst es @ [a])"
    using holds_snoc [OF dg1(2,3)] by blast
  have num: "numArcs dg1 = int (length es)" using dg1(2) by (simp add: holds_def)
  obtain x where x: "nodes h (ps ! t) = Some x" "node_rep x t (ns ! t) es" using rep_node(1) [OF R i(1)] by blast
  obtain y where y: "nodes h (ps ! d) = Some y" "node_rep y d (ns ! d) es" using rep_node(1) [OF R i(2)] by blast
  have ne: "ps ! t \<noteq> ps ! d" using R i by (simp add: rep_def nth_eq_iff_index_eq)
  have none: "parallel_arc (Some (ps ! d)) (arc_length n) (take (nat (outDegree x)) (outArc x)) h1 = Some None"
  proof -
    have "take (nat (outDegree x)) (outArc x) = List.map Some (outs es t)" using x(2) by (simp add: node_rep_def holds_def)
    moreover have "\<exists>ar. arcs h1 b = Some ar \<and> (head ar \<noteq> Some (ps ! d) \<or> arc_length ar \<noteq> arc_length n)" if "b \<in> set (outs es t)" for b
    proof -
      from that obtain d' where b: "(b, t, d') \<in> set es" by (auto simp: outs_def)
      then have "d' \<noteq> d" using new by auto
      moreover obtain ar where "arcs h b = Some ar" "head ar = Some (ps ! d')" "d' < length ps" using rep_edge [OF R b] by blast
      moreover have "b \<noteq> a" using a b by force
      ultimately show ?thesis using R i(2) by (auto simp: h1_def rep_def nth_eq_iff_index_eq)
    qed
    ultimately show ?thesis using parallel_arc_new by metis
  qed
  define h2 where "h2 = h1\<lparr>arcs := (arcs h1)(a \<mapsto> n\<lparr>arc_id := int (length es)\<rparr>)\<rparr>"
  have put: "put_arc (Some a) (n\<lparr>arc_id := numArcs dg1\<rparr>) h1 = Some h2" by (simp add: h1_def h2_def num)
  obtain ai ai' ci where ai: "aset (inArc y) (inDegree y) (Some a) = Some ai" "grow_array ai (inDegree y + 1) (maxInDegree y) = Some (ai', ci)"
      "holds ai' (inDegree y + 1) ci (ins es d @ [a])"
    using holds_add [of "inArc y" "inDegree y" "maxInDegree y" "ins es d" a] y(2) length_ins [of es d] small by (auto simp: node_rep_def)
  obtain ao ao' co where ao: "aset (outArc x) (outDegree x) (Some a) = Some ao" "grow_array ao (outDegree x + 1) (maxOutDegree x) = Some (ao', co)"
      "holds ao' (outDegree x + 1) co (outs es t @ [a])"
    using holds_add [of "outArc x" "outDegree x" "maxOutDegree x" "outs es t" a] x(2) length_outs [of es t] small by (auto simp: node_rep_def)
  define y' where "y' = y\<lparr>inArc := ai', inDegree := inDegree y + 1, maxInDegree := ci\<rparr>"
  define x' where "x' = x\<lparr>outArc := ao', outDegree := outDegree x + 1, maxOutDegree := co\<rparr>"
  define h3 where "h3 = h2\<lparr>nodes := (nodes h2)(ps ! d \<mapsto> y')\<rparr>"
  define h4 where "h4 = h3\<lparr>nodes := (nodes h3)(ps ! t \<mapsto> x')\<rparr>"
  have n2: "nodes h2 = nodes h" by (simp add: h2_def h1_def)
  have deg: "i32 (inDegree y + 1) = Some (inDegree y + 1)" "i32 (outDegree x + 1) = Some (outDegree x + 1)"
    using x(2) y(2) length_ins [of es d] length_outs [of es t] small by (auto simp: node_rep_def holds_def intro!: i32_in)
  have in_ok: "add_in (Some (ps ! d)) (Some a) h2 = Some h3"
    unfolding add_in_def using y(1) ai(1,2) by (simp add: deg n2 h3_def y'_def)
  have out_ok: "add_out (Some (ps ! t)) (Some a) h3 = Some h4"
    unfolding add_out_def using x(1) ao(1,2) ne by (simp add: deg h3_def n2 h4_def x'_def)
  define dg' where "dg' = dg1\<lparr>arc := ars, numArcs := numArcs dg1 + 1\<rparr>"
  have arc_n: "get_arc h1 (Some a) = Some n" "tail n = Some (ps ! t)" "head n = Some (ps ! d)" by (simp_all add: h1_def n_def)
  have tl: "get_node h1 (Some (ps ! t)) = Some x" using x(1) by (simp add: h1_def)
  have att: "AttachArc dg (Some a) h1 = Some (int (length es), dg', h4)"
    unfolding AttachArc_def arc_n(1) Option.bind.bind_lunit arc_n(2,3) dg1(1) tl none
    using put ars(1) in_ok out_ok num small by (simp add: dg'_def)
  have "rep h4 dg' ps ns (es @ [(a, t, d)])"
  proof -
    have nodes: "\<exists>nd. nodes h4 (ps ! j) = Some nd \<and> node_rep nd j (ns ! j) (es @ [(a, t, d)])" if j: "j < length ps" for j
    proof -
      have eq: "ps ! j = ps ! t \<longleftrightarrow> j = t" "ps ! j = ps ! d \<longleftrightarrow> j = d" using R i j by (auto simp: rep_def nth_eq_iff_index_eq)
      obtain nd where nd: "nodes h (ps ! j) = Some nd" "node_rep nd j (ns ! j) es" using rep_node(1) [OF R j] by blast
      consider "j = t" | "j = d" "j \<noteq> t" | "j \<noteq> t" "j \<noteq> d" by blast
      then show ?thesis
      proof cases
        case 1
        then show ?thesis using x(2) ao(3) i(3) by (simp add: h4_def node_rep_def x'_def ins_snoc outs_snoc)
      next
        case 2
        then show ?thesis using y(2) ai(3) i(3) ne by (simp add: h4_def h3_def node_rep_def y'_def ins_snoc outs_snoc)
      next
        case 3
        then show ?thesis using nd eq by (simp add: h4_def h3_def n2 node_rep_def ins_snoc outs_snoc)
      qed
    qed
    have arcs: "\<exists>ar. arcs h4 (fst ((es @ [(a, t, d)]) ! k)) = Some ar \<and>
        arc_rep ar k ps (fst (snd ((es @ [(a, t, d)]) ! k))) (snd (snd ((es @ [(a, t, d)]) ! k)))" if k: "k < length (es @ [(a, t, d)])" for k
    proof (cases "k < length es")
      case True
      then obtain ar where "arcs h (fst (es ! k)) = Some ar" "arc_rep ar k ps (fst (snd (es ! k))) (snd (snd (es ! k)))"
        using R by (auto simp: rep_def)
      moreover have "fst (es ! k) \<noteq> a" using a True by force
      ultimately show ?thesis using True by (simp add: h4_def h3_def h2_def h1_def nth_append)
    next
      case False
      then have "k = length es" using k by simp
      then show ?thesis using i by (simp add: h4_def h3_def h2_def arc_rep_def n_def)
    qed
    have fr: "fresh h4 = Suc a" "a = fresh h" by (simp_all add: h4_def h3_def h2_def h1_def a_def)
    show ?thesis
      unfolding rep_def using R nodes arcs a ars(2) dg1(4,5,6)
      by (intro conjI) (auto simp: rep_def dg'_def fr less_Suc_eq)
  qed
  then show ?thesis using new1 att dg1(4,7) by (intro exI [of _ a] exI [of _ h1] exI [of _ dg'] exI [of _ h4]) (simp add: dg'_def)
qed

end
