(* ===== verification/Dt_Graphs.thy ===== *)
theory Dt_Graphs
  imports Dgraph
begin

text \<open>
  The communication graphs of the benchmark DT, \<open>DT/dt.c\<close>: the shuffle \<open>buildSH\<close>, the white hole \<open>buildWH\<close>
  and the black hole \<open>buildBH\<close>.  The number of sources comes from the generated file \<open>npbparams.h\<close> and is a
  parameter.  The state of a builder is the graph and the heap.  A sum, product or shift of type \<open>int\<close> that leaves the range
  is undefined behaviour.
\<close>

section \<open>Names\<close>

definition digit :: "nat \<Rightarrow> char" where
  "digit d = char_of (48 + d)"

fun show_nat :: "nat \<Rightarrow> string" where
  "show_nat n = (if n < 10 then [digit n] else show_nat (n div 10) @ [digit (n mod 10)])"

declare show_nat.simps [simp del]

text \<open>\<open>sprintf\<close> with a format that ends in \<open>%d\<close>; the numbers are not negative.\<close>

definition numbered :: "string \<Rightarrow> int \<Rightarrow> string" where
  "numbered pre i = pre @ show_nat (nat i)"

section \<open>The builders\<close>

type_synonym 'f dg_state = "DGraph \<times> 'f dg_heap"

text \<open>\<open>nd = newNode(nm); id = AttachNode(dg, nd)\<close>: the number and the pointer.\<close>

definition add_node :: "string \<Rightarrow> 'f dg_state \<Rightarrow> ((int \<times> nat option) \<times> 'f dg_state) option" where
  "add_node nm s = do {
     let (nd, h) = newNode nm (snd s);
     (i, dg, h) \<leftarrow> AttachNode (fst s) nd h;
     Some ((i, nd), (dg, h)) }"

text \<open>\<open>ar = newArc(t, d); AttachArc(dg, ar)\<close>.\<close>

definition add_arc :: "nat option \<Rightarrow> nat option \<Rightarrow> 'f dg_state \<Rightarrow> 'f dg_state option" where
  "add_arc t d s = do {
     let (ar, h) = newArc t d (snd s);
     (i, dg, h) \<leftarrow> AttachArc (fst s) ar h;
     Some (dg, h) }"

definition add_nodes :: "string \<Rightarrow> int \<Rightarrow> 'f dg_state \<Rightarrow> 'f dg_state option" where
  "add_nodes pre n s = for_range 0 n (\<lambda>i s. do { (r, s) \<leftarrow> add_node (numbered pre i) s; Some s }) s"

text \<open>One node of the shuffle and its two arcs from the layer that starts at \<open>first\<close>.\<close>

definition shuffle_node :: "string \<Rightarrow> int \<Rightarrow> int \<Rightarrow> int \<Rightarrow> 'f dg_state \<Rightarrow> 'f dg_state option" where
  "shuffle_node nm first msk i s = do {
     ((_, nd), s) \<leftarrow> add_node nm s;
     let ndoff = and i (not msk);
     ndid \<leftarrow> i32 (first + ndoff);
     p \<leftarrow> aget (node (fst s)) ndid;
     s \<leftarrow> add_arc p nd s;
     ndoff \<leftarrow> i32 (ndoff + msk);
     ndid \<leftarrow> i32 (first + ndoff);
     p \<leftarrow> aget (node (fst s)) ndid;
     add_arc p nd s }"

definition count_layers :: "int \<Rightarrow> int option" where
  "count_layers n = do {
     (l, t) \<leftarrow> c_while (\<lambda>(l, t). Some (t > 1)) (\<lambda>(l, t). Some (l + 1, drop_bit 1 t)) (0, drop_bit 1 n);
     Some l }"

text \<open>\<open>1 << j\<close> for an \<open>int\<close>.\<close>

definition mask_bit :: "int \<Rightarrow> int option" where
  "mask_bit j = (if 0 \<le> j \<and> j < 31 then Some (push_bit (nat j) 1) else None)"

definition buildSH :: "DGraph \<Rightarrow> int \<Rightarrow> char \<Rightarrow> 'f dg_heap \<Rightarrow> 'f dg_state option" where
  "buildSH raw n cls h = do {
     let s = (newDGraph raw (''DT_SH.'' @ [cls]), h);
     layers \<leftarrow> count_layers n;
     s \<leftarrow> add_nodes ''Source.'' n s;
     (first, s) \<leftarrow> for_range 0 layers (\<lambda>j (first, s). do {
       msk \<leftarrow> mask_bit j;
       s \<leftarrow> for_range 0 n (\<lambda>i s. do {
         k \<leftarrow> i32 (j * first);
         k \<leftarrow> i32 (i + k);
         shuffle_node (numbered ''Comparator.'' k) first msk i s }) s;
       first \<leftarrow> i32 (first + n);
       Some (first, s) }) (0, s);
     msk \<leftarrow> mask_bit layers;
     for_range 0 n (\<lambda>i s. shuffle_node (numbered ''Sink.'' i) first msk i s) s }"

text \<open>The layers of comparators of \<open>buildWH\<close> and \<open>buildBH\<close>, which differ in the direction of the arcs:
  \<open>mk node prev\<close> adds the arc between a new node and a node of the previous layer.\<close>

record 'f layers =
  numLayerNodes :: int
  firstLayerNode :: int
  totComparators :: int
  numPrevLayerNodes :: int
  built :: "'f dg_state"

definition comparator :: "(nat option \<Rightarrow> nat option \<Rightarrow> 'f dg_state \<Rightarrow> 'f dg_state option) \<Rightarrow> int \<Rightarrow> int \<Rightarrow> int \<Rightarrow> int \<Rightarrow> int \<Rightarrow>
    'f dg_state \<Rightarrow> 'f dg_state option" where
  "comparator mk maxInDeg first prev i num s =
     for_range 0 maxInDeg (\<lambda>j s. do {
       sid \<leftarrow> i32 (i * maxInDeg);
       sid \<leftarrow> i32 (sid + j);
       if sid \<ge> prev then Some s
       else do {
         k \<leftarrow> i32 (first + sid);
         snd_node \<leftarrow> aget (node (fst s)) k;
         nd \<leftarrow> aget (node (fst s)) num;
         mk nd snd_node s } }) s"

definition next_layer :: "(nat option \<Rightarrow> nat option \<Rightarrow> 'f dg_state \<Rightarrow> 'f dg_state option) \<Rightarrow> int \<Rightarrow> 'f layers \<Rightarrow> 'f layers option" where
  "next_layer mk maxInDeg L = do {
     let m = c_quot (numLayerNodes L) maxInDeg;
     k \<leftarrow> i32 (m * maxInDeg);
     m \<leftarrow> (if k < numPrevLayerNodes L then i32 (m + 1) else Some m);
     (tot, s) \<leftarrow> for_range 0 m (\<lambda>i (tot, s). do {
       tot' \<leftarrow> i32 (tot + 1);
       ((num, _), s) \<leftarrow> add_node (numbered ''Comparator.'' tot) s;
       s \<leftarrow> comparator mk maxInDeg (firstLayerNode L) (numPrevLayerNodes L) i num s;
       Some (tot', s) }) (totComparators L, built L);
     first \<leftarrow> i32 (firstLayerNode L + numPrevLayerNodes L);
     Some \<lparr>numLayerNodes = m, firstLayerNode = first, totComparators = tot,
       numPrevLayerNodes = m, built = s\<rparr> }"

definition tree_layers :: "(nat option \<Rightarrow> nat option \<Rightarrow> 'f dg_state \<Rightarrow> 'f dg_state option) \<Rightarrow> string \<Rightarrow> string \<Rightarrow> int \<Rightarrow> 'f dg_state \<Rightarrow>
    'f dg_state option" where
  "tree_layers mk leaf root n s = do {
     s \<leftarrow> add_nodes leaf n s;
     L \<leftarrow> c_while (\<lambda>L. Some (numLayerNodes L > 4)) (next_layer mk 4)
       \<lparr>numLayerNodes = n, firstLayerNode = 0, totComparators = 0, numPrevLayerNodes = n, built = s\<rparr>;
     ((_, nd), s) \<leftarrow> add_node root (built L);
     for_range 0 (numPrevLayerNodes L) (\<lambda>i s. do {
       k \<leftarrow> i32 (firstLayerNode L + i);
       p \<leftarrow> aget (node (fst s)) k;
       mk nd p s }) s }"

definition buildBH :: "DGraph \<Rightarrow> int \<Rightarrow> char \<Rightarrow> 'f dg_heap \<Rightarrow> 'f dg_state option" where
  "buildBH raw n cls h = tree_layers (\<lambda>nd prev. add_arc prev nd) ''Source.'' ''Sink'' n (newDGraph raw (''DT_BH.'' @ [cls]), h)"

definition set_id :: "nat option \<Rightarrow> int \<Rightarrow> 'f dg_heap \<Rightarrow> 'f dg_heap option" where
  "set_id p i h = do { nd \<leftarrow> get_node h p; put_node p (nd\<lparr>node_id := i\<rparr>) h }"

text \<open>The end of \<open>buildWH\<close> reverses the array of nodes and renumbers them.\<close>

definition swap_nodes :: "int \<Rightarrow> 'f dg_state \<Rightarrow> 'f dg_state option" where
  "swap_nodes i s = do {
     let (dg, h) = s;
     let k = numNodes dg - 1 - i;
     tmp \<leftarrow> aget (node dg) i;
     p \<leftarrow> aget (node dg) k;
     nds \<leftarrow> aset (node dg) i p;
     h \<leftarrow> set_id p i h;
     nds \<leftarrow> aset nds k tmp;
     h \<leftarrow> set_id tmp k h;
     Some (dg\<lparr>node := nds\<rparr>, h) }"

definition buildWH :: "DGraph \<Rightarrow> int \<Rightarrow> char \<Rightarrow> 'f dg_heap \<Rightarrow> 'f dg_state option" where
  "buildWH raw n cls h = do {
     s \<leftarrow> tree_layers (\<lambda>nd prev. add_arc nd prev) ''Sink.'' ''Source'' n (newDGraph raw (''DT_WH.'' @ [cls]), h);
     for_range 0 (c_quot (numNodes (fst s)) 2) swap_nodes s }"

section \<open>Names differ\<close>

lemma digit_inj: "a < 10 \<Longrightarrow> b < 10 \<Longrightarrow> digit a = digit b \<Longrightarrow> a = b"
proof -
  assume "a < 10" "b < 10" "digit a = digit b"
  then have "(of_char (char_of (48 + a) :: char) :: nat) = of_char (char_of (48 + b) :: char)" by (simp add: digit_def)
  then show "a = b" using \<open>a < 10\<close> \<open>b < 10\<close> by simp
qed

lemma show_nat_ne: "show_nat n \<noteq> []"
  by (subst show_nat.simps) simp

lemma show_nat_inj: "show_nat m = show_nat n \<Longrightarrow> m = n"
proof (induction m arbitrary: n rule: less_induct)
  case (less m)
  note S = show_nat.simps [of m] show_nat.simps [of n]
  show ?case
  proof (cases "m < 10"; cases "n < 10")
    assume "m < 10" "n < 10"
    then show ?thesis using less.prems S digit_inj by simp
  next
    assume "m < 10" "\<not> n < 10"
    then show ?thesis using less.prems S show_nat_ne [of "n div 10"] by simp
  next
    assume "\<not> m < 10" "n < 10"
    then show ?thesis using less.prems S show_nat_ne [of "m div 10"] by simp
  next
    assume m: "\<not> m < 10" and n: "\<not> n < 10"
    then have "show_nat (m div 10) = show_nat (n div 10)" "digit (m mod 10) = digit (n mod 10)"
      using less.prems S by simp_all
    then have "m div 10 = n div 10" "m mod 10 = n mod 10"
      using less.IH [of "m div 10" "n div 10"] m digit_inj by auto
    then show ?thesis by (metis div_mult_mod_eq)
  qed
qed

lemma numbered_inj [simp]: "0 \<le> i \<Longrightarrow> 0 \<le> j \<Longrightarrow> numbered pre i = numbered pre j \<longleftrightarrow> i = j"
  by (auto simp: numbered_def dest: show_nat_inj)

definition labels :: "string \<Rightarrow> nat \<Rightarrow> string list" where
  "labels pre n = List.map (\<lambda>i. numbered pre (int i)) [0..<n]"

lemma labels_length [simp]: "length (labels pre n) = n"
  by (simp add: labels_def)

lemma labels_Suc: "labels pre (Suc n) = labels pre n @ [numbered pre (int n)]"
  by (simp add: labels_def)

lemma label_new [simp]: "int n \<le> i \<Longrightarrow> numbered pre i \<notin> set (labels pre n)"
  by (auto simp: labels_def)

section \<open>Graphs\<close>

definition graph :: "'f dg_state \<Rightarrow> string list \<Rightarrow> (nat \<times> nat) list \<Rightarrow> string \<Rightarrow> bool" where
  "graph s ns E g \<longleftrightarrow> (\<exists>ps es. rep (snd s) (fst s) ps ns es \<and> List.map snd es = E \<and> graph_name (fst s) = g)"

lemma graph_new: "graph (newDGraph raw g, h) [] [] g"
  using newDGraph_rep by (fastforce simp: graph_def newDGraph_def)

lemma graph_nodes:
  assumes "graph s ns E g"
  shows "numNodes (fst s) = int (length ns)" "length ns < length (node (fst s))" "\<And>t d. (t, d) \<in> set E \<Longrightarrow> t < length ns \<and> d < length ns"
proof -
  from assms obtain ps es where R: "rep (snd s) (fst s) ps ns es" "List.map snd es = E" by (auto simp: graph_def)
  then show "numNodes (fst s) = int (length ns)" "length ns < length (node (fst s))" by (auto simp: rep_def holds_def)
  show "t < length ns \<and> d < length ns" if "(t, d) \<in> set E" for t d
  proof -
    from that R(2) obtain a where "(a, t, d) \<in> set es" by auto
    then show ?thesis using rep_edge [OF R(1)] R(1) by (auto simp: rep_def)
  qed
qed

lemma add_node_graph:
  assumes "graph s ns E g" "nm \<notin> set ns" "length ns < 2 ^ 30"
  shows "returns (add_node nm s) (\<lambda>((i, nd), s'). i = int (length ns) \<and> nd = node (fst s') ! length ns \<and> graph s' (ns @ [nm]) E g)"
proof -
  from assms(1) obtain ps es where R: "rep (snd s) (fst s) ps ns es" "List.map snd es = E" "graph_name (fst s) = g" by (auto simp: graph_def)
  have l: "length ps = length ns" using R(1) by (simp add: rep_def)
  obtain dg' h' p h'' where A: "newNode nm (snd s) = (Some p, h')" "AttachNode (fst s) (Some p) h' = Some (int (length ps), dg', h'')"
    "rep h'' dg' (ps @ [p]) (ns @ [nm]) es" "graph_name dg' = graph_name (fst s)"
    using AttachNode_new [OF R(1) assms(2)] assms(3) l by auto
  have "node dg' ! length ns = Some p"
    using rep_node(4) [OF A(3), of "length ps"] l by (simp add: nth_append)
  then show ?thesis using A R l by (auto simp: add_node_def graph_def)
qed

lemma add_arc_graph:
  assumes "graph s ns E g" "t < length ns" "d < length ns" "t \<noteq> d" "(t, d) \<notin> set E" "p = node (fst s) ! t" "q = node (fst s) ! d"
    "length E < 2 ^ 30"
  shows "returns (add_arc p q s) (\<lambda>s'. graph s' ns (E @ [(t, d)]) g \<and> node (fst s') = node (fst s))"
proof -
  from assms(1) obtain ps es where R: "rep (snd s) (fst s) ps ns es" "List.map snd es = E" "graph_name (fst s) = g" by (auto simp: graph_def)
  have l: "length ps = length ns" using R(1) by (simp add: rep_def)
  have pq: "p = Some (ps ! t)" "q = Some (ps ! d)" using rep_node(4) [OF R(1)] assms(2,3,6,7) l by simp_all
  have "(a, t, d) \<notin> set es" for a using R(2) assms(5) by force
  then obtain a h' dg' h'' where A: "newArc p q (snd s) = (Some a, h')" "AttachArc (fst s) (Some a) h' = Some (int (length es), dg', h'')"
    "rep h'' dg' ps ns (es @ [(a, t, d)])" "graph_name dg' = graph_name (fst s)" "node dg' = node (fst s)"
    using AttachArc_new [OF R(1), of t d] assms(2-4,8) l pq R(2) by auto
  then have "graph (dg', h'') ns (E @ [(t, d)]) g" using R by (fastforce simp: graph_def)
  then show ?thesis using A by (simp add: add_arc_def)
qed

lemma add_nodes_graph:
  assumes "graph s [] [] g" "0 \<le> n" "n \<le> 2 ^ 30"
  shows "returns (add_nodes pre n s) (\<lambda>s'. graph s' (labels pre (nat n)) [] g)"
  unfolding add_nodes_def
proof (rule returns_rangeI [where I = "\<lambda>i s. graph s (labels pre (nat i)) [] g"])
  fix i s assume i: "0 \<le> i" "i < n" and G: "graph s (labels pre (nat i)) [] g"
  have "numbered pre i \<notin> set (labels pre (nat i))" "length (labels pre (nat i)) < 2 ^ 30" using i assms(3) by simp_all
  from add_node_graph [OF G this] i show "returns (do { (r, s) \<leftarrow> add_node (numbered pre i) s; Some s }) (\<lambda>s. graph s (labels pre (nat (i + 1))) [] g)"
    by (auto elim!: returns_mono simp: nat_add_distrib labels_Suc)
qed (use assms in \<open>auto simp: labels_def\<close>)

section \<open>The layered trees\<close>

text \<open>The number of comparators over a layer of \<open>m\<close> nodes.\<close>

fun comparators :: "nat \<Rightarrow> nat" where
  "comparators m = (if m \<le> 4 then 0 else (m + 3) div 4 + comparators ((m + 3) div 4))"

declare comparators.simps [simp del]

lemma comparators_less: "0 < m \<Longrightarrow> comparators m < m"
proof (induction m rule: less_induct)
  case (less m)
  show ?case
  proof (cases "m \<le> 4")
    case False
    define m' where "m' = (m + 3) div 4"
    have m': "m' < m" "0 < m'" "2 * m' \<le> m" using False unfolding m'_def by linarith+
    have "comparators m = m' + comparators m'" using False by (simp add: comparators.simps [of m] m'_def)
    then show ?thesis using less.IH [OF m'(1,2)] m'(3) by linarith
  qed (use less.prems in \<open>simp add: comparators.simps [of m]\<close>)
qed

text \<open>The parents of the nodes from number \<open>first\<close> on, where a layer of \<open>m\<close> nodes starts.\<close>

definition layer_parents :: "nat \<Rightarrow> nat \<Rightarrow> nat list" where
  "layer_parents c m = List.map (\<lambda>j. c + j div 4) [0..<m]"

function parents :: "nat \<Rightarrow> nat \<Rightarrow> nat list" where
  "parents first m = (if m \<le> 4 then replicate m (first + m) else layer_parents (first + m) m @ parents (first + m) ((m + 3) div 4))"
  by auto
termination by (relation "measure snd") auto

declare parents.simps [simp del]

lemma parents_length: "0 < m \<Longrightarrow> length (parents first m) = m + comparators m"
proof (induction first m rule: parents.induct)
  case (1 first m)
  show ?case
  proof (cases "m \<le> 4")
    case False
    then have "0 < (m + 3) div 4" by simp
    then show ?thesis using 1(1) [OF False] False
      by (subst parents.simps, subst comparators.simps) (simp add: layer_parents_def)
  qed (simp add: parents.simps [of first m] comparators.simps [of m])
qed

lemma layer_parents_grow:
  assumes "4 * k < m"
  shows "layer_parents c (min (4 * Suc k) m) = layer_parents c (4 * k) @ replicate (min 4 (m - 4 * k)) (c + k)"
proof -
  have e: "min (4 * Suc k) m = 4 * k + min 4 (m - 4 * k)" using assms by simp
  have "List.map (\<lambda>j. c + j div 4) [4 * k..<4 * k + min 4 (m - 4 * k)] = replicate (min 4 (m - 4 * k)) (c + k)"
    by (rule nth_equalityI) auto
  then show ?thesis unfolding layer_parents_def e upt_add_eq_append [OF le0] by simp
qed

lemma count_list_replicate: "count_list (replicate n x) y = (if x = y then n else 0)"
  by (induction n) auto

locale layered =
  fixes mk :: "nat option \<Rightarrow> nat option \<Rightarrow> 'f dg_state \<Rightarrow> 'f dg_state option" and dir :: "nat \<Rightarrow> nat \<Rightarrow> nat \<times> nat"
  assumes mk: "graph s ns E g \<Longrightarrow> a < length ns \<Longrightarrow> b < length ns \<Longrightarrow> a \<noteq> b \<Longrightarrow> dir a b \<notin> set E \<Longrightarrow> length E < 2 ^ 30 \<Longrightarrow>
      returns (mk (node (fst s) ! b) (node (fst s) ! a) s) (\<lambda>s'. graph s' ns (E @ [dir a b]) g \<and> node (fst s') = node (fst s))"
    and dir_inj: "dir a b = dir a' b' \<Longrightarrow> a = a'"
begin

text \<open>\<open>P\<close> lists the parents of the first nodes.\<close>

definition tree :: "'f dg_state \<Rightarrow> string list \<Rightarrow> nat list \<Rightarrow> string \<Rightarrow> bool" where
  "tree s ns P g \<longleftrightarrow> graph s ns (map2 dir [0..<length P] P) g \<and> (\<forall>k<length P. k < P ! k \<and> P ! k < length ns) \<and>
     (\<forall>p. count_list P p \<le> 4)"

lemma tree_nodes: "tree s ns P g \<Longrightarrow> numNodes (fst s) = int (length ns)" "tree s ns P g \<Longrightarrow> length ns < length (node (fst s))"
  unfolding tree_def using graph_nodes(1,2) by blast+

lemma tree_arc:
  assumes T: "tree s ns P g" and p: "length P < p" "p < length ns" "count_list P p < 4" and small: "length ns \<le> 2 ^ 30"
  shows "returns (mk (node (fst s) ! p) (node (fst s) ! length P) s) (\<lambda>s'. tree s' ns (P @ [p]) g \<and> node (fst s') = node (fst s))"
proof -
  have G: "graph s ns (map2 dir [0..<length P] P) g" using T by (simp add: tree_def)
  have "dir (length P) p \<notin> set (map2 dir [0..<length P] P)"
    by (auto simp: in_set_conv_nth dest!: dir_inj)
  from mk [OF G _ p(2) _ this] p(1,2) small
  have "returns (mk (node (fst s) ! p) (node (fst s) ! length P) s)
      (\<lambda>s'. graph s' ns (map2 dir [0..<length P] P @ [dir (length P) p]) g \<and> node (fst s') = node (fst s))" by simp
  then show ?thesis
    using T p by (auto elim!: returns_mono simp: tree_def nth_append less_Suc_eq)
qed

lemma tree_node:
  assumes "tree s ns P g" "nm \<notin> set ns" "length ns < 2 ^ 30"
  shows "returns (add_node nm s) (\<lambda>((i, nd), s'). i = int (length ns) \<and> nd = node (fst s') ! length ns \<and> tree s' (ns @ [nm]) P g)"
proof -
  have G: "graph s ns (map2 dir [0..<length P] P) g" using assms(1) by (simp add: tree_def)
  show ?thesis by (rule returns_mono [OF add_node_graph [OF G assms(2,3)]]) (use assms(1) in \<open>auto simp: tree_def\<close>)
qed

lemma count_new: "tree s ns P g \<Longrightarrow> length ns \<le> p \<Longrightarrow> count_list P p = 0"
  by (auto simp: tree_def count_list_0_iff in_set_conv_nth)

text \<open>One comparator takes the next four nodes of the layer below, or what is left of it.\<close>

lemma comparator_tree:
  assumes T: "tree s ns P g" and len: "length P = first + 4 * i" "num = length ns - 1" "first + prev \<le> num" "0 < length ns"
    and c: "count_list P num = 0" and i: "4 * i < prev" and small: "length ns \<le> 2 ^ 30"
  shows "returns (comparator mk 4 (int first) (int prev) (int i) (int num) s)
    (\<lambda>s'. tree s' ns (P @ replicate (min 4 (prev - 4 * i)) num) g)"
  unfolding comparator_def Let_def
proof (rule returns_rangeI [where I = "\<lambda>j s. tree s ns (P @ replicate (min (nat j) (prev - 4 * i)) num) g"])
  fix j s assume j: "0 \<le> j" "j < 4" and T: "tree s ns (P @ replicate (min (nat j) (prev - 4 * i)) num) g"
  have num: "num < length ns" using len by simp
  have G: "numNodes (fst s) = int (length ns)" "length ns < length (node (fst s))"
    using tree_nodes [OF T] by simp_all
  have range: "i32 (int i * 4) = Some (int i * 4)" "i32 (int i * 4 + j) = Some (int i * 4 + j)"
    "i32 (int first + (int i * 4 + j)) = Some (int first + (int i * 4 + j))"
    using j i len(3) num small by (auto intro!: i32_in)
  show "returns (do {
      sid \<leftarrow> i32 (int i * 4);
      sid \<leftarrow> i32 (sid + j);
      if int prev \<le> sid then Some s
      else do {
         k \<leftarrow> i32 (int first + sid);
         snd_node \<leftarrow> aget (node (fst s)) k;
         nd \<leftarrow> aget (node (fst s)) (int num);
         mk nd snd_node s } }) (\<lambda>s'. tree s' ns (P @ replicate (min (nat (j + 1)) (prev - 4 * i)) num) g)"
  proof (cases "int prev \<le> int i * 4 + j")
    case True
    then have "prev - 4 * i \<le> nat j" by linarith
    then have "min (nat (j + 1)) (prev - 4 * i) = min (nat j) (prev - 4 * i)" by linarith
    then show ?thesis using True T by (simp add: range)
  next
    case False
    then have m: "min (nat j) (prev - 4 * i) = nat j" "min (nat (j + 1)) (prev - 4 * i) = Suc (nat j)" using j by linarith+
    define Q where "Q = P @ replicate (nat j) num"
    have TQ: "tree s ns Q g" using T by (simp add: Q_def m(1))
    have lQ: "length Q = first + 4 * i + nat j" by (simp add: Q_def len(1))
    have k: "nat (int first + (int i * 4 + j)) = length Q" using j by (simp add: lQ)
    have lt: "length Q < num" using False j len(3) by (simp add: lQ)
    have cnt: "count_list Q num < 4" using c j by (simp add: Q_def count_list_append count_list_replicate)
    have "returns (mk (node (fst s) ! num) (node (fst s) ! length Q) s) (\<lambda>s'. tree s' ns (Q @ [num]) g)"
      by (rule returns_mono [OF tree_arc [OF TQ lt num cnt small]]) simp
    moreover have "Q @ [num] = P @ replicate (min (nat (j + 1)) (prev - 4 * i)) num"
      by (simp only: Q_def m(2) replicate_Suc replicate_append_same append_assoc)
    ultimately show ?thesis using False j num G lt k by (simp add: c_simps range)
  qed
qed (use assms in \<open>auto simp: min_def\<close>)

lemma next_layer_tree:
  assumes T: "tree (built L) (labels leaf n @ labels ''Comparator.'' tot) P g"
    and L: "firstLayerNode L = int first" "numPrevLayerNodes L = int prev" "numLayerNodes L = int prev" "totComparators L = int tot"
    and len: "length P = first" "first + prev = n + tot" "0 < prev"
    and leaf: "\<And>i. 0 \<le> i \<Longrightarrow> numbered ''Comparator.'' i \<notin> set (labels leaf n)"
    and small: "n + tot + (prev + 3) div 4 < 2 ^ 30"
  shows "returns (next_layer mk 4 L) (\<lambda>L'. \<exists>P' m tot'. tree (built L') (labels leaf n @ labels ''Comparator.'' tot') P' g \<and>
      firstLayerNode L' = int (first + prev) \<and> numPrevLayerNodes L' = int m \<and> numLayerNodes L' = int m \<and>
      totComparators L' = int tot' \<and> P' = P @ layer_parents (first + prev) prev \<and> first + prev + m = n + tot' \<and> m = (prev + 3) div 4)"
proof -
  define m where "m = (prev + 3) div 4"
  have m: "i32 (c_quot (int prev) 4 * 4) = Some (int prev div 4 * 4)"
    "(if int prev div 4 * 4 < int prev then i32 (c_quot (int prev) 4 + 1) else Some (c_quot (int prev) 4)) = Some (int m)"
    using len(2) small unfolding m_def by (auto intro!: i32_in simp: zdiv_int)
  have ge: "prev \<le> 4 * m" unfolding m_def by linarith
  have body: "returns (for_range 0 (int m) (\<lambda>i (tot, s). do {
       tot' \<leftarrow> i32 (tot + 1);
       ((num, _), s) \<leftarrow> add_node (numbered ''Comparator.'' tot) s;
       s \<leftarrow> comparator mk 4 (int first) (int prev) i num s;
       Some (tot', s) }) (int tot, built L))
     (\<lambda>(t', s). \<exists>P'. t' = int (tot + m) \<and> tree s (labels leaf n @ labels ''Comparator.'' (tot + m)) P' g \<and>
       P' = P @ layer_parents (first + prev) prev)"
  proof (rule returns_rangeI [where I = "\<lambda>i (t', s). \<exists>P'. t' = int (tot + nat i) \<and>
      tree s (labels leaf n @ labels ''Comparator.'' (tot + nat i)) P' g \<and> P' = P @ layer_parents (first + prev) (min (4 * nat i) prev)"])
    fix i :: int and x assume i: "0 \<le> i" "i < int m"
      and x: "(\<lambda>(t', s). \<exists>P'. t' = int (tot + nat i) \<and> tree s (labels leaf n @ labels ''Comparator.'' (tot + nat i)) P' g \<and>
        P' = P @ layer_parents (first + prev) (min (4 * nat i) prev)) x"
    obtain t' s where xs: "x = (t', s)" by (cases x)
    define k where "k = nat i"
    have lt: "4 * k < prev" using i unfolding m_def k_def by linarith
    define ns where "ns = labels leaf n @ labels ''Comparator.'' (tot + k)"
    from x lt obtain P' where P': "t' = int (tot + k)" "tree s ns P' g" "P' = P @ layer_parents (first + prev) (4 * k)"
      by (auto simp: xs k_def ns_def min_def)
    have lP': "length P' = first + 4 * k" using P'(3) len(1) by (simp add: layer_parents_def)
    define nm where "nm = numbered ''Comparator.'' (int (tot + k))"
    have new: "nm \<notin> set ns" using leaf by (simp add: ns_def nm_def)
    have ns': "labels leaf n @ labels ''Comparator.'' (Suc (tot + k)) = ns @ [nm]"
      by (simp add: ns_def nm_def labels_Suc)
    have ln: "length ns = n + (tot + k)" by (simp add: ns_def)
    have lns: "length ns < 2 ^ 30" "length (ns @ [nm]) \<le> 2 ^ 30" using ln i small by (simp_all add: k_def m_def)
    have tot: "i32 (int (tot + k) + 1) = Some (int (tot + k) + 1)" using lns ln by (intro i32_in) simp_all
    have "returns (comparator mk 4 (int first) (int prev) (int k) (int (length ns)) s1)
        (\<lambda>s'. tree s' (ns @ [nm]) (P' @ replicate (min 4 (prev - 4 * k)) (length ns)) g)" if "tree s1 (ns @ [nm]) P' g" for s1
      using comparator_tree [OF that lP', of "length ns" prev] count_new [OF P'(2), of "length ns"] lt ln len lns(2) by simp
    moreover have "P' @ replicate (min 4 (prev - 4 * k)) (length ns) = P @ layer_parents (first + prev) (min (4 * Suc k) prev)"
      using layer_parents_grow [OF lt, of "first + prev"] P'(3) ln len(2) by (simp add: ac_simps)
    ultimately have step: "returns (comparator mk 4 (int first) (int prev) (int k) (int (length ns)) s1)
        (\<lambda>s'. \<exists>Q. tree s' (ns @ [nm]) Q g \<and> Q = P @ layer_parents (first + prev) (min (4 * Suc k) prev))" if "tree s1 (ns @ [nm]) P' g" for s1
      using that by (blast intro: returns_mono)
    have k': "i = int k" using i by (simp add: k_def)
    have nk: "nat (int k + 1) = Suc k" by simp
    show "returns ((\<lambda>(tot, s). do {
       tot' \<leftarrow> i32 (tot + 1);
       ((num, _), s) \<leftarrow> add_node (numbered ''Comparator.'' tot) s;
       s \<leftarrow> comparator mk 4 (int first) (int prev) i num s;
       Some (tot', s) }) x) (\<lambda>(t', s). \<exists>P'. t' = int (tot + nat (i + 1)) \<and>
        tree s (labels leaf n @ labels ''Comparator.'' (tot + nat (i + 1))) P' g \<and> P' = P @ layer_parents (first + prev) (min (4 * nat (i + 1)) prev))"
      unfolding xs k' split_conv P'(1) nm_def [symmetric] tot Option.bind.bind_lunit returns_bind
      by (rule returns_mono [OF tree_node [OF P'(2) new lns(1)]]) (auto simp: ns' nk simp del: mult_Suc_right dest!: step elim!: returns_mono)
  qed (use T len ge in \<open>auto simp: min_def layer_parents_def split: if_splits\<close>)
  show ?thesis
    unfolding next_layer_def Let_def L m Option.bind.bind_lunit returns_bind
    by (rule returns_mono [OF body]) (use len small in \<open>auto simp: m_def\<close>)
qed

text \<open>The whole tree: \<open>P\<close> lists the parents of all nodes but the last, which is the root.\<close>

theorem tree_layers_tree:
  assumes G: "graph s [] [] g" and n: "0 < n" "n \<le> 2 ^ 29"
    and leaf: "\<And>i. 0 \<le> i \<Longrightarrow> numbered ''Comparator.'' i \<notin> set (labels leaf n)"
    and root: "root \<notin> set (labels leaf n)" "\<And>k. root \<notin> set (labels ''Comparator.'' k)"
  shows "returns (tree_layers mk leaf root (int n) s)
    (\<lambda>s'. tree s' (labels leaf n @ labels ''Comparator.'' (comparators n) @ [root]) (parents 0 n) g)"
proof -
  define I :: "'f layers \<Rightarrow> bool" where "I = (\<lambda>L. \<exists>P first prev tot. tree (built L) (labels leaf n @ labels ''Comparator.'' tot) P g \<and>
    firstLayerNode L = int first \<and> numPrevLayerNodes L = int prev \<and> numLayerNodes L = int prev \<and> totComparators L = int tot \<and>
    length P = first \<and> first + prev = n + tot \<and> 0 < prev \<and> tot + comparators prev = comparators n \<and>
    P @ parents first prev = parents 0 n)"
  have layers: "returns (c_while (\<lambda>L. Some (numLayerNodes L > 4)) (next_layer mk 4)
       \<lparr>numLayerNodes = int n, firstLayerNode = 0, totComparators = 0, numPrevLayerNodes = int n, built = s1\<rparr>)
       (\<lambda>L. I L \<and> Some (numLayerNodes L > 4) = Some False)" if s1: "graph s1 (labels leaf n) [] g" for s1
  proof (rule returns_while [where I = I and f = "\<lambda>L. nat (numLayerNodes L)"])
    have "tree s1 (labels leaf n) [] g" using s1 by (simp add: tree_def)
    then show "I \<lparr>numLayerNodes = int n, firstLayerNode = 0, totComparators = 0, numPrevLayerNodes = int n, built = s1\<rparr>"
      unfolding I_def using n by (intro exI [of _ "[]"] exI [of _ 0] exI [of _ n] exI [of _ 0]) (simp add: labels_def)
    fix L :: "'f layers" assume "I L" and big: "Some (numLayerNodes L > 4) = Some True"
    then obtain P first prev tot where L: "tree (built L) (labels leaf n @ labels ''Comparator.'' tot) P g"
      "firstLayerNode L = int first" "numPrevLayerNodes L = int prev" "numLayerNodes L = int prev" "totComparators L = int tot"
      "length P = first" "first + prev = n + tot" "0 < prev" and cm: "tot + comparators prev = comparators n"
      and pm: "P @ parents first prev = parents 0 n"
      unfolding I_def by blast
    have m: "(prev + 3) div 4 < prev" "0 < (prev + 3) div 4" using big L(4) by auto
    have "\<not> prev \<le> 4" using big L(4) by simp
    then have small: "n + tot + (prev + 3) div 4 < 2 ^ 30"
      using cm comparators_less [OF n(1)] n(2) comparators.simps [of prev] by simp
    show "returns (next_layer mk 4 L) (\<lambda>L'. I L' \<and> nat (numLayerNodes L') < nat (numLayerNodes L))"
    proof (rule returns_mono [OF next_layer_tree [OF L leaf small]])
      fix L' :: "'f layers" assume "\<exists>P' m tot'. tree (built L') (labels leaf n @ labels ''Comparator.'' tot') P' g \<and>
        firstLayerNode L' = int (first + prev) \<and> numPrevLayerNodes L' = int m \<and> numLayerNodes L' = int m \<and>
        totComparators L' = int tot' \<and> P' = P @ layer_parents (first + prev) prev \<and> first + prev + m = n + tot' \<and> m = (prev + 3) div 4"
      then obtain P' k tot' where L': "tree (built L') (labels leaf n @ labels ''Comparator.'' tot') P' g"
        "firstLayerNode L' = int (first + prev)" "numPrevLayerNodes L' = int k" "numLayerNodes L' = int k"
        "totComparators L' = int tot'" and P': "P' = P @ layer_parents (first + prev) prev" and L'':  "first + prev + k = n + tot'" "k = (prev + 3) div 4" by blast
      have "tot' = tot + k" using L''(1) L(7) by simp
      moreover have "\<not> prev \<le> 4" using big L(4) by simp
      ultimately have "tot' + comparators k = comparators n"
        using cm comparators.simps [of prev] L''(2) by simp
      moreover have "P' @ parents (first + prev) k = parents 0 n"
        using pm parents.simps [of first prev] \<open>\<not> prev \<le> 4\<close> P' L''(2) by simp
      moreover have "length P' = first + prev" using P' L(6) by (simp add: layer_parents_def)
      ultimately have "I L'" unfolding I_def using L' L'' m(2) by blast
      then show "I L' \<and> nat (numLayerNodes L') < nat (numLayerNodes L)" using L'(4) L''(2) L(4) m(1) by simp
    qed simp
  qed simp
  have final: "returns (do { ((_, nd), s) \<leftarrow> add_node root (built L);
     for_range 0 (numPrevLayerNodes L) (\<lambda>i s. do {
       k \<leftarrow> i32 (firstLayerNode L + i);
       p \<leftarrow> aget (node (fst s)) k;
       mk nd p s }) s })
     (\<lambda>s'. tree s' (labels leaf n @ labels ''Comparator.'' (comparators n) @ [root]) (parents 0 n) g)"
    if "I L" "\<not> numLayerNodes L > 4" for L
  proof -
    from that(1) obtain P first prev tot where L: "tree (built L) (labels leaf n @ labels ''Comparator.'' tot) P g"
      "firstLayerNode L = int first" "numPrevLayerNodes L = int prev" "numLayerNodes L = int prev" "totComparators L = int tot"
      "length P = first" "first + prev = n + tot" "0 < prev" and cm: "tot + comparators prev = comparators n"
      and pm: "P @ parents first prev = parents 0 n"
      unfolding I_def by blast
    have small: "prev \<le> 4" using that(2) L(4) by simp
    have par: "P @ replicate prev (n + tot) = parents 0 n" using pm parents.simps [of first prev] small L(7) by simp
    from small have tot: "tot = comparators n" using cm comparators.simps [of prev] by simp
    define ns where "ns = labels leaf n @ labels ''Comparator.'' tot"
    have ln: "length ns = first + prev" using L(7) by (simp add: ns_def)
    have new: "root \<notin> set ns" using root by (simp add: ns_def)
    have lns: "length ns < 2 ^ 30" "length (ns @ [root]) \<le> 2 ^ 30"
      using ln L(7) tot comparators_less [OF n(1)] n(2) by simp_all
    note T = L(1) [folded ns_def]
    have arcs: "returns (for_range 0 (int prev) (\<lambda>i s. do {
       k \<leftarrow> i32 (int first + i);
       p \<leftarrow> aget (node (fst s)) k;
       mk (node (fst s1) ! length ns) p s }) s1) (\<lambda>s'. tree s' (ns @ [root]) (P @ replicate prev (length ns)) g)"
      if s1: "tree s1 (ns @ [root]) P g" for s1
    proof (rule returns_rangeI [where I = "\<lambda>i s. tree s (ns @ [root]) (P @ replicate (nat i) (length ns)) g \<and> node (fst s) = node (fst s1)"])
      fix i s assume i: "0 \<le> i" "i < int prev"
        and s: "tree s (ns @ [root]) (P @ replicate (nat i) (length ns)) g \<and> node (fst s) = node (fst s1)"
      have lt: "length (P @ replicate (nat i) (length ns)) < length ns" using i ln L(6) by simp
      have cnt: "count_list (P @ replicate (nat i) (length ns)) (length ns) < 4"
        using i small count_new [OF T order_refl] by (simp add: count_list_append count_list_replicate)
      have k: "nat (int first + i) = length (P @ replicate (nat i) (length ns))" using i L(6) by simp
      have big: "length (ns @ [root]) < length (node (fst s))" using s tree_nodes(2) by blast
      have "returns (mk (node (fst s) ! length ns) (node (fst s) ! length (P @ replicate (nat i) (length ns))) s)
          (\<lambda>s'. tree s' (ns @ [root]) (P @ replicate (nat i) (length ns) @ [length ns]) g \<and> node (fst s') = node (fst s))"
        using tree_arc [OF conjunct1 [OF s] lt _ cnt lns(2)] by simp
      moreover have "P @ replicate (nat i) (length ns) @ [length ns] = P @ replicate (nat (i + 1)) (length ns)"
        using i by (simp add: nat_add_distrib replicate_append_same)
      moreover have "i32 (int first + i) = Some (int first + i)" using i ln lns(1) by (intro i32_in) simp_all
      ultimately show "returns (do { k \<leftarrow> i32 (int first + i); p \<leftarrow> aget (node (fst s)) k; mk (node (fst s1) ! length ns) p s })
          (\<lambda>s'. tree s' (ns @ [root]) (P @ replicate (nat (i + 1)) (length ns)) g \<and> node (fst s') = node (fst s1))"
        using i s big lt ln L(6) k by (auto simp: c_simps elim!: returns_mono)
    qed (use s1 in auto)
    show ?thesis
      unfolding L(2,3) returns_bind
    proof (rule returns_mono [OF tree_node [OF T new lns(1)]], clarsimp)
      fix dg h assume "tree (dg, h) (ns @ [root]) P g"
      from arcs [OF this] have "returns (for_range 0 (int prev) (\<lambda>i s. do {
         k \<leftarrow> i32 (int first + i);
         p \<leftarrow> aget (node (fst s)) k;
         mk (node dg ! length ns) p s }) (dg, h)) (\<lambda>s'. tree s' (ns @ [root]) (P @ replicate prev (length ns)) g)" by simp
      then show "returns (for_range 0 (int prev) (\<lambda>i s. do {
         k \<leftarrow> i32 (int first + i);
         p \<leftarrow> aget (node (fst s)) k;
         mk (node dg ! length ns) p s }) (dg, h))
         (\<lambda>s'. tree s' (labels leaf n @ labels ''Comparator.'' (comparators n) @ [root]) (parents 0 n) g)"
        by (rule returns_mono)
          (use L(6,7) tot par in \<open>simp add: ns_def\<close>)
    qed
  qed
  show ?thesis
    unfolding tree_layers_def returns_bind
  proof (rule returns_mono [OF add_nodes_graph [OF G]])
    fix s1 :: "'f dg_state" assume "graph s1 (labels leaf (nat (int n))) [] g"
    then have s1: "graph s1 (labels leaf n) [] g" by simp
    show "returns (c_while (\<lambda>L. Some (4 < numLayerNodes L)) (next_layer mk 4)
         \<lparr>numLayerNodes = int n, firstLayerNode = 0, totComparators = 0, numPrevLayerNodes = int n, built = s1\<rparr>)
        (\<lambda>L. returns (add_node root (built L)) (\<lambda>x. returns (case x of (x, xa) \<Rightarrow> (case x of (uu, nd) \<Rightarrow>
            \<lambda>s. for_range 0 (numPrevLayerNodes L) (\<lambda>i s. i32 (firstLayerNode L + i) \<bind> (\<lambda>k. aget (node (fst s)) k \<bind> (\<lambda>p. mk nd p s))) s) xa)
          (\<lambda>s'. tree s' (labels leaf n @ labels ''Comparator.'' (comparators n) @ [root]) (parents 0 n) g)))"
      by (rule returns_mono [OF layers [OF s1]]) (use final in auto)
  qed (use n in simp_all)
qed

end

subsection \<open>The two directions\<close>

interpretation black: layered "\<lambda>nd prev. add_arc prev nd" "\<lambda>a b. (a, b)"
  by unfold_locales (auto intro: add_arc_graph)

interpretation white: layered "\<lambda>nd prev. add_arc nd prev" "\<lambda>a b. (b, a)"
  by unfold_locales (auto intro: add_arc_graph)

lemma names_apart:
  "0 \<le> i \<Longrightarrow> numbered ''Comparator.'' i \<notin> set (labels ''Source.'' n)" "0 \<le> i \<Longrightarrow> numbered ''Comparator.'' i \<notin> set (labels ''Sink.'' n)"
  "''Sink'' \<notin> set (labels ''Source.'' n)" "''Sink'' \<notin> set (labels ''Comparator.'' n)" "''Source'' \<notin> set (labels ''Sink.'' n)"
  "''Source'' \<notin> set (labels ''Comparator.'' n)"
  by (auto simp: labels_def numbered_def)

text \<open>A list of parents: every node but the last has one, with a larger number, and no node has more than four
  children.\<close>

definition in_tree :: "nat list \<Rightarrow> bool" where
  "in_tree P \<longleftrightarrow> (\<forall>k<length P. k < P ! k \<and> P ! k \<le> length P) \<and> (\<forall>p. count_list P p \<le> 4)"

text \<open>The graphs: the names of the nodes and the arcs, from the tail to the head, in the order of their numbers.\<close>

definition BH_names :: "nat \<Rightarrow> string list" where
  "BH_names n = labels ''Source.'' n @ labels ''Comparator.'' (comparators n) @ [''Sink'']"

definition BH_arcs :: "nat \<Rightarrow> (nat \<times> nat) list" where
  "BH_arcs n = zip [0..<n + comparators n] (parents 0 n)"

definition WH_names :: "nat \<Rightarrow> string list" where
  "WH_names n = rev (labels ''Sink.'' n @ labels ''Comparator.'' (comparators n) @ [''Source''])"

definition WH_arcs :: "nat \<Rightarrow> (nat \<times> nat) list" where
  "WH_arcs n = List.map (\<lambda>(k, p). (n + comparators n - p, n + comparators n - k)) (zip [0..<n + comparators n] (parents 0 n))"

lemma BH_built:
  assumes "0 < n" "n \<le> 2 ^ 29"
  shows "returns (buildBH raw (int n) cls h) (\<lambda>s. in_tree (parents 0 n) \<and> length (parents 0 n) = n + comparators n \<and>
    graph s (BH_names n) (BH_arcs n) (''DT_BH.'' @ [cls]))"
  unfolding buildBH_def
  by (rule returns_mono [OF black.tree_layers_tree [OF graph_new assms names_apart(1,3,4)]])
    (auto simp: black.tree_def in_tree_def less_Suc_eq_le parents_length assms BH_names_def BH_arcs_def)

text \<open>C25: for up to \<open>2^29\<close> sources the black hole graph is built with no invalid access and no overflow of a counter, and is a tree that
  gathers the sources in its last node: every node but the last has exactly one arc out, no node has more than four
  arcs in, and every arc leads to a node with a larger number, the topological order the comment asks for to
  avoid a deadlock.\<close>

theorem buildBH_tree:
  assumes "0 < n" "n \<le> 2 ^ 29"
  shows "returns (buildBH raw (int n) cls h) (\<lambda>s. in_tree (parents 0 n) \<and> length (parents 0 n) = n + comparators n \<and>
    graph s (BH_names n) (BH_arcs n) (''DT_BH.'' @ [cls]))"
  by (rule BH_built [OF assms])

section \<open>Reversing the order of the nodes\<close>

definition opposite :: "nat \<Rightarrow> nat \<Rightarrow> nat" where
  "opposite n k = n - 1 - k"

lemma opposite_less: "k < n \<Longrightarrow> opposite n k < n"
  by (simp add: opposite_def)

lemma opposite_twice [simp]: "k < n \<Longrightarrow> opposite n (opposite n k) = k"
  by (simp add: opposite_def)

lemma opposite_inj: "j < n \<Longrightarrow> k < n \<Longrightarrow> opposite n j = opposite n k \<longleftrightarrow> j = k"
  by (auto simp: opposite_def)

text \<open>The number of a node after \<open>i\<close> swaps.\<close>

definition swapped :: "nat \<Rightarrow> nat \<Rightarrow> nat \<Rightarrow> nat" where
  "swapped n i k = (if k < i \<or> n - i \<le> k then opposite n k else k)"

lemma swapped_step:
  assumes "i < n div 2" "k < n"
  shows "swapped n (Suc i) k = (if k = i \<or> k = opposite n i then opposite n k else swapped n i k)"
  using assms by (auto simp: swapped_def opposite_def)

lemma swapped_pair: "i < n div 2 \<Longrightarrow> swapped n i i = i \<and> swapped n i (opposite n i) = opposite n i \<and> i \<noteq> opposite n i \<and> opposite n i < n"
  by (auto simp: swapped_def opposite_def)

lemma swapped_all: "k < n \<Longrightarrow> swapped n (n div 2) k = opposite n k"
  by (auto simp: swapped_def opposite_def)

definition swaps :: "'f dg_state \<Rightarrow> nat list \<Rightarrow> nat \<Rightarrow> 'f dg_state \<Rightarrow> bool" where
  "swaps s ps i s' \<longleftrightarrow> (\<exists>ar. fst s' = (fst s)\<lparr>node := ar\<rparr> \<and> length ar = length (node (fst s)) \<and>
     (\<forall>k<length ps. ar ! k = Some (ps ! swapped (length ps) i k)) \<and>
     (\<forall>k<length ps. nodes (snd s') (ps ! k) = map_option (\<lambda>nd. nd\<lparr>node_id := int (swapped (length ps) i k)\<rparr>) (nodes (snd s) (ps ! k)))) \<and>
     arcs (snd s') = arcs (snd s) \<and> fresh (snd s') = fresh (snd s)"

lemma swap_step:
  assumes R: "rep (snd s) (fst s) ps ns es" and i: "i < length ps div 2" and S: "swaps s ps i s'"
  shows "returns (swap_nodes (int i) s') (swaps s ps (Suc i))"
proof -
  define n where "n = length ps"
  define j where "j = opposite n i"
  have ij: "i < n" "j < n" "i \<noteq> j" "swapped n i i = i" "swapped n i j = j" "opposite n i = j" "opposite n j = i"
    using i swapped_pair [of i n] by (auto simp: n_def j_def)
  from S obtain ar where ar: "fst s' = (fst s)\<lparr>node := ar\<rparr>" "length ar = length (node (fst s))"
      "\<And>k. k < n \<Longrightarrow> ar ! k = Some (ps ! swapped n i k)"
      "\<And>k. k < n \<Longrightarrow> nodes (snd s') (ps ! k) = map_option (\<lambda>nd. nd\<lparr>node_id := int (swapped n i k)\<rparr>) (nodes (snd s) (ps ! k))"
      "arcs (snd s') = arcs (snd s)" "fresh (snd s') = fresh (snd s)"
    by (auto simp: swaps_def n_def)
  obtain dg h where s': "s' = (dg, h)" by (cases s')
  have num: "numNodes dg = int n" "n < length ar" using R ar(1,2) s' by (auto simp: rep_def holds_def n_def)
  have k: "numNodes dg - 1 - int i = int j" using num ij by (simp add: j_def opposite_def of_nat_diff)
  have ne: "ps ! i \<noteq> ps ! j" using R ij by (simp add: rep_def nth_eq_iff_index_eq n_def)
  obtain x where x: "nodes (snd s) (ps ! i) = Some x" using R ij(1) by (auto simp: rep_def n_def)
  obtain y where y: "nodes (snd s) (ps ! j) = Some y" using R ij(2) by (auto simp: rep_def n_def)
  have hx: "nodes h (ps ! i) = Some (x\<lparr>node_id := int i\<rparr>)" and hy: "nodes h (ps ! j) = Some (y\<lparr>node_id := int j\<rparr>)"
    using ar(4) ij x y s' by auto
  define ar' where "ar' = ar[i := Some (ps ! j), j := Some (ps ! i)]"
  define h' where "h' = h\<lparr>nodes := (nodes h)(ps ! j \<mapsto> y\<lparr>node_id := int i\<rparr>, ps ! i \<mapsto> x\<lparr>node_id := int j\<rparr>)\<rparr>"
  have node: "node dg = ar" using ar(1) s' by (cases "fst s") auto
  have "swap_nodes (int i) s' = Some (dg\<lparr>node := ar'\<rparr>, h')"
    using node ij ar(3) num k hx hy ne
    by (simp add: swap_nodes_def s' Let_def set_id_def ar'_def h'_def)
  moreover have "swaps s ps (Suc i) (dg\<lparr>node := ar'\<rparr>, h')"
    unfolding swaps_def
  proof (intro conjI exI [of _ ar'] allI impI)
    show "fst (dg\<lparr>node := ar'\<rparr>, h') = (fst s)\<lparr>node := ar'\<rparr>" using ar(1) s' by simp
    show "length ar' = length (node (fst s))" using ar(2) by (simp add: ar'_def)
    show "arcs (snd (dg\<lparr>node := ar'\<rparr>, h')) = arcs (snd s)" "fresh (snd (dg\<lparr>node := ar'\<rparr>, h')) = fresh (snd s)"
      using ar(5,6) s' by (simp_all add: h'_def)
    fix k assume "k < length ps"
    then have k: "k < n" by (simp add: n_def)
    have st: "swapped n (Suc i) k = (if k = i then j else if k = j then i else swapped n i k)"
      using swapped_step [of i n k] i k ij by (auto simp: n_def [symmetric])
    show "ar' ! k = Some (ps ! swapped (length ps) (Suc i) k)"
      using ar(3) [OF k] st ij k num(2) by (simp add: ar'_def nth_list_update n_def [symmetric])
    have "ps ! k = ps ! i \<longleftrightarrow> k = i" "ps ! k = ps ! j \<longleftrightarrow> k = j" using R ij k by (auto simp: rep_def nth_eq_iff_index_eq n_def)
    then show "nodes (snd (dg\<lparr>node := ar'\<rparr>, h')) (ps ! k) =
        map_option (\<lambda>nd. nd\<lparr>node_id := int (swapped (length ps) (Suc i) k)\<rparr>) (nodes (snd s) (ps ! k))"
      using ar(4) [OF k] st ij s' x y by (simp add: h'_def n_def [symmetric])
  qed
  ultimately show ?thesis by simp
qed

lemma ins_opposite:
  "\<forall>(a, t, d)\<in>set es. t < n \<and> d < n \<Longrightarrow> k < n \<Longrightarrow> ins (List.map (\<lambda>(a, t, d). (a, opposite n t, opposite n d)) es) k = ins es (opposite n k) \<and>
   outs (List.map (\<lambda>(a, t, d). (a, opposite n t, opposite n d)) es) k = outs es (opposite n k)"
proof (induction es)
  case (Cons e es)
  obtain a t d where e: "e = (a, t, d)" by (cases e)
  have "opposite n d = k \<longleftrightarrow> d = opposite n k" "opposite n t = k \<longleftrightarrow> t = opposite n k"
    using Cons.prems e by (auto simp: opposite_def)
  then show ?case using Cons e by (auto simp: ins_def outs_def)
qed (simp add: ins_def outs_def)

lemma swaps_rep:
  assumes R: "rep (snd s) (fst s) ps ns es" and S: "swaps s ps (length ps div 2) s'"
  shows "rep (snd s') (fst s') (rev ps) (rev ns) (List.map (\<lambda>(a, t, d). (a, opposite (length ps) t, opposite (length ps) d)) es)"
proof -
  define n where "n = length ps"
  define es' where "es' = List.map (\<lambda>(a, t, d). (a, opposite n t, opposite n d)) es"
  have fst': "List.map fst es' = List.map fst es" by (simp add: es'_def case_prod_unfold)
  have bounds: "\<forall>(a, t, d)\<in>set es. t < n \<and> d < n" using rep_edge(1,2) [OF R] by (auto simp: n_def)
  have rv: "rev ps ! k = ps ! opposite n k" "rev ns ! k = ns ! opposite n k" if "k < n" for k
    using that R by (simp_all add: rev_nth opposite_def n_def rep_def)
  from S obtain ar where ar: "fst s' = (fst s)\<lparr>node := ar\<rparr>" "length ar = length (node (fst s))"
      "\<And>k. k < n \<Longrightarrow> ar ! k = Some (ps ! opposite n k)"
      "\<And>k. k < n \<Longrightarrow> nodes (snd s') (ps ! k) = map_option (\<lambda>nd. nd\<lparr>node_id := int (opposite n k)\<rparr>) (nodes (snd s) (ps ! k))"
      "arcs (snd s') = arcs (snd s)" "fresh (snd s') = fresh (snd s)"
    by (auto simp: swaps_def n_def swapped_all)
  have H: "holds (node (fst s)) (numNodes (fst s)) (maxNodes (fst s)) ps" using R by (simp add: rep_def)
  have "holds ar (numNodes (fst s)) (maxNodes (fst s)) (rev ps)"
  proof -
    have "take n ar = List.map Some (rev ps)"
      by (rule nth_equalityI) (use ar(2,3) H rv in \<open>auto simp: holds_def n_def [symmetric]\<close>)
    then show ?thesis using H ar(2) by (simp add: holds_def n_def [symmetric])
  qed
  moreover have "\<exists>nd. nodes (snd s') (rev ps ! k) = Some nd \<and> node_rep nd k (rev ns ! k) es'" if k: "k < n" for k
  proof -
    have o: "opposite n k < n" using k by (rule opposite_less)
    then obtain nd where "nodes (snd s) (ps ! opposite n k) = Some nd" "node_rep nd (opposite n k) (ns ! opposite n k) es"
      using R by (auto simp: rep_def n_def)
    then show ?thesis
      using ar(4) [OF o] k rv [OF k] ins_opposite [OF bounds k] by (simp add: node_rep_def es'_def)
  qed
  moreover have "\<exists>x. arcs (snd s') (fst (es' ! k)) = Some x \<and> arc_rep x k (rev ps) (fst (snd (es' ! k))) (snd (snd (es' ! k)))"
    if k: "k < length es'" for k
  proof -
    have k': "k < length es" using k by (simp add: es'_def)
    then obtain x where x: "arcs (snd s) (fst (es ! k)) = Some x" "arc_rep x k ps (fst (snd (es ! k))) (snd (snd (es ! k)))"
      using R by (auto simp: rep_def)
    moreover obtain a t d where e: "es ! k = (a, t, d)" by (cases "es ! k")
    moreover have "t < n" "d < n" using bounds nth_mem [OF k'] e by auto
    ultimately show ?thesis
      using k' ar(5) rv [OF opposite_less] opposite_less by (auto simp: es'_def arc_rep_def n_def [symmetric])
  qed
  ultimately show ?thesis
    using R ar(1,6) fst' unfolding rep_def
    by (auto simp: n_def [symmetric] es'_def [symmetric] image_image simp flip: set_map)
qed

lemma reverse_graph:
  assumes G: "graph s ns E g"
  shows "returns (for_range 0 (c_quot (numNodes (fst s)) 2) swap_nodes s)
    (\<lambda>s'. graph s' (rev ns) (List.map (\<lambda>(t, d). (opposite (length ns) t, opposite (length ns) d)) E) g)"
proof -
  from G obtain ps es where R: "rep (snd s) (fst s) ps ns es" "List.map snd es = E" "graph_name (fst s) = g" by (auto simp: graph_def)
  have l: "length ps = length ns" using R(1) by (simp add: rep_def)
  have q: "c_quot (numNodes (fst s)) 2 = int (length ps div 2)" using R(1) by (simp add: rep_def holds_def)
  show ?thesis
    unfolding q
  proof (rule returns_rangeI [where I = "\<lambda>i. swaps s ps (nat i)"])
    show "swaps s ps (nat 0) s"
      unfolding swaps_def
      by (rule conjI, rule exI [of _ "node (fst s)"])
        (use R(1) rep_node(4) [OF R(1)] in \<open>auto simp: swapped_def rep_def node_rep_def\<close>)
    fix i s' assume "0 \<le> i" "i < int (length ps div 2)" "swaps s ps (nat i) s'"
    then show "returns (swap_nodes i s') (swaps s ps (nat (i + 1)))"
      using swap_step [OF R(1), of "nat i" s'] by (simp add: nat_add_distrib)
  next
    fix s' assume "swaps s ps (nat (int (length ps div 2))) s'"
    then have S: "swaps s ps (length ps div 2) s'" by simp
    from swaps_rep [OF R(1) S] S R(2,3) l
    show "graph s' (rev ns) (List.map (\<lambda>(t, d). (opposite (length ns) t, opposite (length ns) d)) E) g"
      unfolding graph_def
      by (intro exI [of _ "rev ps"] exI [of _ "List.map (\<lambda>(a, t, d). (a, opposite (length ps) t, opposite (length ps) d)) es"])
        (auto simp: swaps_def)
  qed simp
qed

lemma WH_built:
  assumes "0 < n" "n \<le> 2 ^ 29"
  shows "returns (buildWH raw (int n) cls h) (\<lambda>s. in_tree (parents 0 n) \<and> length (parents 0 n) = n + comparators n \<and>
    graph s (WH_names n) (WH_arcs n) (''DT_WH.'' @ [cls]))"
  unfolding buildWH_def returns_bind
proof (rule returns_mono [OF white.tree_layers_tree [OF graph_new assms names_apart(2,5,6)]])
  fix s assume T: "white.tree s (labels ''Sink.'' n @ labels ''Comparator.'' (comparators n) @ [''Source'']) (parents 0 n) (''DT_WH.'' @ [cls])"
  have len: "length (parents 0 n) = n + comparators n" using assms(1) by (rule parents_length)
  have P: "in_tree (parents 0 n)" using T len by (auto simp: white.tree_def in_tree_def less_Suc_eq_le)
  have E: "List.map (\<lambda>(t, d). (opposite (Suc (n + comparators n)) t, opposite (Suc (n + comparators n)) d))
      (map2 (\<lambda>a b. (b, a)) [0..<length (parents 0 n)] (parents 0 n)) = WH_arcs n"
    by (simp add: opposite_def case_prod_unfold WH_arcs_def len)
  have "graph s (labels ''Sink.'' n @ labels ''Comparator.'' (comparators n) @ [''Source''])
      (map2 (\<lambda>a b. (b, a)) [0..<length (parents 0 n)] (parents 0 n)) (''DT_WH.'' @ [cls])"
    using T by (simp add: white.tree_def)
  moreover have "length (labels ''Sink.'' n @ labels ''Comparator.'' (comparators n) @ [''Source'']) = Suc (n + comparators n)" by simp
  ultimately have "returns (for_range 0 (c_quot (numNodes (fst s)) 2) swap_nodes s)
    (\<lambda>s'. graph s' (WH_names n) (WH_arcs n) (''DT_WH.'' @ [cls]))"
    using reverse_graph E unfolding WH_names_def by metis
  then show "returns (for_range 0 (c_quot (numNodes (fst s)) 2) swap_nodes s)
    (\<lambda>s. in_tree (parents 0 n) \<and> length (parents 0 n) = n + comparators n \<and> graph s (WH_names n) (WH_arcs n) (''DT_WH.'' @ [cls]))"
    by (rule returns_mono) (use P len in auto)
qed

text \<open>C26: for up to \<open>2^29\<close> sinks the white hole graph is built with no invalid access and no overflow, and is the mirror image: a tree
  that spreads from node 0, in topological order.\<close>

theorem buildWH_tree:
  assumes "0 < n" "n \<le> 2 ^ 29"
  shows "returns (buildWH raw (int n) cls h) (\<lambda>s. in_tree (parents 0 n) \<and> length (parents 0 n) = n + comparators n \<and>
    graph s (WH_names n) (WH_arcs n) (''DT_WH.'' @ [cls]))"
  by (rule WH_built [OF assms])

section \<open>The shuffle\<close>

text \<open>The node \<open>i\<close> of the layer \<open>j + 1\<close> compares the two nodes of the layer \<open>j\<close> that agree with \<open>i\<close> in every bit but
  the bit \<open>j\<close>.\<close>

definition stage :: "nat \<Rightarrow> nat \<Rightarrow> nat \<Rightarrow> (nat \<times> nat) list" where
  "stage n j m = concat (List.map (\<lambda>i. [(j * n + unset_bit j i, Suc j * n + i), (j * n + set_bit j i, Suc j * n + i)]) [0..<m])"

definition butterfly :: "nat \<Rightarrow> nat \<Rightarrow> (nat \<times> nat) list" where
  "butterfly n k = concat (List.map (\<lambda>j. stage n j n) [0..<k])"

lemma stage_Suc: "stage n j (Suc m) = stage n j m @ [(j * n + unset_bit j m, Suc j * n + m), (j * n + set_bit j m, Suc j * n + m)]"
  by (simp add: stage_def)

lemma butterfly_Suc: "butterfly n (Suc k) = butterfly n k @ stage n k n"
  by (simp add: butterfly_def)

lemma length_stage [simp]: "length (stage n j m) = 2 * m"
  by (induction m) (simp_all add: stage_def)

lemma length_butterfly [simp]: "length (butterfly n k) = k * (2 * n)"
  by (induction k) (simp_all add: butterfly_def)

lemma masked: "and (int i) (not (push_bit j 1)) = int (unset_bit j i)"
  by (simp add: of_nat_unset_bit_eq unset_bit_eq_and_not)

lemma masked_set: "int (unset_bit j i) + push_bit j 1 = int (set_bit j i)"
  by (simp add: of_nat_unset_bit_eq of_nat_set_bit_eq unset_bit_eq set_bit_eq push_bit_eq_mult bit_of_nat_iff_bit)

lemma set_bit_bound: "i < 2 ^ k \<Longrightarrow> j < k \<Longrightarrow> set_bit j i < (2 :: nat) ^ k"
  using take_bit_set_bit_eq [of k j i] take_bit_nat_less_exp [of k "set_bit j i"] by (simp add: take_bit_nat_eq_self)

lemma unset_bit_bound: "i < 2 ^ k \<Longrightarrow> unset_bit j i < (2 :: nat) ^ k"
proof -
  have "int (unset_bit j i) \<le> int i" using unset_bit_less_eq [of j "int i"] by (simp add: of_nat_unset_bit_eq)
  then show "i < 2 ^ k \<Longrightarrow> ?thesis" by simp
qed

lemma bits_apart: "unset_bit j i \<noteq> set_bit j (i :: nat)"
  using masked_set [of j i] by (auto simp: push_bit_eq_mult)

lemma shuffle_node_graph:
  assumes G: "graph s ns E g" and nm: "nm \<notin> set ns" and i: "i < 2 ^ k" "j < k" and len: "length ns = Suc j * 2 ^ k + i"
    and small: "length ns < 2 ^ 30" "length E + 1 < 2 ^ 30"
  shows "returns (shuffle_node nm (int (j * 2 ^ k)) (push_bit j 1) (int i) s)
    (\<lambda>s'. graph s' (ns @ [nm]) (E @ [(j * 2 ^ k + unset_bit j i, length ns), (j * 2 ^ k + set_bit j i, length ns)]) g)"
proof -
  define a where "a = j * 2 ^ k + unset_bit j i"
  define b where "b = j * 2 ^ k + set_bit j i"
  have ab: "a < length ns" "b < length ns" "a \<noteq> b"
    using unset_bit_bound [OF i(1), of j] set_bit_bound [OF i] bits_apart [of j i] by (auto simp: a_def b_def len)
  have E: "(t, length ns) \<notin> set E" for t using graph_nodes(3) [OF G] by blast
  have arcs: "returns (do {
       p \<leftarrow> aget (node (fst s1)) (int a);
       s \<leftarrow> add_arc p (node (fst s1) ! length ns) s1;
       p \<leftarrow> aget (node (fst s)) (int b);
       add_arc p (node (fst s1) ! length ns) s }) (\<lambda>s'. graph s' (ns @ [nm]) (E @ [(a, length ns), (b, length ns)]) g)"
    if G1: "graph s1 (ns @ [nm]) E g" for s1
  proof -
    have l1: "length (ns @ [nm]) < length (node (fst s1))" by (rule graph_nodes(2) [OF G1])
    have 1: "returns (add_arc (node (fst s1) ! a) (node (fst s1) ! length ns) s1)
        (\<lambda>s'. graph s' (ns @ [nm]) (E @ [(a, length ns)]) g \<and> node (fst s') = node (fst s1))"
      by (rule add_arc_graph [OF G1]) (use ab E small in auto)
    have 2: "returns (add_arc (node (fst s1) ! b) (node (fst s1) ! length ns) s2)
        (\<lambda>s'. graph s' (ns @ [nm]) (E @ [(a, length ns), (b, length ns)]) g)"
      if "graph s2 (ns @ [nm]) (E @ [(a, length ns)]) g" "node (fst s2) = node (fst s1)" for s2
    proof -
      have "returns (add_arc (node (fst s1) ! b) (node (fst s1) ! length ns) s2)
        (\<lambda>s'. graph s' (ns @ [nm]) ((E @ [(a, length ns)]) @ [(b, length ns)]) g \<and> node (fst s') = node (fst s2))"
        by (rule add_arc_graph [OF that(1)]) (use ab E that(2) small in auto)
      then show ?thesis by (rule returns_mono) simp
    qed
    show ?thesis using l1 ab by (auto simp: c_simps intro!: returns_mono [OF 1] 2)
  qed
  have "set_bit j i \<le> b" "b < length ns" using ab by (simp_all add: b_def)
  then have eqs: "i32 (int (j * 2 ^ k) + and (int i) (not (push_bit j 1))) = Some (int a)"
    "i32 (and (int i) (not (push_bit j 1)) + push_bit j 1) = Some (int (set_bit j i))"
    "i32 (int (j * 2 ^ k) + int (set_bit j i)) = Some (int b)"
    using ab(1) small(1) unfolding masked masked_set of_nat_add [symmetric] a_def [symmetric] b_def [symmetric]
    by (simp_all add: i32_def)
  show ?thesis
    unfolding shuffle_node_def Let_def eqs Option.bind.bind_lunit returns_bind a_def [symmetric] b_def [symmetric]
  proof (rule returns_mono [OF add_node_graph [OF G nm small(1)]])
    fix x assume x: "case x of (x, xa) \<Rightarrow> (case x of (i, nd) \<Rightarrow> \<lambda>s'. i = int (length ns) \<and> nd = node (fst s') ! length ns \<and> graph s' (ns @ [nm]) E g) xa"
    obtain i' nd s1 where x': "x = ((i', nd), s1)" by (metis prod.exhaust)
    then have "graph s1 (ns @ [nm]) E g" "nd = node (fst s1) ! length ns" using x by simp_all
    from arcs [OF this(1)] this(2) x'
    show "returns (case x of (x, xa) \<Rightarrow> (case x of (uu, nd) \<Rightarrow> \<lambda>s. aget (node (fst s)) (int a) \<bind> (\<lambda>p. add_arc p nd s \<bind>
        (\<lambda>s. aget (node (fst s)) (int b) \<bind> (\<lambda>p. add_arc p nd s)))) xa) (\<lambda>s'. graph s' (ns @ [nm]) (E @ [(a, length ns), (b, length ns)]) g)"
      by simp
  qed
qed

text \<open>The names of the comparators of the first \<open>j\<close> layers.\<close>

definition comparator_names :: "nat \<Rightarrow> nat \<Rightarrow> nat \<Rightarrow> string list" where
  "comparator_names n j m = List.map (\<lambda>i. numbered ''Comparator.'' (int (i + j * (j * n)))) [0..<m]"

definition layer_names :: "nat \<Rightarrow> nat \<Rightarrow> string list" where
  "layer_names n k = concat (List.map (\<lambda>j. comparator_names n j n) [0..<k])"

lemma layer_names_length [simp]: "length (layer_names n k) = k * n"
  by (induction k) (simp_all add: layer_names_def comparator_names_def)

lemma comparator_name_new: "i < n \<Longrightarrow> numbered ''Comparator.'' (int (i + j * (j * n))) \<notin> set (labels ''Source.'' n @ layer_names n j @ comparator_names n j i)"
proof -
  assume i: "i < n"
  have neq: "i + j * (j * n) \<noteq> i' + j' * (j' * n)" if "j' < j" "i' < n" for i' j'
  proof -
    have "j' * (j' * n) + n \<le> j * (j * n)"
    proof -
      have "Suc (j' * j') \<le> j * j" using that(1) by (simp add: Suc_leI mult_strict_mono)
      then have "Suc (j' * j') * n \<le> j * j * n" by (rule mult_le_mono1)
      then show ?thesis by (simp add: ac_simps)
    qed
    then show ?thesis using that(2) by simp
  qed
  show ?thesis
    using names_apart(1) [of "int (i + j * (j * n))" n]
    by (auto simp: layer_names_def comparator_names_def simp del: of_nat_add of_nat_mult) (use neq in blast)
qed

lemma count_layers_power: "count_layers (2 ^ Suc k) = Some (int k)"
proof -
  have "c_while (\<lambda>(l, t). Some (t > 1)) (\<lambda>(l, t). Some (l + 1, drop_bit 1 t)) (l, 2 ^ k) = Some (l + int k, 1 :: int)" for l :: int
  proof (induction k arbitrary: l)
    case 0
    then show ?case by (simp add: c_while.simps)
  next
    case (Suc k)
    have "(1 :: int) < 2 ^ Suc k" by (rule one_less_power) simp_all
    then show ?case using Suc by (subst c_while.simps) (simp add: drop_bit_Suc)
  qed
  then show ?thesis by (simp add: count_layers_def drop_bit_Suc)
qed

text \<open>After \<open>j\<close> layers a node depends on the sources that agree with it in the bits from \<open>j\<close> on.\<close>

lemma butterfly_mono: "j \<le> k \<Longrightarrow> set (butterfly n j) \<subseteq> set (butterfly n k)"
  unfolding butterfly_def set_concat set_map by (intro Union_mono image_mono) auto

lemma butterfly_reach:
  "n = 2 ^ K \<Longrightarrow> j \<le> K \<Longrightarrow> i < n \<Longrightarrow> s < n \<Longrightarrow> drop_bit j i = drop_bit j s \<Longrightarrow> (s, j * n + i) \<in> (set (butterfly n j))\<^sup>*"
proof (induction j arbitrary: i)
  case (Suc j)
  define i' where "i' = (if bit s j then set_bit j i else unset_bit j i)"
  have i': "i' < n" using Suc.prems set_bit_bound unset_bit_bound by (auto simp: i'_def)
  have hi: "bit i (Suc j + m) = bit s (Suc j + m)" for m
    using arg_cong [OF Suc.prems(5), of "\<lambda>x. bit x m"] by (simp add: bit_drop_bit_eq)
  have "drop_bit j i' = drop_bit j s"
  proof (rule bit_eqI)
    fix m show "bit (drop_bit j i') m = bit (drop_bit j s) m"
      using hi [of "m - 1"] by (cases m) (auto simp: i'_def bit_drop_bit_eq bit_set_bit_iff bit_unset_bit_iff)
  qed
  then have "(s, j * n + i') \<in> (set (butterfly n j))\<^sup>*" using Suc i' by simp
  then have "(s, j * n + i') \<in> (set (butterfly n (Suc j)))\<^sup>*"
    using rtrancl_mono [OF butterfly_mono [of j "Suc j" n]] by auto
  moreover have "(j * n + i', Suc j * n + i) \<in> set (butterfly n (Suc j))"
    using Suc.prems(3) by (auto simp: butterfly_Suc stage_def i'_def)
  ultimately show ?case by (rule rtrancl_into_rtrancl)
qed (auto simp: butterfly_def)

lemma butterfly_full:
  assumes "n = 2 ^ k" "s < n" "i < n"
  shows "(s, k * n + i) \<in> (set (butterfly n k))\<^sup>*"
  by (rule butterfly_reach [OF assms(1) order_refl assms(3,2)]) (use assms in \<open>simp add: drop_bit_eq_div\<close>)

lemma shuffle_bound: "j < k \<Longrightarrow> k \<le> 21 \<Longrightarrow> i < n \<Longrightarrow> n \<le> 2 ^ 22 \<Longrightarrow> i + j * (j * n) < (2 ^ 31 :: nat)"
proof -
  assume a: "j < k" "k \<le> 21" "i < n" "n \<le> (2 ^ 22 :: nat)"
  have "j * (j * n) \<le> 20 * (20 * 2 ^ 22)" using a by (intro mult_le_mono) simp_all
  then show "i + j * (j * n) < 2 ^ 31" using a(3,4) by simp
qed

lemma SH_built:
  fixes h :: "'f dg_heap"
  assumes "n = 2 ^ Suc k" "k \<le> 21"
  shows "returns (buildSH raw (int n) cls h) (\<lambda>s. graph s (labels ''Source.'' n @ layer_names n k @ labels ''Sink.'' n)
    (butterfly n (Suc k)) (''DT_SH.'' @ [cls]))"
proof -
  define g where "g = ''DT_SH.'' @ [cls]"
  have "n \<le> 2 ^ Suc 21" using assms by (simp only: power_increasing)
  then have n22: "n \<le> 2 ^ 22" by simp
  have fits: "Suc j * n + i < 2 ^ 30" "j * (2 * n) + 2 * i + 1 < 2 ^ 30" if "j < Suc k" "i < n" for i j
  proof -
    have "j * n \<le> 21 * 2 ^ 22" using that(1) assms(2) n22 by (intro mult_le_mono) simp_all
    then show "Suc j * n + i < 2 ^ 30" "j * (2 * n) + 2 * i + 1 < 2 ^ 30" using that(2) n22 by simp_all
  qed
  have layer: "returns (for_range 0 (int n) (\<lambda>i s. shuffle_node (nm i) (int (j * n)) (push_bit j 1) i s) s)
      (\<lambda>s'. graph s' (ns @ List.map (\<lambda>i. nm (int i)) [0..<n]) (butterfly n (Suc j)) g)"
    if G: "graph s ns (butterfly n j) g" and j: "j < Suc k" and ns: "length ns = Suc j * n"
      and nm: "\<And>i. i < n \<Longrightarrow> nm (int i) \<notin> set (ns @ List.map (\<lambda>i. nm (int i)) [0..<i])" for s ns j nm
  proof (rule returns_rangeI [where I = "\<lambda>i s. graph s (ns @ List.map (\<lambda>i. nm (int i)) [0..<nat i]) (butterfly n j @ stage n j (nat i)) g"])
    fix i s assume i: "0 \<le> i" "i < int n" and G: "graph s (ns @ List.map (\<lambda>i. nm (int i)) [0..<nat i]) (butterfly n j @ stage n j (nat i)) g"
    have i': "nat i < n" "int (nat i) = i" using i by simp_all
    define ns1 where "ns1 = ns @ List.map (\<lambda>i. nm (int i)) [0..<nat i]"
    have l: "length ns1 = Suc j * n + nat i" using ns by (simp add: ns1_def)
    have "returns (shuffle_node (nm (int (nat i))) (int (j * n)) (push_bit j 1) (int (nat i)) s)
        (\<lambda>s'. graph s' (ns1 @ [nm (int (nat i))]) ((butterfly n j @ stage n j (nat i)) @
          [(j * n + unset_bit j (nat i), length ns1), (j * n + set_bit j (nat i), length ns1)]) g)"
      by (rule shuffle_node_graph [where k = "Suc k", folded assms(1)]) (use G nm [OF i'(1)] i'(1) j l fits [OF j i'(1)] in \<open>simp_all add: ns1_def\<close>)
    moreover have "ns1 @ [nm (int (nat i))] = ns @ List.map (\<lambda>i. nm (int i)) [0..<nat (i + 1)]"
      using i by (simp add: nat_add_distrib ns1_def)
    moreover have "(butterfly n j @ stage n j (nat i)) @ [(j * n + unset_bit j (nat i), length ns1), (j * n + set_bit j (nat i), length ns1)] =
        butterfly n j @ stage n j (nat (i + 1))"
      using i by (simp add: nat_add_distrib stage_Suc l)
    ultimately show "returns (shuffle_node (nm i) (int (j * n)) (push_bit j 1) i s)
        (\<lambda>s. graph s (ns @ List.map (\<lambda>i. nm (int i)) [0..<nat (i + 1)]) (butterfly n j @ stage n j (nat (i + 1))) g)"
      using i'(2) by simp
  qed (use G in \<open>auto simp: stage_def butterfly_Suc\<close>)
  have numbers: "for_range 0 (int n) (\<lambda>i s. do {
         k \<leftarrow> i32 (int j * int (j * n));
         k \<leftarrow> i32 (i + k);
         shuffle_node (numbered ''Comparator.'' k) f m i s }) s =
      for_range 0 (int n) (\<lambda>i s. shuffle_node (numbered ''Comparator.'' (i + int j * int (j * n))) f m i s) s" if "j < k" for j f m and s :: "'f dg_state"
    unfolding for_range_def
  proof (rule for_each_cong)
    fix i and s :: "'f dg_state" assume "i \<in> set [0..int n - 1]"
    then have i: "0 \<le> i" "nat i < n" by auto
    have "0 \<le> int j * int (j * n)" "int j * int (j * n) < 2 ^ 31" "i + int j * int (j * n) < 2 ^ 31"
      using shuffle_bound [OF that assms(2) i(2) n22] i(1) by (simp_all flip: of_nat_mult of_nat_add)
    then have "i32 (int j * int (j * n)) = Some (int j * int (j * n))" "i32 (i + int j * int (j * n)) = Some (i + int j * int (j * n))"
      using i(1) by (intro i32_in; linarith)+
    then show "do {
         k \<leftarrow> i32 (int j * int (j * n));
         k \<leftarrow> i32 (i + k);
         shuffle_node (numbered ''Comparator.'' k) f m i s } = shuffle_node (numbered ''Comparator.'' (i + int j * int (j * n))) f m i s"
      by (simp only: Option.bind.bind_lunit)
  qed
  have comps: "returns (for_range 0 (int k) (\<lambda>j (first, s). do {
       msk \<leftarrow> mask_bit j;
       s \<leftarrow> for_range 0 (int n) (\<lambda>i s. do {
         k \<leftarrow> i32 (j * first);
         k \<leftarrow> i32 (i + k);
         shuffle_node (numbered ''Comparator.'' k) first msk i s }) s;
       first \<leftarrow> i32 (first + int n);
       Some (first, s) }) (0, s))
     (\<lambda>(first, s). first = int (k * n) \<and> graph s (labels ''Source.'' n @ layer_names n k) (butterfly n k) g)"
    if G: "graph s (labels ''Source.'' n) [] g" for s :: "'f dg_state"
  proof (rule returns_rangeI [where I = "\<lambda>j (first, s). first = int (nat j * n) \<and>
      graph s (labels ''Source.'' n @ layer_names n (nat j)) (butterfly n (nat j)) g"])
    fix j and x :: "int \<times> 'f dg_state" assume j: "0 \<le> j" "j < int k" and x: "(\<lambda>(first, s). first = int (nat j * n) \<and>
      graph s (labels ''Source.'' n @ layer_names n (nat j)) (butterfly n (nat j)) g) x"
    obtain first s where xs: "x = (first, s)" by (cases x)
    define J where "J = nat j"
    have jJ: "j = int J" "J < Suc k" "J < k" using j by (simp_all add: J_def)
    have mk: "mask_bit (int J) = Some (push_bit J 1)" using jJ(3) assms(2) by (simp add: mask_bit_def)
    have nx: "i32 (int (J * n) + int n) = Some (int (J * n) + int n)"
      using fits(1) [OF jJ(2), of 0] assms(1) by (intro i32_in) (simp_all flip: of_nat_add of_nat_mult)
    have s: "first = int (J * n)" "graph s (labels ''Source.'' n @ layer_names n J) (butterfly n J) g"
      using x by (simp_all add: xs J_def)
    have ln: "length (labels ''Source.'' n @ layer_names n J) = Suc J * n" by simp
    have names: "List.map (\<lambda>i. numbered ''Comparator.'' (int i + int J * int (J * n))) [0..<m] = comparator_names n J m" for m
      by (simp add: comparator_names_def)
    have "returns (for_range 0 (int n) (\<lambda>i s. shuffle_node (numbered ''Comparator.'' (i + int J * int (J * n))) (int (J * n)) (push_bit J 1) i s) s)
      (\<lambda>s'. graph s' ((labels ''Source.'' n @ layer_names n J) @ comparator_names n J n) (butterfly n (Suc J)) g)"
      using layer [OF s(2) jJ(2) ln, of "\<lambda>i. numbered ''Comparator.'' (i + int J * int (J * n))"] comparator_name_new [of _ n J]
      unfolding names by simp
    then show "returns ((\<lambda>(first, s). do {
       msk \<leftarrow> mask_bit j;
       s \<leftarrow> for_range 0 (int n) (\<lambda>i s. do {
         k \<leftarrow> i32 (j * first);
         k \<leftarrow> i32 (i + k);
         shuffle_node (numbered ''Comparator.'' k) first msk i s }) s;
       first \<leftarrow> i32 (first + int n);
       Some (first, s) }) x) (\<lambda>(first, s). first = int (nat (j + 1) * n) \<and>
      graph s (labels ''Source.'' n @ layer_names n (nat (j + 1))) (butterfly n (nat (j + 1))) g)"
      unfolding xs jJ(1) s(1) split_conv mk Option.bind.bind_lunit numbers [OF jJ(3)] returns_bind nx
      by (auto elim!: returns_mono simp: nat_add_distrib layer_names_def algebra_simps)
  qed (use G in \<open>auto simp: layer_names_def butterfly_def\<close>)
  have sinks: "returns (for_range 0 (int n) (\<lambda>i s. shuffle_node (numbered ''Sink.'' i) (int (k * n)) (push_bit k 1) i s) s)
      (\<lambda>s'. graph s' ((labels ''Source.'' n @ layer_names n k) @ labels ''Sink.'' n) (butterfly n (Suc k)) g)"
    if G: "graph s (labels ''Source.'' n @ layer_names n k) (butterfly n k) g" for s
  proof -
    have new: "numbered ''Sink.'' (int i) \<notin> set ((labels ''Source.'' n @ layer_names n k) @ List.map (\<lambda>i. numbered ''Sink.'' (int i)) [0..<i])" for i
      by (auto simp: labels_def layer_names_def comparator_names_def numbered_def dest: show_nat_inj)
    have len: "length (labels ''Source.'' n @ layer_names n k) = Suc k * n" by simp
    show ?thesis unfolding labels_def [of "''Sink.''"] by (rule layer [OF G lessI len new])
  qed
  show "returns (buildSH raw (int n) cls h) (\<lambda>s. graph s (labels ''Source.'' n @ layer_names n k @ labels ''Sink.'' n) (butterfly n (Suc k)) (''DT_SH.'' @ [cls]))"
    unfolding buildSH_def Let_def g_def [symmetric] returns_bind
  proof -
    have c: "count_layers (int n) = Some (int k)" using count_layers_power [of k] assms by simp
    have mk: "mask_bit (int k) = Some (push_bit k 1)" using assms(2) by (simp add: mask_bit_def)
    show "returns (count_layers (int n)) (\<lambda>layers. returns (add_nodes ''Source.'' (int n) (newDGraph raw g, h))
      (\<lambda>s. returns (for_range 0 layers (\<lambda>j (first, s). do {
       msk \<leftarrow> mask_bit j;
       s \<leftarrow> for_range 0 (int n) (\<lambda>i s. do {
         k \<leftarrow> i32 (j * first);
         k \<leftarrow> i32 (i + k);
         shuffle_node (numbered ''Comparator.'' k) first msk i s }) s;
       first \<leftarrow> i32 (first + int n);
       Some (first, s) }) (0, s))
        (\<lambda>x. returns (case x of (first, s) \<Rightarrow> do { msk \<leftarrow> mask_bit layers;
            for_range 0 (int n) (\<lambda>i s. shuffle_node (numbered ''Sink.'' i) first msk i s) s })
          (\<lambda>s. graph s (labels ''Source.'' n @ layer_names n k @ labels ''Sink.'' n) (butterfly n (Suc k)) g))))"
      unfolding c returns_Some mk Option.bind.bind_lunit
      by (rule returns_mono [OF add_nodes_graph [OF graph_new]], simp, use n22 in simp, rule returns_mono [OF comps]) (use sinks in auto)
  qed
qed


section \<open>Witnesses\<close>

definition raw_graph :: DGraph where
  "raw_graph = \<lparr>maxNodes = 0, maxArcs = 0, graph_id = 0, graph_name = [], numNodes = 0, numArcs = 0, node = [], arc = []\<rparr>"

definition empty_heap :: "'f dg_heap" where
  "empty_heap = \<lparr>nodes = (\<lambda>_. None), arcs = (\<lambda>_. None), fresh = 0,
     raw_node = (\<lambda>_. \<lparr>maxInDegree = 0, maxOutDegree = 0, inDegree = 0, outDegree = 0, node_id = 0, name = [], inArc = [], outArc = [],
       depth = 0, height = 0, node_width = 0, color = 0, attribute = 0, address = 0, verified = 0, feat = None\<rparr>),
     raw_arc = (\<lambda>_. \<lparr>arc_id = 0, tail = None, head = None, arc_length = 0, arc_width = 0, arc_attribute = 0, maxWidth = 0\<rparr>)\<rparr>"

text \<open>The numbers of nodes of the black and white hole graphs in the table of \<open>DT/README\<close>.\<close>

lemma nodes_of_readme: "List.map (\<lambda>n. n + comparators n + 1) [4, 8, 16, 32, 64, 128] = [5, 11, 21, 43, 85, 171]"
  by code_simp

theorem buildBH_tree_witness:
  "returns (buildBH raw_graph 5 CHR ''S'' (empty_heap :: unit dg_heap)) (\<lambda>s. in_tree (parents 0 5) \<and> graph s (BH_names 5) (BH_arcs 5) ''DT_BH.S'')"
  using buildBH_tree [of 5 raw_graph "CHR ''S''" "empty_heap :: unit dg_heap"] by (auto elim!: returns_mono)

theorem buildWH_tree_witness:
  "returns (buildWH raw_graph 5 CHR ''S'' (empty_heap :: unit dg_heap)) (\<lambda>s. in_tree (parents 0 5) \<and> graph s (WH_names 5) (WH_arcs 5) ''DT_WH.S'')"
  using buildWH_tree [of 5 raw_graph "CHR ''S''" "empty_heap :: unit dg_heap"] by (auto elim!: returns_mono)

lemma holes_of_five: "BH_arcs 5 = [(0, 5), (1, 5), (2, 5), (3, 5), (4, 6), (5, 7), (6, 7)]"
    "WH_arcs 5 = [(2, 7), (2, 6), (2, 5), (2, 4), (1, 3), (0, 2), (0, 1)]"
  by code_simp+


lemma shuffle_of_four: "butterfly 4 2 = [(0, 4), (1, 4), (0, 5), (1, 5), (2, 6), (3, 6), (2, 7), (3, 7),
    (4, 8), (6, 8), (5, 9), (7, 9), (4, 10), (6, 10), (5, 11), (7, 11)]"
  by code_simp

end
