(* ===== verification/Randlc.thy ===== *)
theory Randlc
  imports C_Floats Complex_Main
begin

text \<open>
  The random numbers of the NAS benchmarks, \<open>NPB/MPI/common/randdp.c\<close>: a multiplication modulo \<open>2^46\<close> in double
  precision.  The constants that the first call computes are computed by every call.  With exact arithmetic on
  the representable numbers, which IEEE doubles have, the result is exact.
\<close>

definition power_loop :: "'d floats \<Rightarrow> 'd \<Rightarrow> nat \<Rightarrow> 'd" where
  "power_loop F c n = (d_mul F c ^^ n) (d_int F 1)"

definition half :: "'d floats \<Rightarrow> 'd" where
  "half F = d_div F (d_int F 1) (d_int F 2)"

text \<open>The new value of \<open>X\<close> and the result.\<close>

definition randlc :: "'d floats \<Rightarrow> 'd \<Rightarrow> 'd \<Rightarrow> ('d \<times> 'd) option" where
  "randlc F X A = do {
     let R23 = power_loop F (half F) 23;
     let T23 = power_loop F (d_int F 2) 23;
     let R46 = power_loop F (half F) 46;
     let T46 = power_loop F (d_int F 2) 46;
     let T1 = d_mul F R23 A;
     j \<leftarrow> d_to_int F T1;
     let A1 = d_int F j;
     let A2 = d_sub F A (d_mul F T23 A1);
     let T1 = d_mul F R23 X;
     j \<leftarrow> d_to_int F T1;
     let X1 = d_int F j;
     let X2 = d_sub F X (d_mul F T23 X1);
     let T1 = d_add F (d_mul F A1 X2) (d_mul F A2 X1);
     j \<leftarrow> d_to_int F (d_mul F R23 T1);
     let T2 = d_int F j;
     let Z = d_sub F T1 (d_mul F T23 T2);
     let T3 = d_add F (d_mul F T23 Z) (d_mul F A2 X2);
     j \<leftarrow> d_to_int F (d_mul F R46 T3);
     let T4 = d_int F j;
     let X = d_sub F T3 (d_mul F T46 T4);
     Some (X, d_mul F R46 X) }"

section \<open>IEEE arithmetic\<close>

text \<open>Numbers with a significand of 53 bits and a moderate exponent.\<close>

definition representable :: "rat \<Rightarrow> bool" where
  "representable x \<longleftrightarrow> (\<exists>m :: int. \<exists>e :: nat. \<bar>m\<bar> \<le> 2 ^ 53 \<and> e \<le> 500 \<and> x = of_int m / 2 ^ e)"

text \<open>Rational arithmetic that rounds every result with \<open>rnd\<close>; a conversion to \<open>int\<close> cuts off the fraction.\<close>

definition truncate_to :: "int \<Rightarrow> rat \<Rightarrow> int option" where
  "truncate_to b x = (let i = (if x < 0 then - \<lfloor>- x\<rfloor> else \<lfloor>x\<rfloor>) in if - b \<le> i \<and> i < b then Some i else None)"

definition ieee :: "(rat \<Rightarrow> rat) \<Rightarrow> rat floats" where
  "ieee rnd = \<lparr>d_int = (\<lambda>i. rnd (of_int i)), d_add = (\<lambda>x y. rnd (x + y)), d_sub = (\<lambda>x y. rnd (x - y)), d_mul = (\<lambda>x y. rnd (x * y)),
     d_div = (\<lambda>x y. rnd (x / y)), d_less = (<), d_neg = uminus, d_pow = (\<lambda>x y. x), d_log = id, d_sin = id,
     d_floor = (\<lambda>x. of_int \<lfloor>x\<rfloor>), d_ceil = (\<lambda>x. of_int \<lceil>x\<rceil>), d_pi = 3, d_to_int = truncate_to (2 ^ 31), d_to_ll = truncate_to (2 ^ 63),
     d_atof = (\<lambda>s. 0), int_ovf = (\<lambda>_. None)\<rparr>"

definition exact :: "(rat \<Rightarrow> rat) \<Rightarrow> bool" where
  "exact rnd \<longleftrightarrow> (\<forall>x. representable x \<longrightarrow> rnd x = x)"

lemma rnd_int: "exact rnd \<Longrightarrow> \<bar>i\<bar> \<le> 2 ^ 53 \<Longrightarrow> rnd (of_int i) = of_int i"
  unfolding exact_def representable_def by (metis div_by_1 le0 power_0)

lemma rnd_frac: "exact rnd \<Longrightarrow> \<bar>i\<bar> \<le> 2 ^ 53 \<Longrightarrow> e \<le> 500 \<Longrightarrow> rnd (of_int i / 2 ^ e) = of_int i / 2 ^ e"
  unfolding exact_def representable_def by blast

lemma ieee_int: "exact rnd \<Longrightarrow> \<bar>i\<bar> \<le> 2 ^ 53 \<Longrightarrow> d_int (ieee rnd) i = of_int i"
  by (simp add: ieee_def rnd_int)

lemma ieee_mul: "exact rnd \<Longrightarrow> \<bar>i * j\<bar> \<le> 2 ^ 53 \<Longrightarrow> d_mul (ieee rnd) (of_int i) (of_int j) = of_int (i * j)"
  using rnd_int [of rnd "i * j"] by (simp add: ieee_def)

lemma ieee_add: "exact rnd \<Longrightarrow> \<bar>i + j\<bar> \<le> 2 ^ 53 \<Longrightarrow> d_add (ieee rnd) (of_int i) (of_int j) = of_int (i + j)"
  using rnd_int [of rnd "i + j"] by (simp add: ieee_def)

lemma ieee_sub: "exact rnd \<Longrightarrow> \<bar>i - j\<bar> \<le> 2 ^ 53 \<Longrightarrow> d_sub (ieee rnd) (of_int i) (of_int j) = of_int (i - j)"
  using rnd_int [of rnd "i - j"] by (simp add: ieee_def)

lemma ieee_scale: "exact rnd \<Longrightarrow> \<bar>i\<bar> \<le> 2 ^ 53 \<Longrightarrow> e \<le> 500 \<Longrightarrow> d_mul (ieee rnd) (1 / 2 ^ e) (of_int i) = of_int i / 2 ^ e"
  using rnd_frac [of rnd i e] by (simp add: ieee_def)

lemma power_two:
  assumes R: "exact rnd"
  shows "n \<le> 46 \<Longrightarrow> power_loop (ieee rnd) (d_int (ieee rnd) 2) n = of_int (2 ^ n)"
proof (induction n)
  case 0
  show ?case using ieee_int [OF R, of 1] by (simp add: power_loop_def)
next
  case (Suc n)
  have "(2 :: int) ^ Suc n \<le> 2 ^ 53" using Suc.prems by (intro power_increasing) auto
  then show ?case
    using Suc ieee_int [OF R, of 2] ieee_mul [OF R, of 2 "2 ^ n"] by (simp add: power_loop_def)
qed

lemma half_exact: "exact rnd \<Longrightarrow> half (ieee rnd) = 1 / 2"
  using rnd_frac [of rnd 1 1] ieee_int [of rnd 1] ieee_int [of rnd 2] by (simp add: half_def ieee_def)

lemma power_half:
  assumes R: "exact rnd"
  shows "n \<le> 46 \<Longrightarrow> power_loop (ieee rnd) (half (ieee rnd)) n = 1 / 2 ^ n"
proof (induction n)
  case 0
  show ?case using ieee_int [OF R, of 1] by (simp add: power_loop_def)
next
  case (Suc n)
  have "d_mul (ieee rnd) (1 / 2) (1 / 2 ^ n) = 1 / 2 ^ Suc n"
    using rnd_frac [OF R, of 1 "Suc n"] Suc.prems by (simp add: ieee_def mult.commute)
  then show ?case using Suc by (simp add: power_loop_def half_exact [OF R])
qed

lemma truncate_quotient: "0 \<le> i \<Longrightarrow> i div 2 ^ e < b \<Longrightarrow> truncate_to b (of_int i / 2 ^ e) = Some (i div 2 ^ e)"
proof -
  assume "0 \<le> i" "i div 2 ^ e < b"
  moreover have "\<lfloor>of_int i / 2 ^ e :: rat\<rfloor> = i div 2 ^ e" using floor_divide_of_int_eq [of i "2 ^ e"] by simp
  moreover have "0 \<le> i div 2 ^ e" using \<open>0 \<le> i\<close> by (simp add: pos_imp_zdiv_nonneg_iff)
  ultimately show ?thesis by (simp add: truncate_to_def Let_def divide_less_0_iff)
qed

text \<open>The quotient by a power of two, as the code computes it.\<close>

lemma ieee_cut:
  "exact rnd \<Longrightarrow> 0 \<le> i \<Longrightarrow> i \<le> 2 ^ 53 \<Longrightarrow> i div 2 ^ e < 2 ^ 31 \<Longrightarrow> e \<le> 500 \<Longrightarrow>
   d_to_int (ieee rnd) (d_mul (ieee rnd) (1 / 2 ^ e) (of_int i)) = Some (i div 2 ^ e)"
  by (subst ieee_scale) (auto simp: ieee_def truncate_quotient)

lemma product_split:
  fixes A X :: int
  shows "(2 ^ 23 * ((A div 2 ^ 23 * (X mod 2 ^ 23) + A mod 2 ^ 23 * (X div 2 ^ 23)) mod 2 ^ 23) + A mod 2 ^ 23 * (X mod 2 ^ 23)) mod 2 ^ 46 = (A * X) mod 2 ^ 46"
proof -
  define a1 a2 x1 x2 where "a1 = A div 2 ^ 23" and "a2 = A mod 2 ^ 23" and "x1 = X div 2 ^ 23" and "x2 = X mod 2 ^ 23"
  have A: "A = 2 ^ 23 * a1 + a2" "X = 2 ^ 23 * x1 + x2" by (simp_all add: a1_def a2_def x1_def x2_def)
  define t where "t = a1 * x2 + a2 * x1"
  have "2 ^ 23 * (t mod 2 ^ 23) = (2 ^ 23 * t) mod (2 :: int) ^ 46"
    using mult_mod_right [of "2 ^ 23" t "2 ^ 23"] by simp
  then have "(2 ^ 23 * (t mod 2 ^ 23) + a2 * x2) mod 2 ^ 46 = (2 ^ 23 * t + a2 * x2) mod 2 ^ 46" by (simp add: mod_add_left_eq)
  also have "\<dots> = (2 ^ 23 * t + a2 * x2 + 2 ^ 46 * (a1 * x1)) mod 2 ^ 46" by simp
  also have "2 ^ 23 * t + a2 * x2 + 2 ^ 46 * (a1 * x1) = A * X" unfolding A t_def by (simp add: algebra_simps)
  finally show ?thesis unfolding t_def a1_def a2_def x1_def x2_def .
qed

text \<open>C28: on IEEE doubles \<open>randlc\<close> is exact: for \<open>A\<close> and \<open>X\<close> below \<open>2^46\<close> the new \<open>X\<close> is \<open>A * X mod 2^46\<close> and the
  result is that number divided by \<open>2^46\<close>; no conversion to \<open>int\<close> overflows.\<close>

theorem randlc_exact:
  assumes R: "exact rnd" and A: "0 \<le> A" "A < 2 ^ 46" and X: "0 \<le> X" "X < 2 ^ 46"
  shows "randlc (ieee rnd) (of_int X) (of_int A) = Some (of_int (A * X mod 2 ^ 46), of_int (A * X mod 2 ^ 46) / 2 ^ 46)"
proof -
  define a1 a2 x1 x2 where d: "a1 = A div 2 ^ 23" "a2 = A mod 2 ^ 23" "x1 = X div 2 ^ 23" "x2 = X mod 2 ^ 23"
  have b: "0 \<le> a1" "a1 < 2 ^ 23" "0 \<le> a2" "a2 < 2 ^ 23" "0 \<le> x1" "x1 < 2 ^ 23" "0 \<le> x2" "x2 < 2 ^ 23" using A X by (auto simp: d)
  have e: "A - 2 ^ 23 * a1 = a2" "X - 2 ^ 23 * x1 = x2" by (simp_all add: d minus_mult_div_eq_mod)
  have prod: "0 \<le> p * q \<and> p * q < 2 ^ 46" if "0 \<le> p" "p < 2 ^ 23" "0 \<le> q" "q < 2 ^ 23" for p q :: int
    using that mult_strict_mono' [of p "2 ^ 23" q "2 ^ 23"] by (simp add: zero_le_mult_iff)
  define t where "t = a1 * x2 + a2 * x1"
  have t: "0 \<le> t" "t < 2 ^ 47" using prod [of a1 x2] prod [of a2 x1] b by (simp_all add: t_def)
  define z where "z = t mod 2 ^ 23"
  have z: "0 \<le> z" "z < 2 ^ 23" "t - 2 ^ 23 * (t div 2 ^ 23) = z" by (simp_all add: z_def minus_mult_div_eq_mod)
  define u where "u = 2 ^ 23 * z + a2 * x2"
  have u: "0 \<le> u" "u < 2 ^ 47" using prod [of a2 x2] b z by (simp_all add: u_def)
  have um: "u - 2 ^ 46 * (u div 2 ^ 46) = A * X mod 2 ^ 46"
    unfolding minus_mult_div_eq_mod u_def z_def t_def d by (rule product_split)
  have ud: "u div 2 ^ 46 \<le> 1" "0 \<le> u div 2 ^ 46" "t div 2 ^ 23 < 2 ^ 24" "0 \<le> t div 2 ^ 23" using u t by auto
  have pw: "power_loop (ieee rnd) (half (ieee rnd)) 23 = 1 / 2 ^ 23" "power_loop (ieee rnd) (half (ieee rnd)) 46 = 1 / 2 ^ 46"
    "power_loop (ieee rnd) (d_int (ieee rnd) 2) 23 = of_int (2 ^ 23)" "power_loop (ieee rnd) (d_int (ieee rnd) 2) 46 = of_int (2 ^ 46)"
    by (rule power_half [OF R] power_two [OF R]; simp)+
  have cut: "d_to_int (ieee rnd) (d_mul (ieee rnd) (1 / 2 ^ e) (of_int i)) = Some (i div 2 ^ e)"
    if "0 \<le> i" "i < 2 ^ 47" "i div 2 ^ e < 2 ^ 24" "e \<le> 500" for i e
    by (rule ieee_cut [OF R]) (use that in auto)
  have c: "d_to_int (ieee rnd) (d_mul (ieee rnd) (1 / 2 ^ 23) (of_int A)) = Some a1"
    "d_to_int (ieee rnd) (d_mul (ieee rnd) (1 / 2 ^ 23) (of_int X)) = Some x1"
    "d_to_int (ieee rnd) (d_mul (ieee rnd) (1 / 2 ^ 23) (of_int t)) = Some (t div 2 ^ 23)"
    "d_to_int (ieee rnd) (d_mul (ieee rnd) (1 / 2 ^ 46) (of_int u)) = Some (u div 2 ^ 46)"
  proof -
    have "A < 2 ^ 47" "X < 2 ^ 47" "a1 < 2 ^ 24" "x1 < 2 ^ 24" "u div 2 ^ 46 < 2 ^ 24" using A X b ud(1) by simp_all
    note i = this
    show "d_to_int (ieee rnd) (d_mul (ieee rnd) (1 / 2 ^ 23) (of_int A)) = Some a1"
      unfolding d(1) by (rule cut [OF A(1) i(1) i(3) [unfolded d(1)]]) simp
    show "d_to_int (ieee rnd) (d_mul (ieee rnd) (1 / 2 ^ 23) (of_int X)) = Some x1"
      unfolding d(3) by (rule cut [OF X(1) i(2) i(4) [unfolded d(3)]]) simp
    show "d_to_int (ieee rnd) (d_mul (ieee rnd) (1 / 2 ^ 23) (of_int t)) = Some (t div 2 ^ 23)"
      by (rule cut [OF t ud(3)]) simp
    show "d_to_int (ieee rnd) (d_mul (ieee rnd) (1 / 2 ^ 46) (of_int u)) = Some (u div 2 ^ 46)"
      by (rule cut [OF u i(5)]) simp
  qed
  have i: "d_int (ieee rnd) a1 = of_int a1" "d_int (ieee rnd) x1 = of_int x1" "d_int (ieee rnd) (t div 2 ^ 23) = of_int (t div 2 ^ 23)"
    "d_int (ieee rnd) (u div 2 ^ 46) = of_int (u div 2 ^ 46)"
    using b ud by (auto intro!: ieee_int [OF R])
  have mul: "d_mul (ieee rnd) (of_int p) (of_int q) = of_int (p * q)" if "0 \<le> p * q" "p * q < 2 ^ 48" for p q
    by (rule ieee_mul [OF R]) (use that in simp)
  have m: "d_mul (ieee rnd) (of_int (2 ^ 23)) (of_int a1) = of_int (2 ^ 23 * a1)" "d_mul (ieee rnd) (of_int (2 ^ 23)) (of_int x1) = of_int (2 ^ 23 * x1)"
    "d_mul (ieee rnd) (of_int a1) (of_int x2) = of_int (a1 * x2)" "d_mul (ieee rnd) (of_int a2) (of_int x1) = of_int (a2 * x1)"
    "d_mul (ieee rnd) (of_int a2) (of_int x2) = of_int (a2 * x2)"
    "d_mul (ieee rnd) (of_int (2 ^ 23)) (of_int (t div 2 ^ 23)) = of_int (2 ^ 23 * (t div 2 ^ 23))"
    "d_mul (ieee rnd) (of_int (2 ^ 23)) (of_int z) = of_int (2 ^ 23 * z)"
    "d_mul (ieee rnd) (of_int (2 ^ 46)) (of_int (u div 2 ^ 46)) = of_int (2 ^ 46 * (u div 2 ^ 46))"
    by (rule mul; use b z(1,2) ud prod [of a1 x2] prod [of a2 x1] prod [of a2 x2] in simp)+
  have r: "0 \<le> A * X mod 2 ^ 46" "A * X mod 2 ^ 46 < 2 ^ 46" by simp_all
  have s: "d_sub (ieee rnd) (of_int A) (of_int (2 ^ 23 * a1)) = of_int a2" "d_sub (ieee rnd) (of_int X) (of_int (2 ^ 23 * x1)) = of_int x2"
    "d_sub (ieee rnd) (of_int t) (of_int (2 ^ 23 * (t div 2 ^ 23))) = of_int z"
    "d_sub (ieee rnd) (of_int u) (of_int (2 ^ 46 * (u div 2 ^ 46))) = of_int (A * X mod 2 ^ 46)"
    using ieee_sub [OF R, of A "2 ^ 23 * a1"] ieee_sub [OF R, of X "2 ^ 23 * x1"] ieee_sub [OF R, of t "2 ^ 23 * (t div 2 ^ 23)"]
      ieee_sub [OF R, of u "2 ^ 46 * (u div 2 ^ 46)"] unfolding e z(3) um using b z(1,2) r by simp_all
  have p: "d_add (ieee rnd) (of_int (a1 * x2)) (of_int (a2 * x1)) = of_int t" "d_add (ieee rnd) (of_int (2 ^ 23 * z)) (of_int (a2 * x2)) = of_int u"
    using ieee_add [OF R, of "a1 * x2" "a2 * x1"] ieee_add [OF R, of "2 ^ 23 * z" "a2 * x2"] unfolding t_def [symmetric] u_def [symmetric]
    using t u by simp_all
  have f: "d_mul (ieee rnd) (1 / 2 ^ 46) (of_int (A * X mod 2 ^ 46)) = of_int (A * X mod 2 ^ 46) / 2 ^ 46"
    by (rule ieee_scale [OF R]) (use r in simp_all)
  show ?thesis
    unfolding randlc_def Let_def pw c i m s p f Option.bind.bind_lunit ..
qed

theorem randlc_exact_witness:
  "randlc (ieee (\<lambda>x. x)) (of_int 314159265) (of_int 3) = Some (of_int (3 * 314159265 mod 2 ^ 46), of_int (3 * 314159265 mod 2 ^ 46) / 2 ^ 46)"
  by (rule randlc_exact) (simp_all add: exact_def)

end
