(* ===== verification/Dt_Streams.thy ===== *)
theory Dt_Streams
  imports Dt_Graphs Randlc
begin

text \<open>
  The processes of the benchmark DT, \<open>DT/dt.c\<close>: the data a source makes, the filter a comparator applies, the sum
  a sink sends, and the messages between the processes.  A process is a tree of its sends and receives, the type
  \<open>io\<close>, with \<open>MPI_Send\<close> and \<open>MPI_Recv\<close> as constructors; the processes run side by side and a message passes
  when its sender and its receiver have both come to it, the strictest behaviour the MPI standard allows
  for \<open>MPI_Send\<close>.  \<open>Fail\<close> is undefined behaviour of the code, for the
  products of type \<open>int\<close> that overflow whatever the field \<open>int_ovf\<close> of the machine \<open>F\<close> says.  Sizes and the class come from \<open>npbparams.h\<close>.
\<close>

section \<open>Parameters and arithmetic\<close>

record sizes =
  NUM_SOURCES :: int
  NUM_SAMPLES :: int
  STD_DEVIATION :: int
  CLASS :: char

text \<open>\<open>J n\<close> is what \<open>malloc\<close> finds in a block of \<open>n\<close> doubles.\<close>

type_synonym 'd Arr = "'d list"

definition newArr :: "(int \<Rightarrow> 'd list) \<Rightarrow> int \<Rightarrow> 'd Arr" where
  "newArr J n = J n"

definition fielddim :: int where
  "fielddim = 4"

text \<open>A product of type \<open>int\<close>.  The random numbers of \<open>GetFeatureNum\<close> overflow in \<open>ipowMod\<close>, for nodes 1, 2 and 3
  already, so the numbers of the benchmark rest on what the machine does then: the parameter \<open>ovf\<close>.\<close>

definition int_prod :: "(int \<Rightarrow> int option) \<Rightarrow> int \<Rightarrow> int \<Rightarrow> int option" where
  "int_prod ovf x y = (case i32 (x * y) of None \<Rightarrow> ovf (x * y) | Some z \<Rightarrow> Some z)"

text \<open>The loop of \<open>ipowMod\<close> on \<open>(q, r, n)\<close>; \<open>n2\<close> is an \<open>int\<close>.\<close>

definition ipow_step :: "(int \<Rightarrow> int option) \<Rightarrow> int \<Rightarrow> int \<times> int \<times> int \<Rightarrow> (int \<times> int \<times> int) option" where
  "ipow_step ovf md s =
     (let (q, r, n) = s; n2 = to_i32 (c_quot n 2) in do {
      m \<leftarrow> int_prod ovf n2 2;
      if m = n then do { x \<leftarrow> int_prod ovf q q; Some (c_rem x md, r, n2) }
      else do { x \<leftarrow> int_prod ovf r q; Some (q, c_rem x md, n - 1) } })"

definition ipowMod :: "(int \<Rightarrow> int option) \<Rightarrow> int \<Rightarrow> int \<Rightarrow> int \<Rightarrow> int option" where
  "ipowMod ovf a n md = do {
     n \<leftarrow> (if n < 0 then i64 (- n) else Some n);
     if md \<le> 0 then Some 1
     else if n = 0 then Some 1
     else do {
       (q, r, n) \<leftarrow> c_while (\<lambda>(q, r, n). Some (n > 1)) (ipow_step ovf md) (a, 1, n);
       x \<leftarrow> int_prod ovf r q;
       Some (c_rem x md) } }"

text \<open>\<open>strstr\<close>, as a truth value.\<close>

fun strstr :: "string \<Rightarrow> string \<Rightarrow> bool" where
  "strstr [] needle = (needle = [])"
| "strstr (c # cs) needle = (take (length needle) (c # cs) = needle \<or> strstr cs needle)"

text \<open>The value the benchmark is compared with, and whether the class has one: 0 or -1.\<close>

definition verify_value :: "char \<Rightarrow> string \<Rightarrow> int \<times> int" where
  "verify_value cls bmname =
     (let pick = (\<lambda>bh wh sh. if strstr bmname ''BH'' then bh else if strstr bmname ''WH'' then wh else if strstr bmname ''SH'' then sh else 0);
          known = strstr bmname ''BH'' \<or> strstr bmname ''WH'' \<or> strstr bmname ''SH'' in
      if cls = CHR ''S'' then (pick 30892725 67349758 58875767, 0)
      else if cls = CHR ''W'' then (pick 4102461 204280762 186944764, 0)
      else if cls = CHR ''A'' then (pick 17809491 1289925229 610856482, 0)
      else if cls = CHR ''B'' then (pick 4317114 7877279917 1836863082, if known then -1 else 0)
      else (0, -1))"

definition verify :: "'d floats \<Rightarrow> char \<Rightarrow> 'd \<Rightarrow> string \<Rightarrow> 'd \<Rightarrow> int" where
  "verify F cls epsilon bmname rnm2 =
     (if cls \<noteq> CHR ''U'' then
        (let (v, verified) = verify_value cls bmname; d = d_sub F rnm2 (d_int F v) in
         if verified = -1 then verified else if d_less F d epsilon \<and> d_less F (d_neg F epsilon) d then 1 else 0)
      else -1)"

section \<open>The data of the streams\<close>

definition CheckVal :: "'d floats \<Rightarrow> 'd Arr \<Rightarrow> 'd" where
  "CheckVal F ft = fold (\<lambda>v csum. d_add F csum (d_div F (d_mul F v v) (d_int F (int (length ft))))) ft (d_int F 0)"

definition GetFNumDPar :: "sizes \<Rightarrow> int \<times> int" where
  "GetFNumDPar P = (NUM_SAMPLES P, STD_DEVIATION P)"

definition GetFeatureNum :: "'d floats \<Rightarrow> sizes \<Rightarrow> int \<Rightarrow> int option" where
  "GetFeatureNum F P i = do {
     k \<leftarrow> i32 (2 * i + 1);
     (_, denom) \<leftarrow> randlc F (d_int F 314159265) (d_int F k);
     let (mean, stdev) = GetFNumDPar P;
     q \<leftarrow> d_to_int F (d_div F (d_int F 1) denom);
     a \<leftarrow> int_prod (int_ovf F) q 83;
     rtfs \<leftarrow> ipowMod (int_ovf F) a k (2 * stdev);
     let rtfs = (if rtfs < 0 then - rtfs else rtfs);
     i32 (mean - stdev + rtfs) }"

text \<open>A \<open>for\<close> loop whose index goes from \<open>lo\<close> to below \<open>hi\<close> in steps of \<open>st\<close>.\<close>

definition for_step :: "int \<Rightarrow> int \<Rightarrow> int \<Rightarrow> (int \<Rightarrow> 's \<Rightarrow> 's option) \<Rightarrow> 's \<Rightarrow> 's option" where
  "for_step lo hi st body = for_each body (filter (\<lambda>i. (i - lo) mod st = 0) [lo..hi - 1])"

definition RandomFeatures :: "'d floats \<Rightarrow> sizes \<Rightarrow> (int \<Rightarrow> 'd list) \<Rightarrow> int \<Rightarrow> int \<Rightarrow> 'd Arr option" where
  "RandomFeatures F P J fdim i = do {
     n \<leftarrow> GetFeatureNum F P i;
     len \<leftarrow> int_prod (int_ovf F) n fdim;
     let ft = newArr J len;
     e \<leftarrow> int_prod (int_ovf F) len (i + 1);
     let expon = c_rem e 3141592;
     seedx \<leftarrow> ipowMod (int_ovf F) 2 expon 421;
     seedy \<leftarrow> ipowMod (int_ovf F) 2 expon 419;
     seedz \<leftarrow> ipowMod (int_ovf F) 2 expon 1427;
     seedf \<leftarrow> ipowMod (int_ovf F) 5 expon 3527;
     (_, _, _, _, ft) \<leftarrow> for_step 0 len fdim (\<lambda>i (seedx, seedy, seedz, seedf, ft). do {
       let seedx = c_rem (seedx * 2) 421;
       let seedy = c_rem (seedy * 2) 419;
       let seedz = c_rem (seedz * 2) 1427;
       let seedf = c_rem (seedf * 5) 3527;
       ft \<leftarrow> aset ft i (d_int F seedx);
       ft \<leftarrow> aset ft (i + 1) (d_int F seedy);
       ft \<leftarrow> aset ft (i + 2) (d_int F seedz);
       ft \<leftarrow> aset ft (i + 3) (d_int F seedf);
       Some (seedx, seedy, seedz, seedf, ft) }) (seedx, seedy, seedz, seedf, ft);
     Some ft }"

definition Resample :: "'d floats \<Rightarrow> (int \<Rightarrow> 'd list) \<Rightarrow> 'd Arr \<Rightarrow> int \<Rightarrow> 'd Arr option" where
  "Resample F J a blen = do {
     let len = int (length a);
     nval \<leftarrow> for_range 0 blen (\<lambda>i nval. aset nval i (d_int F 0)) (J blen);
     nval \<leftarrow> for_range 1 (len - 1) (\<lambda>i nval. do {
       let q = d_int F (c_quot blen len);
       jlo \<leftarrow> d_to_int F (d_mul F (d_mul F (half F) (d_int F (2 * i - 1))) q);
       jhi \<leftarrow> d_to_int F (d_mul F (d_mul F (half F) (d_int F (2 * i + 1))) q);
       v \<leftarrow> aget a i;
       let avval = d_div F v (d_int F (jhi - jlo + 1));
       for_range jlo (jhi + 1) (\<lambda>j nval. do { x \<leftarrow> aget nval j; aset nval j (d_add F x avval) }) nval }) nval;
     v \<leftarrow> aget a 0;
     nval \<leftarrow> aset nval 0 v;
     v \<leftarrow> aget a (len - 1);
     aset nval (blen - 1) v }"

text \<open>The squared distance of the samples of \<open>a\<close> and \<open>b\<close> at \<open>i\<close>, and the copy of the sample of \<open>b\<close> at \<open>j\<close>.\<close>

definition rms :: "'d floats \<Rightarrow> 'd Arr \<Rightarrow> 'd Arr \<Rightarrow> int \<Rightarrow> 'd option" where
  "rms F a b i = do {
     a0 \<leftarrow> aget a i; b0 \<leftarrow> aget b i;
     a1 \<leftarrow> aget a (i + 1); b1 \<leftarrow> aget b (i + 1);
     a2 \<leftarrow> aget a (i + 2); b2 \<leftarrow> aget b (i + 2);
     a3 \<leftarrow> aget a (i + 3); b3 \<leftarrow> aget b (i + 3);
     let sq = (\<lambda>x y. d_mul F (d_sub F x y) (d_sub F x y));
     Some (d_add F (d_add F (d_add F (sq a0 b0) (sq a1 b1)) (sq a2 b2)) (sq a3 b3)) }"

definition take_sample :: "'d floats \<Rightarrow> 'd \<Rightarrow> 'd Arr \<Rightarrow> int \<Rightarrow> int \<Rightarrow> 'd Arr \<Rightarrow> 'd Arr option" where
  "take_sample F weight b j i a = do {
     v \<leftarrow> aget b j; a \<leftarrow> aset a i (d_mul F weight v);
     v \<leftarrow> aget b (j + 1); a \<leftarrow> aset a (i + 1) (d_mul F weight v);
     v \<leftarrow> aget b (j + 2); a \<leftarrow> aset a (i + 2) (d_mul F weight v);
     v \<leftarrow> aget b (j + 3); aset a (i + 3) (d_mul F weight v) }"

definition WindowFilter :: "'d floats \<Rightarrow> (int \<Rightarrow> 'd list) \<Rightarrow> 'd Arr \<Rightarrow> 'd Arr \<Rightarrow> int \<Rightarrow> 'd Arr option" where
  "WindowFilter F J a b w = do {
     let weight = d_div F (d_int F (w + 1)) (d_int F (w + 2));
     a \<leftarrow> (if length a < length b then Resample F J a (int (length b)) else Some a);
     b \<leftarrow> (if length a > length b then Resample F J b (int (length a)) else Some b);
     for_step fielddim (int (length a) - fielddim) fielddim (\<lambda>i a. do {
       rms0 \<leftarrow> rms F a b i;
       rms1 \<leftarrow> rms F a b (i + fielddim);
       rmsm1 \<leftarrow> rms F a b (i - fielddim);
       let (k, rms0) = (if d_less F rms1 rms0 then (1, rms1) else (0 :: int, rms0));
       let k = (if d_less F rmsm1 rms0 then -1 else k);
       take_sample F weight b (if k = 0 then i else if k = 1 then i + fielddim else i - fielddim) i a }) a }"

definition Reduce :: "'d floats \<Rightarrow> 'd Arr \<Rightarrow> int \<Rightarrow> 'd option" where
  "Reduce F a w = do { j \<leftarrow> d_to_int F (d_mul F (d_int F w) (CheckVal F a)); Some (d_int F j) }"

section \<open>Messages\<close>

datatype 'd msg = Len int | Vals "'d list"

text \<open>A process: the peer is a rank, the number after it the tag.  \<open>Mismatch\<close> is a message of another kind or length than
  the receiver expects.\<close>

datatype ('d, 'a) io =
    Ret 'a
  | Fail
  | Mismatch
  | Send int int "'d msg" "('d, 'a) io"
  | Recv int int "'d msg \<Rightarrow> ('d, 'a) io"

primrec io_bind :: "('d, 'a) io \<Rightarrow> ('a \<Rightarrow> ('d, 'b) io) \<Rightarrow> ('d, 'b) io" where
  "io_bind (Ret x) f = f x"
| "io_bind Fail f = Fail"
| "io_bind Mismatch f = Mismatch"
| "io_bind (Send q t m k) f = Send q t m (io_bind k f)"
| "io_bind (Recv q t g) f = Recv q t (\<lambda>m. io_bind (g m) f)"

definition MPI_Send :: "int \<Rightarrow> int \<Rightarrow> 'd msg \<Rightarrow> ('d, unit) io" where
  "MPI_Send q t m = Send q t m (Ret ())"

definition MPI_Recv :: "int \<Rightarrow> int \<Rightarrow> ('d, 'd msg) io" where
  "MPI_Recv q t = Recv q t Ret"

definition lift_io :: "'a option \<Rightarrow> ('d, 'a) io" where
  "lift_io x = (case x of None \<Rightarrow> Fail | Some y \<Rightarrow> Ret y)"

primrec io_each :: "('i \<Rightarrow> 's \<Rightarrow> ('d, 's) io) \<Rightarrow> 'i list \<Rightarrow> 's \<Rightarrow> ('d, 's) io" where
  "io_each body [] s = Ret s"
| "io_each body (i # is) s = io_bind (body i s) (io_each body is)"

text \<open>A receive of a length, and one of \<open>n\<close> doubles.\<close>

definition recv_len :: "int \<Rightarrow> int \<Rightarrow> ('d, int) io" where
  "recv_len q t = io_bind (MPI_Recv q t) (\<lambda>m. case m of Len n \<Rightarrow> Ret n | Vals _ \<Rightarrow> Mismatch)"

definition recv_vals :: "int \<Rightarrow> int \<Rightarrow> int \<Rightarrow> ('d, 'd Arr) io" where
  "recv_vals q t n = io_bind (MPI_Recv q t) (\<lambda>m. case m of Vals xs \<Rightarrow> if int (length xs) = n then Ret xs else Mismatch | Len _ \<Rightarrow> Mismatch)"

type_synonym 'd dt_heap = "'d Arr dg_heap"

text \<open>\<open>nd\<close> is the pointer to the node.\<close>

definition SendResults :: "nat option \<Rightarrow> 'd Arr option \<Rightarrow> 'd dt_heap \<Rightarrow> ('d, int) io" where
  "SendResults nd ft h =
     (case ft of
        None \<Rightarrow> Ret 0
      | Some ft \<Rightarrow> io_bind (lift_io (get_node h nd)) (\<lambda>n.
          io_bind (io_each (\<lambda>i _. io_bind (lift_io (do { a \<leftarrow> aget (outArc n) i; get_arc h a })) (\<lambda>ar.
            if tail ar \<noteq> nd then Ret ()
            else io_bind (lift_io (get_node h (head ar))) (\<lambda>hd_node.
              if address hd_node \<noteq> address n then
                io_bind (MPI_Send (address hd_node) (arc_id ar) (Len (int (length ft))))
                  (\<lambda>_. MPI_Send (address hd_node) (arc_id ar) (Vals ft))
              else Ret ()))) [0..outDegree n - 1] ())
          (\<lambda>_. Ret 1)))"

text \<open>The stream of an arc: from the other process, or from the same one.\<close>

definition get_stream :: "'d Arr DGNode \<Rightarrow> 'd Arr DGNode \<Rightarrow> DGArc \<Rightarrow> ('d, 'd Arr) io" where
  "get_stream n tl_node ar =
     (if address tl_node \<noteq> address n then
        io_bind (recv_len (address tl_node) (arc_id ar)) (\<lambda>len. recv_vals (address tl_node) (arc_id ar) len)
      else lift_io (feat tl_node))"

definition CombineStreams :: "'d floats \<Rightarrow> sizes \<Rightarrow> (int \<Rightarrow> 'd list) \<Rightarrow> nat option \<Rightarrow> 'd dt_heap \<Rightarrow> ('d, 'd Arr option \<times> 'd dt_heap) io" where
  "CombineStreams F P J nd h =
     io_bind (lift_io (get_node h nd)) (\<lambda>n.
       let resfeat = newArr J (NUM_SAMPLES P * fielddim) in
       if inDegree n = 0 then Ret (None, h)
       else io_bind (io_each (\<lambda>i resfeat. io_bind (lift_io (do { a \<leftarrow> aget (inArc n) i; get_arc h a })) (\<lambda>ar.
            if head ar \<noteq> nd then Ret resfeat
            else io_bind (lift_io (get_node h (tail ar))) (\<lambda>tl_node.
              io_bind (get_stream n tl_node ar) (\<lambda>ft. lift_io (WindowFilter F J resfeat ft (node_id n)))))) [0..inDegree n - 1] resfeat)
          (\<lambda>resfeat. io_bind (lift_io (for_range 0 (int (length resfeat)) (\<lambda>i a. do {
              x \<leftarrow> aget a i; j \<leftarrow> d_to_int F x; aset a i (d_int F (c_quot j (inDegree n))) }) resfeat))
            (\<lambda>resfeat. io_bind (lift_io (put_node nd (n\<lparr>feat := Some resfeat\<rparr>) h)) (\<lambda>h. Ret (Some resfeat, h)))))"

definition ReduceStreams :: "'d floats \<Rightarrow> nat option \<Rightarrow> 'd dt_heap \<Rightarrow> ('d, 'd) io" where
  "ReduceStreams F nd h =
     io_bind (lift_io (get_node h nd)) (\<lambda>n.
       io_bind (io_each (\<lambda>i csum. io_bind (lift_io (do { a \<leftarrow> aget (inArc n) i; get_arc h a })) (\<lambda>ar.
            if head ar \<noteq> nd then Ret csum
            else io_bind (lift_io (get_node h (tail ar))) (\<lambda>tl_node.
              io_bind (get_stream n tl_node ar) (\<lambda>ft. io_bind (lift_io (Reduce F ft (node_id n + 1))) (\<lambda>v. Ret (d_add F csum v)))))) [0..inDegree n - 1] (d_int F 0))
         (\<lambda>csum. io_bind (lift_io (if inDegree n > 0 then do { j \<leftarrow> d_to_ll F csum; Some (d_int F (c_quot j (inDegree n))) } else Some csum))
           (\<lambda>csum. Ret (d_mul F (d_int F (node_id n + 1)) csum))))"

text \<open>One node of the loop of \<open>ProcessNodes\<close>, then the function.\<close>

definition process_node :: "'d floats \<Rightarrow> sizes \<Rightarrow> (int \<Rightarrow> 'd list) \<Rightarrow> DGraph \<Rightarrow> int \<Rightarrow> int \<Rightarrow> 'd dt_heap \<Rightarrow> ('d, 'd dt_heap) io" where
  "process_node F P J dg me i h =
     io_bind (lift_io (aget (node dg) i)) (\<lambda>nd. io_bind (lift_io (get_node h nd)) (\<lambda>n.
       if address n \<noteq> me then Ret h
       else if strstr (name n) ''Source'' then
         io_bind (lift_io (RandomFeatures F P J fielddim (node_id n))) (\<lambda>ft.
           io_bind (lift_io (put_node nd (n\<lparr>feat := Some ft\<rparr>) h)) (\<lambda>h.
             io_bind (SendResults nd (Some ft) h) (\<lambda>_. Ret h)))
       else if strstr (name n) ''Sink'' then
         io_bind (ReduceStreams F nd h) (\<lambda>chksum.
           io_bind (MPI_Send 0 (numArcs dg + node_id n) (Vals [chksum])) (\<lambda>_. Ret h))
       else
         io_bind (CombineStreams F P J nd h) (\<lambda>(ft, h).
           io_bind (SendResults nd ft h) (\<lambda>_. Ret h))))"

definition collect_sums :: "'d floats \<Rightarrow> DGraph \<Rightarrow> 'd dt_heap \<Rightarrow> ('d, 'd) io" where
  "collect_sums F dg h =
     io_each (\<lambda>i chksum. io_bind (lift_io (do { nd \<leftarrow> aget (node dg) i; get_node h nd })) (\<lambda>n.
       if \<not> strstr (name n) ''Sink'' then Ret chksum
       else io_bind (recv_vals (address n) (numArcs dg + node_id n) 1) (\<lambda>xs. Ret (d_add F chksum (xs ! 0))))) [0..numNodes dg - 1] (d_int F 0)"

definition ProcessNodes :: "'d floats \<Rightarrow> sizes \<Rightarrow> 'd \<Rightarrow> (int \<Rightarrow> 'd list) \<Rightarrow> DGraph \<Rightarrow> int \<Rightarrow> 'd dt_heap \<Rightarrow> ('d, int) io" where
  "ProcessNodes F P epsilon J dg me h =
     io_bind (io_each (process_node F P J dg me) [0..numNodes dg - 1] h) (\<lambda>h.
       if me = 0 then io_bind (collect_sums F dg h) (\<lambda>chksum. Ret (verify F (CLASS P) epsilon (graph_name dg) chksum))
       else Ret 0)"

text \<open>\<open>main\<close> from the choice of the graph on: \<open>None\<close> when it ends with the message that there are too few
  processes.  The address of a node is the process of its number.\<close>

definition set_address :: "DGraph \<Rightarrow> int \<Rightarrow> 'd dt_heap \<Rightarrow> 'd dt_heap option" where
  "set_address dg i h = do {
     p \<leftarrow> aget (node dg) i;
     nd \<leftarrow> get_node h p;
     put_node p (nd\<lparr>address := i\<rparr>) h }"

definition build_graph :: "string \<Rightarrow> DGraph \<Rightarrow> sizes \<Rightarrow> 'f dg_heap \<Rightarrow> 'f dg_state option" where
  "build_graph arg raw P h =
     (if take 2 arg = ''BH'' then buildBH raw (NUM_SOURCES P) (CLASS P) h
      else if take 2 arg = ''WH'' then buildWH raw (NUM_SOURCES P) (CLASS P) h
      else if take 2 arg = ''SH'' then buildSH raw (NUM_SOURCES P) (CLASS P) h
      else None)"

definition dt_main :: "'d floats \<Rightarrow> sizes \<Rightarrow> 'd \<Rightarrow> (int \<Rightarrow> 'd list) \<Rightarrow> DGraph \<Rightarrow> 'd dt_heap \<Rightarrow> string \<Rightarrow> int \<Rightarrow> int \<Rightarrow> ('d, int option) io" where
  "dt_main F P epsilon J raw h arg comm_size my_rank =
     (if take 2 arg \<noteq> ''BH'' \<and> take 2 arg \<noteq> ''WH'' \<and> take 2 arg \<noteq> ''SH'' then Ret None
      else io_bind (lift_io (build_graph arg raw P h)) (\<lambda>(dg, h).
        if numNodes dg > comm_size then Ret None
        else io_bind (lift_io (for_range 0 (numNodes dg) (set_address dg) h)) (\<lambda>h.
          io_bind (ProcessNodes F P epsilon J dg my_rank h) (\<lambda>v. Ret (Some v)))))"

end
