(* ===== verification/Sync_Messages.thy ===== *)
theory Sync_Messages
  imports Dt_Streams
begin

text \<open>
  Processes that exchange messages with sends that wait for their receiver.  \<open>acts\<close> says which sends and receives
  a process performs, whatever the messages hold; \<open>exchange\<close> is one message between two processes; a system in which
  every send has its receive, and every process performs its operations in the order of a common rank, cannot
  deadlock and ends after as many messages as it has sends.
\<close>

section \<open>The operations of a process\<close>

text \<open>Whether it is a send, the peer, the tag, and what the next message holds: a length that announces an array of
  doubles, or an array of the length given.\<close>

type_synonym op = "bool \<times> int \<times> int \<times> int option"

text \<open>What is left of an operation after its message \<open>m\<close>, and whether the message is of the kind expected.\<close>

definition proper :: "op \<Rightarrow> 'd msg \<Rightarrow> bool" where
  "proper x m = (case (snd (snd (snd x)), m) of (None, Len n) \<Rightarrow> True | (Some n, Vals xs) \<Rightarrow> int (length xs) = n | _ \<Rightarrow> False)"

definition after :: "op \<Rightarrow> 'd msg \<Rightarrow> op list" where
  "after x m = (case (x, m) of ((b, q, t, None), Len n) \<Rightarrow> [(b, q, t, Some n)] | _ \<Rightarrow> [])"

primrec acts :: "('d, 'a) io \<Rightarrow> op list \<Rightarrow> ('a \<Rightarrow> bool) \<Rightarrow> bool" where
  "acts (Ret x) = (\<lambda>ops Q. ops = [] \<and> Q x)"
| "acts Fail = (\<lambda>ops Q. True)"
| "acts Mismatch = (\<lambda>ops Q. False)"
| "acts (Send q t m k) = (\<lambda>ops Q. \<exists>w rest. ops = (True, q, t, w) # rest \<and> proper (True, q, t, w) m \<and> acts k (after (True, q, t, w) m @ rest) Q)"
| "acts (Recv q t g) = (\<lambda>ops Q. \<exists>w rest. ops = (False, q, t, w) # rest \<and>
     (\<forall>m. proper (False, q, t, w) m \<longrightarrow> acts (g m) (after (False, q, t, w) m @ rest) Q))"

lemma acts_mono: "acts p ops Q \<Longrightarrow> (\<And>x. Q x \<Longrightarrow> R x) \<Longrightarrow> acts p ops R"
  by (induction p arbitrary: ops) auto

lemma acts_bind: "acts p ops Q \<Longrightarrow> (\<And>x. Q x \<Longrightarrow> acts (f x) ops' R) \<Longrightarrow> acts (io_bind p f) (ops @ ops') R"
proof (induction p arbitrary: ops)
  case (Send q t m k)
  then show ?case by (auto simp flip: append_assoc)
next
  case (Recv q t g)
  then show ?case by (auto simp flip: append_assoc)
qed auto

lemma acts_lift: "(\<And>y. x = Some y \<Longrightarrow> Q y) \<Longrightarrow> acts (lift_io x) [] Q"
  by (cases x) (simp_all add: lift_io_def)

lemma acts_lift_bind: "(\<And>y. x = Some y \<Longrightarrow> acts (f y) ops Q) \<Longrightarrow> acts (io_bind (lift_io x) f) ops Q"
  using acts_bind [of "lift_io x" "[]" "\<lambda>y. x = Some y" f ops Q] acts_lift by fastforce

lemma acts_returns_bind: "returns x P \<Longrightarrow> (\<And>y. P y \<Longrightarrow> acts (f y) ops Q) \<Longrightarrow> acts (io_bind (lift_io x) f) ops Q"
  by (rule acts_lift_bind) (auto simp: returns_iff)

text \<open>A message of doubles, and a length with an array of that length, as they are sent and received.\<close>

lemma acts_send_vals: "n = int (length xs) \<Longrightarrow> acts k ops Q \<Longrightarrow> acts (Send q t (Vals xs) k) ((True, q, t, Some n) # ops) Q"
  by (simp add: proper_def after_def)

lemma acts_send_len: "n = int (length xs) \<Longrightarrow> acts k ops Q \<Longrightarrow> acts (Send q t (Len n) (Send q t (Vals xs) k)) ((True, q, t, None) # ops) Q"
  by (simp add: proper_def after_def)

lemma acts_recv_vals: "(\<And>xs. Q xs) \<Longrightarrow> acts (recv_vals q t n) [(False, q, t, Some n)] Q"
  by (auto simp: recv_vals_def MPI_Recv_def proper_def after_def split: msg.splits)

lemma acts_recv_stream: "(\<And>xs. Q xs) \<Longrightarrow> acts (io_bind (recv_len q t) (recv_vals q t)) [(False, q, t, None)] Q"
  by (auto simp: recv_len_def recv_vals_def MPI_Recv_def proper_def after_def split: msg.splits)

lemma acts_each:
  assumes "Q s" "\<And>i s. i \<in> set is \<Longrightarrow> Q s \<Longrightarrow> acts (body i s) (ops i) Q"
  shows "acts (io_each body is s) (concat (List.map ops is)) Q"
  using assms
proof (induction "is" arbitrary: s)
  case (Cons i "is")
  then have "acts (io_bind (body i s) (io_each body is)) (ops i @ concat (List.map ops is)) Q"
    by (intro acts_bind [where Q = Q]) auto
  then show ?case by simp
qed simp

section \<open>Exchanging messages\<close>

text \<open>\<open>N\<close> processes: a message passes when its sender and its receiver wait for each other.\<close>

inductive exchange :: "nat \<Rightarrow> (nat \<Rightarrow> ('d, 'a) io) \<Rightarrow> (nat \<Rightarrow> ('d, 'a) io) \<Rightarrow> bool" for N where
  "p < N \<Longrightarrow> q < N \<Longrightarrow> p \<noteq> q \<Longrightarrow> \<sigma> p = Send (int q) t m k \<Longrightarrow> \<sigma> q = Recv (int p) t f \<Longrightarrow>
   exchange N \<sigma> (\<sigma>(p := k, q := f m))"

inductive_cases exchangeE: "exchange N \<sigma> \<sigma>'"

text \<open>Every process has returned; a process has run into undefined behaviour.\<close>

definition ended :: "nat \<Rightarrow> (nat \<Rightarrow> ('d, 'a) io) \<Rightarrow> bool" where
  "ended N \<sigma> \<longleftrightarrow> (\<forall>p<N. \<exists>x. \<sigma> p = Ret x)"

definition failed :: "nat \<Rightarrow> (nat \<Rightarrow> ('d, 'a) io) \<Rightarrow> bool" where
  "failed N \<sigma> \<longleftrightarrow> (\<exists>p<N. \<sigma> p = Fail)"

section \<open>Ranked operations\<close>

type_synonym ranked = "(nat \<times> op) list"

definition well_ranked :: "nat \<Rightarrow> (nat \<Rightarrow> ranked) \<Rightarrow> bool" where
  "well_ranked N L \<longleftrightarrow> (\<forall>p<N. sorted_wrt (\<lambda>x y. fst x < fst y) (L p) \<and>
     (\<forall>r b q t w. (r, b, q, t, w) \<in> set (L p) \<longrightarrow> 0 \<le> q \<and> q < int N \<and> q \<noteq> int p \<and> (r, \<not> b, int p, t, w) \<in> set (L (nat q))))"

definition follows :: "nat \<Rightarrow> (nat \<Rightarrow> ranked) \<Rightarrow> (nat \<Rightarrow> ('d, 'a) io) \<Rightarrow> bool" where
  "follows N L \<sigma> \<longleftrightarrow> (\<forall>p<N. acts (\<sigma> p) (List.map snd (L p)) (\<lambda>_. True))"

text \<open>The messages that are left: two for a stream whose length has not passed yet.\<close>

definition weight :: "ranked \<Rightarrow> nat" where
  "weight xs = sum_list (List.map (\<lambda>x. if snd (snd (snd (snd x))) = None then 2 else 1) xs)"

lemma weight_simps [simp]:
  "weight [] = 0" "weight ((r, b, q, t, w) # xs) = (if w = None then 2 else 1) + weight xs" "weight (xs @ ys) = weight xs + weight ys"
  by (simp_all add: weight_def)

lemma well_rankedD:
  assumes "well_ranked N L" "p < N"
  shows "sorted_wrt (\<lambda>x y. fst x < fst y) (L p)"
    "(r, b, q, t, w) \<in> set (L p) \<Longrightarrow> 0 \<le> q \<and> nat q < N \<and> q \<noteq> int p \<and> (r, \<not> b, int p, t, w) \<in> set (L (nat q))"
  using assms unfolding well_ranked_def by fastforce+

text \<open>The operation of the least rank stands first in both processes it belongs to.\<close>

lemma least_meets:
  assumes W: "well_ranked N L" and p: "p < N" "L p = (r, b, int q, t, w) # xs" and q: "q < N"
    and least: "\<And>r' y ys. L q = (r', y) # ys \<Longrightarrow> r \<le> r'"
  shows "\<exists>ys. L q = (r, \<not> b, int p, t, w) # ys"
proof -
  have m: "(r, \<not> b, int p, t, w) \<in> set (L q)" using well_rankedD(2) [OF W p(1), of r b "int q" t w] p(2) by auto
  then obtain r' y ys where c: "L q = (r', y) # ys" by (cases "L q") auto
  have "\<forall>z\<in>set ys. r' < fst z" using well_rankedD(1) [OF W q] c by simp
  then show ?thesis using m least [OF c] c by fastforce
qed

lemma progress:
  assumes W: "well_ranked N L" and F: "follows N L \<sigma>"
  shows "failed N \<sigma> \<or> ended N \<sigma> \<or> (\<exists>\<sigma>'. exchange N \<sigma> \<sigma>')"
proof (cases "\<exists>p<N. \<sigma> p = Fail")
  case no_fail: False
  have acts: "acts (\<sigma> p) (List.map snd (L p)) (\<lambda>_. True)" if "p < N" for p using F that by (simp add: follows_def)
  show ?thesis
  proof (cases "\<forall>p<N. L p = []")
    case True
    have "\<exists>x. \<sigma> p = Ret x" if "p < N" for p using acts [OF that] True that no_fail by (cases "\<sigma> p") auto
    then show ?thesis by (simp add: ended_def)
  next
    case False
    define S where "S = {p. p < N \<and> L p \<noteq> []}"
    obtain p0 where "p0 \<in> S" using False by (auto simp: S_def)
    then obtain p where p: "p \<in> S" "\<And>p'. p' \<in> S \<Longrightarrow> fst (hd (L p)) \<le> fst (hd (L p'))"
      using ex_has_least_nat [of "\<lambda>p. p \<in> S" p0 "\<lambda>p. fst (hd (L p))"] by auto
    obtain r b q t w xs where Lp: "L p = (r, b, q, t, w) # xs" using p(1) by (cases "L p") (auto simp: S_def)
    have pN: "p < N" using p(1) by (simp add: S_def)
    have q: "0 \<le> q" "nat q < N" "q \<noteq> int p" using well_rankedD(2) [OF W pN, of r b q t w] Lp by auto
    define q' where "q' = nat q"
    have q': "q = int q'" "q' < N" "q' \<noteq> p" using q by (auto simp: q'_def)
    have "r \<le> r'" if "L q' = (r', y) # ys" for r' y ys using p(2) [of q'] that q'(2) Lp by (simp add: S_def)
    then obtain ys where Lq: "L q' = (r, \<not> b, int p, t, w) # ys"
      using least_meets [OF W pN _ q'(2), of r b t w xs] Lp q'(1) by blast
    have ap: "acts (\<sigma> p) ((b, int q', t, w) # List.map snd xs) (\<lambda>_. True)" using acts [OF pN] Lp q'(1) by simp
    have aq: "acts (\<sigma> q') ((\<not> b, int p, t, w) # List.map snd ys) (\<lambda>_. True)" using acts [OF q'(2)] Lq by simp
    have nf: "\<sigma> p \<noteq> Fail" "\<sigma> q' \<noteq> Fail" using no_fail pN q'(2) by auto
    have "\<exists>\<sigma>'. exchange N \<sigma> \<sigma>'"
    proof (cases b)
      case True
      obtain m k where "\<sigma> p = Send (int q') t m k" using ap nf True by (cases "\<sigma> p") auto
      moreover obtain f where "\<sigma> q' = Recv (int p) t f" using aq nf True by (cases "\<sigma> q'") auto
      ultimately show ?thesis using exchange.intros [OF pN q'(2) q'(3) [symmetric]] by blast
    next
      case False
      obtain m k where "\<sigma> q' = Send (int p) t m k" using aq nf False by (cases "\<sigma> q'") auto
      moreover obtain f where "\<sigma> p = Recv (int q') t f" using ap nf False by (cases "\<sigma> p") auto
      ultimately show ?thesis using exchange.intros [OF q'(2) pN q'(3)] by blast
    qed
    then show ?thesis by simp
  qed
qed (auto simp: failed_def)

text \<open>The first operations of two processes that belong together, replaced by what is left of them.\<close>

lemma well_ranked_step:
  assumes W: "well_ranked N L" and pq: "p < N" "q < N" "p \<noteq> q"
    and Lp: "L p = (r, True, int q, t, w) # xs" and Lq: "L q = (r, False, int p, t, w) # ys"
  shows "well_ranked N (L(p := List.map (Pair r) (after (True, int q, t, w) m) @ xs, q := List.map (Pair r) (after (False, int p, t, w) m) @ ys))"
    (is "well_ranked N ?L'")
proof -
  have sp: "\<forall>x\<in>set xs. r < fst x" "sorted_wrt (\<lambda>x y. fst x < fst y) xs"
    and sq: "\<forall>y\<in>set ys. r < fst y" "sorted_wrt (\<lambda>x y. fst x < fst y) ys"
    using well_rankedD(1) [OF W pq(1)] well_rankedD(1) [OF W pq(2)] Lp Lq by simp_all
  have L': "?L' p = List.map (Pair r) (after (True, int q, t, w) m) @ xs" "?L' q = List.map (Pair r) (after (False, int p, t, w) m) @ ys"
    "\<And>x. x \<noteq> p \<Longrightarrow> x \<noteq> q \<Longrightarrow> ?L' x = L x" using pq(3) by auto
  obtain ws where ws: "after (True, int q, t, w) m = List.map (\<lambda>v. (True, int q, t, v)) ws"
      "after (False, int p, t, w) m = List.map (\<lambda>v. (False, int p, t, v)) ws" "length ws \<le> 1"
  proof (cases w; cases m)
    fix n assume "w = None" "m = Len n"
    then show thesis using that [of "[Some n]"] by (simp add: after_def)
  qed (use that [of "[]"] in \<open>simp_all add: after_def\<close>)
  have ws_sorted: "sorted_wrt (\<lambda>x y. fst x < fst y) (List.map (Pair r) (List.map f ws))" for f :: "int option \<Rightarrow> op"
    using ws(3) by (cases ws) auto
  show ?thesis
    unfolding well_ranked_def
  proof (intro allI impI conjI)
    fix x assume x: "x < N"
    have "sorted_wrt (\<lambda>x y. fst x < fst y) (L x)" by (rule well_rankedD(1) [OF W x])
    then show "sorted_wrt (\<lambda>x y. fst x < fst y) (?L' x)"
      using sp sq ws_sorted unfolding ws by (cases "x = p"; cases "x = q") (auto simp: sorted_wrt_append pq(3))
    fix r2 b y t2 v assume e: "(r2, b, y, t2, v) \<in> set (?L' x)"
    consider (old) "(r2, b, y, t2, v) \<in> set (L x)" "x = p \<or> x = q \<Longrightarrow> r < r2"
      | (new_p) "x = p" "r2 = r" "b" "y = int q" "t2 = t" "v \<in> set ws" | (new_q) "x = q" "r2 = r" "\<not> b" "y = int p" "t2 = t" "v \<in> set ws"
    proof (cases "x = p \<or> x = q")
      case True
      then show thesis
        using e old new_p new_q sp(1) sq(1) Lp Lq L'(1,2) pq(3) unfolding ws by (fastforce split: if_splits)
    next
      case False
      then show thesis using e old L'(3) by auto
    qed
    then have "0 \<le> y \<and> y < int N \<and> y \<noteq> int x \<and> (r2, \<not> b, int x, t2, v) \<in> set (?L' (nat y))"
    proof cases
      case old
      have o: "0 \<le> y" "nat y < N" "y \<noteq> int x" "(r2, \<not> b, int x, t2, v) \<in> set (L (nat y))"
        using well_rankedD(2) [OF W x old(1)] by auto
      have "(r2, \<not> b, int x, t2, v) \<noteq> (r, True, int q, t, w)" if "nat y = p"
        using that old(2) by auto
      moreover have "(r2, \<not> b, int x, t2, v) \<noteq> (r, False, int p, t, w)" if "nat y = q"
        using that old(2) by auto
      ultimately show ?thesis using o Lp Lq L' by (cases "nat y = p"; cases "nat y = q") auto
    next
      case new_p
      then show ?thesis using pq unfolding ws by auto
    next
      case new_q
      then show ?thesis using pq unfolding ws by auto
    qed
    then show "0 \<le> y" "y < int N" "y \<noteq> int x" "(r2, \<not> b, int x, t2, v) \<in> set (?L' (nat y))" by auto
  qed
qed

text \<open>A message takes one message off what is left of both processes.\<close>

lemma weight_after: "proper (b, q, t, w) m \<Longrightarrow> weight ((r, b, q, t, w) # xs) = Suc (weight (List.map (Pair r) (after (b, q, t, w) m) @ xs))"
  by (cases w; cases m) (simp_all add: proper_def after_def)

lemma preservation:
  assumes W: "well_ranked N L" and F: "follows N L \<sigma>" and E: "exchange N \<sigma> \<sigma>'"
  shows "\<exists>L'. well_ranked N L' \<and> follows N L' \<sigma>' \<and> (\<Sum>p<N. weight (L p)) = 2 + (\<Sum>p<N. weight (L' p))"
  using E
proof (cases rule: exchange.cases)
  case (1 p q t m k f)
  have ap: "acts (\<sigma> p) (List.map snd (L p)) (\<lambda>_. True)" and aq: "acts (\<sigma> q) (List.map snd (L q)) (\<lambda>_. True)"
    using F 1 by (auto simp: follows_def)
  obtain r w xs where Lp: "L p = (r, True, int q, t, w) # xs" and mp: "proper (True, int q, t, w) m"
    and kp: "acts k (after (True, int q, t, w) m @ List.map snd xs) (\<lambda>_. True)" using ap 1(5) by auto
  obtain r' w' ys where Lq: "L q = (r', False, int p, t, w') # ys"
    and fq: "proper (False, int p, t, w') m \<Longrightarrow> acts (f m) (after (False, int p, t, w') m @ List.map snd ys) (\<lambda>_. True)" using aq 1(6) by auto
  have sp: "\<forall>x\<in>set xs. r < fst x" and sq: "\<forall>y\<in>set ys. r' < fst y"
    using well_rankedD(1) [OF W] 1(2,3) Lp Lq by (metis fst_conv sorted_wrt.simps(2))+
  have "(r, False, int p, t, w) \<in> set (L q)" "(r', True, int q, t, w') \<in> set (L p)"
    using well_rankedD(2) [OF W 1(2), of r True "int q" t w] well_rankedD(2) [OF W 1(3), of r' False "int p" t w'] Lp Lq by auto
  then have rr: "r' = r" "w' = w" using sp sq Lp Lq by fastforce+
  define L' where "L' = L(p := List.map (Pair r) (after (True, int q, t, w) m) @ xs, q := List.map (Pair r) (after (False, int p, t, w) m) @ ys)"
  have mq: "proper (False, int p, t, w) m" using mp by (simp add: proper_def)
  have "well_ranked N L'" unfolding L'_def by (rule well_ranked_step [OF W 1(2-4) Lp Lq [unfolded rr]])
  moreover have "follows N L' \<sigma>'"
    using F 1 kp fq mq rr unfolding follows_def L'_def by (auto simp: comp_def)
  moreover have "(\<Sum>x<N. weight (L x)) = 2 + (\<Sum>x<N. weight (L' x))"
  proof -
    have len: "weight (L x) = weight (L' x) + (if x = p then 1 else 0) + (if x = q then 1 else 0)" for x
      using weight_after [OF mp, of r xs] weight_after [OF mq, of r ys] 1(4) Lp Lq [unfolded rr] by (cases "x = p"; cases "x = q") (auto simp: L'_def)
    show ?thesis using 1(2,3) by (simp add: len sum.distrib)
  qed
  ultimately show ?thesis by blast
qed

lemma no_mismatch: "follows N L \<sigma> \<Longrightarrow> p < N \<Longrightarrow> \<sigma> p \<noteq> Mismatch"
  by (auto simp: follows_def)

text \<open>The messages of a run are numbered; no message is of the wrong kind, and a run in which no process runs into
  undefined behaviour can only stop when every process has returned.\<close>

theorem ranked_run:
  assumes "well_ranked N L" "follows N L \<sigma>" "(exchange N ^^ k) \<sigma> \<sigma>'"
  shows "2 * k \<le> (\<Sum>p<N. weight (L p)) \<and> (\<forall>p<N. \<sigma>' p \<noteq> Mismatch) \<and> (failed N \<sigma>' \<or> ended N \<sigma>' \<or> (\<exists>\<sigma>''. exchange N \<sigma>' \<sigma>''))"
  using assms
proof (induction k arbitrary: L \<sigma>)
  case 0
  then show ?case using progress [OF 0(1,2)] no_mismatch [OF 0(2)] by auto
next
  case (Suc k)
  obtain \<sigma>1 where s: "exchange N \<sigma> \<sigma>1" "(exchange N ^^ k) \<sigma>1 \<sigma>'" using relpowp_Suc_D2 [OF Suc.prems(3)] by blast
  obtain L' where "well_ranked N L'" "follows N L' \<sigma>1" "(\<Sum>p<N. weight (L p)) = 2 + (\<Sum>p<N. weight (L' p))"
    using preservation [OF Suc.prems(1,2) s(1)] by blast
  then show ?case using Suc.IH [OF _ _ s(2)] by fastforce
qed

end
