(* ===== verification/Dt_Deadlock.thy ===== *)
theory Dt_Deadlock
  imports Sync_Messages
begin

text \<open>
  The processes of the benchmark DT cannot deadlock: even when every \<open>MPI_Send\<close> waits for its receiver, the
  processes that run into no undefined behaviour end after two messages for every arc and one for every sink.  First the sends and receives
  of every function of \<open>dt.c\<close>, then their ranks, then the three graphs.
\<close>

section \<open>The operations of the nodes\<close>

definition ins_of :: "(nat \<times> nat) list \<Rightarrow> nat \<Rightarrow> nat list" where
  "ins_of E i = filter (\<lambda>k. snd (E ! k) = i) [0..<length E]"

definition outs_of :: "(nat \<times> nat) list \<Rightarrow> nat \<Rightarrow> nat list" where
  "outs_of E i = filter (\<lambda>k. fst (E ! k) = i) [0..<length E]"

definition in_ops :: "(nat \<times> nat) list \<Rightarrow> nat \<Rightarrow> op list" where
  "in_ops E i = List.map (\<lambda>k. (False, int (fst (E ! k)), int k, None)) (ins_of E i)"

definition out_ops :: "(nat \<times> nat) list \<Rightarrow> nat \<Rightarrow> op list" where
  "out_ops E i = List.map (\<lambda>k. (True, int (snd (E ! k)), int k, None)) (outs_of E i)"

definition is_source :: "string list \<Rightarrow> nat \<Rightarrow> bool" where
  "is_source ns i \<longleftrightarrow> strstr (ns ! i) ''Source''"

definition is_sink :: "string list \<Rightarrow> nat \<Rightarrow> bool" where
  "is_sink ns i \<longleftrightarrow> strstr (ns ! i) ''Sink''"

definition node_ops :: "string list \<Rightarrow> (nat \<times> nat) list \<Rightarrow> nat \<Rightarrow> op list" where
  "node_ops ns E i = (if is_source ns i then out_ops E i
     else if is_sink ns i then in_ops E i @ [(True, 0, int (length E + i), Some 1)] else in_ops E i @ out_ops E i)"

definition collect_ops :: "string list \<Rightarrow> (nat \<times> nat) list \<Rightarrow> op list" where
  "collect_ops ns E = List.map (\<lambda>i. (False, int i, int (length E + i), Some 1)) (filter (is_sink ns) [0..<length ns])"

text \<open>The shape of a graph: arcs lead to nodes with a larger number, the arcs into a node are numbered in the order
  of their tails, sources have no arc in, sinks no arc out, and every other node has an arc in.\<close>

definition flow :: "string list \<Rightarrow> (nat \<times> nat) list \<Rightarrow> bool" where
  "flow ns E \<longleftrightarrow> ns \<noteq> [] \<and> is_source ns 0 \<and> (\<forall>(t, d)\<in>set E. t < d \<and> d < length ns) \<and>
     (\<forall>k<length E. \<forall>j<k. snd (E ! j) = snd (E ! k) \<longrightarrow> fst (E ! j) \<le> fst (E ! k)) \<and>
     (\<forall>i<length ns. (is_source ns i \<longrightarrow> \<not> is_sink ns i \<and> ins_of E i = []) \<and> (is_sink ns i \<longrightarrow> outs_of E i = []) \<and>
        (\<not> is_source ns i \<longrightarrow> ins_of E i \<noteq> []))"

section \<open>The heap of a process\<close>

text \<open>The heap holds the graph and every node has the process of its number.\<close>

definition placed :: "'f dg_heap \<Rightarrow> DGraph \<Rightarrow> nat list \<Rightarrow> string list \<Rightarrow> edges \<Rightarrow> bool" where
  "placed h dg ps ns es \<longleftrightarrow> rep h dg ps ns es \<and> (\<forall>i<length ps. \<forall>nd. nodes h (ps ! i) = Some nd \<longrightarrow> address nd = int i)"

lemma filter_nth: "filter P xs = List.map ((!) xs) (filter (\<lambda>k. P (xs ! k)) [0..<length xs])"
proof -
  have "filter P xs = filter P (List.map ((!) xs) [0..<length xs])" by (simp add: map_nth)
  then show ?thesis by (simp add: filter_map comp_def)
qed

lemma ins_numbers: "ins es i = List.map (\<lambda>k. fst (es ! k)) (ins_of (List.map snd es) i)"
proof -
  have "filter (\<lambda>k. snd (List.map snd es ! k) = i) [0..<length es] = filter (\<lambda>k. (case es ! k of (a, t, d) \<Rightarrow> d = i)) [0..<length es]"
    by (rule filter_cong) (auto split: prod.split)
  then show ?thesis unfolding ins_def ins_of_def by (subst filter_nth) simp
qed

lemma outs_numbers: "outs es i = List.map (\<lambda>k. fst (es ! k)) (outs_of (List.map snd es) i)"
proof -
  have "filter (\<lambda>k. fst (List.map snd es ! k) = i) [0..<length es] = filter (\<lambda>k. (case es ! k of (a, t, d) \<Rightarrow> t = i)) [0..<length es]"
    by (rule filter_cong) (auto split: prod.split)
  then show ?thesis unfolding outs_def outs_of_def by (subst filter_nth) simp
qed

lemma placed_node:
  assumes "placed h dg ps ns es" "i < length ps"
  obtains nd where "nodes h (ps ! i) = Some nd" "node_rep nd i (ns ! i) es" "address nd = int i" "name nd = ns ! i" "node_id nd = int i"
  using assms rep_node(1) [of h dg ps ns es i] unfolding placed_def node_rep_def by blast

lemma placed_arc:
  assumes "placed h dg ps ns es" "k < length es"
  obtains ar where "arcs h (fst (es ! k)) = Some ar" "arc_id ar = int k" "tail ar = Some (ps ! fst (List.map snd es ! k))"
    "head ar = Some (ps ! snd (List.map snd es ! k))" "fst (List.map snd es ! k) < length ps" "snd (List.map snd es ! k) < length ps"
  using assms unfolding placed_def rep_def arc_rep_def by auto

lemma holds_aget:
  assumes "holds ar deg cap xs" "j < length xs"
  shows "aget ar (int j) = Some (Some (xs ! j))"
proof -
  have "take (length xs) ar ! j = Some (xs ! j)" using assms by (simp add: holds_def)
  then show ?thesis using assms by (simp add: holds_def)
qed

lemma in_arc:
  assumes P: "placed h dg ps ns es" and i: "i < length ps" "nodes h (ps ! i) = Some nd" and j: "j < length (ins_of (List.map snd es) i)"
  obtains ar k where "k = ins_of (List.map snd es) i ! j" "aget (inArc nd) (int j) \<bind> get_arc h = Some ar" "arc_id ar = int k"
    "tail ar = Some (ps ! fst (List.map snd es ! k))" "head ar = Some (ps ! i)" "fst (List.map snd es ! k) < length ps" "k < length es"
    "snd (List.map snd es ! k) = i"
proof -
  define k where "k = ins_of (List.map snd es) i ! j"
  have "k \<in> set (ins_of (List.map snd es) i)" using j by (simp add: k_def)
  then have k: "k < length es" "snd (List.map snd es ! k) = i" by (auto simp: ins_of_def)
  obtain ar where ar: "arcs h (fst (es ! k)) = Some ar" "arc_id ar = int k" "tail ar = Some (ps ! fst (List.map snd es ! k))"
    "head ar = Some (ps ! snd (List.map snd es ! k))" "fst (List.map snd es ! k) < length ps"
    by (rule placed_arc [OF P k(1)])
  have "holds (inArc nd) (inDegree nd) (maxInDegree nd) (ins es i)"
    using placed_node [OF P i(1)] i(2) unfolding node_rep_def by auto
  then have g: "aget (inArc nd) (int j) = Some (Some (fst (es ! k)))"
    using holds_aget [of "inArc nd" _ _ "ins es i" j] j by (simp add: ins_numbers k_def)
  show ?thesis by (rule that [OF k_def _ ar(2,3) _ ar(5) k]) (use ar(1,4) k(2) in \<open>simp_all only: g, simp_all add: get_arc_def\<close>)
qed

lemma out_arc:
  assumes P: "placed h dg ps ns es" and i: "i < length ps" "nodes h (ps ! i) = Some nd" and j: "j < length (outs_of (List.map snd es) i)"
  obtains ar k where "k = outs_of (List.map snd es) i ! j" "aget (outArc nd) (int j) \<bind> get_arc h = Some ar" "arc_id ar = int k"
    "tail ar = Some (ps ! i)" "head ar = Some (ps ! snd (List.map snd es ! k))" "snd (List.map snd es ! k) < length ps" "k < length es"
    "fst (List.map snd es ! k) = i"
proof -
  define k where "k = outs_of (List.map snd es) i ! j"
  have "k \<in> set (outs_of (List.map snd es) i)" using j by (simp add: k_def)
  then have k: "k < length es" "fst (List.map snd es ! k) = i" by (auto simp: outs_of_def)
  obtain ar where ar: "arcs h (fst (es ! k)) = Some ar" "arc_id ar = int k" "tail ar = Some (ps ! fst (List.map snd es ! k))"
    "head ar = Some (ps ! snd (List.map snd es ! k))" "snd (List.map snd es ! k) < length ps"
    by (rule placed_arc [OF P k(1)])
  have "holds (outArc nd) (outDegree nd) (maxOutDegree nd) (outs es i)"
    using placed_node [OF P i(1)] i(2) unfolding node_rep_def by auto
  then have g: "aget (outArc nd) (int j) = Some (Some (fst (es ! k)))"
    using holds_aget [of "outArc nd" _ _ "outs es i" j] j by (simp add: outs_numbers k_def)
  show ?thesis by (rule that [OF k_def _ ar(2) _ ar(4,5) k]) (use ar(1,3) k(2) in \<open>simp_all only: g, simp_all add: get_arc_def\<close>)
qed

lemma degrees:
  assumes P: "placed h dg ps ns es" and i: "i < length ps" "nodes h (ps ! i) = Some nd"
  shows "inDegree nd = int (length (ins_of (List.map snd es) i))" "outDegree nd = int (length (outs_of (List.map snd es) i))"
  using placed_node [OF P i(1)] i(2) unfolding node_rep_def holds_def by (auto simp: ins_numbers outs_numbers)

lemma put_feat:
  assumes P: "placed h dg ps ns es" and i: "i < length ps" "nodes h (ps ! i) = Some nd"
  shows "returns (put_node (Some (ps ! i)) (nd\<lparr>feat := f\<rparr>) h) (\<lambda>h'. placed h' dg ps ns es)"
proof -
  have d: "j < length ps \<Longrightarrow> ps ! j = ps ! i \<longleftrightarrow> j = i" for j
    using P i(1) by (auto simp: placed_def rep_def nth_eq_iff_index_eq)
  define h' where "h' = h\<lparr>nodes := (nodes h)(ps ! i \<mapsto> nd\<lparr>feat := f\<rparr>)\<rparr>"
  have h': "nodes h' (ps ! j) = (if j = i then Some (nd\<lparr>feat := f\<rparr>) else nodes h (ps ! j))" if "j < length ps" for j
    using d [OF that] by (simp add: h'_def)
  have R: "rep h dg ps ns es" and A: "\<And>j x. j < length ps \<Longrightarrow> nodes h (ps ! j) = Some x \<Longrightarrow> address x = int j"
    using P by (auto simp: placed_def)
  have nr: "node_rep (nd\<lparr>feat := f\<rparr>) i (ns ! i) es" using rep_node(1) [OF R i(1)] i(2) by (auto simp: node_rep_def)
  have "\<exists>x. nodes h' (ps ! j) = Some x \<and> node_rep x j (ns ! j) es" if "j < length ps" for j
    using rep_node(1) [OF R that] nr by (simp add: h' [OF that])
  moreover have "arcs h' = arcs h" "fresh h' = fresh h" by (simp_all add: h'_def)
  ultimately have "rep h' dg ps ns es" using R by (simp add: rep_def)
  moreover have "address x = int j" if "j < length ps" "nodes h' (ps ! j) = Some x" for j x
    using that(2) A [OF that(1)] A [OF i] unfolding h' [OF that(1)] by (auto split: if_splits)
  moreover have "put_node (Some (ps ! i)) (nd\<lparr>feat := f\<rparr>) h = Some h'" using i(2) by (simp add: put_node_def get_node_def h'_def)
  ultimately show ?thesis by (simp add: placed_def)
qed

section \<open>The sends and receives\<close>

lemma acts_bind_nil: "acts p ops Q \<Longrightarrow> (\<And>x. Q x \<Longrightarrow> acts (f x) [] R) \<Longrightarrow> acts (io_bind p f) ops R"
  using acts_bind [of p ops Q f "[]" R] by simp

lemma acts_each_numbers:
  assumes "Q s" "n = int (length xs)" "\<And>j s. j < length xs \<Longrightarrow> Q s \<Longrightarrow> acts (body (int j) s) (f (xs ! j)) Q"
  shows "acts (io_each body [0..n - 1] s) (concat (List.map f xs)) Q"
proof -
  have "List.map (\<lambda>i. xs ! nat i) [0..n - 1] = xs" by (rule nth_equalityI) (simp_all add: assms(2))
  then have "List.map f (List.map (\<lambda>i. xs ! nat i) [0..n - 1]) = List.map f xs" by simp
  moreover have "acts (io_each body [0..n - 1] s) (concat (List.map (\<lambda>i. f (xs ! nat i)) [0..n - 1])) Q"
  proof (rule acts_each [where Q = Q, OF assms(1)])
    fix i s assume "i \<in> set [0..n - 1]" "Q s"
    then show "acts (body i s) (f (xs ! nat i)) Q" using assms(3) [of "nat i" s] assms(2) by auto
  qed
  ultimately show ?thesis by (simp add: comp_def)
qed

lemma acts_each_one:
  assumes "Q s" "n = int (length xs)" "\<And>j s. j < length xs \<Longrightarrow> Q s \<Longrightarrow> acts (body (int j) s) [f (xs ! j)] Q"
  shows "acts (io_each body [0..n - 1] s) (List.map f xs) Q"
  using acts_each_numbers [where Q = Q and f = "\<lambda>x. [f x]", OF assms] by simp

lemma acts_SendResults:
  assumes P: "placed h dg ps ns es" and i: "i < length ps" and fwd: "\<forall>(t, d)\<in>set (List.map snd es). t < d"
  shows "acts (SendResults (Some (ps ! i)) (Some ft) h) (out_ops (List.map snd es) i) (\<lambda>_. True)"
proof -
  obtain nd where nd: "nodes h (ps ! i) = Some nd" "address nd = int i" by (rule placed_node [OF P i])
  have n: "lift_io (get_node h (Some (ps ! i))) = Ret nd" using nd(1) by (simp add: lift_io_def get_node_def)
  show ?thesis
    unfolding SendResults_def option.case n io_bind.simps out_ops_def
  proof (rule acts_bind_nil, rule acts_each_one [where Q = "\<lambda>_. True"])
    fix j :: nat and s :: unit assume j: "j < length (outs_of (List.map snd es) i)"
    obtain ar k where k: "k = outs_of (List.map snd es) i ! j" "aget (outArc nd) (int j) \<bind> get_arc h = Some ar" "arc_id ar = int k"
      "tail ar = Some (ps ! i)" "head ar = Some (ps ! snd (List.map snd es ! k))" "snd (List.map snd es ! k) < length ps" "k < length es"
      "fst (List.map snd es ! k) = i"
      by (rule out_arc [OF P i nd(1) j])
    obtain hn where hn: "nodes h (ps ! snd (List.map snd es ! k)) = Some hn" "address hn = int (snd (List.map snd es ! k))"
      using placed_node [OF P k(6)] by blast
    have mem: "List.map snd es ! k \<in> set (List.map snd es)" using k(7) by (simp only: nth_mem length_map)
    have "i < snd (List.map snd es ! k)" using bspec [OF fwd mem] k(8) by (simp del: nth_map add: case_prod_unfold)
    then show "acts (io_bind (lift_io (aget (outArc nd) (int j) \<bind> get_arc h)) (\<lambda>ar.
        if tail ar \<noteq> Some (ps ! i) then Ret ()
        else io_bind (lift_io (get_node h (head ar))) (\<lambda>hd_node.
          if address hd_node \<noteq> address nd then
            io_bind (MPI_Send (address hd_node) (arc_id ar) (Len (int (length ft)))) (\<lambda>_. MPI_Send (address hd_node) (arc_id ar) (Vals ft))
          else Ret ())))
      [(True, int (snd (List.map snd es ! (outs_of (List.map snd es) i ! j))), int (outs_of (List.map snd es) i ! j), None)] (\<lambda>_. True)"
      unfolding k(1) [symmetric] k(2) by (simp del: nth_map add: lift_io_def get_node_def MPI_Send_def hn nd(2) k(3-5) proper_def after_def)
  qed (simp_all add: degrees(2) [OF P i nd(1)])
qed

lemma acts_get_stream:
  "address tl_node \<noteq> address n \<Longrightarrow> acts (get_stream n tl_node ar) [(False, address tl_node, arc_id ar, None)] (\<lambda>_. True)"
  by (simp add: get_stream_def acts_recv_stream)

text \<open>The loop over the arcs into a node, whatever is done with the streams.\<close>

lemma acts_streams:
  fixes s0 :: 's
  assumes P: "placed h dg ps ns es" and i: "i < length ps" "nodes h (ps ! i) = Some nd" and fwd: "\<forall>(t, d)\<in>set (List.map snd es). t < d"
    and body: "\<And>ft s. acts (g ft s) [] (\<lambda>_. True)"
  shows "acts (io_each (\<lambda>j s. io_bind (lift_io (do { a \<leftarrow> aget (inArc nd) j; get_arc h a })) (\<lambda>ar.
       if head ar \<noteq> Some (ps ! i) then Ret s
       else io_bind (lift_io (get_node h (tail ar))) (\<lambda>tl_node. io_bind (get_stream nd tl_node ar) (\<lambda>ft. g ft s)))) [0..inDegree nd - 1] s0)
     (in_ops (List.map snd es) i) (\<lambda>_. True)"
  unfolding in_ops_def
proof (rule acts_each_one [where Q = "\<lambda>_. True"])
  fix j :: nat and s :: 's assume j: "j < length (ins_of (List.map snd es) i)"
  obtain ar k where k: "k = ins_of (List.map snd es) i ! j" "aget (inArc nd) (int j) \<bind> get_arc h = Some ar" "arc_id ar = int k"
    "tail ar = Some (ps ! fst (List.map snd es ! k))" "head ar = Some (ps ! i)" "fst (List.map snd es ! k) < length ps" "k < length es"
    "snd (List.map snd es ! k) = i"
    by (rule in_arc [OF P i j])
  obtain tn where tn: "nodes h (ps ! fst (List.map snd es ! k)) = Some tn" "address tn = int (fst (List.map snd es ! k))"
    using placed_node [OF P k(6)] by blast
  have a: "address nd = int i" using placed_node [OF P i(1)] i(2) by auto
  have mem: "List.map snd es ! k \<in> set (List.map snd es)" using k(7) by (simp only: nth_mem length_map)
  have "fst (List.map snd es ! k) < i" using bspec [OF fwd mem] k(8) by (simp del: nth_map add: case_prod_unfold)
  then have "acts (get_stream nd tn ar) [(False, int (fst (List.map snd es ! k)), int k, None)] (\<lambda>_. True)"
    using acts_get_stream [of tn nd ar] tn(2) a k(3) by (simp del: nth_map)
  then have "acts (io_bind (get_stream nd tn ar) (\<lambda>ft. g ft s))
      [(False, int (fst (List.map snd es ! k)), int k, None)] (\<lambda>_. True)"
    by (rule acts_bind_nil) (rule body)
  then show "acts (io_bind (lift_io (aget (inArc nd) (int j) \<bind> get_arc h)) (\<lambda>ar.
       if head ar \<noteq> Some (ps ! i) then Ret s
       else io_bind (lift_io (get_node h (tail ar))) (\<lambda>tl_node. io_bind (get_stream nd tl_node ar) (\<lambda>ft. g ft s))))
     [(False, int (fst (List.map snd es ! (ins_of (List.map snd es) i ! j))), int (ins_of (List.map snd es) i ! j), None)] (\<lambda>_. True)"
    unfolding k(1) [symmetric] k(2) by (simp del: nth_map add: lift_io_def get_node_def tn k(4,5))
qed (simp_all add: degrees(1) [OF P i])

lemma acts_CombineStreams:
  assumes P: "placed h dg ps ns es" and i: "i < length ps" and fwd: "\<forall>(t, d)\<in>set (List.map snd es). t < d"
    and ne: "ins_of (List.map snd es) i \<noteq> []"
  shows "acts (CombineStreams F Z J (Some (ps ! i)) h) (in_ops (List.map snd es) i) (\<lambda>(ft, h'). (\<exists>f. ft = Some f) \<and> placed h' dg ps ns es)"
proof -
  obtain nd where nd: "nodes h (ps ! i) = Some nd" by (rule placed_node [OF P i])
  have n: "lift_io (get_node h (Some (ps ! i))) = Ret nd" using nd by (simp add: lift_io_def get_node_def)
  have "inDegree nd \<noteq> 0" using degrees(1) [OF P i nd] ne by simp
  then show ?thesis
    unfolding CombineStreams_def n io_bind.simps Let_def
    by (simp only: if_False) (rule acts_bind_nil [OF acts_streams [OF P i nd fwd]], rule acts_lift [OF TrueI],
      rule acts_lift_bind, rule acts_returns_bind [OF put_feat [OF P i nd]], simp)
qed

lemma acts_ReduceStreams:
  assumes P: "placed h dg ps ns es" and i: "i < length ps" and fwd: "\<forall>(t, d)\<in>set (List.map snd es). t < d"
  shows "acts (ReduceStreams F (Some (ps ! i)) h) (in_ops (List.map snd es) i) (\<lambda>_. True)"
proof -
  obtain nd where nd: "nodes h (ps ! i) = Some nd" by (rule placed_node [OF P i])
  have n: "lift_io (get_node h (Some (ps ! i))) = Ret nd" using nd by (simp add: lift_io_def get_node_def)
  show ?thesis
    unfolding ReduceStreams_def n io_bind.simps
    by (rule acts_bind_nil [OF acts_streams [OF P i nd fwd]]) (rule acts_lift_bind, simp, rule acts_lift_bind, simp)
qed

lemma acts_process_node:
  assumes P: "placed h dg ps ns es" and j: "j < length ps" and G: "flow ns (List.map snd es)"
  shows "acts (process_node F Z J dg (int i) (int j) h) (if j = i then node_ops ns (List.map snd es) i else []) (\<lambda>h'. placed h' dg ps ns es)"
proof -
  have R: "rep h dg ps ns es" and ln: "length ns = length ps" using P by (simp_all add: placed_def rep_def)
  obtain nd where nd: "nodes h (ps ! j) = Some nd" "address nd = int j" "name nd = ns ! j" "node_id nd = int j" by (rule placed_node [OF P j])
  have pj: "lift_io (aget (node dg) (int j)) = Ret (Some (ps ! j))"
    using rep_node(4,5) [OF R j] by (simp add: lift_io_def)
  have n: "lift_io (get_node h (Some (ps ! j))) = Ret nd" using nd by (simp add: lift_io_def get_node_def)
  have M: "numArcs dg = int (length es)" using R by (simp add: rep_def holds_def)
  have fwd: "\<forall>(t, d)\<in>set (List.map snd es). t < d" using G by (auto simp: flow_def)
  have ne: "\<not> is_source ns j \<Longrightarrow> ins_of (List.map snd es) j \<noteq> []" using G j ln by (simp add: flow_def)
  have send: "acts (io_bind (SendResults (Some (ps ! j)) (Some ft) h') (\<lambda>_. Ret h')) (out_ops (List.map snd es) j) (\<lambda>h'. placed h' dg ps ns es)"
    if "placed h' dg ps ns es" for ft h'
    by (rule acts_bind_nil [OF acts_SendResults [OF that j fwd]]) (simp add: that)
  show ?thesis
  proof (cases "j = i")
    case True
    consider (source) "is_source ns j" | (sink) "\<not> is_source ns j" "is_sink ns j" | (comparator) "\<not> is_source ns j" "\<not> is_sink ns j" by blast
    then show ?thesis
    proof cases
      case source
      have "acts (io_bind (lift_io (RandomFeatures F Z J fielddim (node_id nd))) (\<lambda>ft.
           io_bind (lift_io (put_node (Some (ps ! j)) (nd\<lparr>feat := Some ft\<rparr>) h)) (\<lambda>h.
             io_bind (SendResults (Some (ps ! j)) (Some ft) h) (\<lambda>_. Ret h)))) (out_ops (List.map snd es) j) (\<lambda>h'. placed h' dg ps ns es)"
        by (rule acts_lift_bind, rule acts_returns_bind [OF put_feat [OF P j nd(1)]], rule send)
      then show ?thesis using source True nd(2,3) unfolding process_node_def pj io_bind.simps n by (simp add: node_ops_def is_source_def)
    next
      case sink
      have "acts (io_bind (ReduceStreams F (Some (ps ! j)) h) (\<lambda>chksum.
           io_bind (MPI_Send 0 (numArcs dg + node_id nd) (Vals [chksum])) (\<lambda>_. Ret h)))
         (in_ops (List.map snd es) j @ [(True, 0, int (length es + j), Some 1)]) (\<lambda>h'. placed h' dg ps ns es)"
        by (rule acts_bind [OF acts_ReduceStreams [OF P j fwd]]) (simp add: MPI_Send_def M nd(4) P proper_def after_def)
      then show ?thesis using sink True nd(2,3) unfolding process_node_def pj io_bind.simps n by (simp add: node_ops_def is_source_def is_sink_def)
    next
      case comparator
      have "acts (io_bind (CombineStreams F Z J (Some (ps ! j)) h) (\<lambda>(ft, h). io_bind (SendResults (Some (ps ! j)) ft h) (\<lambda>_. Ret h)))
         (in_ops (List.map snd es) j @ out_ops (List.map snd es) j) (\<lambda>h'. placed h' dg ps ns es)"
        by (rule acts_bind [OF acts_CombineStreams [OF P j fwd ne [OF comparator(1)]]]) (use send in auto)
      then show ?thesis using comparator True nd(2,3) unfolding process_node_def pj io_bind.simps n by (simp add: node_ops_def is_source_def is_sink_def)
    qed
  next
    case False
    then show ?thesis using nd(2) P unfolding process_node_def pj io_bind.simps n by simp
  qed
qed

text \<open>The whole process.\<close>

lemma concat_singletons: "concat (List.map (\<lambda>i. if P i then [f i] else []) xs) = List.map f (filter P xs)"
  by (induction xs) auto

lemma concat_only: "concat (List.map (\<lambda>j. if j = i then xs else []) [0..<n]) = (if i < n then xs else [])"
  by (induction n) auto

lemma acts_collect_sums:
  assumes P: "placed h dg ps ns es"
  shows "acts (collect_sums F dg h) (collect_ops ns (List.map snd es)) (\<lambda>_. True)"
proof -
  have R: "rep h dg ps ns es" and ln: "length ns = length ps" using P by (simp_all add: placed_def rep_def)
  have M: "numArcs dg = int (length es)" "numNodes dg = int (length ps)" using R by (simp_all add: rep_def holds_def)
  have e: "collect_ops ns (List.map snd es) =
      concat (List.map (\<lambda>i. if is_sink ns i then [(False, int i, int (length es + i), Some 1)] else []) [0..<length ps])"
    by (simp add: collect_ops_def concat_singletons ln)
  show ?thesis
    unfolding collect_sums_def e
  proof (rule acts_each_numbers [where Q = "\<lambda>_. True"])
    fix j :: nat and s assume j: "j < length [0..<length ps]"
    then have j': "j < length ps" by simp
    obtain nd where nd: "nodes h (ps ! j) = Some nd" "address nd = int j" "name nd = ns ! j" "node_id nd = int j" by (rule placed_node [OF P j'])
    have "aget (node dg) (int j) \<bind> get_node h = Some nd"
      using rep_node(4,5) [OF R j'] nd(1) by (simp add: get_node_def)
    then show "acts (io_bind (lift_io (aget (node dg) (int j) \<bind> get_node h)) (\<lambda>n.
          if \<not> strstr (name n) ''Sink'' then Ret s
          else io_bind (recv_vals (address n) (numArcs dg + node_id n) 1) (\<lambda>xs. Ret (d_add F s (xs ! 0)))))
        (if is_sink ns ([0..<length ps] ! j) then [(False, int ([0..<length ps] ! j), int (length es + [0..<length ps] ! j), Some 1)] else []) (\<lambda>_. True)"
      using acts_bind_nil [OF acts_recv_vals [of "\<lambda>_. True" "int j" "int (length es + j)" 1, OF TrueI], of "\<lambda>xs. Ret (d_add F s (xs ! 0))" "\<lambda>_. True"]
      by (simp add: lift_io_def nd j' M is_sink_def)
  qed (simp_all add: M)
qed

lemma acts_ProcessNodes:
  fixes h :: "'d dt_heap"
  assumes P: "placed h dg ps ns es" and G: "flow ns (List.map snd es)"
  shows "acts (ProcessNodes F Z eps J dg (int i) h)
    ((if i < length ns then node_ops ns (List.map snd es) i else []) @ (if i = 0 then collect_ops ns (List.map snd es) else [])) (\<lambda>_. True)"
proof -
  have ln: "length ns = length ps" and nn: "numNodes dg = int (length ps)" using P by (simp_all add: placed_def rep_def holds_def)
  have "acts (io_each (process_node F Z J dg (int i)) [0..numNodes dg - 1] h)
      (concat (List.map (\<lambda>j. if j = i then node_ops ns (List.map snd es) i else []) [0..<length ps])) (\<lambda>h'. placed h' dg ps ns es)"
  proof (rule acts_each_numbers)
    fix j :: nat and h1 :: "'d dt_heap" assume j: "j < length [0..<length ps]" and h1: "placed h1 dg ps ns es"
    then show "acts (process_node F Z J dg (int i) (int j) h1)
        (if [0..<length ps] ! j = i then node_ops ns (List.map snd es) i else []) (\<lambda>h'. placed h' dg ps ns es)"
      using acts_process_node [OF h1 _ G, of j F Z J i] by simp
  qed (simp_all add: nn P)
  then have each: "acts (io_each (process_node F Z J dg (int i)) [0..numNodes dg - 1] h)
      (if i < length ns then node_ops ns (List.map snd es) i else []) (\<lambda>h'. placed h' dg ps ns es)"
    by (simp only: concat_only ln)
  show ?thesis
    unfolding ProcessNodes_def
  proof (rule acts_bind [OF each])
    fix h' :: "'d dt_heap" assume h': "placed h' dg ps ns es"
    show "acts (if int i = 0 then io_bind (collect_sums F dg h') (\<lambda>chksum. Ret (verify F (CLASS Z) eps (graph_name dg) chksum)) else Ret 0)
       (if i = 0 then collect_ops ns (List.map snd es) else []) (\<lambda>_. True)"
      using acts_bind_nil [OF acts_collect_sums [OF h'], of "\<lambda>chksum. Ret (verify F (CLASS Z) eps (graph_name dg) chksum)" "\<lambda>_. True"] by simp
  qed
qed

lemma set_addresses:
  fixes h :: "'d dt_heap"
  assumes R: "rep h dg ps ns es"
  shows "returns (for_range 0 (numNodes dg) (set_address dg) h) (\<lambda>h'. placed h' dg ps ns es)"
proof (rule returns_mono)
  show "returns (for_range 0 (numNodes dg) (set_address dg) h) (\<lambda>h. rep h dg ps ns es \<and>
      (\<forall>j<nat (numNodes dg). \<forall>nd. nodes h (ps ! j) = Some nd \<longrightarrow> address nd = int j))"
  proof (rule returns_rangeI [where I = "\<lambda>i h. rep h dg ps ns es \<and> (\<forall>j<nat i. \<forall>nd. nodes h (ps ! j) = Some nd \<longrightarrow> address nd = int j)"])
    fix i :: int and h :: "'d dt_heap" assume i: "0 \<le> i" "i < numNodes dg" and
      I: "rep h dg ps ns es \<and> (\<forall>j<nat i. \<forall>nd. nodes h (ps ! j) = Some nd \<longrightarrow> address nd = int j)"
    then have R: "rep h dg ps ns es" by simp
    have k: "nat i < length ps" using R i by (simp add: rep_def holds_def)
    obtain nd where nd: "nodes h (ps ! nat i) = Some nd" "node_rep nd (nat i) (ns ! nat i) es" using rep_node(1) [OF R k] by blast
    have d: "j < length ps \<Longrightarrow> ps ! j = ps ! nat i \<longleftrightarrow> j = nat i" for j using R k by (simp add: rep_def nth_eq_iff_index_eq)
    define h' where "h' = h\<lparr>nodes := (nodes h)(ps ! nat i \<mapsto> nd\<lparr>address := i\<rparr>)\<rparr>"
    have h': "nodes h' (ps ! j) = (if j = nat i then Some (nd\<lparr>address := i\<rparr>) else nodes h (ps ! j))" if "j < length ps" for j
      using d [OF that] by (simp add: h'_def)
    have nr: "node_rep (nd\<lparr>address := i\<rparr>) (nat i) (ns ! nat i) es" using nd(2) by (simp add: node_rep_def)
    have "\<exists>x. nodes h' (ps ! j) = Some x \<and> node_rep x j (ns ! j) es" if "j < length ps" for j
      using rep_node(1) [OF R that] nr by (simp add: h' [OF that])
    moreover have "arcs h' = arcs h" "fresh h' = fresh h" by (simp_all add: h'_def)
    ultimately have "rep h' dg ps ns es" using R by (simp add: rep_def)
    moreover have "address x = int j" if "j < nat (i + 1)" "nodes h' (ps ! j) = Some x" for j x
      using that i k I h' [of j] by (cases "j = nat i") (auto split: if_splits)
    moreover have "set_address dg i h = Some h'"
      using i nd rep_node(4,5) [OF R k] by (simp add: set_address_def get_node_def put_node_def h'_def)
    ultimately show "returns (set_address dg i h) (\<lambda>h. rep h dg ps ns es \<and> (\<forall>j<nat (i + 1). \<forall>nd. nodes h (ps ! j) = Some nd \<longrightarrow> address nd = int j))"
      by simp
  qed (use R in \<open>auto simp: rep_def holds_def\<close>)
qed (simp add: placed_def rep_def holds_def)

lemma acts_dt_main:
  assumes B: "returns (build_graph arg raw Z h) (\<lambda>s. graph s ns E g)" and G: "flow ns E" and N: "length ns \<le> N"
    and arg: "take 2 arg \<in> {''BH'', ''WH'', ''SH''}"
  shows "acts (dt_main F Z eps J raw h arg (int N) (int i))
    ((if i < length ns then node_ops ns E i else []) @ (if i = 0 then collect_ops ns E else [])) (\<lambda>_. True)"
proof -
  obtain dg h1 where b: "build_graph arg raw Z h = Some (dg, h1)" "graph (dg, h1) ns E g" using B by (auto elim!: returnsE)
  then obtain ps es where R: "rep h1 dg ps ns es" "List.map snd es = E" by (auto simp: graph_def)
  have nn: "numNodes dg = int (length ns)" using R(1) by (simp add: rep_def holds_def)
  obtain h2 where h2: "for_range 0 (numNodes dg) (set_address dg) h1 = Some h2" "placed h2 dg ps ns es"
    using set_addresses [OF R(1)] by (auto elim!: returnsE)
  have "flow ns (List.map snd es)" using G R(2) by simp
  then have "acts (io_bind (ProcessNodes F Z eps J dg (int i) h2) (\<lambda>v. Ret (Some v)))
    ((if i < length ns then node_ops ns (List.map snd es) i else []) @ (if i = 0 then collect_ops ns (List.map snd es) else [])) (\<lambda>_. True)"
    by (rule acts_bind_nil [OF acts_ProcessNodes [OF h2(2)]]) simp
  moreover have "dt_main F Z eps J raw h arg (int N) (int i) = io_bind (ProcessNodes F Z eps J dg (int i) h2) (\<lambda>v. Ret (Some v))"
    using arg b(1) h2(1) N by (auto simp: dt_main_def lift_io_def nn)
  ultimately show ?thesis unfolding R(2) by simp
qed

section \<open>The order of the messages\<close>

text \<open>The streams come in the order of the tail and then of the number of the arc, the sums last.\<close>

definition arc_rank :: "(nat \<times> nat) list \<Rightarrow> nat \<Rightarrow> nat" where
  "arc_rank E k = fst (E ! k) * length E + k"

definition sum_rank :: "string list \<Rightarrow> (nat \<times> nat) list \<Rightarrow> nat \<Rightarrow> nat" where
  "sum_rank ns E i = length ns * length E + i"

definition plan :: "string list \<Rightarrow> (nat \<times> nat) list \<Rightarrow> nat \<Rightarrow> ranked" where
  "plan ns E i = List.map (\<lambda>k. (arc_rank E k, (False, int (fst (E ! k)), int k, None))) (ins_of E i) @
     List.map (\<lambda>k. (arc_rank E k, (True, int (snd (E ! k)), int k, None))) (outs_of E i) @
     (if i < length ns \<and> is_sink ns i then [(sum_rank ns E i, (True, 0, int (length E + i), Some 1))] else []) @
     (if i = 0 then List.map (\<lambda>j. (sum_rank ns E j, (False, int j, int (length E + j), Some 1))) (filter (is_sink ns) [0..<length ns]) else [])"

lemma flowD:
  assumes "flow ns E"
  shows "0 < length ns" "is_source ns 0" "k < length E \<Longrightarrow> fst (E ! k) < snd (E ! k)" "k < length E \<Longrightarrow> snd (E ! k) < length ns"
    "j < k \<Longrightarrow> k < length E \<Longrightarrow> snd (E ! j) = snd (E ! k) \<Longrightarrow> fst (E ! j) \<le> fst (E ! k)"
    "i < length ns \<Longrightarrow> is_source ns i \<Longrightarrow> \<not> is_sink ns i" "i < length ns \<Longrightarrow> is_source ns i \<Longrightarrow> ins_of E i = []"
    "i < length ns \<Longrightarrow> is_sink ns i \<Longrightarrow> outs_of E i = []"
  using assms unfolding flow_def by (auto simp: case_prod_unfold)

lemma plan_ops:
  assumes G: "flow ns E"
  shows "List.map snd (plan ns E i) = (if i < length ns then node_ops ns E i else []) @ (if i = 0 then collect_ops ns E else [])"
proof -
  have "ins_of E i = []" "outs_of E i = []" if "\<not> i < length ns"
    using that flowD(3,4) [OF G] by (fastforce simp: ins_of_def outs_of_def filter_empty_conv)+
  then show ?thesis
    using flowD(6-8) [OF G, of i]
    by (cases "i < length ns"; cases "is_source ns i"; cases "is_sink ns i")
      (simp_all add: plan_def node_ops_def in_ops_def out_ops_def collect_ops_def comp_def)
qed

lemma arc_rank_less: "k < length E \<Longrightarrow> fst (E ! k) < m \<Longrightarrow> arc_rank E k < m * length E"
proof -
  assume k: "k < length E" "fst (E ! k) < m"
  then have "fst (E ! k) * length E + k < Suc (fst (E ! k)) * length E" by simp
  also have "\<dots> \<le> m * length E" using k(2) by (intro mult_le_mono1) simp
  finally show ?thesis by (simp add: arc_rank_def)
qed

lemma plan_sorted:
  assumes G: "flow ns E"
  shows "sorted_wrt (\<lambda>x y. fst x < fst y) (plan ns E i)"
proof -
  have up: "sorted_wrt (<) [0..<length E]" by simp
  have in_ks: "k < length E \<and> snd (E ! k) = i" if "k \<in> set (ins_of E i)" for k using that by (auto simp: ins_of_def)
  have out_ks: "k < length E \<and> fst (E ! k) = i" if "k \<in> set (outs_of E i)" for k using that by (auto simp: outs_of_def)
  have lt_ns: "arc_rank E k < length ns * length E" if "k < length E" for k
    using arc_rank_less [OF that] flowD(3,4) [OF G that] by simp
  have si: "sorted_wrt (\<lambda>j k. arc_rank E j < arc_rank E k) (ins_of E i)"
  proof (rule sorted_wrt_mono_rel [of _ "(<)"])
    fix j k assume jk: "j \<in> set (ins_of E i)" "k \<in> set (ins_of E i)" "j < k"
    then have "fst (E ! j) * length E \<le> fst (E ! k) * length E" using in_ks flowD(5) [OF G jk(3)] by (intro mult_le_mono1) simp
    then show "arc_rank E j < arc_rank E k" unfolding arc_rank_def using jk(3) by (rule add_le_less_mono)
  qed (simp add: ins_of_def sorted_wrt_filter up)
  have so: "sorted_wrt (\<lambda>j k. arc_rank E j < arc_rank E k) (outs_of E i)"
  proof (rule sorted_wrt_mono_rel [of _ "(<)"])
    fix j k assume jk: "j \<in> set (outs_of E i)" "k \<in> set (outs_of E i)" "j < k"
    then show "arc_rank E j < arc_rank E k" using out_ks by (simp add: arc_rank_def)
  qed (simp add: outs_of_def sorted_wrt_filter up)
  have io: "arc_rank E j < arc_rank E k" if "j \<in> set (ins_of E i)" "k \<in> set (outs_of E i)" for j k
  proof -
    have "fst (E ! j) < i" "j < length E" using in_ks [OF that(1)] flowD(3) [OF G] by auto
    then have "arc_rank E j < i * length E" using arc_rank_less by blast
    also have "\<dots> \<le> arc_rank E k" using out_ks [OF that(2)] by (simp add: arc_rank_def)
    finally show ?thesis .
  qed
  have arc_sum: "arc_rank E k < sum_rank ns E m" if "k \<in> set (ins_of E i) \<union> set (outs_of E i)" for k m
    using that in_ks out_ks lt_ns [of k] by (auto simp: sum_rank_def)
  have ss: "sorted_wrt (\<lambda>j k. sum_rank ns E j < sum_rank ns E k) (filter (is_sink ns) [0..<length ns])"
    by (simp add: sum_rank_def sorted_wrt_filter)
  have z: "\<not> (0 < length ns \<and> is_sink ns 0)" using flowD(1,2,6) [OF G] by blast
  show ?thesis
    unfolding plan_def sorted_wrt_append using si so ss z io arc_sum by (cases "i = 0") (auto simp: sorted_wrt_map)
qed

lemma plan_members:
  "(r, b, q, t, w) \<in> set (plan ns E p) \<longleftrightarrow>
     (\<exists>k<length E. r = arc_rank E k \<and> t = int k \<and> w = None \<and>
        (\<not> b \<and> q = int (fst (E ! k)) \<and> snd (E ! k) = p \<or> b \<and> q = int (snd (E ! k)) \<and> fst (E ! k) = p)) \<or>
     (\<exists>j<length ns. is_sink ns j \<and> r = sum_rank ns E j \<and> t = int (length E + j) \<and> w = Some 1 \<and> (b \<and> q = 0 \<and> p = j \<or> \<not> b \<and> q = int j \<and> p = 0))"
  by (auto simp: plan_def ins_of_def outs_of_def)

lemma plan_ranked:
  assumes G: "flow ns E" and N: "length ns \<le> N"
  shows "well_ranked N (plan ns E)"
  unfolding well_ranked_def
proof (intro allI impI conjI)
  fix p assume "p < N"
  then have "0 < N" by simp
  show "sorted_wrt (\<lambda>x y. fst x < fst y) (plan ns E p)" by (rule plan_sorted [OF G])
  fix r b q t w assume m: "(r, b, q, t, w) \<in> set (plan ns E p)"
  have arcs: "fst (E ! k) < N \<and> snd (E ! k) < N \<and> fst (E ! k) \<noteq> snd (E ! k)" if "k < length E" for k
    using flowD(3,4) [OF G that] N by simp
  have sinks: "j < N \<and> j \<noteq> 0" if "j < length ns" "is_sink ns j" for j
    using that flowD(1,2,6) [OF G] N by (metis less_le_trans)
  show "0 \<le> q" using m by (auto simp: plan_members)
  show "q < int N" using m arcs sinks \<open>0 < N\<close> by (auto simp: plan_members)
  show "q \<noteq> int p" using m arcs sinks by (fastforce simp: plan_members)
  show "(r, \<not> b, int p, t, w) \<in> set (plan ns E (nat q))" using m unfolding plan_members by auto
qed

lemma sum_filter:
  assumes "\<And>x. x \<in> set xs \<Longrightarrow> f x < (N :: nat)"
  shows "(\<Sum>p<N. length (filter (\<lambda>x. f x = p) xs)) = length xs"
  using assms
proof (induction xs)
  case (Cons x xs)
  have "(\<Sum>p<N. length (filter (\<lambda>y. f y = p) (x # xs))) = (\<Sum>p<N. (if f x = p then 1 else 0) + length (filter (\<lambda>y. f y = p) xs))"
    by (rule sum.cong) simp_all
  also have "\<dots> = 1 + length xs" using Cons by (simp add: sum.distrib)
  finally show ?case by simp
qed simp

definition sinks :: "string list \<Rightarrow> nat" where
  "sinks ns = length (filter (is_sink ns) [0..<length ns])"

lemma weight_map: "weight (List.map (\<lambda>x. (r x, (b, q x, t x, w))) xs) = (if w = None then 2 else 1) * length xs"
  by (induction xs) auto

lemma plan_size:
  assumes G: "flow ns E" and N: "length ns \<le> N"
  shows "(\<Sum>p<N. weight (plan ns E p)) = 2 * (2 * length E + sinks ns)"
proof -
  have "(\<Sum>p<N. length (ins_of E p)) = length [0..<length E]"
    unfolding ins_of_def by (rule sum_filter) (use flowD(3,4) [OF G] N in fastforce)
  moreover have "(\<Sum>p<N. length (outs_of E p)) = length [0..<length E]"
    unfolding outs_of_def by (rule sum_filter) (use flowD(3,4) [OF G] N in fastforce)
  moreover have "(\<Sum>p<N. weight (if p < length ns \<and> is_sink ns p then [(sum_rank ns E p, (True, 0, int (length E + p), Some 1))] else [])) = sinks ns"
  proof -
    have "{p. p < N \<and> p < length ns \<and> is_sink ns p} = {p. p < length ns \<and> is_sink ns p}" using N by auto
    moreover have "sinks ns = card {p. p < length ns \<and> is_sink ns p}"
      unfolding sinks_def length_filter_conv_card by (intro arg_cong [of _ _ card]) auto
    moreover have "(\<Sum>p<N. weight (if p < length ns \<and> is_sink ns p then [(sum_rank ns E p, (True, 0, int (length E + p), Some 1))] else [])) =
        (\<Sum>p<N. if p < length ns \<and> is_sink ns p then 1 else 0)" by (rule sum.cong) simp_all
    ultimately show ?thesis by (simp add: sum.If_cases Int_def)
  qed
  moreover have "(\<Sum>p<N. weight (if p = 0 then List.map (\<lambda>j. (sum_rank ns E j, (False, int j, int (length E + j), Some 1))) (filter (is_sink ns) [0..<length ns]) else [])) = sinks ns"
  proof -
    have "0 < N" using flowD(1) [OF G] N by linarith
    moreover have "(\<Sum>p<N. weight (if p = 0 then List.map (\<lambda>j. (sum_rank ns E j, (False, int j, int (length E + j), Some 1))) (filter (is_sink ns) [0..<length ns]) else [])) =
        (\<Sum>p<N. if p = 0 then sinks ns else 0)" by (rule sum.cong) (simp_all add: sinks_def weight_map)
    ultimately show ?thesis by simp
  qed
  ultimately show ?thesis
    unfolding plan_def weight_simps sum.distrib weight_map by (simp flip: sum_distrib_left)
qed

text \<open>The processes of a graph of the right shape.\<close>

lemma flow_run:
  assumes B: "\<And>p. p < N \<Longrightarrow> returns (build_graph arg (raw p) Z (h p)) (\<lambda>s. graph s ns E g)" and G: "flow ns E" and N: "length ns \<le> N"
    and arg: "take 2 arg \<in> {''BH'', ''WH'', ''SH''}"
    and run: "(exchange N ^^ k) (\<lambda>p. dt_main F Z eps (J p) (raw p) (h p) arg (int N) (int p)) \<sigma>"
  shows "k \<le> 2 * length E + sinks ns \<and> (\<forall>p<N. \<sigma> p \<noteq> Mismatch) \<and> (failed N \<sigma> \<or> ended N \<sigma> \<or> (\<exists>\<sigma>'. exchange N \<sigma> \<sigma>'))"
proof -
  have "follows N (plan ns E) (\<lambda>p. dt_main F Z eps (J p) (raw p) (h p) arg (int N) (int p))"
    unfolding follows_def plan_ops [OF G] by (intro allI impI acts_dt_main [OF B G N arg])
  then show ?thesis using ranked_run [OF plan_ranked [OF G N] _ run] plan_size [OF G N] by simp
qed

section \<open>The three graphs\<close>

lemma strstr_none: "c \<notin> set s \<Longrightarrow> \<not> strstr s (c # needle)"
  by (induction s) auto

lemma no_letter_S: "CHR ''S'' \<notin> set (show_nat n)"
proof (induction n rule: show_nat.induct)
  case (1 n)
  have d: "digit d \<noteq> CHR ''S''" if "d < 10" for d
  proof
    assume "digit d = CHR ''S''"
    then have "of_char (digit d) = (of_char CHR ''S'' :: nat)" by simp
    then show False using that by (simp add: digit_def)
  qed
  show ?case using 1 d [of n] d [of "n mod 10"] by (subst show_nat.simps) auto
qed

lemma no_S [simp]: "\<not> strstr (show_nat n) (CHR ''S'' # needle)"
  by (rule strstr_none [OF no_letter_S])

lemma name_kinds [simp]:
  "strstr (numbered ''Source.'' i) ''Source''" "\<not> strstr (numbered ''Source.'' i) ''Sink''"
  "strstr (numbered ''Sink.'' i) ''Sink''" "\<not> strstr (numbered ''Sink.'' i) ''Source''"
  "\<not> strstr (numbered ''Comparator.'' i) ''Source''" "\<not> strstr (numbered ''Comparator.'' i) ''Sink''"
  by (simp_all add: numbered_def)

lemma labels_nth [simp]: "i < n \<Longrightarrow> labels pre n ! i = numbered pre (int i)"
  by (simp add: labels_def)

lemma parents_bounds:
  "0 < m \<Longrightarrow> k < m + comparators m \<Longrightarrow> f + k < parents f m ! k \<and> f + m \<le> parents f m ! k \<and> parents f m ! k \<le> f + m + comparators m"
proof (induction f m arbitrary: k rule: parents.induct)
  case (1 f m)
  show ?case
  proof (cases "m \<le> 4")
    case True
    then show ?thesis using 1(3) by (simp add: parents.simps [of f m] comparators.simps [of m])
  next
    case False
    define m' where "m' = (m + 3) div 4"
    have m': "0 < m'" and c: "comparators m = m' + comparators m'" using False by (simp_all add: m'_def comparators.simps [of m])
    have p: "parents f m = layer_parents (f + m) m @ parents (f + m) m'" using False by (simp add: parents.simps [of f m] m'_def)
    show ?thesis
    proof (cases "k < m")
      case True
      then have "k div 4 < m'" unfolding m'_def by linarith
      then show ?thesis using True by (simp add: p c nth_append layer_parents_def)
    next
      case k: False
      then have "k - m < m' + comparators m'" using 1(3) c m' by linarith
      from 1(1) [OF False, folded m'_def, OF m' this] k show ?thesis by (simp add: p c nth_append layer_parents_def)
    qed
  qed
qed

lemma parents_onto:
  "0 < m \<Longrightarrow> f + m \<le> p \<Longrightarrow> p \<le> f + m + comparators m \<Longrightarrow> p \<in> set (parents f m)"
proof (induction f m rule: parents.induct)
  case (1 f m)
  show ?case
  proof (cases "m \<le> 4")
    case True
    then show ?thesis using 1(2-) by (simp add: parents.simps [of f m] comparators.simps [of m])
  next
    case False
    define m' where "m' = (m + 3) div 4"
    have m': "0 < m'" and c: "comparators m = m' + comparators m'" using False by (simp_all add: m'_def comparators.simps [of m])
    have p: "parents f m = layer_parents (f + m) m @ parents (f + m) m'" using False by (simp add: parents.simps [of f m] m'_def)
    show ?thesis
    proof (cases "p < f + m + m'")
      case True
      define j where "j = 4 * (p - f - m)"
      have "j < m" "p = f + m + j div 4" using True 1(3) unfolding j_def m'_def by auto
      then show ?thesis by (auto simp: p layer_parents_def)
    next
      case False
      then show ?thesis using 1(1) [folded m'_def, OF \<open>\<not> m \<le> 4\<close> m'] 1(4) by (simp add: p c)
    qed
  qed
qed

lemma stage_arcs:
  "(t, d) \<in> set (stage n j l) \<longleftrightarrow> (\<exists>m<l. d = Suc j * n + m \<and> (t = j * n + unset_bit j m \<or> t = j * n + set_bit j m))"
  by (induction l) (auto simp: stage_Suc less_Suc_eq, auto simp: stage_def)

lemma butterfly_arcs:
  "(t, d) \<in> set (butterfly n K) \<longleftrightarrow> (\<exists>j<K. \<exists>m<n. d = Suc j * n + m \<and> (t = j * n + unset_bit j m \<or> t = j * n + set_bit j m))"
  by (induction K) (auto simp: butterfly_Suc less_Suc_eq stage_arcs, auto simp: butterfly_def)

lemma unset_le_set: "unset_bit j (m :: nat) \<le> set_bit j m"
proof -
  have "unset_bit j (int m) \<le> set_bit j (int m)" by (rule order_trans [OF unset_bit_less_eq set_bit_greater_eq])
  then have "int (unset_bit j m) \<le> int (set_bit j m)" by (simp only: of_nat_unset_bit_eq of_nat_set_bit_eq)
  then show ?thesis by (simp only: of_nat_le_iff)
qed

lemma butterfly_order: "sorted_wrt (\<lambda>x y. snd x = snd y \<longrightarrow> fst x \<le> fst y) (butterfly n K)"
proof (induction K)
  case (Suc K)
  have "sorted_wrt (\<lambda>x y. snd x = snd y \<longrightarrow> fst x \<le> fst y) (stage n K m)" for m
  proof (induction m)
    case (Suc m)
    have "snd x < Suc K * n + m" if "x \<in> set (stage n K m)" for x using that by (auto simp: stage_def)
    then show ?case using Suc by (fastforce simp: stage_Suc sorted_wrt_append unset_le_set)
  qed (simp add: stage_def)
  moreover have "snd x < snd y" if xy: "x \<in> set (butterfly n K)" "y \<in> set (stage n K n)" for x y
  proof -
    obtain t d where x: "x = (t, d)" by (cases x)
    then obtain j m where "j < K" "m < n" "d = Suc j * n + m" using xy(1) unfolding x butterfly_arcs by blast
    then have "d < Suc (Suc j) * n" "Suc (Suc j) * n \<le> Suc K * n" by (simp_all only: mult_le_mono1 Suc_leI Suc_le_mono, simp)
    then show ?thesis using x xy(2) by (cases y) (auto simp: stage_arcs)
  qed
  ultimately show ?case using Suc by (fastforce simp: butterfly_Suc sorted_wrt_append)
qed (simp add: butterfly_def)

lemma ins_of_empty: "ins_of E i = [] \<longleftrightarrow> i \<notin> snd ` set E"
proof -
  have "ins_of E i = [] \<longleftrightarrow> (\<forall>k<length E. snd (E ! k) \<noteq> i)" by (auto simp: ins_of_def filter_empty_conv)
  then show ?thesis by (fastforce simp: in_set_conv_nth)
qed

lemma outs_of_empty: "outs_of E i = [] \<longleftrightarrow> i \<notin> fst ` set E"
proof -
  have "outs_of E i = [] \<longleftrightarrow> (\<forall>k<length E. fst (E ! k) \<noteq> i)" by (auto simp: outs_of_def filter_empty_conv)
  then show ?thesis by (fastforce simp: in_set_conv_nth)
qed

lemma flowI:
  assumes "ns \<noteq> []" "is_source ns 0" "\<And>t d. (t, d) \<in> set E \<Longrightarrow> t < d \<and> d < length ns"
    "sorted_wrt (\<lambda>x y. snd x = snd y \<longrightarrow> fst x \<le> fst y) E"
    "\<And>i. i < length ns \<Longrightarrow> is_source ns i \<Longrightarrow> \<not> is_sink ns i \<and> i \<notin> snd ` set E"
    "\<And>i. i < length ns \<Longrightarrow> is_sink ns i \<Longrightarrow> i \<notin> fst ` set E"
    "\<And>i. i < length ns \<Longrightarrow> \<not> is_source ns i \<Longrightarrow> i \<in> snd ` set E"
  shows "flow ns E"
  using assms unfolding flow_def ins_of_empty outs_of_empty sorted_wrt_iff_nth_less by blast

lemma zip_numbers: "length xs = l \<Longrightarrow> (k, p) \<in> set (zip [0..<l] xs) \<longleftrightarrow> k < l \<and> p = xs ! k"
  by (auto simp: set_zip intro!: exI [of _ k])

lemma BH_flow:
  assumes n: "0 < n"
  shows "flow (BH_names n) (BH_arcs n)"
proof -
  define c where "c = comparators n"
  have len: "length (BH_names n) = Suc (n + c)" by (simp add: BH_names_def c_def)
  have kinds: "is_source (BH_names n) i \<longleftrightarrow> i < n" "is_sink (BH_names n) i \<longleftrightarrow> i = n + c" if "i < Suc (n + c)" for i
  proof -
    have "BH_names n ! i = (if i < n then numbered ''Source.'' (int i) else if i < n + c then numbered ''Comparator.'' (int (i - n)) else ''Sink'')"
      using that by (auto simp: BH_names_def nth_append c_def)
    then show "is_source (BH_names n) i \<longleftrightarrow> i < n" "is_sink (BH_names n) i \<longleftrightarrow> i = n + c"
      using that by (auto simp: is_source_def is_sink_def)
  qed
  have lp: "length (parents 0 n) = n + c" using parents_length [OF n] by (simp add: c_def)
  have arc: "(t, d) \<in> set (BH_arcs n) \<longleftrightarrow> t < n + c \<and> d = parents 0 n ! t" for t d
    using zip_numbers [OF lp] by (auto simp: BH_arcs_def c_def)
  have b: "t < parents 0 n ! t" "n \<le> parents 0 n ! t" "parents 0 n ! t \<le> n + c" if "t < n + c" for t
    using parents_bounds [OF n, of t 0] that by (simp_all add: c_def)
  have onto: "i \<in> snd ` set (BH_arcs n)" if "n \<le> i" "i \<le> n + c" for i
  proof -
    have "i \<in> set (parents 0 n)" using parents_onto [OF n, of 0 i] that by (simp add: c_def)
    then obtain t where "t < n + c" "parents 0 n ! t = i" by (auto simp: in_set_conv_nth lp)
    then show ?thesis using arc by force
  qed
  show ?thesis
  proof (rule flowI)
    show "sorted_wrt (\<lambda>x y. snd x = snd y \<longrightarrow> fst x \<le> fst y) (BH_arcs n)"
      unfolding sorted_wrt_iff_nth_less by (auto simp: BH_arcs_def)
  next
    fix t d assume "(t, d) \<in> set (BH_arcs n)"
    then have "t < n + c" "d = parents 0 n ! t" by (simp_all add: arc)
    then show "t < d \<and> d < length (BH_names n)" using b [of t] by (simp add: len)
  next
    fix i assume i: "i < length (BH_names n)" "is_source (BH_names n) i"
    then have "i < n" using kinds(1) len by simp
    moreover have "n \<le> d" if "(t, d) \<in> set (BH_arcs n)" for t d using that b(2) [of t] by (simp add: arc)
    ultimately show "\<not> is_sink (BH_names n) i \<and> i \<notin> snd ` set (BH_arcs n)" using kinds(2) [of i] by fastforce
  next
    fix i assume "i < length (BH_names n)" "is_sink (BH_names n) i"
    then show "i \<notin> fst ` set (BH_arcs n)" using kinds(2) [of i] by (auto simp: arc len)
  next
    fix i assume "i < length (BH_names n)" "\<not> is_source (BH_names n) i"
    then show "i \<in> snd ` set (BH_arcs n)" using kinds(1) [of i] onto [of i] by (simp add: len)
  qed (use kinds(1) [of 0] n len in auto)
qed

lemma WH_flow:
  assumes n: "0 < n"
  shows "flow (WH_names n) (WH_arcs n)"
proof -
  define c where "c = comparators n"
  have len: "length (WH_names n) = Suc (n + c)" by (simp add: WH_names_def c_def)
  have kinds: "is_source (WH_names n) i \<longleftrightarrow> i = 0" "is_sink (WH_names n) i \<longleftrightarrow> c < i" if "i < Suc (n + c)" for i
  proof -
    have "WH_names n ! i = (labels ''Sink.'' n @ labels ''Comparator.'' c @ [''Source'']) ! (n + c - i)"
      using that unfolding WH_names_def c_def by (subst rev_nth) simp_all
    also have "\<dots> = (if i = 0 then ''Source'' else if c < i then numbered ''Sink.'' (int (n + c - i)) else numbered ''Comparator.'' (int (c - i)))"
      using that by (auto simp: nth_append)
    finally show "is_source (WH_names n) i \<longleftrightarrow> i = 0" "is_sink (WH_names n) i \<longleftrightarrow> c < i"
      using that by (auto simp: is_source_def is_sink_def)
  qed
  have lp: "length (parents 0 n) = n + c" using parents_length [OF n] by (simp add: c_def)
  have arc: "(t, d) \<in> set (WH_arcs n) \<longleftrightarrow> (\<exists>k<n + c. t = n + c - parents 0 n ! k \<and> d = n + c - k)" for t d
    using zip_numbers [OF lp] by (force simp: WH_arcs_def c_def)
  have b: "k < parents 0 n ! k" "n \<le> parents 0 n ! k" "parents 0 n ! k \<le> n + c" if "k < n + c" for k
    using parents_bounds [OF n, of k 0] that by (simp_all add: c_def)
  have onto: "i \<in> snd ` set (WH_arcs n)" if "0 < i" "i \<le> n + c" for i
  proof -
    have "n + c - i < n + c" "n + c - (n + c - i) = i" using that by auto
    then have "(n + c - parents 0 n ! (n + c - i), i) \<in> set (WH_arcs n)" unfolding arc by metis
    then show ?thesis by force
  qed
  show ?thesis
  proof (rule flowI)
    fix t d assume "(t, d) \<in> set (WH_arcs n)"
    then obtain k where k: "k < n + c" "t = n + c - parents 0 n ! k" "d = n + c - k" by (auto simp: arc)
    then show "t < d \<and> d < length (WH_names n)" using b [OF k(1)] k(1) unfolding len k(2,3) by linarith
  next
    show "sorted_wrt (\<lambda>x y. snd x = snd y \<longrightarrow> fst x \<le> fst y) (WH_arcs n)"
      unfolding sorted_wrt_iff_nth_less using lp by (auto simp: WH_arcs_def c_def)
  next
    fix i assume "i < length (WH_names n)" "is_sink (WH_names n) i"
    then have i: "c < i" "i \<le> n + c" using kinds(2) [of i] by (simp_all add: len)
    show "i \<notin> fst ` set (WH_arcs n)"
    proof
      assume "i \<in> fst ` set (WH_arcs n)"
      then obtain k where k: "k < n + c" "i = n + c - parents 0 n ! k" by (auto simp: arc)
      then show False using b [OF k(1)] i by simp
    qed
  qed (use kinds n onto in \<open>auto simp: len arc\<close>, use len in auto)
qed

lemma SH_flow:
  assumes n: "n = 2 ^ Suc k"
  shows "flow (labels ''Source.'' n @ layer_names n k @ labels ''Sink.'' n) (butterfly n (Suc k))"
proof -
  define ns where "ns = labels ''Source.'' n @ layer_names n k @ labels ''Sink.'' n"
  have n0: "0 < n" using n by simp
  have len: "length ns = Suc (Suc k) * n" by (simp add: ns_def)
  have comp: "\<exists>j. layer_names n k ! m = numbered ''Comparator.'' j" if "m < k * n" for m
  proof -
    have "layer_names n k ! m \<in> set (layer_names n k)" using that by (intro nth_mem) simp
    then show ?thesis by (auto simp: layer_names_def comparator_names_def)
  qed
  have kinds: "is_source ns i \<longleftrightarrow> i < n" "is_sink ns i \<longleftrightarrow> Suc k * n \<le> i" if i: "i < Suc (Suc k) * n" for i
  proof -
    consider "i < n" | "n \<le> i" "i < Suc k * n" | "Suc k * n \<le> i" by linarith
    then have "(is_source ns i \<longleftrightarrow> i < n) \<and> (is_sink ns i \<longleftrightarrow> Suc k * n \<le> i)"
    proof cases
      case 1
      then show ?thesis by (simp add: ns_def is_source_def is_sink_def nth_append)
    next
      case 2
      then have "i - n < k * n" by simp
      then obtain j where "layer_names n k ! (i - n) = numbered ''Comparator.'' j" using comp by blast
      then show ?thesis using 2 by (simp add: ns_def is_source_def is_sink_def nth_append)
    next
      case 3
      then have "\<not> i < n" "\<not> i - n < k * n" "i - n - k * n < n" using i by simp_all
      then have "ns ! i = numbered ''Sink.'' (int (i - n - k * n))" by (simp add: ns_def nth_append)
      then show ?thesis using 3 by (simp add: is_source_def is_sink_def)
    qed
    then show "is_source ns i \<longleftrightarrow> i < n" "is_sink ns i \<longleftrightarrow> Suc k * n \<le> i" by simp_all
  qed
  have "flow ns (butterfly n (Suc k))"
  proof (rule flowI)
    fix t d assume "(t, d) \<in> set (butterfly n (Suc k))"
    then obtain j m where jm: "j < Suc k" "m < n" "d = Suc j * n + m" "t = j * n + unset_bit j m \<or> t = j * n + set_bit j m"
      unfolding butterfly_arcs by blast
    have "unset_bit j m < n" "set_bit j m < n" using unset_bit_bound [of m "Suc k" j] set_bit_bound [of m "Suc k" j] jm(1,2) unfolding n [symmetric] by simp_all
    then have "t < Suc j * n" using jm(4) by auto
    moreover have "Suc j * n + n \<le> length ns" using mult_le_mono1 [of "Suc (Suc j)" "Suc (Suc k)" n] jm(1) by (simp add: len)
    ultimately show "t < d \<and> d < length ns" using jm(2,3) by linarith
  next
    fix i assume i: "i < length ns" "is_sink ns i"
    show "i \<notin> fst ` set (butterfly n (Suc k))"
    proof
      assume "i \<in> fst ` set (butterfly n (Suc k))"
      then obtain d where "(i, d) \<in> set (butterfly n (Suc k))" by auto
      then obtain j m where jm: "j < Suc k" "m < n" "i = j * n + unset_bit j m \<or> i = j * n + set_bit j m"
        unfolding butterfly_arcs by blast
      have "unset_bit j m < n" "set_bit j m < n" using unset_bit_bound [of m "Suc k" j] set_bit_bound [of m "Suc k" j] jm(1,2) unfolding n [symmetric] by simp_all
      then have "i < Suc j * n" using jm(3) by auto
      also have "\<dots> \<le> Suc k * n" using jm(1) by (intro mult_le_mono1) simp
      finally show False using kinds(2) i len by simp
    qed
  next
    fix i assume i: "i < length ns" "\<not> is_source ns i"
    define j where "j = i div n - 1"
    have "n \<le> i" using kinds(1) i len by simp
    then have "1 \<le> i div n" using n0 div_le_mono [of n i n] by simp
    moreover have "i div n < Suc (Suc k)" using i(1) unfolding len by (rule less_mult_imp_div_less)
    ultimately have j: "j < Suc k" "i = Suc j * n + i mod n" by (auto simp: j_def)
    have "(j * n + unset_bit j (i mod n), i) \<in> set (butterfly n (Suc k))"
      unfolding butterfly_arcs using j n0 mod_less_divisor [OF n0, of i] by blast
    then show "i \<in> snd ` set (butterfly n (Suc k))" by force
  next
    fix i assume i: "i < length ns" "is_source ns i"
    then have "i < n" using kinds(1) len by simp
    moreover have "n \<le> d" if "(t, d) \<in> set (butterfly n (Suc k))" for t d using that unfolding butterfly_arcs by auto
    ultimately show "\<not> is_sink ns i \<and> i \<notin> snd ` set (butterfly n (Suc k))" using kinds(2) [of i] i(1) len by fastforce
  qed (use kinds(1) [of 0] n0 len butterfly_order in auto)
  then show ?thesis by (simp add: ns_def)
qed

text \<open>The names and the arcs of the graph that a process builds for the command line \<open>arg\<close>; for the shuffle the number of
  sources is a power of two, \<open>2^(k+1)\<close>.\<close>

definition dt_names :: "string \<Rightarrow> nat \<Rightarrow> nat \<Rightarrow> string list" where
  "dt_names arg n k = (if take 2 arg = ''BH'' then BH_names n else if take 2 arg = ''WH'' then WH_names n
     else labels ''Source.'' n @ layer_names n k @ labels ''Sink.'' n)"

definition dt_arcs :: "string \<Rightarrow> nat \<Rightarrow> nat \<Rightarrow> (nat \<times> nat) list" where
  "dt_arcs arg n k = (if take 2 arg = ''BH'' then BH_arcs n else if take 2 arg = ''WH'' then WH_arcs n else butterfly n (Suc k))"

lemma dt_graph_built:
  assumes "take 2 arg \<in> {''BH'', ''WH'', ''SH''}" "0 < n" "n \<le> 2 ^ 29" "take 2 arg = ''SH'' \<Longrightarrow> n = 2 ^ Suc k \<and> k \<le> 21" "NUM_SOURCES Z = int n"
  shows "returns (build_graph arg raw Z h) (\<lambda>s. graph s (dt_names arg n k) (dt_arcs arg n k) (''DT_'' @ take 2 arg @ [CHR ''.'', CLASS Z]))"
    and "flow (dt_names arg n k) (dt_arcs arg n k)"
  using BH_built [OF assms(2,3), of raw "CLASS Z" h] WH_built [OF assms(2,3), of raw "CLASS Z" h] SH_built [of n k raw "CLASS Z" h]
    BH_flow [OF assms(2)] WH_flow [OF assms(2)] SH_flow [of n k] assms(1,4,5)
  by (auto simp: build_graph_def dt_names_def dt_arcs_def elim!: returns_mono)

text \<open>C12: with the smallest guarantee the standard gives for \<open>MPI_Send\<close>, a send that waits for its receiver, no
  execution of the benchmark deadlocks and no receive gets a message of the wrong kind or length, whatever the order in which
  the messages pass and whatever the values are: at most two messages for every arc and one for every sink pass, and as long as
  no process has run into undefined behaviour another message can pass or every process has returned.  (The products of type \<open>int\<close>
  in \<open>GetFeatureNum\<close> overflow; with the field \<open>int_ovf\<close> of \<open>F\<close> the theorem holds for a machine where this fails and for one
  that goes on with a value.)\<close>

theorem dt_no_deadlock:
  assumes "take 2 arg \<in> {''BH'', ''WH'', ''SH''}" "0 < n" "n \<le> 2 ^ 29" "take 2 arg = ''SH'' \<Longrightarrow> n = 2 ^ Suc k \<and> k \<le> 21" "NUM_SOURCES Z = int n"
    "length (dt_names arg n k) \<le> N"
    "(exchange N ^^ steps) (\<lambda>p. dt_main F Z eps (J p) (raw p) (h p) arg (int N) (int p)) \<sigma>"
  shows "steps \<le> 2 * length (dt_arcs arg n k) + sinks (dt_names arg n k) \<and> (\<forall>p<N. \<sigma> p \<noteq> Mismatch) \<and>
    (failed N \<sigma> \<or> ended N \<sigma> \<or> (\<exists>\<sigma>'. exchange N \<sigma> \<sigma>'))"
  by (rule flow_run [OF dt_graph_built(1) dt_graph_built(2)]) (use assms in simp_all)

section \<open>A run of the black hole\<close>

text \<open>The messages between the pairs of processes of a schedule, each a sender and a receiver, in this order.\<close>

fun pass :: "(nat \<times> nat) list \<Rightarrow> nat \<Rightarrow> (nat \<Rightarrow> ('d, 'a) io) \<Rightarrow> (nat \<Rightarrow> ('d, 'a) io) option" where
  "pass [] N \<sigma> = Some \<sigma>"
| "pass ((p, q) # xs) N \<sigma> = (case (\<sigma> p, \<sigma> q) of
     (Send q' t m k, Recv p' t' f) \<Rightarrow>
       if p < N \<and> q < N \<and> p \<noteq> q \<and> q' = int q \<and> p' = int p \<and> t = t' then pass xs N (\<sigma>(p := k, q := f m)) else None
   | _ \<Rightarrow> None)"

lemma pass_run: "pass xs N \<sigma> = Some \<sigma>' \<Longrightarrow> (exchange N ^^ length xs) \<sigma> \<sigma>'"
proof (induction xs arbitrary: \<sigma>)
  case (Cons x xs)
  obtain p q where x: "x = (p, q)" by (cases x)
  obtain t m k f where io: "\<sigma> p = Send (int q) t m k" "\<sigma> q = Recv (int p) t f" "p < N" "q < N" "p \<noteq> q"
    and rest: "pass xs N (\<sigma>(p := k, q := f m)) = Some \<sigma>'"
    using Cons.prems by (auto simp: x split: io.splits if_splits)
  have "(exchange N ^^ length xs) (\<sigma>(p := k, q := f m)) \<sigma>'" by (rule Cons.IH [OF rest])
  with exchange.intros [OF io(3-5,1,2)] show ?case unfolding list.size add_0_right add_Suc_right by (rule relpowp_Suc_I2)
qed simp

text \<open>A black hole with two sources and short streams, on a machine with exact arithmetic on doubles and products of type
  \<open>int\<close> that wrap around.\<close>

definition two_sources :: "nat \<Rightarrow> (rat, int option) io" where
  "two_sources p = dt_main (ieee id\<lparr>int_ovf := Some \<circ> to_i32\<rparr>) \<lparr>NUM_SOURCES = 2, NUM_SAMPLES = 2, STD_DEVIATION = 1, CLASS = CHR ''S''\<rparr> (1 / 100)
     (\<lambda>n. replicate (nat n) 0) raw_graph empty_heap ''BH'' 3 (int p)"

definition returned :: "('d, 'a) io \<Rightarrow> bool" where
  "returned p = (case p of Ret _ \<Rightarrow> True | _ \<Rightarrow> False)"

theorem dt_no_deadlock_witness:
  "\<exists>\<sigma>. (exchange 3 ^^ 5) two_sources \<sigma> \<and> ended 3 \<sigma> \<and> 5 \<le> 2 * length (dt_arcs ''BH'' 2 0) + sinks (dt_names ''BH'' 2 0) \<and>
    \<sigma> 0 \<noteq> Mismatch"
proof -
  have "(case pass [(0, 2), (0, 2), (1, 2), (1, 2), (2, 0)] 3 two_sources of None \<Rightarrow> False | Some \<sigma> \<Rightarrow> list_all (\<lambda>p. returned (\<sigma> p)) [0, 1, 2])"
    by code_simp
  then obtain \<sigma> where \<sigma>: "pass [(0, 2), (0, 2), (1, 2), (1, 2), (2, 0)] 3 two_sources = Some \<sigma>" "list_all (\<lambda>p. returned (\<sigma> p)) [0, 1, 2]"
    by (auto split: option.splits)
  have "length [(0, 2), (0, 2), (1, 2), (1, 2), (2 :: nat, 0 :: nat)] = 5" by simp
  then have run: "(exchange 3 ^^ 5) two_sources \<sigma>" using pass_run [OF \<sigma>(1)] by metis
  have "p < 3 \<longleftrightarrow> p = 0 \<or> p = 1 \<or> p = (2 :: nat)" for p by auto
  then have "ended 3 \<sigma>" using \<sigma>(2) by (auto simp: ended_def returned_def split: io.splits)
  then show ?thesis
    using run dt_no_deadlock [of "''BH''" 2 0 "\<lparr>NUM_SOURCES = 2, NUM_SAMPLES = 2, STD_DEVIATION = 1, CLASS = CHR ''S''\<rparr>" 3 5
      "ieee id\<lparr>int_ovf := Some \<circ> to_i32\<rparr>" "1 / 100" "\<lambda>_ n. replicate (nat n) 0" "\<lambda>_. raw_graph" "\<lambda>_. empty_heap" \<sigma>]
    by (auto simp: two_sources_def [abs_def] dt_names_def BH_names_def comparators.simps)
qed

end
