(* ===== verification/Dt_Numbers.thy ===== *)
theory Dt_Numbers
  imports Dt_Streams
begin

text \<open>
  The power modulo a number that makes the data of the streams of \<open>dt.c\<close>.
\<close>

section \<open>Powers\<close>

lemma product_fits:
  assumes "0 \<le> x" "x \<le> 46340" "0 \<le> y" "y \<le> (46340 :: int)"
  shows "int_prod ovf x y = Some (x * y)"
proof -
  have "x * y \<le> 46340 * 46340" using assms by (intro mult_mono) simp_all
  then have "i32 (x * y) = Some (x * y)" using assms by (intro i32_in) (auto intro: order_trans [of _ 0])
  then show ?thesis by (simp add: int_prod_def)
qed

text \<open>C39: \<open>ipowMod\<close> is the power modulo \<open>md\<close>, with no overflow on the way, for an exponent from 1 below \<open>2^31\<close>, a base from 0 and
  a positive modulus that are at most 46340, the largest number with a square that fits into an \<open>int\<close>; the bases, moduli and
  positive exponents in \<open>RandomFeatures\<close> are in these bounds.  (For the exponent 0 the code returns 1 whatever the modulus,
  and from \<open>2^32\<close> on half of the exponent does not fit into the variable that holds it.)\<close>

theorem ipowMod_power:
  assumes "0 \<le> a" "a \<le> 46340" "0 < md" "md \<le> 46340" "1 \<le> n" "n < 2 ^ 31"
  shows "ipowMod ovf a n md = Some (a ^ nat n mod md)"
proof -
  define I where "I = (\<lambda>(q :: int, r :: int, k :: int). 0 \<le> q \<and> q \<le> 46340 \<and> 0 \<le> r \<and> r \<le> 46340 \<and> 1 \<le> k \<and> k \<le> n \<and>
    (r * q ^ nat k) mod md = a ^ nat n mod md)"
  have "returns (c_while (\<lambda>(q, r, k). Some (k > 1)) (ipow_step ovf md) (a, 1, n))
    (\<lambda>s. I s \<and> (\<lambda>(q, r, k). Some (k > 1)) s = Some False)"
  proof (rule returns_while [where f = "\<lambda>(q, r, k). nat k"])
    fix s assume s: "I s" "(case s of (q :: int, r :: int, k :: int) \<Rightarrow> Some (k > 1)) = Some True"
    obtain q r k where sq: "s = (q, r, k)" by (cases s)
    have b: "0 \<le> q" "q \<le> 46340" "0 \<le> r" "r \<le> 46340" "1 < k" "k \<le> n" and p: "(r * q ^ nat k) mod md = a ^ nat n mod md"
      using s by (auto simp: I_def sq)
    have small: "x mod md \<le> 46340" "0 \<le> x mod md" for x
      using pos_mod_bound [OF assms(3), of x] pos_mod_sign [OF assms(3), of x] assms(4) by linarith+
    have n2: "to_i32 (c_quot k 2) = k div 2" using b(5,6) assms(6) by (simp add: to_i32_in)
    have m: "int_prod ovf (k div 2) 2 = Some (k div 2 * 2)" using b(5,6) assms(6) by (simp add: int_prod_def)
    show "returns (ipow_step ovf md s) (\<lambda>s'. I s' \<and> (case s' of (q, r, k) \<Rightarrow> nat k) < (case s of (q, r, k) \<Rightarrow> nat k))"
    proof (cases "even k")
      case True
      then have k2: "k div 2 * 2 = k" "1 \<le> k div 2" "nat k = 2 * nat (k div 2)" using b(5) by auto
      have "r * (q * q mod md) ^ nat (k div 2) mod md = r * (q * q) ^ nat (k div 2) mod md"
        by (metis mod_mult_right_eq power_mod)
      also have "\<dots> = a ^ nat n mod md" using p by (simp add: k2(3) power_mult power2_eq_square)
      finally have "r * (q * q mod md) ^ nat (k div 2) mod md = a ^ nat n mod md" .
      then show ?thesis
        using b small k2 assms(3) m n2 by (simp add: ipow_step_def sq I_def product_fits)
    next
      case False
      then have k2: "k div 2 * 2 \<noteq> k" "nat k = Suc (nat (k - 1))" using b(5) by (auto elim!: oddE)
      have "r * q mod md * q ^ nat (k - 1) mod md = a ^ nat n mod md"
        using p by (simp add: k2(2) mod_mult_left_eq mult.assoc)
      then show ?thesis
        using b small k2 assms(3) m n2 by (simp add: ipow_step_def sq I_def product_fits)
    qed
  qed (use assms in \<open>auto simp: I_def\<close>)
  then obtain q r k where w: "c_while (\<lambda>(q, r, k). Some (k > 1)) (ipow_step ovf md) (a, 1, n) = Some (q, r, k)" "I (q, r, k)" "\<not> k > 1"
    by (auto elim!: returnsE)
  then have k: "k = 1" by (simp add: I_def)
  then show ?thesis using w assms by (simp add: ipowMod_def I_def product_fits)
qed

theorem ipowMod_power_witness: "ipowMod (\<lambda>_. None) 5 3141591 3527 = Some (5 ^ nat 3141591 mod 3527)"
  by (rule ipowMod_power) simp_all

section \<open>The numbers of samples\<close>

text \<open>In ISO C the squares in \<open>ipowMod\<close> overflow for the sources 1, 2 and 3 of the class S; source 0 has the exponent 1 and
  squares nothing.\<close>

lemma feature_num_overflows:
  "List.map (GetFeatureNum (ieee id) \<lparr>NUM_SOURCES = 4, NUM_SAMPLES = 1728, STD_DEVIATION = 128, CLASS = CHR ''S''\<rparr>) [0, 1, 2, 3] =
    [Some 1794, None, None, None]"
  by code_simp

text \<open>On a machine that wraps around.\<close>

lemma feature_num_wraps:
  "List.map (GetFeatureNum (ieee id\<lparr>int_ovf := Some \<circ> to_i32\<rparr>) \<lparr>NUM_SOURCES = 4, NUM_SAMPLES = 1728, STD_DEVIATION = 128, CLASS = CHR ''S''\<rparr>)
    [0, 1, 2, 3] = [Some 1794, Some 1821, Some 1760, Some 1728]"
  by code_simp

end
