(* ===== verification/Rbt.thy ===== *)
theory Rbt
  imports C_Prelude "HOL-Library.List_Lexorder"
begin

text \<open>
  The red-black trees of the benchmark DC, \<open>DC/rbt.c\<close>: a view of the data cube is built by inserting its rows; a row
  with a key that is already there adds its measures to those of the node.  Nodes are cut from a pool of bytes,
  and are addressed by their offset in it; the way down is kept in the arrays \<open>nodes\<close> and \<open>drcts\<close>, of 64 entries, whose
  first entry is the node \<open>root\<close> inside the tree structure.  A row is the pair of its measures and its attributes, which in
  the code follow each other in one array; a copy of a row of another size than the tree expects is undefined.
\<close>

section \<open>Data\<close>

type_synonym row = "int list \<times> 32 word list"

datatype colour = BLACK | RED

record treeNode =
  left :: "nat option"
  right :: "nat option"
  clr :: colour
  nodeMemPool :: row

definition MAX_TREE_HEIGHT :: nat where
  "MAX_TREE_HEIGHT = 64"

text \<open>A pointer to the node inside the structure, or to a node of the pool.\<close>

datatype node_ref = Root | Pool nat

record RBTree =
  root :: treeNode
  mp :: "nat option"
  count :: "32 word"
  treeNodeSize :: "32 word"
  nodeDataSize :: "32 word"
  memoryLimit :: "32 word"
  memaddr :: "32 word"
  memoryIsFull :: "32 word"
  freeNodeCounter :: "32 word"
  nNodesLimit :: "32 word"
  nd :: "32 word"
  nm :: "32 word"
  drcts :: "32 word list"
  nodes :: "node_ref list"
  memPool :: "nat \<Rightarrow> treeNode option"
  raw_node :: "nat \<Rightarrow> treeNode"

text \<open>\<open>raw_node\<close> is what the bytes of the pool hold when a node is cut from it.\<close>

definition get_nd :: "node_ref \<Rightarrow> RBTree \<Rightarrow> treeNode option" where
  "get_nd r T = (case r of Root \<Rightarrow> Some (root T) | Pool a \<Rightarrow> memPool T a)"

definition put_nd :: "node_ref \<Rightarrow> treeNode \<Rightarrow> RBTree \<Rightarrow> RBTree option" where
  "put_nd r x T = (case r of Root \<Rightarrow> Some (T\<lparr>root := x\<rparr>)
     | Pool a \<Rightarrow> (case memPool T a of None \<Rightarrow> None | Some _ \<Rightarrow> Some (T\<lparr>memPool := (memPool T)(a \<mapsto> x)\<rparr>)))"

text \<open>A pointer that must not be null.\<close>

definition to_pool :: "nat option \<Rightarrow> node_ref option" where
  "to_pool p = map_option Pool p"

section \<open>Creating trees\<close>

definition DIM_FSZ :: "32 word" where
  "DIM_FSZ = 4"

definition MSR_FSZ :: "32 word" where
  "MSR_FSZ = 8"

text \<open>The size of a \<open>struct treeNode\<close>: two pointers, the colour and one measure.\<close>

definition sizeof_treeNode :: "32 word" where
  "sizeof_treeNode = 32"

definition tree_node_size :: "32 word \<Rightarrow> 32 word \<Rightarrow> 32 word" where
  "tree_node_size d m = (let s = sizeof_treeNode + DIM_FSZ * (d - 1) + MSR_FSZ * m in if s mod 8 \<noteq> 0 then s + 4 else s)"

definition InitializeTree :: "RBTree \<Rightarrow> 32 word \<Rightarrow> 32 word \<Rightarrow> RBTree option" where
  "InitializeTree T d m =
     (let s = tree_node_size d m in
      if s = 0 then None
      else Some (T\<lparr>root := (root T)\<lparr>left := None, right := None\<rparr>, count := 0, memaddr := 0, treeNodeSize := s,
        memoryIsFull := 0, nodeDataSize := DIM_FSZ * d + MSR_FSZ * m, mp := None, nNodesLimit := memoryLimit T div s,
        freeNodeCounter := memoryLimit T div s, nd := d, nm := m, memPool := \<lambda>_. None\<rparr>))"

text \<open>\<open>raw\<close> is the block \<open>malloc\<close> returns, with arrays of unknown content.\<close>

definition CreateEmptyTree :: "RBTree \<Rightarrow> 32 word \<Rightarrow> 32 word \<Rightarrow> 32 word \<Rightarrow> RBTree option" where
  "CreateEmptyTree raw d m limit =
     (let s = tree_node_size d m in
      if s = 0 \<or> length (nodes raw) \<noteq> MAX_TREE_HEIGHT \<or> length (drcts raw) \<noteq> MAX_TREE_HEIGHT then None
      else Some (raw\<lparr>root := (root raw)\<lparr>left := None, right := None\<rparr>, count := 0, memaddr := 0, treeNodeSize := s,
        memoryLimit := limit, memoryIsFull := 0, nodeDataSize := DIM_FSZ * d + MSR_FSZ * m, mp := None,
        nNodesLimit := limit div s, freeNodeCounter := limit div s, nd := d, nm := m, memPool := \<lambda>_. None\<rparr>))"

section \<open>Insertion\<close>

function KeyComp_from :: "32 word list \<Rightarrow> 32 word list \<Rightarrow> int \<Rightarrow> int \<Rightarrow> int option" where
  "KeyComp_from a b n i =
     (if i < n then do {
        x \<leftarrow> aget a i; y \<leftarrow> aget b i;
        if x < y then Some (-1) else if x > y then Some 1 else KeyComp_from a b n (i + 1) }
      else Some 0)"
  by auto
termination by (relation "measure (\<lambda>(a, b, n, i). nat (n - i))") auto

declare KeyComp_from.simps [simp del]

definition KeyComp :: "32 word list \<Rightarrow> 32 word list \<Rightarrow> 32 word \<Rightarrow> int option" where
  "KeyComp a b n = KeyComp_from a b (uint n) 0"

text \<open>The macro \<open>NEW_TREE_NODE\<close>: the next bytes of the pool become the node \<open>mp\<close>.\<close>

definition NEW_TREE_NODE :: "RBTree \<Rightarrow> RBTree option" where
  "NEW_TREE_NODE T =
     (let a = unat (memaddr T) in
      if a + unat (treeNodeSize T) > unat (memoryLimit T) then None
      else Some (T\<lparr>mp := Some a, memPool := (memPool T)(a \<mapsto> raw_node T a), memaddr := memaddr T + treeNodeSize T,
        freeNodeCounter := freeNodeCounter T - 1,
        memoryIsFull := (if freeNodeCounter T - 1 = 0 then 1 else memoryIsFull T)\<rparr>))"

definition row_fits :: "RBTree \<Rightarrow> row \<Rightarrow> bool" where
  "row_fits T a \<longleftrightarrow> length (fst a) = unat (nm T) \<and> length (snd a) = unat (nd T)"

text \<open>The step down to a child, noted in the arrays.\<close>

definition note_step :: "nat \<Rightarrow> int \<Rightarrow> 32 word \<Rightarrow> RBTree \<Rightarrow> RBTree option" where
  "note_step x sl d T = do {
     ns \<leftarrow> aset (nodes T) sl (Pool x);
     ds \<leftarrow> aset (drcts T) sl d;
     Some (T\<lparr>nodes := ns, drcts := ds\<rparr>) }"

definition add_measures :: "nat \<Rightarrow> row \<Rightarrow> RBTree \<Rightarrow> RBTree option" where
  "add_measures x a T = do {
     n \<leftarrow> memPool T x;
     ms \<leftarrow> for_range 0 (uint (nm T)) (\<lambda>i ms. do {
       u \<leftarrow> aget ms i; v \<leftarrow> aget (fst a) i; s \<leftarrow> i64 (u + v); aset ms i s }) (fst (nodeMemPool n));
     put_nd (Pool x) (n\<lparr>nodeMemPool := (ms, snd (nodeMemPool n))\<rparr>) T }"

text \<open>The first loop: either the measures are added, or a new node hangs under the last node of the way.\<close>

partial_function (option) find_place :: "RBTree \<Rightarrow> row \<Rightarrow> nat \<Rightarrow> int \<Rightarrow> (RBTree \<times> (nat \<times> int) option) option" where
  "find_place T a x sl = do {
     n \<leftarrow> memPool T x;
     cmpres \<leftarrow> KeyComp (snd a) (snd (nodeMemPool n)) (nd T);
     if cmpres < 0 then do {
       T \<leftarrow> note_step x sl 0 T;
       case left n of
         None \<Rightarrow> do {
           T \<leftarrow> NEW_TREE_NODE T;
           p \<leftarrow> mp T;
           T \<leftarrow> put_nd (Pool x) (n\<lparr>left := Some p\<rparr>) T;
           Some (T, Some (p, sl + 1)) }
       | Some y \<Rightarrow> find_place T a y (sl + 1) }
     else if cmpres > 0 then do {
       T \<leftarrow> note_step x sl 1 T;
       case right n of
         None \<Rightarrow> do {
           T \<leftarrow> NEW_TREE_NODE T;
           p \<leftarrow> mp T;
           T \<leftarrow> put_nd (Pool x) (n\<lparr>right := Some p\<rparr>) T;
           Some (T, Some (p, sl + 1)) }
       | Some y \<Rightarrow> find_place T a y (sl + 1) }
     else do {
       T \<leftarrow> add_measures x a T;
       Some (T, None) } }"

text \<open>The colour of a node that may be null.\<close>

definition is_red :: "nat option \<Rightarrow> RBTree \<Rightarrow> bool option" where
  "is_red p T = (case p of None \<Rightarrow> Some False | Some a \<Rightarrow> do { n \<leftarrow> memPool T a; Some (clr n = RED) })"

definition set_clr :: "node_ref \<Rightarrow> colour \<Rightarrow> RBTree \<Rightarrow> RBTree option" where
  "set_clr r c T = do { n \<leftarrow> get_nd r T; put_nd r (n\<lparr>clr := c\<rparr>) T }"

definition set_left :: "node_ref \<Rightarrow> nat option \<Rightarrow> RBTree \<Rightarrow> RBTree option" where
  "set_left r p T = do { n \<leftarrow> get_nd r T; put_nd r (n\<lparr>left := p\<rparr>) T }"

definition set_right :: "node_ref \<Rightarrow> nat option \<Rightarrow> RBTree \<Rightarrow> RBTree option" where
  "set_right r p T = do { n \<leftarrow> get_nd r T; put_nd r (n\<lparr>right := p\<rparr>) T }"

definition get_left :: "node_ref \<Rightarrow> RBTree \<Rightarrow> nat option option" where
  "get_left r T = do { n \<leftarrow> get_nd r T; Some (left n) }"

definition get_right :: "node_ref \<Rightarrow> RBTree \<Rightarrow> nat option option" where
  "get_right r T = do { n \<leftarrow> get_nd r T; Some (right n) }"

text \<open>The address in a reference to a node of the pool; the node \<open>root\<close> of the structure is never moved.\<close>

definition pool_addr :: "node_ref \<Rightarrow> nat option" where
  "pool_addr r = (case r of Root \<Rightarrow> None | Pool a \<Rightarrow> Some a)"

text \<open>The case where the parent is the left child of the grandparent \<open>gp\<close> and the uncle is not red; \<open>gg\<close> is above the
  grandparent, and \<open>dgg\<close> and \<open>d\<close> are the directions taken from \<open>gg\<close> and from the parent.\<close>

definition rotate_left_side :: "node_ref \<Rightarrow> node_ref \<Rightarrow> node_ref \<Rightarrow> 32 word \<Rightarrow> 32 word \<Rightarrow> RBTree \<Rightarrow> RBTree option" where
  "rotate_left_side gg gp par dgg d T = do {
     (y, T) \<leftarrow> (if d = 1 then do {
         y \<leftarrow> get_right par T; y \<leftarrow> y;
         l \<leftarrow> get_left (Pool y) T;
         T \<leftarrow> set_right par l T;
         x \<leftarrow> pool_addr par;
         T \<leftarrow> set_left (Pool y) (Some x) T;
         T \<leftarrow> set_left gp (Some y) T;
         Some (y, T) }
       else do { y \<leftarrow> pool_addr par; Some (y, T) });
     T \<leftarrow> set_clr gp RED T;
     T \<leftarrow> set_clr (Pool y) BLACK T;
     r \<leftarrow> get_right (Pool y) T;
     T \<leftarrow> set_left gp r T;
     x \<leftarrow> pool_addr gp;
     T \<leftarrow> set_right (Pool y) (Some x) T;
     if dgg \<noteq> 0 then set_right gg (Some y) T else set_left gg (Some y) T }"

definition rotate_right_side :: "node_ref \<Rightarrow> node_ref \<Rightarrow> node_ref \<Rightarrow> 32 word \<Rightarrow> 32 word \<Rightarrow> RBTree \<Rightarrow> RBTree option" where
  "rotate_right_side gg gp par dgg d T = do {
     (y, T) \<leftarrow> (if d = 0 then do {
         y \<leftarrow> get_left par T; y \<leftarrow> y;
         r \<leftarrow> get_right (Pool y) T;
         T \<leftarrow> set_left par r T;
         x \<leftarrow> pool_addr par;
         T \<leftarrow> set_right (Pool y) (Some x) T;
         T \<leftarrow> set_right gp (Some y) T;
         Some (y, T) }
       else do { y \<leftarrow> pool_addr par; Some (y, T) });
     T \<leftarrow> set_clr gp RED T;
     T \<leftarrow> set_clr (Pool y) BLACK T;
     l \<leftarrow> get_left (Pool y) T;
     T \<leftarrow> set_right gp l T;
     x \<leftarrow> pool_addr gp;
     T \<leftarrow> set_left (Pool y) (Some x) T;
     if dgg \<noteq> 0 then set_right gg (Some y) T else set_left gg (Some y) T }"

text \<open>The second loop; the new node is the child of the node \<open>sl - 1\<close> of the way.\<close>

partial_function (option) rebalance :: "RBTree \<Rightarrow> int \<Rightarrow> RBTree option" where
  "rebalance T sl = do {
     par \<leftarrow> aget (nodes T) (sl - 1);
     pn \<leftarrow> get_nd par T;
     if clr pn \<noteq> RED \<or> sl < 3 then Some T
     else do {
       d \<leftarrow> aget (drcts T) (sl - 2);
       gp \<leftarrow> aget (nodes T) (sl - 2);
       uncle \<leftarrow> (if d = 0 then get_right gp T else get_left gp T);
       red \<leftarrow> is_red uncle T;
       if red then do {
         T \<leftarrow> set_clr par BLACK T;
         u \<leftarrow> uncle;
         T \<leftarrow> set_clr (Pool u) BLACK T;
         T \<leftarrow> set_clr gp RED T;
         rebalance T (sl - 2) }
       else do {
         dp \<leftarrow> aget (drcts T) (sl - 1);
         dgg \<leftarrow> aget (drcts T) (sl - 3);
         gg \<leftarrow> aget (nodes T) (sl - 3);
         if d = 0 then rotate_left_side gg gp par dgg dp T else rotate_right_side gg gp par dgg dp T } } }"

definition TreeInsert :: "RBTree \<Rightarrow> row \<Rightarrow> (int \<times> RBTree) option" where
  "TreeInsert T a =
     (if \<not> row_fits T a then None
      else case left (root T) of
        None \<Rightarrow> do {
          T \<leftarrow> NEW_TREE_NODE (T\<lparr>count := count T + 1\<rparr>);
          p \<leftarrow> mp T;
          let T = T\<lparr>root := (root T)\<lparr>left := Some p\<rparr>\<rparr>;
          T \<leftarrow> put_nd (Pool p) \<lparr>left = None, right = None, clr = BLACK, nodeMemPool = a\<rparr> T;
          Some (0, T) }
      | Some x \<Rightarrow> do {
          ds \<leftarrow> aset (drcts T) 0 0;
          ns \<leftarrow> aset (nodes T) 0 Root;
          (T, r) \<leftarrow> find_place (T\<lparr>drcts := ds, nodes := ns\<rparr>) a x 1;
          case r of
            None \<Rightarrow> Some (0, T)
          | Some (p, sl) \<Rightarrow> do {
              T \<leftarrow> put_nd (Pool p) \<lparr>left = None, right = None, clr = RED, nodeMemPool = a\<rparr> (T\<lparr>count := count T + 1\<rparr>);
              T \<leftarrow> rebalance T sl;
              x \<leftarrow> left (root T);
              T \<leftarrow> set_clr (Pool x) BLACK T;
              Some (0, T) } })"

end
