(* ===== verification/Dc_View.thy ===== *)
theory Dc_View
  imports Rbt
begin

text \<open>
  The views of the data cube, \<open>DC/extbuild.c\<close> and the writing functions of \<open>DC/rbt.c\<close>, with the structure
  \<open>ADC_VIEW_CNTL\<close> of \<open>DC/adc.h\<close> that all of them share.  A view is made by inserting the selected attributes of every
  row into a tree; when the memory of the tree is full, the tree is written to the file of chunks as a sorted run, and
  the runs are merged at the end.

  A file of rows maps the byte where a row begins to the row; a read at another place or of another size than the row
  that was written is not defined here, nor is one beyond the attributes of a row.  Writing fails when the file would
  grow beyond what the disk holds.  The pool of the tree and the buffer of the merge are one block of memory: the
  merge destroys the nodes of the tree.
\<close>

section \<open>Files of rows\<close>

record row_file =
  recs :: "nat \<Rightarrow> row option"
  fpos :: nat
  flen :: nat
  froom :: nat

definition row_bytes :: "row \<Rightarrow> nat" where
  "row_bytes a = 8 * length (fst a) + 4 * length (snd a)"

definition seek_set :: "nat \<Rightarrow> row_file \<Rightarrow> row_file" where
  "seek_set p f = f\<lparr>fpos := p\<rparr>"

definition seek_end :: "row_file \<Rightarrow> row_file" where
  "seek_end f = f\<lparr>fpos := flen f\<rparr>"

text \<open>One row is written at the position; rows that it overwrites in part are gone.\<close>

definition write_rec :: "row \<Rightarrow> row_file \<Rightarrow> row_file" where
  "write_rec a f = f\<lparr>recs := (\<lambda>x. if x = fpos f then Some a
       else if fpos f < x \<and> x < fpos f + row_bytes a then None
       else (case recs f x of None \<Rightarrow> None | Some b \<Rightarrow> if x < fpos f \<and> fpos f < x + row_bytes b then None else Some b)),
     fpos := fpos f + row_bytes a, flen := max (flen f) (fpos f + row_bytes a)\<rparr>"

text \<open>The macro \<open>WriteToFile\<close>: the result is false when it makes its function return \<open>ADC_WRITE_FAILED\<close>.  The streams are
  modelled without their buffers: a row that does not fit on the disk is reported by the \<open>fwrite\<close> that writes it, where a buffered
  stream may report it at a later write or seek, or when it is closed, and the code does not look at those results.  No theorem says
  what happens on a full disk: those on the views assume that the disk has room for what is written.\<close>

definition WriteToFile :: "row \<Rightarrow> 32 word \<Rightarrow> row_file \<Rightarrow> (bool \<times> row_file) option" where
  "WriteToFile a s f =
     (if row_bytes a \<noteq> unat s then None
      else if fpos f + row_bytes a \<le> froom f then Some (True, write_rec a f) else Some (False, f))"

text \<open>\<open>fread\<close> of one row; at the end of the file the buffer keeps its old content.\<close>

definition fread_row :: "32 word \<Rightarrow> row option \<Rightarrow> row_file \<Rightarrow> (row option \<times> row_file) option" where
  "fread_row s old f =
     (if flen f \<le> fpos f then Some (old, f)
      else case recs f (fpos f) of None \<Rightarrow> None
        | Some a \<Rightarrow> if row_bytes a = unat s then Some (Some a, f\<lparr>fpos := fpos f + unat s\<rparr>) else None)"

section \<open>Data\<close>

definition ADC_OK :: int where "ADC_OK = 0"
definition ADC_WRITE_FAILED :: int where "ADC_WRITE_FAILED = 1"
definition ADC_INTERNAL_ERROR :: int where "ADC_INTERNAL_ERROR = 2"

definition MAX_NUM_OF_CHUNKS :: "32 word" where "MAX_NUM_OF_CHUNKS = 1024"

definition measbound :: int where "measbound = 31415"

record JOB_POOL =
  jp_grpb :: "32 word"
  jp_nv :: "32 word"
  jp_nRows :: "32 word"
  jp_viewOffset :: int

record LAYER =
  layerIndex :: "32 word"
  layerQuantityLimit :: "32 word"
  layerCurrentPopulation :: "32 word"

record CHUNKS =
  curChunkNum :: "32 word"
  chunkOffset :: int
  posSubChunk :: "32 word"
  curSubChunk :: "32 word"

text \<open>Names of files, the log and counters that nothing reads are left out; the file of the group-bys holds words, the
  file of the view sizes pairs of words, and \<open>adcViewSizesFile\<close> is a text, of which the code reads one word after the
  other.  Fields whose names the tree has too end in \<open>v\<close>.\<close>

record ADC_VIEW_CNTL =
  nTopDims :: "32 word"
  nmv :: "32 word"
  ndv :: "32 word"
  nv :: "32 word"
  nInputRecs :: "32 word"
  nViewRows :: "32 word"
  totalOfViewRows :: "32 word"
  nParentViewRows :: "32 word"
  viewOffset :: int
  accViewFileOffset :: int
  inpRecSize :: "32 word"
  outRecSize :: "32 word"
  memoryLimitv :: "32 word"
  inpDataBuffer :: "nat \<Rightarrow> row option"
  tree :: RBTree
  numberOfChunks :: "32 word"
  chunksParams :: "CHUNKS list"
  inpf :: row_file
  viewFile :: row_file
  fileOfChunks :: row_file
  groupbyFile :: "64 word list"
  adcViewSizesFile :: "string list"
  viewSizesFile :: "(32 word \<times> 32 word) list"
  mSums :: "int list"
  selection :: "32 word list"
  checksums :: "int list"
  totchs :: "int list"
  jpp :: "JOB_POOL list"
  lpp :: "LAYER list"
  nViewLimit :: "32 word"
  groupby :: "32 word"
  smallestParentLevel :: "32 word"
  parBinRepTuple :: "32 word"
  nRowsToRead :: "32 word"
  fromParent :: "32 word"
  totalViewFileSize :: "64 word"
  numberOfMadeViews :: "32 word"
  numberOfViewsMadeFromInput :: "32 word"
  nTasksv :: "32 word"
  taskNumber :: "32 word"
  verificationFailed :: "32 word"

definition GetRecSize :: "32 word \<Rightarrow> 32 word \<Rightarrow> 32 word" where
  "GetRecSize d m = DIM_FSZ * d + MSR_FSZ * m"

section \<open>Writing a tree\<close>

text \<open>The checksum of \<open>rbt.c\<close> is computed on unsigned integers; the one of \<open>extbuild.c\<close> on signed ones.\<close>

definition checksum_u :: "64 word \<Rightarrow> int \<Rightarrow> int \<Rightarrow> int" where
  "checksum_u n v c = to_i64 (c + uint ((n * word_of_int v) mod word_of_int measbound))"

definition checksum_s :: "32 word \<Rightarrow> int \<Rightarrow> int \<Rightarrow> int option" where
  "checksum_s n v c = do { p \<leftarrow> i64 (uint n * v); i64 (c + c_rem p measbound) }"

definition add_mSums :: "32 word \<Rightarrow> int list \<Rightarrow> int list \<Rightarrow> int list option" where
  "add_mSums n vs ms = for_range 0 (uint n) (\<lambda>i ms. do {
     m \<leftarrow> aget ms i; v \<leftarrow> aget vs i; s \<leftarrow> i64 (m + v); aset ms i s }) ms"

definition add_checksums_u :: "32 word \<Rightarrow> int list \<Rightarrow> int list \<times> 64 word \<Rightarrow> (int list \<times> 64 word) option" where
  "add_checksums_u n vs s = for_range 0 (uint n) (\<lambda>i (cs, ordern). do {
     c \<leftarrow> aget cs i; v \<leftarrow> aget vs i; cs \<leftarrow> aset cs i (checksum_u (ordern + 1) v c); Some (cs, ordern + 1) }) s"

partial_function (option) WriteViewToDisk :: "ADC_VIEW_CNTL \<Rightarrow> nat option \<Rightarrow> (int \<times> ADC_VIEW_CNTL) option" where
  "WriteViewToDisk avp t = (case t of
     None \<Rightarrow> Some (ADC_OK, avp)
   | Some x \<Rightarrow> do {
       n \<leftarrow> memPool (tree avp) x;
       (r, avp) \<leftarrow> WriteViewToDisk avp (left n);
       if r \<noteq> 0 then Some (ADC_WRITE_FAILED, avp)
       else do {
         ms \<leftarrow> add_mSums (nmv avp) (fst (nodeMemPool n)) (mSums avp);
         (w, f) \<leftarrow> WriteToFile (nodeMemPool n) (outRecSize avp) (viewFile avp);
         let avp = avp\<lparr>mSums := ms, viewFile := f\<rparr>;
         if \<not> w then Some (ADC_WRITE_FAILED, avp)
         else do {
           (r, avp) \<leftarrow> WriteViewToDisk avp (right n);
           if r \<noteq> 0 then Some (ADC_WRITE_FAILED, avp) else Some (ADC_OK, avp) } } })"

partial_function (option) WriteViewToDiskCS :: "ADC_VIEW_CNTL \<Rightarrow> nat option \<Rightarrow> 64 word \<Rightarrow> (int \<times> ADC_VIEW_CNTL \<times> 64 word) option" where
  "WriteViewToDiskCS avp t ordern = (case t of
     None \<Rightarrow> Some (ADC_OK, avp, ordern)
   | Some x \<Rightarrow> do {
       n \<leftarrow> memPool (tree avp) x;
       (r, avp, ordern) \<leftarrow> WriteViewToDiskCS avp (left n) ordern;
       if r \<noteq> 0 then Some (ADC_WRITE_FAILED, avp, ordern)
       else do {
         ms \<leftarrow> add_mSums (nmv avp) (fst (nodeMemPool n)) (mSums avp);
         (cs, ordern) \<leftarrow> add_checksums_u (nmv avp) (fst (nodeMemPool n)) (checksums avp, ordern);
         (w, f) \<leftarrow> WriteToFile (nodeMemPool n) (outRecSize avp) (viewFile avp);
         let avp = avp\<lparr>mSums := ms, checksums := cs, viewFile := f\<rparr>;
         if \<not> w then Some (ADC_WRITE_FAILED, avp, ordern)
         else do {
           (r, avp, ordern) \<leftarrow> WriteViewToDiskCS avp (right n) ordern;
           if r \<noteq> 0 then Some (ADC_WRITE_FAILED, avp, ordern) else Some (ADC_OK, avp, ordern) } } })"

partial_function (option) computeChecksum :: "ADC_VIEW_CNTL \<Rightarrow> nat option \<Rightarrow> 64 word \<Rightarrow> (int \<times> ADC_VIEW_CNTL \<times> 64 word) option" where
  "computeChecksum avp t ordern = (case t of
     None \<Rightarrow> Some (ADC_OK, avp, ordern)
   | Some x \<Rightarrow> do {
       n \<leftarrow> memPool (tree avp) x;
       (r, avp, ordern) \<leftarrow> computeChecksum avp (left n) ordern;
       if r \<noteq> 0 then Some (ADC_WRITE_FAILED, avp, ordern)
       else do {
         (cs, ordern) \<leftarrow> add_checksums_u (nmv avp) (fst (nodeMemPool n)) (checksums avp, ordern);
         (r, avp, ordern) \<leftarrow> computeChecksum (avp\<lparr>checksums := cs\<rparr>) (right n) ordern;
         if r \<noteq> 0 then Some (ADC_WRITE_FAILED, avp, ordern) else Some (ADC_OK, avp, ordern) } })"

partial_function (option) WriteChunkToDisk :: "RBTree \<Rightarrow> 32 word \<Rightarrow> row_file \<Rightarrow> nat option \<Rightarrow> (int \<times> row_file) option" where
  "WriteChunkToDisk T s f t =
     (if t = None then Some (ADC_OK, f)
      else do {
        x \<leftarrow> t;
        n \<leftarrow> memPool T x;
        (r, f) \<leftarrow> WriteChunkToDisk T s f (left n);
        if r \<noteq> 0 then Some (ADC_WRITE_FAILED, f)
        else do {
          (w, f) \<leftarrow> WriteToFile (nodeMemPool n) s f;
          if \<not> w then Some (ADC_WRITE_FAILED, f)
          else do {
            (r, f) \<leftarrow> WriteChunkToDisk T s f (right n);
            if r \<noteq> 0 then Some (ADC_WRITE_FAILED, f) else Some (ADC_OK, f) } } })"

section \<open>The rows of a view\<close>

definition SelectToView :: "row \<Rightarrow> 32 word list \<Rightarrow> 32 word \<Rightarrow> 32 word \<Rightarrow> 32 word \<Rightarrow> row option" where
  "SelectToView ib ix d m n = do {
     c_assert (length (fst ib) = unat m \<and> length (snd ib) = unat d);
     ks \<leftarrow> for_range 0 (uint n) (\<lambda>i ks. do { x \<leftarrow> aget ix i; v \<leftarrow> aget (snd ib) (uint x - 1); Some (ks @ [v]) }) [];
     Some (fst ib, ks) }"

text \<open>The rows are read from the input or from the file of the views, where the parent is.\<close>

datatype FILE_ref = INPF | VIEWFILE

definition get_file :: "FILE_ref \<Rightarrow> ADC_VIEW_CNTL \<Rightarrow> row_file" where
  "get_file r avp = (case r of INPF \<Rightarrow> inpf avp | VIEWFILE \<Rightarrow> viewFile avp)"

definition put_file :: "FILE_ref \<Rightarrow> row_file \<Rightarrow> ADC_VIEW_CNTL \<Rightarrow> ADC_VIEW_CNTL" where
  "put_file r f avp = (case r of INPF \<Rightarrow> avp\<lparr>inpf := f\<rparr> | VIEWFILE \<Rightarrow> avp\<lparr>viewFile := f\<rparr>)"

section \<open>Runs\<close>

definition note_chunk :: "int \<Rightarrow> ADC_VIEW_CNTL \<Rightarrow> ADC_VIEW_CNTL option" where
  "note_chunk off avp = do {
     c \<leftarrow> aget (chunksParams avp) (uint (numberOfChunks avp));
     cs \<leftarrow> aset (chunksParams avp) (uint (numberOfChunks avp)) (c\<lparr>curChunkNum := count (tree avp), chunkOffset := off\<rparr>);
     Some (avp\<lparr>chunksParams := cs, numberOfChunks := numberOfChunks avp + 1\<rparr>) }"

definition write_chunk :: "ADC_VIEW_CNTL \<Rightarrow> (int \<times> ADC_VIEW_CNTL) option" where
  "write_chunk avp = do {
     (r, f) \<leftarrow> WriteChunkToDisk (tree avp) (outRecSize avp) (fileOfChunks avp) (left (root (tree avp)));
     Some (r, avp\<lparr>fileOfChunks := f\<rparr>) }"

partial_function (option) formation_loop :: "FILE_ref \<Rightarrow> 32 word \<Rightarrow> row option \<Rightarrow> int \<Rightarrow> ADC_VIEW_CNTL \<Rightarrow> (int \<times> int \<times> ADC_VIEW_CNTL) option" where
  "formation_loop fr iRec attrs off avp =
     (if iRec \<le> nRowsToRead avp then do {
        (attrs, f) \<leftarrow> fread_row (inpRecSize avp) attrs (get_file fr avp);
        let avp = put_file fr f avp;
        a \<leftarrow> attrs;
        viewBuf \<leftarrow> SelectToView a (selection avp) (ndv avp) (nmv avp) (nv avp);
        (r, T) \<leftarrow> TreeInsert (tree avp) viewBuf;
        let avp = avp\<lparr>tree := T\<rparr>;
        if memoryIsFull T \<noteq> 0 then do {
          avp \<leftarrow> note_chunk off avp;
          if numberOfChunks avp \<ge> MAX_NUM_OF_CHUNKS then Some (ADC_INTERNAL_ERROR, off, avp)
          else do {
            let off = to_i64 (off + uint (count T * outRecSize avp));
            (r, avp) \<leftarrow> write_chunk avp;
            if r \<noteq> 0 then Some (ADC_WRITE_FAILED, off, avp)
            else do {
              T \<leftarrow> InitializeTree (tree avp) (nv avp) (nmv avp);
              formation_loop fr (iRec + 1) attrs off (avp\<lparr>tree := T\<rparr>) } } }
        else formation_loop fr (iRec + 1) attrs off avp }
      else Some (ADC_OK, off, avp))"

definition RunFormation :: "ADC_VIEW_CNTL \<Rightarrow> FILE_ref \<Rightarrow> (int \<times> ADC_VIEW_CNTL) option" where
  "RunFormation avp fr = do {
     T \<leftarrow> InitializeTree (tree avp) (nv avp) (nmv avp);
     (r, off, avp) \<leftarrow> formation_loop fr 1 None 0 (avp\<lparr>tree := T\<rparr>);
     if r \<noteq> ADC_OK then Some (r, avp)
     else do {
       (r, avp) \<leftarrow> (if numberOfChunks avp \<noteq> 0 \<and> count (tree avp) \<noteq> 0 then do {
           avp \<leftarrow> note_chunk off avp;
           write_chunk avp }
         else Some (ADC_OK, avp));
       if r \<noteq> 0 then Some (ADC_WRITE_FAILED, avp)
       else Some (ADC_OK, avp\<lparr>viewFile := seek_end (viewFile avp)\<rparr>) } }"

section \<open>Merging the runs\<close>

text \<open>The buffer maps the index of a word to the row that begins there; \<open>lim\<close> is the number of its bytes.\<close>

type_synonym row_buffer = "nat \<Rightarrow> row option"

definition put_row :: "32 word \<Rightarrow> 32 word \<Rightarrow> nat \<Rightarrow> row \<Rightarrow> row_buffer \<Rightarrow> row_buffer option" where
  "put_row lim s k a buf = (if 4 * k + unat s \<le> unat lim then Some (buf(k \<mapsto> a)) else None)"

primrec read_rows :: "32 word \<Rightarrow> 32 word \<Rightarrow> nat \<Rightarrow> nat \<Rightarrow> row_buffer \<Rightarrow> row_file \<Rightarrow> (row_buffer \<times> row_file) option" where
  "read_rows lim s 0 k buf f = Some (buf, f)"
| "read_rows lim s (Suc n) k buf f = do {
     (a, f) \<leftarrow> fread_row s None f;
     a \<leftarrow> a;
     buf \<leftarrow> put_row lim s k a buf;
     read_rows lim s n (k + unat (s div 4)) buf f }"

definition SeekAndReadNextSubChunk :: "32 word \<Rightarrow> row_buffer \<Rightarrow> 32 word \<Rightarrow> row_file \<Rightarrow> 32 word \<Rightarrow> int \<Rightarrow> 32 word \<Rightarrow> (row_buffer \<times> row_file) option" where
  "SeekAndReadNextSubChunk lim buf k f s off n =
     (if off < 0 then None else read_rows lim s (unat n) (unat k) buf (seek_set (nat off) f))"

definition ReadSubChunk :: "32 word \<Rightarrow> 32 word \<Rightarrow> row_buffer \<Rightarrow> 32 word \<Rightarrow> 32 word \<Rightarrow> 32 word \<Rightarrow> CHUNKS list \<Rightarrow> row_file \<Rightarrow>
    (row_buffer \<times> CHUNKS list \<times> row_file) option" where
  "ReadSubChunk lim s buf mw iChunk reg chunks f = do {
     c \<leftarrow> aget chunks (uint iChunk);
     if curChunkNum c > 0 then
       if curChunkNum c < reg then do {
         (buf, f) \<leftarrow> SeekAndReadNextSubChunk lim buf ((iChunk * reg + (reg - curChunkNum c)) * mw) f s (chunkOffset c) (curChunkNum c);
         chunks \<leftarrow> aset chunks (uint iChunk)
           (c\<lparr>posSubChunk := reg - curChunkNum c, curSubChunk := curChunkNum c, curChunkNum := 0, chunkOffset := -1\<rparr>);
         Some (buf, chunks, f) }
       else do {
         (buf, f) \<leftarrow> SeekAndReadNextSubChunk lim buf (iChunk * reg * mw) f s (chunkOffset c) reg;
         off \<leftarrow> i64 (chunkOffset c + uint (reg * s));
         chunks \<leftarrow> aset chunks (uint iChunk)
           (c\<lparr>posSubChunk := 0, curSubChunk := reg, curChunkNum := curChunkNum c - reg, chunkOffset := off\<rparr>);
         Some (buf, chunks, f) }
     else Some (buf, chunks, f) }"

text \<open>The row at the position of a chunk in the buffer.\<close>

definition head_row :: "row_buffer \<Rightarrow> 32 word \<Rightarrow> 32 word \<Rightarrow> CHUNKS list \<Rightarrow> int \<Rightarrow> row option" where
  "head_row buf mw reg chunks i = do {
     c \<leftarrow> aget chunks i;
     buf (unat (mw * (word_of_int i * reg + posSubChunk c))) }"

definition first_chunk :: "row_buffer \<Rightarrow> 32 word \<Rightarrow> 32 word \<Rightarrow> CHUNKS list \<Rightarrow> 32 word \<Rightarrow> (row \<times> int) option \<Rightarrow> (row \<times> int) option option" where
  "first_chunk buf mw reg chunks n old = do {
     (m, _) \<leftarrow> for_range 0 (uint n) (\<lambda>i (m, found). if found then Some (m, found) else do {
         c \<leftarrow> aget chunks i;
         if curSubChunk c > 0 then do { a \<leftarrow> head_row buf mw reg chunks i; Some (Some (a, i), True) }
         else Some (m, found) }) (old, False);
     Some m }"

definition min_chunk :: "row_buffer \<Rightarrow> 32 word \<Rightarrow> 32 word \<Rightarrow> CHUNKS list \<Rightarrow> 32 word \<Rightarrow> 32 word \<Rightarrow> row \<times> int \<Rightarrow> (row \<times> int) option" where
  "min_chunk buf mw reg chunks n vn m = for_range (snd m) (uint n) (\<lambda>i m. do {
     c \<leftarrow> aget chunks i;
     if curSubChunk c > 0 then do {
       a \<leftarrow> head_row buf mw reg chunks i;
       r \<leftarrow> KeyComp (snd a) (snd (fst m)) vn;
       Some (if r < 0 then (a, i) else m) }
     else Some m }) m"

text \<open>The row in the output buffer is complete: it is written, and counted in the sums.\<close>

definition put_out :: "row \<Rightarrow> ADC_VIEW_CNTL \<Rightarrow> (bool \<times> ADC_VIEW_CNTL) option" where
  "put_out a avp = do {
     (w, f) \<leftarrow> WriteToFile a (outRecSize avp) (viewFile avp);
     let avp = avp\<lparr>viewFile := f\<rparr>;
     if \<not> w then Some (False, avp)
     else do {
       let avp = avp\<lparr>nViewRows := nViewRows avp + 1\<rparr>;
       (ms, cs) \<leftarrow> for_range 0 (uint (nmv avp)) (\<lambda>i (ms, cs). do {
         v \<leftarrow> aget (fst a) i;
         x \<leftarrow> aget ms i; x \<leftarrow> i64 (x + v); ms \<leftarrow> aset ms i x;
         c \<leftarrow> aget cs i; c \<leftarrow> checksum_s (nViewRows avp) v c; cs \<leftarrow> aset cs i c;
         Some (ms, cs) }) (mSums avp, checksums avp);
       Some (True, avp\<lparr>mSums := ms, checksums := cs\<rparr>) } }"

definition aggregate_row :: "row \<Rightarrow> row option \<Rightarrow> ADC_VIEW_CNTL \<Rightarrow> (bool \<times> row \<times> ADC_VIEW_CNTL) option" where
  "aggregate_row a out avp = (case out of
     None \<Rightarrow> Some (True, a, avp)
   | Some b \<Rightarrow> do {
       r \<leftarrow> KeyComp (snd b) (snd a) (nv avp);
       if r = 0 then do {
         ms \<leftarrow> add_mSums (nmv avp) (fst a) (fst b);
         Some (True, (ms, snd b), avp) }
       else do {
         (w, avp) \<leftarrow> put_out b avp;
         Some (w, a, avp) } })"

definition count_empty :: "32 word \<Rightarrow> CHUNKS list \<Rightarrow> (32 word \<times> 32 word) option" where
  "count_empty n chunks = for_range 0 (uint n) (\<lambda>i (bufs, runs). do {
     c \<leftarrow> aget chunks i;
     Some (if curSubChunk c = 0 then bufs + 1 else bufs, if curChunkNum c = 0 then runs + 1 else runs) }) (0, 0)"

text \<open>One round of the loop; the result tells whether the loop goes on, ends or fails.\<close>

datatype merge_next = Go_on | Done | Failed

type_synonym merge_state = "ADC_VIEW_CNTL \<times> row_buffer \<times> (row \<times> int) option \<times> row option"

definition merge_round :: "32 word \<Rightarrow> 32 word \<Rightarrow> merge_state \<Rightarrow> (merge_next \<times> merge_state) option" where
  "merge_round mw reg s = (case s of (avp, buf, old, out) \<Rightarrow> do {
     m \<leftarrow> first_chunk buf mw reg (chunksParams avp) (numberOfChunks avp) old;
     m \<leftarrow> m;
     m \<leftarrow> min_chunk buf mw reg (chunksParams avp) (numberOfChunks avp) (nv avp) m;
     let (a, i) = m;
     c \<leftarrow> aget (chunksParams avp) i;
     chunks \<leftarrow> (if curSubChunk c \<noteq> 0
       then aset (chunksParams avp) i (c\<lparr>curSubChunk := curSubChunk c - 1, posSubChunk := posSubChunk c + 1\<rparr>)
       else Some (chunksParams avp));
     (w, out, avp) \<leftarrow> aggregate_row a out (avp\<lparr>chunksParams := chunks\<rparr>);
     if \<not> w then Some (Failed, avp, buf, Some m, Some out)
     else do {
       (bufs, runs) \<leftarrow> count_empty (numberOfChunks avp) (chunksParams avp);
       if bufs = numberOfChunks avp \<and> runs = numberOfChunks avp then Some (Done, avp, buf, Some m, Some out)
       else do {
         c \<leftarrow> aget (chunksParams avp) i;
         if curSubChunk c = 0 then do {
           (buf, chunks, f) \<leftarrow> ReadSubChunk (memoryLimitv avp) (outRecSize avp) buf mw (word_of_int i) reg (chunksParams avp) (fileOfChunks avp);
           Some (Go_on, avp\<lparr>chunksParams := chunks, fileOfChunks := f\<rparr>, buf, Some m, Some out) }
         else Some (Go_on, avp, buf, Some m, Some out) } } })"

partial_function (option) merge_loop :: "32 word \<Rightarrow> 32 word \<Rightarrow> merge_state \<Rightarrow> (bool \<times> merge_state) option" where
  "merge_loop mw reg s = do {
     (r, s) \<leftarrow> merge_round mw reg s;
     case r of Go_on \<Rightarrow> merge_loop mw reg s | Done \<Rightarrow> Some (True, s) | Failed \<Rightarrow> Some (False, s) }"

definition MultiWayMerge :: "ADC_VIEW_CNTL \<Rightarrow> (int \<times> ADC_VIEW_CNTL) option" where
  "MultiWayMerge avp = do {
     let avp = avp\<lparr>fileOfChunks := seek_set 0 (fileOfChunks avp), nViewRows := 0, tree := (tree avp)\<lparr>memPool := \<lambda>_. None\<rparr>\<rparr>;
     let mw = outRecSize avp div 4;
     c_assert (numberOfChunks avp \<noteq> 0 \<and> outRecSize avp \<noteq> 0);
     let reg = (memoryLimitv avp div numberOfChunks avp) div outRecSize avp;
     if reg = 0 then Some (ADC_INTERNAL_ERROR, avp)
     else do {
       (buf, chunks, f) \<leftarrow> for_range 0 (uint (numberOfChunks avp)) (\<lambda>i (buf, chunks, f).
           ReadSubChunk (memoryLimitv avp) (outRecSize avp) buf mw (word_of_int i) reg chunks f)
         (\<lambda>_. None, chunksParams avp, fileOfChunks avp);
       (ok, avp, buf, m, out) \<leftarrow> merge_loop mw reg (avp\<lparr>chunksParams := chunks, fileOfChunks := f\<rparr>, buf, None, None);
       if \<not> ok then Some (ADC_WRITE_FAILED, avp)
       else do {
         out \<leftarrow> out;
         (w, avp) \<leftarrow> put_out out avp;
         if \<not> w then Some (ADC_WRITE_FAILED, avp)
         else Some (ADC_OK, avp\<lparr>totalOfViewRows := totalOfViewRows avp + nViewRows avp\<rparr>) } } }"

end
