(* ===== verification/Rbt_Ok.thy ===== *)
theory Rbt_Ok
  imports Rbt
begin

text \<open>
  The trees of \<open>DC/rbt.c\<close> are correct: a tree of the heap is described by a value of the type \<open>rbt\<close>, the way of an insertion
  by a list of frames, and the loops by functions on these.  The result is a red-black tree with the rows of a sorted
  list into which the new row is inserted.
\<close>

section \<open>Trees\<close>

datatype rbt = Tip | Nd colour rbt nat row rbt

fun at :: "(nat \<Rightarrow> treeNode option) \<Rightarrow> nat option \<Rightarrow> rbt \<Rightarrow> bool" where
  "at P p Tip \<longleftrightarrow> p = None"
| "at P p (Nd c l a r rt) \<longleftrightarrow> p = Some a \<and> (\<exists>n. P a = Some n \<and> clr n = c \<and> nodeMemPool n = r \<and> at P (left n) l \<and> at P (right n) rt)"

fun items :: "rbt \<Rightarrow> (nat \<times> row) list" where
  "items Tip = []"
| "items (Nd c l a r rt) = items l @ (a, r) # items rt"

definition addrs :: "rbt \<Rightarrow> nat list" where
  "addrs t = List.map fst (items t)"

lemma addrs_simps [simp]: "addrs Tip = []" "addrs (Nd c l a r rt) = addrs l @ a # addrs rt"
  by (simp_all add: addrs_def)

lemma at_cong: "(\<And>a. a \<in> set (addrs t) \<Longrightarrow> P a = Q a) \<Longrightarrow> at P p t = at Q p t"
  by (induction t arbitrary: p) (simp_all, blast?)

lemma at_other [simp]: "a \<notin> set (addrs t) \<Longrightarrow> at (P(a \<mapsto> n)) p t = at P p t"
  by (rule at_cong) auto

fun col :: "rbt \<Rightarrow> colour" where
  "col Tip = BLACK"
| "col (Nd c l a r rt) = c"

fun paint :: "colour \<Rightarrow> rbt \<Rightarrow> rbt" where
  "paint c Tip = Tip"
| "paint c (Nd d l a r rt) = Nd c l a r rt"

lemma items_paint [simp]: "items (paint c t) = items t"
  by (cases t) simp_all

section \<open>The way down\<close>

text \<open>A node that was left to the left keeps its right subtree, and the other way round.\<close>

datatype frame = FL colour nat row rbt | FR colour rbt nat row

fun plug1 :: "frame \<Rightarrow> rbt \<Rightarrow> rbt" where
  "plug1 (FL c a r rt) t = Nd c t a r rt"
| "plug1 (FR c l a r) t = Nd c l a r t"

definition plug :: "frame list \<Rightarrow> rbt \<Rightarrow> rbt" where
  "plug cs t = fold plug1 cs t"

lemma plug_simps [simp]: "plug [] t = t" "plug (f # cs) t = plug cs (plug1 f t)"
  by (simp_all add: plug_def)

fun faddr :: "frame \<Rightarrow> nat" where
  "faddr (FL c a r rt) = a"
| "faddr (FR c l a r) = a"

fun fcol :: "frame \<Rightarrow> colour" where
  "fcol (FL c a r rt) = c"
| "fcol (FR c l a r) = c"

fun fdir :: "frame \<Rightarrow> 32 word" where
  "fdir (FL c a r rt) = 0"
| "fdir (FR c l a r) = 1"

fun recol :: "colour \<Rightarrow> frame \<Rightarrow> frame" where
  "recol d (FL c a r rt) = FL d a r rt"
| "recol d (FR c l a r) = FR d l a r"

fun sib :: "frame \<Rightarrow> rbt" where
  "sib (FL c a r rt) = rt"
| "sib (FR c l a r) = l"

text \<open>The addresses of a frame, and what comes before and after the hole.\<close>

fun fitems :: "frame \<Rightarrow> (nat \<times> row) list" where
  "fitems (FL c a r rt) = (a, r) # items rt"
| "fitems (FR c l a r) = items l @ [(a, r)]"

definition caddrs :: "frame list \<Rightarrow> nat list" where
  "caddrs cs = concat (List.map (\<lambda>f. List.map fst (fitems f)) cs)"

lemma caddrs_simps [simp]: "caddrs [] = []" "caddrs (FL c a r rt # cs) = a # addrs rt @ caddrs cs" "caddrs (FR c l a r # cs) = addrs l @ a # caddrs cs"
  by (simp_all add: caddrs_def addrs_def)

fun before :: "frame list \<Rightarrow> (nat \<times> row) list" where
  "before [] = []"
| "before (FL c a r rt # cs) = before cs"
| "before (FR c l a r # cs) = before cs @ items l @ [(a, r)]"

fun behind :: "frame list \<Rightarrow> (nat \<times> row) list" where
  "behind [] = []"
| "behind (FL c a r rt # cs) = (a, r) # items rt @ behind cs"
| "behind (FR c l a r # cs) = behind cs"

lemma items_plug: "items (plug cs t) = before cs @ items t @ behind cs"
proof (induction cs arbitrary: t)
  case (Cons f cs)
  then show ?case by (cases f) simp_all
qed simp

lemma set_caddrs: "set (caddrs cs) = fst ` (set (before cs) \<union> set (behind cs))"
proof (induction cs)
  case (Cons f cs)
  then show ?case by (cases f) (auto simp: addrs_def)
qed simp

lemma distinct_plug: "distinct (addrs (plug cs t)) \<longleftrightarrow> distinct (caddrs cs) \<and> distinct (addrs t) \<and> set (caddrs cs) \<inter> set (addrs t) = {}"
proof (induction cs arbitrary: t)
  case (Cons f cs)
  show ?case unfolding plug_simps Cons.IH by (cases f) auto
qed simp

fun at_ctx :: "(nat \<Rightarrow> treeNode option) \<Rightarrow> nat option \<Rightarrow> nat option \<Rightarrow> frame list \<Rightarrow> bool" where
  "at_ctx P tp p [] \<longleftrightarrow> tp = p"
| "at_ctx P tp p (FL c a r rt # cs) \<longleftrightarrow> (\<exists>n. P a = Some n \<and> clr n = c \<and> nodeMemPool n = r \<and> left n = p \<and> at P (right n) rt) \<and> at_ctx P tp (Some a) cs"
| "at_ctx P tp p (FR c l a r # cs) \<longleftrightarrow> (\<exists>n. P a = Some n \<and> clr n = c \<and> nodeMemPool n = r \<and> right n = p \<and> at P (left n) l) \<and> at_ctx P tp (Some a) cs"

lemma at_plug: "at P tp (plug cs t) \<longleftrightarrow> (\<exists>p. at_ctx P tp p cs \<and> at P p t)"
proof (induction cs arbitrary: t)
  case (Cons f cs)
  show ?case unfolding plug_simps Cons.IH by (cases f) auto
qed simp

lemma at_ctx_cong: "(\<And>a. a \<in> set (caddrs cs) \<Longrightarrow> P a = Q a) \<Longrightarrow> at_ctx P tp p cs = at_ctx Q tp p cs"
proof (induction cs arbitrary: p)
  case (Cons f cs)
  have "at P q (sib f) = at Q q (sib f)" for q using Cons.prems by (intro at_cong) (cases f; simp)
  moreover have "at_ctx P tp q cs = at_ctx Q tp q cs" for q using Cons by (cases f) simp_all
  ultimately show ?case using Cons.prems by (cases f) simp_all
qed simp

lemma at_ctx_other [simp]: "a \<notin> set (caddrs cs) \<Longrightarrow> at_ctx (P(a \<mapsto> n)) tp p cs = at_ctx P tp p cs"
  by (rule at_ctx_cong) auto

text \<open>The arrays of the way.\<close>

definition on_way :: "RBTree \<Rightarrow> frame list \<Rightarrow> int \<Rightarrow> bool" where
  "on_way T cs sl \<longleftrightarrow> sl = int (length cs) + 1 \<and> length (nodes T) = MAX_TREE_HEIGHT \<and> length (drcts T) = MAX_TREE_HEIGHT \<and>
     length cs < MAX_TREE_HEIGHT \<and> take (Suc (length cs)) (nodes T) = Root # rev (List.map (\<lambda>f. Pool (faddr f)) cs) \<and>
     take (Suc (length cs)) (drcts T) = 0 # rev (List.map fdir cs)"

lemma last_of_way: "(x # rev (List.map g cs)) ! length cs = (case cs of [] \<Rightarrow> x | f # _ \<Rightarrow> g f)"
  by (cases cs) (simp_all add: nth_append)

lemma on_way_last:
  assumes "on_way T cs sl"
  shows "aget (nodes T) (sl - 1) = Some (case cs of [] \<Rightarrow> Root | f # _ \<Rightarrow> Pool (faddr f))"
    "aget (drcts T) (sl - 1) = Some (case cs of [] \<Rightarrow> 0 | f # _ \<Rightarrow> fdir f)"
proof -
  have l: "length cs < length (nodes T)" "length cs < length (drcts T)" "sl - 1 = int (length cs)" using assms by (auto simp: on_way_def)
  have t: "take (Suc (length cs)) (nodes T) = Root # rev (List.map (\<lambda>f. Pool (faddr f)) cs)"
    "take (Suc (length cs)) (drcts T) = 0 # rev (List.map fdir cs)" using assms unfolding on_way_def by blast+
  have "nodes T ! length cs = (Root # rev (List.map (\<lambda>f. Pool (faddr f)) cs)) ! length cs" "drcts T ! length cs = (0 # rev (List.map fdir cs)) ! length cs"
    unfolding t [symmetric] by simp_all
  then show "aget (nodes T) (sl - 1) = Some (case cs of [] \<Rightarrow> Root | f # _ \<Rightarrow> Pool (faddr f))"
    "aget (drcts T) (sl - 1) = Some (case cs of [] \<Rightarrow> 0 | f # _ \<Rightarrow> fdir f)"
    unfolding last_of_way using l by simp_all
qed

lemma on_way_pop: "on_way T (f # cs) sl \<Longrightarrow> on_way T cs (sl - 1)"
proof -
  assume w: "on_way T (f # cs) sl"
  have t: "take (Suc (length (f # cs))) (nodes T) = Root # rev (List.map (\<lambda>f. Pool (faddr f)) (f # cs))"
    "take (Suc (length (f # cs))) (drcts T) = 0 # rev (List.map fdir (f # cs))" using w unfolding on_way_def by blast+
  have "take (Suc (length cs)) (nodes T) = Root # rev (List.map (\<lambda>f. Pool (faddr f)) cs)"
    using arg_cong [OF t(1), of "take (Suc (length cs))"] by simp
  moreover have "take (Suc (length cs)) (drcts T) = 0 # rev (List.map fdir cs)"
    using arg_cong [OF t(2), of "take (Suc (length cs))"] by simp
  ultimately show ?thesis using w unfolding on_way_def by simp
qed

lemma on_way_push:
  assumes "on_way T cs sl" "Suc (length cs) < MAX_TREE_HEIGHT"
  shows "returns (note_step (faddr f) sl (fdir f) T) (\<lambda>T'. on_way T' (f # cs) (sl + 1) \<and>
    T' = T\<lparr>nodes := nodes T', drcts := drcts T'\<rparr>)"
proof -
  have l: "0 \<le> sl" "nat sl = Suc (length cs)" "sl < int (length (nodes T))" "sl < int (length (drcts T))"
    using assms by (auto simp: on_way_def)
  have t: "take (Suc (Suc (length cs))) (xs[Suc (length cs) := x]) = take (Suc (length cs)) xs @ [x]" if "Suc (length cs) < length xs" for xs and x :: 'b
    using that by (subst take_Suc_conv_app_nth) simp_all
  show ?thesis
    using assms l unfolding note_step_def on_way_def by (simp add: t)
qed

section \<open>Rebalancing\<close>

fun rot :: "frame \<Rightarrow> frame \<Rightarrow> rbt \<Rightarrow> rbt" where
  "rot (FL pc pa pr ps) (FL gc ga gr gs) t = Nd BLACK t pa pr (Nd RED ps ga gr gs)"
| "rot (FR pc pl pa pr) (FL gc ga gr gs) (Nd tc tle ta tr tri) = Nd BLACK (Nd pc pl pa pr tle) ta tr (Nd RED tri ga gr gs)"
| "rot (FR pc pl pa pr) (FR gc gl ga gr) t = Nd BLACK (Nd RED gl ga gr pl) pa pr t"
| "rot (FL pc pa pr ps) (FR gc gl ga gr) (Nd tc tle ta tr tri) = Nd BLACK (Nd RED gl ga gr tle) ta tr (Nd pc tri pa pr ps)"
| "rot p g t = t"

fun uncle_black :: "frame \<Rightarrow> frame" where
  "uncle_black (FL c a r rt) = FL RED a r (paint BLACK rt)"
| "uncle_black (FR c l a r) = FR RED (paint BLACK l) a r"

fun fix_red :: "frame list \<Rightarrow> rbt \<Rightarrow> rbt" where
  "fix_red (p # g # cs) t = (if fcol p \<noteq> RED then plug (p # g # cs) t
     else if col (sib g) = RED then fix_red cs (plug1 (uncle_black g) (plug1 (recol BLACK p) t))
     else plug cs (rot p g t))"
| "fix_red cs t = plug cs t"

text \<open>The loop looks at two frames at a time.\<close>

lemmas fix_red_induct = fix_red.induct [case_names two none one]

text \<open>The loop changes nothing but the nodes of the tree.\<close>

definition same :: "RBTree \<Rightarrow> RBTree \<Rightarrow> bool" where
  "same T T' \<longleftrightarrow> (\<exists>rt P. T' = T\<lparr>root := rt, memPool := P\<rparr>)"

lemma same_refl [simp]: "same T T"
  unfolding same_def by (intro exI [of _ "root T"] exI [of _ "memPool T"]) simp

lemma same_trans: "same T T' \<Longrightarrow> same T' T'' \<Longrightarrow> same T T''"
  by (auto simp: same_def) blast

lemma same_way: "same T T' \<Longrightarrow> on_way T' cs sl = on_way T cs sl"
  by (auto simp: same_def on_way_def)

lemma same_pool [simp]: "same T (T\<lparr>memPool := P\<rparr>)"
  unfolding same_def by (intro exI [of _ "root T"] exI [of _ P]) simp

lemma same_root [simp]: "same T (T\<lparr>root := r\<rparr>)"
  unfolding same_def by (intro exI [of _ r] exI [of _ "memPool T"]) simp

lemma is_red_at: "at (memPool T) p t \<Longrightarrow> is_red p T = Some (col t = RED)"
  by (cases t) (auto simp: is_red_def)

lemmas node_ops = set_clr_def set_left_def set_right_def get_left_def get_right_def get_nd_def put_nd_def pool_addr_def

lemma red_uncle:
  assumes "at_ctx (memPool T) (left (root T)) z (p # g # cs)" "at (memPool T) z t" "distinct (caddrs (p # g # cs) @ addrs t)"
    "col (sib g) = RED"
  shows "returns (do {
       uncle \<leftarrow> (if fdir g = 0 then get_right (Pool (faddr g)) T else get_left (Pool (faddr g)) T);
       T \<leftarrow> set_clr (Pool (faddr p)) BLACK T;
       u \<leftarrow> uncle;
       T \<leftarrow> set_clr (Pool u) BLACK T;
       set_clr (Pool (faddr g)) RED T })
     (\<lambda>T'. same T T' \<and> root T' = root T \<and> at_ctx (memPool T') (left (root T)) (Some (faddr g)) cs \<and>
        at (memPool T') (Some (faddr g)) (plug1 (uncle_black g) (plug1 (recol BLACK p) t)))"
proof (cases p; cases g)
  fix pc pa pr ps gc ga gr gs assume c: "p = FL pc pa pr ps" "g = FL gc ga gr gs"
  obtain sl sa sr st where s: "gs = Nd RED sl sa sr st" using assms(4) c by (cases gs) auto
  show ?thesis using assms unfolding c s by (auto simp: node_ops)
next
  fix pc pa pr ps gc gl ga gr assume c: "p = FL pc pa pr ps" "g = FR gc gl ga gr"
  obtain sl sa sr st where s: "gl = Nd RED sl sa sr st" using assms(4) c by (cases gl) auto
  show ?thesis using assms unfolding c s by (auto simp: node_ops)
next
  fix pc pl pa pr gc ga gr gs assume c: "p = FR pc pl pa pr" "g = FL gc ga gr gs"
  obtain sl sa sr st where s: "gs = Nd RED sl sa sr st" using assms(4) c by (cases gs) auto
  show ?thesis using assms unfolding c s by (auto simp: node_ops)
next
  fix pc pl pa pr gc gl ga gr assume c: "p = FR pc pl pa pr" "g = FR gc gl ga gr"
  obtain sl sa sr st where s: "gl = Nd RED sl sa sr st" using assms(4) c by (cases gl) auto
  show ?thesis using assms unfolding c s by (auto simp: node_ops)
qed


lemma link:
  assumes "at_ctx (memPool T) (left (root T)) p cs" "distinct (caddrs cs)"
  shows "returns (if (case cs of [] \<Rightarrow> 0 | f # _ \<Rightarrow> fdir f) \<noteq> 0 then set_right (case cs of [] \<Rightarrow> Root | f # _ \<Rightarrow> Pool (faddr f)) (Some y) T
      else set_left (case cs of [] \<Rightarrow> Root | f # _ \<Rightarrow> Pool (faddr f)) (Some y) T)
    (\<lambda>T'. same T T' \<and> at_ctx (memPool T') (left (root T')) (Some y) cs \<and> (\<forall>a. a \<notin> set (caddrs cs) \<longrightarrow> memPool T' a = memPool T a))"
proof (cases cs)
  case Nil
  then show ?thesis by (auto simp: node_ops)
next
  case (Cons f cs')
  then show ?thesis using assms by (cases f) (auto simp: node_ops )
qed

lemma relinked:
  assumes "at_ctx (memPool T) (left (root T)) p cs" "distinct (caddrs cs)" "at (memPool T) (Some y) t" "set (caddrs cs) \<inter> set (addrs t) = {}"
    "same T0 T"
  shows "returns (if (case cs of [] \<Rightarrow> 0 | f # _ \<Rightarrow> fdir f) \<noteq> 0 then set_right (case cs of [] \<Rightarrow> Root | f # _ \<Rightarrow> Pool (faddr f)) (Some y) T
      else set_left (case cs of [] \<Rightarrow> Root | f # _ \<Rightarrow> Pool (faddr f)) (Some y) T)
    (\<lambda>T'. same T0 T' \<and> at (memPool T') (left (root T')) (plug cs t))"
proof (rule returns_mono [OF link [OF assms(1,2)]])
  fix T' assume l: "same T T' \<and> at_ctx (memPool T') (left (root T')) (Some y) cs \<and> (\<forall>a. a \<notin> set (caddrs cs) \<longrightarrow> memPool T' a = memPool T a)"
  then have "at (memPool T') (Some y) t = at (memPool T) (Some y) t" using assms(4) by (intro at_cong) auto
  then show "same T0 T' \<and> at (memPool T') (left (root T')) (plug cs t)"
    using l assms(3,5) same_trans by (auto simp: at_plug)
qed

lemma way_arrays:
  assumes "on_way T (p # g # cs) sl"
  shows "aget (nodes T) (sl - 1) = Some (Pool (faddr p))" "aget (drcts T) (sl - 1) = Some (fdir p)"
    "aget (nodes T) (sl - 2) = Some (Pool (faddr g))" "aget (drcts T) (sl - 2) = Some (fdir g)"
    "aget (nodes T) (sl - 3) = Some (case cs of [] \<Rightarrow> Root | f # _ \<Rightarrow> Pool (faddr f))" "aget (drcts T) (sl - 3) = Some (case cs of [] \<Rightarrow> 0 | f # _ \<Rightarrow> fdir f)"
  using on_way_last [OF assms] on_way_last [OF on_way_pop [OF assms]] on_way_last [OF on_way_pop [OF on_way_pop [OF assms]]] by simp_all

lemma rotated:
  assumes c: "at_ctx (memPool T) (left (root T)) z (p # g # cs)" and t: "at (memPool T) z t" "t \<noteq> Tip"
    and d: "distinct (caddrs (p # g # cs) @ addrs t)"
    and up: "gg = (case cs of [] \<Rightarrow> Root | f # _ \<Rightarrow> Pool (faddr f))" "dgg = (case cs of [] \<Rightarrow> 0 | f # _ \<Rightarrow> fdir f)"
  shows "returns (if fdir g = 0 then rotate_left_side gg (Pool (faddr g)) (Pool (faddr p)) dgg (fdir p) T
      else rotate_right_side gg (Pool (faddr g)) (Pool (faddr p)) dgg (fdir p) T)
    (\<lambda>T'. same T T' \<and> at (memPool T') (left (root T')) (plug cs (rot p g t)))"
proof -
  obtain tc tle ta tr tri where tt: "t = Nd tc tle ta tr tri" using t(2) by (cases t) auto
  show ?thesis
  proof (cases p; cases g)
    fix pc pa pr ps gc ga gr gs assume k: "p = FL pc pa pr ps" "g = FL gc ga gr gs"
    show ?thesis
      using c t(1) d unfolding k tt up
      by (auto simp: rotate_left_side_def node_ops split del: if_split intro!: relinked) blast+
  next
    fix pc pa pr ps gc gl ga gr assume k: "p = FL pc pa pr ps" "g = FR gc gl ga gr"
    show ?thesis
      using c t(1) d unfolding k tt up
      by (auto simp: rotate_right_side_def node_ops split del: if_split intro!: relinked) blast+
  next
    fix pc pl pa pr gc ga gr gs assume k: "p = FR pc pl pa pr" "g = FL gc ga gr gs"
    show ?thesis
      using c t(1) d unfolding k tt up
      by (auto simp: rotate_left_side_def node_ops split del: if_split intro!: relinked) blast+
  next
    fix pc pl pa pr gc gl ga gr assume k: "p = FR pc pl pa pr" "g = FR gc gl ga gr"
    show ?thesis
      using c t(1) d unfolding k tt up
      by (auto simp: rotate_right_side_def node_ops split del: if_split intro!: relinked) blast+
  qed
qed

lemma rot_items: "t \<noteq> Tip \<Longrightarrow> items (rot p g t) = items (plug1 g (plug1 p t))"
  by (cases p; cases g; cases t) simp_all

lemma plug1_ne [simp]: "plug1 f t \<noteq> Tip"
  by (cases f) simp_all

lemma items_plug1_cong: "items t = items t' \<Longrightarrow> items (plug cs t) = items (plug cs t')"
  by (simp add: items_plug)

lemma recol_items: "items (plug1 (uncle_black g) (plug1 (recol BLACK p) t)) = items (plug1 g (plug1 p t))"
  by (cases p; cases g) simp_all

lemma fix_items: "t \<noteq> Tip \<Longrightarrow> items (fix_red cs t) = items (plug cs t)"
proof (induction cs t rule: fix_red_induct)
  case (two p g cs t)
  have "items (fix_red cs (plug1 (uncle_black g) (plug1 (recol BLACK p) t))) = items (plug cs (plug1 g (plug1 p t)))"
    if "\<not> fcol p \<noteq> RED" "col (sib g) = RED"
    using two(1) [OF that plug1_ne] items_plug1_cong [OF recol_items] by metis
  then show ?case using items_plug1_cong [OF rot_items [OF two(2)]] by simp
qed simp_all

lemma addrs_distinct_cong: "items t = items t' \<Longrightarrow> distinct (addrs t) = distinct (addrs t')"
  by (simp add: addrs_def)

lemma rebalance_fix:
  assumes "on_way T cs sl" "at_ctx (memPool T) (left (root T)) z cs" "at (memPool T) z t" "t \<noteq> Tip" "distinct (caddrs cs @ addrs t)"
  shows "returns (rebalance T sl) (\<lambda>T'. same T T' \<and> at (memPool T') (left (root T')) (fix_red cs t))"
  using assms
proof (induction cs t arbitrary: T sl z rule: fix_red_induct)
  case (two p g cs t)
  note arr = way_arrays [OF two(2)]
  have sl: "\<not> sl < 3" using two(2) by (simp add: on_way_def)
  obtain pn where pn: "memPool T (faddr p) = Some pn" "clr pn = fcol p" using two(3) by (cases p) auto
  show ?case
  proof (cases "fcol p = RED")
    case False
    then have "rebalance T sl = Some T" using pn by (subst rebalance.simps) (simp add: arr get_nd_def del: aget_eq_Some)
    moreover have "at (memPool T) (left (root T)) (plug (p # g # cs) t)" using two(3,4) unfolding at_plug by blast
    ultimately show ?thesis using False by simp
  next
    case red: True
    obtain gn where gn: "memPool T (faddr g) = Some gn" "at (memPool T) (if fdir g = 0 then right gn else left gn) (sib g)"
      using two(3) by (cases p; cases g) auto
    define u where "u = (if fdir g = 0 then right gn else left gn)"
    have u: "(if fdir g = 0 then get_right (Pool (faddr g)) T else get_left (Pool (faddr g)) T) = Some u"
      using gn(1) by (simp add: u_def get_right_def get_left_def get_nd_def)
    have ur: "is_red u T = Some (col (sib g) = RED)" using is_red_at gn(2) unfolding u_def by blast
    have step: "rebalance T sl =
       (if col (sib g) = RED then do {
         T \<leftarrow> set_clr (Pool (faddr p)) BLACK T;
         u \<leftarrow> u;
         T \<leftarrow> set_clr (Pool u) BLACK T;
         T \<leftarrow> set_clr (Pool (faddr g)) RED T;
         rebalance T (sl - 2) }
       else if fdir g = 0 then rotate_left_side (case cs of [] \<Rightarrow> Root | f # _ \<Rightarrow> Pool (faddr f)) (Pool (faddr g)) (Pool (faddr p))
         (case cs of [] \<Rightarrow> 0 | f # _ \<Rightarrow> fdir f) (fdir p) T
       else rotate_right_side (case cs of [] \<Rightarrow> Root | f # _ \<Rightarrow> Pool (faddr f)) (Pool (faddr g)) (Pool (faddr p))
         (case cs of [] \<Rightarrow> 0 | f # _ \<Rightarrow> fdir f) (fdir p) T)"
      using pn red sl u ur by (subst rebalance.simps) (simp add: arr get_nd_def del: aget_eq_Some)
    show ?thesis
    proof (cases "col (sib g) = RED")
      case True
      define t' where "t' = plug1 (uncle_black g) (plug1 (recol BLACK p) t)"
      have "returns (do {
         T \<leftarrow> set_clr (Pool (faddr p)) BLACK T;
         u \<leftarrow> u;
         T \<leftarrow> set_clr (Pool u) BLACK T;
         set_clr (Pool (faddr g)) RED T })
        (\<lambda>T'. same T T' \<and> root T' = root T \<and> at_ctx (memPool T') (left (root T)) (Some (faddr g)) cs \<and> at (memPool T') (Some (faddr g)) t')"
        using red_uncle [OF two(3,4,6) True] unfolding u t'_def by simp
      moreover have "returns (rebalance T' (sl - 2)) (\<lambda>T''. same T T'' \<and> at (memPool T'') (left (root T'')) (fix_red cs t'))"
        if T': "same T T'" "root T' = root T" "at_ctx (memPool T') (left (root T)) (Some (faddr g)) cs" "at (memPool T') (Some (faddr g)) t'" for T'
      proof (rule returns_mono)
        have "on_way T' cs (sl - 2)" using on_way_pop [OF on_way_pop [OF two(2)]] same_way [OF T'(1)] by simp
        moreover have "distinct (caddrs cs @ addrs t')"
        proof -
          have "distinct (addrs (plug cs t'))" using two(6) addrs_distinct_cong [OF items_plug1_cong [OF recol_items, of cs g p t]]
              distinct_plug [of "p # g # cs" t] unfolding t'_def by simp
          then show ?thesis by (simp add: distinct_plug)
        qed
        ultimately show "returns (rebalance T' (sl - 2)) (\<lambda>T''. same T' T'' \<and> at (memPool T'') (left (root T'')) (fix_red cs t'))"
          using two(1) [of T' "sl - 2" "Some (faddr g)"] red True T' unfolding t'_def by simp
      qed (use same_trans T' in blast)
      ultimately show ?thesis unfolding step using red True by (auto simp: t'_def elim!: returns_mono)
    next
      case False
      then show ?thesis
        using rotated [OF two(3,4,5,6) refl refl] red unfolding step by simp
    qed
  qed
next
  case (none t)
  have "sl < 3" using none(1) by (simp add: on_way_def)
  then have "rebalance T sl = Some T"
    using on_way_last(1) [OF none(1)] by (subst rebalance.simps) (simp add: get_nd_def del: aget_eq_Some)
  then show ?case using none(2,3) by simp
next
  case (one p t)
  obtain pn where pn: "memPool T (faddr p) = Some pn" using one(2) by (cases p) auto
  have "rebalance T sl = Some T"
    using one(1) pn by (subst rebalance.simps) (simp add: on_way_last get_nd_def del: aget_eq_Some, simp add: on_way_def)
  moreover have "at (memPool T) (left (root T)) (plug [p] t)" using one(2,3) unfolding at_plug by blast
  ultimately show ?case by simp
qed

section \<open>Red-black trees\<close>

lemma not_red: "c \<noteq> RED \<longleftrightarrow> c = BLACK"
  by (cases c) simp_all

fun bheight :: "rbt \<Rightarrow> nat" where
  "bheight Tip = 0"
| "bheight (Nd c l a r rt) = bheight l + (if c = BLACK then 1 else 0)"

fun invh :: "rbt \<Rightarrow> bool" where
  "invh Tip \<longleftrightarrow> True"
| "invh (Nd c l a r rt) \<longleftrightarrow> bheight l = bheight rt \<and> invh l \<and> invh rt"

fun invc :: "rbt \<Rightarrow> bool" where
  "invc Tip \<longleftrightarrow> True"
| "invc (Nd c l a r rt) \<longleftrightarrow> (c = RED \<longrightarrow> col l = BLACK \<and> col rt = BLACK) \<and> invc l \<and> invc rt"

definition red_black :: "rbt \<Rightarrow> bool" where
  "red_black t \<longleftrightarrow> invh t \<and> invc t \<and> col t = BLACK"

fun fbh :: "frame \<Rightarrow> nat" where
  "fbh f = (if fcol f = BLACK then 1 else 0)"

text \<open>What the way expects of the hole: a tree of black height \<open>h\<close>, and a black one under a red node.\<close>

fun way_inv :: "nat \<Rightarrow> frame list \<Rightarrow> bool" where
  "way_inv h [] \<longleftrightarrow> True"
| "way_inv h (f # cs) \<longleftrightarrow> invh (sib f) \<and> invc (sib f) \<and> bheight (sib f) = h \<and>
     (fcol f = RED \<longrightarrow> col (sib f) = BLACK \<and> cs \<noteq> [] \<and> fcol (hd cs) = BLACK) \<and> way_inv (h + fbh f) cs"

lemma way_plug:
  "way_inv (bheight t) cs \<Longrightarrow> invh t \<Longrightarrow> invc t \<Longrightarrow> (cs = [] \<or> fcol (hd cs) = RED \<longrightarrow> col t = BLACK) \<Longrightarrow> red_black (plug cs t)"
proof (induction cs arbitrary: t)
  case (Cons f cs)
  have s: "invh (sib f)" "invc (sib f)" "bheight (sib f) = bheight t" "fcol f = RED \<longrightarrow> col (sib f) = BLACK" "fcol f = RED \<longrightarrow> col t = BLACK"
    and w: "way_inv (bheight t + fbh f) cs"
    using Cons.prems(1,4) by simp_all
  have "bheight (plug1 f t) = bheight t + fbh f" using s(3) by (cases f) simp_all
  moreover have "invh (plug1 f t)" using s Cons.prems(2) by (cases f) simp_all
  moreover have "invc (plug1 f t)" using s Cons.prems(3) by (cases f) simp_all
  moreover have "col (plug1 f t) = fcol f" by (cases f) simp_all
  moreover have "cs = [] \<or> fcol (hd cs) = RED \<longrightarrow> fcol f = BLACK" using Cons.prems(1) by (cases "fcol f") auto
  ultimately show ?case using Cons.IH [of "plug1 f t"] w by simp
qed (simp add: red_black_def)

lemma paint_black: "invh t \<Longrightarrow> invh (paint BLACK t)" "invc t \<Longrightarrow> invc (paint BLACK t)" "col (paint BLACK t) = BLACK"
  by (cases t; simp)+

lemma paint_same: "col t = BLACK \<Longrightarrow> paint BLACK t = t"
  by (cases t) simp_all

lemma red_black_paint: "red_black t \<Longrightarrow> paint BLACK t = t"
  by (simp add: red_black_def paint_same)

lemma bheight_paint: "col t = RED \<Longrightarrow> bheight (paint BLACK t) = Suc (bheight t)"
  by (cases t) simp_all

text \<open>Two frames whose upper one is black and whose lower one is red.\<close>

lemma recoloured:
  assumes "way_inv (bheight t) (p # g # cs)" "invh t" "invc t" "fcol p = RED" "col (sib g) = RED"
  shows "invh (plug1 (uncle_black g) (plug1 (recol BLACK p) t))" "invc (plug1 (uncle_black g) (plug1 (recol BLACK p) t))"
    "way_inv (bheight (plug1 (uncle_black g) (plug1 (recol BLACK p) t))) cs" "col (plug1 (uncle_black g) (plug1 (recol BLACK p) t)) = RED"
  using assms by (cases p; cases g; auto simp: paint_black bheight_paint)+

lemma rotated_inv:
  assumes "way_inv (bheight t) (p # g # cs)" "invh t" "invc t" "col t = RED" "fcol p = RED" "col (sib g) \<noteq> RED"
  shows "invh (rot p g t)" "invc (rot p g t)" "way_inv (bheight (rot p g t)) cs" "col (rot p g t) = BLACK"
proof -
  obtain tle ta tr tri where t: "t = Nd RED tle ta tr tri" using assms(4) by (cases t) auto
  have "col (sib g) = BLACK" using assms(6) by (cases "col (sib g)") auto
  then show "invh (rot p g t)" "invc (rot p g t)" "way_inv (bheight (rot p g t)) cs" "col (rot p g t) = BLACK"
    using assms(1-5) unfolding t by (cases p; cases g; auto)+
qed

lemma fix_red_black: "way_inv (bheight t) cs \<Longrightarrow> invh t \<Longrightarrow> invc t \<Longrightarrow> col t = RED \<Longrightarrow> red_black (paint BLACK (fix_red cs t))"
proof (induction cs t rule: fix_red_induct)
  case (two p g cs t)
  show ?case
  proof (cases "fcol p = RED")
    case False
    then have "red_black (plug (p # g # cs) t)" using two(2-4) by (intro way_plug) auto
    then show ?thesis using False by (simp add: red_black_paint)
  next
    case red: True
    show ?thesis
    proof (cases "col (sib g) = RED")
      case True
      then show ?thesis using two(1) [OF _ True] recoloured [OF two(2-4) red True] red by simp
    next
      case False
      have "red_black (plug cs (rot p g t))"
        using rotated_inv [OF two(2-5) red False] by (intro way_plug) auto
      then show ?thesis using red False by (simp add: red_black_paint)
    qed
  qed
next
  case (none t)
  then show ?case by (simp add: red_black_def paint_black)
next
  case (one p t)
  then have "fcol p = BLACK" by (cases "fcol p") auto
  then have "red_black (plug [p] t)" using one(1-3) by (intro way_plug) auto
  then show ?case by (simp add: red_black_paint)
qed

text \<open>The way through a red-black tree meets the expectation.\<close>

lemma split_inv:
  assumes "way_inv (bheight (Nd c l a r rt)) cs" "invh (Nd c l a r rt)" "invc (Nd c l a r rt)" "cs = [] \<or> fcol (hd cs) = RED \<longrightarrow> c = BLACK"
  shows "way_inv (bheight l) (FL c a r rt # cs)" "way_inv (bheight rt) (FR c l a r # cs)"
  using assms not_red [of "fcol (hd cs)"] not_red [of c] by auto

text \<open>The height is at most twice the black height, and so logarithmic.\<close>

fun ht :: "rbt \<Rightarrow> nat" where
  "ht Tip = 0"
| "ht (Nd c l a r rt) = Suc (max (ht l) (ht rt))"

lemma ht_bheight: "invh t \<Longrightarrow> invc t \<Longrightarrow> ht t \<le> 2 * bheight t + (if col t = RED then 1 else 0)"
proof (induction t)
  case (Nd c l a r rt)
  then show ?case by (cases c) (auto simp: not_red split: if_splits)
qed simp

lemma size_bheight: "invh t \<Longrightarrow> 2 ^ bheight t \<le> Suc (length (items t))"
  by (induction t rule: ht.induct) (auto simp: algebra_simps)

lemma ht_bound:
  assumes "red_black t" "length (items t) < 2 ^ 31"
  shows "ht t < 63"
proof -
  have "(2 :: nat) ^ bheight t \<le> 2 ^ 31" using size_bheight [of t] assms by (simp add: red_black_def)
  then have "bheight t \<le> 31" by (rule power_le_imp_le_exp [rotated]) simp
  then show ?thesis using ht_bheight [of t] assms(1) by (simp add: red_black_def)
qed

section \<open>Keys\<close>

lemma KeyComp_from_less:
  "length a = n \<Longrightarrow> length b = n \<Longrightarrow> i \<le> n \<Longrightarrow>
   KeyComp_from a b (int n) (int i) = Some (if drop i a < drop i b then -1 else if drop i b < drop i a then 1 else 0)"
proof (induction "n - i" arbitrary: i)
  case 0
  then show ?case by (subst KeyComp_from.simps) simp
next
  case (Suc k)
  then have i: "i < n" "k = n - Suc i" by simp_all
  have d: "drop i a = a ! i # drop (Suc i) a" "drop i b = b ! i # drop (Suc i) b"
    using Cons_nth_drop_Suc [of i a] Cons_nth_drop_Suc [of i b] i Suc.prems by simp_all
  have "KeyComp_from a b (int n) (int (Suc i)) = Some (if drop (Suc i) a < drop (Suc i) b then -1 else if drop (Suc i) b < drop (Suc i) a then 1 else 0)"
    using Suc.hyps(1) [OF i(2)] Suc.prems i by simp
  then have r: "KeyComp_from a b (int n) (int i + 1) = Some (if drop (Suc i) a < drop (Suc i) b then -1 else if drop (Suc i) b < drop (Suc i) a then 1 else 0)"
    by (simp add: add.commute)
  show ?case
    using i Suc.prems unfolding d by (subst KeyComp_from.simps) (auto simp: r)
qed

lemma KeyComp_less:
  "length a = unat n \<Longrightarrow> length b = unat n \<Longrightarrow> KeyComp a b n = Some (if a < b then -1 else if b < a then 1 else 0)"
  using KeyComp_from_less [of a "unat n" b 0] by (simp add: KeyComp_def)

section \<open>Finding the place\<close>

fun descend :: "frame list \<Rightarrow> rbt \<Rightarrow> 32 word list \<Rightarrow> frame list \<times> rbt" where
  "descend cs Tip k = (cs, Tip)"
| "descend cs (Nd c l a r rt) k =
     (if k < snd r then descend (FL c a r rt # cs) l k
      else if snd r < k then descend (FR c l a r # cs) rt k
      else (cs, Nd c l a r rt))"

lemma descend_plug: "descend cs t k = (cs', t') \<Longrightarrow> plug cs' t' = plug cs t"
  by (induction cs t k rule: descend.induct) (auto split: if_splits)

lemma descend_length: "descend cs t k = (cs', t') \<Longrightarrow> length cs' \<le> length cs + ht t"
  by (induction cs t k rule: descend.induct) (fastforce split: if_splits)+

definition sorted_rows :: "row list \<Rightarrow> bool" where
  "sorted_rows xs \<longleftrightarrow> sorted_wrt (\<lambda>x y. snd x < snd y) xs"

definition entries :: "rbt \<Rightarrow> row list" where
  "entries t = List.map snd (items t)"

lemma descend_key:
  assumes "descend cs t k = (cs', t')" "\<forall>x\<in>set (before cs). snd (snd x) < k" "\<forall>x\<in>set (behind cs). k < snd (snd x)" "sorted_rows (entries t)"
  shows "(\<forall>x\<in>set (before cs'). snd (snd x) < k) \<and> (\<forall>x\<in>set (behind cs'). k < snd (snd x)) \<and> (t' = Tip \<or> (\<exists>c l a r rt. t' = Nd c l a r rt \<and> snd r = k))"
  using assms
proof (induction cs t k rule: descend.induct)
  case (2 cs c l a r rt k)
  have s: "sorted_rows (entries l)" "sorted_rows (entries rt)" "\<forall>x\<in>set (items l). snd (snd x) < snd r" "\<forall>x\<in>set (items rt). snd r < snd (snd x)"
    using 2(6) by (simp_all add: sorted_rows_def entries_def sorted_wrt_append)
  show ?case
  proof (cases "k < snd r")
    case True
    then have "\<forall>x\<in>set (behind (FL c a r rt # cs)). k < snd (snd x)" using 2(5) s(4) by auto
    then show ?thesis using 2(1) [OF True] 2(3,4) True s(1) by simp
  next
    case ge: False
    show ?thesis
    proof (cases "snd r < k")
      case True
      then have "\<forall>x\<in>set (before (FR c l a r # cs)). snd (snd x) < k" using 2(4) s(3) by auto
      then show ?thesis using 2(2) [OF ge True] 2(3,5) ge True s(2) by simp
    next
      case False
      then have "snd r = k" using ge by simp
      then show ?thesis using 2(3-5) ge False by (cases r) auto
    qed
  qed
qed simp

lemma descend_inv:
  assumes "descend cs t k = (cs', t')" "way_inv (bheight t) cs" "invh t" "invc t" "cs = [] \<or> fcol (hd cs) = RED \<longrightarrow> col t = BLACK"
  shows "way_inv (bheight t') cs' \<and> invh t' \<and> invc t' \<and> (cs' = [] \<or> fcol (hd cs') = RED \<longrightarrow> col t' = BLACK)"
  using assms
proof (induction cs t k rule: descend.induct)
  case (2 cs c l a r rt k)
  have w: "way_inv (bheight l) (FL c a r rt # cs)" "way_inv (bheight rt) (FR c l a r # cs)" 
    using split_inv [OF 2(4-6) 2(7) [unfolded col.simps]] by blast+
  have c: "c = RED \<Longrightarrow> col l = BLACK \<and> col rt = BLACK" "invh l" "invc l" "invh rt" "invc rt" using 2(5,6) by simp_all
  show ?case
  proof (cases "k < snd r")
    case True
    then show ?thesis using 2(1) [OF True _ w(1) c(2,3)] 2(3) c(1) by simp
  next
    case ge: False
    show ?thesis
    proof (cases "snd r < k")
      case True
      then show ?thesis using 2(2) [OF ge True _ w(2) c(4,5)] 2(3) ge c(1) by simp
    next
      case False
      then have "cs' = cs" "t' = Nd c l a r rt" using 2(3) ge by simp_all
      then show ?thesis using 2(4-7) by simp
    qed
  qed
qed simp

definition cfg :: "RBTree \<Rightarrow> 32 word \<times> 32 word \<times> 32 word \<times> 32 word \<times> 32 word \<times> 32 word \<times> nat \<times> nat" where
  "cfg T = (treeNodeSize T, nodeDataSize T, memoryLimit T, nNodesLimit T, nd T, nm T, length (nodes T), length (drcts T))"

definition usage :: "RBTree \<Rightarrow> 32 word \<times> 32 word \<times> 32 word \<times> 32 word" where
  "usage T = (count T, memaddr T, freeNodeCounter T, memoryIsFull T)"

lemma same_cfg: "same T T' \<Longrightarrow> cfg T' = cfg T \<and> usage T' = usage T"
  by (auto simp: same_def cfg_def usage_def)

definition rows_fit :: "RBTree \<Rightarrow> rbt \<Rightarrow> bool" where
  "rows_fit T t \<longleftrightarrow> (\<forall>r\<in>set (entries t). row_fits T r)"

lemma rows_fit_simps: "rows_fit T Tip" "rows_fit T (Nd c l a r rt) \<longleftrightarrow> rows_fit T l \<and> row_fits T r \<and> rows_fit T rt"
  by (auto simp: rows_fit_def entries_def)

lemma row_fits_cfg: "cfg T = cfg T' \<Longrightarrow> row_fits T = row_fits T'"
  by (auto simp: cfg_def row_fits_def)

text \<open>A step down does not touch the tree.\<close>

lemma step_down:
  assumes "on_way T cs sl" "Suc (length cs) < MAX_TREE_HEIGHT"
  obtains T1 where "note_step (faddr f) sl (fdir f) T = Some T1" "on_way T1 (f # cs) (sl + 1)" "memPool T1 = memPool T" "root T1 = root T"
    "cfg T1 = cfg T" "usage T1 = usage T" "raw_node T1 = raw_node T"
proof -
  obtain T1 where T1: "note_step (faddr f) sl (fdir f) T = Some T1" "on_way T1 (f # cs) (sl + 1)" "T1 = T\<lparr>nodes := nodes T1, drcts := drcts T1\<rparr>"
    using on_way_push [OF assms, of f] by (auto elim!: returnsE)
  have "length (nodes T1) = length (nodes T)" "length (drcts T1) = length (drcts T)" using T1(2) assms(1) by (simp_all add: on_way_def)
  moreover have "memPool T1 = memPool T" "root T1 = root T" "treeNodeSize T1 = treeNodeSize T" "nodeDataSize T1 = nodeDataSize T" "memoryLimit T1 = memoryLimit T"
    "nNodesLimit T1 = nNodesLimit T" "nd T1 = nd T" "nm T1 = nm T" "usage T1 = usage T" "raw_node T1 = raw_node T"
    by (subst T1(3), simp add: usage_def)+
  ultimately show ?thesis using that T1(1,2) by (simp add: cfg_def)
qed

text \<open>The sums of two lists of measures fit into 64 bits.\<close>

definition sums_fit :: "int list \<Rightarrow> int list \<Rightarrow> bool" where
  "sums_fit xs ys \<longleftrightarrow> (\<forall>(x, y)\<in>set (zip xs ys). - (2 ^ 63) \<le> x + y \<and> x + y < 2 ^ 63)"

definition add_row :: "row \<Rightarrow> row \<Rightarrow> row" where
  "add_row b a = (map2 (+) (fst b) (fst a), snd b)"

text \<open>What the search for the place leaves behind.\<close>

definition hung :: "RBTree \<Rightarrow> frame list \<Rightarrow> RBTree \<times> (nat \<times> int) option \<Rightarrow> bool" where
  "hung T cs = (\<lambda>(T', q). \<exists>sl. q = Some (unat (memaddr T), sl) \<and> on_way T' cs sl \<and> at_ctx (memPool T') (left (root T')) (Some (unat (memaddr T))) cs \<and>
     memPool T' (unat (memaddr T)) \<noteq> None \<and> cfg T' = cfg T \<and>
     usage T' = (count T, memaddr T + treeNodeSize T, freeNodeCounter T - 1, if freeNodeCounter T - 1 = 0 then 1 else memoryIsFull T))"

definition added :: "RBTree \<Rightarrow> rbt \<Rightarrow> RBTree \<times> (nat \<times> int) option \<Rightarrow> bool" where
  "added T t = (\<lambda>(T', q). q = None \<and> at (memPool T') (left (root T')) t \<and> cfg T' = cfg T \<and> usage T' = usage T)"

definition placed_row :: "RBTree \<Rightarrow> row \<Rightarrow> frame list \<times> rbt \<Rightarrow> RBTree \<times> (nat \<times> int) option \<Rightarrow> bool" where
  "placed_row T a d = (case d of (cs, Tip) \<Rightarrow> hung T cs | (cs, Nd c l x r rt) \<Rightarrow> added T (plug cs (Nd c l x (add_row r a) rt)))"

definition place_ok :: "RBTree \<Rightarrow> row \<Rightarrow> frame list \<times> rbt \<Rightarrow> bool" where
  "place_ok T a d \<longleftrightarrow> (case d of (cs, Tip) \<Rightarrow> unat (memaddr T) \<notin> set (addrs (plug cs Tip)) \<and> unat (memaddr T) + unat (treeNodeSize T) \<le> unat (memoryLimit T)
     | (cs, Nd c l x r rt) \<Rightarrow> sums_fit (fst r) (fst a))"

lemma placed_row_cfg:
  assumes "cfg T1 = cfg T" "usage T1 = usage T"
  shows "placed_row T1 a d = placed_row T a d" "place_ok T1 a d = place_ok T a d"
  using assms by (auto simp: placed_row_def place_ok_def hung_def added_def cfg_def usage_def fun_eq_iff split: prod.splits rbt.splits)

lemma on_way_arrays: "nodes T' = nodes T \<Longrightarrow> drcts T' = drcts T \<Longrightarrow> on_way T' cs sl = on_way T cs sl"
  by (simp add: on_way_def)

text \<open>A new node, hung under the last node of the way.\<close>

lemma hang_left:
  assumes "at_ctx (memPool T) (left (root T)) (Some x) cs" "at (memPool T) (Some x) (Nd c Tip x r rt)" "memPool T x = Some n"
    "distinct (addrs (plug cs (Nd c Tip x r rt)))" "unat (memaddr T) \<notin> set (addrs (plug cs (Nd c Tip x r rt)))"
    "unat (memaddr T) + unat (treeNodeSize T) \<le> unat (memoryLimit T)"
    "on_way T (FL c x r rt # cs) (sl + 1)"
  shows "returns (do { T \<leftarrow> NEW_TREE_NODE T; p \<leftarrow> mp T; T \<leftarrow> put_nd (Pool x) (n\<lparr>left := Some p\<rparr>) T; Some (T, Some (p, sl + 1)) })
    (hung T (FL c x r rt # cs))"
proof -
  have a: "set (addrs (plug cs (Nd c Tip x r rt))) = insert x (set (addrs rt)) \<union> set (caddrs cs)"
    by (auto simp: addrs_def items_plug set_caddrs image_Un)
  have "x \<notin> set (addrs rt)" "x \<notin> set (caddrs cs)" using assms(4) by (simp_all add: distinct_plug)
  then show ?thesis using assms(1-3,5-7) unfolding a
    by (auto simp: NEW_TREE_NODE_def put_nd_def Let_def cfg_def usage_def hung_def on_way_def)
qed

lemma hang_right:
  assumes "at_ctx (memPool T) (left (root T)) (Some x) cs" "at (memPool T) (Some x) (Nd c l x r Tip)" "memPool T x = Some n"
    "distinct (addrs (plug cs (Nd c l x r Tip)))" "unat (memaddr T) \<notin> set (addrs (plug cs (Nd c l x r Tip)))"
    "unat (memaddr T) + unat (treeNodeSize T) \<le> unat (memoryLimit T)"
    "on_way T (FR c l x r # cs) (sl + 1)"
  shows "returns (do { T \<leftarrow> NEW_TREE_NODE T; p \<leftarrow> mp T; T \<leftarrow> put_nd (Pool x) (n\<lparr>right := Some p\<rparr>) T; Some (T, Some (p, sl + 1)) })
    (hung T (FR c l x r # cs))"
proof -
  have a: "set (addrs (plug cs (Nd c l x r Tip))) = insert x (set (addrs l)) \<union> set (caddrs cs)"
    by (auto simp: addrs_def items_plug set_caddrs image_Un)
  have "x \<notin> set (addrs l)" "x \<notin> set (caddrs cs)" using assms(4) by (simp_all add: distinct_plug)
  then show ?thesis using assms(1-3,5-7) unfolding a
    by (auto simp: NEW_TREE_NODE_def put_nd_def Let_def cfg_def usage_def hung_def on_way_def)
qed

lemma sum_loop:
  assumes "length xs = n" "length ys = n" "sums_fit xs ys"
  shows "for_range 0 (int n) (\<lambda>i ms. do { u \<leftarrow> aget ms i; v \<leftarrow> aget ys i; s \<leftarrow> i64 (u + v); aset ms i s }) xs = Some (map2 (+) xs ys)"
proof -
  have "returns (for_range 0 (int n) (\<lambda>i ms. do { u \<leftarrow> aget ms i; v \<leftarrow> aget ys i; s \<leftarrow> i64 (u + v); aset ms i s }) xs)
     (\<lambda>ms. ms = take (nat (int n)) (map2 (+) xs ys) @ drop (nat (int n)) xs)"
  proof (rule returns_rangeI [where I = "\<lambda>i ms. ms = take (nat i) (map2 (+) xs ys) @ drop (nat i) xs"])
    fix i ms assume i: "0 \<le> i" "i < int n" and ms: "ms = take (nat i) (map2 (+) xs ys) @ drop (nat i) xs"
    define j where "j = nat i"
    have j: "i = int j" "j < n" "nat (i + 1) = Suc j" using i by (auto simp: j_def)
    define zs where "zs = map2 (+) xs ys"
    have lz: "length zs = n" "zs ! j = xs ! j + ys ! j" using assms(1,2) j(2) by (simp_all add: zs_def)
    have ms': "ms = take j zs @ xs ! j # drop (Suc j) xs" using ms j(2) assms(1) by (simp add: Cons_nth_drop_Suc zs_def flip: j_def)
    have at_j: "ms ! j = xs ! j" "j < length ms" using lz(1) j(2) by (simp_all add: ms' nth_append)
    have "ms[j := zs ! j] = take (Suc j) zs @ drop (Suc j) xs"
      using lz(1) j(2) by (simp add: ms' list_update_append take_Suc_conv_app_nth)
    moreover have "(xs ! j, ys ! j) \<in> set (zip xs ys)" using j(2) assms(1,2) by (auto simp: set_zip)
    then have "i64 (xs ! j + ys ! j) = Some (zs ! j)" using assms(3) unfolding lz(2) by (intro i64_in) (auto simp: sums_fit_def)
    ultimately show "returns (do { u \<leftarrow> aget ms i; v \<leftarrow> aget ys i; s \<leftarrow> i64 (u + v); aset ms i s })
        (\<lambda>ms. ms = take (nat (i + 1)) (map2 (+) xs ys) @ drop (nat (i + 1)) xs)"
      unfolding j(3) j(1) zs_def [symmetric] using at_j j(2) assms(2) by (simp add: nat_add_distrib)
  qed simp_all
  then show ?thesis using assms(1,2) by (auto elim!: returnsE)
qed

lemma add_here:
  assumes "at_ctx (memPool T) (left (root T)) (Some x) cs" "at (memPool T) (Some x) (Nd c l x r rt)"
    "distinct (addrs (plug cs (Nd c l x r rt)))" "row_fits T r" "row_fits T a" "sums_fit (fst r) (fst a)"
  shows "returns (add_measures x a T) (\<lambda>T'. same T T' \<and> at (memPool T') (left (root T')) (plug cs (Nd c l x (add_row r a) rt)))"
proof -
  obtain n where n: "memPool T x = Some n" "nodeMemPool n = r" "clr n = c" "at (memPool T) (left n) l" "at (memPool T) (right n) rt" using assms(2) by auto
  have d: "x \<notin> set (addrs l)" "x \<notin> set (addrs rt)" "x \<notin> set (caddrs cs)" using assms(3) by (auto simp: distinct_plug)
  have "uint (nm T) = int (unat (nm T))" by simp
  then have "for_range 0 (uint (nm T)) (\<lambda>i ms. do { u \<leftarrow> aget ms i; v \<leftarrow> aget (fst a) i; s \<leftarrow> i64 (u + v); aset ms i s }) (fst r) = Some (map2 (+) (fst r) (fst a))"
    using sum_loop [OF _ _ assms(6), of "unat (nm T)"] assms(4,5) by (simp only: row_fits_def)
  then show ?thesis using n d assms(1) by (auto simp: add_measures_def put_nd_def at_plug add_row_def)
qed

lemma find_place_way:
  assumes "on_way T cs sl" "at_ctx (memPool T) (left (root T)) (Some x) cs" "at (memPool T) (Some x) t" "length cs + ht t < MAX_TREE_HEIGHT"
    "rows_fit T t" "row_fits T a" "distinct (addrs (plug cs t))" "place_ok T a (descend cs t (snd a))"
  shows "returns (find_place T a x sl) (placed_row T a (descend cs t (snd a)))"
  using assms
proof (induction t arbitrary: T cs sl x)
  case (Nd c l y r rt)
  obtain n where n: "y = x" "memPool T x = Some n" "clr n = c" "nodeMemPool n = r" "at (memPool T) (left n) l" "at (memPool T) (right n) rt"
    using Nd.prems(3) by auto
  have fit: "row_fits T r" "rows_fit T l" "rows_fit T rt" using Nd.prems(5) by (simp_all add: rows_fit_simps)
  have cmp: "KeyComp (snd a) (snd r) (nd T) = Some (if snd a < snd r then -1 else if snd r < snd a then 1 else 0)"
    using Nd.prems(6) fit(1) by (intro KeyComp_less) (simp_all add: row_fits_def)
  have room: "Suc (length cs) < MAX_TREE_HEIGHT" "Suc (length cs) + ht l < MAX_TREE_HEIGHT" "Suc (length cs) + ht rt < MAX_TREE_HEIGHT"
    using Nd.prems(4) by auto
  show ?case
  proof (cases "snd a < snd r")
    case lt: True
    obtain T1 where T1: "note_step x sl 0 T = Some T1" "on_way T1 (FL c x r rt # cs) (sl + 1)" "memPool T1 = memPool T" "root T1 = root T"
      "cfg T1 = cfg T" "usage T1 = usage T"
      using step_down [OF Nd.prems(1) room(1), of "FL c x r rt"] by auto
    have d: "descend cs (Nd c l y r rt) (snd a) = descend (FL c x r rt # cs) l (snd a)" using lt n(1) by simp
    have ctx: "at_ctx (memPool T1) (left (root T1)) (left n) (FL c x r rt # cs)" using Nd.prems(2) n T1(3,4) by auto
    have dst: "distinct (addrs (plug (FL c x r rt # cs) l))" using Nd.prems(7) n(1) by simp
    have ok: "place_ok T1 a (descend (FL c x r rt # cs) l (snd a))" using Nd.prems(8) placed_row_cfg(2) [OF T1(5,6)] d by simp
    show ?thesis
    proof (cases "left n")
      case None
      then have l: "l = Tip" using n(5) by (cases l) auto
      have "returns (find_place T a x sl) (placed_row T1 a (FL c x r rt # cs, Tip))"
      proof -
        have "unat (memaddr T1) \<notin> set (addrs (plug cs (Nd c Tip x r rt)))" "unat (memaddr T1) + unat (treeNodeSize T1) \<le> unat (memoryLimit T1)"
          using ok by (simp_all add: l place_ok_def)
        then have "returns (do { T \<leftarrow> NEW_TREE_NODE T1; p \<leftarrow> mp T; T \<leftarrow> put_nd (Pool x) (n\<lparr>left := Some p\<rparr>) T; Some (T, Some (p, sl + 1)) })
            (placed_row T1 a (FL c x r rt # cs, Tip))"
          using hang_left [OF _ _ _ _ _ _ T1(2)] Nd.prems(2,3,7) n T1(3,4) unfolding l placed_row_def by simp
        then show ?thesis using cmp lt n T1(1) None by (subst find_place.simps) simp
      qed
      then show ?thesis unfolding d placed_row_cfg(1) [OF T1(5,6)] by (simp add: l)
    next
      case (Some z)
      have "returns (find_place T1 a z (sl + 1)) (placed_row T1 a (descend (FL c x r rt # cs) l (snd a)))"
        by (rule Nd.IH(1) [OF T1(2)]) (use ctx Some n(5) T1 room(2) fit(2) Nd.prems(6) dst ok row_fits_cfg [OF T1(5)] in \<open>auto simp: rows_fit_def\<close>)
      then show ?thesis unfolding d placed_row_cfg(1) [OF T1(5,6)] using cmp lt n T1(1) Some by (subst find_place.simps) simp
    qed
  next
    case ge: False
    show ?thesis
    proof (cases "snd r < snd a")
      case gt: True
      obtain T1 where T1: "note_step x sl 1 T = Some T1" "on_way T1 (FR c l x r # cs) (sl + 1)" "memPool T1 = memPool T" "root T1 = root T"
        "cfg T1 = cfg T" "usage T1 = usage T"
        using step_down [OF Nd.prems(1) room(1), of "FR c l x r"] by auto
      have d: "descend cs (Nd c l y r rt) (snd a) = descend (FR c l x r # cs) rt (snd a)" using gt ge n(1) by simp
      have ctx: "at_ctx (memPool T1) (left (root T1)) (right n) (FR c l x r # cs)" using Nd.prems(2) n T1(3,4) by auto
      have dst: "distinct (addrs (plug (FR c l x r # cs) rt))" using Nd.prems(7) n(1) by simp
      have ok: "place_ok T1 a (descend (FR c l x r # cs) rt (snd a))" using Nd.prems(8) placed_row_cfg(2) [OF T1(5,6)] d by simp
      show ?thesis
      proof (cases "right n")
        case None
        then have l: "rt = Tip" using n(6) by (cases rt) auto
        have "returns (find_place T a x sl) (placed_row T1 a (FR c l x r # cs, Tip))"
        proof -
          have "unat (memaddr T1) \<notin> set (addrs (plug cs (Nd c l x r Tip)))" "unat (memaddr T1) + unat (treeNodeSize T1) \<le> unat (memoryLimit T1)"
            using ok by (simp_all add: l place_ok_def)
          then have "returns (do { T \<leftarrow> NEW_TREE_NODE T1; p \<leftarrow> mp T; T \<leftarrow> put_nd (Pool x) (n\<lparr>right := Some p\<rparr>) T; Some (T, Some (p, sl + 1)) })
              (placed_row T1 a (FR c l x r # cs, Tip))"
            using hang_right [OF _ _ _ _ _ _ T1(2)] Nd.prems(2,3,7) n T1(3,4) unfolding l placed_row_def by simp
          then show ?thesis using cmp gt ge n T1(1) None by (subst find_place.simps) simp
        qed
        then show ?thesis unfolding d placed_row_cfg(1) [OF T1(5,6)] by (simp add: l)
      next
        case (Some z)
        have "returns (find_place T1 a z (sl + 1)) (placed_row T1 a (descend (FR c l x r # cs) rt (snd a)))"
          by (rule Nd.IH(2) [OF T1(2)]) (use ctx Some n(6) T1 room(3) fit(3) Nd.prems(6) dst ok row_fits_cfg [OF T1(5)] in \<open>auto simp: rows_fit_def\<close>)
        then show ?thesis unfolding d placed_row_cfg(1) [OF T1(5,6)] using cmp gt ge n T1(1) Some by (subst find_place.simps) simp
      qed
    next
      case eq: False
      then have d: "descend cs (Nd c l y r rt) (snd a) = (cs, Nd c l x r rt)" using ge n(1) by simp
      have "returns (add_measures x a T) (\<lambda>T'. same T T' \<and> at (memPool T') (left (root T')) (plug cs (Nd c l x (add_row r a) rt)))"
        by (rule add_here) (use Nd.prems n d fit in \<open>auto simp: place_ok_def\<close>)
      then show ?thesis unfolding d using cmp eq ge n same_cfg
        by (subst find_place.simps) (auto simp: placed_row_def added_def elim!: returns_mono)
    qed
  qed
qed simp

end
