(* ===== verification/Rbt_Insert.thy ===== *)
theory Rbt_Insert
  imports Rbt_Ok
begin

text \<open>
  Insertion into the red-black trees of \<open>DC/rbt.c\<close>: the invariant \<open>tree_ok\<close> of the whole structure, with its pool and its
  counters; \<open>TreeInsert\<close> keeps it and refines \<open>upsert\<close> on the sorted list of the rows; any number of insertions into a
  fresh tree groups the rows by their keys, in order.
\<close>

section \<open>Insertion\<close>

text \<open>The specification: insertion into a list of rows sorted by their keys.\<close>

fun upsert :: "row \<Rightarrow> row list \<Rightarrow> row list" where
  "upsert a [] = [a]"
| "upsert a (b # bs) = (if snd a < snd b then a # b # bs else if snd b < snd a then b # upsert a bs else add_row b a # bs)"

lemma upsert_skip: "\<forall>x\<in>set xs. snd x < snd a \<Longrightarrow> upsert a (xs @ ys) = xs @ upsert a ys"
  by (induction xs) auto

lemma upsert_new: "\<forall>x\<in>set xs. snd x < snd a \<Longrightarrow> \<forall>y\<in>set ys. snd a < snd y \<Longrightarrow> upsert a (xs @ ys) = xs @ a # ys"
  by (subst upsert_skip) (simp, cases ys, simp_all)

lemma upsert_old: "\<forall>x\<in>set xs. snd x < snd a \<Longrightarrow> snd b = snd a \<Longrightarrow> upsert a (xs @ b # ys) = xs @ add_row b a # ys"
  by (simp add: upsert_skip)

definition tree_ok :: "RBTree \<Rightarrow> rbt \<Rightarrow> bool" where
  "tree_ok T t \<longleftrightarrow> at (memPool T) (left (root T)) t \<and> distinct (addrs t) \<and> red_black t \<and> sorted_rows (entries t) \<and> rows_fit T t \<and>
     (\<forall>a\<in>set (addrs t). a < unat (memaddr T)) \<and> unat (count T) = length (items t) \<and>
     unat (memaddr T) = length (items t) * unat (treeNodeSize T) \<and> unat (freeNodeCounter T) + length (items t) = unat (nNodesLimit T) \<and>
     unat (nNodesLimit T) = unat (memoryLimit T) div unat (treeNodeSize T) \<and> 32 \<le> unat (treeNodeSize T) \<and>
     memoryIsFull T = (if freeNodeCounter T = 0 \<and> nNodesLimit T \<noteq> 0 then 1 else 0) \<and>
     length (nodes T) = MAX_TREE_HEIGHT \<and> length (drcts T) = MAX_TREE_HEIGHT"

lemma paint_at:
  assumes "at P (Some x) t" "P x = Some n" "distinct (addrs t)"
  shows "at (P(x \<mapsto> n\<lparr>clr := c\<rparr>)) (Some x) (paint c t)"
  using assms by (cases t) auto

lemma limit_bound:
  assumes "tree_ok T t"
  shows "unat (nNodesLimit T) * unat (treeNodeSize T) \<le> unat (memoryLimit T)" "unat (nNodesLimit T) < 2 ^ 31"
proof -
  have l: "unat (nNodesLimit T) = unat (memoryLimit T) div unat (treeNodeSize T)" "32 \<le> unat (treeNodeSize T)"
    using assms by (simp_all add: tree_ok_def)
  then show m: "unat (nNodesLimit T) * unat (treeNodeSize T) \<le> unat (memoryLimit T)" by simp
  have "unat (nNodesLimit T) * 32 \<le> unat (memoryLimit T)" using m l(2) mult_le_mono2 order_trans by blast
  moreover have "unat (memoryLimit T) < 2 ^ 32" using unsigned_less [of "memoryLimit T", where ?'a = nat] by simp
  ultimately show "unat (nNodesLimit T) < 2 ^ 31" by simp
qed

lemma next_node:
  assumes ok: "tree_ok T t" and free: "freeNodeCounter T \<noteq> 0"
  shows "unat (memaddr T) + unat (treeNodeSize T) \<le> unat (memoryLimit T)"
    "unat (memaddr T + treeNodeSize T) = unat (memaddr T) + unat (treeNodeSize T)"
    "unat (freeNodeCounter T - 1) = unat (freeNodeCounter T) - 1" "unat (count T + 1) = Suc (length (items t))"
    "length (items t) < 2 ^ 31 - 1" "nNodesLimit T \<noteq> 0" "memoryIsFull T = 0"
proof -
  have f: "0 < unat (freeNodeCounter T)" using free by (simp add: unat_gt_0)
  have n: "Suc (length (items t)) \<le> unat (nNodesLimit T)" using ok f by (simp add: tree_ok_def)
  have "Suc (length (items t)) * unat (treeNodeSize T) \<le> unat (memoryLimit T)"
    using mult_le_mono1 [OF n] limit_bound(1) [OF ok] by (rule order_trans)
  then show m: "unat (memaddr T) + unat (treeNodeSize T) \<le> unat (memoryLimit T)" using ok by (simp add: tree_ok_def)
  then have "unat (memaddr T) + unat (treeNodeSize T) < 2 ^ 32" using unsigned_less [of "memoryLimit T", where ?'a = nat] by simp
  then show "unat (memaddr T + treeNodeSize T) = unat (memaddr T) + unat (treeNodeSize T)" by (simp add: unat_word_ariths)
  show "unat (freeNodeCounter T - 1) = unat (freeNodeCounter T) - 1" using free by (simp add: unat_minus_one)
  show s: "length (items t) < 2 ^ 31 - 1" using n limit_bound(2) [OF ok] by simp
  have "unat (count T) = length (items t)" using ok by (simp add: tree_ok_def)
  then show "unat (count T + 1) = Suc (length (items t))" using s by (simp add: unat_word_ariths)
  show "nNodesLimit T \<noteq> 0" using n by auto
  show "memoryIsFull T = 0" using ok free by (simp add: tree_ok_def)
qed

text \<open>The bookkeeping after a node was taken.\<close>

lemma tree_ok_grown:
  assumes ok: "tree_ok T t" and free: "freeNodeCounter T \<noteq> 0" and c: "cfg T' = cfg T"
    and u: "usage T' = (count T + 1, memaddr T + treeNodeSize T, freeNodeCounter T - 1, if freeNodeCounter T - 1 = 0 then 1 else memoryIsFull T)"
    and t': "at (memPool T') (left (root T')) t'" "red_black t'" "sorted_rows (entries t')" "row_fits T a"
    and i: "items t' = xs @ (unat (memaddr T), a) # ys" "xs @ ys = items t"
  shows "tree_ok T' t'"
proof -
  note nx = next_node [OF ok free]
  have addr: "addrs t' = List.map fst xs @ unat (memaddr T) # List.map fst ys" using i(1) by (simp add: addrs_def)
  have old: "addrs t = List.map fst xs @ List.map fst ys" unfolding addrs_def i(2) [symmetric] by simp
  have less: "\<forall>b\<in>set (addrs t). b < unat (memaddr T)" "distinct (addrs t)" "rows_fit T t" using ok unfolding tree_ok_def by blast+
  have new: "unat (memaddr T) \<notin> set (addrs t)" using less(1) by blast
  have "distinct (addrs t')" using less(2) new unfolding addr old by auto
  moreover have "entries t' = List.map snd xs @ a # List.map snd ys" "entries t = List.map snd xs @ List.map snd ys"
    unfolding entries_def i(1) i(2) [symmetric] by simp_all
  then have "rows_fit T' t'" using less(3) t'(4) row_fits_cfg [OF c] by (auto simp: rows_fit_def)
  moreover have len: "length (items t') = Suc (length (items t))" unfolding i(1) i(2) [symmetric] by simp
  moreover have "32 \<le> unat (treeNodeSize T)" using ok unfolding tree_ok_def by blast
  then have "unat (memaddr T) < unat (memaddr T')" using u nx(2) by (simp add: usage_def)
  moreover from this have "\<forall>b\<in>set (addrs t'). b < unat (memaddr T')"
    using less(1) unfolding addr old by (auto dest: less_trans)
  moreover have "Suc (unat (freeNodeCounter T - 1)) = unat (freeNodeCounter T)" using nx(3) free by (simp add: unat_gt_0)
  ultimately show ?thesis using ok c u t' nx(2,4,6,7) free unfolding tree_ok_def by (auto simp: cfg_def usage_def)
qed

text \<open>Where the key of \<open>a\<close> belongs in \<open>t\<close>: at \<open>t'\<close>, below the frames \<open>cs\<close>.\<close>

definition place_of :: "row \<Rightarrow> rbt \<Rightarrow> frame list \<Rightarrow> rbt \<Rightarrow> bool" where
  "place_of a t cs t' \<longleftrightarrow> plug cs t' = t \<and> (\<forall>x\<in>set (before cs). snd (snd x) < snd a) \<and> (\<forall>x\<in>set (behind cs). snd a < snd (snd x)) \<and>
     (t' = Tip \<or> (\<exists>c l y r rt. t' = Nd c l y r rt \<and> snd r = snd a)) \<and>
     way_inv (bheight t') cs \<and> invh t' \<and> invc t' \<and> (cs = [] \<or> fcol (hd cs) = RED \<longrightarrow> col t' = BLACK)"

lemma descend_place:
  assumes ok: "tree_ok T t" and d: "descend [] t (snd a) = (cs, t')"
  shows "place_of a t cs t'"
proof -
  have srt: "sorted_rows (entries t)" using ok by (simp add: tree_ok_def)
  have "plug cs t' = t" using descend_plug [OF d] by simp
  moreover have "\<forall>x\<in>set (before cs). snd (snd x) < snd a" "\<forall>x\<in>set (behind cs). snd a < snd (snd x)"
    "t' = Tip \<or> (\<exists>c l y r rt. t' = Nd c l y r rt \<and> snd r = snd a)"
    using descend_key [OF d _ _ srt] by simp_all
  moreover have "invh t" "invc t" "col t = BLACK" using ok by (simp_all add: tree_ok_def red_black_def)
  then have "way_inv (bheight t') cs" "invh t'" "invc t'" "cs = [] \<or> fcol (hd cs) = RED \<longrightarrow> col t' = BLACK"
    using descend_inv [OF d] by simp_all
  ultimately show ?thesis unfolding place_of_def by blast
qed

lemma place_items:
  assumes "place_of a t cs t'"
  shows "items t = before cs @ items t' @ behind cs"
  using assms items_plug [of cs t'] unfolding place_of_def by simp

lemma place_entries:
  assumes "place_of a t cs t'"
  shows "entries t = List.map snd (before cs) @ entries t' @ List.map snd (behind cs)"
  using place_items [OF assms] by (simp add: entries_def)

lemma place_free:
  assumes p: "place_of a t cs Tip" and free: "freeNodeCounter T \<noteq> 0 \<or> (\<exists>b\<in>set (entries t). snd b = snd a)"
  shows "freeNodeCounter T \<noteq> 0"
proof -
  have "snd b \<noteq> snd a" if "b \<in> set (entries t)" for b
    using that p unfolding place_entries [OF p] place_of_def by (auto simp: entries_def)
  then show ?thesis using free by blast
qed

text \<open>The first row.\<close>

lemma TreeInsert_first:
  assumes ok: "tree_ok T Tip" and a: "row_fits T a" and free: "freeNodeCounter T \<noteq> 0"
  shows "returns (TreeInsert T a) (\<lambda>(r, T'). r = 0 \<and> cfg T' = cfg T \<and> (\<exists>t'. tree_ok T' t' \<and> entries t' = [a]))"
proof -
  note nx = next_node [OF ok free]
  have z: "left (root T) = None" "memaddr T = 0" using ok by (simp_all add: tree_ok_def unat_eq_0)
  define T' where "T' = T\<lparr>count := count T + 1, mp := Some 0,
      memPool := (memPool T)(0 \<mapsto> \<lparr>left = None, right = None, clr = BLACK, nodeMemPool = a\<rparr>),
      memaddr := memaddr T + treeNodeSize T, freeNodeCounter := freeNodeCounter T - 1,
      memoryIsFull := (if freeNodeCounter T - 1 = 0 then 1 else memoryIsFull T), root := (root T)\<lparr>left := Some 0\<rparr>\<rparr>"
  have "TreeInsert T a = Some (0, T')"
    using a z nx(1) by (simp add: TreeInsert_def NEW_TREE_NODE_def put_nd_def T'_def row_fits_def Let_def)
  moreover have "tree_ok T' (Nd BLACK Tip 0 a Tip)"
    by (rule tree_ok_grown [OF ok free, where xs = "[]" and ys = "[]" and a = a])
      (use a z in \<open>simp_all add: T'_def cfg_def usage_def red_black_def sorted_rows_def entries_def\<close>)
  moreover have "cfg T' = cfg T" by (simp add: T'_def cfg_def)
  ultimately show ?thesis by (auto simp: entries_def intro!: exI [of _ "Nd BLACK Tip 0 a Tip"])
qed

text \<open>Otherwise, the first loop ends at the place of the key.\<close>

lemma TreeInsert_finds:
  assumes ok: "tree_ok T t" and a: "row_fits T a" and free: "freeNodeCounter T \<noteq> 0 \<or> (\<exists>b\<in>set (entries t). snd b = snd a)"
    and sums: "\<And>b. b \<in> set (entries t) \<Longrightarrow> snd b = snd a \<Longrightarrow> sums_fit (fst b) (fst a)" and x: "left (root T) = Some x"
  obtains cs t' T1 T2 q where "place_of a t cs t'" "cfg T1 = cfg T" "usage T1 = usage T" "placed_row T1 a (cs, t') (T2, q)"
    "TreeInsert T a = (case q of None \<Rightarrow> Some (0, T2) | Some (p, sl) \<Rightarrow> do {
       T \<leftarrow> put_nd (Pool p) \<lparr>left = None, right = None, clr = RED, nodeMemPool = a\<rparr> (T2\<lparr>count := count T2 + 1\<rparr>);
       T \<leftarrow> rebalance T sl;
       x \<leftarrow> left (root T);
       T \<leftarrow> set_clr (Pool x) BLACK T;
       Some (0, T) })"
proof -
  have at_t: "at (memPool T) (left (root T)) t" using ok by (simp add: tree_ok_def)
  have arr: "length (nodes T) = 64" "length (drcts T) = 64" using ok by (simp_all add: tree_ok_def MAX_TREE_HEIGHT_def)
  define T1 where "T1 = T\<lparr>drcts := (drcts T)[0 := 0], nodes := (nodes T)[0 := Root]\<rparr>"
  have T1: "cfg T1 = cfg T" "usage T1 = usage T" "memPool T1 = memPool T" "root T1 = root T" by (simp_all add: T1_def cfg_def usage_def)
  have way: "on_way T1 [] 1"
    using arr by (simp add: on_way_def T1_def MAX_TREE_HEIGHT_def take_Suc_conv_app_nth)
  obtain cs t' where d: "descend [] t (snd a) = (cs, t')" by (cases "descend [] t (snd a)")
  note p = descend_place [OF ok d]
  have place: "place_ok T1 a (cs, t')"
  proof (cases t')
    case Tip
    have "freeNodeCounter T \<noteq> 0" using place_free p free unfolding Tip by blast
    then have "unat (memaddr T) + unat (treeNodeSize T) \<le> unat (memoryLimit T)" by (rule next_node [OF ok])
    moreover have "unat (memaddr T) \<notin> set (addrs t)" using ok unfolding tree_ok_def by blast
    ultimately show ?thesis using Tip p by (simp add: place_ok_def T1_def place_of_def)
  next
    case n: (Nd c l y r rt)
    then have "r \<in> set (entries t)" "snd r = snd a" using p unfolding place_entries [OF p] place_of_def by (auto simp: entries_def)
    then show ?thesis using sums n by (simp add: place_ok_def)
  qed
  have ht: "ht t < 63"
  proof (rule ht_bound)
    show "length (items t) < 2 ^ 31" using ok limit_bound(2) [OF ok] by (simp add: tree_ok_def)
  qed (use ok in \<open>simp add: tree_ok_def\<close>)
  have "returns (find_place T1 a x 1) (placed_row T1 a (cs, t'))"
    unfolding d [symmetric]
    by (rule find_place_way [OF way]) (use x at_t ht ok a place d row_fits_cfg [OF T1(1)] in \<open>simp_all add: T1 tree_ok_def rows_fit_def MAX_TREE_HEIGHT_def\<close>)
  then obtain T2 q where T2: "find_place T1 a x 1 = Some (T2, q)" "placed_row T1 a (cs, t') (T2, q)" by (auto elim!: returnsE)
  show thesis
    by (rule that [OF p T1(1,2) T2(2)]) (use a x arr T2(1) in \<open>simp add: TreeInsert_def T1_def\<close>)
qed

text \<open>A row with the key is there: its measures grow.\<close>

lemma insert_adds:
  assumes ok: "tree_ok T t" and a: "row_fits T a" and p: "place_of a t cs (Nd c l y r rt)"
    and T2: "at (memPool T2) (left (root T2)) t2" "cfg T2 = cfg T" "usage T2 = usage T" and t2: "t2 = plug cs (Nd c l y (add_row r a) rt)"
  shows "tree_ok T2 t2" "entries t2 = upsert a (entries t)"
proof -
  have r: "snd r = snd a" "r \<in> set (entries t)" using p unfolding place_entries [OF p] place_of_def by (auto simp: entries_def)
  have srt: "sorted_rows (entries t)" using ok by (simp add: tree_ok_def)
  have i2: "items t2 = before cs @ items l @ (y, add_row r a) # items rt @ behind cs" by (simp add: t2 items_plug)
  have i1: "items t = before cs @ items l @ (y, r) # items rt @ behind cs" using place_items [OF p] by simp
  have "\<forall>x\<in>set (entries l). snd x < snd a" "\<forall>x\<in>set (List.map snd (before cs)). snd x < snd a"
    using srt p r(1) unfolding i1 entries_def sorted_rows_def place_of_def by (auto simp: sorted_wrt_append)
  then have "upsert a ((List.map snd (before cs) @ entries l) @ r # entries rt @ List.map snd (behind cs)) =
      (List.map snd (before cs) @ entries l) @ add_row r a # entries rt @ List.map snd (behind cs)"
    by (intro upsert_old) (use r in auto)
  then show "entries t2 = upsert a (entries t)" by (simp add: entries_def i1 i2)
  have "red_black t2"
    unfolding t2 by (rule way_plug) (use p in \<open>auto simp: place_of_def\<close>)
  moreover have "sorted_rows (entries t2)" using srt by (simp add: entries_def i1 i2 sorted_rows_def sorted_wrt_append add_row_def)
  moreover have "row_fits T r" using ok r(2) by (simp add: tree_ok_def rows_fit_def)
  then have "rows_fit T2 t2" using ok a row_fits_cfg [OF T2(2)] unfolding tree_ok_def rows_fit_def entries_def i1 i2
    by (auto simp: row_fits_def add_row_def)
  moreover have "addrs t2 = addrs t" "length (items t2) = length (items t)" by (simp_all add: addrs_def i1 i2)
  ultimately show "tree_ok T2 t2" using ok T2 unfolding tree_ok_def by (auto simp: cfg_def usage_def)
qed

text \<open>A new node hangs at the end of the way: the second loop restores the colours.\<close>

lemma insert_rebalances:
  assumes ok: "tree_ok T t" and p: "place_of a t cs Tip" and free: "freeNodeCounter T \<noteq> 0" and x: "x = unat (memaddr T)"
    and T2: "on_way T2 cs sl" "at_ctx (memPool T2) (left (root T2)) (Some x) cs" "memPool T2 x \<noteq> None"
  shows "returns (do {
       T \<leftarrow> put_nd (Pool x) \<lparr>left = None, right = None, clr = RED, nodeMemPool = a\<rparr> (T2\<lparr>count := count T2 + 1\<rparr>);
       T \<leftarrow> rebalance T sl;
       x \<leftarrow> left (root T);
       T \<leftarrow> set_clr (Pool x) BLACK T;
       Some (0 :: int, T) })
     (\<lambda>(r, T'). r = 0 \<and> same (T2\<lparr>count := count T2 + 1\<rparr>) T' \<and> at (memPool T') (left (root T')) (paint BLACK (fix_red cs (Nd RED Tip x a Tip))))"
proof -
  have new: "x \<notin> set (addrs t)" "distinct (addrs t)" using ok unfolding tree_ok_def x by blast+
  have i: "items t = before cs @ behind cs" using place_items [OF p] by simp
  have pc: "x \<notin> set (caddrs cs)" "distinct (caddrs cs)"
    using new p distinct_plug [of cs Tip] unfolding place_of_def by (auto simp: set_caddrs addrs_def i)
  define nd where "nd = \<lparr>left = None, right = None, clr = RED, nodeMemPool = a\<rparr>"
  define T3 where "T3 = T2\<lparr>count := count T2 + 1, memPool := (memPool T2)(x \<mapsto> nd)\<rparr>"
  define leaf where "leaf = Nd RED Tip x a Tip"
  have put: "put_nd (Pool x) nd (T2\<lparr>count := count T2 + 1\<rparr>) = Some T3" using T2(3) by (auto simp: put_nd_def T3_def)
  have "returns (rebalance T3 sl) (\<lambda>T'. same T3 T' \<and> at (memPool T') (left (root T')) (fix_red cs leaf))"
  proof (rule rebalance_fix)
    show "on_way T3 cs sl" using T2(1) by (simp add: T3_def on_way_def)
    show "at_ctx (memPool T3) (left (root T3)) (Some x) cs" using T2(2) pc(1) by (simp add: T3_def)
    show "at (memPool T3) (Some x) leaf" by (simp add: T3_def leaf_def nd_def)
  qed (use pc in \<open>simp_all add: leaf_def\<close>)
  then obtain T4 where T4: "rebalance T3 sl = Some T4" "same T3 T4" "at (memPool T4) (left (root T4)) (fix_red cs leaf)" by (auto elim!: returnsE)
  have i4: "items (fix_red cs leaf) = before cs @ (x, a) # behind cs"
    using fix_items [of leaf cs] by (simp add: leaf_def items_plug)
  then have ne: "fix_red cs leaf \<noteq> Tip" by auto
  then obtain y ny where y: "left (root T4) = Some y" "memPool T4 y = Some ny" using T4(3) by (cases "fix_red cs leaf") auto
  define T5 where "T5 = T4\<lparr>memPool := (memPool T4)(y \<mapsto> ny\<lparr>clr := BLACK\<rparr>)\<rparr>"
  have set5: "set_clr (Pool y) BLACK T4 = Some T5" using y by (simp add: set_clr_def get_nd_def put_nd_def T5_def)
  have "distinct (addrs (fix_red cs leaf))" using new by (auto simp: addrs_def i4 i)
  then have "at (memPool T5) (left (root T5)) (paint BLACK (fix_red cs leaf))"
    unfolding T5_def using paint_at [of "memPool T4" y _ ny BLACK] T4(3) y by simp
  moreover obtain rt P where "T4 = T3\<lparr>root := rt, memPool := P\<rparr>" using T4(2) unfolding same_def by blast
  then have "T5 = T2\<lparr>count := count T2 + 1, root := rt, memPool := P(y \<mapsto> ny\<lparr>clr := BLACK\<rparr>)\<rparr>" by (simp add: T3_def T5_def)
  then have "same (T2\<lparr>count := count T2 + 1\<rparr>) T5" unfolding same_def by blast
  ultimately show ?thesis using put T4(1) y(1) set5 unfolding nd_def leaf_def by simp
qed

lemma insert_hangs:
  assumes ok: "tree_ok T t" and a: "row_fits T a" and p: "place_of a t cs Tip" and free: "freeNodeCounter T \<noteq> 0"
    and T': "at (memPool T') (left (root T')) t2" "cfg T' = cfg T"
      "usage T' = (count T + 1, memaddr T + treeNodeSize T, freeNodeCounter T - 1, if freeNodeCounter T - 1 = 0 then 1 else memoryIsFull T)"
    and t2: "t2 = paint BLACK (fix_red cs (Nd RED Tip (unat (memaddr T)) a Tip))"
  shows "tree_ok T' t2" "entries t2 = upsert a (entries t)"
proof -
  have srt: "sorted_rows (entries t)" using ok by (simp add: tree_ok_def)
  have i2: "items t2 = before cs @ (unat (memaddr T), a) # behind cs"
    using fix_items [of "Nd RED Tip (unat (memaddr T)) a Tip" cs] by (simp add: t2 items_plug)
  have i: "before cs @ behind cs = items t" using place_items [OF p] by simp
  have "upsert a (List.map snd (before cs) @ List.map snd (behind cs)) = List.map snd (before cs) @ a # List.map snd (behind cs)"
    by (rule upsert_new) (use p in \<open>auto simp: place_of_def\<close>)
  then show "entries t2 = upsert a (entries t)" by (simp add: entries_def i2 flip: i)
  have "red_black t2"
    unfolding t2 by (rule fix_red_black) (use p in \<open>simp_all add: place_of_def\<close>)
  moreover have "sorted_rows (entries t2)"
    using srt p unfolding sorted_rows_def entries_def i2 i [symmetric] place_of_def by (auto simp: sorted_wrt_append sorted_wrt_map)
  ultimately show "tree_ok T' t2" using a T' i i2 by (intro tree_ok_grown [OF ok free, of T' t2 a]) auto
qed

lemma TreeInsert_upsert:
  assumes ok: "tree_ok T t" and a: "row_fits T a" and free: "freeNodeCounter T \<noteq> 0 \<or> (\<exists>b\<in>set (entries t). snd b = snd a)"
    and sums: "\<And>b. b \<in> set (entries t) \<Longrightarrow> snd b = snd a \<Longrightarrow> sums_fit (fst b) (fst a)"
  shows "returns (TreeInsert T a) (\<lambda>(r, T'). r = 0 \<and> cfg T' = cfg T \<and> (\<exists>t'. tree_ok T' t' \<and> entries t' = upsert a (entries t)))"
proof (cases "left (root T)")
  case None
  then have "t = Tip" using ok by (cases t) (simp_all add: tree_ok_def)
  then show ?thesis using TreeInsert_first ok a free by (simp add: entries_def)
next
  case (Some x)
  obtain cs t' T1 T2 q where p: "place_of a t cs t'" and T1: "cfg T1 = cfg T" "usage T1 = usage T"
    and T2: "placed_row T1 a (cs, t') (T2, q)"
    and start: "TreeInsert T a = (case q of None \<Rightarrow> Some (0, T2) | Some (p, sl) \<Rightarrow> do {
       T \<leftarrow> put_nd (Pool p) \<lparr>left = None, right = None, clr = RED, nodeMemPool = a\<rparr> (T2\<lparr>count := count T2 + 1\<rparr>);
       T \<leftarrow> rebalance T sl;
       x \<leftarrow> left (root T);
       T \<leftarrow> set_clr (Pool x) BLACK T;
       Some (0, T) })"
    by (rule TreeInsert_finds [OF ok a free sums Some])
  show ?thesis
  proof (cases t')
    case n: (Nd c l y r rt)
    have q: "q = None" "at (memPool T2) (left (root T2)) (plug cs (Nd c l y (add_row r a) rt))" "cfg T2 = cfg T" "usage T2 = usage T"
      using T2 n T1 by (simp_all add: placed_row_def added_def)
    show ?thesis using insert_adds [OF ok a p [unfolded n] q(2,3,4) refl] start q(1,3) by auto
  next
    case Tip
    note fr = place_free [OF p [unfolded Tip] free]
    define x where "x = unat (memaddr T)"
    obtain sl where q: "q = Some (x, sl)" "on_way T2 cs sl" "at_ctx (memPool T2) (left (root T2)) (Some x) cs" "memPool T2 x \<noteq> None" "cfg T2 = cfg T"
      "usage T2 = (count T, memaddr T + treeNodeSize T, freeNodeCounter T - 1, if freeNodeCounter T - 1 = 0 then 1 else memoryIsFull T)"
      using T2 Tip T1 by (auto simp: placed_row_def hung_def x_def cfg_def usage_def)
    have grown: "cfg T' = cfg T \<and> (\<exists>t'. tree_ok T' t' \<and> entries t' = upsert a (entries t))"
      if s: "same (T2\<lparr>count := count T2 + 1\<rparr>) T'" and at': "at (memPool T') (left (root T')) (paint BLACK (fix_red cs (Nd RED Tip x a Tip)))" for T'
    proof -
      have c: "cfg T' = cfg T"
        "usage T' = (count T + 1, memaddr T + treeNodeSize T, freeNodeCounter T - 1, if freeNodeCounter T - 1 = 0 then 1 else memoryIsFull T)"
        using same_cfg [OF s] q(5,6) by (simp_all add: cfg_def usage_def)
      show ?thesis using insert_hangs [OF ok a p [unfolded Tip] fr at' [unfolded x_def] c refl] c(1) by blast
    qed
    show ?thesis unfolding start q(1)
      using insert_rebalances [OF ok p [unfolded Tip] fr x_def q(2,3,4)] grown by (auto elim!: returns_mono)
  qed
qed

end
