(* ===== verification/Dc_Groups.thy ===== *)
theory Dc_Groups
  imports Rbt_Insert
begin

text \<open>
  What a view of the data cube is: the rows grouped by their attributes, in the order of the attributes, each group
  with the sums of its measures.  The facts that the algorithms of the benchmark rest on: rows can be inserted one by one,
  in any order; groups can be grouped again, which merges sorted runs and computes a view from a finer one.  Last, a
  tree of \<open>DC/rbt.c\<close> as a collection that holds the groups of the rows inserted so far.
\<close>

section \<open>Groups\<close>

text \<open>The sum of a measure over the rows whose key has a property.\<close>

definition psum :: "(32 word list \<Rightarrow> bool) \<Rightarrow> row list \<Rightarrow> nat \<Rightarrow> int" where
  "psum P as i = (\<Sum>a\<leftarrow>filter (\<lambda>a. P (snd a)) as. fst a ! i)"

definition group_rows :: "nat \<Rightarrow> row list \<Rightarrow> row list" where
  "group_rows m as = List.map (\<lambda>k. (List.map (psum (\<lambda>x. x = k) as) [0..<m], k)) (sorted_list_of_set (snd ` set as))"

lemma psum_simps [simp]:
  "psum P [] i = 0" "psum P (a # as) i = (if P (snd a) then fst a ! i else 0) + psum P as i"
  "psum P (as @ bs) i = psum P as i + psum P bs i"
  by (simp_all add: psum_def)

lemma group_keys: "List.map snd (group_rows m as) = sorted_list_of_set (snd ` set as)"
  by (simp add: group_rows_def o_def)

lemma group_key_set [simp]: "snd ` set (group_rows m as) = snd ` set as"
  by (simp add: group_rows_def image_image)

lemma group_length: "length (group_rows m as) = card (snd ` set as)"
  by (simp add: group_rows_def)

lemma sorted_rows_keys: "sorted_rows xs \<longleftrightarrow> sorted_wrt (<) (List.map snd xs)"
  by (simp add: sorted_rows_def sorted_wrt_map)

lemma group_sorted [simp]: "sorted_rows (group_rows m as)"
  by (simp add: sorted_rows_keys group_keys)

lemma group_measures: "x \<in> set (group_rows m as) \<Longrightarrow> fst x = List.map (psum (\<lambda>y. y = snd x) as) [0..<m]"
  by (auto simp: group_rows_def)

text \<open>The groups are determined by their order, keys and sums.\<close>

lemma group_rows_eqI:
  assumes s: "sorted_rows xs" and k: "snd ` set xs = snd ` set as"
    and v: "\<And>x. x \<in> set xs \<Longrightarrow> fst x = List.map (psum (\<lambda>y. y = snd x) as) [0..<m]"
  shows "xs = group_rows m as"
proof -
  have "List.map snd xs = sorted_list_of_set (snd ` set as)"
    using s k by (intro strict_sorted_equal) (simp_all add: sorted_rows_keys)
  then have "group_rows m as = List.map (\<lambda>k. (List.map (psum (\<lambda>x. x = k) as) [0..<m], k)) (List.map snd xs)"
    by (simp add: group_rows_def)
  also have "\<dots> = List.map (\<lambda>x. x) xs" unfolding list.map_comp using v by (intro list.map_cong) (auto simp: prod_eq_iff)
  finally show ?thesis by simp
qed

lemma group_rows_cong:
  assumes "snd ` set as = snd ` set bs" "\<And>k i. i < m \<Longrightarrow> psum (\<lambda>x. x = k) as i = psum (\<lambda>x. x = k) bs i"
  shows "group_rows m as = group_rows m bs"
  using assms by (auto simp: group_rows_def)

lemma group_rows_swap: "group_rows m (as @ bs) = group_rows m (bs @ as)"
  by (rule group_rows_cong) auto

lemma group_rows_rot: "group_rows m (as @ bs @ cs) = group_rows m (bs @ cs @ as)"
  using group_rows_swap [of m as "bs @ cs"] by simp

section \<open>One row at a time\<close>

lemma upsert_keys [simp]: "snd ` set (upsert a bs) = insert (snd a) (snd ` set bs)"
  by (induction a bs rule: upsert.induct) (auto simp: add_row_def not_less)

lemma upsert_elem:
  "x \<in> set (upsert a bs) \<Longrightarrow> sorted_rows bs \<Longrightarrow>
   snd x \<noteq> snd a \<and> x \<in> set bs \<or> x = a \<and> snd a \<notin> snd ` set bs \<or> (\<exists>b\<in>set bs. snd b = snd a \<and> x = add_row b a)"
  by (induction a bs rule: upsert.induct) (auto simp: sorted_rows_def add_row_def split: if_splits)

lemma upsert_sorted: "sorted_rows bs \<Longrightarrow> sorted_rows (upsert a bs)"
proof (induction a bs rule: upsert.induct)
  case (2 a b bs)
  have "\<forall>x\<in>set (upsert a bs). snd b < snd x" if "snd b < snd a"
    
  proof
    fix x assume "x \<in> set (upsert a bs)"
    then have "snd x \<in> insert (snd a) (snd ` set bs)" unfolding upsert_keys [symmetric] by (rule imageI)
    then show "snd b < snd x" using 2 that by (auto simp: sorted_rows_def)
  qed
  then show ?case using 2 by (auto simp: sorted_rows_def add_row_def)
qed (simp add: sorted_rows_def)

lemma psum_absent: "\<forall>a\<in>set as. \<not> P (snd a) \<Longrightarrow> psum P as i = 0"
  by (induction as) auto

lemma group_upsert:
  assumes "length (fst a) = m"
  shows "upsert a (group_rows m as) = group_rows m (a # as)"
proof (rule group_rows_eqI)
  fix x assume x: "x \<in> set (upsert a (group_rows m as))"
  show "fst x = List.map (psum (\<lambda>y. y = snd x) (a # as)) [0..<m]"
    using upsert_elem [OF x group_sorted]
  proof (elim disjE conjE bexE)
    assume "x = a" "snd a \<notin> snd ` set (group_rows m as)"
    moreover from this have "psum (\<lambda>y. y = snd a) as i = 0" for i by (intro psum_absent) (auto simp: image_iff)
    ultimately show ?thesis using assms by (auto intro!: nth_equalityI)
  next
    fix b assume "b \<in> set (group_rows m as)" "snd b = snd a" "x = add_row b a"
    then show ?thesis using assms group_measures [of b m as] by (auto intro!: nth_equalityI simp: add_row_def)
  qed (use group_measures [of x m as] in auto)
qed (simp_all add: upsert_sorted)

lemma group_Nil [simp]: "group_rows m [] = []"
  by (simp add: group_rows_def)

lemma group_snoc: "length (fst a) = m \<Longrightarrow> upsert a (group_rows m as) = group_rows m (as @ [a])"
  using group_rows_swap [of m "[a]" as] by (simp add: group_upsert)

section \<open>Groups of groups\<close>

lemma psum_upsert:
  "length (fst a) = m \<Longrightarrow> \<forall>b\<in>set bs. length (fst b) = m \<Longrightarrow> i < m \<Longrightarrow>
   psum P (upsert a bs) i = (if P (snd a) then fst a ! i else 0) + psum P bs i"
  by (induction a bs rule: upsert.induct) (auto simp: add_row_def not_less)

lemma group_lengths: "\<forall>b\<in>set (group_rows m as). length (fst b) = m"
  by (auto simp: group_rows_def)

lemma psum_group: "\<forall>a\<in>set as. length (fst a) = m \<Longrightarrow> i < m \<Longrightarrow> psum P (group_rows m as) i = psum P as i"
  by (induction as) (simp_all add: group_upsert [symmetric] psum_upsert group_lengths)

text \<open>The keys mapped, as a view is computed from a finer one.\<close>

definition on_key :: "(32 word list \<Rightarrow> 32 word list) \<Rightarrow> row \<Rightarrow> row" where
  "on_key f a = (fst a, f (snd a))"

lemma on_key_simps [simp]: "fst (on_key f a) = fst a" "snd (on_key f a) = f (snd a)"
  by (simp_all add: on_key_def)

lemma psum_on_key: "psum P (List.map (on_key f) as) i = psum (\<lambda>k. P (f k)) as i"
  by (induction as) simp_all

lemma group_group:
  assumes "\<forall>a\<in>set as. length (fst a) = m"
  shows "group_rows m (List.map (on_key f) (group_rows m as) @ bs) = group_rows m (List.map (on_key f) as @ bs)"
proof (rule group_rows_cong)
  have "(f \<circ> snd) ` set (group_rows m as) = (f \<circ> snd) ` set as" unfolding image_comp [symmetric] by simp
  then show "snd ` set (List.map (on_key f) (group_rows m as) @ bs) = snd ` set (List.map (on_key f) as @ bs)"
    by (simp add: image_Un image_image o_def)
qed (simp add: psum_on_key psum_group assms)

lemma on_key_id [simp]: "on_key (\<lambda>k. k) a = a" by (simp add: on_key_def)

lemma group_merge:
  assumes "\<forall>as\<in>set ass. \<forall>a\<in>set as. length (fst a) = m"
  shows "group_rows m (concat (List.map (group_rows m) ass) @ bs) = group_rows m (concat ass @ bs)"
  using assms
proof (induction ass arbitrary: bs)
  case (Cons as ass)
  have "group_rows m (group_rows m as @ concat (List.map (group_rows m) ass) @ bs) = group_rows m (as @ concat (List.map (group_rows m) ass) @ bs)"
    using group_group [of as m "\<lambda>k. k"] Cons.prems by (simp cong: list.map_cong)
  also have "\<dots> = group_rows m (concat (List.map (group_rows m) ass) @ (bs @ as))" by (rule group_rows_rot [THEN trans]) simp
  also have "\<dots> = group_rows m (concat ass @ (bs @ as))" using Cons by (intro Cons.IH) simp
  also have "\<dots> = group_rows m (as @ concat ass @ bs)" using group_rows_rot [of m as "concat ass" bs] by simp
  finally show ?case by simp
qed simp

section \<open>Sums in range\<close>

definition asum :: "row list \<Rightarrow> nat \<Rightarrow> int" where
  "asum as i = (\<Sum>a\<leftarrow>as. \<bar>fst a ! i\<bar>)"

lemma asum_simps [simp]: "asum [] i = 0" "asum (a # as) i = \<bar>fst a ! i\<bar> + asum as i" "asum (as @ bs) i = asum as i + asum bs i"
  by (simp_all add: asum_def)

lemma asum_nonneg: "0 \<le> asum as i"
  unfolding asum_def by (rule sum_list_nonneg) auto

lemma asum_append_less: "asum as i + asum bs i < c \<Longrightarrow> asum as i < c" "asum as i + asum bs i < c \<Longrightarrow> asum bs i < c"
  using asum_nonneg [of as i] asum_nonneg [of bs i] by linarith+

definition bounded_rows :: "nat \<Rightarrow> row list \<Rightarrow> bool" where
  "bounded_rows m as \<longleftrightarrow> (\<forall>a\<in>set as. length (fst a) = m) \<and> (\<forall>i<m. asum as i < 2 ^ 63)"

lemma psum_abs: "\<bar>psum P as i\<bar> \<le> asum as i"
  by (induction as) auto

lemma bounded_append: "bounded_rows m (as @ bs) \<Longrightarrow> bounded_rows m as \<and> bounded_rows m bs"
  unfolding bounded_rows_def by (auto dest: asum_append_less)

text \<open>The groups are not larger than the rows.\<close>

lemma asum_upsert:
  "length (fst a) = m \<Longrightarrow> \<forall>b\<in>set bs. length (fst b) = m \<Longrightarrow> i < m \<Longrightarrow> asum (upsert a bs) i \<le> \<bar>fst a ! i\<bar> + asum bs i"
  by (induction a bs rule: upsert.induct) (auto simp: add_row_def not_less)

lemma asum_group: "\<forall>a\<in>set as. length (fst a) = m \<Longrightarrow> i < m \<Longrightarrow> asum (group_rows m as) i \<le> asum as i"
proof (induction as)
  case (Cons a as)
  then show ?case using asum_upsert [of a m "group_rows m as" i] by (simp add: group_upsert [symmetric] group_lengths)
qed simp

lemma bounded_sums_fit:
  assumes "bounded_rows m (as @ [a])" "b \<in> set (group_rows m as)"
  shows "sums_fit (fst b) (fst a)"
proof -
  have l: "length (fst b) = m" "length (fst a) = m" using assms group_lengths by (auto simp: bounded_rows_def)
  have "\<bar>fst b ! i + fst a ! i\<bar> < 2 ^ 63" if "i < m" for i
  proof -
    have "\<bar>fst b ! i\<bar> \<le> asum as i" using group_measures [OF assms(2)] psum_abs that by simp
    moreover have "asum as i + \<bar>fst a ! i\<bar> < 2 ^ 63" using assms(1) that by (simp add: bounded_rows_def)
    ultimately show ?thesis by linarith
  qed
  then show ?thesis using l by (force simp: sums_fit_def set_zip)
qed

section \<open>A tree as a collection of groups\<close>

definition holds :: "RBTree \<Rightarrow> row list \<Rightarrow> bool" where
  "holds T as \<longleftrightarrow> (\<exists>t. tree_ok T t \<and> entries t = group_rows (unat (nm T)) as)"

lemma cfg_nm: "cfg T' = cfg T \<Longrightarrow> nm T' = nm T \<and> nd T' = nd T \<and> memoryLimit T' = memoryLimit T"
  by (simp add: cfg_def)

lemma TreeInsert_holds_key:
  assumes h: "holds T as" and a: "row_fits T a" and free: "freeNodeCounter T \<noteq> 0 \<or> snd a \<in> snd ` set as" and b: "bounded_rows (unat (nm T)) (as @ [a])"
  shows "returns (TreeInsert T a) (\<lambda>(r, T'). r = 0 \<and> cfg T' = cfg T \<and> holds T' (as @ [a]))"
proof -
  obtain t where t: "tree_ok T t" "entries t = group_rows (unat (nm T)) as" using h by (auto simp: holds_def)
  have m: "length (fst a) = unat (nm T)" using a by (simp add: row_fits_def)
  have "snd a \<in> snd ` set (entries t)" if "snd a \<in> snd ` set as" unfolding t(2) using that by simp
  then have f: "freeNodeCounter T \<noteq> 0 \<or> (\<exists>b\<in>set (entries t). snd b = snd a)" using free by (metis imageE)
  have "returns (TreeInsert T a) (\<lambda>(r, T'). r = 0 \<and> cfg T' = cfg T \<and> (\<exists>t'. tree_ok T' t' \<and> entries t' = upsert a (entries t)))"
    using bounded_sums_fit [OF b] t(2) by (intro TreeInsert_upsert [OF t(1) a f]) auto
  moreover have "holds T' (as @ [a])" if c: "cfg T' = cfg T" and t': "tree_ok T' t'" "entries t' = upsert a (entries t)" for T' t'
    using t' t(2) group_snoc [OF m] cfg_nm [OF c] by (auto simp: holds_def)
  ultimately show ?thesis by (auto elim!: returns_mono)
qed

lemma TreeInsert_holds:
  assumes "holds T as" "row_fits T a" "freeNodeCounter T \<noteq> 0" "bounded_rows (unat (nm T)) (as @ [a])"
  shows "returns (TreeInsert T a) (\<lambda>(r, T'). r = 0 \<and> cfg T' = cfg T \<and> holds T' (as @ [a]))"
  using assms by (intro TreeInsert_holds_key) simp_all

lemma holds_count:
  assumes "holds T as"
  shows "unat (count T) = card (snd ` set as)" "unat (freeNodeCounter T) + unat (count T) = unat (nNodesLimit T)"
    "memoryIsFull T = (if freeNodeCounter T = 0 \<and> nNodesLimit T \<noteq> 0 then 1 else 0)"
proof -
  obtain t where t: "tree_ok T t" "entries t = group_rows (unat (nm T)) as" using assms by (auto simp: holds_def)
  have "length (items t) = card (snd ` set as)" using arg_cong [OF t(2), of length] by (simp add: entries_def group_length)
  then show "unat (count T) = card (snd ` set as)" "unat (freeNodeCounter T) + unat (count T) = unat (nNodesLimit T)"
    "memoryIsFull T = (if freeNodeCounter T = 0 \<and> nNodesLimit T \<noteq> 0 then 1 else 0)"
    using t(1) by (simp_all add: tree_ok_def)
qed

text \<open>A tree is created and emptied in a state that holds no row.\<close>

lemma tree_node_size_bounds:
  assumes "0 < d" "d \<le> 20" "m \<le> 4"
  shows "32 \<le> unat (tree_node_size d m)" "unat (tree_node_size d m) \<le> 144" "4 * unat d + 8 * unat m \<le> unat (tree_node_size d m)"
proof -
  have d: "unat (d - 1) \<le> 19" using assms(1,2) by unat_arith
  have m: "unat m \<le> 4" using assms(3) by unat_arith
  have "unat (sizeof_treeNode + DIM_FSZ * (d - 1) + MSR_FSZ * m) = 32 + 4 * unat (d - 1) + 8 * unat m"
  proof -
    have "unat (DIM_FSZ * (d - 1)) = 4 * unat (d - 1)" unfolding unat_word_ariths(2) using d by (simp add: DIM_FSZ_def del: unat_sub)
    moreover have "unat (MSR_FSZ * m) = 8 * unat m" unfolding unat_word_ariths(2) using m by (simp add: MSR_FSZ_def)
    ultimately show ?thesis unfolding unat_word_ariths(1) using d m by (simp add: sizeof_treeNode_def)
  qed
  moreover have "unat d = Suc (unat (d - 1))" using assms(1) by unat_arith
  ultimately show "32 \<le> unat (tree_node_size d m)" "unat (tree_node_size d m) \<le> 144" "4 * unat d + 8 * unat m \<le> unat (tree_node_size d m)"
    using d m by (auto simp: tree_node_size_def Let_def unat_word_ariths)
qed

lemma InitializeTree_holds:
  assumes "length (nodes T) = MAX_TREE_HEIGHT" "length (drcts T) = MAX_TREE_HEIGHT" "0 < d" "d \<le> 20" "m \<le> 4"
  shows "returns (InitializeTree T d m) (\<lambda>T'. holds T' [] \<and> nd T' = d \<and> nm T' = m \<and> memoryLimit T' = memoryLimit T \<and>
     treeNodeSize T' = tree_node_size d m \<and> count T' = 0 \<and> nNodesLimit T' = memoryLimit T div tree_node_size d m)"
proof -
  note s = tree_node_size_bounds [OF assms(3-5)]
  have "tree_node_size d m \<noteq> 0" using s(1) by auto
  then show ?thesis using s assms(1,2)
    by (auto simp: InitializeTree_def Let_def holds_def tree_ok_def entries_def red_black_def sorted_rows_def rows_fit_def addrs_def unat_div
        intro!: exI [of _ Tip])
qed

lemma CreateEmptyTree_holds:
  assumes "length (nodes raw) = MAX_TREE_HEIGHT" "length (drcts raw) = MAX_TREE_HEIGHT" "0 < d" "d \<le> 20" "m \<le> 4"
  shows "returns (CreateEmptyTree raw d m limit) (\<lambda>T'. holds T' [] \<and> nd T' = d \<and> nm T' = m \<and> memoryLimit T' = limit \<and>
     treeNodeSize T' = tree_node_size d m \<and> nNodesLimit T' = limit div tree_node_size d m)"
proof -
  note s = tree_node_size_bounds [OF assms(3-5)]
  have "tree_node_size d m \<noteq> 0" using s(1) by auto
  then show ?thesis using s assms(1,2)
    by (auto simp: CreateEmptyTree_def Let_def holds_def tree_ok_def entries_def red_black_def sorted_rows_def rows_fit_def addrs_def unat_div
        intro!: exI [of _ Tip])
qed

text \<open>C16: inserting any rows with \<open>TreeInsert\<close> into a tree of \<open>CreateEmptyTree\<close> that has memory for their different keys runs
  without an invalid access and ends in a red-black tree within its memory, whose rows from left to right are the groups of
  the inserted rows: one row for each key, in the order of the keys, with the sums of the measures.\<close>

theorem inserted_rows_grouped:
  assumes "length (nodes raw) = MAX_TREE_HEIGHT" "length (drcts raw) = MAX_TREE_HEIGHT" "0 < d" "d \<le> 20" "m \<le> 4"
    and rows: "\<forall>a\<in>set rows. length (fst a) = unat m \<and> length (snd a) = unat d" "\<forall>i<unat m. asum rows i < 2 ^ 63"
    and memory: "card (snd ` set rows) \<le> unat (limit div tree_node_size d m)"
  shows "returns (do { T \<leftarrow> CreateEmptyTree raw d m limit; for_each (\<lambda>a T. do { (r, T) \<leftarrow> TreeInsert T a; Some T }) rows T })
    (\<lambda>T. \<exists>t. tree_ok T t \<and> entries t = group_rows (unat m) rows)"
proof -
  let ?I = "\<lambda>as T. holds T as \<and> nd T = d \<and> nm T = m \<and> nNodesLimit T = limit div tree_node_size d m"
  obtain T where T: "CreateEmptyTree raw d m limit = Some T" "?I [] T"
    using CreateEmptyTree_holds [OF assms(1-5)] by (auto elim!: returnsE)
  have "returns (for_each (\<lambda>a T. do { (r, T) \<leftarrow> TreeInsert T a; Some T }) rows T) (?I rows)"
  proof (rule returns_for_each [where I = ?I])
    fix as a rest S assume r: "rows = as @ a # rest" and I: "?I as S"
    have "bounded_rows (unat m) ((as @ [a]) @ rest)" using rows by (simp add: bounded_rows_def r)
    then have b: "bounded_rows (unat (nm S)) (as @ [a])" using I bounded_append by metis
    have f: "row_fits S a" using rows(1) I by (simp add: row_fits_def r)
    have free: "freeNodeCounter S \<noteq> 0 \<or> snd a \<in> snd ` set as"
    proof (rule disjCI)
      assume n: "snd a \<notin> snd ` set as"
      have "card (insert (snd a) (snd ` set as)) \<le> card (snd ` set rows)" by (intro card_mono) (auto simp: r)
      then have "card (snd ` set as) < unat (nNodesLimit S)" using n memory I by simp
      then show "freeNodeCounter S \<noteq> 0" using holds_count(1,2) [of S as] I by auto
    qed
    show "returns (do { (r, T) \<leftarrow> TreeInsert S a; Some T }) (?I (as @ [a]))"
      using TreeInsert_holds_key [OF _ f free b] I by (auto simp: cfg_def elim!: returnsE)
  qed (use T in simp)
  then show ?thesis using T(1) by (auto simp: holds_def elim!: returns_mono)
qed

text \<open>Two rows of one key and one of another.\<close>

definition raw_tree :: "32 word \<Rightarrow> RBTree" where
  "raw_tree limit = \<lparr>root = \<lparr>left = None, right = None, clr = BLACK, nodeMemPool = ([], [])\<rparr>, mp = None, count = 0, treeNodeSize = 0, nodeDataSize = 0,
     memoryLimit = limit, memaddr = 0, memoryIsFull = 0, freeNodeCounter = 0, nNodesLimit = 0, nd = 0, nm = 0,
     drcts = replicate MAX_TREE_HEIGHT 0, nodes = replicate MAX_TREE_HEIGHT Root, memPool = \<lambda>_. None,
     raw_node = \<lambda>_. \<lparr>left = None, right = None, clr = BLACK, nodeMemPool = ([], [])\<rparr>\<rparr>"

theorem inserted_rows_grouped_witness:
  "returns (do { T \<leftarrow> CreateEmptyTree (raw_tree 0) 2 1 200; for_each (\<lambda>a T. do { (r, T) \<leftarrow> TreeInsert T a; Some T }) [([5], [2, 2]), ([7], [1, 2]), ([1], [2, 2])] T })
    (\<lambda>T. \<exists>t. tree_ok T t \<and> entries t = [([7], [1, 2]), ([6], [2, 2])])"
proof -
  have raw: "length (nodes (raw_tree 0)) = MAX_TREE_HEIGHT" "length (drcts (raw_tree 0)) = MAX_TREE_HEIGHT" by (simp_all add: raw_tree_def)
  have g: "group_rows (unat (1 :: 32 word)) [([5], [2, 2]), ([7], [1, 2]), ([1], [2, 2])] = [([7], [1, 2]), ([6], [2, 2])]"
    by (simp add: group_upsert [symmetric] add_row_def)
  show ?thesis
    using inserted_rows_grouped [OF raw, of 2 1 "[([5], [2, 2]), ([7], [1, 2]), ([1], [2, 2])]" 200] unfolding g
    by (simp add: tree_node_size_def sizeof_treeNode_def DIM_FSZ_def MSR_FSZ_def Let_def card_insert_if)
qed

end
