(* ===== verification/Dc_Files.thy ===== *)
theory Dc_Files
  imports Dc_View Dc_Groups
begin

text \<open>
  Lemmas on the files of rows and on the functions that write a tree to a file: consecutive writes leave the rows one
  after the other, and keep what was there before; the trees are written in the order of their keys.
\<close>

section \<open>Rows one after the other\<close>

primrec run_at :: "row_file \<Rightarrow> nat \<Rightarrow> row list \<Rightarrow> bool" where
  "run_at f p [] \<longleftrightarrow> True"
| "run_at f p (a # as) \<longleftrightarrow> recs f p = Some a \<and> run_at f (p + row_bytes a) as"

definition rows_bytes :: "row list \<Rightarrow> nat" where
  "rows_bytes as = (\<Sum>a\<leftarrow>as. row_bytes a)"

definition write_rows :: "row list \<Rightarrow> row_file \<Rightarrow> row_file" where
  "write_rows as f = fold write_rec as f"

lemma rows_bytes_simps [simp]:
  "rows_bytes [] = 0" "rows_bytes (a # as) = row_bytes a + rows_bytes as" "rows_bytes (as @ bs) = rows_bytes as + rows_bytes bs"
  by (simp_all add: rows_bytes_def)

lemma rows_bytes_const: "\<forall>a\<in>set as. row_bytes a = s \<Longrightarrow> rows_bytes as = length as * s"
  by (induction as) auto

lemma run_at_append: "run_at f p (as @ bs) \<longleftrightarrow> run_at f p as \<and> run_at f (p + rows_bytes as) bs"
  by (induction as arbitrary: p) (simp_all add: add.assoc)

lemma run_at_cong: "recs f = recs g \<Longrightarrow> run_at f p as = run_at g p as"
  by (induction as arbitrary: p) simp_all

lemma write_rec_simps [simp]:
  "recs (write_rec a f) (fpos f) = Some a" "fpos (write_rec a f) = fpos f + row_bytes a"
  "flen (write_rec a f) = max (flen f) (fpos f + row_bytes a)" "froom (write_rec a f) = froom f"
  by (simp_all add: write_rec_def)

lemma write_rec_below: "x + row_bytes b \<le> fpos f \<Longrightarrow> 0 < row_bytes b \<Longrightarrow> recs f x = Some b \<Longrightarrow> recs (write_rec a f) x = Some b"
  by (simp add: write_rec_def)

text \<open>Rows that take no bytes never occur.\<close>

definition solid :: "row list \<Rightarrow> bool" where
  "solid as \<longleftrightarrow> (\<forall>a\<in>set as. 0 < row_bytes a)"

lemma run_at_write: "run_at f p bs \<Longrightarrow> solid bs \<Longrightarrow> p + rows_bytes bs \<le> fpos f \<Longrightarrow> run_at (write_rec a f) p bs"
  by (induction bs arbitrary: p) (auto simp: solid_def write_rec_below)

lemma write_rows_simps [simp]:
  "write_rows [] f = f" "write_rows (a # as) f = write_rows as (write_rec a f)" "write_rows (as @ bs) f = write_rows bs (write_rows as f)"
  by (simp_all add: write_rows_def)

lemma write_rows_pos [simp]: "fpos (write_rows as f) = fpos f + rows_bytes as" "froom (write_rows as f) = froom f"
  by (induction as arbitrary: f) simp_all

lemma write_rows_len: "fpos f = flen f \<Longrightarrow> flen (write_rows as f) = flen f + rows_bytes as"
  by (induction as arbitrary: f) simp_all

lemma write_rows_len_ge: "flen f \<le> flen (write_rows as f)" "as \<noteq> [] \<Longrightarrow> fpos f + rows_bytes as \<le> flen (write_rows as f)"
proof (induction as arbitrary: f)
  case (Cons a as)
  { case 1 show ?case using Cons(1) [of "write_rec a f"] by simp
  next
    case 2 show ?case using Cons(1,2) [of "write_rec a f"] by (cases as) auto }
qed simp_all

lemma write_rows_room: "flen f \<le> froom f \<Longrightarrow> fpos f + rows_bytes as \<le> froom f \<Longrightarrow> flen (write_rows as f) \<le> froom f"
proof (induction as arbitrary: f)
  case (Cons a as)
  show ?case using Cons.prems Cons.IH [of "write_rec a f"] by simp
qed simp

lemma run_at_write_rows: "run_at f p bs \<Longrightarrow> solid bs \<Longrightarrow> p + rows_bytes bs \<le> fpos f \<Longrightarrow> run_at (write_rows as f) p bs"
  by (induction as arbitrary: f) (simp_all add: run_at_write)

lemma write_rows_at: "solid as \<Longrightarrow> run_at (write_rows as f) (fpos f) as"
proof (induction as arbitrary: f rule: rev_induct)
  case (snoc a as)
  let ?g = "write_rows as f"
  have s: "solid as" using snoc.prems by (simp add: solid_def)
  have "run_at (write_rec a ?g) (fpos f) as" by (rule run_at_write) (use snoc.IH [OF s] s in simp_all)
  moreover have "recs (write_rec a ?g) (fpos f + rows_bytes as) = Some a" using write_rec_simps(1) [of a ?g] by simp
  ultimately show ?case by (simp add: run_at_append)
qed simp

lemma WriteToFile_row: "row_bytes a = unat s \<Longrightarrow> fpos f + row_bytes a \<le> froom f \<Longrightarrow> WriteToFile a s f = Some (True, write_rec a f)"
  by (simp add: WriteToFile_def)

lemma fread_at: "recs f (fpos f) = Some a \<Longrightarrow> row_bytes a = unat s \<Longrightarrow> fpos f < flen f \<Longrightarrow> fread_row s old f = Some (Some a, f\<lparr>fpos := fpos f + row_bytes a\<rparr>)"
  by (simp add: fread_row_def)

section \<open>Writing trees\<close>

lemma entries_simps [simp]: "entries Tip = []" "entries (Nd c l x r rt) = entries l @ r # entries rt"
  by (simp_all add: entries_def)

lemma WriteChunkToDisk_rows:
  assumes "at (memPool T) p t" "\<forall>a\<in>set (entries t). row_bytes a = unat s" "fpos f + rows_bytes (entries t) \<le> froom f"
  shows "WriteChunkToDisk T s f p = Some (ADC_OK, write_rows (entries t) f)"
  using assms
proof (induction t arbitrary: p f)
  case Tip
  then show ?case by (subst WriteChunkToDisk.simps) simp
next
  case (Nd c l x r rt)
  let ?g = "write_rows (entries l) f"
  obtain n where n: "p = Some x" "memPool T x = Some n" "nodeMemPool n = r" "at (memPool T) (left n) l" "at (memPool T) (right n) rt"
    using Nd.prems(1) by auto
  have l: "WriteChunkToDisk T s f (left n) = Some (ADC_OK, ?g)" using Nd.IH(1) [OF n(4)] Nd.prems(2,3) by simp
  have w: "WriteToFile r s ?g = Some (True, write_rec r ?g)" by (rule WriteToFile_row) (use Nd.prems(2,3) in simp_all)
  have "WriteChunkToDisk T s (write_rec r ?g) (right n) = Some (ADC_OK, write_rows (entries rt) (write_rec r ?g))"
    using Nd.IH(2) [OF n(5), of "write_rec r ?g"] Nd.prems(2,3) by simp
  then show ?case using l w n(1-3) by (subst WriteChunkToDisk.simps) (simp add: ADC_OK_def)
qed

section \<open>Writing a view\<close>

lemma int_less_uint [simp]: "int i < uint (w :: 'a::len word) \<longleftrightarrow> i < unat w"
  unfolding uint_nat by (rule of_nat_less_iff)

lemma nat_less_unat: "0 \<le> k \<Longrightarrow> k < uint (w :: 'a::len word) \<Longrightarrow> nat k < unat w"
  using int_less_uint [of "nat k" w] by simp

lemma add_mSums_returns:
  assumes "unat n \<le> length vs" "unat n \<le> length ms" "\<And>i. i < unat n \<Longrightarrow> \<bar>ms ! i + vs ! i\<bar> < 2 ^ 63"
  shows "returns (add_mSums n vs ms) (\<lambda>ms'. length ms' = length ms \<and> (\<forall>i<length ms. ms' ! i = (if i < unat n then ms ! i + vs ! i else ms ! i)))"
  unfolding add_mSums_def
proof (rule returns_rangeI [where I = "\<lambda>k ms'. length ms' = length ms \<and> (\<forall>i<length ms. ms' ! i = (if int i < k then ms ! i + vs ! i else ms ! i))"])
  fix k t
  assume k: "0 \<le> k" "k < uint n" and t: "length t = length ms \<and> (\<forall>i<length ms. t ! i = (if int i < k then ms ! i + vs ! i else ms ! i))"
  have j: "nat k < unat n" using k nat_less_unat by blast
  then have "t ! nat k = ms ! nat k" using t k assms(2) by simp
  moreover have "i64 (ms ! nat k + vs ! nat k) = Some (ms ! nat k + vs ! nat k)" using assms(3) [OF j] by (intro i64_in) auto
  ultimately show "returns (aget t k \<bind> (\<lambda>m. aget vs k \<bind> (\<lambda>v. i64 (m + v) \<bind> aset t k)))
      (\<lambda>ms'. length ms' = length ms \<and> (\<forall>i<length ms. ms' ! i = (if int i < k + 1 then ms ! i + vs ! i else ms ! i)))"
    using t j k assms(1,2) by (auto simp: nth_list_update)
qed simp_all

text \<open>The checksum of one measure over a list of rows; \<open>n\<close> rows times measures were counted before.\<close>

fun checks_u :: "nat \<Rightarrow> nat \<Rightarrow> row list \<Rightarrow> 64 word \<Rightarrow> int \<Rightarrow> int" where
  "checks_u m i [] n c = c"
| "checks_u m i (a # as) n c = checks_u m i as (n + of_nat m) (checksum_u (n + of_nat (Suc i)) (fst a ! i) c)"

lemma add_checksums_u_returns:
  assumes "unat n \<le> length vs" "unat n \<le> length cs"
  shows "returns (add_checksums_u n vs (cs, q)) (\<lambda>(cs', q'). length cs' = length cs \<and> q' = q + of_nat (unat n) \<and>
     (\<forall>i<length cs. cs' ! i = (if i < unat n then checksum_u (q + of_nat (Suc i)) (vs ! i) (cs ! i) else cs ! i)))"
  unfolding add_checksums_u_def
proof (rule returns_rangeI [where I = "\<lambda>k (cs', q'). length cs' = length cs \<and> q' = q + of_nat (nat k) \<and>
     (\<forall>i<length cs. cs' ! i = (if int i < k then checksum_u (q + of_nat (Suc i)) (vs ! i) (cs ! i) else cs ! i))"])
  fix k and t :: "int list \<times> 64 word"
  obtain cs' q' where p: "t = (cs', q')" by force
  assume k: "0 \<le> k" "k < uint n" and t: "case t of (cs', q') \<Rightarrow> length cs' = length cs \<and> q' = q + of_nat (nat k) \<and>
     (\<forall>i<length cs. cs' ! i = (if int i < k then checksum_u (q + of_nat (Suc i)) (vs ! i) (cs ! i) else cs ! i))"
  obtain j where kj: "k = int j" using nonneg_int_cases [OF k(1)] by blast
  then have j: "k = int j" "j < unat n" using k(2) by simp_all
  have "cs' ! j = cs ! j" "q' + 1 = q + of_nat (Suc j)" "nat (k + 1) = Suc j" using t j assms(2) by (simp_all add: p nat_add_distrib)
  then show "returns (case t of (cs, ordern) \<Rightarrow> aget cs k \<bind> (\<lambda>c. aget vs k \<bind> (\<lambda>v. aset cs k (checksum_u (ordern + 1) v c) \<bind> (\<lambda>cs. Some (cs, ordern + 1)))))
      (\<lambda>(cs', q'). length cs' = length cs \<and> q' = q + of_nat (nat (k + 1)) \<and>
     (\<forall>i<length cs. cs' ! i = (if int i < k + 1 then checksum_u (q + of_nat (Suc i)) (vs ! i) (cs ! i) else cs ! i)))"
    using t j assms unfolding p by (auto simp: nth_list_update ac_simps)
qed auto

lemma checks_u_append: "checks_u m i (as @ bs) n c = checks_u m i bs (n + of_nat (length as * m)) (checks_u m i as n c)"
  by (induction as arbitrary: n c) (simp_all add: ac_simps)

text \<open>What a view writer leaves behind: the rows in the file, the sums and the checksums of the rows.\<close>

definition summed :: "nat \<Rightarrow> row list \<Rightarrow> int list \<Rightarrow> int list \<Rightarrow> bool" where
  "summed m as ms ms' \<longleftrightarrow> length ms' = length ms \<and> (\<forall>i<m. ms' ! i = ms ! i + psum (\<lambda>_. True) as i)"

definition checked_u :: "nat \<Rightarrow> row list \<Rightarrow> 64 word \<Rightarrow> int list \<Rightarrow> int list \<Rightarrow> bool" where
  "checked_u m as n cs cs' \<longleftrightarrow> length cs' = length cs \<and> (\<forall>i<m. cs' ! i = checks_u m i as n (cs ! i))"

lemma summed_trans: "summed m as ms ms' \<Longrightarrow> summed m bs ms' ms'' \<Longrightarrow> summed m (as @ bs) ms ms''"
  by (simp add: summed_def)

lemma checked_u_trans:
  "checked_u m as n cs cs' \<Longrightarrow> checked_u m bs (n + of_nat (length as * m)) cs' cs'' \<Longrightarrow> checked_u m (as @ bs) n cs cs''"
  by (simp add: checked_u_def checks_u_append)

definition view_written_u :: "ADC_VIEW_CNTL \<Rightarrow> row list \<Rightarrow> 64 word \<Rightarrow> int \<times> ADC_VIEW_CNTL \<times> 64 word \<Rightarrow> bool" where
  "view_written_u avp as n = (\<lambda>(r, avp', n'). r = ADC_OK \<and> n' = n + of_nat (length as * unat (nmv avp)) \<and>
     (\<exists>ms cs. summed (unat (nmv avp)) as (mSums avp) ms \<and> checked_u (unat (nmv avp)) as n (checksums avp) cs \<and>
        avp' = avp\<lparr>mSums := ms, checksums := cs, viewFile := write_rows as (viewFile avp)\<rparr>))"

lemma WriteViewToDiskCS_rows:
  assumes "at (memPool (tree avp)) p t" "\<forall>a\<in>set (entries t). row_bytes a = unat (outRecSize avp) \<and> length (fst a) = unat (nmv avp)"
    "fpos (viewFile avp) + rows_bytes (entries t) \<le> froom (viewFile avp)"
    "unat (nmv avp) \<le> length (mSums avp)" "unat (nmv avp) \<le> length (checksums avp)"
    "\<And>i. i < unat (nmv avp) \<Longrightarrow> \<bar>mSums avp ! i\<bar> + asum (entries t) i < 2 ^ 63"
  shows "returns (WriteViewToDiskCS avp p n) (view_written_u avp (entries t) n)"
  using assms
proof (induction t arbitrary: p avp n)
  case Tip
  have "view_written_u avp [] n (ADC_OK, avp, n)"
    unfolding view_written_u_def by (simp, intro exI [of _ "mSums avp"] conjI exI [of _ "checksums avp"]) (simp_all add: summed_def checked_u_def)
  then show ?case using Tip.prems(1) by (subst WriteViewToDiskCS.simps) simp
next
  case (Nd c l x r rt)
  let ?m = "unat (nmv avp)"
  obtain nd where nd: "p = Some x" "memPool (tree avp) x = Some nd" "nodeMemPool nd = r" "at (memPool (tree avp)) (left nd) l" "at (memPool (tree avp)) (right nd) rt"
    using Nd.prems(1) by auto
  have b: "\<bar>mSums avp ! i\<bar> + asum (entries l) i < 2 ^ 63" if "i < ?m" for i
    using Nd.prems(6) [OF that] asum_nonneg [of "entries rt" i] by simp
  have "returns (WriteViewToDiskCS avp (left nd) n) (view_written_u avp (entries l) n)"
    by (rule Nd.IH(1) [OF nd(4) _ _ _ _ b]) (use Nd.prems(2-5) in simp_all)
  then obtain ms cs where l: "WriteViewToDiskCS avp (left nd) n = Some (ADC_OK, avp\<lparr>mSums := ms, checksums := cs, viewFile := write_rows (entries l) (viewFile avp)\<rparr>,
      n + of_nat (length (entries l) * ?m))" and ms: "summed ?m (entries l) (mSums avp) ms" and cs: "checked_u ?m (entries l) n (checksums avp) cs"
    by (auto simp: view_written_u_def elim!: returnsE)
  have sum: "\<bar>ms ! i\<bar> + \<bar>fst r ! i\<bar> + asum (entries rt) i < 2 ^ 63" if "i < ?m" for i
    using Nd.prems(6) [OF that] ms that psum_abs [of "\<lambda>_. True" "entries l" i] by (auto simp: summed_def)
  have "returns (add_mSums (nmv avp) (fst r) ms) (\<lambda>ms'. length ms' = length ms \<and> (\<forall>i<length ms. ms' ! i = (if i < ?m then ms ! i + fst r ! i else ms ! i)))"
  proof (rule add_mSums_returns)
    show "\<bar>ms ! i + fst r ! i\<bar> < 2 ^ 63" if "i < ?m" for i using sum [OF that] asum_nonneg [of "entries rt" i] by linarith
  qed (use Nd.prems(2,4) ms in \<open>simp_all add: summed_def\<close>)
  then obtain ms' where ms': "add_mSums (nmv avp) (fst r) ms = Some ms'" "summed ?m (entries l @ [r]) (mSums avp) ms'" "\<forall>i<?m. ms' ! i = ms ! i + fst r ! i"
    using ms Nd.prems(4) by (auto simp: summed_def elim!: returnsE)
  let ?n = "n + of_nat (length (entries l) * ?m)"
  have "returns (add_checksums_u (nmv avp) (fst r) (cs, ?n)) (\<lambda>(cs', q'). length cs' = length cs \<and> q' = ?n + of_nat ?m \<and>
     (\<forall>i<length cs. cs' ! i = (if i < ?m then checksum_u (?n + of_nat (Suc i)) (fst r ! i) (cs ! i) else cs ! i)))"
    by (rule add_checksums_u_returns) (use Nd.prems(2,5) cs in \<open>simp_all add: checked_u_def\<close>)
  then obtain cs' where cs': "add_checksums_u (nmv avp) (fst r) (cs, ?n) = Some (cs', ?n + of_nat ?m)" "checked_u ?m (entries l @ [r]) n (checksums avp) cs'"
    using cs Nd.prems(5) by (auto simp: checked_u_def checks_u_append elim!: returnsE)
  let ?avp = "avp\<lparr>mSums := ms', checksums := cs', viewFile := write_rec r (write_rows (entries l) (viewFile avp))\<rparr>"
  have w: "WriteToFile r (outRecSize avp) (write_rows (entries l) (viewFile avp)) = Some (True, viewFile ?avp)"
    using Nd.prems(2,3) by (subst WriteToFile_row) simp_all
  have "returns (WriteViewToDiskCS ?avp (right nd) (?n + of_nat ?m)) (view_written_u ?avp (entries rt) (?n + of_nat ?m))"
  proof (rule Nd.IH(2))
    show "\<bar>mSums ?avp ! i\<bar> + asum (entries rt) i < 2 ^ 63" if "i < unat (nmv ?avp)" for i
      using sum [of i] ms'(3) that by auto
  qed (use nd(5) Nd.prems(2-5) ms'(2) cs'(2) in \<open>simp_all add: summed_def checked_u_def add.assoc\<close>)
  then obtain ms2 cs2 where r: "WriteViewToDiskCS ?avp (right nd) (?n + of_nat ?m) = Some (ADC_OK, ?avp\<lparr>mSums := ms2, checksums := cs2,
      viewFile := write_rows (entries rt) (viewFile ?avp)\<rparr>, ?n + of_nat ?m + of_nat (length (entries rt) * ?m))"
    and 2: "summed ?m (entries rt) ms' ms2" "checked_u ?m (entries rt) (?n + of_nat ?m) cs' cs2"
    by (auto simp: view_written_u_def elim!: returnsE)
  have "summed ?m (entries (Nd c l x r rt)) (mSums avp) ms2"
    using summed_trans [OF ms'(2) 2(1)] by simp
  moreover have "checked_u ?m (entries (Nd c l x r rt)) n (checksums avp) cs2"
    using checked_u_trans [OF cs'(2), of "entries rt" cs2] 2(2) by (simp add: algebra_simps)
  moreover have "WriteViewToDiskCS avp p n = Some (ADC_OK, avp\<lparr>mSums := ms2, checksums := cs2,
      viewFile := write_rows (entries (Nd c l x r rt)) (viewFile avp)\<rparr>, n + of_nat (length (entries (Nd c l x r rt)) * ?m))"
    using l ms'(1) cs'(1) w nd(1-3) r by (subst WriteViewToDiskCS.simps) (simp add: ADC_OK_def algebra_simps)
  ultimately show ?case unfolding view_written_u_def by simp blast
qed

end
