(* ===== verification/Dc_Runs.thy ===== *)
theory Dc_Runs
  imports Dc_Files
begin

text \<open>
  \<open>RunFormation\<close>: reading the rows of a view, inserting what is selected of them, and writing a sorted run whenever the tree
  is full.  The runs and the last tree together hold the groups of all the rows.
\<close>

section \<open>Selecting attributes\<close>

definition sel_key :: "32 word list \<Rightarrow> nat \<Rightarrow> 32 word list \<Rightarrow> 32 word list" where
  "sel_key ix n ks = List.map (\<lambda>i. ks ! (unat (ix ! i) - 1)) [0..<n]"

lemma sel_key_length [simp]: "length (sel_key ix n ks) = n"
  by (simp add: sel_key_def)

lemma small_word:
  assumes "n < 2 ^ 32"
  shows "unat (of_nat n :: 32 word) = n" "uint (of_nat n :: 32 word) = int n"
  using assms by (simp_all add: unsigned_of_nat take_bit_nat_eq_self)

lemma aget_int: "i < length xs \<Longrightarrow> aget xs (int i) = Some (xs ! i)"
  by (simp add: aget_def)

lemma SelectToView_on_key:
  assumes "length (fst a) = unat m" "length (snd a) = unat d" "unat n \<le> length ix" "\<forall>i<unat n. 0 < unat (ix ! i) \<and> unat (ix ! i) \<le> unat d"
  shows "SelectToView a ix d m n = Some (on_key (sel_key ix (unat n)) a)"
proof -
  let ?f = "\<lambda>i ks. aget ix i \<bind> (\<lambda>x. aget (snd a) (uint x - 1) \<bind> (\<lambda>v. Some (ks @ [v])))"
  have "returns (for_range 0 (uint n) ?f []) (\<lambda>ks. ks = sel_key ix (unat n) (snd a))"
  proof (rule returns_rangeI [where I = "\<lambda>k ks. ks = sel_key ix (nat k) (snd a)"])
    fix k ks
    assume k: "0 \<le> k" "k < uint n" and ks: "ks = sel_key ix (nat k) (snd a)"
    obtain j where kj: "k = int j" using nonneg_int_cases [OF k(1)] by blast
    then have j: "j < unat n" using k(2) by simp
    then have x: "0 < unat (ix ! j)" "unat (ix ! j) \<le> unat d" using assms(4) by auto
    have e: "uint (ix ! j) - 1 = int (unat (ix ! j) - 1)" using x(1) by (simp add: of_nat_diff)
    have "aget (snd a) (uint (ix ! j) - 1) = Some (snd a ! (unat (ix ! j) - 1))"
      unfolding e by (rule aget_int) (use assms(2) x in simp)
    moreover have "nat (k + 1) = Suc j" using kj by simp
    ultimately show "returns (?f k ks) (\<lambda>ks. ks = sel_key ix (nat (k + 1)) (snd a))"
      using assms(3) j by (simp add: kj ks sel_key_def)
  qed (simp_all add: sel_key_def)
  then have f: "for_range 0 (uint n) ?f [] = Some (sel_key ix (unat n) (snd a))" by (simp add: returns_iff)
  show ?thesis unfolding SelectToView_def f using assms(1,2) by (simp add: on_key_def)
qed

section \<open>What the formation of the runs needs\<close>

definition rec_rows :: "nat \<Rightarrow> nat \<Rightarrow> row list \<Rightarrow> bool" where
  "rec_rows m d as \<longleftrightarrow> (\<forall>a\<in>set as. length (fst a) = m \<and> length (snd a) = d)"

text \<open>The attributes, the sizes and the memory of a view.\<close>

definition view_ok :: "ADC_VIEW_CNTL \<Rightarrow> bool" where
  "view_ok avp \<longleftrightarrow> 0 < nv avp \<and> nv avp \<le> ndv avp \<and> ndv avp \<le> 20 \<and> 0 < nmv avp \<and> nmv avp \<le> 4 \<and> unat (nv avp) \<le> length (selection avp) \<and>
     (\<forall>i<unat (nv avp). 0 < unat (selection avp ! i) \<and> unat (selection avp ! i) \<le> unat (ndv avp)) \<and>
     inpRecSize avp = GetRecSize (ndv avp) (nmv avp) \<and> outRecSize avp = GetRecSize (nv avp) (nmv avp) \<and>
     length (nodes (tree avp)) = MAX_TREE_HEIGHT \<and> length (drcts (tree avp)) = MAX_TREE_HEIGHT \<and>
     memoryLimit (tree avp) = memoryLimitv avp \<and> length (chunksParams avp) = 1024 \<and> numberOfChunks avp = 0 \<and>
     fpos (fileOfChunks avp) = 0"

text \<open>The rows that are read, and the room for what is written.\<close>

definition node_limit :: "ADC_VIEW_CNTL \<Rightarrow> nat" where
  "node_limit avp = unat (memoryLimitv avp div tree_node_size (nv avp) (nmv avp))"

definition rows_ready :: "ADC_VIEW_CNTL \<Rightarrow> FILE_ref \<Rightarrow> row list \<Rightarrow> bool" where
  "rows_ready avp fr rows \<longleftrightarrow> unat (nRowsToRead avp) = length rows \<and> length rows < 2 ^ 32 - 1 \<and> rec_rows (unat (nmv avp)) (unat (ndv avp)) rows \<and>
     bounded_rows (unat (nmv avp)) rows \<and> run_at (get_file fr avp) (fpos (get_file fr avp)) rows \<and>
     fpos (get_file fr avp) + rows_bytes rows \<le> flen (get_file fr avp) \<and>
     length rows * unat (outRecSize avp) \<le> froom (fileOfChunks avp) \<and> length rows < 1023 * node_limit avp"

definition pick :: "ADC_VIEW_CNTL \<Rightarrow> row \<Rightarrow> row" where
  "pick avp = on_key (sel_key (selection avp) (unat (nv avp)))"

lemma GetRecSize_unat: "d \<le> 20 \<Longrightarrow> m \<le> 4 \<Longrightarrow> unat (GetRecSize d m) = 4 * unat d + 8 * unat m"
proof -
  assume "d \<le> 20" "m \<le> 4"
  then have "unat d \<le> 20" "unat m \<le> 4" by unat_arith+
  then show ?thesis by (simp add: GetRecSize_def DIM_FSZ_def MSR_FSZ_def unat_word_ariths)
qed

lemma view_sizes:
  assumes "view_ok avp"
  shows "unat (inpRecSize avp) = 4 * unat (ndv avp) + 8 * unat (nmv avp)" "unat (outRecSize avp) = 4 * unat (nv avp) + 8 * unat (nmv avp)"
    "0 < unat (nv avp)" "0 < unat (nmv avp)" "unat (outRecSize avp) \<le> 112" "unat (outRecSize avp) \<le> unat (tree_node_size (nv avp) (nmv avp))"
    "nv avp \<le> 20" "0 < unat (tree_node_size (nv avp) (nmv avp))"
proof -
  have v: "0 < nv avp" "nv avp \<le> ndv avp" "ndv avp \<le> 20" "nmv avp \<le> 4" "0 < nmv avp" using assms by (simp_all add: view_ok_def)
  show nv: "nv avp \<le> 20" using v(2,3) by (rule order_trans)
  show s: "unat (inpRecSize avp) = 4 * unat (ndv avp) + 8 * unat (nmv avp)" "unat (outRecSize avp) = 4 * unat (nv avp) + 8 * unat (nmv avp)"
    using assms v(3,4) nv by (simp_all add: view_ok_def GetRecSize_unat)
  show pos: "0 < unat (nv avp)" "0 < unat (nmv avp)" using v(1,5) by (simp_all add: unat_gt_0 word_gt_0)
  have le: "unat (nv avp) \<le> 20" "unat (nmv avp) \<le> 4" using nv v(4) by unat_arith+
  show "unat (outRecSize avp) \<le> 112" using s(2) le by simp
  show "unat (outRecSize avp) \<le> unat (tree_node_size (nv avp) (nmv avp))"
    using tree_node_size_bounds(3) [OF v(1) nv v(4)] s(2) by simp
  show "0 < unat (tree_node_size (nv avp) (nmv avp))" using tree_node_size_bounds(1) [OF v(1) nv v(4)] by simp
qed

section \<open>Runs in the file of chunks\<close>

definition runs_at :: "CHUNKS list \<Rightarrow> row_file \<Rightarrow> row list list \<Rightarrow> bool" where
  "runs_at cps g rs \<longleftrightarrow> length cps = 1024 \<and> length rs \<le> 1024 \<and> fpos g = rows_bytes (concat rs) \<and> fpos g \<le> flen g \<and> run_at g 0 (concat rs) \<and>
     (\<forall>i<length rs. unat (curChunkNum (cps ! i)) = length (rs ! i) \<and> chunkOffset (cps ! i) = int (rows_bytes (concat (take i rs))))"

lemma rec_rows_simps [simp]:
  "rec_rows m d []" "rec_rows m d (a # as) \<longleftrightarrow> length (fst a) = m \<and> length (snd a) = d \<and> rec_rows m d as"
  "rec_rows m d (as @ bs) \<longleftrightarrow> rec_rows m d as \<and> rec_rows m d bs" "rec_rows m d (concat ass) \<longleftrightarrow> (\<forall>as\<in>set ass. rec_rows m d as)"
  by (auto simp: rec_rows_def)

lemma rec_rows_group: "rec_rows m d as \<Longrightarrow> rec_rows m d (group_rows m as)"
  by (auto simp: rec_rows_def group_rows_def)

lemma rec_rows_bytes: "rec_rows m d as \<Longrightarrow> rows_bytes as = length as * (4 * d + 8 * m)" "rec_rows m d as \<Longrightarrow> a \<in> set as \<Longrightarrow> row_bytes a = 4 * d + 8 * m"
  by (subst rows_bytes_const) (auto simp: rec_rows_def row_bytes_def)

lemma rec_rows_solid: "rec_rows m d as \<Longrightarrow> 0 < m \<Longrightarrow> solid as"
  by (auto simp: solid_def rec_rows_def row_bytes_def)

lemma holds_tree: "holds T as \<Longrightarrow> \<exists>t. at (memPool T) (left (root T)) t \<and> entries t = group_rows (unat (nm T)) as"
  by (auto simp: holds_def tree_ok_def)

text \<open>The tree of a state is written as the next run.\<close>

lemma flush_run:
  assumes T: "holds (tree avp) cur" "nm (tree avp) = nmv avp" "rec_rows (unat (nmv avp)) (unat (nv avp)) cur" and v: "0 < unat (nmv avp)"
    "unat (outRecSize avp) = 4 * unat (nv avp) + 8 * unat (nmv avp)"
    and rs: "runs_at (chunksParams avp) (fileOfChunks avp) rs" "numberOfChunks avp = of_nat (length rs)" "length rs < 1024"
      "\<forall>r\<in>set rs. rec_rows (unat (nmv avp)) (unat (nv avp)) r" "off = int (rows_bytes (concat rs))"
    and room: "rows_bytes (concat rs) + rows_bytes (group_rows (unat (nmv avp)) cur) \<le> froom (fileOfChunks avp)"
  obtains cps where "note_chunk off avp = Some (avp\<lparr>chunksParams := cps, numberOfChunks := of_nat (Suc (length rs))\<rparr>)"
    "write_chunk (avp\<lparr>chunksParams := cps, numberOfChunks := of_nat (Suc (length rs))\<rparr>) = Some (ADC_OK, avp\<lparr>chunksParams := cps, numberOfChunks := of_nat (Suc (length rs)),
       fileOfChunks := write_rows (group_rows (unat (nmv avp)) cur) (fileOfChunks avp)\<rparr>)"
    "runs_at cps (write_rows (group_rows (unat (nmv avp)) cur) (fileOfChunks avp)) (rs @ [group_rows (unat (nmv avp)) cur])"
proof -
  let ?n = "length rs" and ?g = "group_rows (unat (nmv avp)) cur" and ?f = "fileOfChunks avp"
  let ?c = "(chunksParams avp ! ?n)\<lparr>curChunkNum := count (tree avp), chunkOffset := off\<rparr>"
  define cps where "cps = (chunksParams avp)[?n := ?c]"
  obtain t where t: "at (memPool (tree avp)) (left (root (tree avp))) t" "entries t = ?g" using holds_tree [OF T(1)] T(2) by auto
  have g: "rec_rows (unat (nmv avp)) (unat (nv avp)) ?g" using T(3) by (rule rec_rows_group)
  have cnt: "unat (count (tree avp)) = length ?g" using holds_count(1) [OF T(1)] by (simp add: group_length)
  have u: "uint (numberOfChunks avp) = int ?n" using rs(2,3) by (simp add: small_word)
  have len: "length (chunksParams avp) = 1024" "fpos ?f = rows_bytes (concat rs)" "fpos ?f \<le> flen ?f" "run_at ?f 0 (concat rs)" using rs(1) by (simp_all add: runs_at_def)
  have "note_chunk off avp = Some (avp\<lparr>chunksParams := cps, numberOfChunks := of_nat (Suc ?n)\<rparr>)"
    unfolding note_chunk_def u using rs(2,3) len(1) by (simp add: cps_def add.commute)
  moreover have "write_chunk (avp\<lparr>chunksParams := cps, numberOfChunks := of_nat (Suc ?n)\<rparr>) = Some (ADC_OK, avp\<lparr>chunksParams := cps, numberOfChunks := of_nat (Suc ?n),
       fileOfChunks := write_rows ?g ?f\<rparr>)"
    using WriteChunkToDisk_rows [OF t(1), of "outRecSize avp" ?f] rec_rows_bytes(2) [OF g] v(2) room len(2) by (simp add: write_chunk_def t(2))
  moreover have "runs_at cps (write_rows ?g ?f) (rs @ [?g])"
    unfolding runs_at_def
  proof (intro conjI allI impI)
    have s: "solid (concat rs)" "solid ?g" using rs(4) g v(1) by (auto intro!: rec_rows_solid)
    show "run_at (write_rows ?g ?f) 0 (concat (rs @ [?g]))"
      using run_at_write_rows [OF len(4) s(1), of ?g] write_rows_at [OF s(2), of ?f] len(2) by (simp add: run_at_append)
    show "fpos (write_rows ?g ?f) \<le> flen (write_rows ?g ?f)"
      using write_rows_len_ge(2) [of ?g ?f] len(3) by (cases "?g = []") auto
    fix i assume "i < length (rs @ [?g])"
    then consider "i < ?n" | "i = ?n" by force
    then show "unat (curChunkNum (cps ! i)) = length ((rs @ [?g]) ! i)" "chunkOffset (cps ! i) = int (rows_bytes (concat (take i (rs @ [?g]))))"
      by (cases; use rs(1,3,5) cnt len(1) in \<open>simp add: cps_def runs_at_def nth_append\<close>)+
  qed (use rs(3) len in \<open>simp_all add: cps_def\<close>)
  ultimately show thesis by (rule that)
qed

section \<open>The tree of a view\<close>

definition tree_for :: "ADC_VIEW_CNTL \<Rightarrow> RBTree \<Rightarrow> row list \<Rightarrow> bool" where
  "tree_for avp T cur \<longleftrightarrow> holds T cur \<and> nm T = nmv avp \<and> nd T = nv avp \<and> memoryLimit T = memoryLimitv avp \<and>
     nNodesLimit T = memoryLimitv avp div tree_node_size (nv avp) (nmv avp)"

lemma tree_for_init:
  assumes v: "view_ok avp" and T: "length (nodes T) = MAX_TREE_HEIGHT" "length (drcts T) = MAX_TREE_HEIGHT" "memoryLimit T = memoryLimitv avp"
  shows "returns (InitializeTree T (nv avp) (nmv avp)) (\<lambda>T'. tree_for avp T' [])"
proof -
  have "0 < nv avp" "nv avp \<le> 20" "nmv avp \<le> 4" using v view_sizes(7) [OF v] by (simp_all add: view_ok_def)
  from InitializeTree_holds [OF T(1,2) this] show ?thesis by (rule returns_mono) (simp add: tree_for_def T(3))
qed

lemma tree_for_again: "view_ok avp \<Longrightarrow> tree_for avp T cur \<Longrightarrow> returns (InitializeTree T (nv avp) (nmv avp)) (\<lambda>T'. tree_for avp T' [])"
  by (rule tree_for_init) (auto simp: tree_for_def holds_def tree_ok_def)

lemma tree_for_insert:
  assumes "tree_for avp T cur" "length (fst a) = unat (nmv avp)" "length (snd a) = unat (nv avp)" "freeNodeCounter T \<noteq> 0" "bounded_rows (unat (nmv avp)) (cur @ [a])"
  shows "returns (TreeInsert T a) (\<lambda>(r, T'). r = 0 \<and> tree_for avp T' (cur @ [a]))"
proof -
  have t: "holds T cur" "row_fits T a" "bounded_rows (unat (nm T)) (cur @ [a])" using assms by (simp_all add: tree_for_def row_fits_def)
  show ?thesis using assms(1) by (intro returns_mono [OF TreeInsert_holds [OF t(1,2) assms(4) t(3)]]) (auto simp: tree_for_def cfg_def)
qed

lemma tree_for_full:
  assumes "tree_for avp T cur" "0 < node_limit avp"
  shows "memoryIsFull T \<noteq> 0 \<longleftrightarrow> freeNodeCounter T = 0" "freeNodeCounter T = 0 \<Longrightarrow> card (snd ` set cur) = node_limit avp"
    "cur = [] \<Longrightarrow> freeNodeCounter T \<noteq> 0"
proof -
  have t: "holds T cur" "unat (nNodesLimit T) = node_limit avp" using assms(1) by (simp_all add: tree_for_def node_limit_def)
  note c = holds_count [OF t(1)]
  show "memoryIsFull T \<noteq> 0 \<longleftrightarrow> freeNodeCounter T = 0" using c(3) t(2) assms(2) by auto
  show "freeNodeCounter T = 0 \<Longrightarrow> card (snd ` set cur) = node_limit avp" using c(1,2) t(2) by simp
  show "cur = [] \<Longrightarrow> freeNodeCounter T \<noteq> 0" using c(1,2) t(2) assms(2) by auto
qed

section \<open>The loop over the rows\<close>

definition form_state :: "ADC_VIEW_CNTL \<Rightarrow> FILE_ref \<Rightarrow> nat \<Rightarrow> RBTree \<Rightarrow> CHUNKS list \<Rightarrow> nat \<Rightarrow> row_file \<Rightarrow> ADC_VIEW_CNTL" where
  "form_state avp fr p T cps n g = (put_file fr ((get_file fr avp)\<lparr>fpos := p\<rparr>) avp)\<lparr>tree := T, chunksParams := cps, numberOfChunks := of_nat n, fileOfChunks := g\<rparr>"

lemma form_state_simps [simp]:
  "tree (form_state avp fr p T cps n g) = T" "chunksParams (form_state avp fr p T cps n g) = cps"
  "numberOfChunks (form_state avp fr p T cps n g) = of_nat n" "fileOfChunks (form_state avp fr p T cps n g) = g"
  "nv (form_state avp fr p T cps n g) = nv avp" "nmv (form_state avp fr p T cps n g) = nmv avp" "ndv (form_state avp fr p T cps n g) = ndv avp"
  "selection (form_state avp fr p T cps n g) = selection avp" "nRowsToRead (form_state avp fr p T cps n g) = nRowsToRead avp"
  "inpRecSize (form_state avp fr p T cps n g) = inpRecSize avp" "outRecSize (form_state avp fr p T cps n g) = outRecSize avp"
  "get_file fr (form_state avp fr p T cps n g) = (get_file fr avp)\<lparr>fpos := p\<rparr>"
  "put_file fr ((get_file fr avp)\<lparr>fpos := q\<rparr>) (form_state avp fr p T cps n g) = form_state avp fr q T cps n g"
  "(form_state avp fr p T cps n g)\<lparr>tree := T'\<rparr> = form_state avp fr p T' cps n g"
  "(form_state avp fr p T cps n g)\<lparr>chunksParams := cps', numberOfChunks := of_nat n'\<rparr> = form_state avp fr p T cps' n' g"
  "(form_state avp fr p T cps n g)\<lparr>fileOfChunks := g'\<rparr> = form_state avp fr p T cps n g'"
  by (cases fr; simp add: form_state_def put_file_def get_file_def)+

definition form_inv :: "ADC_VIEW_CNTL \<Rightarrow> row list \<Rightarrow> row list list \<Rightarrow> row list \<Rightarrow> RBTree \<Rightarrow> CHUNKS list \<Rightarrow> row_file \<Rightarrow> bool" where
  "form_inv avp read ass cur T cps g \<longleftrightarrow> concat ass @ cur = List.map (pick avp) read \<and> (\<forall>as\<in>set ass. card (snd ` set as) = node_limit avp) \<and>
     tree_for avp T cur \<and> freeNodeCounter T \<noteq> 0 \<and> runs_at cps g (List.map (group_rows (unat (nmv avp))) ass) \<and> froom g = froom (fileOfChunks avp) \<and> flen g \<le> froom g"

text \<open>The picked rows.\<close>

lemma pick_simps [simp]: "fst (pick avp a) = fst a" "snd (pick avp a) = sel_key (selection avp) (unat (nv avp)) (snd a)"
  by (simp_all add: pick_def)

lemma asum_pick: "asum (List.map (pick avp) as) i = asum as i"
  by (induction as) simp_all

lemma bounded_pick: "bounded_rows m as \<Longrightarrow> bounded_rows m (List.map (pick avp) as)"
  by (auto simp: bounded_rows_def asum_pick)

lemma rec_rows_pick: "rec_rows m d as \<Longrightarrow> rec_rows m (unat (nv avp)) (List.map (pick avp) as)"
  by (auto simp: rec_rows_def)

lemma group_length_le: "length (group_rows m as) \<le> length as"
  by (simp add: group_length) (metis card_image_le card_length le_trans List.finite_set)

lemma groups_length_le: "length (concat (List.map (group_rows m) ass)) \<le> length (concat ass)"
  by (induction ass) (auto intro: add_mono group_length_le)

lemma full_runs: "\<forall>as\<in>set ass. card (snd ` set as) = k \<Longrightarrow> length ass * k \<le> length (concat ass)"
proof (induction ass)
  case (Cons as ass)
  have "k \<le> length as" using Cons.prems card_image_le [of "set as" snd] card_length [of as] by force
  then show ?case using Cons by simp
qed simp

text \<open>The runs take no more bytes than the rows.\<close>

lemma form_bytes:
  assumes v: "view_ok avp" and i: "concat ass @ cur = List.map (pick avp) read"
    and rc: "rec_rows (unat (nmv avp)) (unat (nv avp)) cur" "\<forall>as\<in>set ass. rec_rows (unat (nmv avp)) (unat (nv avp)) as"
  shows "rows_bytes (concat (List.map (group_rows (unat (nmv avp))) ass)) + rows_bytes (group_rows (unat (nmv avp)) cur) \<le> length read * unat (outRecSize avp)"
proof -
  let ?m = "unat (nmv avp)" and ?s = "unat (outRecSize avp)"
  note s = view_sizes(2) [OF v]
  have "rec_rows ?m (unat (nv avp)) (concat (List.map (group_rows ?m) ass))" using rc(2) by (auto intro: rec_rows_group)
  then have "rows_bytes (concat (List.map (group_rows ?m) ass)) = length (concat (List.map (group_rows ?m) ass)) * ?s"
    using rec_rows_bytes(1) s by metis
  moreover have "rows_bytes (group_rows ?m cur) = length (group_rows ?m cur) * ?s"
    using rec_rows_bytes(1) [OF rec_rows_group [OF rc(1)]] s by metis
  moreover have "length (concat (List.map (group_rows ?m) ass)) + length (group_rows ?m cur) \<le> length (concat ass) + length cur"
    by (intro add_mono groups_length_le group_length_le)
  moreover have "length (concat ass) + length cur = length read" using arg_cong [OF i, of length] by simp
  ultimately show ?thesis by (simp add: add_mult_distrib [symmetric] del: length_concat)
qed

lemma form_inv_runs:
  assumes "form_inv avp read ass cur T cps g" "length read < k * node_limit avp"
  shows "length ass < k"
proof -
  have "length ass * node_limit avp \<le> length (concat ass)" using assms(1) by (intro full_runs) (simp add: form_inv_def)
  moreover have "length (concat ass) + length cur = length read"
    using arg_cong [of _ _ length, OF conjunct1 [OF assms(1) [unfolded form_inv_def]]] by simp
  ultimately have "length ass * node_limit avp < k * node_limit avp" using assms(2) by linarith
  then show ?thesis by simp
qed

text \<open>The state after the last row was inserted, before a full tree is written.\<close>

definition form_mid :: "ADC_VIEW_CNTL \<Rightarrow> row list \<Rightarrow> row list list \<Rightarrow> row list \<Rightarrow> RBTree \<Rightarrow> CHUNKS list \<Rightarrow> row_file \<Rightarrow> bool" where
  "form_mid avp read ass cur T cps g \<longleftrightarrow> concat ass @ cur = List.map (pick avp) read \<and> (\<forall>as\<in>set ass. card (snd ` set as) = node_limit avp) \<and>
     tree_for avp T cur \<and> runs_at cps g (List.map (group_rows (unat (nmv avp))) ass) \<and> froom g = froom (fileOfChunks avp) \<and> flen g \<le> froom g"

lemma form_inv_mid: "form_inv avp read ass cur T cps g \<longleftrightarrow> form_mid avp read ass cur T cps g \<and> freeNodeCounter T \<noteq> 0"
  by (auto simp: form_inv_def form_mid_def)

text \<open>The bytes of the runs, as an offset in the file.\<close>

definition run_off :: "nat \<Rightarrow> row list list \<Rightarrow> int" where
  "run_off m ass = int (rows_bytes (concat (List.map (group_rows m) ass)))"

lemma form_insert:
  assumes i: "form_inv avp read ass cur T cps g" and b: "bounded_rows (unat (nmv avp)) (read @ [a])"
    and a: "length (fst a) = unat (nmv avp)"
  shows "returns (TreeInsert T (pick avp a)) (\<lambda>(r, T'). form_mid avp (read @ [a]) ass (cur @ [pick avp a]) T' cps g)"
proof -
  have c: "concat ass @ cur = List.map (pick avp) read" and t: "tree_for avp T cur" "freeNodeCounter T \<noteq> 0" using i by (simp_all add: form_inv_def)
  have "bounded_rows (unat (nmv avp)) (concat ass @ cur @ [pick avp a])" using bounded_pick [OF b, of avp] by (simp add: c [symmetric])
  then have "bounded_rows (unat (nmv avp)) (cur @ [pick avp a])" using bounded_append by blast
  then have "returns (TreeInsert T (pick avp a)) (\<lambda>(r, T'). r = 0 \<and> tree_for avp T' (cur @ [pick avp a]))"
    using a by (intro tree_for_insert [OF t(1) _ _ t(2)]) simp_all
  then show ?thesis using i c by (auto simp: form_inv_mid form_mid_def elim!: returns_mono)
qed

lemma form_flush:
  assumes v: "view_ok avp" and i: "form_mid avp read ass cur T cps g" and r: "rec_rows (unat (nmv avp)) (unat (ndv avp)) read"
    and n: "length ass < 1024" and room: "length read * unat (outRecSize avp) \<le> froom (fileOfChunks avp)"
  obtains cps' g' where "note_chunk (run_off (unat (nmv avp)) ass) (form_state avp fr p T cps (length ass) g) = Some (form_state avp fr p T cps' (Suc (length ass)) g)"
    "write_chunk (form_state avp fr p T cps' (Suc (length ass)) g) = Some (ADC_OK, form_state avp fr p T cps' (Suc (length ass)) g')"
    "runs_at cps' g' (List.map (group_rows (unat (nmv avp))) (ass @ [cur]))" "froom g' = froom (fileOfChunks avp)" "flen g' \<le> froom g'"
proof -
  let ?m = "unat (nmv avp)" and ?avp = "form_state avp fr p T cps (length ass) g"
  have b: "rows_bytes (concat (List.map (group_rows ?m) ass)) + rows_bytes (group_rows ?m cur) \<le> length read * unat (outRecSize avp)"
    and rc: "rec_rows ?m (unat (nv avp)) cur" "\<forall>as\<in>set ass. rec_rows ?m (unat (nv avp)) as"
  proof -
    have "rec_rows ?m (unat (nv avp)) (concat ass @ cur)" using rec_rows_pick [OF r, of avp] i by (simp add: form_mid_def)
    then show rc: "rec_rows ?m (unat (nv avp)) cur" "\<forall>as\<in>set ass. rec_rows ?m (unat (nv avp)) as" by simp_all
    show "rows_bytes (concat (List.map (group_rows ?m) ass)) + rows_bytes (group_rows ?m cur) \<le> length read * unat (outRecSize avp)"
      using form_bytes [OF v, of ass cur read] i rc by (simp add: form_mid_def)
  qed
  have T: "holds (tree ?avp) cur" "nm (tree ?avp) = nmv ?avp" "rec_rows (unat (nmv ?avp)) (unat (nv ?avp)) cur" "0 < unat (nmv ?avp)"
    "unat (outRecSize ?avp) = 4 * unat (nv ?avp) + 8 * unat (nmv ?avp)"
    using i rc view_sizes [OF v] by (simp_all add: form_mid_def tree_for_def)
  have R: "runs_at (chunksParams ?avp) (fileOfChunks ?avp) (List.map (group_rows ?m) ass)" "numberOfChunks ?avp = of_nat (length (List.map (group_rows ?m) ass))"
    "length (List.map (group_rows ?m) ass) < 1024" "\<forall>r\<in>set (List.map (group_rows ?m) ass). rec_rows (unat (nmv ?avp)) (unat (nv ?avp)) r"
    "run_off ?m ass = int (rows_bytes (concat (List.map (group_rows ?m) ass)))"
    using i rc n by (simp_all add: form_mid_def run_off_def rec_rows_group)
  have M: "rows_bytes (concat (List.map (group_rows ?m) ass)) + rows_bytes (group_rows (unat (nmv ?avp)) cur) \<le> froom (fileOfChunks ?avp)"
    using b room i by (simp add: form_mid_def)
  obtain cps' where c: "note_chunk (run_off ?m ass) ?avp = Some (?avp\<lparr>chunksParams := cps', numberOfChunks := of_nat (Suc (length (List.map (group_rows ?m) ass)))\<rparr>)"
    "write_chunk (?avp\<lparr>chunksParams := cps', numberOfChunks := of_nat (Suc (length (List.map (group_rows ?m) ass)))\<rparr>) =
      Some (ADC_OK, ?avp\<lparr>chunksParams := cps', numberOfChunks := of_nat (Suc (length (List.map (group_rows ?m) ass))),
        fileOfChunks := write_rows (group_rows (unat (nmv ?avp)) cur) (fileOfChunks ?avp)\<rparr>)"
    "runs_at cps' (write_rows (group_rows (unat (nmv ?avp)) cur) (fileOfChunks ?avp)) (List.map (group_rows ?m) ass @ [group_rows (unat (nmv ?avp)) cur])"
    by (rule flush_run [OF T R M])
  show thesis
    by (rule that [of cps' "write_rows (group_rows ?m cur) g"]) (use c i M write_rows_room [of g] in \<open>simp_all add: form_mid_def runs_at_def del: of_nat_Suc\<close>)
qed

lemma form_offset:
  assumes v: "view_ok avp" and i: "form_mid avp read ass cur T cps g" and r: "rec_rows (unat (nmv avp)) (unat (ndv avp)) read"
    and n: "length read < 2 ^ 32"
  shows "to_i64 (run_off (unat (nmv avp)) ass + uint (count T * outRecSize avp)) = run_off (unat (nmv avp)) (ass @ [cur])"
proof -
  let ?m = "unat (nmv avp)" and ?s = "unat (outRecSize avp)"
  have "rec_rows ?m (unat (nv avp)) (concat ass @ cur)" using rec_rows_pick [OF r, of avp] i by (simp add: form_mid_def)
  then have rc: "rec_rows ?m (unat (nv avp)) cur" "\<forall>as\<in>set ass. rec_rows ?m (unat (nv avp)) as" by simp_all
  have t: "holds T cur" "nm T = nmv avp" "unat (nNodesLimit T) = unat (memoryLimitv avp) div unat (tree_node_size (nv avp) (nmv avp))"
    using i by (simp_all add: form_mid_def tree_for_def unat_div)
  have cnt: "unat (count T) = length (group_rows ?m cur)" "unat (count T) \<le> unat (nNodesLimit T)"
    using holds_count(1,2) [OF t(1)] by (simp_all add: group_length)
  have gb: "rows_bytes (group_rows ?m cur) = unat (count T) * ?s"
    using rec_rows_bytes(1) [OF rec_rows_group [OF rc(1)]] view_sizes(2) [OF v] cnt(1) by simp
  have "unat (count T) * ?s \<le> unat (nNodesLimit T) * unat (tree_node_size (nv avp) (nmv avp))"
    using cnt(2) view_sizes(6) [OF v] by (rule mult_le_mono)
  also have "\<dots> \<le> unat (memoryLimitv avp)" by (simp add: t(3))
  finally have "unat (count T) * ?s < 2 ^ 32" using unsigned_less [of "memoryLimitv avp", where ?'a = nat] by simp
  then have w: "uint (count T * outRecSize avp) = int (rows_bytes (group_rows ?m cur))"
    unfolding gb uint_nat by (simp only: unat_word_ariths(2)) simp
  have "rows_bytes (concat (List.map (group_rows ?m) ass)) + rows_bytes (group_rows ?m cur) \<le> length read * ?s"
    using form_bytes [OF v _ rc] i by (simp add: form_mid_def)
  also have "\<dots> \<le> 2 ^ 32 * 112" using n view_sizes(5) [OF v] by (intro mult_le_mono) simp_all
  finally have small: "rows_bytes (concat (List.map (group_rows ?m) ass)) + rows_bytes (group_rows ?m cur) < 2 ^ 63" by simp
  have "run_off ?m (ass @ [cur]) = run_off ?m ass + int (rows_bytes (group_rows ?m cur))" by (simp add: run_off_def)
  moreover have "to_i64 (run_off ?m (ass @ [cur])) = run_off ?m (ass @ [cur])" using small by (intro to_i64_in) (simp_all add: run_off_def)
  ultimately show ?thesis by (simp add: w)
qed

lemma put_file_form:
  "get_file fr (form_state avp fr p T cps n g)\<lparr>fpos := q\<rparr> = (get_file fr avp)\<lparr>fpos := q\<rparr>"
  by simp

text \<open>The result of the loop.\<close>

definition formed :: "ADC_VIEW_CNTL \<Rightarrow> FILE_ref \<Rightarrow> nat \<Rightarrow> row list \<Rightarrow> int \<times> int \<times> ADC_VIEW_CNTL \<Rightarrow> bool" where
  "formed avp fr p rows = (\<lambda>(r, off, avp'). r = ADC_OK \<and> (\<exists>ass cur T cps g. form_inv avp rows ass cur T cps g \<and> off = run_off (unat (nmv avp)) ass \<and>
     avp' = form_state avp fr p T cps (length ass) g))"

lemma formation_loop_runs:
  assumes v: "view_ok avp" and rr: "rows_ready avp fr (read @ todo)"
    and i: "form_inv avp read ass cur T cps g" "run_at (get_file fr avp) p todo" "p + rows_bytes todo \<le> flen (get_file fr avp)" "iRec = of_nat (Suc (length read))"
  shows "returns (formation_loop fr iRec attrs (run_off (unat (nmv avp)) ass) (form_state avp fr p T cps (length ass) g)) (formed avp fr (p + rows_bytes todo) (read @ todo))"
  using rr i
proof (induction todo arbitrary: read ass cur T cps g p iRec attrs)
  case Nil
  have "unat iRec = Suc (length read)" "unat (nRowsToRead avp) = length read" using Nil by (simp_all add: rows_ready_def small_word del: of_nat_Suc)
  then have "\<not> iRec \<le> nRowsToRead avp" by (simp add: word_le_nat_alt)
  moreover have "formed avp fr p read (ADC_OK, run_off (unat (nmv avp)) ass, form_state avp fr p T cps (length ass) g)"
    unfolding formed_def using Nil.prems(2) by blast
  ultimately show ?case by (subst formation_loop.simps) simp
next
  case (Cons a todo)
  let ?m = "unat (nmv avp)" and ?p = "p + row_bytes a"
  have l: "length (read @ a # todo) < 2 ^ 32 - 1" "unat (nRowsToRead avp) = length (read @ a # todo)" "rec_rows ?m (unat (ndv avp)) (read @ a # todo)"
    "bounded_rows ?m (read @ a # todo)" "length (read @ a # todo) < 1023 * node_limit avp"
    "length (read @ a # todo) * unat (outRecSize avp) \<le> froom (fileOfChunks avp)"
    using Cons.prems(1) by (simp_all add: rows_ready_def)
  have "unat iRec = Suc (length read)" using Cons.prems(5) l(1) by (simp add: small_word del: of_nat_Suc)
  then have le: "iRec \<le> nRowsToRead avp" using l(2) by (simp add: word_le_nat_alt)
  have ra: "row_bytes a = unat (inpRecSize avp)" using rec_rows_bytes(2) [OF l(3), of a] view_sizes(1) [OF v] by simp
  have a: "length (fst a) = ?m" "length (snd a) = unat (ndv avp)" using l(3) by simp_all
  have fr: "fread_row (inpRecSize avp) attrs ((get_file fr avp)\<lparr>fpos := p\<rparr>) = Some (Some a, (get_file fr avp)\<lparr>fpos := ?p\<rparr>)"
    using fread_at [of "(get_file fr avp)\<lparr>fpos := p\<rparr>" a "inpRecSize avp" attrs] Cons.prems(3,4) ra view_sizes(1,4) [OF v] by simp
  have sel: "SelectToView a (selection avp) (ndv avp) (nmv avp) (nv avp) = Some (pick avp a)"
    unfolding pick_def by (rule SelectToView_on_key) (use a v in \<open>simp_all add: view_ok_def\<close>)
  have "bounded_rows ?m ((read @ [a]) @ todo)" using l(4) by simp
  then have b: "bounded_rows ?m (read @ [a])" by (rule conjunct1 [OF bounded_append])
  obtain r T' where ins: "TreeInsert T (pick avp a) = Some (r, T')" and mid: "form_mid avp (read @ [a]) ass (cur @ [pick avp a]) T' cps g"
    using form_insert [OF Cons.prems(2) b a(1)] by (auto elim!: returnsE)
  have k: "0 < node_limit avp" using l(5) by (cases "node_limit avp") auto
  have tf: "tree_for avp T' (cur @ [pick avp a])" using mid by (simp add: form_mid_def)
  note full = tree_for_full [OF tf k]
  have start: "formation_loop fr iRec attrs (run_off ?m ass) (form_state avp fr p T cps (length ass) g) =
      (if memoryIsFull T' \<noteq> 0 then do {
          avp' \<leftarrow> note_chunk (run_off ?m ass) (form_state avp fr ?p T' cps (length ass) g);
          if numberOfChunks avp' \<ge> MAX_NUM_OF_CHUNKS then Some (ADC_INTERNAL_ERROR, run_off ?m ass, avp')
          else do {
            let off = to_i64 (run_off ?m ass + uint (count T' * outRecSize avp'));
            (r, avp') \<leftarrow> write_chunk avp';
            if r \<noteq> 0 then Some (ADC_WRITE_FAILED, off, avp')
            else do {
              T \<leftarrow> InitializeTree (tree avp') (nv avp') (nmv avp');
              formation_loop fr (iRec + 1) (Some a) off (avp'\<lparr>tree := T\<rparr>) } } }
        else formation_loop fr (iRec + 1) (Some a) (run_off ?m ass) (form_state avp fr ?p T' cps (length ass) g))"
    using le fr sel ins by (subst formation_loop.simps) simp
  have nx: "rows_ready avp fr ((read @ [a]) @ todo)" "run_at (get_file fr avp) ?p todo" "?p + rows_bytes todo \<le> flen (get_file fr avp)"
    "iRec + 1 = of_nat (Suc (length (read @ [a])))"
    using Cons.prems by (simp_all add: add.assoc)
  show ?case
  proof (cases "freeNodeCounter T' = 0")
    case False
    then have "form_inv avp (read @ [a]) ass (cur @ [pick avp a]) T' cps g" using mid by (simp add: form_inv_mid)
    from Cons.IH [OF nx(1) this nx(2-4), of "Some a"] show ?thesis using False full(1) unfolding start by (simp add: add.assoc)
  next
    case True
    have inv1: "form_inv avp read ass cur T cps g" by (rule Cons.prems(2))
    have n: "length ass < 1023" using form_inv_runs [OF inv1, of 1023] l(5) by simp
    have "length (read @ [a]) \<le> length (read @ a # todo)" by simp
    from order_trans [OF mult_le_mono1 [OF this] l(6)]
    have r1: "rec_rows ?m (unat (ndv avp)) (read @ [a])" "length (read @ [a]) < 2 ^ 32" "length (read @ [a]) * unat (outRecSize avp) \<le> froom (fileOfChunks avp)"
      using l(1,3) by simp_all
    have n': "length ass < 1024" using n by simp
    obtain cps' g' where fl: "note_chunk (run_off ?m ass) (form_state avp fr ?p T' cps (length ass) g) = Some (form_state avp fr ?p T' cps' (Suc (length ass)) g)"
      "write_chunk (form_state avp fr ?p T' cps' (Suc (length ass)) g) = Some (ADC_OK, form_state avp fr ?p T' cps' (Suc (length ass)) g')"
      "runs_at cps' g' (List.map (group_rows ?m) (ass @ [cur @ [pick avp a]]))" "froom g' = froom (fileOfChunks avp)" "flen g' \<le> froom g'"
      by (rule form_flush [OF v mid r1(1) n' r1(3)])
    have "unat (of_nat (Suc (length ass)) :: 32 word) = Suc (length ass)" using n by (subst small_word) simp_all
    then have lim: "\<not> MAX_NUM_OF_CHUNKS \<le> of_nat (Suc (length ass))" using n by (simp add: MAX_NUM_OF_CHUNKS_def word_le_nat_alt del: of_nat_Suc)
    obtain T2 where T2: "InitializeTree T' (nv avp) (nmv avp) = Some T2" "tree_for avp T2 []"
      using tree_for_again [OF v tf] by (auto elim!: returnsE)
    have "freeNodeCounter T2 \<noteq> 0" using tree_for_full(3) [OF T2(2) k] by simp
    then have "form_inv avp (read @ [a]) (ass @ [cur @ [pick avp a]]) [] T2 cps' g'"
      using mid fl(3-5) T2(2) full(2) [OF True] by (simp add: form_inv_def form_mid_def)
    from Cons.IH [OF nx(1) this nx(2-4), of "Some a"] show ?thesis
      using True full(1) fl(1,2) lim T2(1) form_offset [OF v mid r1(1,2)] unfolding start
      by (simp add: add.assoc ADC_OK_def del: of_nat_Suc)
  qed
qed

section \<open>The result\<close>

text \<open>Either the tree holds all rows, and there is no run, or the runs hold all of them.\<close>

definition run_formed :: "ADC_VIEW_CNTL \<Rightarrow> FILE_ref \<Rightarrow> row list \<Rightarrow> ADC_VIEW_CNTL \<Rightarrow> bool" where
  "run_formed avp fr rows avp' \<longleftrightarrow> (\<exists>ass T cps g. length ass \<le> 1024 \<and>
     avp' = (form_state avp fr (fpos (get_file fr avp) + rows_bytes rows) T cps (length ass) g)\<lparr>viewFile := seek_end (viewFile avp)\<rparr> \<and>
     runs_at cps g (List.map (group_rows (unat (nmv avp))) ass) \<and> froom g = froom (fileOfChunks avp) \<and> flen g \<le> froom g \<and>
     (if ass = [] then tree_for avp T (List.map (pick avp) rows)
      else concat ass = List.map (pick avp) rows \<and> [] \<notin> set ass \<and> (\<exists>cur. tree_for avp T cur)))"

lemma seek_end_form: "seek_end (viewFile (form_state avp fr p T cps n g)) = seek_end (viewFile avp)"
  by (cases fr) (simp_all add: form_state_def put_file_def get_file_def seek_end_def)

lemma run_formedI:
  assumes "length ass \<le> 1024" "runs_at cps g (List.map (group_rows (unat (nmv avp))) ass)" "froom g = froom (fileOfChunks avp)" "flen g \<le> froom g"
    "if ass = [] then tree_for avp T (List.map (pick avp) rows)
      else concat ass = List.map (pick avp) rows \<and> [] \<notin> set ass \<and> (\<exists>cur. tree_for avp T cur)"
  shows "run_formed avp fr rows ((form_state avp fr (fpos (get_file fr avp) + rows_bytes rows) T cps (length ass) g)\<lparr>viewFile := seek_end (viewFile avp)\<rparr>)"
  using assms unfolding run_formed_def by blast

lemma form_state_start:
  "numberOfChunks avp = 0 \<Longrightarrow> avp\<lparr>tree := T\<rparr> = form_state avp fr (fpos (get_file fr avp)) T (chunksParams avp) 0 (fileOfChunks avp)"
  by (cases fr) (simp_all add: form_state_def put_file_def get_file_def)

lemma RunFormation_runs:
  assumes v: "view_ok avp" and rr: "rows_ready avp fr rows" and g0: "flen (fileOfChunks avp) \<le> froom (fileOfChunks avp)"
  shows "returns (RunFormation avp fr) (\<lambda>(r, avp'). r = ADC_OK \<and> run_formed avp fr rows avp')"
proof -
  let ?m = "unat (nmv avp)" and ?p = "fpos (get_file fr avp)"
  have l: "length rows < 1023 * node_limit avp" "rec_rows ?m (unat (ndv avp)) rows" "length rows * unat (outRecSize avp) \<le> froom (fileOfChunks avp)"
    using rr by (simp_all add: rows_ready_def)
  have k: "0 < node_limit avp" using l(1) by (cases "node_limit avp") auto
  have z: "numberOfChunks avp = 0" "length (nodes (tree avp)) = MAX_TREE_HEIGHT" "length (drcts (tree avp)) = MAX_TREE_HEIGHT"
    "memoryLimit (tree avp) = memoryLimitv avp" "length (chunksParams avp) = 1024" "fpos (fileOfChunks avp) = 0"
    using v by (simp_all add: view_ok_def)
  obtain T0 where T0: "InitializeTree (tree avp) (nv avp) (nmv avp) = Some T0" "tree_for avp T0 []"
    using tree_for_init [OF v z(2-4)] by (auto elim!: returnsE)
  have i0: "form_inv avp [] [] [] T0 (chunksParams avp) (fileOfChunks avp)"
    using T0(2) tree_for_full(3) [OF T0(2) k] z g0 by (simp add: form_inv_def runs_at_def)
  have s0: "avp\<lparr>tree := T0\<rparr> = form_state avp fr ?p T0 (chunksParams avp) (length ([] :: row list list)) (fileOfChunks avp)"
    using form_state_start [OF z(1)] by simp
  have "run_at (get_file fr avp) ?p rows" "?p + rows_bytes rows \<le> flen (get_file fr avp)" using rr by (simp_all add: rows_ready_def)
  then have "returns (formation_loop fr 1 None (run_off ?m []) (avp\<lparr>tree := T0\<rparr>)) (formed avp fr (?p + rows_bytes rows) ([] @ rows))"
    unfolding s0 using rr by (intro formation_loop_runs [OF v _ i0]) simp_all
  then obtain ass cur T cps g where lp: "formation_loop fr 1 None 0 (avp\<lparr>tree := T0\<rparr>) = Some (ADC_OK, run_off ?m ass, form_state avp fr (?p + rows_bytes rows) T cps (length ass) g)"
    and i: "form_inv avp rows ass cur T cps g" by (auto simp: formed_def run_off_def elim!: returnsE)
  let ?S = "form_state avp fr (?p + rows_bytes rows) T cps (length ass) g"
  have n: "length ass < 1023" using form_inv_runs [OF i] l(1) by blast
  have mid: "form_mid avp rows ass cur T cps g" using i by (simp add: form_inv_mid)
  have ne: "[] \<notin> set ass" using i k by (auto simp: form_inv_def)
  have cnt: "count T = 0 \<longleftrightarrow> cur = []" using i holds_count(1) [of T cur] by (auto simp: form_inv_def tree_for_def unat_eq_0)
  have chunks: "numberOfChunks ?S = 0 \<longleftrightarrow> ass = []"
    using n small_word(1) [of "length ass"] by (auto simp: unat_eq_0 [symmetric])
  have start: "RunFormation avp fr = do {
      (r, avp) \<leftarrow> (if numberOfChunks ?S \<noteq> 0 \<and> count T \<noteq> 0 then do { avp \<leftarrow> note_chunk (run_off ?m ass) ?S; write_chunk avp } else Some (ADC_OK, ?S));
      if r \<noteq> 0 then Some (ADC_WRITE_FAILED, avp) else Some (ADC_OK, avp\<lparr>viewFile := seek_end (viewFile avp)\<rparr>) }"
    using T0(1) lp by (simp add: RunFormation_def)
  show ?thesis
  proof (cases "ass \<noteq> [] \<and> cur \<noteq> []")
    case False
    then have "run_formed avp fr rows (?S\<lparr>viewFile := seek_end (viewFile avp)\<rparr>)"
      using i n ne by (intro run_formedI) (auto simp: form_inv_def)
    then show ?thesis using False chunks cnt unfolding start by (auto simp: ADC_OK_def seek_end_form)
  next
    case True
    have n': "length ass < 1024" using n by simp
    obtain cps' g' where fl: "note_chunk (run_off ?m ass) ?S = Some (form_state avp fr (?p + rows_bytes rows) T cps' (Suc (length ass)) g)"
      "write_chunk (form_state avp fr (?p + rows_bytes rows) T cps' (Suc (length ass)) g) = Some (ADC_OK, form_state avp fr (?p + rows_bytes rows) T cps' (Suc (length ass)) g')"
      "runs_at cps' g' (List.map (group_rows ?m) (ass @ [cur]))" "froom g' = froom (fileOfChunks avp)" "flen g' \<le> froom g'"
      by (rule form_flush [OF v mid l(2) n' l(3)])
    have "run_formed avp fr rows ((form_state avp fr (?p + rows_bytes rows) T cps' (length (ass @ [cur])) g')\<lparr>viewFile := seek_end (viewFile avp)\<rparr>)"
      using fl(3-5) i n ne True by (intro run_formedI) (auto simp: form_inv_def)
    then show ?thesis using True chunks cnt fl(1,2) unfolding start by (simp add: ADC_OK_def seek_end_form del: of_nat_Suc)
  qed
qed

end
