(* ===== verification/Dc_Merge.thy ===== *)
theory Dc_Merge
  imports Dc_Runs
begin

text \<open>
  \<open>MultiWayMerge\<close>: the runs in the file of chunks are merged through a buffer with a part for every run, that is filled again
  when it is empty.  The merge ends, and what it appends to the file of the views is the list of the groups.
\<close>

section \<open>The buffer\<close>

text \<open>The rows \<open>as\<close> in the buffer from the word \<open>k\<close> on, with \<open>w\<close> words for each.\<close>

definition in_buffer :: "row_buffer \<Rightarrow> nat \<Rightarrow> nat \<Rightarrow> row list \<Rightarrow> bool" where
  "in_buffer buf w k as \<longleftrightarrow> (\<forall>j<length as. buf (k + j * w) = Some (as ! j))"

lemma run_at_fpos [simp]: "run_at (f\<lparr>fpos := p\<rparr>) q as = run_at f q as"
  by (rule run_at_cong) simp

lemma read_rows_in_buffer:
  assumes "\<forall>a\<in>set as. row_bytes a = unat s" "0 < unat s" "run_at f (fpos f) as" "fpos f + rows_bytes as \<le> flen f"
    "unat s = 4 * unat (s div 4)" "4 * (k + length as * unat (s div 4)) \<le> unat lim"
  shows "returns (read_rows lim s (length as) k buf f) (\<lambda>(buf', f'). f' = f\<lparr>fpos := fpos f + rows_bytes as\<rparr> \<and> in_buffer buf' (unat (s div 4)) k as \<and>
     (\<forall>x. x < k \<or> k + length as * unat (s div 4) \<le> x \<longrightarrow> buf' x = buf x))"
  using assms
proof (induction as arbitrary: k buf f)
  case Nil
  then show ?case by (simp add: in_buffer_def)
next
  case (Cons a as)
  let ?w = "unat (s div 4)" and ?f = "f\<lparr>fpos := fpos f + row_bytes a\<rparr>"
  have r: "fread_row s None f = Some (Some a, ?f)" using Cons.prems by (intro fread_at) simp_all
  have p: "put_row lim s k a buf = Some (buf(k \<mapsto> a))" using Cons.prems(5,6) by (simp add: put_row_def)
  have "returns (read_rows lim s (length as) (k + ?w) (buf(k \<mapsto> a)) ?f) (\<lambda>(buf', f'). f' = ?f\<lparr>fpos := fpos ?f + rows_bytes as\<rparr> \<and> in_buffer buf' ?w (k + ?w) as \<and>
     (\<forall>x. x < k + ?w \<or> k + ?w + length as * ?w \<le> x \<longrightarrow> buf' x = (buf(k \<mapsto> a)) x))"
    by (rule Cons.IH) (use Cons.prems in \<open>simp_all add: run_at_cong [of "f\<lparr>fpos := fpos f + row_bytes a\<rparr>" f]\<close>)
  moreover have w: "0 < ?w" using Cons.prems(2,5) by simp
  moreover have "in_buffer buf' ?w k (a # as)" if "in_buffer buf' ?w (k + ?w) as" "\<forall>x. x < k + ?w \<or> k + ?w + length as * ?w \<le> x \<longrightarrow> buf' x = (buf(k \<mapsto> a)) x" for buf'
    unfolding in_buffer_def
  proof (intro allI impI)
    fix j assume j: "j < length (a # as)"
    show "buf' (k + j * ?w) = Some ((a # as) ! j)" using that j w by (cases j) (simp_all add: in_buffer_def add.assoc)
  qed
  ultimately show ?case using r p by (auto simp: add.assoc elim!: returns_mono)
qed

section \<open>The state of a run\<close>

definition on_disk :: "row_file \<Rightarrow> CHUNKS \<Rightarrow> row list \<Rightarrow> bool" where
  "on_disk g c d \<longleftrightarrow> unat (curChunkNum c) = length d \<and> (d \<noteq> [] \<longrightarrow> (\<exists>off. chunkOffset c = int off \<and> run_at g off d \<and> off + rows_bytes d \<le> flen g))"

text \<open>The rows \<open>b\<close> of the run \<open>i\<close> are in the buffer, the rows \<open>d\<close> are still in the file.\<close>

definition run_state :: "row_buffer \<Rightarrow> nat \<Rightarrow> nat \<Rightarrow> row_file \<Rightarrow> nat \<Rightarrow> CHUNKS \<Rightarrow> row list \<Rightarrow> row list \<Rightarrow> bool" where
  "run_state buf w reg g i c b d \<longleftrightarrow> unat (curSubChunk c) = length b \<and> on_disk g c d \<and>
     (b \<noteq> [] \<longrightarrow> unat (posSubChunk c) + length b \<le> reg) \<and> in_buffer buf w ((i * reg + unat (posSubChunk c)) * w) b"

text \<open>The sizes of the merge: \<open>n\<close> runs, \<open>reg\<close> rows for each, rows of \<open>s\<close> bytes.\<close>

definition sizes_ok :: "32 word \<Rightarrow> 32 word \<Rightarrow> 32 word \<Rightarrow> nat \<Rightarrow> bool" where
  "sizes_ok lim s reg n \<longleftrightarrow> 0 < unat s \<and> unat s = 4 * unat (s div 4) \<and> unat s \<le> 112 \<and> 0 < unat reg \<and> n * unat reg * unat s \<le> unat lim"

lemma sizes_word:
  assumes z: "sizes_ok lim s reg n" and i: "i < n" "p < unat reg"
  shows "unat ((of_nat i * reg + of_nat p) * (s div 4)) = (i * unat reg + p) * unat (s div 4)"
    "unat (s div 4 * (of_nat i * reg + of_nat p)) = (i * unat reg + p) * unat (s div 4)"
    "4 * ((i * unat reg + unat reg) * unat (s div 4)) \<le> unat lim"
proof -
  let ?w = "unat (s div 4)"
  have w: "unat s = 4 * ?w" "0 < ?w" using z by (auto simp: sizes_ok_def)
  have "Suc i * unat reg \<le> n * unat reg" using i(1) by (intro mult_le_mono1) simp
  then have "(i * unat reg + unat reg) * unat s \<le> n * unat reg * unat s" by (intro mult_le_mono1) simp
  also have "\<dots> \<le> unat lim" using z unfolding sizes_ok_def by blast
  finally show m: "4 * ((i * unat reg + unat reg) * ?w) \<le> unat lim" using w(1) by (simp add: algebra_simps)
  have lim: "unat lim < 2 ^ 32" using unsigned_less [of lim, where ?'a = nat] by simp
  have "(i * unat reg + p) * ?w \<le> (i * unat reg + unat reg) * ?w" using i(2) by (intro mult_le_mono1) simp
  then have lt: "(i * unat reg + p) * ?w < 2 ^ 32" using m lim by linarith
  moreover have "i * unat reg + p \<le> (i * unat reg + p) * ?w" using w(2) by simp
  ultimately have lt2: "i * unat reg + p < 2 ^ 32" by linarith
  have "(of_nat i * reg + of_nat p) = (of_nat (i * unat reg + p) :: 32 word)" by simp
  then have u: "unat (of_nat i * reg + of_nat p) = i * unat reg + p" using lt2 by (simp only: small_word)
  show "unat ((of_nat i * reg + of_nat p) * (s div 4)) = (i * unat reg + p) * ?w"
    "unat (s div 4 * (of_nat i * reg + of_nat p)) = (i * unat reg + p) * ?w"
    unfolding unat_word_ariths(2) u using lt by (simp_all add: mult.commute)
qed

section \<open>Filling the part of a run\<close>

lemma SeekAndRead_rows:
  assumes z: "sizes_ok lim s reg n" and i: "i < n" "p + length as \<le> unat reg"
    and as: "\<forall>a\<in>set as. row_bytes a = unat s" "as \<noteq> []" "run_at g off as" "off + rows_bytes as \<le> flen g"
    and k: "unat k = (i * unat reg + p) * unat (s div 4)" and c: "unat c = length as"
  shows "returns (SeekAndReadNextSubChunk lim buf k g s (int off) c) (\<lambda>(buf', g'). g' = g\<lparr>fpos := off + rows_bytes as\<rparr> \<and>
     in_buffer buf' (unat (s div 4)) ((i * unat reg + p) * unat (s div 4)) as \<and>
     (\<forall>x. x < i * unat reg * unat (s div 4) \<or> (i * unat reg + unat reg) * unat (s div 4) \<le> x \<longrightarrow> buf' x = buf x))"
proof -
  let ?w = "unat (s div 4)"
  have s: "0 < unat s" "unat s = 4 * ?w" using z unfolding sizes_ok_def by blast+
  have p: "p < unat reg" using i(2) as(2) by (cases as) auto
  have le: "(i * unat reg + p) * ?w + length as * ?w \<le> (i * unat reg + unat reg) * ?w"
    unfolding add_mult_distrib [symmetric] using i(2) by (intro mult_le_mono1) simp
  have ge: "i * unat reg * ?w \<le> (i * unat reg + p) * ?w" by simp
  have "returns (read_rows lim s (length as) ((i * unat reg + p) * ?w) buf (g\<lparr>fpos := off\<rparr>)) (\<lambda>(buf', f'). f' = (g\<lparr>fpos := off\<rparr>)\<lparr>fpos := fpos (g\<lparr>fpos := off\<rparr>) + rows_bytes as\<rparr> \<and>
     in_buffer buf' ?w ((i * unat reg + p) * ?w) as \<and> (\<forall>x. x < (i * unat reg + p) * ?w \<or> (i * unat reg + p) * ?w + length as * ?w \<le> x \<longrightarrow> buf' x = buf x))"
  proof (rule read_rows_in_buffer [OF as(1) s(1) _ _ s(2)])
    show "4 * ((i * unat reg + p) * ?w + length as * ?w) \<le> unat lim" by (rule order_trans [OF mult_le_mono2 [OF le] sizes_word(3) [OF z i(1) p]])
  qed (use as in simp_all)
  moreover have "x < (i * unat reg + p) * ?w \<or> (i * unat reg + p) * ?w + length as * ?w \<le> x" if "x < i * unat reg * ?w \<or> (i * unat reg + unat reg) * ?w \<le> x" for x
    using that le ge by linarith
  ultimately show ?thesis unfolding SeekAndReadNextSubChunk_def k c by (auto simp: seek_set_def elim!: returns_mono)
qed

text \<open>The slot of a run.\<close>

definition outside :: "nat \<Rightarrow> nat \<Rightarrow> nat \<Rightarrow> row_buffer \<Rightarrow> row_buffer \<Rightarrow> bool" where
  "outside w reg i buf buf' \<longleftrightarrow> (\<forall>x. x < i * reg * w \<or> (i * reg + reg) * w \<le> x \<longrightarrow> buf' x = buf x)"

definition chunk_read :: "32 word \<Rightarrow> 32 word \<Rightarrow> row_buffer \<Rightarrow> CHUNKS list \<Rightarrow> row_file \<Rightarrow> nat \<Rightarrow> row list \<Rightarrow> row_buffer \<times> CHUNKS list \<times> row_file \<Rightarrow> bool" where
  "chunk_read s reg buf cps g i d = (\<lambda>(buf', cps', g'). \<exists>c p. cps' = cps[i := c] \<and> g' = g\<lparr>fpos := p\<rparr> \<and>
     run_state buf' (unat (s div 4)) (unat reg) g i c (take (unat reg) d) (drop (unat reg) d) \<and> outside (unat (s div 4)) (unat reg) i buf buf')"

lemma ReadSubChunk_run:
  assumes z: "sizes_ok lim s reg n" and i: "i < n" "n \<le> 1024" "n \<le> length cps" and g: "flen g < 2 ^ 63"
    and st: "on_disk g (cps ! i) d" "d = [] \<Longrightarrow> curSubChunk (cps ! i) = 0" and d: "\<forall>a\<in>set d. row_bytes a = unat s"
  shows "returns (ReadSubChunk lim s buf (s div 4) (of_nat i) reg cps g) (chunk_read s reg buf cps g i d)"
proof (cases "d = []")
  case True
  have u: "uint (of_nat i :: 32 word) = int i" using i by (simp add: small_word)
  have "curChunkNum (cps ! i) = 0" using st True by (simp add: on_disk_def unat_eq_0)
  then show ?thesis using i st True unfolding ReadSubChunk_def u
    by (auto simp: chunk_read_def outside_def run_state_def in_buffer_def intro!: exI [of _ "cps ! i"] exI [of _ "fpos g"])
next
  case False
  let ?w = "unat (s div 4)" and ?c = "cps ! i" and ?r = "unat reg"
  have u: "uint (of_nat i :: 32 word) = int i" using i by (simp add: small_word)
  have c: "unat (curChunkNum ?c) = length d" using st by (simp add: on_disk_def)
  then have pos: "0 < curChunkNum ?c" using False by (simp add: word_gt_0 flip: unat_gt_0) 
  obtain off where off: "chunkOffset ?c = int off" "run_at g off d" "off + rows_bytes d \<le> flen g" using st False by (auto simp: on_disk_def)
  have r: "0 < ?r" using z by (simp add: sizes_ok_def)
  have lt: "curChunkNum ?c < reg \<longleftrightarrow> length d < ?r" by (simp add: word_less_nat_alt c)
  show ?thesis
  proof (cases "length d < ?r")
    case True
    have p: "reg - curChunkNum ?c = of_nat (?r - length d)" using True by (simp add: of_nat_diff flip: c)
    have p': "unat (reg - curChunkNum ?c) = ?r - length d" using True c lt by (simp add: unat_sub_if')
    have pl: "?r - length d < ?r" "?r - length d + length d \<le> ?r" using True False by (cases d; simp)+
    have k: "unat ((of_nat i * reg + (reg - curChunkNum ?c)) * (s div 4)) = (i * ?r + (?r - length d)) * ?w"
      unfolding p by (rule sizes_word(1) [OF z i(1) pl(1)])
    obtain buf' where b: "SeekAndReadNextSubChunk lim buf ((of_nat i * reg + (reg - curChunkNum ?c)) * (s div 4)) g s (int off) (curChunkNum ?c) = Some (buf', g\<lparr>fpos := off + rows_bytes d\<rparr>)"
      "in_buffer buf' ?w ((i * ?r + (?r - length d)) * ?w) d" "outside ?w ?r i buf buf'"
      using SeekAndRead_rows [OF z i(1) pl(2) d False off(2,3) k c, of buf] by (auto simp: outside_def elim!: returnsE)
    show ?thesis using i pos True lt b(1) unfolding ReadSubChunk_def u
      by (simp add: off(1)) (use b(2,3) c p' pl True in \<open>auto simp: chunk_read_def run_state_def on_disk_def u
        intro!: exI [of _ "?c\<lparr>posSubChunk := reg - curChunkNum ?c, curSubChunk := curChunkNum ?c, curChunkNum := 0, chunkOffset := -1\<rparr>"]\<close>)
  next
    case ge: False
    have td: "take ?r d \<noteq> []" "0 + length (take ?r d) \<le> ?r" "length (take ?r d) = ?r" using False r ge by (auto simp: not_less)
    have dd: "run_at g off (take ?r d)" "run_at g (off + rows_bytes (take ?r d)) (drop ?r d)" "off + rows_bytes (take ?r d) + rows_bytes (drop ?r d) \<le> flen g"
      using off(2,3) run_at_append [of g off "take ?r d" "drop ?r d"] rows_bytes_simps(3) [of "take ?r d" "drop ?r d"] by simp_all
    have k: "unat (of_nat i * reg * (s div 4)) = (i * ?r + 0) * ?w" using sizes_word(1) [OF z i(1) r] by simp
    have dt: "\<forall>a\<in>set (take ?r d). row_bytes a = unat s" using d by (auto dest: in_set_takeD)
    have cr: "unat reg = length (take ?r d)" using td(3) by simp
    obtain buf' where b: "SeekAndReadNextSubChunk lim buf (of_nat i * reg * (s div 4)) g s (int off) reg = Some (buf', g\<lparr>fpos := off + rows_bytes (take ?r d)\<rparr>)"
      "in_buffer buf' ?w ((i * ?r + 0) * ?w) (take ?r d)" "outside ?w ?r i buf buf'"
      using SeekAndRead_rows [OF z i(1) td(2) dt td(1) dd(1) _ k cr, of buf] dd(3) by (auto simp: outside_def elim!: returnsE)
    have rb: "rows_bytes (take ?r d) = ?r * unat s" using rows_bytes_const [OF dt] td(3) by simp
    have "1 * ?r * unat s \<le> n * ?r * unat s" using i(1) by (intro mult_le_mono1) simp
    also have "\<dots> \<le> unat lim" using z unfolding sizes_ok_def by blast
    finally have "?r * unat s < 2 ^ 32" using unsigned_less [of lim, where ?'a = nat] by simp
    then have w: "uint (reg * s) = int (rows_bytes (take ?r d))" unfolding rb uint_nat by (simp only: unat_word_ariths(2)) simp
    have o: "i64 (int off + uint (reg * s)) = Some (int (off + rows_bytes (take ?r d)))" unfolding w using dd(3) g by (subst i64_in) simp_all
    have cd: "unat (curChunkNum ?c - reg) = length (drop ?r d)" using c ge lt by (simp add: unat_sub_if' not_less word_le_nat_alt)
    show ?thesis using i pos ge lt b(1) o unfolding ReadSubChunk_def u
      by (simp add: off(1)) (use b(2,3) td cd dd in \<open>auto simp: chunk_read_def run_state_def on_disk_def u
        intro!: exI [of _ "?c\<lparr>posSubChunk := 0, curSubChunk := reg, curChunkNum := curChunkNum ?c - reg, chunkOffset := int (off + rows_bytes (take ?r d))\<rparr>"] exI [of _ "off + rows_bytes (take ?r d)"]\<close>)
  qed
qed

section \<open>All runs\<close>

definition runs_state :: "row_buffer \<Rightarrow> nat \<Rightarrow> nat \<Rightarrow> row_file \<Rightarrow> CHUNKS list \<Rightarrow> (row list \<times> row list) list \<Rightarrow> bool" where
  "runs_state buf w reg g cps Rs \<longleftrightarrow> length Rs \<le> length cps \<and> (\<forall>i<length Rs. run_state buf w reg g i (cps ! i) (fst (Rs ! i)) (snd (Rs ! i)))"

lemma run_state_outside:
  assumes r: "run_state buf w reg g j c b d" and o: "outside w reg i buf buf'" "i \<noteq> j" "0 < w"
  shows "run_state buf' w reg (g\<lparr>fpos := p\<rparr>) j c b d"
proof -
  have "in_buffer buf' w ((j * reg + unat (posSubChunk c)) * w) b"
    unfolding in_buffer_def
  proof (intro allI impI)
    fix t assume t: "t < length b"
    let ?q = "j * reg + unat (posSubChunk c) + t"
    have b: "unat (posSubChunk c) + length b \<le> reg" using r t by (auto simp: run_state_def)
    have "?q * w < i * reg * w \<or> (i * reg + reg) * w \<le> ?q * w"
    proof (cases "j < i")
      case True
      then have "Suc j * reg \<le> i * reg" by (intro mult_le_mono1) simp
      then have "?q < i * reg" using t b by simp
      then show ?thesis using o(3) by simp
    next
      case False
      then have "Suc i * reg \<le> j * reg" using o(2) by (intro mult_le_mono1) simp
      then have "i * reg + reg \<le> ?q" by simp
      then show ?thesis using mult_le_mono1 by blast
    qed
    then have "buf' (?q * w) = buf (?q * w)" using o(1) unfolding outside_def by blast
    moreover have "buf (?q * w) = Some (b ! t)" using r t by (simp add: run_state_def in_buffer_def add_mult_distrib)
    ultimately show "buf' ((j * reg + unat (posSubChunk c)) * w + t * w) = Some (b ! t)" by (simp add: add_mult_distrib)
  qed
  then show ?thesis using r by (simp add: run_state_def on_disk_def)
qed

text \<open>A run whose part is empty is read again.\<close>

lemma refill:
  assumes z: "sizes_ok lim s reg (length Rs)" and n: "length Rs \<le> 1024" and g: "flen g < 2 ^ 63" and i: "i < length Rs" "Rs ! i = ([], d)"
    and st: "runs_state buf (unat (s div 4)) (unat reg) g cps Rs" and d: "\<forall>a\<in>set d. row_bytes a = unat s"
  shows "returns (ReadSubChunk lim s buf (s div 4) (of_nat i) reg cps g) (\<lambda>(buf', cps', g'). \<exists>p. g' = g\<lparr>fpos := p\<rparr> \<and> length cps' = length cps \<and>
     runs_state buf' (unat (s div 4)) (unat reg) g' cps' (Rs[i := (take (unat reg) d, drop (unat reg) d)]))"
proof -
  have w: "0 < unat (s div 4)" using z by (auto simp: sizes_ok_def)
  have l: "length Rs \<le> length cps" and sti: "run_state buf (unat (s div 4)) (unat reg) g i (cps ! i) [] d" using st i by (auto simp: runs_state_def)
  have "returns (ReadSubChunk lim s buf (s div 4) (of_nat i) reg cps g) (chunk_read s reg buf cps g i d)"
    by (rule ReadSubChunk_run [OF z i(1) n l g _ _ d]) (use sti in \<open>simp_all add: run_state_def unat_eq_0\<close>)
  then show ?thesis
  proof (rule returns_mono)
    fix x assume x: "chunk_read s reg buf cps g i d x"
    obtain buf' cps' g' where xe: "x = (buf', cps', g')" by (cases x)
    obtain c p where r: "cps' = cps[i := c]" "g' = g\<lparr>fpos := p\<rparr>" "run_state buf' (unat (s div 4)) (unat reg) g i c (take (unat reg) d) (drop (unat reg) d)"
      "outside (unat (s div 4)) (unat reg) i buf buf'" using x xe by (auto simp: chunk_read_def)
    have "run_state buf' (unat (s div 4)) (unat reg) (g\<lparr>fpos := p\<rparr>) j (cps' ! j) (fst (Rs[i := (take (unat reg) d, drop (unat reg) d)] ! j)) (snd (Rs[i := (take (unat reg) d, drop (unat reg) d)] ! j))"
      if "j < length Rs" for j
    proof (cases "j = i")
      case True
      then show ?thesis using r(1,3) i l by (simp add: run_state_def on_disk_def)
    next
      case False
      then show ?thesis using run_state_outside [OF _ r(4) _ w, of g j] st that r(1) by (simp add: runs_state_def)
    qed
    then show "case x of (buf', cps', g') \<Rightarrow> \<exists>p. g' = g\<lparr>fpos := p\<rparr> \<and> length cps' = length cps \<and>
     runs_state buf' (unat (s div 4)) (unat reg) g' cps' (Rs[i := (take (unat reg) d, drop (unat reg) d)])"
      using xe r(1,2) l by (auto simp: runs_state_def)
  qed
qed

section \<open>The first rounds of reading\<close>

lemma fill_runs:
  assumes z: "sizes_ok lim s reg (length rs)" and n: "length rs \<le> 1024" "length rs \<le> length cps" and g: "flen g < 2 ^ 63"
    and rs: "\<forall>i<length rs. on_disk g (cps ! i) (rs ! i)" "[] \<notin> set rs" "\<forall>r\<in>set rs. \<forall>a\<in>set r. row_bytes a = unat s"
  shows "returns (for_range 0 (int (length rs)) (\<lambda>i (buf, chunks, f). ReadSubChunk lim s buf (s div 4) (word_of_int i) reg chunks f) (buf, cps, g))
    (\<lambda>(buf', cps', g'). \<exists>p. g' = g\<lparr>fpos := p\<rparr> \<and> length cps' = length cps \<and>
       runs_state buf' (unat (s div 4)) (unat reg) g' cps' (List.map (\<lambda>r. (take (unat reg) r, drop (unat reg) r)) rs))"
proof -
  let ?w = "unat (s div 4)" and ?r = "unat reg"
  have w: "0 < ?w" using z by (auto simp: sizes_ok_def)
  define I where "I = (\<lambda>k (buf' :: row_buffer, cps', g'). (\<exists>p. g' = g\<lparr>fpos := p\<rparr>) \<and> length cps' = length cps \<and>
       (\<forall>i<length rs. if int i < k then run_state buf' ?w ?r g' i (cps' ! i) (take ?r (rs ! i)) (drop ?r (rs ! i)) else on_disk g (cps' ! i) (rs ! i)))"
  show ?thesis
  proof (rule returns_rangeI [where I = I])
    show "I 0 (buf, cps, g)" using rs(1) by (auto simp: I_def intro: exI [of _ "fpos g"])
  next
    fix k and x :: "row_buffer \<times> CHUNKS list \<times> row_file"
    assume k: "0 \<le> k" "k < int (length rs)" and x: "I k x"
    obtain buf1 cps1 g1 where xe: "x = (buf1, cps1, g1)" by (cases x)
    obtain i where ki: "k = int i" using nonneg_int_cases [OF k(1)] by blast
    then have i: "i < length rs" using k(2) by simp
    obtain p where p: "g1 = g\<lparr>fpos := p\<rparr>" "length cps1 = length cps" using x xe by (auto simp: I_def)
    have rsi: "rs ! i \<noteq> []" "\<forall>a\<in>set (rs ! i). row_bytes a = unat s" using rs(2,3) nth_mem [OF i] by metis+
    have "on_disk g1 (cps1 ! i) (rs ! i)" using x i xe ki by (auto simp: I_def p(1) on_disk_def)
    then have "returns (ReadSubChunk lim s buf1 (s div 4) (of_nat i) reg cps1 g1) (chunk_read s reg buf1 cps1 g1 i (rs ! i))"
      by (intro ReadSubChunk_run [OF z i n(1) _ _ _ _ rsi(2)]) (use n(2) p g rsi(1) in simp_all)
    then show "returns (case x of (buf, chunks, f) \<Rightarrow> ReadSubChunk lim s buf (s div 4) (word_of_int k) reg chunks f) (I (k + 1))"
      unfolding xe ki
    proof (simp, elim returns_mono)
      fix y assume y: "chunk_read s reg buf1 cps1 g1 i (rs ! i) y"
      obtain buf2 cps2 g2 where ye: "y = (buf2, cps2, g2)" by (cases y)
      obtain c q where r: "cps2 = cps1[i := c]" "g2 = g1\<lparr>fpos := q\<rparr>" "run_state buf2 ?w ?r g1 i c (take ?r (rs ! i)) (drop ?r (rs ! i))"
        "outside ?w ?r i buf1 buf2" using y ye by (auto simp: chunk_read_def)
      have "if int j < int i + 1 then run_state buf2 ?w ?r g2 j (cps2 ! j) (take ?r (rs ! j)) (drop ?r (rs ! j)) else on_disk g (cps2 ! j) (rs ! j)"
        if j: "j < length rs" for j
      proof (cases "j = i")
        case True
        then show ?thesis using r(1-3) i p(2) n(2) by (simp add: run_state_def on_disk_def)
      next
        case False
        then have xj: "if j < i then run_state buf1 ?w ?r g1 j (cps1 ! j) (take ?r (rs ! j)) (drop ?r (rs ! j)) else on_disk g (cps1 ! j) (rs ! j)"
          using x j unfolding xe ki I_def by auto
        then show ?thesis using run_state_outside [OF _ r(4) _ w, of g1 j "cps1 ! j" "take ?r (rs ! j)" "drop ?r (rs ! j)"] False r(1,2) by auto
      qed
      then have all: "\<forall>j<length rs. if int j < int i + 1 then run_state buf2 ?w ?r g2 j (cps2 ! j) (take ?r (rs ! j)) (drop ?r (rs ! j)) else on_disk g (cps2 ! j) (rs ! j)" by blast
      have "\<exists>p. g2 = g\<lparr>fpos := p\<rparr>" "length cps2 = length cps" using p r(1,2) by auto
      then show "I (int i + 1) y" using all unfolding I_def ye by blast
    qed
  qed (auto simp: I_def runs_state_def n(2))
qed

section \<open>The smallest head\<close>

definition loaded :: "(row list \<times> row list) list \<Rightarrow> nat \<Rightarrow> bool" where
  "loaded Rs i \<longleftrightarrow> i < length Rs \<and> fst (Rs ! i) \<noteq> []"

definition head_of :: "(row list \<times> row list) list \<Rightarrow> nat \<Rightarrow> row" where
  "head_of Rs i = hd (fst (Rs ! i))"

lemma runs_state_head:
  assumes z: "sizes_ok lim s reg (length Rs)" and st: "runs_state buf (unat (s div 4)) (unat reg) g cps Rs" and i: "loaded Rs i"
  shows "head_row buf (s div 4) reg cps (int i) = Some (head_of Rs i)"
proof -
  have l: "i < length Rs" "length Rs \<le> length cps" "fst (Rs ! i) \<noteq> []" using i st by (simp_all add: loaded_def runs_state_def)
  have r: "run_state buf (unat (s div 4)) (unat reg) g i (cps ! i) (fst (Rs ! i)) (snd (Rs ! i))" using st l by (simp add: runs_state_def)
  have p: "unat (posSubChunk (cps ! i)) < unat reg" using r l(3) by (cases "fst (Rs ! i)") (auto simp: run_state_def)
  have "unat (s div 4 * (of_nat i * reg + posSubChunk (cps ! i))) = (i * unat reg + unat (posSubChunk (cps ! i))) * unat (s div 4)"
    using sizes_word(2) [OF z l(1) p] by simp
  moreover have "buf ((i * unat reg + unat (posSubChunk (cps ! i))) * unat (s div 4) + 0 * unat (s div 4)) = Some (fst (Rs ! i) ! 0)"
    using r l(3) unfolding run_state_def in_buffer_def by blast
  ultimately show ?thesis using l by (simp add: head_row_def head_of_def hd_conv_nth)
qed

lemma runs_state_cur:
  assumes "runs_state buf w reg g cps Rs" "i < length Rs"
  shows "aget cps (int i) = Some (cps ! i)" "0 < curSubChunk (cps ! i) \<longleftrightarrow> loaded Rs i" "unat (curSubChunk (cps ! i)) = length (fst (Rs ! i))"
    "unat (curChunkNum (cps ! i)) = length (snd (Rs ! i))"
proof -
  have r: "run_state buf w reg g i (cps ! i) (fst (Rs ! i)) (snd (Rs ! i))" "length Rs \<le> length cps" using assms by (simp_all add: runs_state_def)
  then show "unat (curSubChunk (cps ! i)) = length (fst (Rs ! i))" "unat (curChunkNum (cps ! i)) = length (snd (Rs ! i))" "aget cps (int i) = Some (cps ! i)"
    using assms(2) by (simp_all add: run_state_def on_disk_def)
  then show "0 < curSubChunk (cps ! i) \<longleftrightarrow> loaded Rs i" using assms(2) by (simp add: loaded_def word_gt_0 flip: unat_gt_0)
qed

lemma first_chunk_loaded:
  assumes z: "sizes_ok lim s reg (length Rs)" and st: "runs_state buf (unat (s div 4)) (unat reg) g cps Rs" and n: "uint n = int (length Rs)" and i: "loaded Rs i"
  shows "returns (first_chunk buf (s div 4) reg cps n old) (\<lambda>m. \<exists>j. loaded Rs j \<and> (\<forall>t<j. \<not> loaded Rs t) \<and> m = Some (head_of Rs j, int j))"
proof -
  define I where "I = (\<lambda>k (m :: (row \<times> int) option, found). if found then \<exists>j. loaded Rs j \<and> (\<forall>t<j. \<not> loaded Rs t) \<and> m = Some (head_of Rs j, int j)
      else \<forall>t. int t < k \<longrightarrow> \<not> loaded Rs t)"
  have "returns (for_range 0 (uint n) (\<lambda>i (m, found). if found then Some (m, found) else do {
         c \<leftarrow> aget cps i;
         if curSubChunk c > 0 then do { a \<leftarrow> head_row buf (s div 4) reg cps i; Some (Some (a, i), True) }
         else Some (m, found) }) (old, False)) (\<lambda>(m, _). \<exists>j. loaded Rs j \<and> (\<forall>t<j. \<not> loaded Rs t) \<and> m = Some (head_of Rs j, int j))"
    unfolding n
  proof (rule returns_rangeI [where I = I])
    fix k and x :: "(row \<times> int) option \<times> bool"
    assume k: "0 \<le> k" "k < int (length Rs)" and x: "I k x"
    obtain m f where xe: "x = (m, f)" by force
    obtain j where kj: "k = int j" using nonneg_int_cases [OF k(1)] by blast
    have "j < length Rs" using k(2) kj by simp
    note c = runs_state_cur [OF st this]
    show "returns (case x of (m, found) \<Rightarrow> if found then Some (m, found) else aget cps k \<bind> (\<lambda>c.
         if 0 < curSubChunk c then head_row buf (s div 4) reg cps k \<bind> (\<lambda>a. Some (Some (a, k), True)) else Some (m, found))) (I (k + 1))"
    proof (cases f)
      case True
      then show ?thesis using x by (simp add: xe I_def)
    next
      case False
      then have b: "\<forall>t<j. \<not> loaded Rs t" using x by (simp add: xe I_def kj)
      show ?thesis
      proof (cases "loaded Rs j")
        case True
        then show ?thesis using runs_state_head [OF z st True] c(2) b False unfolding xe kj c(1) prod.case by (auto simp: I_def c(1))
      next
        case nl: False
        then have "\<forall>t. int t < int j + 1 \<longrightarrow> \<not> loaded Rs t" using b by (metis less_Suc_eq of_nat_Suc of_nat_less_iff add.commute)
        then show ?thesis using c(2) nl False unfolding xe kj prod.case by (simp add: I_def c(1) del: aget_in)
      qed
    qed
  next
    fix x assume "I (int (length Rs)) x"
    then show "case x of (m, _) \<Rightarrow> \<exists>j. loaded Rs j \<and> (\<forall>t<j. \<not> loaded Rs t) \<and> m = Some (head_of Rs j, int j)"
      using i unfolding I_def loaded_def by (cases x) (auto split: if_splits)
  qed (simp_all add: I_def)
  then show ?thesis unfolding first_chunk_def by (auto elim!: returns_mono)
qed

lemma min_chunk_head:
  assumes z: "sizes_ok lim s reg (length Rs)" and st: "runs_state buf (unat (s div 4)) (unat reg) g cps Rs" and n: "uint n = int (length Rs)"
    and keys: "\<forall>i. loaded Rs i \<longrightarrow> length (snd (head_of Rs i)) = unat vn" and j: "loaded Rs j" "\<forall>t<j. \<not> loaded Rs t"
  shows "returns (min_chunk buf (s div 4) reg cps n vn (head_of Rs j, int j))
     (\<lambda>(a, i). \<exists>t. loaded Rs t \<and> i = int t \<and> a = head_of Rs t \<and> (\<forall>u. loaded Rs u \<longrightarrow> snd a \<le> snd (head_of Rs u)))"
  unfolding min_chunk_def n
proof (rule returns_rangeI [where I = "\<lambda>k (a, i). \<exists>t. loaded Rs t \<and> i = int t \<and> a = head_of Rs t \<and> (\<forall>u. int u < k \<and> loaded Rs u \<longrightarrow> snd a \<le> snd (head_of Rs u))"])
  show "case (head_of Rs j, int j) of (a, i) \<Rightarrow> \<exists>t. loaded Rs t \<and> i = int t \<and> a = head_of Rs t \<and> (\<forall>u. int u < snd (head_of Rs j, int j) \<and> loaded Rs u \<longrightarrow> snd a \<le> snd (head_of Rs u))"
    using j by auto
  show "snd (head_of Rs j, int j) \<le> int (length Rs)" using j(1) by (simp add: loaded_def)
next
  fix k x
  assume k: "snd (head_of Rs j, int j) \<le> k" "k < int (length Rs)" and x: "case x of (a, i) \<Rightarrow> \<exists>t. loaded Rs t \<and> i = int t \<and> a = head_of Rs t \<and> (\<forall>u. int u < k \<and> loaded Rs u \<longrightarrow> snd a \<le> snd (head_of Rs u))"
  obtain q where kq: "k = int q" using k(1) nonneg_int_cases [of k] by auto
  have "q < length Rs" using k(2) kq by simp
  note c = runs_state_cur [OF st this]
  obtain t where t: "x = (head_of Rs t, int t)" "loaded Rs t" "\<forall>u<q. loaded Rs u \<longrightarrow> snd (head_of Rs t) \<le> snd (head_of Rs u)" using x kq by (cases x) auto
  have up: "int u < int q + 1 \<longleftrightarrow> u < q \<or> u = q" for u by auto
  show "returns (aget cps k \<bind> (\<lambda>c. if 0 < curSubChunk c then head_row buf (s div 4) reg cps k \<bind> (\<lambda>a. KeyComp (snd a) (snd (fst x)) vn \<bind> (\<lambda>r. Some (if r < 0 then (a, k) else x))) else Some x))
     (\<lambda>(a, i). \<exists>t. loaded Rs t \<and> i = int t \<and> a = head_of Rs t \<and> (\<forall>u. int u < k + 1 \<and> loaded Rs u \<longrightarrow> snd a \<le> snd (head_of Rs u)))"
  proof (cases "loaded Rs q")
    case True
    have kc: "KeyComp (snd (head_of Rs q)) (snd (head_of Rs t)) vn = Some (if snd (head_of Rs q) < snd (head_of Rs t) then -1 else if snd (head_of Rs t) < snd (head_of Rs q) then 1 else 0)"
      using keys True t(2) by (intro KeyComp_less) auto
    show ?thesis
    proof (cases "snd (head_of Rs q) < snd (head_of Rs t)")
      case lt: True
      then have "\<exists>u. loaded Rs u \<and> int q = int u \<and> head_of Rs q = head_of Rs u \<and> (\<forall>v. int v < int q + 1 \<and> loaded Rs v \<longrightarrow> snd (head_of Rs q) \<le> snd (head_of Rs v))"
        using True t(3) unfolding up by (intro exI [of _ q]) (auto dest: order.strict_implies_order intro: order_trans)
      then show ?thesis using c(2) True runs_state_head [OF z st True] kc lt unfolding kq t(1) by (simp add: c(1) del: aget_in)
    next
      case ge: False
      then have "\<exists>u. loaded Rs u \<and> int t = int u \<and> head_of Rs t = head_of Rs u \<and> (\<forall>v. int v < int q + 1 \<and> loaded Rs v \<longrightarrow> snd (head_of Rs t) \<le> snd (head_of Rs v))"
        using t(2,3) unfolding up by (intro exI [of _ t]) (auto simp: not_less)
      then show ?thesis using c(2) True runs_state_head [OF z st True] kc ge unfolding kq t(1) by (simp add: c(1) del: aget_in)
    qed
  next
    case False
    then have "\<exists>u. loaded Rs u \<and> int t = int u \<and> head_of Rs t = head_of Rs u \<and> (\<forall>v. int v < int q + 1 \<and> loaded Rs v \<longrightarrow> snd (head_of Rs t) \<le> snd (head_of Rs v))"
      using t(2,3) unfolding up by (intro exI [of _ t]) auto
    then show ?thesis using c(2) False unfolding kq t(1) by (simp add: c(1) del: aget_in)
  qed
next
  fix x assume "case x of (a, i) \<Rightarrow> \<exists>t. loaded Rs t \<and> i = int t \<and> a = head_of Rs t \<and> (\<forall>u. int u < int (length Rs) \<and> loaded Rs u \<longrightarrow> snd a \<le> snd (head_of Rs u))"
  then show "case x of (a, i) \<Rightarrow> \<exists>t. loaded Rs t \<and> i = int t \<and> a = head_of Rs t \<and> (\<forall>u. loaded Rs u \<longrightarrow> snd a \<le> snd (head_of Rs u))"
    by (auto simp: loaded_def)
qed

end
