(* ===== verification/Dc_Merged.thy ===== *)
theory Dc_Merged
  imports Dc_Merge
begin

text \<open>
  The rounds of the merge: what is written and what remains always group to the same rows, and every round takes one row
  from the runs.
\<close>

section \<open>The invariant on the rows\<close>

definition flat :: "(row list \<times> row list) list \<Rightarrow> row list list" where
  "flat Rs = List.map (\<lambda>(b, d). b @ d) Rs"

text \<open>The rows \<open>W\<close> are written, the row in \<open>os\<close> is collected, the others are in the runs.\<close>

definition all_rows :: "row list \<Rightarrow> row list \<Rightarrow> (row list \<times> row list) list \<Rightarrow> row list" where
  "all_rows W os Rs = W @ os @ concat (flat Rs)"

definition merge_inv :: "nat \<Rightarrow> nat \<Rightarrow> row list \<Rightarrow> nat \<Rightarrow> row list \<Rightarrow> row list \<Rightarrow> (row list \<times> row list) list \<Rightarrow> bool" where
  "merge_inv m d G N W os Rs \<longleftrightarrow> sorted_rows (W @ os) \<and> (os = [] \<longrightarrow> W = []) \<and> length os \<le> 1 \<and>
     (\<forall>r\<in>set (flat Rs). sorted_rows r \<and> (\<forall>x\<in>set r. \<forall>q\<in>set os. snd q \<le> snd x)) \<and>
     group_rows m (all_rows W os Rs) = G \<and> rec_rows m d (all_rows W os Rs) \<and> length (all_rows W os Rs) \<le> N \<and>
     (\<forall>i<m. int N * asum (all_rows W os Rs) i < 2 ^ 63)"

fun agg :: "row \<Rightarrow> row list \<Rightarrow> row list \<Rightarrow> row list \<times> row list" where
  "agg a W [] = (W, [a])"
| "agg a W (q # qs) = (if snd q = snd a then (W, [add_row q a]) else (W @ [q], [a]))"

lemma concat_pick:
  assumes "i < length Rs" "Rs ! i = (a # b, d)"
  obtains xs ys where "concat (flat Rs) = xs @ a # ys" "concat (flat (Rs[i := (b, d)])) = xs @ ys" "set (flat (Rs[i := (b, d)])) \<subseteq> insert (b @ d) (set (flat Rs))"
    "a # b @ d \<in> set (flat Rs)"
proof -
  have e: "Rs = take i Rs @ (a # b, d) # drop (Suc i) Rs" using id_take_nth_drop [OF assms(1)] assms(2) by simp
  have u: "Rs[i := (b, d)] = take i Rs @ (b, d) # drop (Suc i) Rs" using assms(1) by (simp add: upd_conv_take_nth_drop)
  have f: "flat Rs = flat (take i Rs) @ (a # b @ d) # flat (drop (Suc i) Rs)" by (subst e) (simp add: flat_def)
  have f': "flat (Rs[i := (b, d)]) = flat (take i Rs) @ (b @ d) # flat (drop (Suc i) Rs)" unfolding u by (simp add: flat_def)
  show thesis
    by (rule that [of "concat (flat (take i Rs))" "b @ d @ concat (flat (drop (Suc i) Rs))"]) (auto simp: f f')
qed

lemma sorted_rows_Cons: "sorted_rows (a # as) \<longleftrightarrow> (\<forall>x\<in>set as. snd a < snd x) \<and> sorted_rows as"
  by (simp add: sorted_rows_def)

lemma sorted_rows_append: "sorted_rows (as @ bs) \<longleftrightarrow> sorted_rows as \<and> sorted_rows bs \<and> (\<forall>x\<in>set as. \<forall>y\<in>set bs. snd x < snd y)"
  by (simp add: sorted_rows_def sorted_wrt_append)

lemma sorted_rows_simps [simp]: "sorted_rows []" "sorted_rows [a]"
  by (simp_all add: sorted_rows_def)

lemma merge_inv_step:
  assumes I: "merge_inv m d G N W os Rs" and i: "loaded Rs i" "\<forall>u. loaded Rs u \<longrightarrow> snd (head_of Rs i) \<le> snd (head_of Rs u)"
    and primed: "\<forall>j<length Rs. fst (Rs ! j) = [] \<longrightarrow> snd (Rs ! j) = []"
  shows "case agg (head_of Rs i) W os of (W', os') \<Rightarrow> merge_inv m d G N W' os' (Rs[i := (tl (fst (Rs ! i)), snd (Rs ! i))])"
proof -
  obtain a b e where ri: "Rs ! i = (a # b, e)" "i < length Rs" using i(1) by (cases "Rs ! i"; cases "fst (Rs ! i)") (auto simp: loaded_def)
  have a: "head_of Rs i = a" using ri by (simp add: head_of_def)
  let ?Rs = "Rs[i := (b, e)]"
  obtain xs ys where c: "concat (flat Rs) = xs @ a # ys" "concat (flat ?Rs) = xs @ ys" "set (flat ?Rs) \<subseteq> insert (b @ e) (set (flat Rs))" "a # b @ e \<in> set (flat Rs)"
    by (rule concat_pick [OF ri(2,1)])
  have srt: "sorted_rows r" "\<forall>x\<in>set r. \<forall>q\<in>set os. snd q \<le> snd x" if "r \<in> set (flat Rs)" for r using I that by (auto simp: merge_inv_def)
  have sab: "sorted_rows (a # b @ e)" by (rule srt(1) [OF c(4)])
  have min: "snd a \<le> snd x" if x: "r \<in> set (flat Rs)" "x \<in> set r" for r x
  proof -
    obtain j where j: "j < length Rs" "r = fst (Rs ! j) @ snd (Rs ! j)" using x(1) by (auto simp: flat_def in_set_conv_nth split_beta)
    have "fst (Rs ! j) \<noteq> []" using j x(2) primed by auto
    then have "snd a \<le> snd (head_of Rs j)" "r = head_of Rs j # tl (fst (Rs ! j)) @ snd (Rs ! j)" using i(2) a j by (simp_all add: loaded_def head_of_def)
    moreover have "snd (head_of Rs j) \<le> snd x" using srt(1) [OF x(1)] x(2) calculation(2) by (auto simp: sorted_rows_Cons less_imp_le)
    ultimately show ?thesis by (blast intro: order_trans)
  qed
  have rest: "sorted_rows r \<and> (\<forall>x\<in>set r. snd a \<le> snd x)" if "r \<in> set (flat ?Rs)" for r
  proof -
    have "sorted_rows (b @ e)" "\<forall>x\<in>set (b @ e). snd a \<le> snd x" using sab min [OF c(4)] by (simp_all add: sorted_rows_Cons)
    moreover have "r = b @ e \<or> r \<in> set (flat Rs)" using c(3) that by blast
    ultimately show ?thesis using srt(1) min by blast
  qed
  have le: "\<forall>q\<in>set os. snd q \<le> snd a" using srt(2) [OF c(4)] by simp
  have I': "sorted_rows (W @ os)" "os = [] \<longrightarrow> W = []" "length os \<le> 1" "group_rows m (W @ os @ xs @ a # ys) = G" "rec_rows m d (W @ os @ xs @ a # ys)"
    "length (W @ os @ xs @ a # ys) \<le> N" "\<forall>i<m. int N * asum (W @ os @ xs @ a # ys) i < 2 ^ 63"
    using I by (simp_all add: merge_inv_def all_rows_def c(1))
  consider "os = []" | q where "os = [q]" "snd q = snd a" | q where "os = [q]" "snd q < snd a"
    using I'(3) le by (cases os) (auto simp: le_less)
  then show ?thesis
  proof cases
    case 1
    have "group_rows m (a # xs @ ys) = group_rows m (xs @ a # ys)" by (rule group_rows_cong) auto
    then show ?thesis using 1 I' rest by (auto simp: merge_inv_def all_rows_def a ri c(2) sorted_rows_def algebra_simps)
  next
    case 2
    have len: "length (fst q) = m" "length (fst a) = m" using I'(5) 2 by simp_all
    have s: "fst (add_row q a) ! i = fst q ! i + fst a ! i" "snd (add_row q a) = snd q" if "i < m" for i using len that by (simp_all add: add_row_def)
    have k: "snd (add_row q a) = snd q" "length (fst (add_row q a)) = m" using len by (simp_all add: add_row_def)
    have "group_rows m (W @ add_row q a # xs @ ys) = group_rows m (W @ q # xs @ a # ys)"
      by (rule group_rows_cong) (auto simp: k s 2)
    moreover have "int N * asum (W @ add_row q a # xs @ ys) i < 2 ^ 63" if "i < m" for i
    proof -
      have "int N * asum (W @ add_row q a # xs @ ys) i \<le> int N * asum (W @ q # xs @ a # ys) i" by (intro mult_left_mono) (auto simp: s that)
      then show ?thesis using I'(7) that 2 by fastforce
    qed
    moreover have "sorted_rows (W @ [add_row q a])" using I'(1) 2 k(1) by (simp add: sorted_rows_append)
    ultimately show ?thesis using 2 I' rest k by (auto simp: merge_inv_def all_rows_def a ri c(2))
  next
    case 3
    have "group_rows m (W @ q # a # xs @ ys) = group_rows m (W @ q # xs @ a # ys)" by (rule group_rows_cong) auto
    moreover have "\<forall>x\<in>set W. snd x < snd a" using I'(1) 3 by (auto simp: sorted_rows_append)
    then have "sorted_rows (W @ [q] @ [a])" using I'(1) 3 by (auto simp: sorted_rows_append sorted_rows_Cons)
    moreover have "asum (W @ q # a # xs @ ys) i = asum (W @ q # xs @ a # ys) i" for i by simp
    moreover have "\<forall>r\<in>set (flat ?Rs). sorted_rows r \<and> (\<forall>x\<in>set r. \<forall>q\<in>set [a]. snd q \<le> snd x)" using rest by simp
    ultimately have "merge_inv m d G N (W @ [q]) [a] ?Rs"
      using I'(4-7) 3(1) unfolding merge_inv_def all_rows_def c(2) by (simp add: ac_simps)
    moreover have "agg a W os = (W @ [q], [a])" using 3 by auto
    ultimately show ?thesis by (simp add: a ri)
  qed
qed

section \<open>Writing a complete row\<close>

text \<open>The checksum of one measure, as \<open>extbuild.c\<close> computes it; \<open>n\<close> rows were written before.\<close>

fun checks_s :: "nat \<Rightarrow> row list \<Rightarrow> nat \<Rightarrow> int \<Rightarrow> int" where
  "checks_s i [] n c = c"
| "checks_s i (a # as) n c = checks_s i as (Suc n) (c + c_rem (int (Suc n) * fst a ! i) measbound)"

lemma checks_s_append: "checks_s i (as @ bs) n c = checks_s i bs (n + length as) (checks_s i as n c)"
  by (induction as arbitrary: n c) simp_all

definition checked_s :: "nat \<Rightarrow> row list \<Rightarrow> nat \<Rightarrow> int list \<Rightarrow> int list \<Rightarrow> bool" where
  "checked_s m as n cs cs' \<longleftrightarrow> length cs' = length cs \<and> (\<forall>i<m. cs' ! i = checks_s i as n (cs ! i))"

lemma checked_s_trans: "checked_s m as n cs cs' \<Longrightarrow> checked_s m bs (n + length as) cs' cs'' \<Longrightarrow> checked_s m (as @ bs) n cs cs''"
  by (simp add: checked_s_def checks_s_append)

lemma c_rem_bound:
  assumes "0 < b"
  shows "\<bar>c_rem a b\<bar> < b"
proof -
  have m: "\<bar>a\<bar> - b * (\<bar>a\<bar> div b) = \<bar>a\<bar> mod b" by (rule minus_mult_div_eq_mod)
  have "c_rem a b = sgn a * (\<bar>a\<bar> - b * (\<bar>a\<bar> div b))"
    using assms by (cases a "0 :: int" rule: linorder_cases) (simp_all add: c_rem_def c_quot_def)
  then have "c_rem a b = sgn a * (\<bar>a\<bar> mod b)" by (simp only: m)
  moreover have "0 \<le> \<bar>a\<bar> mod b" "\<bar>a\<bar> mod b < b" using assms by simp_all
  ultimately show ?thesis using assms by (auto simp: abs_mult sgn_if)
qed

lemma checks_s_bound: "\<bar>checks_s i as n c\<bar> \<le> \<bar>c\<bar> + int (length as) * measbound"
proof (induction as arbitrary: n c)
  case (Cons a as)
  have "\<bar>c_rem (int (Suc n) * fst a ! i) measbound\<bar> < measbound" by (rule c_rem_bound) (simp add: measbound_def)
  then show ?case using Cons.IH [of "Suc n" "c + c_rem (int (Suc n) * fst a ! i) measbound"] by (simp add: algebra_simps)
qed simp

lemma put_out_row:
  assumes s: "row_bytes a = unat (outRecSize avp)" "fpos (viewFile avp) + row_bytes a \<le> froom (viewFile avp)"
    and l: "length (fst a) = unat (nmv avp)" "unat (nmv avp) \<le> length (mSums avp)" "unat (nmv avp) \<le> length (checksums avp)"
    and n: "unat (nViewRows avp) + 1 < 2 ^ 32"
    and b: "\<And>i. i < unat (nmv avp) \<Longrightarrow> \<bar>mSums avp ! i + fst a ! i\<bar> < 2 ^ 63 \<and> \<bar>int (unat (nViewRows avp) + 1) * fst a ! i\<bar> < 2 ^ 63 \<and> \<bar>checksums avp ! i\<bar> + measbound < 2 ^ 63"
  shows "returns (put_out a avp) (\<lambda>(w, avp'). w \<and> (\<exists>ms cs. summed (unat (nmv avp)) [a] (mSums avp) ms \<and> checked_s (unat (nmv avp)) [a] (unat (nViewRows avp)) (checksums avp) cs \<and>
     avp' = avp\<lparr>viewFile := write_rec a (viewFile avp), nViewRows := nViewRows avp + 1, mSums := ms, checksums := cs\<rparr>))"
proof -
  let ?m = "unat (nmv avp)" and ?k = "nViewRows avp + 1"
  have k: "uint ?k = int (unat (nViewRows avp) + 1)" 
  proof -
    have "unat ?k = unat (nViewRows avp) + 1" using n by (simp add: unat_word_ariths(1))
    then show ?thesis by (simp only: uint_nat)
  qed
  have "returns (for_range 0 (uint (nmv avp)) (\<lambda>i (ms, cs). do {
         v \<leftarrow> aget (fst a) i;
         x \<leftarrow> aget ms i; x \<leftarrow> i64 (x + v); ms \<leftarrow> aset ms i x;
         c \<leftarrow> aget cs i; c \<leftarrow> checksum_s ?k v c; cs \<leftarrow> aset cs i c;
         Some (ms, cs) }) (mSums avp, checksums avp))
     (\<lambda>(ms, cs). summed ?m [a] (mSums avp) ms \<and> checked_s ?m [a] (unat (nViewRows avp)) (checksums avp) cs)"
  proof (rule returns_rangeI [where I = "\<lambda>q (ms, cs). length ms = length (mSums avp) \<and> length cs = length (checksums avp) \<and>
      (\<forall>i<?m. ms ! i = (if int i < q then mSums avp ! i + fst a ! i else mSums avp ! i) \<and>
         cs ! i = (if int i < q then checks_s i [a] (unat (nViewRows avp)) (checksums avp ! i) else checksums avp ! i))"])
    fix q and x :: "int list \<times> int list"
    assume q: "0 \<le> q" "q < uint (nmv avp)" and x: "case x of (ms, cs) \<Rightarrow> length ms = length (mSums avp) \<and> length cs = length (checksums avp) \<and>
      (\<forall>i<?m. ms ! i = (if int i < q then mSums avp ! i + fst a ! i else mSums avp ! i) \<and>
         cs ! i = (if int i < q then checks_s i [a] (unat (nViewRows avp)) (checksums avp ! i) else checksums avp ! i))"
    obtain ms cs where xe: "x = (ms, cs)" by (cases x)
    obtain j where qj: "q = int j" using nonneg_int_cases [OF q(1)] by blast
    then have j: "j < ?m" using q(2) by simp
    note bj = b [OF j]
    have x1: "ms ! j = mSums avp ! j" "cs ! j = checksums avp ! j" using x j by (simp_all add: xe qj)
    have i1: "i64 (mSums avp ! j + fst a ! j) = Some (mSums avp ! j + fst a ! j)" using bj by (intro i64_in) linarith+
    have i2: "i64 (int (unat (nViewRows avp) + 1) * fst a ! j) = Some (int (unat (nViewRows avp) + 1) * fst a ! j)" using bj by (intro i64_in) linarith+
    have "\<bar>c_rem (int (unat (nViewRows avp) + 1) * fst a ! j) measbound\<bar> < measbound" by (rule c_rem_bound) (simp add: measbound_def)
    then have i3: "i64 (checksums avp ! j + c_rem (int (unat (nViewRows avp) + 1) * fst a ! j) measbound) =
        Some (checksums avp ! j + c_rem (int (unat (nViewRows avp) + 1) * fst a ! j) measbound)" using bj by (intro i64_in) linarith+
    have cs1: "checksum_s ?k (fst a ! j) (checksums avp ! j) = Some (checks_s j [a] (unat (nViewRows avp)) (checksums avp ! j))"
      unfolding checksum_s_def k i2 using i3 by simp
    show "returns (case x of (ms, cs) \<Rightarrow> aget (fst a) q \<bind> (\<lambda>v. aget ms q \<bind> (\<lambda>x. i64 (x + v) \<bind> (\<lambda>x. aset ms q x \<bind> (\<lambda>ms. aget cs q \<bind> (\<lambda>c. checksum_s ?k v c \<bind> (\<lambda>c. aset cs q c \<bind> (\<lambda>cs. Some (ms, cs)))))))))
     (\<lambda>(ms, cs). length ms = length (mSums avp) \<and> length cs = length (checksums avp) \<and>
      (\<forall>i<?m. ms ! i = (if int i < q + 1 then mSums avp ! i + fst a ! i else mSums avp ! i) \<and>
         cs ! i = (if int i < q + 1 then checks_s i [a] (unat (nViewRows avp)) (checksums avp ! i) else checksums avp ! i)))"
      using x j l i1 cs1 unfolding xe qj by (auto simp: x1 nth_list_update simp del: checks_s.simps)
  qed (auto simp: summed_def checked_s_def)
  then obtain ms cs where f: "for_range 0 (uint (nmv avp)) (\<lambda>i (ms, cs). do {
         v \<leftarrow> aget (fst a) i;
         x \<leftarrow> aget ms i; x \<leftarrow> i64 (x + v); ms \<leftarrow> aset ms i x;
         c \<leftarrow> aget cs i; c \<leftarrow> checksum_s ?k v c; cs \<leftarrow> aset cs i c;
         Some (ms, cs) }) (mSums avp, checksums avp) = Some (ms, cs)" "summed ?m [a] (mSums avp) ms" "checked_s ?m [a] (unat (nViewRows avp)) (checksums avp) cs"
    by (auto elim!: returnsE)
  show ?thesis using f WriteToFile_row [OF s] by (auto simp: put_out_def Let_def)
qed

section \<open>The state of the merge\<close>

definition merge_env :: "ADC_VIEW_CNTL \<Rightarrow> nat \<Rightarrow> bool" where
  "merge_env avp N \<longleftrightarrow> unat (outRecSize avp) = 4 * unat (nv avp) + 8 * unat (nmv avp) \<and> 0 < unat (nmv avp) \<and>
     unat (nmv avp) \<le> length (mSums avp) \<and> unat (nmv avp) \<le> length (checksums avp) \<and>
     (\<forall>i<unat (nmv avp). mSums avp ! i = 0 \<and> checksums avp ! i = 0) \<and> N < 2 ^ 32 - 1 \<and>
     fpos (viewFile avp) + N * unat (outRecSize avp) \<le> froom (viewFile avp)"

text \<open>The rows \<open>W\<close> were written.\<close>

definition written :: "ADC_VIEW_CNTL \<Rightarrow> row list \<Rightarrow> int list \<Rightarrow> int list \<Rightarrow> CHUNKS list \<Rightarrow> row_file \<Rightarrow> ADC_VIEW_CNTL" where
  "written avp W ms cs cps g = avp\<lparr>nViewRows := of_nat (length W), viewFile := write_rows W (viewFile avp), mSums := ms, checksums := cs, chunksParams := cps, fileOfChunks := g\<rparr>"

lemma written_simps [simp]:
  "(written avp W ms cs cps g)\<lparr>chunksParams := cps'\<rparr> = written avp W ms cs cps' g"
  "(written avp W ms cs cps g)\<lparr>fileOfChunks := g'\<rparr> = written avp W ms cs cps g'"
  by (simp_all add: written_def)

definition wrote :: "ADC_VIEW_CNTL \<Rightarrow> row list \<Rightarrow> CHUNKS list \<Rightarrow> row_file \<Rightarrow> ADC_VIEW_CNTL \<Rightarrow> bool" where
  "wrote avp W cps g avp' \<longleftrightarrow> (\<exists>ms cs. summed (unat (nmv avp)) W (mSums avp) ms \<and> checked_s (unat (nmv avp)) W 0 (checksums avp) cs \<and>
     avp' = written avp W ms cs cps g)"

lemma wrote_simps:
  assumes "wrote avp W cps g avp'"
  shows "nmv avp' = nmv avp" "nv avp' = nv avp" "outRecSize avp' = outRecSize avp" "chunksParams avp' = cps" "fileOfChunks avp' = g"
    "numberOfChunks avp' = numberOfChunks avp" "memoryLimitv avp' = memoryLimitv avp"
    "wrote avp W cps' g (avp'\<lparr>chunksParams := cps'\<rparr>)" "wrote avp W cps' g' (avp'\<lparr>chunksParams := cps', fileOfChunks := g'\<rparr>)"
proof -
  obtain ms cs where w: "summed (unat (nmv avp)) W (mSums avp) ms" "checked_s (unat (nmv avp)) W 0 (checksums avp) cs" "avp' = written avp W ms cs cps g"
    using assms by (auto simp: wrote_def)
  show "wrote avp W cps' g (avp'\<lparr>chunksParams := cps'\<rparr>)" "wrote avp W cps' g' (avp'\<lparr>chunksParams := cps', fileOfChunks := g'\<rparr>)"
    unfolding wrote_def using w by (intro exI [of _ ms] exI [of _ cs]; simp)+
qed (use assms in \<open>auto simp: wrote_def written_def\<close>)

lemma merge_inv_out:
  assumes "merge_inv m d G N W [q] Rs" "i < m"
  shows "int (Suc (length W)) * \<bar>fst q ! i\<bar> < 2 ^ 63" "asum W i + \<bar>fst q ! i\<bar> < 2 ^ 63" "Suc (length W) \<le> N" "length (fst q) = m" "length (snd q) = d"
proof -
  have I: "int N * asum (all_rows W [q] Rs) i < 2 ^ 63" "length (all_rows W [q] Rs) \<le> N" "rec_rows m d (all_rows W [q] Rs)" using assms by (simp_all add: merge_inv_def)
  show n: "Suc (length W) \<le> N" using I(2) by (simp add: all_rows_def)
  show "length (fst q) = m" "length (snd q) = d" using I(3) by (simp_all add: all_rows_def)
  let ?A = "asum (all_rows W [q] Rs) i"
  have A: "asum W i + \<bar>fst q ! i\<bar> \<le> ?A" using asum_nonneg [of "concat (flat Rs)" i] by (simp add: all_rows_def)
  have "0 \<le> ?A" by (rule asum_nonneg)
  then have "1 * ?A \<le> int N * ?A" using n by (intro mult_right_mono) simp_all
  then show "asum W i + \<bar>fst q ! i\<bar> < 2 ^ 63" using A I(1) by linarith
  have "int (Suc (length W)) * \<bar>fst q ! i\<bar> \<le> int N * ?A"
    using n A asum_nonneg [of W i] by (intro mult_mono) linarith+
  then show "int (Suc (length W)) * \<bar>fst q ! i\<bar> < 2 ^ 63" using I(1) by linarith
qed

lemma put_out_wrote:
  assumes e: "merge_env avp N" and w: "wrote avp W cps g avp1" and I: "merge_inv (unat (nmv avp)) (unat (nv avp)) G N W [q] Rs"
  shows "returns (put_out q avp1) (\<lambda>(ok, avp'). ok \<and> wrote avp (W @ [q]) cps g avp')"
proof -
  let ?m = "unat (nmv avp)" and ?s = "unat (outRecSize avp)"
  obtain ms cs where mc: "summed ?m W (mSums avp) ms" "checked_s ?m W 0 (checksums avp) cs"
    and a1: "avp1 = avp\<lparr>nViewRows := of_nat (length W), viewFile := write_rows W (viewFile avp), mSums := ms, checksums := cs, chunksParams := cps, fileOfChunks := g\<rparr>"
    using w by (auto simp: wrote_def written_def)
  have e': "?s = 4 * unat (nv avp) + 8 * ?m" "?m \<le> length ms" "?m \<le> length cs" "0 < ?m" "N < 2 ^ 32 - 1"
    "fpos (viewFile avp) + N * ?s \<le> froom (viewFile avp)"
    using e mc unfolding merge_env_def summed_def checked_s_def by auto
  have q: "Suc (length W) \<le> N" "length (fst q) = ?m" "length (snd q) = unat (nv avp)" using merge_inv_out(3-5) [OF I e'(4)] by simp_all
  have rW: "rows_bytes W = length W * ?s"
    using I rec_rows_bytes(1) [of ?m "unat (nv avp)" W] e'(1) by (simp add: merge_inv_def all_rows_def)
  have rq: "row_bytes q = ?s" using q e'(1) by (simp add: row_bytes_def)
  have "Suc (length W) * ?s \<le> N * ?s" using q(1) by (rule mult_le_mono1)
  then have room: "fpos (viewFile avp1) + row_bytes q \<le> froom (viewFile avp1)" using e'(6) rW rq by (simp add: a1)
  have n: "unat (of_nat (length W) :: 32 word) = length W" using q(1) e'(5) by (intro small_word) simp
  have b: "\<bar>ms ! i + fst q ! i\<bar> < 2 ^ 63 \<and> \<bar>int (length W + 1) * fst q ! i\<bar> < 2 ^ 63 \<and> \<bar>cs ! i\<bar> + measbound < 2 ^ 63" if i: "i < ?m" for i
  proof (intro conjI)
    have "ms ! i = psum (\<lambda>_. True) W i" "cs ! i = checks_s i W 0 0" using mc e i by (simp_all add: summed_def checked_s_def merge_env_def)
    then show "\<bar>ms ! i + fst q ! i\<bar> < 2 ^ 63" "\<bar>cs ! i\<bar> + measbound < 2 ^ 63"
      using psum_abs [of "\<lambda>_. True" W i] merge_inv_out(2) [OF I i] checks_s_bound [of i W 0 0] q(1) e'(5) by (simp_all add: measbound_def)
    show "\<bar>int (length W + 1) * fst q ! i\<bar> < 2 ^ 63" using merge_inv_out(1) [OF I i] by (simp add: abs_mult)
  qed
  have "returns (put_out q avp1) (\<lambda>(w, avp'). w \<and> (\<exists>ms' cs'. summed (unat (nmv avp1)) [q] (mSums avp1) ms' \<and> checked_s (unat (nmv avp1)) [q] (unat (nViewRows avp1)) (checksums avp1) cs' \<and>
     avp' = avp1\<lparr>viewFile := write_rec q (viewFile avp1), nViewRows := nViewRows avp1 + 1, mSums := ms', checksums := cs'\<rparr>))"
  proof (rule put_out_row)
    show "\<And>i. i < unat (nmv avp1) \<Longrightarrow> \<bar>mSums avp1 ! i + fst q ! i\<bar> < 2 ^ 63 \<and> \<bar>int (unat (nViewRows avp1) + 1) * fst q ! i\<bar> < 2 ^ 63 \<and> \<bar>checksums avp1 ! i\<bar> + measbound < 2 ^ 63"
      using b n by (simp add: a1)
  qed (use room rq q e' n in \<open>simp_all add: a1\<close>)
  moreover have "wrote avp (W @ [q]) cps g (avp1\<lparr>viewFile := write_rec q (viewFile avp1), nViewRows := nViewRows avp1 + 1, mSums := ms', checksums := cs'\<rparr>)"
    if "summed ?m [q] ms ms'" "checked_s ?m [q] (length W) cs cs'" for ms' cs'
    unfolding wrote_def using summed_trans [OF mc(1) that(1)] checked_s_trans [OF mc(2), of "[q]" cs'] that(2)
    by (intro exI [of _ ms'] exI [of _ cs']) (simp add: a1 written_def add.commute)
  ultimately show ?thesis by (auto simp: a1 n elim!: returns_mono)
qed

section \<open>A round of the merge\<close>

definition out_buf :: "row list \<Rightarrow> row option" where
  "out_buf os = (case os of [] \<Rightarrow> None | q # _ \<Rightarrow> Some q)"

lemma add_mSums_row:
  assumes "length (fst q) = unat m" "length (fst a) = unat m" "\<And>i. i < unat m \<Longrightarrow> \<bar>fst q ! i + fst a ! i\<bar> < 2 ^ 63"
  shows "add_mSums m (fst a) (fst q) = Some (fst (add_row q a))"
proof -
  have "returns (add_mSums m (fst a) (fst q)) (\<lambda>ms'. length ms' = length (fst q) \<and> (\<forall>i<length (fst q). ms' ! i = (if i < unat m then fst q ! i + fst a ! i else fst q ! i)))"
    by (rule add_mSums_returns) (use assms in simp_all)
  then show ?thesis using assms(1,2) by (auto simp: add_row_def intro!: nth_equalityI elim!: returnsE)
qed

lemma aggregate_wrote:
  assumes e: "merge_env avp N" and w: "wrote avp W cps g avp1" and I: "merge_inv (unat (nmv avp)) (unat (nv avp)) G N W os Rs" and a: "a \<in> set (concat (flat Rs))"
  shows "returns (aggregate_row a (out_buf os) avp1) (\<lambda>(ok, out, avp'). ok \<and> (\<exists>W'. agg a W os = (W', [out]) \<and> wrote avp W' cps g avp'))"
proof (cases os)
  case Nil
  then show ?thesis using w by (simp add: aggregate_row_def out_buf_def)
next
  case (Cons q qs)
  then have os: "os = [q]" using I by (simp add: merge_inv_def)
  let ?m = "unat (nmv avp)"
  have e': "0 < ?m" using e by (simp add: merge_env_def)
  have I1: "merge_inv ?m (unat (nv avp)) G N W [q] Rs" using I os by simp
  have r: "rec_rows ?m (unat (nv avp)) (q # concat (flat Rs))" using I by (simp add: merge_inv_def all_rows_def os)
  then have l: "length (fst q) = ?m" "length (snd q) = unat (nv avp)" "length (fst a) = ?m" "length (snd a) = unat (nv avp)" using a by (auto simp: rec_rows_def)
  have kc: "KeyComp (snd q) (snd a) (nv avp1) = Some (if snd q < snd a then -1 else if snd a < snd q then 1 else 0)"
    using l wrote_simps(2) [OF w] by (intro KeyComp_less) simp_all
  show ?thesis
  proof (cases "snd q = snd a")
    case True
    have "\<bar>fst q ! i + fst a ! i\<bar> < 2 ^ 63" if i: "i < ?m" for i
    proof -
      obtain xs ys where xy: "concat (flat Rs) = xs @ a # ys" using split_list [OF a] by blast
      have I2: "int N * asum (all_rows W [q] Rs) i < 2 ^ 63" "1 \<le> N" using I1 i by (auto simp: merge_inv_def all_rows_def)
      have "\<bar>fst q ! i\<bar> + \<bar>fst a ! i\<bar> \<le> asum (all_rows W [q] Rs) i"
        using asum_nonneg [of W i] asum_nonneg [of xs i] asum_nonneg [of ys i] by (simp add: all_rows_def xy)
      moreover have "1 * asum (all_rows W [q] Rs) i \<le> int N * asum (all_rows W [q] Rs) i" using I2(2) asum_nonneg by (intro mult_right_mono) simp_all
      ultimately show ?thesis using I2(1) by linarith
    qed
    then have "add_mSums (nmv avp1) (fst a) (fst q) = Some (fst (add_row q a))" using l wrote_simps(1) [OF w] by (intro add_mSums_row) simp_all
    moreover have "(fst (add_row q a), snd q) = add_row q a" by (simp add: add_row_def)
    ultimately show ?thesis using True kc w by (simp add: aggregate_row_def out_buf_def os)
  next
    case False
    then show ?thesis using kc put_out_wrote [OF e w I1] by (auto simp: aggregate_row_def out_buf_def os elim!: returns_mono)
  qed
qed

text \<open>The head of a run is taken from the buffer.\<close>

definition popped :: "(row list \<times> row list) list \<Rightarrow> nat \<Rightarrow> (row list \<times> row list) list" where
  "popped Rs i = Rs[i := (tl (fst (Rs ! i)), snd (Rs ! i))]"

lemma pop_state:
  fixes reg :: "32 word"
  assumes st: "runs_state buf w (unat reg) g cps Rs" and i: "loaded Rs i"
  shows "runs_state buf w (unat reg) g (cps[i := (cps ! i)\<lparr>curSubChunk := curSubChunk (cps ! i) - 1, posSubChunk := posSubChunk (cps ! i) + 1\<rparr>]) (popped Rs i)"
proof -
  let ?c = "cps ! i" and ?c' = "(cps ! i)\<lparr>curSubChunk := curSubChunk (cps ! i) - 1, posSubChunk := posSubChunk (cps ! i) + 1\<rparr>"
  obtain a b d where ri: "Rs ! i = (a # b, d)" "i < length Rs" using i by (cases "Rs ! i"; cases "fst (Rs ! i)") (auto simp: loaded_def)
  have l: "length Rs \<le> length cps" using st by (simp add: runs_state_def)
  have r: "unat (curSubChunk ?c) = Suc (length b)" "on_disk g ?c d" "unat (posSubChunk ?c) + Suc (length b) \<le> unat reg"
    "in_buffer buf w ((i * unat reg + unat (posSubChunk ?c)) * w) (a # b)"
    using st ri by (auto simp: runs_state_def run_state_def)
  have lt: "unat reg < 2 ^ 32" by (rule order_less_le_trans [OF unsigned_less [where ?'a = nat]]) simp
  have p: "unat (posSubChunk ?c + 1) = Suc (unat (posSubChunk ?c))" using r(3) lt by (simp add: unat_word_ariths(1))
  have ne: "curSubChunk ?c \<noteq> 0" using r(1) by auto
  have c: "unat (curSubChunk ?c - 1) = length b" using r(1) ne by (simp add: unat_minus_one)
  have "in_buffer buf w ((i * unat reg + Suc (unat (posSubChunk ?c))) * w) b"
    unfolding in_buffer_def
  proof (intro allI impI)
    fix j assume "j < length b"
    then have "buf ((i * unat reg + unat (posSubChunk ?c)) * w + Suc j * w) = Some ((a # b) ! Suc j)"
      using r(4) unfolding in_buffer_def by (metis Suc_less_eq length_Cons)
    then show "buf ((i * unat reg + Suc (unat (posSubChunk ?c))) * w + j * w) = Some (b ! j)" by (simp add: algebra_simps)
  qed
  then have "run_state buf w (unat reg) g i ?c' b d" using r(2,3) by (simp add: run_state_def c p on_disk_def)
  then show ?thesis using st l ri unfolding runs_state_def popped_def by (auto simp: nth_list_update)
qed

lemma count_all:
  assumes "length P = n" "n < 2 ^ 32"
  shows "(of_nat (length (filter (\<lambda>b. b) P)) :: 32 word) = of_nat n \<longleftrightarrow> (\<forall>b\<in>set P. b)"
proof -
  let ?k = "length (filter (\<lambda>b. b) P)"
  have "?k \<le> n" using assms(1) by (metis length_filter_le)
  then have "unat (of_nat ?k :: 32 word) = ?k" "unat (of_nat n :: 32 word) = n" using assms(2) by (simp_all add: small_word)
  then have "(of_nat ?k :: 32 word) = of_nat n \<longleftrightarrow> ?k = n" by metis
  also have "\<dots> \<longleftrightarrow> (\<forall>b\<in>set P. b)" using assms(1) length_filter_less [of _ P "\<lambda>b. b"] by (metis filter_True less_irrefl)
  finally show ?thesis .
qed

lemma count_empty_all:
  assumes "n \<le> length cps" "n < 2 ^ 32"
  shows "returns (count_empty (of_nat n) cps) (\<lambda>(bufs, runs). (bufs = of_nat n \<longleftrightarrow> (\<forall>i<n. curSubChunk (cps ! i) = 0)) \<and> (runs = of_nat n \<longleftrightarrow> (\<forall>i<n. curChunkNum (cps ! i) = 0)))"
proof -
  define P Q where "P = (\<lambda>k. List.map (\<lambda>i. curSubChunk (cps ! i) = 0) [0..<k])" and "Q = (\<lambda>k. List.map (\<lambda>i. curChunkNum (cps ! i) = 0) [0..<k])"
  have "returns (count_empty (of_nat n) cps) (\<lambda>(bufs, runs). bufs = of_nat (length (filter (\<lambda>b. b) (P n))) \<and> runs = of_nat (length (filter (\<lambda>b. b) (Q n))))"
    unfolding count_empty_def small_word(2) [OF assms(2)]
  proof (rule returns_rangeI [where I = "\<lambda>k (bufs, runs). bufs = of_nat (length (filter (\<lambda>b. b) (P (nat k)))) \<and> runs = of_nat (length (filter (\<lambda>b. b) (Q (nat k))))"])
    fix k and x :: "32 word \<times> 32 word"
    assume k: "0 \<le> k" "k < int n" and x: "case x of (bufs, runs) \<Rightarrow> bufs = of_nat (length (filter (\<lambda>b. b) (P (nat k)))) \<and> runs = of_nat (length (filter (\<lambda>b. b) (Q (nat k))))"
    obtain j where kj: "k = int j" using nonneg_int_cases [OF k(1)] by blast
    have j: "j < length cps" "nat (k + 1) = Suc j" "nat k = j" using k assms(1) kj by simp_all
    show "returns (case x of (bufs, runs) \<Rightarrow> aget cps k \<bind> (\<lambda>c. Some (if curSubChunk c = 0 then bufs + 1 else bufs, if curChunkNum c = 0 then runs + 1 else runs)))
       (\<lambda>(bufs, runs). bufs = of_nat (length (filter (\<lambda>b. b) (P (nat (k + 1))))) \<and> runs = of_nat (length (filter (\<lambda>b. b) (Q (nat (k + 1))))))"
      using x j(1) unfolding j(2,3) by (cases x) (simp add: kj P_def Q_def add.commute)
  qed (simp_all add: P_def Q_def)
  then show ?thesis
  proof (rule returns_mono)
    fix x :: "32 word \<times> 32 word"
    assume x: "case x of (bufs, runs) \<Rightarrow> bufs = of_nat (length (filter (\<lambda>b. b) (P n))) \<and> runs = of_nat (length (filter (\<lambda>b. b) (Q n)))"
    have l: "length (P n) = n" "length (Q n) = n" by (simp_all add: P_def Q_def)
    have "(\<forall>b\<in>set (P n). b) \<longleftrightarrow> (\<forall>i<n. curSubChunk (cps ! i) = 0)" "(\<forall>b\<in>set (Q n). b) \<longleftrightarrow> (\<forall>i<n. curChunkNum (cps ! i) = 0)"
      by (auto simp: P_def Q_def)
    then show "case x of (bufs, runs) \<Rightarrow> (bufs = of_nat n \<longleftrightarrow> (\<forall>i<n. curSubChunk (cps ! i) = 0)) \<and> (runs = of_nat n \<longleftrightarrow> (\<forall>i<n. curChunkNum (cps ! i) = 0))"
      using x count_all [OF l(1) assms(2)] count_all [OF l(2) assms(2)] by (cases x) (simp only: prod.case)
  qed
qed

end
