(* ===== verification/Dc_Sort.thy ===== *)
theory Dc_Sort
  imports Dc_Merged
begin

text \<open>
  The whole merge, and with it the external sort: whatever the size of the memory, the rows appended to the file of the
  views are the groups of the rows of the input, in the order of their keys.
\<close>

section \<open>One round\<close>

definition primed :: "(row list \<times> row list) list \<Rightarrow> bool" where
  "primed Rs \<longleftrightarrow> (\<forall>j<length Rs. fst (Rs ! j) = [] \<longrightarrow> snd (Rs ! j) = [])"

definition merge_rel :: "ADC_VIEW_CNTL \<Rightarrow> row list \<Rightarrow> nat \<Rightarrow> 32 word \<Rightarrow> row list \<Rightarrow> row list \<Rightarrow> (row list \<times> row list) list \<Rightarrow> merge_state \<Rightarrow> bool" where
  "merge_rel avp G N reg W os Rs = (\<lambda>(avp1, buf, old, out). (\<exists>cps p. wrote avp W cps ((fileOfChunks avp)\<lparr>fpos := p\<rparr>) avp1 \<and> length cps = length (chunksParams avp) \<and>
        runs_state buf (unat (outRecSize avp div 4)) (unat reg) (fileOfChunks avp) cps Rs) \<and>
     out = out_buf os \<and> merge_inv (unat (nmv avp)) (unat (nv avp)) G N W os Rs \<and> primed Rs)"

lemma runs_state_fpos [simp]: "runs_state buf w reg (g\<lparr>fpos := p\<rparr>) cps Rs = runs_state buf w reg g cps Rs"
  by (simp add: runs_state_def run_state_def on_disk_def)

text \<open>The sizes of a merge of \<open>n\<close> runs.\<close>

definition merge_sizes :: "ADC_VIEW_CNTL \<Rightarrow> 32 word \<Rightarrow> nat \<Rightarrow> bool" where
  "merge_sizes avp reg n \<longleftrightarrow> sizes_ok (memoryLimitv avp) (outRecSize avp) reg n \<and> numberOfChunks avp = of_nat n \<and> n \<le> 1024 \<and> flen (fileOfChunks avp) < 2 ^ 63"

lemma flat_empty: "concat (flat Rs) = [] \<longleftrightarrow> (\<forall>i<length Rs. fst (Rs ! i) = [] \<and> snd (Rs ! i) = [])"
  by (auto simp: flat_def split_beta in_set_conv_nth all_set_conv_all_nth)

lemma loaded_in: "loaded Rs i \<Longrightarrow> head_of Rs i \<in> set (concat (flat Rs))"
  by (auto simp: loaded_def head_of_def flat_def split_beta intro!: bexI [of _ "Rs ! i"] hd_in_set)

lemma flat_refill:
  assumes "Rs ! i = ([], d)" "i < length Rs"
  shows "flat (Rs[i := (take k d, drop k d)]) = flat Rs"
  using assms by (auto simp: flat_def list_eq_iff_nth_eq nth_list_update)

lemma popped_primed:
  assumes p: "primed Rs" and i: "i < length Rs" and k: "0 < k" and t: "popped Rs i ! i = ([], d)"
  shows "primed ((popped Rs i)[i := (take k d, drop k d)])"
  using assms by (auto simp: primed_def popped_def nth_list_update)

lemma popped_length [simp]: "length (popped Rs i) = length Rs"
  by (simp add: popped_def)

lemma popped_rows:
  assumes "loaded Rs i"
  shows "length (concat (flat (popped Rs i))) < length (concat (flat Rs))" "length (concat (flat (popped Rs i))) = length (concat (flat Rs)) - 1"
proof -
  obtain a b d where ri: "Rs ! i = (a # b, d)" "i < length Rs" using assms by (cases "Rs ! i"; cases "fst (Rs ! i)") (auto simp: loaded_def)
  obtain xs ys where "concat (flat Rs) = xs @ a # ys" "concat (flat (Rs[i := (b, d)])) = xs @ ys" by (rule concat_pick [OF ri(2,1)])
  then show "length (concat (flat (popped Rs i))) < length (concat (flat Rs))" "length (concat (flat (popped Rs i))) = length (concat (flat Rs)) - 1"
    by (simp_all add: popped_def ri)
qed

definition round_done :: "ADC_VIEW_CNTL \<Rightarrow> row list \<Rightarrow> nat \<Rightarrow> 32 word \<Rightarrow> (row list \<times> row list) list \<Rightarrow> merge_next \<times> merge_state \<Rightarrow> bool" where
  "round_done avp G N reg Rs = (\<lambda>(r, s). \<exists>W q Rs'. length Rs' = length Rs \<and> merge_rel avp G N reg W [q] Rs' s \<and>
     (r = Go_on \<and> (\<exists>i. loaded Rs' i) \<and> length (concat (flat Rs')) < length (concat (flat Rs)) \<or> r = Done \<and> concat (flat Rs') = []))"

lemma round_doneI:
  assumes "length Rs' = length Rs" "merge_rel avp G N reg W [q] Rs' s"
    "r = Go_on \<and> (\<exists>i. loaded Rs' i) \<and> length (concat (flat Rs')) < length (concat (flat Rs)) \<or> r = Done \<and> concat (flat Rs') = []"
  shows "round_done avp G N reg Rs (r, s)"
  using assms unfolding round_done_def by blast

lemma merge_round_step:
  assumes e: "merge_env avp N" and z: "merge_sizes avp reg (length Rs)" and rel: "merge_rel avp G N reg W os Rs s" and some: "loaded Rs i0"
  shows "returns (merge_round (outRecSize avp div 4) reg s) (round_done avp G N reg Rs)"
proof -
  let ?m = "unat (nmv avp)" and ?d = "unat (nv avp)" and ?w = "outRecSize avp div 4" and ?g = "fileOfChunks avp"
  obtain avp1 buf old out where s: "s = (avp1, buf, old, out)" by (cases s)
  obtain cps p where w: "wrote avp W cps (?g\<lparr>fpos := p\<rparr>) avp1" and lcp: "length cps = length (chunksParams avp)" and st: "runs_state buf (unat ?w) (unat reg) ?g cps Rs"
    and out: "out = out_buf os" and I: "merge_inv ?m ?d G N W os Rs" and pr: "primed Rs" using rel s by (auto simp: merge_rel_def)
  note ws = wrote_simps [OF w]
  have zz: "sizes_ok (memoryLimitv avp) (outRecSize avp) reg (length Rs)" "numberOfChunks avp = of_nat (length Rs)" "length Rs \<le> 1024" "flen ?g < 2 ^ 63"
    using z by (simp_all add: merge_sizes_def)
  have n: "uint (numberOfChunks avp) = int (length Rs)" using zz(2,3) by (simp add: small_word)
  have rr: "rec_rows ?m ?d (concat (flat Rs))" using I by (simp add: merge_inv_def all_rows_def)
  have keys: "\<forall>i. loaded Rs i \<longrightarrow> length (snd (head_of Rs i)) = ?d" using rr loaded_in unfolding rec_rows_def by blast
  obtain j where j: "first_chunk buf ?w reg cps (numberOfChunks avp) old = Some (Some (head_of Rs j, int j))" "loaded Rs j" "\<forall>t<j. \<not> loaded Rs t"
    using first_chunk_loaded [OF zz(1) st n some, of old] by (auto elim!: returnsE)
  obtain i where i: "min_chunk buf ?w reg cps (numberOfChunks avp) (nv avp) (head_of Rs j, int j) = Some (head_of Rs i, int i)" "loaded Rs i"
    "\<forall>u. loaded Rs u \<longrightarrow> snd (head_of Rs i) \<le> snd (head_of Rs u)"
    using min_chunk_head [OF zz(1) st n keys j(2,3)] by (auto elim!: returnsE)
  have il: "i < length Rs" using i(2) by (simp add: loaded_def)
  note ci = runs_state_cur [OF st il]
  let ?a = "head_of Rs i" and ?c = "cps ! i"
  let ?c' = "?c\<lparr>curSubChunk := curSubChunk ?c - 1, posSubChunk := posSubChunk ?c + 1\<rparr>" and ?Rs = "popped Rs i"
  define cps1 where "cps1 = cps[i := ?c']"
  have lcp1: "length cps1 = length (chunksParams avp)" using lcp by (simp add: cps1_def)
  have lc: "length Rs \<le> length cps" using st by (simp add: runs_state_def)
  have ne: "curSubChunk ?c \<noteq> 0" using ci(2) i(2) by (simp add: word_gt_0)
  have set: "aset cps (int i) ?c' = Some cps1" "aget cps1 (int i) = Some (cps1 ! i)" using il lc by (simp_all add: cps1_def)
  have st1: "runs_state buf (unat ?w) (unat reg) ?g cps1 ?Rs" unfolding cps1_def by (rule pop_state [OF st i(2)])
  have agg: "case agg ?a W os of (W', os') \<Rightarrow> merge_inv ?m ?d G N W' os' ?Rs"
    unfolding popped_def by (rule merge_inv_step [OF I i(2,3) pr [unfolded primed_def]])
  obtain q avp2 W' where a: "aggregate_row ?a out (avp1\<lparr>chunksParams := cps1\<rparr>) = Some (True, q, avp2)" "agg ?a W os = (W', [q])"
    "wrote avp W' cps1 (?g\<lparr>fpos := p\<rparr>) avp2"
    using aggregate_wrote [OF e ws(8) [of cps1] I loaded_in [OF i(2)]] unfolding out by (auto elim!: returnsE)
  note w2 = wrote_simps [OF a(3)]
  have I2: "merge_inv ?m ?d G N W' [q] ?Rs" using agg a(2) by simp
  have lr: "length ?Rs \<le> length cps1" "length ?Rs < 2 ^ 32" using lc zz(3) by (simp_all add: cps1_def)
  obtain bufs runs where ce: "count_empty (numberOfChunks avp) cps1 = Some (bufs, runs)"
    "bufs = numberOfChunks avp \<longleftrightarrow> (\<forall>t<length Rs. curSubChunk (cps1 ! t) = 0)" "runs = numberOfChunks avp \<longleftrightarrow> (\<forall>t<length Rs. curChunkNum (cps1 ! t) = 0)"
    using count_empty_all [OF lr] by (auto simp: zz(2) elim!: returnsE)
  have cur1: "curSubChunk (cps1 ! t) = 0 \<longleftrightarrow> fst (?Rs ! t) = []" "curChunkNum (cps1 ! t) = 0 \<longleftrightarrow> snd (?Rs ! t) = []" if "t < length Rs" for t
    using runs_state_cur(3,4) [OF st1, of t] that by (simp_all add: unat_eq_0 [symmetric])
  have all: "bufs = numberOfChunks avp \<and> runs = numberOfChunks avp \<longleftrightarrow> concat (flat ?Rs) = []"
    unfolding ce(2,3) flat_empty by (auto simp: cur1)
  have start: "merge_round ?w reg s = (if bufs = numberOfChunks avp \<and> runs = numberOfChunks avp then Some (Done, avp2, buf, Some (?a, int i), Some q)
      else if curSubChunk (cps1 ! i) = 0 then do {
           (buf, chunks, f) \<leftarrow> ReadSubChunk (memoryLimitv avp) (outRecSize avp) buf ?w (of_nat i) reg cps1 (?g\<lparr>fpos := p\<rparr>);
           Some (Go_on, avp2\<lparr>chunksParams := chunks, fileOfChunks := f\<rparr>, buf, Some (?a, int i), Some q) }
         else Some (Go_on, avp2, buf, Some (?a, int i), Some q))"
    using j(1) i(1) ci(1) ne set a(1) ce(1)
    by (simp add: merge_round_def s ws w2 Let_def del: aset_in aget_in aget_eq_Some aset_eq_Some)
  show ?thesis
  proof (cases "concat (flat ?Rs) = []")
    case True
    have "primed ?Rs" using True unfolding flat_empty primed_def by simp
    then have "merge_rel avp G N reg W' [q] ?Rs (avp2, buf, Some (?a, int i), Some q)"
      using a(3) st1 I2 lcp1 by (auto simp: merge_rel_def out_buf_def)
    then have "round_done avp G N reg Rs (Done, avp2, buf, Some (?a, int i), Some q)" using True by (intro round_doneI [of ?Rs]) simp_all
    then show ?thesis using True all unfolding start by simp
  next
    case False
    then have nd: "\<not> (bufs = numberOfChunks avp \<and> runs = numberOfChunks avp)" using all by blast
    show ?thesis
    proof (cases "fst (?Rs ! i) = []")
      case empty: True
      let ?d' = "snd (Rs ! i)"
      have pi: "?Rs ! i = ([], ?d')" using empty il by (simp add: popped_def)
      let ?Rs2 = "?Rs[i := (take (unat reg) ?d', drop (unat reg) ?d')]"
      have rd: "\<forall>a\<in>set ?d'. row_bytes a = unat (outRecSize avp)"
      proof
        fix a assume "a \<in> set ?d'"
        then have "a \<in> set (concat (flat Rs))" using nth_mem [OF il] by (auto simp: flat_def split_beta)
        then show "row_bytes a = unat (outRecSize avp)" using rec_rows_bytes(2) [OF rr] e by (simp add: merge_env_def)
      qed
      have g: "flen (?g\<lparr>fpos := p\<rparr>) < 2 ^ 63" using zz(4) by simp
      have "returns (ReadSubChunk (memoryLimitv avp) (outRecSize avp) buf ?w (of_nat i) reg cps1 (?g\<lparr>fpos := p\<rparr>))
        (\<lambda>(buf', cps', g'). \<exists>r. g' = (?g\<lparr>fpos := p\<rparr>)\<lparr>fpos := r\<rparr> \<and> length cps' = length cps1 \<and> runs_state buf' (unat ?w) (unat reg) g' cps' ?Rs2)"
        by (rule refill [where Rs = ?Rs]) (use zz il pi st1 rd in simp_all)
      then obtain buf' cps' r where rs: "ReadSubChunk (memoryLimitv avp) (outRecSize avp) buf ?w (of_nat i) reg cps1 (?g\<lparr>fpos := p\<rparr>) = Some (buf', cps', ?g\<lparr>fpos := r\<rparr>)"
        "runs_state buf' (unat ?w) (unat reg) ?g cps' ?Rs2" "length cps' = length (chunksParams avp)" using lcp1 by (auto elim!: returnsE)
      have fl: "flat ?Rs2 = flat ?Rs" using pi il by (intro flat_refill) simp_all
      have "0 < unat reg" using zz(1) by (simp add: sizes_ok_def)
      then have pr2: "primed ?Rs2" by (rule popped_primed [OF pr il _ pi])
      have "merge_rel avp G N reg W' [q] ?Rs2 (avp2\<lparr>chunksParams := cps', fileOfChunks := ?g\<lparr>fpos := r\<rparr>\<rparr>, buf', Some (?a, int i), Some q)"
        using w2(9) [of cps' "?g\<lparr>fpos := r\<rparr>"] rs(2,3) I2 pr2 unfolding merge_rel_def out_buf_def merge_inv_def all_rows_def fl by auto
      moreover have "\<exists>t. loaded ?Rs2 t" using False pr2 unfolding fl [symmetric] flat_empty primed_def loaded_def by auto
      ultimately have "round_done avp G N reg Rs (Go_on, avp2\<lparr>chunksParams := cps', fileOfChunks := ?g\<lparr>fpos := r\<rparr>\<rparr>, buf', Some (?a, int i), Some q)"
        using popped_rows(1) [OF i(2)] by (intro round_doneI [of ?Rs2]) (simp_all add: fl del: length_concat)
      then show ?thesis using empty cur1 [OF il] rs(1) unfolding start if_not_P [OF nd] by simp
    next
      case ne': False
      have "primed ?Rs" using pr ne' il by (auto simp: primed_def popped_def nth_list_update)
      then have "merge_rel avp G N reg W' [q] ?Rs (avp2, buf, Some (?a, int i), Some q)" using a(3) st1 I2 lcp1 by (auto simp: merge_rel_def out_buf_def)
      moreover have "loaded ?Rs i" using ne' il by (simp add: loaded_def)
      ultimately have "round_done avp G N reg Rs (Go_on, avp2, buf, Some (?a, int i), Some q)"
        using popped_rows(1) [OF i(2)] by (intro round_doneI [of ?Rs]) (auto simp del: length_concat)
      then show ?thesis using ne' cur1 [OF il] unfolding start if_not_P [OF nd] by simp
    qed
  qed
qed

section \<open>The loop\<close>

lemma merge_loop_ends:
  assumes e: "merge_env avp N" and z: "merge_sizes avp reg (length Rs)" and rel: "merge_rel avp G N reg W os Rs s" and some: "\<exists>i. loaded Rs i"
  shows "returns (merge_loop (outRecSize avp div 4) reg s) (\<lambda>(ok, s'). ok \<and> (\<exists>W q Rs'. merge_rel avp G N reg W [q] Rs' s' \<and> concat (flat Rs') = []))"
  using z rel some
proof (induction "length (concat (flat Rs))" arbitrary: Rs W os s rule: less_induct)
  case less
  obtain i0 where i0: "loaded Rs i0" using less.prems(3) by blast
  obtain x where x: "merge_round (outRecSize avp div 4) reg s = Some x" "round_done avp G N reg Rs x"
    using merge_round_step [OF e less.prems(1,2) i0] by (rule returnsE)
  obtain r s' where rs: "x = (r, s')" by (cases x)
  obtain W' q Rs' where r: "merge_round (outRecSize avp div 4) reg s = Some (r, s')" "length Rs' = length Rs" "merge_rel avp G N reg W' [q] Rs' s'"
    "r = Go_on \<and> (\<exists>i. loaded Rs' i) \<and> length (concat (flat Rs')) < length (concat (flat Rs)) \<or> r = Done \<and> concat (flat Rs') = []"
    using x unfolding rs round_done_def by blast
  from r(4) show ?case
  proof (elim disjE conjE)
    assume g: "r = Go_on" "\<exists>i. loaded Rs' i" "length (concat (flat Rs')) < length (concat (flat Rs))"
    have z': "merge_sizes avp reg (length Rs')" using less.prems(1) r(2) by simp
    show ?thesis using less.hyps [OF g(3) z' r(3) g(2)] r(1) g(1) by (subst merge_loop.simps) simp
  next
    assume d: "r = Done" "concat (flat Rs') = []"
    have "\<exists>W q Rs'. merge_rel avp G N reg W [q] Rs' s' \<and> concat (flat Rs') = []" using r(3) d(2) by blast
    then show ?thesis using r(1) d(1) by (subst merge_loop.simps) simp
  qed
qed

lemma group_sorted_id:
  assumes "sorted_rows xs" "\<forall>x\<in>set xs. length (fst x) = m"
  shows "group_rows m xs = xs"
proof (rule group_rows_eqI [symmetric, OF assms(1)])
  fix x assume x: "x \<in> set xs"
  have "psum (\<lambda>y. y = snd x) xs i = fst x ! i" for i using assms(1) x
  proof (induction xs)
    case (Cons a as)
    show ?case
    proof (cases "x = a")
      case True
      have "psum (\<lambda>y. y = snd x) as i = 0" by (rule psum_absent) (use Cons.prems True in \<open>auto simp: sorted_rows_Cons\<close>)
      then show ?thesis using True by simp
    next
      case False
      then have "snd a \<noteq> snd x" using Cons.prems by (auto simp: sorted_rows_Cons)
      then show ?thesis using Cons False by (auto simp: sorted_rows_Cons)
    qed
  qed simp
  then show "fst x = List.map (psum (\<lambda>y. y = snd x) xs) [0..<m]" using assms(2) x by (auto intro!: nth_equalityI)
qed simp

section \<open>The whole merge\<close>

text \<open>The groups \<open>G\<close> are appended to the file of the views; the rest of the state is as before, but for the chunks and the tree.\<close>

definition merged :: "ADC_VIEW_CNTL \<Rightarrow> row list \<Rightarrow> ADC_VIEW_CNTL \<Rightarrow> bool" where
  "merged avp G avp' \<longleftrightarrow> (\<exists>ms cs cps p. summed (unat (nmv avp)) G (mSums avp) ms \<and> checked_s (unat (nmv avp)) G 0 (checksums avp) cs \<and> length cps = length (chunksParams avp) \<and>
     avp' = (written avp G ms cs cps ((fileOfChunks avp)\<lparr>fpos := p\<rparr>))\<lparr>tree := (tree avp)\<lparr>memPool := \<lambda>_. None\<rparr>, totalOfViewRows := totalOfViewRows avp + of_nat (length G)\<rparr>)"

lemma runs_on_disk:
  assumes "runs_at cps g rs" "i < length rs"
  shows "on_disk g (cps ! i) (rs ! i)"
proof -
  have e: "concat rs = concat (take i rs) @ rs ! i @ concat (drop (Suc i) rs)"
    by (subst id_take_nth_drop [OF assms(2)]) simp
  have r: "run_at g 0 (concat rs)" "fpos g = rows_bytes (concat rs)" "fpos g \<le> flen g" "unat (curChunkNum (cps ! i)) = length (rs ! i)"
    "chunkOffset (cps ! i) = int (rows_bytes (concat (take i rs)))"
    using assms by (simp_all add: runs_at_def)
  have "run_at g (rows_bytes (concat (take i rs))) (rs ! i)" using r(1) unfolding e by (simp add: run_at_append)
  moreover have "rows_bytes (concat (take i rs)) + rows_bytes (rs ! i) \<le> flen g" using r(2,3) unfolding e by simp
  ultimately show ?thesis using r(4,5) by (simp add: on_disk_def)
qed

lemma asum_groups: "\<forall>as\<in>set ass. \<forall>a\<in>set as. length (fst a) = m \<Longrightarrow> i < m \<Longrightarrow> asum (concat (List.map (group_rows m) ass)) i \<le> asum (concat ass) i"
  by (induction ass) (auto intro: add_mono asum_group)

lemma merge_start:
  assumes b: "length (concat ass) \<le> N" "\<forall>i<m. int N * asum (concat ass) i < 2 ^ 63" and rr: "rec_rows m d (concat ass)"
  shows "merge_inv m d (group_rows m (concat ass)) N [] [] (List.map (\<lambda>r. (take k r, drop k r)) (List.map (group_rows m) ass))"
proof -
  let ?rs = "List.map (group_rows m) ass"
  have f: "flat (List.map (\<lambda>r. (take k r, drop k r)) ?rs) = ?rs" by (simp add: flat_def o_def)
  have l: "\<forall>as\<in>set ass. \<forall>a\<in>set as. length (fst a) = m" using rr by (auto simp: rec_rows_def)
  have "group_rows m (concat ?rs) = group_rows m (concat ass)" using group_merge [OF l, of "[]"] by simp
  moreover have "rec_rows m d (concat ?rs)" using rr by (auto intro: rec_rows_group)
  moreover have "length (concat ?rs) \<le> N" using groups_length_le [of m ass] b(1) by (rule order_trans)
  moreover have "int N * asum (concat ?rs) i < 2 ^ 63" if "i < m" for i
    using mult_left_mono [OF asum_groups [OF l that], of "int N"] b(2) that by fastforce
  ultimately show ?thesis unfolding merge_inv_def all_rows_def f by (auto simp del: length_concat)
qed

lemma merge_division:
  assumes "numberOfChunks avp = of_nat n" "0 < n" "n \<le> 1024" "n * unat (outRecSize avp) \<le> unat (memoryLimitv avp)" "flen (fileOfChunks avp) < 2 ^ 63"
    "unat (outRecSize avp) = 4 * d + 8 * m" "unat (outRecSize avp) \<le> 112" "0 < m"
  shows "merge_sizes avp (memoryLimitv avp div numberOfChunks avp div outRecSize avp) n"
proof -
  let ?s = "unat (outRecSize avp)" and ?L = "unat (memoryLimitv avp)"
  have nu: "unat (numberOfChunks avp) = n" using assms(1,3) by (simp add: small_word)
  have r: "unat (memoryLimitv avp div numberOfChunks avp div outRecSize avp) = ?L div n div ?s" by (simp add: unat_div nu)
  have s: "0 < ?s" using assms(6,8) by simp
  have "?s \<le> ?L div n" using assms(2,4) by (simp add: less_eq_div_iff_mult_less_eq mult.commute)
  then have "0 < ?L div n div ?s" using s by (simp add: div_greater_zero_iff)
  moreover have "n * (?L div n div ?s) * ?s \<le> ?L"
  proof -
    have "n * (?L div n div ?s * ?s) \<le> n * (?L div n)" by (intro mult_le_mono2) simp
    also have "\<dots> \<le> ?L" by simp
    finally show ?thesis by (simp add: mult.assoc)
  qed
  moreover have "?s = 4 * unat (outRecSize avp div 4)" using assms(6) by (simp add: unat_div)
  ultimately show ?thesis unfolding merge_sizes_def sizes_ok_def r using assms(1,3,5,7) s by (intro conjI) blast+
qed

lemma MultiWayMerge_groups:
  assumes e: "merge_env avp N" and n: "numberOfChunks avp = of_nat (length ass)" "ass \<noteq> []" "length ass \<le> 1024" "[] \<notin> set ass"
    and runs: "runs_at (chunksParams avp) (fileOfChunks avp) (List.map (group_rows (unat (nmv avp))) ass)" and g: "flen (fileOfChunks avp) < 2 ^ 63"
    and rr: "rec_rows (unat (nmv avp)) (unat (nv avp)) (concat ass)" and s: "unat (outRecSize avp) \<le> 112"
    and mem: "length ass * unat (outRecSize avp) \<le> unat (memoryLimitv avp)"
    and b: "length (concat ass) \<le> N" "\<forall>i<unat (nmv avp). int N * asum (concat ass) i < 2 ^ 63"
  shows "returns (MultiWayMerge avp) (\<lambda>(r, avp'). r = ADC_OK \<and> merged avp (group_rows (unat (nmv avp)) (concat ass)) avp')"
proof -
  let ?m = "unat (nmv avp)" and ?d = "unat (nv avp)" and ?w = "outRecSize avp div 4" and ?reg = "memoryLimitv avp div numberOfChunks avp div outRecSize avp"
  let ?rs = "List.map (group_rows ?m) ass" and ?G = "group_rows ?m (concat ass)"
  define avp1 where "avp1 = avp\<lparr>fileOfChunks := (fileOfChunks avp)\<lparr>fpos := 0\<rparr>, nViewRows := 0, tree := (tree avp)\<lparr>memPool := \<lambda>_. None\<rparr>\<rparr>"
  have a1: "nmv avp1 = nmv avp" "nv avp1 = nv avp" "outRecSize avp1 = outRecSize avp" "memoryLimitv avp1 = memoryLimitv avp" "numberOfChunks avp1 = numberOfChunks avp"
    "chunksParams avp1 = chunksParams avp" "mSums avp1 = mSums avp" "checksums avp1 = checksums avp" "viewFile avp1 = viewFile avp"
    "fileOfChunks avp1 = (fileOfChunks avp)\<lparr>fpos := 0\<rparr>" by (simp_all add: avp1_def)
  have e1: "merge_env avp1 N" using e unfolding merge_env_def a1 .
  have em: "unat (outRecSize avp) = 4 * ?d + 8 * ?m" "0 < ?m" using e by (simp_all add: merge_env_def)
  have z: "merge_sizes avp1 ?reg (length ass)"
    using merge_division [of avp1 "length ass" ?d ?m] n g s mem em by (simp add: a1)
  then have zz: "sizes_ok (memoryLimitv avp) (outRecSize avp) ?reg (length ass)" unfolding merge_sizes_def a1 by blast
  have rr': "\<forall>as\<in>set ass. rec_rows ?m ?d as" using rr by simp
  have disk: "\<forall>i<length ?rs. on_disk (fileOfChunks avp1) (chunksParams avp ! i) (?rs ! i)"
    using runs_on_disk [OF runs] by (simp add: a1 on_disk_def)
  have ne: "[] \<notin> set ?rs" using n(4) by (auto simp: group_rows_def)
  have bytes: "\<forall>r\<in>set ?rs. \<forall>a\<in>set r. row_bytes a = unat (outRecSize avp)"
    using rr' rec_rows_bytes(2) rec_rows_group em(1) by (metis (no_types, lifting) imageE list.set_map)
  have u: "uint (numberOfChunks avp) = int (length ?rs)" using n(1,3) by (simp add: small_word)
  have lc: "length ?rs \<le> length (chunksParams avp)" using runs n(3) by (simp add: runs_at_def)
  have zr: "sizes_ok (memoryLimitv avp) (outRecSize avp) ?reg (length ?rs)" "length ?rs \<le> 1024" "flen (fileOfChunks avp1) < 2 ^ 63" using zz n(3) g by (simp_all add: a1)
  obtain buf cps p where fill: "for_range 0 (uint (numberOfChunks avp)) (\<lambda>i (buf, chunks, f). ReadSubChunk (memoryLimitv avp) (outRecSize avp) buf ?w (word_of_int i) ?reg chunks f)
      (\<lambda>_. None, chunksParams avp, fileOfChunks avp1) = Some (buf, cps, (fileOfChunks avp)\<lparr>fpos := p\<rparr>)" and cps: "length cps = length (chunksParams avp)"
    and st: "runs_state buf (unat ?w) (unat ?reg) (fileOfChunks avp1) cps (List.map (\<lambda>r. (take (unat ?reg) r, drop (unat ?reg) r)) ?rs)"
    unfolding u using fill_runs [OF zr(1,2) lc zr(3) disk ne bytes, of "\<lambda>_. None"] by (auto simp: a1 elim!: returnsE)
  let ?Rs = "List.map (\<lambda>r. (take (unat ?reg) r, drop (unat ?reg) r)) ?rs"
  let ?s = "(avp1\<lparr>chunksParams := cps, fileOfChunks := (fileOfChunks avp)\<lparr>fpos := p\<rparr>\<rparr>, buf, None, None) :: merge_state"
  have reg: "0 < unat ?reg" using zz by (simp add: sizes_ok_def)
  have w0: "wrote avp1 [] cps ((fileOfChunks avp)\<lparr>fpos := p\<rparr>) (avp1\<lparr>chunksParams := cps, fileOfChunks := (fileOfChunks avp)\<lparr>fpos := p\<rparr>\<rparr>)"
    unfolding wrote_def by (intro exI [of _ "mSums avp1"] exI [of _ "checksums avp1"]) (simp add: summed_def checked_s_def written_def avp1_def)
  have "primed ?Rs" using ne reg by (auto simp: primed_def in_set_conv_nth)
  then have rel: "merge_rel avp1 ?G N ?reg [] [] ?Rs ?s"
    unfolding merge_rel_def using w0 st cps merge_start [OF b rr, of "unat ?reg"] by (auto simp: a1 out_buf_def)
  have z': "merge_sizes avp1 ?reg (length ?Rs)" using z by simp
  have "loaded ?Rs 0" using n(2) reg ne by (cases ass) (auto simp: loaded_def)
  then have some: "\<exists>i. loaded ?Rs i" by blast
  obtain avp2 buf2 m2 out2 W q Rs' where lp: "merge_loop ?w ?reg ?s = Some (True, avp2, buf2, m2, out2)" and rel2: "merge_rel avp1 ?G N ?reg W [q] Rs' (avp2, buf2, m2, out2)"
    and fin: "concat (flat Rs') = []"
    using merge_loop_ends [OF e1 z' rel some] by (auto simp: a1 elim!: returnsE)
  obtain cps2 p2 where w2: "wrote avp1 W cps2 ((fileOfChunks avp)\<lparr>fpos := p2\<rparr>) avp2" and l2: "length cps2 = length (chunksParams avp)" and st2: "runs_state buf2 (unat ?w) (unat ?reg) (fileOfChunks avp1) cps2 Rs'"
    and out: "out2 = Some q" and I: "merge_inv ?m ?d ?G N W [q] Rs'" using rel2 by (auto simp: merge_rel_def a1 out_buf_def)
  have G: "?G = W @ [q]"
    using I fin group_sorted_id [of "W @ [q]" ?m] by (simp add: merge_inv_def all_rows_def rec_rows_def)
  obtain avp3 where o3: "put_out q avp2 = Some (True, avp3)" "wrote avp1 (W @ [q]) cps2 ((fileOfChunks avp)\<lparr>fpos := p2\<rparr>) avp3"
    using put_out_wrote [OF e1 w2, of ?G q Rs'] I by (auto simp: a1 elim!: returnsE)
  then obtain ms cs where w3: "summed ?m ?G (mSums avp) ms" "checked_s ?m ?G 0 (checksums avp) cs" "avp3 = written avp1 ?G ms cs cps2 ((fileOfChunks avp)\<lparr>fpos := p2\<rparr>)"
    unfolding G by (auto simp: wrote_def a1)
  have "merged avp ?G (avp3\<lparr>totalOfViewRows := totalOfViewRows avp3 + nViewRows avp3\<rparr>)"
    unfolding merged_def using w3 l2
    by (intro exI [of _ ms] exI [of _ cs] exI [of _ cps2] exI [of _ p2]) (simp add: written_def avp1_def)
  moreover have "MultiWayMerge avp = Some (ADC_OK, avp3\<lparr>totalOfViewRows := totalOfViewRows avp3 + nViewRows avp3\<rparr>)"
  proof -
    have r0: "?reg \<noteq> 0" using reg by auto
    have n0: "numberOfChunks avp \<noteq> 0 \<and> outRecSize avp \<noteq> 0" using u n(2) em by auto
    show ?thesis
      unfolding MultiWayMerge_def Let_def using fill lp o3(1) out r0 n0 by (simp add: avp1_def seek_set_def)
  qed
  ultimately show ?thesis by simp
qed

end
