(* ===== verification/Dc_Jobs.thy ===== *)
theory Dc_Jobs
  imports Dc_View
begin

text \<open>
  \<open>DC/jobcntl.c\<close> without its sorts: sets of attributes as bits, counted from the most significant one, the pool of
  the views that are already made, and the search for a view to make the next one from.  A set is kept twice: as
  the list of the numbers of its attributes, counted from one, and as bits of a word.
\<close>

unbundle bit_operations_syntax

section \<open>Bits\<close>

definition MLB :: "64 word" where "MLB = 0x8000000000000000"

definition MLB32 :: "32 word" where "MLB32 = 0x80000000"

definition byte_of :: "nat \<Rightarrow> 64 word \<Rightarrow> 64 word" where
  "byte_of i w = drop_bit (8 * i) w AND 0xFF"

definition put_byte :: "nat \<Rightarrow> 64 word \<Rightarrow> 64 word \<Rightarrow> 64 word" where
  "put_byte i b w = (w AND NOT (push_bit (8 * i) 0xFF)) OR push_bit (8 * i) (b AND 0xFF)"

definition swap_bytes :: "nat \<Rightarrow> nat \<Rightarrow> 64 word \<Rightarrow> 64 word" where
  "swap_bytes i j w = put_byte j (byte_of i w) (put_byte i (byte_of j w) w)"

definition swap8 :: "64 word \<Rightarrow> 64 word" where
  "swap8 w = swap_bytes 3 4 (swap_bytes 2 5 (swap_bytes 1 6 (swap_bytes 0 7 w)))"

definition SetOneBit :: "64 word \<Rightarrow> int \<Rightarrow> 64 word option" where
  "SetOneBit s pos = (if 0 \<le> pos \<and> pos < 64 then Some (s OR drop_bit (nat pos) MLB) else None)"

definition SetOneBit32 :: "32 word \<Rightarrow> 32 word \<Rightarrow> 32 word option" where
  "SetOneBit32 s pos = (if pos < 32 then Some (s OR drop_bit (unat pos) MLB32) else None)"

text \<open>The loops that stop at the first bit that is set.\<close>

primrec Mlo32_loop :: "nat \<Rightarrow> 32 word \<Rightarrow> 32 word \<Rightarrow> 32 word \<Rightarrow> 32 word" where
  "Mlo32_loop 0 om x k = k"
| "Mlo32_loop (Suc n) om x k = (if om AND x \<noteq> 0 then k else Mlo32_loop n (drop_bit 1 om) x (k + 1))"

definition Mlo32 :: "32 word \<Rightarrow> 32 word" where
  "Mlo32 x = Mlo32_loop 32 MLB32 x 0"

primrec mro32_loop :: "nat \<Rightarrow> 32 word \<Rightarrow> 32 word \<Rightarrow> 32 word \<Rightarrow> 32 word" where
  "mro32_loop 0 om x k = k"
| "mro32_loop (Suc n) om x k = (if om AND x \<noteq> 0 then k else mro32_loop n (push_bit 1 om) x (k - 1))"

definition mro32 :: "32 word \<Rightarrow> 32 word" where
  "mro32 x = mro32_loop 32 1 x 32"

primrec leading_ones_loop :: "nat \<Rightarrow> 32 word \<Rightarrow> 32 word \<Rightarrow> 32 word" where
  "leading_ones_loop 0 om x = x"
| "leading_ones_loop (Suc n) om x = leading_ones_loop n (signed_drop_bit 1 om) (x OR om)"

definition setLeadingOnes32 :: "32 word \<Rightarrow> 32 word" where
  "setLeadingOnes32 n = leading_ones_loop (unat n) MLB32 0"

primrec ones_loop :: "nat \<Rightarrow> 64 word \<Rightarrow> 64 word \<Rightarrow> 32 word \<Rightarrow> 32 word" where
  "ones_loop 0 ob s k = k"
| "ones_loop (Suc n) ob s k = ones_loop n (drop_bit 1 ob) s (if s AND ob \<noteq> 0 then k + 1 else k)"

definition NumberOfOnes :: "64 word \<Rightarrow> 32 word" where
  "NumberOfOnes s = ones_loop 64 MLB s 0"

primrec tuple_ones_loop :: "nat \<Rightarrow> 64 word \<Rightarrow> 64 word \<Rightarrow> 32 word \<Rightarrow> 32 word" where
  "tuple_ones_loop 0 ob s k = k"
| "tuple_ones_loop (Suc n) ob s k = tuple_ones_loop n (push_bit 1 ob) s (if s AND ob \<noteq> 0 then k + 1 else k)"

definition countTupleOnes :: "64 word \<Rightarrow> 32 word \<Rightarrow> 32 word" where
  "countTupleOnes s n = tuple_ones_loop (unat n) 1 s 0"

text \<open>The loop of \<open>NumOfCombsFromNbyK\<close> does not end for the largest \<open>k\<close>.\<close>

definition NumOfCombsFromNbyK :: "32 word \<Rightarrow> 32 word \<Rightarrow> 32 word option" where
  "NumOfCombsFromNbyK n k = (if k > n then Some 0 else do {
     c_assert (k + 1 \<noteq> 0);
     Some (fold (\<lambda>l c. c * (n - of_nat l + 1) div of_nat l) [1..<Suc (unat k)] 1) })"

section \<open>Sets of attributes\<close>

definition GetRegTupleFromBin64 :: "64 word \<Rightarrow> 32 word list \<Rightarrow> 32 word \<Rightarrow> (32 word list \<times> 32 word) option" where
  "GetRegTupleFromBin64 b sel n = do {
     (oc, sel, j) \<leftarrow> for_range 0 (uint n) (\<lambda>i (oc, sel, j).
       if b AND oc \<noteq> 0 then do { sel \<leftarrow> aset sel (uint j) (word_of_int i + 1); Some (drop_bit 1 oc, sel, j + 1) }
       else Some (drop_bit 1 oc, sel, j)) (MLB, sel, 0 :: 32 word);
     Some (sel, j) }"

definition getRegTupleFromBin32 :: "32 word \<Rightarrow> 32 word list \<Rightarrow> 32 word \<Rightarrow> (32 word list \<times> 32 word) option" where
  "getRegTupleFromBin32 b sel n = do {
     (oc, sel, j) \<leftarrow> for_range 0 (uint n) (\<lambda>i (oc, sel, j).
       if b AND oc \<noteq> 0 then do { sel \<leftarrow> aset sel (uint j) (word_of_int i + 1); Some (drop_bit 1 oc, sel, j + 1) }
       else Some (drop_bit 1 oc, sel, j)) (MLB32, sel, 0 :: 32 word);
     Some (sel, j) }"

text \<open>The attributes of a view as numbers among the attributes of its parent.\<close>

definition GetRegTupleFromParent :: "64 word \<Rightarrow> 32 word \<Rightarrow> 32 word list \<Rightarrow> 32 word \<Rightarrow> 32 word list option" where
  "GetRegTupleFromParent b par sel n = do {
     c_assert (0 < n \<and> n \<le> 32);
     let ut32 = push_bit (32 - unat n) (ucast (drop_bit (64 - unat n) b) :: 32 word);
     (oc, sel, j, k) \<leftarrow> for_range 0 (uint n) (\<lambda>i (oc, sel, j, k). do {
       let k = (if par AND oc \<noteq> 0 then k + 1 else k);
       if par AND oc \<noteq> 0 \<and> ut32 AND oc \<noteq> 0 then do { sel \<leftarrow> aset sel (uint j) k; Some (drop_bit 1 oc, sel, j + 1, k) }
       else Some (drop_bit 1 oc, sel, j, k) }) (MLB32, sel, 0 :: 32 word, 0 :: 32 word);
     Some sel }"

definition CreateBinTuple :: "32 word list \<Rightarrow> 32 word \<Rightarrow> 64 word option" where
  "CreateBinTuple sel n = for_range 0 (uint n) (\<lambda>i s. do { v \<leftarrow> aget sel i; SetOneBit s (sint (v - 1)) }) 0"

section \<open>The pool of views\<close>

definition JobPoolInit :: "JOB_POOL list \<Rightarrow> 32 word \<Rightarrow> JOB_POOL list option" where
  "JobPoolInit pool n = for_range 0 (uint n) (\<lambda>i pool. aset pool i \<lparr>jp_grpb = 0, jp_nv = 0, jp_nRows = 0, jp_viewOffset = 0\<rparr>) pool"

definition JobPoolUpdate :: "ADC_VIEW_CNTL \<Rightarrow> ADC_VIEW_CNTL option" where
  "JobPoolUpdate avp = do {
     let l = uint (nv avp);
     y \<leftarrow> aget (lpp avp) l;
     pool \<leftarrow> aset (jpp avp) (uint (layerIndex y + layerCurrentPopulation y))
       \<lparr>jp_grpb = groupby avp, jp_nv = nv avp, jp_nRows = nViewRows avp, jp_viewOffset = accViewFileOffset avp\<rparr>;
     layers \<leftarrow> aset (lpp avp) l (y\<lparr>layerCurrentPopulation := layerCurrentPopulation y + 1\<rparr>);
     Some (avp\<lparr>jpp := pool, lpp := layers\<rparr>) }"

section \<open>The search for a parent\<close>

datatype parent_kind = smallestParent | prefixedParent | sharedSortParent | noneParent

text \<open>What the search knows of one kind of parents: whether one was found, whether this level has none yet, and the
  smallest one of this level; its index is \<open>None\<close> while the variable is not initialised.\<close>

record candidate =
  c_found :: bool
  c_first :: bool
  c_rows :: "32 word"
  c_ig :: "32 word option"

definition no_candidate :: candidate where
  "no_candidate = \<lparr>c_found = False, c_first = True, c_rows = 0, c_ig = None\<rparr>"

definition next_level :: "candidate \<Rightarrow> candidate" where
  "next_level c = c\<lparr>c_first := True\<rparr>"

definition note_candidate :: "32 word \<Rightarrow> 32 word \<Rightarrow> candidate \<Rightarrow> candidate" where
  "note_candidate ig n c =
     (if c_first c then \<lparr>c_found = True, c_first = False, c_rows = n, c_ig = Some ig\<rparr>
      else if c_rows c > n then c\<lparr>c_found := True, c_rows := n, c_ig := Some ig\<rparr>
      else c\<lparr>c_found := True\<rparr>)"

text \<open>One level; \<open>ok\<close> tells which views are parents.\<close>

definition scan_level :: "ADC_VIEW_CNTL \<Rightarrow> (32 word \<Rightarrow> bool) \<Rightarrow> 32 word \<Rightarrow> candidate \<Rightarrow> candidate option" where
  "scan_level avp ok level c = do {
     y \<leftarrow> aget (lpp avp) (uint level);
     for_range 0 (uint (layerCurrentPopulation y)) (\<lambda>i c. do {
       let ig = layerIndex y + word_of_int i;
       j \<leftarrow> aget (jpp avp) (uint ig);
       Some (if groupby avp AND jp_grpb j = groupby avp \<and> ok (jp_grpb j) then note_candidate ig (jp_nRows j) c else c) }) (next_level c) }"

definition take_parent :: "32 word \<Rightarrow> candidate \<Rightarrow> ADC_VIEW_CNTL \<Rightarrow> ADC_VIEW_CNTL option" where
  "take_parent level c avp = do {
     ig \<leftarrow> c_ig c;
     j \<leftarrow> aget (jpp avp) (uint ig);
     Some (avp\<lparr>smallestParentLevel := level, viewOffset := jp_viewOffset j, nParentViewRows := jp_nRows j, parBinRepTuple := jp_grpb j\<rparr>) }"

partial_function (option) GetSmallestParent_from :: "ADC_VIEW_CNTL \<Rightarrow> 32 word \<Rightarrow> candidate \<Rightarrow> (bool \<times> ADC_VIEW_CNTL) option" where
  "GetSmallestParent_from avp level c =
     (if level \<le> nTopDims avp then do {
        c \<leftarrow> scan_level avp (\<lambda>_. True) level c;
        if c_found c then do { avp \<leftarrow> take_parent level c avp; Some (True, avp) }
        else GetSmallestParent_from avp (level + 1) c }
      else Some (False, avp))"

definition GetSmallestParent :: "ADC_VIEW_CNTL \<Rightarrow> 32 word \<Rightarrow> (bool \<times> ADC_VIEW_CNTL) option" where
  "GetSmallestParent avp b = GetSmallestParent_from avp (NumberOfOnes (ucast b)) no_candidate"

partial_function (option) GetPrefixedParent_from :: "32 word \<Rightarrow> 32 word \<Rightarrow> ADC_VIEW_CNTL \<Rightarrow> 32 word \<Rightarrow> candidate \<Rightarrow> (bool \<times> ADC_VIEW_CNTL) option" where
  "GetPrefixedParent_from b tm avp level c =
     (if level \<le> nTopDims avp then do {
        c \<leftarrow> scan_level avp (\<lambda>g. g AND tm = b) level c;
        if c_found c then do { avp \<leftarrow> take_parent level c avp; Some (True, avp) }
        else GetPrefixedParent_from b tm avp (level + 1) c }
      else Some (False, avp))"

definition GetPrefixedParent :: "ADC_VIEW_CNTL \<Rightarrow> 32 word \<Rightarrow> (bool \<times> ADC_VIEW_CNTL) option" where
  "GetPrefixedParent avp b = GetPrefixedParent_from b (setLeadingOnes32 (mro32 (groupby avp))) avp (NumberOfOnes (ucast b)) no_candidate"

text \<open>\<open>GetParent\<close> looks for the three kinds in one loop over a level; the loops are written one after the other
  here, since none reads what another writes.\<close>

definition found_kind :: "candidate \<Rightarrow> candidate \<Rightarrow> candidate \<Rightarrow> parent_kind" where
  "found_kind sp pf ss =
     (if c_found pf then prefixedParent else if c_found ss then sharedSortParent
      else if c_found sp then smallestParent else noneParent)"

partial_function (option) GetParent_from :: "32 word \<times> 32 word \<times> 32 word \<times> 32 word \<Rightarrow> ADC_VIEW_CNTL \<Rightarrow> 32 word \<Rightarrow> candidate \<times> candidate \<times> candidate \<Rightarrow>
    (parent_kind \<times> ADC_VIEW_CNTL) option" where
  "GetParent_from masks avp level cs =
     (if level \<le> nTopDims avp then do {
        let (b, pfm, mlo, lom) = masks;
        let (sp, pf, ss) = cs;
        sp \<leftarrow> scan_level avp (\<lambda>_. True) level sp;
        pf \<leftarrow> scan_level avp (\<lambda>g. g AND pfm = b) level pf;
        ss \<leftarrow> scan_level avp (\<lambda>g. g AND mlo \<noteq> 0 \<and> g AND lom = 0) level ss;
        let found = found_kind sp pf ss;
        if found = noneParent then GetParent_from masks avp (level + 1) (sp, pf, ss)
        else do {
          avp \<leftarrow> take_parent level (if found = prefixedParent then pf else if found = sharedSortParent then ss else sp) avp;
          Some (found, avp) } }
      else Some (noneParent, avp))"

definition GetParent :: "ADC_VIEW_CNTL \<Rightarrow> 32 word \<Rightarrow> (parent_kind \<times> ADC_VIEW_CNTL) option" where
  "GetParent avp b = do {
     let pfm = setLeadingOnes32 (mro32 (groupby avp));
     mlo \<leftarrow> SetOneBit32 0 (Mlo32 (groupby avp));
     let lom = setLeadingOnes32 (Mlo32 (groupby avp));
     GetParent_from (b, pfm, mlo, lom) avp (NumberOfOnes (ucast b)) (no_candidate, no_candidate, no_candidate) }"

end
