(* ===== verification/Dc_Cube.thy ===== *)
theory Dc_Cube
  imports Dc_Jobs
begin

text \<open>
  The computation of the views of the cube, \<open>ComputeGivenGroupbys\<close> of \<open>DC/extbuild.c\<close>: every set of attributes in the
  file of the group-bys is made into a view, from the input or from a view that is made already, and its number of
  rows is compared with a text of expected sizes at the end.  It is the program without \<open>IN_CORE\<close> and
  \<open>OPTIMIZATION\<close>, as \<open>adc.h\<close> leaves them.
\<close>

unbundle bit_operations_syntax

section \<open>A view\<close>

definition zero_meas :: "32 word \<Rightarrow> int list \<Rightarrow> int list option" where
  "zero_meas n ms = for_range 0 (uint n) (\<lambda>i ms. aset ms i 0) ms"

text \<open>\<open>fseek\<close> to a negative offset fails and leaves the file where it is.\<close>

definition InitAdcViewCntl :: "ADC_VIEW_CNTL \<Rightarrow> 32 word \<Rightarrow> 32 word list \<Rightarrow> 32 word \<Rightarrow> ADC_VIEW_CNTL option" where
  "InitAdcViewCntl avp n sel par = do {
     let avp = avp\<lparr>nv := n\<rparr>;
     ms \<leftarrow> zero_meas (nmv avp) (mSums avp);
     s \<leftarrow> for_range 0 (uint (nv avp)) (\<lambda>i s. do { v \<leftarrow> aget sel i; aset s i v }) (selection avp);
     let avp = avp\<lparr>mSums := ms, selection := s, outRecSize := GetRecSize (nv avp) (nmv avp), numberOfChunks := 0,
       fromParent := par, nViewRows := 0\<rparr>;
     let avp = (if par \<noteq> 0 then avp\<lparr>ndv := smallestParentLevel avp,
         viewFile := (if viewOffset avp < 0 then viewFile avp else seek_set (nat (viewOffset avp)) (viewFile avp)),
         nRowsToRead := nParentViewRows avp\<rparr>
       else avp\<lparr>ndv := nTopDims avp, nRowsToRead := nInputRecs avp\<rparr>);
     Some (avp\<lparr>inpRecSize := GetRecSize (ndv avp) (nmv avp), outRecSize := GetRecSize (nv avp) (nmv avp)\<rparr>) }"

text \<open>The rows of the view are made and appended to the file of the views.\<close>

definition make_view :: "parent_kind \<Rightarrow> ADC_VIEW_CNTL \<Rightarrow> (int \<times> ADC_VIEW_CNTL) option" where
  "make_view smp avp = do {
     (r, avp) \<leftarrow> RunFormation avp (if smp \<noteq> noneParent then VIEWFILE else INPF);
     if r \<noteq> ADC_OK then Some (r, avp)
     else do {
       let avp = (if smp \<noteq> noneParent then avp
         else avp\<lparr>numberOfViewsMadeFromInput := numberOfViewsMadeFromInput avp + 1\<rparr>);
       if numberOfChunks avp = 0 then do {
         let avp = avp\<lparr>nViewRows := count (tree avp), totalOfViewRows := totalOfViewRows avp + count (tree avp)\<rparr>;
         (r, avp, _) \<leftarrow> WriteViewToDiskCS avp (left (root (tree avp))) 0;
         if r \<noteq> ADC_OK then Some (ADC_WRITE_FAILED, avp) else Some (ADC_OK, avp) }
       else MultiWayMerge avp } }"

text \<open>The sums of the checksums over all views.\<close>

definition add_totals :: "ADC_VIEW_CNTL \<Rightarrow> int list option" where
  "add_totals avp = for_range 0 (uint (nmv avp)) (\<lambda>i ts. do {
     t \<leftarrow> aget ts i; c \<leftarrow> aget (checksums avp) i; s \<leftarrow> i64 (t + c); aset ts i s }) (totchs avp)"

text \<open>The counters after a view, and the files at their beginning again.\<close>

definition finish_view :: "32 word \<Rightarrow> ADC_VIEW_CNTL \<Rightarrow> ADC_VIEW_CNTL option" where
  "finish_view key avp = do {
     avp \<leftarrow> JobPoolUpdate avp;
     off \<leftarrow> i64 (accViewFileOffset avp + uint (nViewRows avp * outRecSize avp));
     let avp = avp\<lparr>accViewFileOffset := off, fileOfChunks := seek_set 0 (fileOfChunks avp), inpf := seek_set 0 (inpf avp)\<rparr>;
     ts \<leftarrow> add_totals avp;
     Some (avp\<lparr>totchs := ts, viewSizesFile := viewSizesFile avp @ [(key, nViewRows avp)],
       totalViewFileSize := totalViewFileSize avp + ucast (outRecSize avp * nViewRows avp)\<rparr>) }"

text \<open>One turn of the loop, for the bytes that were read.\<close>

definition one_groupby :: "64 word \<Rightarrow> ADC_VIEW_CNTL \<Rightarrow> (int \<times> ADC_VIEW_CNTL) option" where
  "one_groupby raw avp = do {
     cs \<leftarrow> zero_meas (nmv avp) (checksums avp);
     let avp = avp\<lparr>checksums := cs\<rparr>;
     let b = swap8 raw;
     (sel, n) \<leftarrow> GetRegTupleFromBin64 b (selection avp) (nTopDims avp);
     c_assert (0 < nTopDims avp \<and> nTopDims avp \<le> 32);
     let key = (ucast (drop_bit (64 - unat (nTopDims avp)) b) :: 32 word);
     let g = push_bit (32 - unat (nTopDims avp)) key;
     (smp, avp) \<leftarrow> GetParent (avp\<lparr>selection := sel, groupby := g\<rparr>) g;
     sel \<leftarrow> (if smp \<noteq> noneParent then GetRegTupleFromParent b (parBinRepTuple avp) (selection avp) (nTopDims avp)
       else Some (selection avp));
     avp \<leftarrow> InitAdcViewCntl (avp\<lparr>selection := sel\<rparr>) n sel (if smp = noneParent then 0 else 1);
     (r, avp) \<leftarrow> make_view smp avp;
     if r \<noteq> ADC_OK then Some (r, avp)
     else do { avp \<leftarrow> finish_view key avp; Some (ADC_OK, avp) } }"

text \<open>The loop over the file; the number counts the views.\<close>

primrec groupby_loop :: "64 word list \<Rightarrow> 32 word \<Rightarrow> ADC_VIEW_CNTL \<Rightarrow> (int \<times> 32 word \<times> ADC_VIEW_CNTL) option" where
  "groupby_loop [] k avp = Some (ADC_OK, k, avp)"
| "groupby_loop (raw # raws) k avp = do {
     (r, avp) \<leftarrow> one_groupby raw avp;
     if r \<noteq> ADC_OK then Some (r, k + 1, avp) else groupby_loop raws (k + 1) avp }"

section \<open>The expected sizes\<close>

text \<open>The text is a list of words.  \<open>atoi\<close> of a word: a sign and the digits that follow it.\<close>

fun digits_value :: "string \<Rightarrow> int \<Rightarrow> int" where
  "digits_value [] n = n"
| "digits_value (c # cs) n =
     (let d = int (of_char c) - 48 in if 0 \<le> d \<and> d \<le> 9 then digits_value cs (10 * n + d) else n)"

definition atoi :: "string \<Rightarrow> int option" where
  "atoi s = (case s of [] \<Rightarrow> Some 0
     | c # cs \<Rightarrow> i32 (if c = CHR ''-'' then - digits_value cs 0 else if c = CHR ''+'' then digits_value cs 0 else digits_value s 0))"

text \<open>The numbers up to the word \<open>View\<close> are the attributes of a view.  At the end of the text the loop goes on with the
  last word until the array is full.\<close>

fun read_selection :: "string list \<Rightarrow> 32 word list \<Rightarrow> (32 word list \<times> string list) option" where
  "read_selection [] sel = None"
| "read_selection (t # ts) sel =
     (if t = ''View'' then Some (sel, ts)
      else do { v \<leftarrow> atoi t; c_assert (length sel < 64); read_selection ts (sel @ [word_of_int v]) })"

definition ADC_VERIFICATION_FAILED :: int where "ADC_VERIFICATION_FAILED = 7"

text \<open>One expected size: the flag, and whether it is wrong.\<close>

definition check_size :: "ADC_VIEW_CNTL \<Rightarrow> 32 word list \<Rightarrow> 32 word list \<Rightarrow> 32 word \<Rightarrow> (bool \<times> ADC_VIEW_CNTL) option" where
  "check_size avp counts sel sz = do {
     tx \<leftarrow> CreateBinTuple sel (of_nat (length sel));
     c_assert (0 < nTopDims avp \<and> nTopDims avp \<le> 64);
     let iTx = (ucast (drop_bit (64 - unat (nTopDims avp)) tx) :: 32 word);
     let avp = avp\<lparr>verificationFailed := if numberOfMadeViews avp = 0 then 1 else 0\<rparr>;
     n \<leftarrow> aget counts (uint iTx);
     if n \<noteq> 0 \<and> n \<noteq> sz \<and> n \<noteq> nInputRecs avp then Some (True, avp\<lparr>verificationFailed := 1\<rparr>)
     else Some (False, avp) }"

partial_function (option) check_sizes :: "32 word list \<Rightarrow> string list \<Rightarrow> 32 word list \<Rightarrow> ADC_VIEW_CNTL \<Rightarrow> (int \<times> ADC_VIEW_CNTL) option" where
  "check_sizes counts toks sel avp =
     (if toks = [] then Some (ADC_OK, avp)
      else if hd toks = ''Selection:'' then do {
        (sel, ts) \<leftarrow> read_selection (tl toks) sel;
        check_sizes counts ts sel avp }
      else if hd toks = ''Size:'' then do {
        sz \<leftarrow> atoi (if tl toks = [] then hd toks else hd (tl toks));
        (wrong, avp) \<leftarrow> check_size avp counts sel (word_of_int sz);
        if wrong then Some (ADC_VERIFICATION_FAILED, avp) else check_sizes counts (tl (tl toks)) [] avp }
      else check_sizes counts (tl toks) sel avp)"

text \<open>The counts lie in the pool of the tree.\<close>

definition view_counts :: "32 word \<Rightarrow> (32 word \<times> 32 word) list \<Rightarrow> 32 word list option" where
  "view_counts n sizes = for_each (\<lambda>(k, c) counts. aset counts (uint k) c) sizes (replicate (unat n + 1) 0)"

definition ViewSizesVerification :: "ADC_VIEW_CNTL \<Rightarrow> (int \<times> ADC_VIEW_CNTL) option" where
  "ViewSizesVerification avp = do {
     c_assert (nViewLimit avp + 1 \<noteq> 0 \<and> 4 * (unat (nViewLimit avp) + 1) \<le> unat (memoryLimitv avp));
     counts \<leftarrow> view_counts (nViewLimit avp) (viewSizesFile avp);
     check_sizes counts (adcViewSizesFile avp) [] (avp\<lparr>tree := (tree avp)\<lparr>memPool := \<lambda>_. None\<rparr>\<rparr>) }"

definition ComputeGivenGroupbys :: "ADC_VIEW_CNTL \<Rightarrow> (int \<times> ADC_VIEW_CNTL) option" where
  "ComputeGivenGroupbys avp = do {
     (r, k, avp) \<leftarrow> groupby_loop (groupbyFile avp) 0 avp;
     if r \<noteq> ADC_OK then Some (r, avp)
     else do {
       (r, avp) \<leftarrow> ViewSizesVerification (avp\<lparr>numberOfMadeViews := k\<rparr>);
       if r \<noteq> 0 then Some (ADC_VERIFICATION_FAILED, avp) else Some (ADC_OK, avp) } }"

end
