(* ===== verification/Dc_Making.thy ===== *)
theory Dc_Making
  imports Dc_Sort Dc_Cube
begin

text \<open>
  A view is made: whether the rows fit into the memory of the tree or have to be sorted in runs and merged, the file of the
  views grows by the groups of the rows, in the order of their keys.
\<close>

section \<open>Checksums\<close>

lemma checksum_u_bound:
  assumes "0 \<le> c" "c + measbound < 2 ^ 63"
  shows "c \<le> checksum_u n v c" "checksum_u n v c < c + measbound"
proof -
  let ?r = "uint ((n * word_of_int v) mod word_of_int measbound)"
  have r: "0 \<le> ?r" "?r < measbound" by (simp_all add: uint_mod measbound_def)
  then have "to_i64 (c + ?r) = c + ?r" using assms by (intro to_i64_in) linarith+
  then show "c \<le> checksum_u n v c" "checksum_u n v c < c + measbound" using r by (simp_all add: checksum_u_def)
qed

lemma checks_u_bound:
  assumes "0 \<le> c" "c + int (length as) * measbound < 2 ^ 63"
  shows "0 \<le> checks_u m i as n c \<and> checks_u m i as n c \<le> c + int (length as) * measbound"
  using assms
proof (induction as arbitrary: n c)
  case (Cons a as)
  let ?c = "checksum_u (n + of_nat (Suc i)) (fst a ! i) c"
  have "0 \<le> int (length as) * measbound" by (simp add: measbound_def)
  then have "c + measbound < 2 ^ 63" using Cons.prems by (simp add: algebra_simps)
  note b = checksum_u_bound [OF Cons.prems(1) this, of "n + of_nat (Suc i)" "fst a ! i"]
  have "int (length (a # as)) * measbound = measbound + int (length as) * measbound" by (simp add: algebra_simps)
  then show ?case using Cons.IH [of ?c "n + of_nat m"] b Cons.prems by (simp del: of_nat_Suc)
qed simp

text \<open>With one measure both checksums are the same, unless they overflow.\<close>

lemma uint_of_small: "0 \<le> x \<Longrightarrow> x < 2 ^ 63 \<Longrightarrow> uint (word_of_int x :: 64 word) = x"
  by (simp add: unsigned_of_int take_bit_int_eq_self)

lemma checksum_u_s:
  assumes "0 \<le> v" "int n * v < 2 ^ 63" "n < 2 ^ 32" "0 \<le> c" "c + measbound < 2 ^ 63"
  shows "checksum_u (of_nat n) v c = c + c_rem (int n * v) measbound"
proof -
  have e: "(of_nat n * word_of_int v :: 64 word) = word_of_int (int n * v)" by simp
  have "0 \<le> int n * v" using assms(1) by simp
  then have "uint (of_nat n * word_of_int v :: 64 word) = int n * v" unfolding e using assms(2) by (rule uint_of_small)
  then have "uint ((of_nat n * word_of_int v :: 64 word) mod word_of_int measbound) = int n * v mod measbound"
    by (simp add: uint_mod measbound_def)
  moreover have "c + int n * v mod measbound < 2 ^ 63" "0 \<le> int n * v mod measbound"
    using assms(5) pos_mod_bound [of measbound "int n * v"] by (simp_all add: measbound_def)
  ultimately show ?thesis using assms(1,4) by (simp add: checksum_u_def measbound_def)
qed

lemma checks_u_s:
  assumes "\<forall>a\<in>set as. 0 \<le> fst a ! 0 \<and> int N * fst a ! 0 < 2 ^ 63" "n + length as \<le> N" "N < 2 ^ 32" "0 \<le> c" "c + int (length as) * measbound < 2 ^ 63"
  shows "checks_u 1 0 as (of_nat n) c = checks_s 0 as n c"
  using assms
proof (induction as arbitrary: n c)
  case (Cons a as)
  have m: "int (length (a # as)) * measbound = measbound + int (length as) * measbound" "0 \<le> int (length as) * measbound"
    by (simp_all add: algebra_simps measbound_def)
  have "int (Suc n) * fst a ! 0 \<le> int N * fst a ! 0" using Cons.prems(1,2) by (intro mult_right_mono) auto
  then have v: "int (Suc n) * fst a ! 0 < 2 ^ 63" using Cons.prems(1) by (simp del: of_nat_Suc)
  have cm: "c + measbound < 2 ^ 63" using Cons.prems(5) m by simp
  have e: "checksum_u (of_nat (Suc n)) (fst a ! 0) c = c + c_rem (int (Suc n) * fst a ! 0) measbound"
    by (rule checksum_u_s [OF _ v _ Cons.prems(4) cm]) (use Cons.prems in auto)
  note b = checksum_u_bound [OF Cons.prems(4) cm, of "of_nat (Suc n)" "fst a ! 0", unfolded e]
  have "checks_u 1 0 as (of_nat (Suc n)) (c + c_rem (int (Suc n) * fst a ! 0) measbound) = checks_s 0 as (Suc n) (c + c_rem (int (Suc n) * fst a ! 0) measbound)"
  proof (rule Cons.IH)
    show "c + c_rem (int (Suc n) * fst a ! 0) measbound + int (length as) * measbound < 2 ^ 63" using Cons.prems(5) m b(2) by linarith
  qed (use Cons.prems b in auto)
  then show ?case using e by (simp add: add.commute)
qed simp

section \<open>The state after a view\<close>

definition view_state :: "ADC_VIEW_CNTL \<Rightarrow> row list \<Rightarrow> RBTree \<Rightarrow> CHUNKS list \<Rightarrow> 32 word \<Rightarrow> row_file \<Rightarrow> nat \<Rightarrow> int list \<Rightarrow> int list \<Rightarrow> 32 word \<Rightarrow> ADC_VIEW_CNTL" where
  "view_state avp G T cps n g q ms cs k = avp\<lparr>tree := T, chunksParams := cps, numberOfChunks := n, fileOfChunks := g, inpf := (inpf avp)\<lparr>fpos := q\<rparr>,
     viewFile := write_rows G (seek_end (viewFile avp)), nViewRows := of_nat (length G), totalOfViewRows := totalOfViewRows avp + of_nat (length G),
     mSums := ms, checksums := cs, numberOfViewsMadeFromInput := k\<rparr>"

text \<open>The sums and checksums; with one measure that is not negative the checksum does not depend on the way the view was made.\<close>

definition sums_made :: "nat \<Rightarrow> row list \<Rightarrow> int list \<Rightarrow> int list \<Rightarrow> int list \<Rightarrow> int list \<Rightarrow> bool" where
  "sums_made m G ms0 ms cs0 cs \<longleftrightarrow> summed m G ms0 ms \<and> length cs = length cs0 \<and> (\<forall>i<m. \<bar>cs ! i\<bar> \<le> int (length G) * measbound) \<and>
     (m = 1 \<and> (\<forall>a\<in>set G. 0 \<le> fst a ! 0) \<longrightarrow> cs ! 0 = checks_s 0 G 0 0)"

definition tree_kept :: "ADC_VIEW_CNTL \<Rightarrow> RBTree \<Rightarrow> bool" where
  "tree_kept avp T \<longleftrightarrow> length (nodes T) = MAX_TREE_HEIGHT \<and> length (drcts T) = MAX_TREE_HEIGHT \<and> memoryLimit T = memoryLimitv avp"

definition view_made :: "ADC_VIEW_CNTL \<Rightarrow> row list \<Rightarrow> ADC_VIEW_CNTL \<Rightarrow> bool" where
  "view_made avp G avp' \<longleftrightarrow> (\<exists>T cps n g q ms cs k. avp' = view_state avp G T cps n g q ms cs k \<and> tree_kept avp T \<and> length cps = 1024 \<and>
     froom g = froom (fileOfChunks avp) \<and> flen g \<le> froom g \<and> sums_made (unat (nmv avp)) G (mSums avp) ms (checksums avp) cs)"

lemma view_madeI:
  assumes "avp' = view_state avp G T cps n g q ms cs k" "tree_kept avp T" "length cps = 1024" "froom g = froom (fileOfChunks avp)" "flen g \<le> froom g"
    "sums_made (unat (nmv avp)) G (mSums avp) ms (checksums avp) cs"
  shows "view_made avp G avp'"
  using assms unfolding view_made_def by blast

lemma tree_for_kept: "tree_for avp T cur \<Longrightarrow> tree_kept avp T"
  by (auto simp: tree_for_def tree_kept_def holds_def tree_ok_def)

text \<open>What making a view needs beyond \<open>view_ok\<close> and \<open>rows_ready\<close>.\<close>

definition view_room :: "ADC_VIEW_CNTL \<Rightarrow> row list \<Rightarrow> bool" where
  "view_room avp rows \<longleftrightarrow> flen (fileOfChunks avp) \<le> froom (fileOfChunks avp) \<and> froom (fileOfChunks avp) < 2 ^ 63 \<and>
     flen (viewFile avp) + length rows * unat (outRecSize avp) \<le> froom (viewFile avp) \<and> 1024 * unat (outRecSize avp) \<le> unat (memoryLimitv avp) \<and>
     unat (nmv avp) \<le> length (mSums avp) \<and> unat (nmv avp) \<le> length (checksums avp) \<and> (\<forall>i<unat (nmv avp). mSums avp ! i = 0 \<and> checksums avp ! i = 0) \<and>
     (\<forall>i<unat (nmv avp). int (length rows) * asum rows i < 2 ^ 63)"

text \<open>The groups of the rows that are read.\<close>

definition groups_of :: "ADC_VIEW_CNTL \<Rightarrow> row list \<Rightarrow> row list" where
  "groups_of avp rows = group_rows (unat (nmv avp)) (List.map (pick avp) rows)"

lemma groups_of_facts:
  assumes v: "view_ok avp" and rr: "rec_rows (unat (nmv avp)) (unat (ndv avp)) rows"
  shows "rec_rows (unat (nmv avp)) (unat (nv avp)) (groups_of avp rows)" "length (groups_of avp rows) \<le> length rows"
    "rows_bytes (groups_of avp rows) \<le> length rows * unat (outRecSize avp)"
    "\<And>i. i < unat (nmv avp) \<Longrightarrow> asum (groups_of avp rows) i \<le> asum rows i"
proof -
  have r: "rec_rows (unat (nmv avp)) (unat (nv avp)) (List.map (pick avp) rows)" by (rule rec_rows_pick [OF rr])
  then show g: "rec_rows (unat (nmv avp)) (unat (nv avp)) (groups_of avp rows)" unfolding groups_of_def by (rule rec_rows_group)
  show l: "length (groups_of avp rows) \<le> length rows" using group_length_le [of "unat (nmv avp)" "List.map (pick avp) rows"] by (simp add: groups_of_def)
  show "rows_bytes (groups_of avp rows) \<le> length rows * unat (outRecSize avp)"
    using rec_rows_bytes(1) [OF g] view_sizes(2) [OF v] l by simp
  fix i assume i: "i < unat (nmv avp)"
  show "asum (groups_of avp rows) i \<le> asum rows i"
    using asum_group [OF _ i, of "List.map (pick avp) rows"] r by (simp add: groups_of_def asum_pick rec_rows_def)
qed

lemma elem_asum: "a \<in> set as \<Longrightarrow> \<bar>fst a ! i\<bar> \<le> asum as i"
proof (induction as)
  case (Cons b as)
  then show ?case using asum_nonneg [of as i] by auto
qed simp

lemma unsigned_made:
  assumes G: "length G \<le> N" "N < 2 ^ 32" "\<forall>i<m. int N * asum G i < 2 ^ 63" and cs: "checked_u m G 0 cs0 cs" "\<forall>i<m. cs0 ! i = 0"
    and ms: "summed m G ms0 ms"
  shows "sums_made m G ms0 ms cs0 cs"
proof -
  have small: "int (length G) * measbound < 2 ^ 63" using G(1,2) by (simp add: measbound_def)
  have "cs ! i = checks_u m i G 0 0" if "i < m" for i using cs that by (simp add: checked_u_def)
  then have b: "\<bar>cs ! i\<bar> \<le> int (length G) * measbound" if "i < m" for i
    using checks_u_bound [of 0 G m i 0] small that by simp
  have "cs ! 0 = checks_s 0 G 0 0" if m: "m = 1" and pos: "\<forall>a\<in>set G. 0 \<le> fst a ! 0"
  proof -
    have "\<forall>a\<in>set G. 0 \<le> fst a ! 0 \<and> int N * fst a ! 0 < 2 ^ 63"
    proof (intro ballI conjI)
      fix a assume a: "a \<in> set G"
      have "int N * fst a ! 0 \<le> int N * asum G 0" using elem_asum [OF a, of 0] by (intro mult_left_mono) linarith+
      then show "int N * fst a ! 0 < 2 ^ 63" using G(3) m by fastforce
    qed (use pos in blast)
    from checks_u_s [OF this, of 0 0] have "checks_u 1 0 G 0 0 = checks_s 0 G 0 0" using G small by simp
    then show ?thesis using cs m by (simp add: checked_u_def)
  qed
  then show ?thesis using b ms cs by (auto simp: sums_made_def checked_u_def)
qed

lemma signed_made:
  assumes "checked_s m G 0 cs0 cs" "\<forall>i<m. cs0 ! i = 0" "summed m G ms0 ms"
  shows "sums_made m G ms0 ms cs0 cs"
  using assms checks_s_bound [of _ G 0 0] by (simp add: sums_made_def checked_s_def)

section \<open>The tree holds all rows\<close>

lemma view_from_tree:
  assumes v: "view_ok avp" and rr: "rec_rows (unat (nmv avp)) (unat (ndv avp)) rows" "length rows < 2 ^ 32 - 1" and room: "view_room avp rows"
    and T: "tree_for avp T (List.map (pick avp) rows)"
    and f: "avp1 = avp\<lparr>tree := T, chunksParams := cps, numberOfChunks := 0, fileOfChunks := g, inpf := (inpf avp)\<lparr>fpos := q\<rparr>,
       viewFile := seek_end (viewFile avp), numberOfViewsMadeFromInput := k, nViewRows := count T, totalOfViewRows := totalOfViewRows avp + count T\<rparr>"
      "length cps = 1024" "froom g = froom (fileOfChunks avp)" "flen g \<le> froom g"
  shows "returns (WriteViewToDiskCS avp1 (left (root T)) 0) (\<lambda>(r, avp', _). r = ADC_OK \<and> view_made avp (groups_of avp rows) avp')"
proof -
  let ?m = "unat (nmv avp)" and ?G = "groups_of avp rows"
  note G = groups_of_facts [OF v rr(1)]
  have h: "holds T (List.map (pick avp) rows)" "nm T = nmv avp" using T by (simp_all add: tree_for_def)
  obtain t where t: "at (memPool T) (left (root T)) t" "entries t = ?G" using holds_tree [OF h(1)] h(2) by (auto simp: groups_of_def)
  have cnt: "count T = of_nat (length ?G)" using arg_cong [OF holds_count(1) [OF h(1)], of "of_nat :: nat \<Rightarrow> 32 word"] by (simp add: groups_of_def group_length)
  have z: "?m \<le> length (mSums avp)" "?m \<le> length (checksums avp)" "\<forall>i<?m. mSums avp ! i = 0 \<and> checksums avp ! i = 0"
    "\<forall>i<?m. int (length rows) * asum rows i < 2 ^ 63" "flen (viewFile avp) + length rows * unat (outRecSize avp) \<le> froom (viewFile avp)"
    using room by (simp_all add: view_room_def)
  have N: "\<forall>i<?m. int (length rows) * asum ?G i < 2 ^ 63"
  proof (intro allI impI)
    fix i assume i: "i < ?m"
    have "int (length rows) * asum ?G i \<le> int (length rows) * asum rows i" using G(4) [OF i] by (intro mult_left_mono) simp_all
    then show "int (length rows) * asum ?G i < 2 ^ 63" using z(4) i by fastforce
  qed
  have "returns (WriteViewToDiskCS avp1 (left (root T)) 0) (view_written_u avp1 (entries t) 0)"
  proof (rule WriteViewToDiskCS_rows)
    show "\<forall>a\<in>set (entries t). row_bytes a = unat (outRecSize avp1) \<and> length (fst a) = unat (nmv avp1)"
      using rec_rows_bytes(2) [OF G(1)] G(1) view_sizes(2) [OF v] by (auto simp: t(2) f(1) rec_rows_def)
    fix i assume i: "i < unat (nmv avp1)"
    have "asum ?G i < 2 ^ 63"
    proof (cases "rows = []")
      case False
      then have "1 * asum ?G i \<le> int (length rows) * asum ?G i" using asum_nonneg by (intro mult_right_mono) (simp_all add: Suc_le_eq)
      then show ?thesis using N i by (fastforce simp: f(1))
    qed (simp add: groups_of_def)
    then show "\<bar>mSums avp1 ! i\<bar> + asum (entries t) i < 2 ^ 63" using z(3) i by (simp add: f(1) t(2))
  qed (use t z(1,2,5) G(3) in \<open>simp_all add: f(1) seek_end_def\<close>)
  moreover have "view_made avp ?G (avp1\<lparr>mSums := ms, checksums := cs, viewFile := write_rows ?G (viewFile avp1)\<rparr>)"
    if "summed ?m ?G (mSums avp) ms" "checked_u ?m ?G 0 (checksums avp) cs" for ms cs
  proof (rule view_madeI [OF _ tree_for_kept [OF T] f(2-4)])
    show "avp1\<lparr>mSums := ms, checksums := cs, viewFile := write_rows ?G (viewFile avp1)\<rparr> = view_state avp ?G T cps 0 g q ms cs k"
      by (simp add: f(1) view_state_def cnt)
    show "sums_made ?m ?G (mSums avp) ms (checksums avp) cs"
      by (rule unsigned_made [OF G(2) _ N that(2) _ that(1)]) (use rr(2) z(3) in simp_all)
  qed
  ultimately show ?thesis by (auto simp: view_written_u_def t(2) f(1) elim!: returns_mono)
qed

section \<open>The runs hold all rows\<close>

definition view_mid :: "ADC_VIEW_CNTL \<Rightarrow> RBTree \<Rightarrow> CHUNKS list \<Rightarrow> nat \<Rightarrow> row_file \<Rightarrow> nat \<Rightarrow> 32 word \<Rightarrow> ADC_VIEW_CNTL" where
  "view_mid avp T cps n g q k = avp\<lparr>tree := T, chunksParams := cps, numberOfChunks := of_nat n, fileOfChunks := g, inpf := (inpf avp)\<lparr>fpos := q\<rparr>,
     viewFile := seek_end (viewFile avp), numberOfViewsMadeFromInput := k\<rparr>"

lemma view_from_runs:
  assumes v: "view_ok avp" and rr: "rec_rows (unat (nmv avp)) (unat (ndv avp)) rows" "length rows < 2 ^ 32 - 1" and room: "view_room avp rows"
    and ass: "concat ass = List.map (pick avp) rows" "ass \<noteq> []" "[] \<notin> set ass" "length ass \<le> 1024"
    and runs: "runs_at cps g (List.map (group_rows (unat (nmv avp))) ass)" and f: "froom g = froom (fileOfChunks avp)" "flen g \<le> froom g"
    and T: "tree_kept avp T"
  shows "returns (MultiWayMerge (view_mid avp T cps (length ass) g q k)) (\<lambda>(r, avp'). r = ADC_OK \<and> view_made avp (groups_of avp rows) avp')"
proof -
  let ?m = "unat (nmv avp)" and ?G = "groups_of avp rows" and ?a = "view_mid avp T cps (length ass) g q k"
  have z: "?m \<le> length (mSums avp)" "?m \<le> length (checksums avp)" "\<forall>i<?m. mSums avp ! i = 0 \<and> checksums avp ! i = 0"
    "\<forall>i<?m. int (length rows) * asum rows i < 2 ^ 63" "flen (viewFile avp) + length rows * unat (outRecSize avp) \<le> froom (viewFile avp)"
    "froom (fileOfChunks avp) < 2 ^ 63" "1024 * unat (outRecSize avp) \<le> unat (memoryLimitv avp)"
    using room by (simp_all add: view_room_def)
  have s: "unat (outRecSize avp) = 4 * unat (nv avp) + 8 * ?m" "0 < ?m" "unat (outRecSize avp) \<le> 112" using view_sizes [OF v] by simp_all
  have e: "merge_env ?a (length rows)" using z s rr(2) by (simp add: merge_env_def view_mid_def seek_end_def)
  have G: "group_rows (unat (nmv ?a)) (concat ass) = ?G" by (simp add: view_mid_def groups_of_def ass(1))
  have lcp: "length cps = 1024" using runs by (simp add: runs_at_def)
  have vm: "nmv ?a = nmv avp" "mSums ?a = mSums avp" "checksums ?a = checksums avp" "chunksParams ?a = cps" "fileOfChunks ?a = g" "tree ?a = T"
    "totalOfViewRows ?a = totalOfViewRows avp" by (simp_all add: view_mid_def)
  have "returns (MultiWayMerge ?a) (\<lambda>(r, avp'). r = ADC_OK \<and> merged ?a (group_rows (unat (nmv ?a)) (concat ass)) avp')"
  proof (rule MultiWayMerge_groups [OF e])
    have "length ass * unat (outRecSize avp) \<le> 1024 * unat (outRecSize avp)" using ass(4) by (rule mult_le_mono1)
    from order_trans [OF this z(7)] show "length ass * unat (outRecSize ?a) \<le> unat (memoryLimitv ?a)" by (simp add: view_mid_def)
    show "rec_rows (unat (nmv ?a)) (unat (nv ?a)) (concat ass)" unfolding ass(1) using rec_rows_pick [OF rr(1)] by (simp add: view_mid_def)
    show "length (concat ass) \<le> length rows" "\<forall>i<unat (nmv ?a). int (length rows) * asum (concat ass) i < 2 ^ 63"
      unfolding ass(1) using z(4) by (simp_all add: view_mid_def asum_pick)
  qed (use ass runs f z s in \<open>simp_all add: view_mid_def\<close>)
  moreover have "view_made avp ?G avp'" if mg: "merged ?a ?G avp'" for avp'
  proof -
    obtain ms cs cps' p where m: "summed ?m ?G (mSums avp) ms" "checked_s ?m ?G 0 (checksums avp) cs" "length cps' = length cps"
      "avp' = (written ?a ?G ms cs cps' (g\<lparr>fpos := p\<rparr>))\<lparr>tree := T\<lparr>memPool := \<lambda>_. None\<rparr>, totalOfViewRows := totalOfViewRows avp + of_nat (length ?G)\<rparr>"
      using mg unfolding merged_def vm by blast
    show ?thesis
    proof (rule view_madeI)
      show "avp' = view_state avp ?G (T\<lparr>memPool := \<lambda>_. None\<rparr>) cps' (of_nat (length ass)) (g\<lparr>fpos := p\<rparr>) q ms cs k"
        by (simp add: m(4) written_def view_state_def view_mid_def)
      show "sums_made ?m ?G (mSums avp) ms (checksums avp) cs" by (rule signed_made [OF m(2) _ m(1)]) (use z(3) in simp)
    qed (use T f lcp m(3) in \<open>simp_all add: tree_kept_def\<close>)
  qed
  ultimately show ?thesis unfolding G by (auto elim!: returns_mono)
qed

section \<open>The view\<close>

lemma form_state_mid:
  "(form_state avp fr p T cps n g)\<lparr>viewFile := seek_end (viewFile avp)\<rparr> =
   view_mid avp T cps n g (case fr of INPF \<Rightarrow> p | VIEWFILE \<Rightarrow> fpos (inpf avp)) (numberOfViewsMadeFromInput avp)"
  by (cases fr) (simp_all add: form_state_def view_mid_def put_file_def get_file_def)

lemma make_view_made:
  assumes v: "view_ok avp" and rr: "rows_ready avp (if smp \<noteq> noneParent then VIEWFILE else INPF) rows" and room: "view_room avp rows"
  shows "returns (make_view smp avp) (\<lambda>(r, avp'). r = ADC_OK \<and> view_made avp (groups_of avp rows) avp')"
proof -
  let ?fr = "if smp \<noteq> noneParent then VIEWFILE else INPF" and ?m = "unat (nmv avp)"
  have f: "flen (fileOfChunks avp) \<le> froom (fileOfChunks avp)" using room by (simp add: view_room_def)
  have l: "rec_rows ?m (unat (ndv avp)) rows" "length rows < 2 ^ 32 - 1" using rr by (simp_all add: rows_ready_def)
  obtain avp1 where rf: "RunFormation avp ?fr = Some (ADC_OK, avp1)" "run_formed avp ?fr rows avp1"
    using RunFormation_runs [OF v rr f] by (auto elim!: returnsE)
  obtain ass T cps g where a: "length ass \<le> 1024" "runs_at cps g (List.map (group_rows ?m) ass)" "froom g = froom (fileOfChunks avp)" "flen g \<le> froom g"
    "avp1 = (form_state avp ?fr (fpos (get_file ?fr avp) + rows_bytes rows) T cps (length ass) g)\<lparr>viewFile := seek_end (viewFile avp)\<rparr>"
    "if ass = [] then tree_for avp T (List.map (pick avp) rows) else concat ass = List.map (pick avp) rows \<and> [] \<notin> set ass \<and> (\<exists>cur. tree_for avp T cur)"
    using rf(2) unfolding run_formed_def by blast
  define q where "q = (case ?fr of INPF \<Rightarrow> fpos (get_file ?fr avp) + rows_bytes rows | VIEWFILE \<Rightarrow> fpos (inpf avp))"
  define k where "k = (if smp \<noteq> noneParent then numberOfViewsMadeFromInput avp else numberOfViewsMadeFromInput avp + 1)"
  have mid: "(if smp \<noteq> noneParent then avp1 else avp1\<lparr>numberOfViewsMadeFromInput := numberOfViewsMadeFromInput avp1 + 1\<rparr>) = view_mid avp T cps (length ass) g q k"
    unfolding a(5) form_state_mid q_def k_def by (simp add: view_mid_def)
  have n: "numberOfChunks (view_mid avp T cps (length ass) g q k) = 0 \<longleftrightarrow> ass = []"
    using a(1) small_word(1) [of "length ass"] by (auto simp: view_mid_def unat_eq_0 [symmetric])
  have start: "make_view smp avp = (let avp' = view_mid avp T cps (length ass) g q k in if ass = [] then do {
         let avp' = avp'\<lparr>nViewRows := count (tree avp'), totalOfViewRows := totalOfViewRows avp' + count (tree avp')\<rparr>;
         (r, avp', _) \<leftarrow> WriteViewToDiskCS avp' (left (root (tree avp'))) 0;
         if r \<noteq> ADC_OK then Some (ADC_WRITE_FAILED, avp') else Some (ADC_OK, avp') }
       else MultiWayMerge avp')"
    unfolding make_view_def rf(1) n [symmetric] mid [symmetric] by (simp add: Let_def)
  show ?thesis
  proof (cases "ass = []")
    case False
    then have c: "concat ass = List.map (pick avp) rows" "[] \<notin> set ass" "tree_kept avp T" using a(6) tree_for_kept by auto
    show ?thesis unfolding start using view_from_runs [OF v l room c(1) False c(2) a(1-4) c(3)] False by simp
  next
    case True
    then have T: "tree_for avp T (List.map (pick avp) rows)" using a(6) by simp
    have "length cps = 1024" using a(2) by (simp add: runs_at_def)
    from view_from_tree [where q = q and k = k, OF v l room T refl this a(3,4)] show ?thesis
      unfolding start using True by (auto simp: view_mid_def elim!: returnsE)
  qed
qed

section \<open>A small view\<close>

text \<open>Three rows of two attributes and one measure, in a file that is read from its beginning, and a state in which no view was
  made.\<close>

definition small_rows :: "row list" where
  "small_rows = [([5], [1, 2]), ([7], [2, 2]), ([1], [1, 2])]"

definition no_file :: row_file where
  "no_file = \<lparr>recs = \<lambda>_. None, fpos = 0, flen = 0, froom = 1000\<rparr>"

definition no_chunk :: CHUNKS where
  "no_chunk = \<lparr>curChunkNum = 0, chunkOffset = 0, posSubChunk = 0, curSubChunk = 0\<rparr>"

definition small_view :: "string list \<Rightarrow> ADC_VIEW_CNTL" where
  "small_view ts = \<lparr>nTopDims = 2, nmv = 1, ndv = 2, nv = 2, nInputRecs = 3, nViewRows = 0, totalOfViewRows = 0, nParentViewRows = 0, viewOffset = 0,
     accViewFileOffset = 0, inpRecSize = 16, outRecSize = 16, memoryLimitv = 20000, inpDataBuffer = (\<lambda>_. None), tree = raw_tree 20000, numberOfChunks = 0,
     chunksParams = replicate 1024 no_chunk, inpf = seek_set 0 (write_rows small_rows no_file), viewFile = no_file, fileOfChunks = no_file,
     groupbyFile = List.map swap8 [0xC000000000000000, 0x8000000000000000, 0x4000000000000000], adcViewSizesFile = ts, viewSizesFile = [],
     mSums = [0], selection = [1, 2], checksums = [0], totchs = [0],
     jpp = replicate 4 \<lparr>jp_grpb = 0, jp_nv = 0, jp_nRows = 0, jp_viewOffset = 0\<rparr>,
     lpp = [\<lparr>layerIndex = 0, layerQuantityLimit = 0, layerCurrentPopulation = 0\<rparr>, \<lparr>layerIndex = 1, layerQuantityLimit = 2, layerCurrentPopulation = 0\<rparr>,
       \<lparr>layerIndex = 3, layerQuantityLimit = 1, layerCurrentPopulation = 0\<rparr>],
     nViewLimit = 3, groupby = 0, smallestParentLevel = 0, parBinRepTuple = 0, nRowsToRead = 3, fromParent = 0, totalViewFileSize = 0, numberOfMadeViews = 0,
     numberOfViewsMadeFromInput = 0, nTasksv = 1, taskNumber = 0, verificationFailed = 1\<rparr>"

lemma two_less: "i < (2 :: nat) \<longleftrightarrow> i = 0 \<or> i = 1" by auto

text \<open>C15: making a view with \<open>make_view\<close> appends to the file of the views the rows that are read, grouped by the selected
  attributes, in the order of these attributes and with the sums of the measures; it does so without an invalid access and
  with the result \<open>ADC_OK\<close> whether the rows fit into the memory of the tree or are written to the disk in up to 1024
  sorted chunks that are merged, so that the view does not depend on the size of the memory.\<close>

theorem view_is_groupby:
  assumes "view_ok avp" "rows_ready avp (if smp \<noteq> noneParent then VIEWFILE else INPF) rows" "view_room avp rows"
  shows "returns (make_view smp avp) (\<lambda>(r, d). r = ADC_OK \<and>
    viewFile d = write_rows (group_rows (unat (nmv avp)) (List.map (pick avp) rows)) (seek_end (viewFile avp)) \<and>
    nViewRows d = of_nat (card (snd ` set (List.map (pick avp) rows))) \<and>
    (\<forall>i<unat (nmv avp). mSums d ! i = (\<Sum>a\<leftarrow>rows. fst a ! i)))"
proof (rule returns_mono [OF make_view_made [OF assms]])
  fix x assume "case x of (r, d) \<Rightarrow> r = ADC_OK \<and> view_made avp (groups_of avp rows) d"
  then obtain d where x: "x = (ADC_OK, d)" "view_made avp (groups_of avp rows) d" by (cases x) auto
  then obtain T cps n g q ms cs k where d: "d = view_state avp (groups_of avp rows) T cps n g q ms cs k"
    and s: "sums_made (unat (nmv avp)) (groups_of avp rows) (mSums avp) ms (checksums avp) cs" unfolding view_made_def by blast
  have l: "\<forall>a\<in>set (List.map (pick avp) rows). length (fst a) = unat (nmv avp)" using assms(2) by (auto simp: rows_ready_def rec_rows_def)
  have z: "\<forall>i<unat (nmv avp). mSums avp ! i = 0" "unat (nmv avp) \<le> length (mSums avp)" using assms(3) by (simp_all add: view_room_def)
  have "ms ! i = (\<Sum>a\<leftarrow>rows. fst a ! i)" if i: "i < unat (nmv avp)" for i
  proof -
    have "ms ! i = psum (\<lambda>_. True) (groups_of avp rows) i" using s z i by (simp add: sums_made_def summed_def psum_def)
    also have "\<dots> = psum (\<lambda>_. True) (List.map (pick avp) rows) i" unfolding groups_of_def by (rule psum_group [OF l i])
    also have "\<dots> = (\<Sum>a\<leftarrow>rows. fst a ! i)" by (simp add: psum_def o_def)
    finally show ?thesis .
  qed
  then show "case x of (r, d) \<Rightarrow> r = ADC_OK \<and> viewFile d = write_rows (group_rows (unat (nmv avp)) (List.map (pick avp) rows)) (seek_end (viewFile avp)) \<and>
    nViewRows d = of_nat (card (snd ` set (List.map (pick avp) rows))) \<and> (\<forall>i<unat (nmv avp). mSums d ! i = (\<Sum>a\<leftarrow>rows. fst a ! i))"
    unfolding x(1) d by (simp add: view_state_def groups_of_def group_length)
qed

theorem view_is_groupby_witness:
  "returns (make_view noneParent (small_view [])) (\<lambda>(r, d). viewFile d = write_rows [([6], [1, 2]), ([7], [2, 2])] no_file)"
proof -
  have r: "run_at (inpf (small_view [])) 0 small_rows"
    using write_rows_at [of small_rows no_file] by (simp add: small_view_def small_rows_def solid_def no_file_def row_bytes_def run_at_cong [of "seek_set 0 f" f for f] seek_set_def)
  have f: "fpos (inpf (small_view [])) = 0" "flen (inpf (small_view [])) = rows_bytes small_rows"
    using write_rows_len [of no_file small_rows] by (simp_all add: small_view_def seek_set_def no_file_def)
  have v: "view_ok (small_view [])" by (auto simp: view_ok_def small_view_def raw_tree_def GetRecSize_def DIM_FSZ_def MSR_FSZ_def no_file_def two_less)
  have limit: "node_limit (small_view []) = 416" by (simp add: node_limit_def small_view_def tree_node_size_def sizeof_treeNode_def DIM_FSZ_def MSR_FSZ_def Let_def unat_div)
  have rr: "rows_ready (small_view []) INPF small_rows"
    using r unfolding rows_ready_def limit get_file_def by (simp add: f) (simp add: small_view_def small_rows_def rec_rows_def bounded_rows_def no_file_def)
  have room: "view_room (small_view []) small_rows" by (simp add: view_room_def small_view_def no_file_def small_rows_def)
  have p: "List.map (pick (small_view [])) small_rows = small_rows" "nmv (small_view []) = 1"
    by (simp_all add: pick_def sel_key_def on_key_def small_view_def small_rows_def upt_rec)
  have g: "group_rows 1 small_rows = [([6], [1, 2]), ([7], [2, 2])]" by (simp add: small_rows_def group_upsert [symmetric] add_row_def)
  have e: "seek_end (viewFile (small_view [])) = no_file" by (simp add: small_view_def seek_end_def no_file_def)
  have "returns (make_view noneParent (small_view [])) (\<lambda>(r, d). viewFile d = write_rows (group_rows (unat (nmv (small_view []))) (List.map (pick (small_view [])) small_rows))
    (seek_end (viewFile (small_view []))))"
    by (rule returns_mono [OF view_is_groupby [OF v _ room]]) (use rr in auto)
  then show ?thesis unfolding p e by (simp add: g [unfolded One_nat_def])
qed

end
