(* ===== verification/Dc_Tuples.thy ===== *)
theory Dc_Tuples
  imports Dc_Making
begin

text \<open>
  What the functions on sets of attributes compute: the bits of a word, counted from the most significant one, are the
  numbers of the attributes, and the two representations of a set give back each other.
\<close>

unbundle bit_operations_syntax

section \<open>The attributes of a word\<close>

definition attrs :: "64 word \<Rightarrow> nat \<Rightarrow> nat list" where
  "attrs b n = filter (\<lambda>i. bit b (63 - i)) [0..<n]"

definition attrs32 :: "32 word \<Rightarrow> nat \<Rightarrow> nat list" where
  "attrs32 g n = filter (\<lambda>i. bit g (31 - i)) [0..<n]"

lemma attrs_simps [simp]:
  "attrs b 0 = []" "attrs b (Suc n) = attrs b n @ (if bit b (63 - n) then [n] else [])"
  "attrs32 g 0 = []" "attrs32 g (Suc n) = attrs32 g n @ (if bit g (31 - n) then [n] else [])"
  by (simp_all add: attrs_def attrs32_def)

lemma attrs_length: "length (attrs b n) \<le> n" "length (attrs32 g n) \<le> n"
  unfolding attrs_def attrs32_def by (metis length_filter_le length_upt diff_zero)+

lemma attrs_set: "i \<in> set (attrs b n) \<longleftrightarrow> i < n \<and> bit b (63 - i)" "i \<in> set (attrs32 g n) \<longleftrightarrow> i < n \<and> bit g (31 - i)"
  by (auto simp: attrs_def attrs32_def)

lemma MLB_bit: "drop_bit i MLB = (if i < 64 then 2 ^ (63 - i) else 0)"
proof -
  have "MLB = 2 ^ 63" by (simp add: MLB_def)
  then show ?thesis unfolding \<open>MLB = _\<close> drop_bit_exp_eq by simp
qed

lemma MLB32_bit: "drop_bit i MLB32 = (if i < 32 then 2 ^ (31 - i) else 0)"
proof -
  have "MLB32 = 2 ^ 31" by (simp add: MLB32_def)
  then show ?thesis unfolding \<open>MLB32 = _\<close> drop_bit_exp_eq by simp
qed

lemma and_MLB: "i < 64 \<Longrightarrow> b AND drop_bit i MLB = 0 \<longleftrightarrow> \<not> bit b (63 - i)"
  by (simp add: MLB_bit and_exp_eq_0_iff_not_bit)

lemma and_MLB32: "i < 32 \<Longrightarrow> g AND drop_bit i MLB32 = 0 \<longleftrightarrow> \<not> bit g (31 - i)"
  by (simp add: MLB32_bit and_exp_eq_0_iff_not_bit)

lemma drop_more: "drop_bit 1 (drop_bit i w) = drop_bit (Suc i) (w :: 'a::len word)"
  by (simp add: drop_bit_drop_bit)

text \<open>The numbers in the selection.\<close>

definition selects :: "nat list \<Rightarrow> 32 word list \<Rightarrow> bool" where
  "selects as sel \<longleftrightarrow> length as \<le> length sel \<and> take (length as) sel = List.map (\<lambda>i. of_nat (Suc i)) as"

lemma selects_add:
  assumes "selects as sel" "length as < length sel" "w = of_nat (Suc i)"
  shows "selects (as @ [i]) (sel[length as := w])"
proof -
  have "take (Suc (length as)) (sel[length as := w]) = take (length as) sel @ [w]"
    using assms(2) by (simp add: take_Suc_conv_app_nth take_update_swap list_update_append)
  then show ?thesis using assms by (simp add: selects_def)
qed

lemma selects_nth: "selects as sel \<Longrightarrow> j < length as \<Longrightarrow> sel ! j = of_nat (Suc (as ! j))"
  unfolding selects_def by (metis nth_map nth_take)

lemma GetRegTupleFromBin64_attrs:
  assumes n: "unat n \<le> 64" "unat n \<le> length sel"
  shows "returns (GetRegTupleFromBin64 b sel n) (\<lambda>(sel', k). length sel' = length sel \<and> selects (attrs b (unat n)) sel' \<and> unat k = length (attrs b (unat n)))"
proof -
  let ?I = "\<lambda>i (oc, s, j). oc = drop_bit (nat i) MLB \<and> length s = length sel \<and> selects (attrs b (nat i)) s \<and> j = (of_nat (length (attrs b (nat i))) :: 32 word)"
  have "returns (for_range 0 (uint n) (\<lambda>i (oc, sel, j).
       if b AND oc \<noteq> 0 then do { sel \<leftarrow> aset sel (uint j) (word_of_int i + 1); Some (drop_bit 1 oc, sel, j + 1) }
       else Some (drop_bit 1 oc, sel, j)) (MLB, sel, 0 :: 32 word)) (?I (uint n))"
  proof (rule returns_rangeI [where I = ?I])
    fix i :: int and x :: "64 word \<times> 32 word list \<times> 32 word"
    assume i: "0 \<le> i" "i < uint n" and x: "?I i x"
    obtain m where m: "i = int m" using nonneg_int_cases [OF i(1)] by blast
    then have mn: "m < unat n" using i(2) by simp
    obtain oc s j where xs: "x = (oc, s, j)" by (cases x)
    have s: "oc = drop_bit m MLB" "length s = length sel" "selects (attrs b m) s" "j = of_nat (length (attrs b m))" using x by (simp_all add: xs m)
    have l: "length (attrs b m) \<le> m" by (rule attrs_length)
    then have u: "uint (of_nat (length (attrs b m)) :: 32 word) = int (length (attrs b m))" "unat (of_nat (length (attrs b m)) :: 32 word) = length (attrs b m)"
      using mn n(1) by (simp_all add: small_word)
    have w: "word_of_int (int m) + 1 = (of_nat (Suc m) :: 32 word)" by simp
    have ls: "length (attrs b m) < length s" using l mn n(2) s(2) by simp
    have nm: "nat (i + 1) = Suc m" "nat (1 + int m) = Suc m" "nat (int m + 1) = Suc m" by (simp_all add: m)
    show "returns (case x of (oc, sel, j) \<Rightarrow>
       if b AND oc \<noteq> 0 then do { sel \<leftarrow> aset sel (uint j) (word_of_int i + 1); Some (drop_bit 1 oc, sel, j + 1) }
       else Some (drop_bit 1 oc, sel, j)) (?I (i + 1))"
    proof (cases "bit b (63 - m)")
      case True
      then show ?thesis using s ls selects_add [OF s(3) ls refl, of m] mn n(1) unfolding xs nm m
        by (simp add: and_MLB drop_more u w nm add.commute)
    next
      case False
      then show ?thesis using s mn n(1) unfolding xs nm m by (simp add: and_MLB drop_more nm)
    qed
  qed (simp_all add: selects_def)
  moreover have "unat (of_nat (length (attrs b (unat n))) :: 32 word) = length (attrs b (unat n))"
    using attrs_length(1) [of b "unat n"] n(1) by (intro small_word) simp
  ultimately show ?thesis unfolding GetRegTupleFromBin64_def by (auto elim!: returns_mono)
qed

section \<open>The number of attributes\<close>

lemma ones_loop_filter:
  "i + k \<le> 64 \<Longrightarrow> ones_loop k (drop_bit i MLB) s acc = acc + of_nat (length (filter (\<lambda>j. bit s (63 - j)) [i..<i + k]))"
proof (induction k arbitrary: i acc)
  case (Suc k)
  have "[i..<i + Suc k] = i # [Suc i..<Suc i + k]" by (simp add: upt_conv_Cons)
  moreover have "ones_loop k (drop_bit (Suc i) MLB) s acc' = acc' + of_nat (length (filter (\<lambda>j. bit s (63 - j)) [Suc i..<Suc i + k]))" for acc'
    using Suc.prems by (intro Suc.IH) simp
  ultimately show ?case using Suc.prems by (simp add: and_MLB drop_more del: upt_Suc)
qed simp

text \<open>The set in the upper bits of 32.\<close>

definition top_bits :: "nat \<Rightarrow> 64 word \<Rightarrow> 32 word" where
  "top_bits n b = push_bit (32 - n) (ucast (drop_bit (64 - n) b))"

lemma top_bits_bit: "n \<le> 32 \<Longrightarrow> i < 32 \<Longrightarrow> bit (top_bits n b) (31 - i) \<longleftrightarrow> i < n \<and> bit b (63 - i)"
proof -
  assume n: "n \<le> 32" "i < 32"
  have "bit (top_bits n b) (31 - i) \<longleftrightarrow> 32 - n \<le> 31 - i \<and> bit b (64 - n + (31 - i - (32 - n)))"
    using n by (auto simp: top_bits_def bit_simps)
  moreover have "32 - n \<le> 31 - i \<longleftrightarrow> i < n" "i < n \<Longrightarrow> 64 - n + (31 - i - (32 - n)) = 63 - i" using n by linarith+
  ultimately show ?thesis by auto
qed

lemma attrs32_top:
  assumes "n \<le> 32" "n \<le> k" "k \<le> 32"
  shows "attrs32 (top_bits n b) k = attrs b n"
proof -
  have "attrs32 (top_bits n b) k = filter (\<lambda>i. i < n \<and> bit b (63 - i)) [0..<k]"
    unfolding attrs32_def using assms by (intro filter_cong refl top_bits_bit) auto
  also have "[0..<k] = [0..<n] @ [n..<k]" using assms(2) by (metis le_add_diff_inverse upt_add_eq_append zero_le)
  finally have "attrs32 (top_bits n b) k = filter (\<lambda>i. i < n \<and> bit b (63 - i)) [0..<n] @ filter (\<lambda>i. i < n \<and> bit b (63 - i)) [n..<k]" by simp
  moreover have "filter (\<lambda>i. i < n \<and> bit b (63 - i)) [n..<k] = []" by (auto simp: filter_empty_conv)
  moreover have "filter (\<lambda>i. i < n \<and> bit b (63 - i)) [0..<n] = attrs b n" unfolding attrs_def by (intro filter_cong) auto
  ultimately show ?thesis by simp
qed

lemma NumberOfOnes_attrs:
  shows "unat (NumberOfOnes (ucast (g :: 32 word))) = length (attrs32 g 32)"
proof -
  let ?P = "\<lambda>j. bit (ucast g :: 64 word) (63 - j)"
  have up: "[0..<64] = [0..<32] @ List.map (\<lambda>j. j + 32) [0..<32]" by (simp add: map_add_upt upt_add_eq_append [of 0 32 32, simplified])
  have "filter ?P [0..<32] = []" by (auto simp: filter_empty_conv bit_simps dest!: bit_imp_le_length)
  moreover have "length (filter ?P (List.map (\<lambda>j. j + 32) [0..<32])) = length (attrs32 g 32)"
    unfolding filter_map attrs32_def length_map by (intro arg_cong [where f = length] filter_cong) (auto simp: bit_simps)
  ultimately have "length (filter ?P [0..<64]) = length (attrs32 g 32)" unfolding up by simp
  moreover have "NumberOfOnes (ucast g) = of_nat (length (filter ?P [0..<64]))"
    using ones_loop_filter [of 0 64 "ucast g" 0] by (simp add: NumberOfOnes_def del: upt_Suc)
  moreover have "length (attrs32 g 32) \<le> 32" by (rule attrs_length)
  ultimately show ?thesis by (simp add: small_word)
qed

section \<open>The attributes of a view among those of its parent\<close>

lemma upt_split: "i < n \<Longrightarrow> [0..<n] = [0..<i] @ i # [Suc i..<n]"
  by (metis append_Cons append_Nil le_add_diff_inverse less_imp_le_nat upt_add_eq_append upt_conv_Cons zero_le)

lemma filter_upt:
  assumes "i < n" "P i"
  shows "filter P [0..<n] ! length (filter P [0..<i]) = i" "length (filter P [0..<i]) < length (filter P [0..<n])"
  unfolding upt_split [OF assms(1)] using assms(2) by simp_all

definition common :: "32 word \<Rightarrow> 32 word \<Rightarrow> nat \<Rightarrow> nat list" where
  "common par g n = filter (\<lambda>i. bit par (31 - i) \<and> bit g (31 - i)) [0..<n]"

text \<open>The place of an attribute among those of the parent.\<close>

definition places :: "32 word \<Rightarrow> nat list \<Rightarrow> nat list" where
  "places par as = List.map (\<lambda>i. length (attrs32 par i)) as"

lemma places_simps [simp]: "places par [] = []" "places par (as @ bs) = places par as @ places par bs" "places par (i # as) = length (attrs32 par i) # places par as"
  "length (places par as) = length as"
  by (simp_all add: places_def)

lemma common_simps [simp]: "common par g 0 = []"
  "common par g (Suc n) = common par g n @ (if bit par (31 - n) \<and> bit g (31 - n) then [n] else [])"
  by (simp_all add: common_def)

lemma common_length: "length (common par g n) \<le> n"
  unfolding common_def by (metis length_filter_le length_upt diff_zero)

lemma GetRegTupleFromParent_common:
  assumes n: "0 < unat n" "unat n \<le> 32" "unat n \<le> length sel"
  shows "returns (GetRegTupleFromParent b par sel n) (\<lambda>sel'. length sel' = length sel \<and>
     selects (places par (common par (top_bits (unat n) b) (unat n))) sel')"
proof -
  let ?g = "top_bits (unat n) b"
  let ?I = "\<lambda>i (oc, s, j, k). oc = drop_bit (nat i) MLB32 \<and> length s = length sel \<and> selects (places par (common par ?g (nat i))) s \<and>
     j = (of_nat (length (common par ?g (nat i))) :: 32 word) \<and> k = (of_nat (length (attrs32 par (nat i))) :: 32 word)"
  have "returns (for_range 0 (uint n) (\<lambda>i (oc, sel, j, k). do {
       let k = (if par AND oc \<noteq> 0 then k + 1 else k);
       if par AND oc \<noteq> 0 \<and> ?g AND oc \<noteq> 0 then do { sel \<leftarrow> aset sel (uint j) k; Some (drop_bit 1 oc, sel, j + 1, k) }
       else Some (drop_bit 1 oc, sel, j, k) }) (MLB32, sel, 0 :: 32 word, 0 :: 32 word)) (?I (uint n))"
  proof (rule returns_rangeI [where I = ?I])
    fix i :: int and x :: "32 word \<times> 32 word list \<times> 32 word \<times> 32 word"
    assume i: "0 \<le> i" "i < uint n" and x: "?I i x"
    obtain m where m: "i = int m" using nonneg_int_cases [OF i(1)] by blast
    then have mn: "m < unat n" using i(2) by simp
    obtain oc s j k where xs: "x = (oc, s, j, k)" by (cases x)
    have s: "oc = drop_bit m MLB32" "length s = length sel" "selects (places par (common par ?g m)) s" "j = of_nat (length (common par ?g m))"
      "k = of_nat (length (attrs32 par m))" using x by (simp_all add: xs m)
    have l: "length (common par ?g m) \<le> m" by (rule common_length)
    then have u: "uint (of_nat (length (common par ?g m)) :: 32 word) = int (length (common par ?g m))" "unat (of_nat (length (common par ?g m)) :: 32 word) = length (common par ?g m)"
      using mn n(2) by (simp_all add: small_word)
    have ls: "length (places par (common par ?g m)) < length s" using l mn n(3) s(2) by simp
    have nm: "nat (i + 1) = Suc m" "nat (1 + int m) = Suc m" "nat (int m + 1) = Suc m" by (simp_all add: m)
    have and0: "par AND drop_bit m MLB32 = 0 \<longleftrightarrow> \<not> bit par (31 - m)" "?g AND drop_bit m MLB32 = 0 \<longleftrightarrow> \<not> bit ?g (31 - m)"
      using mn n(2) by (simp_all add: and_MLB32)
    show "returns (case x of (oc, sel, j, k) \<Rightarrow> do {
       let k = (if par AND oc \<noteq> 0 then k + 1 else k);
       if par AND oc \<noteq> 0 \<and> ?g AND oc \<noteq> 0 then do { sel \<leftarrow> aset sel (uint j) k; Some (drop_bit 1 oc, sel, j + 1, k) }
       else Some (drop_bit 1 oc, sel, j, k) }) (?I (i + 1))"
    proof (cases "bit par (31 - m) \<and> bit ?g (31 - m)")
      case True
      then show ?thesis using s ls selects_add [OF s(3) ls refl, of "length (attrs32 par m)"] unfolding xs nm m
        by (simp add: and0 drop_more u nm add.commute Let_def)
    next
      case False
      then show ?thesis using s unfolding xs nm m by (auto simp: and0 drop_more nm)
    qed
  qed (simp_all add: selects_def)
  moreover have "0 < n" "n \<le> 32" using n by (simp_all add: word_gt_0 word_le_nat_alt unat_gt_0 [symmetric] del: unat_gt_0)
  ultimately show ?thesis unfolding GetRegTupleFromParent_def Let_def top_bits_def [symmetric] by (auto elim!: returns_mono)
qed

section \<open>From the attributes to the word\<close>

lemma CreateBinTuple_bits:
  assumes as: "\<forall>i\<in>set as. i < 64" "selects as sel" "length as < 2 ^ 32"
  shows "returns (CreateBinTuple sel (of_nat (length as))) (\<lambda>b. \<forall>i<64. bit b (63 - i) \<longleftrightarrow> i \<in> set as)"
proof -
  let ?I = "\<lambda>k b. \<forall>i<64. bit b (63 - i) \<longleftrightarrow> i \<in> set (take (nat k) as)"
  have "returns (CreateBinTuple sel (of_nat (length as))) (?I (int (length as)))"
    unfolding CreateBinTuple_def small_word(2) [OF as(3)]
  proof (rule returns_rangeI [where I = ?I])
    fix k :: int and s :: "64 word"
    assume k: "0 \<le> k" "k < int (length as)" and s: "?I k s"
    obtain m where m: "k = int m" using nonneg_int_cases [OF k(1)] by blast
    have ml: "m < length as" "m < length sel" using k(2) as(2) by (simp_all add: m selects_def)
    have v: "sel ! m = of_nat (Suc (as ! m))" by (rule selects_nth [OF as(2) ml(1)])
    have a: "as ! m < 64" using as(1) ml(1) by simp
    then have "sint (sel ! m - 1) = int (as ! m)" by (subst sint_small) (simp_all add: v small_word)
    moreover have nm: "nat (k + 1) = Suc m" "nat (1 + int m) = Suc m" "nat (int m + 1) = Suc m" by (simp_all add: m)
    moreover have "bit (s OR drop_bit (as ! m) MLB) (63 - i) \<longleftrightarrow> i \<in> set (take (Suc m) as)" if "i < 64" for i
    proof -
      have "bit (2 ^ (63 - as ! m) :: 64 word) (63 - i) \<longleftrightarrow> i = as ! m" using that a by (auto simp: bit_exp_iff)
      then show ?thesis using s that a ml(1) by (auto simp: bit_or_iff MLB_bit m take_Suc_conv_app_nth)
    qed
    ultimately show "returns (do { v \<leftarrow> aget sel k; SetOneBit s (sint (v - 1)) }) (?I (k + 1))"
      using ml a by (simp add: m SetOneBit_def)
  qed simp_all
  then show ?thesis by simp
qed

section \<open>The order of the bytes\<close>

lemma bit_FF: "bit (0xFF :: 64 word) k \<longleftrightarrow> k < 8"
proof -
  have "(0xFF :: 64 word) = mask 8" by (simp add: mask_eq_exp_minus_1)
  then show ?thesis by (simp only: bit_mask_iff) auto
qed

lemma bit_byte_of: "bit (byte_of i w) k \<longleftrightarrow> k < 8 \<and> bit w (8 * i + k)"
  by (auto simp: byte_of_def bit_and_iff bit_drop_bit_eq bit_FF simp del: bit_numeral_word_iff)

lemma bit_put_byte:
  assumes "i < 8" "q < 8" "r < 8"
  shows "bit (put_byte i b w) (8 * q + r) \<longleftrightarrow> (if q = i then bit b r else bit w (8 * q + r))"
proof (cases "q = i")
  case True
  then show ?thesis using assms by (simp add: put_byte_def bit_or_iff bit_and_iff bit_not_iff bit_push_bit_iff bit_FF del: bit_numeral_word_iff)
next
  case False
  then have "\<not> (8 * i \<le> 8 * q + r \<and> 8 * q + r - 8 * i < 8)" using assms(3) by linarith
  then show ?thesis using assms False by (auto simp: put_byte_def bit_or_iff bit_and_iff bit_not_iff bit_push_bit_iff bit_FF simp del: bit_numeral_word_iff)
qed

definition exchange :: "nat \<Rightarrow> nat \<Rightarrow> nat \<Rightarrow> nat" where
  "exchange i j q = (if q = j then i else if q = i then j else q)"

lemma exchange_less: "i < 8 \<Longrightarrow> j < 8 \<Longrightarrow> q < 8 \<Longrightarrow> exchange i j q < 8"
  by (simp add: exchange_def)

lemma exchange_all: "q < 8 \<Longrightarrow> exchange 0 7 (exchange 1 6 (exchange 2 5 (exchange 3 4 q))) = 7 - q"
  by (auto simp: numeral_eq_Suc less_Suc_eq exchange_def)

lemma bit_swap_bytes:
  assumes "i < 8" "j < 8" "i \<noteq> j" "q < 8" "r < 8"
  shows "bit (swap_bytes i j w) (8 * q + r) \<longleftrightarrow> bit w (8 * exchange i j q + r)"
  using assms by (simp add: swap_bytes_def bit_put_byte bit_byte_of exchange_def)

lemma bit_swap8:
  assumes "q < 8" "r < 8"
  shows "bit (swap8 w) (8 * q + r) \<longleftrightarrow> bit w (8 * (7 - q) + r)"
proof -
  have "bit (swap8 w) (8 * q + r) \<longleftrightarrow> bit w (8 * exchange 0 7 (exchange 1 6 (exchange 2 5 (exchange 3 4 q))) + r)"
    using assms by (simp add: swap8_def bit_swap_bytes exchange_less)
  then show ?thesis unfolding exchange_all [OF assms(1)] .
qed

lemma swap8_swap8 [simp]: "swap8 (swap8 w) = w"
proof (rule bit_word_eqI)
  fix k assume "k < LENGTH(64)"
  then have k: "k div 8 < 8" "k mod 8 < 8" by (simp_all add: less_mult_imp_div_less)
  have e: "7 - k div 8 < 8" "7 - (7 - k div 8) = k div 8" using k(1) by simp_all
  show "bit (swap8 (swap8 w)) k \<longleftrightarrow> bit w k"
    using bit_swap8 [OF k, of "swap8 w"] bit_swap8 [OF e(1) k(2), of w] by (simp add: e(2))
qed

section \<open>A selection and back\<close>

text \<open>C18: the attributes of a view come back from the file of the group-bys: packing an increasing selection into a word with
  \<open>CreateBinTuple\<close>, shifting it right and left again as \<open>PartitionCube\<close> and \<open>MultiFileProcJobs\<close> do, reversing its bytes for
  the file and again after it was read, and unpacking it with \<open>GetRegTupleFromBin64\<close> gives the same numbers.\<close>

theorem selection_roundtrip:
  assumes "0 < n" "n \<le> 32" and A: "A = filter (\<lambda>i. i \<in> set A) [0..<n]" and s: "selects A sel" "n \<le> length out"
  shows "returns (do { b \<leftarrow> CreateBinTuple sel (of_nat (length A));
      let raw = swap8 (push_bit (64 - n) (drop_bit (64 - n) b));
      GetRegTupleFromBin64 (swap8 raw) out (of_nat n) }) (\<lambda>(sel', k). unat k = length A \<and> take (length A) sel' = take (length A) sel)"
proof -
  have m: "\<forall>i\<in>set A. i < n" by (subst A) simp
  have l: "length A \<le> n" by (subst A) (metis length_filter_le length_upt diff_zero)
  have c: "\<forall>i\<in>set A. i < 64" "length A < 2 ^ 32" using m l assms(2) by auto
  obtain b where b: "CreateBinTuple sel (of_nat (length A)) = Some b" "\<forall>i<64. bit b (63 - i) \<longleftrightarrow> i \<in> set A"
    using CreateBinTuple_bits [OF c(1) s(1) c(2)] by (rule returnsE)
  let ?b = "push_bit (64 - n) (drop_bit (64 - n) b)"
  have "bit ?b (63 - i) \<longleftrightarrow> i \<in> set A" if i: "i < n" for i
  proof -
    have "bit ?b (63 - i) \<longleftrightarrow> bit b (63 - i)" using i assms(2) by (auto simp: bit_push_bit_iff bit_drop_bit_eq)
    then show ?thesis using b(2) i assms(2) by simp
  qed
  then have "attrs ?b n = filter (\<lambda>i. i \<in> set A) [0..<n]" unfolding attrs_def by (intro filter_cong) auto
  then have a: "attrs ?b n = A" using A by simp
  have u: "unat (of_nat n :: 32 word) = n" using assms(2) by (intro small_word) simp
  have "returns (GetRegTupleFromBin64 ?b out (of_nat n)) (\<lambda>(sel', k). length sel' = length out \<and> selects A sel' \<and> unat k = length A)"
    using GetRegTupleFromBin64_attrs [of "of_nat n" out ?b] assms(2) s(2) unfolding u a by simp
  then show ?thesis unfolding b(1) Let_def swap8_swap8 Option.bind_lunit
  proof (rule returns_mono)
    fix x :: "32 word list \<times> 32 word" assume "case x of (sel', k) \<Rightarrow> length sel' = length out \<and> selects A sel' \<and> unat k = length A"
    then show "case x of (sel', k) \<Rightarrow> unat k = length A \<and> take (length A) sel' = take (length A) sel" using s(1) by (simp add: selects_def split: prod.splits)
  qed
qed

text \<open>The attributes one and three of four.\<close>

theorem selection_roundtrip_witness:
  "returns (do { b \<leftarrow> CreateBinTuple [1, 3] 2;
      let raw = swap8 (push_bit 60 (drop_bit 60 b));
      GetRegTupleFromBin64 (swap8 raw) [0, 0, 0, 0] 4 }) (\<lambda>(sel', k). unat k = 2 \<and> take 2 sel' = [1, 3])"
proof -
  have "[0, 2] = filter (\<lambda>i. i \<in> set [0, 2]) [0..<4 :: nat]" "selects [0, 2] [1, 3]" by (simp_all add: upt_rec selects_def)
  from selection_roundtrip [of 4, OF _ _ this, of "[0, 0, 0, 0]"] show ?thesis
    by (simp del: swap8_swap8 add: numeral_2_eq_2)
qed

end
