(* ===== verification/Dc_Parents.thy ===== *)
theory Dc_Parents
  imports Dc_Tuples
begin

text \<open>
  The search for the view to make the next view from: it ends at the first level that has a view with all the attributes,
  and takes a smallest view of the best kind there.
\<close>

unbundle bit_operations_syntax

section \<open>The pool\<close>

definition pop :: "ADC_VIEW_CNTL \<Rightarrow> nat \<Rightarrow> nat" where
  "pop avp l = unat (layerCurrentPopulation (lpp avp ! l))"

definition slot :: "ADC_VIEW_CNTL \<Rightarrow> nat \<Rightarrow> nat \<Rightarrow> nat" where
  "slot avp l i = unat (layerIndex (lpp avp ! l)) + i"

definition entry :: "ADC_VIEW_CNTL \<Rightarrow> nat \<Rightarrow> nat \<Rightarrow> JOB_POOL" where
  "entry avp l i = jpp avp ! slot avp l i"

definition covers :: "ADC_VIEW_CNTL \<Rightarrow> JOB_POOL \<Rightarrow> bool" where
  "covers avp j \<longleftrightarrow> groupby avp AND jp_grpb j = groupby avp"

definition layers_fit :: "ADC_VIEW_CNTL \<Rightarrow> bool" where
  "layers_fit avp \<longleftrightarrow> unat (nTopDims avp) < length (lpp avp) \<and> unat (nTopDims avp) < 2 ^ 32 - 1 \<and> length (jpp avp) < 2 ^ 32 \<and>
     (\<forall>l. 0 < l \<and> l \<le> unat (nTopDims avp) \<longrightarrow> slot avp l (pop avp l) \<le> length (jpp avp))"

lemma slot_word:
  assumes "layers_fit avp" "0 < l" "l \<le> unat (nTopDims avp)" "i < pop avp l"
  shows "slot avp l i < length (jpp avp)" "uint (layerIndex (lpp avp ! l) + word_of_int (int i)) = int (slot avp l i)"
    "unat (layerIndex (lpp avp ! l) + of_nat i) = slot avp l i"
proof -
  have "slot avp l (pop avp l) \<le> length (jpp avp)" "length (jpp avp) < 2 ^ 32" using assms by (simp_all add: layers_fit_def)
  then show s: "slot avp l i < length (jpp avp)" using assms(4) by (simp add: slot_def)
  then have lt: "slot avp l i < 2 ^ 32" using \<open>length (jpp avp) < 2 ^ 32\<close> by simp
  have "layerIndex (lpp avp ! l) + of_nat i = (of_nat (slot avp l i) :: 32 word)" by (simp add: slot_def)
  then show "unat (layerIndex (lpp avp ! l) + of_nat i) = slot avp l i" using small_word(1) [OF lt] by metis
  then show "uint (layerIndex (lpp avp ! l) + word_of_int (int i)) = int (slot avp l i)" by (simp add: uint_nat)
qed

section \<open>One level\<close>

text \<open>The candidate after the first \<open>k\<close> views of a level: the smallest of those that qualify.\<close>

definition chosen :: "ADC_VIEW_CNTL \<Rightarrow> nat \<Rightarrow> nat \<Rightarrow> candidate" where
  "chosen avp l i = \<lparr>c_found = True, c_first = False, c_rows = jp_nRows (entry avp l i), c_ig = Some (of_nat (slot avp l i))\<rparr>"

definition smallest :: "ADC_VIEW_CNTL \<Rightarrow> nat \<Rightarrow> (JOB_POOL \<Rightarrow> bool) \<Rightarrow> nat \<Rightarrow> nat \<Rightarrow> bool" where
  "smallest avp l P k i \<longleftrightarrow> i < k \<and> P (entry avp l i) \<and> (\<forall>j<k. P (entry avp l j) \<longrightarrow> jp_nRows (entry avp l i) \<le> jp_nRows (entry avp l j))"

definition best :: "ADC_VIEW_CNTL \<Rightarrow> nat \<Rightarrow> (JOB_POOL \<Rightarrow> bool) \<Rightarrow> nat \<Rightarrow> candidate \<Rightarrow> candidate \<Rightarrow> bool" where
  "best avp l P k c c' \<longleftrightarrow> c' = next_level c \<and> (\<forall>i<k. \<not> P (entry avp l i)) \<or> (\<exists>i. c' = chosen avp l i \<and> smallest avp l P k i)"

lemma bestI: "smallest avp l P k i \<Longrightarrow> c' = chosen avp l i \<Longrightarrow> best avp l P k c c'"
  unfolding best_def by blast

lemma smallest_more:
  "\<not> P (entry avp l k) \<Longrightarrow> smallest avp l P k i \<Longrightarrow> smallest avp l P (Suc k) i"
  "smallest avp l P k i \<Longrightarrow> jp_nRows (entry avp l i) \<le> jp_nRows (entry avp l k) \<Longrightarrow> smallest avp l P (Suc k) i"
  "P (entry avp l k) \<Longrightarrow> \<forall>i<k. \<not> P (entry avp l i) \<Longrightarrow> smallest avp l P (Suc k) k"
  unfolding smallest_def less_Suc_eq by blast+

lemma smallest_less:
  assumes "P (entry avp l k)" "smallest avp l P k i" "jp_nRows (entry avp l k) < jp_nRows (entry avp l i)"
  shows "smallest avp l P (Suc k) k"
  unfolding smallest_def
proof (intro conjI allI impI)
  fix j assume j: "j < Suc k" "P (entry avp l j)"
  show "jp_nRows (entry avp l k) \<le> jp_nRows (entry avp l j)"
  proof (cases "j = k")
    case False
    then have "jp_nRows (entry avp l i) \<le> jp_nRows (entry avp l j)" using assms(2) j unfolding smallest_def by (metis less_SucE)
    then show ?thesis using assms(3) by (rule order_trans [OF less_imp_le, rotated])
  qed simp
qed (use assms(1) in simp_all)

lemma best_step:
  assumes "best avp l P k c c'"
  shows "best avp l P (Suc k) c (if P (entry avp l k) then note_candidate (of_nat (slot avp l k)) (jp_nRows (entry avp l k)) c' else c')"
  using assms unfolding best_def [of avp l P k]
proof (elim disjE conjE exE)
  assume n: "c' = next_level c" "\<forall>i<k. \<not> P (entry avp l i)"
  show ?thesis
  proof (cases "P (entry avp l k)")
    case True
    then show ?thesis using n by (intro bestI [OF smallest_more(3)]) (simp_all add: note_candidate_def next_level_def chosen_def)
  qed (use n in \<open>auto simp: best_def less_Suc_eq\<close>)
next
  fix i assume i: "c' = chosen avp l i" "smallest avp l P k i"
  consider "\<not> P (entry avp l k)" | "P (entry avp l k)" "jp_nRows (entry avp l k) < jp_nRows (entry avp l i)"
    | "P (entry avp l k)" "jp_nRows (entry avp l i) \<le> jp_nRows (entry avp l k)" by (metis not_less)
  then show ?thesis
  proof cases
    case 1
    then show ?thesis using i by (intro bestI [OF smallest_more(1) [OF 1 i(2)]]) simp
  next
    case 2
    then show ?thesis using i by (intro bestI [OF smallest_less [OF 2(1) i(2) 2(2)]]) (simp add: note_candidate_def chosen_def)
  next
    case 3
    then show ?thesis using i by (intro bestI [OF smallest_more(2) [OF i(2) 3(2)]]) (auto simp: note_candidate_def chosen_def)
  qed
qed

lemma scan_level_best:
  assumes f: "layers_fit avp" "0 < l" "l \<le> unat (nTopDims avp)"
  shows "returns (scan_level avp ok (of_nat l) c) (best avp l (\<lambda>j. covers avp j \<and> ok (jp_grpb j)) (pop avp l) c)"
proof -
  let ?P = "\<lambda>j. covers avp j \<and> ok (jp_grpb j)" and ?y = "lpp avp ! l"
  have n: "unat (nTopDims avp) < length (lpp avp)" "unat (nTopDims avp) < 2 ^ 32 - 1" using f(1) unfolding layers_fit_def by blast+
  have l: "l < length (lpp avp)" "l < 2 ^ 32" using n f(3) by linarith+
  have y: "aget (lpp avp) (uint (of_nat l :: 32 word)) = Some ?y" unfolding small_word(2) [OF l(2)] by (rule aget_int [OF l(1)])
  have p: "uint (layerCurrentPopulation ?y) = int (pop avp l)" by (simp add: pop_def)
  have "returns (for_range 0 (int (pop avp l)) (\<lambda>i c. do {
       let ig = layerIndex ?y + word_of_int i;
       j \<leftarrow> aget (jpp avp) (uint ig);
       Some (if groupby avp AND jp_grpb j = groupby avp \<and> ok (jp_grpb j) then note_candidate ig (jp_nRows j) c else c) }) (next_level c))
    (best avp l ?P (nat (int (pop avp l))) c)"
  proof (rule returns_rangeI [where I = "\<lambda>k c'. best avp l ?P (nat k) c c'"])
    fix k :: int and c' assume k: "0 \<le> k" "k < int (pop avp l)" and b: "best avp l ?P (nat k) c c'"
    obtain i where i: "k = int i" using nonneg_int_cases [OF k(1)] by blast
    have il: "i < pop avp l" using k(2) by (simp add: i)
    note s = slot_word [OF f il]
    have w: "layerIndex ?y + word_of_int (int i) = of_nat (slot avp l i)" by (simp add: slot_def)
    have "best avp l ?P (Suc i) c (if ?P (entry avp l i) then note_candidate (of_nat (slot avp l i)) (jp_nRows (entry avp l i)) c' else c')"
      by (rule best_step) (use b in \<open>simp add: i\<close>)
    moreover have nm: "nat (k + 1) = Suc i" "nat (1 + int i) = Suc i" "nat (int i + 1) = Suc i" by (simp_all add: i)
    ultimately show "returns (do {
       let ig = layerIndex ?y + word_of_int k;
       j \<leftarrow> aget (jpp avp) (uint ig);
       Some (if groupby avp AND jp_grpb j = groupby avp \<and> ok (jp_grpb j) then note_candidate ig (jp_nRows j) c' else c') }) (best avp l ?P (nat (k + 1)) c)"
      using s(1,2) unfolding i w covers_def entry_def by (simp add: nm)
  qed (simp_all add: best_def)
  then show ?thesis unfolding scan_level_def y by (simp add: p)
qed

section \<open>All levels\<close>

fun kind_ok :: "32 word \<times> 32 word \<times> 32 word \<times> 32 word \<Rightarrow> parent_kind \<Rightarrow> 32 word \<Rightarrow> bool" where
  "kind_ok (b, pfm, mlo, lom) smallestParent g = True"
| "kind_ok (b, pfm, mlo, lom) prefixedParent g = (g AND pfm = b)"
| "kind_ok (b, pfm, mlo, lom) sharedSortParent g = (g AND mlo \<noteq> 0 \<and> g AND lom = 0)"
| "kind_ok (b, pfm, mlo, lom) noneParent g = False"

definition taken :: "ADC_VIEW_CNTL \<Rightarrow> nat \<Rightarrow> nat \<Rightarrow> ADC_VIEW_CNTL" where
  "taken avp m i = avp\<lparr>smallestParentLevel := of_nat m, viewOffset := jp_viewOffset (entry avp m i), nParentViewRows := jp_nRows (entry avp m i),
     parBinRepTuple := jp_grpb (entry avp m i)\<rparr>"

text \<open>No view of a level has all the attributes.\<close>

definition no_cover :: "ADC_VIEW_CNTL \<Rightarrow> nat \<Rightarrow> bool" where
  "no_cover avp m \<longleftrightarrow> (\<forall>i<pop avp m. \<not> covers avp (entry avp m i))"

definition qualifies :: "ADC_VIEW_CNTL \<Rightarrow> 32 word \<times> 32 word \<times> 32 word \<times> 32 word \<Rightarrow> parent_kind \<Rightarrow> JOB_POOL \<Rightarrow> bool" where
  "qualifies avp masks kind j \<longleftrightarrow> covers avp j \<and> kind_ok masks kind (jp_grpb j)"

text \<open>The best kind that a view of the level \<open>m\<close> qualifies for: a prefixed parent before a parent with a shared sort, before any
  other view with all the attributes.\<close>

definition best_kind :: "ADC_VIEW_CNTL \<Rightarrow> 32 word \<times> 32 word \<times> 32 word \<times> 32 word \<Rightarrow> nat \<Rightarrow> parent_kind" where
  "best_kind avp masks m = (if \<exists>j<pop avp m. qualifies avp masks prefixedParent (entry avp m j) then prefixedParent
     else if \<exists>j<pop avp m. qualifies avp masks sharedSortParent (entry avp m j) then sharedSortParent else smallestParent)"

text \<open>The result of the search from the level \<open>l\<close> on.\<close>

definition searched :: "ADC_VIEW_CNTL \<Rightarrow> 32 word \<times> 32 word \<times> 32 word \<times> 32 word \<Rightarrow> nat \<Rightarrow> parent_kind \<times> ADC_VIEW_CNTL \<Rightarrow> bool" where
  "searched avp masks l = (\<lambda>(kind, avp').
     if kind = noneParent then avp' = avp \<and> (\<forall>m. l \<le> m \<and> m \<le> unat (nTopDims avp) \<longrightarrow> no_cover avp m)
     else \<exists>m i. l \<le> m \<and> m \<le> unat (nTopDims avp) \<and> (\<forall>m'. l \<le> m' \<and> m' < m \<longrightarrow> no_cover avp m') \<and>
       kind = best_kind avp masks m \<and> smallest avp m (qualifies avp masks kind) (pop avp m) i \<and> avp' = taken avp m i)"

lemma searchedI:
  "kind \<noteq> noneParent \<Longrightarrow> l \<le> m \<Longrightarrow> m \<le> unat (nTopDims avp) \<Longrightarrow> \<forall>m'. l \<le> m' \<and> m' < m \<longrightarrow> no_cover avp m' \<Longrightarrow>
   kind = best_kind avp masks m \<Longrightarrow> smallest avp m (qualifies avp masks kind) (pop avp m) i \<Longrightarrow> searched avp masks l (kind, taken avp m i)"
  unfolding searched_def by auto

lemma take_parent_chosen:
  assumes "layers_fit avp" "0 < l" "l \<le> unat (nTopDims avp)" "i < pop avp l"
  shows "take_parent (of_nat l) (chosen avp l i) avp = Some (taken avp l i)"
proof -
  have n: "length (jpp avp) < 2 ^ 32" using assms(1) unfolding layers_fit_def by blast
  note s = slot_word(1) [OF assms]
  have "uint (of_nat (slot avp l i) :: 32 word) = int (slot avp l i)" using s n by (intro small_word(2)) linarith
  then show ?thesis using s by (simp add: take_parent_def chosen_def taken_def entry_def)
qed

lemma best_found:
  assumes "best avp l P k c c'" "\<not> c_found c"
  shows "c_found c' \<Longrightarrow> \<exists>i. c' = chosen avp l i \<and> smallest avp l P k i" "\<not> c_found c' \<Longrightarrow> \<forall>i<k. \<not> P (entry avp l i)"
  using assms unfolding best_def by (auto simp: next_level_def chosen_def)

lemma searched_from:
  assumes "no_cover avp l" "searched avp masks (Suc l) x"
  shows "searched avp masks l x"
proof (cases "fst x = noneParent")
  case True
  have "no_cover avp m" if "l \<le> m" "m \<le> unat (nTopDims avp)" for m
    using that assms True by (cases "m = l") (auto simp: searched_def)
  then show ?thesis using True assms(2) by (auto simp: searched_def)
next
  case False
  then obtain m i where m: "Suc l \<le> m" "m \<le> unat (nTopDims avp)" "\<forall>m'. Suc l \<le> m' \<and> m' < m \<longrightarrow> no_cover avp m'"
    "fst x = best_kind avp masks m" "smallest avp m (qualifies avp masks (fst x)) (pop avp m) i" "snd x = taken avp m i"
    using assms(2) by (cases x) (auto simp: searched_def)
  have "\<forall>m'. l \<le> m' \<and> m' < m \<longrightarrow> no_cover avp m'"
  proof (intro allI impI)
    fix m' assume "l \<le> m' \<and> m' < m"
    then show "no_cover avp m'" using m(3) assms(1) by (cases "m' = l") auto
  qed
  from searchedI [OF False _ m(2) this m(4) m(5)] show ?thesis using m(1,6) by (cases x) simp
qed

lemma GetParent_from_searched:
  assumes f: "layers_fit avp" and l: "0 < l" "l \<le> Suc (unat (nTopDims avp))" and c: "\<not> c_found sp" "\<not> c_found pf" "\<not> c_found ss"
  shows "returns (GetParent_from masks avp (of_nat l) (sp, pf, ss)) (searched avp masks l)"
  using l c
proof (induction "Suc (unat (nTopDims avp)) - l" arbitrary: l sp pf ss)
  case 0
  have n: "unat (nTopDims avp) < 2 ^ 32 - 1" using f unfolding layers_fit_def by blast
  have le: "l = Suc (unat (nTopDims avp))" using 0 by simp
  then have "unat (of_nat l :: 32 word) = l" using n by (intro small_word) simp
  then have "\<not> of_nat l \<le> nTopDims avp" using le by (simp add: word_le_nat_alt)
  moreover have "searched avp masks l (noneParent, avp)" using le by (auto simp: searched_def)
  ultimately show ?case by (subst GetParent_from.simps) simp
next
  case (Suc d)
  obtain b pfm mlo lom where mk: "masks = (b, pfm, mlo, lom)" by (cases masks)
  have n: "unat (nTopDims avp) < 2 ^ 32 - 1" using f unfolding layers_fit_def by blast
  have ln: "l \<le> unat (nTopDims avp)" using Suc.hyps(2) by simp
  then have u: "unat (of_nat l :: 32 word) = l" using n by (intro small_word) simp
  then have le: "of_nat l \<le> nTopDims avp" using ln by (simp add: word_le_nat_alt)
  note scan = scan_level_best [OF f Suc.prems(1) ln]
  have q: "(\<lambda>j. covers avp j \<and> True) = qualifies avp masks smallestParent" "(\<lambda>j. covers avp j \<and> jp_grpb j AND pfm = b) = qualifies avp masks prefixedParent"
    "(\<lambda>j. covers avp j \<and> jp_grpb j AND mlo \<noteq> 0 \<and> jp_grpb j AND lom = 0) = qualifies avp masks sharedSortParent"
    by (simp_all add: qualifies_def mk fun_eq_iff)
  obtain sp' where sp': "scan_level avp (\<lambda>_. True) (of_nat l) sp = Some sp'" "best avp l (qualifies avp masks smallestParent) (pop avp l) sp sp'"
    using scan [of "\<lambda>_. True" sp] unfolding q by (auto elim!: returnsE)
  obtain pf' where pf': "scan_level avp (\<lambda>g. g AND pfm = b) (of_nat l) pf = Some pf'" "best avp l (qualifies avp masks prefixedParent) (pop avp l) pf pf'"
    using scan [of "\<lambda>g. g AND pfm = b" pf] unfolding q by (auto elim!: returnsE)
  obtain ss' where ss': "scan_level avp (\<lambda>g. g AND mlo \<noteq> 0 \<and> g AND lom = 0) (of_nat l) ss = Some ss'" "best avp l (qualifies avp masks sharedSortParent) (pop avp l) ss ss'"
    using scan [of "\<lambda>g. g AND mlo \<noteq> 0 \<and> g AND lom = 0" ss] unfolding q by (auto elim!: returnsE)
  define kind where "kind = found_kind sp' pf' ss'"
  define c where "c = (if kind = prefixedParent then pf' else if kind = sharedSortParent then ss' else sp')"
  have step: "GetParent_from masks avp (of_nat l) (sp, pf, ss) = (if kind = noneParent then GetParent_from masks avp (of_nat l + 1) (sp', pf', ss')
      else do { avp' \<leftarrow> take_parent (of_nat l) c avp; Some (kind, avp') })"
    using le sp'(1) pf'(1) ss'(1) unfolding kind_def c_def by (subst GetParent_from.simps) (simp add: mk Let_def)
  show ?case
  proof (cases "kind = noneParent")
    case True
    then have no: "\<not> c_found sp'" "\<not> c_found pf'" "\<not> c_found ss'" by (auto simp: kind_def found_kind_def split: if_splits)
    have nc: "no_cover avp l" using best_found(2) [OF sp'(2) Suc.prems(3) no(1)] by (simp add: no_cover_def qualifies_def mk)
    have "returns (GetParent_from masks avp (of_nat (Suc l)) (sp', pf', ss')) (searched avp masks (Suc l))"
      using Suc.hyps(2) ln no by (intro Suc.hyps(1)) simp_all
    then have "returns (GetParent_from masks avp (of_nat (Suc l)) (sp', pf', ss')) (searched avp masks l)"
      by (rule returns_mono) (rule searched_from [OF nc])
    then show ?thesis using True unfolding step by (simp add: add.commute)
  next
    case False
    have "\<exists>i. c = chosen avp l i \<and> smallest avp l (qualifies avp masks kind) (pop avp l) i"
      using False best_found(1) [OF sp'(2) Suc.prems(3)] best_found(1) [OF pf'(2) Suc.prems(4)] best_found(1) [OF ss'(2) Suc.prems(5)]
      by (auto simp: c_def kind_def found_kind_def split: if_splits)
    then obtain i where i: "c = chosen avp l i" "smallest avp l (qualifies avp masks kind) (pop avp l) i" by blast
    then have il: "i < pop avp l" by (simp add: smallest_def)
    have bk: "kind = best_kind avp masks l"
      using False best_found [OF pf'(2) Suc.prems(4)] best_found [OF ss'(2) Suc.prems(5)]
      by (auto simp: kind_def best_kind_def found_kind_def smallest_def split: if_splits)
    have "searched avp masks l (kind, taken avp l i)" by (rule searchedI [OF False _ ln _ bk i(2)]) auto
    then show ?thesis using False take_parent_chosen [OF f Suc.prems(1) ln il] unfolding step by (simp add: i(1))
  qed
qed

lemma Mlo32_loop_bound: "x \<noteq> 0 \<Longrightarrow> (\<forall>j<i. \<not> bit x (31 - j)) \<Longrightarrow> i + k = 32 \<Longrightarrow> unat (Mlo32_loop k (drop_bit i MLB32) x (of_nat i)) < 32"
proof (induction k arbitrary: i)
  case 0
  have "\<not> bit x j" if "j < 32" for j using 0(2) [rule_format, of "31 - j"] that 0(3) by simp
  then have "x = 0" by (intro bit_word_eqI) simp
  then show ?case using 0(1) by simp
next
  case (Suc k)
  show ?case
  proof (cases "bit x (31 - i)")
    case True
    then show ?thesis using Suc.prems(3) by (simp add: and.commute [of _ x] and_MLB32 small_word)
  next
    case False
    have "unat (Mlo32_loop k (drop_bit (Suc i) MLB32) x (of_nat (Suc i))) < 32"
      using Suc.prems False by (intro Suc.IH) (auto simp: less_Suc_eq)
    then show ?thesis using False Suc.prems(3) by (simp add: and.commute [of _ x] and_MLB32 drop_more add.commute)
  qed
qed

lemma Mlo32_bound: "x \<noteq> 0 \<Longrightarrow> Mlo32 x < 32"
  using Mlo32_loop_bound [of x 0 32] by (simp add: Mlo32_def word_less_nat_alt)

text \<open>The masks of \<open>GetParent\<close>.\<close>

definition parent_masks :: "32 word \<Rightarrow> 32 word \<times> 32 word \<times> 32 word \<times> 32 word" where
  "parent_masks g = (g, setLeadingOnes32 (mro32 g), drop_bit (unat (Mlo32 g)) MLB32, setLeadingOnes32 (Mlo32 g))"

lemma GetParent_searched:
  assumes f: "layers_fit avp" and g: "groupby avp \<noteq> 0" and l: "length (attrs32 (groupby avp) 32) \<le> unat (nTopDims avp)"
  shows "returns (GetParent avp (groupby avp)) (searched avp (parent_masks (groupby avp)) (length (attrs32 (groupby avp) 32)))"
proof -
  let ?g = "groupby avp" and ?l = "length (attrs32 (groupby avp) 32)"
  have pos: "0 < ?l"
  proof -
    have "\<exists>j<32. bit ?g j"
    proof (rule ccontr)
      assume n: "\<not> (\<exists>j<32. bit ?g j)"
      have "?g = 0" by (rule bit_word_eqI) (use n in simp)
      then show False using g by simp
    qed
    then obtain j where j: "bit ?g j" "j < 32" by blast
    then have "31 - j \<in> set (attrs32 ?g 32)" by (simp add: attrs_set)
    then show ?thesis by (cases "attrs32 ?g 32") auto
  qed
  have n: "NumberOfOnes (ucast ?g) = of_nat ?l" using arg_cong [OF NumberOfOnes_attrs [of ?g], of "of_nat :: nat \<Rightarrow> 32 word"] by simp
  have m: "SetOneBit32 0 (Mlo32 ?g) = Some (drop_bit (unat (Mlo32 ?g)) MLB32)" using Mlo32_bound [OF g] by (simp add: SetOneBit32_def)
  have "returns (GetParent_from (parent_masks ?g) avp (of_nat ?l) (no_candidate, no_candidate, no_candidate)) (searched avp (parent_masks ?g) ?l)"
    using pos l by (intro GetParent_from_searched [OF f]) (simp_all add: no_candidate_def)
  then show ?thesis unfolding GetParent_def n m parent_masks_def by (simp add: Let_def)
qed

section \<open>The parent\<close>

text \<open>C17: \<open>GetParent\<close> finds a view to compute the next view from whenever there is one: its result is \<open>noneParent\<close> exactly
  when no view that was made has all the attributes; otherwise it takes a view of the level with the fewest attributes that has one.
  The kind is the best that a view of this level qualifies for (a prefixed parent before one with a shared sort, before
  any view with all the attributes), the view taken qualifies for this kind and has the fewest rows of those that do, and its
  level, offset, rows and attributes are noted.\<close>

theorem parent_found:
  assumes "layers_fit avp" "groupby avp \<noteq> 0" "length (attrs32 (groupby avp) 32) \<le> unat (nTopDims avp)"
  shows "returns (GetParent avp (groupby avp)) (\<lambda>(kind, d).
    (kind = noneParent) = (\<forall>m\<in>{length (attrs32 (groupby avp) 32)..unat (nTopDims avp)}. \<forall>i<pop avp m. \<not> covers avp (entry avp m i)) \<and>
    (if kind = noneParent then d = avp
     else \<exists>m\<in>{length (attrs32 (groupby avp) 32)..unat (nTopDims avp)}.
       (\<forall>m'\<in>{length (attrs32 (groupby avp) 32)..<m}. \<forall>j<pop avp m'. \<not> covers avp (entry avp m' j)) \<and>
       kind = (if \<exists>j<pop avp m. qualifies avp (parent_masks (groupby avp)) prefixedParent (entry avp m j) then prefixedParent
         else if \<exists>j<pop avp m. qualifies avp (parent_masks (groupby avp)) sharedSortParent (entry avp m j) then sharedSortParent
         else smallestParent) \<and>
       (\<exists>i<pop avp m. d = taken avp m i \<and> qualifies avp (parent_masks (groupby avp)) kind (entry avp m i) \<and>
         (\<forall>j<pop avp m. qualifies avp (parent_masks (groupby avp)) kind (entry avp m j) \<longrightarrow> jp_nRows (entry avp m i) \<le> jp_nRows (entry avp m j)))))"
  (is "returns _ ?P")
proof (rule returns_mono [OF GetParent_searched [OF assms]])
  let ?l = "length (attrs32 (groupby avp) 32)" and ?M = "parent_masks (groupby avp)"
  fix x assume s: "searched avp ?M ?l x"
  obtain kind d where x: "x = (kind, d)" by (cases x)
  show "?P x"
  proof (cases "kind = noneParent")
    case True
    then show ?thesis using s unfolding x searched_def by (auto simp: no_cover_def)
  next
    case False
    then obtain m i where m: "?l \<le> m" "m \<le> unat (nTopDims avp)" "\<forall>m'. ?l \<le> m' \<and> m' < m \<longrightarrow> no_cover avp m'" "kind = best_kind avp ?M m"
      "smallest avp m (qualifies avp ?M kind) (pop avp m) i" "d = taken avp m i"
      using s unfolding x searched_def by (simp only: prod.case if_False) blast
    have c: "i < pop avp m" "qualifies avp ?M kind (entry avp m i)"
      "\<forall>j<pop avp m. qualifies avp ?M kind (entry avp m j) \<longrightarrow> jp_nRows (entry avp m i) \<le> jp_nRows (entry avp m j)"
      using m(5) unfolding smallest_def by blast+
    have ml: "m \<in> {?l..unat (nTopDims avp)}" using m(1,2) by simp
    have "covers avp (entry avp m i)" using c(2) by (simp add: qualifies_def)
    then have n: "\<not> (\<forall>m\<in>{?l..unat (nTopDims avp)}. \<forall>i<pop avp m. \<not> covers avp (entry avp m i))" using ml c(1) by blast
    have "\<forall>m'\<in>{?l..<m}. \<forall>j<pop avp m'. \<not> covers avp (entry avp m' j)" using m(3) by (simp add: no_cover_def)
    moreover have "\<exists>i<pop avp m. d = taken avp m i \<and> qualifies avp ?M kind (entry avp m i) \<and>
      (\<forall>j<pop avp m. qualifies avp ?M kind (entry avp m j) \<longrightarrow> jp_nRows (entry avp m i) \<le> jp_nRows (entry avp m j))"
      using c m(6) by blast
    moreover note m(4) [unfolded best_kind_def]
    ultimately show ?thesis unfolding x prod.case if_not_P [OF False] by (intro conjI bexI [OF _ ml]) (use False n in \<open>simp only: simp_thms\<close>)
  qed
qed

text \<open>The view of both attributes was made and has two rows; it is the parent of the view of the first attribute, and a prefixed one.\<close>

definition pair_made :: ADC_VIEW_CNTL where
  "pair_made = (small_view [])\<lparr>groupby := 0x80000000,
     jpp := replicate 3 \<lparr>jp_grpb = 0, jp_nv = 0, jp_nRows = 0, jp_viewOffset = 0\<rparr> @ [\<lparr>jp_grpb = 0xC0000000, jp_nv = 2, jp_nRows = 2, jp_viewOffset = 0\<rparr>],
     lpp := [\<lparr>layerIndex = 0, layerQuantityLimit = 0, layerCurrentPopulation = 0\<rparr>, \<lparr>layerIndex = 1, layerQuantityLimit = 2, layerCurrentPopulation = 0\<rparr>,
       \<lparr>layerIndex = 3, layerQuantityLimit = 1, layerCurrentPopulation = 1\<rparr>]\<rparr>"

theorem parent_found_witness: "returns (GetParent pair_made (groupby pair_made)) (\<lambda>x. x = (prefixedParent, taken pair_made 2 0))"
proof -
  have f: "unat (nTopDims pair_made) = 2" "length (lpp pair_made) = 3" "length (jpp pair_made) = 4" "slot pair_made 1 0 = 1" "pop pair_made 1 = 0"
    "slot pair_made 2 i = 3 + i" "pop pair_made 2 = 1" "groupby pair_made = 0x80000000" for i
    by (simp_all add: pair_made_def small_view_def slot_def pop_def)
  have l: "0 < l \<and> l \<le> (2 :: nat) \<longleftrightarrow> l = 1 \<or> l = 2" for l by auto
  have fit: "layers_fit pair_made" unfolding layers_fit_def f(1-3) l using f(4-7) by auto
  have g: "groupby pair_made \<noteq> 0" unfolding f by simp
  have at: "attrs32 (groupby pair_made) 32 = [0]" unfolding f by (simp add: attrs32_def upt_rec)
  have p: "qualifies pair_made (parent_masks (groupby pair_made)) prefixedParent (entry pair_made 2 0)"
    unfolding f(8) by code_simp
  have "covers pair_made (entry pair_made 2 0)" unfolding covers_def entry_def f by (simp add: pair_made_def nth_append)
  then have c: "\<not> (\<forall>m\<in>{1..2}. \<forall>i<pop pair_made m. \<not> covers pair_made (entry pair_made m i))" using f(7) by (intro notI) (drule bspec [of _ _ 2], simp_all)
  have "length (attrs32 (groupby pair_made) 32) \<le> unat (nTopDims pair_made)" unfolding at f(1) by simp
  from parent_found [OF fit g this, unfolded at f(1)] show ?thesis
  proof (rule returns_mono, goal_cases)
    case (1 x)
    obtain kind d where x: "x = (kind, d)" by (cases x)
    from 1 have k: "kind \<noteq> noneParent" using c unfolding x by auto
    from 1 obtain m i where m: "m \<in> {1..2}" "i < pop pair_made m" "d = taken pair_made m i"
      "kind = (if \<exists>j<pop pair_made m. qualifies pair_made (parent_masks (groupby pair_made)) prefixedParent (entry pair_made m j) then prefixedParent
         else if \<exists>j<pop pair_made m. qualifies pair_made (parent_masks (groupby pair_made)) sharedSortParent (entry pair_made m j) then sharedSortParent
         else smallestParent)"
      using k unfolding x by (simp only: prod.case if_False One_nat_def list.size add_0 add_0_right) blast
    have "m = 2" using m(1,2) f(5) by (cases "m = 1") auto
    then have i: "m = 2" "i = 0" using m(2) f(7) by simp_all
    then show ?case using m(3,4) p f(7) unfolding x by auto
  qed
qed

end
