(* ===== verification/Dc_Views.thy ===== *)
theory Dc_Views
  imports Dc_Parents
begin

text \<open>
  What the views of a cube are, and one turn of \<open>ComputeGivenGroupbys\<close>: the view of a set of attributes is the group-by of
  the input, also when it is made from another view.
\<close>

unbundle bit_operations_syntax

section \<open>The group-by of the input\<close>

definition key_of :: "nat list \<Rightarrow> 32 word list \<Rightarrow> 32 word list" where
  "key_of A ks = List.map (\<lambda>i. ks ! i) A"

definition view_rows :: "nat \<Rightarrow> nat list \<Rightarrow> row list \<Rightarrow> row list" where
  "view_rows m A rows = group_rows m (List.map (on_key (key_of A)) rows)"

lemma sel_key_selects:
  assumes "selects A sel" "\<forall>i\<in>set A. i < 2 ^ 31"
  shows "sel_key sel (length A) ks = key_of A ks"
proof (rule nth_equalityI)
  fix j assume j: "j < length (sel_key sel (length A) ks)"
  then have "A ! j < 2 ^ 31" using assms(2) by simp
  then have "unat (of_nat (Suc (A ! j)) :: 32 word) = Suc (A ! j)" by (intro small_word) simp
  then show "sel_key sel (length A) ks ! j = key_of A ks ! j"
    using j selects_nth [OF assms(1)] by (simp add: sel_key_def key_of_def del: of_nat_Suc)
qed (simp add: key_of_def)

lemma on_key_on_key: "on_key f (on_key g a) = on_key (\<lambda>k. f (g k)) a"
  by (simp add: on_key_def)

text \<open>A view of a view.\<close>

lemma view_of_view:
  assumes "\<forall>a\<in>set rows. length (fst a) = m" "\<And>ks. f (key_of B ks) = key_of A ks"
  shows "group_rows m (List.map (on_key f) (view_rows m B rows)) = view_rows m A rows"
  using group_group [of "List.map (on_key (key_of B)) rows" m f "[]"] assms by (simp add: view_rows_def o_def on_key_on_key)

lemma key_of_places:
  assumes "g AND par = g" "n \<le> 32"
  shows "common par g n = attrs32 g n" "key_of (places par (attrs32 g n)) (key_of (attrs32 par n) ks) = key_of (attrs32 g n) ks"
proof -
  have sub: "bit par i" if "bit g i" for i using assms(1) that by (metis bit_and_iff)
  show "common par g n = attrs32 g n" unfolding common_def attrs32_def using sub by (intro filter_cong) auto
  show "key_of (places par (attrs32 g n)) (key_of (attrs32 par n) ks) = key_of (attrs32 g n) ks"
  proof (rule nth_equalityI)
    fix j assume j: "j < length (key_of (places par (attrs32 g n)) (key_of (attrs32 par n) ks))"
    let ?i = "attrs32 g n ! j"
    have "?i \<in> set (attrs32 g n)" using j by (simp add: key_of_def)
    then have i: "?i < n" "bit par (31 - ?i)" using sub by (auto simp: attrs_set)
    then have "attrs32 par n ! length (attrs32 par ?i) = ?i" "length (attrs32 par ?i) < length (attrs32 par n)"
      unfolding attrs32_def by (rule filter_upt)+
    then show "key_of (places par (attrs32 g n)) (key_of (attrs32 par n) ks) ! j = key_of (attrs32 g n) ks ! j"
      using j by (simp add: key_of_def places_def)
  qed (simp add: key_of_def)
qed

lemma view_rows_facts:
  assumes "rec_rows m d rows"
  shows "rec_rows m (length A) (view_rows m A rows)" "length (view_rows m A rows) \<le> length rows"
    "\<And>i. i < m \<Longrightarrow> asum (view_rows m A rows) i \<le> asum rows i"
proof -
  have r: "rec_rows m (length A) (List.map (on_key (key_of A)) rows)" using assms by (auto simp: rec_rows_def key_of_def)
  then show "rec_rows m (length A) (view_rows m A rows)" unfolding view_rows_def by (rule rec_rows_group)
  show "length (view_rows m A rows) \<le> length rows" using group_length_le [of m "List.map (on_key (key_of A)) rows"] by (simp add: view_rows_def)
  have "asum (List.map (on_key (key_of A)) rows) i = asum rows i" for i by (induction rows) simp_all
  then show "\<And>i. i < m \<Longrightarrow> asum (view_rows m A rows) i \<le> asum rows i"
    using asum_group [of "List.map (on_key (key_of A)) rows" m] r by (simp add: view_rows_def rec_rows_def)
qed

section \<open>The start of a view\<close>

lemma zero_meas_zeros:
  assumes "unat n \<le> length ms"
  shows "returns (zero_meas n ms) (\<lambda>ms'. length ms' = length ms \<and> (\<forall>i<unat n. ms' ! i = 0))"
proof -
  let ?I = "\<lambda>k ms'. length ms' = length ms \<and> (\<forall>i<nat k. ms' ! i = (0 :: int))"
  have "returns (zero_meas n ms) (?I (uint n))"
    unfolding zero_meas_def
  proof (rule returns_rangeI [where I = ?I])
    fix k :: int and ms' assume k: "0 \<le> k" "k < uint n" and I: "?I k ms'"
    obtain j where j: "k = int j" using nonneg_int_cases [OF k(1)] by blast
    have "j < length ms" "nat (k + 1) = Suc j" "nat (1 + int j) = Suc j" using k(2) assms by (simp_all add: j)
    then show "returns (aset ms' k 0) (?I (k + 1))" using I by (auto simp: j less_Suc_eq nth_list_update)
  qed simp_all
  then show ?thesis by simp
qed

lemma copy_selection:
  assumes "unat n \<le> length s"
  shows "for_range 0 (uint n) (\<lambda>i s'. do { v \<leftarrow> aget s i; aset s' i v }) s = Some s"
proof -
  have "returns (for_range 0 (uint n) (\<lambda>i s'. do { v \<leftarrow> aget s i; aset s' i v }) s) (\<lambda>s'. s' = s)"
  proof (rule returns_rangeI [where I = "\<lambda>_ s'. s' = s"])
    fix k :: int and s' assume k: "0 \<le> k" "k < uint n" and I: "s' = s"
    obtain j where j: "k = int j" using nonneg_int_cases [OF k(1)] by blast
    have "j < length s" using k(2) assms by (simp add: j)
    then show "returns (do { v \<leftarrow> aget s k; aset s' k v }) (\<lambda>s'. s' = s)" by (simp add: j I)
  qed simp_all
  then show ?thesis by (simp add: returns_iff)
qed

text \<open>The state in which the view of the \<open>k\<close> selected attributes is made, from the input or from the parent.\<close>

definition from_input :: "ADC_VIEW_CNTL \<Rightarrow> 32 word \<Rightarrow> int list \<Rightarrow> ADC_VIEW_CNTL" where
  "from_input avp k ms = avp\<lparr>nv := k, mSums := ms, outRecSize := GetRecSize k (nmv avp), numberOfChunks := 0, fromParent := 0, nViewRows := 0,
     ndv := nTopDims avp, nRowsToRead := nInputRecs avp, inpRecSize := GetRecSize (nTopDims avp) (nmv avp)\<rparr>"

definition from_view :: "ADC_VIEW_CNTL \<Rightarrow> 32 word \<Rightarrow> int list \<Rightarrow> ADC_VIEW_CNTL" where
  "from_view avp k ms = avp\<lparr>nv := k, mSums := ms, outRecSize := GetRecSize k (nmv avp), numberOfChunks := 0, fromParent := 1, nViewRows := 0,
     ndv := smallestParentLevel avp, viewFile := seek_set (nat (viewOffset avp)) (viewFile avp), nRowsToRead := nParentViewRows avp,
     inpRecSize := GetRecSize (smallestParentLevel avp) (nmv avp)\<rparr>"

lemma InitAdcViewCntl_from:
  assumes "unat (nmv avp) \<le> length (mSums avp)" "unat k \<le> length (selection avp)"
  shows "returns (InitAdcViewCntl avp k (selection avp) 0) (\<lambda>avp'. \<exists>ms. length ms = length (mSums avp) \<and> (\<forall>i<unat (nmv avp). ms ! i = 0) \<and> avp' = from_input avp k ms)"
    "0 \<le> viewOffset avp \<Longrightarrow> returns (InitAdcViewCntl avp k (selection avp) 1) (\<lambda>avp'. \<exists>ms. length ms = length (mSums avp) \<and> (\<forall>i<unat (nmv avp). ms ! i = 0) \<and> avp' = from_view avp k ms)"
proof -
  obtain ms where ms: "zero_meas (nmv avp) (mSums avp) = Some ms" "length ms = length (mSums avp)" "\<forall>i<unat (nmv avp). ms ! i = 0"
    using zero_meas_zeros [OF assms(1)] by (auto elim!: returnsE)
  show "returns (InitAdcViewCntl avp k (selection avp) 0) (\<lambda>avp'. \<exists>ms. length ms = length (mSums avp) \<and> (\<forall>i<unat (nmv avp). ms ! i = 0) \<and> avp' = from_input avp k ms)"
    "0 \<le> viewOffset avp \<Longrightarrow> returns (InitAdcViewCntl avp k (selection avp) 1) (\<lambda>avp'. \<exists>ms. length ms = length (mSums avp) \<and> (\<forall>i<unat (nmv avp). ms ! i = 0) \<and> avp' = from_view avp k ms)"
    using ms(2,3) by (simp_all add: InitAdcViewCntl_def Let_def ms(1) copy_selection [OF assms(2)]) (rule exI [of _ ms], simp add: from_input_def from_view_def)+
qed

section \<open>The pool of the views that are made\<close>

lemma aset_int: "i < length xs \<Longrightarrow> aset xs (int i) v = Some (xs[i := v])"
  by (simp add: aset_def)

definition lim :: "ADC_VIEW_CNTL \<Rightarrow> nat \<Rightarrow> nat" where
  "lim avp l = unat (layerQuantityLimit (lpp avp ! l))"

text \<open>The levels have room for their views, and do not overlap.\<close>

definition layers_apart :: "ADC_VIEW_CNTL \<Rightarrow> bool" where
  "layers_apart avp \<longleftrightarrow> unat (nTopDims avp) < length (lpp avp) \<and> unat (nTopDims avp) < 2 ^ 32 - 1 \<and> length (jpp avp) < 2 ^ 32 \<and>
     (\<forall>l. 0 < l \<and> l \<le> unat (nTopDims avp) \<longrightarrow> slot avp l (lim avp l) \<le> length (jpp avp)) \<and>
     (\<forall>l l'. 0 < l \<and> l < l' \<and> l' \<le> unat (nTopDims avp) \<longrightarrow> slot avp l (lim avp l) \<le> slot avp l' 0)"

lemma slot_plus: "slot avp l i = slot avp l 0 + i"
  by (simp add: slot_def)

lemma slots_differ:
  assumes a: "layers_apart avp" and l: "0 < l" "l \<le> unat (nTopDims avp)" "0 < l'" "l' \<le> unat (nTopDims avp)" "i < lim avp l" "i' < lim avp l'"
    and ne: "l \<noteq> l' \<or> i \<noteq> i'"
  shows "slot avp l i \<noteq> slot avp l' i'"
proof (cases l l' rule: linorder_cases)
  case less
  then have "slot avp l (lim avp l) \<le> slot avp l' 0" using a l unfolding layers_apart_def by blast
  then show ?thesis using l(5) slot_plus [of avp l "lim avp l"] slot_plus [of avp l i] slot_plus [of avp l' i'] by linarith
next
  case greater
  then have "slot avp l' (lim avp l') \<le> slot avp l 0" using a l unfolding layers_apart_def by blast
  then show ?thesis using l(6) slot_plus [of avp l' "lim avp l'"] slot_plus [of avp l i] slot_plus [of avp l' i'] by linarith
qed (use ne in \<open>simp add: slot_def\<close>)

lemma apart_fit:
  assumes "layers_apart avp" "\<forall>l. 0 < l \<and> l \<le> unat (nTopDims avp) \<longrightarrow> pop avp l \<le> lim avp l"
  shows "layers_fit avp"
  unfolding layers_fit_def
proof (intro conjI allI impI)
  fix l assume l: "0 < l \<and> l \<le> unat (nTopDims avp)"
  then have "slot avp l (lim avp l) \<le> length (jpp avp)" using assms(1) unfolding layers_apart_def by blast
  then show "slot avp l (pop avp l) \<le> length (jpp avp)" using assms(2) l by (force simp: slot_def)
qed (use assms(1) in \<open>unfold layers_apart_def, blast+\<close>)

text \<open>A view is added to the pool.\<close>

definition added :: "ADC_VIEW_CNTL \<Rightarrow> ADC_VIEW_CNTL" where
  "added avp = (let l = unat (nv avp); y = lpp avp ! l in
     avp\<lparr>jpp := (jpp avp)[slot avp l (pop avp l) := \<lparr>jp_grpb = groupby avp, jp_nv = nv avp, jp_nRows = nViewRows avp, jp_viewOffset = accViewFileOffset avp\<rparr>],
       lpp := (lpp avp)[l := y\<lparr>layerCurrentPopulation := layerCurrentPopulation y + 1\<rparr>]\<rparr>)"

lemma added_layers:
  "unat (nv avp) < length (lpp avp) \<Longrightarrow> slot (added avp) l i = slot avp l i" "unat (nv avp) < length (lpp avp) \<Longrightarrow> lim (added avp) l = lim avp l"
  "nTopDims (added avp) = nTopDims avp" "length (lpp (added avp)) = length (lpp avp)" "length (jpp (added avp)) = length (jpp avp)"
  by (auto simp: slot_def lim_def added_def Let_def nth_list_update)

lemma layers_apart_added: "unat (nv avp) < length (lpp avp) \<Longrightarrow> layers_apart (added avp) = layers_apart avp"
  by (simp add: layers_apart_def added_layers)

lemma added_pool:
  assumes a: "layers_apart avp" and p: "\<forall>l. 0 < l \<and> l \<le> unat (nTopDims avp) \<longrightarrow> pop avp l \<le> lim avp l"
    and l: "0 < unat (nv avp)" "unat (nv avp) \<le> unat (nTopDims avp)" "pop avp (unat (nv avp)) < lim avp (unat (nv avp))"
  shows "JobPoolUpdate avp = Some (added avp)" "pop (added avp) l' = (if l' = unat (nv avp) then Suc (pop avp l') else pop avp l')"
    "entry (added avp) (unat (nv avp)) (pop avp (unat (nv avp))) = \<lparr>jp_grpb = groupby avp, jp_nv = nv avp, jp_nRows = nViewRows avp, jp_viewOffset = accViewFileOffset avp\<rparr>"
    "\<And>k i. 0 < k \<Longrightarrow> k \<le> unat (nTopDims avp) \<Longrightarrow> i < pop avp k \<Longrightarrow> entry (added avp) k i = entry avp k i"
proof -
  let ?l = "unat (nv avp)" and ?y = "lpp avp ! unat (nv avp)"
  have n: "unat (nTopDims avp) < length (lpp avp)" "length (jpp avp) < 2 ^ 32" "slot avp ?l (lim avp ?l) \<le> length (jpp avp)"
    using a l(1,2) unfolding layers_apart_def by blast+
  have ll: "?l < length (lpp avp)" using n(1) l(2) by linarith
  have s: "slot avp ?l (pop avp ?l) < length (jpp avp)" using n(3) l(3) by (simp add: slot_def)
  have w: "uint (layerIndex ?y + layerCurrentPopulation ?y) = int (slot avp ?l (pop avp ?l))"
  proof -
    have "layerIndex ?y + layerCurrentPopulation ?y = (of_nat (slot avp ?l (pop avp ?l)) :: 32 word)" by (simp add: slot_def pop_def)
    moreover have "slot avp ?l (pop avp ?l) < 2 ^ 32" using s n(2) by linarith
    ultimately show ?thesis by (simp only: small_word(2))
  qed
  have "aget (lpp avp) (uint (nv avp)) = Some ?y" "aset (lpp avp) (uint (nv avp)) v = Some ((lpp avp)[?l := v])" for v
    using aget_int [OF ll] aset_int [OF ll] by simp_all
  then show "JobPoolUpdate avp = Some (added avp)"
    unfolding JobPoolUpdate_def Let_def using aset_int [OF s] by (simp add: w added_def Let_def del: aget_eq_Some aset_eq_Some)
  have "unat (layerCurrentPopulation ?y + 1) = Suc (pop avp ?l)"
  proof -
    have "Suc (pop avp ?l) < 2 ^ 32" using l(3) unsigned_less [of "layerQuantityLimit ?y", where ?'a = nat] by (simp add: lim_def)
    then show ?thesis by (simp add: pop_def unat_word_ariths(1))
  qed
  then show "pop (added avp) l' = (if l' = ?l then Suc (pop avp l') else pop avp l')" using ll by (simp add: pop_def added_def Let_def)
  show "entry (added avp) ?l (pop avp ?l) = \<lparr>jp_grpb = groupby avp, jp_nv = nv avp, jp_nRows = nViewRows avp, jp_viewOffset = accViewFileOffset avp\<rparr>"
    using s unfolding entry_def added_layers(1) [OF ll] by (simp add: added_def Let_def)
  fix k i assume k: "0 < k" "k \<le> unat (nTopDims avp)" "i < pop avp k"
  have "slot avp ?l (pop avp ?l) \<noteq> slot avp k i"
    by (rule slots_differ [OF a l(1,2) k(1,2) l(3)]) (use p k in \<open>auto intro: less_le_trans\<close>)
  then show "entry (added avp) k i = entry avp k i" unfolding entry_def added_layers(1) [OF ll] by (simp add: added_def Let_def)
qed

end
