(* ===== verification/Dc_Cubes.thy ===== *)
theory Dc_Cubes
  imports Dc_Views
begin

text \<open>
  \<open>ComputeGivenGroupbys\<close> as a whole: the file of the views holds the group-by of the input for every set of attributes in the
  file of the group-bys, in its order, and the pool knows where they are.
\<close>

unbundle bit_operations_syntax

section \<open>The views of a cube\<close>

definition attrs_of :: "ADC_VIEW_CNTL \<Rightarrow> 64 word \<Rightarrow> nat list" where
  "attrs_of avp raw = attrs (swap8 raw) (unat (nTopDims avp))"

definition view_of :: "ADC_VIEW_CNTL \<Rightarrow> row list \<Rightarrow> 64 word \<Rightarrow> row list" where
  "view_of avp rows raw = view_rows (unat (nmv avp)) (attrs_of avp raw) rows"

definition views_of :: "ADC_VIEW_CNTL \<Rightarrow> row list \<Rightarrow> 64 word list \<Rightarrow> row list" where
  "views_of avp rows raws = concat (List.map (view_of avp rows) raws)"

lemma views_of_simps [simp]: "views_of avp rows [] = []" "views_of avp rows (r # rs) = view_of avp rows r @ views_of avp rows rs"
  "views_of avp rows (rs @ rs') = views_of avp rows rs @ views_of avp rows rs'"
  by (simp_all add: views_of_def)

text \<open>The largest size of a view.\<close>

definition view_max :: "ADC_VIEW_CNTL \<Rightarrow> row list \<Rightarrow> nat" where
  "view_max avp rows = length rows * (4 * unat (nTopDims avp) + 8 * unat (nmv avp))"

text \<open>Bounds on the input and on the memory.\<close>

definition cube_sizes :: "ADC_VIEW_CNTL \<Rightarrow> row list \<Rightarrow> bool" where
  "cube_sizes avp rows \<longleftrightarrow> 0 < nTopDims avp \<and> nTopDims avp \<le> 20 \<and> 0 < nmv avp \<and> nmv avp \<le> 4 \<and> unat (nInputRecs avp) = length rows \<and> length rows < 2 ^ 32 - 1 \<and>
     rec_rows (unat (nmv avp)) (unat (nTopDims avp)) rows \<and> (\<forall>i<unat (nmv avp). int (length rows) * asum rows i < 2 ^ 63) \<and>
     1024 * (4 * unat (nTopDims avp) + 8 * unat (nmv avp)) \<le> unat (memoryLimitv avp) \<and> length rows < 1023 * (unat (memoryLimitv avp) div 144) \<and> view_max avp rows < 2 ^ 32"

text \<open>What holds between two views.\<close>

definition cube_state :: "ADC_VIEW_CNTL \<Rightarrow> row list \<Rightarrow> bool" where
  "cube_state avp rows \<longleftrightarrow> unat (nTopDims avp) \<le> length (selection avp) \<and> unat (nmv avp) \<le> length (mSums avp) \<and> unat (nmv avp) \<le> length (checksums avp) \<and>
     unat (nmv avp) \<le> length (totchs avp) \<and> length (chunksParams avp) = 1024 \<and> tree_kept avp (tree avp) \<and>
     fpos (fileOfChunks avp) = 0 \<and> flen (fileOfChunks avp) \<le> froom (fileOfChunks avp) \<and> froom (fileOfChunks avp) < 2 ^ 63 \<and>
     view_max avp rows \<le> froom (fileOfChunks avp) \<and>
     fpos (inpf avp) = 0 \<and> run_at (inpf avp) 0 rows \<and> rows_bytes rows \<le> flen (inpf avp) \<and> layers_apart avp"

text \<open>The sets of attributes still fit into their levels, and the file has room for all views.\<close>

definition groupbys_ok :: "ADC_VIEW_CNTL \<Rightarrow> row list \<Rightarrow> 64 word list \<Rightarrow> bool" where
  "groupbys_ok avp rows raws \<longleftrightarrow> (\<forall>r\<in>set raws. attrs_of avp r \<noteq> []) \<and>
     (\<forall>l. 0 < l \<and> l \<le> unat (nTopDims avp) \<longrightarrow> length (filter (\<lambda>r. length (attrs_of avp r) = l) raws) \<le> lim avp l) \<and>
     length raws * view_max avp rows \<le> froom (viewFile avp) \<and> froom (viewFile avp) < 2 ^ 63 \<and>
     int (length raws) * (int (length rows) * measbound) < 2 ^ 63"

section \<open>The views that are made\<close>

definition recorded :: "ADC_VIEW_CNTL \<Rightarrow> row list \<Rightarrow> 64 word list \<Rightarrow> nat \<Rightarrow> JOB_POOL \<Rightarrow> bool" where
  "recorded avp rows raws l j \<longleftrightarrow> (\<exists>pre r post. raws = pre @ r # post \<and> length (attrs_of avp r) = l \<and> jp_grpb j = top_bits (unat (nTopDims avp)) (swap8 r) \<and>
     unat (jp_nRows j) = length (view_of avp rows r) \<and> jp_viewOffset j = int (rows_bytes (views_of avp rows pre)))"

definition pool_ok :: "ADC_VIEW_CNTL \<Rightarrow> row list \<Rightarrow> 64 word list \<Rightarrow> bool" where
  "pool_ok avp rows raws \<longleftrightarrow> (\<forall>l. 0 < l \<and> l \<le> unat (nTopDims avp) \<longrightarrow> pop avp l = length (filter (\<lambda>r. length (attrs_of avp r) = l) raws) \<and>
     (\<forall>i<pop avp l. recorded avp rows raws l (entry avp l i)))"

definition sizes_of :: "ADC_VIEW_CNTL \<Rightarrow> row list \<Rightarrow> 64 word list \<Rightarrow> (32 word \<times> 32 word) list" where
  "sizes_of avp rows raws = List.map (\<lambda>r. (ucast (drop_bit (64 - unat (nTopDims avp)) (swap8 r)), of_nat (length (view_of avp rows r)))) raws"

text \<open>The sum of the checksums, when there is one measure and it is not negative.\<close>

definition total_check :: "ADC_VIEW_CNTL \<Rightarrow> row list \<Rightarrow> 64 word list \<Rightarrow> int" where
  "total_check avp rows raws = (\<Sum>r\<leftarrow>raws. checks_s 0 (view_of avp rows r) 0 0)"

definition views_made :: "ADC_VIEW_CNTL \<Rightarrow> row list \<Rightarrow> 64 word list \<Rightarrow> bool" where
  "views_made avp rows raws \<longleftrightarrow> run_at (viewFile avp) 0 (views_of avp rows raws) \<and> flen (viewFile avp) = rows_bytes (views_of avp rows raws) \<and>
     accViewFileOffset avp = int (rows_bytes (views_of avp rows raws)) \<and> pool_ok avp rows raws \<and> viewSizesFile avp = sizes_of avp rows raws \<and>
     (\<forall>i<unat (nmv avp). \<bar>totchs avp ! i\<bar> \<le> int (length raws) * (int (length rows) * measbound)) \<and>
     (nmv avp = 1 \<and> (\<forall>a\<in>set rows. 0 \<le> fst a ! 0) \<longrightarrow> totchs avp ! 0 = total_check avp rows raws)"

definition same_cube :: "ADC_VIEW_CNTL \<Rightarrow> ADC_VIEW_CNTL \<Rightarrow> bool" where
  "same_cube avp avp' \<longleftrightarrow> nTopDims avp' = nTopDims avp \<and> nmv avp' = nmv avp \<and> nInputRecs avp' = nInputRecs avp \<and> memoryLimitv avp' = memoryLimitv avp \<and>
     froom (viewFile avp') = froom (viewFile avp) \<and> (\<forall>l. lim avp' l = lim avp l) \<and> nViewLimit avp' = nViewLimit avp \<and> adcViewSizesFile avp' = adcViewSizesFile avp"

lemma same_cube_views:
  assumes "same_cube avp avp'"
  shows "attrs_of avp' = attrs_of avp" "view_of avp' = view_of avp" "views_of avp' = views_of avp" "view_max avp' = view_max avp" "cube_sizes avp' = cube_sizes avp"
    "groupbys_ok avp' = groupbys_ok avp" "sizes_of avp' = sizes_of avp" "total_check avp' = total_check avp"
proof -
  have e: "nTopDims avp' = nTopDims avp" "nmv avp' = nmv avp" "nInputRecs avp' = nInputRecs avp" "memoryLimitv avp' = memoryLimitv avp" "froom (viewFile avp') = froom (viewFile avp)"
    "\<And>l. lim avp' l = lim avp l" using assms by (simp_all add: same_cube_def)
  show a: "attrs_of avp' = attrs_of avp" by (simp add: attrs_of_def fun_eq_iff e)
  show v: "view_of avp' = view_of avp" by (simp add: view_of_def fun_eq_iff e a)
  show "views_of avp' = views_of avp" by (simp add: views_of_def fun_eq_iff v)
  show m: "view_max avp' = view_max avp" by (simp add: view_max_def fun_eq_iff e)
  show "cube_sizes avp' = cube_sizes avp" by (simp add: cube_sizes_def fun_eq_iff e m)
  show "groupbys_ok avp' = groupbys_ok avp" by (simp add: groupbys_ok_def fun_eq_iff e a m)
  show "sizes_of avp' = sizes_of avp" by (simp add: sizes_of_def fun_eq_iff e v)
  show "total_check avp' = total_check avp" by (simp add: total_check_def fun_eq_iff v)
qed

section \<open>Facts about sizes\<close>

lemma cube_sizesD:
  assumes "cube_sizes avp rows"
  shows "0 < unat (nTopDims avp)" "unat (nTopDims avp) \<le> 20" "0 < unat (nmv avp)" "unat (nmv avp) \<le> 4" "unat (nInputRecs avp) = length rows" "length rows < 2 ^ 32 - 1"
    "rec_rows (unat (nmv avp)) (unat (nTopDims avp)) rows" "view_max avp rows < 2 ^ 32" "\<forall>i<unat (nmv avp). int (length rows) * asum rows i < 2 ^ 63"
    "1024 * (4 * unat (nTopDims avp) + 8 * unat (nmv avp)) \<le> unat (memoryLimitv avp)" "length rows < 1023 * (unat (memoryLimitv avp) div 144)"
  using assms by (simp_all add: cube_sizes_def word_le_nat_alt unat_gt_0 word_gt_0)

lemma attrs_of_length: "length (attrs_of avp r) \<le> unat (nTopDims avp)"
  unfolding attrs_of_def by (rule attrs_length)

lemma view_of_facts:
  assumes "cube_sizes avp rows"
  shows "rec_rows (unat (nmv avp)) (length (attrs_of avp r)) (view_of avp rows r)" "length (view_of avp rows r) \<le> length rows"
    "\<And>i. i < unat (nmv avp) \<Longrightarrow> asum (view_of avp rows r) i \<le> asum rows i"
    "rows_bytes (view_of avp rows r) = length (view_of avp rows r) * (4 * length (attrs_of avp r) + 8 * unat (nmv avp))"
    "rows_bytes (view_of avp rows r) \<le> view_max avp rows" "solid (view_of avp rows r)"
proof -
  note c = cube_sizesD [OF assms]
  note v = view_rows_facts [where A = "attrs_of avp r", OF c(7)]
  show r: "rec_rows (unat (nmv avp)) (length (attrs_of avp r)) (view_of avp rows r)" and l: "length (view_of avp rows r) \<le> length rows"
    and "\<And>i. i < unat (nmv avp) \<Longrightarrow> asum (view_of avp rows r) i \<le> asum rows i"
    using v by (simp_all add: view_of_def)
  show b: "rows_bytes (view_of avp rows r) = length (view_of avp rows r) * (4 * length (attrs_of avp r) + 8 * unat (nmv avp))"
    by (rule rec_rows_bytes(1) [OF r])
  show "rows_bytes (view_of avp rows r) \<le> view_max avp rows"
    unfolding b view_max_def using l attrs_of_length [of avp r] by (intro mult_le_mono) simp_all
  show "solid (view_of avp rows r)" by (rule rec_rows_solid [OF r c(3)])
qed

lemma views_of_bytes:
  assumes "cube_sizes avp rows"
  shows "rows_bytes (views_of avp rows raws) \<le> length raws * view_max avp rows" "solid (views_of avp rows raws)"
proof -
  show "rows_bytes (views_of avp rows raws) \<le> length raws * view_max avp rows"
    by (induction raws) (simp_all add: add_mono view_of_facts(5) [OF assms])
  show "solid (views_of avp rows raws)"
    by (induction raws) (use view_of_facts(6) [OF assms] in \<open>auto simp: solid_def\<close>)
qed

section \<open>A view is ready to be made\<close>

lemma asum_small:
  assumes "int (length rows) * asum rows i < 2 ^ 63" "asum rs i \<le> asum rows i"
  shows "asum rs i < 2 ^ 63"
proof (cases "rows = []")
  case True
  then show ?thesis using assms(2) by simp
next
  case False
  then have "1 * asum rows i \<le> int (length rows) * asum rows i" using asum_nonneg by (intro mult_right_mono) (simp_all add: Suc_le_eq)
  then show ?thesis using assms by linarith
qed

lemma view_ready:
  assumes c: "cube_sizes avp rows" and s: "cube_state avp rows"
    and k: "nmv a = nmv avp" "memoryLimitv a = memoryLimitv avp" "tree a = tree avp" "chunksParams a = chunksParams avp" "fileOfChunks a = fileOfChunks avp"
      "numberOfChunks a = 0" "outRecSize a = GetRecSize (nv a) (nmv a)" "inpRecSize a = GetRecSize (ndv a) (nmv a)"
    and B: "selects B (selection a)" "unat (nv a) = length B" "B \<noteq> []" "length B \<le> unat (ndv a)" "\<forall>i\<in>set B. i < unat (ndv a)" "unat (ndv a) \<le> unat (nTopDims avp)"
    and z: "unat (nmv avp) \<le> length (mSums a)" "unat (nmv avp) \<le> length (checksums a)" "\<forall>i<unat (nmv avp). mSums a ! i = 0 \<and> checksums a ! i = 0"
    and rs: "unat (nRowsToRead a) = length rs" "length rs \<le> length rows" "rec_rows (unat (nmv avp)) (unat (ndv a)) rs" "\<And>i. i < unat (nmv avp) \<Longrightarrow> asum rs i \<le> asum rows i"
      "run_at (get_file fr a) (fpos (get_file fr a)) rs" "fpos (get_file fr a) + rows_bytes rs \<le> flen (get_file fr a)"
    and room: "flen (viewFile a) + view_max avp rows \<le> froom (viewFile a)"
  shows "view_ok a" "rows_ready a fr rs" "view_room a rs" "groups_of a rs = group_rows (unat (nmv avp)) (List.map (on_key (key_of B)) rs)"
proof -
  let ?m = "unat (nmv avp)" and ?d = "unat (ndv a)" and ?n = "unat (nTopDims avp)"
  note cs = cube_sizesD [OF c]
  have st: "length (chunksParams avp) = 1024" "tree_kept avp (tree avp)" "fpos (fileOfChunks avp) = 0" "flen (fileOfChunks avp) \<le> froom (fileOfChunks avp)"
    "froom (fileOfChunks avp) < 2 ^ 63" "view_max avp rows \<le> froom (fileOfChunks avp)" using s unfolding cube_state_def by blast+
  have w: "0 < nv a" "nv a \<le> ndv a" "ndv a \<le> 20" "0 < nmv a" "nmv a \<le> 4" "nv a \<le> 20"
    using B(2-4,6) cs(2-4) by (simp_all add: word_le_nat_alt word_less_nat_alt k(1))
  have lb: "length B \<le> length (selection a)" using B(1) by (simp add: selects_def)
  have sel: "unat (selection a ! i) = Suc (B ! i)" if "i < length B" for i
  proof -
    have "B ! i < ?d" using B(5) that by simp
    then have "Suc (B ! i) < 2 ^ 32" using B(6) cs(2) by simp
    from small_word(1) [OF this] show ?thesis using selects_nth [OF B(1) that] by (simp del: of_nat_Suc)
  qed
  show v: "view_ok a"
    unfolding view_ok_def using w lb st(1-3) k B(2,5) by (auto simp: tree_kept_def sel Suc_le_eq)
  note vs = view_sizes [OF v]
  have out: "unat (outRecSize a) \<le> 4 * ?n + 8 * ?m" using vs(2) B(2,4,6) k(1) by simp
  have le: "length rs * unat (outRecSize a) \<le> view_max avp rows" unfolding view_max_def using rs(2) out by (rule mult_le_mono)
  have limit: "unat (memoryLimitv avp) div 144 \<le> node_limit a"
    using tree_node_size_bounds(1,2) [OF w(1,6,5)] by (simp add: node_limit_def unat_div k(2) div_le_mono2)
  have "length rs < 1023 * node_limit a" using rs(2) cs(11) limit by linarith
  moreover have "bounded_rows ?m rs"
    using rs(3) asum_small [OF cs(9) [rule_format] rs(4)] by (auto simp: bounded_rows_def rec_rows_def)
  ultimately show "rows_ready a fr rs"
    unfolding rows_ready_def using rs(1-3,5,6) le st(6) cs(6) by (simp add: k)
  have "int (length rs) * asum rs i < 2 ^ 63" if i: "i < ?m" for i
  proof -
    have "int (length rs) * asum rs i \<le> int (length rows) * asum rows i" using rs(2) rs(4) [OF i] asum_nonneg by (intro mult_mono) simp_all
    then show ?thesis using cs(9) i by fastforce
  qed
  moreover have "1024 * unat (outRecSize a) \<le> unat (memoryLimitv avp)" using mult_le_mono2 [OF out, of 1024] cs(10) by linarith
  ultimately show "view_room a rs"
    unfolding view_room_def using st(4,5) le room z by (simp add: k)
  have e: "List.map (pick a) rs = List.map (on_key (key_of B)) rs"
  proof -
    have "\<forall>i\<in>set B. i < 2 ^ 31" using B(5,6) cs(2) by force
    then have "sel_key (selection a) (length B) = key_of B" by (intro ext sel_key_selects [OF B(1)])
    then show ?thesis by (simp add: pick_def B(2))
  qed
  show "groups_of a rs = group_rows ?m (List.map (on_key (key_of B)) rs)" unfolding groups_of_def e k(1) ..
qed

section \<open>One turn of the loop\<close>

text \<open>The invariant between two views.\<close>

definition cube_inv :: "ADC_VIEW_CNTL \<Rightarrow> row list \<Rightarrow> 64 word list \<Rightarrow> 64 word list \<Rightarrow> bool" where
  "cube_inv avp rows raws rest \<longleftrightarrow> cube_sizes avp rows \<and> cube_state avp rows \<and> groupbys_ok avp rows (raws @ rest) \<and> views_made avp rows raws"

text \<open>The state in which the rows of a view are made: what the other fields are.\<close>

definition prepared :: "ADC_VIEW_CNTL \<Rightarrow> 32 word \<Rightarrow> nat list \<Rightarrow> ADC_VIEW_CNTL \<Rightarrow> bool" where
  "prepared avp g A a \<longleftrightarrow> same_cube avp a \<and> groupby a = g \<and> unat (nv a) = length A \<and> outRecSize a = GetRecSize (nv a) (nmv a) \<and>
     inpf a = inpf avp \<and> tree a = tree avp \<and> fileOfChunks a = fileOfChunks avp \<and> recs (viewFile a) = recs (viewFile avp) \<and> flen (viewFile a) = flen (viewFile avp) \<and>
     accViewFileOffset a = accViewFileOffset avp \<and> viewSizesFile a = viewSizesFile avp \<and> totchs a = totchs avp \<and> jpp a = jpp avp \<and> lpp a = lpp avp \<and>
     unat (nTopDims avp) \<le> length (selection a) \<and> length (mSums a) = length (mSums avp) \<and> length (checksums a) = length (checksums avp) \<and>
     (\<forall>i<unat (nmv avp). checksums a ! i = 0)"

lemma layers_same:
  assumes "jpp a = jpp avp" "lpp a = lpp avp" "nTopDims a = nTopDims avp"
  shows "slot a = slot avp" "pop a = pop avp" "lim a = lim avp" "entry a = entry avp" "layers_apart a = layers_apart avp" "layers_fit a = layers_fit avp"
proof -
  show s: "slot a = slot avp" "pop a = pop avp" "lim a = lim avp" using assms by (simp_all add: slot_def pop_def lim_def fun_eq_iff)
  show "entry a = entry avp" using s assms by (simp add: entry_def fun_eq_iff)
  show "layers_apart a = layers_apart avp" "layers_fit a = layers_fit avp" using s assms by (simp_all add: layers_apart_def layers_fit_def)
qed

lemma pool_ok_pop:
  assumes "groupbys_ok avp rows (raws @ rest)" "pool_ok avp rows raws" "0 < l" "l \<le> unat (nTopDims avp)"
  shows "pop avp l \<le> lim avp l" "rest = r # rest' \<Longrightarrow> length (attrs_of avp r) = l \<Longrightarrow> pop avp l < lim avp l"
proof -
  have p: "pop avp l = length (filter (\<lambda>r. length (attrs_of avp r) = l) raws)" using assms(2-4) by (simp add: pool_ok_def)
  have "length (filter (\<lambda>r. length (attrs_of avp r) = l) (raws @ rest)) \<le> lim avp l" using assms(1,3,4) unfolding groupbys_ok_def by blast
  then show "pop avp l \<le> lim avp l" "rest = r # rest' \<Longrightarrow> length (attrs_of avp r) = l \<Longrightarrow> pop avp l < lim avp l"
    using p by auto
qed

lemma add_totals_sums:
  assumes l: "unat (nmv avp) \<le> length (totchs avp)" "unat (nmv avp) \<le> length (checksums avp)"
    and b: "\<And>i. i < unat (nmv avp) \<Longrightarrow> \<bar>totchs avp ! i + checksums avp ! i\<bar> < 2 ^ 63"
  shows "returns (add_totals avp) (\<lambda>ts. length ts = length (totchs avp) \<and> (\<forall>i<unat (nmv avp). ts ! i = totchs avp ! i + checksums avp ! i))"
proof -
  let ?I = "\<lambda>k ts. length ts = length (totchs avp) \<and> (\<forall>i<length ts. ts ! i = (if i < nat k then totchs avp ! i + checksums avp ! i else totchs avp ! i))"
  have "returns (add_totals avp) (?I (uint (nmv avp)))"
    unfolding add_totals_def
  proof (rule returns_rangeI [where I = ?I])
    fix k :: int and ts assume k: "0 \<le> k" "k < uint (nmv avp)" and I: "?I k ts"
    obtain j where j: "k = int j" using nonneg_int_cases [OF k(1)] by blast
    have jm: "j < unat (nmv avp)" using k(2) by (simp add: j)
    have "j < length ts" "j < length (checksums avp)" using jm l I by auto
    moreover have "ts ! j = totchs avp ! j" using I calculation(1) by (simp add: j)
    moreover have "nat (k + 1) = Suc j" "nat (1 + int j) = Suc j" "nat (int j + 1) = Suc j" by (simp_all add: j)
    moreover have "i64 (totchs avp ! j + checksums avp ! j) = Some (totchs avp ! j + checksums avp ! j)" using b [OF jm] by (intro i64_in) auto
    ultimately show "returns (do { t \<leftarrow> aget ts k; c \<leftarrow> aget (checksums avp) k; s \<leftarrow> i64 (t + c); aset ts k s }) (?I (k + 1))"
      using I by (auto simp: j nth_list_update)
  qed simp_all
  then show ?thesis using l(1) by (auto elim!: returns_mono)
qed

lemma recorded_more: "recorded avp rows raws l j \<Longrightarrow> recorded avp rows (raws @ [r]) l j"
  unfolding recorded_def by (metis append.assoc append_Cons)

lemma recorded_cong:
  assumes "same_cube avp avp'"
  shows "recorded avp' = recorded avp"
  using same_cube_views [OF assms] assms by (simp add: recorded_def same_cube_def fun_eq_iff)

lemma checks_total: "total_check avp rows (raws @ [r]) = total_check avp rows raws + checks_s 0 (view_of avp rows r) 0 0"
  by (simp add: total_check_def)

lemma psum_nonneg: "\<forall>a\<in>set as. 0 \<le> fst a ! i \<Longrightarrow> 0 \<le> psum P as i"
  by (induction as) auto

lemma view_nonneg: "nmv avp = 1 \<Longrightarrow> \<forall>a\<in>set rows. 0 \<le> fst a ! 0 \<Longrightarrow> \<forall>a\<in>set (view_of avp rows r). 0 \<le> fst a ! 0"
  by (auto simp: view_of_def view_rows_def psum_nonneg dest!: group_measures)

section \<open>The end of a turn\<close>

definition finished :: "32 word \<Rightarrow> int \<Rightarrow> int list \<Rightarrow> ADC_VIEW_CNTL \<Rightarrow> ADC_VIEW_CNTL" where
  "finished key off ts b = (added b)\<lparr>accViewFileOffset := off, fileOfChunks := seek_set 0 (fileOfChunks b), inpf := seek_set 0 (inpf b), totchs := ts,
     viewSizesFile := viewSizesFile b @ [(key, nViewRows b)], totalViewFileSize := totalViewFileSize b + ucast (outRecSize b * nViewRows b)\<rparr>"

lemma finished_layers:
  "slot (finished key off ts b) = slot (added b)" "pop (finished key off ts b) = pop (added b)" "lim (finished key off ts b) = lim (added b)"
  "entry (finished key off ts b) = entry (added b)" "layers_apart (finished key off ts b) = layers_apart (added b)"
  by (rule layers_same; simp add: finished_def)+

lemma finished_fields:
  "nTopDims (finished key off ts b) = nTopDims b" "nmv (finished key off ts b) = nmv b" "nInputRecs (finished key off ts b) = nInputRecs b"
  "memoryLimitv (finished key off ts b) = memoryLimitv b" "viewFile (finished key off ts b) = viewFile b" "accViewFileOffset (finished key off ts b) = off"
  "totchs (finished key off ts b) = ts" "viewSizesFile (finished key off ts b) = viewSizesFile b @ [(key, nViewRows b)]"
  "fileOfChunks (finished key off ts b) = seek_set 0 (fileOfChunks b)" "inpf (finished key off ts b) = seek_set 0 (inpf b)" "tree (finished key off ts b) = tree b"
  "selection (finished key off ts b) = selection b" "mSums (finished key off ts b) = mSums b" "checksums (finished key off ts b) = checksums b"
  "chunksParams (finished key off ts b) = chunksParams b" "nViewLimit (finished key off ts b) = nViewLimit b" "adcViewSizesFile (finished key off ts b) = adcViewSizesFile b"
  by (simp_all add: finished_def added_def Let_def)

lemma finish_view_finished:
  assumes j: "JobPoolUpdate b = Some (added b)" and o: "i64 (accViewFileOffset b + uint (nViewRows b * outRecSize b)) = Some off"
    and t: "unat (nmv b) \<le> length (totchs b)" "unat (nmv b) \<le> length (checksums b)" "\<And>i. i < unat (nmv b) \<Longrightarrow> \<bar>totchs b ! i + checksums b ! i\<bar> < 2 ^ 63"
  shows "returns (finish_view key b) (\<lambda>d. \<exists>ts. length ts = length (totchs b) \<and> (\<forall>i<unat (nmv b). ts ! i = totchs b ! i + checksums b ! i) \<and> d = finished key off ts b)"
proof -
  let ?c = "(added b)\<lparr>accViewFileOffset := off, fileOfChunks := seek_set 0 (fileOfChunks b), inpf := seek_set 0 (inpf b)\<rparr>"
  have a: "accViewFileOffset (added b) = accViewFileOffset b" "nViewRows (added b) = nViewRows b" "outRecSize (added b) = outRecSize b" "nmv (added b) = nmv b"
    "totchs (added b) = totchs b" "checksums (added b) = checksums b" "fileOfChunks (added b) = fileOfChunks b" "inpf (added b) = inpf b"
    "viewSizesFile (added b) = viewSizesFile b" "totalViewFileSize (added b) = totalViewFileSize b" by (simp_all add: added_def Let_def)
  obtain ts where ts: "add_totals ?c = Some ts" "length ts = length (totchs b)" "\<forall>i<unat (nmv b). ts ! i = totchs b ! i + checksums b ! i"
    using add_totals_sums [of ?c] t by (auto simp: a elim!: returnsE)
  have "finish_view key b = Some (finished key off ts b)"
    unfolding finish_view_def j using o ts(1) by (simp add: a Let_def finished_def)
  then show ?thesis using ts(2,3) by auto
qed

text \<open>The pool after the view of \<open>raw\<close> was added.\<close>

lemma pool_ok_finished:
  assumes s: "same_cube avp d" and a: "layers_apart avp" and g: "groupbys_ok avp rows (raws @ raw # rest)" and p: "pool_ok avp rows raws"
    and b: "jpp b = jpp avp" "lpp b = lpp avp" "nTopDims b = nTopDims avp" "unat (nv b) = length (attrs_of avp raw)" "groupby b = top_bits (unat (nTopDims avp)) (swap8 raw)"
      "nViewRows b = of_nat (length (view_of avp rows raw))" "length (view_of avp rows raw) < 2 ^ 32" "accViewFileOffset b = int (rows_bytes (views_of avp rows raws))"
    and d: "pop d = pop (added b)" "entry d = entry (added b)"
  shows "JobPoolUpdate b = Some (added b)" "pool_ok d rows (raws @ [raw])"
proof -
  let ?n = "unat (nTopDims avp)" and ?k = "unat (nv b)"
  note ls = layers_same [OF b(1-3)]
  have ap: "layers_apart b" using a ls by simp
  have pl: "\<forall>l. 0 < l \<and> l \<le> unat (nTopDims b) \<longrightarrow> pop b l \<le> lim b l" using pool_ok_pop(1) [OF g p] ls b(3) by simp
  have ne: "attrs_of avp raw \<noteq> []" using g by (simp add: groupbys_ok_def)
  then have k: "0 < ?k" "?k \<le> unat (nTopDims b)" unfolding b(3,4) using attrs_of_length [of avp raw] by auto
  have kn: "?k \<le> ?n" using k(2) unfolding b(3) .
  have lt: "pop b ?k < lim b ?k" unfolding ls(2,3) by (rule pool_ok_pop(2) [OF g p k(1) kn refl b(4) [symmetric]])
  note ad = added_pool [OF ap pl k lt]
  show "JobPoolUpdate b = Some (added b)" by (rule ad(1))
  have rc: "recorded d = recorded avp" by (rule recorded_cong [OF s])
  have new: "recorded avp rows (raws @ [raw]) ?k (entry (added b) ?k (pop b ?k))"
    unfolding recorded_def ad(3) using b(4-8) by (intro exI [where x = raws], intro exI [where x = raw], intro exI [where x = "[]"]) (simp add: small_word)
  show "pool_ok d rows (raws @ [raw])"
    unfolding pool_ok_def
  proof (intro allI impI conjI)
    fix l assume "0 < l \<and> l \<le> unat (nTopDims d)"
    then have l: "0 < l" "l \<le> ?n" using s by (simp_all add: same_cube_def)
    have pp: "pop avp l = length (filter (\<lambda>r. length (attrs_of avp r) = l) raws)" "\<forall>i<pop avp l. recorded avp rows raws l (entry avp l i)"
      using p l unfolding pool_ok_def by blast+
    then show "pop d l = length (filter (\<lambda>r. length (attrs_of d r) = l) (raws @ [raw]))"
      using ls(2) b(4) by (auto simp: d(1) ad(2) same_cube_views(1) [OF s])
    fix i assume "i < pop d l"
    then consider "i < pop avp l" | "l = ?k" "i = pop b ?k" using ls(2) by (auto simp: d(1) ad(2) less_Suc_eq split: if_splits)
    then show "recorded d rows (raws @ [raw]) l (entry d l i)"
    proof cases
      case 1
      then have "entry (added b) l i = entry avp l i" using ad(4) [of l i] l ls b(3) by simp
      then show ?thesis using pp(2) 1 recorded_more unfolding rc d(2) by metis
    next
      case 2
      then show ?thesis using new unfolding rc d(2) by simp
    qed
  qed
qed

text \<open>The state after the rows were made, as \<open>make_view\<close> leaves it.\<close>

lemma view_state_fields:
  assumes "b = view_state a G T cps nn g q ms cs k"
  shows "nTopDims b = nTopDims a" "nmv b = nmv a" "nInputRecs b = nInputRecs a" "memoryLimitv b = memoryLimitv a" "viewFile b = write_rows G (seek_end (viewFile a))"
    "accViewFileOffset b = accViewFileOffset a" "totchs b = totchs a" "viewSizesFile b = viewSizesFile a" "fileOfChunks b = g" "inpf b = (inpf a)\<lparr>fpos := q\<rparr>" "tree b = T"
    "selection b = selection a" "mSums b = ms" "checksums b = cs" "chunksParams b = cps" "nViewLimit b = nViewLimit a" "adcViewSizesFile b = adcViewSizesFile a"
    "jpp b = jpp a" "lpp b = lpp a" "groupby b = groupby a" "nv b = nv a" "nViewRows b = of_nat (length G)" "outRecSize b = outRecSize a"
  using assms by (simp_all add: view_state_def)

lemma finish_view_inv:
  assumes inv: "cube_inv avp rows raws (raw # rest)" and p: "prepared avp (top_bits (unat (nTopDims avp)) (swap8 raw)) (attrs_of avp raw) a"
    and v: "view_made a (view_of avp rows raw) b" and key: "key = ucast (drop_bit (64 - unat (nTopDims avp)) (swap8 raw))"
  shows "returns (finish_view key b) (\<lambda>d. same_cube avp d \<and> cube_inv d rows (raws @ [raw]) rest)"
proof -
  let ?m = "unat (nmv avp)" and ?V = "view_of avp rows raw" and ?Vs = "views_of avp rows raws" and ?A = "attrs_of avp raw"
  have I: "cube_sizes avp rows" "cube_state avp rows" "groupbys_ok avp rows (raws @ raw # rest)" "views_made avp rows raws" using inv by (simp_all add: cube_inv_def)
  note c = cube_sizesD [OF I(1)] and vf = view_of_facts [where r = raw, OF I(1)]
  have st: "unat (nTopDims avp) \<le> length (selection avp)" "?m \<le> length (mSums avp)" "?m \<le> length (checksums avp)" "?m \<le> length (totchs avp)"
    "froom (fileOfChunks avp) < 2 ^ 63" "view_max avp rows \<le> froom (fileOfChunks avp)" "fpos (inpf avp) = 0" "run_at (inpf avp) 0 rows" "rows_bytes rows \<le> flen (inpf avp)" "layers_apart avp"
    using I(2) unfolding cube_state_def by blast+
  have vm: "run_at (viewFile avp) 0 ?Vs" "flen (viewFile avp) = rows_bytes ?Vs" "accViewFileOffset avp = int (rows_bytes ?Vs)" "pool_ok avp rows raws" "viewSizesFile avp = sizes_of avp rows raws"
    "\<forall>i<?m. \<bar>totchs avp ! i\<bar> \<le> int (length raws) * (int (length rows) * measbound)"
    "nmv avp = 1 \<and> (\<forall>a\<in>set rows. 0 \<le> fst a ! 0) \<longrightarrow> totchs avp ! 0 = total_check avp rows raws" using I(4) unfolding views_made_def by blast+
  have P: "same_cube avp a" "groupby a = top_bits (unat (nTopDims avp)) (swap8 raw)" "unat (nv a) = length ?A" "outRecSize a = GetRecSize (nv a) (nmv a)" "inpf a = inpf avp" "tree a = tree avp"
    "fileOfChunks a = fileOfChunks avp" "recs (viewFile a) = recs (viewFile avp)" "flen (viewFile a) = flen (viewFile avp)" "accViewFileOffset a = accViewFileOffset avp"
    "viewSizesFile a = viewSizesFile avp" "totchs a = totchs avp" "jpp a = jpp avp" "lpp a = lpp avp" "unat (nTopDims avp) \<le> length (selection a)" "length (mSums a) = length (mSums avp)"
    "length (checksums a) = length (checksums avp)" "\<forall>i<?m. checksums a ! i = 0" using p unfolding prepared_def by blast+
  have S: "nTopDims a = nTopDims avp" "nmv a = nmv avp" "nInputRecs a = nInputRecs avp" "memoryLimitv a = memoryLimitv avp" "froom (viewFile a) = froom (viewFile avp)"
    "nViewLimit a = nViewLimit avp" "adcViewSizesFile a = adcViewSizesFile avp" using P(1) by (simp_all add: same_cube_def)
  obtain T cps nn g q ms cs k where b: "b = view_state a ?V T cps nn g q ms cs k" and T: "tree_kept a T" and g: "length cps = 1024" "froom g = froom (fileOfChunks a)" "flen g \<le> froom g"
    and sm: "sums_made ?m ?V (mSums a) ms (checksums a) cs" using v S(2) unfolding view_made_def by metis
  note bf = view_state_fields [OF b]
  have sums: "length ms = length (mSums avp)" "length cs = length (checksums avp)" "\<forall>i<?m. \<bar>cs ! i\<bar> \<le> int (length ?V) * measbound"
    "?m = 1 \<and> (\<forall>a\<in>set ?V. 0 \<le> fst a ! 0) \<longrightarrow> cs ! 0 = checks_s 0 ?V 0 0"
    using sm P(16,17) unfolding sums_made_def summed_def by simp_all
  have small: "length ?V < 2 ^ 32" using vf(2) c(6) by simp
  have off: "i64 (accViewFileOffset b + uint (nViewRows b * outRecSize b)) = Some (int (rows_bytes (views_of avp rows (raws @ [raw]))))"
  proof -
    have "nv a \<le> 20" "nmv a \<le> 4" using P(3) attrs_of_length [of avp raw] c(2,4) S(2) by (simp_all add: word_le_nat_alt)
    then have "unat (outRecSize a) = 4 * length ?A + 8 * ?m" by (simp add: P(3,4) GetRecSize_unat S(2))
    then have "length ?V * unat (outRecSize a) = rows_bytes ?V" by (simp add: vf(4))
    moreover have "rows_bytes ?V < 2 ^ 32" using vf(5) c(8) by (rule le_less_trans)
    ultimately have u: "uint (nViewRows b * outRecSize b) = int (rows_bytes ?V)" using small unfolding uint_nat by (simp add: bf unat_word_ariths(2) small_word)
    have e: "accViewFileOffset b + uint (nViewRows b * outRecSize b) = int (rows_bytes (views_of avp rows (raws @ [raw])))"
      unfolding u by (simp add: bf P(10) vm(3))
    have "rows_bytes (views_of avp rows (raws @ [raw])) \<le> length (raws @ [raw]) * view_max avp rows" by (rule views_of_bytes(1) [OF I(1)])
    also have "\<dots> \<le> length (raws @ raw # rest) * view_max avp rows" by (intro mult_le_mono1) simp
    also have "\<dots> \<le> froom (viewFile avp)" using I(3) unfolding groupbys_ok_def by blast
    also have "\<dots> < 2 ^ 63" using I(3) unfolding groupbys_ok_def by blast
    finally show ?thesis unfolding e by (intro i64_in) simp_all
  qed
  have tot: "\<bar>totchs avp ! i + cs ! i\<bar> \<le> int (length (raws @ [raw])) * (int (length rows) * measbound)" if i: "i < ?m" for i
  proof -
    have "int (length ?V) * measbound \<le> int (length rows) * measbound" using vf(2) by (intro mult_right_mono) (simp_all add: measbound_def)
    then have "\<bar>totchs avp ! i\<bar> + \<bar>cs ! i\<bar> \<le> int (length raws) * (int (length rows) * measbound) + int (length rows) * measbound"
      using vm(6) sums(3) i by (intro add_mono) (auto intro: order_trans)
    also have "\<dots> = int (length (raws @ [raw])) * (int (length rows) * measbound)" by (simp add: algebra_simps)
    finally show ?thesis using abs_triangle_ineq [of "totchs avp ! i" "cs ! i"] by linarith
  qed
  have bound: "\<bar>totchs b ! i + checksums b ! i\<bar> < 2 ^ 63" if i: "i < unat (nmv b)" for i
  proof -
    have "int (length (raws @ [raw])) * (int (length rows) * measbound) \<le> int (length (raws @ raw # rest)) * (int (length rows) * measbound)"
      by (intro mult_right_mono) (simp_all add: measbound_def)
    also have "\<dots> < 2 ^ 63" using I(3) unfolding groupbys_ok_def by blast
    finally show ?thesis using tot [of i] i by (simp add: bf P(12) S(2))
  qed
  define d where "d = finished key (int (rows_bytes (views_of avp rows (raws @ [raw]))))"
  have ll: "jpp b = jpp avp" "lpp b = lpp avp" "nTopDims b = nTopDims avp" by (simp_all add: bf P S)
  have lmax: "unat (nv b) < length (lpp b)" using st(10) P(3) attrs_of_length [of avp raw] unfolding bf P(14) layers_apart_def by linarith
  have same: "same_cube avp (d ts b)" for ts
    unfolding same_cube_def d_def finished_layers finished_fields added_layers(2) [OF lmax] layers_same(3) [OF ll]
    by (simp add: bf S seek_end_def)
  have Aarg: "unat (nv b) = length ?A" "groupby b = top_bits (unat (nTopDims avp)) (swap8 raw)" "nViewRows b = of_nat (length ?V)" "accViewFileOffset b = int (rows_bytes ?Vs)"
    by (simp_all add: bf P vm)
  have po: "JobPoolUpdate b = Some (added b)" "pool_ok (d ts b) rows (raws @ [raw])" for ts
    by (rule pool_ok_finished [OF same st(10) I(3) vm(4) ll Aarg(1-3) small Aarg(4)]; simp add: d_def finished_layers)+
  have fin: "cube_inv (d ts b) rows (raws @ [raw]) rest" if ts: "length ts = length (totchs avp)" "\<forall>i<?m. ts ! i = totchs avp ! i + cs ! i" for ts
    unfolding cube_inv_def
  proof (intro conjI)
    note sv = same_cube_views [OF same [of ts]]
    have nd: "nTopDims (d ts b) = nTopDims avp" "nmv (d ts b) = nmv avp" "memoryLimitv (d ts b) = memoryLimitv avp" using same [of ts] by (simp_all add: same_cube_def)
    show "cube_sizes (d ts b) rows" unfolding sv by (rule I(1))
    show "groupbys_ok (d ts b) rows ((raws @ [raw]) @ rest)" unfolding sv using I(3) by simp
    have "layers_apart (d ts b)" unfolding d_def finished_layers layers_apart_added [OF lmax] layers_same(5) [OF ll] by (rule st(10))
    then show "cube_state (d ts b) rows"
      unfolding cube_state_def sv nd using st g T P(15) sums(1,2) ts(1)
      by (simp add: d_def finished_fields bf P S seek_set_def tree_kept_def)
    have run: "run_at (viewFile b) 0 (?Vs @ ?V)"
    proof -
      have r: "run_at (seek_end (viewFile a)) 0 ?Vs" using vm(1) run_at_cong [of "seek_end (viewFile a)" "viewFile avp"] by (simp add: seek_end_def P(8))
      have e: "fpos (seek_end (viewFile a)) = rows_bytes ?Vs" by (simp add: seek_end_def P(9) vm(2))
      show ?thesis using run_at_write_rows [OF r views_of_bytes(2) [OF I(1)], of ?V] write_rows_at [OF vf(6), of "seek_end (viewFile a)"] e by (simp add: bf run_at_append)
    qed
    have len: "flen (viewFile b) = rows_bytes ?Vs + rows_bytes ?V"
      using write_rows_len [of "seek_end (viewFile a)" ?V] by (simp add: bf seek_end_def P(9) vm(2))
    have chk: "nmv avp = 1 \<and> (\<forall>a\<in>set rows. 0 \<le> fst a ! 0) \<longrightarrow> ts ! 0 = total_check avp rows (raws @ [raw])"
    proof
      assume n: "nmv avp = 1 \<and> (\<forall>a\<in>set rows. 0 \<le> fst a ! 0)"
      then have "\<forall>a\<in>set ?V. 0 \<le> fst a ! 0" by (intro view_nonneg) simp_all
      then show "ts ! 0 = total_check avp rows (raws @ [raw])" using n sums(4) ts(2) vm(7) by (simp add: checks_total)
    qed
    show "views_made (d ts b) rows (raws @ [raw])"
      unfolding views_made_def sv nd
    proof (intro conjI)
      show "pool_ok (d ts b) rows (raws @ [raw])" by (rule po(2))
      show "\<forall>i<?m. \<bar>totchs (d ts b) ! i\<bar> \<le> int (length (raws @ [raw])) * (int (length rows) * measbound)"
        using tot ts(2) by (simp add: d_def finished_fields)
    qed (use run len chk vm(5) key in \<open>simp_all add: d_def finished_fields bf P(11) sizes_of_def\<close>)
  qed
  have "returns (finish_view key b) (\<lambda>d'. \<exists>ts. length ts = length (totchs b) \<and> (\<forall>i<unat (nmv b). ts ! i = totchs b ! i + checksums b ! i) \<and> d' = d ts b)"
    unfolding d_def by (rule finish_view_finished [OF po(1) off _ _ bound]) (use st(3,4) sums(2) in \<open>simp_all add: bf P(12) S(2)\<close>)
  then show ?thesis using same fin by (auto simp: bf P(12) S(2) elim!: returns_mono)
qed

section \<open>The start of a turn\<close>

definition start_view :: "ADC_VIEW_CNTL \<Rightarrow> int list \<Rightarrow> 32 word list \<Rightarrow> 32 word \<Rightarrow> ADC_VIEW_CNTL" where
  "start_view avp cs sel g = avp\<lparr>checksums := cs, selection := sel, groupby := g\<rparr>"

lemma start_view_layers:
  "slot (start_view avp cs sel g) = slot avp" "pop (start_view avp cs sel g) = pop avp" "lim (start_view avp cs sel g) = lim avp"
  "entry (start_view avp cs sel g) = entry avp" "layers_apart (start_view avp cs sel g) = layers_apart avp" "layers_fit (start_view avp cs sel g) = layers_fit avp"
  by (rule layers_same; simp add: start_view_def)+

lemma from_input_layers: "lim (from_input (start_view avp cs sel g) k ms) = lim avp"
  by (rule layers_same; simp add: start_view_def from_input_def)

lemma from_view_layers: "lim (from_view (taken (start_view avp cs sel g) m i\<lparr>selection := sel'\<rparr>) k ms) = lim avp"
  by (rule layers_same; simp add: start_view_def from_view_def taken_def)

lemma room_for_next:
  assumes "cube_inv avp rows raws (raw # rest)"
  shows "flen (viewFile avp) + view_max avp rows \<le> froom (viewFile avp)"
proof -
  have I: "cube_sizes avp rows" "groupbys_ok avp rows (raws @ raw # rest)" "flen (viewFile avp) = rows_bytes (views_of avp rows raws)"
    using assms by (simp_all add: cube_inv_def views_made_def)
  have "flen (viewFile avp) + view_max avp rows \<le> Suc (length raws) * view_max avp rows" using views_of_bytes(1) [OF I(1), of raws] I(3) by simp
  also have "\<dots> \<le> length (raws @ raw # rest) * view_max avp rows" by (intro mult_le_mono1) simp
  also have "\<dots> \<le> froom (viewFile avp)" using I(2) unfolding groupbys_ok_def by blast
  finally show ?thesis .
qed

text \<open>What the beginning of the turn provides: cleared checksums and sums, and the attributes.\<close>

definition turn_start :: "ADC_VIEW_CNTL \<Rightarrow> 64 word \<Rightarrow> int list \<Rightarrow> 32 word list \<Rightarrow> 32 word \<Rightarrow> int list \<Rightarrow> bool" where
  "turn_start avp raw cs sel k ms \<longleftrightarrow> length cs = length (checksums avp) \<and> length ms = length (mSums avp) \<and> (\<forall>i<unat (nmv avp). cs ! i = 0 \<and> ms ! i = 0) \<and>
     length sel = length (selection avp) \<and> unat k = length (attrs_of avp raw)"

lemma input_ready:
  assumes inv: "cube_inv avp rows raws (raw # rest)" and t: "turn_start avp raw cs sel k ms" "selects (attrs_of avp raw) sel"
    and a: "a = from_input (start_view avp cs sel (top_bits (unat (nTopDims avp)) (swap8 raw))) k ms"
  shows "prepared avp (top_bits (unat (nTopDims avp)) (swap8 raw)) (attrs_of avp raw) a" "view_ok a" "rows_ready a INPF rows" "view_room a rows"
    "groups_of a rows = view_of avp rows raw"
proof -
  have I: "cube_sizes avp rows" "cube_state avp rows" "groupbys_ok avp rows (raws @ raw # rest)" using inv by (simp_all add: cube_inv_def)
  have st: "unat (nTopDims avp) \<le> length (selection avp)" "unat (nmv avp) \<le> length (mSums avp)" "unat (nmv avp) \<le> length (checksums avp)"
    "fpos (inpf avp) = 0" "run_at (inpf avp) 0 rows" "rows_bytes rows \<le> flen (inpf avp)" using I(2) unfolding cube_state_def by blast+
  note c = cube_sizesD [OF I(1)]
  have ne: "attrs_of avp raw \<noteq> []" using I(3) by (simp add: groupbys_ok_def)
  show "prepared avp (top_bits (unat (nTopDims avp)) (swap8 raw)) (attrs_of avp raw) a"
    unfolding prepared_def same_cube_def a from_input_layers using t(1) st(1) by (simp add: start_view_def from_input_def turn_start_def)
  have fields: "nmv a = nmv avp" "memoryLimitv a = memoryLimitv avp" "tree a = tree avp" "chunksParams a = chunksParams avp" "fileOfChunks a = fileOfChunks avp"
    "numberOfChunks a = 0" "outRecSize a = GetRecSize (nv a) (nmv a)" "inpRecSize a = GetRecSize (ndv a) (nmv a)" "selects (attrs_of avp raw) (selection a)" "unat (nv a) = length (attrs_of avp raw)"
    "ndv a = nTopDims avp" "mSums a = ms" "checksums a = cs" "nRowsToRead a = nInputRecs avp" "inpf a = inpf avp" "viewFile a = viewFile avp"
    using t by (simp_all add: a start_view_def from_input_def turn_start_def)
  have "\<forall>i\<in>set (attrs_of avp raw). i < unat (nTopDims avp)" by (simp add: attrs_of_def attrs_set)
  then have "view_ok a \<and> rows_ready a INPF rows \<and> view_room a rows \<and> groups_of a rows = group_rows (unat (nmv avp)) (List.map (on_key (key_of (attrs_of avp raw))) rows)"
    using view_ready [OF I(1,2) fields(1-10) ne, where rs = rows and fr = INPF] attrs_of_length [of avp raw] t(1) st(2-6) c(5,7) room_for_next [OF inv]
    by (simp add: fields(11-16) turn_start_def get_file_def)
  then show "view_ok a" "rows_ready a INPF rows" "view_room a rows" "groups_of a rows = view_of avp rows raw" by (simp_all add: view_of_def view_rows_def)
qed

lemma parent_ready:
  assumes inv: "cube_inv avp rows raws (raw # rest)" and t: "turn_start avp raw cs sel k ms"
    and e: "i < pop avp m" "0 < m" "m \<le> unat (nTopDims avp)" "top_bits (unat (nTopDims avp)) (swap8 raw) AND jp_grpb (entry avp m i) = top_bits (unat (nTopDims avp)) (swap8 raw)"
    and s: "length sel' = length (selection avp)"
      "selects (places (jp_grpb (entry avp m i)) (common (jp_grpb (entry avp m i)) (top_bits (unat (nTopDims avp)) (swap8 raw)) (unat (nTopDims avp)))) sel'"
    and a: "a = from_view (taken (start_view avp cs sel (top_bits (unat (nTopDims avp)) (swap8 raw))) m i\<lparr>selection := sel'\<rparr>) k ms"
  shows "prepared avp (top_bits (unat (nTopDims avp)) (swap8 raw)) (attrs_of avp raw) a"
    "\<exists>rs. view_ok a \<and> rows_ready a VIEWFILE rs \<and> view_room a rs \<and> groups_of a rs = view_of avp rows raw" "0 \<le> jp_viewOffset (entry avp m i)"
proof -
  let ?n = "unat (nTopDims avp)" and ?m = "unat (nmv avp)"
  let ?g = "top_bits ?n (swap8 raw)" and ?j = "entry avp m i"
  have I: "cube_sizes avp rows" "cube_state avp rows" "groupbys_ok avp rows (raws @ raw # rest)" "views_made avp rows raws" using inv by (simp_all add: cube_inv_def)
  have st: "?n \<le> length (selection avp)" "?m \<le> length (mSums avp)" "?m \<le> length (checksums avp)" using I(2) unfolding cube_state_def by blast+
  have vm: "run_at (viewFile avp) 0 (views_of avp rows raws)" "flen (viewFile avp) = rows_bytes (views_of avp rows raws)" "pool_ok avp rows raws" using I(4) unfolding views_made_def by blast+
  note c = cube_sizesD [OF I(1)]
  obtain pre r post where r: "raws = pre @ r # post" "length (attrs_of avp r) = m" "jp_grpb ?j = top_bits ?n (swap8 r)" "unat (jp_nRows ?j) = length (view_of avp rows r)"
    "jp_viewOffset ?j = int (rows_bytes (views_of avp rows pre))" using vm(3) e(1-3) unfolding pool_ok_def recorded_def by blast
  then show "0 \<le> jp_viewOffset ?j" by simp
  have n32: "?n \<le> 32" using c(2) by simp
  have at: "attrs32 ?g ?n = attrs_of avp raw" "attrs32 (jp_grpb ?j) ?n = attrs_of avp r" using attrs32_top [OF n32 order_refl n32] by (simp_all add: attrs_of_def r(3))
  define B where "B = places (jp_grpb ?j) (attrs_of avp raw)"
  have B: "selects B sel'" using s(2) unfolding key_of_places(1) [OF e(4) n32] at B_def .
  have comp: "key_of B (key_of (attrs_of avp r) ks) = key_of (attrs_of avp raw) ks" for ks
    using key_of_places(2) [OF e(4) n32, of ks] by (simp add: at B_def)
  have sub: "i < ?n \<and> bit (jp_grpb ?j) (31 - i)" if "i \<in> set (attrs_of avp raw)" for i
    using that e(4) unfolding at(1) [symmetric] attrs_set by (metis bit_and_iff)
  have Bm: "\<forall>i\<in>set B. i < m"
  proof
    fix i assume "i \<in> set B"
    then obtain t where t: "t \<in> set (attrs_of avp raw)" "i = length (attrs32 (jp_grpb ?j) t)" by (auto simp: B_def places_def)
    have "length (attrs32 (jp_grpb ?j) t) < length (attrs32 (jp_grpb ?j) ?n)"
      unfolding attrs32_def by (rule filter_upt(2)) (use sub [OF t(1)] in blast)+
    then show "i < m" unfolding t(2) at(2) r(2) .
  qed
  have ne: "attrs_of avp raw \<noteq> []" using I(3) by (simp add: groupbys_ok_def)
  then have Bne: "B \<noteq> []" "length B = length (attrs_of avp raw)" unfolding B_def places_def by simp_all
  have Bl: "length B \<le> m"
  proof -
    have "set (attrs_of avp raw) \<subseteq> set (attrs_of avp r)" unfolding at(2) [symmetric] using sub by (auto simp: attrs_set)
    moreover have "distinct (attrs_of avp raw)" by (simp add: attrs_of_def attrs_def)
    ultimately show ?thesis unfolding Bne(2) r(2) [symmetric] by (metis List.finite_set card_length card_mono distinct_card le_trans)
  qed
  have m32: "m < 2 ^ 32" using e(3) c(2) by simp
  show pr: "prepared avp ?g (attrs_of avp raw) a"
    unfolding prepared_def same_cube_def a from_view_layers using t st(1) s(1) by (simp add: start_view_def from_view_def taken_def turn_start_def seek_set_def)
  have fields: "nmv a = nmv avp" "memoryLimitv a = memoryLimitv avp" "tree a = tree avp" "chunksParams a = chunksParams avp" "fileOfChunks a = fileOfChunks avp"
    "numberOfChunks a = 0" "outRecSize a = GetRecSize (nv a) (nmv a)" "inpRecSize a = GetRecSize (ndv a) (nmv a)" "selects B (selection a)" "unat (nv a) = length B"
    "unat (ndv a) = m" "mSums a = ms" "checksums a = cs" "nRowsToRead a = jp_nRows ?j" "viewFile a = seek_set (rows_bytes (views_of avp rows pre)) (viewFile avp)"
    using t B Bne(2) small_word(1) [OF m32] r(5)
    by (simp_all add: a start_view_def from_view_def taken_def turn_start_def entry_def slot_def)
  note vf = view_of_facts [where r = r, OF I(1)]
  have run: "run_at (viewFile avp) (rows_bytes (views_of avp rows pre)) (view_of avp rows r)" "rows_bytes (views_of avp rows pre) + rows_bytes (view_of avp rows r) \<le> flen (viewFile avp)"
    using vm(1,2) by (simp_all add: r(1) run_at_append)
  have "view_ok a \<and> rows_ready a VIEWFILE (view_of avp rows r) \<and> view_room a (view_of avp rows r) \<and>
    groups_of a (view_of avp rows r) = group_rows ?m (List.map (on_key (key_of B)) (view_of avp rows r))"
    using view_ready [OF I(1,2) fields(1-10) Bne(1), where rs = "view_of avp rows r" and fr = VIEWFILE] Bl Bm e(3) t st(2,3) r(2,4) vf(1-3) run room_for_next [OF inv]
    by (simp add: fields(11-15) turn_start_def get_file_def seek_set_def)
  moreover have "group_rows ?m (List.map (on_key (key_of B)) (view_of avp rows r)) = view_of avp rows raw"
    unfolding view_of_def by (rule view_of_view [OF _ comp]) (use c(7) in \<open>simp add: rec_rows_def\<close>)
  ultimately show "\<exists>rs. view_ok a \<and> rows_ready a VIEWFILE rs \<and> view_room a rs \<and> groups_of a rs = view_of avp rows raw" by auto
qed

section \<open>The turn\<close>

lemma made_and_finished:
  assumes inv: "cube_inv avp rows raws (raw # rest)" and p: "prepared avp (top_bits (unat (nTopDims avp)) (swap8 raw)) (attrs_of avp raw) a"
    and key: "key = ucast (drop_bit (64 - unat (nTopDims avp)) (swap8 raw))"
    and v: "view_ok a" "rows_ready a (if smp \<noteq> noneParent then VIEWFILE else INPF) rs" "view_room a rs" "groups_of a rs = view_of avp rows raw"
  shows "returns (do { (r, b) \<leftarrow> make_view smp a; if r \<noteq> ADC_OK then Some (r, b) else do { d \<leftarrow> finish_view key b; Some (ADC_OK, d) } })
    (\<lambda>(r, d). r = ADC_OK \<and> same_cube avp d \<and> cube_inv d rows (raws @ [raw]) rest)"
proof -
  obtain b where b: "make_view smp a = Some (ADC_OK, b)" "view_made a (view_of avp rows raw) b"
    using make_view_made [OF v(1-3)] unfolding v(4) by (auto elim!: returnsE)
  show ?thesis using finish_view_inv [OF inv p b(2) key] by (auto simp: b(1) elim!: returnsE)
qed

lemma one_groupby_inv:
  assumes inv: "cube_inv avp rows raws (raw # rest)"
  shows "returns (one_groupby raw avp) (\<lambda>(r, d). r = ADC_OK \<and> same_cube avp d \<and> cube_inv d rows (raws @ [raw]) rest)"
proof -
  let ?n = "unat (nTopDims avp)" and ?m = "unat (nmv avp)" and ?b = "swap8 raw"
  let ?g = "top_bits ?n ?b" and ?A = "attrs_of avp raw" and ?key = "ucast (drop_bit (64 - unat (nTopDims avp)) (swap8 raw)) :: 32 word"
  have I: "cube_sizes avp rows" "cube_state avp rows" "groupbys_ok avp rows (raws @ raw # rest)" "pool_ok avp rows raws" using inv by (simp_all add: cube_inv_def views_made_def)
  note c = cube_sizesD [OF I(1)]
  have st: "?n \<le> length (selection avp)" "?m \<le> length (mSums avp)" "?m \<le> length (checksums avp)" "layers_apart avp" using I(2) unfolding cube_state_def by blast+
  have ne: "?A \<noteq> []" using I(3) by (simp add: groupbys_ok_def)
  have n: "0 < nTopDims avp" "nTopDims avp \<le> 32" using c(1,2) by (simp_all add: word_gt_0 word_le_nat_alt unat_gt_0 [symmetric] del: unat_gt_0)
  obtain cs where cs: "zero_meas (nmv avp) (checksums avp) = Some cs" "length cs = length (checksums avp)" "\<forall>i<?m. cs ! i = 0"
    using zero_meas_zeros [OF st(3)] by (auto elim!: returnsE)
  have n64: "?n \<le> 64" "?n \<le> 32" using c(2) by simp_all
  obtain sel k where sel: "GetRegTupleFromBin64 ?b (selection avp) (nTopDims avp) = Some (sel, k)" "length sel = length (selection avp)" "selects ?A sel" "unat k = length ?A"
    using GetRegTupleFromBin64_attrs [OF n64(1) st(1), of ?b] by (auto simp: attrs_of_def elim!: returnsE)
  let ?S = "start_view avp cs sel ?g"
  have at: "attrs32 ?g 32 = ?A" using attrs32_top [OF n64(2) n64(2)] by (simp add: attrs_of_def)
  have fit: "layers_fit ?S" unfolding start_view_layers by (rule apart_fit [OF st(4)]) (use pool_ok_pop(1) [OF I(3,4)] in blast)
  have S: "groupby ?S = ?g" "nTopDims ?S = nTopDims avp" "nmv ?S = nmv avp" "mSums ?S = mSums avp" "selection ?S = sel" by (simp_all add: start_view_def)
  have g0: "groupby ?S \<noteq> 0" using ne unfolding S at [symmetric] by (auto simp: attrs32_def)
  have len: "length (attrs32 (groupby ?S) 32) \<le> unat (nTopDims ?S)" unfolding S at by (rule attrs_of_length)
  obtain smp a1 where sr: "GetParent ?S ?g = Some (smp, a1)" "searched ?S (parent_masks ?g) (length ?A) (smp, a1)"
    using GetParent_searched [OF fit g0 len] unfolding S(1) at by (auto elim!: returnsE)
  have start: "one_groupby raw avp = do {
      sel' \<leftarrow> (if smp \<noteq> noneParent then GetRegTupleFromParent ?b (parBinRepTuple a1) (selection a1) (nTopDims a1) else Some (selection a1));
      a \<leftarrow> InitAdcViewCntl (a1\<lparr>selection := sel'\<rparr>) k sel' (if smp = noneParent then 0 else 1);
      (r, b) \<leftarrow> make_view smp a; if r \<noteq> ADC_OK then Some (r, b) else do { d \<leftarrow> finish_view ?key b; Some (ADC_OK, d) } }"
    using cs(1) sel(1) n sr(1) unfolding one_groupby_def Let_def top_bits_def [symmetric] by (simp add: start_view_def cong: if_cong)
  have ts: "turn_start avp raw cs sel k ms" if "length ms = length (mSums avp)" "\<forall>i<?m. ms ! i = 0" for ms
    using cs(2,3) sel(2,4) that by (simp add: turn_start_def)
  show ?thesis
  proof (cases "smp = noneParent")
    case True
    then have a1: "a1 = ?S" using sr(2) by (simp add: searched_def)
    have k: "unat (nmv ?S) \<le> length (mSums ?S)" "unat k \<le> length (selection ?S)" using st(1,2) sel(2,4) attrs_of_length [of avp raw] by (simp_all add: S)
    obtain ms where ms: "length ms = length (mSums avp)" "\<forall>i<?m. ms ! i = 0" "InitAdcViewCntl ?S k sel 0 = Some (from_input ?S k ms)"
      using InitAdcViewCntl_from(1) [OF k] unfolding S by (auto elim!: returnsE)
    have e: "?S\<lparr>selection := sel\<rparr> = ?S" by (simp add: start_view_def)
    note rd = input_ready [OF inv ts [OF ms(1,2)] sel(3) refl]
    have "rows_ready (from_input ?S k ms) (if smp \<noteq> noneParent then VIEWFILE else INPF) rows" using rd(3) True by simp
    from made_and_finished [OF inv rd(1) refl rd(2) this rd(4,5)] show ?thesis
      unfolding start a1 using True ms(3) by (simp add: S(5) e)
  next
    case False
    then obtain m i where mi: "length ?A \<le> m" "m \<le> unat (nTopDims ?S)" "smallest ?S m (qualifies ?S (parent_masks ?g) smp) (pop ?S m) i" "a1 = taken ?S m i"
      using sr(2) unfolding searched_def by (simp only: prod.case if_False) blast
    let ?j = "entry avp m i"
    have q: "i < pop avp m" "?g AND jp_grpb ?j = ?g" using mi(3) by (simp_all add: smallest_def qualifies_def covers_def S(1) start_view_layers)
    have m0: "0 < m" using mi(1) ne by (cases ?A) auto
    have mn: "m \<le> ?n" using mi(2) by (simp add: S)
    have T: "parBinRepTuple a1 = jp_grpb ?j" "selection a1 = sel" "nTopDims a1 = nTopDims avp" "viewOffset a1 = jp_viewOffset ?j" "nmv a1 = nmv avp" "mSums a1 = mSums avp"
      by (simp_all add: mi(4) taken_def S start_view_layers)
    have "?n \<le> length sel" using st(1) sel(2) by simp
    then obtain sel' where s: "GetRegTupleFromParent ?b (jp_grpb ?j) sel (nTopDims avp) = Some sel'" "length sel' = length (selection avp)"
      "selects (places (jp_grpb ?j) (common (jp_grpb ?j) ?g ?n)) sel'"
      using GetRegTupleFromParent_common [OF c(1) n64(2), of sel ?b "jp_grpb ?j"] sel(2) by (auto elim!: returnsE)
    let ?T = "a1\<lparr>selection := sel'\<rparr>"
    have TT: "nmv ?T = nmv avp" "mSums ?T = mSums avp" "selection ?T = sel'" "viewOffset ?T = jp_viewOffset ?j" by (simp_all add: T)
    have off: "0 \<le> viewOffset ?T"
      using parent_ready(3) [OF inv ts [of "replicate (length (mSums avp)) 0"] q(1) m0 mn q(2) s(2,3) refl] st(2) by (simp add: T(4))
    have k: "unat (nmv ?T) \<le> length (mSums ?T)" "unat k \<le> length (selection ?T)" using st(1,2) sel(4) s(2) attrs_of_length [of avp raw] by (simp_all add: TT)
    obtain ms where ms: "length ms = length (mSums avp)" "\<forall>i<?m. ms ! i = 0" "InitAdcViewCntl ?T k sel' 1 = Some (from_view ?T k ms)"
      using InitAdcViewCntl_from(2) [OF k off] unfolding TT by (auto elim!: returnsE)
    note rd = parent_ready [OF inv ts [OF ms(1,2)] q(1) m0 mn q(2) s(2,3) refl]
    have eq: "from_view ?T k ms = from_view (taken ?S m i\<lparr>selection := sel'\<rparr>) k ms" by (simp add: mi(4))
    obtain rs where rs: "view_ok (from_view ?T k ms)" "rows_ready (from_view ?T k ms) (if smp \<noteq> noneParent then VIEWFILE else INPF) rs" "view_room (from_view ?T k ms) rs"
      "groups_of (from_view ?T k ms) rs = view_of avp rows raw" using rd(2) False unfolding eq by auto
    have pr: "prepared avp ?g ?A (from_view ?T k ms)" using rd(1) unfolding eq .
    from made_and_finished [OF inv pr refl rs] show ?thesis unfolding start using False ms(3) s(1) by (simp add: T(1-3))
  qed
qed

section \<open>The loop\<close>

lemma same_cube_trans: "same_cube a b \<Longrightarrow> same_cube b c \<Longrightarrow> same_cube a c"
  by (simp add: same_cube_def)

lemma groupby_loop_inv:
  assumes "cube_inv avp rows raws rest"
  shows "returns (groupby_loop rest k avp) (\<lambda>(r, k', d). r = ADC_OK \<and> k' = k + of_nat (length rest) \<and> same_cube avp d \<and> cube_inv d rows (raws @ rest) [])"
  using assms
proof (induction rest arbitrary: raws avp k)
  case Nil
  then show ?case by (simp add: same_cube_def)
next
  case (Cons raw rest)
  obtain d where d: "one_groupby raw avp = Some (ADC_OK, d)" "same_cube avp d" "cube_inv d rows (raws @ [raw]) rest"
    using one_groupby_inv [OF Cons.prems] by (auto elim!: returnsE)
  show ?case using Cons.IH [OF d(3), of "k + 1"] by (auto simp: d(1) add.assoc elim!: returns_mono intro: same_cube_trans [OF d(2)])
qed

section \<open>From the beginning\<close>

text \<open>Before the first view the file of the views and the pool are empty.\<close>

definition unmade :: "ADC_VIEW_CNTL \<Rightarrow> bool" where
  "unmade avp \<longleftrightarrow> flen (viewFile avp) = 0 \<and> accViewFileOffset avp = 0 \<and> viewSizesFile avp = [] \<and>
     (\<forall>l. 0 < l \<and> l \<le> unat (nTopDims avp) \<longrightarrow> pop avp l = 0) \<and> (\<forall>i<unat (nmv avp). totchs avp ! i = 0)"

lemma unmade_inv:
  assumes "cube_sizes avp rows" "cube_state avp rows" "groupbys_ok avp rows raws" "unmade avp"
  shows "cube_inv avp rows [] raws"
proof -
  have "views_made avp rows []"
    using assms(4) unfolding views_made_def by (simp add: unmade_def pool_ok_def sizes_of_def total_check_def)
  then show ?thesis using assms(1-3) by (simp add: cube_inv_def)
qed

lemma cube_made:
  assumes "cube_sizes avp rows" "cube_state avp rows" "groupbys_ok avp rows raws" "unmade avp"
  shows "returns (groupby_loop raws 0 avp) (\<lambda>(r, k, d). r = ADC_OK \<and> k = of_nat (length raws) \<and> same_cube avp d \<and> cube_inv d rows raws [])"
  using groupby_loop_inv [OF unmade_inv [OF assms], of 0] by simp

end
