(* ===== verification/Dc_Sizes.thy ===== *)
theory Dc_Sizes
  imports Dc_Cubes
begin

text \<open>
  The check of the view sizes at the end of \<open>ComputeGivenGroupbys\<close>: the text of the expected sizes, as \<open>DC/adc.c\<close>
  writes it, is read back, and the check accepts it exactly when the sizes are those of the views that were made.
\<close>

unbundle bit_operations_syntax

section \<open>Numbers as text\<close>

text \<open>What \<open>fprintf\<close> with \<open>%lld\<close> writes for a number that is not negative.\<close>

fun decimal :: "nat \<Rightarrow> string" where
  "decimal n = (if n < 10 then [char_of (48 + n)] else decimal (n div 10) @ [char_of (48 + n mod 10)])"

declare decimal.simps [simp del]

lemma digit_value [simp]: "d < 10 \<Longrightarrow> int (of_char (char_of (48 + d) :: char)) - 48 = int d"
  by simp

lemma digits_decimal: "digits_value (decimal n @ cs) 0 = digits_value cs (int n)"
proof (induction n arbitrary: cs rule: decimal.induct)
  case (1 n)
  have v: "digits_value (char_of (48 + d) # cs) k = digits_value cs (10 * k + int d)" if "d < 10" for d k
    using digit_value [OF that] that by (simp add: Let_def)
  show ?case
  proof (cases "n < 10")
    case True
    then show ?thesis using v [of n 0] by (subst decimal.simps) simp
  next
    case False
    have "int n = 10 * int (n div 10) + int (n mod 10)" by presburger
    then show ?thesis using False 1 [OF False] v [of "n mod 10"] by (subst decimal.simps) simp
  qed
qed

lemma decimal_hd: "\<exists>(d::nat) cs. decimal n = char_of (48 + d) # cs \<and> d < 10"
proof (induction n rule: decimal.induct)
  case (1 n)
  show ?case
  proof (cases "n < 10")
    case True
    then have "decimal n = [char_of (48 + n)]" by (subst decimal.simps) simp
    then show ?thesis using True by blast
  next
    case False
    then have "decimal n = decimal (n div 10) @ [char_of (48 + n mod 10)]" by (subst decimal.simps) simp
    then show ?thesis using 1 [OF False] by (metis append_Cons)
  qed
qed

lemma digit_char: "d < 10 \<Longrightarrow> c \<in> {CHR ''-'', CHR ''+'', CHR ''V''} \<Longrightarrow> char_of (48 + d :: nat) \<noteq> c"
proof
  assume d: "d < 10" "c \<in> {CHR ''-'', CHR ''+'', CHR ''V''}" "char_of (48 + d) = c"
  have "(of_char (char_of (48 + d) :: char) :: nat) = 48 + d" using d(1) by simp
  then have "48 + d = of_char c" unfolding d(3) by simp
  then show False using d(1,2) by auto
qed

lemma atoi_decimal: "n < 2 ^ 31 \<Longrightarrow> atoi (decimal n) = Some (int n)"
proof -
  assume n: "n < 2 ^ 31"
  obtain d :: nat and cs where d: "decimal n = char_of (48 + d) # cs" "d < 10" using decimal_hd by blast
  have "char_of (48 + d) \<noteq> CHR ''-''" "char_of (48 + d) \<noteq> CHR ''+''" using d(2) by (intro digit_char; simp)+
  moreover have "digits_value (decimal n) 0 = int n" using digits_decimal [of n "[]"] by simp
  ultimately show ?thesis using n unfolding atoi_def d(1) by (simp del: digits_value.simps)
qed

lemma decimal_neq: "decimal n \<noteq> ''View''"
proof
  assume "decimal n = ''View''"
  moreover obtain d :: nat and cs where "decimal n = char_of (48 + d) # cs" "d < 10" using decimal_hd by blast
  ultimately have "char_of (48 + d) = CHR ''V''" by auto
  then show False using digit_char [OF \<open>d < 10\<close>, of "CHR ''V''"] by simp
qed

section \<open>The text of the sizes\<close>

text \<open>The words of a view: its attributes, counted from one, and its size.\<close>

definition view_words :: "nat list \<times> nat \<Rightarrow> string list" where
  "view_words = (\<lambda>(A, s). ''Selection:'' # List.map (\<lambda>i. decimal (Suc i)) A @ [''View'', ''Size:'', decimal s])"

definition words_ok :: "nat \<Rightarrow> nat list \<times> nat \<Rightarrow> bool" where
  "words_ok n = (\<lambda>(A, s). A = filter (\<lambda>i. i \<in> set A) [0..<n] \<and> s < 2 ^ 31)"

lemma words_okD:
  assumes "words_ok n (A, s)" "n \<le> 32"
  shows "length A \<le> n" "\<forall>i\<in>set A. i < n" "s < 2 ^ 31"
proof -
  have A: "A = filter (\<lambda>i. i \<in> set A) [0..<n]" using assms(1) by (simp add: words_ok_def)
  show "length A \<le> n" by (subst A) (metis length_filter_le length_upt diff_zero)
  show "\<forall>i\<in>set A. i < n" by (subst A) simp
  show "s < 2 ^ 31" using assms(1) by (simp add: words_ok_def)
qed

lemma read_selection_words:
  assumes "length sel + length A \<le> 64" "\<forall>i\<in>set A. Suc i < 2 ^ 31"
  shows "read_selection (List.map (\<lambda>i. decimal (Suc i)) A @ ''View'' # ts) sel = Some (sel @ List.map (\<lambda>i. of_nat (Suc i)) A, ts)"
  using assms
proof (induction A arbitrary: sel)
  case (Cons i A)
  have "atoi (decimal (Suc i)) = Some (int (Suc i))" using Cons.prems(2) by (intro atoi_decimal) simp
  moreover have "read_selection (List.map (\<lambda>i. decimal (Suc i)) A @ ''View'' # ts) (sel @ [of_nat (Suc i)]) = Some ((sel @ [of_nat (Suc i)]) @ List.map (\<lambda>i. of_nat (Suc i)) A, ts)"
    using Cons.prems by (intro Cons.IH) simp_all
  ultimately show ?case using Cons.prems(1) by (simp add: decimal_neq)
qed simp

lemma check_sizes_words:
  assumes "words_ok n (A, s)" "n \<le> 32"
  shows "check_sizes counts (view_words (A, s) @ ts) [] avp =
     do { (wrong, avp) \<leftarrow> check_size avp counts (List.map (\<lambda>i. of_nat (Suc i)) A) (of_nat s);
       if wrong then Some (ADC_VERIFICATION_FAILED, avp) else check_sizes counts ts [] avp }"
proof -
  have r: "read_selection (List.map (\<lambda>i. decimal (Suc i)) A @ ''View'' # ''Size:'' # decimal s # ts) [] = Some (List.map (\<lambda>i. of_nat (Suc i)) A, ''Size:'' # decimal s # ts)"
    using words_okD [OF assms] assms(2) by (subst read_selection_words) auto
  have "atoi (decimal s) = Some (int s)" using words_okD(3) [OF assms] by (rule atoi_decimal)
  then have "check_sizes counts (''Size:'' # decimal s # ts) sel avp = do { (wrong, avp) \<leftarrow> check_size avp counts sel (of_nat s);
       if wrong then Some (ADC_VERIFICATION_FAILED, avp) else check_sizes counts ts [] avp }" for sel
    by (subst check_sizes.simps) (simp cong: if_cong)
  then show ?thesis using r by (subst check_sizes.simps) (simp add: view_words_def)
qed

text \<open>Other words are skipped.\<close>

lemma check_sizes_other:
  assumes "''Selection:'' \<notin> set ts" "''Size:'' \<notin> set ts"
  shows "check_sizes counts ts sel avp = Some (ADC_OK, avp)"
  using assms
proof (induction ts)
  case (Cons t ts)
  then show ?case by (subst check_sizes.simps) auto
qed (subst check_sizes.simps, simp)

section \<open>The sizes that were recorded\<close>

definition set_key :: "nat \<Rightarrow> 64 word \<Rightarrow> 32 word" where
  "set_key n b = ucast (drop_bit (64 - n) b)"

lemma set_key_bit: "n \<le> 32 \<Longrightarrow> bit (set_key n b) j \<longleftrightarrow> j < n \<and> bit b (64 - n + j)"
  using bit_imp_le_length [of b "64 - n + j"] by (auto simp: set_key_def bit_simps)

lemma set_key_bound: "n \<le> 31 \<Longrightarrow> unat (set_key n b) < 2 ^ n"
proof -
  assume n: "n \<le> 31"
  have "take_bit n (set_key n b) = set_key n b" using n by (intro bit_word_eqI) (auto simp: bit_take_bit_iff set_key_bit)
  then show ?thesis using n by (metis less_mask_eq unsigned_take_bit_eq take_bit_nat_less_exp)
qed

lemma set_key_eq: "n \<le> 32 \<Longrightarrow> set_key n b = set_key n b' \<longleftrightarrow> attrs b n = attrs b' n"
proof
  assume n: "n \<le> 32"
  show "attrs b n = attrs b' n" if e: "set_key n b = set_key n b'"
    unfolding attrs_def
  proof (rule filter_cong [OF refl])
    fix i assume "i \<in> set [0..<n]"
    then have "n - 1 - i < n" "64 - n + (n - 1 - i) = 63 - i" using n by auto
    then show "bit b (63 - i) = bit b' (63 - i)" using set_key_bit [OF n, of b "n - 1 - i"] set_key_bit [OF n, of b' "n - 1 - i"] by (simp add: e)
  qed
  show "set_key n b = set_key n b'" if e: "attrs b n = attrs b' n"
  proof (rule bit_word_eqI)
    fix j :: nat
    have "bit b (64 - n + j) \<longleftrightarrow> bit b' (64 - n + j)" if j: "j < n"
    proof -
      have i: "n - 1 - j < n" "63 - (n - 1 - j) = 64 - n + j" using j n by auto
      then show ?thesis using attrs_set(1) [of "n - 1 - j" b n] attrs_set(1) [of "n - 1 - j" b' n] by (simp add: e)
    qed
    then show "bit (set_key n b) j \<longleftrightarrow> bit (set_key n b') j" by (auto simp: set_key_bit [OF n])
  qed
qed

text \<open>The number of rows of the view of a set, zero when it was not made.\<close>

definition made_rows :: "ADC_VIEW_CNTL \<Rightarrow> row list \<Rightarrow> 64 word list \<Rightarrow> nat list \<Rightarrow> nat" where
  "made_rows avp rows raws A = (if \<exists>r\<in>set raws. attrs_of avp r = A then length (view_rows (unat (nmv avp)) A rows) else 0)"

lemma made_rows_simps [simp]: "made_rows avp rows [] A = 0"
  "made_rows avp rows (raws @ [r]) A = (if attrs_of avp r = A then length (view_of avp rows r) else made_rows avp rows raws A)"
  by (auto simp: made_rows_def view_of_def)

lemma view_counts_made:
  assumes n: "unat (nTopDims avp) \<le> 31" "2 ^ unat (nTopDims avp) \<le> Suc (unat v)"
  shows "returns (view_counts v (sizes_of avp rows raws)) (\<lambda>counts. length counts = Suc (unat v) \<and>
    (\<forall>b. counts ! unat (set_key (unat (nTopDims avp)) b) = of_nat (made_rows avp rows raws (attrs b (unat (nTopDims avp))))))"
proof -
  let ?n = "unat (nTopDims avp)"
  let ?e = "\<lambda>r. (set_key ?n (swap8 r), of_nat (length (view_of avp rows r)) :: 32 word)"
  let ?I = "\<lambda>rs counts. length counts = Suc (unat v) \<and> (\<forall>b. counts ! unat (set_key ?n b) = of_nat (made_rows avp rows rs (attrs b ?n)))"
  have n32: "?n \<le> 32" using n(1) by simp
  have k: "unat (set_key ?n b) < Suc (unat v)" for b using set_key_bound [OF n(1), of b] n(2) by linarith
  have "returns (for_each (\<lambda>r counts. aset counts (uint (fst (?e r))) (snd (?e r))) raws (replicate (unat v + 1) 0)) (?I raws)"
  proof (rule returns_for_each [where I = ?I])
    show "?I [] (replicate (unat v + 1) 0)" using k by (simp add: nth_replicate del: replicate_Suc)
  next
    fix rs :: "64 word list" and r rest and counts :: "32 word list" assume I: "?I rs counts"
    have kc: "unat (set_key ?n b) < length counts" for b using k I by simp
    have e: "aset counts (uint (set_key ?n (swap8 r))) (of_nat (length (view_of avp rows r))) = Some (counts[unat (set_key ?n (swap8 r)) := of_nat (length (view_of avp rows r))])"
      unfolding uint_nat using kc by (intro aset_int)
    have "unat (set_key ?n (swap8 r)) = unat (set_key ?n b) \<longleftrightarrow> attrs_of avp r = attrs b ?n" for b
      unfolding word_unat_eq_iff [symmetric] using set_key_eq [OF n32, of "swap8 r" b] by (simp add: attrs_of_def)
    then show "returns (aset counts (uint (fst (?e r))) (snd (?e r))) (?I (rs @ [r]))"
      using I kc by (auto simp: e nth_list_update)
  qed
  moreover have "view_counts v (sizes_of avp rows raws) = for_each (\<lambda>r counts. aset counts (uint (fst (?e r))) (snd (?e r))) raws (replicate (unat v + 1) 0)"
    unfolding view_counts_def sizes_of_def for_each_map by (simp add: set_key_def)
  ultimately show ?thesis by simp
qed

section \<open>The check\<close>

definition right_size :: "ADC_VIEW_CNTL \<Rightarrow> row list \<Rightarrow> 64 word list \<Rightarrow> nat list \<times> nat \<Rightarrow> bool" where
  "right_size avp rows raws = (\<lambda>(A, s). made_rows avp rows raws A \<in> {0, s, length rows})"

lemma tuple_attrs:
  assumes "words_ok n (A, s)" "n \<le> 32"
  shows "returns (CreateBinTuple (List.map (\<lambda>i. of_nat (Suc i)) A) (of_nat (length A))) (\<lambda>b. attrs b n = A)"
proof -
  note w = words_okD [OF assms]
  have "\<forall>i\<in>set A. i < 64" using w(2) assms(2) by auto
  moreover have "selects A (List.map (\<lambda>i. of_nat (Suc i)) A)" by (simp add: selects_def)
  moreover have "length A < 2 ^ 32" using w(1) assms(2) by simp
  ultimately have "returns (CreateBinTuple (List.map (\<lambda>i. of_nat (Suc i)) A) (of_nat (length A))) (\<lambda>b. \<forall>i<64. bit b (63 - i) \<longleftrightarrow> i \<in> set A)"
    by (rule CreateBinTuple_bits)
  then show ?thesis
  proof (rule returns_mono)
    fix b :: "64 word" assume b: "\<forall>i<64. bit b (63 - i) \<longleftrightarrow> i \<in> set A"
    have "attrs b n = filter (\<lambda>i. i \<in> set A) [0..<n]" unfolding attrs_def using b assms(2) by (intro filter_cong) auto
    then show "attrs b n = A" using assms(1) by (simp add: words_ok_def)
  qed
qed

text \<open>The sizes are compared with the counts, and the flag is cleared when there is a view.\<close>

definition counts_ok :: "ADC_VIEW_CNTL \<Rightarrow> row list \<Rightarrow> 64 word list \<Rightarrow> 32 word list \<Rightarrow> bool" where
  "counts_ok avp rows raws counts \<longleftrightarrow> (\<forall>b. unat (set_key (unat (nTopDims avp)) b) < length counts \<and>
     counts ! unat (set_key (unat (nTopDims avp)) b) = of_nat (made_rows avp rows raws (attrs b (unat (nTopDims avp)))))"

definition flag_of :: "ADC_VIEW_CNTL \<Rightarrow> bool \<Rightarrow> 32 word" where
  "flag_of avp ok = (if ok \<and> numberOfMadeViews avp \<noteq> 0 then 0 else 1)"

lemma made_rows_le: "cube_sizes avp rows \<Longrightarrow> made_rows avp rows raws A \<le> length rows"
  using view_rows_facts(2) [where A = A and rows = rows and m = "unat (nmv avp)"] by (auto simp: made_rows_def cube_sizes_def)

lemma check_size_right:
  assumes c: "cube_sizes avp rows" "counts_ok avp rows raws counts" and w: "words_ok (unat (nTopDims avp)) (A, s)"
    and a: "nTopDims a = nTopDims avp" "nInputRecs a = nInputRecs avp"
  shows "check_size a counts (List.map (\<lambda>i. of_nat (Suc i)) A) (of_nat s) =
    Some (\<not> right_size avp rows raws (A, s), a\<lparr>verificationFailed := flag_of a (right_size avp rows raws (A, s))\<rparr>)"
proof -
  let ?n = "unat (nTopDims avp)" and ?c = "made_rows avp rows raws A"
  note cs = cube_sizesD [OF c(1)]
  have n: "?n \<le> 32" using cs(2) by simp
  obtain b where b: "CreateBinTuple (List.map (\<lambda>i. of_nat (Suc i)) A) (of_nat (length A)) = Some b" "attrs b ?n = A"
    using tuple_attrs [OF w n] by (auto elim!: returnsE)
  have d: "0 < nTopDims avp" "nTopDims avp \<le> 64" using cs(1,2) by (simp_all add: word_gt_0 word_le_nat_alt unat_gt_0 [symmetric] del: unat_gt_0)
  have g: "aget counts (uint (ucast (drop_bit (64 - ?n) b) :: 32 word)) = Some (of_nat ?c)"
  proof -
    have kc: "unat (set_key ?n b) < length counts" "counts ! unat (set_key ?n b) = of_nat ?c" using c(2) b(2) unfolding counts_ok_def by auto
    show ?thesis unfolding set_key_def [symmetric] uint_nat using aget_int [OF kc(1)] kc(2) by simp
  qed
  have cl: "?c < 2 ^ 32" using made_rows_le [OF c(1), of raws A] cs(6) by linarith
  have e: "(of_nat ?c :: 32 word) = of_nat x \<longleftrightarrow> ?c = x" if "x < 2 ^ 32" for x
    using small_word(1) [OF cl] small_word(1) [OF that] by metis
  have r: "nInputRecs avp = of_nat (length rows)" using arg_cong [OF cs(5), of "of_nat :: nat \<Rightarrow> 32 word"] by simp
  have l: "s < 2 ^ 32" "length rows < 2 ^ 32" using words_okD(3) [OF w n] cs(6) by simp_all
  have t: "(of_nat ?c :: 32 word) \<noteq> 0 \<and> (of_nat ?c :: 32 word) \<noteq> of_nat s \<and> (of_nat ?c :: 32 word) \<noteq> nInputRecs avp \<longleftrightarrow> \<not> right_size avp rows raws (A, s)"
    unfolding r e [OF l(1)] e [OF l(2)] using e [of 0] by (auto simp: right_size_def)
  show ?thesis unfolding check_size_def using b(1) d g t by (simp add: a flag_of_def cong: if_cong)
qed

lemma check_sizes_right:
  assumes c: "cube_sizes avp rows" "counts_ok avp rows raws counts" and w: "\<forall>e\<in>set es. words_ok (unat (nTopDims avp)) e"
    and ts: "''Selection:'' \<notin> set ts" "''Size:'' \<notin> set ts" and a: "nTopDims a = nTopDims avp" "nInputRecs a = nInputRecs avp"
  shows "check_sizes counts (concat (List.map view_words es) @ ts) [] a =
    Some (if \<forall>e\<in>set es. right_size avp rows raws e then ADC_OK else ADC_VERIFICATION_FAILED,
      if es = [] then a else a\<lparr>verificationFailed := flag_of a (\<forall>e\<in>set es. right_size avp rows raws e)\<rparr>)"
  using w a
proof (induction es arbitrary: a)
  case Nil
  then show ?case using check_sizes_other [OF ts] by simp
next
  case (Cons e es)
  obtain A s where e: "e = (A, s)" by (cases e)
  have n: "unat (nTopDims avp) \<le> 32" using cube_sizesD(2) [OF c(1)] by simp
  have we: "words_ok (unat (nTopDims avp)) (A, s)" using Cons.prems(1) by (simp add: e)
  let ?b = "a\<lparr>verificationFailed := flag_of a (right_size avp rows raws (A, s))\<rparr>"
  have IH: "check_sizes counts (concat (List.map view_words es) @ ts) [] ?b =
    Some (if \<forall>e\<in>set es. right_size avp rows raws e then ADC_OK else ADC_VERIFICATION_FAILED,
      if es = [] then ?b else ?b\<lparr>verificationFailed := flag_of ?b (\<forall>e\<in>set es. right_size avp rows raws e)\<rparr>)"
    using Cons.prems by (intro Cons.IH) simp_all
  have f: "flag_of ?b ok = flag_of a ok" for ok by (simp add: flag_of_def)
  have "check_sizes counts (concat (List.map view_words (e # es)) @ ts) [] a =
    (if right_size avp rows raws (A, s) then check_sizes counts (concat (List.map view_words es) @ ts) [] ?b else Some (ADC_VERIFICATION_FAILED, ?b))"
    using check_sizes_words [OF we n, of counts "concat (List.map view_words es) @ ts" a] check_size_right [OF c we Cons.prems(2,3)] by (simp add: e)
  then show ?case unfolding IH f by (cases "right_size avp rows raws (A, s)") (auto simp: e)
qed

text \<open>The whole check, after the views of \<open>raws\<close> were made.\<close>

lemma sizes_verified:
  assumes inv: "cube_inv d rows raws []" and lim: "unat (nViewLimit d) + 1 = 2 ^ unat (nTopDims d)" "4 * 2 ^ unat (nTopDims d) \<le> unat (memoryLimitv d)"
    and toks: "adcViewSizesFile d = concat (List.map view_words es) @ ts" "\<forall>e\<in>set es. words_ok (unat (nTopDims d)) e" "''Selection:'' \<notin> set ts" "''Size:'' \<notin> set ts"
  shows "ViewSizesVerification d = Some (if \<forall>e\<in>set es. right_size d rows raws e then ADC_OK else ADC_VERIFICATION_FAILED,
    if es = [] then d\<lparr>tree := (tree d)\<lparr>memPool := \<lambda>_. None\<rparr>\<rparr>
    else d\<lparr>tree := (tree d)\<lparr>memPool := \<lambda>_. None\<rparr>, verificationFailed := flag_of d (\<forall>e\<in>set es. right_size d rows raws e)\<rparr>)"
proof -
  have I: "cube_sizes d rows" "viewSizesFile d = sizes_of d rows raws" using inv by (simp_all add: cube_inv_def views_made_def)
  note c = cube_sizesD [OF I(1)]
  have n: "unat (nTopDims d) \<le> 31" using c(2) by simp
  have nz: "nViewLimit d + 1 \<noteq> 0"
  proof
    assume "nViewLimit d + 1 = 0"
    then have "nViewLimit d = - 1" by (simp add: eq_neg_iff_add_eq_0)
    then have "unat (nViewLimit d) = 2 ^ 32 - 1" by (simp add: unsigned_minus_1_eq_mask mask_eq_exp_minus_1)
    moreover have "(2 :: nat) ^ unat (nTopDims d) \<le> 2 ^ 20" using c(2) by (intro power_increasing) simp_all
    ultimately show False using lim(1) by simp
  qed
  obtain counts where k: "view_counts (nViewLimit d) (sizes_of d rows raws) = Some counts" "length counts = Suc (unat (nViewLimit d))"
    "\<forall>b. counts ! unat (set_key (unat (nTopDims d)) b) = of_nat (made_rows d rows raws (attrs b (unat (nTopDims d))))"
    using view_counts_made [OF n, of "nViewLimit d" rows raws] lim(1) by (auto elim!: returnsE)
  have "counts_ok d rows raws counts" using k(2,3) set_key_bound [OF n] lim(1) by (simp add: counts_ok_def)
  from check_sizes_right [OF I(1) this toks(2-4), where a = "d\<lparr>tree := (tree d)\<lparr>memPool := \<lambda>_. None\<rparr>\<rparr>"]
  show ?thesis unfolding ViewSizesVerification_def I(2) using k(1) nz lim by (simp add: toks(1) flag_of_def)
qed

section \<open>The whole computation\<close>

lemma cube_inv_count: "cube_inv d rows raws rest \<Longrightarrow> cube_inv (d\<lparr>numberOfMadeViews := k\<rparr>) rows raws rest"
proof -
  assume I: "cube_inv d rows raws rest"
  let ?d = "d\<lparr>numberOfMadeViews := k\<rparr>"
  have ly: "slot ?d = slot d" "pop ?d = pop d" "lim ?d = lim d" "entry ?d = entry d" "layers_apart ?d = layers_apart d" by (rule layers_same; simp)+
  have s: "same_cube d ?d" by (simp add: same_cube_def ly)
  note sv = same_cube_views [OF s] and rc = recorded_cong [OF s]
  have "cube_state ?d rows = cube_state d rows" unfolding cube_state_def sv ly by (simp add: tree_kept_def)
  moreover have "pool_ok ?d rows raws = pool_ok d rows raws" unfolding pool_ok_def sv ly rc by simp
  then have "views_made ?d rows raws = views_made d rows raws" unfolding views_made_def sv by simp
  ultimately show ?thesis using I unfolding cube_inv_def sv by simp
qed

text \<open>What the run needs of the text and of the block the counts lie in.\<close>

definition sizes_text :: "ADC_VIEW_CNTL \<Rightarrow> (nat list \<times> nat) list \<Rightarrow> bool" where
  "sizes_text avp es \<longleftrightarrow> unat (nViewLimit avp) + 1 = 2 ^ unat (nTopDims avp) \<and> 4 * 2 ^ unat (nTopDims avp) \<le> unat (memoryLimitv avp) \<and>
     (\<forall>e\<in>set es. words_ok (unat (nTopDims avp)) e) \<and>
     (\<exists>ts. adcViewSizesFile avp = concat (List.map view_words es) @ ts \<and> ''Selection:'' \<notin> set ts \<and> ''Size:'' \<notin> set ts)"

definition cube_ready :: "ADC_VIEW_CNTL \<Rightarrow> row list \<Rightarrow> bool" where
  "cube_ready avp rows \<longleftrightarrow> cube_sizes avp rows \<and> cube_state avp rows \<and> groupbys_ok avp rows (groupbyFile avp) \<and> unmade avp"

lemma right_size_cong: "same_cube avp d \<Longrightarrow> right_size d rows raws = right_size avp rows raws"
proof -
  assume s: "same_cube avp d"
  have m: "nmv d = nmv avp" using s by (simp add: same_cube_def)
  show ?thesis unfolding right_size_def made_rows_def same_cube_views(1) [OF s] m ..
qed

lemma compute_runs:
  assumes c: "cube_ready avp rows" and es: "sizes_text avp es"
  shows "\<exists>d e. ComputeGivenGroupbys avp = Some (if \<forall>e\<in>set es. right_size avp rows (groupbyFile avp) e then ADC_OK else ADC_VERIFICATION_FAILED, e) \<and>
    same_cube avp d \<and> cube_inv d rows (groupbyFile avp) [] \<and> numberOfMadeViews d = of_nat (length (groupbyFile avp)) \<and>
    e = (if es = [] then d\<lparr>tree := (tree d)\<lparr>memPool := \<lambda>_. None\<rparr>\<rparr>
      else d\<lparr>tree := (tree d)\<lparr>memPool := \<lambda>_. None\<rparr>, verificationFailed := flag_of d (\<forall>e\<in>set es. right_size avp rows (groupbyFile avp) e)\<rparr>)"
proof -
  let ?raws = "groupbyFile avp" and ?ok = "\<forall>e\<in>set es. right_size avp rows (groupbyFile avp) e"
  have cr: "cube_sizes avp rows" "cube_state avp rows" "groupbys_ok avp rows ?raws" "unmade avp" using c by (simp_all add: cube_ready_def)
  obtain d0 where d0: "groupby_loop ?raws 0 avp = Some (ADC_OK, of_nat (length ?raws), d0)" "same_cube avp d0" "cube_inv d0 rows ?raws []"
    using cube_made [OF cr] by (auto elim!: returnsE)
  define d where "d = d0\<lparr>numberOfMadeViews := of_nat (length ?raws)\<rparr>"
  have s: "same_cube avp d" using d0(2) unfolding d_def same_cube_def by (simp add: lim_def)
  have inv: "cube_inv d rows ?raws []" unfolding d_def by (rule cube_inv_count [OF d0(3)])
  have e: "nTopDims d = nTopDims avp" "nViewLimit d = nViewLimit avp" "memoryLimitv d = memoryLimitv avp" "adcViewSizesFile d = adcViewSizesFile avp"
    using s by (simp_all add: same_cube_def)
  obtain ts where ts: "adcViewSizesFile avp = concat (List.map view_words es) @ ts" "''Selection:'' \<notin> set ts" "''Size:'' \<notin> set ts"
    and et: "unat (nViewLimit avp) + 1 = 2 ^ unat (nTopDims avp)" "4 * 2 ^ unat (nTopDims avp) \<le> unat (memoryLimitv avp)" "\<forall>e\<in>set es. words_ok (unat (nTopDims avp)) e"
    using es unfolding sizes_text_def by blast
  have v: "ViewSizesVerification d = Some (if ?ok then ADC_OK else ADC_VERIFICATION_FAILED,
    if es = [] then d\<lparr>tree := (tree d)\<lparr>memPool := \<lambda>_. None\<rparr>\<rparr> else d\<lparr>tree := (tree d)\<lparr>memPool := \<lambda>_. None\<rparr>, verificationFailed := flag_of d ?ok\<rparr>)"
    using sizes_verified [OF inv, unfolded e right_size_cong [OF s], OF et(1,2) ts(1) et(3) ts(2,3)] .
  have n: "numberOfMadeViews d = of_nat (length ?raws)" by (simp add: d_def)
  have "ComputeGivenGroupbys avp = Some (if ?ok then ADC_OK else ADC_VERIFICATION_FAILED,
    if es = [] then d\<lparr>tree := (tree d)\<lparr>memPool := \<lambda>_. None\<rparr>\<rparr> else d\<lparr>tree := (tree d)\<lparr>memPool := \<lambda>_. None\<rparr>, verificationFailed := flag_of d ?ok\<rparr>)"
    unfolding ComputeGivenGroupbys_def d0(1) using v by (simp add: d_def [symmetric] ADC_OK_def ADC_VERIFICATION_FAILED_def)
  then show ?thesis using s inv n by blast
qed

section \<open>A small cube\<close>

text \<open>Two attributes and one measure; the view of both attributes is made from the input and the other two from it.\<close>

definition small_cube :: ADC_VIEW_CNTL where
  "small_cube = small_view (concat (List.map view_words [([0, 1], 2), ([0], 2), ([1], 1)]))"

lemmas small_defs = small_cube_def small_view_def

lemma small_levels: "0 < l \<and> l \<le> (2::nat) \<longleftrightarrow> l = 1 \<or> l = 2" by auto

lemma small_attrs: "attrs_of small_cube (swap8 0xC000000000000000) = [0, 1]" "attrs_of small_cube (swap8 0x8000000000000000) = [0]" "attrs_of small_cube (swap8 0x4000000000000000) = [1]"
  unfolding attrs_of_def swap8_swap8 by (simp_all add: small_defs attrs_def upt_rec)

lemma small_cube_ready: "cube_ready small_cube small_rows"
proof -
  have sz: "cube_sizes small_cube small_rows"
    by (simp add: cube_sizes_def small_defs small_rows_def rec_rows_def view_max_def)
  have r: "run_at (seek_set 0 (write_rows small_rows no_file)) 0 small_rows"
    using write_rows_at [of small_rows no_file] by (simp add: small_rows_def solid_def no_file_def row_bytes_def run_at_cong [of "seek_set 0 f" f for f] seek_set_def)
  have l: "rows_bytes small_rows \<le> flen (seek_set 0 (write_rows small_rows no_file))"
    using write_rows_len [of no_file small_rows] by (simp add: seek_set_def no_file_def)
  have f: "unat (nTopDims small_cube) = 2" "length (lpp small_cube) = 3" "length (jpp small_cube) = 4" "slot small_cube 1 i = 1 + i" "slot small_cube 2 i = 3 + i"
    "lim small_cube 1 = 2" "lim small_cube 2 = 1" for i by (simp_all add: small_defs slot_def lim_def)
  have two: "l < l' \<Longrightarrow> 0 < l \<Longrightarrow> l' \<le> 2 \<Longrightarrow> l = 1 \<and> l' = 2" for l l' :: nat by linarith
  have "layers_apart small_cube"
    unfolding layers_apart_def f(1-3) small_levels using f(4-7) by (auto dest: two)
  then have st: "cube_state small_cube small_rows"
    using r l by (simp add: cube_state_def small_defs tree_kept_def raw_tree_def view_max_def no_file_def small_rows_def [symmetric])
      (simp add: seek_set_def small_rows_def)
  have g: "groupbys_ok small_cube small_rows (groupbyFile small_cube)"
  proof -
    have e: "groupbyFile small_cube = [swap8 0xC000000000000000, swap8 0x8000000000000000, swap8 0x4000000000000000]" "view_max small_cube small_rows = 48" "froom (viewFile small_cube) = 1000"
      "length small_rows = 3" by (simp_all add: small_defs view_max_def small_rows_def no_file_def)
    show ?thesis unfolding groupbys_ok_def e f(1) small_levels using f(6,7) by (auto simp: small_attrs measbound_def simp del: swap8_swap8)
  qed
  have "unmade small_cube" by (auto simp: unmade_def small_defs small_levels pop_def no_file_def)
  then show ?thesis using sz st g by (simp add: cube_ready_def)
qed

lemma small_text: "sizes_text small_cube [([0, 1], 2), ([0], 2), ([1], 1)]"
  unfolding sizes_text_def
  by (intro conjI exI [where x = "[]"]) (simp_all add: small_defs words_ok_def upt_rec)

text \<open>The three views of the small cube.\<close>

lemma small_views:
  "views_of small_cube small_rows (groupbyFile small_cube) = [([6], [1, 2]), ([7], [2, 2]), ([6], [1]), ([7], [2]), ([13], [2])]"
proof -
  have v: "view_rows (unat (nmv small_cube)) [0, 1] small_rows = [([6], [1, 2]), ([7], [2, 2])]" "view_rows (unat (nmv small_cube)) [0] small_rows = [([6], [1]), ([7], [2])]"
    "view_rows (unat (nmv small_cube)) [1] small_rows = [([13], [2])]"
    by (simp_all add: view_rows_def group_upsert [symmetric] add_row_def on_key_def small_defs small_rows_def key_of_def)
  have "groupbyFile small_cube = [swap8 0xC000000000000000, swap8 0x8000000000000000, swap8 0x4000000000000000]" by (simp add: small_defs)
  then show ?thesis unfolding views_of_def view_of_def by (simp add: small_attrs v [unfolded One_nat_def] del: swap8_swap8)
qed

text \<open>C3: \<open>ComputeGivenGroupbys\<close> computes the data cube: the file of the views holds, one after the other, the rows
  of the input grouped by every set of attributes in the file of the group-bys, each view sorted by its attributes with the
  sums of the measures, whichever views were made from the input and which from other views, whether the rows of a view fit into
  memory or are sorted in chunks and merged (the memory holds 1024 records, and fewer chunks are written than the chunk table and
  the merge can take: \<open>cube_sizes\<close>), and with room on the disk; the numbers of rows are recorded, and with one measure that is not negative the total is the sum of the
  checksums of the views.\<close>

theorem cube_computed:
  assumes "cube_ready avp rows" "sizes_text avp es"
  shows "returns (ComputeGivenGroupbys avp) (\<lambda>(r, d). run_at (viewFile d) 0 (views_of avp rows (groupbyFile avp)) \<and>
    flen (viewFile d) = rows_bytes (views_of avp rows (groupbyFile avp)) \<and> viewSizesFile d = sizes_of avp rows (groupbyFile avp) \<and>
    numberOfMadeViews d = of_nat (length (groupbyFile avp)) \<and>
    (nmv avp = 1 \<and> (\<forall>a\<in>set rows. 0 \<le> fst a ! 0) \<longrightarrow> totchs d ! 0 = total_check avp rows (groupbyFile avp)))"
proof -
  obtain r d e where c: "ComputeGivenGroupbys avp = Some (r, e)" "same_cube avp d" "cube_inv d rows (groupbyFile avp) []" "numberOfMadeViews d = of_nat (length (groupbyFile avp))"
    and e: "viewFile e = viewFile d" "viewSizesFile e = viewSizesFile d" "totchs e = totchs d" "numberOfMadeViews e = numberOfMadeViews d"
    using compute_runs [OF assms] by auto
  have "views_made d rows (groupbyFile avp)" "nmv d = nmv avp" using c(2,3) by (simp_all add: cube_inv_def same_cube_def)
  then show ?thesis using c(1,4) e unfolding views_made_def same_cube_views [OF c(2)] by simp
qed

theorem cube_computed_witness:
  "returns (ComputeGivenGroupbys small_cube) (\<lambda>(r, d). run_at (viewFile d) 0 [([6], [1, 2]), ([7], [2, 2]), ([6], [1]), ([7], [2]), ([13], [2])])"
  using cube_computed [OF small_cube_ready small_text] unfolding small_views by (auto elim!: returns_mono)

text \<open>C14: The check at the end decides: the result is \<open>ADC_OK\<close> exactly when every expected size in the text is the
  number of rows of the view of its attributes, for those of its views that were made and do not have as many rows as the
  input; any expected size passes for a view that was not made or has as many rows as the input.\<close>

theorem cube_sizes_decided:
  assumes "cube_ready avp rows" "sizes_text avp es"
  shows "returns (ComputeGivenGroupbys avp) (\<lambda>(r, d). r = (if \<forall>(A, s)\<in>set es. made_rows avp rows (groupbyFile avp) A \<in> {0, s, length rows}
    then ADC_OK else ADC_VERIFICATION_FAILED))"
proof -
  have "(\<forall>(A, s)\<in>set es. made_rows avp rows (groupbyFile avp) A \<in> {0, s, length rows}) = (\<forall>e\<in>set es. right_size avp rows (groupbyFile avp) e)"
    by (simp add: right_size_def split_def)
  then show ?thesis using compute_runs [OF assms] by auto
qed

theorem cube_sizes_decided_witness: "returns (ComputeGivenGroupbys small_cube) (\<lambda>(r, d). r = ADC_OK)"
proof -
  have e: "groupbyFile small_cube = [swap8 0xC000000000000000, swap8 0x8000000000000000, swap8 0x4000000000000000]" by (simp add: small_defs)
  have m: "made_rows small_cube small_rows (groupbyFile small_cube) A = length (view_rows 1 A small_rows)" if "A \<in> {[0, 1], [0], [1]}" for A
  proof -
    have "unat (nmv small_cube) = 1" by (simp add: small_defs)
    then show ?thesis using that unfolding made_rows_def e by (auto simp: small_attrs simp del: swap8_swap8)
  qed
  have "length (view_rows 1 [0, 1] small_rows) = 2" "length (view_rows 1 [0] small_rows) = 2" "length (view_rows 1 [1] small_rows) = 1"
    by (simp_all add: view_rows_def group_upsert [symmetric] add_row_def on_key_def small_rows_def key_of_def)
  then have mm: "made_rows small_cube small_rows (groupbyFile small_cube) [0, 1] = 2" "made_rows small_cube small_rows (groupbyFile small_cube) [0] = 2"
    "made_rows small_cube small_rows (groupbyFile small_cube) [1] = 1" using m by simp_all
  have ok: "\<forall>(A, s)\<in>set [([0, 1], 2), ([0], 2), ([1], 1)]. made_rows small_cube small_rows (groupbyFile small_cube) A \<in> {0, s, length small_rows}"
    using mm by simp
  show ?thesis
  proof (rule returns_mono [OF cube_sizes_decided [OF small_cube_ready small_text]])
    fix x assume "case x of (r, d) \<Rightarrow> r = (if \<forall>(A, s)\<in>set [([0, 1], 2), ([0], 2), ([1], 1)].
      made_rows small_cube small_rows (groupbyFile small_cube) A \<in> {0, s, length small_rows} then ADC_OK else ADC_VERIFICATION_FAILED)"
    then show "case x of (r, d) \<Rightarrow> r = ADC_OK" unfolding if_P [OF ok] .
  qed
qed

end
