(* ===== verification/Heap_Sort.thy ===== *)
theory Heap_Sort
  imports C_Prelude "HOL-Library.Multiset"
begin

text \<open>
  The heap sort of \<open>DC/jobcntl.c\<close>: \<open>restore\<close> and \<open>vszsort\<close> for the views with their sizes, \<open>restoreo\<close> and \<open>onessort\<close> for the
  views with their numbers of attributes.  The code of the two pairs is the same for another field, so it is written once here
  for a key of the elements.  Positions are counted from one, as in the code, and lie at one less in the array.  While
  an element sinks, the heap has a hole at its position: the condition of a heap holds everywhere else, and the children of the
  hole are not larger than its parent.
\<close>

section \<open>The code\<close>

text \<open>One step down: the larger child is exchanged with its parent, or the loop is ended.\<close>

definition sift_step :: "('a \<Rightarrow> 'k::linorder) \<Rightarrow> int \<Rightarrow> 'a list \<times> int \<Rightarrow> ('a list \<times> int) option" where
  "sift_step key l = (\<lambda>(x, j). do {
     let tj = j * 2;
     next \<leftarrow> (if tj < l then do { a \<leftarrow> aget x (tj - 1); b \<leftarrow> aget x tj; Some (key a < key b) } else Some False);
     let m = (if next then tj + 1 else tj);
     p \<leftarrow> aget x (m - 1);
     q \<leftarrow> aget x (j - 1);
     if key p > key q then do { x \<leftarrow> aset x (m - 1) q; x \<leftarrow> aset x (j - 1) p; Some (x, m) }
     else Some (x, l) })"

definition sift :: "('a \<Rightarrow> 'k::linorder) \<Rightarrow> 'a list \<Rightarrow> int \<Rightarrow> int \<Rightarrow> 'a list option" where
  "sift key x f l = do { (x, j) \<leftarrow> c_while (\<lambda>(x, j). Some (j \<le> l div 2)) (sift_step key l) (x, f); Some x }"

text \<open>The heap is built from the last parent up, and its largest element is moved behind it.\<close>

definition sort_step :: "('a \<Rightarrow> 'k::linorder) \<Rightarrow> int \<Rightarrow> 'a list \<Rightarrow> 'a list option" where
  "sort_step key i x = do {
     a \<leftarrow> aget x 0;
     b \<leftarrow> aget x (i - 1);
     x \<leftarrow> aset x 0 b;
     x \<leftarrow> aset x (i - 1) a;
     sift key x 1 (i - 1) }"

definition heap_sort :: "('a \<Rightarrow> 'k::linorder) \<Rightarrow> 'a list \<Rightarrow> 32 word \<Rightarrow> 'a list option" where
  "heap_sort key x n = do {
     x \<leftarrow> for_each (\<lambda>i x. sift key x i (uint n)) (rev [1..uint n div 2]) x;
     for_each (sort_step key) (rev [2..sint n]) x }"

section \<open>Heaps with a hole\<close>

definition above_kids :: "('a \<Rightarrow> 'k::linorder) \<Rightarrow> 'a list \<Rightarrow> nat \<Rightarrow> nat \<Rightarrow> bool" where
  "above_kids key x l i \<longleftrightarrow> (\<forall>c\<in>{2 * i, 2 * i + 1}. c \<le> l \<longrightarrow> key (x ! (c - 1)) \<le> key (x ! (i - 1)))"

definition heap_from :: "('a \<Rightarrow> 'k::linorder) \<Rightarrow> 'a list \<Rightarrow> nat \<Rightarrow> nat \<Rightarrow> bool" where
  "heap_from key x f l \<longleftrightarrow> (\<forall>i. f \<le> i \<longrightarrow> above_kids key x l i)"

definition hole_at :: "('a \<Rightarrow> 'k::linorder) \<Rightarrow> 'a list \<Rightarrow> nat \<Rightarrow> nat \<Rightarrow> nat \<Rightarrow> bool" where
  "hole_at key x f l j \<longleftrightarrow> (\<forall>i. f \<le> i \<and> i \<noteq> j \<longrightarrow> above_kids key x l i) \<and>
     (f \<le> j div 2 \<longrightarrow> (\<forall>c\<in>{2 * j, 2 * j + 1}. c \<le> l \<longrightarrow> key (x ! (c - 1)) \<le> key (x ! (j div 2 - 1))))"

lemma above_no_kids: "l < 2 * i \<Longrightarrow> above_kids key x l i"
  by (simp add: above_kids_def)

lemma hole_start: "heap_from key x (Suc f) l \<Longrightarrow> 0 < f \<Longrightarrow> hole_at key x f l f"
  by (auto simp: heap_from_def hole_at_def)

lemma hole_closed: "hole_at key x f l j \<Longrightarrow> above_kids key x l j \<Longrightarrow> heap_from key x f l"
  by (auto simp: heap_from_def hole_at_def)

text \<open>The exchange of the hole with its larger child.\<close>

definition swapped :: "'a list \<Rightarrow> nat \<Rightarrow> nat \<Rightarrow> 'a list" where
  "swapped x j m = x[m - 1 := x ! (j - 1), j - 1 := x ! (m - 1)]"

lemma swapped_nth:
  assumes "0 < j" "j < m" "m \<le> length x" "0 < i" "i \<le> length x"
  shows "swapped x j m ! (i - 1) = (if i = j then x ! (m - 1) else if i = m then x ! (j - 1) else x ! (i - 1))"
  using assms by (auto simp: swapped_def nth_list_update)

lemma hole_sinks:
  assumes h: "hole_at key x f l j" and j: "0 < f" "f \<le> j" "l \<le> length x" and m: "m \<in> {2 * j, 2 * j + 1}" "m \<le> l"
    and big: "\<forall>c\<in>{2 * j, 2 * j + 1}. c \<le> l \<longrightarrow> key (x ! (c - 1)) \<le> key (x ! (m - 1))" and less: "key (x ! (j - 1)) < key (x ! (m - 1))"
  shows "hole_at key (swapped x j m) f l m"
proof -
  have jm: "0 < j" "j < m" "m \<le> length x" "m div 2 = j" using j m by auto
  note n = swapped_nth [OF jm(1-3)]
  have kids: "above_kids key (swapped x j m) l i" if i: "f \<le> i" "i \<noteq> m" for i
    unfolding above_kids_def
  proof (intro ballI impI)
    fix c assume c: "c \<in> {2 * i, 2 * i + 1}" "c \<le> l"
    have cl: "0 < c" "c \<le> length x" "0 < i" "i \<le> length x" "c div 2 = i" using c i(1) j(1,3) by auto
    show "key (swapped x j m ! (c - 1)) \<le> key (swapped x j m ! (i - 1))"
    proof (cases "i = j")
      case True
      have "c \<noteq> i" using cl by auto
      then have v: "swapped x j m ! (i - 1) = x ! (m - 1)" "swapped x j m ! (c - 1) = (if c = m then x ! (j - 1) else x ! (c - 1))"
        using n [OF cl(3,4)] n [OF cl(1,2)] True by simp_all
      show ?thesis unfolding v using big c less True by (auto intro: less_imp_le)
    next
      case False
      then have "above_kids key x l i" using h i(1) by (simp add: hole_at_def)
      then have a: "key (x ! (c - 1)) \<le> key (x ! (i - 1))" using c unfolding above_kids_def by blast
      show ?thesis
      proof (cases "c = j")
        case True
        then have "j div 2 = i" using cl(5) by simp
        then have "key (x ! (m - 1)) \<le> key (x ! (i - 1))" using h i(1) m by (auto simp: hole_at_def)
        moreover have "swapped x j m ! (i - 1) = x ! (i - 1)" "swapped x j m ! (c - 1) = x ! (m - 1)"
          using n [OF cl(3,4)] n [OF cl(1,2)] True \<open>i \<noteq> j\<close> i(2) by simp_all
        ultimately show ?thesis by simp
      next
        case False
        have "c \<noteq> m" using cl(5) jm(4) \<open>i \<noteq> j\<close> by auto
        then have "swapped x j m ! (i - 1) = x ! (i - 1)" "swapped x j m ! (c - 1) = x ! (c - 1)"
          using n [OF cl(3,4)] n [OF cl(1,2)] False \<open>i \<noteq> j\<close> i(2) by simp_all
        then show ?thesis using a by simp
      qed
    qed
  qed
  have below: "key (swapped x j m ! (c - 1)) \<le> key (swapped x j m ! (m div 2 - 1))" if c: "c \<in> {2 * m, 2 * m + 1}" "c \<le> l" for c
  proof -
    have cl: "0 < c" "c \<le> length x" "c \<noteq> j" "c \<noteq> m" "j \<le> length x" using c j(3) jm by auto
    have "above_kids key x l m" using h j(2) jm(2) by (simp add: hole_at_def)
    then have "key (x ! (c - 1)) \<le> key (x ! (m - 1))" using c unfolding above_kids_def by blast
    moreover have "swapped x j m ! (j - 1) = x ! (m - 1)" "swapped x j m ! (c - 1) = x ! (c - 1)" using n [OF jm(1) cl(5)] n [OF cl(1,2)] cl(3,4) by simp_all
    ultimately show ?thesis unfolding jm(4) by simp
  qed
  show ?thesis unfolding hole_at_def using kids below by blast
qed

section \<open>Sinking\<close>

text \<open>The elements up to the position \<open>l\<close> are permuted, and the others stay.\<close>

definition shuffled :: "nat \<Rightarrow> 'a list \<Rightarrow> 'a list \<Rightarrow> bool" where
  "shuffled l x x' \<longleftrightarrow> length x' = length x \<and> mset (take l x') = mset (take l x) \<and> drop l x' = drop l x"

lemma shuffled_refl [simp]: "shuffled l x x"
  by (simp add: shuffled_def)

lemma shuffled_trans: "shuffled l x y \<Longrightarrow> shuffled l y z \<Longrightarrow> shuffled l x z"
  by (simp add: shuffled_def)

lemma shuffled_mset: "shuffled l x x' \<Longrightarrow> mset x' = mset x"
  unfolding shuffled_def by (metis append_take_drop_id mset_append)

lemma shuffled_set: "shuffled l x x' \<Longrightarrow> set (take l x') = set (take l x)"
  unfolding shuffled_def by (metis set_mset_mset)

lemma shuffled_swapped: "0 < j \<Longrightarrow> j < m \<Longrightarrow> m \<le> l \<Longrightarrow> l \<le> length x \<Longrightarrow> shuffled l x (swapped x j m)"
  using mset_swap [of "j - 1" "take l x" "m - 1"]
  by (simp add: shuffled_def swapped_def take_update_swap list_update_swap)

lemma sift_heap:
  assumes "0 < f" "l \<le> length x" "heap_from key x (Suc f) l"
  shows "returns (sift key x (int f) (int l)) (\<lambda>x'. shuffled l x x' \<and> heap_from key x' f l)"
proof -
  let ?I = "\<lambda>(y, j). \<exists>i. j = int i \<and> f \<le> i \<and> shuffled l x y \<and> hole_at key y f l i"
  let ?b = "\<lambda>(x :: 'a list, j :: int). Some (j \<le> int l div 2)"
  have "returns (c_while ?b (sift_step key (int l)) (x, int f)) (\<lambda>t. ?I t \<and> ?b t = Some False)"
  proof (rule returns_while [where f = "\<lambda>(y, j). nat (int l - j)" and I = ?I])
    show "?I (x, int f)" using hole_start [OF assms(3,1)] by auto
  next
    fix t :: "'a list \<times> int" assume I: "?I t" and b: "?b t = Some True"
    obtain y i where t: "t = (y, int i)" "f \<le> i" "shuffled l x y" "hole_at key y f l i" using I by (cases t) auto
    have il: "2 * i \<le> l" using b by (simp add: t(1))
    have yl: "l \<le> length y" "0 < i" using t(2,3) assms(1,2) by (simp_all add: shuffled_def)
    define m where "m = (if 2 * i < l \<and> key (y ! (2 * i - 1)) < key (y ! (2 * i)) then 2 * i + 1 else 2 * i)"
    have m: "m \<in> {2 * i, 2 * i + 1}" "m \<le> l" "i < m" using il yl(2) by (auto simp: m_def)
    have big: "\<forall>c\<in>{2 * i, 2 * i + 1}. c \<le> l \<longrightarrow> key (y ! (c - 1)) \<le> key (y ! (m - 1))" by (auto simp: m_def not_less)
    have i1: "int i * 2 - 1 = int (2 * i - 1)" "int i - 1 = int (i - 1)" "int i * 2 = int (2 * i)" "int m - 1 = int (m - 1)" using yl(2) m(3) by auto
    have ag: "aget y (int k) = Some (y ! k)" if "k < length y" for k using that by (simp add: aget_def)
    have e: "sift_step key (int l) t = (if key (y ! (m - 1)) > key (y ! (i - 1)) then Some (swapped y i m, int m) else Some (y, int l))"
    proof -
      have nx: "(if int i * 2 < int l then do { a \<leftarrow> aget y (int i * 2 - 1); b \<leftarrow> aget y (int i * 2); Some (key a < key b) } else Some False) = Some (m = 2 * i + 1)"
      proof (cases "2 * i < l")
        case True
        then have lt: "int i * 2 < int l" "2 * i - 1 < length y" "2 * i < length y" using yl(1) by simp_all
        have a: "aget y (int i * 2 - 1) = Some (y ! (2 * i - 1))" unfolding i1(1) by (rule ag [OF lt(2)])
        have b: "aget y (int i * 2) = Some (y ! (2 * i))" unfolding i1(3) by (rule ag [OF lt(3)])
        show ?thesis unfolding if_P [OF lt(1)] a b Option.bind_lunit using True by (simp add: m_def)
      next
        case False
        then have lt: "\<not> int i * 2 < int l" by simp
        show ?thesis unfolding if_not_P [OF lt] using False by (simp add: m_def)
      qed
      have mm: "(if m = 2 * i + 1 then int i * 2 + 1 else int i * 2) = int m" using m(1) by auto
      have pq: "aget y (int m - 1) = Some (y ! (m - 1))" "aget y (int i - 1) = Some (y ! (i - 1))"
        unfolding i1 using m(2,3) yl by (intro ag; linarith)+
      have as: "aset z (int k) v = Some (z[k := v])" if "k < length z" for z :: "'a list" and k v using that by (simp add: aset_def)
      have st: "aset y (int m - 1) v = Some (y[m - 1 := v])" "aset (y[m - 1 := v]) (int i - 1) w = Some (y[m - 1 := v, i - 1 := w])" for v w
        unfolding i1 using m(2,3) yl by (intro as; simp)+
      show ?thesis unfolding t(1) sift_step_def Let_def prod.case nx Option.bind_lunit mm pq st swapped_def ..
    qed
    show "returns (sift_step key (int l) t) (\<lambda>t'. ?I t' \<and> (case t' of (y, j) \<Rightarrow> nat (int l - j)) < (case t of (y, j) \<Rightarrow> nat (int l - j)))"
    proof (cases "key (y ! (m - 1)) > key (y ! (i - 1))")
      case True
      have "hole_at key (swapped y i m) f l m" by (rule hole_sinks [OF t(4) assms(1) t(2) yl(1) m(1,2) big True])
      moreover have "shuffled l x (swapped y i m)" using t(3) shuffled_swapped [OF yl(2) m(3,2) yl(1)] by (rule shuffled_trans)
      ultimately show ?thesis unfolding e using True m t(2) by (auto simp: t(1))
    next
      case False
      then have "above_kids key y l i" using big by (auto simp: above_kids_def not_less)
      then have h: "heap_from key y f l" by (rule hole_closed [OF t(4)])
      have "hole_at key y f l l" using h above_no_kids il yl(2) by (auto simp: heap_from_def hole_at_def)
      then show ?thesis unfolding e using False t(2,3) il yl(2) by (auto simp: t(1))
    qed
  qed auto
  then obtain y i where y: "c_while ?b (sift_step key (int l)) (x, int f) = Some (y, int i)" "shuffled l x y" "hole_at key y f l i" "\<not> int i \<le> int l div 2"
    by (auto elim!: returnsE)
  have "l < 2 * i" using y(4) by linarith
  then have "heap_from key y f l" using hole_closed [OF y(3)] above_no_kids by blast
  then show ?thesis unfolding sift_def y(1) using y(2) by simp
qed

section \<open>Sorting\<close>

lemma heap_root: "heap_from key x 1 l \<Longrightarrow> 0 < i \<Longrightarrow> i \<le> l \<Longrightarrow> key (x ! (i - 1)) \<le> key (x ! 0)"
proof (induction i rule: less_induct)
  case (less i)
  show ?case
  proof (cases "i = 1")
    case False
    let ?p = "i div 2"
    have p: "0 < ?p" "?p < i" "i \<in> {2 * ?p, 2 * ?p + 1}" using less.prems(2) False by auto
    have "above_kids key x l ?p" using less.prems(1) p(1) by (simp add: heap_from_def)
    then have "key (x ! (i - 1)) \<le> key (x ! (?p - 1))" using p(3) less.prems(3) unfolding above_kids_def by blast
    also have "\<dots> \<le> key (x ! 0)" using less p by simp
    finally show ?thesis .
  qed simp
qed

lemma build_heap:
  assumes "heap_from key x (Suc h) n" "n \<le> length x"
  shows "returns (for_each (\<lambda>i x. sift key x i (int n)) (rev [1..int h]) x) (\<lambda>x'. shuffled n x x' \<and> heap_from key x' 1 n)"
  using assms
proof (induction h arbitrary: x)
  case (Suc h)
  have r: "rev [1..int (Suc h)] = int (Suc h) # rev [1..int h]" by (simp add: upto_rec2)
  obtain y where y: "sift key x (int (Suc h)) (int n) = Some y" "shuffled n x y" "heap_from key y (Suc h) n"
    using sift_heap [OF _ Suc.prems(2,1)] by (auto elim!: returnsE)
  have "n \<le> length y" using y(2) Suc.prems(2) by (simp add: shuffled_def)
  from Suc.IH [OF y(3) this] show ?case unfolding r for_each.simps y(1) Option.bind_lunit
    by (rule returns_mono) (auto intro: shuffled_trans [OF y(2)])
qed simp

text \<open>The elements behind the heap are sorted and not smaller than those of the heap.\<close>

definition behind_sorted :: "('a \<Rightarrow> 'k::linorder) \<Rightarrow> 'a list \<Rightarrow> nat \<Rightarrow> bool" where
  "behind_sorted key x p \<longleftrightarrow> p \<le> length x \<and> heap_from key x 1 p \<and> sorted (List.map key (drop p x)) \<and> (\<forall>a\<in>set (take p x). \<forall>b\<in>set (drop p x). key a \<le> key b)"

lemma sort_step_behind:
  assumes b: "behind_sorted key x (Suc q)" and q: "0 < q"
  shows "returns (sort_step key (int (Suc q)) x) (\<lambda>z. mset z = mset x \<and> behind_sorted key z q)"
proof -
  have l: "Suc q \<le> length x" and h: "heap_from key x 1 (Suc q)" and s: "sorted (List.map key (drop (Suc q) x))"
    and le: "\<forall>a\<in>set (take (Suc q) x). \<forall>b\<in>set (drop (Suc q) x). key a \<le> key b" using b by (simp_all add: behind_sorted_def)
  define w where "w = swapped x 1 (Suc q)"
  have yx: "length w = length x" "w = x[0 := x ! q, q := x ! 0]" using q by (simp_all add: w_def swapped_def list_update_swap)
  have y: "w ! i = (if i = 0 then x ! q else if i = q then x ! 0 else x ! i)" if "i < length x" for i
    unfolding yx(2) using that q l by (auto simp: nth_list_update)
  have st: "sort_step key (int (Suc q)) x = sift key w (int 1) (int q)"
    using l q unfolding sort_step_def yx(2) by (auto simp: aget_def aset_def)
  have "heap_from key w (Suc 1) q"
    unfolding heap_from_def above_kids_def
  proof (intro allI impI ballI)
    fix i c assume i: "Suc 1 \<le> i" "c \<in> {2 * i, 2 * i + 1}" "c \<le> q"
    have "above_kids key x (Suc q) i" using h i(1) by (simp add: heap_from_def)
    then have "key (x ! (c - 1)) \<le> key (x ! (i - 1))" using i(2,3) unfolding above_kids_def by (metis le_SucI)
    moreover have "w ! (c - 1) = x ! (c - 1)" "w ! (i - 1) = x ! (i - 1)" using i l by (auto simp: y)
    ultimately show "key (w ! (c - 1)) \<le> key (w ! (i - 1))" by simp
  qed
  then obtain z where z: "sift key w (int 1) (int q) = Some z" "shuffled q w z" "heap_from key z 1 q"
    using sift_heap [of 1 q w key] l yx(1) by (auto elim!: returnsE)
  have dq: "drop q z = x ! 0 # drop (Suc q) x"
  proof -
    have "drop q z = drop q w" using z(2) by (simp add: shuffled_def)
    also have "\<dots> = w ! q # drop (Suc q) w" using l yx(1) by (intro Cons_nth_drop_Suc [symmetric]) simp
    also have "\<dots> = x ! 0 # drop (Suc q) x" using y [of q] l q by (simp add: yx(2))
    finally show ?thesis .
  qed
  have root: "key a \<le> key (x ! 0)" if "a \<in> set (take (Suc q) x)" for a
  proof -
    obtain i where "i < Suc q" "a = x ! i" using \<open>a \<in> set (take (Suc q) x)\<close> l by (auto simp: in_set_conv_nth)
    then show ?thesis using heap_root [OF h, of "Suc i"] by simp
  qed
  have sub: "set (take q z) \<subseteq> set (take (Suc q) x)"
  proof -
    have "set (take q z) = set (take q w)" by (rule shuffled_set [OF z(2)])
    also have "\<dots> \<subseteq> set (take (Suc q) x)"
    proof
      fix a assume "a \<in> set (take q w)"
      then obtain i where i: "i < q" "a = w ! i" using l yx(1) by (auto simp: in_set_conv_nth)
      then have "a = x ! (if i = 0 then q else i)" using y [of i] l by simp
      then show "a \<in> set (take (Suc q) x)" using i(1) l by (auto simp: in_set_conv_nth intro!: exI [of _ "if i = 0 then q else i"])
    qed
    finally show ?thesis .
  qed
  have x0: "x ! 0 \<in> set (take (Suc q) x)" using l by (cases x) simp_all
  have "behind_sorted key z q"
    unfolding behind_sorted_def dq
  proof (intro conjI)
    show "q \<le> length z" using z(2) yx(1) l by (simp add: shuffled_def)
    show "sorted (List.map key (x ! 0 # drop (Suc q) x))" using s le x0 by simp
    show "\<forall>a\<in>set (take q z). \<forall>b\<in>set (x ! 0 # drop (Suc q) x). key a \<le> key b" using sub root le by auto
  qed (rule z(3))
  moreover have "mset z = mset x"
    using shuffled_mset [OF z(2)] shuffled_mset [OF shuffled_swapped [of 1 "Suc q" "Suc q" x]] q l by (simp add: w_def)
  ultimately show ?thesis unfolding st z(1) by simp
qed

lemma sort_loop:
  assumes "behind_sorted key x p"
  shows "returns (for_each (sort_step key) (rev [2..int p]) x) (\<lambda>z. mset z = mset x \<and> sorted (List.map key z))"
  using assms
proof (induction p arbitrary: x)
  case 0
  then show ?case by (simp add: behind_sorted_def)
next
  case (Suc q)
  show ?case
  proof (cases "q = 0")
    case True
    have "sorted (List.map key x)" using Suc.prems True by (cases x) (auto simp: behind_sorted_def)
    then show ?thesis using True by simp
  next
    case False
    have r: "rev [2..int (Suc q)] = int (Suc q) # rev [2..int q]" using False by (simp add: upto_rec2)
    obtain y where y: "sort_step key (int (Suc q)) x = Some y" "mset y = mset x" "behind_sorted key y q"
      using sort_step_behind [OF Suc.prems] False by (auto elim!: returnsE)
    show ?thesis unfolding r for_each.simps y(1) Option.bind_lunit using Suc.IH [OF y(3)] y(2) by simp
  qed
qed

lemma heap_sort_sorts:
  assumes "length x < 2 ^ 31" "unat n = length x"
  shows "returns (heap_sort key x n) (\<lambda>z. mset z = mset x \<and> sorted (List.map key z))"
proof -
  let ?n = "length x"
  have u: "uint n = int ?n" unfolding assms(2) [symmetric] by simp
  have "sint n = int ?n" using assms by (subst sint_small) (simp_all add: u)
  have d: "uint n div 2 = int (?n div 2)" by (simp add: u zdiv_int)
  have "heap_from key x (Suc (?n div 2)) ?n" unfolding heap_from_def by (intro allI impI above_no_kids) linarith
  then obtain y where y: "for_each (\<lambda>i x. sift key x i (int ?n)) (rev [1..int (?n div 2)]) x = Some y" "shuffled ?n x y" "heap_from key y 1 ?n"
    using build_heap [of key x "?n div 2" ?n] by (auto elim!: returnsE)
  have b: "behind_sorted key y ?n" using y(2,3) by (simp add: behind_sorted_def shuffled_def)
  show ?thesis unfolding heap_sort_def d unfolding u \<open>sint n = int ?n\<close> y(1) Option.bind_lunit
    using sort_loop [OF b] shuffled_mset [OF y(2)] by simp
qed

end
