(* ===== verification/Dc_Partition.thy ===== *)
theory Dc_Partition
  imports Dc_Cube Heap_Sort
begin

text \<open>
  The end of \<open>DC/jobcntl.c\<close>: the views named in the text of the expected sizes are sorted by their sizes and dealt out to the
  tasks, back and forth, beginning with the largest; the views of this task are sorted by their numbers of attributes and written to
  its file of the group-bys, those with the most attributes first.
\<close>

unbundle bit_operations_syntax

section \<open>Sorting\<close>

record TUPLE_VIEWSIZE =
  viewsize :: "64 word"
  tv_tuple :: "64 word"

record TUPLE_ONES =
  nOnes :: "32 word"
  to_tuple :: "64 word"

definition restore :: "TUPLE_VIEWSIZE list \<Rightarrow> int \<Rightarrow> int \<Rightarrow> TUPLE_VIEWSIZE list option" where
  "restore = sift viewsize"

definition vszsort :: "TUPLE_VIEWSIZE list \<Rightarrow> 32 word \<Rightarrow> TUPLE_VIEWSIZE list option" where
  "vszsort = heap_sort viewsize"

definition restoreo :: "TUPLE_ONES list \<Rightarrow> int \<Rightarrow> int \<Rightarrow> TUPLE_ONES list option" where
  "restoreo = sift nOnes"

definition onessort :: "TUPLE_ONES list \<Rightarrow> 32 word \<Rightarrow> TUPLE_ONES list option" where
  "onessort = heap_sort nOnes"

section \<open>Dealing out the views\<close>

definition MAX_NUMBER_OF_TASKS :: nat where "MAX_NUMBER_OF_TASKS = 256"

text \<open>The task that gets the next view, and the direction; at both ends a task gets two views in a row.\<close>

definition next_task :: "32 word \<Rightarrow> 32 word \<times> bool \<Rightarrow> 32 word \<times> bool" where
  "next_task nTasks = (\<lambda>(pn, direction).
     let (direction, dChange) = (if \<not> direction \<and> pn = nTasks - 1 then (True, True) else (direction, False));
         (direction, dChange) = (if direction \<and> pn = 0 then (False, True) else (direction, dChange))
     in (if dChange then pn else if direction then pn - 1 else pn + 1, direction))"

text \<open>The tuples of this task, which lie in the block of the tree, and the number and the sizes of the views of all tasks.\<close>

record deal_state =
  ds_pn :: "32 word \<times> bool"
  gbuf :: "64 word list"
  nGroupbys :: "32 word list"
  vszs :: "64 word list"

definition deal :: "ADC_VIEW_CNTL \<Rightarrow> TUPLE_VIEWSIZE \<Rightarrow> deal_state \<Rightarrow> deal_state option" where
  "deal avp t s = do {
     let (pn, direction) = ds_pn s;
     c_assert (pn = taskNumber avp \<longrightarrow> 8 * (length (gbuf s) + 1) \<le> unat (memoryLimitv avp));
     let gb = (if pn = taskNumber avp then gbuf s @ [tv_tuple t] else gbuf s);
     n \<leftarrow> aget (nGroupbys s) (uint pn);
     ns \<leftarrow> aset (nGroupbys s) (uint pn) (n + 1);
     v \<leftarrow> aget (vszs s) (uint pn);
     vs \<leftarrow> aset (vszs s) (uint pn) (v + viewsize t);
     Some \<lparr>ds_pn = next_task (nTasksv avp) (pn, direction), gbuf = gb, nGroupbys = ns, vszs = vs\<rparr> }"

text \<open>The blocks that \<open>malloc\<close> is asked for; \<open>alloc\<close> tells which it returns.\<close>

datatype block = CntlBlock | ChunksBlock | PoolBlock | TreeBlock | JobsBlock | LayersBlock | TuplesBlock | OnesBlock

text \<open>The arrays are cleared before the loop.  \<open>qsort\<close> permutes \<open>gbuf\<close> after its tuples were copied, and nothing reads it
  again.  The file of the group-bys is empty before, and is read from its beginning afterwards.\<close>

definition MultiFileProcJobs :: "(block \<Rightarrow> bool) \<Rightarrow> TUPLE_VIEWSIZE list \<Rightarrow> 32 word \<Rightarrow> ADC_VIEW_CNTL \<Rightarrow> (int \<times> ADC_VIEW_CNTL) option" where
  "MultiFileProcJobs alloc tuplesAndSizes nViews avp = do {
     (ns, vs) \<leftarrow> for_range 0 (uint (nTasksv avp)) (\<lambda>i (ns, vs). do { ns \<leftarrow> aset ns i 0; vs \<leftarrow> aset vs i 0; Some (ns, vs) })
       (replicate MAX_NUMBER_OF_TASKS 0, replicate MAX_NUMBER_OF_TASKS 0);
     s \<leftarrow> for_each (\<lambda>ii s. do { t \<leftarrow> aget tuplesAndSizes ii; deal avp t s }) (rev [0..sint (nViews - 1)])
       \<lparr>ds_pn = (0, False), gbuf = [], nGroupbys = ns, vszs = vs\<rparr>;
     if \<not> alloc OnesBlock then Some (1, avp)
     else if taskNumber avp < nTasksv avp then do {
       n \<leftarrow> aget (nGroupbys s) (uint (taskNumber avp));
       gs \<leftarrow> for_range 0 (uint n) (\<lambda>j gs. do {
         g \<leftarrow> aget (gbuf s) j; Some (gs @ [\<lparr>nOnes = countTupleOnes g (nTopDims avp), to_tuple = g\<rparr>]) }) [];
       gs \<leftarrow> onessort gs n;
       c_assert (0 < nTopDims avp \<and> nTopDims avp \<le> 64);
       file \<leftarrow> for_range 0 (uint n) (\<lambda>j file. do {
         g \<leftarrow> aget gs (uint n - 1 - j); Some (file @ [swap8 (push_bit (64 - unat (nTopDims avp)) (to_tuple g))]) }) (groupbyFile avp);
       Some (0, avp\<lparr>groupbyFile := file\<rparr>) }
     else Some (0, avp) }"

section \<open>The views in the text\<close>

definition ADC_MEMORY_ALLOCATION_FAILURE :: int where "ADC_MEMORY_ALLOCATION_FAILURE = 5"

text \<open>The array has \<open>nViewLimit\<close> entries.\<close>

definition note_size :: "ADC_VIEW_CNTL \<Rightarrow> 32 word list \<Rightarrow> int \<Rightarrow> TUPLE_VIEWSIZE list \<Rightarrow> TUPLE_VIEWSIZE list option" where
  "note_size avp sel n ts = do {
     let sz = (word_of_int n :: 64 word);
     tx \<leftarrow> CreateBinTuple sel (of_nat (length sel));
     let sz = (if sz > ucast (nInputRecs avp) then ucast (nInputRecs avp) else sz);
     c_assert (length ts < unat (nViewLimit avp));
     Some (ts @ [\<lparr>viewsize = sz, tv_tuple = tx\<rparr>]) }"

partial_function (option) read_sizes :: "ADC_VIEW_CNTL \<Rightarrow> string list \<times> 32 word list \<times> TUPLE_VIEWSIZE list \<Rightarrow> TUPLE_VIEWSIZE list option" where
  "read_sizes avp s =
     (let toks = fst s; sel = fst (snd s); ts = snd (snd s) in
      if toks = [] then Some ts
      else if hd toks = ''Selection:'' then do {
        (sel, toks) \<leftarrow> read_selection (tl toks) sel;
        read_sizes avp (toks, sel, ts) }
      else if hd toks = ''Size:'' then do {
        n \<leftarrow> atoi (if tl toks = [] then hd toks else hd (tl toks));
        ts \<leftarrow> note_size avp sel n ts;
        read_sizes avp (tl (tl toks), [], ts) }
      else read_sizes avp (tl toks, sel, ts))"

definition PartitionCube :: "(block \<Rightarrow> bool) \<Rightarrow> ADC_VIEW_CNTL \<Rightarrow> (int \<times> ADC_VIEW_CNTL) option" where
  "PartitionCube alloc avp =
     (if \<not> alloc TuplesBlock then Some (ADC_MEMORY_ALLOCATION_FAILURE, avp)
      else do {
        ts \<leftarrow> read_sizes avp (adcViewSizesFile avp, [], []);
        let n = (of_nat (length ts) :: 32 word);
        ts \<leftarrow> vszsort ts n;
        c_assert (0 < nTopDims avp \<and> nTopDims avp \<le> 64);
        let ts = List.map (\<lambda>t. t\<lparr>tv_tuple := drop_bit (64 - unat (nTopDims avp)) (tv_tuple t)\<rparr>) ts;
        (r, avp) \<leftarrow> MultiFileProcJobs alloc ts n avp;
        if r \<noteq> 0 then Some (1, avp) else Some (0, avp) })"

end
