(* ===== verification/Dc_Dealt.thy ===== *)
theory Dc_Dealt
  imports Dc_Sizes Dc_Partition
begin

text \<open>
  What \<open>PartitionCube\<close> does: it reads the views of the text, and each view is written to the file of exactly one task,
  where the views with the most attributes come first, so that a view is made after those it can be computed from.
\<close>

unbundle bit_operations_syntax

section \<open>Reading the views\<close>

definition size_entry :: "ADC_VIEW_CNTL \<Rightarrow> nat list \<times> nat \<Rightarrow> TUPLE_VIEWSIZE" where
  "size_entry avp = (\<lambda>(A, s). \<lparr>viewsize = (if (of_nat s :: 64 word) > ucast (nInputRecs avp) then ucast (nInputRecs avp) else of_nat s),
     tv_tuple = the (CreateBinTuple (List.map (\<lambda>i. of_nat (Suc i)) A) (of_nat (length A)))\<rparr>)"

lemma size_entry_attrs: "words_ok n e \<Longrightarrow> n \<le> 32 \<Longrightarrow> attrs (tv_tuple (size_entry avp e)) n = fst e"
  using tuple_attrs [of n "fst e" "snd e"] by (cases e) (auto simp: size_entry_def elim!: returnsE)

lemma read_sizes_other:
  assumes "''Selection:'' \<notin> set toks" "''Size:'' \<notin> set toks"
  shows "read_sizes avp (toks, sel, ts) = Some ts"
  using assms
proof (induction toks)
  case (Cons t toks)
  then show ?case by (subst read_sizes.simps) auto
qed (subst read_sizes.simps, simp)

lemma read_sizes_words:
  assumes n: "unat (nTopDims avp) \<le> 32" and w: "\<forall>e\<in>set es. words_ok (unat (nTopDims avp)) e" and t: "''Selection:'' \<notin> set toks" "''Size:'' \<notin> set toks"
    and l: "length ts + length es \<le> unat (nViewLimit avp)"
  shows "read_sizes avp (concat (List.map view_words es) @ toks, [], ts) = Some (ts @ List.map (size_entry avp) es)"
  using w l
proof (induction es arbitrary: ts)
  case Nil
  then show ?case using read_sizes_other [OF t] by simp
next
  case (Cons e es)
  obtain A s where e: "e = (A, s)" by (cases e)
  let ?sel = "List.map (\<lambda>i. of_nat (Suc i)) A :: 32 word list" and ?rest = "concat (List.map view_words es) @ toks" and ?t = "size_entry avp (A, s)"
  have wo: "words_ok (unat (nTopDims avp)) (A, s)" using Cons.prems(1) by (simp add: e)
  note wd = words_okD [OF wo n]
  have r: "read_selection (List.map (\<lambda>i. decimal (Suc i)) A @ ''View'' # ''Size:'' # decimal s # ?rest) [] = Some (?sel, ''Size:'' # decimal s # ?rest)"
    using wd n by (subst read_selection_words) auto
  obtain b where b: "CreateBinTuple ?sel (of_nat (length A)) = Some b" using tuple_attrs [OF wo n] by (auto elim!: returnsE)
  have nz: "note_size avp ?sel (int s) ts = Some (ts @ [?t])"
    using b Cons.prems(2) by (simp add: note_size_def Let_def size_entry_def)
  have "read_sizes avp (''Size:'' # decimal s # ?rest, ?sel, ts) = read_sizes avp (?rest, [], ts @ [?t])"
    using atoi_decimal [OF wd(3)] nz by (subst read_sizes.simps) (simp cong: if_cong)
  then have st: "read_sizes avp (view_words (A, s) @ ?rest, [], ts) = read_sizes avp (?rest, [], ts @ [?t])"
    using r by (subst read_sizes.simps) (simp add: view_words_def)
  have "read_sizes avp (?rest, [], ts @ [?t]) = Some ((ts @ [?t]) @ List.map (size_entry avp) es)" using Cons.prems by (intro Cons.IH) simp_all
  then show ?case using st by (simp add: e)
qed

section \<open>The numbers of attributes\<close>

lemma tuple_ones_filter:
  "i + m \<le> 64 \<Longrightarrow> tuple_ones_loop m (push_bit i 1) s k = k + of_nat (length (filter (bit s) [i..<i + m]))"
proof (induction m arbitrary: i k)
  case (Suc m)
  have u: "[i..<i + Suc m] = i # [Suc i..<Suc i + m]" by (simp add: upt_conv_Cons)
  have b: "s AND push_bit i 1 = 0 \<longleftrightarrow> \<not> bit s i" using Suc.prems by (simp add: push_bit_eq_mult and_exp_eq_0_iff_not_bit)
  have p: "push_bit 1 (push_bit i 1) = (push_bit (Suc i) 1 :: 64 word)" by (simp add: push_bit_push_bit)
  have "tuple_ones_loop m (push_bit (Suc i) 1) s k' = k' + of_nat (length (filter (bit s) [Suc i..<Suc i + m]))" for k'
    using Suc.prems by (intro Suc.IH) simp
  then show ?case unfolding u tuple_ones_loop.simps p using b by (simp add: ac_simps)
qed simp

lemma countTupleOnes_attrs:
  assumes "n \<le> 32"
  shows "countTupleOnes s (of_nat n) = of_nat (length (attrs (push_bit (64 - n) s) n))"
proof -
  have r: "rev [0..<n] = List.map (\<lambda>i. n - 1 - i) [0..<n]" by (rule nth_equalityI) (simp_all add: rev_nth)
  have b: "bit (push_bit (64 - n) s) (63 - i) = bit s (n - 1 - i)" if "i < n" for i
  proof -
    have "63 - i - (64 - n) = n - 1 - i" "64 - n \<le> 63 - i" "63 - i < 64" using that assms by simp_all
    then show ?thesis using that assms by (simp add: bit_push_bit_iff)
  qed
  have "length (filter (bit s) [0..<n]) = length (filter (bit s) (rev [0..<n]))" by (simp add: rev_filter [symmetric])
  also have "\<dots> = length (filter (\<lambda>i. bit s (n - 1 - i)) [0..<n])" unfolding r by (simp add: filter_map o_def)
  also have "filter (\<lambda>i. bit s (n - 1 - i)) [0..<n] = attrs (push_bit (64 - n) s) n" unfolding attrs_def using b by (intro filter_cong) auto
  finally have e: "length (filter (bit s) [0..<n]) = length (attrs (push_bit (64 - n) s) n)" .
  have "unat (of_nat n :: 32 word) = n" using assms by (intro small_word) simp
  then show ?thesis using tuple_ones_filter [of 0 n s 0] assms by (simp add: countTupleOnes_def e)
qed

section \<open>Dealing\<close>

lemma aget_uint: "unat w < length xs \<Longrightarrow> aget xs (uint w) = Some (xs ! unat w)"
  unfolding uint_nat by (rule aget_int)

lemma aset_uint: "unat w < length xs \<Longrightarrow> aset xs (uint w) v = Some (xs[unat w := v])"
  unfolding uint_nat by (rule aset_int)

primrec task_of :: "32 word \<Rightarrow> nat \<Rightarrow> 32 word \<times> bool" where
  "task_of T 0 = (0, False)"
| "task_of T (Suc i) = next_task T (task_of T i)"

lemma task_of_below: "0 < T \<Longrightarrow> fst (task_of T i) < T"
proof (induction i)
  case (Suc i)
  obtain p d where p: "task_of T i = (p, d)" by (cases "task_of T i")
  have lt: "p < T" using Suc by (simp add: p)
  have "p + 1 < T" if "p \<noteq> T - 1" using that lt by (metis inc_le add_diff_cancel_right' order_le_less)
  moreover have "p - 1 < T" if "p \<noteq> 0" using that lt by (metis less_trans word_gt_0 measure_unat word_less_nat_alt)
  ultimately show ?case using lt by (auto simp: p next_task_def Let_def)
qed simp

definition dealt :: "32 word \<Rightarrow> 32 word \<Rightarrow> 'a list \<Rightarrow> 'a list" where
  "dealt T k xs = List.map fst (filter (\<lambda>(x, i). fst (task_of T i) = k) (zip xs [0..<length xs]))"

lemma dealt_simps [simp]: "dealt T k [] = []" "dealt T k (xs @ [x]) = dealt T k xs @ (if fst (task_of T (length xs)) = k then [x] else [])"
  by (simp_all add: dealt_def)

lemma dealt_length: "length (dealt T k xs) \<le> length xs"
  by (induction xs rule: rev_induct) simp_all

lemma dealt_all:
  assumes "0 < T"
  shows "mset (concat (List.map (\<lambda>k. dealt T (of_nat k) xs) [0..<unat T])) = mset xs"
proof (induction xs rule: rev_induct)
  case (snoc x xs)
  let ?p = "unat (fst (task_of T (length xs)))"
  have p: "?p < unat T" using task_of_below [OF assms] by (simp add: word_less_nat_alt [symmetric])
  have e: "(fst (task_of T (length xs)) = of_nat k) = (k = ?p)" if "k < unat T" for k
  proof -
    have "k < 2 ^ 32" using that unsigned_less [of T, where ?'a = nat] by simp
    then have "unat (of_nat k :: 32 word) = k" by (rule small_word)
    then show ?thesis by (metis word_unat_eq_iff)
  qed
  have s: "mset (concat (List.map (\<lambda>k. dealt T (of_nat k) (xs @ [x])) ks)) =
    mset (concat (List.map (\<lambda>k. dealt T (of_nat k) xs) ks)) + (if ?p \<in> set ks then {#x#} else {#})"
    if "distinct ks" "set ks \<subseteq> {0..<unat T}" for ks
    using that by (induction ks) (auto simp: e)
  show ?case using s [of "[0..<unat T]"] snoc p by simp
qed simp

text \<open>The loop over the views.\<close>

definition deal_inv :: "ADC_VIEW_CNTL \<Rightarrow> TUPLE_VIEWSIZE list \<Rightarrow> deal_state \<Rightarrow> bool" where
  "deal_inv avp xs s \<longleftrightarrow> ds_pn s = task_of (nTasksv avp) (length xs) \<and> gbuf s = List.map tv_tuple (dealt (nTasksv avp) (taskNumber avp) xs) \<and>
     length (nGroupbys s) = MAX_NUMBER_OF_TASKS \<and> length (vszs s) = MAX_NUMBER_OF_TASKS \<and>
     nGroupbys s ! unat (taskNumber avp) = of_nat (length (dealt (nTasksv avp) (taskNumber avp) xs))"

definition tasks_ok :: "ADC_VIEW_CNTL \<Rightarrow> nat \<Rightarrow> bool" where
  "tasks_ok avp n \<longleftrightarrow> unat (nTasksv avp) \<le> MAX_NUMBER_OF_TASKS \<and> taskNumber avp < nTasksv avp \<and> 8 * n \<le> unat (memoryLimitv avp) \<and> n < 2 ^ 31 \<and>
     0 < nTopDims avp \<and> nTopDims avp \<le> 32 \<and> groupbyFile avp = []"

lemma deal_one:
  assumes t: "tasks_ok avp n" and l: "length xs < n" and i: "deal_inv avp xs s"
  shows "returns (deal avp x s) (deal_inv avp (xs @ [x]))"
proof -
  let ?T = "nTasksv avp" and ?k = "taskNumber avp"
  obtain p d where p: "task_of ?T (length xs) = (p, d)" by (cases "task_of ?T (length xs)")
  have T: "0 < ?T" "unat ?T \<le> MAX_NUMBER_OF_TASKS" "?k < ?T" using t by (auto simp: tasks_ok_def intro: le_less_trans)
  have "p < ?T" using task_of_below [OF T(1), of "length xs"] by (simp add: p)
  then have u: "unat p < MAX_NUMBER_OF_TASKS" "unat ?k < MAX_NUMBER_OF_TASKS" using T(2,3) by (simp_all add: word_less_nat_alt)
  have gl: "length (gbuf s) < n" using i dealt_length [of ?T ?k xs] l by (simp add: deal_inv_def)
  have m: "8 * (length (gbuf s) + 1) \<le> unat (memoryLimitv avp)" using t gl by (simp add: tasks_ok_def)
  have ls: "length (nGroupbys s) = MAX_NUMBER_OF_TASKS" "length (vszs s) = MAX_NUMBER_OF_TASKS" using i by (simp_all add: deal_inv_def)
  have ar: "aget (nGroupbys s) (uint p) = Some (nGroupbys s ! unat p)" "aset (nGroupbys s) (uint p) v = Some ((nGroupbys s)[unat p := v])"
    "aget (vszs s) (uint p) = Some (vszs s ! unat p)" "aset (vszs s) (uint p) w = Some ((vszs s)[unat p := w])" for v w
    by (rule aget_uint aset_uint; use u(1) ls in simp)+
  have pk: "unat p = unat ?k \<longleftrightarrow> p = ?k" by (simp add: word_unat_eq_iff)
  have "deal avp x s = Some \<lparr>ds_pn = next_task ?T (p, d), gbuf = (if p = ?k then gbuf s @ [tv_tuple x] else gbuf s),
      nGroupbys = (nGroupbys s)[unat p := nGroupbys s ! unat p + 1], vszs = (vszs s)[unat p := vszs s ! unat p + viewsize x]\<rparr>"
    using i m unfolding deal_def by (simp add: deal_inv_def p ar)
  then show ?thesis using i u ls pk by (auto simp: deal_inv_def p nth_list_update ac_simps)
qed

lemma deal_all:
  assumes t: "tasks_ok avp (length xs)" and s: "deal_inv avp [] s"
  shows "returns (for_each (\<lambda>ii s. do { t \<leftarrow> aget xs ii; deal avp t s }) (rev [0..int (length xs) - 1]) s) (deal_inv avp (rev xs))"
proof -
  have "rev [0..int (length xs) - 1] = List.map int (rev [0..<length xs])"
  proof -
    have "[0..int (length xs) - 1] = List.map int [0..<length xs]" by (rule nth_equalityI) auto
    then show ?thesis by (simp add: rev_map)
  qed
  then have "for_each (\<lambda>ii s. do { t \<leftarrow> aget xs ii; deal avp t s }) (rev [0..int (length xs) - 1]) s = for_each (\<lambda>i s. do { t \<leftarrow> aget xs (int i); deal avp t s }) (rev [0..<length xs]) s"
    by (simp add: for_each_map)
  also have "\<dots> = for_each (\<lambda>i. deal avp (xs ! i)) (rev [0..<length xs]) s" by (rule for_each_cong) (simp add: aget_int)
  also have "\<dots> = for_each (deal avp) (List.map ((!) xs) (rev [0..<length xs])) s" by (simp only: for_each_map)
  also have "List.map ((!) xs) (rev [0..<length xs]) = rev xs" by (simp add: rev_map [symmetric] map_nth)
  finally have e: "for_each (\<lambda>ii s. do { t \<leftarrow> aget xs ii; deal avp t s }) (rev [0..int (length xs) - 1]) s = for_each (deal avp) (rev xs) s" .
  show ?thesis unfolding e
  proof (rule returns_for_each [where I = "deal_inv avp", OF s])
    fix ys y zs s' assume r: "rev xs = ys @ y # zs" and i: "deal_inv avp ys s'"
    have "length ys < length xs" using arg_cong [OF r, of length] by simp
    then show "returns (deal avp y s') (deal_inv avp (ys @ [y]))" by (rule deal_one [OF t _ i])
  qed
qed

section \<open>The file of a task\<close>

definition file_word :: "nat \<Rightarrow> 64 word \<Rightarrow> 64 word" where
  "file_word n g = swap8 (push_bit (64 - n) g)"

lemma attrs_file_word: "attrs_of avp (file_word (unat (nTopDims avp)) g) = attrs (push_bit (64 - unat (nTopDims avp)) g) (unat (nTopDims avp))"
  by (simp add: attrs_of_def file_word_def)

text \<open>A file that holds the given tuples, those with more attributes first.\<close>

definition holds_tuples :: "ADC_VIEW_CNTL \<Rightarrow> 64 word list \<Rightarrow> 64 word list \<Rightarrow> bool" where
  "holds_tuples avp gs file \<longleftrightarrow> mset file = mset (List.map (file_word (unat (nTopDims avp))) gs) \<and>
     sorted_wrt (\<lambda>a b. length (attrs_of avp b) \<le> length (attrs_of avp a)) file"

lemma written_reversed:
  assumes "uint n = int (length gs)"
  shows "for_range 0 (uint n) (\<lambda>j fl. do { g \<leftarrow> aget gs (uint n - 1 - j); Some (fl @ [h g]) }) f = Some (f @ List.map h (rev gs))"
proof -
  have "returns (for_range 0 (uint n) (\<lambda>j fl. do { g \<leftarrow> aget gs (uint n - 1 - j); Some (fl @ [h g]) }) f) (\<lambda>fl. fl = f @ List.map h (take (nat (uint n)) (rev gs)))"
  proof (rule returns_rangeI [where I = "\<lambda>j fl. fl = f @ List.map h (take (nat j) (rev gs))"])
    fix j :: int and fl assume j: "0 \<le> j" "j < uint n" and I: "fl = f @ List.map h (take (nat j) (rev gs))"
    obtain i where i: "j = int i" using nonneg_int_cases [OF j(1)] by blast
    have il: "i < length gs" using j(2) by (simp add: assms i)
    have "uint n - 1 - j = int (length gs - Suc i)" using il by (simp add: assms i of_nat_diff)
    moreover have "aget gs (int (length gs - Suc i)) = Some (gs ! (length gs - Suc i))" using il by (intro aget_int) simp
    moreover have "take (Suc i) (rev gs) = take i (rev gs) @ [gs ! (length gs - Suc i)]" using il by (simp add: take_Suc_conv_app_nth rev_nth)
    moreover have "nat (j + 1) = Suc i" "nat j = i" by (simp_all add: i)
    ultimately show "returns (do { g \<leftarrow> aget gs (uint n - 1 - j); Some (fl @ [h g]) }) (\<lambda>fl. fl = f @ List.map h (take (nat (j + 1)) (rev gs)))"
      using I by simp
  qed simp_all
  then show ?thesis by (auto simp: assms elim!: returnsE)
qed

lemma MultiFileProcJobs_file:
  assumes t: "tasks_ok avp (length xs)" and n: "unat nViews = length xs"
  shows "returns (MultiFileProcJobs (\<lambda>_. True) xs nViews avp) (\<lambda>(r, d). r = 0 \<and>
    (\<exists>fl. d = avp\<lparr>groupbyFile := fl\<rparr> \<and> holds_tuples avp (List.map tv_tuple (dealt (nTasksv avp) (taskNumber avp) (rev xs))) fl))"
proof -
  let ?T = "nTasksv avp" and ?k = "taskNumber avp" and ?n = "unat (nTopDims avp)"
  let ?gs = "List.map tv_tuple (dealt ?T ?k (rev xs))"
  have T: "0 < ?T" "unat ?T \<le> MAX_NUMBER_OF_TASKS" "?k < ?T" using t by (auto simp: tasks_ok_def intro: le_less_trans)
  have td: "0 < nTopDims avp" "nTopDims avp \<le> 64" "?n \<le> 32" and gf: "groupbyFile avp = []" and xl: "length xs < 2 ^ 31"
    using t by (auto simp: tasks_ok_def word_le_nat_alt)
  let ?Z = "replicate MAX_NUMBER_OF_TASKS (0 :: 32 word)" and ?W = "replicate MAX_NUMBER_OF_TASKS (0 :: 64 word)"
  have z: "for_range 0 (uint ?T) (\<lambda>i (ns, vs). do { ns \<leftarrow> aset ns i 0; vs \<leftarrow> aset vs i 0; Some (ns, vs) }) (?Z, ?W) = Some (?Z, ?W)"
  proof -
    have ri: "(replicate m x)[i := x] = replicate m x" for m i and x :: "'b :: zero" by (induction m arbitrary: i) (auto split: nat.split)
    have "returns (for_range 0 (uint ?T) (\<lambda>i (ns, vs). do { ns \<leftarrow> aset ns i 0; vs \<leftarrow> aset vs i 0; Some (ns, vs) }) (?Z, ?W)) (\<lambda>s. s = (?Z, ?W))"
    proof (rule returns_rangeI [where I = "\<lambda>_ s. s = (?Z, ?W)"])
      fix i :: int and s assume i: "0 \<le> i" "i < uint ?T" and s: "s = (?Z, ?W)"
      have "nat i < MAX_NUMBER_OF_TASKS" using i nat_less_unat [OF i] T(2) by linarith
      then show "returns (case s of (ns, vs) \<Rightarrow> do { ns \<leftarrow> aset ns i 0; vs \<leftarrow> aset vs i 0; Some (ns, vs) }) (\<lambda>s. s = (?Z, ?W))"
        using i(1) by (simp add: s aset_def ri)
    qed simp_all
    then show ?thesis by (auto elim!: returnsE)
  qed
  have k: "unat ?k < MAX_NUMBER_OF_TASKS" using T by (simp add: word_less_nat_alt)
  have "deal_inv avp [] \<lparr>ds_pn = (0, False), gbuf = [], nGroupbys = ?Z, vszs = ?W\<rparr>" using k by (simp add: deal_inv_def)
  then obtain s where s: "for_each (\<lambda>ii s. do { t \<leftarrow> aget xs ii; deal avp t s }) (rev [0..int (length xs) - 1]) \<lparr>ds_pn = (0, False), gbuf = [], nGroupbys = ?Z, vszs = ?W\<rparr> = Some s"
    "deal_inv avp (rev xs) s" using deal_all [OF t] by (auto elim!: returnsE)
  have si: "sint (nViews - 1) = int (length xs) - 1"
  proof (cases "length xs = 0")
    case True
    then show ?thesis using n by (simp add: unat_eq_0)
  next
    case False
    then have "nViews \<noteq> 0" using n by auto
    then have "unat (nViews - 1) = length xs - 1" using n by (simp add: unat_minus_one)
    moreover obtain y ys where "xs = y # ys" using False by (cases xs) auto
    ultimately show ?thesis using xl by (subst sint_small) simp_all
  qed
  have gl: "length ?gs < 2 ^ 31" using dealt_length [of ?T ?k "rev xs"] xl by simp
  define n where "n = (of_nat (length ?gs) :: 32 word)"
  have u: "uint n = int (length ?gs)" "unat n = length ?gs" unfolding n_def using gl by (intro small_word; simp)+
  have ng: "aget (nGroupbys s) (uint ?k) = Some n" using s(2) k by (simp add: deal_inv_def aget_uint n_def)
  let ?os = "List.map (\<lambda>g. \<lparr>nOnes = countTupleOnes g (nTopDims avp), to_tuple = g\<rparr>) ?gs"
  have os: "for_range 0 (uint n) (\<lambda>j gs. do { g \<leftarrow> aget (gbuf s) j; Some (gs @ [\<lparr>nOnes = countTupleOnes g (nTopDims avp), to_tuple = g\<rparr>]) }) [] = Some ?os"
  proof -
    have g: "gbuf s = ?gs" using s(2) by (simp add: deal_inv_def)
    have f: "fold (\<lambda>g gs. gs @ [h g]) ys zs = zs @ List.map h ys" for h :: "64 word \<Rightarrow> TUPLE_ONES" and ys zs by (induction ys arbitrary: zs) simp_all
    show ?thesis unfolding g u(1) for_range_list for_each_pure f by simp
  qed
  obtain gs where gs: "onessort ?os n = Some gs" "mset gs = mset ?os" "sorted (List.map nOnes gs)"
    using heap_sort_sorts [of ?os n nOnes] gl u(2) by (auto simp: onessort_def elim!: returnsE)
  have lgs: "length gs = length ?gs" using mset_eq_length [OF gs(2)] by simp
  define fl where "fl = List.map (\<lambda>g. file_word ?n (to_tuple g)) (rev gs)"
  have wr: "for_range 0 (uint n) (\<lambda>j fl. do { g \<leftarrow> aget gs (uint n - 1 - j); Some (fl @ [swap8 (push_bit (64 - ?n) (to_tuple g))]) }) (groupbyFile avp) = Some fl"
    using written_reversed [of n gs "\<lambda>g. file_word ?n (to_tuple g)" "[]"] u(1) lgs unfolding gf fl_def file_word_def by simp
  have "MultiFileProcJobs (\<lambda>_. True) xs nViews avp = Some (0, avp\<lparr>groupbyFile := fl\<rparr>)"
    unfolding MultiFileProcJobs_def z si using s(1) ng os gs(1) wr T(3) td(1,2) by simp
  moreover have "mset fl = mset (List.map (file_word ?n) ?gs)"
  proof -
    have "mset fl = image_mset (\<lambda>g. file_word ?n (to_tuple g)) (mset gs)" by (simp add: fl_def)
    then show ?thesis unfolding gs(2) by (simp add: image_mset.compositionality o_def)
  qed
  moreover have "sorted_wrt (\<lambda>a b. length (attrs_of avp b) \<le> length (attrs_of avp a)) fl"
  proof -
    have no: "unat (nOnes g) = length (attrs_of avp (file_word ?n (to_tuple g)))" if "g \<in> set gs" for g
    proof -
      have "g \<in> set ?os" using mset_eq_setD [OF gs(2)] that by blast
      then have "nOnes g = countTupleOnes (to_tuple g) (nTopDims avp)" by auto
      then have "nOnes g = of_nat (length (attrs_of avp (file_word ?n (to_tuple g))))"
        using countTupleOnes_attrs [OF td(3), of "to_tuple g"] by (simp add: attrs_file_word)
      moreover have "length (attrs_of avp (file_word ?n (to_tuple g))) < 2 ^ 32" using attrs_of_length [of avp "file_word ?n (to_tuple g)"] td(3) by simp
      ultimately show ?thesis by (simp add: small_word)
    qed
    have "sorted_wrt (\<lambda>a b. nOnes a \<le> nOnes b) gs" using gs(3) by (simp add: sorted_map)
    then have "sorted_wrt (\<lambda>a b. length (attrs_of avp (file_word ?n (to_tuple a))) \<le> length (attrs_of avp (file_word ?n (to_tuple b)))) gs"
      by (rule sorted_wrt_mono_rel [rotated]) (simp add: no [symmetric] word_le_nat_alt)
    then show ?thesis by (simp add: fl_def sorted_wrt_map sorted_wrt_rev)
  qed
  ultimately show ?thesis by (auto simp: holds_tuples_def)
qed

section \<open>All tasks\<close>

lemma dealt_map: "dealt T k (List.map f xs) = List.map f (dealt T k xs)"
  by (induction xs rule: rev_induct) simp_all

text \<open>The text of the sizes, as \<open>PartitionCube\<close> needs it.\<close>

definition views_text :: "ADC_VIEW_CNTL \<Rightarrow> (nat list \<times> nat) list \<Rightarrow> bool" where
  "views_text avp es \<longleftrightarrow> length es \<le> unat (nViewLimit avp) \<and> (\<forall>e\<in>set es. words_ok (unat (nTopDims avp)) e) \<and>
     (\<exists>toks. adcViewSizesFile avp = concat (List.map view_words es) @ toks \<and> ''Selection:'' \<notin> set toks \<and> ''Size:'' \<notin> set toks)"

definition tuple_set :: "ADC_VIEW_CNTL \<Rightarrow> 64 word \<Rightarrow> nat list" where
  "tuple_set avp g = attrs_of avp (file_word (unat (nTopDims avp)) g)"

lemma PartitionCube_dealt:
  assumes t: "tasks_ok avp (length es)" and v: "views_text avp es"
  shows "\<exists>gs. mset (List.map (tuple_set avp) gs) = mset (List.map fst es) \<and>
    (\<forall>k. unat k < unat (nTasksv avp) \<longrightarrow> returns (PartitionCube (\<lambda>_. True) (avp\<lparr>taskNumber := k\<rparr>))
      (\<lambda>(r, d). r = 0 \<and> (\<exists>fl. d = avp\<lparr>taskNumber := k, groupbyFile := fl\<rparr> \<and> holds_tuples avp (dealt (nTasksv avp) k gs) fl)))"
proof -
  let ?n = "unat (nTopDims avp)"
  have td: "0 < nTopDims avp" "nTopDims avp \<le> 64" "?n \<le> 32" and el: "length es < 2 ^ 31" using t by (auto simp: tasks_ok_def word_le_nat_alt)
  obtain toks where toks: "adcViewSizesFile avp = concat (List.map view_words es) @ toks" "''Selection:'' \<notin> set toks" "''Size:'' \<notin> set toks"
    and w: "\<forall>e\<in>set es. words_ok ?n e" and l: "length es \<le> unat (nViewLimit avp)" using v unfolding views_text_def by blast
  let ?ts = "List.map (size_entry avp) es"
  define m where "m = (of_nat (length es) :: 32 word)"
  have m: "unat m = length es" unfolding m_def using el by (intro small_word) simp
  obtain zs where zs: "vszsort ?ts m = Some zs" "mset zs = mset ?ts"
    using heap_sort_sorts [of ?ts m viewsize] el m by (auto simp: vszsort_def elim!: returnsE)
  define xs where "xs = List.map (\<lambda>t. t\<lparr>tv_tuple := drop_bit (64 - ?n) (tv_tuple t)\<rparr>) zs"
  have lx: "length xs = length es" using mset_eq_length [OF zs(2)] by (simp add: xs_def)
  define gs where "gs = List.map tv_tuple (rev xs)"
  have at: "tuple_set avp (drop_bit (64 - ?n) (tv_tuple (size_entry avp e))) = fst e" if "e \<in> set es" for e
  proof -
    let ?b = "tv_tuple (size_entry avp e)"
    have "bit (push_bit (64 - ?n) (drop_bit (64 - ?n) ?b)) (63 - i) = bit ?b (63 - i)" if "i < ?n" for i
      using that td(3) by (auto simp: bit_push_bit_iff bit_drop_bit_eq)
    then have "attrs (push_bit (64 - ?n) (drop_bit (64 - ?n) ?b)) ?n = attrs ?b ?n" unfolding attrs_def by (intro filter_cong) auto
    then show ?thesis using size_entry_attrs [OF _ td(3), of e avp] w that by (simp add: tuple_set_def attrs_file_word)
  qed
  have "mset (List.map (tuple_set avp) gs) = image_mset (\<lambda>t. tuple_set avp (drop_bit (64 - ?n) (tv_tuple t))) (mset zs)"
    by (simp add: gs_def xs_def image_mset.compositionality o_def)
  also have "\<dots> = mset (List.map (\<lambda>e. tuple_set avp (drop_bit (64 - ?n) (tv_tuple (size_entry avp e)))) es)"
    unfolding zs(2) by (simp add: image_mset.compositionality o_def)
  also have "List.map (\<lambda>e. tuple_set avp (drop_bit (64 - ?n) (tv_tuple (size_entry avp e)))) es = List.map fst es" using at by (intro map_cong) auto
  finally have ms: "mset (List.map (tuple_set avp) gs) = mset (List.map fst es)" .
  have run: "returns (PartitionCube (\<lambda>_. True) (avp\<lparr>taskNumber := k\<rparr>))
      (\<lambda>(r, d). r = 0 \<and> (\<exists>fl. d = avp\<lparr>taskNumber := k, groupbyFile := fl\<rparr> \<and> holds_tuples avp (dealt (nTasksv avp) k gs) fl))" if k: "unat k < unat (nTasksv avp)" for k
  proof -
    let ?a = "avp\<lparr>taskNumber := k\<rparr>"
    have ta: "tasks_ok ?a (length xs)" using t k by (simp add: tasks_ok_def lx word_less_nat_alt)
    have se: "size_entry ?a = size_entry avp" by (simp add: size_entry_def fun_eq_iff)
    have "read_sizes ?a (adcViewSizesFile ?a, [], []) = Some ?ts"
      using read_sizes_words [of ?a es toks "[]"] td(3) w toks l by (simp add: se)
    moreover obtain fl where fl: "MultiFileProcJobs (\<lambda>_. True) xs m ?a = Some (0, ?a\<lparr>groupbyFile := fl\<rparr>)"
      "holds_tuples ?a (List.map tv_tuple (dealt (nTasksv avp) k (rev xs))) fl"
      using MultiFileProcJobs_file [OF ta, of m] m lx by (auto elim!: returnsE)
    ultimately have "PartitionCube (\<lambda>_. True) ?a = Some (0, ?a\<lparr>groupbyFile := fl\<rparr>)"
      unfolding PartitionCube_def using zs(1) td(1,2) by (simp add: m_def [symmetric] Let_def xs_def [symmetric])
    moreover have "holds_tuples avp (dealt (nTasksv avp) k gs) fl"
    proof -
      have "attrs_of ?a = attrs_of avp" by (simp add: attrs_of_def fun_eq_iff)
      then show ?thesis using fl(2) by (simp add: holds_tuples_def gs_def dealt_map)
    qed
    ultimately show ?thesis by auto
  qed
  show ?thesis using ms run by blast
qed

text \<open>C19: \<open>PartitionCube\<close> partitions the cube: run for every task, it ends without an error, the files of the group-bys of all tasks
  together hold the set of attributes of every view of the text exactly once, and in each file the sets with more
  attributes come first, so that a view follows all views it can be computed from.\<close>

theorem views_partitioned:
  assumes "tasks_ok avp (length es)" "views_text avp es"
  shows "\<exists>files. (\<forall>k<unat (nTasksv avp). PartitionCube (\<lambda>_. True) (avp\<lparr>taskNumber := of_nat k\<rparr>) = Some (0, avp\<lparr>taskNumber := of_nat k, groupbyFile := files k\<rparr>) \<and>
      sorted_wrt (\<lambda>a b. length (attrs_of avp b) \<le> length (attrs_of avp a)) (files k)) \<and>
    mset (List.map (attrs_of avp) (concat (List.map files [0..<unat (nTasksv avp)]))) = mset (List.map fst es)"
proof -
  let ?T = "nTasksv avp"
  obtain gs where gs: "mset (List.map (tuple_set avp) gs) = mset (List.map fst es)" and run: "\<And>k. unat k < unat ?T \<Longrightarrow> returns (PartitionCube (\<lambda>_. True) (avp\<lparr>taskNumber := k\<rparr>))
      (\<lambda>(r, d). r = 0 \<and> (\<exists>fl. d = avp\<lparr>taskNumber := k, groupbyFile := fl\<rparr> \<and> holds_tuples avp (dealt ?T k gs) fl))"
    using PartitionCube_dealt [OF assms] by blast
  have "\<exists>fl. PartitionCube (\<lambda>_. True) (avp\<lparr>taskNumber := of_nat k\<rparr>) = Some (0, avp\<lparr>taskNumber := of_nat k, groupbyFile := fl\<rparr>) \<and> holds_tuples avp (dealt ?T (of_nat k) gs) fl"
    if k: "k < unat ?T" for k
  proof -
    have "k < 2 ^ 32" using k unsigned_less [of ?T, where ?'a = nat] by simp
    then have "unat (of_nat k :: 32 word) < unat ?T" using k by (simp add: small_word)
    from run [OF this] show ?thesis by (auto elim!: returnsE)
  qed
  then obtain files where files: "\<forall>k<unat ?T. PartitionCube (\<lambda>_. True) (avp\<lparr>taskNumber := of_nat k\<rparr>) = Some (0, avp\<lparr>taskNumber := of_nat k, groupbyFile := files k\<rparr>) \<and>
      holds_tuples avp (dealt ?T (of_nat k) gs) (files k)" by metis
  have T: "0 < ?T" using assms(1) by (auto simp: tasks_ok_def intro: le_less_trans)
  have "mset (List.map (attrs_of avp) (concat (List.map files ks))) = mset (List.map (tuple_set avp) (concat (List.map (\<lambda>k. dealt ?T (of_nat k) gs) ks)))" if "set ks \<subseteq> {0..<unat ?T}" for ks
    using that
  proof (induction ks)
    case (Cons k ks)
    have "mset (files k) = mset (List.map (file_word (unat (nTopDims avp))) (dealt ?T (of_nat k) gs))" using files Cons.prems by (simp add: holds_tuples_def)
    then have "mset (List.map (attrs_of avp) (files k)) = mset (List.map (tuple_set avp) (dealt ?T (of_nat k) gs))"
      by (simp add: tuple_set_def [abs_def] image_mset.compositionality o_def)
    then show ?case using Cons by simp
  qed simp
  from this [of "[0..<unat ?T]"] have "mset (List.map (attrs_of avp) (concat (List.map files [0..<unat ?T]))) = mset (List.map fst es)"
    using gs arg_cong [OF dealt_all [OF T, of gs], of "image_mset (tuple_set avp)"] by simp
  moreover have "\<forall>k<unat ?T. PartitionCube (\<lambda>_. True) (avp\<lparr>taskNumber := of_nat k\<rparr>) = Some (0, avp\<lparr>taskNumber := of_nat k, groupbyFile := files k\<rparr>) \<and>
      sorted_wrt (\<lambda>a b. length (attrs_of avp b) \<le> length (attrs_of avp a)) (files k)" using files by (simp add: holds_tuples_def)
  ultimately show ?thesis by blast
qed

text \<open>Two tasks share the views of the small cube.\<close>

definition small_tasks :: ADC_VIEW_CNTL where
  "small_tasks = small_cube\<lparr>groupbyFile := [], nTasksv := 2\<rparr>"

theorem views_partitioned_witness:
  "\<exists>files. PartitionCube (\<lambda>_. True) (small_tasks\<lparr>taskNumber := 1\<rparr>) = Some (0, small_tasks\<lparr>taskNumber := 1, groupbyFile := files 1\<rparr>) \<and>
    mset (List.map (attrs_of small_tasks) (files (0 :: nat) @ files 1)) = {#[0, 1], [0], [1]#}"
proof -
  let ?es = "[([0, 1], 2), ([0], 2), ([1], 1)] :: (nat list \<times> nat) list"
  have f: "nTasksv small_tasks = 2" "unat (nTasksv small_tasks) = 2" "[0..<2] = [0, 1 :: nat]" by (simp_all add: small_tasks_def upt_rec)
  have t: "tasks_ok small_tasks (length ?es)" by (simp add: tasks_ok_def small_tasks_def small_defs MAX_NUMBER_OF_TASKS_def)
  have "views_text small_tasks ?es"
    unfolding views_text_def by (intro conjI exI [where x = "[]"]) (simp_all add: small_tasks_def small_defs words_ok_def upt_rec)
  from views_partitioned [OF t this, unfolded f(2,3)] show ?thesis
    by (elim exE conjE) (rule exI, auto dest: spec [of _ "1 :: nat"])
qed

section \<open>The two sorts\<close>

text \<open>C38: \<open>vszsort\<close> and \<open>onessort\<close>, the heap sort that the file writes out for two keys, end with no access outside the array
  and leave the same entries in the order of their keys.\<close>

theorem sorts_by_keys:
  assumes "length ts < 2 ^ 31" "unat n = length ts" "length gs < 2 ^ 31" "unat m = length gs"
  shows "returns (vszsort ts n) (\<lambda>z. mset z = mset ts \<and> sorted (List.map viewsize z)) \<and>
    returns (onessort gs m) (\<lambda>z. mset z = mset gs \<and> sorted (List.map nOnes z))"
  unfolding vszsort_def onessort_def using assms by (intro conjI heap_sort_sorts)

theorem sorts_by_keys_witness:
  "returns (vszsort [\<lparr>viewsize = 9, tv_tuple = 1\<rparr>, \<lparr>viewsize = 2, tv_tuple = 2\<rparr>, \<lparr>viewsize = 5, tv_tuple = 3\<rparr>] 3)
     (\<lambda>z. mset z = mset [\<lparr>viewsize = 9, tv_tuple = 1\<rparr>, \<lparr>viewsize = 2, tv_tuple = 2\<rparr>, \<lparr>viewsize = 5, tv_tuple = 3\<rparr>] \<and> sorted (List.map viewsize z)) \<and>
   returns (onessort [\<lparr>nOnes = 3, to_tuple = 7\<rparr>, \<lparr>nOnes = 1, to_tuple = 4\<rparr>] 2)
     (\<lambda>z. mset z = mset [\<lparr>nOnes = 3, to_tuple = 7\<rparr>, \<lparr>nOnes = 1, to_tuple = 4\<rparr>] \<and> sorted (List.map nOnes z))"
  by (rule sorts_by_keys) simp_all

end
