(* ===== verification/Dc_Main.thy ===== *)
theory Dc_Main
  imports Dc_Partition
begin

text \<open>
  The program around the computation: \<open>NewAdcViewCntl\<close> of \<open>DC/extbuild.c\<close>, which opens the files and lays out the pool of the views,
  and \<open>DC\<close> and \<open>Verify\<close> of \<open>DC/dc.c\<close>.  Names of files are left out, and files that are created can be opened.  What \<open>malloc\<close>
  returns has any content.
\<close>

unbundle bit_operations_syntax

section \<open>Parameters, files and memory\<close>

record ADC_VIEW_PARS =
  adc_clss :: char
  adc_nd :: "32 word"
  adc_nm :: "32 word"
  adc_nInputRecs :: "32 word"
  adc_memoryLimit :: "32 word"
  adc_nTasks :: "32 word"

text \<open>The input and the text of the expected sizes, when they can be opened, and the room on the disk for each new file.\<close>

record adc_disk =
  disk_dat :: "row_file option"
  disk_sizes :: "string list option"
  disk_room :: nat

record c_memory =
  mem_alloc :: "block \<Rightarrow> bool"
  mem_cntl :: ADC_VIEW_CNTL
  mem_tree :: RBTree
  mem_chunk :: "nat \<Rightarrow> CHUNKS"
  mem_job :: "nat \<Rightarrow> JOB_POOL"
  mem_layer :: "nat \<Rightarrow> LAYER"

definition new_file :: "nat \<Rightarrow> row_file" where
  "new_file room = \<lparr>recs = \<lambda>_. None, fpos = 0, flen = 0, froom = room\<rparr>"

section \<open>The control block\<close>

definition ADC_FILE_OPEN_FAILURE :: int where "ADC_FILE_OPEN_FAILURE = 4"

text \<open>One level of the pool for each number of attributes; the first entry is not used.\<close>

definition init_layers :: "32 word \<Rightarrow> LAYER list \<Rightarrow> LAYER list option" where
  "init_layers d ls = do {
     (ls, j) \<leftarrow> for_range 1 (uint d + 1) (\<lambda>i (ls, j). do {
       k \<leftarrow> NumOfCombsFromNbyK d (word_of_int i);
       ls \<leftarrow> aset ls i \<lparr>layerIndex = j, layerQuantityLimit = k, layerCurrentPopulation = 0\<rparr>;
       Some (ls, j + k) }) (ls, 1);
     Some ls }"

text \<open>The blocks and their content, once the files are open.\<close>

definition init_blocks :: "c_memory \<Rightarrow> ADC_VIEW_CNTL \<Rightarrow> (int \<times> ADC_VIEW_CNTL) option" where
  "init_blocks M a =
     (if \<not> mem_alloc M ChunksBlock then Some (ADC_MEMORY_ALLOCATION_FAILURE, a)
      else if \<not> mem_alloc M PoolBlock then Some (ADC_MEMORY_ALLOCATION_FAILURE, a)
      else do {
        let a = a\<lparr>chunksParams := List.map (mem_chunk M) [0..<unat MAX_NUM_OF_CHUNKS], numberOfChunks := 0\<rparr>;
        ms \<leftarrow> zero_meas (nmv a) (mSums a);
        cs \<leftarrow> zero_meas (nmv a) (checksums a);
        ts \<leftarrow> zero_meas (nmv a) (totchs a);
        let a = a\<lparr>mSums := ms, checksums := cs, totchs := ts\<rparr>;
        if \<not> mem_alloc M TreeBlock then Some (ADC_MEMORY_ALLOCATION_FAILURE, a)
        else do {
          T \<leftarrow> CreateEmptyTree (mem_tree M) (ndv a) (nmv a) (memoryLimitv a);
          let a = a\<lparr>tree := T, nv := nTopDims a\<rparr>;
          sel \<leftarrow> for_range 0 (uint (nv a)) (\<lambda>i s. aset s i (word_of_int i + 1)) (selection a);
          c_assert (nTopDims a < 31);
          let a = a\<lparr>selection := sel, nViewLimit := 2 ^ unat (nTopDims a) - 1\<rparr>;
          if \<not> mem_alloc M JobsBlock \<or> \<not> mem_alloc M LayersBlock then Some (ADC_MEMORY_ALLOCATION_FAILURE, a)
          else do {
            ls \<leftarrow> init_layers (nTopDims a) (List.map (mem_layer M) [0..<unat (nTopDims a) + 1]);
            pool \<leftarrow> JobPoolInit (List.map (mem_job M) [0..<unat (nViewLimit a + 1)]) (nViewLimit a + 1);
            Some (0, a\<lparr>lpp := ls, jpp := pool, verificationFailed := 1\<rparr>) } } })"

text \<open>The result is \<open>retCode\<close> and the block; no block is a null pointer.\<close>

definition NewAdcViewCntl :: "c_memory \<Rightarrow> adc_disk \<Rightarrow> ADC_VIEW_PARS \<Rightarrow> 32 word \<Rightarrow> (int \<times> ADC_VIEW_CNTL option) option" where
  "NewAdcViewCntl M F p pnum =
     (if \<not> mem_alloc M CntlBlock then Some (0, None)
      else do {
        let a = (mem_cntl M)\<lparr>taskNumber := pnum, nTopDims := adc_nd p, ndv := adc_nd p, nmv := adc_nm p, nInputRecs := adc_nInputRecs p,
          inpRecSize := GetRecSize (adc_nd p) (adc_nm p), outRecSize := GetRecSize (nv (mem_cntl M)) (adc_nm p), accViewFileOffset := 0,
          totalViewFileSize := 0, numberOfMadeViews := 0, numberOfViewsMadeFromInput := 0, totalOfViewRows := 0,
          memoryLimitv := adc_memoryLimit p, nTasksv := adc_nTasks p\<rparr>;
        case disk_dat F of None \<Rightarrow> Some (ADC_FILE_OPEN_FAILURE, Some a)
        | Some dat \<Rightarrow> do {
            let a = a\<lparr>inpf := seek_set 0 dat, viewFile := new_file (disk_room F), fileOfChunks := new_file (disk_room F), groupbyFile := []\<rparr>;
            case disk_sizes F of None \<Rightarrow> Some (ADC_FILE_OPEN_FAILURE, Some a)
            | Some toks \<Rightarrow> do {
                (r, a) \<leftarrow> init_blocks M (a\<lparr>adcViewSizesFile := toks, viewSizesFile := []\<rparr>);
                Some (r, Some a) } } })"

section \<open>The driver\<close>

record PAR_VIEW_ST =
  pv_verificationFailed :: int
  pv_totalViewTuples :: "32 word"
  pv_totalViewSizesInBytes :: "64 word"
  pv_totalNumberOfMadeViews :: "32 word"
  pv_checksum :: "64 word"

definition checksumS :: int where "checksumS = 464620213"
definition checksumWlo :: int where "checksumWlo = 434318"
definition checksumWhi :: int where "checksumWhi = 1401796"
definition checksumAlo :: int where "checksumAlo = 178042"
definition checksumAhi :: int where "checksumAhi = 7141688"
definition checksumBlo :: int where "checksumBlo = 700453"
definition checksumBhi :: int where "checksumBhi = 9348365"

definition Verify :: "int \<Rightarrow> char \<Rightarrow> int" where
  "Verify checksum clss =
     (if clss = CHR ''S'' then if checksum = checksumS then 0 else 1
      else if clss = CHR ''W'' then if checksum = checksumWlo + 1000000 * checksumWhi then 0 else 1
      else if clss = CHR ''A'' then if checksum = checksumAlo + 1000000 * checksumAhi then 0 else 1
      else if clss = CHR ''B'' then if checksum = checksumBlo + 1000000 * checksumBhi then 0 else 1
      else -1)"

text \<open>The totals that are printed, before and after \<open>Verify\<close>.\<close>

definition pv_start :: PAR_VIEW_ST where
  "pv_start = \<lparr>pv_verificationFailed = 0, pv_totalViewTuples = 0, pv_totalViewSizesInBytes = 0, pv_totalNumberOfMadeViews = 0, pv_checksum = 0\<rparr>"

definition pv_add :: "ADC_VIEW_CNTL \<Rightarrow> PAR_VIEW_ST \<Rightarrow> PAR_VIEW_ST option" where
  "pv_add a st = do {
     let st = st\<lparr>pv_verificationFailed := to_i32 (uint (word_of_int (pv_verificationFailed st) + verificationFailed a))\<rparr>;
     if verificationFailed a \<noteq> 0 then Some st
     else do {
       c \<leftarrow> aget (totchs a) 0;
       Some (st\<lparr>pv_totalNumberOfMadeViews := pv_totalNumberOfMadeViews st + numberOfMadeViews a,
         pv_totalViewSizesInBytes := pv_totalViewSizesInBytes st + totalViewFileSize a,
         pv_totalViewTuples := pv_totalViewTuples st + totalOfViewRows a,
         pv_checksum := pv_checksum st + word_of_int c\<rparr>) } }"

text \<open>A control block whose \<open>retCode\<close> is not zero is used all the same, and lacks the text of the sizes or a block of
  memory.  The results of \<open>PartitionCube\<close> and \<open>ComputeGivenGroupbys\<close> are only reported.\<close>

definition DC :: "c_memory \<Rightarrow> adc_disk \<Rightarrow> ADC_VIEW_PARS \<Rightarrow> (int \<times> (PAR_VIEW_ST \<times> ADC_VIEW_CNTL) option) option" where
  "DC M F p = do {
     (r, c) \<leftarrow> NewAdcViewCntl M F p 0;
     case c of None \<Rightarrow> Some (ADC_INTERNAL_ERROR, None)
     | Some a \<Rightarrow> do {
         c_assert (r = 0);
         (_, a) \<leftarrow> PartitionCube (mem_alloc M) a;
         (_, a) \<leftarrow> ComputeGivenGroupbys a;
         st \<leftarrow> pv_add a pv_start;
         let st = st\<lparr>pv_verificationFailed := Verify (to_i64 (uint (pv_checksum st))) (adc_clss p)\<rparr>;
         Some (ADC_OK, Some (st, a)) } }"

end
