(* ===== verification/Dc_Program.thy ===== *)
theory Dc_Program
  imports Dc_Dealt Dc_Main
begin

text \<open>
  The benchmark DC from its parameters to its views: \<open>NewAdcViewCntl\<close> lays out a pool with room for every set of attributes,
  \<open>PartitionCube\<close> chooses the views and their order, and \<open>ComputeGivenGroupbys\<close> makes them and checks their sizes.
\<close>

unbundle bit_operations_syntax

section \<open>The levels of the pool\<close>

lemma binomial_small: "n \<le> 20 \<Longrightarrow> n choose k \<le> 2 ^ 20"
  using binomial_le_pow2 [of n k] power_increasing [of n 20 "2 :: nat"] by simp

lemma word_div_nat:
  assumes "a < 2 ^ 32" "b < 2 ^ 32"
  shows "(of_nat a :: 32 word) div of_nat b = of_nat (a div b)"
proof -
  have "a div b < 2 ^ 32" using assms(1) by (rule le_less_trans [OF div_le_dividend])
  then show ?thesis using assms by (simp add: word_unat_eq_iff unat_div small_word)
qed

lemma combs_fold:
  assumes "n \<le> 20" "k \<le> n"
  shows "fold (\<lambda>l c. c * (of_nat n - of_nat l + 1) div of_nat l) [1..<Suc k] 1 = (of_nat (n choose k) :: 32 word)"
  using assms(2)
proof (induction k)
  case (Suc k)
  let ?c = "n choose k"
  have e: "?c * (n - k) = Suc k * (n choose Suc k)"
    using binomial_absorption [of k n] binomial_absorb_comp [of n k] by (simp add: mult.commute)
  have "?c * (n - k) \<le> 2 ^ 20 * 20" using binomial_small [OF assms(1)] assms(1) by (intro mult_le_mono) simp_all
  then have s: "?c * (n - k) < 2 ^ 32" "Suc k < 2 ^ 32" using Suc.prems assms(1) by simp_all
  have f: "(of_nat n - of_nat (Suc k) + 1 :: 32 word) = of_nat (n - k)" using Suc.prems by (simp add: of_nat_diff)
  have "(of_nat ?c :: 32 word) * (of_nat n - of_nat (Suc k) + 1) div of_nat (Suc k) = of_nat (?c * (n - k)) div of_nat (Suc k)" unfolding f by simp
  also have "\<dots> = of_nat ((?c * (n - k)) div Suc k)" by (rule word_div_nat [OF s])
  also have "(?c * (n - k)) div Suc k = n choose Suc k" unfolding e by (rule nonzero_mult_div_cancel_left) (rule Suc_not_Zero)
  finally show ?case using Suc by simp
qed simp

lemma NumOfCombs_choose:
  assumes "unat d \<le> 20" "unat k \<le> unat d"
  shows "NumOfCombsFromNbyK d k = Some (of_nat (unat d choose unat k))"
proof -
  have "\<not> d < k" using assms(2) by (simp add: word_less_nat_alt)
  moreover have "k + 1 \<noteq> 0"
  proof
    assume "k + 1 = 0"
    then have "k = - 1" by (simp add: eq_neg_iff_add_eq_0)
    then have "unat k = 2 ^ 32 - 1" by (simp add: unsigned_minus_1_eq_mask mask_eq_exp_minus_1)
    then show False using assms by simp
  qed
  moreover have "(of_nat (unat d) :: 32 word) = d" by simp
  ultimately show ?thesis using combs_fold [OF assms] unfolding NumOfCombsFromNbyK_def by simp
qed

definition layer_start :: "nat \<Rightarrow> nat \<Rightarrow> nat" where
  "layer_start n l = (\<Sum>i<l. n choose i)"

lemma layer_start_simps [simp]: "layer_start n (Suc l) = layer_start n l + (n choose l)"
  by (simp add: layer_start_def)

lemma layer_start_one: "layer_start n 1 = 1"
  by (simp add: layer_start_def)

lemma layer_start_mono: "l \<le> l' \<Longrightarrow> layer_start n l \<le> layer_start n l'"
  unfolding layer_start_def by (rule sum_mono2) auto

lemma layer_start_all: "l \<le> Suc n \<Longrightarrow> layer_start n l \<le> 2 ^ n"
proof -
  assume "l \<le> Suc n"
  then have "layer_start n l \<le> layer_start n (Suc n)" by (rule layer_start_mono)
  also have "\<dots> = 2 ^ n" unfolding layer_start_def lessThan_Suc_atMost by (rule choose_row_sum)
  finally show ?thesis .
qed

definition level :: "nat \<Rightarrow> nat \<Rightarrow> LAYER" where
  "level n l = \<lparr>layerIndex = of_nat (layer_start n l), layerQuantityLimit = of_nat (n choose l), layerCurrentPopulation = 0\<rparr>"

lemma init_layers_levels:
  assumes d: "unat d \<le> 20" "length ls = unat d + 1"
  shows "returns (init_layers d ls) (\<lambda>ls'. length ls' = unat d + 1 \<and> (\<forall>l. 0 < l \<and> l \<le> unat d \<longrightarrow> ls' ! l = level (unat d) l))"
proof -
  let ?n = "unat d"
  let ?I = "\<lambda>i (ls', j). length ls' = ?n + 1 \<and> (\<forall>l. 0 < l \<and> l < nat i \<longrightarrow> ls' ! l = level ?n l) \<and> j = (of_nat (layer_start ?n (nat i)) :: 32 word)"
  have "returns (for_range 1 (uint d + 1) (\<lambda>i (ls, j). do {
       k \<leftarrow> NumOfCombsFromNbyK d (word_of_int i);
       ls \<leftarrow> aset ls i \<lparr>layerIndex = j, layerQuantityLimit = k, layerCurrentPopulation = 0\<rparr>;
       Some (ls, j + k) }) (ls, 1)) (?I (uint d + 1))"
  proof (rule returns_rangeI [where I = ?I])
    show "?I 1 (ls, 1)" using d(2) layer_start_one by simp
  next
    fix i :: int and x assume i: "1 \<le> i" "i < uint d + 1" and I: "?I i x"
    obtain m where m: "i = int m" using nonneg_int_cases [of i] i(1) by auto
    obtain ls' j where x: "x = (ls', j)" by (cases x)
    have mn: "m \<le> ?n" "0 < m" using i uint_nat [of d] unfolding m by linarith+
    have u: "unat (word_of_int i :: 32 word) = m" using small_word(1) [of m] mn d(1) by (simp add: m)
    have k: "NumOfCombsFromNbyK d (word_of_int i) = Some (of_nat (?n choose m))" using NumOfCombs_choose [OF d(1), of "word_of_int i"] mn(1) by (simp add: u)
    have a: "aset ls' i v = Some (ls'[m := v])" for v unfolding m by (rule aset_int) (use I mn(1) in \<open>simp add: x\<close>)
    have nm: "nat i = m" "nat (i + 1) = Suc m" by (simp_all add: m)
    show "returns (case x of (ls, j) \<Rightarrow> do {
       k \<leftarrow> NumOfCombsFromNbyK d (word_of_int i);
       ls \<leftarrow> aset ls i \<lparr>layerIndex = j, layerQuantityLimit = k, layerCurrentPopulation = 0\<rparr>;
       Some (ls, j + k) }) (?I (i + 1))"
    proof -
      have "\<forall>l. 0 < l \<and> l < Suc m \<longrightarrow> ls'[m := level ?n m] ! l = level ?n l" using I mn le_imp_less_Suc [OF mn(1)] by (auto simp: x nm less_Suc_eq)
      moreover have "\<lparr>layerIndex = j, layerQuantityLimit = of_nat (?n choose m), layerCurrentPopulation = 0\<rparr> = level ?n m" using I by (simp add: x nm level_def)
      ultimately show ?thesis using I by (simp add: x k a nm)
    qed
  qed simp_all
  moreover have "nat (uint d + 1) = Suc ?n" by (simp add: nat_add_distrib)
  ultimately show ?thesis unfolding init_layers_def by (auto simp: less_Suc_eq_le elim!: returns_mono)
qed

lemma JobPoolInit_length: "unat n \<le> length pool \<Longrightarrow> returns (JobPoolInit pool n) (\<lambda>pool'. length pool' = length pool)"
  unfolding JobPoolInit_def by (rule returns_rangeI [where I = "\<lambda>_ p. length p = length pool"]) (auto dest: nat_less_unat)

lemma fill_selection: "unat n \<le> length sel \<Longrightarrow> returns (for_range 0 (uint n) (\<lambda>i s. aset s i (word_of_int i + 1 :: 32 word)) sel) (\<lambda>s. length s = length sel)"
  by (rule returns_rangeI [where I = "\<lambda>_ s. length s = length sel"]) (auto dest: nat_less_unat)

section \<open>The control block\<close>

definition level_pool :: "ADC_VIEW_CNTL \<Rightarrow> ADC_VIEW_CNTL \<Rightarrow> bool" where
  "level_pool a b \<longleftrightarrow> (\<exists>cps ms cs ts T sel ls pool. b = a\<lparr>chunksParams := cps, numberOfChunks := 0, mSums := ms, checksums := cs, totchs := ts, tree := T,
       nv := nTopDims a, selection := sel, nViewLimit := 2 ^ unat (nTopDims a) - 1, lpp := ls, jpp := pool, verificationFailed := 1\<rparr> \<and>
     length cps = 1024 \<and> length ms = length (mSums a) \<and> length cs = length (checksums a) \<and> length ts = length (totchs a) \<and> (\<forall>i<unat (nmv a). ts ! i = 0) \<and>
     tree_kept a T \<and> length sel = length (selection a) \<and> length ls = unat (nTopDims a) + 1 \<and> length pool = 2 ^ unat (nTopDims a) \<and>
     (\<forall>l. 0 < l \<and> l \<le> unat (nTopDims a) \<longrightarrow> ls ! l = level (unat (nTopDims a)) l))"

lemma two_power_word:
  assumes "n < 32"
  shows "unat (2 ^ n :: 32 word) = 2 ^ n"
proof -
  have "(2 :: nat) ^ n < 2 ^ 32" using assms by (intro power_strict_increasing) simp_all
  then show ?thesis using small_word(1) [of "2 ^ n"] by simp
qed

lemma init_blocks_done:
  assumes al: "\<forall>b. mem_alloc M b" and d: "0 < nTopDims a" "nTopDims a \<le> 20" "ndv a = nTopDims a" "nmv a \<le> 4"
    and ar: "unat (nmv a) \<le> length (mSums a)" "unat (nmv a) \<le> length (checksums a)" "unat (nmv a) \<le> length (totchs a)" "unat (nTopDims a) \<le> length (selection a)"
    and T: "length (nodes (mem_tree M)) = MAX_TREE_HEIGHT" "length (drcts (mem_tree M)) = MAX_TREE_HEIGHT"
  shows "returns (init_blocks M a) (\<lambda>(r, b). r = 0 \<and> level_pool a b)"
proof -
  let ?n = "unat (nTopDims a)"
  have n: "?n \<le> 20" using d(2) by (simp add: word_le_nat_alt)
  obtain ms where ms: "zero_meas (nmv a) (mSums a) = Some ms" "length ms = length (mSums a)" using zero_meas_zeros [OF ar(1)] by (auto elim!: returnsE)
  obtain cs where cs: "zero_meas (nmv a) (checksums a) = Some cs" "length cs = length (checksums a)" using zero_meas_zeros [OF ar(2)] by (auto elim!: returnsE)
  obtain ts where ts: "zero_meas (nmv a) (totchs a) = Some ts" "length ts = length (totchs a)" "\<forall>i<unat (nmv a). ts ! i = 0"
    using zero_meas_zeros [OF ar(3)] by (auto elim!: returnsE)
  obtain E where E: "CreateEmptyTree (mem_tree M) (nTopDims a) (nmv a) (memoryLimitv a) = Some E" "holds E []" "memoryLimit E = memoryLimitv a"
    using CreateEmptyTree_holds [OF T d(1,2,4)] by (auto elim!: returnsE)
  have kept: "tree_kept a E" using E(2,3) by (auto simp: tree_kept_def holds_def tree_ok_def)
  obtain sel where sel: "for_range 0 (uint (nTopDims a)) (\<lambda>i s. aset s i (word_of_int i + 1)) (selection a) = Some sel" "length sel = length (selection a)"
    using fill_selection [OF ar(4)] by (auto elim!: returnsE)
  obtain ls where ls: "init_layers (nTopDims a) (List.map (mem_layer M) [0..<?n + 1]) = Some ls" "length ls = ?n + 1" "\<forall>l. 0 < l \<and> l \<le> ?n \<longrightarrow> ls ! l = level ?n l"
    using init_layers_levels [OF n, of "List.map (mem_layer M) [0..<?n + 1]"] by (auto elim!: returnsE)
  let ?N = "2 ^ ?n - 1 + 1 :: 32 word"
  have N: "unat ?N = 2 ^ ?n" using two_power_word [of ?n] n by simp
  obtain pool where pool: "JobPoolInit (List.map (mem_job M) [0..<unat ?N]) ?N = Some pool" "length pool = 2 ^ ?n"
    using JobPoolInit_length [of ?N "List.map (mem_job M) [0..<unat ?N]"] N by (auto elim!: returnsE)
  have lt: "nTopDims a < 31" using d(2) by (rule le_less_trans) simp
  let ?cps = "List.map (mem_chunk M) [0..<unat MAX_NUM_OF_CHUNKS]"
  have run: "init_blocks M a = Some (0, a\<lparr>chunksParams := ?cps, numberOfChunks := 0, mSums := ms, checksums := cs, totchs := ts, tree := E,
       nv := nTopDims a, selection := sel, nViewLimit := 2 ^ ?n - 1, lpp := ls, jpp := pool, verificationFailed := 1\<rparr>)"
    unfolding init_blocks_def using al lt ms(1) cs(1) ts(1) E(1) sel(1) ls(1) pool(1) d(3) by (simp add: Let_def)
  have "length ?cps = 1024" by (simp add: MAX_NUM_OF_CHUNKS_def)
  then have "level_pool a (a\<lparr>chunksParams := ?cps, numberOfChunks := 0, mSums := ms, checksums := cs, totchs := ts, tree := E,
       nv := nTopDims a, selection := sel, nViewLimit := 2 ^ ?n - 1, lpp := ls, jpp := pool, verificationFailed := 1\<rparr>)"
    unfolding level_pool_def using ms(2) cs(2) ts(2,3) kept sel(2) ls(2,3) pool(2) by blast
  then show ?thesis by (simp add: run)
qed

lemma level_unat:
  assumes "n \<le> 20" "l \<le> n"
  shows "unat (layerIndex (level n l)) = layer_start n l" "unat (layerQuantityLimit (level n l)) = n choose l" "layerCurrentPopulation (level n l) = 0"
proof -
  have "(2 :: nat) ^ n \<le> 2 ^ 20" using assms(1) by (intro power_increasing) simp_all
  then have "layer_start n l < 2 ^ 32" using layer_start_all [of l n] assms(2) by simp
  moreover have "n choose l < 2 ^ 32" using binomial_small [OF assms(1), of l] by simp
  ultimately show "unat (layerIndex (level n l)) = layer_start n l" "unat (layerQuantityLimit (level n l)) = n choose l" "layerCurrentPopulation (level n l) = 0"
    by (simp_all add: level_def small_word)
qed

lemma level_pool_layers:
  assumes p: "level_pool a b" and n: "unat (nTopDims a) \<le> 20"
  shows "layers_apart b" "\<And>l. 0 < l \<Longrightarrow> l \<le> unat (nTopDims a) \<Longrightarrow> lim b l = unat (nTopDims a) choose l"
    "\<And>l. 0 < l \<Longrightarrow> l \<le> unat (nTopDims a) \<Longrightarrow> pop b l = 0"
proof -
  let ?n = "unat (nTopDims a)"
  have f: "nTopDims b = nTopDims a" "length (lpp b) = ?n + 1" "length (jpp b) = 2 ^ ?n" "\<And>l. 0 < l \<Longrightarrow> l \<le> ?n \<Longrightarrow> lpp b ! l = level ?n l"
    using p unfolding level_pool_def by auto
  note u = level_unat [OF n]
  show lm: "lim b l = ?n choose l" if "0 < l" "l \<le> ?n" for l using that u(2) by (simp add: lim_def f(4))
  show "pop b l = 0" if "0 < l" "l \<le> ?n" for l using that u(3) by (simp add: pop_def f(4))
  have sl: "slot b l i = layer_start ?n l + i" if "0 < l" "l \<le> ?n" for l i using that u(1) by (simp add: slot_def f(4))
  have p2: "(2 :: nat) ^ ?n \<le> 2 ^ 20" using n by (intro power_increasing) simp_all
  have "slot b l (lim b l) \<le> length (jpp b)" if "0 < l" "l \<le> ?n" for l
    using layer_start_all [of "Suc l" ?n] that by (simp add: sl lm f(3))
  moreover have "slot b l (lim b l) \<le> slot b l' 0" if "0 < l" "l < l'" "l' \<le> ?n" for l l'
    using layer_start_mono [of "Suc l" l' ?n] that by (simp add: sl lm)
  ultimately show "layers_apart b" unfolding layers_apart_def f(1-3) using n p2 by simp
qed

section \<open>Sets of attributes\<close>

lemma sets_differ:
  assumes "\<forall>e\<in>set es. words_ok n e" "distinct (List.map fst es)"
  shows "inj_on set (fst ` set es)" "set ` fst ` set es \<subseteq> Pow {0..<n}" "\<And>A. A \<in> fst ` set es \<Longrightarrow> length A = card (set A)"
proof -
  have A: "A = filter (\<lambda>i. i \<in> set A) [0..<n]" if m: "A \<in> fst ` set es" for A
  proof -
    obtain e where e: "e \<in> set es" "A = fst e" using m by blast
    have "words_ok n e" using assms(1) e(1) by blast
    then show ?thesis unfolding words_ok_def split_def e(2) by (rule conjunct1)
  qed
  show "inj_on set (fst ` set es)" by (rule inj_on_inverseI [where g = "\<lambda>S. filter (\<lambda>i. i \<in> S) [0..<n]"]) (rule A [symmetric])
  have sub: "set A \<subseteq> {0..<n}" if "A \<in> fst ` set es" for A
  proof -
    have "set (filter (\<lambda>i. i \<in> set A) [0..<n]) \<subseteq> {0..<n}" by auto
    then show ?thesis unfolding A [OF that, symmetric] .
  qed
  then show "set ` fst ` set es \<subseteq> Pow {0..<n}" by auto
  show "length A = card (set A)" if "A \<in> fst ` set es" for A
  proof -
    have "distinct (filter (\<lambda>i. i \<in> set A) [0..<n])" by simp
    then have "distinct A" unfolding A [OF that, symmetric] .
    then show ?thesis by (simp add: distinct_card)
  qed
qed

lemma sets_count:
  assumes "\<forall>e\<in>set es. words_ok n e \<and> fst e \<noteq> []" "distinct (List.map fst es)"
  shows "length (filter (\<lambda>A. length A = l) (List.map fst es)) \<le> n choose l" "length es < 2 ^ n"
proof -
  have w: "\<forall>e\<in>set es. words_ok n e" using assms(1) by blast
  note s = sets_differ [OF w assms(2)]
  have "length (filter (\<lambda>A. length A = l) (List.map fst es)) = card {A \<in> fst ` set es. length A = l}"
    using distinct_card [of "filter (\<lambda>A. length A = l) (List.map fst es)"] assms(2) by simp
  also have "\<dots> = card (set ` {A \<in> fst ` set es. length A = l})"
    by (rule card_image [symmetric]) (rule inj_on_subset [OF s(1)], blast)
  also have "\<dots> \<le> card {B. B \<subseteq> {0..<n} \<and> card B = l}"
  proof (rule card_mono)
    show "set ` {A \<in> fst ` set es. length A = l} \<subseteq> {B. B \<subseteq> {0..<n} \<and> card B = l}" using s(2) s(3) [symmetric] by blast
  qed simp
  finally show "length (filter (\<lambda>A. length A = l) (List.map fst es)) \<le> n choose l" by (simp add: n_subsets)
  have "length es = card (fst ` set es)" using distinct_card [OF assms(2)] by simp
  also have "\<dots> = card (set ` fst ` set es)" by (rule card_image [OF s(1), symmetric])
  also have "\<dots> \<le> card (Pow {0..<n} - {{}})" by (rule card_mono) (use s(2) assms(1) in auto)
  also have "\<dots> < 2 ^ n" by (simp add: card_Diff_subset card_Pow)
  finally show "length es < 2 ^ n" .
qed

lemma count_cong: "mset xs = mset ys \<Longrightarrow> length (filter P xs) = length (filter P ys)"
  by (metis mset_filter size_mset)

section \<open>What the program is given\<close>

definition row_len :: "ADC_VIEW_PARS \<Rightarrow> nat" where
  "row_len p = 4 * unat (adc_nd p) + 8 * unat (adc_nm p)"

text \<open>All blocks are there, and the arrays of the structures have their lengths.\<close>

definition dc_memory :: "c_memory \<Rightarrow> ADC_VIEW_PARS \<Rightarrow> bool" where
  "dc_memory M p \<longleftrightarrow> (\<forall>b. mem_alloc M b) \<and> unat (adc_nm p) \<le> length (mSums (mem_cntl M)) \<and> unat (adc_nm p) \<le> length (checksums (mem_cntl M)) \<and>
     unat (adc_nm p) \<le> length (totchs (mem_cntl M)) \<and> unat (adc_nd p) \<le> length (selection (mem_cntl M)) \<and>
     length (nodes (mem_tree M)) = MAX_TREE_HEIGHT \<and> length (drcts (mem_tree M)) = MAX_TREE_HEIGHT"

text \<open>The rows of the input, the memory and the room on the disk.\<close>

definition dc_rows :: "adc_disk \<Rightarrow> ADC_VIEW_PARS \<Rightarrow> row list \<Rightarrow> bool" where
  "dc_rows F p rows \<longleftrightarrow> 0 < adc_nd p \<and> adc_nd p \<le> 20 \<and> 0 < adc_nm p \<and> adc_nm p \<le> 4 \<and> adc_nTasks p = 1 \<and>
     unat (adc_nInputRecs p) = length rows \<and> length rows < 2 ^ 32 - 1 \<and> rec_rows (unat (adc_nm p)) (unat (adc_nd p)) rows \<and>
     (\<forall>i<unat (adc_nm p). int (length rows) * asum rows i < 2 ^ 63) \<and> 2 ^ unat (adc_nd p) * (int (length rows) * measbound) < 2 ^ 63 \<and>
     1024 * row_len p \<le> unat (adc_memoryLimit p) \<and> length rows < 1023 * (unat (adc_memoryLimit p) div 144) \<and> 8 * 2 ^ unat (adc_nd p) \<le> unat (adc_memoryLimit p) \<and>
     length rows * row_len p < 2 ^ 32 \<and> 2 ^ unat (adc_nd p) * (length rows * row_len p) \<le> disk_room F \<and> disk_room F < 2 ^ 63 \<and>
     (\<exists>f. disk_dat F = Some f \<and> run_at f 0 rows \<and> rows_bytes rows \<le> flen f)"

text \<open>The views in the text, with their sizes.\<close>

definition dc_text :: "adc_disk \<Rightarrow> ADC_VIEW_PARS \<Rightarrow> (nat list \<times> nat) list \<Rightarrow> bool" where
  "dc_text F p es \<longleftrightarrow> (\<forall>e\<in>set es. words_ok (unat (adc_nd p)) e \<and> fst e \<noteq> []) \<and> distinct (List.map fst es) \<and>
     (\<exists>toks. disk_sizes F = Some (concat (List.map view_words es) @ toks) \<and> ''Selection:'' \<notin> set toks \<and> ''Size:'' \<notin> set toks)"

section \<open>The control block is ready\<close>

definition opened :: "c_memory \<Rightarrow> adc_disk \<Rightarrow> ADC_VIEW_PARS \<Rightarrow> row_file \<Rightarrow> string list \<Rightarrow> ADC_VIEW_CNTL" where
  "opened M F p dat toks = (mem_cntl M)\<lparr>taskNumber := 0, nTopDims := adc_nd p, ndv := adc_nd p, nmv := adc_nm p, nInputRecs := adc_nInputRecs p,
     inpRecSize := GetRecSize (adc_nd p) (adc_nm p), outRecSize := GetRecSize (nv (mem_cntl M)) (adc_nm p), accViewFileOffset := 0,
     totalViewFileSize := 0, numberOfMadeViews := 0, numberOfViewsMadeFromInput := 0, totalOfViewRows := 0, memoryLimitv := adc_memoryLimit p,
     nTasksv := adc_nTasks p, inpf := seek_set 0 dat, viewFile := new_file (disk_room F), fileOfChunks := new_file (disk_room F), groupbyFile := [],
     adcViewSizesFile := toks, viewSizesFile := []\<rparr>"

lemma opened_fields [simp]:
  "nTopDims (opened M F p dat toks) = adc_nd p" "ndv (opened M F p dat toks) = adc_nd p" "nmv (opened M F p dat toks) = adc_nm p"
  "nInputRecs (opened M F p dat toks) = adc_nInputRecs p" "memoryLimitv (opened M F p dat toks) = adc_memoryLimit p" "nTasksv (opened M F p dat toks) = adc_nTasks p"
  "taskNumber (opened M F p dat toks) = 0" "accViewFileOffset (opened M F p dat toks) = 0" "inpf (opened M F p dat toks) = seek_set 0 dat"
  "viewFile (opened M F p dat toks) = new_file (disk_room F)" "fileOfChunks (opened M F p dat toks) = new_file (disk_room F)" "groupbyFile (opened M F p dat toks) = []"
  "adcViewSizesFile (opened M F p dat toks) = toks" "viewSizesFile (opened M F p dat toks) = []" "mSums (opened M F p dat toks) = mSums (mem_cntl M)"
  "checksums (opened M F p dat toks) = checksums (mem_cntl M)" "totchs (opened M F p dat toks) = totchs (mem_cntl M)"
  "selection (opened M F p dat toks) = selection (mem_cntl M)"
  by (simp_all add: opened_def)

lemma NewAdcViewCntl_opened:
  assumes m: "dc_memory M p" and r: "dc_rows F p rows" and f: "disk_dat F = Some dat" "disk_sizes F = Some toks"
  shows "returns (NewAdcViewCntl M F p 0) (\<lambda>(r, c). r = 0 \<and> (\<exists>b. c = Some b \<and> level_pool (opened M F p dat toks) b))"
proof -
  let ?a = "opened M F p dat toks"
  have "returns (init_blocks M ?a) (\<lambda>(r, b). r = 0 \<and> level_pool ?a b)"
    by (rule init_blocks_done) (use m r in \<open>simp_all add: dc_memory_def dc_rows_def\<close>)
  then obtain b where b: "init_blocks M ?a = Some (0, b)" "level_pool ?a b" by (auto elim!: returnsE)
  have "NewAdcViewCntl M F p 0 = Some (0, Some b)"
    unfolding NewAdcViewCntl_def using m b(1) f by (simp add: dc_memory_def opened_def Let_def)
  then show ?thesis using b(2) by simp
qed

text \<open>Given the sets of attributes that \<open>PartitionCube\<close> writes to the file of the group-bys, the cube can be computed.\<close>

lemma opened_ready:
  assumes m: "dc_memory M p" and r: "dc_rows F p rows" and t: "dc_text F p es" and f: "disk_dat F = Some dat" "disk_sizes F = Some toks"
    and b: "level_pool (opened M F p dat toks) b"
  shows "tasks_ok b (length es)" "views_text b es" "mset (List.map (attrs_of b) fl) = mset (List.map fst es) \<Longrightarrow> cube_ready (b\<lparr>groupbyFile := fl\<rparr>) rows"
    "sizes_text (b\<lparr>groupbyFile := fl\<rparr>) es"
proof -
  let ?a = "opened M F p dat toks" and ?b = "b\<lparr>groupbyFile := fl\<rparr>" and ?n = "unat (adc_nd p)"
  have n: "?n \<le> 20" "0 < ?n" using r by (auto simp: dc_rows_def word_le_nat_alt unat_gt_0)
  have p2: "(2 :: nat) ^ ?n \<le> 2 ^ 20" using n by (intro power_increasing) simp_all
  have e: "nTopDims b = adc_nd p" "nmv b = adc_nm p" "nInputRecs b = adc_nInputRecs p" "memoryLimitv b = adc_memoryLimit p" "nTasksv b = adc_nTasks p"
    "taskNumber b = 0" "accViewFileOffset b = 0" "inpf b = seek_set 0 dat" "viewFile b = new_file (disk_room F)" "fileOfChunks b = new_file (disk_room F)"
    "groupbyFile b = []" "adcViewSizesFile b = toks" "viewSizesFile b = []" "nViewLimit b = 2 ^ ?n - 1"
    "length (selection b) = length (selection (mem_cntl M))" "length (mSums b) = length (mSums (mem_cntl M))" "length (checksums b) = length (checksums (mem_cntl M))"
    "length (totchs b) = length (totchs (mem_cntl M))" "length (chunksParams b) = 1024" "tree_kept b (tree b)" "\<forall>i<unat (adc_nm p). totchs b ! i = 0"
    using b unfolding level_pool_def by (auto simp: tree_kept_def)
  have vl: "unat (nViewLimit b) = 2 ^ ?n - 1" using two_power_word [of ?n] n(1) by (simp add: e unat_minus_one)
  obtain ts where ts: "toks = concat (List.map view_words es) @ ts" "''Selection:'' \<notin> set ts" "''Size:'' \<notin> set ts"
    and w: "\<forall>x\<in>set es. words_ok ?n x \<and> fst x \<noteq> []" "distinct (List.map fst es)" using t f(2) unfolding dc_text_def by auto
  have le: "length es < 2 ^ ?n" using sets_count(2) [OF w] .
  have d: "run_at dat 0 rows" "rows_bytes rows \<le> flen dat" using r f(1) by (auto simp: dc_rows_def)
  show "tasks_ok b (length es)" using r le p2 by (simp add: tasks_ok_def e dc_rows_def MAX_NUMBER_OF_TASKS_def word_le_nat_alt)
  show "views_text b es" using w(1) ts le vl unfolding views_text_def e by auto
  show "sizes_text ?b es" using w(1) ts vl r unfolding sizes_text_def dc_rows_def by (auto simp: e)
  assume g: "mset (List.map (attrs_of b) fl) = mset (List.map fst es)"
  have vm: "view_max ?b rows = length rows * row_len p" by (simp add: view_max_def e row_len_def)
  have at: "attrs_of ?b = attrs_of b" by (simp add: attrs_of_def fun_eq_iff)
  note ly = level_pool_layers [OF b, simplified, OF n(1)]
  have same: "slot ?b = slot b" "pop ?b = pop b" "lim ?b = lim b" "layers_apart ?b = layers_apart b" by (rule layers_same; simp)+
  have "cube_sizes ?b rows" using r by (simp add: cube_sizes_def e vm dc_rows_def row_len_def)
  moreover have "length rows * row_len p \<le> disk_room F"
  proof -
    have "1 * (length rows * row_len p) \<le> 2 ^ ?n * (length rows * row_len p)" by (rule mult_right_mono) simp_all
    moreover have "2 ^ ?n * (length rows * row_len p) \<le> disk_room F" using r by (simp add: dc_rows_def)
    ultimately show ?thesis by linarith
  qed
  then have "cube_state ?b rows"
    using m r d ly(1) e(15-21) by (simp add: cube_state_def e vm dc_memory_def dc_rows_def same tree_kept_def new_file_def seek_set_def)
  moreover have "groupbys_ok ?b rows fl"
  proof -
    have lf: "length fl = length es" using arg_cong [OF g, of size] by simp
    have "set (List.map (attrs_of b) fl) = set (List.map fst es)" using g by (rule mset_eq_setD)
    then have ne: "\<forall>x\<in>set fl. attrs_of b x \<noteq> []" using w(1) by (metis (no_types, lifting) image_iff list.set_map)
    have ct: "length (filter (\<lambda>x. length (attrs_of b x) = l) fl) \<le> ?n choose l" for l
    proof -
      have "length (filter (\<lambda>x. length (attrs_of b x) = l) fl) = length (filter (\<lambda>A. length A = l) (List.map (attrs_of b) fl))" by (simp add: filter_map o_def)
      also have "\<dots> = length (filter (\<lambda>A. length A = l) (List.map fst es))" by (rule count_cong [OF g])
      also have "\<dots> \<le> ?n choose l" by (rule sets_count(1) [OF w])
      finally show ?thesis .
    qed
    have "length fl * (length rows * row_len p) \<le> 2 ^ ?n * (length rows * row_len p)" by (rule mult_right_mono) (use lf le in simp_all)
    also have "\<dots> \<le> disk_room F" using r by (simp add: dc_rows_def)
    finally have "length fl * (length rows * row_len p) \<le> disk_room F" .
    moreover have "int (length fl) * (int (length rows) * measbound) \<le> 2 ^ ?n * (int (length rows) * measbound)" using lf le
      by (intro mult_right_mono) (simp_all add: measbound_def flip: of_nat_less_iff)
    then have "int (length fl) * (int (length rows) * measbound) < 2 ^ 63" by (rule le_less_trans) (use r in \<open>simp add: dc_rows_def\<close>)
    ultimately show ?thesis using ne ct ly(2) r unfolding groupbys_ok_def at same vm by (simp add: e dc_rows_def new_file_def)
  qed
  moreover have "unmade ?b" using ly(3) e(21) by (simp add: unmade_def same e new_file_def)
  ultimately show "cube_ready ?b rows" by (simp add: cube_ready_def)
qed

section \<open>The whole program\<close>

definition cube_file :: "nat \<Rightarrow> row list \<Rightarrow> nat list list \<Rightarrow> row list" where
  "cube_file m rows As = concat (List.map (\<lambda>A. view_rows m A rows) As)"

definition sizes_right :: "nat \<Rightarrow> row list \<Rightarrow> (nat list \<times> nat) list \<Rightarrow> bool" where
  "sizes_right m rows es = list_all (\<lambda>(A, s). length (view_rows m A rows) \<in> {0, s, length rows}) es"

lemma views_of_cube_file: "views_of avp rows raws = cube_file (unat (nmv avp)) rows (List.map (attrs_of avp) raws)"
  by (simp add: views_of_def cube_file_def view_of_def [abs_def] o_def)

lemma right_sizes_made:
  assumes "mset (List.map (attrs_of avp) raws) = mset (List.map fst es)"
  shows "(\<forall>e\<in>set es. right_size avp rows raws e) = sizes_right (unat (nmv avp)) rows es"
proof -
  have "set (List.map (attrs_of avp) raws) = set (List.map fst es)" using assms by (rule mset_eq_setD)
  then have "\<exists>r\<in>set raws. attrs_of avp r = fst e" if "e \<in> set es" for e using that by (metis (no_types, lifting) image_iff list.set_map)
  then have "right_size avp rows raws e \<longleftrightarrow> length (view_rows (unat (nmv avp)) (fst e) rows) \<in> {0, snd e, length rows}" if "e \<in> set es" for e
    using that by (auto simp: right_size_def made_rows_def split_def)
  then show ?thesis by (simp add: sizes_right_def list_all_iff split_def)
qed

lemma NewAdcViewCntl_partitioned:
  assumes m: "dc_memory M p" and r: "dc_rows F p rows" and t: "dc_text F p es"
  shows "\<exists>a b. NewAdcViewCntl M F p 0 = Some (0, Some a) \<and> PartitionCube (mem_alloc M) a = Some (0, b) \<and> cube_ready b rows \<and> sizes_text b es \<and>
    nmv b = adc_nm p \<and> mset (List.map (attrs_of b) (groupbyFile b)) = mset (List.map fst es) \<and>
    sorted_wrt (\<lambda>x y. length (attrs_of b y) \<le> length (attrs_of b x)) (groupbyFile b)"
proof -
  obtain dat toks where f: "disk_dat F = Some dat" "disk_sizes F = Some toks" using r t by (auto simp: dc_rows_def dc_text_def)
  obtain a where a: "NewAdcViewCntl M F p 0 = Some (0, Some a)" "level_pool (opened M F p dat toks) a"
    using NewAdcViewCntl_opened [OF m r f] by (auto elim!: returnsE)
  note ready = opened_ready [OF m r t f a(2)]
  have e: "taskNumber a = 0" "nTasksv a = 1" "nmv a = adc_nm p" using a(2) r unfolding level_pool_def dc_rows_def by auto
  have al: "mem_alloc M = (\<lambda>_. True)" using m by (simp add: dc_memory_def fun_eq_iff)
  obtain gs where gs: "mset (List.map (tuple_set a) gs) = mset (List.map fst es)"
    and run: "\<And>k. unat k < unat (nTasksv a) \<Longrightarrow> returns (PartitionCube (\<lambda>_. True) (a\<lparr>taskNumber := k\<rparr>))
      (\<lambda>(r, d). r = 0 \<and> (\<exists>fl. d = a\<lparr>taskNumber := k, groupbyFile := fl\<rparr> \<and> holds_tuples a (dealt (nTasksv a) k gs) fl))"
    using PartitionCube_dealt [OF ready(1,2)] by blast
  have a0: "a\<lparr>taskNumber := 0\<rparr> = a" unfolding e(1) [symmetric] by simp
  obtain fl where fl: "PartitionCube (\<lambda>_. True) a = Some (0, a\<lparr>groupbyFile := fl\<rparr>)" "holds_tuples a (dealt 1 0 gs) fl"
    using run [of 0] unfolding a0 e(2) by (auto simp: a0 elim!: returnsE)
  have "dealt 1 0 gs = gs"
  proof -
    have "fst (task_of 1 i) = 0" for i using task_of_below [of 1 i] by simp
    then show ?thesis by (induction gs rule: rev_induct) simp_all
  qed
  then have "mset (List.map (attrs_of a) fl) = mset (List.map (tuple_set a) gs)"
    using fl(2) by (simp add: holds_tuples_def tuple_set_def [abs_def] image_mset.compositionality o_def)
  then have ms: "mset (List.map (attrs_of a) fl) = mset (List.map fst es)" using gs by simp
  have at: "attrs_of (a\<lparr>groupbyFile := fl\<rparr>) = attrs_of a" by (simp add: attrs_of_def fun_eq_iff)
  show ?thesis
  proof (intro exI conjI)
    show "NewAdcViewCntl M F p 0 = Some (0, Some a)" by (rule a)
    show "PartitionCube (mem_alloc M) a = Some (0, a\<lparr>groupbyFile := fl\<rparr>)" unfolding al by (rule fl)
    show "cube_ready (a\<lparr>groupbyFile := fl\<rparr>) rows" "sizes_text (a\<lparr>groupbyFile := fl\<rparr>) es" by (rule ready(3) [OF ms], rule ready(4))
  qed (use ms fl(2) in \<open>simp_all add: at e(3) holds_tuples_def\<close>)
qed

lemma to_i64_word: "\<bar>x\<bar> < 2 ^ 63 \<Longrightarrow> to_i64 (uint (word_of_int x :: 64 word)) = x"
proof -
  assume "\<bar>x\<bar> < 2 ^ 63"
  then have "to_i64 x = x" by (intro to_i64_in) linarith+
  moreover have "to_i64 (uint (word_of_int x :: 64 word)) = to_i64 x" by (simp add: to_i64_def uint_word_of_int mod_add_left_eq)
  ultimately show ?thesis by simp
qed

lemma DC_runs:
  assumes m: "dc_memory M p" and r: "dc_rows F p rows" and t: "dc_text F p es" and ne: "es \<noteq> []"
  shows "\<exists>As st d. DC M F p = Some (ADC_OK, Some (st, d)) \<and> mset As = mset (List.map fst es) \<and> sorted_wrt (\<lambda>A B. length B \<le> length A) As \<and>
    run_at (viewFile d) 0 (cube_file (unat (adc_nm p)) rows As) \<and> flen (viewFile d) = rows_bytes (cube_file (unat (adc_nm p)) rows As) \<and>
    verificationFailed d = (if sizes_right (unat (adc_nm p)) rows es then 0 else 1) \<and>
    (adc_nm p = 1 \<and> (\<forall>a\<in>set rows. 0 \<le> fst a ! 0) \<and> sizes_right 1 rows es \<longrightarrow>
      pv_verificationFailed st = Verify (\<Sum>A\<leftarrow>As. checks_s 0 (view_rows 1 A rows) 0 0) (adc_clss p))"
proof -
  obtain a b where a: "NewAdcViewCntl M F p 0 = Some (0, Some a)" "PartitionCube (mem_alloc M) a = Some (0, b)"
    and b: "cube_ready b rows" "sizes_text b es" "nmv b = adc_nm p" "mset (List.map (attrs_of b) (groupbyFile b)) = mset (List.map fst es)"
    "sorted_wrt (\<lambda>x y. length (attrs_of b y) \<le> length (attrs_of b x)) (groupbyFile b)"
    using NewAdcViewCntl_partitioned [OF m r t] by blast
  let ?raws = "groupbyFile b" and ?m = "unat (adc_nm p)" and ?As = "List.map (attrs_of b) (groupbyFile b)"
  let ?ok = "sizes_right ?m rows es"
  obtain d e c where c: "ComputeGivenGroupbys b = Some (c, e)" "same_cube b d" "cube_inv d rows ?raws []" "numberOfMadeViews d = of_nat (length ?raws)"
    and e: "e = d\<lparr>tree := (tree d)\<lparr>memPool := \<lambda>_. None\<rparr>, verificationFailed := flag_of d ?ok\<rparr>"
    using compute_runs [OF b(1,2)] ne unfolding right_sizes_made [OF b(4)] b(3) by auto
  have nd: "nmv d = adc_nm p" using c(2) b(3) by (simp add: same_cube_def)
  have I: "cube_sizes d rows" "cube_state d rows" "views_made d rows ?raws" "groupbys_ok b rows ?raws"
    using c(3) b(1) by (simp_all add: cube_inv_def cube_ready_def)
  have mp: "0 < ?m" using r by (auto simp: dc_rows_def unat_gt_0)
  have "?m \<le> length (totchs d)" using I(2) by (simp add: cube_state_def nd)
  then have tl: "0 < length (totchs d)" using mp by linarith
  have v: "run_at (viewFile d) 0 (cube_file ?m rows ?As)" "flen (viewFile d) = rows_bytes (cube_file ?m rows ?As)"
    using I(3) unfolding views_made_def same_cube_views [OF c(2)] views_of_cube_file b(3) by blast+
  have len: "length ?raws = length es" using arg_cong [OF b(4), of size] by simp
  have flag: "flag_of d ?ok = (if ?ok then 0 else 1)"
  proof -
    have "length es < 2 ^ unat (adc_nd p)" using t sets_count(2) unfolding dc_text_def by blast
    also have "\<dots> \<le> 2 ^ 20" using r by (intro power_increasing) (auto simp: dc_rows_def word_le_nat_alt)
    finally have "unat (of_nat (length es) :: 32 word) = length es" by (intro small_word) simp
    then have "(of_nat (length es) :: 32 word) \<noteq> 0" using ne by auto
    then show ?thesis unfolding flag_of_def c(4) len by simp
  qed
  have ag: "aget (totchs e) 0 = Some (totchs d ! 0)" using tl aget_int [of 0 "totchs d"] by (simp add: e)
  obtain st where st: "pv_add e pv_start = Some st" "?ok \<Longrightarrow> pv_checksum st = word_of_int (totchs d ! 0)"
    unfolding pv_add_def using ag flag by (cases ?ok) (simp_all add: e pv_start_def)
  have run: "DC M F p = Some (ADC_OK, Some (st\<lparr>pv_verificationFailed := Verify (to_i64 (uint (pv_checksum st))) (adc_clss p)\<rparr>, e))"
    unfolding DC_def by (simp add: a c(1) st(1))
  have check: "Verify (to_i64 (uint (pv_checksum st))) (adc_clss p) = Verify (\<Sum>A\<leftarrow>?As. checks_s 0 (view_rows 1 A rows) 0 0) (adc_clss p)"
    if k: "adc_nm p = 1 \<and> (\<forall>a\<in>set rows. 0 \<le> fst a ! 0) \<and> sizes_right 1 rows es"
  proof -
    have "\<bar>totchs d ! 0\<bar> \<le> int (length ?raws) * (int (length rows) * measbound)" "totchs d ! 0 = total_check b rows ?raws"
      using I(3) mp k unfolding views_made_def nd same_cube_views [OF c(2)] by auto
    moreover have "int (length ?raws) * (int (length rows) * measbound) < 2 ^ 63" using I(4) by (simp add: groupbys_ok_def)
    moreover have "total_check b rows ?raws = (\<Sum>A\<leftarrow>?As. checks_s 0 (view_rows 1 A rows) 0 0)"
      using k by (simp add: total_check_def view_of_def [abs_def] b(3) o_def)
    ultimately show ?thesis using st(2) k by (simp add: to_i64_word)
  qed
  show ?thesis
  proof (intro exI conjI impI)
    show "DC M F p = Some (ADC_OK, Some (st\<lparr>pv_verificationFailed := Verify (to_i64 (uint (pv_checksum st))) (adc_clss p)\<rparr>, e))" by (rule run)
    show "mset ?As = mset (List.map fst es)" by (rule b(4))
    show "sorted_wrt (\<lambda>A B. length B \<le> length A) ?As" using b(5) by (simp add: sorted_wrt_map)
    show "run_at (viewFile e) 0 (cube_file ?m rows ?As)" "flen (viewFile e) = rows_bytes (cube_file ?m rows ?As)" using v by (simp_all add: e)
    show "verificationFailed e = (if ?ok then 0 else 1)" by (simp add: e flag)
  qed (use check in simp)
qed

text \<open>C2: The whole program computes the data cube: given the rows, the views in the text, and enough memory and room, \<open>DC\<close> returns
  \<open>ADC_OK\<close>; the file of the views holds, one after the other, the rows of the input grouped by every set of attributes
  of the text, each exactly once and those of more attributes first; the flag tells whether the sizes in the text are right; and
  with one measure that is not negative the result of \<open>Verify\<close> is the one for the sum of the checksums of the views.\<close>

theorem cube_from_files:
  assumes "dc_memory M p" "dc_rows F p rows" "dc_text F p es" "es \<noteq> []"
  shows "\<exists>As st d. DC M F p = Some (ADC_OK, Some (st, d)) \<and> mset As = mset (List.map fst es) \<and> sorted_wrt (\<lambda>A B. length B \<le> length A) As \<and>
    run_at (viewFile d) 0 (cube_file (unat (adc_nm p)) rows As) \<and> flen (viewFile d) = rows_bytes (cube_file (unat (adc_nm p)) rows As) \<and>
    verificationFailed d = (if sizes_right (unat (adc_nm p)) rows es then 0 else 1) \<and>
    (adc_nm p = 1 \<and> (\<forall>a\<in>set rows. 0 \<le> fst a ! 0) \<and> sizes_right 1 rows es \<longrightarrow>
      pv_verificationFailed st = Verify (\<Sum>A\<leftarrow>As. checks_s 0 (view_rows 1 A rows) 0 0) (adc_clss p))"
  by (rule DC_runs [OF assms])

section \<open>A small run\<close>

definition small_memory :: c_memory where
  "small_memory = \<lparr>mem_alloc = \<lambda>_. True, mem_cntl = small_cube, mem_tree = raw_tree 20000, mem_chunk = \<lambda>_. no_chunk,
     mem_job = \<lambda>_. \<lparr>jp_grpb = 7, jp_nv = 7, jp_nRows = 7, jp_viewOffset = 7\<rparr>,
     mem_layer = \<lambda>_. \<lparr>layerIndex = 7, layerQuantityLimit = 7, layerCurrentPopulation = 7\<rparr>\<rparr>"

definition small_disk :: adc_disk where
  "small_disk = \<lparr>disk_dat = Some (write_rows small_rows no_file),
     disk_sizes = Some (concat (List.map view_words [([0, 1], 2), ([0], 2), ([1], 1)])), disk_room = 1000\<rparr>"

definition small_pars :: ADC_VIEW_PARS where
  "small_pars = \<lparr>adc_clss = CHR ''S'', adc_nd = 2, adc_nm = 1, adc_nInputRecs = 3, adc_memoryLimit = 20000, adc_nTasks = 1\<rparr>"

lemma small_memory_ok: "dc_memory small_memory small_pars"
  by (simp add: dc_memory_def small_memory_def small_pars_def small_defs raw_tree_def)

lemma small_rows_ok: "dc_rows small_disk small_pars small_rows"
proof -
  have "run_at (write_rows small_rows no_file) 0 small_rows"
    using write_rows_at [of small_rows no_file] by (simp add: small_rows_def solid_def no_file_def row_bytes_def)
  moreover have "rows_bytes small_rows \<le> flen (write_rows small_rows no_file)"
    using write_rows_len [of no_file small_rows] by (simp add: no_file_def)
  moreover have "rec_rows 1 2 small_rows" "length small_rows = 3" "asum small_rows 0 < 100" by (simp_all add: small_rows_def rec_rows_def)
  ultimately show ?thesis by (simp add: dc_rows_def small_disk_def small_pars_def row_len_def measbound_def)
qed

lemma small_text_ok: "dc_text small_disk small_pars [([0, 1], 2), ([0], 2), ([1], 1)]"
  unfolding dc_text_def by (intro conjI exI [where x = "[]"]) (simp_all add: small_disk_def small_pars_def words_ok_def upt_rec)

lemma small_sizes_right: "sizes_right 1 small_rows [([0, 1], 2), ([0], 2), ([1], 1)]"
  by (simp add: sizes_right_def view_rows_def group_upsert [symmetric] add_row_def on_key_def small_rows_def key_of_def)

theorem cube_from_files_witness:
  "\<exists>As st d. DC small_memory small_disk small_pars = Some (ADC_OK, Some (st, d)) \<and> mset As = {#[0, 1], [0], [1]#} \<and>
    run_at (viewFile d) 0 (cube_file 1 small_rows As) \<and> verificationFailed d = 0"
proof -
  have n: "unat (adc_nm small_pars) = 1" by (simp add: small_pars_def)
  obtain As st d where c: "DC small_memory small_disk small_pars = Some (ADC_OK, Some (st, d))" "mset As = mset (List.map fst [([0, 1], 2 :: nat), ([0], 2), ([1], 1)])"
    "run_at (viewFile d) 0 (cube_file 1 small_rows As)" "verificationFailed d = (if sizes_right 1 small_rows [([0, 1], 2), ([0], 2), ([1], 1)] then 0 else 1)"
    using cube_from_files [OF small_memory_ok small_rows_ok small_text_ok, unfolded n] by blast
  have "verificationFailed d = 0" unfolding c(4) using small_sizes_right by (rule if_P)
  moreover have "mset As = {#[0, 1], [0], [1]#}" unfolding c(2) by simp
  ultimately show ?thesis using c(1,3) by blast
qed

end
