(* ===== verification/Spec2Isabelle.thy ===== *)
theory Spec2Isabelle
  imports Bfs_Verified Seq_List Dequeue Uts_Shm_Safe Dt_Deadlock Dt_Numbers Dc_Program
begin

text \<open>
  A verification library for the C programs of this repository.  The programs are the benchmarks that come with the
  Grappa runtime under \<open>src/grappa/applications\<close>: Graph500 (a generator of random graphs, kernels for
  breadth-first search, a checker of their results), the Unbalanced Tree Search UTS, and programs of the NAS
  Parallel Benchmarks NPB.  They run one after another on the same machine but share no state; inside a
  benchmark the parts call each other as the theories import each other.

  \<^bold>\<open>Conventions.\<close>  \<open>C_Prelude\<close> holds what all models share.  A C function is a definition of the same name.  Its
  result is an option: \<open>None\<close> is an execution with undefined behaviour or a failed assertion (an access out of
  bounds, a null pointer, a signed overflow), so \<open>returns f P\<close> says that \<open>f\<close> runs without any and ends with \<open>P\<close>.
  Signed C integers are \<open>int\<close> with a range check (\<open>i32\<close>, \<open>i64\<close>) where they can overflow, unsigned ones are
  machine words or are reduced where the code wraps; division and remainder truncate (\<open>c_quot\<close>, \<open>c_rem\<close>).  Arrays
  are lists read by \<open>aget\<close> and written by \<open>aset\<close>; linked structures live in explicit heaps.  Counting loops
  are \<open>for_range\<close>, loops with a condition \<open>c_while\<close>, which is \<open>None\<close> when the loop does not end, so that
  \<open>returns\<close> includes termination and no fuel appears in a result.  Each loop has an invariant rule
  (\<open>returns_rangeI\<close>, \<open>returns_while\<close>) that carries the proofs.  Floating point is a parameter: \<open>C_Floats\<close> is a
  record of the operations the programs call, and the theorems that depend on their results name the property
  they need.

  \<^bold>\<open>Where the code leaves ISO C.\<close>  Two places rely on what the compiler does with a signed operation that does not fit, and
  take it as a parameter: the left shift of a promoted byte in \<open>rng_rand\<close> (\<open>shl_int\<close>, with \<open>no_shift\<close> for ISO C and
  \<open>wrapped_shift\<close> for GCC) and the products in \<open>ipowMod\<close> (\<open>int_prod\<close> and the field \<open>int_ovf\<close>); the searches of UTS use
  \<open>wrapped_shift\<close>, and DT is treated for every \<open>int_ovf\<close>.  Shifts of negative 64-bit integers (packed edges, the bytes of a
  spawn number) are those of GCC.

  \<^bold>\<open>Bounds.\<close>  Every bound of a theorem is one of its hypotheses.  DT: up to $2^{29}$ sources for the two trees and a power of two
  up to $2^{22}$ for the shuffle, where the node and arc counters of type \<open>int\<close> do not overflow.  UTS with shared memory: chunks of
  less than $2^{30}$ nodes and stacks of at most $2^{30}$; a statistic that reaches $2^{31} - 1$ is an error of the step that counts on, and the
  theorem on the totals assumes a tree of less than $2^{31}$ nodes.  The checker of Graph500: fewer than $2^{60}$ vertices and $2^{31}$ edges.

  \<^bold>\<open>Graph500, the generator\<close> (\<open>graph500/generator\<close>).  \<open>Mod_Arith\<close>: \<open>mod_arith_64bit.h\<close> and \<open>mod_arith_32bit.h\<close>,
  arithmetic modulo $2^{31}-1$ on words; the locale \<open>mod_arith\<close> is their contract, interpreted on both.  \<open>Splittable_Mrg\<close>:
  \<open>splittable_mrg.c\<close>, a linear recurrence of order five with a jump table.  The generated table
  \<open>mrg_transitions.c\<close> enters as the function that prints it.  \<open>Bit_Reverse\<close>: the four variants of \<open>bitreverse\<close>
  and the scrambling of vertex numbers.  \<open>Graph_Generator\<close>: \<open>graph_generator.c\<close> and the seeding of \<open>utils.c\<close>,
  with the packed edges of \<open>graph_generator.h\<close>.

  \<^bold>\<open>Graph500, the kernels and the checker.\<close>  \<open>Bfs_Spec\<close>: what a breadth-first tree of a list of edges is, with no
  reference to the code, and the invariant of a queue-based search (locale \<open>graph\<close>), used by the kernel and the checker.
  \<open>Seq_Csr\<close>: \<open>seq-csr/seq-csr.c\<close>, the compressed rows and the search over them.
  \<open>Seq_List\<close>: \<open>seq-list/seq-list.c\<close>, the same kernel on linked lists.  \<open>Verify_Bfs\<close>: \<open>verify.c\<close>, with the
  five rules of the benchmark, shown to accept the breadth-first trees and nothing else.  \<open>Bfs_Verified\<close> composes
  a kernel with the checker.

  \<^bold>\<open>Unbalanced Tree Search\<close> (\<open>uts\<close>).  \<open>Sha1\<close>: \<open>rng/brg_sha1.c\<close> against SHA-1 as the standard defines it, over all
  ways to cut a message.  \<open>Dequeue\<close>: \<open>dlist.c\<close>, \<open>dequeue.c\<close> and the shared copies, on a heap of cells, refined
  to lists through the locale \<open>deque\<close>, interpreted on both copies.  \<open>Uts_Tree\<close>: \<open>uts.c\<close> and \<open>uts_dfs.c\<close>, tree shapes, command line
  and recursive search, over any random stream that meets the locale \<open>splittable\<close>.  \<open>Uts_Shm\<close>: the work-stealing search of \<open>uts_shm.c\<close> as steps of threads on
  shared stacks, each step as much as the code does under one lock or between two accesses of shared memory;
  \<open>Uts_Shm_Safe\<close>: its invariant, the accounting of the work (the locale \<open>accounting\<close>, interpreted for nodes, leaves and
  chunks) and the barrier.  The interleaving is an inductive step relation and the theorems hold for every schedule.

  \<^bold>\<open>NPB DT\<close> (\<open>NPB/MPI/DT\<close>).  \<open>Dgraph\<close>: \<open>DGraph.c\<close> on a heap of nodes and arcs.  \<open>Dt_Graphs\<close>: the builders of
  \<open>dt.c\<close>, both trees at once in the locale \<open>layered\<close>, and the shuffle.  \<open>Randlc\<close>: \<open>common/randdp.c\<close>.  \<open>Dt_Streams\<close>:
  the work of the nodes and the messages between the processes, as trees of sends and receives.  \<open>Sync_Messages\<close>:
  what a process does whatever its messages hold (\<open>acts\<close>), the exchange of messages with sends that wait, and why
  processes that follow a common order cannot deadlock.  \<open>Dt_Deadlock\<close> applies it to the three graphs; a process that runs
  into undefined behaviour is \<open>Fail\<close>, and the theorem says that a run goes on until all processes have returned unless one is.
  \<open>Dt_Numbers\<close>: \<open>ipowMod\<close>, and the numbers of samples of the class S, which ISO C does not define for three of the four sources.

  \<^bold>\<open>NPB DC\<close> (\<open>NPB/SERIAL/DC\<close>), the data cube: for sets of attributes of a table, the rows grouped by these attributes, with
  the sums of the measures.  \<open>Rbt\<close>: \<open>rbt.c\<close>, red-black trees cut from one block of memory, with the way down in two arrays;
  \<open>Rbt_Ok\<close> and \<open>Rbt_Insert\<close>: the invariant of the tree and of its pool, and that \<open>TreeInsert\<close> refines the insertion
  into a sorted list of rows.  \<open>Dc_Groups\<close>: what a view is (\<open>group_rows\<close>), the algebra of groups, and the tree as a collection of
  groups.  \<open>Dc_View\<close>: \<open>ADC_VIEW_CNTL\<close>, files of rows on a disk of limited size (streams without buffers; the theorems assume room for what
  is written), \<open>RunFormation\<close> and \<open>MultiWayMerge\<close> of
  \<open>extbuild.c\<close>.  \<open>Dc_Files\<close> (writing), \<open>Dc_Runs\<close> (sorted runs), \<open>Dc_Merge\<close> (the buffer of the merge), \<open>Dc_Merged\<close> (a round) and
  \<open>Dc_Sort\<close> (all rounds) follow a view from its rows to the file.  \<open>Dc_Jobs\<close>: \<open>jobcntl.c\<close>, sets of attributes as bits and the
  pool of views; \<open>Dc_Cube\<close>: \<open>ComputeGivenGroupbys\<close> and \<open>ViewSizesVerification\<close>.  \<open>Dc_Making\<close>: one view, from memory or from runs;
  \<open>Dc_Tuples\<close>: the representations of a set; \<open>Dc_Parents\<close>: the search for a parent; \<open>Dc_Views\<close>: a view of a view is a view, and
  the levels of the pool; \<open>Dc_Cubes\<close>: the invariant of the loop over the views; \<open>Dc_Sizes\<close>: the check of the sizes and the
  theorem on the whole computation.  \<open>Heap_Sort\<close>: the heap sort that \<open>jobcntl.c\<close> writes out for two keys; \<open>Dc_Partition\<close> and
  \<open>Dc_Dealt\<close>: \<open>PartitionCube\<close>, which deals the views out to the tasks, and that it partitions them.  \<open>Dc_Main\<close>: \<open>NewAdcViewCntl\<close> and
  the driver \<open>DC\<close> with \<open>Verify\<close>; \<open>Dc_Program\<close>: the levels of the pool are the binomial coefficients, the control block satisfies what
  the computation needs, and the program from its files to its views.  The bounds of the theorem: at most 20 attributes and 4 measures, sums below
  $2^{63}$, views below 4 GiB, memory for 1024 buffered rows, and fewer rows than 1023 chunks of the memory take (\<open>cube_sizes\<close>); with less
  memory the code reports an error, which no theorem covers.

  \<^bold>\<open>Not modelled.\<close>  Output, timers, command lines and checkpoint files where they only report.  The Grappa runtime and
  its applications are C++, the second tree under \<open>src/Projects\<close> is a copy of the first, the Linux files there are the
  kernel's own, and \<open>mrg_transitions.c\<close> is generated.  The MTA, XMT and Grappa variants of the loops use
  intrinsics of those systems that are not in the repository.  Of DC, the variants under \<open>IN_CORE\<close> and \<open>OPTIMIZATION\<close>, which
  \<open>adc.h\<close> leaves off, the names of files, the report and the generator of the input; of the remaining benchmarks, IS and the
  searches by messages of UTS.
\<close>

end
